(* ===== verification/Midfall_Prelude.thy ===== *)
theory Midfall_Prelude
  imports Complex_Main "HOL-Library.Word"
begin

text \<open>
  The prelude of the development: how the effects of the Rust sources are written down in HOL,
  and the lemmas on lists, options and iterators that the component theories share.

  \<^item> A function that returns \<open>Result<T, E>\<close> and may also panic (index out of range, \<open>unwrap\<close> of
    \<open>None\<close>, a failed \<open>assert!\<close>) is of type \<open>('e, 'a) outcome\<close>: \<open>Ok\<close>, \<open>Err\<close> or \<open>Panic\<close>.
  \<^item> A function that only panics is of type \<open>'a option\<close>, with \<open>None\<close> for the panic.
  \<^item> A Rust iterator chain is a list function; \<open>position\<close>, \<open>entry(..).or_insert\<close> and checked
    indexing are defined here because the components all use them.
\<close>

section \<open>Collections of rewrite rules\<close>

named_theorems outcome_simps \<open>evaluation of the outcome monad\<close>
named_theorems vec_simps \<open>Rust slice and vector operations\<close>

section \<open>Results and panics\<close>

datatype ('e, 'a) outcome = Ok 'a | Err 'e | Panic

fun bind_outcome :: "('e, 'a) outcome \<Rightarrow> ('a \<Rightarrow> ('e, 'b) outcome) \<Rightarrow> ('e, 'b) outcome" where
  "bind_outcome (Ok x) f = f x"
| "bind_outcome (Err e) f = Err e"
| "bind_outcome Panic f = Panic"

fun map_outcome_list :: "('a \<Rightarrow> ('e, 'b) outcome) \<Rightarrow> 'a list \<Rightarrow> ('e, 'b list) outcome" where
  "map_outcome_list f [] = Ok []"
| "map_outcome_list f (x # xs) =
     bind_outcome (f x) (\<lambda>y. bind_outcome (map_outcome_list f xs) (\<lambda>ys. Ok (y # ys)))"

lemma bind_outcome_Ok_iff [outcome_simps]:
  "bind_outcome m f = Ok y \<longleftrightarrow> (\<exists>x. m = Ok x \<and> f x = Ok y)"
  by (cases m) auto

lemma bind_outcome_Panic_iff [outcome_simps]:
  "bind_outcome m f = Panic \<longleftrightarrow> m = Panic \<or> (\<exists>x. m = Ok x \<and> f x = Panic)"
  by (cases m) auto

lemma bind_outcome_assoc:
  "bind_outcome (bind_outcome m f) g = bind_outcome m (\<lambda>x. bind_outcome (f x) g)"
  by (cases m) auto

lemma map_outcome_list_Ok_iff:
  "map_outcome_list f xs = Ok ys \<longleftrightarrow> list_all2 (\<lambda>x y. f x = Ok y) xs ys"
  by (induction xs arbitrary: ys) (auto simp: outcome_simps list_all2_Cons1)

lemma map_outcome_list_length:
  "map_outcome_list f xs = Ok ys \<Longrightarrow> length ys = length xs"
  by (simp add: map_outcome_list_Ok_iff list_all2_lengthD)

section \<open>Slices and vectors\<close>

text \<open>Checked indexing: \<open>None\<close> is the panic of \<open>xs[i]\<close> out of range.\<close>

definition index_opt :: "'a list \<Rightarrow> nat \<Rightarrow> 'a option" where
  "index_opt xs i = (if i < length xs then Some (xs ! i) else None)"

lemma index_opt_Some [vec_simps]:
  "index_opt xs i = Some x \<longleftrightarrow> i < length xs \<and> xs ! i = x"
  by (auto simp: index_opt_def)

text \<open>\<open>iter().position(p)\<close>: the index of the first element that satisfies \<open>p\<close>.\<close>

fun position :: "('a \<Rightarrow> bool) \<Rightarrow> 'a list \<Rightarrow> nat option" where
  "position p [] = None"
| "position p (x # xs) = (if p x then Some 0 else map_option Suc (position p xs))"

lemma position_None_iff [vec_simps]: "position p xs = None \<longleftrightarrow> (\<forall>x\<in>set xs. \<not> p x)"
  by (induction xs) auto

lemma position_SomeD:
  "position p xs = Some i \<Longrightarrow> i < length xs \<and> p (xs ! i) \<and> (\<forall>j<i. \<not> p (xs ! j))"
proof (induction xs arbitrary: i)
  case Nil
  then show ?case by simp
next
  case (Cons x xs)
  show ?case
  proof (cases "p x")
    case True
    with Cons.prems show ?thesis by simp
  next
    case False
    with Cons.prems obtain k where k: "position p xs = Some k" "i = Suc k" by auto
    from Cons.IH [OF k(1)] False k(2) show ?thesis
      by (auto simp: nth_Cons split: nat.splits)
  qed
qed

lemma position_lt: "position p xs = Some i \<Longrightarrow> i < length xs"
  by (simp add: position_SomeD)

lemma position_holds: "position p xs = Some i \<Longrightarrow> p (xs ! i)"
  by (simp add: position_SomeD)

lemma position_append_left: "position p xs = Some i \<Longrightarrow> position p (xs @ ys) = Some i"
  by (induction xs arbitrary: i) (auto split: if_splits)

lemma position_append_new:
  "position p xs = None \<Longrightarrow> p y \<Longrightarrow> position p (xs @ [y]) = Some (length xs)"
  by (induction xs) (auto split: if_splits)

lemma position_eq_distinct:
  "distinct xs \<Longrightarrow> i < length xs \<Longrightarrow> position (\<lambda>y. y = xs ! i) xs = Some i"
proof (induction xs arbitrary: i)
  case Nil
  then show ?case by simp
next
  case (Cons x xs)
  then show ?case by (cases i) (auto simp: nth_eq_iff_index_eq)
qed

text \<open>\<open>filter_map(|d| d)\<close>: the values that are present.\<close>

fun somes :: "'a option list \<Rightarrow> 'a list" where
  "somes [] = []"
| "somes (None # ds) = somes ds"
| "somes (Some d # ds) = d # somes ds"

text \<open>\<open>iter().find(p)\<close> is \<open>List.find\<close>; the facts the components use of it.\<close>

lemma find_SomeD: "find p xs = Some x \<Longrightarrow> x \<in> set xs \<and> p x"
  by (induction xs) (auto split: if_splits)

lemma find_NoneD: "find p xs = None \<Longrightarrow> x \<in> set xs \<Longrightarrow> \<not> p x"
  by (simp add: find_None_iff)

lemma nth_append_left_of_lt: "i < length xs \<Longrightarrow> (xs @ ys) ! i = xs ! i"
  by (simp add: nth_append)

section \<open>Iterators over indices and chunks\<close>

text \<open>\<open>iter().enumerate().map(|(i, x)| g(off + i, x))\<close>.\<close>

fun imap :: "nat \<Rightarrow> (nat \<Rightarrow> 'a \<Rightarrow> 'b) \<Rightarrow> 'a list \<Rightarrow> 'b list" where
  "imap off g [] = []"
| "imap off g (x # xs) = g off x # imap (Suc off) g xs"

lemma length_imap [simp]: "length (imap off g xs) = length xs"
  by (induction xs arbitrary: off) auto

lemma imap_append: "imap off g (xs @ ys) = imap off g xs @ imap (off + length xs) g ys"
  by (induction xs arbitrary: off) auto

lemma nth_imap: "i < length xs \<Longrightarrow> imap off g xs ! i = g (off + i) (xs ! i)"
proof (induction xs arbitrary: off i)
  case Nil
  then show ?case by simp
next
  case (Cons x xs)
  then show ?case by (cases i) auto
qed

text \<open>\<open>slice::chunks(n)\<close>; the caller models the panic on \<open>n = 0\<close>.\<close>

function chunks :: "nat \<Rightarrow> 'a list \<Rightarrow> 'a list list" where
  "chunks n xs = (if n = 0 \<or> xs = [] then [] else take n xs # chunks n (drop n xs))"
  by pat_completeness auto
termination
  by (relation "measure (\<lambda>(n, xs). length xs)") auto

declare chunks.simps [simp del]

lemma chunks_Nil [simp]: "chunks n [] = []"
  by (simp add: chunks.simps)

lemma concat_chunks: "0 < n \<Longrightarrow> concat (chunks n xs) = xs"
proof (induction n xs rule: chunks.induct)
  case (1 n xs)
  then show ?case by (cases "xs = []") (simp_all add: chunks.simps [of n xs])
qed

lemma length_chunks: "0 < n \<Longrightarrow> length xs \<le> n * t \<Longrightarrow> length (chunks n xs) \<le> t"
proof (induction n xs arbitrary: t rule: chunks.induct)
  case (1 n xs)
  show ?case
  proof (cases "xs = []")
    case True
    then show ?thesis by (simp add: chunks.simps)
  next
    case False
    with "1.prems" obtain t' where t: "t = Suc t'" by (cases t) auto
    with "1.prems" have "length (drop n xs) \<le> n * t'" by simp
    with "1.IH" "1.prems" False have "length (chunks n (drop n xs)) \<le> t'" by simp
    with "1.prems" False t show ?thesis by (simp add: chunks.simps [of n xs])
  qed
qed

text \<open>Iterating over chunks and over indices.\<close>

lemma imap_map: "imap off g (map f xs) = imap off (\<lambda>i x. g i (f x)) xs"
  by (induction xs arbitrary: off) auto

lemma imap_imap: "imap off g (imap off f xs) = imap off (\<lambda>i x. g i (f i x)) xs"
  by (induction xs arbitrary: off) auto

lemma imap_id: "imap off (\<lambda>i x. x) xs = xs"
  by (induction xs arbitrary: off) auto

lemma imap_cong:
  "(\<And>i x. off \<le> i \<Longrightarrow> i < off + length xs \<Longrightarrow> f i x = g i x) \<Longrightarrow> imap off f xs = imap off g xs"
  by (rule nth_equalityI) (simp_all add: nth_imap)

lemma chunks_map: "chunks n (map f xs) = map (map f) (chunks n xs)"
proof (induction n xs rule: chunks.induct)
  case (1 n xs)
  then show ?case
    by (cases "n = 0 \<or> xs = []") (auto simp: chunks.simps [of n xs] chunks.simps [of n "map f xs"] take_map drop_map)
qed

lemma chunks_full: "Suc i < length (chunks n xs) \<Longrightarrow> length (chunks n xs ! i) = n"
proof (induction n xs arbitrary: i rule: chunks.induct)
  case (1 n xs)
  show ?case
  proof (cases "n = 0 \<or> xs = []")
    case True
    with "1.prems" show ?thesis by (auto simp: chunks.simps)
  next
    case False
    then have c: "chunks n xs = take n xs # chunks n (drop n xs)" by (simp add: chunks.simps [of n xs])
    show ?thesis
    proof (cases i)
      case 0
      with "1.prems" c have "chunks n (drop n xs) \<noteq> []" by auto
      then have "n < length xs" by (cases "n < length xs") auto
      with 0 c show ?thesis by simp
    next
      case (Suc j)
      with "1.prems" c "1.IH" [of j] False show ?thesis by simp
    qed
  qed
qed

lemma chunks_imap_offset:
  "0 < n \<Longrightarrow> concat (imap k (\<lambda>j chunk. imap (j * n) f chunk) (chunks n xs)) = imap (k * n) f xs"
proof (induction n xs arbitrary: k rule: chunks.induct)
  case (1 n xs)
  show ?case
  proof (cases "xs = []")
    case False
    have "imap (k * n) f xs = imap (k * n) f (take n xs) @ imap (k * n + length (take n xs)) f (drop n xs)"
      using imap_append [of "k * n" f "take n xs" "drop n xs"] by simp
    also have "imap (k * n + length (take n xs)) f (drop n xs) = imap (Suc k * n) f (drop n xs)"
      by (cases "length xs \<le> n") (simp_all add: add.commute)
    finally show ?thesis
      using "1.IH" [of "Suc k"] "1.prems" False by (simp add: chunks.simps [of n xs])
  qed simp
qed

lemma nth_chunks:
  assumes "0 < n" "j < length (chunks n xs)"
  shows "chunks n xs ! j = take n (drop (j * n) xs) \<and> j * n < length xs"
  using assms
proof (induction n xs arbitrary: j rule: chunks.induct)
  case (1 n xs)
  show ?case
  proof (cases "xs = []")
    case True
    with "1.prems" show ?thesis by simp
  next
    case False
    then have c: "chunks n xs = take n xs # chunks n (drop n xs)" using "1.prems"(1) by (simp add: chunks.simps [of n xs])
    show ?thesis
    proof (cases j)
      case 0
      with c False show ?thesis by simp
    next
      case (Suc i)
      with "1.IH" [of i] "1.prems" c False show ?thesis by (auto simp: add.commute)
    qed
  qed
qed

lemma those_append: "those xs = Some a \<Longrightarrow> those ys = Some b \<Longrightarrow> those (xs @ ys) = Some (a @ b)"
  by (induction xs arbitrary: a) (auto split: option.splits)

lemma those_imap_Some: "those (imap off (\<lambda>i x. Some (f i x)) xs) = Some (imap off f xs)"
  by (induction xs arbitrary: off) auto

lemma those_imap_cong:
  assumes "\<And>i. i < length xs \<Longrightarrow> f (off + i) (xs ! i) = Some (g (off + i) (xs ! i))"
  shows "those (imap off f xs) = Some (imap off g xs)"
  using assms
proof (induction xs arbitrary: off)
  case (Cons x xs)
  have "f off x = Some (g off x)" using Cons.prems [of 0] by simp
  moreover have "those (imap (Suc off) f xs) = Some (imap (Suc off) g xs)"
    using Cons.prems [of "Suc _"] by (intro Cons.IH) simp
  ultimately show ?case by simp
qed simp

end
