(* ===== verification/Rational_Value.thy ===== *)
theory Rational_Value
  imports Midfall_Prelude
begin

text \<open>
  The rational values of \<open>proofs/src/utils/rational.rs\<close>, by which a chip assigns a quotient
  without inverting, and the batch inversion of \<open>proofs/src/poly/mod.rs\<close> that turns an assigned
  column into field elements. The trait \<open>ff::Field\<close> is the type class \<open>field\<close>; its \<open>invert\<close>,
  which has no inverse of zero, is \<open>field_invert\<close>.

  \<open>evaluate\<close> is the abstraction function: every operation on rationals is shown to implement the
  field operation it is named after, including the convention that a zero denominator denotes
  zero. The laws are stated once, as the locale \<open>field_implementation\<close>.
\<close>

section \<open>Data and operations\<close>

datatype 'f rational = Zero | Trivial 'f | Rational 'f 'f

definition field_invert :: "'f::field \<Rightarrow> 'f option" where
  "field_invert x = (if x = 0 then None else Some (inverse x))"

fun is_zero_vartime :: "'f::field rational \<Rightarrow> bool" where
  "is_zero_vartime Zero = True"
| "is_zero_vartime (Trivial x) = (x = 0)"
| "is_zero_vartime (Rational n d) = (n = 0 \<or> d = 0)"

fun rational_eq :: "'f::field rational \<Rightarrow> 'f rational \<Rightarrow> bool" where
  "rational_eq Zero Zero = True"
| "rational_eq Zero x = is_zero_vartime x"
| "rational_eq x Zero = is_zero_vartime x"
| "rational_eq (Trivial lhs) (Trivial rhs) = (lhs = rhs)"
| "rational_eq (Trivial x) (Rational n d) =
     (if d = 0 then is_zero_vartime (Trivial x) else x * d = n)"
| "rational_eq (Rational n d) (Trivial x) =
     (if d = 0 then is_zero_vartime (Trivial x) else x * d = n)"
| "rational_eq (Rational n1 d1) (Rational n2 d2) =
     (if d1 = 0 then is_zero_vartime (Rational n2 d2)
      else if d2 = 0 then is_zero_vartime (Rational n1 d1)
      else n1 * d2 = d1 * n2)"

fun rational_neg :: "'f::field rational \<Rightarrow> 'f rational" where
  "rational_neg Zero = Zero"
| "rational_neg (Trivial n) = Trivial (- n)"
| "rational_neg (Rational n d) = Rational (- n) d"

fun rational_add :: "'f::field rational \<Rightarrow> 'f rational \<Rightarrow> 'f rational" where
  "rational_add Zero rhs = rhs"
| "rational_add lhs Zero = lhs"
| "rational_add (Trivial lhs) (Trivial rhs) = Trivial (lhs + rhs)"
| "rational_add (Rational n d) (Trivial x) =
     (if d = 0 then Trivial x else Rational (n + d * x) d)"
| "rational_add (Trivial x) (Rational n d) =
     (if d = 0 then Trivial x else Rational (n + d * x) d)"
| "rational_add (Rational n1 d1) (Rational n2 d2) =
     (if d1 = 0 then Rational n2 d2
      else if d2 = 0 then Rational n1 d1
      else Rational (n1 * d2 + d1 * n2) (d1 * d2))"

definition rational_sub :: "'f::field rational \<Rightarrow> 'f rational \<Rightarrow> 'f rational" where
  "rational_sub lhs rhs = rational_add lhs (rational_neg rhs)"

fun rational_mul :: "'f::field rational \<Rightarrow> 'f rational \<Rightarrow> 'f rational" where
  "rational_mul Zero rhs = Zero"
| "rational_mul lhs Zero = Zero"
| "rational_mul (Trivial lhs) (Trivial rhs) = Trivial (lhs * rhs)"
| "rational_mul (Rational n d) (Trivial x) = Rational (n * x) d"
| "rational_mul (Trivial x) (Rational n d) = Rational (n * x) d"
| "rational_mul (Rational n1 d1) (Rational n2 d2) = Rational (n1 * n2) (d1 * d2)"

text \<open>The mixed operators with a field element on the right.\<close>

definition rational_add_field :: "'f::field rational \<Rightarrow> 'f \<Rightarrow> 'f rational" where
  "rational_add_field lhs rhs = rational_add lhs (Trivial rhs)"

definition rational_sub_field :: "'f::field rational \<Rightarrow> 'f \<Rightarrow> 'f rational" where
  "rational_sub_field lhs rhs = rational_add_field lhs (- rhs)"

definition rational_mul_field :: "'f::field rational \<Rightarrow> 'f \<Rightarrow> 'f rational" where
  "rational_mul_field lhs rhs = rational_mul lhs (Trivial rhs)"

fun numerator :: "'f::field rational \<Rightarrow> 'f" where
  "numerator Zero = 0"
| "numerator (Trivial x) = x"
| "numerator (Rational n d) = n"

fun denominator :: "'f::field rational \<Rightarrow> 'f option" where
  "denominator Zero = None"
| "denominator (Trivial x) = None"
| "denominator (Rational n d) = Some d"

fun rational_double :: "'f::field rational \<Rightarrow> 'f rational" where
  "rational_double Zero = Zero"
| "rational_double (Trivial x) = Trivial (x + x)"
| "rational_double (Rational n d) = Rational (n + n) d"

fun rational_square :: "'f::field rational \<Rightarrow> 'f rational" where
  "rational_square Zero = Zero"
| "rational_square (Trivial x) = Trivial (x * x)"
| "rational_square (Rational n d) = Rational (n * n) (d * d)"

definition rational_cube :: "'f::field rational \<Rightarrow> 'f rational" where
  "rational_cube x = rational_mul (rational_square x) x"

fun rational_invert :: "'f::field rational \<Rightarrow> 'f rational" where
  "rational_invert Zero = Zero"
| "rational_invert (Trivial x) = Rational 1 x"
| "rational_invert (Rational n d) = Rational d n"

fun evaluate :: "'f::field rational \<Rightarrow> 'f" where
  "evaluate Zero = 0"
| "evaluate (Trivial x) = x"
| "evaluate (Rational n d) =
     (if d = 1 then n
      else n * (case field_invert d of None \<Rightarrow> 0 | Some i \<Rightarrow> i))"

section \<open>The field a rational denotes\<close>

text \<open>
  The contract of a data type that implements field arithmetic: a value \<open>abs x\<close> for every
  representation, and one law per operation. What a client computes with the operations
  denotes what the same computation gives in the field.
\<close>

locale field_implementation =
  fixes abs :: "'r \<Rightarrow> 'f::field"
    and zero :: 'r
    and of_field :: "'f \<Rightarrow> 'r"
    and neg :: "'r \<Rightarrow> 'r"
    and add :: "'r \<Rightarrow> 'r \<Rightarrow> 'r"
    and mul :: "'r \<Rightarrow> 'r \<Rightarrow> 'r"
    and inv :: "'r \<Rightarrow> 'r"
    and eq :: "'r \<Rightarrow> 'r \<Rightarrow> bool"
  assumes abs_zero: "abs zero = 0"
    and abs_of_field: "abs (of_field c) = c"
    and abs_neg: "abs (neg x) = - abs x"
    and abs_add: "abs (add x y) = abs x + abs y"
    and abs_mul: "abs (mul x y) = abs x * abs y"
    and abs_inv: "abs (inv x) = inverse (abs x)"
    and eq_iff: "eq x y \<longleftrightarrow> abs x = abs y"
begin

lemma abs_sum_fold: "abs (fold (\<lambda>x acc. add acc x) xs acc) = abs acc + sum_list (map abs xs)"
  by (induction xs arbitrary: acc) (simp_all add: abs_add add.assoc)

lemma abs_horner_fold:
  "abs (fold (\<lambda>x acc. add (mul acc c) x) xs acc) = fold (\<lambda>x acc. acc * abs c + abs x) xs (abs acc)"
  by (induction xs arbitrary: acc) (simp_all add: abs_add abs_mul)

lemma eq_equivp: "equivp eq"
  by (rule equivpI) (auto simp: reflp_def symp_def transp_def eq_iff)

lemma eq_congruence:
  assumes "eq a a'" and "eq b b'"
  shows "eq (add a b) (add a' b')" and "eq (mul a b) (mul a' b')"
    and "eq (neg a) (neg a')" and "eq (inv a) (inv a')"
  using assms by (simp_all add: eq_iff abs_add abs_mul abs_neg abs_inv)

end

lemma evaluate_Rational: "evaluate (Rational n d) = n * inverse d"
  by (simp add: field_invert_def)

declare evaluate.simps(3) [simp del]
declare evaluate_Rational [simp]

lemma is_zero_vartime_iff: "is_zero_vartime x \<longleftrightarrow> evaluate x = 0"
  by (cases x) auto

lemma rational_eq_iff: "rational_eq x y \<longleftrightarrow> evaluate x = evaluate y"
  by (induction x y rule: rational_eq.induct) (auto simp: field_simps)

lemma evaluate_neg: "evaluate (rational_neg x) = - evaluate x"
  by (cases x) auto

lemma evaluate_add: "evaluate (rational_add x y) = evaluate x + evaluate y"
  by (induction x y rule: rational_add.induct) (auto simp: field_simps)

lemma evaluate_mul: "evaluate (rational_mul x y) = evaluate x * evaluate y"
  by (induction x y rule: rational_mul.induct) (auto simp: field_simps)

lemma evaluate_invert: "evaluate (rational_invert x) = inverse (evaluate x)"
  by (cases x) (auto simp: field_simps)

interpretation rat: field_implementation evaluate Zero Trivial rational_neg rational_add
    rational_mul rational_invert rational_eq
  by unfold_locales
    (simp_all add: evaluate_neg evaluate_add evaluate_mul evaluate_invert rational_eq_iff)

lemmas evaluate_ops = rat.abs_neg rat.abs_add rat.abs_mul rat.abs_inv

lemma evaluate_sub: "evaluate (rational_sub x y) = evaluate x - evaluate y"
  by (simp add: rational_sub_def evaluate_ops)

lemma evaluate_double: "evaluate (rational_double x) = evaluate x + evaluate x"
  by (cases x) (simp_all add: distrib_right)

lemma evaluate_square: "evaluate (rational_square x) = evaluate x * evaluate x"
  by (cases x) (simp_all add: nonzero_inverse_mult_distrib field_simps)

lemma evaluate_cube: "evaluate (rational_cube x) = evaluate x ^ 3"
  by (simp add: rational_cube_def evaluate_ops evaluate_square power3_eq_cube)

lemma evaluate_numerator_denominator:
  "evaluate x = numerator x * (case denominator x of None \<Rightarrow> 1 | Some d \<Rightarrow> inverse d)"
  by (cases x) simp_all

section \<open>Batch inversion of assigned columns\<close>

text \<open>
  \<open>batch_invert_rational\<close> collects the denominators that are present, inverts them in one batch
  and multiplies the numerators by what comes back. \<open>BatchInvert\<close> belongs to the \<open>ff\<close> crate: it is
  the parameter \<open>batch_invert\<close>, a function from the values behind the iterator of mutable
  references to the values left there. \<open>restore_row\<close> is the effect of those references: the batch
  writes each result back where its input came from.
\<close>

fun restore_row :: "'f option list \<Rightarrow> 'f list \<Rightarrow> 'f option list \<times> 'f list" where
  "restore_row [] is = ([], is)"
| "restore_row (None # ds) is =
     (let (row, rest) = restore_row ds is in (None # row, rest))"
| "restore_row (Some d # ds) [] = (Some d # ds, [])"
| "restore_row (Some d # ds) (i # is) =
     (let (row, rest) = restore_row ds is in (Some i # row, rest))"

fun restore_rows :: "'f option list list \<Rightarrow> 'f list \<Rightarrow> 'f option list list" where
  "restore_rows [] is = []"
| "restore_rows (r # rs) is =
     (let (row, rest) = restore_row r is in row # restore_rows rs rest)"

definition poly_invert :: "'f::field rational list \<Rightarrow> 'f list \<Rightarrow> 'f list option" where
  "poly_invert vals inv_denoms =
     (if length inv_denoms \<noteq> length vals then None
      else Some (map2 (\<lambda>a inv_den. numerator a * inv_den) vals inv_denoms))"

definition batch_invert_rational ::
    "('f list \<Rightarrow> 'f list) \<Rightarrow> 'f::field rational list list \<Rightarrow> 'f list list option" where
  "batch_invert_rational batch_invert assigned =
     (let denoms = map (map denominator) assigned;
          inverted = restore_rows denoms
            (batch_invert (concat (map somes denoms)))
      in those (map2 (\<lambda>poly inv_denoms.
            poly_invert poly (map (\<lambda>d. case d of None \<Rightarrow> 1 | Some i \<Rightarrow> i) inv_denoms))
          assigned inverted))"

lemma restore_row_map:
  "restore_row ds (map g (somes ds) @ rest) = (map (map_option g) ds, rest)"
  by (induction ds rule: somes.induct) auto

lemma restore_rows_map:
  "restore_rows rs (map g (concat (map somes rs))) = map (map (map_option g)) rs"
  by (induction rs) (simp_all add: restore_row_map)

lemma poly_invert_evaluate:
  "poly_invert vals (map (\<lambda>d. case d of None \<Rightarrow> 1 | Some i \<Rightarrow> i)
      (map (map_option inverse) (map denominator vals))) = Some (map evaluate vals)"
proof -
  have "map2 (\<lambda>a inv_den. numerator a * inv_den) vals (map (\<lambda>d. case d of None \<Rightarrow> 1 | Some i \<Rightarrow> i)
      (map (map_option inverse) (map denominator vals))) = map evaluate vals"
    by (induction vals)
      (auto simp: evaluate_numerator_denominator split: option.splits)
  then show ?thesis by (simp add: poly_invert_def)
qed

lemma those_map_SomeI: "those (map (\<lambda>x. Some (f x)) xs) = Some (map f xs)"
  by (induction xs) auto

lemma batch_invert_rational_evaluate:
  assumes "\<And>xs. batch_invert xs = map inverse xs"
  shows "batch_invert_rational batch_invert assigned = Some (map (map evaluate) assigned)"
proof -
  have "batch_invert_rational batch_invert assigned =
      those (map (\<lambda>poly. Some (map evaluate poly)) assigned)"
    unfolding batch_invert_rational_def Let_def assms restore_rows_map
    by (intro arg_cong [where f = those], induction assigned)
      (simp_all add: poly_invert_evaluate [simplified])
  then show ?thesis by (simp add: those_map_SomeI)
qed

section \<open>Properties\<close>

text \<open>
  Every operation on rational values denotes the field operation it is named after, a zero
  denominator denoting zero throughout, and the equality test decides equality of the denoted
  field elements.
\<close>

theorem rational_operations_denote_field_operations:
  fixes x y :: "'f::field rational"
  shows "evaluate (rational_neg x) = - evaluate x
    \<and> evaluate (rational_add x y) = evaluate x + evaluate y
    \<and> evaluate (rational_sub x y) = evaluate x - evaluate y
    \<and> evaluate (rational_mul x y) = evaluate x * evaluate y
    \<and> evaluate (rational_add_field x c) = evaluate x + c
    \<and> evaluate (rational_sub_field x c) = evaluate x - c
    \<and> evaluate (rational_mul_field x c) = evaluate x * c
    \<and> evaluate (rational_double x) = 2 * evaluate x
    \<and> evaluate (rational_square x) = (evaluate x)\<^sup>2
    \<and> evaluate (rational_cube x) = evaluate x ^ 3
    \<and> evaluate (rational_invert x) = inverse (evaluate x)
    \<and> (is_zero_vartime x \<longleftrightarrow> evaluate x = 0)
    \<and> (rational_eq x y \<longleftrightarrow> evaluate x = evaluate y)"
  by (simp add: evaluate_ops evaluate_sub evaluate_double evaluate_square evaluate_cube
      rational_add_field_def rational_sub_field_def rational_mul_field_def is_zero_vartime_iff
      rat.eq_iff power2_eq_square)

text \<open>
  Batch inversion of assigned columns does not panic and gives, cell by cell, the value the
  rational denotes, provided \<open>BatchInvert\<close> inverts the nonzero elements in place and leaves zeros.
\<close>

theorem batch_invert_rational_correct:
  fixes assigned :: "'f::field rational list list"
  assumes "\<And>xs. batch_invert xs = map (\<lambda>x. if x = 0 then x else inverse x) xs"
  shows "batch_invert_rational batch_invert assigned = Some (map (map evaluate) assigned)"
proof (rule batch_invert_rational_evaluate)
  show "batch_invert xs = map inverse xs" for xs unfolding assms by auto
qed

theorem batch_invert_rational_correct_witness:
  "batch_invert_rational (map (\<lambda>x. if x = 0 then x else inverse x))
     [[Rational 3 4, Zero, Rational 5 0], [Trivial 7, Rational 2 8, Trivial 0]]
   = Some [[3 / 4, 0, 0], [7, 1 / 4, 0 :: rat]]"
  by (subst batch_invert_rational_correct) simp_all

end
