(* ===== verification/Poly_Arith.thy ===== *)
theory Poly_Arith
  imports Midfall_Prelude
begin

text \<open>
  The polynomial arithmetic of \<open>proofs/src/utils/arithmetic.rs\<close>: evaluation in coefficient form,
  division by a linear factor, Lagrange interpolation, inner products, and the work splitting of
  \<open>parallelize\<close> on which the prover's column operations run.

  A polynomial is its list of coefficients, lowest degree first, and \<open>poly_eval\<close> is the value
  it denotes. The number of threads of the pool is the parameter \<open>num_threads\<close>; the results are
  proved equal for every positive number of threads. A task of a \<open>rayon::scope\<close> owns its chunk,
  so a scope is the list of its tasks' results, in any order.
\<close>

section \<open>The polynomial a coefficient list denotes\<close>

fun poly_eval :: "'f::comm_ring_1 list \<Rightarrow> 'f \<Rightarrow> 'f" where
  "poly_eval [] x = 0"
| "poly_eval (c # cs) x = c + x * poly_eval cs x"

lemma poly_eval_sum: "poly_eval p x = (\<Sum>i<length p. p ! i * x ^ i)"
proof (induction p)
  case Nil
  then show ?case by simp
next
  case (Cons c p)
  have "(\<Sum>i<length (c # p). (c # p) ! i * x ^ i) = c + (\<Sum>i<length p. p ! i * x ^ Suc i)"
    by (simp add: sum.lessThan_Suc_shift del: sum.lessThan_Suc)
  also have "(\<Sum>i<length p. p ! i * x ^ Suc i) = x * (\<Sum>i<length p. p ! i * x ^ i)"
    by (simp add: sum_distrib_left ac_simps)
  finally show ?case using Cons by simp
qed

lemma poly_eval_append: "poly_eval (p @ q) x = poly_eval p x + x ^ length p * poly_eval q x"
  by (induction p) (simp_all add: algebra_simps)

lemma poly_eval_map_mult: "poly_eval (map (\<lambda>c. c * k) p) x = poly_eval p x * k"
  by (induction p) (simp_all add: algebra_simps)

lemma poly_eval_map2_add:
  "length p = length q \<Longrightarrow> poly_eval (map2 (+) p q) x = poly_eval p x + poly_eval q x"
  by (induction p q rule: list_induct2) (simp_all add: algebra_simps)

lemma poly_eval_zeros [simp]: "poly_eval (replicate n 0) x = 0"
  by (induction n) simp_all

section \<open>Evaluation\<close>

definition evaluate_slice :: "'f::comm_ring_1 list \<Rightarrow> 'f \<Rightarrow> 'f" where
  "evaluate_slice poly point = fold (\<lambda>coeff acc. acc * point + coeff) (rev poly) 0"

definition div_ceil :: "nat \<Rightarrow> nat \<Rightarrow> nat" where
  "div_ceil a b = (a + (b - 1)) div b"

text \<open>
  \<open>None\<close> stands for the panics of the source: a pool without threads (\<open>div_ceil\<close> by zero) and an
  empty chunk size.
\<close>

definition eval_polynomial :: "nat \<Rightarrow> 'f::comm_ring_1 list \<Rightarrow> 'f \<Rightarrow> 'f option" where
  "eval_polynomial num_threads poly point =
     (let n = length poly in
      if n * 2 < num_threads then Some (evaluate_slice poly point)
      else if num_threads = 0 then None
      else let chunk_size = div_ceil n num_threads in
        if chunk_size = 0 then None
        else let parts = imap 0 (\<lambda>chunk_idx chunk.
                   let start = chunk_idx * chunk_size
                   in evaluate_slice chunk point * point ^ start)
                 (take num_threads (chunks chunk_size poly))
             in Some (fold (\<lambda>coeff acc. acc + coeff)
                  (parts @ replicate (num_threads - length parts) 0) 0))"

lemma evaluate_slice_poly_eval: "evaluate_slice poly x = poly_eval poly x"
  unfolding evaluate_slice_def
  by (induction poly) (simp_all add: algebra_simps)

lemma fold_plus_sum_list: "fold (\<lambda>c acc. acc + c) xs (a::'f::comm_ring_1) = a + sum_list xs"
  by (induction xs arbitrary: a) (simp_all add: algebra_simps)

lemma sum_chunks_poly_eval:
  assumes "0 < n"
  shows "sum_list (imap k (\<lambda>i chunk. poly_eval chunk x * x ^ (i * n)) (chunks n poly)) =
    x ^ (k * n) * poly_eval poly x"
  using assms
proof (induction n poly arbitrary: k rule: chunks.induct)
  case (1 n xs)
  show ?case
  proof (cases "length xs \<le> n")
    case True
    then show ?thesis
      using "1.prems" by (cases "xs = []") (simp_all add: chunks.simps [of n xs] ac_simps)
  next
    case False
    then have ne: "xs \<noteq> []" by auto
    have split: "poly_eval xs x = poly_eval (take n xs) x + x ^ n * poly_eval (drop n xs) x"
      using poly_eval_append [of "take n xs" "drop n xs" x] False by simp
    have "sum_list (imap (Suc k) (\<lambda>i chunk. poly_eval chunk x * x ^ (i * n)) (chunks n (drop n xs)))
        = x ^ (Suc k * n) * poly_eval (drop n xs) x"
      using "1.IH" "1.prems" ne by blast
    then show ?thesis
      using "1.prems" ne by (simp add: chunks.simps [of n xs] split power_add algebra_simps)
  qed
qed

lemma div_ceil_bounds:
  assumes "0 < t"
  shows "n \<le> div_ceil n t * t" and "0 < n \<Longrightarrow> 0 < div_ceil n t"
proof -
  have "(n + (t - 1)) mod t + t * div_ceil n t = n + (t - 1)"
    unfolding div_ceil_def by simp
  moreover have "(n + (t - 1)) mod t \<le> t - 1"
    using assms by (simp add: Suc_leI less_Suc_eq_le [symmetric])
  ultimately show bound: "n \<le> div_ceil n t * t"
    using assms by (simp add: mult.commute)
  assume "0 < n"
  with bound show "0 < div_ceil n t" by (cases "div_ceil n t") auto
qed

lemma eval_polynomial_poly_eval:
  assumes "0 < t"
  shows "eval_polynomial t poly x = Some (poly_eval poly x)"
proof (cases "length poly * 2 < t")
  case True
  then show ?thesis by (simp add: eval_polynomial_def evaluate_slice_poly_eval Let_def)
next
  case False
  let ?c = "div_ceil (length poly) t"
  from False assms have "0 < length poly" by (cases "length poly") auto
  then have c: "0 < ?c" "length poly \<le> ?c * t"
    using div_ceil_bounds [OF assms] by simp_all
  then have all: "take t (chunks ?c poly) = chunks ?c poly"
    by (simp add: length_chunks)
  have "sum_list (imap 0 (\<lambda>i chunk. poly_eval chunk x * x ^ (i * ?c)) (chunks ?c poly)) =
      poly_eval poly x"
    using sum_chunks_poly_eval [OF c(1), of 0 x poly] by simp
  then show ?thesis
    using False c assms
    by (simp add: eval_polynomial_def evaluate_slice_poly_eval Let_def all fold_plus_sum_list
        sum_list_replicate del: fold_append fold_replicate)
qed

section \<open>Splitting work over threads\<close>

text \<open>
  \<open>chunks_exact_mut(k)\<close> followed by a task per chunk: \<open>f\<close> gets the chunk and its offset and
  returns what it leaves there; a remainder shorter than \<open>k\<close> is not touched.
\<close>

function map_chunks_exact :: "nat \<Rightarrow> ('a list \<Rightarrow> nat \<Rightarrow> 'a list) \<Rightarrow> nat \<Rightarrow> 'a list \<Rightarrow> 'a list" where
  "map_chunks_exact k f offset xs =
     (if k = 0 \<or> length xs < k then xs
      else f (take k xs) offset @ map_chunks_exact k f (offset + k) (drop k xs))"
  by pat_completeness auto
termination
  by (relation "measure (\<lambda>(k, f, offset, xs). length xs)") auto

declare map_chunks_exact.simps [simp del]

definition parallelize :: "nat \<Rightarrow> 'a list \<Rightarrow> ('a list \<Rightarrow> nat \<Rightarrow> 'a list) \<Rightarrow> 'a list option" where
  "parallelize num_threads v f =
     (if num_threads = 0 then None
      else let total_iters = length v;
               base_chunk_size = total_iters div num_threads;
               cutoff_chunk_id = total_iters mod num_threads;
               split_pos = cutoff_chunk_id * (base_chunk_size + 1);
               v_hi = take split_pos v;
               v_lo = drop split_pos v;
               hi = (if cutoff_chunk_id \<noteq> 0
                     then map_chunks_exact (base_chunk_size + 1) f 0 v_hi else v_hi);
               lo = (if base_chunk_size \<noteq> 0
                     then map_chunks_exact base_chunk_size f split_pos v_lo else v_lo)
           in Some (hi @ lo))"

lemma map_chunks_exact_pointwise:
  assumes "\<And>chunk off. off + length chunk \<le> N \<Longrightarrow> f chunk off = imap off g chunk" and "0 < k"
    and "length xs = k * m" and "off + length xs \<le> N"
  shows "map_chunks_exact k f off xs = imap off g xs"
  using assms(3,4)
proof (induction m arbitrary: off xs)
  case 0
  then show ?case using assms(2) by (simp add: map_chunks_exact.simps)
next
  case (Suc m)
  then have len: "length (drop k xs) = k * m" "\<not> length xs < k" "off + k + length (drop k xs) \<le> N"
    by simp_all
  have "imap off g xs = imap off g (take k xs @ drop k xs)" by simp
  also have "\<dots> = imap off g (take k xs) @ imap (off + k) g (drop k xs)"
    unfolding imap_append using len(2) by simp
  also have "imap off g (take k xs) = f (take k xs) off"
    using Suc.prems by (intro assms(1) [symmetric]) simp
  also have "imap (off + k) g (drop k xs) = map_chunks_exact k f (off + k) (drop k xs)"
    by (rule Suc.IH [OF len(1,3), symmetric])
  finally show ?case
    using len(2) assms(2) by (simp only: map_chunks_exact.simps [of k f off xs]) simp
qed

lemma parallelize_pointwise_range:
  assumes "0 < t" and "\<And>chunk off. off + length chunk \<le> length v \<Longrightarrow> f chunk off = imap off g chunk"
  shows "parallelize t v f = Some (imap 0 g v)"
proof -
  define b where "b = length v div t"
  define c where "c = length v mod t"
  have split: "length v = t * b + c" and "c < t"
    using assms(1) by (simp_all add: b_def c_def)
  then have len: "length v = c * (b + 1) + (t - c) * b"
    by (simp add: algebra_simps diff_mult_distrib)
  define p where "p = c * (b + 1)"
  have hi: "length (take p v) = (b + 1) * c" and lo: "length (drop p v) = b * (t - c)"
    using len by (simp_all add: p_def algebra_simps)
  have 1: "(if c \<noteq> 0 then map_chunks_exact (b + 1) f 0 (take p v) else take p v) =
      imap 0 g (take p v)"
    using map_chunks_exact_pointwise [OF assms(2) _ hi, of "length v" 0] by (auto simp: p_def)
  have 2: "(if b \<noteq> 0 then map_chunks_exact b f p (drop p v) else drop p v) =
      imap p g (drop p v)"
  proof (cases "b = 0")
    case True
    then have "drop p v = []" using lo by simp
    with True show ?thesis by simp
  next
    case False
    with map_chunks_exact_pointwise [OF assms(2) _ lo, of "length v" p] len show ?thesis
      by (simp add: p_def)
  qed
  have "imap 0 g (take p v) @ imap p g (drop p v) = imap 0 g (take p v @ drop p v)"
    unfolding imap_append using len by (simp add: p_def)
  then show ?thesis
    using assms(1)
    unfolding parallelize_def Let_def b_def [symmetric] c_def [symmetric] p_def [symmetric] 1 2
    by simp
qed

lemma parallelize_pointwise:
  "0 < t \<Longrightarrow> (\<And>chunk off. f chunk off = imap off g chunk) \<Longrightarrow> parallelize t v f = Some (imap 0 g v)"
  by (rule parallelize_pointwise_range)

section \<open>Inner products and powers\<close>

definition compute_inner_product :: "'f::comm_ring_1 list \<Rightarrow> 'f list \<Rightarrow> 'f option" where
  "compute_inner_product a b =
     (if length a \<noteq> length b then None
      else Some (fold (\<lambda>(x, y) acc. acc + x * y) (zip a b) 0))"

text \<open>The first \<open>n\<close> elements of the iterator \<open>powers(base)\<close>.\<close>

fun powers :: "nat \<Rightarrow> 'f::comm_ring_1 \<Rightarrow> 'f \<Rightarrow> 'f list" where
  "powers 0 base pow = []"
| "powers (Suc n) base pow = pow # powers n base (base * pow)"

text \<open>\<open>evals_inner_product\<close>: the panics are the index errors on an empty set and on a short row.\<close>

definition evals_inner_product :: "'f::comm_ring_1 list list \<Rightarrow> 'f list \<Rightarrow> 'f list option" where
  "evals_inner_product evals_set scalars =
     (case evals_set of [] \<Rightarrow> None
      | row # _ \<Rightarrow>
          fold (\<lambda>(poly_evals, s) res_opt.
              case res_opt of None \<Rightarrow> None
              | Some res \<Rightarrow> (if length poly_evals < length res then None
                  else Some (imap 0 (\<lambda>i r. r + poly_evals ! i * s) res)))
            (zip evals_set scalars) (Some (replicate (length row) 0)))"

lemma fold_pairs_inner_product:
  "fold (\<lambda>(x, y) acc. acc + x * y) ps (c :: 'f::comm_ring_1) =
    c + sum_list (map (\<lambda>(x, y). x * y) ps)"
  by (induction ps arbitrary: c) (auto simp: algebra_simps)

lemma powers_nth: "i < n \<Longrightarrow> powers n base p ! i = base ^ i * p"
proof (induction n arbitrary: i p)
  case 0
  then show ?case by simp
next
  case (Suc n)
  then show ?case by (cases i) (simp_all add: ac_simps)
qed

lemma length_powers [simp]: "length (powers n base p) = n"
  by (induction n arbitrary: p) simp_all

section \<open>Division by a linear factor\<close>

text \<open>
  \<open>kate_division\<close> walks \<open>q\<close> and \<open>a\<close> from the back at the same time; \<open>q\<close> is one shorter, so
  the constant coefficient of \<open>a\<close> is never read. \<open>None\<close> is the underflow of \<open>a.len() - 1\<close>.
\<close>

fun kate_loop :: "'f::comm_ring_1 \<Rightarrow> 'f \<Rightarrow> 'f list \<Rightarrow> 'f list" where
  "kate_loop b tmp [] = []"
| "kate_loop b tmp (r # rs) =
     (let lead_coeff = r - tmp in lead_coeff # kate_loop b (lead_coeff * b) rs)"

definition kate_division :: "'f::comm_ring_1 list \<Rightarrow> 'f \<Rightarrow> 'f list option" where
  "kate_division a b =
     (if a = [] then None
      else Some (rev (kate_loop (- b) 0 (take (length a - 1) (rev a)))))"

lemma length_kate_loop [simp]: "length (kate_loop b tmp rs) = length rs"
  by (induction rs arbitrary: tmp) (simp_all add: Let_def)

text \<open>
  The loop invariant, over the coefficients still to be read (highest first): they times \<open>x\<close> are
  the quotient coefficients to come times the factor, plus the pending \<open>tmp\<close> at their degree,
  less the \<open>tmp\<close> the loop ends with.
\<close>

lemma kate_loop_eval:
  "x * poly_eval (rev rs) x =
    (x - b) * poly_eval (rev (kate_loop (- b) tmp rs)) x
    + x ^ length rs * tmp - fold (\<lambda>r t. (r - t) * (- b)) rs tmp"
proof (induction rs arbitrary: tmp)
  case Nil
  then show ?case by simp
next
  case (Cons r rs)
  show ?case
    using Cons [of "(r - tmp) * (- b)"]
    by (simp add: poly_eval_append Let_def algebra_simps)
qed

lemma kate_division_eval:
  assumes "a \<noteq> []"
  shows "\<exists>q. kate_division a b = Some q \<and> length q = length a - 1 \<and>
    (\<forall>x. poly_eval a x = (x - b) * poly_eval q x + poly_eval a b)"
proof -
  obtain a0 as where a: "a = a0 # as" using assms by (cases a) auto
  define q where "q = rev (kate_loop (- b) 0 (rev as))"
  define e where "e = fold (\<lambda>r t. (r - t) * (- b)) (rev as) 0"
  have div: "kate_division a b = Some q"
    by (simp add: kate_division_def a q_def)
  have eval: "poly_eval a x = (x - b) * poly_eval q x + (a0 - e)" for x
    using kate_loop_eval [of x "rev as" b 0] by (simp add: a q_def e_def)
  from eval [of b] have "poly_eval a b = a0 - e" by simp
  with eval div show ?thesis by (auto simp: a q_def)
qed

section \<open>Lagrange interpolation\<close>

text \<open>
  \<open>without j xs\<close> is \<open>iter().enumerate().filter(|(k, _)| k != j).map(|a| a.1)\<close>. The duplicate check
  sorts a copy of the points and compares neighbours (\<open>windows(2)\<close>), as the source does.
\<close>

definition without :: "nat \<Rightarrow> 'a list \<Rightarrow> 'a list" where
  "without j xs = take j xs @ drop (Suc j) xs"

fun equal_neighbours :: "'a list \<Rightarrow> bool" where
  "equal_neighbours (x # y # xs) = (x = y \<or> equal_neighbours (y # xs))"
| "equal_neighbours _ = False"

text \<open>
  One pass of the inner loop: \<open>tmp\<close> is multiplied by \<open>denom * (X - x_k)\<close> into \<open>product\<close>, and the
  two vectors are swapped.
\<close>

definition mul_linear :: "'f::comm_ring_1 list \<Rightarrow> 'f \<Rightarrow> 'f \<Rightarrow> 'f list" where
  "mul_linear tmp x_k denom =
     map2 (\<lambda>a b. a * (- denom * x_k) + b * denom) (tmp @ [0]) (0 # tmp)"

definition basis_loop :: "('f::comm_ring_1 \<times> 'f) list \<Rightarrow> 'f list \<times> 'f list" where
  "basis_loop factors =
     fold (\<lambda>(x_k, denom) (tmp, product). (mul_linear tmp x_k denom, tmp)) factors ([1], [])"

text \<open>\<open>batch_invert\<close> is the \<open>BatchInvert\<close> of the \<open>ff\<close> crate on the flattened differences.\<close>

fun split_rows :: "nat list \<Rightarrow> 'a list \<Rightarrow> 'a list list" where
  "split_rows [] xs = []"
| "split_rows (n # ns) xs = take n xs # split_rows ns (drop n xs)"

definition lagrange_denoms :: "('f list \<Rightarrow> 'f list) \<Rightarrow> 'f::comm_ring_1 list \<Rightarrow> 'f list list" where
  "lagrange_denoms batch_invert points =
     (let denoms = imap 0 (\<lambda>j x_j. map (\<lambda>x_k. x_j - x_k) (without j points)) points
      in split_rows (map length denoms) (batch_invert (concat denoms)))"

text \<open>The body of the outer loop: the \<open>j\<close>-th basis polynomial, scaled, is added to the sum.\<close>

fun lagrange_step ::
    "'f::comm_ring_1 list \<Rightarrow> nat \<times> 'f list \<times> 'f \<Rightarrow> 'f list option \<Rightarrow> 'f list option" where
  "lagrange_step points (j, denoms, eval) None = None"
| "lagrange_step points (j, denoms, eval) (Some final_poly) =
     (let (tmp, product) = basis_loop (zip (without j points) denoms)
      in if length tmp \<noteq> length points \<or> length product \<noteq> length points - 1 then None
         else Some (map2 (\<lambda>final_coeff interpolation_coeff.
             final_coeff + interpolation_coeff * eval) final_poly tmp))"

definition lagrange_interpolate ::
    "('f list \<Rightarrow> 'f list) \<Rightarrow> 'f::{comm_ring_1, linorder} list \<Rightarrow> 'f list \<Rightarrow> 'f list option" where
  "lagrange_interpolate batch_invert points evals =
     (if length points \<noteq> length evals then None
      else if equal_neighbours (sort points) then None
      else if length points = 1 then Some [evals ! 0]
      else fold (lagrange_step points)
        (zip [0..<length points] (zip (lagrange_denoms batch_invert points) evals))
        (Some (replicate (length points) 0)))"

lemma equal_neighbours_sorted: "sorted xs \<Longrightarrow> equal_neighbours xs \<longleftrightarrow> \<not> distinct xs"
  by (induction xs rule: equal_neighbours.induct) (auto simp: order.antisym)

lemma equal_neighbours_sort: "equal_neighbours (sort xs) \<longleftrightarrow> \<not> distinct xs"
  by (simp add: equal_neighbours_sorted)

lemma split_rows_concat: "split_rows (map length rows) (concat rows) = rows"
  by (induction rows) simp_all

lemma split_rows_map:
  "split_rows (map length rows) (map g (concat rows)) = map (map g) rows"
proof -
  have "split_rows (map length rows) (map g (concat rows)) =
      split_rows (map length (map (map g) rows)) (concat (map (map g) rows))"
    by (simp add: map_concat comp_def)
  then show ?thesis by (simp only: split_rows_concat)
qed

lemma length_mul_linear [simp]: "length (mul_linear tmp x d) = Suc (length tmp)"
  by (simp add: mul_linear_def)

lemma poly_eval_mul_linear: "poly_eval (mul_linear tmp x_k d) x = poly_eval tmp x * (d * (x - x_k))"
proof -
  have "mul_linear tmp x_k d =
      map2 (+) (map (\<lambda>a. a * (- d * x_k)) (tmp @ [0])) (map (\<lambda>b. b * d) (0 # tmp))"
    by (simp only: mul_linear_def zip_map_map map_map) (simp add: comp_def case_prod_beta)
  then have "poly_eval (mul_linear tmp x_k d) x =
      poly_eval (tmp @ [0]) x * (- d * x_k) + poly_eval (0 # tmp) x * d"
    by (simp only: poly_eval_map2_add poly_eval_map_mult length_map length_append list.size)
  also have "\<dots> = poly_eval tmp x * (d * (x - x_k))"
    by (simp add: poly_eval_append algebra_simps)
  finally show ?thesis .
qed

lemma basis_fold:
  assumes "fold (\<lambda>(x_k, d) (tmp, product). (mul_linear tmp x_k d, tmp)) fs (tmp, pr) = (tmp', pr')"
  shows "length tmp' = length tmp + length fs"
    and "fs \<noteq> [] \<Longrightarrow> length pr' = length tmp + length fs - 1"
    and "poly_eval tmp' x = poly_eval tmp x * prod_list (map (\<lambda>(x_k, d). d * (x - x_k)) fs)"
proof -
  have "length tmp' = length tmp + length fs \<and>
      (fs \<noteq> [] \<longrightarrow> length pr' = length tmp + length fs - 1) \<and>
      poly_eval tmp' x = poly_eval tmp x * prod_list (map (\<lambda>(x_k, d). d * (x - x_k)) fs)"
    using assms
  proof (induction fs arbitrary: tmp pr)
    case Nil
    then show ?case by simp
  next
    case (Cons f fs)
    obtain x_k d where f: "f = (x_k, d)" by force
    from Cons.prems have step:
      "fold (\<lambda>(x_k, d) (tmp, product). (mul_linear tmp x_k d, tmp)) fs (mul_linear tmp x_k d, tmp)
        = (tmp', pr')" by (simp add: f)
    from Cons.IH [OF step] step show ?case
      by (cases "fs = []") (auto simp: f poly_eval_mul_linear mult.assoc)
  qed
  then show "length tmp' = length tmp + length fs"
    and "fs \<noteq> [] \<Longrightarrow> length pr' = length tmp + length fs - 1"
    and "poly_eval tmp' x = poly_eval tmp x * prod_list (map (\<lambda>(x_k, d). d * (x - x_k)) fs)"
    by simp_all
qed

lemma basis_loop_result:
  assumes "fs \<noteq> []"
  shows "length (fst (basis_loop fs)) = Suc (length fs)"
    and "length (snd (basis_loop fs)) = length fs"
    and "poly_eval (fst (basis_loop fs)) x = prod_list (map (\<lambda>(x_k, d). d * (x - x_k)) fs)"
  using basis_fold [of fs "[1]" "[]" "fst (basis_loop fs)" "snd (basis_loop fs)"] assms
  by (simp_all add: basis_loop_def)

lemma length_without: "j < length xs \<Longrightarrow> length (without j xs) = length xs - 1"
  by (simp add: without_def)

lemma set_without:
  assumes "distinct xs" and "j < length xs"
  shows "set (without j xs) = set xs - {xs ! j}"
proof -
  have xs: "take j xs @ xs ! j # drop (Suc j) xs = xs"
    using assms(2) by (simp add: id_take_nth_drop [symmetric])
  have "distinct (take j xs @ xs ! j # drop (Suc j) xs)"
    unfolding xs by (rule assms(1))
  moreover have "set xs = insert (xs ! j) (set (without j xs))"
    unfolding without_def by (subst xs [symmetric]) simp
  ultimately show ?thesis by (auto simp: without_def)
qed

definition lagrange_basis :: "'f::field list \<Rightarrow> nat \<Rightarrow> 'f \<Rightarrow> 'f" where
  "lagrange_basis points j x =
     prod_list (map (\<lambda>x_k. inverse (points ! j - x_k) * (x - x_k)) (without j points))"

lemma prod_list_one: "(\<And>y. y \<in> set ys \<Longrightarrow> f y = 1) \<Longrightarrow> prod_list (map f ys) = (1::'f::comm_ring_1)"
  by (induction ys) auto

lemma lagrange_basis_kronecker:
  assumes "distinct points" and "i < length points" and "j < length points"
  shows "lagrange_basis points j (points ! i) = (if i = j then 1 else 0)"
proof (cases "i = j")
  case True
  have "inverse (points ! j - y) * (points ! j - y) = 1" if "y \<in> set (without j points)" for y
    using that assms by (intro left_inverse) (auto simp: set_without)
  then show ?thesis
    unfolding lagrange_basis_def True by (simp add: prod_list_one)
next
  case False
  then have "points ! i \<in> set (without j points)"
    using assms by (auto simp: set_without nth_eq_iff_index_eq)
  with False show ?thesis
    by (auto simp: lagrange_basis_def prod_list_zero_iff intro!: image_eqI [where x = "points ! i"])
qed

lemma lagrange_denoms_row:
  assumes "\<And>xs. batch_invert xs = map inverse (xs :: 'f::field list)" and "j < length points"
  shows "lagrange_denoms batch_invert points ! j =
      map (\<lambda>x_k. inverse (points ! j - x_k)) (without j points)"
    and "length (lagrange_denoms batch_invert points) = length points"
  using assms(2)
  by (simp_all add: lagrange_denoms_def assms(1) split_rows_map nth_imap comp_def)

lemma lagrange_basis_loop:
  assumes inv: "\<And>xs. batch_invert xs = map inverse (xs :: 'f::field list)"
    and "j < length points" and "length points \<noteq> 1"
  shows "length (fst (basis_loop (zip (without j points) (lagrange_denoms batch_invert points ! j))))
      = length points"
    and "length (snd (basis_loop (zip (without j points) (lagrange_denoms batch_invert points ! j))))
      = length points - 1"
    and "poly_eval (fst (basis_loop (zip (without j points) (lagrange_denoms batch_invert points ! j)))) x
      = lagrange_basis points j x"
proof -
  let ?fs = "zip (without j points) (lagrange_denoms batch_invert points ! j)"
  have len: "length ?fs = length points - 1"
    using assms by (simp add: lagrange_denoms_row [OF inv] length_without)
  with assms have ne: "?fs \<noteq> []" by (cases "length points") auto
  have fs: "?fs = map (\<lambda>x_k. (x_k, inverse (points ! j - x_k))) (without j points)"
    using assms by (simp add: lagrange_denoms_row [OF inv] zip_map2 zip_same_conv_map comp_def)
  show "length (fst (basis_loop ?fs)) = length points"
    and "length (snd (basis_loop ?fs)) = length points - 1"
    using basis_loop_result(1,2) [OF ne] len assms(2) by simp_all
  show "poly_eval (fst (basis_loop ?fs)) x = lagrange_basis points j x"
    unfolding basis_loop_result(3) [OF ne] lagrange_basis_def by (simp add: fs comp_def)
qed

lemma lagrange_step_eval:
  assumes inv: "\<And>xs. batch_invert xs = map inverse (xs :: 'f::field list)"
    and j: "j < length points" and n: "length points \<noteq> 1" and p: "length p = length points"
  shows "\<exists>p'. lagrange_step points (j, lagrange_denoms batch_invert points ! j, e) (Some p) = Some p' \<and>
    length p' = length points \<and> (\<forall>x. poly_eval p' x = poly_eval p x + lagrange_basis points j x * e)"
proof -
  obtain tmp pr where b:
    "basis_loop (zip (without j points) (lagrange_denoms batch_invert points ! j)) = (tmp, pr)"
    by force
  have t: "length tmp = length points" "length pr = length points - 1"
    "\<And>x. poly_eval tmp x = lagrange_basis points j x"
    using lagrange_basis_loop [OF inv j n] b by simp_all
  let ?p = "map2 (\<lambda>a t. a + t * e) p tmp"
  have "?p = map2 (+) p (map (\<lambda>t. t * e) tmp)"
    by (simp add: zip_map2 comp_def case_prod_beta)
  then have "poly_eval ?p x = poly_eval p x + lagrange_basis points j x * e" for x
    using p t by (simp add: poly_eval_map2_add poly_eval_map_mult)
  then show ?thesis using p t by (simp add: b)
qed

lemma lagrange_fold_eval:
  assumes inv: "\<And>xs. batch_invert xs = map inverse (xs :: 'f::field list)"
    and n: "length points \<noteq> 1" and "m \<le> length points"
  shows "\<exists>p. fold (lagrange_step points)
      (map (\<lambda>j. (j, lagrange_denoms batch_invert points ! j, evals ! j)) [0..<m])
      (Some (replicate (length points) 0)) = Some p \<and> length p = length points \<and>
    (\<forall>x. poly_eval p x = (\<Sum>j<m. lagrange_basis points j x * evals ! j))"
  using assms(3)
proof (induction m)
  case 0
  then show ?case by simp
next
  case (Suc m)
  then obtain p where p: "fold (lagrange_step points)
      (map (\<lambda>j. (j, lagrange_denoms batch_invert points ! j, evals ! j)) [0..<m])
      (Some (replicate (length points) 0)) = Some p" "length p = length points"
    "\<And>x. poly_eval p x = (\<Sum>j<m. lagrange_basis points j x * evals ! j)"
    by auto
  show ?case
    using lagrange_step_eval [OF inv _ n p(2), of m "evals ! m"] Suc.prems p by auto
qed

lemma lagrange_interpolate_eval:
  fixes points :: "'f::{field, linorder} list"
  assumes inv: "\<And>xs. batch_invert xs = map inverse (xs :: 'f list)"
    and "distinct points" and "length evals = length points"
  shows "\<exists>p. lagrange_interpolate batch_invert points evals = Some p \<and>
    length p = length points \<and> (\<forall>i<length points. poly_eval p (points ! i) = evals ! i)"
proof (cases "length points = 1")
  case True
  then show ?thesis
    using assms by (auto simp: lagrange_interpolate_def equal_neighbours_sort)
next
  case False
  let ?n = "length points" and ?rows = "lagrange_denoms batch_invert points"
  have rows: "length ?rows = ?n"
    by (simp add: lagrange_denoms_def inv split_rows_map)
  have "zip [0..<?n] (zip ?rows evals) = map (\<lambda>j. (j, ?rows ! j, evals ! j)) [0..<?n]"
    using rows assms(3) by (intro nth_equalityI) simp_all
  then obtain p where p: "lagrange_interpolate batch_invert points evals = Some p"
    "length p = ?n" "\<And>x. poly_eval p x = (\<Sum>j<?n. lagrange_basis points j x * evals ! j)"
    using lagrange_fold_eval [OF inv False order_refl, of evals] False assms(2,3)
    by (auto simp: lagrange_interpolate_def equal_neighbours_sort)
  moreover have "poly_eval p (points ! i) = evals ! i" if "i < ?n" for i
    using that assms(2)
    by (simp add: p(3) lagrange_basis_kronecker if_distrib [of "\<lambda>c. c * _"] cong: if_cong)
  ultimately show ?thesis by auto
qed

section \<open>Properties\<close>

text \<open>
  Polynomial evaluation, split over any number of threads, returns the value of the polynomial
  at the point.
\<close>

theorem eval_polynomial_correct:
  fixes poly :: "'f::comm_ring_1 list"
  assumes "0 < num_threads"
  shows "eval_polynomial num_threads poly point = Some (\<Sum>i<length poly. poly ! i * point ^ i)"
  by (simp only: eval_polynomial_poly_eval [OF assms] poly_eval_sum)

theorem eval_polynomial_correct_witness:
  "eval_polynomial 2 [5, 0, 3, 1] (2 :: rat) = Some 25"
  by (subst eval_polynomial_correct) (simp_all add: lessThan_nat_numeral lessThan_Suc)

text \<open>
  \<open>parallelize\<close> hands every element to exactly one task, at its own index: a task that works
  element by element produces the sequential result, whatever the number of threads.
\<close>

theorem parallelize_correct:
  assumes "0 < num_threads"
    and "\<And>chunk start. start + length chunk \<le> length v \<Longrightarrow>
      task chunk start = map (\<lambda>i. g (start + i) (chunk ! i)) [0..<length chunk]"
  shows "parallelize num_threads v task = Some (map (\<lambda>i. g i (v ! i)) [0..<length v])"
proof -
  have imap: "imap off g xs = map (\<lambda>i. g (off + i) (xs ! i)) [0..<length xs]" for off xs
    by (rule nth_equalityI) (simp_all add: nth_imap)
  show ?thesis
    using parallelize_pointwise_range [OF assms(1), of v task g] assms(2) by (simp add: imap)
qed

theorem parallelize_correct_witness:
  "parallelize 3 [10, 20, 30, 40, 50, 60, 70 :: nat]
     (\<lambda>chunk start. map (\<lambda>i. chunk ! i + (start + i)) [0..<length chunk])
   = Some [10, 21, 32, 43, 54, 65, 76]"
  by (subst parallelize_correct [where g = "\<lambda>i x. x + i"]) (simp_all add: upt_rec)

text \<open>
  \<open>kate_division\<close> divides by \<open>X - b\<close>: the quotient has one coefficient less, and the remainder
  is the value at \<open>b\<close>.
\<close>

theorem kate_division_correct:
  fixes a :: "'f::comm_ring_1 list"
  assumes "a \<noteq> []"
  shows "\<exists>q. kate_division a b = Some q \<and> length q = length a - 1 \<and>
    (\<forall>x. poly_eval a x = (x - b) * poly_eval q x + poly_eval a b)"
  by (rule kate_division_eval [OF assms])

theorem kate_division_correct_witness:
  "\<exists>q. kate_division [6, 11, 6, 1] (2 :: rat) = Some q \<and> length q = 3 \<and>
     (\<forall>x. 6 + x * (11 + x * (6 + x)) = (x - 2) * poly_eval q x + 60)"
  using kate_division_correct [of "[6, 11, 6, 1 :: rat]" 2] by (simp add: numeral_3_eq_3)

text \<open>
  \<open>lagrange_interpolate\<close>, on distinct points, returns the coefficients of a polynomial with as
  many coefficients as points that takes the given values at them.
\<close>

theorem lagrange_interpolate_correct:
  fixes points :: "'f::{field, linorder} list"
  assumes "\<And>xs. batch_invert xs = map (\<lambda>x. if x = 0 then x else inverse x) xs"
    and "distinct points" and "length evals = length points"
  shows "\<exists>p. lagrange_interpolate batch_invert points evals = Some p \<and>
    length p = length points \<and> (\<forall>i<length points. poly_eval p (points ! i) = evals ! i)"
proof (rule lagrange_interpolate_eval [OF _ assms(2,3)])
  show "batch_invert xs = map inverse xs" for xs unfolding assms(1) by auto
qed

theorem lagrange_interpolate_correct_witness:
  "\<exists>p. lagrange_interpolate (map (\<lambda>x. if x = 0 then x else inverse x)) [1, 2, 4] [3, 5, 0 :: rat] = Some p \<and>
     length p = 3 \<and> poly_eval p 1 = 3 \<and> poly_eval p 2 = 5 \<and> poly_eval p 4 = 0"
  using lagrange_interpolate_correct
    [of "map (\<lambda>x. if x = 0 then x else inverse x)" "[1, 2, 4 :: rat]" "[3, 5, 0]"] by (simp add: numeral_3_eq_3 All_less_Suc2)

end
