(* ===== verification/Expressions.thy ===== *)
theory Expressions
  imports Rational_Value Poly_Arith
begin

text \<open>
  The constraint expressions of \<open>proofs/src/plonk/circuit.rs\<close>: the type \<open>Expression<F>\<close>, its
  operators with their simplifications and panics, the two generic evaluators, degree and
  complexity.

  \<open>Expression::evaluate\<close> takes ten closures; they are the fields of the record \<open>closures\<close>. The
  locale \<open>expression_interpretation\<close> is its contract: closures that implement field arithmetic on
  some representation make the evaluator compute the value of the expression. It is interpreted
  on rational values, and on polynomials in coefficient form, which gives the meaning of
  \<open>degree\<close>.
\<close>

section \<open>Queries and expressions\<close>

record selector =
  sel_index :: nat
  is_simple :: bool

record fixed_query =
  fq_index :: "nat option"
  fq_column_index :: nat
  fq_rotation :: int

record advice_query =
  aq_index :: "nat option"
  aq_column_index :: nat
  aq_rotation :: int
  aq_phase :: nat

record instance_query =
  iq_index :: "nat option"
  iq_column_index :: nat
  iq_rotation :: int

record challenge =
  ch_index :: nat
  ch_phase :: nat

datatype 'f expression =
    Constant 'f
  | Selector selector
  | Fixed fixed_query
  | Advice advice_query
  | Instance instance_query
  | Challenge challenge
  | Negated "'f expression"
  | Sum "'f expression" "'f expression"
  | Product "'f expression" "'f expression"
  | Scaled "'f expression" 'f

record ('f, 't) closures =
  constant_of :: "'f \<Rightarrow> 't"
  selector_column :: "selector \<Rightarrow> 't"
  fixed_column :: "fixed_query \<Rightarrow> 't"
  advice_column :: "advice_query \<Rightarrow> 't"
  instance_column :: "instance_query \<Rightarrow> 't"
  challenge_value :: "challenge \<Rightarrow> 't"
  negated :: "'t \<Rightarrow> 't"
  sum_of :: "'t \<Rightarrow> 't \<Rightarrow> 't"
  product_of :: "'t \<Rightarrow> 't \<Rightarrow> 't"
  scaled_by :: "'t \<Rightarrow> 'f \<Rightarrow> 't"

fun expr_evaluate :: "('f, 't) closures \<Rightarrow> 'f expression \<Rightarrow> 't" where
  "expr_evaluate ev (Constant scalar) = constant_of ev scalar"
| "expr_evaluate ev (Selector s) = selector_column ev s"
| "expr_evaluate ev (Fixed query) = fixed_column ev query"
| "expr_evaluate ev (Advice query) = advice_column ev query"
| "expr_evaluate ev (Instance query) = instance_column ev query"
| "expr_evaluate ev (Challenge value) = challenge_value ev value"
| "expr_evaluate ev (Negated a) = negated ev (expr_evaluate ev a)"
| "expr_evaluate ev (Sum a b) = sum_of ev (expr_evaluate ev a) (expr_evaluate ev b)"
| "expr_evaluate ev (Product a b) = product_of ev (expr_evaluate ev a) (expr_evaluate ev b)"
| "expr_evaluate ev (Scaled a f) = scaled_by ev (expr_evaluate ev a) f"

fun degree :: "'f expression \<Rightarrow> nat" where
  "degree (Constant _) = 0"
| "degree (Selector _) = 1"
| "degree (Fixed _) = 1"
| "degree (Advice _) = 1"
| "degree (Instance _) = 1"
| "degree (Challenge _) = 0"
| "degree (Negated poly) = degree poly"
| "degree (Sum a b) = max (degree a) (degree b)"
| "degree (Product a b) = degree a + degree b"
| "degree (Scaled poly _) = degree poly"

fun complexity :: "'f expression \<Rightarrow> nat" where
  "complexity (Constant _) = 0"
| "complexity (Selector _) = 1"
| "complexity (Fixed _) = 1"
| "complexity (Advice _) = 1"
| "complexity (Instance _) = 1"
| "complexity (Challenge _) = 0"
| "complexity (Negated poly) = complexity poly + 5"
| "complexity (Sum a b) = complexity a + complexity b + 15"
| "complexity (Product a b) = complexity a + complexity b + 30"
| "complexity (Scaled poly _) = complexity poly + 30"

text \<open>The lazy evaluator: the cheaper factor first, and the other one only if that is not zero.\<close>

fun evaluate_lazy :: "('f, 't) closures \<Rightarrow> 't \<Rightarrow> 'f expression \<Rightarrow> 't" where
  "evaluate_lazy ev zero (Constant scalar) = constant_of ev scalar"
| "evaluate_lazy ev zero (Selector s) = selector_column ev s"
| "evaluate_lazy ev zero (Fixed query) = fixed_column ev query"
| "evaluate_lazy ev zero (Advice query) = advice_column ev query"
| "evaluate_lazy ev zero (Instance query) = instance_column ev query"
| "evaluate_lazy ev zero (Challenge value) = challenge_value ev value"
| "evaluate_lazy ev zero (Negated a) = negated ev (evaluate_lazy ev zero a)"
| "evaluate_lazy ev zero (Sum a b) =
     sum_of ev (evaluate_lazy ev zero a) (evaluate_lazy ev zero b)"
| "evaluate_lazy ev zero (Product a b) =
     (if complexity a \<le> complexity b
      then let x = evaluate_lazy ev zero a
           in if x = zero then x else product_of ev x (evaluate_lazy ev zero b)
      else let x = evaluate_lazy ev zero b
           in if x = zero then x else product_of ev x (evaluate_lazy ev zero a))"
| "evaluate_lazy ev zero (Scaled a f) = scaled_by ev (evaluate_lazy ev zero a) f"

definition contains_simple_selector :: "'f expression \<Rightarrow> bool" where
  "contains_simple_selector = expr_evaluate
     \<lparr>constant_of = (\<lambda>_. False), selector_column = is_simple, fixed_column = (\<lambda>_. False),
      advice_column = (\<lambda>_. False), instance_column = (\<lambda>_. False), challenge_value = (\<lambda>_. False),
      negated = (\<lambda>a. a), sum_of = (\<or>), product_of = (\<or>), scaled_by = (\<lambda>a _. a)\<rparr>"

section \<open>Operators\<close>

text \<open>\<open>None\<close> is the panic on a misused simple selector.\<close>

definition expr_neg :: "'f::field expression \<Rightarrow> 'f expression" where
  "expr_neg e = Negated e"

definition expr_add :: "'f::field expression \<Rightarrow> 'f expression \<Rightarrow> 'f expression option" where
  "expr_add lhs rhs =
     (if contains_simple_selector lhs \<or> contains_simple_selector rhs then None
      else if lhs = Constant 0 then Some rhs
      else if rhs = Constant 0 then Some lhs
      else Some (Sum lhs rhs))"

definition expr_sub :: "'f::field expression \<Rightarrow> 'f expression \<Rightarrow> 'f expression option" where
  "expr_sub lhs rhs =
     (if contains_simple_selector lhs \<or> contains_simple_selector rhs then None
      else if lhs = Constant 0 then Some (expr_neg rhs)
      else if rhs = Constant 0 then Some lhs
      else Some (Sum lhs (expr_neg rhs)))"

definition expr_mul :: "'f::field expression \<Rightarrow> 'f expression \<Rightarrow> 'f expression option" where
  "expr_mul lhs rhs =
     (if contains_simple_selector lhs \<and> contains_simple_selector rhs then None
      else if lhs = Constant 0 \<or> rhs = Constant 0 then Some (Constant 0)
      else if lhs = Constant 1 then Some rhs
      else if rhs = Constant 1 then Some lhs
      else Some (Product lhs rhs))"

definition expr_scale :: "'f::field expression \<Rightarrow> 'f \<Rightarrow> 'f expression" where
  "expr_scale lhs rhs = Scaled lhs rhs"

definition expr_square :: "'f::field expression \<Rightarrow> 'f expression option" where
  "expr_square e = expr_mul e e"

text \<open>\<open>iter.reduce(|acc, x| op(acc, x)).unwrap_or(default)\<close>.\<close>

fun reduce_expr ::
    "('e \<Rightarrow> 'e \<Rightarrow> 'e option) \<Rightarrow> 'e \<Rightarrow> 'e list \<Rightarrow> 'e option" where
  "reduce_expr f acc [] = Some acc"
| "reduce_expr f acc (x # xs) = (case f acc x of None \<Rightarrow> None | Some acc' \<Rightarrow> reduce_expr f acc' xs)"

definition expr_sum :: "'f::field expression list \<Rightarrow> 'f expression option" where
  "expr_sum es = (case es of [] \<Rightarrow> Some (Constant 0) | e # es' \<Rightarrow> reduce_expr expr_add e es')"

definition expr_product :: "'f::field expression list \<Rightarrow> 'f expression option" where
  "expr_product es = (case es of [] \<Rightarrow> Some (Constant 1) | e # es' \<Rightarrow> reduce_expr expr_mul e es')"

section \<open>The value of an expression\<close>

text \<open>The specification: field arithmetic over an assignment to the leaves.\<close>

record 'f leaves =
  l_selector :: "selector \<Rightarrow> 'f"
  l_fixed :: "fixed_query \<Rightarrow> 'f"
  l_advice :: "advice_query \<Rightarrow> 'f"
  l_instance :: "instance_query \<Rightarrow> 'f"
  l_challenge :: "challenge \<Rightarrow> 'f"

fun expr_value :: "'f::comm_ring_1 leaves \<Rightarrow> 'f expression \<Rightarrow> 'f" where
  "expr_value l (Constant c) = c"
| "expr_value l (Selector s) = l_selector l s"
| "expr_value l (Fixed q) = l_fixed l q"
| "expr_value l (Advice q) = l_advice l q"
| "expr_value l (Instance q) = l_instance l q"
| "expr_value l (Challenge c) = l_challenge l c"
| "expr_value l (Negated a) = - expr_value l a"
| "expr_value l (Sum a b) = expr_value l a + expr_value l b"
| "expr_value l (Product a b) = expr_value l a * expr_value l b"
| "expr_value l (Scaled a f) = expr_value l a * f"

text \<open>
  The contract of the closures: each implements its operation on representations \<open>'t\<close> of field
  elements, read by \<open>abs\<close>.
\<close>

locale expression_interpretation =
  fixes ev :: "('f::field, 't) closures" and abs :: "'t \<Rightarrow> 'f"
  assumes abs_constant: "abs (constant_of ev c) = c"
    and abs_negated: "abs (negated ev x) = - abs x"
    and abs_sum: "abs (sum_of ev x y) = abs x + abs y"
    and abs_product: "abs (product_of ev x y) = abs x * abs y"
    and abs_scaled: "abs (scaled_by ev x c) = abs x * c"
begin

lemma evaluate_value:
  "abs (expr_evaluate ev e) = expr_value
     \<lparr>l_selector = abs \<circ> selector_column ev, l_fixed = abs \<circ> fixed_column ev,
      l_advice = abs \<circ> advice_column ev, l_instance = abs \<circ> instance_column ev,
      l_challenge = abs \<circ> challenge_value ev\<rparr> e"
  by (induction e)
    (simp_all add: abs_constant abs_negated abs_sum abs_product abs_scaled)

end

definition field_closures :: "'f::field leaves \<Rightarrow> ('f, 'f) closures" where
  "field_closures l = \<lparr>constant_of = (\<lambda>c. c), selector_column = l_selector l, fixed_column = l_fixed l,
     advice_column = l_advice l, instance_column = l_instance l, challenge_value = l_challenge l,
     negated = uminus, sum_of = (+), product_of = (*), scaled_by = (*)\<rparr>"

interpretation field_eval: expression_interpretation "field_closures l" "\<lambda>x. x" for l
  by unfold_locales (simp_all add: field_closures_def)

lemma evaluate_field_closures: "expr_evaluate (field_closures l) e = expr_value l e"
  using field_eval.evaluate_value [of l e] by (cases l) (simp add: field_closures_def comp_def)

text \<open>Rational values, whose laws are those of \<open>field_implementation\<close>.\<close>

definition rational_closures ::
    "'f::field rational leaves \<Rightarrow> ('f, 'f rational) closures" where
  "rational_closures l = \<lparr>constant_of = Trivial, selector_column = l_selector l,
     fixed_column = l_fixed l, advice_column = l_advice l, instance_column = l_instance l,
     challenge_value = l_challenge l, negated = rational_neg, sum_of = rational_add,
     product_of = rational_mul, scaled_by = rational_mul_field\<rparr>"

interpretation rational_eval: expression_interpretation "rational_closures l" evaluate for l
  by unfold_locales
    (simp_all add: rational_closures_def rational_mul_field_def rat.abs_of_field evaluate_ops)

section \<open>Laws of the operators\<close>

lemma expr_add_value: "expr_add a b = Some e \<Longrightarrow> expr_value l e = expr_value l a + expr_value l b"
  by (auto simp: expr_add_def split: if_splits)

lemma expr_sub_value: "expr_sub a b = Some e \<Longrightarrow> expr_value l e = expr_value l a - expr_value l b"
  by (auto simp: expr_sub_def expr_neg_def split: if_splits)

lemma expr_mul_value: "expr_mul a b = Some e \<Longrightarrow> expr_value l e = expr_value l a * expr_value l b"
  by (auto simp: expr_mul_def split: if_splits)

lemma reduce_expr_value:
  assumes "\<And>a b e. f a b = Some e \<Longrightarrow> v e = op (v a) (v b)"
  shows "reduce_expr f acc es = Some e \<Longrightarrow> v e = foldl op (v acc) (map v es)"
  by (induction es arbitrary: acc) (auto split: option.splits dest: assms)

lemma foldl_plus_sum_list: "foldl (+) (a::'f::comm_ring_1) xs = a + sum_list xs"
  by (induction xs arbitrary: a) (simp_all add: add.assoc)

lemma foldl_times_prod_list: "foldl (*) (a::'f::comm_ring_1) xs = a * prod_list xs"
  by (induction xs arbitrary: a) (simp_all add: mult.assoc)

lemma expr_sum_value:
  "expr_sum es = Some e \<Longrightarrow> expr_value l e = sum_list (map (expr_value l) es)"
  by (cases es)
    (auto simp: expr_sum_def foldl_plus_sum_list
      dest!: reduce_expr_value [where v = "expr_value l" and op = "(+)", rotated] expr_add_value)

lemma expr_product_value:
  "expr_product es = Some e \<Longrightarrow> expr_value l e = prod_list (map (expr_value l) es)"
  by (cases es)
    (auto simp: expr_product_def foldl_times_prod_list
      dest!: reduce_expr_value [where v = "expr_value l" and op = "(*)", rotated] expr_mul_value)

lemma contains_simple_selector_simps [simp]:
  "\<not> contains_simple_selector (Constant c)"
  "contains_simple_selector (Selector s) = is_simple s"
  "\<not> contains_simple_selector (Fixed fq)"
  "\<not> contains_simple_selector (Advice aq)"
  "\<not> contains_simple_selector (Instance iq)"
  "\<not> contains_simple_selector (Challenge ch)"
  "contains_simple_selector (Negated a) = contains_simple_selector a"
  "contains_simple_selector (Sum a b) = (contains_simple_selector a \<or> contains_simple_selector b)"
  "contains_simple_selector (Product a b) = (contains_simple_selector a \<or> contains_simple_selector b)"
  "contains_simple_selector (Scaled a f) = contains_simple_selector a"
  by (simp_all add: contains_simple_selector_def)

subsection \<open>Simple selectors occur linearly\<close>

text \<open>
  The degree of an expression in its simple selectors. The panics of the operators keep it at
  most one, which is what lets the selectors be replaced by combined fixed columns later.
\<close>

fun simple_degree :: "'f expression \<Rightarrow> nat" where
  "simple_degree (Selector s) = (if is_simple s then 1 else 0)"
| "simple_degree (Negated a) = simple_degree a"
| "simple_degree (Sum a b) = max (simple_degree a) (simple_degree b)"
| "simple_degree (Product a b) = simple_degree a + simple_degree b"
| "simple_degree (Scaled a f) = simple_degree a"
| "simple_degree _ = 0"

lemma simple_degree_eq_0: "simple_degree e = 0 \<longleftrightarrow> \<not> contains_simple_selector e"
  by (induction e) auto

lemma expr_add_simple: "expr_add a b = Some e \<Longrightarrow> simple_degree e = 0"
  by (auto simp: expr_add_def simple_degree_eq_0 split: if_splits)

lemma expr_sub_simple: "expr_sub a b = Some e \<Longrightarrow> simple_degree e = 0"
  by (auto simp: expr_sub_def expr_neg_def simple_degree_eq_0 split: if_splits)

lemma expr_mul_simple:
  "simple_degree a \<le> 1 \<Longrightarrow> simple_degree b \<le> 1 \<Longrightarrow> expr_mul a b = Some e \<Longrightarrow> simple_degree e \<le> 1"
  by (auto simp: expr_mul_def simple_degree_eq_0 [symmetric] split: if_splits)

lemma reduce_expr_invariant:
  assumes "\<And>a b e. P a \<Longrightarrow> P b \<Longrightarrow> f a b = Some e \<Longrightarrow> P e"
  shows "reduce_expr f acc es = Some e \<Longrightarrow> P acc \<Longrightarrow> (\<forall>x\<in>set es. P x) \<Longrightarrow> P e"
  by (induction es arbitrary: acc) (auto split: option.splits intro: assms)

lemma expr_product_simple:
  assumes "list_all (\<lambda>x. simple_degree x \<le> 1) es" and "expr_product es = Some e"
  shows "simple_degree e \<le> 1"
proof (cases es)
  case (Cons a as)
  then have "reduce_expr expr_mul a as = Some e" using assms(2) by (simp add: expr_product_def)
  then show ?thesis
    by (rule reduce_expr_invariant [where P = "\<lambda>x. simple_degree x \<le> 1", rotated])
      (use Cons assms(1) in \<open>auto simp: list_all_iff dest: expr_mul_simple [simplified]\<close>)
qed (use assms(2) in \<open>auto simp: expr_product_def\<close>)

subsection \<open>The lazy evaluator\<close>

lemma evaluate_lazy_eq:
  assumes "\<And>x y. product_of ev x y = product_of ev y x" and "\<And>x. product_of ev zero x = zero"
  shows "evaluate_lazy ev zero e = expr_evaluate ev e"
  by (induction e) (auto simp: Let_def assms(2) assms(1) [of _ zero] intro: assms(1))

subsection \<open>Degree\<close>

text \<open>
  The sum of polynomials of different lengths, \<open>Polynomial::padded_add\<close> and \<open>padded_sub\<close> of
  \<open>proofs/src/poly/mod.rs\<close>. The task of \<open>parallelize\<close> reads \<open>rhs.get(start..)\<close>, so it works on the
  common prefix; \<open>padded_op_parallel\<close> below is that run, for every number of threads.
\<close>

definition padded_op :: "('f \<Rightarrow> 'f \<Rightarrow> 'f) \<Rightarrow> 'f::comm_ring_1 list \<Rightarrow> 'f list \<Rightarrow> 'f list" where
  "padded_op f lhs rhs =
     (let lhs = (if length lhs < length rhs
                 then lhs @ replicate (length rhs - length lhs) 0 else lhs)
      in imap 0 (\<lambda>i x. if i < length rhs then f x (rhs ! i) else x) lhs)"

definition padded_add :: "'f::comm_ring_1 list \<Rightarrow> 'f list \<Rightarrow> 'f list" where
  "padded_add = padded_op (+)"

definition padded_sub :: "'f::comm_ring_1 list \<Rightarrow> 'f list \<Rightarrow> 'f list" where
  "padded_sub = padded_op (-)"

definition zip_task :: "('f \<Rightarrow> 'f \<Rightarrow> 'f) \<Rightarrow> 'f list \<Rightarrow> 'f list \<Rightarrow> nat \<Rightarrow> 'f list" where
  "zip_task f rhs chunk start =
     (if start \<le> length rhs
      then let rhs_slice = drop start rhs
           in map2 f (take (length rhs_slice) chunk) (take (length chunk) rhs_slice)
              @ drop (length rhs_slice) chunk
      else chunk)"

lemma zip_task_imap:
  "zip_task f rhs chunk start = imap start (\<lambda>i x. if i < length rhs then f x (rhs ! i) else x) chunk"
proof (rule nth_equalityI)
  show len: "length (zip_task f rhs chunk start) =
      length (imap start (\<lambda>i x. if i < length rhs then f x (rhs ! i) else x) chunk)"
    by (simp add: zip_task_def Let_def min_def)
  fix i
  assume "i < length (zip_task f rhs chunk start)"
  with len have "i < length chunk" by simp
  then show "zip_task f rhs chunk start ! i =
      imap start (\<lambda>i x. if i < length rhs then f x (rhs ! i) else x) chunk ! i"
    by (simp add: zip_task_def Let_def nth_append nth_imap min_def less_diff_conv add.commute) arith
qed

lemma padded_op_parallel:
  assumes "0 < t"
  shows "parallelize t (if length lhs < length rhs
      then lhs @ replicate (length rhs - length lhs) 0 else lhs) (zip_task f rhs) =
    Some (padded_op f lhs rhs)"
  unfolding parallelize_pointwise [OF assms zip_task_imap] padded_op_def Let_def ..

lemma length_padded_op [simp]: "length (padded_op f p q) = max (length p) (length q)"
  by (simp add: padded_op_def Let_def)

lemma nth_padded_op:
  "i < max (length p) (length q) \<Longrightarrow> (\<And>x. f x 0 = x) \<Longrightarrow>
   padded_op f p q ! i = f (if i < length p then p ! i else 0) (if i < length q then q ! i else 0)"
  by (auto simp: padded_op_def Let_def nth_imap nth_append)

lemma poly_eval_pad: "length p \<le> n \<Longrightarrow> poly_eval p x = (\<Sum>i<n. (if i < length p then p ! i else 0) * x ^ i)"
  unfolding poly_eval_sum
  by (rule sum.mono_neutral_cong_left) auto

lemma poly_eval_padded_add: "poly_eval (padded_add p q) x = poly_eval p x + poly_eval q x"
  by (simp add: padded_add_def poly_eval_pad [of p "max (length p) (length q)"]
      poly_eval_pad [of q "max (length p) (length q)"] poly_eval_sum [of "padded_op (+) p q"]
      nth_padded_op sum.distrib [symmetric] distrib_right)

lemma poly_eval_padded_sub: "poly_eval (padded_sub p q) x = poly_eval p x - poly_eval q x"
  by (simp add: padded_sub_def poly_eval_pad [of p "max (length p) (length q)"]
      poly_eval_pad [of q "max (length p) (length q)"] poly_eval_sum [of "padded_op (-) p q"]
      nth_padded_op sum_subtractf [symmetric] left_diff_distrib)

text \<open>Products of coefficient lists, for the meaning of \<open>degree\<close>.\<close>

fun poly_mul :: "'f::comm_ring_1 list \<Rightarrow> 'f list \<Rightarrow> 'f list" where
  "poly_mul [] q = []"
| "poly_mul (a # p) q = (if q = [] then [] else padded_add (map (\<lambda>b. b * a) q) (0 # poly_mul p q))"

lemma poly_eval_poly_mul: "poly_eval (poly_mul p q) x = poly_eval p x * poly_eval q x"
proof (induction p)
  case (Cons a p)
  have "poly_eval (poly_mul (a # p) q) x = poly_eval (map (\<lambda>b. b * a) q) x + x * poly_eval (poly_mul p q) x"
    using Cons.IH by (cases "q = []") (auto simp: poly_eval_padded_add)
  with Cons.IH show ?case by (simp add: poly_eval_map_mult algebra_simps)
qed simp

lemma length_poly_mul: "length (poly_mul p q) \<le> length p + length q - 1"
proof (induction p)
  case (Cons a p)
  then show ?case by (cases q) (auto simp: padded_add_def)
qed simp

definition poly_closures ::
    "'f::field list leaves \<Rightarrow> ('f, 'f list) closures" where
  "poly_closures l = \<lparr>constant_of = (\<lambda>c. [c]), selector_column = l_selector l,
     fixed_column = l_fixed l, advice_column = l_advice l, instance_column = l_instance l,
     challenge_value = l_challenge l, negated = map uminus, sum_of = padded_add,
     product_of = poly_mul, scaled_by = (\<lambda>p c. map (\<lambda>a. a * c) p)\<rparr>"

lemma poly_eval_map_uminus: "poly_eval (map uminus p) x = - poly_eval p x"
  by (induction p) simp_all

interpretation poly_at: expression_interpretation "poly_closures l" "\<lambda>p. poly_eval p x" for l x
  by unfold_locales
    (simp_all add: poly_closures_def poly_eval_map_uminus poly_eval_padded_add poly_eval_poly_mul
      poly_eval_map_mult)

lemma length_poly_closures:
  assumes "\<And>s. length (l_selector l s) \<le> m + 1" "\<And>q. length (l_fixed l q) \<le> m + 1"
    "\<And>q. length (l_advice l q) \<le> m + 1" "\<And>q. length (l_instance l q) \<le> m + 1"
    "\<And>c. length (l_challenge l c) \<le> 1"
  shows "length (expr_evaluate (poly_closures l) e) \<le> degree e * m + 1"
proof (induction e)
  case (Sum a b)
  then show ?case
    by (auto simp: poly_closures_def padded_add_def nat_mult_max_left)
next
  case (Product a b)
  have "length (poly_mul p q) \<le> (d + d') * m + 1"
    if "length p \<le> d * m + 1" "length q \<le> d' * m + 1" for p q :: "'a list" and d d'
    using that length_poly_mul [of p q] by (simp add: distrib_right)
  from this [OF Product] show ?case by (simp add: poly_closures_def)
qed (use assms in \<open>simp_all add: poly_closures_def\<close>)

section \<open>Properties\<close>

text \<open>
  The lazy evaluator, which reorders the factors of a product by their complexity and skips the
  second one when the first is zero, agrees with the plain evaluator, as long as the product
  closure is commutative and annihilated by the zero it is given.
\<close>

theorem evaluate_lazy_correct:
  assumes "\<And>x y. product_of ev x y = product_of ev y x" and "\<And>x. product_of ev zero x = zero"
  shows "evaluate_lazy ev zero e = expr_evaluate ev e"
  by (rule evaluate_lazy_eq [OF assms])

definition demo_leaves :: "rat leaves" where
  "demo_leaves = \<lparr>l_selector = (\<lambda>s. of_nat (sel_index s)), l_fixed = (\<lambda>q. of_nat (fq_column_index q)),
     l_advice = (\<lambda>q. of_nat (aq_column_index q) + of_int (aq_rotation q)),
     l_instance = (\<lambda>q. 9), l_challenge = (\<lambda>c. 4)\<rparr>"

definition demo_expression :: "rat expression" where
  "demo_expression = Product (Fixed \<lparr>fq_index = None, fq_column_index = 3, fq_rotation = 0\<rparr>)
     (Sum (Advice \<lparr>aq_index = None, aq_column_index = 5, aq_rotation = 1, aq_phase = 0\<rparr>)
       (Negated (Scaled (Challenge \<lparr>ch_index = 0, ch_phase = 0\<rparr>) 2)))"

theorem evaluate_lazy_correct_witness:
  "evaluate_lazy (field_closures demo_leaves) 0 demo_expression = -6"
  by (subst evaluate_lazy_correct)
    (simp_all add: field_closures_def demo_leaves_def demo_expression_def)

text \<open>
  An expression evaluated with rational closures denotes the value of the expression in the
  field, at the leaves' denotations; no operator of the evaluator loses a zero denominator.
\<close>

theorem rational_evaluation_correct:
  "evaluate (expr_evaluate (rational_closures l) e) = expr_evaluate (field_closures
     \<lparr>l_selector = evaluate \<circ> l_selector l, l_fixed = evaluate \<circ> l_fixed l,
      l_advice = evaluate \<circ> l_advice l, l_instance = evaluate \<circ> l_instance l,
      l_challenge = evaluate \<circ> l_challenge l\<rparr>) e"
  using rational_eval.evaluate_value [of l e]
  by (simp add: evaluate_field_closures rational_closures_def)

text \<open>
  \<open>degree\<close> bounds the degree of the polynomial an expression denotes. Over column polynomials of
  degree at most \<open>m\<close> (and constant challenges) the expression is a polynomial with at most
  \<open>degree e * m + 1\<close> coefficients, whose value at every point is the expression over the values of
  the columns there.
\<close>

theorem degree_correct:
  fixes l :: "'f::field list leaves"
  assumes "\<And>s. length (l_selector l s) \<le> m + 1" "\<And>q. length (l_fixed l q) \<le> m + 1"
    "\<And>q. length (l_advice l q) \<le> m + 1" "\<And>q. length (l_instance l q) \<le> m + 1"
    "\<And>c. length (l_challenge l c) \<le> 1"
  shows "\<exists>p. length p \<le> degree e * m + 1 \<and>
    (\<forall>x. poly_eval p x = expr_evaluate (field_closures
       \<lparr>l_selector = (\<lambda>s. poly_eval (l_selector l s) x), l_fixed = (\<lambda>q. poly_eval (l_fixed l q) x),
        l_advice = (\<lambda>q. poly_eval (l_advice l q) x), l_instance = (\<lambda>q. poly_eval (l_instance l q) x),
        l_challenge = (\<lambda>c. poly_eval (l_challenge l c) x)\<rparr>) e)"
proof (intro exI conjI allI)
  show "length (expr_evaluate (poly_closures l) e) \<le> degree e * m + 1"
    by (rule length_poly_closures [OF assms])
  show "poly_eval (expr_evaluate (poly_closures l) e) x = expr_evaluate (field_closures
       \<lparr>l_selector = (\<lambda>s. poly_eval (l_selector l s) x), l_fixed = (\<lambda>q. poly_eval (l_fixed l q) x),
        l_advice = (\<lambda>q. poly_eval (l_advice l q) x), l_instance = (\<lambda>q. poly_eval (l_instance l q) x),
        l_challenge = (\<lambda>c. poly_eval (l_challenge l c) x)\<rparr>) e" for x
    using poly_at.evaluate_value [of l e x]
    by (simp add: evaluate_field_closures poly_closures_def comp_def)
qed

theorem degree_correct_witness:
  "\<exists>p. length p \<le> 5 \<and> (\<forall>x. poly_eval p x = (1 + 2 * x + 3 * x\<^sup>2) * (5 + x - 8 :: rat))"
proof -
  define l :: "rat list leaves" where "l = \<lparr>l_selector = (\<lambda>s. [1]), l_fixed = (\<lambda>q. [1, 2, 3]),
     l_advice = (\<lambda>q. [5, 1]), l_instance = (\<lambda>q. []), l_challenge = (\<lambda>c. [4])\<rparr>"
  have "\<exists>p. length p \<le> degree demo_expression * 2 + 1 \<and>
    (\<forall>x. poly_eval p x = expr_evaluate (field_closures
       \<lparr>l_selector = (\<lambda>s. poly_eval (l_selector l s) x), l_fixed = (\<lambda>q. poly_eval (l_fixed l q) x),
        l_advice = (\<lambda>q. poly_eval (l_advice l q) x), l_instance = (\<lambda>q. poly_eval (l_instance l q) x),
        l_challenge = (\<lambda>c. poly_eval (l_challenge l c) x)\<rparr>) demo_expression)"
    by (rule degree_correct) (simp_all add: l_def)
  then show ?thesis
    by (simp add: l_def demo_expression_def field_closures_def power2_eq_square algebra_simps
        eval_nat_numeral)
qed

text \<open>
  The overloaded operators. Whenever sums, differences, products, iterated sums and products do
  not panic they denote the field operation, their shortcuts for zero and one included; they keep
  simple selectors linear: a sum or difference never contains one, and a product of expressions in
  which simple selectors occur linearly is again one.
\<close>

theorem expression_operators_correct:
  "(expr_add a b = Some e \<longrightarrow> expr_value l e = expr_value l a + expr_value l b \<and> simple_degree e = 0) \<and>
   (expr_sub a b = Some e \<longrightarrow> expr_value l e = expr_value l a - expr_value l b \<and> simple_degree e = 0) \<and>
   (expr_mul a b = Some e \<longrightarrow> expr_value l e = expr_value l a * expr_value l b \<and>
      (simple_degree a \<le> 1 \<and> simple_degree b \<le> 1 \<longrightarrow> simple_degree e \<le> 1)) \<and>
   (expr_sum es = Some e \<longrightarrow> expr_value l e = (\<Sum>x\<leftarrow>es. expr_value l x)) \<and>
   (expr_product es = Some e \<longrightarrow> expr_value l e = prod_list (map (expr_value l) es) \<and>
      (list_all (\<lambda>x. simple_degree x \<le> 1) es \<longrightarrow> simple_degree e \<le> 1))"
  by (intro conjI impI)
    (auto intro: expr_add_value expr_add_simple expr_sub_value expr_sub_simple expr_mul_value
      expr_sum_value expr_product_value expr_mul_simple [simplified] expr_product_simple [simplified])

theorem expression_operators_correct_witness:
  "expr_value demo_leaves (Product (Selector \<lparr>sel_index = 7, is_simple = True\<rparr>) demo_expression) = -42
   \<and> simple_degree (Product (Selector \<lparr>sel_index = 7, is_simple = True\<rparr>) demo_expression) \<le> 1"
  using expression_operators_correct [of "Selector \<lparr>sel_index = 7, is_simple = True\<rparr>" demo_expression
      "Product (Selector \<lparr>sel_index = 7, is_simple = True\<rparr>) demo_expression" demo_leaves "[]"]
  by (simp add: expr_mul_def demo_expression_def demo_leaves_def)

end
