(* ===== verification/Graph_Evaluator.thy ===== *)
theory Graph_Evaluator
  imports Expressions "HOL-Library.Monad_Syntax" "HOL-Library.Sublist"
begin

text \<open>
  The calculation graphs of \<open>proofs/src/plonk/evaluation.rs\<close>: the prover compiles the constraint
  expressions to a list of calculations with shared constants, rotations and intermediate values,
  and runs that list once per row of the extended domain on a buffer that it reuses.

  The first part is the data and the operations of the source. The second part shows that
  compilation is sound: a graph built by \<open>add_expression\<close> computes, on every row and whatever the
  buffer holds from the row before, the value that the simple evaluator (\<open>evaluate\<close>, lines
  856-894) gives to the expression. \<open>None\<close> is a panic throughout (an index out of range, an \<open>i32\<close>
  overflow, \<open>unreachable!\<close>).
\<close>

section \<open>Values and calculations\<close>

definition i32_ok :: "int \<Rightarrow> bool" where
  "i32_ok z \<longleftrightarrow> - (2 ^ 31) \<le> z \<and> z < 2 ^ 31"

definition as_i32 :: "nat \<Rightarrow> int" where
  "as_i32 n = sint (word_of_nat n :: 32 word)"

text \<open>
  \<open>rem_euclid\<close> panics on a zero divisor and on \<open>i32::MIN.rem_euclid(-1)\<close>; the checked product and
  sum panic on overflow.
\<close>

definition get_rotation_idx :: "nat \<Rightarrow> int \<Rightarrow> int \<Rightarrow> int \<Rightarrow> nat option" where
  "get_rotation_idx idx rot rot_scale isize =
     (let p = rot * rot_scale; s = as_i32 idx + p
      in if i32_ok p \<and> i32_ok s \<and> isize \<noteq> 0 \<and> \<not> (s = - (2 ^ 31) \<and> isize = - 1)
         then Some (nat (s mod \<bar>isize\<bar>)) else None)"

datatype value_source =
    VConstant nat
  | VIntermediate nat
  | VFixed nat nat
  | VAdvice nat nat
  | VInstance nat nat
  | VChallenge nat
  | VBeta
  | VTheta
  | VTrashChallenge
  | VY
  | VPreviousValue

text \<open>The derived \<open>PartialOrd\<close>: by constructor, then by the fields in order.\<close>

fun vs_rank :: "value_source \<Rightarrow> nat \<times> nat \<times> nat" where
  "vs_rank (VConstant i) = (0, i, 0)"
| "vs_rank (VIntermediate i) = (1, i, 0)"
| "vs_rank (VFixed c r) = (2, c, r)"
| "vs_rank (VAdvice c r) = (3, c, r)"
| "vs_rank (VInstance c r) = (4, c, r)"
| "vs_rank (VChallenge i) = (5, i, 0)"
| "vs_rank VBeta = (6, 0, 0)"
| "vs_rank VTheta = (7, 0, 0)"
| "vs_rank VTrashChallenge = (8, 0, 0)"
| "vs_rank VY = (9, 0, 0)"
| "vs_rank VPreviousValue = (10, 0, 0)"

definition vs_le :: "value_source \<Rightarrow> value_source \<Rightarrow> bool" where
  "vs_le a b =
     (case (vs_rank a, vs_rank b) of ((k, i, j), (k', i', j')) \<Rightarrow>
        k < k' \<or> k = k' \<and> (i < i' \<or> i = i' \<and> j \<le> j'))"

text \<open>The values every calculation may read: column values, challenges and the fixed scalars.\<close>

record 'f eval_args =
  fixed_values :: "'f list list"
  advice_values :: "'f list list"
  instance_values :: "'f list list"
  challenges :: "'f list"
  arg_beta :: 'f
  arg_theta :: 'f
  arg_trash_challenge :: 'f
  arg_y :: 'f
  previous_value :: 'f

definition cell :: "'f list list \<Rightarrow> nat \<Rightarrow> nat \<Rightarrow> 'f option" where
  "cell columns c row = do { col \<leftarrow> index_opt columns c; index_opt col row }"

fun vs_get ::
    "nat list \<Rightarrow> 'f list \<Rightarrow> 'f list \<Rightarrow> 'f eval_args \<Rightarrow> value_source \<Rightarrow> 'f option" where
  "vs_get rotations constants intermediates args (VConstant idx) = index_opt constants idx"
| "vs_get rotations constants intermediates args (VIntermediate idx) = index_opt intermediates idx"
| "vs_get rotations constants intermediates args (VFixed column_index rotation) =
     do { r \<leftarrow> index_opt rotations rotation; cell (fixed_values args) column_index r }"
| "vs_get rotations constants intermediates args (VAdvice column_index rotation) =
     do { r \<leftarrow> index_opt rotations rotation; cell (advice_values args) column_index r }"
| "vs_get rotations constants intermediates args (VInstance column_index rotation) =
     do { r \<leftarrow> index_opt rotations rotation; cell (instance_values args) column_index r }"
| "vs_get rotations constants intermediates args (VChallenge index) =
     index_opt (challenges args) index"
| "vs_get rotations constants intermediates args VBeta = Some (arg_beta args)"
| "vs_get rotations constants intermediates args VTheta = Some (arg_theta args)"
| "vs_get rotations constants intermediates args VTrashChallenge = Some (arg_trash_challenge args)"
| "vs_get rotations constants intermediates args VY = Some (arg_y args)"
| "vs_get rotations constants intermediates args VPreviousValue = Some (previous_value args)"

datatype calculation =
    CAdd value_source value_source
  | CSub value_source value_source
  | CMul value_source value_source
  | CSquare value_source
  | CDouble value_source
  | CNegate value_source
  | CHorner value_source "value_source list" value_source
  | CStore value_source

fun horner_loop :: "('s \<Rightarrow> 'f::comm_ring_1 option) \<Rightarrow> 'f \<Rightarrow> 'f \<Rightarrow> 's list \<Rightarrow> 'f option" where
  "horner_loop get factor v [] = Some v"
| "horner_loop get factor v (part # parts) =
     do { p \<leftarrow> get part; horner_loop get factor (v * factor + p) parts }"

fun calc_evaluate ::
    "nat list \<Rightarrow> 'f::comm_ring_1 list \<Rightarrow> 'f list \<Rightarrow> 'f eval_args \<Rightarrow> calculation \<Rightarrow> 'f option" where
  "calc_evaluate rots cs ims args (CAdd a b) =
     do { x \<leftarrow> vs_get rots cs ims args a; y \<leftarrow> vs_get rots cs ims args b; Some (x + y) }"
| "calc_evaluate rots cs ims args (CSub a b) =
     do { x \<leftarrow> vs_get rots cs ims args a; y \<leftarrow> vs_get rots cs ims args b; Some (x - y) }"
| "calc_evaluate rots cs ims args (CMul a b) =
     do { x \<leftarrow> vs_get rots cs ims args a; y \<leftarrow> vs_get rots cs ims args b; Some (x * y) }"
| "calc_evaluate rots cs ims args (CSquare v) = do { x \<leftarrow> vs_get rots cs ims args v; Some (x * x) }"
| "calc_evaluate rots cs ims args (CDouble v) = do { x \<leftarrow> vs_get rots cs ims args v; Some (x + x) }"
| "calc_evaluate rots cs ims args (CNegate v) = do { x \<leftarrow> vs_get rots cs ims args v; Some (- x) }"
| "calc_evaluate rots cs ims args (CHorner start_value parts factor) =
     do { f \<leftarrow> vs_get rots cs ims args factor;
          v \<leftarrow> vs_get rots cs ims args start_value;
          horner_loop (vs_get rots cs ims args) f v parts }"
| "calc_evaluate rots cs ims args (CStore v) = vs_get rots cs ims args v"

section \<open>Graphs\<close>

record calculation_info =
  calculation :: calculation
  target :: nat

record 'f graph_evaluator =
  constants :: "'f list"
  rotations :: "int list"
  calculations :: "calculation_info list"
  num_intermediates :: nat

record 'f evaluation_data =
  intermediates :: "'f list"
  data_rotations :: "nat list"

definition graph_default :: "'f::comm_ring_1 graph_evaluator" where
  "graph_default = \<lparr>constants = [0, 1, 2], rotations = [], calculations = [], num_intermediates = 0\<rparr>"

definition resolve :: "'f evaluation_data \<Rightarrow> value_source \<Rightarrow> 'f option" where
  "resolve data vs = (case vs of VIntermediate idx \<Rightarrow> index_opt (intermediates data) idx | _ \<Rightarrow> None)"

definition add_rotation :: "'f graph_evaluator \<Rightarrow> int \<Rightarrow> 'f graph_evaluator \<times> nat" where
  "add_rotation g rotation =
     (case position (\<lambda>c. c = rotation) (rotations g) of
        Some pos \<Rightarrow> (g, pos)
      | None \<Rightarrow> (g\<lparr>rotations := rotations g @ [rotation]\<rparr>, length (rotations g)))"

definition add_constant :: "'f graph_evaluator \<Rightarrow> 'f \<Rightarrow> 'f graph_evaluator \<times> value_source" where
  "add_constant g c =
     (case position (\<lambda>d. d = c) (constants g) of
        Some pos \<Rightarrow> (g, VConstant pos)
      | None \<Rightarrow> (g\<lparr>constants := constants g @ [c]\<rparr>, VConstant (length (constants g))))"

definition add_calculation ::
    "'f graph_evaluator \<Rightarrow> calculation \<Rightarrow> 'f graph_evaluator \<times> value_source" where
  "add_calculation g calc =
     (case find (\<lambda>c. calculation c = calc) (calculations g) of
        Some existing_calculation \<Rightarrow> (g, VIntermediate (target existing_calculation))
      | None \<Rightarrow>
          (let t = num_intermediates g
           in (g\<lparr>calculations := calculations g @ [\<lparr>calculation = calc, target = t\<rparr>],
                 num_intermediates := num_intermediates g + 1\<rparr>,
               VIntermediate t)))"

text \<open>The case distinctions of \<open>add_expression\<close> on the sources of the operands.\<close>

definition negate_source ::
    "'f graph_evaluator \<Rightarrow> value_source \<Rightarrow> 'f graph_evaluator \<times> value_source" where
  "negate_source g result_a =
     (if result_a = VConstant 0 then (g, result_a) else add_calculation g (CNegate result_a))"

definition sub_sources ::
    "'f graph_evaluator \<Rightarrow> value_source \<Rightarrow> value_source \<Rightarrow> 'f graph_evaluator \<times> value_source" where
  "sub_sources g result_a result_b =
     (if result_a = VConstant 0 then add_calculation g (CNegate result_b)
      else if result_b = VConstant 0 then (g, result_a)
      else add_calculation g (CSub result_a result_b))"

definition add_sources ::
    "'f graph_evaluator \<Rightarrow> value_source \<Rightarrow> value_source \<Rightarrow> 'f graph_evaluator \<times> value_source" where
  "add_sources g result_a result_b =
     (if result_a = VConstant 0 then (g, result_b)
      else if result_b = VConstant 0 then (g, result_a)
      else if vs_le result_a result_b then add_calculation g (CAdd result_a result_b)
      else add_calculation g (CAdd result_b result_a))"

definition mul_sources ::
    "'f graph_evaluator \<Rightarrow> value_source \<Rightarrow> value_source \<Rightarrow> 'f graph_evaluator \<times> value_source" where
  "mul_sources g result_a result_b =
     (if result_a = VConstant 0 \<or> result_b = VConstant 0 then (g, VConstant 0)
      else if result_a = VConstant 1 then (g, result_b)
      else if result_b = VConstant 1 then (g, result_a)
      else if result_a = VConstant 2 then add_calculation g (CDouble result_b)
      else if result_b = VConstant 2 then add_calculation g (CDouble result_a)
      else if result_a = result_b then add_calculation g (CSquare result_a)
      else if vs_le result_a result_b then add_calculation g (CMul result_a result_b)
      else add_calculation g (CMul result_b result_a))"

fun add_expression ::
    "'f::field graph_evaluator \<Rightarrow> 'f expression \<Rightarrow> ('f graph_evaluator \<times> value_source) option" where
  "add_expression g (Constant scalar) = Some (add_constant g scalar)"
| "add_expression g (Selector _) = None"
| "add_expression g (Fixed query) =
     (let (g, rot_idx) = add_rotation g (fq_rotation query)
      in Some (add_calculation g (CStore (VFixed (fq_column_index query) rot_idx))))"
| "add_expression g (Advice query) =
     (let (g, rot_idx) = add_rotation g (aq_rotation query)
      in Some (add_calculation g (CStore (VAdvice (aq_column_index query) rot_idx))))"
| "add_expression g (Instance query) =
     (let (g, rot_idx) = add_rotation g (iq_rotation query)
      in Some (add_calculation g (CStore (VInstance (iq_column_index query) rot_idx))))"
| "add_expression g (Challenge ch) =
     Some (add_calculation g (CStore (VChallenge (ch_index ch))))"
| "add_expression g (Negated a) =
     (case a of
        Constant scalar \<Rightarrow> Some (add_constant g (- scalar))
      | _ \<Rightarrow> do { (g, result_a) \<leftarrow> add_expression g a; Some (negate_source g result_a) })"
| "add_expression g (Sum a b) =
     (case b of
        Negated b_int \<Rightarrow>
          do { (g, result_a) \<leftarrow> add_expression g a;
               (g, result_b) \<leftarrow> add_expression g b_int;
               Some (sub_sources g result_a result_b) }
      | _ \<Rightarrow>
          do { (g, result_a) \<leftarrow> add_expression g a;
               (g, result_b) \<leftarrow> add_expression g b;
               Some (add_sources g result_a result_b) })"
| "add_expression g (Product a b) =
     do { (g, result_a) \<leftarrow> add_expression g a;
          (g, result_b) \<leftarrow> add_expression g b;
          Some (mul_sources g result_a result_b) }"
| "add_expression g (Scaled a f) =
     (if f = 0 then Some (g, VConstant 0)
      else if f = 1 then add_expression g a
      else let (g, cst) = add_constant g f
           in do { (g, result_a) \<leftarrow> add_expression g a;
                   Some (add_calculation g (CMul result_a cst)) })"

text \<open>\<open>iter().map(|e| graph.add_expression(e)).collect()\<close>.\<close>

fun add_expressions ::
    "'f::field graph_evaluator \<Rightarrow> 'f expression list \<Rightarrow>
     ('f graph_evaluator \<times> value_source list) option" where
  "add_expressions g [] = Some (g, [])"
| "add_expressions g (e # es) =
     do { (g, s) \<leftarrow> add_expression g e; (g, ss) \<leftarrow> add_expressions g es; Some (g, s # ss) }"

definition graph_instance :: "'f::comm_ring_1 graph_evaluator \<Rightarrow> 'f evaluation_data" where
  "graph_instance g =
     \<lparr>intermediates = replicate (num_intermediates g) 0,
      data_rotations = replicate (length (rotations g)) 0\<rparr>"

text \<open>A write \<open>xs[i] = v\<close> panics out of range.\<close>

definition update_opt :: "'a list \<Rightarrow> nat \<Rightarrow> 'a \<Rightarrow> 'a list option" where
  "update_opt xs i v = (if i < length xs then Some (xs[i := v]) else None)"

fun rotation_loop :: "nat \<Rightarrow> int \<Rightarrow> int \<Rightarrow> nat \<Rightarrow> int list \<Rightarrow> nat list \<Rightarrow> nat list option" where
  "rotation_loop idx rot_scale isize rot_idx [] rs = Some rs"
| "rotation_loop idx rot_scale isize rot_idx (rot # rots) rs =
     do { r \<leftarrow> get_rotation_idx idx rot rot_scale isize;
          rs \<leftarrow> update_opt rs rot_idx r;
          rotation_loop idx rot_scale isize (Suc rot_idx) rots rs }"

fun calculation_loop ::
    "nat list \<Rightarrow> 'f::comm_ring_1 list \<Rightarrow> 'f eval_args \<Rightarrow> calculation_info list \<Rightarrow> 'f list \<Rightarrow>
     'f list option" where
  "calculation_loop rs cs args [] ims = Some ims"
| "calculation_loop rs cs args (calc # calcs) ims =
     do { v \<leftarrow> calc_evaluate rs cs ims args (calculation calc);
          ims \<leftarrow> update_opt ims (target calc) v;
          calculation_loop rs cs args calcs ims }"

definition graph_evaluate ::
    "'f::comm_ring_1 graph_evaluator \<Rightarrow> 'f evaluation_data \<Rightarrow> 'f eval_args \<Rightarrow> nat \<Rightarrow> int \<Rightarrow> int \<Rightarrow>
     ('f evaluation_data \<times> 'f) option" where
  "graph_evaluate g data args idx rot_scale isize =
     do { rs \<leftarrow> rotation_loop idx rot_scale isize 0 (rotations g) (data_rotations data);
          ims \<leftarrow> calculation_loop rs (constants g) args (calculations g) (intermediates data);
          v \<leftarrow> (if calculations g = [] then Some 0
                else index_opt ims (target (last (calculations g))));
          Some (\<lparr>intermediates = ims, data_rotations = rs\<rparr>, v) }"

text \<open>The simple evaluator, on one row and on all rows.\<close>

definition bind2 :: "('a \<Rightarrow> 'b \<Rightarrow> 'c) \<Rightarrow> 'a option \<Rightarrow> 'b option \<Rightarrow> 'c option" where
  "bind2 f x y = do { a \<leftarrow> x; b \<leftarrow> y; Some (f a b) }"

definition row_closures ::
    "'f::field eval_args \<Rightarrow> nat \<Rightarrow> int \<Rightarrow> int \<Rightarrow> ('f, 'f option) closures" where
  "row_closures args idx rot_scale isize =
     \<lparr>constant_of = Some,
      selector_column = (\<lambda>_. None),
      fixed_column = (\<lambda>q. do { r \<leftarrow> get_rotation_idx idx (fq_rotation q) rot_scale isize;
                               cell (fixed_values args) (fq_column_index q) r }),
      advice_column = (\<lambda>q. do { r \<leftarrow> get_rotation_idx idx (aq_rotation q) rot_scale isize;
                                cell (advice_values args) (aq_column_index q) r }),
      instance_column = (\<lambda>q. do { r \<leftarrow> get_rotation_idx idx (iq_rotation q) rot_scale isize;
                                  cell (instance_values args) (iq_column_index q) r }),
      challenge_value = (\<lambda>c. index_opt (challenges args) (ch_index c)),
      negated = map_option uminus,
      sum_of = bind2 (+),
      product_of = bind2 (*),
      scaled_by = (\<lambda>a scalar. map_option (\<lambda>v. v * scalar) a)\<rparr>"

definition evaluate_row :: "'f::field eval_args \<Rightarrow> nat \<Rightarrow> int \<Rightarrow> int \<Rightarrow> 'f expression \<Rightarrow> 'f option" where
  "evaluate_row args idx rot_scale isize = expr_evaluate (row_closures args idx rot_scale isize)"

definition evaluate_rows ::
    "'f::field eval_args \<Rightarrow> 'f expression \<Rightarrow> nat \<Rightarrow> int \<Rightarrow> 'f list option" where
  "evaluate_rows args expression sz rot_scale =
     those (map (\<lambda>idx. evaluate_row args idx rot_scale (as_i32 sz) expression) [0..<sz])"


section \<open>Running a graph on one row\<close>

text \<open>Sources and calculations only depend on the prefix of the state that they read.\<close>

lemma prefix_index_opt:
  "prefix xs ys \<Longrightarrow> index_opt xs i = Some v \<Longrightarrow> index_opt ys i = Some v"
  by (auto simp: prefix_def vec_simps nth_append)

lemma vs_get_mono:
  assumes "prefix rs rs'" "prefix cs cs'" "prefix ims ims'"
  shows "vs_get rs cs ims args s = Some v \<Longrightarrow> vs_get rs' cs' ims' args s = Some v"
  by (cases s) (auto simp: bind_eq_Some_conv dest: prefix_index_opt [OF assms(1)]
      prefix_index_opt [OF assms(2)] prefix_index_opt [OF assms(3)])

lemma horner_loop_mono:
  assumes "\<And>s v. get s = Some v \<Longrightarrow> get' s = Some v"
  shows "horner_loop get f v parts = Some w \<Longrightarrow> horner_loop get' f v parts = Some w"
  by (induction parts arbitrary: v) (auto simp: bind_eq_Some_conv dest!: assms)

lemma calc_evaluate_mono:
  assumes "prefix rs rs'" "prefix cs cs'" "prefix ims ims'"
  shows "calc_evaluate rs cs ims args c = Some v \<Longrightarrow> calc_evaluate rs' cs' ims' args c = Some v"
  using vs_get_mono [OF assms]
  by (cases c) (fastforce simp: bind_eq_Some_conv elim: horner_loop_mono [rotated])+

lemma horner_loop_eq:
  "horner_loop get f v parts =
   map_option (foldl (\<lambda>acc p. acc * f + p) v) (those (map get parts))"
  by (induction parts arbitrary: v) (auto split: option.splits simp: option.map_comp comp_def)

text \<open>
  The meaning of a graph on a row: \<open>rs\<close> are the resolved rotations, \<open>vals\<close> the value of each
  calculation, computed from the ones before it. The invariant includes that the targets number
  the calculations and that the constants start with 0, 1 and 2.
\<close>

record 'f row =
  row_args :: "'f eval_args"
  row_idx :: nat
  row_scale :: int
  row_isize :: int

abbreviation rot_idx :: "'f row \<Rightarrow> int \<Rightarrow> nat option" where
  "rot_idx r rot \<equiv> get_rotation_idx (row_idx r) rot (row_scale r) (row_isize r)"

definition graph_row :: "'f::field row \<Rightarrow> 'f graph_evaluator \<Rightarrow> nat list \<Rightarrow> 'f list \<Rightarrow> bool" where
  "graph_row r g rs vals \<longleftrightarrow>
     map (rot_idx r) (rotations g) = map Some rs \<and>
     prefix [0, 1, 2] (constants g) \<and>
     num_intermediates g = length (calculations g) \<and>
     length vals = length (calculations g) \<and>
     (\<forall>i < length vals. target (calculations g ! i) = i \<and>
        calc_evaluate rs (constants g) (take i vals) (row_args r) (calculation (calculations g ! i))
        = Some (vals ! i))"

definition graph_extends ::
    "'f graph_evaluator \<Rightarrow> nat list \<Rightarrow> 'f list \<Rightarrow> 'f graph_evaluator \<Rightarrow> nat list \<Rightarrow> 'f list \<Rightarrow> bool" where
  "graph_extends g rs vals g' rs' vals' \<longleftrightarrow>
     prefix (constants g) (constants g') \<and> prefix rs rs' \<and> prefix vals vals'"

abbreviation source_value ::
    "'f row \<Rightarrow> 'f graph_evaluator \<Rightarrow> nat list \<Rightarrow> 'f list \<Rightarrow> value_source \<Rightarrow> 'f option" where
  "source_value r g rs vals s \<equiv> vs_get rs (constants g) vals (row_args r) s"

lemma graph_row_default: "graph_row r graph_default [] []"
  by (simp add: graph_row_def graph_default_def)

lemma graph_extends_refl [simp]: "graph_extends g rs vals g rs vals"
  by (simp add: graph_extends_def)

lemma graph_extends_trans:
  "graph_extends g rs vals g' rs' vals' \<Longrightarrow> graph_extends g' rs' vals' g'' rs'' vals'' \<Longrightarrow>
   graph_extends g rs vals g'' rs'' vals''"
  by (auto simp: graph_extends_def)

lemma graph_extends_source:
  "graph_extends g rs vals g' rs' vals' \<Longrightarrow> source_value r g rs vals s = Some v \<Longrightarrow>
   source_value r g' rs' vals' s = Some v"
  by (auto simp: graph_extends_def intro: vs_get_mono)

lemma graph_row_constants:
  assumes "graph_row r g rs vals"
  shows "source_value r g rs vals (VConstant 0) = Some 0"
    and "source_value r g rs vals (VConstant 1) = Some 1"
    and "source_value r g rs vals (VConstant (Suc 0)) = Some 1"
    and "source_value r g rs vals (VConstant 2) = Some 2"
  using assms by (auto simp: graph_row_def prefix_def vec_simps)

text \<open>The state after adding something, with the value the returned source has.\<close>

definition added ::
    "'f::field row \<Rightarrow> 'f graph_evaluator \<Rightarrow> nat list \<Rightarrow> 'f list \<Rightarrow>
     'f graph_evaluator \<times> value_source \<Rightarrow> 'f \<Rightarrow> bool" where
  "added r g rs vals res v \<longleftrightarrow>
     (\<exists>rs' vals'. graph_row r (fst res) rs' vals' \<and> graph_extends g rs vals (fst res) rs' vals' \<and>
        source_value r (fst res) rs' vals' (snd res) = Some v)"

lemma added_here:
  "graph_row r g rs vals \<Longrightarrow> source_value r g rs vals s = Some v \<Longrightarrow> added r g rs vals (g, s) v"
  unfolding added_def by (metis fst_conv snd_conv graph_extends_refl)

lemma added_extends:
  "graph_extends g rs vals g' rs' vals' \<Longrightarrow> added r g' rs' vals' res v \<Longrightarrow> added r g rs vals res v"
  unfolding added_def by (meson graph_extends_trans)

lemma graph_row_add_constants:
  assumes row: "graph_row r g rs vals"
  shows "graph_row r (g\<lparr>constants := constants g @ cs\<rparr>) rs vals"
    and "graph_extends g rs vals (g\<lparr>constants := constants g @ cs\<rparr>) rs vals"
proof -
  have "calc_evaluate rs (constants g @ cs) (take i vals) (row_args r) c = Some v"
    if "calc_evaluate rs (constants g) (take i vals) (row_args r) c = Some v" for i c v
    by (rule calc_evaluate_mono [OF _ _ _ that]) auto
  with row show "graph_row r (g\<lparr>constants := constants g @ cs\<rparr>) rs vals"
    by (simp add: graph_row_def)
qed (simp add: graph_extends_def)

lemma added_constant:
  assumes row: "graph_row r g rs vals"
  shows "added r g rs vals (add_constant g c) c"
proof (cases "position (\<lambda>d. d = c) (constants g)")
  case None
  let ?g = "g\<lparr>constants := constants g @ [c]\<rparr>"
  have "source_value r ?g rs vals (VConstant (length (constants g))) = Some c"
    by (simp add: vec_simps)
  then have "added r ?g rs vals (add_constant g c) c"
    using None graph_row_add_constants [OF row, of "[c]"]
    by (simp add: add_constant_def added_here)
  then show ?thesis by (rule added_extends [OF graph_row_add_constants(2) [OF row]])
next
  case (Some pos)
  then show ?thesis
    using row by (auto simp: add_constant_def vec_simps dest: position_SomeD intro!: added_here)
qed

text \<open>A calculation that can be evaluated can be added.\<close>

lemma added_calculation:
  assumes row: "graph_row r g rs vals"
    and calc: "calc_evaluate rs (constants g) vals (row_args r) c = Some v"
  shows "added r g rs vals (add_calculation g c) v"
proof (cases "find (\<lambda>i. calculation i = c) (calculations g)")
  case None
  let ?g = "fst (add_calculation g c)"
  have len: "length vals = length (calculations g)" using row by (simp add: graph_row_def)
  have "graph_row r ?g rs (vals @ [v])"
    using row None calc by (auto simp: graph_row_def add_calculation_def Let_def nth_append less_Suc_eq)
  moreover have "graph_extends g rs vals ?g rs (vals @ [v])"
    using None by (simp add: graph_extends_def add_calculation_def Let_def)
  moreover have "source_value r ?g rs (vals @ [v]) (snd (add_calculation g c)) = Some v"
    using None row len by (simp add: add_calculation_def Let_def vec_simps graph_row_def nth_append)
  ultimately show ?thesis unfolding added_def by blast
next
  case (Some info)
  then obtain i where i: "i < length (calculations g)" "calculations g ! i = info" "calculation info = c"
    by (auto simp: find_Some_iff)
  with row have t: "target info = i" "i < length vals"
    and "calc_evaluate rs (constants g) (take i vals) (row_args r) c = Some (vals ! i)"
    by (auto simp: graph_row_def)
  then have "calc_evaluate rs (constants g) vals (row_args r) c = Some (vals ! i)"
    by (intro calc_evaluate_mono [of rs rs "constants g" "constants g" "take i vals" vals])
      (auto simp: take_is_prefix)
  with calc t Some row show ?thesis
    by (auto simp: add_calculation_def vec_simps intro!: added_here)
qed

lemma add_rotation_row:
  assumes row: "graph_row r g rs vals" and rot: "rot_idx r rotation = Some k"
  shows "\<exists>rs'. graph_row r (fst (add_rotation g rotation)) rs' vals \<and>
    graph_extends g rs vals (fst (add_rotation g rotation)) rs' vals \<and>
    index_opt rs' (snd (add_rotation g rotation)) = Some k"
proof (cases "position (\<lambda>c. c = rotation) (rotations g)")
  case None
  have "calc_evaluate (rs @ [k]) (constants g) (take i vals) (row_args r) c = Some v"
    if "calc_evaluate rs (constants g) (take i vals) (row_args r) c = Some v" for i c v
    by (rule calc_evaluate_mono [OF _ _ _ that]) auto
  moreover have "length rs = length (rotations g)"
    using row unfolding graph_row_def by (metis length_map)
  ultimately show ?thesis
    using None row rot
    by (intro exI [of _ "rs @ [k]"]) (simp add: add_rotation_def graph_row_def graph_extends_def index_opt_Some nth_append)
next
  case (Some pos)
  have "map (rot_idx r) (rotations g) = map Some rs" using row by (simp add: graph_row_def)
  moreover have "pos < length (rotations g)" "rotations g ! pos = rotation"
    using position_SomeD [OF Some] by auto
  ultimately have "pos < length rs" "Some (rs ! pos) = rot_idx r rotation"
    by (metis length_map, metis length_map nth_map)
  with Some row rot show ?thesis
    by (intro exI [of _ rs]) (simp add: add_rotation_def vec_simps)
qed

text \<open>The case distinctions on sources compute the operation they stand for.\<close>

lemma added_negate:
  assumes row: "graph_row r g rs vals" and "source_value r g rs vals s = Some v"
  shows "added r g rs vals (negate_source g s) (- v)"
  using assms graph_row_constants(1) [OF row]
  by (auto simp: negate_source_def intro!: added_here added_calculation)

lemma added_sub:
  assumes row: "graph_row r g rs vals" and "source_value r g rs vals s = Some v"
    "source_value r g rs vals t = Some w"
  shows "added r g rs vals (sub_sources g s t) (v - w)"
  using assms graph_row_constants(1) [OF row]
  by (auto simp: sub_sources_def intro!: added_here added_calculation)

lemma added_add:
  assumes row: "graph_row r g rs vals" and "source_value r g rs vals s = Some v"
    "source_value r g rs vals t = Some w"
  shows "added r g rs vals (add_sources g s t) (v + w)"
  using assms graph_row_constants(1) [OF row]
  by (auto simp: add_sources_def add.commute intro!: added_here added_calculation)

lemma added_mul:
  assumes row: "graph_row r g rs vals" and s: "source_value r g rs vals s = Some v"
    and t: "source_value r g rs vals t = Some w"
  shows "added r g rs vals (mul_sources g s t) (v * w)"
proof -
  note cs = graph_row_constants [OF row]
  have calc: "added r g rs vals (add_calculation g c) (v * w)"
    if "calc_evaluate rs (constants g) vals (row_args r) c = Some (v * w)" for c
    using added_calculation [OF row that] .
  consider "s = VConstant 0 \<or> t = VConstant 0" | "s = VConstant 1 \<or> t = VConstant 1"
      "s \<noteq> VConstant 0" "t \<noteq> VConstant 0"
    | "s = VConstant 2 \<or> t = VConstant 2" "s \<noteq> VConstant 0" "t \<noteq> VConstant 0" "s \<noteq> VConstant 1" "t \<noteq> VConstant 1"
    | "s \<noteq> VConstant 0" "t \<noteq> VConstant 0" "s \<noteq> VConstant 1" "t \<noteq> VConstant 1"
      "s \<noteq> VConstant 2" "t \<noteq> VConstant 2" by blast
  then show ?thesis
  proof cases
    case 1
    then have "v * w = 0" using s t cs(1) by auto
    with 1 show ?thesis using added_here [OF row cs(1)] by (auto simp: mul_sources_def)
  next
    case 2
    then show ?thesis
      using s t cs(2,3) added_here [OF row s] added_here [OF row t] by (auto simp: mul_sources_def)
  next
    case 3
    show ?thesis
    proof (cases "s = VConstant 2")
      case True
      with s cs(4) have "v = 2" by simp
      then have "v * w = w + w" by (simp only: mult_2)
      with t have "added r g rs vals (add_calculation g (CDouble t)) (v * w)"
        by (intro calc) simp
      with 3 True show ?thesis by (simp add: mul_sources_def)
    next
      case False
      with 3 have "t = VConstant 2" by simp
      with t cs(4) have "w = 2" by simp
      then have "v * w = v + v" by (simp only: mult_2_right)
      with s have "added r g rs vals (add_calculation g (CDouble s)) (v * w)"
        by (intro calc) simp
      with 3 False show ?thesis by (simp add: mul_sources_def)
    qed
  next
    case 4
    then have "added r g rs vals (add_calculation g (if s = t then CSquare s
        else if vs_le s t then CMul s t else CMul t s)) (v * w)"
      using s t by (intro calc) (auto simp: mult.commute)
    with 4 show ?thesis by (auto simp: mul_sources_def)
  qed
qed

lemma row_closures_simps [simp]:
  "constant_of (row_closures args idx rot_scale isize) = Some"
  "selector_column (row_closures args idx rot_scale isize) sel = None"
  "negated (row_closures args idx rot_scale isize) = map_option uminus"
  "sum_of (row_closures args idx rot_scale isize) = bind2 (+)"
  "product_of (row_closures args idx rot_scale isize) = bind2 (*)"
  "scaled_by (row_closures args idx rot_scale isize) = (\<lambda>a scalar. map_option (\<lambda>v. v * scalar) a)"
  by (simp_all add: row_closures_def)

lemma bind2_Some_iff: "bind2 f x y = Some z \<longleftrightarrow> (\<exists>a b. x = Some a \<and> y = Some b \<and> z = f a b)"
  by (auto simp: bind2_def bind_eq_Some_conv)

abbreviation row_value :: "'f::field row \<Rightarrow> 'f expression \<Rightarrow> 'f option" where
  "row_value r \<equiv> evaluate_row (row_args r) (row_idx r) (row_scale r) (row_isize r)"

text \<open>\<open>compiles\<close>: compilation from any graph succeeds and gives a source of this value.\<close>

definition compiles :: "'f::field row \<Rightarrow> 'f expression \<Rightarrow> 'f \<Rightarrow> bool" where
  "compiles r e v \<longleftrightarrow>
     (\<forall>g rs vals. graph_row r g rs vals \<longrightarrow>
        (\<exists>res. add_expression g e = Some res \<and> added r g rs vals res v))"

lemma compilesI:
  "(\<And>g rs vals. graph_row r g rs vals \<Longrightarrow>
     \<exists>res. add_expression g e = Some res \<and> added r g rs vals res v) \<Longrightarrow> compiles r e v"
  by (simp add: compiles_def)

lemma compilesE:
  assumes "compiles r e v" "graph_row r g rs vals"
  obtains g' s rs' vals' where "add_expression g e = Some (g', s)" "graph_row r g' rs' vals'"
    "graph_extends g rs vals g' rs' vals'" "source_value r g' rs' vals' s = Some v"
  using assms unfolding compiles_def added_def by (metis prod.collapse)

text \<open>Compiling a query.\<close>

lemma added_query:
  assumes row: "graph_row r g rs vals" and rot: "rot_idx r rotation = Some k"
    and get: "\<And>rs' g'. index_opt rs' (snd (add_rotation g rotation)) = Some k \<Longrightarrow>
      source_value r g' rs' vals (src (snd (add_rotation g rotation))) = Some v"
  shows "added r g rs vals
    (case add_rotation g rotation of (g, i) \<Rightarrow> add_calculation g (CStore (src i))) v"
proof -
  obtain g' i where gi: "add_rotation g rotation = (g', i)" by fastforce
  with add_rotation_row [OF row rot] obtain rs' where rs': "graph_row r g' rs' vals"
    "graph_extends g rs vals g' rs' vals" "index_opt rs' i = Some k" by auto
  have "added r g' rs' vals (add_calculation g' (CStore (src i))) v"
    using get [of rs' g'] gi rs' by (intro added_calculation) auto
  with rs' gi show ?thesis by (auto intro: added_extends)
qed

text \<open>Two operands, compiled one after the other.\<close>

lemma compiles_two:
  assumes a: "compiles r a v" and b: "compiles r b w"
    and comb: "\<And>g rs vals s t. graph_row r g rs vals \<Longrightarrow> source_value r g rs vals s = Some v \<Longrightarrow>
      source_value r g rs vals t = Some w \<Longrightarrow> added r g rs vals (comb g s t) u"
    and row: "graph_row r g rs vals"
  shows "\<exists>res. do { (g, s) \<leftarrow> add_expression g a; (g, t) \<leftarrow> add_expression g b; Some (comb g s t) } = Some res
    \<and> added r g rs vals res u"
proof -
  obtain g1 s rs1 vals1 where 1: "add_expression g a = Some (g1, s)" "graph_row r g1 rs1 vals1"
    "graph_extends g rs vals g1 rs1 vals1" "source_value r g1 rs1 vals1 s = Some v"
    using compilesE [OF a row] .
  obtain g2 t rs2 vals2 where 2: "add_expression g1 b = Some (g2, t)" "graph_row r g2 rs2 vals2"
    "graph_extends g1 rs1 vals1 g2 rs2 vals2" "source_value r g2 rs2 vals2 t = Some w"
    using compilesE [OF b 1(2)] .
  have "added r g2 rs2 vals2 (comb g2 s t) u"
    using comb [OF 2(2) graph_extends_source [OF 2(3) 1(4)] 2(4)] .
  with 1 2 show ?thesis by (auto intro: added_extends graph_extends_trans)
qed

lemma compiles_negated:
  assumes "compiles r a v" and nc: "\<And>c. a \<noteq> Constant c"
  shows "compiles r (Negated a) (- v)"
proof (rule compilesI)
  fix g :: "'a graph_evaluator" and rs vals
  assume row: "graph_row r g rs vals"
  obtain g1 s rs1 vals1 where 1: "add_expression g a = Some (g1, s)" "graph_row r g1 rs1 vals1"
    "graph_extends g rs vals g1 rs1 vals1" "source_value r g1 rs1 vals1 s = Some v"
    using compilesE [OF assms(1) row] .
  have gen: "added r g rs vals (negate_source g1 s) (- v)"
    using added_extends [OF 1(3) added_negate [OF 1(2,4)]] .
  show "\<exists>res. add_expression g (Negated a) = Some res \<and> added r g rs vals res (- v)"
    using 1 nc gen by (cases a) auto
qed

lemma compiles_scaled:
  assumes "compiles r a v"
  shows "compiles r (Scaled a f) (v * f)"
proof (rule compilesI)
  fix g :: "'a graph_evaluator" and rs vals
  assume row: "graph_row r g rs vals"
  obtain g0 cst where g0: "add_constant g f = (g0, cst)" by fastforce
  with added_constant [OF row, of f] obtain rs0 vals0 where 0: "graph_row r g0 rs0 vals0"
    "graph_extends g rs vals g0 rs0 vals0" "source_value r g0 rs0 vals0 cst = Some f"
    unfolding added_def by auto
  obtain g1 s rs1 vals1 where 1: "add_expression g0 a = Some (g1, s)" "graph_row r g1 rs1 vals1"
    "graph_extends g0 rs0 vals0 g1 rs1 vals1" "source_value r g1 rs1 vals1 s = Some v"
    using compilesE [OF assms 0(1)] .
  have "added r g1 rs1 vals1 (add_calculation g1 (CMul s cst)) (v * f)"
    using 1 graph_extends_source [OF 1(3) 0(3)] by (intro added_calculation) auto
  then have "added r g rs vals (add_calculation g1 (CMul s cst)) (v * f)"
    using added_extends [OF 0(2) added_extends [OF 1(3)]] by blast
  moreover have "added r g rs vals (g, VConstant 0) (v * 0)"
    using added_here [OF row graph_row_constants(1) [OF row]] by simp
  moreover have "\<exists>res. add_expression g a = Some res \<and> added r g rs vals res v"
    using assms row by (simp add: compiles_def)
  ultimately show "\<exists>res. add_expression g (Scaled a f) = Some res \<and> added r g rs vals res (v * f)"
    using g0 1(1) by (cases "f = 0"; cases "f = 1") (simp_all del: split_paired_Ex)
qed

lemma compiles_sum:
  assumes a: "compiles r a v" and b: "compiles r b w" and nb: "\<And>c. b \<noteq> Negated c"
  shows "compiles r (Sum a b) (v + w)"
proof (rule compilesI)
  fix g :: "'a graph_evaluator" and rs vals
  assume row: "graph_row r g rs vals"
  have "add_expression g (Sum a b) = do { (g, s) \<leftarrow> add_expression g a; (g, t) \<leftarrow> add_expression g b;
      Some (add_sources g s t) }"
    using nb by (cases b) auto
  with compiles_two [OF a b added_add row]
  show "\<exists>res. add_expression g (Sum a b) = Some res \<and> added r g rs vals res (v + w)" by simp
qed

lemma compiles_row_value: "row_value r e = Some v \<Longrightarrow> compiles r e v"
proof (induction e arbitrary: v rule: measure_induct_rule [of size])
  case (less e)
  show ?case
  proof (cases e)
    case (Negated a)
    with less.prems obtain w where w: "row_value r a = Some w" "v = - w"
      by (auto simp: evaluate_row_def)
    have "compiles r a w" using less.IH [of a w] w Negated by simp
    show ?thesis
    proof (cases "\<exists>c. a = Constant c")
      case True
      with w Negated show ?thesis
        by (auto simp: evaluate_row_def intro!: compilesI added_constant)
    next
      case False
      with \<open>compiles r a w\<close> w(2) Negated show ?thesis by (auto intro: compiles_negated)
    qed
  next
    case (Sum a b)
    with less.prems obtain x y where xy: "row_value r a = Some x" "row_value r b = Some y" "v = x + y"
      by (auto simp: evaluate_row_def bind2_Some_iff)
    have a: "compiles r a x" using less.IH [of a x] xy Sum by simp
    show ?thesis
    proof (cases "\<exists>c. b = Negated c")
      case True
      then obtain c z where c: "b = Negated c" "row_value r c = Some z" "v = x - z"
        using xy by (auto simp: evaluate_row_def)
      have "compiles r c z" using less.IH [of c z] c Sum by simp
      from compiles_two [OF a this added_sub] c Sum show ?thesis by (auto intro!: compilesI)
    next
      case False
      with a less.IH [of b y] xy Sum show ?thesis by (auto intro: compiles_sum)
    qed
  next
    case (Product a b)
    with less.prems obtain x y where xy: "row_value r a = Some x" "row_value r b = Some y" "v = x * y"
      by (auto simp: evaluate_row_def bind2_Some_iff)
    have "compiles r a x" "compiles r b y" using less.IH [of a x] less.IH [of b y] xy Product by simp_all
    from compiles_two [OF this added_mul] xy Product show ?thesis by (auto intro!: compilesI)
  next
    case (Scaled a f)
    with less.prems less.IH [of a] show ?thesis
      by (auto simp: evaluate_row_def intro!: compiles_scaled)
  qed (use less.prems in \<open>auto simp: evaluate_row_def row_closures_def bind_eq_Some_conv Let_def
        case_prod_beta intro!: compilesI added_constant added_calculation
        added_query [unfolded case_prod_beta]\<close>)
qed


lemma add_expressions_row:
  assumes "list_all2 (\<lambda>e v. row_value r e = Some v) es vs" "graph_row r g rs vals"
  shows "\<exists>g' ss rs' vals'. add_expressions g es = Some (g', ss) \<and> graph_row r g' rs' vals' \<and>
    graph_extends g rs vals g' rs' vals' \<and> those (map (source_value r g' rs' vals') ss) = Some vs"
  using assms
proof (induction es vs arbitrary: g rs vals rule: list_all2_induct)
  case Nil
  then show ?case by (auto intro!: exI [of _ rs] exI [of _ vals])
next
  case (Cons e es v vs)
  obtain g1 s rs1 vals1 where 1: "add_expression g e = Some (g1, s)" "graph_row r g1 rs1 vals1"
    "graph_extends g rs vals g1 rs1 vals1" "source_value r g1 rs1 vals1 s = Some v"
    using compilesE [OF compiles_row_value [OF Cons.hyps(1)] Cons.prems] .
  obtain g2 ss rs2 vals2 where 2: "add_expressions g1 es = Some (g2, ss)" "graph_row r g2 rs2 vals2"
    "graph_extends g1 rs1 vals1 g2 rs2 vals2" "those (map (source_value r g2 rs2 vals2) ss) = Some vs"
    using Cons.IH [OF 1(2)] by blast
  have "source_value r g2 rs2 vals2 s = Some v" using graph_extends_source [OF 2(3) 1(4)] .
  with 1 2 show ?case by (auto intro!: exI [of _ rs2] exI [of _ vals2] intro: graph_extends_trans)
qed

section \<open>Running on a reused buffer\<close>

lemma rotation_loop_row:
  assumes "map (\<lambda>rot. get_rotation_idx idx rot rot_scale isize) rots = map Some rs"
    "length buf = off + length rots"
  shows "rotation_loop idx rot_scale isize off rots buf = Some (take off buf @ rs)"
  using assms
proof (induction rots arbitrary: off rs buf)
  case Nil
  then show ?case by simp
next
  case (Cons rot rots)
  then obtain k ks where rs: "rs = k # ks"
    and k: "get_rotation_idx idx rot rot_scale isize = Some k"
    and ks: "map (\<lambda>rot. get_rotation_idx idx rot rot_scale isize) rots = map Some ks"
    by (auto simp: Cons_eq_map_conv)
  have "off < length buf" using Cons.prems by simp
  then show ?case
    using Cons.IH [OF ks, of "buf[off := k]" "Suc off"] Cons.prems k rs
    by (simp add: update_opt_def take_Suc_conv_app_nth)
qed

text \<open>
  The buffer of the previous row never matters: after \<open>i\<close> calculations it holds their values,
  followed by what was there before.
\<close>

lemma calculation_loop_row:
  assumes row: "graph_row r g rs vals" and buf: "length buf = length vals" and "i \<le> length vals"
  shows "calculation_loop rs (constants g) (row_args r) (drop i (calculations g))
      (take i vals @ drop i buf) = Some vals"
  using assms(3)
proof (induction i rule: inc_induct)
  case base
  have "length vals = length (calculations g)" using row by (simp add: graph_row_def)
  with buf show ?case by simp
next
  case (step i)
  then have i: "i < length (calculations g)" "i < length vals" using row by (auto simp: graph_row_def)
  have "calc_evaluate rs (constants g) (take i vals) (row_args r) (calculation (calculations g ! i))
      = Some (vals ! i)" and t: "target (calculations g ! i) = i"
    using row i by (auto simp: graph_row_def)
  then have "calc_evaluate rs (constants g) (take i vals @ drop i buf) (row_args r)
      (calculation (calculations g ! i)) = Some (vals ! i)"
    by (elim calc_evaluate_mono [rotated 3]) auto
  moreover have "update_opt (take i vals @ drop i buf) i (vals ! i)
      = Some (take (Suc i) vals @ drop (Suc i) buf)"
    using i buf by (auto simp: update_opt_def list_update_append take_Suc_conv_app_nth
        simp flip: Cons_nth_drop_Suc)
  ultimately show ?case using step.IH i t by (simp flip: Cons_nth_drop_Suc)
qed

definition buffer_for :: "'f graph_evaluator \<Rightarrow> 'f evaluation_data \<Rightarrow> bool" where
  "buffer_for g data \<longleftrightarrow> length (intermediates data) = num_intermediates g \<and>
     length (data_rotations data) = length (rotations g)"

lemma buffer_for_instance: "buffer_for g (graph_instance g)"
  by (simp add: buffer_for_def graph_instance_def)

lemma graph_evaluate_row:
  assumes row: "graph_row r g rs vals" and buf: "buffer_for g data"
  shows "graph_evaluate g data (row_args r) (row_idx r) (row_scale r) (row_isize r) =
    Some (\<lparr>intermediates = vals, data_rotations = rs\<rparr>, if vals = [] then 0 else last vals)"
    and "buffer_for g \<lparr>intermediates = vals, data_rotations = rs\<rparr>"
proof -
  have len: "length vals = length (calculations g)" "length rs = length (rotations g)"
    using row unfolding graph_row_def by (auto dest: map_eq_imp_length_eq)
  have "rotation_loop (row_idx r) (row_scale r) (row_isize r) 0 (rotations g) (data_rotations data)
      = Some rs"
    using row buf by (subst rotation_loop_row [where rs = rs]) (auto simp: graph_row_def buffer_for_def)
  moreover have "calculation_loop rs (constants g) (row_args r) (calculations g) (intermediates data)
      = Some vals"
    using calculation_loop_row [OF row, of "intermediates data" 0] buf row
    by (simp add: buffer_for_def graph_row_def)
  moreover have "target (last (calculations g)) = length vals - 1" if "calculations g \<noteq> []"
    using row that len by (simp add: last_conv_nth graph_row_def)
  ultimately show "graph_evaluate g data (row_args r) (row_idx r) (row_scale r) (row_isize r) =
      Some (\<lparr>intermediates = vals, data_rotations = rs\<rparr>, if vals = [] then 0 else last vals)"
    using len by (auto simp: graph_evaluate_def index_opt_def last_conv_nth)
  show "buffer_for g \<lparr>intermediates = vals, data_rotations = rs\<rparr>"
    using row len by (simp add: buffer_for_def graph_row_def)
qed


section \<open>Building graphs with known sources\<close>

text \<open>
  What the builders of graphs (\<open>Evaluator::new\<close>) are reasoned with: a set \<open>K\<close> of sources whose value
  on the row is known. Every builder step extends it.
\<close>

definition knows :: "'f::field row \<Rightarrow> 'f graph_evaluator \<Rightarrow> (value_source \<times> 'f) set \<Rightarrow> bool" where
  "knows r g K \<longleftrightarrow>
     (\<exists>rs vals. graph_row r g rs vals \<and> (\<forall>(s, v)\<in>K. source_value r g rs vals s = Some v))"

lemma knows_default: "knows r graph_default {}"
  using graph_row_default by (auto simp: knows_def)

lemma knows_mono: "knows r g K \<Longrightarrow> L \<subseteq> K \<Longrightarrow> knows r g L"
  unfolding knows_def by blast

definition basics :: "'f::field row \<Rightarrow> (value_source \<times> 'f) set" where
  "basics r = {(VConstant 0, 0), (VConstant 1, 1), (VBeta, arg_beta (row_args r)),
    (VTheta, arg_theta (row_args r)), (VTrashChallenge, arg_trash_challenge (row_args r)),
    (VY, arg_y (row_args r)), (VPreviousValue, previous_value (row_args r))}"

lemma knows_basic: "knows r g K \<Longrightarrow> knows r g (basics r \<union> K)"
  using graph_row_constants unfolding knows_def basics_def by fastforce

lemma knows_added:
  assumes row: "graph_row r g rs vals" and K: "\<forall>(s, v)\<in>K. source_value r g rs vals s = Some v"
    and add: "added r g rs vals res v"
  shows "knows r (fst res) (insert (snd res, v) K)"
proof -
  obtain rs' vals' where "graph_row r (fst res) rs' vals'"
    "graph_extends g rs vals (fst res) rs' vals'" "source_value r (fst res) rs' vals' (snd res) = Some v"
    using add unfolding added_def by blast
  moreover from this have "source_value r (fst res) rs' vals' s = Some w" if "(s, w) \<in> K" for s w
    using K that graph_extends_source [of g rs vals "fst res" rs' vals' r s w] by auto
  ultimately show ?thesis
    unfolding knows_def by (intro exI [of _ rs'] exI [of _ vals']) auto
qed

lemma knows_expression:
  assumes k: "knows r g K" and e: "row_value r e = Some v"
  shows "\<exists>g' s. add_expression g e = Some (g', s) \<and> knows r g' (insert (s, v) K)"
proof -
  obtain rs vals where row: "graph_row r g rs vals"
    and K: "\<forall>(s, v)\<in>K. source_value r g rs vals s = Some v"
    using k unfolding knows_def by blast
  obtain res where "add_expression g e = Some res" "added r g rs vals res v"
    using compiles_row_value [OF e] row unfolding compiles_def by blast
  with knows_added [OF row K] show ?thesis by (metis prod.collapse)
qed

lemma knows_expressions:
  assumes "list_all2 (\<lambda>e v. row_value r e = Some v) es vs" and "knows r g K"
  shows "\<exists>g' ss. add_expressions g es = Some (g', ss) \<and> knows r g' (set (zip ss vs) \<union> K) \<and>
    length ss = length vs"
  using assms
proof (induction es vs arbitrary: g K rule: list_all2_induct)
  case Nil
  then show ?case by simp
next
  case (Cons e es v vs)
  obtain g1 s where 1: "add_expression g e = Some (g1, s)" "knows r g1 (insert (s, v) K)"
    using knows_expression [OF Cons.prems Cons.hyps(1)] by blast
  from Cons.IH [OF 1(2)] 1(1) show ?case by auto
qed

lemma knows_calculation:
  assumes k: "knows r g K"
    and calc: "\<And>rs vals. \<forall>(s, v)\<in>K. source_value r g rs vals s = Some v \<Longrightarrow>
      calc_evaluate rs (constants g) vals (row_args r) c = Some v"
  shows "knows r (fst (add_calculation g c)) (insert (snd (add_calculation g c), v) K)"
proof -
  obtain rs vals where row: "graph_row r g rs vals"
    and K: "\<forall>(s, v)\<in>K. source_value r g rs vals s = Some v"
    using k unfolding knows_def by blast
  show ?thesis
    by (rule knows_added [OF row K added_calculation [OF row calc [OF K]]])
qed

lemma those_zip_values:
  "length ss = length vs \<Longrightarrow> \<forall>(s, v)\<in>set (zip ss vs). get s = Some v \<Longrightarrow> those (map get ss) = Some vs"
  by (induction ss vs rule: list_induct2) auto

lemma known_get: "(s, v) \<in> K \<Longrightarrow> \<forall>(s, v)\<in>K. get s = Some v \<Longrightarrow> get s = Some v"
  by auto

lemma knows_store:
  "knows r g K \<Longrightarrow> (s, v) \<in> K \<Longrightarrow>
   knows r (fst (add_calculation g (CStore s))) (insert (snd (add_calculation g (CStore s)), v) K)"
  by (rule knows_calculation) auto

lemma knows_add:
  assumes "knows r g K" "(s, v) \<in> K" "(t, w) \<in> K"
  shows "knows r (fst (add_calculation g (CAdd s t)))
    (insert (snd (add_calculation g (CAdd s t)), v + w) K)"
proof (rule knows_calculation [OF assms(1)])
  fix rs vals
  assume K: "\<forall>(s, v)\<in>K. source_value r g rs vals s = Some v"
  show "calc_evaluate rs (constants g) vals (row_args r) (CAdd s t) = Some (v + w)"
    using known_get [OF assms(2) K] known_get [OF assms(3) K] by simp
qed

lemma knows_mul:
  assumes "knows r g K" "(s, v) \<in> K" "(t, w) \<in> K"
  shows "knows r (fst (add_calculation g (CMul s t)))
    (insert (snd (add_calculation g (CMul s t)), v * w) K)"
proof (rule knows_calculation [OF assms(1)])
  fix rs vals
  assume K: "\<forall>(s, v)\<in>K. source_value r g rs vals s = Some v"
  show "calc_evaluate rs (constants g) vals (row_args r) (CMul s t) = Some (v * w)"
    using known_get [OF assms(2) K] known_get [OF assms(3) K] by simp
qed

definition horner :: "'f::comm_ring_1 \<Rightarrow> 'f \<Rightarrow> 'f list \<Rightarrow> 'f" where
  "horner f v vs = foldl (\<lambda>acc p. acc * f + p) v vs"

lemma horner_value:
  assumes "length parts = length vs" "\<forall>(s, v)\<in>K. get s = Some v" "set (zip parts vs) \<subseteq> K"
    "(s, v) \<in> K" "(t, f) \<in> K"
  shows "do { f \<leftarrow> get t; v \<leftarrow> get s; horner_loop get f v parts } = Some (horner f v vs)"
proof -
  have "those (map get parts) = Some vs" using assms by (intro those_zip_values) auto
  moreover have "get s = Some v" "get t = Some f"
    using known_get [OF assms(4,2)] known_get [OF assms(5,2)] by auto
  ultimately show ?thesis by (simp add: horner_loop_eq horner_def)
qed

lemma knows_horner:
  assumes "knows r g K" "length parts = length vs" "set (zip parts vs) \<subseteq> K" "(s, v) \<in> K" "(t, f) \<in> K"
  shows "knows r (fst (add_calculation g (CHorner s parts t)))
    (insert (snd (add_calculation g (CHorner s parts t)), horner f v vs) K)"
  by (rule knows_calculation [OF assms(1)]) (simp add: horner_value [OF assms(2) _ assms(3-5)])

text \<open>Running a graph gives every known intermediate value, from any buffer of the right size.\<close>

lemma knows_evaluate:
  assumes "knows r g K" "buffer_for g data"
  shows "\<exists>data' w. graph_evaluate g data (row_args r) (row_idx r) (row_scale r) (row_isize r)
      = Some (data', w) \<and> buffer_for g data' \<and>
    (\<forall>(s, v)\<in>K. \<forall>i. s = VIntermediate i \<longrightarrow> resolve data' s = Some v)"
proof -
  obtain rs vals where row: "graph_row r g rs vals"
    and K: "\<forall>(s, v)\<in>K. source_value r g rs vals s = Some v"
    using assms unfolding knows_def by blast
  then show ?thesis using graph_evaluate_row [OF row assms(2)] by (fastforce simp: resolve_def)
qed

lemma graph_evaluate_fresh:
  assumes k: "knows r (fst (add_calculation g c)) (insert (snd (add_calculation g c), v) K)"
    and fresh: "\<forall>info\<in>set (calculations g). calculation info \<noteq> c"
    and buf: "buffer_for (fst (add_calculation g c)) data" and g: "num_intermediates g = length (calculations g)"
  shows "\<exists>data'. graph_evaluate (fst (add_calculation g c)) data (row_args r) (row_idx r) (row_scale r)
      (row_isize r) = Some (data', v) \<and> buffer_for (fst (add_calculation g c)) data'"
proof -
  obtain rs vals where row: "graph_row r (fst (add_calculation g c)) rs vals"
    and v: "source_value r (fst (add_calculation g c)) rs vals (snd (add_calculation g c)) = Some v"
    using k unfolding knows_def by blast
  have new: "find (\<lambda>i. calculation i = c) (calculations g) = None" using fresh by (simp add: find_None_iff)
  then have len: "length vals = Suc (length (calculations g))"
    using row by (simp add: graph_row_def add_calculation_def Let_def)
  from len have "vals ! length (calculations g) = v"
    using v new g by (simp add: add_calculation_def Let_def vec_simps)
  moreover have ne: "vals \<noteq> []" using len by auto
  moreover have "last vals = vals ! length (calculations g)" using len last_conv_nth [OF ne] by simp
  ultimately have last: "(if vals = [] then 0 else last vals) = v" by simp
  show ?thesis
    using graph_evaluate_row [OF row buf] unfolding last by blast
qed

text \<open>Expressions compile to calculations that are not Horner evaluations.\<close>

fun is_horner :: "calculation \<Rightarrow> bool" where
  "is_horner (CHorner _ _ _) = True"
| "is_horner _ = False"

definition no_horner :: "'f graph_evaluator \<Rightarrow> bool" where
  "no_horner g \<longleftrightarrow> (\<forall>info\<in>set (calculations g). \<not> is_horner (calculation info))"

lemma no_horner_default: "no_horner graph_default"
  by (simp add: no_horner_def graph_default_def)

lemma no_horner_calculation: "no_horner g \<Longrightarrow> \<not> is_horner c \<Longrightarrow> no_horner (fst (add_calculation g c))"
  by (auto simp: no_horner_def add_calculation_def Let_def split: option.splits)

lemma no_horner_constant: "no_horner g \<Longrightarrow> no_horner (fst (add_constant g c))"
  by (auto simp: no_horner_def add_constant_def split: option.splits)

lemma no_horner_rotation: "no_horner g \<Longrightarrow> no_horner (fst (add_rotation g rot))"
  by (auto simp: no_horner_def add_rotation_def split: option.splits)

lemma no_horner_sources:
  "no_horner g \<Longrightarrow> no_horner (fst (negate_source g s))"
  "no_horner g \<Longrightarrow> no_horner (fst (sub_sources g s t))"
  "no_horner g \<Longrightarrow> no_horner (fst (add_sources g s t))"
  "no_horner g \<Longrightarrow> no_horner (fst (mul_sources g s t))"
  by (auto simp: negate_source_def sub_sources_def add_sources_def mul_sources_def
      intro: no_horner_calculation)

lemma no_horner_expression:
  "add_expression g e = Some res \<Longrightarrow> no_horner g \<Longrightarrow> no_horner (fst res)"
proof (induction e arbitrary: g res rule: measure_induct_rule [of size])
  case (less e)
  show ?case
  proof (cases e)
    case (Negated a)
    show ?thesis
    proof (cases "\<exists>c. a = Constant c")
      case True
      with Negated less.prems show ?thesis by (auto intro: no_horner_constant)
    next
      case False
      then have "add_expression g e = do { (g, s) \<leftarrow> add_expression g a; Some (negate_source g s) }"
        unfolding Negated by (cases a) auto
      with less.prems obtain g1 s where "add_expression g a = Some (g1, s)" "res = negate_source g1 s"
        by (auto simp: bind_eq_Some_conv)
      with less.prems less.IH [of a g "(g1, s)"] Negated show ?thesis by (simp add: no_horner_sources)
    qed
  next
    case (Sum a b)
    show ?thesis
    proof (cases "\<exists>c. b = Negated c")
      case True
      then obtain c where c: "b = Negated c" by blast
      then obtain g1 s g2 t where "add_expression g a = Some (g1, s)" "add_expression g1 c = Some (g2, t)"
        "res = sub_sources g2 s t" using less.prems Sum by (auto simp: bind_eq_Some_conv)
      with less.prems less.IH [of a g "(g1, s)"] less.IH [of c g1 "(g2, t)"] Sum c show ?thesis
        by (simp add: no_horner_sources)
    next
      case False
      then have "add_expression g e = do { (g, s) \<leftarrow> add_expression g a;
          (g, t) \<leftarrow> add_expression g b; Some (add_sources g s t) }"
        unfolding Sum by (cases b) auto
      with less.prems obtain g1 s g2 t where "add_expression g a = Some (g1, s)"
        "add_expression g1 b = Some (g2, t)" "res = add_sources g2 s t" by (auto simp: bind_eq_Some_conv)
      with less.prems less.IH [of a g "(g1, s)"] less.IH [of b g1 "(g2, t)"] Sum show ?thesis
        by (simp add: no_horner_sources)
    qed
  next
    case (Product a b)
    with less.prems less.IH [of a] less.IH [of b] show ?thesis
      by (fastforce simp: bind_eq_Some_conv intro: no_horner_sources)
  next
    case (Scaled a f)
    consider "f = 0" | "f = 1" "f \<noteq> 0" | "f \<noteq> 0" "f \<noteq> 1" by blast
    then show ?thesis
    proof cases
      case 3
      then obtain g1 s where "add_expression (fst (add_constant g f)) a = Some (g1, s)"
        "res = add_calculation g1 (CMul s (snd (add_constant g f)))"
        using less.prems Scaled by (auto simp: bind_eq_Some_conv Let_def case_prod_beta)
      with less.prems less.IH [of a "fst (add_constant g f)" "(g1, s)"] Scaled show ?thesis
        by (simp add: no_horner_constant no_horner_calculation)
    qed (use less.prems less.IH [of a g res] Scaled in auto)
  qed (use less.prems in \<open>auto simp: Let_def case_prod_beta
        intro!: no_horner_calculation no_horner_constant no_horner_rotation\<close>)
qed

lemma no_horner_expressions:
  "add_expressions g es = Some res \<Longrightarrow> no_horner g \<Longrightarrow> no_horner (fst res)"
  by (induction es arbitrary: g res) (fastforce simp: bind_eq_Some_conv dest: no_horner_expression)+

section \<open>Sharing of common subexpressions\<close>

text \<open>
  A builder step is \<open>settled\<close> if it only appends to the graph, and if running it again on the result,
  or on anything built on top of it, changes nothing and returns the same source.
\<close>

definition graph_prefix :: "'f graph_evaluator \<Rightarrow> 'f graph_evaluator \<Rightarrow> bool" where
  "graph_prefix g h \<longleftrightarrow> prefix (constants g) (constants h) \<and> prefix (rotations g) (rotations h) \<and>
     prefix (calculations g) (calculations h)"

definition settled :: "('f graph_evaluator \<Rightarrow> ('f graph_evaluator \<times> 'b) option) \<Rightarrow> bool" where
  "settled f \<longleftrightarrow> (\<forall>g g' x. f g = Some (g', x) \<longrightarrow>
     graph_prefix g g' \<and> (\<forall>h. graph_prefix g' h \<longrightarrow> f h = Some (h, x)))"

lemma graph_prefix_refl [simp]: "graph_prefix g g"
  by (simp add: graph_prefix_def)

lemma graph_prefix_trans: "graph_prefix g h \<Longrightarrow> graph_prefix h k \<Longrightarrow> graph_prefix g k"
  by (auto simp: graph_prefix_def)

lemma settled_return: "settled (\<lambda>g. Some (g, x))"
  by (simp add: settled_def)

lemma settled_bind:
  assumes f: "settled f" and k: "\<And>x. settled (\<lambda>g. k g x)"
  shows "settled (\<lambda>g. do { (g, x) \<leftarrow> f g; k g x })"
  unfolding settled_def
proof (intro allI impI)
  fix g g' y
  assume "do { (g, x) \<leftarrow> f g; k g x } = Some (g', y)"
  then obtain g1 x where g1: "f g = Some (g1, x)" and g': "k g1 x = Some (g', y)"
    by (auto simp: bind_eq_Some_conv)
  have pf: "graph_prefix g g1" and sf: "\<And>h. graph_prefix g1 h \<Longrightarrow> f h = Some (h, x)"
    using f g1 unfolding settled_def by blast+
  have pk: "graph_prefix g1 g'" and sk: "\<And>h. graph_prefix g' h \<Longrightarrow> k h x = Some (h, y)"
    using k [of x] g' unfolding settled_def by blast+
  show "graph_prefix g g' \<and> (\<forall>h. graph_prefix g' h \<longrightarrow> do { (g, x) \<leftarrow> f h; k g x } = Some (h, y))"
    using sf sk graph_prefix_trans [OF pf pk] graph_prefix_trans [OF pk] by simp
qed

lemma position_prefix: "position p xs = Some i \<Longrightarrow> prefix xs ys \<Longrightarrow> position p ys = Some i"
  by (auto simp: prefix_def position_append_left)

lemma position_prefix_new:
  "position p xs = None \<Longrightarrow> p y \<Longrightarrow> prefix (xs @ [y]) ys \<Longrightarrow> position p ys = Some (length xs)"
  by (rule position_prefix [OF position_append_new])

lemma find_prefix: "find p xs = Some x \<Longrightarrow> prefix xs ys \<Longrightarrow> find p ys = Some x"
  by (induction xs arbitrary: ys) (auto simp: prefix_def split: if_splits)

lemma find_prefix_new:
  "find p xs = None \<Longrightarrow> p y \<Longrightarrow> prefix (xs @ [y]) ys \<Longrightarrow> find p ys = Some y"
  by (induction xs arbitrary: ys) (auto simp: prefix_def split: if_splits)

lemma settled_add_rotation: "settled (\<lambda>g. Some (add_rotation g rot))"
  unfolding settled_def
proof (intro allI impI)
  fix g g' x
  assume "Some (add_rotation g rot) = Some (g', x)"
  then have g': "add_rotation g rot = (g', x)" by simp
  show "graph_prefix g g' \<and> (\<forall>h. graph_prefix g' h \<longrightarrow> Some (add_rotation h rot) = Some (h, x))"
  proof (cases "position (\<lambda>c. c = rot) (rotations g)")
    case None
    then show ?thesis using g'
      by (auto simp: add_rotation_def graph_prefix_def position_prefix_new [OF None])
  next
    case (Some i)
    then show ?thesis using g'
      by (auto simp: add_rotation_def graph_prefix_def position_prefix [OF Some])
  qed
qed

lemma settled_add_constant: "settled (\<lambda>g. Some (add_constant g k))"
  unfolding settled_def
proof (intro allI impI)
  fix g g' x
  assume "Some (add_constant g k) = Some (g', x)"
  then have g': "add_constant g k = (g', x)" by simp
  show "graph_prefix g g' \<and> (\<forall>h. graph_prefix g' h \<longrightarrow> Some (add_constant h k) = Some (h, x))"
  proof (cases "position (\<lambda>c. c = k) (constants g)")
    case None
    then show ?thesis using g'
      by (auto simp: add_constant_def graph_prefix_def position_prefix_new [OF None])
  next
    case (Some i)
    then show ?thesis using g'
      by (auto simp: add_constant_def graph_prefix_def position_prefix [OF Some])
  qed
qed

lemma settled_add_calculation: "settled (\<lambda>g. Some (add_calculation g c))"
  unfolding settled_def
proof (intro allI impI)
  fix g g' x
  assume "Some (add_calculation g c) = Some (g', x)"
  then have g': "add_calculation g c = (g', x)" by simp
  show "graph_prefix g g' \<and> (\<forall>h. graph_prefix g' h \<longrightarrow> Some (add_calculation h c) = Some (h, x))"
  proof (cases "find (\<lambda>i. calculation i = c) (calculations g)")
    case None
    then show ?thesis using g'
      by (auto simp: add_calculation_def Let_def graph_prefix_def
          find_prefix_new [OF None, of "\<lparr>calculation = c, target = num_intermediates g\<rparr>"])
  next
    case (Some info)
    then show ?thesis using g'
      by (auto simp: add_calculation_def graph_prefix_def find_prefix [OF Some])
  qed
qed

lemma settled_if: "settled f \<Longrightarrow> settled h \<Longrightarrow> settled (\<lambda>g. if b then f g else h g)"
  by (cases b) simp_all

lemmas settled_steps = settled_return settled_add_rotation settled_add_constant settled_add_calculation

lemma settled_sources:
  "settled (\<lambda>g. Some (negate_source g s))" "settled (\<lambda>g. Some (sub_sources g s t))"
  "settled (\<lambda>g. Some (add_sources g s t))" "settled (\<lambda>g. Some (mul_sources g s t))"
  unfolding negate_source_def sub_sources_def add_sources_def mul_sources_def if_distrib [of Some]
  by (intro settled_if settled_steps)+

lemma settled_rotated:
  "settled (\<lambda>g. case add_rotation g rot of (g, i) \<Rightarrow> Some (add_calculation g (k i)))"
  using settled_bind [OF settled_add_rotation, of "\<lambda>g i. Some (add_calculation g (k i))" rot]
  by (simp add: settled_add_calculation)

lemma settled_binary:
  assumes "settled (\<lambda>g. add_expression g a)" "settled (\<lambda>g. add_expression g b)"
    and "\<And>s t. settled (\<lambda>g. Some (op g s t))"
  shows "settled (\<lambda>g. do { (g, s) \<leftarrow> add_expression g a; (g, t) \<leftarrow> add_expression g b; Some (op g s t) })"
  by (intro settled_bind assms)

lemma settled_scaled:
  assumes "settled (\<lambda>g. add_expression g a)"
  shows "settled (\<lambda>g. add_expression g (Scaled a f))"
proof -
  have "settled (\<lambda>g. do { (g, cst) \<leftarrow> Some (add_constant g f); (g, s) \<leftarrow> add_expression g a;
      Some (add_calculation g (CMul s cst)) })"
    by (intro settled_bind assms settled_steps)
  then have "settled (\<lambda>g. let (g, cst) = add_constant g f in do { (g, s) \<leftarrow> add_expression g a;
      Some (add_calculation g (CMul s cst)) })"
    by (simp add: Let_def)
  then show ?thesis
    unfolding add_expression.simps by (intro settled_if settled_return assms)
qed

lemma settled_sum:
  assumes "settled (\<lambda>g. add_expression g a)" "settled (\<lambda>g. add_expression g b)"
    and "\<And>b'. b = Negated b' \<Longrightarrow> settled (\<lambda>g. add_expression g b')"
  shows "settled (\<lambda>g. add_expression g (Sum a b))"
proof (cases "\<exists>b'. b = Negated b'")
  case True
  then obtain b' where b: "b = Negated b'" by blast
  then show ?thesis using settled_binary [OF assms(1) assms(3) [OF b] settled_sources(2)] by simp
next
  case False
  then have "add_expression g (Sum a b) = do { (g, s) \<leftarrow> add_expression g a;
      (g, t) \<leftarrow> add_expression g b; Some (add_sources g s t) }" for g
    by (cases b) auto
  then show ?thesis using settled_binary [OF assms(1,2) settled_sources(3)] by simp
qed

lemma settled_negated:
  assumes "settled (\<lambda>g. add_expression g a)"
  shows "settled (\<lambda>g. add_expression g (Negated a))"
proof -
  have "settled (\<lambda>g. do { (g, s) \<leftarrow> add_expression g a; Some (negate_source g s) })"
    by (intro settled_bind assms settled_sources)
  then show ?thesis by (cases a) (simp_all add: settled_steps)
qed

lemma settled_add_expression: "settled (\<lambda>g. add_expression g e)"
proof (induction e rule: measure_induct_rule [where f = size])
  case (less e)
  show ?case
  proof (cases e)
    case (Selector s)
    then show ?thesis by (simp add: settled_def)
  next
    case (Negated a)
    then show ?thesis using settled_negated [OF less [of a]] by simp
  next
    case (Sum a b)
    then show ?thesis using settled_sum [of a b] less by simp
  next
    case (Product a b)
    then show ?thesis using settled_binary [OF less [of a] less [of b] settled_sources(4)] by simp
  next
    case (Scaled a f)
    then show ?thesis using settled_scaled [OF less [of a]] by simp
  qed (simp_all add: settled_steps settled_rotated)
qed

section \<open>Properties\<close>

text \<open>
  C25: the compiled graph computes the expression. Whenever the expression has a value on a row (no
  column, row or challenge index is out of range), compiling it from the empty graph succeeds, and
  running the graph on that row, from a buffer with arbitrary old contents, gives the returned
  source exactly that value.
\<close>

theorem graph_computes_expression:
  assumes "evaluate_row args idx rot_scale isize e = Some v"
  shows "\<exists>g s. add_expression graph_default e = Some (g, s) \<and>
    (\<forall>data. buffer_for g data \<longrightarrow>
       (\<exists>data' w. graph_evaluate g data args idx rot_scale isize = Some (data', w) \<and> buffer_for g data' \<and>
          vs_get (data_rotations data') (constants g) (intermediates data') args s = Some v))"
proof -
  define r where "r = \<lparr>row_args = args, row_idx = idx, row_scale = rot_scale, row_isize = isize\<rparr>"
  then have r: "args = row_args r" "idx = row_idx r" "rot_scale = row_scale r" "isize = row_isize r"
    by simp_all
  have "compiles r e v" using assms unfolding r by (rule compiles_row_value)
  then obtain g s rs vals where g: "add_expression graph_default e = Some (g, s)"
    and row: "graph_row r g rs vals" and s: "source_value r g rs vals s = Some v"
    by (rule compilesE [OF _ graph_row_default])
  show ?thesis
    using g s graph_evaluate_row [OF row] unfolding r by fastforce
qed

definition demo_args :: "rat eval_args" where
  "demo_args = \<lparr>fixed_values = [[1, 2, 3, 4]], advice_values = [[10, 20, 30, 40], [5, 6, 7, 8]],
     instance_values = [], challenges = [9], arg_beta = 2, arg_theta = 3, arg_trash_challenge = 4,
     arg_y = 5, previous_value = 6\<rparr>"

definition demo_poly :: "rat expression" where
  "demo_poly = Product (Fixed \<lparr>fq_index = None, fq_column_index = 0, fq_rotation = 0\<rparr>)
     (Sum (Advice \<lparr>aq_index = None, aq_column_index = 1, aq_rotation = 1, aq_phase = 0\<rparr>)
       (Negated (Scaled (Advice \<lparr>aq_index = None, aq_column_index = 0, aq_rotation = -1, aq_phase = 0\<rparr>) 2)))"

lemma demo_poly_row: "evaluate_row demo_args 0 1 4 demo_poly = Some (-74)"
  by (simp add: evaluate_row_def row_closures_def demo_args_def demo_poly_def get_rotation_idx_def
      cell_def index_opt_def bind2_def i32_ok_def as_i32_def eval_nat_numeral)

theorem graph_computes_expression_witness:
  "\<exists>g s data w. add_expression graph_default demo_poly = Some (g, s) \<and>
     graph_evaluate g (graph_instance g) demo_args 0 1 4 = Some (data, w) \<and>
     vs_get (data_rotations data) (constants g) (intermediates data) demo_args s = Some (-74)"
  using graph_computes_expression [OF demo_poly_row] buffer_for_instance by blast

text \<open>
  C26: common subexpressions are shared. Once an expression has been compiled, compiling it again,
  into the same graph or into any graph built on top of it, adds no constant, rotation or
  calculation and returns the same source.
\<close>

theorem add_expression_shares:
  assumes "add_expression g e = Some (g', s)"
    and "prefix (constants g') (constants h)" and "prefix (rotations g') (rotations h)"
    and "prefix (calculations g') (calculations h)"
  shows "add_expression h e = Some (h, s)"
  using settled_add_expression [of e] assms unfolding settled_def graph_prefix_def by blast

theorem add_expression_shares_witness:
  "\<exists>g s. add_expression graph_default demo_poly = Some (g, s) \<and> add_expression g demo_poly = Some (g, s)"
proof -
  have "\<exists>p. add_expression graph_default demo_poly = Some p"
    by (simp add: demo_poly_def case_prod_beta Let_def)
  then obtain g s where g: "add_expression graph_default demo_poly = Some (g, s)" by auto
  then show ?thesis using add_expression_shares [OF g, of g] by auto
qed

end
