(* ===== verification/Argument_Graphs.thy ===== *)
theory Argument_Graphs
  imports Graph_Evaluator
begin

text \<open>
  The lookup and trash arguments as the constraint system stores them (\<open>plonk/logup.rs\<close>,
  \<open>plonk/trash.rs\<close>) and the graphs that \<open>Evaluator::new\<close> (\<open>plonk/evaluation.rs\<close>) compiles from the
  gates, the lookups and the trash arguments. \<open>None\<close> is a panic.

  Shown here: lookups are split into chunks whose helper constraint respects the degree bound, and
  each compiled graph computes, on every row, the quantity its argument is about.
\<close>

section \<open>Lookup arguments\<close>

record 'f batched_argument =
  ba_selector :: "'f expression"
  ba_input_expressions :: "'f expression list list"
  ba_table_expressions :: "'f expression list"

record 'f chunked_argument =
  ca_selector :: "'f expression"
  ca_input_expression_chunks :: "'f expression list list list"
  ca_table_expressions :: "'f expression list"

text \<open>\<open>usize::next_power_of_two\<close>.\<close>

function next_power_of_two :: "nat \<Rightarrow> nat" where
  "next_power_of_two n = (if n \<le> 1 then 1 else 2 * next_power_of_two ((n + 1) div 2))"
  by pat_completeness auto
termination
  by (relation "measure id") auto

declare next_power_of_two.simps [simp del]

definition max_degree_or :: "nat \<Rightarrow> 'f expression list \<Rightarrow> nat" where
  "max_degree_or d es = (if es = [] then d else Max (set (map degree es)))"

definition lookup_degree :: "'f batched_argument \<Rightarrow> nat" where
  "lookup_degree a = max_degree_or 1 (concat (ba_input_expressions a))"

text \<open>\<open>cs_degree - 1\<close> underflows for 0, and a lookup degree of 0 divides by zero.\<close>

definition nb_parallel_lookups_per_chunk :: "'f batched_argument \<Rightarrow> nat \<Rightarrow> nat option" where
  "nb_parallel_lookups_per_chunk a cs_degree =
     (if cs_degree = 0 \<or> lookup_degree a = 0 then None
      else let max_degree = next_power_of_two (cs_degree - 1) + 1
           in Some ((max_degree - 1) div lookup_degree a))"

definition degree_batched_argument :: "'f batched_argument \<Rightarrow> nat \<Rightarrow> nat option" where
  "degree_batched_argument a cs_degree =
     do { nb \<leftarrow> nb_parallel_lookups_per_chunk a cs_degree;
          let helper_constraint_degree = nb * lookup_degree a + 1;
          let table_degree = max_degree_or 1 (ba_table_expressions a);
          let accumulator_constraint_degree = 2 + degree (ba_selector a) + table_degree;
          Some (next_power_of_two (max helper_constraint_degree accumulator_constraint_degree - 1) + 1) }"

text \<open>
  \<open>BatchedArgument::new\<close>: the input expressions come as \<open>[width][parallel]\<close> and are transposed. It
  panics on an empty table map and on rows of different lengths.
\<close>

definition batched_argument_new ::
    "selector option \<Rightarrow> ('f::comm_ring_1 expression list \<times> 'f expression) list \<Rightarrow>
     'f batched_argument option" where
  "batched_argument_new sel table_map =
     (let input_expressions = map fst table_map; table_expressions = map snd table_map;
          lookup_width = length input_expressions
      in do { first \<leftarrow> index_opt input_expressions 0;
              let nb_parallel_lookups = length first;
              if (\<forall>width \<in> set input_expressions. length width = nb_parallel_lookups) then
                Some \<lparr>ba_selector = (case sel of Some s \<Rightarrow> Selector s | None \<Rightarrow> Constant 1),
                      ba_input_expressions =
                        map (\<lambda>j. map (\<lambda>i. input_expressions ! i ! j) [0..<lookup_width])
                            [0..<nb_parallel_lookups],
                      ba_table_expressions = table_expressions\<rparr>
              else None })"

definition ba_num_chunks :: "'f batched_argument \<Rightarrow> nat \<Rightarrow> nat option" where
  "ba_num_chunks a cs_degree =
     do { nb \<leftarrow> nb_parallel_lookups_per_chunk a cs_degree;
          if nb = 0 then None else Some (length (chunks nb (ba_input_expressions a))) }"

definition chunk_by_degree :: "'f batched_argument \<Rightarrow> nat \<Rightarrow> 'f chunked_argument option" where
  "chunk_by_degree a cs_degree =
     do { nb \<leftarrow> nb_parallel_lookups_per_chunk a cs_degree;
          if nb = 0 then None
          else Some \<lparr>ca_selector = ba_selector a,
                     ca_input_expression_chunks = chunks nb (ba_input_expressions a),
                     ca_table_expressions = ba_table_expressions a\<rparr> }"

definition ca_num_chunks :: "'f chunked_argument \<Rightarrow> nat" where
  "ca_num_chunks a = length (ca_input_expression_chunks a)"

section \<open>Trash arguments\<close>

record 'f trash_argument =
  ta_selector :: "'f expression"
  ta_constraint_expressions :: "'f expression list"

definition trash_required_degree :: "'f trash_argument \<Rightarrow> nat" where
  "trash_required_degree a = max 2 (max_degree_or 0 (ta_constraint_expressions a))"

section \<open>The compiled graphs\<close>

definition custom_gates_graph :: "'f::field expression list list \<Rightarrow> 'f graph_evaluator option" where
  "custom_gates_graph gates =
     do { (g, parts) \<leftarrow> add_expressions graph_default (concat gates);
          Some (fst (add_calculation g (CHorner VPreviousValue parts VY))) }"

definition trash_graph :: "'f::field trash_argument \<Rightarrow> 'f graph_evaluator option" where
  "trash_graph trash =
     do { (g, parts) \<leftarrow> add_expressions graph_default (ta_constraint_expressions trash);
          Some (fst (add_calculation g (CHorner (VConstant 0) parts VTrashChallenge))) }"

record 'f lookup_graph_evaluator =
  lge_graph :: "'f graph_evaluator"
  lge_sum_partial_products :: value_source
  lge_product :: value_source
  lge_table :: value_source
  lge_selector :: value_source

definition add_compressed ::
    "'f::field graph_evaluator \<Rightarrow> 'f expression list \<Rightarrow> ('f graph_evaluator \<times> value_source) option" where
  "add_compressed g expressions =
     do { (g, parts) \<leftarrow> add_expressions g expressions;
          Some (add_calculation g (CHorner (VConstant 0) parts VTheta)) }"

fun add_compressed_inputs ::
    "'f::field graph_evaluator \<Rightarrow> 'f expression list list \<Rightarrow>
     ('f graph_evaluator \<times> value_source list) option" where
  "add_compressed_inputs g [] = Some (g, [])"
| "add_compressed_inputs g (expressions # chunk) =
     do { (g, compressed) \<leftarrow> add_compressed g expressions;
          let (g, s) = add_calculation g (CAdd compressed VBeta);
          (g, ss) \<leftarrow> add_compressed_inputs g chunk;
          Some (g, s # ss) }"

fun mul_loop ::
    "'f graph_evaluator \<Rightarrow> value_source \<Rightarrow> value_source list \<Rightarrow> 'f graph_evaluator \<times> value_source" where
  "mul_loop g acc [] = (g, acc)"
| "mul_loop g acc (coset # cosets) =
     (let (g, acc) = add_calculation g (CMul acc coset) in mul_loop g acc cosets)"

text \<open>The partial products for \<open>i\<close> in a list of indices; each leaves out \<open>cosets[i]\<close>.\<close>

fun add_partial_products ::
    "'f graph_evaluator \<Rightarrow> value_source list \<Rightarrow> nat list \<Rightarrow> 'f graph_evaluator \<times> value_source list" where
  "add_partial_products g cosets [] = (g, [])"
| "add_partial_products g cosets (i # is) =
     (let (g, acc) = add_calculation g (CStore (VConstant 1));
          (g, acc) = mul_loop g acc (without i cosets);
          (g, accs) = add_partial_products g cosets is
      in (g, acc # accs))"

fun sum_product_loop ::
    "'f graph_evaluator \<Rightarrow> value_source \<Rightarrow> value_source \<Rightarrow> (value_source \<times> value_source) list \<Rightarrow>
     'f graph_evaluator \<times> value_source \<times> value_source" where
  "sum_product_loop g sum_pp pr [] = (g, sum_pp, pr)"
| "sum_product_loop g sum_pp pr ((calc, partial_prod) # rest) =
     (let (g, sum_pp) = add_calculation g (CAdd sum_pp partial_prod);
          (g, pr) = add_calculation g (CMul pr calc)
      in sum_product_loop g sum_pp pr rest)"

definition add_sum_and_product ::
    "'f graph_evaluator \<Rightarrow> value_source list \<Rightarrow>
     ('f graph_evaluator \<times> value_source \<times> value_source) option" where
  "add_sum_and_product g cosets =
     do { let (g, partial_products) = add_partial_products g cosets [0..<length cosets];
          pp0 \<leftarrow> index_opt partial_products 0;
          let (g, sum_pp) = add_calculation g (CStore pp0);
          c0 \<leftarrow> index_opt cosets 0;
          let (g, pr) = add_calculation g (CStore c0);
          Some (sum_product_loop g sum_pp pr (drop 1 (zip cosets partial_products))) }"

definition lookup_graph ::
    "'f::field chunked_argument \<Rightarrow> 'f expression list list \<Rightarrow> 'f lookup_graph_evaluator option" where
  "lookup_graph lookup chunk =
     do { (g, cosets) \<leftarrow> add_compressed_inputs graph_default chunk;
          (g, compressed_table_coset) \<leftarrow> add_compressed g (ca_table_expressions lookup);
          (g, sum_pp, pr) \<leftarrow> add_sum_and_product g cosets;
          let (g, table) = add_calculation g (CAdd compressed_table_coset VBeta);
          (g, selector) \<leftarrow> add_expression g (ca_selector lookup);
          let (g, selector) = add_calculation g (CStore selector);
          Some \<lparr>lge_graph = g, lge_sum_partial_products = sum_pp, lge_product = pr,
                lge_table = table, lge_selector = selector\<rparr> }"

record 'f evaluator =
  custom_gates :: "'f graph_evaluator"
  ev_lookups :: "'f lookup_graph_evaluator list list"
  ev_trashcans :: "'f graph_evaluator list"

definition lookup_graphs ::
    "'f::field batched_argument \<Rightarrow> nat \<Rightarrow> 'f lookup_graph_evaluator list option" where
  "lookup_graphs lookup cs_degree =
     do { lookup \<leftarrow> chunk_by_degree lookup cs_degree;
          those (map (lookup_graph lookup) (ca_input_expression_chunks lookup)) }"

definition evaluator_new ::
    "'f::field expression list list \<Rightarrow> 'f batched_argument list \<Rightarrow> 'f trash_argument list \<Rightarrow> nat \<Rightarrow>
     'f evaluator option" where
  "evaluator_new gates lookups trashcans cs_degree =
     do { g \<leftarrow> custom_gates_graph gates;
          ls \<leftarrow> those (map (\<lambda>l. lookup_graphs l cs_degree) lookups);
          ts \<leftarrow> those (map trash_graph trashcans);
          Some \<lparr>custom_gates = g, ev_lookups = ls, ev_trashcans = ts\<rparr> }"


section \<open>Chunking respects the degree\<close>

lemma next_power_of_two_ge: "n \<le> next_power_of_two n"
proof (induction n rule: next_power_of_two.induct)
  case (1 n)
  then show ?case by (cases "n \<le> 1") (simp_all add: next_power_of_two.simps [of n])
qed

lemma next_power_of_two_lt: "1 < n \<Longrightarrow> next_power_of_two n < 2 * n"
proof (induction n rule: next_power_of_two.induct)
  case (1 n)
  show ?case
  proof (cases "(n + 1) div 2 \<le> 1")
    case True
    with "1.prems" have "n = 2" by auto
    then show ?thesis by (simp add: next_power_of_two.simps)
  next
    case False
    with "1.prems" "1.IH" have "next_power_of_two ((n + 1) div 2) < 2 * ((n + 1) div 2)" by simp
    moreover have "even (next_power_of_two ((n + 1) div 2))"
      using False by (subst next_power_of_two.simps) simp
    ultimately have "next_power_of_two ((n + 1) div 2) < n" by presburger
    then show ?thesis using "1.prems" by (simp add: next_power_of_two.simps [of n])
  qed
qed

lemma next_power_of_two_power: "\<exists>k. next_power_of_two n = 2 ^ k"
proof (induction n rule: next_power_of_two.induct)
  case (1 n)
  show ?case
  proof (cases "n \<le> 1")
    case True
    then show ?thesis by (simp add: next_power_of_two.simps exI [of _ 0])
  next
    case False
    with 1 obtain k where "next_power_of_two ((n + 1) div 2) = 2 ^ k" by auto
    with False show ?thesis by (simp add: next_power_of_two.simps [of n] exI [of _ "Suc k"])
  qed
qed

lemma chunks_bounds: "0 < n \<Longrightarrow> c \<in> set (chunks n xs) \<Longrightarrow> c \<noteq> [] \<and> length c \<le> n"
proof (induction n xs rule: chunks.induct)
  case (1 n xs)
  then show ?case by (cases "xs = []") (auto simp: chunks.simps [of n xs])
qed

lemma degree_le_lookup_degree:
  "es \<in> set (ba_input_expressions a) \<Longrightarrow> e \<in> set es \<Longrightarrow> degree e \<le> lookup_degree a"
  by (auto simp: lookup_degree_def max_degree_or_def intro!: Max_ge)

lemma batched_argument_new_Some:
  "batched_argument_new sel m = Some l \<longleftrightarrow>
     m \<noteq> [] \<and> (\<forall>p\<in>set m. length (fst p) = length (fst (hd m))) \<and>
     l = \<lparr>ba_selector = (case sel of Some s \<Rightarrow> Selector s | None \<Rightarrow> Constant 1),
          ba_input_expressions = map (\<lambda>j. map (\<lambda>i. fst (m ! i) ! j) [0..<length m]) [0..<length (fst (hd m))],
          ba_table_expressions = map snd m\<rparr>"
proof (cases m)
  case (Cons p m')
  have "map (\<lambda>i. map fst m ! i ! j) [0..<length m] = map (\<lambda>i. fst (m ! i) ! j) [0..<length m]" for j
    by (rule map_cong) simp_all
  with Cons show ?thesis
    by (auto simp: batched_argument_new_def Let_def index_opt_def simp del: upt_Suc)
qed (simp add: batched_argument_new_def Let_def index_opt_def)

section \<open>The compiled graphs compute their argument\<close>

lemma those_map_Some: "those (map f xs) = Some ys \<longleftrightarrow> list_all2 (\<lambda>x y. f x = Some y) xs ys"
  by (induction xs arbitrary: ys) (auto split: option.splits simp: list_all2_Cons1)

lemma snd_add_calculation: "\<exists>i. snd (add_calculation g c) = VIntermediate i"
  by (simp add: add_calculation_def Let_def split: option.splits)

lemma graph_row_num: "knows r g K \<Longrightarrow> num_intermediates g = length (calculations g)"
  by (auto simp: knows_def graph_row_def)

text \<open>A graph that ends with a Horner evaluation of compiled expressions.\<close>

lemma horner_graph_evaluate:
  assumes vs: "those (map (row_value r) es) = Some vs"
    and st: "\<And>g K. knows r g K \<Longrightarrow> knows r g ({(st, v), (t, f)} \<union> K)"
  shows "\<exists>g. do { (g, parts) \<leftarrow> add_expressions graph_default es;
        Some (fst (add_calculation g (CHorner st parts t))) } = Some g \<and>
      (\<forall>data. buffer_for g data \<longrightarrow>
        (\<exists>data'. graph_evaluate g data (row_args r) (row_idx r) (row_scale r) (row_isize r)
          = Some (data', horner f v vs) \<and> buffer_for g data'))"
proof -
  have l: "list_all2 (\<lambda>e v. row_value r e = Some v) es vs" using vs by (simp add: those_map_Some)
  obtain g ss where g: "add_expressions graph_default es = Some (g, ss)"
    and k: "knows r g (set (zip ss vs) \<union> {})" and len: "length ss = length vs"
    using knows_expressions [OF l knows_default] by blast
  have nh: "no_horner g" using no_horner_expressions [OF g no_horner_default] by simp
  have "knows r (fst (add_calculation g (CHorner st ss t)))
      (insert (snd (add_calculation g (CHorner st ss t)), horner f v vs) ({(st, v), (t, f)} \<union> (set (zip ss vs) \<union> {})))"
    by (rule knows_horner [OF st [OF k] len]) auto
  then have "\<exists>data'. graph_evaluate (fst (add_calculation g (CHorner st ss t))) data (row_args r)
      (row_idx r) (row_scale r) (row_isize r) = Some (data', horner f v vs) \<and>
      buffer_for (fst (add_calculation g (CHorner st ss t))) data'"
    if "buffer_for (fst (add_calculation g (CHorner st ss t))) data" for data
    using nh that graph_row_num [OF k] by (intro graph_evaluate_fresh) (auto simp: no_horner_def)
  with g show ?thesis by auto
qed

lemma knows_previous_y:
  "knows r g K \<Longrightarrow>
   knows r g ({(VPreviousValue, previous_value (row_args r)), (VY, arg_y (row_args r))} \<union> K)"
  by (rule knows_mono [OF knows_basic]) (auto simp: basics_def)

lemma knows_zero_trash:
  "knows r g K \<Longrightarrow>
   knows r g ({(VConstant 0, 0), (VTrashChallenge, arg_trash_challenge (row_args r))} \<union> K)"
  by (rule knows_mono [OF knows_basic]) (auto simp: basics_def)

text \<open>The steps of a lookup graph.\<close>

lemma knows_compressed:
  assumes vs: "those (map (row_value r) es) = Some vs" and k: "knows r g K"
  shows "\<exists>g' s. add_compressed g es = Some (g', s) \<and>
    knows r g' (insert (s, horner (arg_theta (row_args r)) 0 vs) K)"
proof -
  have l: "list_all2 (\<lambda>e v. row_value r e = Some v) es vs" using vs by (simp add: those_map_Some)
  obtain g1 ss where g1: "add_expressions g es = Some (g1, ss)"
    and k1: "knows r g1 (set (zip ss vs) \<union> K)" and len: "length ss = length vs"
    using knows_expressions [OF l k] by blast
  obtain g2 s where g2: "add_calculation g1 (CHorner (VConstant 0) ss VTheta) = (g2, s)" by fastforce
  have "knows r (fst (g2, s)) (insert (snd (g2, s), horner (arg_theta (row_args r)) 0 vs) (basics r \<union> (set (zip ss vs) \<union> K)))"
    unfolding g2 [symmetric] by (rule knows_horner [OF knows_basic [OF k1] len]) (auto simp: basics_def)
  then have "knows r g2 (insert (s, horner (arg_theta (row_args r)) 0 vs) K)"
    unfolding fst_conv snd_conv by (rule knows_mono) auto
  with g1 g2 show ?thesis by (simp add: add_compressed_def)
qed

lemma knows_compressed_inputs:
  assumes "list_all2 (\<lambda>es vs. those (map (row_value r) es) = Some vs) chunk vss" and "knows r g K"
  shows "\<exists>g' ss. add_compressed_inputs g chunk = Some (g', ss) \<and> length ss = length vss \<and>
    knows r g' (set (zip ss (map (\<lambda>vs. horner (arg_theta (row_args r)) 0 vs + arg_beta (row_args r)) vss)) \<union> K)"
  using assms
proof (induction chunk vss arbitrary: g K rule: list_all2_induct)
  case Nil
  then show ?case by simp
next
  case (Cons es chunk vs vss)
  obtain g1 s where g1: "add_compressed g es = Some (g1, s)"
    and k1: "knows r g1 (insert (s, horner (arg_theta (row_args r)) 0 vs) K)"
    using knows_compressed [OF Cons.hyps(1) Cons.prems] by blast
  obtain g2 t where g2: "add_calculation g1 (CAdd s VBeta) = (g2, t)" by fastforce
  have "knows r (fst (g2, t)) (insert (snd (g2, t), horner (arg_theta (row_args r)) 0 vs + arg_beta (row_args r))
      (basics r \<union> insert (s, horner (arg_theta (row_args r)) 0 vs) K))"
    unfolding g2 [symmetric] by (rule knows_add [OF knows_basic [OF k1]]) (auto simp: basics_def)
  then have "knows r g2 (insert (t, horner (arg_theta (row_args r)) 0 vs + arg_beta (row_args r)) K)"
    unfolding fst_conv snd_conv by (rule knows_mono) auto
  from Cons.IH [OF this] g1 g2 show ?case by auto
qed

lemma knows_mul_loop:
  assumes "length ss = length xs" "set (zip ss xs) \<subseteq> K" "knows r g K" "(acc, a) \<in> K"
  shows "knows r (fst (mul_loop g acc ss)) (insert (snd (mul_loop g acc ss), a * prod_list xs) K)"
  using assms
proof (induction ss xs arbitrary: g acc a K rule: list_induct2)
  case Nil
  then show ?case by (simp add: insert_absorb)
next
  case (Cons s ss x xs)
  obtain g1 t where g1: "add_calculation g (CMul acc s) = (g1, t)" by fastforce
  have k1: "knows r g1 (insert (t, a * x) K)"
    using knows_mul [OF Cons.prems(2,3), of s x] Cons.prems(1) g1 by simp
  show ?case
    using knows_mono [OF Cons.IH [OF _ k1, of t "a * x"]] Cons.prems(1) g1 by (auto simp: mult.assoc)
qed

lemma knows_partial_products:
  assumes "length ss = length xs" "set (zip ss xs) \<subseteq> K" "knows r g K"
  shows "knows r (fst (add_partial_products g ss is))
      (set (zip (snd (add_partial_products g ss is)) (map (\<lambda>i. prod_list (without i xs)) is)) \<union> K) \<and>
    length (snd (add_partial_products g ss is)) = length is"
  using assms(2,3)
proof (induction "is" arbitrary: g K)
  case Nil
  then show ?case by simp
next
  case (Cons i "is")
  obtain g1 a where g1: "add_calculation g (CStore (VConstant 1)) = (g1, a)" by fastforce
  obtain g2 b where g2: "mul_loop g1 a (without i ss) = (g2, b)" by fastforce
  have "knows r (fst (g1, a)) (insert (snd (g1, a), 1) (basics r \<union> K))"
    unfolding g1 [symmetric] by (rule knows_store [OF knows_basic [OF Cons.prems(2)]]) (auto simp: basics_def)
  then have k1: "knows r g1 (insert (a, 1) K)"
    unfolding fst_conv snd_conv by (rule knows_mono) auto
  have "zip (without i ss) (without i xs) = without i (zip ss xs)"
    using assms(1) by (simp add: without_def take_zip drop_zip zip_append)
  then have "set (zip (without i ss) (without i xs)) \<subseteq> set (zip ss xs)"
    by (auto simp: without_def dest: in_set_takeD in_set_dropD)
  then have "knows r g2 (insert (b, 1 * prod_list (without i xs)) (insert (a, 1) K))"
    using knows_mul_loop [OF _ _ k1, of "without i ss" "without i xs" a 1] Cons.prems(1) g2 assms(1)
    by (auto simp: without_def)
  then have k2: "knows r g2 (insert (b, prod_list (without i xs)) K)"
    by (rule knows_mono) auto
  from Cons.IH [OF _ k2] Cons.prems(1) g1 g2 show ?case
    by (auto simp: Let_def case_prod_beta Un_commute)
qed


lemma knows_sum_product_loop:
  assumes "length ss = length xs" "length ps = length ys" "length ss = length ps"
    and "set (zip ss xs) \<subseteq> K" "set (zip ps ys) \<subseteq> K"
    and "knows r g K" "(sum_pp, a) \<in> K" "(pr, b) \<in> K"
    and "sum_product_loop g sum_pp pr (zip ss ps) = (g', sum_pp', pr')"
  shows "knows r g' ({(sum_pp', a + sum_list ys), (pr', b * prod_list xs)} \<union> K)"
  using assms
proof (induction ss xs arbitrary: g sum_pp pr a b K ps ys rule: list_induct2)
  case Nil
  then show ?case by (auto simp: insert_absorb)
next
  case (Cons s ss x xs)
  obtain p ps' where p: "ps = p # ps'" using Cons.prems(2) by (cases ps) auto
  obtain y ys' where y: "ys = y # ys'" using Cons.prems(1) p by (cases ys) auto
  obtain g1 t where g1: "add_calculation g (CAdd sum_pp p) = (g1, t)" by fastforce
  obtain g2 u where g2: "add_calculation g1 (CMul pr s) = (g2, u)" by fastforce
  have k1: "knows r g1 (insert (t, a + y) K)"
    using knows_add [OF Cons.prems(5,6), of p y] Cons.prems(4) g1 p y by simp
  have k2: "knows r g2 (insert (u, b * x) (insert (t, a + y) K))"
    using knows_mul [OF k1, of pr b s x] Cons.prems(3,7) g2 by simp
  have "knows r g' ({(sum_pp', a + y + sum_list ys'), (pr', b * x * prod_list xs)} \<union>
      insert (u, b * x) (insert (t, a + y) K))"
    by (rule Cons.IH [OF _ _ _ _ k2]) (use Cons.prems p y g1 g2 in auto)
  then show ?case by (rule knows_mono) (auto simp: y algebra_simps)
qed

lemma knows_sum_and_product:
  assumes len: "length ss = length xs" and sub: "set (zip ss xs) \<subseteq> K" and k: "knows r g K" and ne: "ss \<noteq> []"
  shows "\<exists>g' sum_pp pr. add_sum_and_product g ss = Some (g', sum_pp, pr) \<and>
    knows r g' ({(sum_pp, \<Sum>i\<leftarrow>[0..<length xs]. prod_list (without i xs)), (pr, prod_list xs)} \<union> K)"
proof -
  define ys where "ys = map (\<lambda>i. prod_list (without i xs)) [0..<length ss]"
  have leny: "length ys = length ss" by (simp add: ys_def)
  obtain g3 ps where g3: "add_partial_products g ss [0..<length ss] = (g3, ps)" by fastforce
  define K3 where "K3 = set (zip ps ys) \<union> K"
  have k3: "knows r g3 K3" and lenp: "length ps = length ys"
    using knows_partial_products [OF len sub k, of "[0..<length ss]"] g3 by (auto simp: ys_def K3_def)
  obtain s ss' x xs' p ps' y ys' where
    split: "ss = s # ss'" "xs = x # xs'" "ps = p # ps'" "ys = y # ys'"
    using ne len lenp leny by (cases ss; cases xs; cases ps; cases ys) auto
  obtain g4 a where g4: "add_calculation g3 (CStore p) = (g4, a)" by fastforce
  obtain g5 b where g5: "add_calculation g4 (CStore s) = (g5, b)" by fastforce
  obtain g6 a' b' where g6: "sum_product_loop g5 a b (zip ss' ps') = (g6, a', b')"
    by (metis prod_cases3)
  have k4: "knows r g4 (insert (a, y) K3)"
    using knows_store [OF k3, of p y] g4 split by (simp add: K3_def)
  have k5: "knows r g5 (insert (b, x) (insert (a, y) K3))"
    using knows_store [OF k4, of s x] g5 split sub by (simp add: K3_def)
  have k6: "knows r g6 ({(a', y + sum_list ys'), (b', x * prod_list xs')} \<union> insert (b, x) (insert (a, y) K3))"
    by (rule knows_sum_product_loop [OF _ _ _ _ _ k5 _ _ g6])
      (use len lenp leny split sub in \<open>auto simp: K3_def\<close>)
  have "add_sum_and_product g ss = Some (g6, a', b')"
    using g3 g4 g5 g6 split by (simp add: add_sum_and_product_def index_opt_def del: upt_Suc)
  moreover have sum: "(\<Sum>i\<leftarrow>[0..<length xs]. prod_list (without i xs)) = y + sum_list ys'"
    using split(4) len unfolding ys_def by (metis sum_list.Cons)
  have prod: "prod_list xs = x * prod_list xs'" by (simp add: split(2))
  have "knows r g6 ({(a', \<Sum>i\<leftarrow>[0..<length xs]. prod_list (without i xs)), (b', prod_list xs)} \<union> K)"
    unfolding sum prod by (rule knows_mono [OF k6]) (auto simp: K3_def)
  ultimately show ?thesis by blast
qed

lemma lookup_graph_knows:
  assumes inputs: "list_all2 (\<lambda>es vs. those (map (row_value r) es) = Some vs) chunk vss"
    and table: "those (map (row_value r) (ca_table_expressions lookup)) = Some ts"
    and sel: "row_value r (ca_selector lookup) = Some q" and ne: "chunk \<noteq> []"
    and xs: "xs = map (\<lambda>vs. horner (arg_theta (row_args r)) 0 vs + arg_beta (row_args r)) vss"
    and t: "t = horner (arg_theta (row_args r)) 0 ts"
  shows "\<exists>lg. lookup_graph lookup chunk = Some lg \<and>
    knows r (lge_graph lg) {(lge_sum_partial_products lg, \<Sum>i\<leftarrow>[0..<length xs]. prod_list (without i xs)),
      (lge_product lg, prod_list xs), (lge_table lg, t + arg_beta (row_args r)), (lge_selector lg, q)}"
proof -
  obtain g1 ss where g1: "add_compressed_inputs graph_default chunk = Some (g1, ss)"
    and len: "length ss = length xs" and k1: "knows r g1 (set (zip ss xs) \<union> {})"
    using knows_compressed_inputs [OF inputs knows_default] unfolding xs by auto
  obtain g2 tc where g2: "add_compressed g1 (ca_table_expressions lookup) = Some (g2, tc)"
    and k2: "knows r g2 (insert (tc, t) (set (zip ss xs) \<union> {}))"
    using knows_compressed [OF table k1] unfolding t by blast
  have "length xs = length chunk" using inputs by (simp add: xs list_all2_lengthD)
  then have "ss \<noteq> []" using ne len by auto
  then obtain g3 a b where g3: "add_sum_and_product g2 ss = Some (g3, a, b)"
    and k3: "knows r g3 ({(a, \<Sum>i\<leftarrow>[0..<length xs]. prod_list (without i xs)), (b, prod_list xs)}
      \<union> insert (tc, t) (set (zip ss xs) \<union> {}))"
    using knows_sum_and_product [OF len _ k2] by blast
  define K where "K = {(a, \<Sum>i\<leftarrow>[0..<length xs]. prod_list (without i xs)), (b, prod_list xs)}"
  obtain g4 u where g4: "add_calculation g3 (CAdd tc VBeta) = (g4, u)" by fastforce
  have "knows r (fst (g4, u)) (insert (snd (g4, u), t + arg_beta (row_args r))
      (basics r \<union> (K \<union> insert (tc, t) (set (zip ss xs) \<union> {}))))"
    unfolding g4 [symmetric] K_def by (rule knows_add [OF knows_basic [OF k3]]) (auto simp: basics_def)
  then have k4: "knows r g4 (insert (u, t + arg_beta (row_args r)) K)"
    unfolding fst_conv snd_conv by (rule knows_mono) auto
  obtain g5 v where g5: "add_expression g4 (ca_selector lookup) = Some (g5, v)"
    and k5: "knows r g5 (insert (v, q) (insert (u, t + arg_beta (row_args r)) K))"
    using knows_expression [OF k4 sel] by blast
  obtain g6 w where g6: "add_calculation g5 (CStore v) = (g6, w)" by fastforce
  have k6: "knows r g6 (insert (w, q) (insert (v, q) (insert (u, t + arg_beta (row_args r)) K)))"
    using knows_store [OF k5, of v q] g6 by simp
  have "lookup_graph lookup chunk = Some \<lparr>lge_graph = g6, lge_sum_partial_products = a,
      lge_product = b, lge_table = u, lge_selector = w\<rparr>"
    using g1 g2 g3 g4 g5 g6 by (simp add: lookup_graph_def)
  then show ?thesis using knows_mono [OF k6] by (auto simp: K_def)
qed

text \<open>The handles of a lookup graph name intermediate values.\<close>

definition is_intermediate :: "value_source \<Rightarrow> bool" where
  "is_intermediate s \<longleftrightarrow> (\<exists>i. s = VIntermediate i)"

lemma is_intermediate_calculation [simp]: "is_intermediate (snd (add_calculation g c))"
  using snd_add_calculation [of g c] by (auto simp: is_intermediate_def)

lemma sum_product_loop_intermediate:
  "is_intermediate a \<Longrightarrow> is_intermediate b \<Longrightarrow>
   is_intermediate (fst (snd (sum_product_loop g a b zs))) \<and>
   is_intermediate (snd (snd (sum_product_loop g a b zs)))"
  by (induction zs arbitrary: g a b) (auto simp: Let_def case_prod_beta)

lemma add_sum_and_product_intermediate:
  "add_sum_and_product g ss = Some res \<Longrightarrow> is_intermediate (fst (snd res)) \<and> is_intermediate (snd (snd res))"
  by (auto simp: add_sum_and_product_def bind_eq_Some_conv Let_def case_prod_beta
      sum_product_loop_intermediate)

lemma lookup_graph_intermediate:
  assumes "lookup_graph lookup chunk = Some lg"
  shows "is_intermediate (lge_sum_partial_products lg)" "is_intermediate (lge_product lg)"
    "is_intermediate (lge_table lg)" "is_intermediate (lge_selector lg)"
  using assms
  by (auto simp: lookup_graph_def bind_eq_Some_conv Let_def case_prod_beta
      dest!: add_sum_and_product_intermediate)

lemma lookup_graph_evaluate:
  assumes inputs: "list_all2 (\<lambda>es vs. those (map (row_value r) es) = Some vs) chunk vss"
    and table: "those (map (row_value r) (ca_table_expressions lookup)) = Some ts"
    and sel: "row_value r (ca_selector lookup) = Some q" and ne: "chunk \<noteq> []"
    and xs: "xs = map (\<lambda>vs. horner (arg_theta (row_args r)) 0 vs + arg_beta (row_args r)) vss"
  shows "\<exists>lg. lookup_graph lookup chunk = Some lg \<and> (\<forall>data. buffer_for (lge_graph lg) data \<longrightarrow>
    (\<exists>data' w. graph_evaluate (lge_graph lg) data (row_args r) (row_idx r) (row_scale r) (row_isize r)
       = Some (data', w) \<and>
     resolve data' (lge_sum_partial_products lg) = Some (\<Sum>i\<leftarrow>[0..<length xs]. prod_list (without i xs)) \<and>
     resolve data' (lge_product lg) = Some (prod_list xs) \<and>
     resolve data' (lge_table lg) = Some (horner (arg_theta (row_args r)) 0 ts + arg_beta (row_args r)) \<and>
     resolve data' (lge_selector lg) = Some q))"
proof -
  obtain lg where lg: "lookup_graph lookup chunk = Some lg"
    and k: "knows r (lge_graph lg) {(lge_sum_partial_products lg, \<Sum>i\<leftarrow>[0..<length xs]. prod_list (without i xs)),
      (lge_product lg, prod_list xs),
      (lge_table lg, horner (arg_theta (row_args r)) 0 ts + arg_beta (row_args r)), (lge_selector lg, q)}"
    using lookup_graph_knows [OF inputs table sel ne xs refl] by blast
  show ?thesis
    using lg lookup_graph_intermediate [OF lg] knows_evaluate [OF k]
    unfolding is_intermediate_def by fastforce
qed

section \<open>Properties\<close>

text \<open>
  The custom-gate graph folds all gate polynomials into the running value. If every gate
  polynomial has a value on the row, the graph compiles, and from any buffer it maps the previous
  value \<open>p\<close> to the Horner sum \<open>(..(p * y + v\<^sub>1) * y + ..) * y + v\<^sub>n\<close>.
\<close>

theorem custom_gates_graph_correct:
  assumes "those (map (evaluate_row args idx rot_scale isize) (concat gates)) = Some vs"
  shows "\<exists>g. custom_gates_graph gates = Some g \<and> (\<forall>data. buffer_for g data \<longrightarrow>
    (\<exists>data'. graph_evaluate g data args idx rot_scale isize =
       Some (data', foldl (\<lambda>acc v. acc * arg_y args + v) (previous_value args) vs) \<and> buffer_for g data'))"
  using horner_graph_evaluate
    [of "\<lparr>row_args = args, row_idx = idx, row_scale = rot_scale, row_isize = isize\<rparr>" "concat gates" vs
      VPreviousValue "previous_value args" VY "arg_y args"] knows_previous_y
    [of "\<lparr>row_args = args, row_idx = idx, row_scale = rot_scale, row_isize = isize\<rparr>"] assms
  by (simp add: custom_gates_graph_def horner_def)

theorem custom_gates_graph_correct_witness:
  "\<exists>g data. custom_gates_graph [[demo_poly], [Constant 3, demo_poly]] = Some g \<and>
    graph_evaluate g (graph_instance g) demo_args 0 1 4 = Some (data, - 1159)"
proof -
  have "those (map (evaluate_row demo_args 0 1 4) (concat [[demo_poly], [Constant 3, demo_poly]]))
      = Some [- 74, 3, - 74]"
    by (simp add: demo_poly_row) (simp add: evaluate_row_def row_closures_def)
  from custom_gates_graph_correct [OF this] show ?thesis
    using buffer_for_instance by (fastforce simp: demo_args_def)
qed

text \<open>
  The graph of a lookup chunk. On a row where the input tuples, the table tuple and the selector
  have values, the graph of a nonempty chunk compiles; running it makes its four handles resolve to
  \<open>\<Sum>\<^sub>j \<Prod>\<^sub>k\<^sub>\<noteq>\<^sub>j (f\<^sub>k + \<beta>)\<close>, \<open>\<Prod>\<^sub>j (f\<^sub>j + \<beta>)\<close>, \<open>t + \<beta>\<close> and the selector, where \<open>f\<^sub>j\<close> and \<open>t\<close> are the tuples
  compressed with \<open>\<theta>\<close>.
\<close>

theorem lookup_graph_correct:
  assumes "list_all2 (\<lambda>es vs. those (map (evaluate_row args idx rot_scale isize) es) = Some vs) chunk vss"
    and "those (map (evaluate_row args idx rot_scale isize) (ca_table_expressions lookup)) = Some ts"
    and "evaluate_row args idx rot_scale isize (ca_selector lookup) = Some q" and "chunk \<noteq> []"
    and "fs = map (\<lambda>vs. foldl (\<lambda>acc v. acc * arg_theta args + v) 0 vs + arg_beta args) vss"
  shows "\<exists>lg data w. lookup_graph lookup chunk = Some lg \<and>
    graph_evaluate (lge_graph lg) (graph_instance (lge_graph lg)) args idx rot_scale isize = Some (data, w) \<and>
    resolve data (lge_sum_partial_products lg) =
      Some (\<Sum>i\<leftarrow>[0..<length fs]. prod_list (take i fs @ drop (Suc i) fs)) \<and>
    resolve data (lge_product lg) = Some (prod_list fs) \<and>
    resolve data (lge_table lg) =
      Some (foldl (\<lambda>acc v. acc * arg_theta args + v) 0 ts + arg_beta args) \<and>
    resolve data (lge_selector lg) = Some q"
  using lookup_graph_evaluate
    [of "\<lparr>row_args = args, row_idx = idx, row_scale = rot_scale, row_isize = isize\<rparr>" chunk vss lookup ts q fs]
    assms buffer_for_instance
  by (fastforce simp: horner_def without_def)

theorem lookup_graph_correct_witness:
  "\<exists>lg data w. lookup_graph \<lparr>ca_selector = Constant 1, ca_input_expression_chunks = [],
      ca_table_expressions = [Constant 7]\<rparr> [[demo_poly], [Constant 1, Constant 2]] = Some lg \<and>
    graph_evaluate (lge_graph lg) (graph_instance (lge_graph lg)) demo_args 0 1 4 = Some (data, w) \<and>
    resolve data (lge_sum_partial_products lg) = Some (- 65) \<and>
    resolve data (lge_product lg) = Some (- 504) \<and>
    resolve data (lge_table lg) = Some 9 \<and> resolve data (lge_selector lg) = Some 1"
proof -
  have c: "evaluate_row demo_args 0 1 4 (Constant k) = Some k" for k
    by (simp add: evaluate_row_def row_closures_def)
  show ?thesis
    using lookup_graph_correct [of demo_args 0 1 4 "[[demo_poly], [Constant 1, Constant 2]]"
        "[[- 74], [1, 2]]" "\<lparr>ca_selector = Constant 1, ca_input_expression_chunks = [],
          ca_table_expressions = [Constant 7]\<rparr>" "[7]" 1, OF _ _ _ _ refl]
    by (simp add: c demo_poly_row demo_args_def [THEN arg_cong [where f = arg_theta]]
        demo_args_def [THEN arg_cong [where f = arg_beta]] upt_rec)
qed

text \<open>
  C38: splitting a batched lookup by degree. The chunks are the parallel lookups, in order, each one
  in exactly one nonempty chunk, and the helper constraint \<open>h \<cdot> \<Prod>\<^sub>j (f\<^sub>j + \<beta>)\<close> of every chunk has degree
  at most \<open>next_power_of_two (cs_degree - 1) + 1\<close>, the degree the extended domain supports.
\<close>

theorem chunk_by_degree_correct:
  assumes "chunk_by_degree a cs_degree = Some ca"
  shows "concat (ca_input_expression_chunks ca) = ba_input_expressions a
    \<and> ca_table_expressions ca = ba_table_expressions a \<and> ca_selector ca = ba_selector a
    \<and> ba_num_chunks a cs_degree = Some (ca_num_chunks ca)
    \<and> (\<forall>chunk \<in> set (ca_input_expression_chunks ca). chunk \<noteq> [] \<and>
         1 + (\<Sum>es\<leftarrow>chunk. max_degree_or 0 es) \<le> next_power_of_two (cs_degree - 1) + 1)"
proof -
  obtain nb where nb: "nb_parallel_lookups_per_chunk a cs_degree = Some nb" "nb \<noteq> 0"
    and ca: "ca = \<lparr>ca_selector = ba_selector a, ca_input_expression_chunks = chunks nb (ba_input_expressions a),
      ca_table_expressions = ba_table_expressions a\<rparr>"
    using assms by (auto simp: chunk_by_degree_def bind_eq_Some_conv split: if_splits)
  have cc: "concat (chunks nb (ba_input_expressions a)) = ba_input_expressions a"
    using nb by (simp add: concat_chunks)
  have bound: "nb * lookup_degree a \<le> next_power_of_two (cs_degree - 1)"
    using nb by (auto simp: nb_parallel_lookups_per_chunk_def Let_def split: if_splits)
  have "chunk \<noteq> [] \<and> 1 + (\<Sum>es\<leftarrow>chunk. max_degree_or 0 es) \<le> next_power_of_two (cs_degree - 1) + 1"
    if chunk: "chunk \<in> set (chunks nb (ba_input_expressions a))" for chunk
  proof -
    have "set chunk \<subseteq> set (ba_input_expressions a)" using chunk cc by (metis UN_upper set_concat)
    then have "\<forall>es\<in>set chunk. max_degree_or 0 es \<le> lookup_degree a"
      by (auto simp: max_degree_or_def intro: degree_le_lookup_degree)
    then have "(\<Sum>es\<leftarrow>chunk. max_degree_or 0 es) \<le> (\<Sum>es\<leftarrow>chunk. lookup_degree a)"
      by (intro sum_list_mono) blast
    also have "\<dots> \<le> nb * lookup_degree a"
      using chunks_bounds [OF _ chunk] nb by (simp add: sum_list_triv)
    finally show ?thesis using bound chunks_bounds [OF _ chunk] nb by simp
  qed
  then show ?thesis using cc nb by (simp add: ca ba_num_chunks_def ca_num_chunks_def)
qed

theorem chunk_by_degree_correct_witness:
  "\<exists>ca. chunk_by_degree \<lparr>ba_selector = Constant 1, ba_input_expressions = replicate 5 [demo_poly, Constant 1],
      ba_table_expressions = [Constant 0, Constant 0]\<rparr> 5 = Some ca \<and>
    concat (ca_input_expression_chunks ca) = replicate 5 [demo_poly, Constant 1] \<and> ca_num_chunks ca = 3"
proof -
  let ?a = "\<lparr>ba_selector = Constant 1, ba_input_expressions = replicate 5 [demo_poly, Constant 1],
      ba_table_expressions = [Constant 0, Constant 0]\<rparr> :: rat batched_argument"
  have np: "next_power_of_two 4 = 4" by (simp add: next_power_of_two.simps)
  have d: "lookup_degree ?a = 2"
    by (simp add: lookup_degree_def max_degree_or_def demo_poly_def eval_nat_numeral)
  have nb: "nb_parallel_lookups_per_chunk ?a 5 = Some 2"
    unfolding nb_parallel_lookups_per_chunk_def d by (simp add: np)
  obtain ca where ca: "chunk_by_degree ?a 5 = Some ca" by (simp add: chunk_by_degree_def nb)
  have "length (chunks 2 (replicate 5 [demo_poly, Constant 1])) = 3"
    by (simp add: chunks.simps numeral_eq_Suc)
  then have "ba_num_chunks ?a 5 = Some 3" by (simp add: ba_num_chunks_def nb)
  then show ?thesis using ca chunk_by_degree_correct [OF ca] by simp
qed

end
