(* ===== verification/Constraint_System.thy ===== *)
theory Constraint_System
  imports Argument_Graphs
begin

text \<open>
  The constraint system of \<open>proofs/src/plonk/circuit.rs\<close>: columns and their order, the allocation
  of columns, selectors and challenges, the registration of queries, gates, lookups and trash
  arguments, the conversion of selectors to fixed columns, and the degree and the number of
  blinding factors. Names and annotations are debugging data and are left out. \<open>None\<close> is a panic.

  The invariant \<open>cs_wf\<close> is kept by every operation; it is what the prover and the verifier rely on
  when they look up query indices.
\<close>

section \<open>Columns\<close>

datatype any_column = Any_Advice (any_phase: nat) | Any_Fixed | Any_Instance

datatype column = Column (col_index: nat) (column_type: any_column)

text \<open>
  \<open>Ord for Any\<close> sorts Instance before Advice before Fixed, and advice columns by phase; \<open>Ord for
  Column\<close> compares the types first and then the indices.
\<close>

fun any_less_eq :: "any_column \<Rightarrow> any_column \<Rightarrow> bool" where
  "any_less_eq Any_Instance _ = True"
| "any_less_eq (Any_Advice lhs) (Any_Advice rhs) = (lhs \<le> rhs)"
| "any_less_eq (Any_Advice _) Any_Fixed = True"
| "any_less_eq (Any_Advice _) Any_Instance = False"
| "any_less_eq Any_Fixed Any_Fixed = True"
| "any_less_eq Any_Fixed _ = False"

instantiation any_column :: linorder
begin

definition less_eq_any_column :: "any_column \<Rightarrow> any_column \<Rightarrow> bool" where
  "a \<le> b \<longleftrightarrow> any_less_eq a b"

definition less_any_column :: "any_column \<Rightarrow> any_column \<Rightarrow> bool" where
  "a < b \<longleftrightarrow> any_less_eq a b \<and> \<not> any_less_eq b a"

instance
proof
  fix a b c :: any_column
  show "(a < b) = (a \<le> b \<and> \<not> b \<le> a)" by (simp add: less_eq_any_column_def less_any_column_def)
  show "a \<le> a" by (cases a) (simp_all add: less_eq_any_column_def)
  show "a \<le> b \<Longrightarrow> b \<le> c \<Longrightarrow> a \<le> c"
    by (cases a; cases b; cases c) (simp_all add: less_eq_any_column_def)
  show "a \<le> b \<Longrightarrow> b \<le> a \<Longrightarrow> a = b" by (cases a; cases b) (simp_all add: less_eq_any_column_def)
  show "a \<le> b \<or> b \<le> a" by (cases a; cases b) (auto simp: less_eq_any_column_def)
qed

end

definition column_less_eq :: "column \<Rightarrow> column \<Rightarrow> bool" where
  "column_less_eq a b \<longleftrightarrow> column_type a < column_type b \<or>
     column_type a = column_type b \<and> col_index a \<le> col_index b"

instantiation column :: linorder
begin

definition less_eq_column :: "column \<Rightarrow> column \<Rightarrow> bool" where
  "a \<le> b \<longleftrightarrow> column_less_eq a b"

definition less_column :: "column \<Rightarrow> column \<Rightarrow> bool" where
  "a < b \<longleftrightarrow> column_less_eq a b \<and> a \<noteq> (b :: column)"

instance
  by standard
    (auto simp: less_eq_column_def less_column_def column_less_eq_def intro: column.expand)

end

definition query_cell :: "column \<Rightarrow> int \<Rightarrow> 'f expression" where
  "query_cell c at_rot =
     (case column_type c of
        Any_Advice ph \<Rightarrow> Advice \<lparr>aq_index = None, aq_column_index = col_index c, aq_rotation = at_rot, aq_phase = ph\<rparr>
      | Any_Fixed \<Rightarrow> Fixed \<lparr>fq_index = None, fq_column_index = col_index c, fq_rotation = at_rot\<rparr>
      | Any_Instance \<Rightarrow> Instance \<lparr>iq_index = None, iq_column_index = col_index c, iq_rotation = at_rot\<rparr>)"

section \<open>The state\<close>

record virtual_cell =
  vc_column :: column
  vc_rotation :: int

datatype selector_type = Multiplicative selector | Additive selector | No_Selector

record 'f constraints =
  con_selector :: selector_type
  con_polys :: "'f expression list"

record 'f gate =
  polys :: "'f expression list"
  gate_selectors :: "selector list"
  gate_cells :: "virtual_cell list"

record selector_flag =
  flag_simple :: bool
  flag_col_idx :: "nat option"

record 'f constraint_system =
  num_fixed_columns :: nat
  num_advice_columns :: nat
  num_instance_columns :: nat
  num_selectors :: nat
  selector_flags :: "selector_flag list"
  num_challenges :: nat
  unblinded_advice_columns :: "nat list"
  advice_column_phase :: "nat list"
  challenge_phase :: "nat list"
  gates :: "'f gate list"
  advice_queries :: "(column \<times> int) list"
  num_advice_queries :: "nat list"
  instance_queries :: "(column \<times> int) list"
  fixed_queries :: "(column \<times> int) list"
  permutation :: "column list"
  lookups :: "'f batched_argument list"
  trashcans :: "'f trash_argument list"
  constant_columns :: "column list"
  minimum_degree :: "nat option"

definition cs_default :: "'f constraint_system" where
  "cs_default = \<lparr>num_fixed_columns = 0, num_advice_columns = 0, num_instance_columns = 0,
     num_selectors = 0, selector_flags = [], num_challenges = 0, unblinded_advice_columns = [],
     advice_column_phase = [], challenge_phase = [], gates = [], advice_queries = [],
     num_advice_queries = [], instance_queries = [], fixed_queries = [], permutation = [],
     lookups = [], trashcans = [], constant_columns = [], minimum_degree = None\<rparr>"

definition has_simple_selector_col :: "'f constraint_system \<Rightarrow> nat \<Rightarrow> bool" where
  "has_simple_selector_col cs col_idx =
     list_ex (\<lambda>f. flag_simple f \<and> flag_col_idx f = Some col_idx) (selector_flags cs)"

definition num_simple_selectors :: "'f constraint_system \<Rightarrow> nat" where
  "num_simple_selectors cs = length (filter flag_simple (selector_flags cs))"

section \<open>Queries\<close>

definition query_fixed_index :: "'f constraint_system \<Rightarrow> column \<Rightarrow> int \<Rightarrow> 'f constraint_system \<times> nat" where
  "query_fixed_index cs c at_rot =
     (case position (\<lambda>q. q = (c, at_rot)) (fixed_queries cs) of
        Some index \<Rightarrow> (cs, index)
      | None \<Rightarrow> (cs\<lparr>fixed_queries := fixed_queries cs @ [(c, at_rot)]\<rparr>, length (fixed_queries cs)))"

text \<open>\<open>num_advice_queries[column.index]\<close> panics for a column of another constraint system.\<close>

definition query_advice_index ::
    "'f constraint_system \<Rightarrow> column \<Rightarrow> int \<Rightarrow> ('f constraint_system \<times> nat) option" where
  "query_advice_index cs c at_rot =
     (case position (\<lambda>q. q = (c, at_rot)) (advice_queries cs) of
        Some index \<Rightarrow> Some (cs, index)
      | None \<Rightarrow>
          (if col_index c < length (num_advice_queries cs)
           then Some (cs\<lparr>advice_queries := advice_queries cs @ [(c, at_rot)],
                        num_advice_queries := (num_advice_queries cs)
                          [col_index c := num_advice_queries cs ! col_index c + 1]\<rparr>,
                      length (advice_queries cs))
           else None))"

definition query_instance_index ::
    "'f constraint_system \<Rightarrow> column \<Rightarrow> int \<Rightarrow> 'f constraint_system \<times> nat" where
  "query_instance_index cs c at_rot =
     (case position (\<lambda>q. q = (c, at_rot)) (instance_queries cs) of
        Some index \<Rightarrow> (cs, index)
      | None \<Rightarrow> (cs\<lparr>instance_queries := instance_queries cs @ [(c, at_rot)]\<rparr>, length (instance_queries cs)))"

definition query_any_index ::
    "'f constraint_system \<Rightarrow> column \<Rightarrow> int \<Rightarrow> ('f constraint_system \<times> nat) option" where
  "query_any_index cs c at_rot =
     (case column_type c of
        Any_Advice _ \<Rightarrow> query_advice_index cs c at_rot
      | Any_Fixed \<Rightarrow> Some (query_fixed_index cs c at_rot)
      | Any_Instance \<Rightarrow> Some (query_instance_index cs c at_rot))"

definition get_advice_query_index :: "'f constraint_system \<Rightarrow> column \<Rightarrow> int \<Rightarrow> nat option" where
  "get_advice_query_index cs c at_rot = position (\<lambda>q. q = (c, at_rot)) (advice_queries cs)"

definition get_fixed_query_index :: "'f constraint_system \<Rightarrow> column \<Rightarrow> int \<Rightarrow> nat option" where
  "get_fixed_query_index cs c at_rot = position (\<lambda>q. q = (c, at_rot)) (fixed_queries cs)"

definition get_instance_query_index :: "'f constraint_system \<Rightarrow> column \<Rightarrow> int \<Rightarrow> nat option" where
  "get_instance_query_index cs c at_rot = position (\<lambda>q. q = (c, at_rot)) (instance_queries cs)"

definition get_any_query_index :: "'f constraint_system \<Rightarrow> column \<Rightarrow> int \<Rightarrow> nat option" where
  "get_any_query_index cs c at_rot =
     (case column_type c of
        Any_Advice _ \<Rightarrow> get_advice_query_index cs c at_rot
      | Any_Fixed \<Rightarrow> get_fixed_query_index cs c at_rot
      | Any_Instance \<Rightarrow> get_instance_query_index cs c at_rot)"

definition permutation_required_degree :: "column list \<Rightarrow> nat" where
  "permutation_required_degree p = 3"

definition add_column :: "column list \<Rightarrow> column \<Rightarrow> column list" where
  "add_column p c = (if c \<in> set p then p else p @ [c])"

definition enable_equality :: "'f constraint_system \<Rightarrow> column \<Rightarrow> 'f constraint_system option" where
  "enable_equality cs c =
     do { (cs, _) \<leftarrow> query_any_index cs c 0;
          Some (cs\<lparr>permutation := add_column (permutation cs) c\<rparr>) }"

definition enable_constant :: "'f constraint_system \<Rightarrow> column \<Rightarrow> 'f constraint_system option" where
  "enable_constant cs c =
     (if c \<in> set (constant_columns cs) then Some cs
      else enable_equality (cs\<lparr>constant_columns := constant_columns cs @ [c]\<rparr>) c)"

section \<open>Allocation\<close>

definition cs_selector :: "'f constraint_system \<Rightarrow> 'f constraint_system \<times> selector" where
  "cs_selector cs =
     (cs\<lparr>num_selectors := num_selectors cs + 1,
         selector_flags := selector_flags cs @ [\<lparr>flag_simple = True, flag_col_idx = None\<rparr>]\<rparr>,
      \<lparr>sel_index = num_selectors cs, is_simple = True\<rparr>)"

definition complex_selector :: "'f constraint_system \<Rightarrow> 'f constraint_system \<times> selector" where
  "complex_selector cs =
     (cs\<lparr>num_selectors := num_selectors cs + 1,
         selector_flags := selector_flags cs @ [\<lparr>flag_simple = False, flag_col_idx = None\<rparr>]\<rparr>,
      \<lparr>sel_index = num_selectors cs, is_simple = False\<rparr>)"

definition new_fixed_column :: "'f constraint_system \<Rightarrow> 'f constraint_system \<times> column" where
  "new_fixed_column cs =
     (cs\<lparr>num_fixed_columns := num_fixed_columns cs + 1\<rparr>, Column (num_fixed_columns cs) Any_Fixed)"

definition assert_phase_exists :: "'f constraint_system \<Rightarrow> nat \<Rightarrow> bool" where
  "assert_phase_exists cs ph \<longleftrightarrow> ph \<in> set (advice_column_phase cs)"

definition advice_column_in :: "'f constraint_system \<Rightarrow> nat \<Rightarrow> ('f constraint_system \<times> column) option" where
  "advice_column_in cs ph =
     (if 0 < ph \<and> \<not> assert_phase_exists cs (ph - 1) then None
      else Some (cs\<lparr>num_advice_columns := num_advice_columns cs + 1,
                    num_advice_queries := num_advice_queries cs @ [0],
                    advice_column_phase := advice_column_phase cs @ [ph]\<rparr>,
                 Column (num_advice_columns cs) (Any_Advice ph)))"

definition unblinded_advice_column_in ::
    "'f constraint_system \<Rightarrow> nat \<Rightarrow> ('f constraint_system \<times> column) option" where
  "unblinded_advice_column_in cs ph =
     (if 0 < ph \<and> \<not> assert_phase_exists cs (ph - 1) then None
      else Some (cs\<lparr>unblinded_advice_columns := unblinded_advice_columns cs @ [num_advice_columns cs],
                    num_advice_columns := num_advice_columns cs + 1,
                    num_advice_queries := num_advice_queries cs @ [0],
                    advice_column_phase := advice_column_phase cs @ [ph]\<rparr>,
                 Column (num_advice_columns cs) (Any_Advice ph)))"

definition new_instance_column :: "'f constraint_system \<Rightarrow> 'f constraint_system \<times> column" where
  "new_instance_column cs =
     (cs\<lparr>num_instance_columns := num_instance_columns cs + 1\<rparr>,
      Column (num_instance_columns cs) Any_Instance)"

definition challenge_usable_after ::
    "'f constraint_system \<Rightarrow> nat \<Rightarrow> ('f constraint_system \<times> challenge) option" where
  "challenge_usable_after cs ph =
     (if \<not> assert_phase_exists cs ph then None
      else Some (cs\<lparr>num_challenges := num_challenges cs + 1,
                    challenge_phase := challenge_phase cs @ [ph]\<rparr>,
                 \<lparr>ch_index = num_challenges cs, ch_phase = ph\<rparr>))"

definition phases :: "'f constraint_system \<Rightarrow> nat list" where
  "phases cs = [0..<Suc (if advice_column_phase cs = [] then 0 else Max (set (advice_column_phase cs)))]"

definition set_minimum_degree :: "'f constraint_system \<Rightarrow> nat \<Rightarrow> 'f constraint_system" where
  "set_minimum_degree cs d = cs\<lparr>minimum_degree := Some d\<rparr>"

section \<open>Virtual cells\<close>

record 'f virtual_cells =
  meta :: "'f constraint_system"
  queried_selectors :: "selector list"
  queried_cells :: "virtual_cell list"

definition virtual_cells_new :: "'f constraint_system \<Rightarrow> 'f virtual_cells" where
  "virtual_cells_new cs = \<lparr>meta = cs, queried_selectors = [], queried_cells = []\<rparr>"

definition push_cell :: "'f virtual_cells \<Rightarrow> column \<Rightarrow> int \<Rightarrow> 'f virtual_cells" where
  "push_cell cells c at_rot = cells\<lparr>queried_cells := queried_cells cells @ [\<lparr>vc_column = c, vc_rotation = at_rot\<rparr>]\<rparr>"

definition query_selector :: "'f virtual_cells \<Rightarrow> selector \<Rightarrow> 'f virtual_cells \<times> 'f expression" where
  "query_selector cells s = (cells\<lparr>queried_selectors := queried_selectors cells @ [s]\<rparr>, Selector s)"

definition query_fixed :: "'f virtual_cells \<Rightarrow> column \<Rightarrow> int \<Rightarrow> 'f virtual_cells \<times> 'f expression" where
  "query_fixed cells c at_rot =
     (let (cs, index) = query_fixed_index (meta cells) c at_rot
      in ((push_cell cells c at_rot)\<lparr>meta := cs\<rparr>,
          Fixed \<lparr>fq_index = Some index, fq_column_index = col_index c, fq_rotation = at_rot\<rparr>))"

definition query_advice ::
    "'f virtual_cells \<Rightarrow> column \<Rightarrow> int \<Rightarrow> ('f virtual_cells \<times> 'f expression) option" where
  "query_advice cells c at_rot =
     do { (cs, index) \<leftarrow> query_advice_index (meta cells) c at_rot;
          Some ((push_cell cells c at_rot)\<lparr>meta := cs\<rparr>,
                Advice \<lparr>aq_index = Some index, aq_column_index = col_index c, aq_rotation = at_rot,
                        aq_phase = any_phase (column_type c)\<rparr>) }"

definition query_instance :: "'f virtual_cells \<Rightarrow> column \<Rightarrow> int \<Rightarrow> 'f virtual_cells \<times> 'f expression" where
  "query_instance cells c at_rot =
     (let (cs, index) = query_instance_index (meta cells) c at_rot
      in ((push_cell cells c at_rot)\<lparr>meta := cs\<rparr>,
          Instance \<lparr>iq_index = Some index, iq_column_index = col_index c, iq_rotation = at_rot\<rparr>))"

definition query_any ::
    "'f virtual_cells \<Rightarrow> column \<Rightarrow> int \<Rightarrow> ('f virtual_cells \<times> 'f expression) option" where
  "query_any cells c at_rot =
     (case column_type c of
        Any_Advice _ \<Rightarrow> query_advice cells c at_rot
      | Any_Fixed \<Rightarrow> Some (query_fixed cells c at_rot)
      | Any_Instance \<Rightarrow> Some (query_instance cells c at_rot))"

text \<open>\<open>Expression::query_cells\<close>: gives an index to every query that has none.\<close>

fun query_cells :: "'f expression \<Rightarrow> 'f virtual_cells \<Rightarrow> ('f virtual_cells \<times> 'f expression) option" where
  "query_cells (Constant c) cells = Some (cells, Constant c)"
| "query_cells (Selector s) cells =
     Some (if s \<in> set (queried_selectors cells) then cells
           else cells\<lparr>queried_selectors := queried_selectors cells @ [s]\<rparr>, Selector s)"
| "query_cells (Fixed q) cells =
     (case fq_index q of
        Some _ \<Rightarrow> Some (cells, Fixed q)
      | None \<Rightarrow>
          let col = Column (fq_column_index q) Any_Fixed;
              cells = push_cell cells col (fq_rotation q);
              (cs, index) = query_fixed_index (meta cells) col (fq_rotation q)
          in Some (cells\<lparr>meta := cs\<rparr>, Fixed (q\<lparr>fq_index := Some index\<rparr>)))"
| "query_cells (Advice q) cells =
     (case aq_index q of
        Some _ \<Rightarrow> Some (cells, Advice q)
      | None \<Rightarrow>
          let col = Column (aq_column_index q) (Any_Advice (aq_phase q));
              cells = push_cell cells col (aq_rotation q)
          in do { (cs, index) \<leftarrow> query_advice_index (meta cells) col (aq_rotation q);
                  Some (cells\<lparr>meta := cs\<rparr>, Advice (q\<lparr>aq_index := Some index\<rparr>)) })"
| "query_cells (Instance q) cells =
     (case iq_index q of
        Some _ \<Rightarrow> Some (cells, Instance q)
      | None \<Rightarrow>
          let col = Column (iq_column_index q) Any_Instance;
              cells = push_cell cells col (iq_rotation q);
              (cs, index) = query_instance_index (meta cells) col (iq_rotation q)
          in Some (cells\<lparr>meta := cs\<rparr>, Instance (q\<lparr>iq_index := Some index\<rparr>)))"
| "query_cells (Challenge c) cells = Some (cells, Challenge c)"
| "query_cells (Negated a) cells = do { (cells, a) \<leftarrow> query_cells a cells; Some (cells, Negated a) }"
| "query_cells (Sum a b) cells =
     do { (cells, a) \<leftarrow> query_cells a cells; (cells, b) \<leftarrow> query_cells b cells; Some (cells, Sum a b) }"
| "query_cells (Product a b) cells =
     do { (cells, a) \<leftarrow> query_cells a cells; (cells, b) \<leftarrow> query_cells b cells; Some (cells, Product a b) }"
| "query_cells (Scaled a f) cells = do { (cells, a) \<leftarrow> query_cells a cells; Some (cells, Scaled a f) }"

fun query_cells_list ::
    "'f expression list \<Rightarrow> 'f virtual_cells \<Rightarrow> ('f virtual_cells \<times> 'f expression list) option" where
  "query_cells_list [] cells = Some (cells, [])"
| "query_cells_list (e # es) cells =
     do { (cells, e) \<leftarrow> query_cells e cells; (cells, es) \<leftarrow> query_cells_list es cells; Some (cells, e # es) }"

section \<open>Gates and lookups\<close>

text \<open>
  A constraint is multiplied by the selector, or the constraints become a trash argument and no
  constraint of the gate is left.
\<close>

definition apply_selector_to_constraints ::
    "'f::field virtual_cells \<Rightarrow> 'f constraints \<Rightarrow> ('f virtual_cells \<times> 'f expression list) option" where
  "apply_selector_to_constraints cells c =
     (case con_selector c of
        Multiplicative s \<Rightarrow>
          (let (cells, q) = query_selector cells s
           in do { ps \<leftarrow> those (map (expr_mul q) (con_polys c)); Some (cells, ps) })
      | Additive s \<Rightarrow>
          (let (cells, q) = query_selector cells s
           in Some (cells\<lparr>meta := (meta cells)\<lparr>trashcans := trashcans (meta cells) @
                      [\<lparr>ta_selector = q, ta_constraint_expressions = con_polys c\<rparr>]\<rparr>\<rparr>, []))
      | No_Selector \<Rightarrow> Some (cells, con_polys c))"

definition create_gate ::
    "'f::field constraint_system \<Rightarrow> ('f virtual_cells \<Rightarrow> ('f virtual_cells \<times> 'f constraints) option) \<Rightarrow>
     'f constraint_system option" where
  "create_gate cs mk_constraints =
     do { (cells, c) \<leftarrow> mk_constraints (virtual_cells_new cs);
          if con_polys c = [] then None
          else do {
            (cells, ps) \<leftarrow> apply_selector_to_constraints cells c;
            (cells, ps) \<leftarrow> query_cells_list ps cells;
            Some ((meta cells)\<lparr>gates := gates (meta cells) @
              [\<lparr>polys = ps, gate_selectors = queried_selectors cells, gate_cells = queried_cells cells\<rparr>]\<rparr>) } }"

fun query_inputs ::
    "'f expression list \<Rightarrow> 'f virtual_cells \<Rightarrow> ('f virtual_cells \<times> 'f expression list) option" where
  "query_inputs [] cells = Some (cells, [])"
| "query_inputs (input # inputs) cells =
     (if contains_simple_selector input then None
      else do { (cells, input) \<leftarrow> query_cells input cells;
                (cells, inputs) \<leftarrow> query_inputs inputs cells;
                Some (cells, input # inputs) })"

fun query_table_map ::
    "('f expression list \<times> column) list \<Rightarrow> 'f virtual_cells \<Rightarrow>
     ('f virtual_cells \<times> ('f expression list \<times> 'f expression) list) option" where
  "query_table_map [] cells = Some (cells, [])"
| "query_table_map ((inputs, tbl) # rest) cells =
     (let (cells, table) = query_fixed cells tbl 0
      in do { (cells, inputs) \<leftarrow> query_inputs inputs cells;
              (cells, table) \<leftarrow> query_cells table cells;
              (cells, rest) \<leftarrow> query_table_map rest cells;
              Some (cells, (inputs, table) # rest) })"

fun query_table_map_any ::
    "('f expression list \<times> 'f expression) list \<Rightarrow> 'f virtual_cells \<Rightarrow>
     ('f virtual_cells \<times> ('f expression list \<times> 'f expression) list) option" where
  "query_table_map_any [] cells = Some (cells, [])"
| "query_table_map_any ((inputs, table) # rest) cells =
     do { (cells, inputs) \<leftarrow> query_inputs inputs cells;
          if contains_simple_selector table then None
          else do {
            (cells, table) \<leftarrow> query_cells table cells;
            (cells, rest) \<leftarrow> query_table_map_any rest cells;
            Some (cells, (inputs, table) # rest) } }"

definition push_lookup ::
    "'f::field constraint_system \<Rightarrow> selector option \<Rightarrow> ('f expression list \<times> 'f expression) list \<Rightarrow>
     ('f constraint_system \<times> nat) option" where
  "push_lookup cs sel table_map =
     do { arg \<leftarrow> batched_argument_new sel table_map;
          Some (cs\<lparr>lookups := lookups cs @ [arg]\<rparr>, length (lookups cs)) }"

definition batched_lookup ::
    "'f::field constraint_system \<Rightarrow> selector option \<Rightarrow>
     ('f virtual_cells \<Rightarrow> ('f virtual_cells \<times> ('f expression list \<times> column) list) option) \<Rightarrow>
     ('f constraint_system \<times> nat) option" where
  "batched_lookup cs sel mk_map =
     do { (cells, table_map) \<leftarrow> mk_map (virtual_cells_new cs);
          (cells, table_map) \<leftarrow> query_table_map table_map cells;
          push_lookup (meta cells) sel table_map }"

definition batch_lookup_any ::
    "'f::field constraint_system \<Rightarrow> selector option \<Rightarrow>
     ('f virtual_cells \<Rightarrow> ('f virtual_cells \<times> ('f expression list \<times> 'f expression) list) option) \<Rightarrow>
     ('f constraint_system \<times> nat) option" where
  "batch_lookup_any cs sel mk_map =
     do { (cells, table_map) \<leftarrow> mk_map (virtual_cells_new cs);
          (cells, table_map) \<leftarrow> query_table_map_any table_map cells;
          push_lookup (meta cells) sel table_map }"

definition cs_lookup ::
    "'f::field constraint_system \<Rightarrow> selector option \<Rightarrow>
     ('f virtual_cells \<Rightarrow> ('f virtual_cells \<times> ('f expression \<times> column) list) option) \<Rightarrow>
     ('f constraint_system \<times> nat) option" where
  "cs_lookup cs sel mk_map =
     batched_lookup cs sel (\<lambda>cells. do { (cells, m) \<leftarrow> mk_map cells;
       Some (cells, map (\<lambda>(e, t). ([e], t)) m) })"

definition lookup_any ::
    "'f::field constraint_system \<Rightarrow> selector option \<Rightarrow>
     ('f virtual_cells \<Rightarrow> ('f virtual_cells \<times> ('f expression \<times> 'f expression) list) option) \<Rightarrow>
     ('f constraint_system \<times> nat) option" where
  "lookup_any cs sel mk_map =
     batch_lookup_any cs sel (\<lambda>cells. do { (cells, m) \<leftarrow> mk_map cells;
       Some (cells, map (\<lambda>(e, t). ([e], t)) m) })"

section \<open>Degree and blinding factors\<close>

definition list_max_opt :: "nat list \<Rightarrow> nat option" where
  "list_max_opt xs = (if xs = [] then None else Some (Max (set xs)))"

definition degree_without_lookup :: "'f constraint_system \<Rightarrow> nat" where
  "degree_without_lookup cs =
     Max (set (somes [Some (permutation_required_degree (permutation cs)),
       list_max_opt (map trash_required_degree (trashcans cs)),
       list_max_opt (map degree (concat (map polys (gates cs)))),
       minimum_degree cs]))"

definition cs_degree :: "'f constraint_system \<Rightarrow> nat option" where
  "cs_degree cs =
     do { ds \<leftarrow> those (map (\<lambda>l. degree_batched_argument l (degree_without_lookup cs)) (lookups cs));
          Some (max (degree_without_lookup cs)
            (if ds = [] then degree_without_lookup cs else Max (set ds))) }"

definition blinding_factors :: "'f constraint_system \<Rightarrow> nat option" where
  "blinding_factors cs =
     do { d \<leftarrow> cs_degree cs;
          nb \<leftarrow> those (map (\<lambda>l. ba_num_chunks l d) (lookups cs));
          let factors = (if num_advice_queries cs = [] then 1 else Max (set (num_advice_queries cs)));
          let factors = max 3 factors;
          let factors = factors + length (trashcans cs);
          let factors = factors + sum_list nb;
          let factors = factors + 1;
          let factors = factors + 1;
          let factors = factors + 1;
          if 2 ^ 31 - 1 < factors then None else Some factors }"

definition minimum_rows :: "'f constraint_system \<Rightarrow> nat option" where
  "minimum_rows cs = do { m \<leftarrow> blinding_factors cs; Some (m + 1 + 1 + 1) }"


section \<open>Selectors become fixed columns\<close>

definition replace_selectors ::
    "'f::field expression list \<Rightarrow> bool \<Rightarrow> 'f expression \<Rightarrow> 'f expression option" where
  "replace_selectors selector_replacements must_be_nonsimple = expr_evaluate
     \<lparr>constant_of = (\<lambda>c. Some (Constant c)),
      selector_column = (\<lambda>s. if must_be_nonsimple \<and> is_simple s then None
                            else index_opt selector_replacements (sel_index s)),
      fixed_column = (\<lambda>q. Some (Fixed q)),
      advice_column = (\<lambda>q. Some (Advice q)),
      instance_column = (\<lambda>q. Some (Instance q)),
      challenge_value = (\<lambda>c. Some (Challenge c)),
      negated = map_option expr_neg,
      sum_of = (\<lambda>a b. do { a \<leftarrow> a; b \<leftarrow> b; expr_add a b }),
      product_of = (\<lambda>a b. do { a \<leftarrow> a; b \<leftarrow> b; expr_mul a b }),
      scaled_by = (\<lambda>a f. map_option (\<lambda>a. expr_scale a f) a)\<rparr>"

definition replace_gate :: "'f::field expression list \<Rightarrow> 'f gate \<Rightarrow> 'f gate option" where
  "replace_gate rs g =
     do { ps \<leftarrow> those (map (replace_selectors rs False) (polys g)); Some (g\<lparr>polys := ps\<rparr>) }"

definition replace_lookup :: "'f::field expression list \<Rightarrow> 'f batched_argument \<Rightarrow> 'f batched_argument option" where
  "replace_lookup rs l =
     do { ins \<leftarrow> those (map (\<lambda>input. those (map (replace_selectors rs True) input)) (ba_input_expressions l));
          tbl \<leftarrow> those (map (replace_selectors rs True) (ba_table_expressions l));
          sel \<leftarrow> replace_selectors rs True (ba_selector l);
          Some \<lparr>ba_selector = sel, ba_input_expressions = ins, ba_table_expressions = tbl\<rparr> }"

definition replace_trash :: "'f::field expression list \<Rightarrow> 'f trash_argument \<Rightarrow> 'f trash_argument option" where
  "replace_trash rs t =
     do { sel \<leftarrow> replace_selectors rs True (ta_selector t);
          es \<leftarrow> those (map (replace_selectors rs True) (ta_constraint_expressions t));
          Some \<lparr>ta_selector = sel, ta_constraint_expressions = es\<rparr> }"

definition replace_selectors_with_fixed ::
    "'f::field constraint_system \<Rightarrow> 'f expression list \<Rightarrow> 'f constraint_system option" where
  "replace_selectors_with_fixed cs rs =
     do { gs \<leftarrow> those (map (replace_gate rs) (gates cs));
          ls \<leftarrow> those (map (replace_lookup rs) (lookups cs));
          ts \<leftarrow> those (map (replace_trash rs) (trashcans cs));
          Some (cs\<lparr>gates := gs, lookups := ls, trashcans := ts\<rparr>) }"

text \<open>One new fixed column per selector, with its query and its replacement expression.\<close>

fun convert_selectors ::
    "'f::field constraint_system \<Rightarrow> nat \<Rightarrow> bool list list \<Rightarrow>
     ('f constraint_system \<times> 'f list list \<times> 'f expression list) option" where
  "convert_selectors cs idx [] = Some (cs, [], [])"
| "convert_selectors cs idx (sel # selectors) =
     (let poly = map (\<lambda>b. if b then 1 else 0) sel;
          (cs, column) = new_fixed_column cs
      in do { flag \<leftarrow> index_opt (selector_flags cs) idx;
              let cs = (if flag_simple flag
                        then cs\<lparr>selector_flags := (selector_flags cs)
                               [idx := \<lparr>flag_simple = True, flag_col_idx = Some (col_index column)\<rparr>]\<rparr>
                        else cs);
              let (cs, index) = query_fixed_index cs column 0;
              let expr = Fixed \<lparr>fq_index = Some index, fq_column_index = col_index column, fq_rotation = 0\<rparr>;
              (cs, ps, es) \<leftarrow> convert_selectors cs (Suc idx) selectors;
              Some (cs, poly # ps, expr # es) })"

definition directly_convert_selectors_to_fixed ::
    "'f::field constraint_system \<Rightarrow> bool list list \<Rightarrow> ('f constraint_system \<times> 'f list list) option" where
  "directly_convert_selectors_to_fixed cs selectors =
     (if length selectors \<noteq> num_selectors cs then None
      else let nr_fixed_columns = num_fixed_columns cs
           in do { (cs, ps, selector_replacements) \<leftarrow> convert_selectors cs 0 selectors;
                   cs \<leftarrow> replace_selectors_with_fixed cs selector_replacements;
                   Some (cs\<lparr>num_selectors := 0,
                     gates := map (\<lambda>g. g\<lparr>gate_selectors := map (\<lambda>s. s\<lparr>sel_index := sel_index s + nr_fixed_columns\<rparr>)
                       (gate_selectors g)\<rparr>) (gates cs)\<rparr>, ps) })"

section \<open>Indexed expressions\<close>

text \<open>
  A query is indexed when its index points at its column and rotation in the list of queries. It
  may also have no index yet; an expression that has only such queries is called proper.
\<close>

definition points_at :: "(column \<times> int) list \<Rightarrow> nat option \<Rightarrow> column \<Rightarrow> int \<Rightarrow> bool" where
  "points_at qs idx c at_rot = (case idx of None \<Rightarrow> False | Some i \<Rightarrow> i < length qs \<and> qs ! i = (c, at_rot))"

fun indexed :: "'f constraint_system \<Rightarrow> 'f expression \<Rightarrow> bool" where
  "indexed cs (Fixed q) =
     points_at (fixed_queries cs) (fq_index q) (Column (fq_column_index q) Any_Fixed) (fq_rotation q)"
| "indexed cs (Advice q) =
     points_at (advice_queries cs) (aq_index q)
       (Column (aq_column_index q) (Any_Advice (aq_phase q))) (aq_rotation q)"
| "indexed cs (Instance q) =
     points_at (instance_queries cs) (iq_index q) (Column (iq_column_index q) Any_Instance) (iq_rotation q)"
| "indexed cs (Negated a) = indexed cs a"
| "indexed cs (Sum a b) = (indexed cs a \<and> indexed cs b)"
| "indexed cs (Product a b) = (indexed cs a \<and> indexed cs b)"
| "indexed cs (Scaled a f) = indexed cs a"
| "indexed cs _ = True"

fun proper :: "'f constraint_system \<Rightarrow> 'f expression \<Rightarrow> bool" where
  "proper cs (Fixed q) = (fq_index q = None \<or> indexed cs (Fixed q :: 'f expression))"
| "proper cs (Advice q) = (aq_index q = None \<or> indexed cs (Advice q :: 'f expression))"
| "proper cs (Instance q) = (iq_index q = None \<or> indexed cs (Instance q :: 'f expression))"
| "proper cs (Negated a) = proper cs a"
| "proper cs (Sum a b) = (proper cs a \<and> proper cs b)"
| "proper cs (Product a b) = (proper cs a \<and> proper cs b)"
| "proper cs (Scaled a f) = proper cs a"
| "proper cs _ = True"

lemma indexed_proper: "indexed cs e \<Longrightarrow> proper cs e"
  by (induction e) auto

text \<open>The expression without its indices: what \<open>query_cells\<close> leaves unchanged.\<close>

fun strip :: "'f expression \<Rightarrow> 'f expression" where
  "strip (Fixed q) = Fixed (q\<lparr>fq_index := None\<rparr>)"
| "strip (Advice q) = Advice (q\<lparr>aq_index := None\<rparr>)"
| "strip (Instance q) = Instance (q\<lparr>iq_index := None\<rparr>)"
| "strip (Negated a) = Negated (strip a)"
| "strip (Sum a b) = Sum (strip a) (strip b)"
| "strip (Product a b) = Product (strip a) (strip b)"
| "strip (Scaled a f) = Scaled (strip a) f"
| "strip e = e"

definition cs_extends :: "'f constraint_system \<Rightarrow> 'f constraint_system \<Rightarrow> bool" where
  "cs_extends cs cs' \<longleftrightarrow> prefix (fixed_queries cs) (fixed_queries cs') \<and>
     prefix (advice_queries cs) (advice_queries cs') \<and> prefix (instance_queries cs) (instance_queries cs')"

lemma cs_extends_refl [simp]: "cs_extends cs cs"
  by (simp add: cs_extends_def)

lemma cs_extends_trans: "cs_extends a b \<Longrightarrow> cs_extends b c \<Longrightarrow> cs_extends a c"
  by (auto simp: cs_extends_def)

lemma points_at_mono: "prefix qs qs' \<Longrightarrow> points_at qs idx c at_rot \<Longrightarrow> points_at qs' idx c at_rot"
  by (auto simp: points_at_def prefix_def nth_append split: option.splits)

lemma indexed_mono: "cs_extends cs cs' \<Longrightarrow> indexed cs e \<Longrightarrow> indexed cs' e"
  by (induction e) (auto simp: cs_extends_def elim: points_at_mono [rotated])

lemma proper_mono: "cs_extends cs cs' \<Longrightarrow> proper cs e \<Longrightarrow> proper cs' e"
  by (induction e) (use indexed_mono in \<open>auto simp del: indexed.simps\<close>)

section \<open>The invariant of the queries\<close>

definition queries_wf :: "'f constraint_system \<Rightarrow> bool" where
  "queries_wf cs \<longleftrightarrow>
     distinct (fixed_queries cs) \<and> distinct (advice_queries cs) \<and> distinct (instance_queries cs) \<and>
     length (num_advice_queries cs) = num_advice_columns cs \<and>
     length (advice_column_phase cs) = num_advice_columns cs \<and>
     (\<forall>q\<in>set (advice_queries cs). col_index (fst q) < num_advice_columns cs) \<and>
     (\<forall>i<num_advice_columns cs. num_advice_queries cs ! i =
        length (filter (\<lambda>q. col_index (fst q) = i) (advice_queries cs)))"

lemma position_points_at: "position (\<lambda>q. q = (c, at_rot)) qs = Some i \<Longrightarrow> points_at qs (Some i) c at_rot"
  by (auto simp: points_at_def dest: position_SomeD)

lemma points_at_snoc: "points_at (qs @ [(c, at_rot)]) (Some (length qs)) c at_rot"
  by (simp add: points_at_def)

text \<open>What registering queries does: the lists of queries grow and the rest of the state is kept.\<close>

definition without_queries :: "'f constraint_system \<Rightarrow> 'f constraint_system" where
  "without_queries cs = cs\<lparr>fixed_queries := [], advice_queries := [], num_advice_queries := [],
     instance_queries := []\<rparr>"

definition registers :: "'f constraint_system \<Rightarrow> 'f constraint_system \<Rightarrow> bool" where
  "registers cs cs' \<longleftrightarrow> cs_extends cs cs' \<and> without_queries cs' = without_queries cs \<and>
     (queries_wf cs \<longrightarrow> queries_wf cs')"

lemma registers_refl [simp]: "registers cs cs"
  by (simp add: registers_def)

lemma registers_trans: "registers a b \<Longrightarrow> registers b c \<Longrightarrow> registers a c"
  by (auto simp: registers_def intro: cs_extends_trans)

lemma registers_extends: "registers cs cs' \<Longrightarrow> cs_extends cs cs'"
  by (simp add: registers_def)

lemma registers_fields:
  assumes "registers cs cs'"
  shows "gates cs' = gates cs" "lookups cs' = lookups cs" "trashcans cs' = trashcans cs"
    "permutation cs' = permutation cs" "constant_columns cs' = constant_columns cs"
    "num_selectors cs' = num_selectors cs" "selector_flags cs' = selector_flags cs"
    "num_challenges cs' = num_challenges cs" "challenge_phase cs' = challenge_phase cs"
    "num_advice_columns cs' = num_advice_columns cs" "num_fixed_columns cs' = num_fixed_columns cs"
    "minimum_degree cs' = minimum_degree cs"
  using assms unfolding registers_def
  by (cases cs; cases cs'; simp add: without_queries_def)+

lemma query_fixed_index_spec:
  assumes "query_fixed_index cs c at_rot = (cs', i)"
  shows "registers cs cs'" "points_at (fixed_queries cs') (Some i) c at_rot"
proof -
  show "registers cs cs'"
  proof (cases "position (\<lambda>q. q = (c, at_rot)) (fixed_queries cs)")
    case None
    then have "(c, at_rot) \<notin> set (fixed_queries cs)" by (auto simp: vec_simps)
    moreover have "cs' = cs\<lparr>fixed_queries := fixed_queries cs @ [(c, at_rot)]\<rparr>"
      using None assms by (simp add: query_fixed_index_def)
    ultimately show ?thesis
      by (simp add: registers_def cs_extends_def without_queries_def queries_wf_def)
  qed (use assms in \<open>simp add: query_fixed_index_def\<close>)
  show "points_at (fixed_queries cs') (Some i) c at_rot"
    using assms
    by (auto simp: query_fixed_index_def points_at_snoc position_points_at split: option.splits)
qed

lemma query_instance_index_spec:
  assumes "query_instance_index cs c at_rot = (cs', i)"
  shows "registers cs cs'" "points_at (instance_queries cs') (Some i) c at_rot"
proof -
  show "registers cs cs'"
  proof (cases "position (\<lambda>q. q = (c, at_rot)) (instance_queries cs)")
    case None
    then have "(c, at_rot) \<notin> set (instance_queries cs)" by (auto simp: vec_simps)
    moreover have "cs' = cs\<lparr>instance_queries := instance_queries cs @ [(c, at_rot)]\<rparr>"
      using None assms by (simp add: query_instance_index_def)
    ultimately show ?thesis
      by (simp add: registers_def cs_extends_def without_queries_def queries_wf_def)
  qed (use assms in \<open>simp add: query_instance_index_def\<close>)
  show "points_at (instance_queries cs') (Some i) c at_rot"
    using assms
    by (auto simp: query_instance_index_def points_at_snoc position_points_at split: option.splits)
qed

lemma query_advice_index_spec:
  assumes "query_advice_index cs c at_rot = Some (cs', i)"
  shows "registers cs cs'" "points_at (advice_queries cs') (Some i) c at_rot"
proof -
  show "registers cs cs'"
  proof (cases "position (\<lambda>q. q = (c, at_rot)) (advice_queries cs)")
    case None
    then have "(c, at_rot) \<notin> set (advice_queries cs)" by (auto simp: vec_simps)
    moreover have "cs' = cs\<lparr>advice_queries := advice_queries cs @ [(c, at_rot)], num_advice_queries :=
        (num_advice_queries cs)[col_index c := num_advice_queries cs ! col_index c + 1]\<rparr>"
      and "col_index c < length (num_advice_queries cs)"
      using None assms by (simp_all add: query_advice_index_def split: if_splits)
    ultimately show ?thesis
      by (simp add: registers_def cs_extends_def without_queries_def queries_wf_def nth_list_update)
  qed (use assms in \<open>simp add: query_advice_index_def\<close>)
  show "points_at (advice_queries cs') (Some i) c at_rot"
    using assms
    by (auto simp: query_advice_index_def points_at_snoc position_points_at split: option.splits if_splits)
qed


section \<open>Query registration gives every query its index\<close>

lemma query_cells_spec:
  assumes "query_cells e cells = Some (cells', e')" and "proper (meta cells) e"
  shows "registers (meta cells) (meta cells') \<and> indexed (meta cells') e' \<and> strip e' = strip e"
  using assms
proof (induction e arbitrary: cells cells' e')
  case (Fixed q)
  show ?case
  proof (cases "fq_index q")
    case None
    then show ?thesis
      using Fixed.prems by (auto simp: Let_def push_cell_def split: prod.splits dest: query_fixed_index_spec)
  qed (use Fixed.prems in auto)
next
  case (Advice q)
  show ?case
  proof (cases "aq_index q")
    case None
    then show ?thesis
      using Advice.prems
      by (auto simp: Let_def push_cell_def bind_eq_Some_conv dest: query_advice_index_spec)
  qed (use Advice.prems in auto)
next
  case (Instance q)
  show ?case
  proof (cases "iq_index q")
    case None
    then show ?thesis
      using Instance.prems by (auto simp: Let_def push_cell_def split: prod.splits dest: query_instance_index_spec)
  qed (use Instance.prems in auto)
next
  case (Sum a b)
  then obtain c1 a' b' where a: "query_cells a cells = Some (c1, a')"
    and b: "query_cells b c1 = Some (cells', b')" "e' = Sum a' b'"
    by (auto simp: bind_eq_Some_conv)
  have 1: "registers (meta cells) (meta c1) \<and> indexed (meta c1) a' \<and> strip a' = strip a"
    using Sum.IH(1) [OF a] Sum.prems(2) by simp
  moreover have "registers (meta c1) (meta cells') \<and> indexed (meta cells') b' \<and> strip b' = strip b"
    using Sum.IH(2) [OF b(1)] Sum.prems(2) 1 by (auto intro: proper_mono registers_extends)
  ultimately show ?case
    using b(2) by (auto intro: registers_trans indexed_mono registers_extends)
next
  case (Product a b)
  then obtain c1 a' b' where a: "query_cells a cells = Some (c1, a')"
    and b: "query_cells b c1 = Some (cells', b')" "e' = Product a' b'"
    by (auto simp: bind_eq_Some_conv)
  have 1: "registers (meta cells) (meta c1) \<and> indexed (meta c1) a' \<and> strip a' = strip a"
    using Product.IH(1) [OF a] Product.prems(2) by simp
  moreover have "registers (meta c1) (meta cells') \<and> indexed (meta cells') b' \<and> strip b' = strip b"
    using Product.IH(2) [OF b(1)] Product.prems(2) 1 by (auto intro: proper_mono registers_extends)
  ultimately show ?case
    using b(2) by (auto intro: registers_trans indexed_mono registers_extends)
qed (auto simp: bind_eq_Some_conv)

lemma query_cells_list_spec:
  assumes "query_cells_list es cells = Some (cells', es')" and "\<forall>e\<in>set es. proper (meta cells) e"
  shows "registers (meta cells) (meta cells') \<and> (\<forall>e\<in>set es'. indexed (meta cells') e) \<and>
    map strip es' = map strip es"
  using assms
proof (induction es arbitrary: cells es')
  case (Cons e es)
  then obtain c1 e1 es1 where e: "query_cells e cells = Some (c1, e1)"
    and es: "query_cells_list es c1 = Some (cells', es1)" "es' = e1 # es1"
    by (auto simp: bind_eq_Some_conv)
  have 1: "registers (meta cells) (meta c1) \<and> indexed (meta c1) e1 \<and> strip e1 = strip e"
    using query_cells_spec [OF e] Cons.prems(2) by simp
  moreover have "registers (meta c1) (meta cells') \<and> (\<forall>e\<in>set es1. indexed (meta cells') e) \<and>
      map strip es1 = map strip es"
    using Cons.IH [OF es(1)] Cons.prems(2) 1 by (auto intro: proper_mono registers_extends)
  ultimately show ?case
    using es(2) by (auto intro: registers_trans indexed_mono registers_extends)
qed simp

lemma query_inputs_list:
  "query_inputs es cells = Some res \<Longrightarrow> query_cells_list es cells = Some res"
  by (induction es arbitrary: cells res) (auto simp: bind_eq_Some_conv split: if_splits)

section \<open>The configuration of a circuit\<close>

text \<open>
  What a closure given to \<open>create_gate\<close> or to a lookup can do with its virtual cells: the query
  methods of \<open>VirtualCells\<close>, in any order. The expressions it returns have the indices those methods
  gave them, or none (\<open>Column::cur\<close> and the like).
\<close>

inductive cells_steps :: "'f virtual_cells \<Rightarrow> 'f virtual_cells \<Rightarrow> bool" where
  cells_refl: "cells_steps cells cells"
| cells_selector: "cells_steps cells c1 \<Longrightarrow> query_selector c1 s = (c2, e) \<Longrightarrow> cells_steps cells c2"
| cells_any: "cells_steps cells c1 \<Longrightarrow> query_any c1 c at_rot = Some (c2, e) \<Longrightarrow> cells_steps cells c2"

definition well_behaved ::
    "('a \<Rightarrow> 'f expression set) \<Rightarrow> ('f virtual_cells \<Rightarrow> ('f virtual_cells \<times> 'a) option) \<Rightarrow> bool" where
  "well_behaved exprs f \<longleftrightarrow>
     (\<forall>cells cells' x. f cells = Some (cells', x) \<longrightarrow>
        cells_steps cells cells' \<and> (\<forall>e\<in>exprs x. proper (meta cells') e))"

lemma query_any_registers:
  assumes "query_any c1 c at_rot = Some (c2, e)"
  shows "registers (meta c1) (meta c2)"
  using assms
  by (auto simp: query_any_def query_fixed_def query_advice_def query_instance_def push_cell_def Let_def
      bind_eq_Some_conv split: any_column.splits prod.splits
      dest: query_fixed_index_spec query_advice_index_spec query_instance_index_spec)

lemma cells_steps_registers: "cells_steps cells cells' \<Longrightarrow> registers (meta cells) (meta cells')"
proof (induction rule: cells_steps.induct)
  case (cells_selector cells c1 s c2 e)
  then show ?case by (auto simp: query_selector_def)
next
  case (cells_any cells c1 c at_rot c2 e)
  then show ?case by (meson query_any_registers registers_trans)
qed simp

text \<open>
  The invariant. Every gate and lookup expression is indexed; the constraints of a trash argument
  are only proper, because \<open>create_gate\<close> does not register their cells.
\<close>

definition lookup_exprs :: "'f batched_argument \<Rightarrow> 'f expression set" where
  "lookup_exprs l = insert (ba_selector l) (\<Union>(set ` set (ba_input_expressions l)) \<union> set (ba_table_expressions l))"

definition trash_exprs :: "'f trash_argument \<Rightarrow> 'f expression set" where
  "trash_exprs t = insert (ta_selector t) (set (ta_constraint_expressions t))"

definition queries_of :: "'f constraint_system \<Rightarrow> any_column \<Rightarrow> (column \<times> int) list" where
  "queries_of cs ty = (case ty of Any_Advice _ \<Rightarrow> advice_queries cs | Any_Fixed \<Rightarrow> fixed_queries cs
     | Any_Instance \<Rightarrow> instance_queries cs)"

definition registered :: "'f constraint_system \<Rightarrow> column \<Rightarrow> int \<Rightarrow> bool" where
  "registered cs c at_rot \<longleftrightarrow> (c, at_rot) \<in> set (queries_of cs (column_type c))"

definition cs_core :: "'f constraint_system \<Rightarrow> bool" where
  "cs_core cs \<longleftrightarrow>
     queries_wf cs \<and>
     distinct (permutation cs) \<and>
     (\<forall>c\<in>set (permutation cs). registered cs c 0) \<and>
     length (challenge_phase cs) = num_challenges cs \<and>
     num_selectors cs \<le> length (selector_flags cs) \<and>
     (\<forall>g\<in>set (gates cs). \<forall>e\<in>set (polys g). indexed cs e) \<and>
     (\<forall>l\<in>set (lookups cs). \<forall>e\<in>lookup_exprs l. indexed cs e) \<and>
     (\<forall>t\<in>set (trashcans cs). \<forall>e\<in>trash_exprs t. proper cs e)"

definition cs_wf :: "'f constraint_system \<Rightarrow> bool" where
  "cs_wf cs \<longleftrightarrow> cs_core cs \<and> set (constant_columns cs) \<subseteq> set (permutation cs)"

lemma get_any_query_index_position:
  "get_any_query_index cs c at_rot = position (\<lambda>q. q = (c, at_rot)) (queries_of cs (column_type c))"
  by (simp add: get_any_query_index_def get_advice_query_index_def get_fixed_query_index_def
      get_instance_query_index_def queries_of_def split: any_column.splits)

lemma get_any_query_index_registered:
  assumes "registered cs c at_rot"
  shows "\<exists>i. get_any_query_index cs c at_rot = Some i \<and> points_at (queries_of cs (column_type c)) (Some i) c at_rot"
proof -
  have "get_any_query_index cs c at_rot \<noteq> None"
    using assms by (auto simp: get_any_query_index_position registered_def position_None_iff
        simp del: not_None_eq)
  then show ?thesis by (auto simp: get_any_query_index_position intro: position_points_at)
qed

lemma registered_mono: "cs_extends cs cs' \<Longrightarrow> registered cs c at_rot \<Longrightarrow> registered cs' c at_rot"
  by (auto simp: registered_def queries_of_def cs_extends_def prefix_def split: any_column.splits)

lemma cs_core_registers: "registers cs cs' \<Longrightarrow> cs_core cs \<Longrightarrow> cs_core cs'"
  unfolding cs_core_def
  using registers_fields [of cs cs']
  by (auto simp: registers_def intro: indexed_mono proper_mono registered_mono)

lemma cs_wf_registers: "registers cs cs' \<Longrightarrow> cs_wf cs \<Longrightarrow> cs_wf cs'"
  unfolding cs_wf_def using registers_fields [of cs cs'] by (auto intro: cs_core_registers)

text \<open>Operations that only change fields the expressions do not refer to.\<close>

lemma indexed_cong:
  "fixed_queries cs' = fixed_queries cs \<Longrightarrow> advice_queries cs' = advice_queries cs \<Longrightarrow>
   instance_queries cs' = instance_queries cs \<Longrightarrow> indexed cs' e = indexed cs e \<and> proper cs' e = proper cs e"
  by (intro conjI iffI; (rule indexed_mono | rule proper_mono); auto simp: cs_extends_def)

lemma registered_cong:
  "fixed_queries cs' = fixed_queries cs \<Longrightarrow> advice_queries cs' = advice_queries cs \<Longrightarrow>
   instance_queries cs' = instance_queries cs \<Longrightarrow> registered cs' c at_rot = registered cs c at_rot"
  by (simp add: registered_def queries_of_def split: any_column.splits)

lemma indexed_update [simp]:
  "indexed (cs\<lparr>num_fixed_columns := v0\<rparr>) e = indexed cs e"
  "indexed (cs\<lparr>num_advice_columns := v1\<rparr>) e = indexed cs e"
  "indexed (cs\<lparr>num_instance_columns := v2\<rparr>) e = indexed cs e"
  "indexed (cs\<lparr>num_selectors := v3\<rparr>) e = indexed cs e"
  "indexed (cs\<lparr>selector_flags := v4\<rparr>) e = indexed cs e"
  "indexed (cs\<lparr>num_challenges := v5\<rparr>) e = indexed cs e"
  "indexed (cs\<lparr>unblinded_advice_columns := v6\<rparr>) e = indexed cs e"
  "indexed (cs\<lparr>advice_column_phase := v7\<rparr>) e = indexed cs e"
  "indexed (cs\<lparr>challenge_phase := v8\<rparr>) e = indexed cs e"
  "indexed (cs\<lparr>gates := v9\<rparr>) e = indexed cs e"
  "indexed (cs\<lparr>num_advice_queries := v10\<rparr>) e = indexed cs e"
  "indexed (cs\<lparr>permutation := v11\<rparr>) e = indexed cs e"
  "indexed (cs\<lparr>lookups := v12\<rparr>) e = indexed cs e"
  "indexed (cs\<lparr>trashcans := v13\<rparr>) e = indexed cs e"
  "indexed (cs\<lparr>constant_columns := v14\<rparr>) e = indexed cs e"
  "indexed (cs\<lparr>minimum_degree := v15\<rparr>) e = indexed cs e"
  by (rule conjunct1 [OF indexed_cong]; simp)+

lemma proper_update [simp]:
  "proper (cs\<lparr>num_fixed_columns := v0\<rparr>) e = proper cs e"
  "proper (cs\<lparr>num_advice_columns := v1\<rparr>) e = proper cs e"
  "proper (cs\<lparr>num_instance_columns := v2\<rparr>) e = proper cs e"
  "proper (cs\<lparr>num_selectors := v3\<rparr>) e = proper cs e"
  "proper (cs\<lparr>selector_flags := v4\<rparr>) e = proper cs e"
  "proper (cs\<lparr>num_challenges := v5\<rparr>) e = proper cs e"
  "proper (cs\<lparr>unblinded_advice_columns := v6\<rparr>) e = proper cs e"
  "proper (cs\<lparr>advice_column_phase := v7\<rparr>) e = proper cs e"
  "proper (cs\<lparr>challenge_phase := v8\<rparr>) e = proper cs e"
  "proper (cs\<lparr>gates := v9\<rparr>) e = proper cs e"
  "proper (cs\<lparr>num_advice_queries := v10\<rparr>) e = proper cs e"
  "proper (cs\<lparr>permutation := v11\<rparr>) e = proper cs e"
  "proper (cs\<lparr>lookups := v12\<rparr>) e = proper cs e"
  "proper (cs\<lparr>trashcans := v13\<rparr>) e = proper cs e"
  "proper (cs\<lparr>constant_columns := v14\<rparr>) e = proper cs e"
  "proper (cs\<lparr>minimum_degree := v15\<rparr>) e = proper cs e"
  by (rule conjunct2 [OF indexed_cong]; simp)+

lemma registered_update [simp]:
  "registered (cs\<lparr>num_fixed_columns := v0\<rparr>) c at_rot = registered cs c at_rot"
  "registered (cs\<lparr>num_advice_columns := v1\<rparr>) c at_rot = registered cs c at_rot"
  "registered (cs\<lparr>num_instance_columns := v2\<rparr>) c at_rot = registered cs c at_rot"
  "registered (cs\<lparr>num_selectors := v3\<rparr>) c at_rot = registered cs c at_rot"
  "registered (cs\<lparr>selector_flags := v4\<rparr>) c at_rot = registered cs c at_rot"
  "registered (cs\<lparr>num_challenges := v5\<rparr>) c at_rot = registered cs c at_rot"
  "registered (cs\<lparr>unblinded_advice_columns := v6\<rparr>) c at_rot = registered cs c at_rot"
  "registered (cs\<lparr>advice_column_phase := v7\<rparr>) c at_rot = registered cs c at_rot"
  "registered (cs\<lparr>challenge_phase := v8\<rparr>) c at_rot = registered cs c at_rot"
  "registered (cs\<lparr>gates := v9\<rparr>) c at_rot = registered cs c at_rot"
  "registered (cs\<lparr>num_advice_queries := v10\<rparr>) c at_rot = registered cs c at_rot"
  "registered (cs\<lparr>permutation := v11\<rparr>) c at_rot = registered cs c at_rot"
  "registered (cs\<lparr>lookups := v12\<rparr>) c at_rot = registered cs c at_rot"
  "registered (cs\<lparr>trashcans := v13\<rparr>) c at_rot = registered cs c at_rot"
  "registered (cs\<lparr>constant_columns := v14\<rparr>) c at_rot = registered cs c at_rot"
  "registered (cs\<lparr>minimum_degree := v15\<rparr>) c at_rot = registered cs c at_rot"
  by (rule registered_cong; simp)+

lemma queries_wf_update [simp]:
  "queries_wf (cs\<lparr>num_fixed_columns := v0\<rparr>) = queries_wf cs"
  "queries_wf (cs\<lparr>num_instance_columns := v1\<rparr>) = queries_wf cs"
  "queries_wf (cs\<lparr>num_selectors := v2\<rparr>) = queries_wf cs"
  "queries_wf (cs\<lparr>selector_flags := v3\<rparr>) = queries_wf cs"
  "queries_wf (cs\<lparr>num_challenges := v4\<rparr>) = queries_wf cs"
  "queries_wf (cs\<lparr>unblinded_advice_columns := v5\<rparr>) = queries_wf cs"
  "queries_wf (cs\<lparr>challenge_phase := v6\<rparr>) = queries_wf cs"
  "queries_wf (cs\<lparr>gates := v7\<rparr>) = queries_wf cs"
  "queries_wf (cs\<lparr>permutation := v8\<rparr>) = queries_wf cs"
  "queries_wf (cs\<lparr>lookups := v9\<rparr>) = queries_wf cs"
  "queries_wf (cs\<lparr>trashcans := v10\<rparr>) = queries_wf cs"
  "queries_wf (cs\<lparr>constant_columns := v11\<rparr>) = queries_wf cs"
  "queries_wf (cs\<lparr>minimum_degree := v12\<rparr>) = queries_wf cs"
  by (simp_all add: queries_wf_def)

lemma cs_wf_default: "cs_wf cs_default"
  by (simp add: cs_wf_def cs_core_def cs_default_def queries_wf_def)

lemma points_at_mem: "points_at qs (Some i) c at_rot \<Longrightarrow> (c, at_rot) \<in> set qs"
  by (auto simp: points_at_def in_set_conv_nth)

lemma query_any_index_spec:
  assumes "query_any_index cs c at_rot = Some (cs', i)"
  shows "registers cs cs'" "registered cs' c at_rot"
proof -
  show "registers cs cs'"
    using assms by (auto simp: query_any_index_def split: any_column.splits
        dest: query_fixed_index_spec query_advice_index_spec query_instance_index_spec)
  show "registered cs' c at_rot"
    using assms by (auto simp: query_any_index_def registered_def queries_of_def split: any_column.splits
        dest: query_fixed_index_spec(2) [THEN points_at_mem] query_advice_index_spec(2) [THEN points_at_mem]
          query_instance_index_spec(2) [THEN points_at_mem])
qed

lemma enable_equality_core:
  assumes "enable_equality cs c = Some cs'" and core: "cs_core cs"
  shows "cs_core cs'" "permutation cs' = add_column (permutation cs) c"
    "constant_columns cs' = constant_columns cs"
proof -
  obtain cs1 i where q: "query_any_index cs c 0 = Some (cs1, i)"
    and cs': "cs' = cs1\<lparr>permutation := add_column (permutation cs1) c\<rparr>"
    using assms(1) by (auto simp: enable_equality_def bind_eq_Some_conv)
  note reg = query_any_index_spec(1) [OF q]
  have core1: "cs_core cs1" using cs_core_registers [OF reg core] .
  have "queries_wf cs'" using core1 by (simp add: cs' cs_core_def queries_wf_def)
  with core1 query_any_index_spec(2) [OF q] show "cs_core cs'"
    unfolding cs_core_def by (auto simp: cs' add_column_def)
  show "permutation cs' = add_column (permutation cs) c" "constant_columns cs' = constant_columns cs"
    using registers_fields(4,5) [OF reg] by (simp_all add: cs')
qed

lemma enable_equality_wf: "enable_equality cs c = Some cs' \<Longrightarrow> cs_wf cs \<Longrightarrow> cs_wf cs'"
  unfolding cs_wf_def using enable_equality_core [of cs c cs'] by (auto simp: add_column_def)

lemma enable_constant_wf:
  assumes "enable_constant cs c = Some cs'" and wf: "cs_wf cs"
  shows "cs_wf cs'"
proof (cases "c \<in> set (constant_columns cs)")
  case True
  with assms show ?thesis by (simp add: enable_constant_def)
next
  case False
  let ?cs = "cs\<lparr>constant_columns := constant_columns cs @ [c]\<rparr>"
  have eq: "enable_equality ?cs c = Some cs'" using assms(1) False by (simp add: enable_constant_def)
  have "cs_core ?cs" using wf by (simp add: cs_wf_def cs_core_def queries_wf_def)
  from enable_equality_core [OF eq this] wf show ?thesis
    by (auto simp: cs_wf_def add_column_def)
qed

text \<open>Allocations.\<close>

lemma alloc_wf:
  assumes "cs_wf cs"
  shows "cs_wf (fst (cs_selector cs))" "cs_wf (fst (complex_selector cs))"
    "cs_wf (fst (new_fixed_column cs))" "cs_wf (fst (new_instance_column cs))"
    "cs_wf (set_minimum_degree cs d)"
  using assms
  by (simp_all add: cs_wf_def cs_core_def queries_wf_def cs_selector_def complex_selector_def
      new_fixed_column_def new_instance_column_def set_minimum_degree_def)


lemma filter_advice_queries_new:
  "queries_wf cs \<Longrightarrow> filter (\<lambda>q. col_index (fst q) = num_advice_columns cs) (advice_queries cs) = []"
  by (auto simp: queries_wf_def filter_empty_conv)

lemma queries_wf_advice_column:
  assumes "queries_wf cs"
  shows "queries_wf (cs\<lparr>num_advice_columns := num_advice_columns cs + 1,
    num_advice_queries := num_advice_queries cs @ [0],
    advice_column_phase := advice_column_phase cs @ [ph]\<rparr>)"
proof -
  have "\<forall>q\<in>set (advice_queries cs). col_index (fst q) < Suc (num_advice_columns cs)"
    using assms by (auto simp: queries_wf_def less_Suc_eq)
  moreover have "(num_advice_queries cs @ [0]) ! i = length (filter (\<lambda>q. col_index (fst q) = i) (advice_queries cs))"
    if "i < Suc (num_advice_columns cs)" for i
    using that assms filter_advice_queries_new [OF assms]
    by (cases "i = num_advice_columns cs") (simp_all add: queries_wf_def nth_append)
  ultimately show ?thesis using assms by (simp add: queries_wf_def)
qed

lemma advice_column_in_wf:
  "advice_column_in cs ph = Some (cs', c) \<Longrightarrow> cs_wf cs \<Longrightarrow> cs_wf cs'"
  using queries_wf_advice_column [of cs ph]
  by (auto simp: advice_column_in_def cs_wf_def cs_core_def split: if_splits)

lemma unblinded_advice_column_in_wf:
  "unblinded_advice_column_in cs ph = Some (cs', c) \<Longrightarrow> cs_wf cs \<Longrightarrow> cs_wf cs'"
  using queries_wf_advice_column [of "cs\<lparr>unblinded_advice_columns := unblinded_advice_columns cs @ [num_advice_columns cs]\<rparr>" ph]
  by (auto simp: unblinded_advice_column_in_def cs_wf_def cs_core_def split: if_splits)

lemma challenge_usable_after_wf:
  "challenge_usable_after cs ph = Some (cs', c) \<Longrightarrow> cs_wf cs \<Longrightarrow> cs_wf cs'"
  by (auto simp: challenge_usable_after_def cs_wf_def cs_core_def split: if_splits)

text \<open>Gates.\<close>

lemma expr_mul_selector_proper: "expr_mul (Selector s) e = Some e' \<Longrightarrow> proper cs e \<Longrightarrow> proper cs e'"
  by (auto simp: expr_mul_def split: if_splits)

lemma those_map_all: "those (map f xs) = Some ys \<Longrightarrow> y \<in> set ys \<Longrightarrow> \<exists>x\<in>set xs. f x = Some y"
  by (induction xs arbitrary: ys) (auto split: option.splits)

lemma apply_selector_spec:
  assumes "apply_selector_to_constraints cells c = Some (cells', ps)"
    and proper: "\<forall>e\<in>set (con_polys c). proper (meta cells) e" and wf: "cs_wf (meta cells)"
  shows "cs_wf (meta cells') \<and> (\<forall>e\<in>set ps. proper (meta cells') e)"
proof (cases "con_selector c")
  case (Multiplicative s)
  with assms(1) have ps: "those (map (expr_mul (Selector s)) (con_polys c)) = Some ps"
    and "meta cells' = meta cells"
    by (auto simp: apply_selector_to_constraints_def query_selector_def bind_eq_Some_conv)
  moreover have "proper (meta cells) e" if "e \<in> set ps" for e
    using those_map_all [OF ps that] proper by (auto intro: expr_mul_selector_proper)
  ultimately show ?thesis using wf by simp
next
  case (Additive s)
  then show ?thesis
    using assms by (auto simp: apply_selector_to_constraints_def query_selector_def cs_wf_def cs_core_def
        trash_exprs_def)
next
  case No_Selector
  then show ?thesis using assms by (simp add: apply_selector_to_constraints_def)
qed

lemma create_gate_wf:
  assumes "create_gate cs f = Some cs'" and wb: "well_behaved (\<lambda>c. set (con_polys c)) f" and wf: "cs_wf cs"
  shows "cs_wf cs'"
proof -
  obtain c1 c c2 ps c3 ps' where f: "f (virtual_cells_new cs) = Some (c1, c)"
    and ap: "apply_selector_to_constraints c1 c = Some (c2, ps)"
    and q: "query_cells_list ps c2 = Some (c3, ps')"
    and cs': "cs' = (meta c3)\<lparr>gates := gates (meta c3) @
        [\<lparr>polys = ps', gate_selectors = queried_selectors c3, gate_cells = queried_cells c3\<rparr>]\<rparr>"
    using assms(1) by (auto simp: create_gate_def bind_eq_Some_conv split: if_splits)
  have "cells_steps (virtual_cells_new cs) c1" and pr: "\<forall>e\<in>set (con_polys c). proper (meta c1) e"
    using wb f by (auto simp: well_behaved_def)
  then have "cs_wf (meta c1)"
    using cs_wf_registers [OF cells_steps_registers, of "virtual_cells_new cs" c1] wf
    by (simp add: virtual_cells_new_def)
  then have 2: "cs_wf (meta c2) \<and> (\<forall>e\<in>set ps. proper (meta c2) e)"
    using apply_selector_spec [OF ap pr] by simp
  then have 3: "registers (meta c2) (meta c3) \<and> (\<forall>e\<in>set ps'. indexed (meta c3) e)"
    using query_cells_list_spec [OF q] by simp
  with 2 have "cs_wf (meta c3)" using cs_wf_registers by blast
  with 3 show ?thesis
    by (auto simp: cs' cs_wf_def cs_core_def)
qed


text \<open>Lookups.\<close>

definition table_exprs :: "('f expression list \<times> 'f expression) list \<Rightarrow> 'f expression set" where
  "table_exprs m = (\<Union>(ins, t)\<in>set m. insert t (set ins))"

definition column_table_exprs :: "('f expression list \<times> column) list \<Rightarrow> 'f expression set" where
  "column_table_exprs m = (\<Union>(ins, t)\<in>set m. set ins)"

lemma query_fixed_spec:
  assumes "query_fixed cells c 0 = (cells', e)" "column_type c = Any_Fixed"
  shows "registers (meta cells) (meta cells')" "indexed (meta cells') e"
  using assms by (cases c; auto simp: query_fixed_def push_cell_def split: prod.splits
      dest: query_fixed_index_spec)+

lemma query_inputs_spec:
  assumes "query_inputs es cells = Some (cells', es')" and "\<forall>e\<in>set es. proper (meta cells) e"
  shows "registers (meta cells) (meta cells') \<and> (\<forall>e\<in>set es'. indexed (meta cells') e)"
  using query_cells_list_spec [OF query_inputs_list [OF assms(1)] assms(2)] by blast

lemma query_table_map_any_spec:
  assumes "query_table_map_any m cells = Some (cells', m')" and "\<forall>e\<in>table_exprs m. proper (meta cells) e"
  shows "registers (meta cells) (meta cells') \<and> (\<forall>e\<in>table_exprs m'. indexed (meta cells') e)"
  using assms
proof (induction m arbitrary: cells m')
  case (Cons p m)
  obtain ins t where p: "p = (ins, t)" by fastforce
  then obtain c1 ins1 c2 t1 m1 where q: "query_inputs ins cells = Some (c1, ins1)"
    "query_cells t c1 = Some (c2, t1)" "query_table_map_any m c2 = Some (cells', m1)" "m' = (ins1, t1) # m1"
    using Cons.prems(1) by (auto simp: bind_eq_Some_conv split: if_splits)
  have pr: "\<forall>e\<in>set ins. proper (meta cells) e" "proper (meta cells) t" "\<forall>e\<in>table_exprs m. proper (meta cells) e"
    using Cons.prems(2) by (auto simp: table_exprs_def p)
  have 1: "registers (meta cells) (meta c1)" "\<forall>e\<in>set ins1. indexed (meta c1) e"
    using query_inputs_spec [OF q(1) pr(1)] by auto
  have 2: "registers (meta c1) (meta c2)" "indexed (meta c2) t1"
    using query_cells_spec [OF q(2)] pr(2) 1(1) by (auto intro: proper_mono registers_extends)
  have 12: "registers (meta cells) (meta c2)" using registers_trans [OF 1(1) 2(1)] .
  have 3: "registers (meta c2) (meta cells')" "\<forall>e\<in>table_exprs m1. indexed (meta cells') e"
    using Cons.IH [OF q(3)] pr(3) 12 by (auto intro: proper_mono registers_extends)
  have "indexed (meta cells') e" if "e \<in> set ins1" for e
    using that 1(2) indexed_mono [OF registers_extends [OF registers_trans [OF 2(1) 3(1)]]] by blast
  moreover have "indexed (meta cells') t1" using indexed_mono [OF registers_extends [OF 3(1)] 2(2)] .
  ultimately show ?case using 12 3 q(4) by (auto simp: table_exprs_def intro: registers_trans)
qed (simp add: table_exprs_def)

lemma query_table_map_spec:
  assumes "query_table_map m cells = Some (cells', m')" and "\<forall>e\<in>column_table_exprs m. proper (meta cells) e"
    and "\<forall>(ins, c)\<in>set m. column_type c = Any_Fixed"
  shows "registers (meta cells) (meta cells') \<and> (\<forall>e\<in>table_exprs m'. indexed (meta cells') e)"
  using assms
proof (induction m arbitrary: cells m')
  case (Cons p m)
  obtain ins c where p: "p = (ins, c)" by fastforce
  obtain c0 t where t: "query_fixed cells c 0 = (c0, t)" by fastforce
  with p obtain c1 ins1 c2 t1 m1 where q: "query_inputs ins c0 = Some (c1, ins1)"
    "query_cells t c1 = Some (c2, t1)" "query_table_map m c2 = Some (cells', m1)" "m' = (ins1, t1) # m1"
    using Cons.prems(1) by (auto simp: bind_eq_Some_conv)
  have pr: "\<forall>e\<in>set ins. proper (meta cells) e" "\<forall>e\<in>column_table_exprs m. proper (meta cells) e"
    using Cons.prems(2) by (auto simp: column_table_exprs_def p)
  have 0: "registers (meta cells) (meta c0)" "indexed (meta c0) t"
    using query_fixed_spec [OF t] Cons.prems(3) p by auto
  have 1: "registers (meta c0) (meta c1)" "\<forall>e\<in>set ins1. indexed (meta c1) e"
    using query_inputs_spec [OF q(1)] pr(1) 0(1) by (auto intro: proper_mono registers_extends)
  have 2: "registers (meta c1) (meta c2)" "indexed (meta c2) t1"
    using query_cells_spec [OF q(2)] indexed_proper [OF indexed_mono [OF registers_extends [OF 1(1)] 0(2)]]
    by auto
  have 02: "registers (meta cells) (meta c2)" using registers_trans [OF registers_trans [OF 0(1) 1(1)] 2(1)] .
  have 3: "registers (meta c2) (meta cells')" "\<forall>e\<in>table_exprs m1. indexed (meta cells') e"
    using Cons.IH [OF q(3)] pr(2) 02 Cons.prems(3) by (auto intro: proper_mono registers_extends)
  have "indexed (meta cells') e" if "e \<in> set ins1" for e
    using that 1(2) indexed_mono [OF registers_extends [OF registers_trans [OF 2(1) 3(1)]]] by blast
  moreover have "indexed (meta cells') t1" using indexed_mono [OF registers_extends [OF 3(1)] 2(2)] .
  ultimately show ?case using 02 3 q(4) by (auto simp: table_exprs_def intro: registers_trans)
qed (simp add: table_exprs_def)

lemma batched_argument_new_exprs:
  assumes "batched_argument_new sel m = Some l" and "\<forall>e\<in>table_exprs m. indexed cs e"
  shows "\<forall>e\<in>lookup_exprs l. indexed cs e"
proof -
  have ins: "e \<in> table_exprs m" if "i < length m" "e \<in> set (fst (m ! i))" for i e
    using that nth_mem [OF that(1)] unfolding table_exprs_def by (cases "m ! i") fastforce
  have tbl: "e \<in> table_exprs m" if "e \<in> snd ` set m" for e
    using that by (force simp: table_exprs_def)
  note l = assms(1) [unfolded batched_argument_new_Some]
  note le = l [THEN conjunct2, THEN conjunct2]
  have "fst (m ! i) ! j \<in> table_exprs m" if "i < length m" "j < length (fst (hd m))" for i j
  proof -
    have "length (fst (m ! i)) = length (fst (hd m))" using l nth_mem [OF that(1)] by blast
    with that show ?thesis by (intro ins [OF that(1)] nth_mem) simp
  qed
  then have "\<Union> (set ` set (ba_input_expressions l)) \<subseteq> table_exprs m" using le by auto
  moreover have "set (ba_table_expressions l) \<subseteq> table_exprs m" using le tbl by auto
  moreover have "indexed cs (ba_selector l)" using le by (auto split: option.splits)
  ultimately show ?thesis using assms(2) unfolding lookup_exprs_def by blast
qed

lemma push_lookup_wf:
  assumes "push_lookup cs sel m = Some (cs', i)" "cs_wf cs" "\<forall>e\<in>table_exprs m. indexed cs e"
  shows "cs_wf cs'"
  using assms batched_argument_new_exprs [of sel m _ cs]
  by (auto simp: push_lookup_def bind_eq_Some_conv cs_wf_def cs_core_def)

lemma batch_lookup_any_wf:
  assumes "batch_lookup_any cs sel f = Some (cs', i)" and wb: "well_behaved table_exprs f" and wf: "cs_wf cs"
  shows "cs_wf cs'"
proof -
  obtain c1 m c2 m' where f: "f (virtual_cells_new cs) = Some (c1, m)"
    "query_table_map_any m c1 = Some (c2, m')" "push_lookup (meta c2) sel m' = Some (cs', i)"
    using assms(1) by (auto simp: batch_lookup_any_def bind_eq_Some_conv)
  have "registers cs (meta c1)" "\<forall>e\<in>table_exprs m. proper (meta c1) e"
    using wb f(1) cells_steps_registers [of "virtual_cells_new cs" c1]
    by (auto simp: well_behaved_def virtual_cells_new_def)
  with query_table_map_any_spec [OF f(2)] push_lookup_wf [OF f(3)] wf cs_wf_registers show ?thesis
    by blast
qed

lemma batched_lookup_wf:
  assumes "batched_lookup cs sel f = Some (cs', i)" and wb: "well_behaved column_table_exprs f"
    and fixed: "\<And>cells cells' m. f cells = Some (cells', m) \<Longrightarrow> \<forall>(ins, c)\<in>set m. column_type c = Any_Fixed"
    and wf: "cs_wf cs"
  shows "cs_wf cs'"
proof -
  obtain c1 m c2 m' where f: "f (virtual_cells_new cs) = Some (c1, m)"
    "query_table_map m c1 = Some (c2, m')" "push_lookup (meta c2) sel m' = Some (cs', i)"
    using assms(1) by (auto simp: batched_lookup_def bind_eq_Some_conv)
  have "registers cs (meta c1)" "\<forall>e\<in>column_table_exprs m. proper (meta c1) e"
    using wb f(1) cells_steps_registers [of "virtual_cells_new cs" c1]
    by (auto simp: well_behaved_def virtual_cells_new_def)
  with query_table_map_spec [OF f(2) _ fixed [OF f(1)]] push_lookup_wf [OF f(3)] wf cs_wf_registers
  show ?thesis by blast
qed


text \<open>The conversion of the selectors.\<close>

lemma expr_ops_indexed:
  "indexed cs a \<Longrightarrow> indexed cs (expr_neg a)"
  "expr_add a b = Some e \<Longrightarrow> indexed cs a \<Longrightarrow> indexed cs b \<Longrightarrow> indexed cs e"
  "expr_mul a b = Some e \<Longrightarrow> indexed cs a \<Longrightarrow> indexed cs b \<Longrightarrow> indexed cs e"
  "indexed cs a \<Longrightarrow> indexed cs (expr_scale a f)"
  by (auto simp: expr_neg_def expr_add_def expr_mul_def expr_scale_def split: if_splits)

lemma expr_ops_proper:
  "proper cs a \<Longrightarrow> proper cs (expr_neg a)"
  "expr_add a b = Some e \<Longrightarrow> proper cs a \<Longrightarrow> proper cs b \<Longrightarrow> proper cs e"
  "expr_mul a b = Some e \<Longrightarrow> proper cs a \<Longrightarrow> proper cs b \<Longrightarrow> proper cs e"
  "proper cs a \<Longrightarrow> proper cs (expr_scale a f)"
  by (auto simp: expr_neg_def expr_add_def expr_mul_def expr_scale_def split: if_splits)

lemma index_opt_set: "index_opt xs i = Some x \<Longrightarrow> x \<in> set xs"
  by (auto simp: index_opt_Some)

lemma replace_selectors_indexed:
  "replace_selectors rs b e = Some e' \<Longrightarrow> \<forall>r\<in>set rs. indexed cs r \<Longrightarrow> indexed cs e \<Longrightarrow> indexed cs e'"
  unfolding replace_selectors_def
  by (induction e arbitrary: e')
    (auto simp: bind_eq_Some_conv expr_ops_indexed(1,4) split: if_splits
      dest!: index_opt_set dest: expr_ops_indexed(2,3))

lemma replace_selectors_proper:
  "replace_selectors rs b e = Some e' \<Longrightarrow> \<forall>r\<in>set rs. proper cs r \<Longrightarrow> proper cs e \<Longrightarrow> proper cs e'"
  unfolding replace_selectors_def
  by (induction e arbitrary: e')
    (auto simp: bind_eq_Some_conv expr_ops_proper(1,4) split: if_splits
      dest!: index_opt_set dest: expr_ops_proper(2,3))

lemma convert_selectors_spec:
  assumes "convert_selectors cs idx sels = Some (cs', ps, es)" and "cs_wf cs"
  shows "cs_wf cs' \<and> cs_extends cs cs' \<and> (\<forall>e\<in>set es. indexed cs' e) \<and>
    gates cs' = gates cs \<and> lookups cs' = lookups cs \<and> trashcans cs' = trashcans cs \<and>
    ps = map (map (\<lambda>b. if b then 1 else 0)) sels \<and>
    map strip es = map (\<lambda>i. Fixed \<lparr>fq_index = None, fq_column_index = i, fq_rotation = 0\<rparr>)
      [num_fixed_columns cs ..< num_fixed_columns cs + length sels]"
  using assms
proof (induction sels arbitrary: cs idx ps es)
  case (Cons sel sels)
  define cs0 where "cs0 = fst (new_fixed_column cs)"
  let ?col = "Column (num_fixed_columns cs) Any_Fixed"
  obtain flag where flag: "index_opt (selector_flags cs0) idx = Some flag"
    using Cons.prems(1) by (auto simp: cs0_def new_fixed_column_def Let_def bind_eq_Some_conv)
  define cs1 where "cs1 = (if flag_simple flag then cs0\<lparr>selector_flags := (selector_flags cs0)
      [idx := \<lparr>flag_simple = True, flag_col_idx = Some (num_fixed_columns cs)\<rparr>]\<rparr> else cs0)"
  obtain cs2 index where q: "query_fixed_index cs1 ?col 0 = (cs2, index)" by fastforce
  obtain ps' es' where rec: "convert_selectors cs2 (Suc idx) sels = Some (cs', ps', es')"
    and ps: "ps = map (\<lambda>b. if b then 1 else 0) sel # ps'"
    and es: "es = Fixed \<lparr>fq_index = Some index, fq_column_index = num_fixed_columns cs, fq_rotation = 0\<rparr> # es'"
    using Cons.prems(1) flag q
    by (auto simp: cs1_def cs0_def new_fixed_column_def Let_def bind_eq_Some_conv split: if_splits)
  have ext1: "cs_extends cs cs1" "gates cs1 = gates cs" "lookups cs1 = lookups cs" "trashcans cs1 = trashcans cs"
    "num_fixed_columns cs1 = Suc (num_fixed_columns cs)"
    by (auto simp: cs1_def cs0_def new_fixed_column_def cs_extends_def)
  have wf1: "cs_wf cs1"
    using Cons.prems(2) by (auto simp: cs1_def cs0_def new_fixed_column_def cs_wf_def cs_core_def)
  note q' = query_fixed_index_spec [OF q]
  have wf2: "cs_wf cs2" using cs_wf_registers [OF q'(1) wf1] .
  note IH = Cons.IH [OF rec wf2]
  have "indexed cs' (Fixed \<lparr>fq_index = Some index, fq_column_index = num_fixed_columns cs, fq_rotation = 0\<rparr> :: 'a expression)"
    using IH q'(2) by (intro indexed_mono [of cs2 cs']) auto
  moreover have "[num_fixed_columns cs ..< num_fixed_columns cs + length (sel # sels)] =
      num_fixed_columns cs # [num_fixed_columns cs2 ..< num_fixed_columns cs2 + length sels]"
    using ext1(5) registers_fields(11) [OF q'(1)] by (simp add: upt_conv_Cons del: upt_Suc)
  moreover have "cs_extends cs cs'"
    using cs_extends_trans [OF ext1(1) cs_extends_trans [OF registers_extends [OF q'(1)]]] IH by blast
  ultimately show ?case
    using IH ps es ext1 registers_fields(1,2,3) [OF q'(1)] by simp
qed simp


lemma replace_gate_indexed:
  assumes "replace_gate rs g = Some g'" "\<forall>r\<in>set rs. indexed cs r" "\<forall>e\<in>set (polys g). indexed cs e"
  shows "\<forall>e\<in>set (polys g'). indexed cs e"
  using assms by (auto simp: replace_gate_def bind_eq_Some_conv dest!: those_map_all
      intro: replace_selectors_indexed)

lemma replace_lookup_indexed:
  assumes "replace_lookup rs l = Some l'" "\<forall>r\<in>set rs. indexed cs r" "\<forall>e\<in>lookup_exprs l. indexed cs e"
  shows "\<forall>e\<in>lookup_exprs l'. indexed cs e"
proof -
  obtain ins tbl sel where
    i: "those (map (\<lambda>input. those (map (replace_selectors rs True) input)) (ba_input_expressions l)) = Some ins"
    and t: "those (map (replace_selectors rs True) (ba_table_expressions l)) = Some tbl"
    and s: "replace_selectors rs True (ba_selector l) = Some sel"
    and l': "l' = \<lparr>ba_selector = sel, ba_input_expressions = ins, ba_table_expressions = tbl\<rparr>"
    using assms(1) by (auto simp: replace_lookup_def bind_eq_Some_conv)
  have "indexed cs e" if xs: "xs \<in> set ins" and e: "e \<in> set xs" for xs e
  proof -
    obtain input where "input \<in> set (ba_input_expressions l)"
      and m: "those (map (replace_selectors rs True) input) = Some xs"
      using those_map_all [OF i xs] by blast
    with those_map_all [OF m e] assms(2,3) show ?thesis
      by (auto simp: lookup_exprs_def intro: replace_selectors_indexed)
  qed
  moreover have "indexed cs e" if "e \<in> set tbl" for e
    using those_map_all [OF t that] assms(2,3) by (auto simp: lookup_exprs_def intro: replace_selectors_indexed)
  moreover have "indexed cs sel"
    using s assms(2,3) by (auto simp: lookup_exprs_def intro: replace_selectors_indexed)
  ultimately show ?thesis by (auto simp: lookup_exprs_def l')
qed

lemma replace_trash_proper:
  assumes "replace_trash rs t = Some t'" "\<forall>r\<in>set rs. proper cs r" "\<forall>e\<in>trash_exprs t. proper cs e"
  shows "\<forall>e\<in>trash_exprs t'. proper cs e"
proof -
  obtain sel es where s: "replace_selectors rs True (ta_selector t) = Some sel"
    and es: "those (map (replace_selectors rs True) (ta_constraint_expressions t)) = Some es"
    and t': "t' = \<lparr>ta_selector = sel, ta_constraint_expressions = es\<rparr>"
    using assms(1) by (auto simp: replace_trash_def bind_eq_Some_conv)
  have "proper cs e" if "e \<in> set es" for e
    using those_map_all [OF es that] assms(2,3) by (auto simp: trash_exprs_def intro: replace_selectors_proper)
  moreover have "proper cs sel"
    using s assms(2,3) by (auto simp: trash_exprs_def intro: replace_selectors_proper)
  ultimately show ?thesis by (simp add: trash_exprs_def t')
qed

lemma replace_selectors_with_fixed_wf:
  assumes "replace_selectors_with_fixed cs rs = Some cs'" "\<forall>r\<in>set rs. indexed cs r" and wf: "cs_wf cs"
  shows "cs_wf cs'"
proof -
  obtain gs ls ts where g: "those (map (replace_gate rs) (gates cs)) = Some gs"
    and l: "those (map (replace_lookup rs) (lookups cs)) = Some ls"
    and t: "those (map (replace_trash rs) (trashcans cs)) = Some ts"
    and cs': "cs' = cs\<lparr>gates := gs, lookups := ls, trashcans := ts\<rparr>"
    using assms(1) by (auto simp: replace_selectors_with_fixed_def bind_eq_Some_conv)
  have all: "\<forall>g\<in>set (gates cs). \<forall>e\<in>set (polys g). indexed cs e"
    "\<forall>l\<in>set (lookups cs). \<forall>e\<in>lookup_exprs l. indexed cs e"
    "\<forall>t\<in>set (trashcans cs). \<forall>e\<in>trash_exprs t. proper cs e"
    using wf by (simp_all add: cs_wf_def cs_core_def)
  have pr: "\<forall>r\<in>set rs. proper cs r" using assms(2) indexed_proper by blast
  have "\<forall>e\<in>set (polys x). indexed cs e" if "x \<in> set gs" for x
    using those_map_all [OF g that] replace_gate_indexed [OF _ assms(2)] all(1) by blast
  moreover have "\<forall>e\<in>lookup_exprs x. indexed cs e" if "x \<in> set ls" for x
    using those_map_all [OF l that] replace_lookup_indexed [OF _ assms(2)] all(2) by blast
  moreover have "\<forall>e\<in>trash_exprs x. proper cs e" if "x \<in> set ts" for x
    using those_map_all [OF t that] replace_trash_proper [OF _ pr] all(3) by blast
  ultimately show ?thesis using wf by (simp add: cs' cs_wf_def cs_core_def)
qed

lemma directly_convert_wf:
  assumes "directly_convert_selectors_to_fixed cs sels = Some (cs', ps)" and wf: "cs_wf cs"
  shows "cs_wf cs'"
proof -
  obtain cs1 rs cs2 where c: "convert_selectors cs 0 sels = Some (cs1, ps, rs)"
    and r: "replace_selectors_with_fixed cs1 rs = Some cs2"
    and cs': "cs' = cs2\<lparr>num_selectors := 0, gates := map (\<lambda>g. g\<lparr>gate_selectors :=
        map (\<lambda>s. s\<lparr>sel_index := sel_index s + num_fixed_columns cs\<rparr>) (gate_selectors g)\<rparr>) (gates cs2)\<rparr>"
    using assms(1) by (auto simp: directly_convert_selectors_to_fixed_def Let_def bind_eq_Some_conv split: if_splits)
  have "cs_wf cs2"
    using convert_selectors_spec [OF c wf] by (intro replace_selectors_with_fixed_wf [OF r]) auto
  then show ?thesis by (auto simp: cs' cs_wf_def cs_core_def)
qed

text \<open>
  The constraint systems a circuit's \<open>configure\<close> and key generation can reach, and the invariant
  by rule induction.
\<close>

inductive configured :: "'f::field constraint_system \<Rightarrow> bool" where
  conf_default: "configured cs_default"
| conf_equality: "configured cs \<Longrightarrow> enable_equality cs c = Some cs' \<Longrightarrow> configured cs'"
| conf_constant: "configured cs \<Longrightarrow> enable_constant cs c = Some cs' \<Longrightarrow> configured cs'"
| conf_selector: "configured cs \<Longrightarrow> configured (fst (cs_selector cs))"
| conf_complex: "configured cs \<Longrightarrow> configured (fst (complex_selector cs))"
| conf_fixed: "configured cs \<Longrightarrow> configured (fst (new_fixed_column cs))"
| conf_instance: "configured cs \<Longrightarrow> configured (fst (new_instance_column cs))"
| conf_advice: "configured cs \<Longrightarrow> advice_column_in cs ph = Some (cs', c) \<Longrightarrow> configured cs'"
| conf_unblinded: "configured cs \<Longrightarrow> unblinded_advice_column_in cs ph = Some (cs', c) \<Longrightarrow> configured cs'"
| conf_challenge: "configured cs \<Longrightarrow> challenge_usable_after cs ph = Some (cs', ch) \<Longrightarrow> configured cs'"
| conf_degree: "configured cs \<Longrightarrow> configured (set_minimum_degree cs d)"
| conf_gate: "configured cs \<Longrightarrow> well_behaved (\<lambda>c. set (con_polys c)) f \<Longrightarrow> create_gate cs f = Some cs' \<Longrightarrow>
    configured cs'"
| conf_lookup: "configured cs \<Longrightarrow> well_behaved column_table_exprs h \<Longrightarrow>
    (\<And>cells cells' m. h cells = Some (cells', m) \<Longrightarrow> \<forall>(ins, c)\<in>set m. column_type c = Any_Fixed) \<Longrightarrow>
    batched_lookup cs sel h = Some (cs', i) \<Longrightarrow> configured cs'"
| conf_lookup_any: "configured cs \<Longrightarrow> well_behaved table_exprs k \<Longrightarrow>
    batch_lookup_any cs sel k = Some (cs', i) \<Longrightarrow> configured cs'"
| conf_convert: "configured cs \<Longrightarrow> directly_convert_selectors_to_fixed cs sels = Some (cs', ps) \<Longrightarrow>
    configured cs'"

lemma configured_wf: "configured cs \<Longrightarrow> cs_wf cs"
proof (induction rule: configured.induct)
  case (conf_lookup cs h sel cs' i)
  show ?case
    by (rule batched_lookup_wf [OF conf_lookup.hyps(4,2,3) conf_lookup.IH])
qed (auto intro: cs_wf_default enable_equality_wf enable_constant_wf alloc_wf advice_column_in_wf
      unblinded_advice_column_in_wf challenge_usable_after_wf create_gate_wf batch_lookup_any_wf
      directly_convert_wf)

section \<open>What replacing the selectors means\<close>

fun has_selector :: "'f expression \<Rightarrow> bool" where
  "has_selector (Selector s) = True"
| "has_selector (Negated a) = has_selector a"
| "has_selector (Sum a b) = (has_selector a \<or> has_selector b)"
| "has_selector (Product a b) = (has_selector a \<or> has_selector b)"
| "has_selector (Scaled a f) = has_selector a"
| "has_selector _ = False"

lemma expr_ops_selector_free:
  "expr_add a b = Some e \<Longrightarrow> \<not> has_selector a \<Longrightarrow> \<not> has_selector b \<Longrightarrow> \<not> has_selector e"
  "expr_mul a b = Some e \<Longrightarrow> \<not> has_selector a \<Longrightarrow> \<not> has_selector b \<Longrightarrow> \<not> has_selector e"
  by (auto simp: expr_add_def expr_mul_def split: if_splits)

lemma replace_selectors_simps:
  "replace_selectors rs b (Constant c) = Some (Constant c)"
  "replace_selectors rs b (Selector s) = (if b \<and> is_simple s then None else index_opt rs (sel_index s))"
  "replace_selectors rs b (Fixed fq) = Some (Fixed fq)"
  "replace_selectors rs b (Advice aq) = Some (Advice aq)"
  "replace_selectors rs b (Instance iq) = Some (Instance iq)"
  "replace_selectors rs b (Challenge ch) = Some (Challenge ch)"
  "replace_selectors rs b (Negated x) = map_option expr_neg (replace_selectors rs b x)"
  "replace_selectors rs b (Sum x y) =
     do { x \<leftarrow> replace_selectors rs b x; y \<leftarrow> replace_selectors rs b y; expr_add x y }"
  "replace_selectors rs b (Product x y) =
     do { x \<leftarrow> replace_selectors rs b x; y \<leftarrow> replace_selectors rs b y; expr_mul x y }"
  "replace_selectors rs b (Scaled x f) = map_option (\<lambda>a. expr_scale a f) (replace_selectors rs b x)"
  by (simp_all add: replace_selectors_def)

lemma replace_selectors_value:
  assumes "\<And>s r. index_opt rs (sel_index s) = Some r \<Longrightarrow> expr_value l r = l_selector l s"
  shows "replace_selectors rs b e = Some e' \<Longrightarrow> expr_value l e' = expr_value l e"
proof (induction e arbitrary: e')
  case (Sum x y)
  then show ?case using expr_add_value by (force simp: replace_selectors_simps bind_eq_Some_conv)
next
  case (Product x y)
  then show ?case using expr_mul_value by (force simp: replace_selectors_simps bind_eq_Some_conv)
qed (auto simp: replace_selectors_simps expr_neg_def expr_scale_def assms split: if_splits)

lemma replace_selectors_selector_free:
  assumes "\<forall>r\<in>set rs. \<not> has_selector r"
  shows "replace_selectors rs b e = Some e' \<Longrightarrow> \<not> has_selector e'"
proof (induction e arbitrary: e')
  case (Sum x y)
  then show ?case
    using expr_ops_selector_free by (force simp: replace_selectors_simps bind_eq_Some_conv)
next
  case (Product x y)
  then show ?case
    using expr_ops_selector_free by (force simp: replace_selectors_simps bind_eq_Some_conv)
next
  case (Selector s)
  then show ?case
    using assms by (auto simp: replace_selectors_simps dest!: index_opt_set split: if_splits)
qed (auto simp: replace_selectors_simps expr_neg_def expr_scale_def)

definition same_value :: "'f::field leaves \<Rightarrow> 'f expression \<Rightarrow> 'f expression \<Rightarrow> bool" where
  "same_value l e e' \<longleftrightarrow> expr_value l e' = expr_value l e \<and> \<not> has_selector e'"

lemma those_map_list_all2: "those (map f xs) = Some ys \<Longrightarrow> list_all2 (\<lambda>x y. f x = Some y) xs ys"
  by (simp add: those_map_Some)

lemma replace_with_fixed_same_value:
  assumes "replace_selectors_with_fixed cs rs = Some cs'"
    and repl: "\<And>b e e'. replace_selectors rs b e = Some e' \<Longrightarrow> same_value l e e'"
  shows "list_all2 (\<lambda>g g'. list_all2 (same_value l) (polys g) (polys g')) (gates cs) (gates cs')
    \<and> list_all2 (\<lambda>x x'. same_value l (ba_selector x) (ba_selector x')
         \<and> list_all2 (list_all2 (same_value l)) (ba_input_expressions x) (ba_input_expressions x')
         \<and> list_all2 (same_value l) (ba_table_expressions x) (ba_table_expressions x'))
       (lookups cs) (lookups cs')
    \<and> list_all2 (\<lambda>t t'. same_value l (ta_selector t) (ta_selector t')
         \<and> list_all2 (same_value l) (ta_constraint_expressions t) (ta_constraint_expressions t'))
       (trashcans cs) (trashcans cs')"
proof -
  obtain gs ls ts where g: "those (map (replace_gate rs) (gates cs)) = Some gs"
    and l: "those (map (replace_lookup rs) (lookups cs)) = Some ls"
    and t: "those (map (replace_trash rs) (trashcans cs)) = Some ts"
    and cs': "cs' = cs\<lparr>gates := gs, lookups := ls, trashcans := ts\<rparr>"
    using assms(1) by (auto simp: replace_selectors_with_fixed_def bind_eq_Some_conv)
  have row: "list_all2 (same_value l) es es'"
    if "those (map (replace_selectors rs b) es) = Some es'" for b es es'
    using those_map_list_all2 [OF that] by (rule list_all2_mono) (rule repl)
  have rows: "list_all2 (list_all2 (same_value l)) ess ess'"
    if "those (map (\<lambda>es. those (map (replace_selectors rs b) es)) ess) = Some ess'" for b ess ess'
    using those_map_list_all2 [OF that] by (rule list_all2_mono) (rule row)
  have "list_all2 (\<lambda>g g'. list_all2 (same_value l) (polys g) (polys g')) (gates cs) gs"
    using those_map_list_all2 [OF g]
    by (rule list_all2_mono) (auto simp: replace_gate_def bind_eq_Some_conv dest: row)
  moreover have "list_all2 (\<lambda>x x'. same_value l (ba_selector x) (ba_selector x')
         \<and> list_all2 (list_all2 (same_value l)) (ba_input_expressions x) (ba_input_expressions x')
         \<and> list_all2 (same_value l) (ba_table_expressions x) (ba_table_expressions x')) (lookups cs) ls"
    using those_map_list_all2 [OF l]
    by (rule list_all2_mono) (auto simp: replace_lookup_def bind_eq_Some_conv dest: row rows repl)
  moreover have "list_all2 (\<lambda>t t'. same_value l (ta_selector t) (ta_selector t')
         \<and> list_all2 (same_value l) (ta_constraint_expressions t) (ta_constraint_expressions t'))
       (trashcans cs) ts"
    using those_map_list_all2 [OF t]
    by (rule list_all2_mono) (auto simp: replace_trash_def bind_eq_Some_conv dest: row repl)
  ultimately show ?thesis by (simp add: cs')
qed

lemma strip_Fixed:
  "strip r = Fixed q \<Longrightarrow>
   \<exists>q'. r = Fixed q' \<and> fq_column_index q' = fq_column_index q \<and> fq_rotation q' = fq_rotation q"
  by (cases r) auto

lemma convert_selectors_replacement:
  assumes "convert_selectors cs 0 sels = Some (cs1, ps, rs)" and "cs_wf cs"
    and "index_opt rs i = Some r"
  shows "i < length sels \<and> (\<exists>q. r = Fixed q \<and> fq_column_index q = num_fixed_columns cs + i \<and> fq_rotation q = 0)"
proof -
  have s: "map strip rs = map (\<lambda>i. Fixed \<lparr>fq_index = None, fq_column_index = i, fq_rotation = 0\<rparr>)
      [num_fixed_columns cs ..< num_fixed_columns cs + length sels]"
    using convert_selectors_spec [OF assms(1,2)] by simp
  then have len: "length rs = length sels" using map_eq_imp_length_eq by fastforce
  have i: "i < length rs" "r = rs ! i" using assms(3) by (auto simp: index_opt_Some)
  then have "strip r = Fixed \<lparr>fq_index = None, fq_column_index = num_fixed_columns cs + i, fq_rotation = 0\<rparr>"
    using arg_cong [OF s, of "\<lambda>xs. xs ! i"] len by simp
  with i len show ?thesis using strip_Fixed by fastforce
qed

section \<open>A small circuit\<close>

text \<open>
  A configuration with one of everything: two advice columns under the permutation, a table column,
  a multiplication gate with a simple selector, a gate with an additive selector and a lookup.
  \<open>demo_cs\<close> is what configuring it gives, \<open>demo_fixed_cs\<close> the same after the selectors were converted.
\<close>

definition demo_col :: "nat \<Rightarrow> column" where
  "demo_col i = Column i (Any_Advice 0)"

definition demo_gate :: "rat virtual_cells \<Rightarrow> (rat virtual_cells \<times> rat constraints) option" where
  "demo_gate cells = Some (cells, \<lparr>con_selector = Multiplicative \<lparr>sel_index = 0, is_simple = True\<rparr>,
     con_polys = [Sum (Product (query_cell (demo_col 0) 0) (query_cell (demo_col 1) 0))
       (Negated (query_cell (demo_col 0) 1))]\<rparr>)"

definition demo_additive_gate :: "rat virtual_cells \<Rightarrow> (rat virtual_cells \<times> rat constraints) option" where
  "demo_additive_gate cells =
     do { (cells, a) \<leftarrow> query_any cells (demo_col 0) 0;
          (cells, b) \<leftarrow> query_any cells (demo_col 1) 0;
          Some (cells, \<lparr>con_selector = Additive \<lparr>sel_index = 1, is_simple = False\<rparr>,
            con_polys = [Sum a (Negated b)]\<rparr>) }"

definition demo_table :: "rat virtual_cells \<Rightarrow> (rat virtual_cells \<times> (rat expression list \<times> column) list) option" where
  "demo_table cells = Some (cells, [([query_cell (demo_col 1) 0, query_cell (demo_col 0) 1], Column 0 Any_Fixed)])"

definition demo_steps :: "rat constraint_system option" where
  "demo_steps =
     do { (cs, a) \<leftarrow> advice_column_in cs_default 0;
          (cs, b) \<leftarrow> advice_column_in cs 0;
          let (cs, f) = new_fixed_column cs;
          let (cs, s) = cs_selector cs;
          let (cs, t) = complex_selector cs;
          cs \<leftarrow> enable_equality cs a;
          cs \<leftarrow> enable_equality cs b;
          cs \<leftarrow> create_gate cs demo_gate;
          cs \<leftarrow> create_gate cs demo_additive_gate;
          (cs, i) \<leftarrow> batched_lookup cs None demo_table;
          Some cs }"

definition demo_advice :: "nat \<Rightarrow> nat \<Rightarrow> int \<Rightarrow> rat expression" where
  "demo_advice i c at_rot = Advice \<lparr>aq_index = Some i, aq_column_index = c, aq_rotation = at_rot, aq_phase = 0\<rparr>"

definition demo_fixed :: "nat \<Rightarrow> rat expression" where
  "demo_fixed c = Fixed \<lparr>fq_index = Some c, fq_column_index = c, fq_rotation = 0\<rparr>"

definition demo_lookup :: "rat batched_argument" where
  "demo_lookup = \<lparr>ba_selector = Constant 1,
     ba_input_expressions = [[demo_advice 1 1 0], [demo_advice 2 0 1]],
     ba_table_expressions = [demo_fixed 0]\<rparr>"

definition demo_cells :: "int list \<Rightarrow> nat list \<Rightarrow> virtual_cell list" where
  "demo_cells rots cols = map2 (\<lambda>r c. \<lparr>vc_column = demo_col c, vc_rotation = r\<rparr>) rots cols"

definition demo_system ::
    "nat \<Rightarrow> nat option \<Rightarrow> rat expression \<Rightarrow> rat expression \<Rightarrow> nat \<Rightarrow> nat \<Rightarrow> rat constraint_system" where
  "demo_system nr_selectors flag q t nr_fixed base =
    \<lparr>num_fixed_columns = nr_fixed, num_advice_columns = 2, num_instance_columns = 0,
     num_selectors = nr_selectors,
     selector_flags = [\<lparr>flag_simple = True, flag_col_idx = flag\<rparr>, \<lparr>flag_simple = False, flag_col_idx = None\<rparr>],
     num_challenges = 0, unblinded_advice_columns = [], advice_column_phase = [0, 0], challenge_phase = [],
     gates = [\<lparr>polys = [Product q (Sum (Product (demo_advice 0 0 0) (demo_advice 1 1 0))
           (Negated (demo_advice 2 0 1)))],
         gate_selectors = [\<lparr>sel_index = base, is_simple = True\<rparr>],
         gate_cells = demo_cells [0, 0, 1] [0, 1, 0]\<rparr>,
       \<lparr>polys = [], gate_selectors = [\<lparr>sel_index = base + 1, is_simple = False\<rparr>],
         gate_cells = demo_cells [0, 0] [0, 1]\<rparr>],
     advice_queries = [(demo_col 0, 0), (demo_col 1, 0), (demo_col 0, 1)],
     num_advice_queries = [2, 1], instance_queries = [],
     fixed_queries = map (\<lambda>i. (Column i Any_Fixed, 0)) [0..<nr_fixed],
     permutation = [demo_col 0, demo_col 1], lookups = [demo_lookup],
     trashcans = [\<lparr>ta_selector = t, ta_constraint_expressions =
       [Sum (demo_advice 0 0 0) (Negated (demo_advice 1 1 0))]\<rparr>],
     constant_columns = [], minimum_degree = None\<rparr>"

definition demo_cs :: "rat constraint_system" where
  "demo_cs = demo_system 2 None (Selector \<lparr>sel_index = 0, is_simple = True\<rparr>)
     (Selector \<lparr>sel_index = 1, is_simple = False\<rparr>) 1 0"

definition demo_fixed_cs :: "rat constraint_system" where
  "demo_fixed_cs = demo_system 0 (Some 1) (demo_fixed 1) (demo_fixed 2) 3 1"

lemmas demo_cs_defs = demo_cs_def demo_fixed_cs_def demo_system_def demo_lookup_def demo_advice_def
  demo_fixed_def demo_cells_def demo_col_def

lemma demo_steps_eq: "demo_steps = Some demo_cs"
  by (simp add: demo_steps_def demo_cs_defs cs_default_def advice_column_in_def new_fixed_column_def
      cs_selector_def complex_selector_def enable_equality_def query_any_index_def query_advice_index_def
      add_column_def create_gate_def virtual_cells_new_def demo_gate_def query_cell_def query_any_def
      query_advice_def demo_additive_gate_def apply_selector_to_constraints_def query_selector_def
      expr_mul_def Let_def push_cell_def batched_lookup_def query_fixed_def query_fixed_index_def
      push_lookup_def batched_argument_new_def index_opt_def demo_table_def upt_rec)

lemma demo_convert: "directly_convert_selectors_to_fixed demo_cs [[True, False], [False, True]] =
    Some (demo_fixed_cs, [[1, 0], [0, 1]])"
  by (simp add: directly_convert_selectors_to_fixed_def demo_cs_defs new_fixed_column_def
      query_fixed_index_def index_opt_def replace_selectors_with_fixed_def replace_gate_def
      replace_lookup_def replace_trash_def replace_selectors_simps expr_neg_def expr_add_def expr_mul_def
      Let_def upt_rec)

lemma query_any_indexed:
  "query_any c1 c at_rot = Some (c2, e) \<Longrightarrow> indexed (meta c2) e"
  by (cases c) (auto simp: query_any_def query_fixed_def query_advice_def query_instance_def push_cell_def
      Let_def bind_eq_Some_conv split: any_column.splits prod.splits
      dest: query_fixed_index_spec query_advice_index_spec query_instance_index_spec)

lemma demo_gate_well_behaved: "well_behaved (\<lambda>c. set (con_polys c)) demo_gate"
  by (auto simp: well_behaved_def demo_gate_def query_cell_def demo_col_def intro: cells_refl)

lemma demo_additive_gate_well_behaved: "well_behaved (\<lambda>c. set (con_polys c)) demo_additive_gate"
  unfolding well_behaved_def
proof (intro allI impI)
  fix cells cells' x
  assume "demo_additive_gate cells = Some (cells', x)"
  then obtain c1 a b where a: "query_any cells (demo_col 0) 0 = Some (c1, a)"
    and b: "query_any c1 (demo_col 1) 0 = Some (cells', b)" and x: "con_polys x = [Sum a (Negated b)]"
    by (auto simp: demo_additive_gate_def bind_eq_Some_conv)
  have "indexed (meta cells') a"
    using query_any_indexed [OF a] registers_extends [OF query_any_registers [OF b]] by (rule indexed_mono [rotated])
  then show "cells_steps cells cells' \<and> (\<forall>e\<in>set (con_polys x). proper (meta cells') e)"
    using cells_any [OF cells_any [OF cells_refl a] b] query_any_indexed [OF b] x by (simp add: indexed_proper)
qed

lemma demo_table_well_behaved: "well_behaved column_table_exprs demo_table"
  by (auto simp: well_behaved_def demo_table_def column_table_exprs_def query_cell_def demo_col_def
      intro: cells_refl)

lemma demo_configured: "configured demo_cs"
proof -
  obtain c1 a c2 b c5 c6 c7 c8 i where 1: "advice_column_in cs_default 0 = Some (c1, a)"
    "advice_column_in c1 0 = Some (c2, b)"
    and 2: "enable_equality (fst (complex_selector (fst (cs_selector (fst (new_fixed_column c2)))))) a = Some c5"
    "enable_equality c5 b = Some c6" "create_gate c6 demo_gate = Some c7"
    and 3: "create_gate c7 demo_additive_gate = Some c8" "batched_lookup c8 None demo_table = Some (demo_cs, i)"
    using demo_steps_eq by (auto simp: demo_steps_def bind_eq_Some_conv Let_def case_prod_beta)
  have "configured c2" using conf_advice [OF conf_advice [OF conf_default 1(1)] 1(2)] .
  then have "configured c6"
    by (intro conf_equality [OF conf_equality [OF conf_complex [OF conf_selector [OF conf_fixed]] 2(1)] 2(2)])
  then have "configured c8"
    by (intro conf_gate [OF conf_gate [OF _ demo_gate_well_behaved 2(3)] demo_additive_gate_well_behaved 3(1)])
  then show ?thesis
    by (rule conf_lookup [OF _ demo_table_well_behaved _ 3(2)]) (auto simp: demo_table_def)
qed

lemma demo_fixed_configured: "configured demo_fixed_cs"
  by (rule conf_convert [OF demo_configured demo_convert])

section \<open>Properties\<close>

text \<open>
  C23: the invariant of configuration. In every constraint system that the configuration interface
  and the conversion of the selectors can reach, the lists of queries have no duplicates, the count
  kept for each advice column is the number of its queries, and the index of every query in every
  gate polynomial and lookup expression points at that query's column and rotation, which is what
  the verifier relies on when it reads \<open>evals[query.index.unwrap()]\<close>.
\<close>

theorem configured_invariant:
  assumes "configured cs"
  shows "distinct (fixed_queries cs) \<and> distinct (advice_queries cs) \<and> distinct (instance_queries cs)
    \<and> num_advice_queries cs = map (\<lambda>i. length (filter (\<lambda>q. col_index (fst q) = i) (advice_queries cs)))
        [0..<num_advice_columns cs]
    \<and> (\<forall>g\<in>set (gates cs). \<forall>e\<in>set (polys g). indexed cs e)
    \<and> (\<forall>l\<in>set (lookups cs). \<forall>e\<in>lookup_exprs l. indexed cs e)"
  using configured_wf [OF assms]
  by (auto simp: cs_wf_def cs_core_def queries_wf_def intro!: nth_equalityI)

theorem configured_invariant_witness:
  "list_all (indexed demo_fixed_cs) (polys (hd (gates demo_fixed_cs)))"
  using configured_invariant [OF demo_fixed_configured] by (simp add: list_all_iff demo_cs_defs)

text \<open>
  The permutation argument never panics on a missing query. Every column under the permutation
  has a registered query at the current row, and \<open>get_any_query_index\<close> returns the index of exactly
  that query; constants are only assigned to columns under the permutation.
\<close>

theorem permutation_columns_queried:
  assumes "configured cs" and "c \<in> set (permutation cs)"
  shows "(\<exists>i. get_any_query_index cs c 0 = Some i \<and> i < length (queries_of cs (column_type c))
      \<and> queries_of cs (column_type c) ! i = (c, 0))
    \<and> distinct (permutation cs) \<and> set (constant_columns cs) \<subseteq> set (permutation cs)"
  using configured_wf [OF assms(1)] get_any_query_index_registered [of cs c 0] assms(2)
  by (auto simp: cs_wf_def cs_core_def points_at_def)

theorem permutation_columns_queried_witness:
  "\<exists>i. get_any_query_index demo_cs (demo_col 1) 0 = Some i \<and> advice_queries demo_cs ! i = (demo_col 1, 0)"
  using permutation_columns_queried [OF demo_configured, of "demo_col 1"]
  by (auto simp: demo_cs_defs queries_of_def)

text \<open>
  \<open>query_cells\<close> indexes an expression and changes nothing else of it: afterwards every query has
  the index of its own column and rotation, the expression is the old one up to those indices,
  earlier indices stay valid, and the rest of the constraint system is untouched.
\<close>

theorem query_cells_correct:
  assumes "query_cells e cells = Some (cells', e')" and "proper (meta cells) e"
  shows "indexed (meta cells') e' \<and> strip e' = strip e \<and> cs_extends (meta cells) (meta cells')
    \<and> without_queries (meta cells') = without_queries (meta cells)
    \<and> (queries_wf (meta cells) \<longrightarrow> queries_wf (meta cells'))"
  using query_cells_spec [OF assms] by (simp add: registers_def)

theorem query_cells_correct_witness:
  "\<exists>cells e. query_cells (Sum (query_cell (demo_col 0) 0) (query_cell (demo_col 1) 5)) (virtual_cells_new demo_cs)
      = Some (cells, e) \<and> indexed (meta cells) e
    \<and> strip e = Sum (query_cell (demo_col 0) 0) (query_cell (demo_col 1) 5)"
proof -
  obtain cells e where q: "query_cells (Sum (query_cell (demo_col 0) 0) (query_cell (demo_col 1) 5))
      (virtual_cells_new demo_cs) = Some (cells, e)"
    by (simp add: query_cell_def demo_cs_defs virtual_cells_new_def query_advice_index_def push_cell_def
        Let_def)
  then show ?thesis
    using query_cells_correct [OF q] by (simp add: query_cell_def demo_col_def)
qed

text \<open>
  C24: turning selectors into fixed columns preserves the circuit. The new columns hold each
  selector's activations as zeros and ones; no expression of the result contains a selector; and
  under every assignment in which the new columns have the values of the selectors, every gate
  polynomial, lookup expression and trash expression has the value it had before.
\<close>

theorem selectors_to_fixed_correct:
  assumes "configured cs" and "directly_convert_selectors_to_fixed cs sels = Some (cs', ps)"
    and "\<And>s q. fq_column_index q = num_fixed_columns cs + sel_index s \<Longrightarrow> fq_rotation q = 0 \<Longrightarrow>
      sel_index s < length sels \<Longrightarrow> l_fixed l q = l_selector l s"
  shows "ps = map (map (\<lambda>b. if b then 1 else 0)) sels
    \<and> list_all2 (\<lambda>g g'. list_all2 (same_value l) (polys g) (polys g')) (gates cs) (gates cs')
    \<and> list_all2 (\<lambda>x x'. same_value l (ba_selector x) (ba_selector x')
         \<and> list_all2 (list_all2 (same_value l)) (ba_input_expressions x) (ba_input_expressions x')
         \<and> list_all2 (same_value l) (ba_table_expressions x) (ba_table_expressions x'))
       (lookups cs) (lookups cs')
    \<and> list_all2 (\<lambda>t t'. same_value l (ta_selector t) (ta_selector t')
         \<and> list_all2 (same_value l) (ta_constraint_expressions t) (ta_constraint_expressions t'))
       (trashcans cs) (trashcans cs')"
proof -
  obtain cs1 rs cs2 where c: "convert_selectors cs 0 sels = Some (cs1, ps, rs)"
    and r: "replace_selectors_with_fixed cs1 rs = Some cs2"
    and cs': "lookups cs' = lookups cs2" "trashcans cs' = trashcans cs2"
      "gates cs' = map (\<lambda>g. g\<lparr>gate_selectors :=
        map (\<lambda>s. s\<lparr>sel_index := sel_index s + num_fixed_columns cs\<rparr>) (gate_selectors g)\<rparr>) (gates cs2)"
    using assms(2) by (auto simp: directly_convert_selectors_to_fixed_def Let_def bind_eq_Some_conv split: if_splits)
  note wf = configured_wf [OF assms(1)]
  note spec = convert_selectors_spec [OF c wf] and repl = convert_selectors_replacement [OF c wf]
  have v: "expr_value l r = l_selector l s" if "index_opt rs (sel_index s) = Some r" for s r
    using repl [OF that] assms(3) by auto
  have free: "\<forall>r\<in>set rs. \<not> has_selector r"
    using repl by (fastforce simp: in_set_conv_nth index_opt_Some)
  have "same_value l e e'" if "replace_selectors rs b e = Some e'" for b e e'
    using replace_selectors_value [OF v that] replace_selectors_selector_free [OF free that]
    by (simp add: same_value_def)
  then show ?thesis
    using replace_with_fixed_same_value [OF r, of l] spec by (simp add: cs' list_all2_map2)
qed

theorem selectors_to_fixed_correct_witness:
  "list_all (\<lambda>p. has_selector p = False) (polys (hd (gates demo_fixed_cs)))"
proof -
  define l :: "rat leaves" where "l = \<lparr>l_selector = (\<lambda>s. of_nat (sel_index s)),
    l_fixed = (\<lambda>q. of_nat (fq_column_index q - 1)), l_advice = (\<lambda>q. 2), l_instance = (\<lambda>q. 3), l_challenge = (\<lambda>q. 4)\<rparr>"
  have "list_all2 (\<lambda>g g'. list_all2 (same_value l) (polys g) (polys g')) (gates demo_cs) (gates demo_fixed_cs)"
    using selectors_to_fixed_correct [OF demo_configured demo_convert, of l]
    by (simp add: l_def demo_cs_defs)
  then show ?thesis by (simp add: demo_cs_defs same_value_def)
qed

lemma set_somes: "x \<in> set (somes xs) \<longleftrightarrow> Some x \<in> set xs"
  by (induction xs rule: somes.induct) auto

text \<open>
  C39: \<open>degree\<close> is large enough for every argument of the constraint system: the gate polynomials,
  the permutation and trash constraints, the requested minimum, and the accumulator constraint
  \<open>(Z(\<omega>X) - Z(X) - s \<cdot> \<Sum>h) \<cdot> (t + \<beta>) + m\<close> of every lookup on the active rows.
\<close>

theorem cs_degree_bounds:
  assumes "cs_degree cs = Some d"
  shows "(\<forall>g\<in>set (gates cs). \<forall>p\<in>set (polys g). degree p \<le> d)
    \<and> permutation_required_degree (permutation cs) \<le> d
    \<and> (\<forall>t\<in>set (trashcans cs). trash_required_degree t \<le> d)
    \<and> (\<forall>m. minimum_degree cs = Some m \<longrightarrow> m \<le> d)
    \<and> (\<forall>l\<in>set (lookups cs). 2 + degree (ba_selector l) + max_degree_or 1 (ba_table_expressions l) \<le> d)"
proof -
  obtain ds where ds: "those (map (\<lambda>l. degree_batched_argument l (degree_without_lookup cs)) (lookups cs)) = Some ds"
    and d: "d = max (degree_without_lookup cs) (if ds = [] then degree_without_lookup cs else Max (set ds))"
    using assms by (auto simp: cs_degree_def bind_eq_Some_conv)
  have base: "x \<le> degree_without_lookup cs"
    if "Some x \<in> set [Some (permutation_required_degree (permutation cs)),
       list_max_opt (map trash_required_degree (trashcans cs)),
       list_max_opt (map degree (concat (map polys (gates cs)))), minimum_degree cs]" for x
    using that unfolding degree_without_lookup_def by (intro Max_ge) (auto simp: set_somes)
  have in_max: "x \<le> degree_without_lookup cs"
    if "x \<in> set xs" "list_max_opt xs \<in> set [Some (permutation_required_degree (permutation cs)),
       list_max_opt (map trash_required_degree (trashcans cs)),
       list_max_opt (map degree (concat (map polys (gates cs)))), minimum_degree cs]" for x xs
  proof -
    have "list_max_opt xs = Some (Max (set xs))" using that(1) by (auto simp: list_max_opt_def)
    then show ?thesis using base that by (metis List.finite_set Max_ge order_trans)
  qed
  have "2 + degree (ba_selector l) + max_degree_or 1 (ba_table_expressions l) \<le> d"
    if lk: "l \<in> set (lookups cs)" for l
  proof -
    obtain x where x: "x \<in> set ds" "degree_batched_argument l (degree_without_lookup cs) = Some x"
      using ds lk unfolding those_map_Some list_all2_conv_all_nth in_set_conv_nth by metis
    then obtain nb where "x = next_power_of_two (max (nb * lookup_degree l + 1)
        (2 + degree (ba_selector l) + max_degree_or 1 (ba_table_expressions l)) - 1) + 1"
      by (auto simp: degree_batched_argument_def bind_eq_Some_conv Let_def)
    then have "2 + degree (ba_selector l) + max_degree_or 1 (ba_table_expressions l) \<le> x"
      using next_power_of_two_ge [of "max (nb * lookup_degree l + 1)
        (2 + degree (ba_selector l) + max_degree_or 1 (ba_table_expressions l)) - 1"] by linarith
    also have "x \<le> d" using x(1) d by (auto simp: le_max_iff_disj)
    finally show ?thesis .
  qed
  then show ?thesis
    using d base in_max [of _ "map degree (concat (map polys (gates cs)))"]
      in_max [of _ "map trash_required_degree (trashcans cs)"]
    by (fastforce simp: le_max_iff_disj)
qed

lemma demo_degree: "cs_degree demo_cs = Some 3"
  by (simp add: cs_degree_def degree_without_lookup_def demo_cs_defs list_max_opt_def
      permutation_required_degree_def trash_required_degree_def max_degree_or_def
      degree_batched_argument_def nb_parallel_lookups_per_chunk_def lookup_degree_def
      next_power_of_two.simps)

theorem cs_degree_bounds_witness:
  "list_all (\<lambda>p. degree p \<le> 3) (polys (hd (gates demo_cs)))"
  using cs_degree_bounds [OF demo_degree] by (simp add: list_all_iff demo_cs_defs)

text \<open>
  C40: the number of blinding factors covers every evaluation the proof reveals: for every advice
  column, the number of rotations it is queried at, one for each trash argument, one for each
  lookup chunk, the opening point of the multi-open argument and the two margins; and never less
  than the three evaluations of a permutation product. The minimum number of rows leaves three
  usable rows beside the blinding factors.
\<close>

theorem blinding_factors_bound:
  assumes "configured cs" and "blinding_factors cs = Some b"
    and "cs_degree cs = Some d" and "those (map (\<lambda>l. ba_num_chunks l d) (lookups cs)) = Some nbs"
  shows "(\<forall>i<num_advice_columns cs. length (filter (\<lambda>q. col_index (fst q) = i) (advice_queries cs))
        + length (trashcans cs) + sum_list nbs + 3 \<le> b)
    \<and> 3 + length (trashcans cs) + sum_list nbs + 3 \<le> b \<and> b < 2 ^ 31
    \<and> minimum_rows cs = Some (b + 3)"
proof -
  have b: "b = max 3 (if num_advice_queries cs = [] then 1 else Max (set (num_advice_queries cs)))
      + length (trashcans cs) + sum_list nbs + 3" "b < 2 ^ 31"
    using assms(2-4) by (auto simp: blinding_factors_def Let_def split: if_splits)
  have "length (filter (\<lambda>q. col_index (fst q) = i) (advice_queries cs)) \<le> Max (set (num_advice_queries cs))
      \<and> num_advice_queries cs \<noteq> []" if "i < num_advice_columns cs" for i
    using configured_wf [OF assms(1)] that
    by (auto simp: cs_wf_def cs_core_def queries_wf_def intro!: Max_ge) (metis nth_mem)
  then show ?thesis using b assms(2) by (fastforce simp: minimum_rows_def max_def)
qed

theorem blinding_factors_bound_witness: "blinding_factors demo_cs = Some 8 \<and> minimum_rows demo_cs = Some 11"
proof -
  have nb: "those (map (\<lambda>l. ba_num_chunks l 3) (lookups demo_cs)) = Some [1]"
    by (simp add: demo_cs_defs ba_num_chunks_def nb_parallel_lookups_per_chunk_def lookup_degree_def
        max_degree_or_def next_power_of_two.simps chunks.simps)
  have b: "blinding_factors demo_cs = Some 8"
    unfolding blinding_factors_def demo_degree using nb by (simp add: demo_cs_defs)
  then show ?thesis using blinding_factors_bound [OF demo_configured b demo_degree nb] by simp
qed

end
