(* ===== verification/Permutation_Assembly.thy ===== *)
theory Permutation_Assembly
  imports Constraint_System
begin

text \<open>
  The copy constraints of a circuit, \<open>plonk/permutation/keygen.rs\<close>: \<open>Assembly\<close> keeps the permutation
  of the cells whose cycles are the sets of cells that must be equal, \<open>copy\<close> merges two cycles, and
  \<open>build_pk\<close> and \<open>build_vk\<close> write the permutation down as field elements \<open>delta ^ i * omega ^ j\<close>.

  Shown here: every sequence of calls of \<open>copy\<close> terminates, keeps a permutation whose cycles are
  exactly the classes of the equivalence relation generated by the copies, and fails only on
  columns outside the permutation and rows out of range.
\<close>

section \<open>The assembly\<close>

type_synonym cell_ref = "nat \<times> nat"

record assembly =
  asm_columns :: "column list"
  asm_mapping :: "cell_ref list list"
  asm_aux :: "cell_ref list list"
  asm_sizes :: "nat list list"

datatype perm_error = ColumnNotInPermutation column | BoundsFailure

definition get2 :: "'a list list \<Rightarrow> cell_ref \<Rightarrow> 'a option" where
  "get2 xs c = do { col \<leftarrow> index_opt xs (fst c); index_opt col (snd c) }"

definition set2 :: "'a list list \<Rightarrow> cell_ref \<Rightarrow> 'a \<Rightarrow> 'a list list option" where
  "set2 xs c v = (case get2 xs c of None \<Rightarrow> None | Some _ \<Rightarrow> Some (xs[fst c := (xs ! fst c)[snd c := v]]))"

definition assembly_new :: "nat \<Rightarrow> column list \<Rightarrow> assembly" where
  "assembly_new n p =
     (let columns = map (\<lambda>i. map (\<lambda>j. (i, j)) [0..<n]) [0..<length p]
      in \<lparr>asm_columns = p, asm_mapping = columns, asm_aux = columns,
          asm_sizes = replicate (length p) (replicate n 1)\<rparr>)"

text \<open>
  The loop over the right cycle. \<open>None\<close> is an index out of range or a loop that does not come back
  to its start.
\<close>

partial_function (option) relabel ::
    "cell_ref list list \<Rightarrow> cell_ref \<Rightarrow> cell_ref \<Rightarrow> cell_ref \<Rightarrow> cell_ref list list \<Rightarrow> cell_ref list list option" where
  "relabel mapping right_cycle left_cycle i aux =
     do { aux \<leftarrow> set2 aux i left_cycle;
          i \<leftarrow> get2 mapping i;
          if i = right_cycle then Some aux else relabel mapping right_cycle left_cycle i aux }"

text \<open>The merge of two different cycles, from the comparison of the sizes on.\<close>

definition merge_cycles :: "assembly \<Rightarrow> cell_ref \<Rightarrow> cell_ref \<Rightarrow> cell_ref \<Rightarrow> cell_ref \<Rightarrow> assembly option" where
  "merge_cycles a left right left_cycle right_cycle =
     do { left_size \<leftarrow> get2 (asm_sizes a) left_cycle;
          right_size \<leftarrow> get2 (asm_sizes a) right_cycle;
          let (left_cycle, right_cycle) =
            (if left_size < right_size then (right_cycle, left_cycle) else (left_cycle, right_cycle));
          left_size \<leftarrow> get2 (asm_sizes a) left_cycle;
          right_size \<leftarrow> get2 (asm_sizes a) right_cycle;
          sizes \<leftarrow> set2 (asm_sizes a) left_cycle (left_size + right_size);
          aux \<leftarrow> relabel (asm_mapping a) right_cycle left_cycle right_cycle (asm_aux a);
          tmp \<leftarrow> get2 (asm_mapping a) left;
          right_next \<leftarrow> get2 (asm_mapping a) right;
          mapping \<leftarrow> set2 (asm_mapping a) left right_next;
          mapping \<leftarrow> set2 mapping right tmp;
          Some (a\<lparr>asm_mapping := mapping, asm_aux := aux, asm_sizes := sizes\<rparr>) }"

definition of_option :: "'a option \<Rightarrow> ('e, 'a) outcome" where
  "of_option x = (case x of None \<Rightarrow> Panic | Some y \<Rightarrow> Ok y)"

definition asm_copy :: "assembly \<Rightarrow> column \<Rightarrow> nat \<Rightarrow> column \<Rightarrow> nat \<Rightarrow> (perm_error, assembly) outcome" where
  "asm_copy a left_column left_row right_column right_row =
     (case position (\<lambda>c. c = left_column) (asm_columns a) of
        None \<Rightarrow> Err (ColumnNotInPermutation left_column)
      | Some left_column \<Rightarrow>
          (case position (\<lambda>c. c = right_column) (asm_columns a) of
             None \<Rightarrow> Err (ColumnNotInPermutation right_column)
           | Some right_column \<Rightarrow>
               bind_outcome (of_option (index_opt (asm_mapping a) left_column)) (\<lambda>left_rows.
               bind_outcome (of_option (index_opt (asm_mapping a) right_column)) (\<lambda>right_rows.
               if length left_rows \<le> left_row \<or> length right_rows \<le> right_row then Err BoundsFailure
               else
                 bind_outcome (of_option (get2 (asm_aux a) (left_column, left_row))) (\<lambda>left_cycle.
                 bind_outcome (of_option (get2 (asm_aux a) (right_column, right_row))) (\<lambda>right_cycle.
                 if left_cycle = right_cycle then Ok a
                 else of_option (merge_cycles a (left_column, left_row) (right_column, right_row)
                        left_cycle right_cycle)))))))"

section \<open>Cycles of a permutation\<close>

definition perm_on :: "'a set \<Rightarrow> ('a \<Rightarrow> 'a) \<Rightarrow> bool" where
  "perm_on S f \<longleftrightarrow> finite S \<and> bij_betw f S S"

definition cycle_rel :: "('a \<Rightarrow> 'a) \<Rightarrow> 'a \<Rightarrow> 'a \<Rightarrow> bool" where
  "cycle_rel f x y \<longleftrightarrow> (\<exists>k. y = (f ^^ k) x)"

lemma perm_on_closed: "perm_on S f \<Longrightarrow> x \<in> S \<Longrightarrow> f x \<in> S"
  by (auto simp: perm_on_def bij_betw_def)

lemma perm_on_funpow: "perm_on S f \<Longrightarrow> x \<in> S \<Longrightarrow> (f ^^ k) x \<in> S"
  by (induction k) (auto intro: perm_on_closed)

lemma perm_on_inj: "perm_on S f \<Longrightarrow> x \<in> S \<Longrightarrow> y \<in> S \<Longrightarrow> f x = f y \<Longrightarrow> x = y"
  by (auto simp: perm_on_def bij_betw_def inj_on_def)

lemma perm_on_funpow_inj:
  "perm_on S f \<Longrightarrow> x \<in> S \<Longrightarrow> y \<in> S \<Longrightarrow> (f ^^ k) x = (f ^^ k) y \<Longrightarrow> x = y"
  by (induction k) (auto dest: perm_on_inj intro: perm_on_funpow)

lemma perm_on_period:
  assumes "perm_on S f" and "x \<in> S"
  shows "\<exists>m>0. (f ^^ m) x = x"
proof -
  have "\<not> inj_on (\<lambda>k. (f ^^ k) x) UNIV"
    using assms perm_on_funpow finite_imageD finite_subset
    by (metis (no_types, lifting) image_subsetI infinite_UNIV_nat perm_on_def)
  then obtain i j where ij: "i < j" "(f ^^ i) x = (f ^^ j) x"
    by (auto simp: inj_on_def) (metis linorder_less_linear)
  then have "(f ^^ i) x = (f ^^ i) ((f ^^ (j - i)) x)"
    by (simp flip: funpow_add [THEN fun_cong, unfolded comp_def])
  then have "x = (f ^^ (j - i)) x"
    using perm_on_funpow_inj [OF assms(1) assms(2) perm_on_funpow [OF assms]] by blast
  then show ?thesis using ij by (intro exI [of _ "j - i"]) simp
qed

lemma cycle_rel_refl: "cycle_rel f x x"
  unfolding cycle_rel_def by (rule exI [of _ 0]) simp

lemma cycle_rel_step: "cycle_rel f x (f x)"
  unfolding cycle_rel_def by (rule exI [of _ 1]) simp

lemma cycle_rel_funpow: "cycle_rel f x ((f ^^ k) x)"
  by (auto simp: cycle_rel_def)

lemma cycle_rel_trans: "cycle_rel f x y \<Longrightarrow> cycle_rel f y z \<Longrightarrow> cycle_rel f x z"
  unfolding cycle_rel_def by (metis comp_apply funpow_add)

lemma cycle_rel_closed: "perm_on S f \<Longrightarrow> x \<in> S \<Longrightarrow> cycle_rel f x y \<Longrightarrow> y \<in> S"
  by (auto simp: cycle_rel_def intro: perm_on_funpow)

lemma funpow_period_mult: "(f ^^ m) x = x \<Longrightarrow> (f ^^ (t * m)) x = x"
  by (induction t) (simp_all add: funpow_add)

lemma cycle_rel_sym:
  assumes "perm_on S f" and "x \<in> S" and "cycle_rel f x y"
  shows "cycle_rel f y x"
proof -
  obtain k where k: "y = (f ^^ k) x" using assms(3) by (auto simp: cycle_rel_def)
  obtain m where m: "0 < m" "(f ^^ m) x = x" using perm_on_period [OF assms(1,2)] by auto
  have "k \<le> k * m" using m(1) by simp
  then have "(f ^^ (k * m - k)) y = x"
    using funpow_period_mult [OF m(2), of k] by (simp add: k flip: funpow_add [THEN fun_cong, unfolded comp_def])
  then show ?thesis by (metis cycle_rel_funpow)
qed

text \<open>The least period: the cycle of \<open>x\<close> is \<open>x, f x, \<dots>\<close> up to it, without \<open>x\<close> in between.\<close>

lemma least_period:
  assumes "perm_on S f" and "x \<in> S"
  obtains m where "0 < m" and "(f ^^ m) x = x" and "\<And>k. 0 < k \<Longrightarrow> k < m \<Longrightarrow> (f ^^ k) x \<noteq> x"
    and "\<And>y. cycle_rel f x y \<longleftrightarrow> (\<exists>k<m. y = (f ^^ k) x)"
proof -
  define m where "m = (LEAST m. 0 < m \<and> (f ^^ m) x = x)"
  have m: "0 < m \<and> (f ^^ m) x = x"
    unfolding m_def by (rule LeastI_ex) (rule perm_on_period [OF assms])
  have least: "(f ^^ k) x \<noteq> x" if "0 < k" "k < m" for k
    using that not_less_Least [of k "\<lambda>m. 0 < m \<and> (f ^^ m) x = x"] by (auto simp: m_def)
  have "cycle_rel f x y \<longleftrightarrow> (\<exists>k<m. y = (f ^^ k) x)" for y
  proof
    assume "cycle_rel f x y"
    then obtain k where "y = (f ^^ k) x" by (auto simp: cycle_rel_def)
    also have "\<dots> = (f ^^ (k mod m + k div m * m)) x" by simp
    also have "\<dots> = (f ^^ (k mod m)) x" using m funpow_period_mult [where f = f and m = m and x = x] by (simp only: funpow_add comp_apply)
    finally show "\<exists>k<m. y = (f ^^ k) x" using m by (metis mod_less_divisor)
  qed (auto intro: cycle_rel_funpow)
  with m least that show thesis by blast
qed

subsection \<open>Merging two cycles\<close>

lemma perm_on_swap:
  assumes "perm_on S f" and "a \<in> S" and "b \<in> S"
  shows "perm_on S (f(a := f b, b := f a))"
proof -
  have fin: "finite S" and inj: "inj_on f S" and im: "f ` S = S" using assms(1) by (auto simp: perm_on_def bij_betw_def)
  have "inj_on (f(a := f b, b := f a)) S"
    using inj assms(2,3) by (auto simp: inj_on_def)
  moreover have "(f(a := f b, b := f a)) ` S \<subseteq> S" using im assms(2,3) by auto
  ultimately show ?thesis
    using fin endo_inj_surj unfolding perm_on_def bij_betw_def by blast
qed

text \<open>
  The cycle of \<open>a\<close> is opened by the swap into the path from \<open>f a\<close> to \<open>a\<close>: the new permutation reaches
  every element of the cycle from \<open>f a\<close>, and \<open>a\<close> from every element.
\<close>

lemma swap_path:
  assumes f: "perm_on S f" and a: "a \<in> S" and b: "\<not> cycle_rel f a b"
    and g: "\<And>x. x \<noteq> a \<Longrightarrow> x \<noteq> b \<Longrightarrow> g x = f x" and x: "cycle_rel f a x"
  shows "cycle_rel g (f a) x" and "cycle_rel g x a"
proof -
  obtain m where m: "0 < m" "(f ^^ m) a = a" "\<And>k. 0 < k \<Longrightarrow> k < m \<Longrightarrow> (f ^^ k) a \<noteq> a"
    and cyc: "\<And>y. cycle_rel f a y \<longleftrightarrow> (\<exists>k<m. y = (f ^^ k) a)"
    using least_period [OF f a] by blast
  have step: "g ((f ^^ k) a) = (f ^^ Suc k) a" if "0 < k" "k < m" for k
    using g [of "(f ^^ k) a"] m(3) [OF that] b cycle_rel_funpow by (metis funpow.simps(2) comp_apply)
  have fwd: "cycle_rel g (f a) ((f ^^ Suc k) a)" if "k < m" for k
    using that
  proof (induction k)
    case (Suc k)
    then show ?case using step [of "Suc k"] cycle_rel_trans cycle_rel_step by (metis Suc_lessD zero_less_Suc)
  qed (simp add: cycle_rel_refl)
  have bwd: "cycle_rel g ((f ^^ (m - k)) a) a" if "k < m" for k
    using that
  proof (induction k)
    case (Suc k)
    then have "g ((f ^^ (m - Suc k)) a) = (f ^^ (m - k)) a" using step [of "m - Suc k"] by (simp add: Suc_diff_Suc)
    then show ?case using Suc cycle_rel_trans cycle_rel_step by (metis Suc_lessD)
  qed (simp add: m(2) cycle_rel_refl)
  obtain k where k: "k < m" "x = (f ^^ k) a" using x cyc by blast
  show "cycle_rel g (f a) x"
  proof (cases k)
    case 0
    then show ?thesis using fwd [of "m - 1"] m k by simp
  next
    case (Suc j)
    then show ?thesis using fwd [of j] k by simp
  qed
  show "cycle_rel g x a"
  proof (cases "k = 0")
    case True
    then show ?thesis using k by (simp add: cycle_rel_refl)
  next
    case False
    then show ?thesis using bwd [of "m - k"] k by simp
  qed
qed

lemma cycle_rel_swap:
  assumes f: "perm_on S f" and ab: "a \<in> S" "b \<in> S" and ne: "\<not> cycle_rel f a b"
    and xy: "x \<in> S" "y \<in> S" and g: "g = f(a := f b, b := f a)"
  shows "cycle_rel g x y \<longleftrightarrow> cycle_rel f x y \<or> cycle_rel f x a \<and> cycle_rel f b y \<or> cycle_rel f x b \<and> cycle_rel f a y"
    (is "_ \<longleftrightarrow> ?E x y")
proof
  have ne': "\<not> cycle_rel f b a" using ne cycle_rel_sym [OF f ab(2)] by blast
  have trans: "?E x z" if "?E x y" "?E y z" "x \<in> S" "y \<in> S" for x y z
    using that cycle_rel_trans cycle_rel_sym [OF f] ab ne ne' by (smt (verit))
  have stp: "?E z (g z)" if "z \<in> S" for z
    using g by (auto simp: cycle_rel_step cycle_rel_refl)
  have "?E x ((g ^^ k) x) \<and> (g ^^ k) x \<in> S" for k
  proof (induction k)
    case (Suc k)
    then show ?case
      using trans [OF _ stp] xy perm_on_closed [OF perm_on_swap [OF f ab]] by (simp add: g)
  qed (simp add: xy cycle_rel_refl)
  then show "cycle_rel g x y \<Longrightarrow> ?E x y" by (auto simp: cycle_rel_def)
  have ga: "cycle_rel g (f a) u \<and> cycle_rel g u a" if "cycle_rel f a u" for u
    using swap_path [OF f ab(1) ne _ that, of g] by (auto simp: g)
  have gb: "cycle_rel g (f b) u \<and> cycle_rel g u b" if "cycle_rel f b u" for u
    using swap_path [OF f ab(2) ne' _ that, of g] by (auto simp: g)
  have jump: "cycle_rel g a (f b)" "cycle_rel g b (f a)"
    using cycle_rel_step [of g a] cycle_rel_step [of g b] ne cycle_rel_refl [of f a]
    by (auto simp: g split: if_splits)
  have loop_ab: "cycle_rel g u v" if "cycle_rel f a u \<or> cycle_rel f b u" "cycle_rel f a v \<or> cycle_rel f b v" for u v
    using that ga gb jump ga [OF cycle_rel_refl] gb [OF cycle_rel_refl] by (meson cycle_rel_trans)
  assume E: "?E x y"
  show "cycle_rel g x y"
  proof (cases "cycle_rel f x a \<or> cycle_rel f x b")
    case True
    then have "cycle_rel f a x \<or> cycle_rel f b x" using cycle_rel_sym [OF f xy(1)] by blast
    moreover from E True have "cycle_rel f a y \<or> cycle_rel f b y"
      using calculation cycle_rel_trans by metis
    ultimately show ?thesis by (rule loop_ab)
  next
    case False
    then have "(g ^^ k) x = (f ^^ k) x" for k
    proof (induction k)
      case (Suc k)
      have "(f ^^ k) x \<noteq> a" "(f ^^ k) x \<noteq> b" using False cycle_rel_funpow by metis+
      with Suc show ?case by (simp add: g)
    qed simp
    moreover have "cycle_rel f x y" using E False by blast
    ultimately show ?thesis by (auto simp: cycle_rel_def)
  qed
qed

section \<open>The equivalence generated by the copies\<close>

definition copied :: "('a \<times> 'a) list \<Rightarrow> ('a \<times> 'a) set" where
  "copied cs = (set cs \<union> (set cs)\<inverse>)\<^sup>*"

lemma copied_refl: "(x, x) \<in> copied cs"
  by (simp add: copied_def)

lemma copied_trans: "(x, y) \<in> copied cs \<Longrightarrow> (y, z) \<in> copied cs \<Longrightarrow> (x, z) \<in> copied cs"
  unfolding copied_def by (rule rtrancl_trans)

lemma copied_sym: "(x, y) \<in> copied cs \<Longrightarrow> (y, x) \<in> copied cs"
  unfolding copied_def by (meson sym_Un_converse sym_def sym_rtrancl)

lemma copied_insert:
  "(x, y) \<in> copied ((a, b) # cs) \<longleftrightarrow> (x, y) \<in> copied cs \<or>
     (x, a) \<in> copied cs \<and> (b, y) \<in> copied cs \<or> (x, b) \<in> copied cs \<and> (a, y) \<in> copied cs"
    (is "_ \<longleftrightarrow> ?E x y")
proof
  assume "(x, y) \<in> copied ((a, b) # cs)"
  then show "?E x y"
    unfolding copied_def [of "(a, b) # cs"]
  proof (induction rule: rtrancl_induct)
    case base
    then show ?case by (simp add: copied_refl)
  next
    case (step y z)
    then consider "(y, z) \<in> copied cs" | "(y, z) = (a, b)" | "(y, z) = (b, a)"
      by (auto simp: copied_def)
    then show ?case
    proof cases
      case 1
      then show ?thesis using step.IH by (blast intro: copied_trans)
    next
      case 2
      then show ?thesis using step.IH by (blast intro: copied_trans copied_sym copied_refl)
    next
      case 3
      then show ?thesis using step.IH by (blast intro: copied_trans copied_sym copied_refl)
    qed
  qed
next
  have sub: "copied cs \<subseteq> copied ((a, b) # cs)" unfolding copied_def by (rule rtrancl_mono) auto
  have "(a, b) \<in> copied ((a, b) # cs)" by (auto simp: copied_def)
  then have ab: "(a, b) \<in> copied ((a, b) # cs)" "(b, a) \<in> copied ((a, b) # cs)" using copied_sym by auto
  assume "?E x y"
  then show "(x, y) \<in> copied ((a, b) # cs)"
    using sub ab by (elim disjE conjE) (blast intro: copied_trans)+
qed

section \<open>Grids\<close>

definition grid :: "nat \<Rightarrow> nat \<Rightarrow> 'a list list \<Rightarrow> bool" where
  "grid m n xs \<longleftrightarrow> length xs = m \<and> (\<forall>col\<in>set xs. length col = n)"

definition refs :: "nat \<Rightarrow> nat \<Rightarrow> cell_ref set" where
  "refs m n = {0..<m} \<times> {0..<n}"

definition at2 :: "'a list list \<Rightarrow> cell_ref \<Rightarrow> 'a" where
  "at2 xs c = xs ! fst c ! snd c"

lemma finite_refs [simp]: "finite (refs m n)"
  by (simp add: refs_def)

lemma get2_grid: "grid m n xs \<Longrightarrow> c \<in> refs m n \<Longrightarrow> get2 xs c = Some (at2 xs c)"
  by (auto simp: get2_def grid_def refs_def index_opt_def at2_def)

lemma set2_grid:
  assumes "grid m n xs" and "c \<in> refs m n"
  obtains ys where "set2 xs c v = Some ys" and "grid m n ys"
    and "\<And>d. d \<in> refs m n \<Longrightarrow> at2 ys d = (if d = c then v else at2 xs d)"
proof
  show "set2 xs c v = Some (xs[fst c := (xs ! fst c)[snd c := v]])"
    by (simp add: set2_def get2_grid [OF assms])
  show "grid m n (xs[fst c := (xs ! fst c)[snd c := v]])"
    using assms by (auto simp: grid_def refs_def dest!: set_update_subset_insert [THEN subsetD])
  show "at2 (xs[fst c := (xs ! fst c)[snd c := v]]) d = (if d = c then v else at2 xs d)" if "d \<in> refs m n" for d
    using assms that by (auto simp: at2_def grid_def refs_def nth_list_update prod_eq_iff)
qed

section \<open>The loop over a cycle\<close>

lemma relabel_path:
  assumes f: "perm_on (refs m n) (at2 mapping)" and r: "r \<in> refs m n" and map: "grid m n mapping"
    and per: "0 < p" "(at2 mapping ^^ p) r = r" "\<And>k. 0 < k \<Longrightarrow> k < p \<Longrightarrow> (at2 mapping ^^ k) r \<noteq> r"
  shows "k < p \<Longrightarrow> grid m n aux \<Longrightarrow> \<exists>aux'. relabel mapping r l ((at2 mapping ^^ k) r) aux = Some aux' \<and> grid m n aux' \<and>
    (\<forall>d\<in>refs m n. at2 aux' d = (if \<exists>j. k \<le> j \<and> j < p \<and> d = (at2 mapping ^^ j) r then l else at2 aux d))"
proof (induction "p - k" arbitrary: k aux)
  case (Suc q)
  let ?i = "(at2 mapping ^^ k) r"
  have i: "?i \<in> refs m n" by (rule perm_on_funpow [OF f r])
  obtain aux1 where aux1: "set2 aux ?i l = Some aux1" "grid m n aux1"
    "\<And>d. d \<in> refs m n \<Longrightarrow> at2 aux1 d = (if d = ?i then l else at2 aux d)"
    using set2_grid [OF Suc.prems(2) i] by blast
  have step: "relabel mapping r l ?i aux = (if (at2 mapping ^^ Suc k) r = r then Some aux1
      else relabel mapping r l ((at2 mapping ^^ Suc k) r) aux1)"
    by (subst relabel.simps) (simp add: aux1(1) get2_grid [OF map i])
  show ?case
  proof (cases "Suc k = p")
    case True
    then have "(\<exists>j. k \<le> j \<and> j < p \<and> d = (at2 mapping ^^ j) r) \<longleftrightarrow> d = ?i" for d
      by (auto simp: less_Suc_eq_le dest: le_antisym)
    then show ?thesis using step per(2) True aux1 by simp
  next
    case False
    with Suc.prems(1) have less: "Suc k < p" by simp
    have q: "q = p - Suc k" using Suc.hyps(2) by simp
    then obtain aux' where aux': "relabel mapping r l ((at2 mapping ^^ Suc k) r) aux1 = Some aux'" "grid m n aux'"
      "\<forall>d\<in>refs m n. at2 aux' d = (if \<exists>j. Suc k \<le> j \<and> j < p \<and> d = (at2 mapping ^^ j) r then l else at2 aux1 d)"
      using Suc.hyps(1) [OF q less aux1(2)] by blast
    have ex: "(\<exists>j. k \<le> j \<and> j < p \<and> d = (at2 mapping ^^ j) r) \<longleftrightarrow>
        d = ?i \<or> (\<exists>j. Suc k \<le> j \<and> j < p \<and> d = (at2 mapping ^^ j) r)" for d
      using Suc.prems(1) by (metis Suc_leD Suc_le_eq le_neq_implies_less order_refl)
    have "at2 aux' d = (if \<exists>j. k \<le> j \<and> j < p \<and> d = (at2 mapping ^^ j) r then l else at2 aux d)"
      if "d \<in> refs m n" for d
      unfolding ex bspec [OF aux'(3) that] aux1(3) [OF that] by auto
    then show ?thesis using step per(3) [OF _ less] aux' by auto
  qed
qed simp

lemma relabel_cycle:
  assumes f: "perm_on (refs m n) (at2 mapping)" and r: "r \<in> refs m n"
    and map: "grid m n mapping" and aux: "grid m n aux"
  obtains aux' where "relabel mapping r l r aux = Some aux'" and "grid m n aux'"
    and "\<And>d. d \<in> refs m n \<Longrightarrow> at2 aux' d = (if cycle_rel (at2 mapping) r d then l else at2 aux d)"
proof -
  obtain p where p: "0 < p" "(at2 mapping ^^ p) r = r" "\<And>k. 0 < k \<Longrightarrow> k < p \<Longrightarrow> (at2 mapping ^^ k) r \<noteq> r"
    and cyc: "\<And>y. cycle_rel (at2 mapping) r y \<longleftrightarrow> (\<exists>k<p. y = (at2 mapping ^^ k) r)"
    using least_period [OF f r] by blast
  from relabel_path [OF f r map p p(1) aux, of l] show thesis
    using that cyc by auto
qed

section \<open>The invariant\<close>

text \<open>
  \<open>aux\<close> labels every element with a distinguished element of its cycle, the same one for the whole
  cycle, and the size kept at the distinguished element is the length of the cycle.
\<close>

definition cycles_inv :: "'a set \<Rightarrow> ('a \<Rightarrow> 'a) \<Rightarrow> ('a \<Rightarrow> 'a) \<Rightarrow> ('a \<Rightarrow> nat) \<Rightarrow> bool" where
  "cycles_inv S f aux sz \<longleftrightarrow> perm_on S f \<and>
     (\<forall>x\<in>S. aux x \<in> S \<and> cycle_rel f x (aux x)) \<and>
     (\<forall>x\<in>S. \<forall>y\<in>S. aux x = aux y \<longleftrightarrow> cycle_rel f x y) \<and>
     (\<forall>x\<in>S. sz (aux x) = card {y \<in> S. cycle_rel f x y})"

lemma funpow_cong_on:
  "perm_on S f \<Longrightarrow> (\<And>z. z \<in> S \<Longrightarrow> g z = f z) \<Longrightarrow> x \<in> S \<Longrightarrow> (g ^^ k) x = (f ^^ k) x"
  by (induction k) (simp_all add: perm_on_funpow)

lemma cycle_rel_cong:
  "perm_on S f \<Longrightarrow> (\<And>z. z \<in> S \<Longrightarrow> g z = f z) \<Longrightarrow> x \<in> S \<Longrightarrow> cycle_rel g x y = cycle_rel f x y"
  by (simp add: cycle_rel_def funpow_cong_on [of S f g])

lemma perm_on_cong: "perm_on S f \<Longrightarrow> (\<And>z. z \<in> S \<Longrightarrow> g z = f z) \<Longrightarrow> perm_on S g"
  using bij_betw_cong [of S g f S] by (simp add: perm_on_def)

lemma cycles_inv_merge:
  assumes inv: "cycles_inv S f aux sz" and AB: "A \<in> S" "B \<in> S" "aux A \<noteq> aux B"
    and f': "\<And>z. z \<in> S \<Longrightarrow> f' z = (f(A := f B, B := f A)) z"
    and aux': "\<And>z. z \<in> S \<Longrightarrow> aux' z = (if cycle_rel f (aux B) z then aux A else aux z)"
    and sz': "\<And>z. z \<in> S \<Longrightarrow> sz' z = (if z = aux A then sz (aux A) + sz (aux B) else sz z)"
  shows "cycles_inv S f' aux' sz'"
    and "\<And>x y. x \<in> S \<Longrightarrow> y \<in> S \<Longrightarrow> cycle_rel f' x y \<longleftrightarrow>
      cycle_rel f x y \<or> cycle_rel f x A \<and> cycle_rel f B y \<or> cycle_rel f x B \<and> cycle_rel f A y"
proof -
  have f: "perm_on S f" and lab: "\<And>x. x \<in> S \<Longrightarrow> aux x \<in> S" "\<And>x. x \<in> S \<Longrightarrow> cycle_rel f x (aux x)"
    and same: "\<And>x y. x \<in> S \<Longrightarrow> y \<in> S \<Longrightarrow> cycle_rel f x y \<longleftrightarrow> aux x = aux y"
    and size: "\<And>x. x \<in> S \<Longrightarrow> sz (aux x) = card {y \<in> S. cycle_rel f x y}"
    using inv unfolding cycles_inv_def by blast+
  have sz: "sz (aux x) = card {y \<in> S. aux x = aux y}" if "x \<in> S" for x
  proof -
    have "{y \<in> S. cycle_rel f x y} = {y \<in> S. aux x = aux y}" using same [OF that] by blast
    then show ?thesis by (simp only: size [OF that])
  qed
  have idem: "aux (aux x) = aux x" if "x \<in> S" for x
    using same [OF that lab(1) [OF that]] lab(2) [OF that] by simp
  have ne: "\<not> cycle_rel f A B" using same [OF AB(1,2)] AB(3) by simp
  let ?f = "f(A := f B, B := f A)"
  have p: "perm_on S ?f" by (rule perm_on_swap [OF f AB(1,2)])
  show rel: "cycle_rel f' x y \<longleftrightarrow> cycle_rel f x y \<or> cycle_rel f x A \<and> cycle_rel f B y \<or> cycle_rel f x B \<and> cycle_rel f A y"
    if "x \<in> S" "y \<in> S" for x y
  proof -
    have "cycle_rel f' x y = cycle_rel ?f x y" by (rule cycle_rel_cong [OF p _ that(1)]) (rule f')
    then show ?thesis by (simp only: cycle_rel_swap [OF f AB(1,2) ne that refl])
  qed
  have rel': "cycle_rel f' x y \<longleftrightarrow> aux x = aux y \<or> aux x = aux A \<and> aux B = aux y \<or> aux x = aux B \<and> aux A = aux y"
    if "x \<in> S" "y \<in> S" for x y
    using rel [OF that] same that AB by metis
  have aux'': "aux' z = (if aux z = aux B then aux A else aux z)" if "z \<in> S" for z
    using aux' [OF that] same [OF lab(1) that] idem that AB by metis
  have fin: "finite S" using f by (simp add: perm_on_def)
  have "sz' (aux' x) = card {y \<in> S. cycle_rel f' x y}" if x: "x \<in> S" for x
  proof (cases "aux x = aux A \<or> aux x = aux B")
    case True
    then have "{y \<in> S. cycle_rel f' x y} = {y \<in> S. aux A = aux y} \<union> {y \<in> S. aux B = aux y}"
      using rel' [OF x] AB by auto
    moreover have "{y \<in> S. aux A = aux y} \<inter> {y \<in> S. aux B = aux y} = {}" using AB(3) by auto
    moreover have "aux' x = aux A" using True aux'' [OF x] by auto
    ultimately show ?thesis
      using fin sz' [OF lab(1) [OF AB(1)]] sz AB by (simp add: card_Un_disjoint)
  next
    case False
    then have "{y \<in> S. cycle_rel f' x y} = {y \<in> S. aux x = aux y}" using rel' [OF x] by auto
    then show ?thesis using False aux'' [OF x] sz' [OF lab(1) [OF x]] sz [OF x] by simp
  qed
  moreover have "aux' x \<in> S \<and> cycle_rel f' x (aux' x)" if "x \<in> S" for x
    using aux'' [OF that] rel' [OF that] lab(1) idem that AB by auto
  moreover have "aux' x = aux' y \<longleftrightarrow> cycle_rel f' x y" if "x \<in> S" "y \<in> S" for x y
    using aux'' [OF that(1)] aux'' [OF that(2)] rel' [OF that] AB by auto
  moreover have "perm_on S f'" by (rule perm_on_cong [OF p f'])
  ultimately show "cycles_inv S f' aux' sz'" by (simp add: cycles_inv_def)
qed

definition asm_inv :: "nat \<Rightarrow> nat \<Rightarrow> assembly \<Rightarrow> (cell_ref \<times> cell_ref) list \<Rightarrow> bool" where
  "asm_inv m n a cs \<longleftrightarrow> length (asm_columns a) = m \<and>
     grid m n (asm_mapping a) \<and> grid m n (asm_aux a) \<and> grid m n (asm_sizes a) \<and>
     cycles_inv (refs m n) (at2 (asm_mapping a)) (at2 (asm_aux a)) (at2 (asm_sizes a)) \<and>
     (\<forall>x\<in>refs m n. \<forall>y\<in>refs m n. cycle_rel (at2 (asm_mapping a)) x y \<longleftrightarrow> (x, y) \<in> copied cs)"

lemma asm_inv_new: "asm_inv (length p) n (assembly_new n p) []"
proof -
  have id: "at2 (asm_mapping (assembly_new n p)) x = x" "at2 (asm_aux (assembly_new n p)) x = x"
    "at2 (asm_sizes (assembly_new n p)) x = 1" if "x \<in> refs (length p) n" for x
    using that by (auto simp: assembly_new_def Let_def at2_def refs_def)
  have perm: "perm_on (refs (length p) n) id" by (simp add: perm_on_def)
  have rel: "cycle_rel (at2 (asm_mapping (assembly_new n p))) x y \<longleftrightarrow> x = y" if "x \<in> refs (length p) n" for x y
  proof -
    have "cycle_rel (at2 (asm_mapping (assembly_new n p))) x y \<longleftrightarrow> cycle_rel id x y"
      using id by (intro cycle_rel_cong [OF perm _ that]) simp
    then show ?thesis by (auto simp: cycle_rel_def)
  qed
  have "card {y \<in> refs (length p) n. x = y} = 1" if "x \<in> refs (length p) n" for x
  proof -
    have "{y \<in> refs (length p) n. x = y} = {x}" using that by auto
    then show ?thesis by simp
  qed
  then have "cycles_inv (refs (length p) n) (at2 (asm_mapping (assembly_new n p)))
      (at2 (asm_aux (assembly_new n p))) (at2 (asm_sizes (assembly_new n p)))"
    unfolding cycles_inv_def using id rel perm_on_cong [OF perm] by simp
  moreover have "grid (length p) n (asm_mapping (assembly_new n p))" "grid (length p) n (asm_aux (assembly_new n p))"
    "grid (length p) n (asm_sizes (assembly_new n p))" "asm_columns (assembly_new n p) = p"
    by (auto simp: assembly_new_def Let_def grid_def)
  ultimately show ?thesis using rel by (auto simp: asm_inv_def copied_def)
qed

lemma merge_cycles_inv:
  assumes inv: "asm_inv m n a cs" and lr: "left \<in> refs m n" "right \<in> refs m n"
    and ne: "at2 (asm_aux a) left \<noteq> at2 (asm_aux a) right"
  obtains a' where "merge_cycles a left right (at2 (asm_aux a) left) (at2 (asm_aux a) right) = Some a'"
    and "asm_inv m n a' ((left, right) # cs)" and "asm_columns a' = asm_columns a"
proof -
  let ?f = "at2 (asm_mapping a)" and ?aux = "at2 (asm_aux a)" and ?sz = "at2 (asm_sizes a)"
  have g: "grid m n (asm_mapping a)" "grid m n (asm_aux a)" "grid m n (asm_sizes a)"
    and cyc: "cycles_inv (refs m n) ?f ?aux ?sz"
    and cop: "\<And>x y. x \<in> refs m n \<Longrightarrow> y \<in> refs m n \<Longrightarrow> cycle_rel ?f x y \<longleftrightarrow> (x, y) \<in> copied cs"
    using inv by (auto simp: asm_inv_def)
  have f: "perm_on (refs m n) ?f" and lab: "\<And>x. x \<in> refs m n \<Longrightarrow> ?aux x \<in> refs m n"
    using cyc by (auto simp: cycles_inv_def)
  define A B where "A = (if ?sz (?aux left) < ?sz (?aux right) then right else left)"
    and "B = (if ?sz (?aux left) < ?sz (?aux right) then left else right)"
  have AB: "A \<in> refs m n" "B \<in> refs m n" "?aux A \<noteq> ?aux B"
    and swap: "(A, B) = (left, right) \<or> (A, B) = (right, left)"
    using lr ne by (auto simp: A_def B_def)
  obtain sizes where sizes: "set2 (asm_sizes a) (?aux A) (?sz (?aux A) + ?sz (?aux B)) = Some sizes"
    "grid m n sizes" "\<And>d. d \<in> refs m n \<Longrightarrow> at2 sizes d = (if d = ?aux A then ?sz (?aux A) + ?sz (?aux B) else ?sz d)"
    using set2_grid [OF g(3) lab [OF AB(1)]] by blast
  obtain aux where aux: "relabel (asm_mapping a) (?aux B) (?aux A) (?aux B) (asm_aux a) = Some aux" "grid m n aux"
    "\<And>d. d \<in> refs m n \<Longrightarrow> at2 aux d = (if cycle_rel ?f (?aux B) d then ?aux A else ?aux d)"
    using relabel_cycle [OF f lab [OF AB(2)] g(1,2)] by blast
  obtain m1 where m1: "set2 (asm_mapping a) left (?f right) = Some m1" "grid m n m1"
    "\<And>d. d \<in> refs m n \<Longrightarrow> at2 m1 d = (if d = left then ?f right else ?f d)"
    using set2_grid [OF g(1) lr(1)] by blast
  obtain m2 where m2: "set2 m1 right (?f left) = Some m2" "grid m n m2"
    "\<And>d. d \<in> refs m n \<Longrightarrow> at2 m2 d = (if d = right then ?f left else at2 m1 d)"
    using set2_grid [OF m1(2) lr(2)] by blast
  have f': "at2 m2 z = (?f(A := ?f B, B := ?f A)) z" if "z \<in> refs m n" for z
    using swap m1(3) [OF that] m2(3) [OF that] ne by auto
  let ?a = "a\<lparr>asm_mapping := m2, asm_aux := aux, asm_sizes := sizes\<rparr>"
  have gets: "get2 (asm_sizes a) (?aux left) = Some (?sz (?aux left))" "get2 (asm_sizes a) (?aux right) = Some (?sz (?aux right))"
    "get2 (asm_mapping a) left = Some (?f left)" "get2 (asm_mapping a) right = Some (?f right)"
    using get2_grid [OF g(3)] get2_grid [OF g(1)] lab lr by auto
  have "merge_cycles a left right (?aux left) (?aux right) = Some ?a"
    unfolding merge_cycles_def using sizes(1) aux(1) m1(1) m2(1)
    by (cases "?sz (?aux left) < ?sz (?aux right)") (simp_all add: gets A_def B_def)
  moreover have "asm_inv m n ?a ((left, right) # cs)"
  proof -
    have "cycle_rel (at2 m2) x y \<longleftrightarrow> (x, y) \<in> copied ((left, right) # cs)"
      if xy: "x \<in> refs m n" "y \<in> refs m n" for x y
    proof -
      have "cycle_rel (at2 m2) x y \<longleftrightarrow> cycle_rel ?f x y \<or> cycle_rel ?f x A \<and> cycle_rel ?f B y
          \<or> cycle_rel ?f x B \<and> cycle_rel ?f A y"
        by (rule cycles_inv_merge(2) [OF cyc AB f' aux(3) sizes(3) xy])
      then show ?thesis
        using swap unfolding copied_insert by (auto simp only: cop xy lr prod.inject)
    qed
    moreover have "cycles_inv (refs m n) (at2 m2) (at2 aux) (at2 sizes)"
      by (rule cycles_inv_merge(1) [OF cyc AB f' aux(3) sizes(3)])
    ultimately show ?thesis using inv sizes(2) aux(2) m2(2) by (simp add: asm_inv_def)
  qed
  ultimately show thesis using that by simp
qed

lemma asm_copy_inv:
  assumes inv: "asm_inv m n a cs" and l: "position (\<lambda>c. c = lc) (asm_columns a) = Some i" and r: "position (\<lambda>c. c = rc) (asm_columns a) = Some j"
    and rows: "lr < n" "rr < n"
  obtains a' where "asm_copy a lc lr rc rr = Ok a'" and "asm_inv m n a' (((i, lr), (j, rr)) # cs)"
    and "asm_columns a' = asm_columns a"
proof -
  have g: "grid m n (asm_mapping a)" "grid m n (asm_aux a)" and len: "length (asm_columns a) = m"
    and cyc: "cycles_inv (refs m n) (at2 (asm_mapping a)) (at2 (asm_aux a)) (at2 (asm_sizes a))"
    and cop: "\<And>x y. x \<in> refs m n \<Longrightarrow> y \<in> refs m n \<Longrightarrow> cycle_rel (at2 (asm_mapping a)) x y \<longleftrightarrow> (x, y) \<in> copied cs"
    using inv by (auto simp: asm_inv_def)
  have ij: "i < m" "j < m" using position_lt [OF l] position_lt [OF r] len by auto
  then have in_refs: "(i, lr) \<in> refs m n" "(j, rr) \<in> refs m n" using rows by (auto simp: refs_def)
  have rows_len: "index_opt (asm_mapping a) i = Some (asm_mapping a ! i)" "length (asm_mapping a ! i) = n"
    "index_opt (asm_mapping a) j = Some (asm_mapping a ! j)" "length (asm_mapping a ! j) = n"
    using g(1) ij by (auto simp: grid_def index_opt_def)
  have run: "asm_copy a lc lr rc rr = (if at2 (asm_aux a) (i, lr) = at2 (asm_aux a) (j, rr) then Ok a
      else of_option (merge_cycles a (i, lr) (j, rr) (at2 (asm_aux a) (i, lr)) (at2 (asm_aux a) (j, rr))))"
    using rows get2_grid [OF g(2)] in_refs by (simp add: asm_copy_def l r rows_len of_option_def)
  show thesis
  proof (cases "at2 (asm_aux a) (i, lr) = at2 (asm_aux a) (j, rr)")
    case True
    then have "((i, lr), (j, rr)) \<in> copied cs" using cyc cop in_refs by (auto simp: cycles_inv_def)
    then have "(x, y) \<in> copied (((i, lr), (j, rr)) # cs) \<longleftrightarrow> (x, y) \<in> copied cs" for x y
      unfolding copied_insert by (meson copied_trans copied_sym)
    then have "asm_inv m n a (((i, lr), (j, rr)) # cs)" using inv by (simp add: asm_inv_def)
    then show thesis using that True run by simp
  next
    case False
    then show thesis
      using merge_cycles_inv [OF inv in_refs] that run by (metis of_option_def option.simps(5))
  qed
qed

section \<open>Reachable assemblies\<close>

text \<open>The assemblies that a synthesis reaches, with the copies (as positions in the permutation) made so far.\<close>

inductive assembled :: "nat \<Rightarrow> column list \<Rightarrow> assembly \<Rightarrow> (cell_ref \<times> cell_ref) list \<Rightarrow> bool" for n p where
  assembled_new: "assembled n p (assembly_new n p) []"
| assembled_copy: "assembled n p a cs \<Longrightarrow> asm_copy a lc lr rc rr = Ok a' \<Longrightarrow>
    position (\<lambda>c. c = lc) p = Some i \<Longrightarrow> position (\<lambda>c. c = rc) p = Some j \<Longrightarrow>
    assembled n p a' (((i, lr), (j, rr)) # cs)"

lemma asm_copy_Ok_rows:
  assumes "asm_inv m n a cs" "asm_copy a lc lr rc rr = Ok a'"
  shows "lr < n" and "rr < n"
  using assms
  by (auto simp: asm_copy_def asm_inv_def grid_def of_option_def index_opt_def outcome_simps
      split: option.splits if_splits dest!: position_lt)

lemma assembled_inv: "assembled n p a cs \<Longrightarrow> asm_inv (length p) n a cs \<and> asm_columns a = p"
proof (induction rule: assembled.induct)
  case assembled_new
  then show ?case using asm_inv_new by (simp add: assembly_new_def Let_def)
next
  case (assembled_copy a cs lc lr rc rr a' i j)
  then show ?case
    using asm_copy_inv [of "length p" n a cs lc i rc j lr rr] asm_copy_Ok_rows
    by (metis outcome.inject(1))
qed

section \<open>The permutation as field elements\<close>

text \<open>
  \<open>build_pk\<close> and \<open>build_vk\<close> compute the same three vectors with \<open>parallelize\<close>: the powers of \<open>omega\<close>,
  those times the powers of \<open>delta\<close> for every column, and the permuted labels. \<open>mapping\<close> is the closure
  over the assembly; a panic is \<open>None\<close>. The conversion of the result to coefficient and coset form
  (FFTs) and its commitment are not part of the model.
\<close>

fun powers_loop :: "'f::field \<Rightarrow> 'f \<Rightarrow> 'a list \<Rightarrow> 'f list" where
  "powers_loop omega cur [] = []"
| "powers_loop omega cur (v # vs) = cur # powers_loop omega (cur * omega) vs"

fun scale_loop :: "'f::field \<Rightarrow> 'f \<Rightarrow> 'f list list \<Rightarrow> 'f list list" where
  "scale_loop delta cur [] = []"
| "scale_loop delta cur (o_powers # rest) = map (\<lambda>v. v * cur) o_powers # scale_loop delta (cur * delta) rest"

definition omega_powers :: "nat \<Rightarrow> nat \<Rightarrow> 'f::field \<Rightarrow> 'f list option" where
  "omega_powers num_threads n omega =
     parallelize num_threads (replicate n 0) (\<lambda>chunk start. powers_loop omega (omega ^ start) chunk)"

definition deltaomega :: "nat \<Rightarrow> nat \<Rightarrow> nat \<Rightarrow> 'f::field \<Rightarrow> 'f \<Rightarrow> 'f list list option" where
  "deltaomega num_threads m n omega delta =
     do { ps \<leftarrow> omega_powers num_threads n omega;
          parallelize num_threads (replicate m ps) (\<lambda>chunk start. scale_loop delta (delta ^ start) chunk) }"

definition permutation_column ::
    "'f list list \<Rightarrow> (nat \<Rightarrow> nat \<Rightarrow> cell_ref option) \<Rightarrow> nat \<Rightarrow> 'f list \<Rightarrow> 'f list option" where
  "permutation_column dw mapping i poly =
     those (imap 0 (\<lambda>j _. do { c \<leftarrow> mapping i j; get2 dw c }) poly)"

definition build_permutations ::
    "nat \<Rightarrow> nat \<Rightarrow> 'f::field \<Rightarrow> 'f \<Rightarrow> column list \<Rightarrow> (nat \<Rightarrow> nat \<Rightarrow> cell_ref option) \<Rightarrow> 'f list list option" where
  "build_permutations num_threads n omega delta p mapping =
     do { dw \<leftarrow> deltaomega num_threads (length p) n omega delta;
          rows \<leftarrow> parallelize num_threads (map Some (replicate (length p) (replicate n 0)))
            (\<lambda>chunk start. imap start (\<lambda>i poly. Option.bind poly (permutation_column dw mapping i)) chunk);
          those rows }"

definition asm_build :: "nat \<Rightarrow> nat \<Rightarrow> 'f::field \<Rightarrow> 'f \<Rightarrow> assembly \<Rightarrow> column list \<Rightarrow> 'f list list option" where
  "asm_build num_threads n omega delta a p =
     build_permutations num_threads n omega delta p (\<lambda>i j. get2 (asm_mapping a) (i, j))"

lemma powers_loop_imap: "powers_loop omega (omega ^ off) xs = imap off (\<lambda>i _. omega ^ i) xs"
proof (induction xs arbitrary: off)
  case (Cons x xs)
  then show ?case using Cons.IH [of "Suc off"] by (simp add: mult.commute)
qed simp

lemma scale_loop_imap: "scale_loop delta (delta ^ off) xs = imap off (\<lambda>i. map (\<lambda>v. v * delta ^ i)) xs"
proof (induction xs arbitrary: off)
  case (Cons x xs)
  then show ?case using Cons.IH [of "Suc off"] by (simp add: mult.commute)
qed simp

lemma imap_replicate: "imap off g (replicate n x) = map (\<lambda>i. g i x) [off..<off + n]"
  by (intro nth_equalityI) (simp_all add: nth_imap)

lemma deltaomega_eq:
  assumes "0 < t"
  shows "deltaomega t m n omega delta = Some (map (\<lambda>i. map (\<lambda>j. omega ^ j * delta ^ i) [0..<n]) [0..<m])"
proof -
  have "omega_powers t n omega = Some (map (\<lambda>j. omega ^ j) [0..<n])"
    unfolding omega_powers_def parallelize_pointwise [OF assms powers_loop_imap] by (simp add: imap_replicate)
  then show ?thesis
    unfolding deltaomega_def
    by (simp add: parallelize_pointwise [OF assms scale_loop_imap] imap_replicate comp_def)
qed

lemma build_permutations_eq:
  assumes t: "0 < t" and map: "\<And>i j. i < length p \<Longrightarrow> j < n \<Longrightarrow> \<exists>c\<in>refs (length p) n. mapping i j = Some c"
  shows "build_permutations t n omega delta p mapping =
    Some (map (\<lambda>i. map (\<lambda>j. omega ^ snd (the (mapping i j)) * delta ^ fst (the (mapping i j))) [0..<n]) [0..<length p])"
proof -
  let ?dw = "map (\<lambda>i. map (\<lambda>j. omega ^ j * delta ^ i) [0..<n]) [0..<length p]"
  have "permutation_column ?dw mapping i (replicate n 0) =
      Some (map (\<lambda>j. omega ^ snd (the (mapping i j)) * delta ^ fst (the (mapping i j))) [0..<n])"
    if i: "i < length p" for i
  proof -
    have "do { c \<leftarrow> mapping i j; get2 ?dw c } = Some (omega ^ snd (the (mapping i j)) * delta ^ fst (the (mapping i j)))"
      if "j < n" for j
      using map [OF i that] by (auto simp: get2_def refs_def index_opt_def)
    then have "map (\<lambda>j. do { c \<leftarrow> mapping i j; get2 ?dw c }) [0..<n] =
        map (\<lambda>j. Some (omega ^ snd (the (mapping i j)) * delta ^ fst (the (mapping i j)))) [0..<n]"
      by (intro map_cong refl) simp
    then show ?thesis
      unfolding permutation_column_def imap_replicate by (simp only: add_0 those_map_SomeI)
  qed
  then have "imap 0 (\<lambda>i poly. Option.bind poly (permutation_column ?dw mapping i)) (replicate (length p) (Some (replicate n 0)))
      = map (\<lambda>i. Some (map (\<lambda>j. omega ^ snd (the (mapping i j)) * delta ^ fst (the (mapping i j))) [0..<n])) [0..<length p]"
    unfolding imap_replicate by (intro map_cong) simp_all
  then show ?thesis
    unfolding build_permutations_def deltaomega_eq [OF t]
    by (simp add: parallelize_pointwise [OF t refl] map_replicate those_map_SomeI)
qed

lemma assembled_mapping:
  assumes "assembled n p a cs" and "x \<in> refs (length p) n"
  shows "get2 (asm_mapping a) x = Some (at2 (asm_mapping a) x)" and "at2 (asm_mapping a) x \<in> refs (length p) n"
proof -
  have inv: "asm_inv (length p) n a cs" using assembled_inv [OF assms(1)] by blast
  then show "get2 (asm_mapping a) x = Some (at2 (asm_mapping a) x)"
    by (intro get2_grid [OF _ assms(2)]) (simp add: asm_inv_def)
  show "at2 (asm_mapping a) x \<in> refs (length p) n"
    using inv perm_on_closed [OF _ assms(2)] by (simp add: asm_inv_def cycles_inv_def)
qed

lemma asm_build_eq:
  assumes "0 < t" and asm: "assembled n p a cs"
  shows "asm_build t n omega delta a p = Some (map (\<lambda>i. map (\<lambda>j.
      omega ^ snd (at2 (asm_mapping a) (i, j)) * delta ^ fst (at2 (asm_mapping a) (i, j))) [0..<n]) [0..<length p])"
proof -
  have map: "get2 (asm_mapping a) (i, j) = Some (at2 (asm_mapping a) (i, j)) \<and> at2 (asm_mapping a) (i, j) \<in> refs (length p) n"
    if "i < length p" "j < n" for i j
    using assembled_mapping [OF asm, of "(i, j)"] that by (simp add: refs_def)
  show ?thesis
    unfolding asm_build_def
    by (subst build_permutations_eq [OF assms(1)])
      (use map in \<open>auto intro!: map_cong\<close>)
qed

lemma copied_same_value:
  assumes "(x, y) \<in> copied cs" and "\<And>a b. (a, b) \<in> set cs \<Longrightarrow> v a = v b"
  shows "v x = v y"
  using assms(1) unfolding copied_def
proof (induction rule: rtrancl_induct)
  case (step y z)
  then show ?case using assms(2) by (metis Un_iff converseD)
qed simp

section \<open>Properties\<close>

text \<open>
  C27: the assembly keeps exactly the copy constraints. After any sequence of successful copies the
  mapping is a permutation of the cells, and two cells lie on the same cycle of it if and only if
  they are related by the equivalence generated by the copies. The label of a cell lies on its
  cycle, and its size is the number of cells on the cycle.
\<close>

theorem copy_constraints_are_cycles:
  assumes "assembled n p a cs" and "x \<in> refs (length p) n" and "y \<in> refs (length p) n"
  shows "bij_betw (at2 (asm_mapping a)) (refs (length p) n) (refs (length p) n)
    \<and> ((\<exists>k. (at2 (asm_mapping a) ^^ k) x = y) \<longleftrightarrow> (x, y) \<in> copied cs)
    \<and> (at2 (asm_aux a) x = at2 (asm_aux a) y \<longleftrightarrow> (x, y) \<in> copied cs)
    \<and> (x, at2 (asm_aux a) x) \<in> copied cs
    \<and> at2 (asm_sizes a) (at2 (asm_aux a) x) = card {z \<in> refs (length p) n. (x, z) \<in> copied cs}"
proof -
  have inv: "asm_inv (length p) n a cs" using assembled_inv [OF assms(1)] by blast
  then have cyc: "cycles_inv (refs (length p) n) (at2 (asm_mapping a)) (at2 (asm_aux a)) (at2 (asm_sizes a))"
    and rel: "\<And>z. z \<in> refs (length p) n \<Longrightarrow> cycle_rel (at2 (asm_mapping a)) x z \<longleftrightarrow> (x, z) \<in> copied cs"
    using assms(2) by (simp_all add: asm_inv_def)
  have "{z \<in> refs (length p) n. (x, z) \<in> copied cs} = {z \<in> refs (length p) n. cycle_rel (at2 (asm_mapping a)) x z}"
    using rel by blast
  moreover have "(\<exists>k. (at2 (asm_mapping a) ^^ k) x = y) \<longleftrightarrow> cycle_rel (at2 (asm_mapping a)) x y"
    unfolding cycle_rel_def by metis
  moreover have "(x, at2 (asm_aux a) x) \<in> copied cs"
    using cyc rel [of "at2 (asm_aux a) x"] assms(2) by (simp add: cycles_inv_def)
  ultimately show ?thesis
    using cyc rel assms(2,3) by (simp add: cycles_inv_def perm_on_def)
qed

lemma demo_assembled:
  "\<exists>a. assembled 3 [demo_col 0, demo_col 1] a [((1, 2), (0, 0)), ((0, 0), (1, 1))]"
proof -
  let ?p = "[demo_col 0, demo_col 1]"
  have pos: "position (\<lambda>c. c = demo_col 0) ?p = Some 0" "position (\<lambda>c. c = demo_col 1) ?p = Some 1"
    by (simp_all add: demo_col_def)
  have new: "asm_inv 2 3 (assembly_new 3 ?p) []" "asm_columns (assembly_new 3 ?p) = ?p"
    using asm_inv_new [of ?p 3] by (simp_all add: numeral_2_eq_2 assembly_new_def Let_def)
  obtain a where a: "asm_copy (assembly_new 3 ?p) (demo_col 0) 0 (demo_col 1) 1 = Ok a"
    using asm_copy_inv [OF new(1), of "demo_col 0" 0 "demo_col 1" 1 0 1] pos new(2) by auto
  note asm = assembled_copy [OF assembled_new a pos]
  obtain b where b: "asm_copy a (demo_col 1) 2 (demo_col 0) 0 = Ok b"
    using asm_copy_inv [of 2 3 a _ "demo_col 1" 1 "demo_col 0" 0 2 0] assembled_inv [OF asm] pos
    by (auto simp: numeral_2_eq_2)
  show ?thesis using assembled_copy [OF asm b pos(2,1)] by blast
qed

theorem copy_constraints_are_cycles_witness:
  "\<exists>a k. assembled 3 [demo_col 0, demo_col 1] a [((1, 2), (0, 0)), ((0, 0), (1, 1))]
     \<and> (at2 (asm_mapping a) ^^ k) (1, 1) = (1, 2)"
proof -
  obtain a where a: "assembled 3 [demo_col 0, demo_col 1] a [((1, 2), (0, 0)), ((0, 0), (1, 1))]"
    using demo_assembled by blast
  have "((1, 1), (1, 2)) \<in> copied [((1 :: nat, 2 :: nat), (0, 0)), ((0, 0), (1, 1))]"
    unfolding copied_insert by (simp add: copied_def)
  then show ?thesis
    using a copy_constraints_are_cycles [OF a, of "(1, 1)" "(1, 2)"] unfolding refs_def One_nat_def by auto
qed

text \<open>
  C34: \<open>copy\<close> is total on reachable assemblies: it reports the first column that is not under the
  permutation, then a row out of range, and otherwise succeeds; it never panics, and the loop that
  relabels a cycle terminates.
\<close>

theorem asm_copy_total:
  assumes "assembled n p a cs"
  shows "(lc \<notin> set p \<longrightarrow> asm_copy a lc lr rc rr = Err (ColumnNotInPermutation lc))
    \<and> (lc \<in> set p \<and> rc \<notin> set p \<longrightarrow> asm_copy a lc lr rc rr = Err (ColumnNotInPermutation rc))
    \<and> (lc \<in> set p \<and> rc \<in> set p \<and> (n \<le> lr \<or> n \<le> rr) \<longrightarrow> asm_copy a lc lr rc rr = Err BoundsFailure)
    \<and> (lc \<in> set p \<and> rc \<in> set p \<and> lr < n \<and> rr < n \<longrightarrow> (\<exists>a'. asm_copy a lc lr rc rr = Ok a'))"
proof -
  have inv: "asm_inv (length p) n a cs" "asm_columns a = p" using assembled_inv [OF assms] by auto
  have pos: "\<exists>i<length p. position (\<lambda>c. c = d) p = Some i" if "d \<in> set p" for d
    using that position_None_iff [of "\<lambda>c. c = d" p] position_lt [of "\<lambda>c. c = d" p]
    by (cases "position (\<lambda>c. c = d) p") auto
  have none: "position (\<lambda>c. c = d) p = None" if "d \<notin> set p" for d
    using that by (auto simp: position_None_iff)
  have rows: "index_opt (asm_mapping a) i = Some (asm_mapping a ! i) \<and> length (asm_mapping a ! i) = n" if "i < length p" for i
    using inv(1) that by (auto simp: asm_inv_def grid_def index_opt_def)
  show ?thesis
  proof (intro conjI impI)
    assume "lc \<in> set p \<and> rc \<in> set p \<and> lr < n \<and> rr < n"
    then show "\<exists>a'. asm_copy a lc lr rc rr = Ok a'"
      using pos asm_copy_inv [OF inv(1)] inv(2) by metis
  next
    assume "lc \<in> set p \<and> rc \<in> set p \<and> (n \<le> lr \<or> n \<le> rr)"
    then obtain i j where "i < length p" "j < length p" "position (\<lambda>c. c = lc) p = Some i"
      "position (\<lambda>c. c = rc) p = Some j" "n \<le> lr \<or> n \<le> rr" using pos by blast
    then show "asm_copy a lc lr rc rr = Err BoundsFailure"
      using rows [of i] rows [of j] by (simp add: asm_copy_def inv(2) of_option_def)
  next
    assume "lc \<in> set p \<and> rc \<notin> set p"
    then show "asm_copy a lc lr rc rr = Err (ColumnNotInPermutation rc)"
      using pos [of lc] none [of rc] by (auto simp: asm_copy_def inv(2))
  qed (use none in \<open>simp add: asm_copy_def inv(2)\<close>)
qed

theorem asm_copy_total_witness:
  "asm_copy (assembly_new 3 [demo_col 0]) (demo_col 0) 0 (demo_col 1) 0 = Err (ColumnNotInPermutation (demo_col 1))
   \<and> asm_copy (assembly_new 3 [demo_col 0]) (demo_col 0) 3 (demo_col 0) 0 = Err BoundsFailure"
  using asm_copy_total [OF assembled_new [of 3 "[demo_col 0]"], of "demo_col 0" 0 "demo_col 1" 0]
    asm_copy_total [OF assembled_new [of 3 "[demo_col 0]"], of "demo_col 0" 3 "demo_col 0" 0]
  by (simp add: demo_col_def)

text \<open>
  C32: the permutation polynomials. For every number of threads, \<open>build_pk\<close> and \<open>build_vk\<close> give cell
  \<open>(i, j)\<close> the label \<open>delta ^ i' * omega ^ j'\<close> of the next cell \<open>(i', j')\<close> on its cycle; therefore any
  assignment that respects the copies has equal grand products over the identity labels and over
  the permuted labels, for all challenges \<open>beta\<close> and \<open>gamma\<close>.
\<close>

theorem permutation_labels_correct:
  fixes omega delta beta gamma :: "'f::field"
  assumes "0 < num_threads" and "assembled n p a cs" and "\<And>x y. (x, y) \<in> set cs \<Longrightarrow> v x = v y"
  shows "\<exists>labels. asm_build num_threads n omega delta a p = Some labels \<and> grid (length p) n labels
    \<and> (\<forall>i<length p. \<forall>j<n. \<exists>i' j'. get2 (asm_mapping a) (i, j) = Some (i', j') \<and> i' < length p \<and> j' < n
        \<and> ((i, j), (i', j')) \<in> copied cs \<and> labels ! i ! j = delta ^ i' * omega ^ j')
    \<and> (\<Prod>x\<in>refs (length p) n. v x + beta * at2 labels x + gamma)
      = (\<Prod>x\<in>refs (length p) n. v x + beta * (omega ^ snd x * delta ^ fst x) + gamma)"
proof -
  let ?S = "refs (length p) n" and ?f = "at2 (asm_mapping a)"
  let ?labels = "map (\<lambda>i. map (\<lambda>j. omega ^ snd (?f (i, j)) * delta ^ fst (?f (i, j))) [0..<n]) [0..<length p]"
  have inv: "asm_inv (length p) n a cs" using assembled_inv [OF assms(2)] by blast
  then have perm: "perm_on ?S ?f" and bij: "bij_betw ?f ?S ?S"
    by (simp_all add: asm_inv_def cycles_inv_def perm_on_def)
  have rel: "(x, ?f x) \<in> copied cs" if "x \<in> ?S" for x
    using inv that perm_on_closed [OF perm that] cycle_rel_step [of ?f x] by (simp add: asm_inv_def)
  have val: "v (?f x) = v x" if "x \<in> ?S" for x
    by (rule copied_same_value [OF rel [OF that] assms(3), symmetric])
  have "(\<Prod>x\<in>?S. v x + beta * at2 ?labels x + gamma)
      = (\<Prod>x\<in>?S. v (?f x) + beta * (omega ^ snd (?f x) * delta ^ fst (?f x)) + gamma)"
    using val by (intro prod.cong refl) (auto simp: at2_def refs_def)
  also have "\<dots> = (\<Prod>x\<in>?S. v x + beta * (omega ^ snd x * delta ^ fst x) + gamma)"
    by (rule prod.reindex_bij_betw [OF bij, of "\<lambda>x. v x + beta * (omega ^ snd x * delta ^ fst x) + gamma"])
  finally have prod: "(\<Prod>x\<in>?S. v x + beta * at2 ?labels x + gamma) =
      (\<Prod>x\<in>?S. v x + beta * (omega ^ snd x * delta ^ fst x) + gamma)" .
  have "\<exists>i' j'. get2 (asm_mapping a) (i, j) = Some (i', j') \<and> i' < length p \<and> j' < n
      \<and> ((i, j), (i', j')) \<in> copied cs \<and> ?labels ! i ! j = delta ^ i' * omega ^ j'" if "i < length p" "j < n" for i j
  proof -
    have x: "(i, j) \<in> ?S" using that by (simp add: refs_def)
    have "grid (length p) n (asm_mapping a)" using inv by (simp add: asm_inv_def)
    then have "get2 (asm_mapping a) (i, j) = Some (?f (i, j))" using that by (auto simp: grid_def get2_def at2_def index_opt_def)
    moreover have "?f (i, j) \<in> ?S" using perm_on_closed [OF perm x] .
    ultimately show ?thesis using rel [OF x] that
      by (intro exI [of _ "fst (?f (i, j))"] exI [of _ "snd (?f (i, j))"]) (auto simp: refs_def mult.commute)
  qed
  then show ?thesis using prod
    by (intro exI [of _ ?labels] conjI asm_build_eq [OF assms(1,2)]) (auto simp: grid_def)
qed

theorem permutation_labels_correct_witness:
  "\<exists>a labels. asm_build 4 3 2 (3 :: rat) a [demo_col 0, demo_col 1] = Some labels
    \<and> (\<Prod>x\<in>refs 2 3. (if x = (0, 2) then 8 else 7) + 10 * at2 labels x + 20)
      = (\<Prod>x\<in>refs 2 3. (if x = (0, 2) then 8 else 7) + 10 * (2 ^ snd x * 3 ^ fst x) + 20)"
proof -
  obtain a where "assembled 3 [demo_col 0, demo_col 1] a [((1, 2), (0, 0)), ((0, 0), (1, 1))]"
    using demo_assembled by blast
  from permutation_labels_correct [OF _ this, of 4 "\<lambda>x. if x = (0, 2) then 8 else 7 :: rat" 2 3 10 20]
  have "\<exists>labels. asm_build 4 3 2 3 a [demo_col 0, demo_col 1] = Some labels
    \<and> (\<Prod>x\<in>refs 2 3. (if x = (0, 2) then 8 else 7 :: rat) + 10 * at2 labels x + 20)
      = (\<Prod>x\<in>refs 2 3. (if x = (0, 2) then 8 else 7) + 10 * (2 ^ snd x * 3 ^ fst x) + 20)"
    by (fastforce simp: numeral_2_eq_2)
  then show ?thesis by blast
qed

end
