(* ===== verification/Vanishing.thy ===== *)
theory Vanishing
  imports Constraint_System
begin

text \<open>
  The two sides of the vanishing argument. The prover evaluates the numerator of the quotient
  polynomial row by row (\<open>Evaluator::evaluate_numerator\<close>, \<open>plonk/evaluation.rs\<close>); the verifier
  evaluates the identities of the circuit at one point (\<open>partially_evaluate_identities\<close>,
  \<open>plonk/mod.rs\<close>, with \<open>expressions\<close> of \<open>plonk/permutation.rs\<close>, \<open>plonk/logup.rs\<close> and
  \<open>plonk/trash.rs\<close>). The theorems show that they agree: on a row, the prover's value is the
  combination, with powers of \<open>y\<close>, of the verifier's identities evaluated on that row.

  The polynomials that \<open>coeff_to_self\<close> turns into values over the evaluation domain are given by
  those values. \<open>None\<close> is a panic.
\<close>

section \<open>The verifier's identities\<close>

record 'f query_evals =
  fixed_evals :: "'f list"
  advice_evals :: "'f list"
  instance_evals :: "'f list"
  challenge_evals :: "'f list"

definition verifier_closures :: "'f::field query_evals \<Rightarrow> ('f, 'f option) closures" where
  "verifier_closures ev =
     \<lparr>constant_of = Some,
      selector_column = (\<lambda>_. None),
      fixed_column = (\<lambda>q. do { i \<leftarrow> fq_index q; index_opt (fixed_evals ev) i }),
      advice_column = (\<lambda>q. do { i \<leftarrow> aq_index q; index_opt (advice_evals ev) i }),
      instance_column = (\<lambda>q. do { i \<leftarrow> iq_index q; index_opt (instance_evals ev) i }),
      challenge_value = (\<lambda>c. index_opt (challenge_evals ev) (ch_index c)),
      negated = map_option uminus,
      sum_of = bind2 (+),
      product_of = bind2 (*),
      scaled_by = (\<lambda>a scalar. map_option (\<lambda>v. v * scalar) a)\<rparr>"

definition verifier_value :: "'f::field query_evals \<Rightarrow> 'f expression \<Rightarrow> 'f option" where
  "verifier_value ev = expr_evaluate (verifier_closures ev)"

record 'f perm_evaluated =
  permutation_product_eval :: 'f
  permutation_product_next_eval :: 'f
  permutation_product_last_eval :: "'f option"

definition column_eval :: "'f constraint_system \<Rightarrow> 'f query_evals \<Rightarrow> column \<Rightarrow> 'f option" where
  "column_eval cs ev c =
     do { i \<leftarrow> get_any_query_index cs c 0;
          index_opt (case column_type c of Any_Advice _ \<Rightarrow> advice_evals ev | Any_Fixed \<Rightarrow> fixed_evals ev
            | Any_Instance \<Rightarrow> instance_evals ev) i }"

text \<open>The two products of a permutation set; \<open>col\<close> gives the value of a column.\<close>

fun left_loop ::
    "(column \<Rightarrow> 'f option) \<Rightarrow> 'f::field \<Rightarrow> 'f \<Rightarrow> 'f \<Rightarrow> (column \<times> 'f option) list \<Rightarrow> 'f option" where
  "left_loop col beta gamma left [] = Some left"
| "left_loop col beta gamma left ((c, perm) # rest) =
     do { v \<leftarrow> col c; p \<leftarrow> perm; left_loop col beta gamma (left * (v + beta * p + gamma)) rest }"

fun right_loop ::
    "(column \<Rightarrow> 'f option) \<Rightarrow> 'f::field \<Rightarrow> 'f \<Rightarrow> 'f \<Rightarrow> 'f \<Rightarrow> column list \<Rightarrow> ('f \<times> 'f) option" where
  "right_loop col delta gamma right current_delta [] = Some (right, current_delta)"
| "right_loop col delta gamma right current_delta (c # rest) =
     do { v \<leftarrow> col c;
          right_loop col delta gamma (right * (v + current_delta + gamma)) (current_delta * delta) rest }"

record 'f lagrange_evals =
  l_0 :: 'f
  l_last :: 'f
  l_blind :: 'f

definition perm_set_expression ::
    "(column \<Rightarrow> 'f option) \<Rightarrow> 'f::field \<Rightarrow> 'f \<Rightarrow> 'f \<Rightarrow> 'f \<Rightarrow> 'f lagrange_evals \<Rightarrow> nat \<Rightarrow> nat \<Rightarrow>
     'f perm_evaluated \<times> column list \<times> 'f list \<Rightarrow> 'f option" where
  "perm_set_expression col delta beta gamma x l chunk_len chunk_index s =
     (case s of (pset, columns, permutation_evals) \<Rightarrow>
        do { left \<leftarrow> left_loop col beta gamma (permutation_product_next_eval pset)
               (zip columns (map Some permutation_evals));
             (right, _) \<leftarrow> right_loop col delta gamma (permutation_product_eval pset)
               ((beta * x) * delta ^ (chunk_index * chunk_len)) columns;
             Some ((left - right) * (1 - (l_last l + l_blind l))) })"

definition permutation_expressions ::
    "'f::field constraint_system \<Rightarrow> nat \<Rightarrow> 'f query_evals \<Rightarrow> 'f \<Rightarrow> 'f \<Rightarrow> 'f \<Rightarrow> 'f \<Rightarrow> 'f lagrange_evals \<Rightarrow>
     'f perm_evaluated list \<Rightarrow> 'f list \<Rightarrow> 'f list option" where
  "permutation_expressions cs cs_deg ev delta beta gamma x l sets permutation_evals =
     (if cs_deg \<le> 2 then None
      else let chunk_len = cs_deg - 2;
               firsts = (case sets of [] \<Rightarrow> [] | s # _ \<Rightarrow> [l_0 l * (1 - permutation_product_eval s)]);
               lasts = (if sets = [] then [] else
                 [(permutation_product_eval (last sets) * permutation_product_eval (last sets)
                   - permutation_product_eval (last sets)) * l_last l])
           in do { links \<leftarrow> those (map (\<lambda>(s, last_set).
                       map_option (\<lambda>prev_last. (permutation_product_eval s - prev_last) * l_0 l)
                         (permutation_product_last_eval last_set)) (zip (drop 1 sets) sets));
                   products \<leftarrow> those (imap 0 (perm_set_expression (column_eval cs ev) delta beta gamma x l chunk_len)
                       (zip sets (zip (chunks chunk_len (permutation cs)) (chunks chunk_len permutation_evals))));
                   Some (firsts @ lasts @ links @ products) })"

record 'f lookup_evaluated =
  multiplicities_eval :: 'f
  helper_evals :: "'f list"
  accumulator_eval :: 'f
  accumulator_next_eval :: 'f

definition compress_expressions :: "'f::field query_evals \<Rightarrow> 'f \<Rightarrow> 'f expression list \<Rightarrow> 'f option" where
  "compress_expressions ev theta es =
     do { vs \<leftarrow> those (map (verifier_value ev) es); Some (foldl (\<lambda>acc e. acc * theta + e) 0 vs) }"

text \<open>\<open>invert().unwrap()\<close> panics when a compressed input plus \<open>beta\<close> is zero.\<close>

definition helper_constraint ::
    "'f::field query_evals \<Rightarrow> 'f \<Rightarrow> 'f \<Rightarrow> 'f expression list list \<Rightarrow> 'f \<Rightarrow> 'f option" where
  "helper_constraint ev theta beta chunk helper_eval =
     do { fs \<leftarrow> those (map (\<lambda>input. map_option (\<lambda>c. c + beta) (compress_expressions ev theta input)) chunk);
          let product = prod_list fs;
          partial_products \<leftarrow> those (map (\<lambda>f. map_option (\<lambda>i. product * i) (field_invert f)) fs);
          Some (helper_eval * product - sum_list partial_products) }"

definition lookup_expressions ::
    "'f::field query_evals \<Rightarrow> 'f lagrange_evals \<Rightarrow> 'f chunked_argument \<Rightarrow> 'f \<Rightarrow> 'f \<Rightarrow> 'f lookup_evaluated \<Rightarrow>
     'f list option" where
  "lookup_expressions ev l argument theta beta le =
     do { compressed_table \<leftarrow> compress_expressions ev theta (ca_table_expressions argument);
          sel \<leftarrow> verifier_value ev (ca_selector argument);
          let boundary = (l_0 l + l_last l) * accumulator_eval le;
          let pairs = zip (ca_input_expression_chunks argument) (helper_evals le);
          helper_constraints \<leftarrow> those (map (\<lambda>(chunk, h). helper_constraint ev theta beta chunk h) pairs);
          let sum_helpers = foldl (+) 0 (map snd pairs);
          let diff = (accumulator_next_eval le - accumulator_eval le - sel * sum_helpers)
                       * (compressed_table + beta) + multiplicities_eval le;
          Some (boundary # helper_constraints @ [diff * (1 - (l_last l + l_blind l))]) }"

definition trash_expressions ::
    "'f::field query_evals \<Rightarrow> 'f trash_argument \<Rightarrow> 'f \<Rightarrow> 'f \<Rightarrow> 'f list option" where
  "trash_expressions ev argument trash_challenge trash_eval =
     do { vs \<leftarrow> those (map (verifier_value ev) (ta_constraint_expressions argument));
          let compressed = foldl (\<lambda>acc e. acc * trash_challenge + e) 0 vs;
          q \<leftarrow> verifier_value ev (ta_selector argument);
          Some [compressed - (1 - q) * trash_eval] }"

text \<open>A gate identity is tagged with the fixed column of the first simple selector of its gate.\<close>

definition gate_expressions :: "'f::field query_evals \<Rightarrow> 'f gate \<Rightarrow> (nat option \<times> 'f) list option" where
  "gate_expressions ev g =
     those (map (\<lambda>poly. map_option (\<lambda>e. (map_option sel_index (List.find is_simple (gate_selectors g)), e))
       (verifier_value ev poly)) (polys g))"

record 'f verifier_scalars =
  vs_theta :: 'f
  vs_beta :: 'f
  vs_gamma :: 'f
  vs_trash_challenge :: 'f
  vs_x :: 'f
  vs_delta :: 'f

record 'f proof_evals =
  pe_queries :: "'f query_evals"
  pe_permutation :: "'f perm_evaluated list"
  pe_lookups :: "'f lookup_evaluated list"
  pe_trash :: "'f list"

definition proof_identities ::
    "'f::field constraint_system \<Rightarrow> nat \<Rightarrow> 'f verifier_scalars \<Rightarrow> 'f lagrange_evals \<Rightarrow> 'f list \<Rightarrow>
     'f proof_evals \<Rightarrow> (nat option \<times> 'f) list option" where
  "proof_identities cs cs_deg vs l permutations_common pe =
     do { gs \<leftarrow> those (map (gate_expressions (pe_queries pe)) (gates cs));
          ps \<leftarrow> permutation_expressions cs cs_deg (pe_queries pe) (vs_delta vs) (vs_beta vs) (vs_gamma vs) (vs_x vs) l
                  (pe_permutation pe) permutations_common;
          ls \<leftarrow> those (map (\<lambda>(le, a). do { a \<leftarrow> chunk_by_degree a cs_deg;
                    lookup_expressions (pe_queries pe) l a (vs_theta vs) (vs_beta vs) le })
                  (zip (pe_lookups pe) (lookups cs)));
          ts \<leftarrow> those (map (\<lambda>(te, a). trash_expressions (pe_queries pe) a (vs_trash_challenge vs) te)
                  (zip (pe_trash pe) (trashcans cs)));
          Some (concat gs @ map (\<lambda>e. (None, e)) (ps @ concat ls @ concat ts)) }"

definition partially_evaluate_identities ::
    "'f::field constraint_system \<Rightarrow> nat \<Rightarrow> 'f verifier_scalars \<Rightarrow> 'f lagrange_evals \<Rightarrow> 'f list \<Rightarrow>
     'f proof_evals list \<Rightarrow> (nat option \<times> 'f) list option" where
  "partially_evaluate_identities cs cs_deg vs l permutations_common pes =
     map_option concat (those (map (proof_identities cs cs_deg vs l permutations_common) pes))"

section \<open>The prover's numerator\<close>

record 'f lookup_cosets =
  helper_cosets :: "'f list list"
  aggregator_coset :: "'f list"
  multiplicities_coset :: "'f list"

record 'f proof_polys =
  pp_advice :: "'f list list"
  pp_instance :: "'f list list"
  pp_lookups :: "'f lookup_cosets list"
  pp_trash :: "'f list list"
  pp_permutation :: "'f list list"

record 'f numerator_env =
  ne_size :: nat
  ne_rot_scale :: int
  ne_omega :: 'f
  ne_g_coset :: 'f
  ne_delta :: 'f
  ne_fixed :: "'f list list"
  ne_challenges :: "'f list"
  ne_y :: 'f
  ne_beta :: 'f
  ne_gamma :: 'f
  ne_theta :: 'f
  ne_trash_challenge :: 'f
  ne_l0 :: "'f list"
  ne_l_last :: "'f list"
  ne_l_active_row :: "'f list"
  ne_pk_cosets :: "'f list list"

definition num_args :: "'f numerator_env \<Rightarrow> 'f proof_polys \<Rightarrow> 'f \<Rightarrow> 'f eval_args" where
  "num_args ne pp v =
     \<lparr>fixed_values = ne_fixed ne, advice_values = pp_advice pp, instance_values = pp_instance pp,
      challenges = ne_challenges ne, arg_beta = ne_beta ne, arg_theta = ne_theta ne,
      arg_trash_challenge = ne_trash_challenge ne, arg_y = ne_y ne, previous_value = v\<rparr>"

abbreviation ne_isize :: "'f numerator_env \<Rightarrow> int" where
  "ne_isize ne \<equiv> as_i32 (ne_size ne)"

text \<open>Custom gates: a chunk of rows per thread, each thread with one buffer.\<close>

fun gates_chunk ::
    "'f::field graph_evaluator \<Rightarrow> 'f numerator_env \<Rightarrow> 'f proof_polys \<Rightarrow> 'f evaluation_data \<Rightarrow> nat \<Rightarrow>
     'f list \<Rightarrow> 'f list option" where
  "gates_chunk g ne pp data idx [] = Some []"
| "gates_chunk g ne pp data idx (v # vs) =
     do { (data, w) \<leftarrow> graph_evaluate g data (num_args ne pp v) idx (ne_rot_scale ne) (ne_isize ne);
          ws \<leftarrow> gates_chunk g ne pp data (Suc idx) vs;
          Some (w # ws) }"

definition gates_pass ::
    "nat \<Rightarrow> 'f::field graph_evaluator \<Rightarrow> 'f numerator_env \<Rightarrow> 'f proof_polys \<Rightarrow> 'f list \<Rightarrow> 'f list option" where
  "gates_pass num_threads g ne pp values =
     (if num_threads = 0 then None
      else let chunk_size = div_ceil (ne_size ne) num_threads
           in if chunk_size = 0 then None
              else map_option concat (those (imap 0 (\<lambda>thread_idx chunk.
                     gates_chunk g ne pp (graph_instance g) (thread_idx * chunk_size) chunk)
                     (chunks chunk_size values))))"

text \<open>Permutations, on one row.\<close>

definition column_at :: "'f numerator_env \<Rightarrow> 'f proof_polys \<Rightarrow> nat \<Rightarrow> column \<Rightarrow> 'f option" where
  "column_at ne pp idx c =
     cell (case column_type c of Any_Advice _ \<Rightarrow> pp_advice pp | Any_Fixed \<Rightarrow> ne_fixed ne
       | Any_Instance \<Rightarrow> pp_instance pp) (col_index c) idx"

fun links_loop ::
    "'f::field \<Rightarrow> nat \<Rightarrow> nat \<Rightarrow> 'f \<Rightarrow> ('f list \<times> 'f list) list \<Rightarrow> 'f \<Rightarrow> 'f option" where
  "links_loop y idx r_last l0 [] v = Some v"
| "links_loop y idx r_last l0 ((z, z_prev) # rest) v =
     do { a \<leftarrow> index_opt z idx; b \<leftarrow> index_opt z_prev r_last;
          links_loop y idx r_last l0 rest (v * y + (a - b) * l0) }"

fun sets_loop ::
    "(column \<Rightarrow> 'f option) \<Rightarrow> 'f::field numerator_env \<Rightarrow> nat \<Rightarrow> nat \<Rightarrow> 'f \<Rightarrow> 'f \<Rightarrow>
     ('f list \<times> column list \<times> 'f list list) list \<Rightarrow> 'f \<Rightarrow> 'f option" where
  "sets_loop col ne idx r_next l_active current_delta [] v = Some v"
| "sets_loop col ne idx r_next l_active current_delta ((z, columns, cosets) # rest) v =
     do { z_next \<leftarrow> index_opt z r_next;
          left \<leftarrow> left_loop col (ne_beta ne) (ne_gamma ne) z_next
                   (zip columns (map (\<lambda>coset. index_opt coset idx) cosets));
          z_cur \<leftarrow> index_opt z idx;
          (right, current_delta) \<leftarrow> right_loop col (ne_delta ne) (ne_gamma ne) z_cur current_delta columns;
          sets_loop col ne idx r_next l_active current_delta rest
            (v * ne_y ne + (left - right) * l_active) }"

definition permutation_row ::
    "'f::field constraint_system \<Rightarrow> nat \<Rightarrow> nat \<Rightarrow> 'f numerator_env \<Rightarrow> 'f proof_polys \<Rightarrow> 'f \<Rightarrow> nat \<Rightarrow> 'f \<Rightarrow>
     'f option" where
  "permutation_row cs cs_deg blinding ne pp beta_term idx v =
     do { r_next \<leftarrow> get_rotation_idx idx 1 (ne_rot_scale ne) (ne_isize ne);
          r_last \<leftarrow> get_rotation_idx idx (- int (blinding + 1)) (ne_rot_scale ne) (ne_isize ne);
          let zs = pp_permutation pp;
          l0 \<leftarrow> index_opt (ne_l0 ne) idx;
          ll \<leftarrow> index_opt (ne_l_last ne) idx;
          la \<leftarrow> index_opt (ne_l_active_row ne) idx;
          z_first \<leftarrow> index_opt (hd zs) idx;
          let v = v * ne_y ne + (1 - z_first) * l0;
          z_last \<leftarrow> index_opt (last zs) idx;
          let v = v * ne_y ne + (z_last * z_last - z_last) * ll;
          v \<leftarrow> links_loop (ne_y ne) idx r_last l0 (zip (drop 1 zs) zs) v;
          let current_delta = (ne_beta ne * ne_g_coset ne) * beta_term;
          sets_loop (column_at ne pp idx) ne idx r_next la current_delta
            (zip zs (zip (chunks (cs_deg - 2) (permutation cs)) (chunks (cs_deg - 2) (ne_pk_cosets ne)))) v }"

fun permutation_chunk ::
    "'f::field constraint_system \<Rightarrow> nat \<Rightarrow> nat \<Rightarrow> 'f numerator_env \<Rightarrow> 'f proof_polys \<Rightarrow> 'f \<Rightarrow> nat \<Rightarrow>
     'f option list \<Rightarrow> 'f option list" where
  "permutation_chunk cs cs_deg blinding ne pp beta_term idx [] = []"
| "permutation_chunk cs cs_deg blinding ne pp beta_term idx (v # vs) =
     Option.bind v (permutation_row cs cs_deg blinding ne pp beta_term idx)
       # permutation_chunk cs cs_deg blinding ne pp (beta_term * ne_omega ne) (Suc idx) vs"

text \<open>
  \<open>parallelize\<close> over the rows; a row that panics is \<open>None\<close>, and the whole pass panics if one does.
\<close>

definition parallel_rows ::
    "nat \<Rightarrow> 'f list \<Rightarrow> ('f option list \<Rightarrow> nat \<Rightarrow> 'f option list) \<Rightarrow> 'f list option" where
  "parallel_rows num_threads values task =
     do { vs \<leftarrow> parallelize num_threads (map Some values) task; those vs }"

definition permutation_pass ::
    "nat \<Rightarrow> 'f::field constraint_system \<Rightarrow> nat \<Rightarrow> nat \<Rightarrow> 'f numerator_env \<Rightarrow> 'f proof_polys \<Rightarrow> 'f list \<Rightarrow>
     'f list option" where
  "permutation_pass num_threads cs cs_deg blinding ne pp values =
     (if pp_permutation pp = [] then Some values
      else if cs_deg \<le> 2 then None
      else parallel_rows num_threads values (\<lambda>chunk start.
             permutation_chunk cs cs_deg blinding ne pp (ne_omega ne ^ start) start chunk))"

text \<open>Lookups, on one row.\<close>

fun lookup_helpers_loop ::
    "'f::field numerator_env \<Rightarrow> 'f proof_polys \<Rightarrow> nat \<Rightarrow> nat \<Rightarrow> ('f lookup_graph_evaluator \<times> 'f list) list \<Rightarrow>
     'f \<Rightarrow> 'f \<Rightarrow> 'f \<Rightarrow> 'f \<Rightarrow> ('f \<times> 'f \<times> 'f \<times> 'f) option" where
  "lookup_helpers_loop ne pp idx fi [] v sum_helpers table_value sel = Some (v, sum_helpers, table_value, sel)"
| "lookup_helpers_loop ne pp idx fi ((le, helper) # rest) v sum_helpers table_value sel =
     do { (data, _) \<leftarrow> graph_evaluate (lge_graph le) (graph_instance (lge_graph le)) (num_args ne pp 0) idx
                          (ne_rot_scale ne) (ne_isize ne);
          sum_partial_products \<leftarrow> resolve data (lge_sum_partial_products le);
          product \<leftarrow> resolve data (lge_product le);
          (table_value, sel) \<leftarrow> (if fi = 0
             then do { t \<leftarrow> resolve data (lge_table le); s \<leftarrow> resolve data (lge_selector le); Some (t, s) }
             else Some (table_value, sel));
          h \<leftarrow> index_opt helper idx;
          lookup_helpers_loop ne pp idx (Suc fi) rest
            (v * ne_y ne + h * product - sum_partial_products) (sum_helpers + h) table_value sel }"

text \<open>
  The loop indexes \<open>helper_cosets[fi]\<close> with the number of the graph, so there must be a helper
  polynomial for every graph.
\<close>

definition lookup_row ::
    "'f::field lookup_graph_evaluator list \<Rightarrow> 'f numerator_env \<Rightarrow> 'f proof_polys \<Rightarrow> 'f lookup_cosets \<Rightarrow> nat \<Rightarrow>
     'f \<Rightarrow> 'f option" where
  "lookup_row lookup_eval ne pp lc idx v =
     do { r_next \<leftarrow> get_rotation_idx idx 1 (ne_rot_scale ne) (ne_isize ne);
          z \<leftarrow> index_opt (aggregator_coset lc) idx;
          l0 \<leftarrow> index_opt (ne_l0 ne) idx;
          ll \<leftarrow> index_opt (ne_l_last ne) idx;
          let v = v * ne_y ne + z * (l0 + ll);
          (v, sum_helpers, table_value, sel) \<leftarrow>
            (if length lookup_eval \<le> length (helper_cosets lc)
             then lookup_helpers_loop ne pp idx 0 (zip lookup_eval (helper_cosets lc)) v 0 0 0
             else None);
          la \<leftarrow> index_opt (ne_l_active_row ne) idx;
          z_next \<leftarrow> index_opt (aggregator_coset lc) r_next;
          m \<leftarrow> index_opt (multiplicities_coset lc) idx;
          Some (v * ne_y ne + la * ((z_next - z - sel * sum_helpers) * table_value + m)) }"

definition lookup_pass ::
    "nat \<Rightarrow> 'f::field lookup_graph_evaluator list \<Rightarrow> 'f numerator_env \<Rightarrow> 'f proof_polys \<Rightarrow> 'f lookup_cosets \<Rightarrow>
     'f list \<Rightarrow> 'f list option" where
  "lookup_pass num_threads lookup_eval ne pp lc values =
     parallel_rows num_threads values (\<lambda>chunk start.
       imap start (\<lambda>idx v. Option.bind v (lookup_row lookup_eval ne pp lc idx)) chunk)"

text \<open>Trash arguments, with a buffer reused along the rows of a chunk.\<close>

fun trash_chunk ::
    "'f::field graph_evaluator \<Rightarrow> 'f trash_argument \<Rightarrow> 'f numerator_env \<Rightarrow> 'f proof_polys \<Rightarrow> 'f list \<Rightarrow>
     'f evaluation_data option \<Rightarrow> nat \<Rightarrow> 'f option list \<Rightarrow> 'f option list" where
  "trash_chunk g a ne pp trash_poly data idx [] = []"
| "trash_chunk g a ne pp trash_poly data idx (v # vs) =
     (let r = do { data \<leftarrow> data;
                   graph_evaluate g data (num_args ne pp 0) idx (ne_rot_scale ne) (ne_isize ne) };
          w = do { v \<leftarrow> v;
                   (_, compressed) \<leftarrow> r;
                   q \<leftarrow> (case ta_selector a of
                           Fixed query \<Rightarrow> cell (ne_fixed ne) (fq_column_index query) idx
                         | _ \<Rightarrow> None);
                   t \<leftarrow> index_opt trash_poly idx;
                   Some (v * ne_y ne + (compressed - (1 - q) * t)) }
      in w # trash_chunk g a ne pp trash_poly (map_option fst r) (Suc idx) vs)"

definition trash_pass ::
    "nat \<Rightarrow> 'f::field graph_evaluator \<Rightarrow> 'f trash_argument \<Rightarrow> 'f numerator_env \<Rightarrow> 'f proof_polys \<Rightarrow> 'f list \<Rightarrow>
     'f list \<Rightarrow> 'f list option" where
  "trash_pass num_threads g a ne pp trash_poly values =
     parallel_rows num_threads values (\<lambda>chunk start.
       trash_chunk g a ne pp trash_poly (Some (graph_instance g)) start chunk)"

fun foldM :: "('a \<Rightarrow> 'b \<Rightarrow> 'b option) \<Rightarrow> 'a list \<Rightarrow> 'b \<Rightarrow> 'b option" where
  "foldM f [] b = Some b"
| "foldM f (x # xs) b = do { b \<leftarrow> f x b; foldM f xs b }"

text \<open>
  One proof: \<open>self.lookups[n]\<close>, \<open>self.trashcans[n]\<close> and \<open>cs.trashcans[n]\<close> are indexed with the number of
  the argument.
\<close>

definition numerator_proof ::
    "nat \<Rightarrow> 'f::field evaluator \<Rightarrow> 'f constraint_system \<Rightarrow> nat \<Rightarrow> nat \<Rightarrow> 'f numerator_env \<Rightarrow> 'f proof_polys \<Rightarrow>
     'f list \<Rightarrow> 'f list option" where
  "numerator_proof num_threads evr cs cs_deg blinding ne pp values =
     do { values \<leftarrow> gates_pass num_threads (custom_gates evr) ne pp values;
          values \<leftarrow> permutation_pass num_threads cs cs_deg blinding ne pp values;
          values \<leftarrow> foldM (\<lambda>(n, lc) values. do { le \<leftarrow> index_opt (ev_lookups evr) n;
                            lookup_pass num_threads le ne pp lc values })
                      (zip [0..<length (pp_lookups pp)] (pp_lookups pp)) values;
          foldM (\<lambda>(n, tp) values. do { g \<leftarrow> index_opt (ev_trashcans evr) n; a \<leftarrow> index_opt (trashcans cs) n;
                    trash_pass num_threads g a ne pp tp values })
            (zip [0..<length (pp_trash pp)] (pp_trash pp)) values }"

definition evaluate_numerator ::
    "nat \<Rightarrow> 'f::field evaluator \<Rightarrow> 'f constraint_system \<Rightarrow> nat \<Rightarrow> nat \<Rightarrow> 'f numerator_env \<Rightarrow>
     'f proof_polys list \<Rightarrow> 'f list option" where
  "evaluate_numerator num_threads evr cs cs_deg blinding ne pps =
     foldM (numerator_proof num_threads evr cs cs_deg blinding ne) pps (replicate (ne_size ne) 0)"

section \<open>Passes over the rows\<close>

lemma horner_append: "horner y v (es @ fs) = horner y (horner y v es) fs"
  by (simp add: horner_def)

lemma horner_Nil [simp]: "horner y v [] = v" and horner_Cons [simp]: "horner y v (e # es) = horner y (v * y + e) es"
  by (simp_all add: horner_def)

lemma parallel_rows_Some:
  assumes "0 < t"
    and "\<And>chunk off. off + length chunk \<le> length values \<Longrightarrow>
      task chunk off = imap off (\<lambda>i v. Option.bind v (row i)) chunk"
    and "\<And>i v. i < length values \<Longrightarrow> row i v = Some (f i v)"
  shows "parallel_rows t values task = Some (imap 0 f values)"
proof -
  have "parallelize t (map Some values) task = Some (imap 0 (\<lambda>i v. Option.bind v (row i)) (map Some values))"
    using assms(1,2) by (intro parallelize_pointwise_range) simp_all
  moreover have "imap 0 (\<lambda>i v. Option.bind v (row i)) (map Some values) = imap 0 (\<lambda>i v. Some (f i v)) values"
    unfolding imap_map using assms(3) by (intro imap_cong) simp
  ultimately show ?thesis by (simp add: parallel_rows_def those_imap_Some)
qed

subsection \<open>Rotations of a row\<close>

lemma as_i32_small: "n < 2 ^ 31 \<Longrightarrow> as_i32 n = int n"
  by (simp add: as_i32_def sint_uint signed_take_bit_int_eq_self unsigned_of_nat take_bit_nat_eq_self)

lemma get_rotation_idx_cur:
  "idx < n \<Longrightarrow> n < 2 ^ 31 \<Longrightarrow> get_rotation_idx idx 0 sc (as_i32 n) = Some idx"
  by (simp add: get_rotation_idx_def Let_def as_i32_small i32_ok_def)

subsection \<open>The evaluations of a row\<close>

text \<open>
  The evaluations that the verifier would read for a row: one per registered query, the value of
  the queried column at the rotated row.
\<close>

definition evals_for ::
    "'f numerator_env \<Rightarrow> nat \<Rightarrow> 'f list list \<Rightarrow> (column \<times> int) list \<Rightarrow> 'f list \<Rightarrow> bool" where
  "evals_for ne idx columns queries evals \<longleftrightarrow>
     list_all2 (\<lambda>(c, at_rot) e. do { r \<leftarrow> get_rotation_idx idx at_rot (ne_rot_scale ne) (ne_isize ne);
       cell columns (col_index c) r } = Some e) queries evals"

definition evals_match ::
    "'f constraint_system \<Rightarrow> 'f numerator_env \<Rightarrow> 'f proof_polys \<Rightarrow> nat \<Rightarrow> 'f query_evals \<Rightarrow> bool" where
  "evals_match cs ne pp idx ev \<longleftrightarrow>
     challenge_evals ev = ne_challenges ne \<and>
     evals_for ne idx (ne_fixed ne) (fixed_queries cs) (fixed_evals ev) \<and>
     evals_for ne idx (pp_advice pp) (advice_queries cs) (advice_evals ev) \<and>
     evals_for ne idx (pp_instance pp) (instance_queries cs) (instance_evals ev)"

lemma evals_for_points_at:
  assumes "evals_for ne idx columns queries evals" "points_at queries i c at_rot"
  shows "do { i \<leftarrow> i; index_opt evals i } =
    do { r \<leftarrow> get_rotation_idx idx at_rot (ne_rot_scale ne) (ne_isize ne); cell columns (col_index c) r }"
  using assms
  by (auto simp: evals_for_def points_at_def index_opt_def list_all2_conv_all_nth case_prod_beta split: option.splits)

lemma verifier_value_row:
  assumes m: "evals_match cs ne pp idx ev" and i: "indexed cs e"
  shows "verifier_value ev e = evaluate_row (num_args ne pp v) idx (ne_rot_scale ne) (ne_isize ne) e"
  using i unfolding verifier_value_def evaluate_row_def
proof (induction e)
  case (Fixed q)
  then show ?case
    using m evals_for_points_at [of ne idx "ne_fixed ne" "fixed_queries cs" "fixed_evals ev" "fq_index q"]
    by (simp add: verifier_closures_def row_closures_def evals_match_def num_args_def)
next
  case (Advice q)
  then show ?case
    using m evals_for_points_at [of ne idx "pp_advice pp" "advice_queries cs" "advice_evals ev" "aq_index q"]
    by (simp add: verifier_closures_def row_closures_def evals_match_def num_args_def)
next
  case (Instance q)
  then show ?case
    using m evals_for_points_at [of ne idx "pp_instance pp" "instance_queries cs" "instance_evals ev" "iq_index q"]
    by (simp add: verifier_closures_def row_closures_def evals_match_def num_args_def)
next
  case (Challenge c)
  then show ?case using m by (simp add: verifier_closures_def row_closures_def evals_match_def num_args_def)
qed (simp_all add: verifier_closures_def row_closures_def)

lemma column_eval_at:
  assumes "evals_match cs ne pp idx ev" "registered cs c 0" "idx < ne_size ne" "ne_size ne < 2 ^ 31"
  shows "column_eval cs ev c = column_at ne pp idx c"
proof -
  obtain i where i: "get_any_query_index cs c 0 = Some i"
    "points_at (queries_of cs (column_type c)) (Some i) c 0"
    using get_any_query_index_registered [OF assms(2)] by blast
  show ?thesis
    using assms(1) i get_rotation_idx_cur [OF assms(3,4), of "ne_rot_scale ne"]
    by (auto simp: column_eval_def column_at_def evals_match_def queries_of_def
        dest!: evals_for_points_at split: any_column.splits)
qed


section \<open>Custom gates\<close>

lemma evaluate_row_previous:
  "evaluate_row (num_args ne pp v) idx sc sz = evaluate_row (num_args ne pp w) idx sc sz"
  by (simp add: evaluate_row_def row_closures_def num_args_def)

lemma custom_gates_row:
  assumes g: "custom_gates_graph gs = Some g"
    and vs: "those (map (evaluate_row (num_args ne pp 0) idx (ne_rot_scale ne) (ne_isize ne)) (concat gs)) = Some vs"
    and buf: "buffer_for g data"
  shows "\<exists>data'. graph_evaluate g data (num_args ne pp v) idx (ne_rot_scale ne) (ne_isize ne)
    = Some (data', horner (ne_y ne) v vs) \<and> buffer_for g data'"
proof -
  define r where "r = \<lparr>row_args = num_args ne pp v, row_idx = idx, row_scale = ne_rot_scale ne, row_isize = ne_isize ne\<rparr>"
  have "those (map (row_value r) (concat gs)) = Some vs"
    using vs unfolding r_def by (simp add: evaluate_row_previous [of ne pp v _ _ _ 0])
  from horner_graph_evaluate [OF this knows_previous_y] g buf show ?thesis
    by (auto simp: custom_gates_graph_def r_def num_args_def)
qed

lemma gates_chunk_rows:
  assumes g: "custom_gates_graph gs = Some g"
    and vs: "\<And>i. start \<le> i \<Longrightarrow> i < start + length values \<Longrightarrow>
      those (map (evaluate_row (num_args ne pp 0) i (ne_rot_scale ne) (ne_isize ne)) (concat gs)) = Some (vs i)"
    and buf: "buffer_for g data"
  shows "gates_chunk g ne pp data start values = Some (imap start (\<lambda>i v. horner (ne_y ne) v (vs i)) values)"
  using vs buf
proof (induction "values" arbitrary: data start)
  case (Cons v "values")
  obtain data' where d: "graph_evaluate g data (num_args ne pp v) start (ne_rot_scale ne) (ne_isize ne)
      = Some (data', horner (ne_y ne) v (vs start))" "buffer_for g data'"
    using custom_gates_row [OF g Cons.prems(1) [of start] Cons.prems(2)] by auto
  have "gates_chunk g ne pp data' (Suc start) values = Some (imap (Suc start) (\<lambda>i v. horner (ne_y ne) v (vs i)) values)"
    by (rule Cons.IH [OF _ d(2)]) (use Cons.prems(1) in simp)
  with d show ?case by simp
qed simp

lemma gates_pass_rows:
  assumes g: "custom_gates_graph gs = Some g" and t: "0 < t" and n: "0 < ne_size ne" "length values = ne_size ne"
    and vs: "\<And>i. i < ne_size ne \<Longrightarrow>
      those (map (evaluate_row (num_args ne pp 0) i (ne_rot_scale ne) (ne_isize ne)) (concat gs)) = Some (vs i)"
  shows "gates_pass t g ne pp values = Some (imap 0 (\<lambda>i v. horner (ne_y ne) v (vs i)) values)"
proof -
  define c where "c = div_ceil (ne_size ne) t"
  have c: "0 < c" using div_ceil_bounds(1) [OF t, of "ne_size ne"] n(1) by (cases "c = 0") (simp_all add: c_def)
  have "those (imap 0 (\<lambda>j chunk. gates_chunk g ne pp (graph_instance g) (j * c) chunk) (chunks c values)) =
      Some (imap 0 (\<lambda>j chunk. imap (j * c) (\<lambda>i v. horner (ne_y ne) v (vs i)) chunk) (chunks c values))"
  proof (rule those_imap_cong)
    fix j
    assume "j < length (chunks c values)"
    then have "chunks c values ! j = take c (drop (j * c) values)" "j * c < length values"
      using nth_chunks [OF c] by blast+
    then show "gates_chunk g ne pp (graph_instance g) ((0 + j) * c) (chunks c values ! j) =
        Some (imap ((0 + j) * c) (\<lambda>i v. horner (ne_y ne) v (vs i)) (chunks c values ! j))"
      using n(2) by (intro gates_chunk_rows [OF g] buffer_for_instance) (auto intro!: vs)
  qed
  then show ?thesis
    using t c chunks_imap_offset [OF c, of 0] by (simp add: gates_pass_def Let_def c_def)
qed

section \<open>The permutation argument\<close>

lemma permutation_chunk_imap:
  "permutation_chunk cs d b ne pp (ne_omega ne ^ start) start chunk =
   imap start (\<lambda>i v. Option.bind v (permutation_row cs d b ne pp (ne_omega ne ^ i) i)) chunk"
proof (induction chunk arbitrary: start)
  case (Cons v chunk)
  from Cons.IH [of "Suc start"] show ?case by (simp add: mult.commute)
qed simp

lemma left_loop_cong:
  "(\<And>c p. (c, p) \<in> set ps \<Longrightarrow> col c = col' c) \<Longrightarrow> left_loop col beta gamma l ps = left_loop col' beta gamma l ps"
proof (induction ps arbitrary: l)
  case (Cons p ps)
  obtain c q where p: "p = (c, q)" by fastforce
  have "col c = col' c" using Cons.prems [of c q] p by simp
  moreover have "left_loop col beta gamma l ps = left_loop col' beta gamma l ps" for l
    using Cons.prems by (intro Cons.IH) auto
  ultimately show ?case by (simp add: p)
qed simp

lemma right_loop_cong:
  "(\<And>c. c \<in> set cols \<Longrightarrow> col c = col' c) \<Longrightarrow>
   right_loop col delta gamma r d cols = right_loop col' delta gamma r d cols"
  by (induction cols arbitrary: r d) (auto intro!: Option.bind_cong)

lemma right_loop_delta:
  "right_loop col delta gamma r d cols = Some (r', d') \<Longrightarrow> d' = d * delta ^ length cols"
  by (induction cols arbitrary: r d) (fastforce simp: bind_eq_Some_conv mult.assoc)+

lemma links_loop_horner:
  assumes "list_all2 (\<lambda>(z, zp) (s, sp). index_opt z idx = Some (permutation_product_eval s) \<and>
      index_opt zp r_last = permutation_product_last_eval sp) zs ss"
    and "those (map (\<lambda>(s, last_set). map_option (\<lambda>prev_last. (permutation_product_eval s - prev_last) * l0)
      (permutation_product_last_eval last_set)) ss) = Some ls"
  shows "links_loop y idx r_last l0 zs v = Some (horner y v ls)"
  using assms
  by (induction zs ss arbitrary: v ls rule: list_all2_induct) (auto split: option.splits)

definition set_match ::
    "nat \<Rightarrow> nat \<Rightarrow> 'f list \<times> column list \<times> 'f list list \<Rightarrow> 'f perm_evaluated \<times> column list \<times> 'f list \<Rightarrow> bool" where
  "set_match idx r_next p q \<longleftrightarrow> (case p of (z, cols, cosets) \<Rightarrow> case q of (s, cols', evals) \<Rightarrow>
     cols' = cols \<and> index_opt z idx = Some (permutation_product_eval s) \<and>
     index_opt z r_next = Some (permutation_product_next_eval s) \<and>
     map (\<lambda>coset. index_opt coset idx) cosets = map Some evals)"

lemma sets_loop_horner:
  assumes "list_all2 (set_match idx r_next) ps qs"
    and "\<And>z cols cosets c. (z, cols, cosets) \<in> set ps \<Longrightarrow> c \<in> set cols \<Longrightarrow> col c = col' c"
    and "\<And>i. Suc i < length ps \<Longrightarrow> length (fst (snd (ps ! i))) = n"
    and "those (imap k (perm_set_expression col' (ne_delta ne) (ne_beta ne) (ne_gamma ne) x l n) qs) = Some es"
    and "delta = (ne_beta ne * x) * ne_delta ne ^ (k * n)" and "la = 1 - (l_last l + l_blind l)"
  shows "sets_loop col ne idx r_next la delta ps v = Some (horner (ne_y ne) v es)"
  using assms
proof (induction ps qs arbitrary: k v es delta rule: list_all2_induct)
  case (Cons p ps q qs)
  obtain z cols cosets where p: "p = (z, cols, cosets)" by (cases p)
  obtain s evals where q: "q = (s, cols, evals)" using Cons.hyps(1) p by (cases q) (auto simp: set_match_def)
  obtain e es' where es: "es = e # es'"
    and e: "perm_set_expression col' (ne_delta ne) (ne_beta ne) (ne_gamma ne) x l n k q = Some e"
    and es': "those (imap (Suc k) (perm_set_expression col' (ne_delta ne) (ne_beta ne) (ne_gamma ne) x l n) qs) = Some es'"
    using Cons.prems(3) by (auto split: option.splits)
  have cong: "col c = col' c" if "c \<in> set cols" for c using Cons.prems(1) [of z cols cosets] p that by simp
  have lc: "left_loop col b g a (zip cols ys) = left_loop col' b g a (zip cols ys)" for b g a ys
    by (rule left_loop_cong) (auto dest: set_zip_leftD cong)
  have rc: "right_loop col d g a b cols = right_loop col' d g a b cols" for d g a b
    by (rule right_loop_cong) (rule cong)
  obtain left right d' where lr:
    "left_loop col' (ne_beta ne) (ne_gamma ne) (permutation_product_next_eval s) (zip cols (map Some evals)) = Some left"
    "right_loop col' (ne_delta ne) (ne_gamma ne) (permutation_product_eval s) delta cols = Some (right, d')"
    "e = (left - right) * la"
    using e Cons.prems(4,5) by (auto simp: perm_set_expression_def q bind_eq_Some_conv)
  have "sets_loop col ne idx r_next la delta (p # ps) v =
      sets_loop col ne idx r_next la d' ps (v * ne_y ne + e)"
    using Cons.hyps(1) lr by (simp add: p q set_match_def lc rc)
  also have "\<dots> = Some (horner (ne_y ne) (v * ne_y ne + e) es')"
  proof (cases "ps = []")
    case True
    with Cons.hyps(2) es' show ?thesis by simp
  next
    case False
    then have "length cols = n" using Cons.prems(2) [of 0] p by simp
    then have d': "d' = (ne_beta ne * x) * ne_delta ne ^ (Suc k * n)"
      using right_loop_delta [OF lr(2)] Cons.prems(4) by (simp add: power_add mult.assoc mult.commute add.commute)
    show ?thesis
      by (rule Cons.IH [OF _ _ es' d' Cons.prems(5)])
        (use Cons.prems(1) Cons.prems(2) [of "Suc _"] in auto)
  qed
  finally show ?case by (simp add: es)
qed auto


text \<open>What the verifier's data for a row are: Lagrange polynomials, permutation products, lookups.\<close>

definition lagrange_match :: "'f::field numerator_env \<Rightarrow> nat \<Rightarrow> 'f lagrange_evals \<Rightarrow> bool" where
  "lagrange_match ne idx l \<longleftrightarrow>
     index_opt (ne_l0 ne) idx = Some (l_0 l) \<and> index_opt (ne_l_last ne) idx = Some (l_last l) \<and>
     index_opt (ne_l_active_row ne) idx = Some (1 - (l_last l + l_blind l))"

definition perm_match :: "nat \<Rightarrow> nat \<Rightarrow> nat \<Rightarrow> 'f list list \<Rightarrow> 'f perm_evaluated list \<Rightarrow> bool" where
  "perm_match idx r_next r_last zs sets \<longleftrightarrow>
     list_all2 (\<lambda>z s. index_opt z idx = Some (permutation_product_eval s) \<and>
       index_opt z r_next = Some (permutation_product_next_eval s)) zs sets \<and>
     list_all2 (\<lambda>z s. index_opt z r_last = permutation_product_last_eval s) (butlast zs) (butlast sets)"

lemma zip_tl_butlast: "zip (drop 1 xs) ys = zip (drop 1 xs) (butlast ys)" if "length xs = length ys"
  using that by (intro nth_equalityI) (auto simp: nth_butlast)

lemma perm_match_links:
  assumes "perm_match idx r_next r_last zs sets"
  shows "list_all2 (\<lambda>(z, zp) (s, sp). index_opt z idx = Some (permutation_product_eval s) \<and>
      index_opt zp r_last = permutation_product_last_eval sp) (zip (drop 1 zs) zs) (zip (drop 1 sets) sets)"
proof -
  have len: "length zs = length sets" using assms by (auto simp: perm_match_def dest: list_all2_lengthD)
  have z: "zip (drop 1 zs) zs = zip (drop 1 zs) (butlast zs)" "zip (drop 1 sets) sets = zip (drop 1 sets) (butlast sets)"
    by (rule zip_tl_butlast, simp)+
  show ?thesis
    unfolding z using assms len
    by (auto simp: perm_match_def list_all2_conv_all_nth nth_butlast)
qed

lemma perm_sets_match:
  assumes zs: "perm_match idx r_next r_last zs sets"
    and common: "map (\<lambda>coset. index_opt coset idx) pk = map Some common"
  shows "list_all2 (set_match idx r_next) (zip zs (zip (chunks n cols) (chunks n pk)))
      (zip sets (zip (chunks n cols) (chunks n common)))"
proof -
  have cosets: "map (map (\<lambda>coset. index_opt coset idx)) (chunks n pk) = map (map Some) (chunks n common)"
    using common by (simp flip: chunks_map)
  then have len: "length (chunks n pk) = length (chunks n common)" by (metis length_map)
  have "map (\<lambda>coset. index_opt coset idx) (chunks n pk ! i) = map Some (chunks n common ! i)"
    if "i < length (chunks n pk)" for i
    using that len arg_cong [OF cosets, of "\<lambda>xs. xs ! i"] by simp
  with zs len show ?thesis
    by (auto simp: list_all2_conv_all_nth set_match_def perm_match_def)
qed

lemma zip_chunks_columns:
  assumes "0 < n" "(z, cs, cosets) \<in> set (zip zs (zip (chunks n cols) pk))"
  shows "set cs \<subseteq> set cols"
proof -
  have "cs \<in> set (chunks n cols)" using set_zip_leftD [OF set_zip_rightD [OF assms(2)]] .
  then have "set cs \<subseteq> set (concat (chunks n cols))" by auto
  with assms(1) show ?thesis by (simp add: concat_chunks)
qed

lemma permutation_sets_loop:
  assumes wf: "cs_wf cs" and ev: "evals_match cs ne pp idx ev"
    and idx: "idx < ne_size ne" "ne_size ne < 2 ^ 31"
    and zs: "perm_match idx r_next r_last (pp_permutation pp) sets" and n: "0 < n"
    and common: "map (\<lambda>coset. index_opt coset idx) (ne_pk_cosets ne) = map Some common"
    and es: "those (imap 0 (perm_set_expression (column_eval cs ev) (ne_delta ne) (ne_beta ne) (ne_gamma ne) x l n)
        (zip sets (zip (chunks n (permutation cs)) (chunks n common)))) = Some es"
  shows "sets_loop (column_at ne pp idx) ne idx r_next (1 - (l_last l + l_blind l)) (ne_beta ne * x)
      (zip (pp_permutation pp) (zip (chunks n (permutation cs)) (chunks n (ne_pk_cosets ne)))) w
    = Some (horner (ne_y ne) w es)"
proof (rule sets_loop_horner [OF perm_sets_match [OF zs common] _ _ es])
  fix z cols cosets c
  assume mem: "(z, cols, cosets) \<in> set (zip (pp_permutation pp) (zip (chunks n (permutation cs)) (chunks n (ne_pk_cosets ne))))"
    and c: "c \<in> set cols"
  then have "c \<in> set (permutation cs)" using zip_chunks_columns [OF n mem] by blast
  then show "column_at ne pp idx c = column_eval cs ev c"
    using column_eval_at [OF ev _ idx, of c] wf by (simp add: cs_wf_def cs_core_def)
next
  fix i
  assume "Suc i < length (zip (pp_permutation pp) (zip (chunks n (permutation cs)) (chunks n (ne_pk_cosets ne))))"
  then show "length (fst (snd (zip (pp_permutation pp) (zip (chunks n (permutation cs)) (chunks n (ne_pk_cosets ne))) ! i))) = n"
    using chunks_full [of i n "permutation cs"] by simp
qed simp_all

lemma permutation_row_horner:
  assumes wf: "cs_wf cs" and ev: "evals_match cs ne pp idx ev"
    and idx: "idx < ne_size ne" "ne_size ne < 2 ^ 31"
    and rot: "get_rotation_idx idx 1 (ne_rot_scale ne) (ne_isize ne) = Some r_next"
      "get_rotation_idx idx (- int (b + 1)) (ne_rot_scale ne) (ne_isize ne) = Some r_last"
    and l: "lagrange_match ne idx l" and zs: "perm_match idx r_next r_last (pp_permutation pp) sets"
    and ne: "pp_permutation pp \<noteq> []"
    and common: "map (\<lambda>coset. index_opt coset idx) (ne_pk_cosets ne) = map Some common"
    and es: "permutation_expressions cs d ev (ne_delta ne) (ne_beta ne) (ne_gamma ne)
      (ne_g_coset ne * ne_omega ne ^ idx) l sets common = Some es"
  shows "permutation_row cs d b ne pp (ne_omega ne ^ idx) idx v = Some (horner (ne_y ne) v es)"
proof -
  let ?n = "d - 2" and ?zs = "pp_permutation pp" and ?x = "ne_g_coset ne * ne_omega ne ^ idx"
  obtain links products where d: "2 < d" and
    links: "those (map (\<lambda>(s, last_set). map_option (\<lambda>prev_last. (permutation_product_eval s - prev_last) * l_0 l)
        (permutation_product_last_eval last_set)) (zip (drop 1 sets) sets)) = Some links" and
    products: "those (imap 0 (perm_set_expression (column_eval cs ev) (ne_delta ne) (ne_beta ne) (ne_gamma ne) ?x l ?n)
        (zip sets (zip (chunks ?n (permutation cs)) (chunks ?n common)))) = Some products" and
    es_eq: "es = (case sets of [] \<Rightarrow> [] | s # _ \<Rightarrow> [l_0 l * (1 - permutation_product_eval s)]) @
      (if sets = [] then [] else [(permutation_product_eval (last sets) * permutation_product_eval (last sets)
         - permutation_product_eval (last sets)) * l_last l]) @ links @ products"
    using es by (auto simp: permutation_expressions_def Let_def bind_eq_Some_conv split: if_splits)
  have len: "length ?zs = length sets" using zs by (auto simp: perm_match_def dest: list_all2_lengthD)
  have pw: "index_opt (?zs ! i) idx = Some (permutation_product_eval (sets ! i))" if "i < length sets" for i
    using zs that by (auto simp: perm_match_def list_all2_conv_all_nth)
  obtain s0 ss where sets: "sets = s0 # ss" using ne len by (cases sets) auto
  have first: "index_opt (hd ?zs) idx = Some (permutation_product_eval s0)"
    using pw [of 0] ne sets by (simp add: hd_conv_nth)
  have last: "index_opt (last ?zs) idx = Some (permutation_product_eval (last sets))"
    using pw [of "length sets - 1"] ne sets len by (simp add: last_conv_nth)
  have "0 < ?n" using d by simp
  note loop = permutation_sets_loop [OF wf ev idx zs this common products, folded mult.assoc]
  show ?thesis
    using rot l first last links_loop_horner [OF perm_match_links [OF zs] links] loop
    by (simp add: permutation_row_def lagrange_match_def es_eq sets horner_append
        mult.commute [of "l_0 l" "1 - permutation_product_eval s0"] Let_def)
qed


section \<open>The lookup argument\<close>

lemma prod_list_without:
  "i < length fs \<Longrightarrow> (fs ! i :: 'f::field) \<noteq> 0 \<Longrightarrow> prod_list fs * inverse (fs ! i) = prod_list (without i fs)"
  unfolding without_def
  by (subst id_take_nth_drop [of i fs]) (auto simp: ac_simps)

lemma partial_products_sum:
  assumes "those (map (\<lambda>f. map_option (\<lambda>i. product * i) (field_invert f)) fs) = Some ps"
    and "product = prod_list fs"
  shows "sum_list ps = (\<Sum>i\<leftarrow>[0..<length fs]. prod_list (without i fs))"
proof -
  have all: "list_all2 (\<lambda>f p. map_option (\<lambda>i. product * i) (field_invert f) = Some p) fs ps"
    using assms(1) by (simp add: those_map_Some)
  have "ps = map (\<lambda>i. prod_list (without i fs)) [0..<length fs]"
  proof (rule nth_equalityI)
    show len: "length ps = length (map (\<lambda>i. prod_list (without i fs)) [0..<length fs])"
      using all by (simp add: list_all2_lengthD)
    fix i
    assume "i < length ps"
    with all len have i: "i < length fs" "map_option (\<lambda>i. product * i) (field_invert (fs ! i)) = Some (ps ! i)"
      by (auto simp: list_all2_conv_all_nth)
    then have "fs ! i \<noteq> 0" "ps ! i = product * inverse (fs ! i)"
      by (auto simp: field_invert_def split: if_splits)
    with i show "ps ! i = map (\<lambda>i. prod_list (without i fs)) [0..<length fs] ! i"
      by (simp add: assms(2) prod_list_without)
  qed
  then show ?thesis by simp
qed

lemma compress_row:
  assumes "evals_match cs ne pp idx ev" and "\<forall>e\<in>set es. indexed cs e"
    and "compress_expressions ev theta es = Some c"
  shows "\<exists>vs. those (map (evaluate_row (num_args ne pp v) idx (ne_rot_scale ne) (ne_isize ne)) es) = Some vs \<and>
    c = horner theta 0 vs"
proof -
  have "map (verifier_value ev) es = map (evaluate_row (num_args ne pp v) idx (ne_rot_scale ne) (ne_isize ne)) es"
    by (intro map_cong refl verifier_value_row [OF assms(1)]) (use assms(2) in blast)
  with assms(3) show ?thesis by (auto simp: compress_expressions_def bind_eq_Some_conv horner_def)
qed

lemma compress_inputs_row:
  assumes m: "evals_match cs ne pp idx ev" and "\<forall>es\<in>set chunk. \<forall>e\<in>set es. indexed cs e"
    and "those (map (\<lambda>input. map_option (\<lambda>c. c + beta) (compress_expressions ev theta input)) chunk) = Some fs"
  shows "\<exists>vss. list_all2 (\<lambda>es vs. those (map (evaluate_row (num_args ne pp v) idx (ne_rot_scale ne) (ne_isize ne)) es)
      = Some vs) chunk vss \<and> fs = map (\<lambda>vs. horner theta 0 vs + beta) vss"
  using assms(2,3)
proof (induction chunk arbitrary: fs)
  case (Cons es chunk)
  then obtain c fs' where c: "compress_expressions ev theta es = Some c" "fs = (c + beta) # fs'"
    "those (map (\<lambda>input. map_option (\<lambda>c. c + beta) (compress_expressions ev theta input)) chunk) = Some fs'"
    by (auto split: option.splits)
  obtain vss where "list_all2 (\<lambda>es vs. those (map (evaluate_row (num_args ne pp v) idx (ne_rot_scale ne) (ne_isize ne)) es)
      = Some vs) chunk vss" "fs' = map (\<lambda>vs. horner theta 0 vs + beta) vss"
    using Cons.IH [OF _ c(3)] Cons.prems(1) by auto
  moreover obtain vs where "those (map (evaluate_row (num_args ne pp v) idx (ne_rot_scale ne) (ne_isize ne)) es) = Some vs"
    "c = horner theta 0 vs"
    using compress_row [OF m _ c(1)] Cons.prems(1) by auto
  ultimately show ?case using c(2) by (intro exI [of _ "vs # vss"]) simp
qed simp

text \<open>One lookup graph on one row, against the verifier's helper constraint.\<close>

lemma lookup_graph_row:
  assumes m: "evals_match cs ne pp idx ev" and lg: "lookup_graph ca chunk = Some lg" and ne: "chunk \<noteq> []"
    and ix: "\<forall>es\<in>set chunk. \<forall>e\<in>set es. indexed cs e" "\<forall>e\<in>set (ca_table_expressions ca). indexed cs e"
      "indexed cs (ca_selector ca)"
    and t: "compress_expressions ev (ne_theta ne) (ca_table_expressions ca) = Some t"
    and q: "verifier_value ev (ca_selector ca) = Some q"
    and h: "helper_constraint ev (ne_theta ne) (ne_beta ne) chunk hv = Some e"
  shows "\<exists>data w s p. graph_evaluate (lge_graph lg) (graph_instance (lge_graph lg)) (num_args ne pp 0) idx
      (ne_rot_scale ne) (ne_isize ne) = Some (data, w) \<and>
    resolve data (lge_sum_partial_products lg) = Some s \<and> resolve data (lge_product lg) = Some p \<and>
    resolve data (lge_table lg) = Some (t + ne_beta ne) \<and> resolve data (lge_selector lg) = Some q \<and>
    e = hv * p - s"
proof -
  define r where "r = \<lparr>row_args = num_args ne pp 0, row_idx = idx, row_scale = ne_rot_scale ne, row_isize = ne_isize ne\<rparr>"
  obtain fs ps where fs: "those (map (\<lambda>input. map_option (\<lambda>c. c + ne_beta ne) (compress_expressions ev (ne_theta ne) input)) chunk) = Some fs"
    and ps: "those (map (\<lambda>f. map_option (\<lambda>i. prod_list fs * i) (field_invert f)) fs) = Some ps"
    and e: "e = hv * prod_list fs - sum_list ps"
    using h by (auto simp: helper_constraint_def bind_eq_Some_conv Let_def)
  obtain vss where vss: "list_all2 (\<lambda>es vs. those (map (row_value r) es) = Some vs) chunk vss"
    and fs_eq: "fs = map (\<lambda>vs. horner (arg_theta (row_args r)) 0 vs + arg_beta (row_args r)) vss"
    using compress_inputs_row [OF m ix(1) fs, of 0] by (auto simp: r_def num_args_def)
  obtain ts where ts: "those (map (row_value r) (ca_table_expressions ca)) = Some ts" "t = horner (ne_theta ne) 0 ts"
    using compress_row [OF m ix(2) t, of 0] by (auto simp: r_def)
  have sel: "row_value r (ca_selector ca) = Some q" using verifier_value_row [OF m ix(3), of 0] q by (simp add: r_def)
  show ?thesis
    using lookup_graph_evaluate [OF vss ts(1) sel ne fs_eq] lg buffer_for_instance [of "lge_graph lg"]
      partial_products_sum [OF ps refl] ts(2)
    by (fastforce simp: e r_def num_args_def)
qed


lemma lookup_helpers_loop_rows:
  assumes m: "evals_match cs ne pp idx ev"
    and ix: "\<forall>e\<in>set (ca_table_expressions ca). indexed cs e" "indexed cs (ca_selector ca)"
    and t: "compress_expressions ev (ne_theta ne) (ca_table_expressions ca) = Some t"
    and q: "verifier_value ev (ca_selector ca) = Some q"
    and les: "list_all2 (\<lambda>chunk lg. lookup_graph ca chunk = Some lg) cks les"
    and hs: "list_all2 (\<lambda>hc hv. index_opt hc idx = Some hv) hcs hvs" "length cks = length hcs"
    and ck: "\<forall>chunk\<in>set cks. chunk \<noteq> [] \<and> (\<forall>es\<in>set chunk. \<forall>e\<in>set es. indexed cs e)"
    and es: "those (map (\<lambda>(chunk, h). helper_constraint ev (ne_theta ne) (ne_beta ne) chunk h) (zip cks hvs)) = Some es"
    and first: "fi = 0 \<or> (tv = t + ne_beta ne \<and> sv = q)"
  shows "lookup_helpers_loop ne pp idx fi (zip les hcs) v sm tv sv =
    Some (horner (ne_y ne) v es, foldl (+) sm (map snd (zip cks hvs)),
      if cks = [] then tv else t + ne_beta ne, if cks = [] then sv else q)"
  using les hs ck es first
proof (induction cks les arbitrary: hcs hvs es v sm tv sv fi rule: list_all2_induct)
  case Nil
  then show ?case by simp
next
  case (Cons chunk cks lg les)
  obtain hc hcs' where hcs: "hcs = hc # hcs'" using Cons.prems(2) by (cases hcs) auto
  then obtain hv hvs' where hvs: "hvs = hv # hvs'" and hv: "index_opt hc idx = Some hv"
    and rest: "list_all2 (\<lambda>hc hv. index_opt hc idx = Some hv) hcs' hvs'"
    using Cons.prems(1) by (auto simp: list_all2_Cons1)
  obtain e es' where es: "es = e # es'" and e: "helper_constraint ev (ne_theta ne) (ne_beta ne) chunk hv = Some e"
    and es': "those (map (\<lambda>(chunk, h). helper_constraint ev (ne_theta ne) (ne_beta ne) chunk h) (zip cks hvs')) = Some es'"
    using Cons.prems(4) hvs by (auto split: option.splits)
  obtain data w s p where d: "graph_evaluate (lge_graph lg) (graph_instance (lge_graph lg)) (num_args ne pp 0) idx
      (ne_rot_scale ne) (ne_isize ne) = Some (data, w)" "resolve data (lge_sum_partial_products lg) = Some s"
    "resolve data (lge_product lg) = Some p" "resolve data (lge_table lg) = Some (t + ne_beta ne)"
    "resolve data (lge_selector lg) = Some q" "e = hv * p - s"
    using lookup_graph_row [OF m Cons.hyps(1) _ _ ix t q e] Cons.prems(3) by auto
  have "lookup_helpers_loop ne pp idx fi (zip (lg # les) hcs) v sm tv sv =
      lookup_helpers_loop ne pp idx (Suc fi) (zip les hcs') (v * ne_y ne + e) (sm + hv) (t + ne_beta ne) q"
    using d hv Cons.prems(5) by (auto simp: hcs diff_add_eq add_diff_eq)
  also have "\<dots> = Some (horner (ne_y ne) (v * ne_y ne + e) es', foldl (+) (sm + hv) (map snd (zip cks hvs')),
      t + ne_beta ne, q)"
    using Cons.IH [OF rest _ _ es', of "Suc fi" "t + ne_beta ne" q] Cons.prems(2,3) hcs by simp
  finally show ?case by (simp add: es hvs)
qed

definition lookup_match :: "nat \<Rightarrow> nat \<Rightarrow> 'f lookup_cosets \<Rightarrow> 'f lookup_evaluated \<Rightarrow> bool" where
  "lookup_match idx r_next lc le \<longleftrightarrow>
     index_opt (multiplicities_coset lc) idx = Some (multiplicities_eval le) \<and>
     list_all2 (\<lambda>hc hv. index_opt hc idx = Some hv) (helper_cosets lc) (helper_evals le) \<and>
     index_opt (aggregator_coset lc) idx = Some (accumulator_eval le) \<and>
     index_opt (aggregator_coset lc) r_next = Some (accumulator_next_eval le)"

lemma lookup_row_horner:
  assumes m: "evals_match cs ne pp idx ev" and l: "lagrange_match ne idx l"
    and rot: "get_rotation_idx idx 1 (ne_rot_scale ne) (ne_isize ne) = Some r_next"
    and lm: "lookup_match idx r_next lc le"
    and ca: "chunk_by_degree ba d = Some ca" and les: "lookup_graphs ba d = Some les"
    and ba: "ba_input_expressions ba \<noteq> []" "\<forall>e\<in>lookup_exprs ba. indexed cs e"
    and len: "length (helper_cosets lc) = length (ca_input_expression_chunks ca)"
    and es: "lookup_expressions ev l ca (ne_theta ne) (ne_beta ne) le = Some es"
  shows "lookup_row les ne pp lc idx v = Some (horner (ne_y ne) v es)"
proof -
  let ?cks = "ca_input_expression_chunks ca"
  obtain n where n: "n \<noteq> 0" "ca = \<lparr>ca_selector = ba_selector ba,
      ca_input_expression_chunks = chunks n (ba_input_expressions ba), ca_table_expressions = ba_table_expressions ba\<rparr>"
    using ca by (auto simp: chunk_by_degree_def bind_eq_Some_conv split: if_splits)
  have lg: "list_all2 (\<lambda>chunk lg. lookup_graph ca chunk = Some lg) ?cks les"
    using les ca by (simp add: lookup_graphs_def those_map_Some)
  have concat: "concat ?cks = ba_input_expressions ba" using n by (simp add: concat_chunks)
  have ne: "?cks \<noteq> []" using concat ba(1) by auto
  have ck: "\<forall>chunk\<in>set ?cks. chunk \<noteq> [] \<and> (\<forall>es\<in>set chunk. \<forall>e\<in>set es. indexed cs e)"
  proof
    fix chunk
    assume c: "chunk \<in> set ?cks"
    then have "set chunk \<subseteq> set (ba_input_expressions ba)" using concat by (metis concat_eq_concat_iff UN_upper set_concat)
    with c chunks_bounds [of n chunk "ba_input_expressions ba"] n ba(2)
    show "chunk \<noteq> [] \<and> (\<forall>es\<in>set chunk. \<forall>e\<in>set es. indexed cs e)" by (auto simp: lookup_exprs_def)
  qed
  obtain t q hs where t: "compress_expressions ev (ne_theta ne) (ca_table_expressions ca) = Some t"
    and q: "verifier_value ev (ca_selector ca) = Some q"
    and hs: "those (map (\<lambda>(chunk, h). helper_constraint ev (ne_theta ne) (ne_beta ne) chunk h)
        (zip ?cks (helper_evals le))) = Some hs"
    and es_eq: "es = ((l_0 l + l_last l) * accumulator_eval le) # hs @
        [((accumulator_next_eval le - accumulator_eval le - q * foldl (+) 0 (map snd (zip ?cks (helper_evals le))))
          * (t + ne_beta ne) + multiplicities_eval le) * (1 - (l_last l + l_blind l))]"
    using es by (auto simp: lookup_expressions_def bind_eq_Some_conv Let_def)
  have tix: "\<forall>e\<in>set (ca_table_expressions ca). indexed cs e" "indexed cs (ca_selector ca)"
    using ba(2) n(2) by (auto simp: lookup_exprs_def)
  have loop: "lookup_helpers_loop ne pp idx 0 (zip les (helper_cosets lc)) w 0 0 0 =
      Some (horner (ne_y ne) w hs, foldl (+) 0 (map snd (zip ?cks (helper_evals le))), t + ne_beta ne, q)" for w
    using lookup_helpers_loop_rows [OF m tix t q lg _ _ ck hs] lm len ne by (simp add: lookup_match_def)
  have "length les \<le> length (helper_cosets lc)" using lg len by (simp add: list_all2_lengthD)
  then show ?thesis
    using rot l lm loop
    by (simp add: lookup_row_def lagrange_match_def lookup_match_def es_eq horner_append mult.commute Let_def)
qed

section \<open>The trash argument\<close>

text \<open>The selector of a trash argument is a fixed column at the current row.\<close>

definition trash_selector_ok :: "'f trash_argument \<Rightarrow> bool" where
  "trash_selector_ok a \<longleftrightarrow> (\<exists>q. ta_selector a = Fixed q \<and> fq_rotation q = 0)"

lemma trash_graph_row:
  assumes g: "trash_graph a = Some g"
    and vs: "those (map (evaluate_row (num_args ne pp 0) idx (ne_rot_scale ne) (ne_isize ne)) (ta_constraint_expressions a)) = Some vs"
    and buf: "buffer_for g data"
  shows "\<exists>data'. graph_evaluate g data (num_args ne pp 0) idx (ne_rot_scale ne) (ne_isize ne)
    = Some (data', horner (ne_trash_challenge ne) 0 vs) \<and> buffer_for g data'"
proof -
  define r where "r = \<lparr>row_args = num_args ne pp 0, row_idx = idx, row_scale = ne_rot_scale ne, row_isize = ne_isize ne\<rparr>"
  have "those (map (row_value r) (ta_constraint_expressions a)) = Some vs" using vs by (simp add: r_def)
  from horner_graph_evaluate [OF this knows_zero_trash] g buf show ?thesis
    by (auto simp: trash_graph_def r_def num_args_def)
qed


lemma trash_chunk_rows:
  assumes g: "trash_graph a = Some g" and sel: "ta_selector a = Fixed q"
    and rows: "\<And>i. start \<le> i \<Longrightarrow> i < start + length chunk \<Longrightarrow>
      those (map (evaluate_row (num_args ne pp 0) i (ne_rot_scale ne) (ne_isize ne)) (ta_constraint_expressions a)) = Some (vs i) \<and>
      cell (ne_fixed ne) (fq_column_index q) i = Some (qv i) \<and> index_opt tp i = Some (tv i)"
    and buf: "buffer_for g data"
  shows "trash_chunk g a ne pp tp (Some data) start chunk =
    imap start (\<lambda>i v. Option.bind v (\<lambda>v. Some (v * ne_y ne + (horner (ne_trash_challenge ne) 0 (vs i) - (1 - qv i) * tv i)))) chunk"
  using rows buf
proof (induction chunk arbitrary: start data)
  case (Cons v chunk)
  have row: "those (map (evaluate_row (num_args ne pp 0) start (ne_rot_scale ne) (ne_isize ne)) (ta_constraint_expressions a)) = Some (vs start)"
    "cell (ne_fixed ne) (fq_column_index q) start = Some (qv start)" "index_opt tp start = Some (tv start)"
    using Cons.prems(1) [of start] by auto
  obtain data' where d: "graph_evaluate g data (num_args ne pp 0) start (ne_rot_scale ne) (ne_isize ne)
      = Some (data', horner (ne_trash_challenge ne) 0 (vs start))" "buffer_for g data'"
    using trash_graph_row [OF g row(1) Cons.prems(2)] by blast
  have "trash_chunk g a ne pp tp (Some data') (Suc start) chunk = imap (Suc start) (\<lambda>i v. Option.bind v (\<lambda>v.
      Some (v * ne_y ne + (horner (ne_trash_challenge ne) 0 (vs i) - (1 - qv i) * tv i)))) chunk"
    by (rule Cons.IH [OF _ d(2)]) (rule Cons.prems(1), simp_all)
  with d row sel show ?case by (simp add: Let_def)
qed simp

lemma trash_pass_rows:
  assumes g: "trash_graph a = Some g" and t: "0 < t" and len: "length values = ne_size ne" "ne_size ne < 2 ^ 31"
    and ok: "trash_selector_ok a" "\<forall>e\<in>trash_exprs a. indexed cs e"
    and rows: "\<And>i. i < ne_size ne \<Longrightarrow> evals_match cs ne pp i (ev i) \<and> index_opt tp i = Some (tv i) \<and>
      trash_expressions (ev i) a (ne_trash_challenge ne) (tv i) = Some (es i)"
  shows "trash_pass t g a ne pp tp values = Some (imap 0 (\<lambda>i v. horner (ne_y ne) v (es i)) values)"
proof -
  obtain q where q: "ta_selector a = Fixed q" "fq_rotation q = 0" using ok(1) by (auto simp: trash_selector_ok_def)
  have row: "\<exists>vs qv. those (map (evaluate_row (num_args ne pp 0) i (ne_rot_scale ne) (ne_isize ne)) (ta_constraint_expressions a)) = Some vs \<and>
      cell (ne_fixed ne) (fq_column_index q) i = Some qv \<and>
      es i = [horner (ne_trash_challenge ne) 0 vs - (1 - qv) * tv i]" if i: "i < ne_size ne" for i
  proof -
    have m: "evals_match cs ne pp i (ev i)" using rows [OF i] by blast
    have vals: "map (verifier_value (ev i)) (ta_constraint_expressions a) =
        map (evaluate_row (num_args ne pp 0) i (ne_rot_scale ne) (ne_isize ne)) (ta_constraint_expressions a)"
      by (intro map_cong refl verifier_value_row [OF m]) (use ok(2) in \<open>auto simp: trash_exprs_def\<close>)
    have sel: "verifier_value (ev i) (ta_selector a) = cell (ne_fixed ne) (fq_column_index q) i"
    proof -
      have "indexed cs (ta_selector a)" using ok(2) by (simp add: trash_exprs_def)
      from verifier_value_row [OF m this, of 0] show ?thesis
        using get_rotation_idx_cur [OF i len(2)] q by (simp add: evaluate_row_def row_closures_def num_args_def)
    qed
    show ?thesis
      using rows [OF i] unfolding trash_expressions_def vals sel
      by (auto simp: bind_eq_Some_conv Let_def horner_def)
  qed
  then obtain vs qv where vq: "\<And>i. i < ne_size ne \<Longrightarrow>
      those (map (evaluate_row (num_args ne pp 0) i (ne_rot_scale ne) (ne_isize ne)) (ta_constraint_expressions a)) = Some (vs i) \<and>
      cell (ne_fixed ne) (fq_column_index q) i = Some (qv i) \<and>
      es i = [horner (ne_trash_challenge ne) 0 (vs i) - (1 - qv i) * tv i]" by metis
  show ?thesis
    unfolding trash_pass_def
    by (rule parallel_rows_Some [OF t trash_chunk_rows [where vs = vs and qv = qv and tv = tv, OF g q(1) _ buffer_for_instance]])
      (use vq rows len in auto)
qed

section \<open>Prover and verifier agree\<close>

lemma foldM_append: "foldM f (xs @ ys) b = Option.bind (foldM f xs b) (foldM f ys)"
  by (induction xs arbitrary: b) (auto split: Option.bind_split)

lemma foldM_rows:
  assumes "\<And>j values. j < length xs \<Longrightarrow> length values = N \<Longrightarrow>
      f (xs ! j) values = Some (imap 0 (\<lambda>i v. horner y v (es i j)) values)"
    and "length values = N"
  shows "foldM f xs values = Some (imap 0 (\<lambda>i v. horner y v (concat (map (es i) [0..<length xs]))) values)"
  using assms
proof (induction xs rule: rev_induct)
  case Nil
  then show ?case by (simp add: imap_id)
next
  case (snoc x xs)
  have "foldM f xs values = Some (imap 0 (\<lambda>i v. horner y v (concat (map (es i) [0..<length xs]))) values)"
  proof (rule snoc.IH [OF _ snoc.prems(2)])
    fix j and vals :: "'a list"
    assume "j < length xs" "length vals = N"
    then show "f (xs ! j) vals = Some (imap 0 (\<lambda>i v. horner y v (es i j)) vals)"
      using snoc.prems(1) [of j vals] by (simp add: nth_append)
  qed
  moreover have "f x vals = Some (imap 0 (\<lambda>i v. horner y v (es i (length xs))) vals)" if "length vals = N" for vals
    using snoc.prems(1) [of "length xs" vals] that by simp
  ultimately show ?case
    using snoc.prems(2) by (simp add: foldM_append imap_imap horner_append)
qed

definition row_match ::
    "'f::field constraint_system \<Rightarrow> nat \<Rightarrow> 'f numerator_env \<Rightarrow> nat \<Rightarrow> 'f lagrange_evals \<Rightarrow> 'f list \<Rightarrow>
     'f proof_polys \<Rightarrow> 'f proof_evals \<Rightarrow> bool" where
  "row_match cs b ne idx l common pp pe \<longleftrightarrow>
     evals_match cs ne pp idx (pe_queries pe) \<and> lagrange_match ne idx l \<and>
     map (\<lambda>coset. index_opt coset idx) (ne_pk_cosets ne) = map Some common \<and>
     (\<exists>r_next r_last. get_rotation_idx idx 1 (ne_rot_scale ne) (ne_isize ne) = Some r_next \<and>
        get_rotation_idx idx (- int (b + 1)) (ne_rot_scale ne) (ne_isize ne) = Some r_last \<and>
        perm_match idx r_next r_last (pp_permutation pp) (pe_permutation pe) \<and>
        list_all2 (lookup_match idx r_next) (pp_lookups pp) (pe_lookups pe)) \<and>
     list_all2 (\<lambda>tp te. index_opt tp idx = Some te) (pp_trash pp) (pe_trash pe)"

definition polys_fit :: "'f::field constraint_system \<Rightarrow> nat \<Rightarrow> 'f proof_polys \<Rightarrow> bool" where
  "polys_fit cs d pp \<longleftrightarrow>
     list_all2 (\<lambda>lc ba. ba_num_chunks ba d = Some (length (helper_cosets lc))) (pp_lookups pp) (lookups cs) \<and>
     length (pp_trash pp) = length (trashcans cs)"

definition arguments_ok :: "'f::field constraint_system \<Rightarrow> bool" where
  "arguments_ok cs \<longleftrightarrow> cs_wf cs \<and>
     (\<forall>ba\<in>set (lookups cs). ba_input_expressions ba \<noteq> []) \<and>
     (\<forall>a\<in>set (trashcans cs). trash_selector_ok a \<and> (\<forall>e\<in>trash_exprs a. indexed cs e))"

definition row_scalars :: "'f::field numerator_env \<Rightarrow> nat \<Rightarrow> 'f verifier_scalars" where
  "row_scalars ne idx = \<lparr>vs_theta = ne_theta ne, vs_beta = ne_beta ne, vs_gamma = ne_gamma ne,
     vs_trash_challenge = ne_trash_challenge ne, vs_x = ne_g_coset ne * ne_omega ne ^ idx, vs_delta = ne_delta ne\<rparr>"


lemma those_concat:
  assumes "those (map f xs) = Some ys"
    and "\<And>x y. x \<in> set xs \<Longrightarrow> f x = Some y \<Longrightarrow> those (map h (p x)) = Some (map snd y)"
  shows "those (map h (concat (map p xs))) = Some (map snd (concat ys))"
  using assms by (induction xs arbitrary: ys) (auto split: option.splits intro!: those_append)

lemma those_tagged:
  "those (map (\<lambda>x. map_option (\<lambda>e. (tag, e)) (h x)) xs) = Some ys \<Longrightarrow> those (map h xs) = Some (map snd ys)"
  by (induction xs arbitrary: ys) (auto split: option.splits)

lemma gate_expressions_values:
  assumes m: "evals_match cs ne pp idx ev" and wf: "cs_wf cs"
    and gs: "those (map (gate_expressions ev) (gates cs)) = Some gs"
  shows "those (map (evaluate_row (num_args ne pp 0) idx (ne_rot_scale ne) (ne_isize ne)) (concat (map polys (gates cs))))
    = Some (map snd (concat gs))"
proof (rule those_concat [OF gs])
  fix g es
  assume g: "g \<in> set (gates cs)" and es: "gate_expressions ev g = Some es"
  have eq: "map (evaluate_row (num_args ne pp 0) idx (ne_rot_scale ne) (ne_isize ne)) (polys g) = map (verifier_value ev) (polys g)"
    by (intro map_cong refl verifier_value_row [OF m, symmetric]) (use wf g in \<open>auto simp: cs_wf_def cs_core_def\<close>)
  show "those (map (evaluate_row (num_args ne pp 0) idx (ne_rot_scale ne) (ne_isize ne)) (polys g)) = Some (map snd es)"
    unfolding eq by (rule those_tagged [OF es [unfolded gate_expressions_def]])
qed

text \<open>The identities of one proof on one row, split into the four parts.\<close>

definition identity_parts ::
    "'f::field constraint_system \<Rightarrow> nat \<Rightarrow> 'f numerator_env \<Rightarrow> nat \<Rightarrow> 'f lagrange_evals \<Rightarrow> 'f list \<Rightarrow> 'f proof_evals \<Rightarrow>
     (nat option \<times> 'f) list list \<Rightarrow> 'f list \<Rightarrow> 'f list list \<Rightarrow> 'f list list \<Rightarrow> bool" where
  "identity_parts cs d ne idx l common pe gs ps ls ts \<longleftrightarrow>
     those (map (gate_expressions (pe_queries pe)) (gates cs)) = Some gs \<and>
     permutation_expressions cs d (pe_queries pe) (ne_delta ne) (ne_beta ne) (ne_gamma ne)
       (ne_g_coset ne * ne_omega ne ^ idx) l (pe_permutation pe) common = Some ps \<and>
     those (map (\<lambda>(le, a). do { a \<leftarrow> chunk_by_degree a d;
       lookup_expressions (pe_queries pe) l a (ne_theta ne) (ne_beta ne) le }) (zip (pe_lookups pe) (lookups cs))) = Some ls \<and>
     those (map (\<lambda>(te, a). trash_expressions (pe_queries pe) a (ne_trash_challenge ne) te)
       (zip (pe_trash pe) (trashcans cs))) = Some ts"

lemma proof_identities_parts:
  assumes "proof_identities cs d (row_scalars ne idx) l common pe = Some ids"
  shows "\<exists>gs ps ls ts. identity_parts cs d ne idx l common pe gs ps ls ts \<and>
    map snd ids = map snd (concat gs) @ ps @ concat ls @ concat ts"
  using assms by (auto simp: proof_identities_def row_scalars_def identity_parts_def bind_eq_Some_conv comp_def)

lemma those_zip_nth:
  assumes "those (map f xs) = Some ys"
  shows "length ys = length xs" and "j < length xs \<Longrightarrow> f (xs ! j) = Some (ys ! j)"
  using assms by (auto simp: those_map_Some list_all2_conv_all_nth)

lemma concat_map_nth: "concat (map (\<lambda>j. xs ! j) [0..<length xs]) = concat xs"
  by (simp add: map_nth)

lemma lookup_pass_rows:
  assumes t: "0 < t" and ok: "arguments_ok cs" and fit: "polys_fit cs d pp" and n: "n < length (pp_lookups pp)"
    and les: "lookup_graphs (lookups cs ! n) d = Some les" and len: "length values = ne_size ne"
    and rows: "\<And>i. i < ne_size ne \<Longrightarrow> row_match cs b ne i (l i) (common i) pp (pe i)"
    and ls: "\<And>i. i < ne_size ne \<Longrightarrow> those (map (\<lambda>(le, a). do { a \<leftarrow> chunk_by_degree a d;
       lookup_expressions (pe_queries (pe i)) (l i) a (ne_theta ne) (ne_beta ne) le })
         (zip (pe_lookups (pe i)) (lookups cs))) = Some (ls i)"
  shows "lookup_pass t les ne pp (pp_lookups pp ! n) values = Some (imap 0 (\<lambda>i v. horner (ne_y ne) v (ls i ! n)) values)"
  unfolding lookup_pass_def
proof (rule parallel_rows_Some [OF t refl])
  fix i v
  assume "i < length values"
  then have i: "i < ne_size ne" using len by simp
  have nl: "n < length (lookups cs)" using fit n by (auto simp: polys_fit_def dest: list_all2_lengthD)
  then have ba: "ba_input_expressions (lookups cs ! n) \<noteq> []" "\<forall>e\<in>lookup_exprs (lookups cs ! n). indexed cs e"
    using ok by (auto simp: arguments_ok_def cs_wf_def cs_core_def)
  obtain r_next where r: "get_rotation_idx i 1 (ne_rot_scale ne) (ne_isize ne) = Some r_next"
    and lm: "list_all2 (lookup_match i r_next) (pp_lookups pp) (pe_lookups (pe i))"
    using rows [OF i] by (auto simp: row_match_def)
  have lm': "lookup_match i r_next (pp_lookups pp ! n) (pe_lookups (pe i) ! n)" "n < length (pe_lookups (pe i))"
    using lm n by (auto simp: list_all2_conv_all_nth)
  obtain ca where ca: "chunk_by_degree (lookups cs ! n) d = Some ca"
    and e: "lookup_expressions (pe_queries (pe i)) (l i) ca (ne_theta ne) (ne_beta ne) (pe_lookups (pe i) ! n) = Some (ls i ! n)"
    using those_zip_nth(2) [OF ls [OF i], of n] nl lm'(2) by (auto simp: bind_eq_Some_conv)
  have "ba_num_chunks (lookups cs ! n) d = Some (length (helper_cosets (pp_lookups pp ! n)))"
    using fit n by (auto simp: polys_fit_def list_all2_conv_all_nth)
  then have "length (helper_cosets (pp_lookups pp ! n)) = length (ca_input_expression_chunks ca)"
    using ca by (auto simp: ba_num_chunks_def chunk_by_degree_def bind_eq_Some_conv split: if_splits)
  then show "lookup_row les ne pp (pp_lookups pp ! n) i v = Some (horner (ne_y ne) v (ls i ! n))"
    using rows [OF i] by (intro lookup_row_horner [OF _ _ r lm'(1) ca les ba _ e]) (simp_all add: row_match_def)
qed


lemma permutation_pass_rows:
  assumes t: "0 < t" and ok: "arguments_ok cs" and len: "length values = ne_size ne" "ne_size ne < 2 ^ 31" "0 < ne_size ne"
    and rows: "\<And>i. i < ne_size ne \<Longrightarrow> row_match cs b ne i (l i) (common i) pp (pe i)"
    and ps: "\<And>i. i < ne_size ne \<Longrightarrow> permutation_expressions cs d (pe_queries (pe i)) (ne_delta ne) (ne_beta ne)
       (ne_gamma ne) (ne_g_coset ne * ne_omega ne ^ i) (l i) (pe_permutation (pe i)) (common i) = Some (ps i)"
  shows "permutation_pass t cs d b ne pp values = Some (imap 0 (\<lambda>i v. horner (ne_y ne) v (ps i)) values)"
proof (cases "pp_permutation pp = []")
  case True
  have "ps i = []" if "i < ne_size ne" for i
    using rows [OF that] ps [OF that] True
    by (auto simp: row_match_def perm_match_def permutation_expressions_def Let_def split: if_splits)
  then have "imap 0 (\<lambda>i v. horner (ne_y ne) v (ps i)) values = imap 0 (\<lambda>i v. v) values"
    using len(1) by (intro imap_cong) simp
  with True show ?thesis by (simp add: permutation_pass_def imap_id)
next
  case False
  have "2 < d" using ps [OF len(3)] by (auto simp: permutation_expressions_def split: if_splits)
  have wf: "cs_wf cs" using ok by (simp add: arguments_ok_def)
  have "permutation_row cs d b ne pp (ne_omega ne ^ i) i v = Some (horner (ne_y ne) v (ps i))"
    if "i < length values" for i v
  proof -
    from that len have i: "i < ne_size ne" by simp
    obtain r_next r_last where r: "get_rotation_idx i 1 (ne_rot_scale ne) (ne_isize ne) = Some r_next"
      "get_rotation_idx i (- int (b + 1)) (ne_rot_scale ne) (ne_isize ne) = Some r_last"
      "perm_match i r_next r_last (pp_permutation pp) (pe_permutation (pe i))"
      using rows [OF i] by (auto simp: row_match_def)
    show ?thesis
      using rows [OF i] by (intro permutation_row_horner [OF wf _ i len(2) r(1,2) _ r(3) False _ ps [OF i]])
        (simp_all add: row_match_def)
  qed
  from parallel_rows_Some [OF t permutation_chunk_imap this] show ?thesis
    using False \<open>2 < d\<close> by (simp add: permutation_pass_def)
qed

lemma trash_passes_rows:
  assumes t: "0 < t" and ok: "arguments_ok cs" and fit: "polys_fit cs d pp" and n: "n < length (pp_trash pp)"
    and g: "trash_graph (trashcans cs ! n) = Some g" and len: "length values = ne_size ne" "ne_size ne < 2 ^ 31"
    and rows: "\<And>i. i < ne_size ne \<Longrightarrow> row_match cs b ne i (l i) (common i) pp (pe i)"
    and ts: "\<And>i. i < ne_size ne \<Longrightarrow> those (map (\<lambda>(te, a). trash_expressions (pe_queries (pe i)) a (ne_trash_challenge ne) te)
       (zip (pe_trash (pe i)) (trashcans cs))) = Some (ts i)"
  shows "trash_pass t g (trashcans cs ! n) ne pp (pp_trash pp ! n) values =
    Some (imap 0 (\<lambda>i v. horner (ne_y ne) v (ts i ! n)) values)"
proof -
  have nt: "n < length (trashcans cs)" using fit n by (simp add: polys_fit_def)
  then have a: "trash_selector_ok (trashcans cs ! n)" "\<forall>e\<in>trash_exprs (trashcans cs ! n). indexed cs e"
    using ok by (auto simp: arguments_ok_def)
  have "evals_match cs ne pp i (pe_queries (pe i)) \<and> index_opt (pp_trash pp ! n) i = Some (pe_trash (pe i) ! n) \<and>
      trash_expressions (pe_queries (pe i)) (trashcans cs ! n) (ne_trash_challenge ne) (pe_trash (pe i) ! n) = Some (ts i ! n)"
    if i: "i < ne_size ne" for i
    using rows [OF i] those_zip_nth(2) [OF ts [OF i], of n] n nt
    by (auto simp: row_match_def list_all2_conv_all_nth)
  then show ?thesis by (rule trash_pass_rows [OF g t len a])
qed

lemma numerator_proof_rows:
  assumes t: "0 < t" and ok: "arguments_ok cs" and fit: "polys_fit cs d pp"
    and evr: "evaluator_new (map polys (gates cs)) (lookups cs) (trashcans cs) d = Some evr"
    and len: "length values = ne_size ne" "ne_size ne < 2 ^ 31" "0 < ne_size ne"
    and rows: "\<And>i. i < ne_size ne \<Longrightarrow> row_match cs b ne i (l i) (common i) pp (pe i)"
    and ids: "\<And>i. i < ne_size ne \<Longrightarrow> proof_identities cs d (row_scalars ne i) (l i) (common i) (pe i) = Some (ids i)"
  shows "numerator_proof t evr cs d b ne pp values = Some (imap 0 (\<lambda>i v. horner (ne_y ne) v (map snd (ids i))) values)"
proof -
  obtain g les tgs where g: "custom_gates_graph (map polys (gates cs)) = Some g"
    and les: "those (map (\<lambda>l. lookup_graphs l d) (lookups cs)) = Some les"
    and tgs: "those (map trash_graph (trashcans cs)) = Some tgs"
    and evr_eq: "evr = \<lparr>custom_gates = g, ev_lookups = les, ev_trashcans = tgs\<rparr>"
    using evr by (auto simp: evaluator_new_def bind_eq_Some_conv)
  obtain gs ps ls ts where parts: "\<And>i. i < ne_size ne \<Longrightarrow>
      identity_parts cs d ne i (l i) (common i) (pe i) (gs i) (ps i) (ls i) (ts i) \<and>
      map snd (ids i) = map snd (concat (gs i)) @ ps i @ concat (ls i) @ concat (ts i)"
    using proof_identities_parts [OF ids] by metis
  have vals: "those (map (evaluate_row (num_args ne pp 0) i (ne_rot_scale ne) (ne_isize ne)) (concat (map polys (gates cs))))
      = Some (map snd (concat (gs i)))" if i: "i < ne_size ne" for i
    using gate_expressions_values [of cs ne pp i "pe_queries (pe i)" "gs i"] rows [OF i] parts [OF i] ok
    by (simp add: row_match_def identity_parts_def arguments_ok_def)
  note 1 = gates_pass_rows [OF g t len(3) len(1) vals]
  have 2: "permutation_pass t cs d b ne pp vs = Some (imap 0 (\<lambda>i v. horner (ne_y ne) v (ps i)) vs)"
    if "length vs = ne_size ne" for vs
    using parts by (intro permutation_pass_rows [OF t ok that len(2,3) rows]) (auto simp: identity_parts_def)
  have nl: "length (pp_lookups pp) = length (lookups cs)" "length (pp_trash pp) = length (trashcans cs)"
    using fit by (auto simp: polys_fit_def dest: list_all2_lengthD)
  have 3: "foldM (\<lambda>(n, lc) vs. do { le \<leftarrow> index_opt les n; lookup_pass t le ne pp lc vs })
        (zip [0..<length (pp_lookups pp)] (pp_lookups pp)) vs =
      Some (imap 0 (\<lambda>i v. horner (ne_y ne) v (concat (map (\<lambda>j. ls i ! j) [0..<length (lookups cs)]))) vs)"
    if "length vs = ne_size ne" for vs
    using foldM_rows [OF _ that, of "zip [0..<length (pp_lookups pp)] (pp_lookups pp)" _ "ne_y ne" "\<lambda>i j. ls i ! j"]
      lookup_pass_rows [OF t ok fit _ _ _ rows] parts those_zip_nth [OF les] nl(1)
    by (simp add: identity_parts_def index_opt_def)
  have 4: "foldM (\<lambda>(n, tp) vs. do { g \<leftarrow> index_opt tgs n; a \<leftarrow> index_opt (trashcans cs) n; trash_pass t g a ne pp tp vs })
        (zip [0..<length (pp_trash pp)] (pp_trash pp)) vs =
      Some (imap 0 (\<lambda>i v. horner (ne_y ne) v (concat (map (\<lambda>j. ts i ! j) [0..<length (trashcans cs)]))) vs)"
    if "length vs = ne_size ne" for vs
    using foldM_rows [OF _ that, of "zip [0..<length (pp_trash pp)] (pp_trash pp)" _ "ne_y ne" "\<lambda>i j. ts i ! j"]
      trash_passes_rows [OF t ok fit _ _ _ len(2) rows] parts those_zip_nth [OF tgs] nl(2)
    by (simp add: identity_parts_def index_opt_def)
  have "length (ls i) = length (lookups cs)" "length (ts i) = length (trashcans cs)" if i: "i < ne_size ne" for i
    using parts [OF i] rows [OF i] nl
    by (auto simp: identity_parts_def row_match_def dest!: those_zip_nth(1) list_all2_lengthD)
  then have cat: "map snd (ids i) = map snd (concat (gs i)) @ ps i @ concat (map (\<lambda>j. ls i ! j) [0..<length (lookups cs)])
      @ concat (map (\<lambda>j. ts i ! j) [0..<length (trashcans cs)])" if "i < ne_size ne" for i
    using parts [OF that] that by (metis concat_map_nth)
  have "numerator_proof t evr cs d b ne pp values = Some (imap 0 (\<lambda>i v. horner (ne_y ne) v
      (map snd (concat (gs i)) @ ps i @ concat (map (\<lambda>j. ls i ! j) [0..<length (lookups cs)])
      @ concat (map (\<lambda>j. ts i ! j) [0..<length (trashcans cs)]))) values)"
    using 1 2 3 4 len(1) by (simp add: numerator_proof_def evr_eq imap_imap horner_append)
  also have "\<dots> = Some (imap 0 (\<lambda>i v. horner (ne_y ne) v (map snd (ids i))) values)"
    using cat len(1) by (intro arg_cong [of _ _ Some] imap_cong) simp
  finally show ?thesis .
qed

lemma evaluate_numerator_rows:
  assumes t: "0 < t" and ok: "arguments_ok cs" and n: "ne_size ne < 2 ^ 31" "0 < ne_size ne"
    and evr: "evaluator_new (map polys (gates cs)) (lookups cs) (trashcans cs) d = Some evr"
    and fit: "\<forall>pp\<in>set pps. polys_fit cs d pp"
    and rows: "\<And>i. i < ne_size ne \<Longrightarrow> list_all2 (row_match cs b ne i (l i) (common i)) pps (pes i)"
    and ids: "\<And>i. i < ne_size ne \<Longrightarrow>
      partially_evaluate_identities cs d (row_scalars ne i) (l i) (common i) (pes i) = Some (ids i)"
  shows "evaluate_numerator t evr cs d b ne pps = Some (map (\<lambda>i. horner (ne_y ne) 0 (map snd (ids i))) [0..<ne_size ne])"
proof -
  define idss where "idss i = the (those (map (proof_identities cs d (row_scalars ne i) (l i) (common i)) (pes i)))" for i
  have idss: "those (map (proof_identities cs d (row_scalars ne i) (l i) (common i)) (pes i)) = Some (idss i) \<and>
      ids i = concat (idss i)" if "i < ne_size ne" for i
    using ids [OF that] by (auto simp: partially_evaluate_identities_def idss_def)
  have len: "length (pes i) = length pps" "length (idss i) = length pps" if "i < ne_size ne" for i
    using rows [OF that] idss [OF that] by (auto dest!: list_all2_lengthD those_zip_nth(1))
  have nth: "proof_identities cs d (row_scalars ne i) (l i) (common i) (pes i ! j) = Some (idss i ! j)"
    if "i < ne_size ne" "j < length pps" for i j
    using those_zip_nth(2) [of _ "pes i" "idss i" j] idss [OF that(1)] len [OF that(1)] that(2) by simp
  have step: "numerator_proof t evr cs d b ne (pps ! j) vs =
      Some (imap 0 (\<lambda>i v. horner (ne_y ne) v (map snd (idss i ! j))) vs)"
    if "j < length pps" "length vs = ne_size ne" for j vs
    using that fit nth rows
    by (intro numerator_proof_rows [OF t ok _ evr that(2) n, where l = l and common = common and pe = "\<lambda>i. pes i ! j"])
      (auto simp: list_all2_conv_all_nth)
  have cat: "concat (map (\<lambda>j. map snd (idss i ! j)) [0..<length pps]) = map snd (ids i)" if "i < ne_size ne" for i
  proof -
    have "map (\<lambda>j. map snd (idss i ! j)) [0..<length pps] = map (map snd) (map (\<lambda>j. idss i ! j) [0..<length (idss i)])"
      using len [OF that] by simp
    then show ?thesis using idss [OF that] by (simp add: map_nth map_concat)
  qed
  have "evaluate_numerator t evr cs d b ne pps = Some (imap 0 (\<lambda>i v. horner (ne_y ne) v
      (concat (map (\<lambda>j. map snd (idss i ! j)) [0..<length pps]))) (replicate (ne_size ne) 0))"
    unfolding evaluate_numerator_def by (rule foldM_rows [where N = "ne_size ne"]) (simp_all add: step)
  also have "imap 0 (\<lambda>i v. horner (ne_y ne) v (concat (map (\<lambda>j. map snd (idss i ! j)) [0..<length pps])))
      (replicate (ne_size ne) 0) = map (\<lambda>i. horner (ne_y ne) 0 (map snd (ids i))) [0..<ne_size ne]"
    using cat by (intro nth_equalityI) (auto simp: nth_imap)
  finally show ?thesis .
qed

section \<open>Properties\<close>

text \<open>
  C1: the prover and the verifier agree on the identities of the proof. For every number of threads
  and every row of the evaluation domain, the numerator that the prover computes there with its
  compiled graphs is the combination, with powers of \<open>y\<close>, of exactly the identities (gates,
  permutation, lookups and trash arguments, of every proof in order) that the verifier evaluates
  when it is given the values of the columns at that row. In particular no pass of the prover
  panics. The row is the point \<open>g_coset * omega ^ i\<close>; \<open>row_match\<close> says that the verifier's
  evaluations are the entries of the prover's polynomials at that row and its rotations.
\<close>

theorem prover_verifier_agree:
  assumes "0 < num_threads" and "arguments_ok cs" and "0 < ne_size ne" and "ne_size ne < 2 ^ 31"
    and "evaluator_new (map polys (gates cs)) (lookups cs) (trashcans cs) d = Some evr"
    and "\<forall>pp\<in>set pps. polys_fit cs d pp"
    and "\<And>i. i < ne_size ne \<Longrightarrow> list_all2 (row_match cs b ne i (l i) (common i)) pps (pes i)"
    and "\<And>i. i < ne_size ne \<Longrightarrow>
      partially_evaluate_identities cs d (row_scalars ne i) (l i) (common i) (pes i) = Some (ids i)"
  shows "evaluate_numerator num_threads evr cs d b ne pps =
    Some (map (\<lambda>i. foldl (\<lambda>acc e. acc * ne_y ne + e) 0 (map snd (ids i))) [0..<ne_size ne])"
  using evaluate_numerator_rows [OF assms(1,2,4,3,5,6,7,8)] by (simp add: horner_def)

text \<open>The small circuit on a domain of two rows.\<close>

definition demo_env :: "rat numerator_env" where
  "demo_env = \<lparr>ne_size = 2, ne_rot_scale = 1, ne_omega = - 1, ne_g_coset = 3, ne_delta = 7,
     ne_fixed = [[4, 5], [1, 0], [0, 1]], ne_challenges = [], ne_y = 2, ne_beta = 10, ne_gamma = 20,
     ne_theta = 30, ne_trash_challenge = 40, ne_l0 = [1, 0], ne_l_last = [0, 1], ne_l_active_row = [1, 0],
     ne_pk_cosets = [[8, 9], [6, 5]]\<rparr>"

definition demo_polys :: "rat proof_polys" where
  "demo_polys = \<lparr>pp_advice = [[2, 12], [6, 12]], pp_instance = [],
     pp_lookups = [\<lparr>helper_cosets = [[3, 2]], aggregator_coset = [0, 1], multiplicities_coset = [1, 1]\<rparr>],
     pp_trash = [[5, 6]], pp_permutation = [[1, 2], [3, 4]]\<rparr>"

definition demo_evals :: "nat \<Rightarrow> rat proof_evals" where
  "demo_evals i = (let j = 1 - i in
     \<lparr>pe_queries = \<lparr>fixed_evals = [[4, 5] ! i, [1, 0] ! i, [0, 1] ! i],
        advice_evals = [[2, 12] ! i, [6, 12] ! i, [2, 12] ! j], instance_evals = [], challenge_evals = []\<rparr>,
      pe_permutation =
       [\<lparr>permutation_product_eval = [1, 2] ! i, permutation_product_next_eval = [1, 2] ! j,
          permutation_product_last_eval = Some ([1, 2] ! j)\<rparr>,
        \<lparr>permutation_product_eval = [3, 4] ! i, permutation_product_next_eval = [3, 4] ! j,
          permutation_product_last_eval = None\<rparr>],
      pe_lookups = [\<lparr>multiplicities_eval = 1, helper_evals = [[3, 2] ! i],
        accumulator_eval = [0, 1] ! i, accumulator_next_eval = [0, 1] ! j\<rparr>],
      pe_trash = [[5, 6] ! i]\<rparr>)"

definition demo_lagrange :: "nat \<Rightarrow> rat lagrange_evals" where
  "demo_lagrange i = \<lparr>l_0 = [1, 0] ! i, l_last = [0, 1] ! i, l_blind = 0\<rparr>"

definition demo_common :: "nat \<Rightarrow> rat list" where
  "demo_common i = [[8, 9] ! i, [6, 5] ! i]"

definition demo_ids :: "nat \<Rightarrow> (nat option \<times> rat) list" where
  "demo_ids i = (if i = 0
     then [(Some 1, 0), (None, 0), (None, 0), (None, 1), (None, 152), (None, - 364), (None, 0),
           (None, 1018), (None, - 27), (None, - 9)]
     else [(Some 1, 0), (None, 0), (None, 12), (None, 0), (None, 0), (None, 0), (None, 1),
           (None, 494), (None, 0), (None, 0)])"

lemma demo_rot: "get_rotation_idx 0 r 1 2 = Some (nat (r mod 2))" "get_rotation_idx 1 r 1 2 = Some (nat ((r + 1) mod 2))"
  if "r \<in> {- 9, 0, 1}"
  using that by (auto simp: get_rotation_idx_def as_i32_def i32_ok_def Let_def)

lemma demo_row_match:
  "i < 2 \<Longrightarrow> row_match demo_fixed_cs 8 demo_env i (demo_lagrange i) (demo_common i) demo_polys (demo_evals i)"
  by (auto simp: less_2_cases_iff row_match_def evals_match_def evals_for_def lagrange_match_def
      perm_match_def lookup_match_def demo_env_def demo_polys_def demo_evals_def demo_lagrange_def
      demo_common_def demo_cs_defs as_i32_small demo_rot [simplified] cell_def index_opt_def upt_rec)

lemma demo_identities:
  "i < 2 \<Longrightarrow> partially_evaluate_identities demo_fixed_cs 3 (row_scalars demo_env i) (demo_lagrange i)
     (demo_common i) [demo_evals i] = Some (demo_ids i)"
proof -
  have "\<forall>i\<in>{0, 1}. partially_evaluate_identities demo_fixed_cs 3 (row_scalars demo_env i) (demo_lagrange i)
     (demo_common i) [demo_evals i] = Some (demo_ids i)"
    by code_simp
  then show "i < 2 \<Longrightarrow> ?thesis" by (auto simp: less_2_cases_iff)
qed

lemma demo_arguments_ok: "arguments_ok demo_fixed_cs"
  using configured_wf [OF demo_fixed_configured]
  by (auto simp: arguments_ok_def demo_cs_defs trash_selector_ok_def trash_exprs_def points_at_def upt_rec)

lemma demo_fit: "polys_fit demo_fixed_cs 3 demo_polys"
  by code_simp

theorem prover_verifier_agree_witness:
  "\<exists>evr. evaluator_new (map polys (gates demo_fixed_cs)) (lookups demo_fixed_cs) (trashcans demo_fixed_cs) 3 = Some evr
    \<and> evaluate_numerator 4 evr demo_fixed_cs 3 8 demo_env [demo_polys] = Some [3113, 3520]"
proof -
  have "evaluator_new (map polys (gates demo_fixed_cs)) (lookups demo_fixed_cs) (trashcans demo_fixed_cs) 3 \<noteq> None"
    by code_simp
  then obtain evr where evr: "evaluator_new (map polys (gates demo_fixed_cs)) (lookups demo_fixed_cs)
      (trashcans demo_fixed_cs) 3 = Some evr" by auto
  have n: "ne_size demo_env = 2" by (simp add: demo_env_def)
  have "evaluate_numerator 4 evr demo_fixed_cs 3 8 demo_env [demo_polys] =
      Some (map (\<lambda>i. foldl (\<lambda>acc e. acc * ne_y demo_env + e) 0 (map snd (demo_ids i))) [0..<ne_size demo_env])"
    by (rule prover_verifier_agree [OF _ demo_arguments_ok _ _ evr,
          where l = demo_lagrange and common = demo_common and pes = "\<lambda>i. [demo_evals i]"])
      (simp_all add: n demo_row_match demo_identities demo_fit)
  also have "\<dots> = Some [3113, 3520]" by (simp add: n) (simp add: demo_ids_def demo_env_def upt_rec)
  finally show ?thesis using evr by blast
qed

end
