(* ===== verification/Sample_Field.thy ===== *)
theory Sample_Field
  imports Midfall_Prelude
begin

text \<open>
  The prime field of order 97, on which the witnesses of the development run. The program is generic
  over fields with a large power of two in the order of the multiplicative group and a cube root of
  unity (\<open>WithSmallOrderMulGroup<3>\<close>); \<open>97 - 1 = 2 ^ 5 * 3\<close> is the smallest interesting
  instance: \<open>S = 5\<close>, \<open>ROOT_OF_UNITY = 28\<close> (of order 32), \<open>ZETA = DELTA = 35\<close> (of order 3).
\<close>

typedef gf97 = "{0..<97 :: int}"
  morphisms gf_int gf_abs by (rule exI [of _ 0]) simp

setup_lifting type_definition_gf97

lemma gf_int_range [simp]: "0 \<le> gf_int x" "gf_int x < 97"
  using gf_int [of x] by auto

text \<open>The inverses of 0 to 96.\<close>

definition inverse_table :: "int list" where
  "inverse_table =
     [0, 1, 49, 65, 73, 39, 81, 14, 85, 54, 68, 53, 89, 15, 7, 13, 91, 40, 27, 46, 34, 37, 75, 38,
      93, 66, 56, 18, 52, 87, 55, 72, 94, 50, 20, 61, 62, 21, 23, 5, 17, 71, 67, 88, 86, 69, 19, 64,
      95, 2, 33, 78, 28, 11, 9, 30, 26, 80, 92, 74, 76, 35, 36, 77, 47, 3, 25, 42, 10, 45, 79, 41,
      31, 4, 59, 22, 60, 63, 51, 70, 57, 6, 84, 90, 82, 8, 44, 29, 43, 12, 83, 16, 58, 24, 32, 48,
      96]"

definition inverse_mod97 :: "int \<Rightarrow> int" where
  "inverse_mod97 x = inverse_table ! nat (x mod 97) mod 97"

lemma inverse_mod97_range: "inverse_mod97 x \<in> {0..<97}"
  by (simp add: inverse_mod97_def)

lemma inverse_mod97_zero: "inverse_mod97 0 = 0"
  by (simp add: inverse_mod97_def inverse_table_def)

lemma inverse_mod97_inverts:
  assumes "x \<in> {0..<97}" and "x \<noteq> 0"
  shows "inverse_mod97 x * x mod 97 = 1"
proof -
  have "list_all (\<lambda>(i, y). y * int i mod 97 = 1) (tl (zip [0..<97] inverse_table))"
    by (simp add: inverse_table_def upt_rec)
  then have "\<forall>i<96. inverse_table ! Suc i * int (Suc i) mod 97 = 1"
    by (simp add: list_all_length inverse_table_def nth_tl)
  moreover have "nat x = Suc (nat (x - 1))" "nat (x - 1) < 96" "int (Suc (nat (x - 1))) = x" using assms by auto
  ultimately have "inverse_table ! nat x * x mod 97 = 1" by metis
  then show ?thesis using assms by (simp add: inverse_mod97_def mod_simps)
qed

instantiation gf97 :: field
begin

lift_definition zero_gf97 :: gf97 is 0 by simp
lift_definition one_gf97 :: gf97 is 1 by simp
lift_definition plus_gf97 :: "gf97 \<Rightarrow> gf97 \<Rightarrow> gf97" is "\<lambda>x y. (x + y) mod 97" by simp
lift_definition uminus_gf97 :: "gf97 \<Rightarrow> gf97" is "\<lambda>x. (- x) mod 97" by simp
lift_definition minus_gf97 :: "gf97 \<Rightarrow> gf97 \<Rightarrow> gf97" is "\<lambda>x y. (x - y) mod 97" by simp
lift_definition times_gf97 :: "gf97 \<Rightarrow> gf97 \<Rightarrow> gf97" is "\<lambda>x y. (x * y) mod 97" by simp
lift_definition inverse_gf97 :: "gf97 \<Rightarrow> gf97" is inverse_mod97 by (rule inverse_mod97_range)

definition divide_gf97 :: "gf97 \<Rightarrow> gf97 \<Rightarrow> gf97" where
  "divide_gf97 x y = x * inverse y"

instance
proof
  fix a b c :: gf97
  show "a * b * c = a * (b * c)" by transfer (simp add: mod_simps mult.assoc)
  show "a * b = b * a" by transfer (simp add: mult.commute)
  show "1 * a = a" by transfer simp
  show "a + b + c = a + (b + c)" by transfer (simp add: mod_simps add.assoc)
  show "a + b = b + a" by transfer (simp add: add.commute)
  show "0 + a = a" by transfer simp
  show "- a + a = 0" by transfer (simp add: mod_simps)
  show "a - b = a + - b" by transfer (simp add: mod_simps)
  show "(a + b) * c = a * c + b * c" by transfer (simp add: mod_simps distrib_right)
  show "(0 :: gf97) \<noteq> 1" by transfer simp
  show "divide a b = a * inverse b" by (simp add: divide_gf97_def)
  show "inverse (0 :: gf97) = 0" by transfer (rule inverse_mod97_zero)
  show "inverse a * a = 1" if "a \<noteq> 0"
    using that by transfer (rule inverse_mod97_inverts)
qed

end

instantiation gf97 :: linorder
begin

lift_definition less_eq_gf97 :: "gf97 \<Rightarrow> gf97 \<Rightarrow> bool" is "(\<le>)" .
lift_definition less_gf97 :: "gf97 \<Rightarrow> gf97 \<Rightarrow> bool" is "(<)" .

instance by standard (transfer; auto)+

end

text \<open>Numerals are read modulo 97, and closed terms evaluate.\<close>

lemma gf_int_numeral [simp]: "gf_int (numeral k) = numeral k mod 97"
proof (induction k)
  case One
  then show ?case by (simp add: one_gf97.rep_eq)
next
  case (Bit0 k)
  then show ?case by (simp only: numeral_Bit0 plus_gf97.rep_eq mod_simps)
next
  case (Bit1 k)
  then show ?case by (simp only: numeral_Bit1 plus_gf97.rep_eq one_gf97.rep_eq numeral_One mod_simps)
qed

lemmas gf_int_ops [simp] = zero_gf97.rep_eq one_gf97.rep_eq plus_gf97.rep_eq minus_gf97.rep_eq
  uminus_gf97.rep_eq times_gf97.rep_eq inverse_gf97.rep_eq

lemma gf_int_power [simp]: "gf_int (x ^ n) = gf_int x ^ n mod 97"
  by (induction n) (simp_all add: mod_simps)

lemma gf_eq_iff: "x = y \<longleftrightarrow> gf_int x = gf_int y"
  by (simp add: gf_int_inject)

end
