(* ===== verification/Fft.thy ===== *)
theory Fft
  imports Poly_Arith Sample_Field "HOL-Library.Monad_Syntax"
begin

text \<open>
  The radix-2 fast Fourier transform of \<open>curves/src/fft.rs\<close>: the bit-reversal permutation, the table of
  twiddle factors, and the two ways of running the butterflies, iteratively when there are at least as
  many threads as levels and by parallel recursion otherwise. The program is generic over groups
  with a scalar multiplication (field elements or curve points): \<open>smul\<close> stands for \<open>*= &scalar\<close>,
  and the laws that the transform relies on form the locale \<open>fft_group\<close>. \<open>None\<close> is a panic.
\<close>

section \<open>The code\<close>

fun bitreverse_loop :: "nat \<Rightarrow> nat \<Rightarrow> nat \<Rightarrow> nat" where
  "bitreverse_loop 0 r n = r"
| "bitreverse_loop (Suc l) r n = bitreverse_loop l (2 * r + n mod 2) (n div 2)"

definition bitreverse :: "nat \<Rightarrow> nat \<Rightarrow> nat" where
  "bitreverse n l = bitreverse_loop l 0 n"

definition swap_at :: "nat \<Rightarrow> nat \<Rightarrow> 'a list \<Rightarrow> 'a list" where
  "swap_at i j xs = xs[i := xs ! j, j := xs ! i]"

definition reorder :: "nat \<Rightarrow> 'a list \<Rightarrow> 'a list" where
  "reorder log_n a =
     fold (\<lambda>k a. let rk = bitreverse k log_n in if k < rk then swap_at rk k a else a) [0..<length a] a"

text \<open>
  One butterfly step on the two halves of a block: the first pair has twiddle factor one, the pair
  \<open>i + 1\<close> the factor \<open>twiddles[(i + 1) * twiddle_chunk]\<close>. \<open>zip\<close> leaves the tail of a longer half as it is.
\<close>

definition butterfly ::
    "('s \<Rightarrow> 'g \<Rightarrow> 'g) \<Rightarrow> nat \<Rightarrow> 's list \<Rightarrow> 'g::ab_group_add list \<Rightarrow> 'g list \<Rightarrow> 'g list option" where
  "butterfly smul twiddle_chunk twiddles left right =
     (case (left, right) of
        (a # left, b # right) \<Rightarrow>
          do { pairs \<leftarrow> those (imap 0 (\<lambda>i (a, b). do { w \<leftarrow> index_opt twiddles ((i + 1) * twiddle_chunk);
                 Some (a + smul w b, a - smul w b) }) (zip left right));
               Some ((a + b) # map fst pairs @ drop (length right) left @
                     (a - b) # map snd pairs @ drop (length left) right) }
      | _ \<Rightarrow> None)"

text \<open>With \<open>n < 2\<close> the source recurses without end; it never calls itself or is called so.\<close>

function recursive_butterfly_arithmetic ::
    "('s \<Rightarrow> 'g \<Rightarrow> 'g) \<Rightarrow> 'g::ab_group_add list \<Rightarrow> nat \<Rightarrow> nat \<Rightarrow> 's list \<Rightarrow> 'g list option" where
  "recursive_butterfly_arithmetic smul a n twiddle_chunk twiddles =
     (if n < 2 then None
      else if n = 2 then (case a of x # y # rest \<Rightarrow> Some ((x + y) # (x - y) # rest) | _ \<Rightarrow> None)
      else if length a < n div 2 then None
      else do { left \<leftarrow> recursive_butterfly_arithmetic smul (take (n div 2) a) (n div 2) (twiddle_chunk * 2) twiddles;
                right \<leftarrow> recursive_butterfly_arithmetic smul (drop (n div 2) a) (n div 2) (twiddle_chunk * 2) twiddles;
                butterfly smul twiddle_chunk twiddles left right })"
  by pat_completeness auto
termination
  by (relation "measure (\<lambda>(_, _, n, _, _). n)") auto

declare recursive_butterfly_arithmetic.simps [simp del]

fun iterative_butterfly ::
    "('s \<Rightarrow> 'g \<Rightarrow> 'g) \<Rightarrow> 's list \<Rightarrow> nat \<Rightarrow> nat \<Rightarrow> nat \<Rightarrow> 'g::ab_group_add list \<Rightarrow> 'g list option" where
  "iterative_butterfly smul twiddles 0 chunk twiddle_chunk a = Some a"
| "iterative_butterfly smul twiddles (Suc steps) chunk twiddle_chunk a =
     do { blocks \<leftarrow> those (map (\<lambda>coeffs.
            if length coeffs < chunk div 2 then None
            else butterfly smul twiddle_chunk twiddles (take (chunk div 2) coeffs) (drop (chunk div 2) coeffs))
            (chunks chunk a));
          iterative_butterfly smul twiddles steps (chunk * 2) (twiddle_chunk div 2) (concat blocks) }"

fun ilog2 :: "nat \<Rightarrow> nat" where
  "ilog2 n = (if n < 2 then 0 else Suc (ilog2 (n div 2)))"

declare ilog2.simps [simp del]

definition best_fft ::
    "('s::comm_ring_1 \<Rightarrow> 'g \<Rightarrow> 'g) \<Rightarrow> nat \<Rightarrow> 'g::ab_group_add list \<Rightarrow> 's \<Rightarrow> nat \<Rightarrow> 'g list option" where
  "best_fft smul threads a omega log_n =
     (if threads = 0 then None
      else let log_threads = ilog2 threads; n = length a in
        if n \<noteq> 2 ^ log_n then None
        else let a = reorder log_n a;
                 twiddles = powers (n div 2) omega 1
             in if log_n \<le> log_threads then iterative_butterfly smul twiddles log_n 2 (n div 2) a
                else recursive_butterfly_arithmetic smul a n 1 twiddles)"

section \<open>Bit reversal\<close>

lemma bitreverse_loop_acc: "bitreverse_loop l r n = 2 ^ l * r + bitreverse_loop l 0 n"
proof (induction l arbitrary: r n)
  case (Suc l)
  show ?case
    using Suc [of "2 * r + n mod 2" "n div 2"] Suc [of "n mod 2" "n div 2"] by (simp add: algebra_simps)
qed simp

lemma bitreverse_0 [simp]: "bitreverse n 0 = 0"
  by (simp add: bitreverse_def)

lemma bitreverse_low: "bitreverse n (Suc l) = 2 ^ l * (n mod 2) + bitreverse (n div 2) l"
  unfolding bitreverse_def using bitreverse_loop_acc [of l "n mod 2" "n div 2"] by simp

lemma bitreverse_lt: "bitreverse n l < 2 ^ l"
proof (induction l arbitrary: n)
  case (Suc l)
  have "2 ^ l * (n mod 2) \<le> 2 ^ l * 1" by (intro mult_le_mono2) simp
  then show ?case using Suc [of "n div 2"] unfolding bitreverse_low power_Suc by linarith
qed simp

lemma bitreverse_high: "bitreverse n (Suc l) = 2 * bitreverse n l + (n div 2 ^ l) mod 2"
proof (induction l arbitrary: n)
  case (Suc l)
  have "bitreverse n (Suc (Suc l)) = 2 ^ Suc l * (n mod 2) + bitreverse (n div 2) (Suc l)"
    by (rule bitreverse_low)
  also have "\<dots> = 2 * (2 ^ l * (n mod 2) + bitreverse (n div 2) l) + (n div 2 ^ Suc l) mod 2"
    by (simp add: Suc div_mult2_eq)
  finally show ?case by (simp only: bitreverse_low [of n l])
qed (simp add: bitreverse_low)

lemma bitreverse_mod: "bitreverse (n mod 2 ^ l) l = bitreverse n l"
proof (induction l arbitrary: n)
  case (Suc l)
  have "n mod 2 ^ Suc l div 2 = (n div 2) mod 2 ^ l"
    by (simp add: mod_mult2_eq)
  moreover have "n mod 2 ^ Suc l mod 2 = n mod 2" by (simp add: mod_mod_cancel)
  ultimately show ?case by (simp only: bitreverse_low Suc)
qed simp

lemma bitreverse_involution: "n < 2 ^ l \<Longrightarrow> bitreverse (bitreverse n l) l = n"
proof (induction l arbitrary: n)
  case (Suc l)
  let ?m = "bitreverse n (Suc l)"
  have m: "?m = 2 ^ l * (n mod 2) + bitreverse (n div 2) l" by (rule bitreverse_low)
  then have "?m mod 2 ^ l = bitreverse (n div 2) l" "?m div 2 ^ l = n mod 2"
    using bitreverse_lt [of "n div 2" l] by simp_all
  then have "bitreverse ?m (Suc l) = 2 * bitreverse (bitreverse (n div 2) l) l + n mod 2"
    by (metis bitreverse_high bitreverse_mod mod_mod_trivial)
  also have "bitreverse (bitreverse (n div 2) l) l = n div 2"
    using Suc by simp
  finally show ?case by simp
qed simp

lemma length_swap_at [simp]: "length (swap_at i j xs) = length xs"
  by (simp add: swap_at_def)

lemma nth_swap_at:
  "i < length xs \<Longrightarrow> j < length xs \<Longrightarrow> swap_at i j xs ! m = (if m = j then xs ! i else if m = i then xs ! j else xs ! m)"
  by (auto simp: swap_at_def nth_list_update)

text \<open>After \<open>k\<close> rounds the pairs whose smaller position is below \<open>k\<close> have been exchanged.\<close>

lemma reorder_prefix:
  assumes "length a = 2 ^ l" and "k \<le> length a"
  defines "step \<equiv> (\<lambda>k (a :: 'a list). let rk = bitreverse k l in if k < rk then swap_at rk k a else a)"
  shows "length (fold step [0..<k] a) = length a \<and>
    (\<forall>i<length a. fold step [0..<k] a ! i = a ! (if min i (bitreverse i l) < k then bitreverse i l else i))"
  using assms(2)
proof (induction k)
  case (Suc k)
  let ?b = "fold step [0..<k] a" and ?rk = "bitreverse k l"
  have rk: "?rk < length a" "bitreverse ?rk l = k"
    using Suc.prems assms(1) bitreverse_lt bitreverse_involution by simp_all
  have IH: "length ?b = length a"
    "\<And>i. i < length a \<Longrightarrow> ?b ! i = a ! (if min i (bitreverse i l) < k then bitreverse i l else i)"
    using Suc by auto
  have step: "step k ?b ! i = a ! (if min i (bitreverse i l) < Suc k then bitreverse i l else i)"
    if i: "i < length a" for i
  proof (cases "k < ?rk")
    case True
    have "bitreverse i l = k \<longleftrightarrow> i = ?rk" using rk i assms(1) bitreverse_involution by metis
    then show ?thesis
      using True rk i IH Suc.prems by (auto simp: step_def nth_swap_at min_def)
  next
    case False
    have "min i (bitreverse i l) = k \<Longrightarrow> bitreverse i l = i"
      using False rk i assms(1) bitreverse_involution by (metis le_antisym min.cobounded1 min.cobounded2 min_def not_less)
    then show ?thesis using False IH(2) [OF i] by (auto simp: step_def less_Suc_eq)
  qed
  have "length (step k ?b) = length a" using IH(1) by (simp add: step_def Let_def)
  then show ?case using step by simp
qed simp

lemma nth_reorder:
  assumes "length a = 2 ^ l" and "i < length a"
  shows "reorder l a ! i = a ! bitreverse i l"
proof -
  have "min i (bitreverse i l) < length a" using assms by simp
  then show ?thesis
    using reorder_prefix [OF assms(1) order_refl] assms(2) by (simp add: reorder_def)
qed

lemma length_reorder [simp]: "length (reorder l a) = length a"
proof -
  have "length (fold (\<lambda>k a. let rk = bitreverse k l in if k < rk then swap_at rk k a else a) ks a) = length a" for ks
    by (induction ks arbitrary: a) (simp_all add: Let_def)
  then show ?thesis by (simp add: reorder_def)
qed

section \<open>The transform that is computed\<close>

text \<open>The value of the polynomial with coefficients \<open>xs\<close> at \<open>w ^ i\<close>.\<close>

definition dft :: "('s::comm_ring_1 \<Rightarrow> 'g \<Rightarrow> 'g::ab_group_add) \<Rightarrow> 's \<Rightarrow> 'g list \<Rightarrow> nat \<Rightarrow> 'g" where
  "dft smul w xs i = (\<Sum>j<length xs. smul (w ^ (i * j)) (xs ! j))"

definition evens :: "'a list \<Rightarrow> 'a list" where
  "evens xs = map (\<lambda>i. xs ! (2 * i)) [0..<length xs div 2]"

definition odds :: "'a list \<Rightarrow> 'a list" where
  "odds xs = map (\<lambda>i. xs ! (2 * i + 1)) [0..<length xs div 2]"

lemma length_evens_odds [simp]: "length (evens xs) = length xs div 2" "length (odds xs) = length xs div 2"
  by (simp_all add: evens_def odds_def)

lemma reorder_split:
  assumes "length xs = 2 ^ Suc l"
  shows "reorder (Suc l) xs = reorder l (evens xs) @ reorder l (odds xs)"
proof (rule nth_equalityI)
  have len: "length (reorder (Suc l) xs) = 2 ^ Suc l" "length (reorder l (evens xs)) = 2 ^ l"
    "length (reorder l (odds xs)) = 2 ^ l"
    using assms by simp_all
  then show "length (reorder (Suc l) xs) = length (reorder l (evens xs) @ reorder l (odds xs))" by simp
  fix i assume "i < length (reorder (Suc l) xs)"
  then have i: "i < 2 ^ Suc l" using len by simp
  have top: "reorder (Suc l) xs ! i = xs ! bitreverse i (Suc l)"
    by (rule nth_reorder) (use assms i in simp_all)
  show "reorder (Suc l) xs ! i = (reorder l (evens xs) @ reorder l (odds xs)) ! i"
  proof (cases "i < 2 ^ l")
    case True
    then show ?thesis
      using top len nth_reorder [of "evens xs" l i] assms bitreverse_lt [of i l]
      by (simp add: nth_append bitreverse_high evens_def)
  next
    case False
    then have "i div 2 ^ l = 1" "i mod 2 ^ l = i - 2 ^ l" using i
      by (simp_all add: div_nat_eqI mod_nat_eqI le_mod_geq)
    then have "bitreverse i (Suc l) = 2 * bitreverse (i - 2 ^ l) l + 1"
      using bitreverse_mod [of i l] by (simp add: bitreverse_high)
    then show ?thesis
      using top len False i nth_reorder [of "odds xs" l "i - 2 ^ l"] assms bitreverse_lt [of "i - 2 ^ l" l]
      by (simp add: nth_append odds_def)
  qed
qed

lemma sum_even_odd: "(\<Sum>j<2 * m. f j) = (\<Sum>j<m. f (2 * j)) + (\<Sum>j<m. f (2 * j + 1))" for f :: "nat \<Rightarrow> 'g::comm_monoid_add"
  by (induction m) (simp_all add: algebra_simps)

locale fft_group =
  fixes smul :: "'s::comm_ring_1 \<Rightarrow> 'g::ab_group_add \<Rightarrow> 'g"
  assumes smul_one: "smul 1 g = g"
    and smul_mult: "smul (a * b) g = smul a (smul b g)"
    and smul_add_right: "smul a (g + h) = smul a g + smul a h"
    and smul_add_left: "smul (a + b) g = smul a g + smul b g"
begin

lemma smul_zero_right: "smul a 0 = 0"
  using smul_add_right [of a 0 0] by simp

lemma smul_zero_left: "smul 0 g = 0"
  using smul_add_left [of 0 0 g] by simp

lemma smul_minus_left: "smul (- a) g = - smul a g"
  using smul_add_left [of a "- a" g] smul_zero_left by (simp add: minus_unique)

lemma smul_sum: "smul a (\<Sum>j<m. f j) = (\<Sum>j<m. smul a (f j))" for m :: nat
  by (induction m) (simp_all add: smul_zero_right smul_add_right)

lemma dft_split:
  assumes "length xs = 2 * m"
  shows "dft smul w xs i = dft smul (w ^ 2) (evens xs) i + smul (w ^ i) (dft smul (w ^ 2) (odds xs) i)"
proof -
  have e: "(\<Sum>j<m. smul (w ^ (i * (2 * j))) (xs ! (2 * j))) = dft smul (w ^ 2) (evens xs) i"
    unfolding dft_def using assms
    by (intro sum.cong) (simp_all add: evens_def flip: power_mult add: ac_simps)
  have "smul (w ^ (i * (2 * j + 1))) g = smul (w ^ i) (smul ((w ^ 2) ^ (i * j)) g)" for j g
    by (simp add: power_add ac_simps flip: smul_mult power_mult)
  then have "(\<Sum>j<m. smul (w ^ (i * (2 * j + 1))) (xs ! (2 * j + 1))) = smul (w ^ i) (dft smul (w ^ 2) (odds xs) i)"
    unfolding dft_def smul_sum using assms by (intro sum.cong) (simp_all add: odds_def)
  then show ?thesis
    using e sum_even_odd [of "\<lambda>j. smul (w ^ (i * j)) (xs ! j)" m] by (simp add: dft_def assms)
qed

lemma dft_period: "w ^ length xs = 1 \<Longrightarrow> dft smul w xs (i + length xs) = dft smul w xs i"
  unfolding dft_def by (intro sum.cong refl) (simp add: distrib_right power_add power_mult)

lemma dft_halves:
  assumes "length xs = 2 * m" and "w ^ m = - 1"
  shows "map (dft smul w xs) [0..<2 * m] =
    map (\<lambda>i. dft smul (w ^ 2) (evens xs) i + smul (w ^ i) (dft smul (w ^ 2) (odds xs) i)) [0..<m] @
    map (\<lambda>i. dft smul (w ^ 2) (evens xs) i - smul (w ^ i) (dft smul (w ^ 2) (odds xs) i)) [0..<m]"
proof (rule nth_equalityI)
  fix i assume "i < length (map (dft smul w xs) [0..<2 * m])"
  then have i: "i < 2 * m" by simp
  have "(w ^ 2) ^ m = (w ^ m) ^ 2" by (simp add: mult.commute flip: power_mult)
  then have per: "(w ^ 2) ^ m = 1" using assms(2) by simp
  show "map (dft smul w xs) [0..<2 * m] ! i = (map (\<lambda>i. dft smul (w ^ 2) (evens xs) i + smul (w ^ i) (dft smul (w ^ 2) (odds xs) i)) [0..<m] @
    map (\<lambda>i. dft smul (w ^ 2) (evens xs) i - smul (w ^ i) (dft smul (w ^ 2) (odds xs) i)) [0..<m]) ! i"
  proof (cases "i < m")
    case True
    then show ?thesis using i dft_split [OF assms(1)] by (simp add: nth_append)
  next
    case False
    then obtain j where j: "i = j + m" "j < m" using i by (metis add.commute add_less_cancel_left le_Suc_ex mult_2 not_less)
    then show ?thesis
      using dft_split [OF assms(1), of w i] dft_period [of "w ^ 2" "evens xs" j] dft_period [of "w ^ 2" "odds xs" j] per assms
      by (simp add: nth_append power_add smul_minus_left)
  qed
qed simp

lemma butterfly_eq:
  assumes len: "length left = m" "length right = m" "0 < m"
    and tw: "\<And>i. i < m \<Longrightarrow> index_opt twiddles (i * tc) = Some (w ^ i)"
  shows "butterfly smul tc twiddles left right =
    Some (map (\<lambda>i. left ! i + smul (w ^ i) (right ! i)) [0..<m] @ map (\<lambda>i. left ! i - smul (w ^ i) (right ! i)) [0..<m])"
proof -
  obtain a ls b rs where eq: "left = a # ls" "right = b # rs" using len by (cases left; cases right) auto
  obtain k where k: "m = Suc k" "length ls = k" "length rs = k" using len eq by auto
  have "those (imap 0 (\<lambda>i (a, b). do { w \<leftarrow> index_opt twiddles ((i + 1) * tc); Some (a + smul w b, a - smul w b) }) (zip ls rs))
      = Some (imap 0 (\<lambda>i (a, b). (a + smul (w ^ Suc i) b, a - smul (w ^ Suc i) b)) (zip ls rs))"
    by (intro those_imap_cong) (use tw [of "Suc _"] k in \<open>simp add: split_beta\<close>)
  moreover have "map g (imap 0 (\<lambda>i (a, b). (a + smul (w ^ Suc i) b, a - smul (w ^ Suc i) b)) (zip ls rs))
      = map (\<lambda>i. g (ls ! i + smul (w ^ Suc i) (rs ! i), ls ! i - smul (w ^ Suc i) (rs ! i))) [0..<k]" for g :: "'g \<times> 'g \<Rightarrow> 'g"
    by (rule nth_equalityI) (simp_all add: k nth_imap)
  ultimately show ?thesis
    unfolding butterfly_def eq by (simp add: k smul_one upt_conv_Cons map_Suc_upt [symmetric] del: upt_Suc)
qed

end

text \<open>The two schedules compute the same transform.\<close>

lemma chunks_concat:
  assumes "0 < n" and "\<And>b. b \<in> set bs \<Longrightarrow> length b = n"
  shows "chunks n (concat bs) = bs"
  using assms(2)
proof (induction bs)
  case (Cons b bs)
  then have "length b = n" "b \<noteq> []" using assms(1) by auto
  then show ?case using Cons assms(1) by (simp add: chunks.simps [of n "b @ concat bs"])
qed simp

fun parts :: "nat \<Rightarrow> 'a list \<Rightarrow> 'a list list" where
  "parts 0 xs = [xs]"
| "parts (Suc d) xs = concat (map (\<lambda>x. [evens x, odds x]) (parts d xs))"

lemma parts_split: "parts (Suc d) xs = parts d (evens xs) @ parts d (odds xs)"
  by (induction d) simp_all

lemma parts_length: "length xs = 2 ^ l \<Longrightarrow> d \<le> l \<Longrightarrow> p \<in> set (parts d xs) \<Longrightarrow> length p = 2 ^ (l - d)"
proof (induction d arbitrary: p)
  case (Suc d)
  then obtain q where q: "q \<in> set (parts d xs)" "p = evens q \<or> p = odds q" by auto
  then have "length q = 2 ^ Suc (l - Suc d)" using Suc by (simp add: Suc_diff_Suc)
  then show ?case using q by auto
qed simp

lemma reorder_parts: "length xs = 2 ^ l \<Longrightarrow> reorder l xs = concat (parts l xs)"
proof (induction l arbitrary: xs)
  case 0
  then show ?case by (simp add: reorder_def)
next
  case (Suc l)
  then show ?case using reorder_split [of xs l] by (simp add: parts_split del: parts.simps(2))
qed

lemma concat_map_pairs: "concat (map f (concat (map (\<lambda>x. [g x, h x]) xs))) = concat (map (\<lambda>x. f (g x) @ f (h x)) xs)"
  by (induction xs) simp_all

lemma those_map_cong: "(\<And>x. x \<in> set xs \<Longrightarrow> f x = Some (g x)) \<Longrightarrow> those (map f xs) = Some (map g xs)"
  by (induction xs) simp_all

lemma recursive_unfold:
  "2 \<le> m \<Longrightarrow> length left = m \<Longrightarrow>
   recursive_butterfly_arithmetic smul (left @ right) (2 * m) tc twiddles =
     do { left \<leftarrow> recursive_butterfly_arithmetic smul left m (2 * tc) twiddles;
          right \<leftarrow> recursive_butterfly_arithmetic smul right m (2 * tc) twiddles;
          butterfly smul tc twiddles left right }"
  by (simp add: recursive_butterfly_arithmetic.simps [of smul "left @ right"] mult.commute)

lemma iterative_unfold:
  assumes "0 < m" and "\<And>p. p \<in> set ps \<Longrightarrow> length (f p) = m \<and> length (g p) = m"
    and "\<And>p. p \<in> set ps \<Longrightarrow> butterfly smul tc twiddles (f p) (g p) = Some (h p)"
  shows "iterative_butterfly smul twiddles (Suc d) (2 * m) tc (concat (map (\<lambda>p. f p @ g p) ps)) =
    iterative_butterfly smul twiddles d (2 * m * 2) (tc div 2) (concat (map h ps))"
proof -
  have "chunks (2 * m) (concat (map (\<lambda>p. f p @ g p) ps)) = map (\<lambda>p. f p @ g p) ps"
    by (rule chunks_concat) (use assms(1,2) in auto)
  moreover have "those (map (\<lambda>coeffs. if length coeffs < 2 * m div 2 then None
      else butterfly smul tc twiddles (take (2 * m div 2) coeffs) (drop (2 * m div 2) coeffs)) (map (\<lambda>p. f p @ g p) ps)) = Some (map h ps)"
    unfolding map_map by (rule those_map_cong) (simp add: assms(2,3))
  ultimately show ?thesis unfolding iterative_butterfly.simps by (simp only: bind.bind_lunit)
qed

lemma powers_index:
  fixes omega :: "'s::comm_ring_1"
  assumes "tc * (2 * m) = n" and "0 < n" and "i < m"
  shows "index_opt (powers (n div 2) omega 1) (i * tc) = Some ((omega ^ tc) ^ i)"
proof -
  have "n div 2 = m * tc" "0 < tc" using assms by auto
  then have "i * tc < n div 2" using assms(3) by simp
  then show ?thesis by (simp add: index_opt_def powers_nth mult.commute flip: power_mult)
qed

context fft_group
begin

lemma combine_parts:
  assumes len: "length xs = 2 * m" "0 < m" and n: "tc * (2 * m) = n" "0 < n" and root: "omega ^ (n div 2) = - 1"
  shows "butterfly smul tc (powers (n div 2) omega 1)
      (map (dft smul (omega ^ (2 * tc)) (evens xs)) [0..<m]) (map (dft smul (omega ^ (2 * tc)) (odds xs)) [0..<m])
    = Some (map (dft smul (omega ^ tc) xs) [0..<2 * m])"
proof -
  have w: "(omega ^ tc) ^ m = - 1" "(omega ^ tc) ^ 2 = omega ^ (2 * tc)"
    using root n(1) by (auto simp: mult.commute mult.left_commute simp flip: power_mult)
  show ?thesis
    unfolding dft_halves [OF len(1) w(1)] w(2)
    by (subst butterfly_eq [where m = m and w = "omega ^ tc"])
      (use len powers_index [OF n] in \<open>simp_all\<close>)
qed

lemma recursive_dft:
  assumes "length xs = 2 ^ Suc l" and "tc * 2 ^ Suc l = n" and n: "0 < n" and root: "omega ^ (n div 2) = - 1"
  shows "recursive_butterfly_arithmetic smul (reorder (Suc l) xs) (2 ^ Suc l) tc (powers (n div 2) omega 1)
    = Some (map (dft smul (omega ^ tc) xs) [0..<2 ^ Suc l])"
  using assms(1,2)
proof (induction l arbitrary: xs tc)
  case 0
  obtain x y where xs: "xs = [x, y]" using 0(1) by (auto simp: length_Suc_conv numeral_2_eq_2)
  have "omega ^ tc = - 1" using root 0(2) by auto
  then show ?case
    by (simp add: recursive_butterfly_arithmetic.simps xs reorder_def bitreverse_low dft_def numeral_2_eq_2
        smul_one smul_minus_left)
next
  case (Suc l)
  have len: "length (evens xs) = 2 ^ Suc l" "length (odds xs) = 2 ^ Suc l" using Suc.prems by simp_all
  have tc: "2 * tc * 2 ^ Suc l = n" using Suc.prems by simp
  have lens: "length (reorder (Suc l) (evens xs)) = 2 ^ Suc l" "length (reorder (Suc l) (odds xs)) = 2 ^ Suc l"
    using len by simp_all
  have "butterfly smul tc (powers (n div 2) omega 1)
      (map (dft smul (omega ^ (2 * tc)) (evens xs)) [0..<2 ^ Suc l]) (map (dft smul (omega ^ (2 * tc)) (odds xs)) [0..<2 ^ Suc l])
    = Some (map (dft smul (omega ^ tc) xs) [0..<2 * 2 ^ Suc l])"
    by (rule combine_parts) (use Suc.prems n root in auto)
  moreover have "(2 :: nat) \<le> 2 ^ Suc l" by simp
  ultimately show ?case
    unfolding reorder_split [OF Suc.prems(1)] power_Suc [of 2 "Suc l"]
    by (simp only: recursive_unfold [OF _ lens(1)] Suc.IH [OF len(1) tc] Suc.IH [OF len(2) tc]
        bind.bind_lunit)
qed

lemma iterative_dft:
  assumes len: "length xs = 2 ^ l" and d: "d \<le> l" and root: "0 < l \<Longrightarrow> omega ^ (2 ^ l div 2) = - 1"
  shows "iterative_butterfly smul (powers (2 ^ l div 2) omega 1) d (2 ^ (Suc l - d)) (2 ^ d div 2)
      (concat (map (\<lambda>p. map (dft smul (omega ^ 2 ^ d) p) [0..<2 ^ (l - d)]) (parts d xs)))
    = Some (map (dft smul omega xs) [0..<2 ^ l])"
  using d
proof (induction d)
  case 0
  then show ?case by simp
next
  case (Suc d)
  let ?m = "2 ^ (l - Suc d) :: nat"
  let ?f = "\<lambda>p. map (dft smul (omega ^ 2 ^ Suc d) p) [0..<?m]"
  have l: "l - d = Suc (l - Suc d)" "0 < l" using Suc.prems by auto
  have comb: "butterfly smul (2 ^ d) (powers (2 ^ l div 2) omega 1) (?f (evens p)) (?f (odds p))
      = Some (map (dft smul (omega ^ 2 ^ d) p) [0..<2 * ?m])" if "p \<in> set (parts d xs)" for p
  proof -
    have "length p = 2 * ?m" using parts_length [OF len _ that] Suc.prems l by simp
    moreover have "2 ^ d * (2 * ?m) = 2 ^ l" using Suc.prems by (simp flip: power_add power_Suc)
    ultimately show ?thesis using combine_parts [of p ?m "2 ^ d" "2 ^ l" omega] root l(2) by simp
  qed
  have "concat (map ?f (parts (Suc d) xs)) = concat (map (\<lambda>p. ?f (evens p) @ ?f (odds p)) (parts d xs))"
    by (simp add: concat_map_pairs)
  moreover have "2 ^ (Suc l - Suc d) = 2 * ?m" "2 ^ Suc d div 2 = (2 :: nat) ^ d" "2 * ?m = 2 ^ (l - d)"
    "2 * ?m * 2 = 2 ^ (Suc l - d)"
    using l Suc.prems by (simp_all add: Suc_diff_le)
  moreover have "iterative_butterfly smul (powers (2 ^ l div 2) omega 1) (Suc d) (2 * ?m) (2 ^ d)
      (concat (map (\<lambda>p. ?f (evens p) @ ?f (odds p)) (parts d xs)))
    = iterative_butterfly smul (powers (2 ^ l div 2) omega 1) d (2 * ?m * 2) (2 ^ d div 2)
      (concat (map (\<lambda>p. map (dft smul (omega ^ 2 ^ d) p) [0..<2 * ?m]) (parts d xs)))"
    by (rule iterative_unfold [OF _ _ comb]) simp_all
  ultimately show ?case using Suc.IH Suc.prems by (simp only: Suc_leD)
qed

lemma best_fft_dft:
  assumes t: "0 < threads" and len: "length a = 2 ^ log_n" and root: "0 < log_n \<Longrightarrow> omega ^ (2 ^ log_n div 2) = - 1"
  shows "best_fft smul threads a omega log_n = Some (map (dft smul omega a) [0..<2 ^ log_n])"
proof (cases "log_n \<le> ilog2 threads")
  case True
  have "map (dft smul (omega ^ 2 ^ log_n) p) [0..<2 ^ (log_n - log_n)] = p" if "p \<in> set (parts log_n a)" for p
  proof -
    have "length p = 1" using parts_length [OF len order_refl that] by simp
    then obtain x where "p = [x]" by (auto simp: length_Suc_conv)
    then show ?thesis by (simp add: dft_def smul_one)
  qed
  then have "concat (map (\<lambda>p. map (dft smul (omega ^ 2 ^ log_n) p) [0..<2 ^ (log_n - log_n)]) (parts log_n a)) = reorder log_n a"
    by (simp add: reorder_parts [OF len] map_idI)
  then show ?thesis
    using iterative_dft [OF len order_refl root] t len True by (simp add: best_fft_def Let_def)
next
  case False
  then obtain l where l: "log_n = Suc l" by (cases log_n) auto
  show ?thesis
    using recursive_dft [of a l 1 "2 ^ log_n" omega] t len root False l by (simp add: best_fft_def Let_def)
qed

end

section \<open>Field elements\<close>

interpretation field_fft: fft_group "(*) :: 'f::comm_ring_1 \<Rightarrow> 'f \<Rightarrow> 'f"
  by unfold_locales (simp_all add: algebra_simps)

text \<open>\<open>omega\<close> has multiplicative order \<open>2 ^ log_n\<close>.\<close>

definition root_of_order :: "'f::field \<Rightarrow> nat \<Rightarrow> bool" where
  "root_of_order omega n \<longleftrightarrow> omega ^ n = 1 \<and> (\<forall>m<n. 0 < m \<longrightarrow> omega ^ m \<noteq> 1)"

lemma root_half:
  assumes "root_of_order omega (2 ^ k)" and "0 < k"
  shows "omega ^ (2 ^ k div 2) = - 1"
proof -
  obtain l where k: "k = Suc l" using assms(2) by (cases k) auto
  have "(omega ^ 2 ^ l) ^ 2 = 1" using assms(1) k by (simp add: root_of_order_def power_mult mult.commute flip: power_mult)
  moreover have "omega ^ 2 ^ l \<noteq> 1" using assms(1) k by (simp add: root_of_order_def)
  ultimately show ?thesis using k by (simp add: power2_eq_1_iff)
qed

lemma dft_poly_eval: "dft (*) w xs i = poly_eval xs (w ^ i)"
  unfolding dft_def poly_eval_sum power_mult by (intro sum.cong refl mult.commute)

lemma best_fft_eval:
  assumes "0 < threads" and "length a = 2 ^ log_n" and "root_of_order omega (2 ^ log_n)"
  shows "best_fft (*) threads a omega log_n = Some (map (\<lambda>i. poly_eval a (omega ^ i)) [0..<2 ^ log_n])"
  using field_fft.best_fft_dft [OF assms(1,2)] root_half [OF assms(3)] by (simp add: dft_poly_eval)

text \<open>
  C16: on a vector of length \<open>2 ^ log_n\<close> and with an \<open>omega\<close> of multiplicative order \<open>2 ^ log_n\<close>,
  \<open>best_fft\<close> terminates without panic and replaces the coefficients by the values of the polynomial at
  all powers of \<open>omega\<close>, in order, whatever the number of threads (and so whichever of the two
  schedules runs).
\<close>

theorem best_fft_correct:
  fixes a :: "'f::field list"
  assumes "0 < threads" and "length a = 2 ^ log_n"
    and "omega ^ 2 ^ log_n = 1" and "\<And>m. 0 < m \<Longrightarrow> m < 2 ^ log_n \<Longrightarrow> omega ^ m \<noteq> 1"
  shows "best_fft (*) threads a omega log_n = Some (map (\<lambda>i. \<Sum>j<2 ^ log_n. a ! j * (omega ^ i) ^ j) [0..<2 ^ log_n])"
proof -
  have "root_of_order omega (2 ^ log_n)" using assms(3,4) by (simp add: root_of_order_def)
  then show ?thesis using best_fft_eval [OF assms(1,2)] assms(2) by (simp add: poly_eval_sum)
qed

theorem best_fft_correct_witness:
  "best_fft (*) 2 [1, 2, 3, 4] (22 :: gf97) 2 = Some [10, 51, 95, 42]
   \<and> best_fft (*) 8 [1, 2, 3, 4] (22 :: gf97) 2 = Some [10, 51, 95, 42]"
proof -
  have "(22 :: gf97) ^ 2 ^ 2 = 1" by (simp add: gf_eq_iff)
  moreover have "(22 :: gf97) ^ m \<noteq> 1" if "0 < m" "m < 2 ^ 2" for m
  proof -
    have "m = 1 \<or> m = 2 \<or> m = 3" using that by auto
    then show ?thesis by (auto simp: gf_eq_iff)
  qed
  ultimately have "best_fft (*) t [1, 2, 3, 4] (22 :: gf97) 2 =
      Some (map (\<lambda>i. \<Sum>j<2 ^ 2. [1, 2, 3, 4] ! j * (22 ^ i) ^ j) [0..<2 ^ 2])" if "0 < t" for t
    using best_fft_correct [of t "[1, 2, 3, 4]" 2 "22 :: gf97"] that by simp
  then show ?thesis by (simp add: numeral_eq_Suc upt_rec gf_eq_iff)
qed

end
