(* ===== verification/Evaluation_Domain.thy ===== *)
theory Evaluation_Domain
  imports Fft
begin

text \<open>
  The evaluation domain of \<open>proofs/src/poly/domain.rs\<close>: the constants computed by \<open>new\<close>, the changes of
  basis between coefficients, values on the domain and values on the coset of the extended domain,
  the division by the vanishing polynomial, rotations and the values of the Lagrange polynomials.

  The constants of the field (\<open>S\<close>, \<open>ROOT_OF_UNITY\<close>, \<open>ZETA\<close>) are a record; \<open>BatchInvert\<close> of the \<open>ff\<close>
  crate is the parameter \<open>batch_invert\<close>. A polynomial is the list of its values. \<open>None\<close> is a panic (a
  failed assertion, or an arithmetic overflow, which panics in a debug build).
\<close>

section \<open>Construction\<close>

record 'f field_params =
  param_S :: nat
  root_of_unity :: 'f
  param_zeta :: 'f

record 'f domain =
  dom_n :: nat
  dom_k :: nat
  extended_k :: nat
  dom_omega :: 'f
  dom_omega_inv :: 'f
  extended_omega :: 'f
  extended_omega_inv :: 'f
  g_coset :: 'f
  g_coset_inv :: 'f
  quotient_poly_degree :: nat
  ifft_divisor :: 'f
  extended_ifft_divisor :: 'f
  t_evaluations :: "'f list"
  barycentric_weight :: 'f

function extend_k :: "nat \<Rightarrow> nat \<Rightarrow> nat" where
  "extend_k ek bound = (if 2 ^ ek < bound then extend_k (ek + 1) bound else ek)"
  by pat_completeness auto
termination
proof (relation "measure (\<lambda>(ek, bound). bound - ek)")
  fix ek bound :: nat
  assume "2 ^ ek < bound"
  then have "ek < bound" using less_exp [of ek] by (rule order.strict_trans [rotated])
  then show "((ek + 1, bound), ek, bound) \<in> measure (\<lambda>(ek, bound). bound - ek)" by simp
qed simp

declare extend_k.simps [simp del]

definition square_times :: "nat \<Rightarrow> 'f::field \<Rightarrow> 'f" where
  "square_times m x = ((\<lambda>w. w * w) ^^ m) x"

text \<open>The loop that collects \<open>cur\<close> until it is back at \<open>orig\<close>; \<open>None\<close> if that never happens.\<close>

partial_function (option) t_loop :: "'f::field \<Rightarrow> 'f \<Rightarrow> 'f list \<Rightarrow> 'f \<Rightarrow> 'f list option" where
  "t_loop orig step ts cur =
     (let ts = ts @ [cur]; cur = cur * step in if cur = orig then Some ts else t_loop orig step ts cur)"

definition domain_new ::
    "('f list \<Rightarrow> 'f list) \<Rightarrow> 'f::field field_params \<Rightarrow> nat \<Rightarrow> nat \<Rightarrow> 'f domain option" where
  "domain_new batch_invert params j k =
     (if j = 0 \<or> 64 \<le> k \<or> 2 ^ 63 < 2 ^ k * (j - 1) then None
      else let quotient_degree = j - 1; n = 2 ^ k; ek = extend_k k (n * quotient_degree) in
        if param_S params < ek then None
        else let ext = square_times (param_S params - ek) (root_of_unity params);
                 w = square_times (ek - k) ext;
                 g = param_zeta params
             in do { ts \<leftarrow> t_loop (g ^ n) (ext ^ n) [] (g ^ n);
                     if length ts \<noteq> 2 ^ (ek - k) then None
                     else let ts = map (\<lambda>t. t - 1) ts;
                              inverted = batch_invert (ts @ [of_nat (2 ^ k), of_nat (2 ^ ek), of_nat n, ext, w]);
                              rest = drop (length ts) inverted
                          in Some \<lparr>dom_n = n, dom_k = k, extended_k = ek, dom_omega = w, dom_omega_inv = rest ! 4,
                               extended_omega = ext, extended_omega_inv = rest ! 3, g_coset = g,
                               g_coset_inv = g * g, quotient_poly_degree = quotient_degree,
                               ifft_divisor = rest ! 0, extended_ifft_divisor = rest ! 1,
                               t_evaluations = take (length ts) inverted, barycentric_weight = rest ! 2\<rparr> })"

section \<open>Operations\<close>

definition extended_len :: "'f domain \<Rightarrow> nat" where
  "extended_len d = 2 ^ extended_k d"

definition lagrange_from_vec :: "'f domain \<Rightarrow> 'f list \<Rightarrow> 'f list option" where
  "lagrange_from_vec d values = (if length values = dom_n d then Some values else None)"

definition coeff_from_vec :: "'f domain \<Rightarrow> 'f list \<Rightarrow> 'f list option" where
  "coeff_from_vec d values = (if length values = dom_n d then Some values else None)"

definition empty_coeff :: "'f::field domain \<Rightarrow> 'f list" where
  "empty_coeff d = replicate (dom_n d) 0"

definition empty_lagrange :: "'f::field domain \<Rightarrow> 'f list" where
  "empty_lagrange d = replicate (dom_n d) 0"

definition constant_lagrange :: "'f domain \<Rightarrow> 'f \<Rightarrow> 'f list" where
  "constant_lagrange d scalar = replicate (dom_n d) scalar"

definition empty_extended :: "'f::field domain \<Rightarrow> 'f list" where
  "empty_extended d = replicate (extended_len d) 0"

definition constant_extended :: "'f domain \<Rightarrow> 'f \<Rightarrow> 'f list" where
  "constant_extended d scalar = replicate (extended_len d) scalar"

definition ifft :: "nat \<Rightarrow> 'f::field list \<Rightarrow> 'f \<Rightarrow> nat \<Rightarrow> 'f \<Rightarrow> 'f list option" where
  "ifft threads a omega_inv log_n divisor =
     do { a \<leftarrow> best_fft (*) threads a omega_inv log_n;
          parallelize threads a (\<lambda>a _. map (\<lambda>x. x * divisor) a) }"

fun zeta_loop :: "'f::field list \<Rightarrow> nat \<Rightarrow> 'f list \<Rightarrow> 'f list" where
  "zeta_loop coset_powers index [] = []"
| "zeta_loop coset_powers index (a # as) =
     (let i = index mod (length coset_powers + 1)
      in (if i \<noteq> 0 then a * coset_powers ! (i - 1) else a) # zeta_loop coset_powers (index + 1) as)"

definition distribute_powers_zeta :: "'f::field domain \<Rightarrow> nat \<Rightarrow> 'f list \<Rightarrow> bool \<Rightarrow> 'f list option" where
  "distribute_powers_zeta d threads a into_coset =
     (let coset_powers = (if into_coset then [g_coset d, g_coset_inv d] else [g_coset_inv d, g_coset d])
      in parallelize threads a (\<lambda>a index. zeta_loop coset_powers index a))"

definition lagrange_to_coeff :: "'f::field domain \<Rightarrow> nat \<Rightarrow> 'f list \<Rightarrow> 'f list option" where
  "lagrange_to_coeff d threads a =
     (if length a \<noteq> 2 ^ dom_k d then None else ifft threads a (dom_omega_inv d) (dom_k d) (ifft_divisor d))"

definition coeff_to_lagrange :: "'f::field domain \<Rightarrow> nat \<Rightarrow> 'f list \<Rightarrow> 'f list option" where
  "coeff_to_lagrange d threads a =
     (if length a \<noteq> 2 ^ dom_k d then None else best_fft (*) threads a (dom_omega d) (dom_k d))"

definition resize :: "nat \<Rightarrow> 'a \<Rightarrow> 'a list \<Rightarrow> 'a list" where
  "resize n x xs = take n xs @ replicate (n - length xs) x"

definition coeff_to_extended :: "'f::field domain \<Rightarrow> nat \<Rightarrow> 'f list \<Rightarrow> 'f list option" where
  "coeff_to_extended d threads a =
     (if length a \<noteq> 2 ^ dom_k d then None
      else do { a \<leftarrow> distribute_powers_zeta d threads a True;
                best_fft (*) threads (resize (extended_len d) 0 a) (extended_omega d) (extended_k d) })"

definition extended_to_coeff :: "'f::field domain \<Rightarrow> nat \<Rightarrow> 'f list \<Rightarrow> 'f list option" where
  "extended_to_coeff d threads a =
     (if length a \<noteq> extended_len d then None
      else do { a \<leftarrow> ifft threads a (extended_omega_inv d) (extended_k d) (extended_ifft_divisor d);
                distribute_powers_zeta d threads a False })"

definition extended_to_lagrange :: "'f::field domain \<Rightarrow> nat \<Rightarrow> 'f list \<Rightarrow> 'f list option" where
  "extended_to_lagrange d threads a =
     (if length a \<noteq> extended_len d then None
      else do { a \<leftarrow> ifft threads a (extended_omega_inv d) (extended_k d) (extended_ifft_divisor d);
                a \<leftarrow> distribute_powers_zeta d threads (take (dom_n d) a) False;
                best_fft (*) threads a (dom_omega d) (dom_k d) })"

text \<open>\<open>index % self.t_evaluations.len()\<close> would panic on an empty table.\<close>

definition divide_by_vanishing_poly :: "'f::field domain \<Rightarrow> nat \<Rightarrow> 'f list \<Rightarrow> 'f list option" where
  "divide_by_vanishing_poly d threads a =
     (if length a \<noteq> extended_len d \<or> t_evaluations d = [] then None
      else parallelize threads a (\<lambda>h index.
             imap index (\<lambda>i x. x * t_evaluations d ! (i mod length (t_evaluations d))) h))"

definition rotate_omega :: "'f::field domain \<Rightarrow> 'f \<Rightarrow> int \<Rightarrow> 'f" where
  "rotate_omega d value rotation =
     (if 0 \<le> rotation then value * dom_omega d ^ nat rotation else value * dom_omega_inv d ^ nat (- rotation))"

definition l_i_range :: "('f list \<Rightarrow> 'f list) \<Rightarrow> 'f::field domain \<Rightarrow> 'f \<Rightarrow> 'f \<Rightarrow> int list \<Rightarrow> 'f list" where
  "l_i_range batch_invert d x xn rotations =
     (let results = batch_invert (map (\<lambda>rotation. x - rotate_omega d 1 rotation) rotations);
          common = (xn - 1) * barycentric_weight d
      in map (\<lambda>(rotation, result). rotate_omega d (result * common) rotation) (zip rotations results))"

definition lagrange_rotate :: "'a list \<Rightarrow> int \<Rightarrow> 'a list option" where
  "lagrange_rotate values rotation =
     (let m = (if rotation < 0 then nat (- rotation) else nat rotation)
      in if length values < m then None
         else Some (if rotation < 0 then rotate (length values - m) values else rotate m values))"

section \<open>The constants\<close>

lemma extend_k_spec:
  "ek \<le> extend_k ek bound \<and> bound \<le> 2 ^ extend_k ek bound \<and> (\<forall>m. ek \<le> m \<longrightarrow> m < extend_k ek bound \<longrightarrow> 2 ^ m < bound)"
proof (induction ek bound rule: extend_k.induct)
  case (1 ek bound)
  show ?case
  proof (cases "2 ^ ek < bound")
    case True
    then have "extend_k ek bound = extend_k (ek + 1) bound" by (subst extend_k.simps) simp
    moreover have "ek \<le> m \<Longrightarrow> m = ek \<or> ek + 1 \<le> m" for m by auto
    ultimately show ?thesis using 1 [OF True] True by force
  next
    case False
    then have "extend_k ek bound = ek" by (subst extend_k.simps) simp
    then show ?thesis using False by simp
  qed
qed

lemma square_times_power: "square_times m x = x ^ 2 ^ m"
  by (induction m) (simp_all add: square_times_def mult_2 power_add)

lemma root_of_order_power:
  assumes "root_of_order r (2 ^ S)" and "e \<le> S"
  shows "root_of_order (r ^ 2 ^ (S - e)) (2 ^ e)"
proof -
  have split: "(2 :: nat) ^ S = 2 ^ (S - e) * 2 ^ e" using assms(2) by (simp flip: power_add)
  have "r ^ (2 ^ (S - e) * m) \<noteq> 1" if "m < 2 ^ e" "0 < m" for m
    using assms(1) that split by (simp add: root_of_order_def)
  then show ?thesis using assms(1) split by (simp add: root_of_order_def flip: power_mult)
qed

lemma root_of_order_nonzero: "root_of_order w n \<Longrightarrow> 0 < n \<Longrightarrow> w \<noteq> 0"
  by (auto simp: root_of_order_def power_0_left)

lemma root_of_order_mod: "root_of_order w n \<Longrightarrow> w ^ (m mod n) = w ^ m"
proof -
  assume "root_of_order w n"
  then have "w ^ (n * (m div n) + m mod n) = w ^ (m mod n)"
    by (simp only: root_of_order_def power_add power_mult power_one mult_1)
  then show ?thesis by (simp only: mult_div_mod_eq)
qed

lemma root_of_order_distinct:
  assumes "root_of_order w n" and "i < n" and "j < n" and "w ^ i = w ^ j"
  shows "i = j"
proof -
  have False if "a < b" "b < n" "w ^ a = w ^ b" for a b
  proof -
    have "w ^ b = w ^ a * w ^ (b - a)" using that(1) by (simp flip: power_add)
    then have "w ^ (b - a) = 1" using that root_of_order_nonzero [OF assms(1)] by simp
    then show False using assms(1) that by (simp add: root_of_order_def)
  qed
  then show ?thesis using assms(2-4) by (metis linorder_neqE_nat)
qed

lemma root_of_order_inverse: "root_of_order w n \<Longrightarrow> root_of_order (inverse w) n"
  by (simp add: root_of_order_def power_inverse)

lemma t_loop_result:
  assumes "root_of_order step m" and "orig \<noteq> 0" and "i < m"
  shows "t_loop orig step (map (\<lambda>j. orig * step ^ j) [0..<i]) (orig * step ^ i) =
    Some (map (\<lambda>j. orig * step ^ j) [0..<m])"
  using assms(3)
proof (induction "m - i" arbitrary: i)
  case 0
  then show ?case by simp
next
  case (Suc d)
  show ?case
  proof (cases "Suc i = m")
    case True
    have "step ^ i * step = 1" using assms(1) by (simp add: root_of_order_def flip: True power_Suc2)
    then show ?thesis by (subst t_loop.simps) (simp add: mult.assoc flip: True)
  next
    case False
    then have "step ^ Suc i \<noteq> 1" using assms(1) Suc.prems by (simp add: root_of_order_def del: power_Suc)
    moreover have "t_loop orig step (map (\<lambda>j. orig * step ^ j) [0..<Suc i]) (orig * step ^ Suc i) =
        Some (map (\<lambda>j. orig * step ^ j) [0..<m])"
      by (rule Suc.hyps(1)) (use Suc False in auto)
    ultimately show ?thesis using assms(2) by (subst t_loop.simps) (simp add: ac_simps)
  qed
qed

lemma of_nat_two_power_nonzero:
  assumes "root_of_order (r :: 'f::field) (2 ^ S)" and "e \<le> S"
  shows "(of_nat (2 ^ e) :: 'f) \<noteq> 0"
proof (cases "e = 0")
  case False
  then have "root_of_order (r ^ 2 ^ (S - 1)) (2 ^ 1)" using root_of_order_power [OF assms(1), of 1] assms(2) by simp
  then have "r ^ 2 ^ (S - 1) \<noteq> 1" "r ^ 2 ^ (S - 1) = - 1"
    using root_half [of "r ^ 2 ^ (S - 1)" 1] by (auto simp: root_of_order_def dest: spec [of _ 1])
  then have "(1 :: 'f) \<noteq> - 1" by metis
  then have "(2 :: 'f) \<noteq> 0" by (metis add.inverse_unique one_add_one)
  then show ?thesis by simp
qed simp

text \<open>What \<open>new\<close> establishes and the operations rely on.\<close>

definition domain_ok :: "'f::field domain \<Rightarrow> bool" where
  "domain_ok d \<longleftrightarrow>
     dom_n d = 2 ^ dom_k d \<and> dom_k d \<le> extended_k d \<and>
     root_of_order (dom_omega d) (2 ^ dom_k d) \<and> root_of_order (extended_omega d) (2 ^ extended_k d) \<and>
     dom_omega d = extended_omega d ^ 2 ^ (extended_k d - dom_k d) \<and>
     dom_omega_inv d = inverse (dom_omega d) \<and> extended_omega_inv d = inverse (extended_omega d) \<and>
     (of_nat (2 ^ extended_k d) :: 'f) \<noteq> 0 \<and>
     ifft_divisor d = inverse (of_nat (2 ^ dom_k d)) \<and> extended_ifft_divisor d = inverse (of_nat (2 ^ extended_k d)) \<and>
     barycentric_weight d = inverse (of_nat (dom_n d)) \<and>
     g_coset d ^ 3 = 1 \<and> g_coset d \<noteq> 1 \<and> g_coset_inv d = g_coset d ^ 2 \<and>
     t_evaluations d = map (\<lambda>i. inverse ((g_coset d * extended_omega d ^ i) ^ dom_n d - 1)) [0..<2 ^ (extended_k d - dom_k d)]"

lemma domain_okD:
  assumes "domain_ok (d :: 'f::field domain)"
  shows "dom_n d = 2 ^ dom_k d" and "dom_k d \<le> extended_k d"
    and "root_of_order (dom_omega d) (2 ^ dom_k d)" and "root_of_order (extended_omega d) (2 ^ extended_k d)"
    and "dom_omega d = extended_omega d ^ 2 ^ (extended_k d - dom_k d)"
    and "dom_omega_inv d = inverse (dom_omega d)" and "extended_omega_inv d = inverse (extended_omega d)"
    and "(of_nat (2 ^ extended_k d) :: 'f) \<noteq> 0"
    and "ifft_divisor d = inverse (of_nat (2 ^ dom_k d))"
    and "extended_ifft_divisor d = inverse (of_nat (2 ^ extended_k d))"
    and "barycentric_weight d = inverse (of_nat (dom_n d))"
    and "g_coset d ^ 3 = 1" and "g_coset d \<noteq> 1" and "g_coset_inv d = g_coset d ^ 2"
    and "t_evaluations d = map (\<lambda>i. inverse ((g_coset d * extended_omega d ^ i) ^ dom_n d - 1)) [0..<2 ^ (extended_k d - dom_k d)]"
  using assms unfolding domain_ok_def by blast+

definition field_params_ok :: "'f::field field_params \<Rightarrow> bool" where
  "field_params_ok p \<longleftrightarrow> root_of_order (root_of_unity p) (2 ^ param_S p) \<and> param_zeta p ^ 3 = 1 \<and> param_zeta p \<noteq> 1"

lemma domain_new_ok:
  assumes inv: "\<And>xs. batch_invert xs = map inverse (xs :: 'f::field list)" and params: "field_params_ok params"
    and ek: "ek = extend_k k (2 ^ k * (j - 1))"
    and pre: "0 < j" "k < 64" "2 ^ k * (j - 1) \<le> 2 ^ 63" "ek \<le> param_S params"
  shows "\<exists>d. domain_new batch_invert params j k = Some d \<and> domain_ok d \<and> dom_k d = k \<and> extended_k d = ek
    \<and> quotient_poly_degree d = j - 1 \<and> g_coset d = param_zeta params"
proof -
  define ext where "ext = root_of_unity params ^ 2 ^ (param_S params - ek)"
  define g where "g = param_zeta params"
  let ?n = "2 ^ k :: nat" and ?m = "2 ^ (ek - k) :: nat"
  have k: "k \<le> ek" using extend_k_spec ek by blast
  have r: "root_of_order (root_of_unity params) (2 ^ param_S params)" and g3: "g ^ 3 = 1" "g \<noteq> 1"
    using params by (auto simp: field_params_ok_def g_def)
  have g0: "g \<noteq> 0" using g3 by auto
  have ext: "root_of_order ext (2 ^ ek)" unfolding ext_def by (rule root_of_order_power [OF r pre(4)])
  have w: "root_of_order (ext ^ ?m) (2 ^ k)" by (rule root_of_order_power [OF ext k])
  have "2 ^ ek = 2 ^ (ek - (ek - k)) * (2 :: nat) ^ (ek - k)" using k by (simp flip: power_add)
  then have step: "root_of_order (ext ^ ?n) ?m" using root_of_order_power [OF ext, of "ek - k"] k by simp
  have ts: "t_loop (g ^ ?n) (ext ^ ?n) [] (g ^ ?n) = Some (map (\<lambda>i. g ^ ?n * (ext ^ ?n) ^ i) [0..<?m])"
    using t_loop_result [OF step, of "g ^ ?n" 0] g0 by simp
  have nz: "(of_nat (2 ^ ek) :: 'f) \<noteq> 0" using of_nat_two_power_nonzero [OF r pre(4)] .
  have te: "g ^ ?n * (ext ^ ?n) ^ i = (g * ext ^ i) ^ ?n" for i
    by (simp add: power_mult_distrib mult.commute flip: power_mult)
  have guard: "\<not> (j = 0 \<or> 64 \<le> k \<or> 2 ^ 63 < 2 ^ k * (j - 1))" "\<not> param_S params < ek" using pre by auto
  show ?thesis
    unfolding domain_new_def Let_def ek [symmetric] if_not_P [OF guard(1)] if_not_P [OF guard(2)]
      square_times_power ext_def [symmetric] g_def [symmetric] ts
    using k w ext nz g3 by (simp add: inv domain_ok_def te comp_def nth_append power2_eq_square)
qed

section \<open>Changes of basis\<close>

text \<open>The powers of a root of unity sum to zero unless the exponent is a multiple of the order.\<close>

lemma root_power_sum:
  fixes w :: "'f::field"
  assumes "root_of_order w n" and "m < n"
  shows "(\<Sum>i<n. (w ^ m) ^ i) = (if m = 0 then of_nat n else 0)"
proof (cases "m = 0")
  case False
  have "(w ^ m) ^ n = (w ^ n) ^ m" by (simp add: mult.commute flip: power_mult)
  then have "w ^ m \<noteq> 1" "(w ^ m) ^ n = 1"
    using assms False by (simp_all add: root_of_order_def)
  then show ?thesis using geometric_sum [of "w ^ m" n] False by simp
qed simp

lemma root_kronecker:
  fixes w :: "'f::field"
  assumes "root_of_order w n" and "i < n" and "j < n"
  shows "(\<Sum>l<n. inverse w ^ (i * l) * w ^ (j * l)) = (if i = j then of_nat n else 0)"
proof -
  have w0: "w \<noteq> 0" and wn: "w ^ n = 1" using root_of_order_nonzero [OF assms(1)] assms by (auto simp: root_of_order_def)
  have "inverse w ^ i = w ^ (n - i)"
    using assms(2) w0 wn by (simp add: power_inverse inverse_eq_divide field_simps flip: power_add)
  then have "inverse w ^ (i * l) * w ^ (j * l) = (w ^ ((n - i + j) mod n)) ^ l" for l
    by (simp add: root_of_order_mod [OF assms(1)] power_mult power_mult_distrib power_add)
  moreover have "(n - i + j) mod n = 0 \<longleftrightarrow> i = j"
    using assms(2,3) by (cases "i \<le> j") (auto simp: mod_if)
  ultimately show ?thesis using root_power_sum [OF assms(1), of "(n - i + j) mod n"] assms(2) by simp
qed

lemma inverse_transform:
  fixes w :: "'f::field"
  assumes "root_of_order w n" and "length xs = n" and "i < n"
  shows "poly_eval (map (\<lambda>l. poly_eval xs (w ^ l)) [0..<n]) (inverse w ^ i) = of_nat n * xs ! i"
proof -
  have "poly_eval (map (\<lambda>l. poly_eval xs (w ^ l)) [0..<n]) (inverse w ^ i) =
      (\<Sum>l<n. (\<Sum>j<n. xs ! j * (w ^ l) ^ j) * (inverse w ^ i) ^ l)"
    by (simp add: poly_eval_sum assms(2))
  also have "\<dots> = (\<Sum>l<n. \<Sum>j<n. xs ! j * (inverse w ^ (i * l) * w ^ (j * l)))"
    by (intro sum.cong refl) (simp add: sum_distrib_left sum_distrib_right ac_simps flip: power_mult)
  also have "\<dots> = (\<Sum>j<n. xs ! j * (\<Sum>l<n. inverse w ^ (i * l) * w ^ (j * l)))"
    by (subst sum.swap) (simp add: sum_distrib_left)
  also have "\<dots> = (\<Sum>j<n. if i = j then xs ! j * of_nat n else 0)"
    by (intro sum.cong refl) (use root_kronecker [OF assms(1,3)] in simp)
  finally show ?thesis using assms(3) by (simp add: mult.commute)
qed

lemma map_scale_imap: "map (\<lambda>x. x * c) xs = imap off (\<lambda>_ x. x * c) xs"
  by (induction xs arbitrary: off) simp_all

lemma ifft_eq:
  assumes "0 < t" and "length a = 2 ^ l" and "root_of_order w (2 ^ l)"
  shows "ifft t a w l c = Some (map (\<lambda>i. poly_eval a (w ^ i) * c) [0..<2 ^ l])"
proof -
  have "parallelize t xs (\<lambda>a _. map (\<lambda>x. x * c) a) = Some (imap 0 (\<lambda>_ x. x * c) xs)" for xs
    by (rule parallelize_pointwise [OF assms(1)]) (rule map_scale_imap)
  then show ?thesis by (simp add: ifft_def best_fft_eval [OF assms] comp_def flip: map_scale_imap)
qed

lemma ifft_of_evaluations:
  fixes w :: "'f::field"
  assumes "0 < t" and "root_of_order w (2 ^ l)" and "(of_nat (2 ^ l) :: 'f) \<noteq> 0" and "length xs = 2 ^ l"
  shows "ifft t (map (\<lambda>i. poly_eval xs (w ^ i)) [0..<2 ^ l]) (inverse w) l (inverse (of_nat (2 ^ l))) = Some xs"
proof -
  have "map (\<lambda>i. poly_eval (map (\<lambda>i. poly_eval xs (w ^ i)) [0..<2 ^ l]) (inverse w ^ i) * inverse (of_nat (2 ^ l))) [0..<2 ^ l] = xs"
    by (rule nth_equalityI) (use assms inverse_transform [OF assms(2,4)] in simp_all)
  then show ?thesis using ifft_eq [OF assms(1) _ root_of_order_inverse [OF assms(2)]] by simp
qed

lemma evaluations_of_ifft:
  fixes w :: "'f::field"
  assumes "0 < t" and "root_of_order w (2 ^ l)" and "(of_nat (2 ^ l) :: 'f) \<noteq> 0" and "length ys = 2 ^ l"
  shows "\<exists>xs. ifft t ys (inverse w) l (inverse (of_nat (2 ^ l))) = Some xs \<and> length xs = 2 ^ l \<and>
    (\<forall>i<2 ^ l. poly_eval xs (w ^ i) = ys ! i)"
proof -
  have "poly_eval (map (\<lambda>i. poly_eval ys (inverse w ^ i) * inverse (of_nat (2 ^ l))) [0..<2 ^ l]) (w ^ i) = ys ! i"
    if "i < 2 ^ l" for i
  proof -
    have "poly_eval (map (\<lambda>i. poly_eval ys (inverse w ^ i)) [0..<2 ^ l]) (inverse (inverse w) ^ i) = of_nat (2 ^ l) * ys ! i"
      by (rule inverse_transform [OF root_of_order_inverse [OF assms(2)] assms(4) that])
    then show ?thesis
      using poly_eval_map_mult [of "inverse (of_nat (2 ^ l))" "map (\<lambda>i. poly_eval ys (inverse w ^ i)) [0..<2 ^ l]" "w ^ i"] assms(3)
      by (simp add: comp_def)
  qed
  then show ?thesis using ifft_eq [OF assms(1,4) root_of_order_inverse [OF assms(2)]] by simp
qed

lemma zeta_power: "g ^ 3 = (1 :: 'f::field) \<Longrightarrow> g ^ i = (if i mod 3 = 0 then 1 else if i mod 3 = 1 then g else g ^ 2)"
proof -
  assume g: "g ^ 3 = 1"
  have "g ^ (3 * (i div 3) + i mod 3) = g ^ (i mod 3)" by (simp only: power_add power_mult g power_one mult_1)
  then have "g ^ i = g ^ (i mod 3)" by (simp only: mult_div_mod_eq)
  moreover have "i mod 3 = 0 \<or> i mod 3 = 1 \<or> i mod 3 = 2" by auto
  ultimately show ?thesis by auto
qed

lemma zeta_loop_imap: "g ^ 3 = 1 \<Longrightarrow> zeta_loop [g, g ^ 2] off as = imap off (\<lambda>i a. a * g ^ i) as"
proof (induction as arbitrary: off)
  case (Cons a as)
  have "off mod 3 = 0 \<or> off mod 3 = 1 \<or> off mod 3 = 2" by auto
  then show ?case using Cons zeta_power [OF Cons.prems, of off] by (auto simp: Let_def)
qed simp

lemma distribute_powers_zeta_eq:
  assumes "domain_ok d" and "0 < t"
  shows "distribute_powers_zeta d t a into = Some (imap 0 (\<lambda>i a. a * (if into then g_coset d else g_coset_inv d) ^ i) a)"
proof -
  have g: "g_coset d ^ 3 = 1" "g_coset_inv d = g_coset d ^ 2" using assms(1) by (auto simp: domain_ok_def)
  have "g_coset_inv d ^ 3 = (g_coset d ^ 3) ^ 2" "g_coset_inv d ^ 2 = g_coset d ^ 3 * g_coset d"
    unfolding g(2) by (simp_all add: eval_nat_numeral)
  then have gi: "g_coset_inv d ^ 3 = 1" "g_coset_inv d ^ 2 = g_coset d" using g(1) by simp_all
  show ?thesis
    unfolding distribute_powers_zeta_def Let_def
    using parallelize_pointwise [OF assms(2) zeta_loop_imap [OF g(1)]] parallelize_pointwise [OF assms(2) zeta_loop_imap [OF gi(1)]]
    by (cases into) (simp_all add: gi(2) flip: g(2))
qed

lemma poly_eval_scaled: "poly_eval (imap off (\<lambda>i a. a * g ^ i) as) x = g ^ off * poly_eval as (g * x)" for x :: "'f::field"
  by (induction as arbitrary: off) (simp_all add: algebra_simps)

lemma poly_eval_resize: "length as \<le> n \<Longrightarrow> poly_eval (resize n 0 as) x = poly_eval as x"
  by (simp add: resize_def poly_eval_append)

lemma length_resize [simp]: "length (resize n x xs) = n"
  by (simp add: resize_def)

text \<open>The points of the coset, and the operations as evaluations.\<close>

abbreviation coset_point :: "'f::field domain \<Rightarrow> nat \<Rightarrow> 'f" where
  "coset_point d i \<equiv> g_coset d * extended_omega d ^ i"

lemma coeff_to_lagrange_eq:
  assumes "domain_ok d" and "0 < t" and "length a = dom_n d"
  shows "coeff_to_lagrange d t a = Some (map (\<lambda>i. poly_eval a (dom_omega d ^ i)) [0..<dom_n d])"
  using best_fft_eval [OF assms(2) _ domain_okD(3) [OF assms(1)], of a] assms(3) domain_okD(1) [OF assms(1)]
  by (simp add: coeff_to_lagrange_def)

lemma of_nat_domain_nonzero:
  assumes "domain_ok (d :: 'f::field domain)"
  shows "(of_nat (2 ^ dom_k d) :: 'f) \<noteq> 0"
proof -
  have "2 ^ extended_k d = (2 :: nat) ^ dom_k d * 2 ^ (extended_k d - dom_k d)"
    using assms by (simp add: domain_ok_def flip: power_add)
  then show ?thesis using assms by (auto simp: domain_ok_def)
qed

lemma lagrange_to_coeff_eq:
  assumes "domain_ok d" and "0 < t" and "length a = dom_n d"
  shows "\<exists>c. lagrange_to_coeff d t a = Some c \<and> length c = dom_n d \<and> (\<forall>i<dom_n d. poly_eval c (dom_omega d ^ i) = a ! i)"
  unfolding lagrange_to_coeff_def domain_okD(6,9) [OF assms(1)]
  using evaluations_of_ifft [OF assms(2) domain_okD(3) [OF assms(1)] of_nat_domain_nonzero [OF assms(1)], of a]
    assms(3) domain_okD(1) [OF assms(1)] by simp

lemma coeff_to_extended_eq:
  assumes "domain_ok d" and "0 < t" and "length a = dom_n d"
  shows "coeff_to_extended d t a = Some (map (\<lambda>i. poly_eval a (coset_point d i)) [0..<extended_len d])"
proof -
  have le: "length (imap 0 (\<lambda>i a. a * g_coset d ^ i) a) \<le> extended_len d" and len: "length a = 2 ^ dom_k d"
    and root: "root_of_order (extended_omega d) (2 ^ extended_k d)"
    using assms by (auto simp: domain_ok_def extended_len_def)
  show ?thesis
    using best_fft_eval [OF assms(2) _ root, of "resize (extended_len d) 0 (imap 0 (\<lambda>i a. a * g_coset d ^ i) a)"]
    by (simp add: coeff_to_extended_def len distribute_powers_zeta_eq [OF assms(1,2)] extended_len_def
        poly_eval_resize [OF le [unfolded extended_len_def]] poly_eval_scaled)
qed

lemma lagrange_to_coeff_evals:
  assumes "domain_ok d" and "0 < t" and "length c = dom_n d"
  shows "lagrange_to_coeff d t (map (\<lambda>i. poly_eval c (dom_omega d ^ i)) [0..<dom_n d]) = Some c"
  unfolding lagrange_to_coeff_def domain_okD(6,9) [OF assms(1)]
  using ifft_of_evaluations [OF assms(2) domain_okD(3) [OF assms(1)] of_nat_domain_nonzero [OF assms(1)], of c]
    assms(3) domain_okD(1) [OF assms(1)] by simp

lemma extended_ifft_evals:
  assumes "domain_ok d" and "0 < t" and "length c = extended_len d"
  shows "ifft t (map (\<lambda>i. poly_eval c (coset_point d i)) [0..<extended_len d]) (extended_omega_inv d) (extended_k d)
    (extended_ifft_divisor d) = Some (imap 0 (\<lambda>i a. a * g_coset d ^ i) c)"
  unfolding domain_okD(7,10) [OF assms(1)]
  using ifft_of_evaluations [OF assms(2) domain_okD(4,8) [OF assms(1)], of "imap 0 (\<lambda>i a. a * g_coset d ^ i) c"] assms(3)
  by (simp add: extended_len_def poly_eval_scaled)

lemma g_coset_inverse: "domain_ok d \<Longrightarrow> g_coset d ^ i * g_coset_inv d ^ i = 1"
proof -
  assume d: "domain_ok d"
  have "g_coset d * g_coset_inv d = g_coset d ^ 3" unfolding domain_okD(14) [OF d] by (simp add: eval_nat_numeral)
  then show ?thesis using domain_okD(12) [OF d] by (simp flip: power_mult_distrib)
qed

lemma distribute_back:
  assumes "domain_ok d" and "0 < t"
  shows "distribute_powers_zeta d t (imap 0 (\<lambda>i a. a * g_coset d ^ i) c) False = Some c"
  by (simp add: distribute_powers_zeta_eq [OF assms] imap_imap mult.assoc g_coset_inverse [OF assms(1)] imap_id)

lemma extended_to_coeff_evals:
  assumes "domain_ok d" and "0 < t" and "length c = extended_len d"
  shows "extended_to_coeff d t (map (\<lambda>i. poly_eval c (coset_point d i)) [0..<extended_len d]) = Some c"
  by (simp add: extended_to_coeff_def extended_ifft_evals [OF assms] distribute_back [OF assms(1,2)])

lemma take_imap: "take n (imap off f xs) = imap off f (take n xs)"
  by (induction xs arbitrary: off n) (simp_all add: take_Cons split: nat.splits)

lemma extended_to_lagrange_evals:
  assumes "domain_ok d" and "0 < t" and "length c = extended_len d"
  shows "extended_to_lagrange d t (map (\<lambda>i. poly_eval c (coset_point d i)) [0..<extended_len d]) =
    coeff_to_lagrange d t (take (dom_n d) c)"
proof -
  have "dom_n d \<le> extended_len d" using domain_okD(1,2) [OF assms(1)] by (simp add: extended_len_def)
  then show ?thesis
    using domain_okD(1) [OF assms(1)] assms(3)
    by (simp add: extended_to_lagrange_def extended_ifft_evals [OF assms] take_imap distribute_back [OF assms(1,2)]
        coeff_to_lagrange_def)
qed

text \<open>The vanishing polynomial has no root on the coset: \<open>g\<close> has order three, \<open>extended_omega\<close> a power of two.\<close>

lemma two_power_mod3: "(2 :: nat) ^ m mod 3 = 1 \<or> (2 :: nat) ^ m mod 3 = 2"
proof (induction m)
  case (Suc m)
  have "2 ^ Suc m mod 3 = 2 * (2 ^ m mod 3) mod (3 :: nat)" by (simp add: mod_mult_right_eq)
  then show ?case using Suc by auto
qed simp

lemma vanishing_nonzero:
  assumes "domain_ok d"
  shows "coset_point d i ^ dom_n d - 1 \<noteq> 0"
proof
  let ?g = "g_coset d" and ?N = "2 ^ dom_k d * 2 ^ extended_k d :: nat"
  assume "coset_point d i ^ dom_n d - 1 = 0"
  then have "(coset_point d i ^ 2 ^ dom_k d) ^ 2 ^ extended_k d = 1" by (simp add: domain_okD(1) [OF assms])
  moreover have "(coset_point d i ^ 2 ^ dom_k d) ^ 2 ^ extended_k d = ?g ^ ?N * (extended_omega d ^ 2 ^ extended_k d) ^ (i * 2 ^ dom_k d)"
    by (simp add: power_mult_distrib ac_simps flip: power_mult)
  ultimately have one: "?g ^ 2 ^ (dom_k d + extended_k d) = 1"
    using domain_okD(4) [OF assms] by (simp add: root_of_order_def power_add)
  have g: "?g ^ 3 = 1" "?g \<noteq> 1" using domain_okD(12,13) [OF assms] by simp_all
  have "?g ^ 2 = 1 \<Longrightarrow> ?g = 1" using g(1) by (simp add: eval_nat_numeral)
  then show False
    using zeta_power [OF g(1), of "2 ^ (dom_k d + extended_k d)"] two_power_mod3 [of "dom_k d + extended_k d"] one g(2) by auto
qed

lemma divide_by_vanishing_poly_eq:
  assumes "domain_ok d" and "0 < t" and "length a = extended_len d"
  shows "divide_by_vanishing_poly d t a = Some (imap 0 (\<lambda>i x. x * inverse (coset_point d i ^ dom_n d - 1)) a)"
proof -
  let ?m = "2 ^ (extended_k d - dom_k d) :: nat"
  have "(2 :: nat) ^ dom_k d = 2 ^ (extended_k d - (extended_k d - dom_k d))" using domain_okD(2) [OF assms(1)] by simp
  then have "root_of_order (extended_omega d ^ dom_n d) ?m"
    using root_of_order_power [OF domain_okD(4) [OF assms(1)], of "extended_k d - dom_k d"] domain_okD(1) [OF assms(1)] by simp
  then have "(extended_omega d ^ dom_n d) ^ (i mod ?m) = (extended_omega d ^ dom_n d) ^ i" for i by (rule root_of_order_mod)
  moreover have "coset_point d i ^ dom_n d = g_coset d ^ dom_n d * (extended_omega d ^ dom_n d) ^ i" for i
    by (simp add: power_mult_distrib mult.commute flip: power_mult)
  ultimately have "t_evaluations d ! (i mod length (t_evaluations d)) = inverse (coset_point d i ^ dom_n d - 1)" for i
    unfolding domain_okD(15) [OF assms(1)] by simp
  then show ?thesis
    using assms(3) parallelize_pointwise [OF assms(2) refl]
    by (simp add: divide_by_vanishing_poly_def domain_okD(15) [OF assms(1)])
qed

lemma imap_map_upt: "imap 0 f (map g [0..<n]) = map (\<lambda>i. f i (g i)) [0..<n]"
  by (rule nth_equalityI) (simp_all add: nth_imap)

text \<open>A successful \<open>new\<close> gives a well-formed domain.\<close>

lemma domain_new_SomeD:
  assumes "\<And>xs. batch_invert xs = map inverse (xs :: 'f::field list)" and "field_params_ok params"
    and "domain_new batch_invert params j k = Some d"
  shows "domain_ok d"
proof -
  have "0 < j" "k < 64" "2 ^ k * (j - 1) \<le> 2 ^ 63" "extend_k k (2 ^ k * (j - 1)) \<le> param_S params"
    using assms(3) by (auto simp: domain_new_def Let_def split: if_splits)
  from domain_new_ok [OF assms(1,2) refl this] show ?thesis using assms(3) by auto
qed

section \<open>Rotations and Lagrange polynomials\<close>

lemma rotate_omega_eq:
  assumes "domain_ok d"
  shows "rotate_omega d x r = x * dom_omega d ^ nat (r mod int (dom_n d))"
proof -
  let ?w = "dom_omega d" and ?n = "dom_n d"
  have root: "root_of_order ?w ?n" and n: "0 < ?n" using domain_okD(1,3) [OF assms] by simp_all
  show ?thesis
  proof (cases "0 \<le> r")
    case True
    then have "nat (r mod int ?n) = nat r mod ?n" by (simp add: nat_mod_distrib)
    then show ?thesis using True root_of_order_mod [OF root, of "nat r"] by (simp add: rotate_omega_def)
  next
    case False
    have "int (nat (r mod int ?n) + nat (- r)) = r mod int ?n - r" using False n by simp
    also have "\<dots> = int ?n * - (r div int ?n)" by (simp add: minus_mult_div_eq_mod [symmetric])
    finally have "int ?n dvd int (nat (r mod int ?n) + nat (- r))" by simp
    then obtain q where q: "nat (r mod int ?n) + nat (- r) = ?n * q" by (metis dvdE int_dvd_int_iff)
    have "?w ^ nat (r mod int ?n) * ?w ^ nat (- r) = 1"
      using root by (simp add: q root_of_order_def power_mult flip: power_add)
    then have "inverse ?w ^ nat (- r) = ?w ^ nat (r mod int ?n)"
      by (simp add: power_inverse inverse_unique mult.commute)
    then show ?thesis using False by (simp add: rotate_omega_def domain_okD(6) [OF assms])
  qed
qed

definition lagrange_value :: "'f::field domain \<Rightarrow> 'f \<Rightarrow> nat \<Rightarrow> 'f" where
  "lagrange_value d x i = (x ^ dom_n d - 1) * dom_omega d ^ i / (of_nat (dom_n d) * (x - dom_omega d ^ i))"

lemma l_i_range_eq:
  assumes "\<And>xs. batch_invert xs = map inverse (xs :: 'f::field list)" and "domain_ok d"
  shows "l_i_range batch_invert d x (x ^ dom_n d) rs = map (\<lambda>r. lagrange_value d x (nat (r mod int (dom_n d)))) rs"
  unfolding l_i_range_def Let_def assms(1) rotate_omega_eq [OF assms(2)] domain_okD(11) [OF assms(2)]
  by (rule nth_equalityI) (simp_all add: lagrange_value_def divide_inverse ac_simps)

lemma barycentric:
  assumes d: "domain_ok d" and len: "length c = dom_n d" and x: "x ^ dom_n d \<noteq> 1"
  shows "(\<Sum>i<dom_n d. poly_eval c (dom_omega d ^ i) * lagrange_value d x i) = poly_eval c x"
proof -
  let ?w = "dom_omega d" and ?n = "dom_n d"
  let ?ev = "map (\<lambda>l. poly_eval c (?w ^ l)) [0..<?n]"
  have root: "root_of_order ?w ?n" using domain_okD(1,3) [OF d] by simp
  have w0: "?w \<noteq> 0" using root_of_order_nonzero [OF root] domain_okD(1) [OF d] by simp
  have wn: "(?w ^ i) ^ ?n = 1" for i
  proof -
    have "(?w ^ i) ^ ?n = (?w ^ ?n) ^ i" by (simp add: mult.commute flip: power_mult)
    then show ?thesis using root by (simp add: root_of_order_def)
  qed
  have nz: "of_nat ?n \<noteq> (0 :: 'a)" using of_nat_domain_nonzero [OF d] domain_okD(1) [OF d] by simp
  have geo: "(\<Sum>j<?n. (x * inverse ?w ^ i) ^ j) = of_nat ?n * lagrange_value d x i" for i
  proof -
    have "x \<noteq> ?w ^ i" using x wn by metis
    then have "x * inverse ?w ^ i \<noteq> 1" using w0 by (simp add: power_inverse field_simps)
    moreover have "(x * inverse ?w ^ i) ^ ?n = x ^ ?n"
      using wn [of i] by (simp add: power_mult_distrib power_inverse)
    moreover have "x * inverse ?w ^ i - 1 = (x - ?w ^ i) / ?w ^ i" using w0 by (simp add: power_inverse field_simps)
    ultimately show ?thesis
      using geometric_sum [of "x * inverse ?w ^ i" ?n] nz by (simp add: lagrange_value_def)
  qed
  have "of_nat ?n * poly_eval c x = (\<Sum>j<?n. (\<Sum>l<?n. poly_eval c (?w ^ l) * (inverse ?w ^ j) ^ l) * x ^ j)"
    using inverse_transform [OF root len] by (simp add: poly_eval_sum [of c x] len sum_distrib_left poly_eval_sum [of ?ev] ac_simps)
  also have "\<dots> = (\<Sum>l<?n. poly_eval c (?w ^ l) * (\<Sum>j<?n. (x * inverse ?w ^ l) ^ j))"
    by (simp add: sum_distrib_left sum_distrib_right power_mult_distrib mult.commute flip: power_mult)
      (subst sum.swap, simp add: ac_simps)
  also have "\<dots> = of_nat ?n * (\<Sum>l<?n. poly_eval c (?w ^ l) * lagrange_value d x l)"
    by (simp add: geo sum_distrib_left ac_simps)
  finally show ?thesis using nz by simp
qed

lemma lagrange_rotate_eq:
  assumes "values \<noteq> []" and "- int (length values) \<le> r" and "r \<le> int (length values)"
  shows "lagrange_rotate values r = Some (rotate (nat (r mod int (length values))) values)"
proof (cases "r < 0")
  case True
  have "rotate (length values - nat (- r)) values = rotate (nat (r mod int (length values))) values"
  proof (cases "nat (- r) = length values")
    case True
    then have "r = - int (length values)" using \<open>r < 0\<close> by simp
    then show ?thesis by simp
  next
    case False
    then have "r mod int (length values) = r + int (length values)"
      using True assms(2) mod_pos_pos_trivial [of "r + int (length values)" "int (length values)"] by simp
    moreover have "nat (r + int (length values)) = length values - nat (- r)" using True by linarith
    ultimately show ?thesis by simp
  qed
  then show ?thesis using True assms(2) by (simp add: lagrange_rotate_def Let_def)
next
  case False
  have "rotate (nat r) values = rotate (nat r mod length values) values" by (rule rotate_conv_mod)
  then show ?thesis using False assms(3) by (simp add: lagrange_rotate_def Let_def nat_mod_distrib)
qed

lemma rotated_coefficients:
  assumes d: "domain_ok d" and "0 < t" and len: "length values = dom_n d"
    and c: "lagrange_to_coeff d t values = Some c"
  shows "lagrange_to_coeff d t (rotate k values) = Some (imap 0 (\<lambda>i a. a * (dom_omega d ^ k) ^ i) c)"
proof -
  let ?c' = "imap 0 (\<lambda>i a. a * (dom_omega d ^ k) ^ i) c"
  have c': "length c = dom_n d" "\<And>i. i < dom_n d \<Longrightarrow> poly_eval c (dom_omega d ^ i) = values ! i"
    using lagrange_to_coeff_eq [OF d assms(2) len] c by auto
  have root: "root_of_order (dom_omega d) (dom_n d)" and n: "0 < dom_n d" using domain_okD(1,3) [OF d] by simp_all
  have "map (\<lambda>i. poly_eval ?c' (dom_omega d ^ i)) [0..<dom_n d] = rotate k values"
  proof (rule nth_equalityI)
    fix i assume "i < length (map (\<lambda>i. poly_eval ?c' (dom_omega d ^ i)) [0..<dom_n d])"
    then have i: "i < dom_n d" by simp
    have "poly_eval ?c' (dom_omega d ^ i) = poly_eval c (dom_omega d ^ ((k + i) mod dom_n d))"
      by (simp add: poly_eval_scaled power_add root_of_order_mod [OF root])
    then show "map (\<lambda>i. poly_eval ?c' (dom_omega d ^ i)) [0..<dom_n d] ! i = rotate k values ! i"
      using i n c'(2) by (simp add: nth_rotate len)
  qed (simp add: len)
  then show ?thesis using lagrange_to_coeff_evals [OF d assms(2), of ?c'] c'(1) by simp
qed

section \<open>Properties\<close>

lemma batch_invert_inverse:
  assumes "\<And>xs. batch_invert xs = map (\<lambda>x. if x = 0 then x else inverse x) (xs :: 'f::field list)"
  shows "batch_invert xs = map inverse xs"
  using assms [of xs] by (auto intro!: map_cong)

text \<open>
  C30: \<open>EvaluationDomain::new\<close>. For a field with a root of unity of order \<open>2 ^ S\<close> and a primitive cube root
  of unity, \<open>new\<close> returns exactly when the arguments do not overflow and the extended domain fits in
  the field; both of its loops end; the extended size is the least power of two that is at least
  \<open>2 ^ k\<close> and \<open>2 ^ k * (j - 1)\<close>; and every constant of the result has its defining property.
\<close>

theorem domain_new_correct:
  fixes j k :: nat
  assumes "\<And>xs. batch_invert xs = map (\<lambda>x. if x = 0 then x else inverse x) (xs :: 'f::field list)"
    and "field_params_ok params"
  defines "ek \<equiv> extend_k k (2 ^ k * (j - 1))"
  shows "(k \<le> ek \<and> 2 ^ k * (j - 1) \<le> 2 ^ ek \<and> (\<forall>m. k \<le> m \<and> 2 ^ k * (j - 1) \<le> 2 ^ m \<longrightarrow> ek \<le> m))
    \<and> (if 0 < j \<and> k < 64 \<and> 2 ^ k * (j - 1) \<le> 2 ^ 63 \<and> ek \<le> param_S params
       then \<exists>d. domain_new batch_invert params j k = Some d \<and> domain_ok d \<and> dom_k d = k \<and> extended_k d = ek
         \<and> quotient_poly_degree d = j - 1 \<and> g_coset d = param_zeta params
       else domain_new batch_invert params j k = None)"
proof -
  have "domain_new batch_invert params j k = None"
    if "\<not> (0 < j \<and> k < 64 \<and> 2 ^ k * (j - 1) \<le> 2 ^ 63 \<and> ek \<le> param_S params)"
    using that by (auto simp: domain_new_def Let_def ek_def)
  moreover have "\<forall>m. k \<le> m \<and> 2 ^ k * (j - 1) \<le> 2 ^ m \<longrightarrow> ek \<le> m"
    unfolding ek_def using extend_k_spec [of k "2 ^ k * (j - 1)"] by (meson linorder_not_less)
  ultimately show ?thesis
    using domain_new_ok [OF batch_invert_inverse [OF assms(1)] assms(2) refl, of j k]
      extend_k_spec [of k "2 ^ k * (j - 1)"] unfolding ek_def [symmetric] by auto
qed

definition sample_params :: "gf97 field_params" where
  "sample_params = \<lparr>param_S = 5, root_of_unity = 28, param_zeta = 35\<rparr>"

lemma sample_root: "root_of_order (28 :: gf97) 32"
proof -
  have "list_all (\<lambda>m. (28 :: gf97) ^ m \<noteq> 1) [1..<32]" by (simp add: upt_rec gf_eq_iff)
  then have "(28 :: gf97) ^ m \<noteq> 1" if "m < 32" "0 < m" for m
    using that by (simp only: list_all_iff set_upt) simp
  then show ?thesis by (simp add: root_of_order_def gf_eq_iff)
qed

lemma sample_params_ok: "field_params_ok sample_params"
  using sample_root by (simp add: field_params_ok_def sample_params_def gf_eq_iff)

abbreviation sample_invert :: "gf97 list \<Rightarrow> gf97 list" where
  "sample_invert \<equiv> map (\<lambda>x. if x = 0 then x else inverse x)"

lemma sample_extend: "extend_k 2 8 = 3"
  by (simp add: extend_k.simps)

theorem domain_new_correct_witness:
  "(\<exists>d. domain_new sample_invert sample_params 3 2 = Some d \<and> domain_ok d \<and> dom_k d = 2 \<and> extended_k d = 3)
   \<and> domain_new sample_invert sample_params 33 2 = None"
proof -
  have "extend_k 2 128 = 7" by (simp add: extend_k.simps)
  then show ?thesis
    using domain_new_correct [of sample_invert sample_params 2 3] domain_new_correct [of sample_invert sample_params 2 33]
      sample_params_ok sample_extend by (auto simp: sample_params_def)
qed

lemma sample_domain: "\<exists>d. domain_new sample_invert sample_params 3 2 = Some d \<and> dom_n d = 4 \<and> extended_len d = 8"
proof -
  have "\<exists>d. domain_new sample_invert sample_params 3 2 = Some d \<and> domain_ok d \<and> dom_k d = 2 \<and> extended_k d = 3"
    using domain_new_ok [OF batch_invert_inverse [OF refl] sample_params_ok, of 3 2 3] sample_extend
    by (auto simp: sample_params_def)
  then show ?thesis by (auto simp: extended_len_def dest: domain_okD(1))
qed

text \<open>
  C29: the changes of basis are inverse to each other: coefficients to values and back, values to
  coefficients and back, coefficients to the extended coset and back (padded with zeros), and from
  the extended coset to the values on the small domain, for every number of threads.
\<close>

theorem basis_changes_roundtrip:
  fixes batch_invert :: "'f::field list \<Rightarrow> 'f list"
  assumes "\<And>xs. batch_invert xs = map (\<lambda>x. if x = 0 then x else inverse x) xs"
    and "field_params_ok params" and "domain_new batch_invert params j k = Some d" and "0 < threads"
    and "length a = dom_n d"
  shows "(\<exists>v. coeff_to_lagrange d threads a = Some v \<and> lagrange_to_coeff d threads v = Some a)
    \<and> (\<exists>c. lagrange_to_coeff d threads a = Some c \<and> coeff_to_lagrange d threads c = Some a)
    \<and> (\<exists>e. coeff_to_extended d threads a = Some e \<and> length e = extended_len d
         \<and> extended_to_coeff d threads e = Some (a @ replicate (extended_len d - dom_n d) 0)
         \<and> extended_to_lagrange d threads e = coeff_to_lagrange d threads a)"
proof -
  have ok: "domain_ok d" using domain_new_SomeD [OF batch_invert_inverse [OF assms(1)] assms(2,3)] .
  obtain c where c: "lagrange_to_coeff d threads a = Some c" "length c = dom_n d" "\<And>i. i < dom_n d \<Longrightarrow> poly_eval c (dom_omega d ^ i) = a ! i"
    using lagrange_to_coeff_eq [OF ok assms(4,5)] by auto
  then have "coeff_to_lagrange d threads c = Some a"
    by (simp add: coeff_to_lagrange_eq [OF ok assms(4)] assms(5) list_eq_iff_nth_eq)
  moreover have le: "dom_n d \<le> extended_len d" using domain_okD(1,2) [OF ok] by (simp add: extended_len_def)
  let ?a = "a @ replicate (extended_len d - dom_n d) 0"
  have pad: "poly_eval ?a x = poly_eval a x" for x by (simp add: poly_eval_append)
  ultimately show ?thesis
    using coeff_to_lagrange_eq [OF ok assms(4,5)] lagrange_to_coeff_evals [OF ok assms(4,5)] c(1)
      coeff_to_extended_eq [OF ok assms(4,5)] extended_to_coeff_evals [OF ok assms(4), of ?a, unfolded pad]
      extended_to_lagrange_evals [OF ok assms(4), of ?a, unfolded pad] assms(5) le by simp
qed

theorem basis_changes_roundtrip_witness:
  "\<exists>d e. domain_new sample_invert sample_params 3 2 = Some d \<and> coeff_to_extended d 3 [1, 2, 3, 4] = Some e
     \<and> length e = 8 \<and> extended_to_coeff d 3 e = Some [1, 2, 3, 4, 0, 0, 0, 0]"
proof -
  obtain d where d: "domain_new sample_invert sample_params 3 2 = Some d" "dom_n d = 4" "extended_len d = 8"
    using sample_domain by blast
  from basis_changes_roundtrip [OF refl sample_params_ok d(1), of 3 "[1, 2, 3, 4]"]
  show ?thesis using d by (auto simp: numeral_eq_Suc)
qed

text \<open>
  C28: the quotient. If the numerator \<open>p\<close> is \<open>h (X ^ n - 1)\<close> and \<open>h\<close> has at most as many coefficients
  as the extended domain has points, then dividing the values of \<open>p\<close> on the coset by the table of the
  vanishing polynomial and returning to coefficients gives \<open>h\<close>: no point of the coset is a root of
  the vanishing polynomial, and the periodic table is read at the right places.
\<close>

theorem quotient_correct:
  fixes batch_invert :: "'f::field list \<Rightarrow> 'f list"
  assumes "\<And>xs. batch_invert xs = map (\<lambda>x. if x = 0 then x else inverse x) xs"
    and "field_params_ok params" and "domain_new batch_invert params j k = Some d" and "0 < threads"
    and "\<And>x. poly_eval p x = poly_eval h x * (x ^ dom_n d - 1)" and "length h \<le> extended_len d"
  shows "\<exists>q. divide_by_vanishing_poly d threads
      (map (\<lambda>i. poly_eval p (g_coset d * extended_omega d ^ i)) [0..<extended_len d]) = Some q
    \<and> extended_to_coeff d threads q = Some (h @ replicate (extended_len d - length h) 0)"
proof -
  have ok: "domain_ok d" using domain_new_SomeD [OF batch_invert_inverse [OF assms(1)] assms(2,3)] .
  let ?h = "h @ replicate (extended_len d - length h) 0"
  have "poly_eval p (coset_point d i) * inverse (coset_point d i ^ dom_n d - 1) = poly_eval ?h (coset_point d i)" for i
    using vanishing_nonzero [OF ok, of i] by (simp add: assms(5) poly_eval_append)
  then have "divide_by_vanishing_poly d threads (map (\<lambda>i. poly_eval p (coset_point d i)) [0..<extended_len d])
      = Some (map (\<lambda>i. poly_eval ?h (coset_point d i)) [0..<extended_len d])"
    by (simp add: divide_by_vanishing_poly_eq [OF ok assms(4)] imap_map_upt)
  then show ?thesis using extended_to_coeff_evals [OF ok assms(4), of ?h] assms(6) by auto
qed

theorem quotient_correct_witness:
  "\<exists>d q. domain_new sample_invert sample_params 3 2 = Some d
     \<and> divide_by_vanishing_poly d 2 (map (\<lambda>i. poly_eval [96, 95, 0, 0, 1, 2] (g_coset d * extended_omega d ^ i)) [0..<8]) = Some q
     \<and> extended_to_coeff d 2 q = Some [1, 2, 0, 0, 0, 0, 0, 0]"
proof -
  obtain d where d: "domain_new sample_invert sample_params 3 2 = Some d" "dom_n d = 4" "extended_len d = 8"
    using sample_domain by blast
  have c: "(96 :: gf97) = - 1" "(95 :: gf97) = - 2" by (simp_all add: gf_eq_iff)
  have "poly_eval [96, 95, 0, 0, 1, 2] x = poly_eval [1, 2] x * (x ^ dom_n d - 1)" for x :: gf97
    unfolding c by (simp add: d eval_nat_numeral algebra_simps)
  from quotient_correct [OF refl sample_params_ok d(1) _ this, of 2]
  show ?thesis using d by (auto simp: numeral_eq_Suc)
qed

text \<open>
  C33: \<open>l_i_range\<close>. Outside the domain, the values returned for the rotations \<open>0, .., n - 1\<close> reproduce
  every polynomial of degree below \<open>n\<close> from its values on the domain (they are the values of the
  Lagrange polynomials), and a rotation counts modulo \<open>n\<close>, negative ones included.
\<close>

theorem l_i_range_correct:
  fixes batch_invert :: "'f::field list \<Rightarrow> 'f list"
  assumes "\<And>xs. batch_invert xs = map (\<lambda>x. if x = 0 then x else inverse x) xs"
    and "field_params_ok params" and "domain_new batch_invert params j k = Some d"
    and "x ^ dom_n d \<noteq> 1" and "length c = dom_n d"
  shows "(\<Sum>i<dom_n d. poly_eval c (dom_omega d ^ i) * l_i_range batch_invert d x (x ^ dom_n d) (map int [0..<dom_n d]) ! i) = poly_eval c x
    \<and> l_i_range batch_invert d x (x ^ dom_n d) rotations =
      map (\<lambda>r. l_i_range batch_invert d x (x ^ dom_n d) (map int [0..<dom_n d]) ! nat (r mod int (dom_n d))) rotations"
proof -
  have inv: "batch_invert xs = map inverse xs" for xs by (rule batch_invert_inverse [OF assms(1)])
  have ok: "domain_ok d" using domain_new_SomeD [OF inv assms(2,3)] .
  have n: "0 < dom_n d" using domain_okD(1) [OF ok] by simp
  have nth: "l_i_range batch_invert d x (x ^ dom_n d) (map int [0..<dom_n d]) ! i = lagrange_value d x i" if "i < dom_n d" for i
    using that by (simp add: l_i_range_eq [OF inv ok] flip: of_nat_mod)
  have "nat (r mod int (dom_n d)) < dom_n d" for r using n by (simp add: nat_less_iff)
  then show ?thesis
    using barycentric [OF ok assms(5,4)] by (simp add: nth) (simp add: l_i_range_eq [OF inv ok])
qed

theorem l_i_range_correct_witness:
  "\<exists>d. domain_new sample_invert sample_params 3 2 = Some d
     \<and> (\<Sum>i<4. poly_eval [1, 2, 3, 4] (dom_omega d ^ i) * l_i_range sample_invert d 2 16 (map int [0..<4]) ! i) = 49"
proof -
  obtain d where d: "domain_new sample_invert sample_params 3 2 = Some d" "dom_n d = 4" using sample_domain by blast
  have x: "(2 :: gf97) ^ dom_n d = 16" "(2 :: gf97) ^ dom_n d \<noteq> 1" "poly_eval [1, 2, 3, 4] (2 :: gf97) = 49"
    by (simp_all add: d gf_eq_iff)
  have len: "length [1 :: gf97, 2, 3, 4] = 4" by simp
  have "(\<Sum>i<4. poly_eval [1, 2, 3, 4] (dom_omega d ^ i) * l_i_range sample_invert d 2 16 (map int [0..<4]) ! i) = 49"
    using l_i_range_correct [OF refl sample_params_ok d(1) x(2), of "[1, 2, 3, 4]" "[]", THEN conjunct1]
    unfolding x(1,3) unfolding d(2) by (simp only: len)
  then show ?thesis using d by blast
qed

text \<open>
  Rotating the values of a polynomial on the domain is rotating its argument: the coefficients of
  the rotated vector have at every point the value of the original polynomial at the point that
  \<open>rotate_omega\<close> gives, for every rotation by at most \<open>n\<close> in either direction.
\<close>

theorem rotate_correct:
  fixes batch_invert :: "'f::field list \<Rightarrow> 'f list"
  assumes "\<And>xs. batch_invert xs = map (\<lambda>x. if x = 0 then x else inverse x) xs"
    and "field_params_ok params" and "domain_new batch_invert params j k = Some d" and "0 < threads"
    and "length values = dom_n d" and "- int (dom_n d) \<le> r" and "r \<le> int (dom_n d)"
  shows "\<exists>c v c'. lagrange_to_coeff d threads values = Some c \<and> lagrange_rotate values r = Some v
    \<and> lagrange_to_coeff d threads v = Some c' \<and> (\<forall>x. poly_eval c' x = poly_eval c (rotate_omega d x r))"
proof -
  have ok: "domain_ok d" using domain_new_SomeD [OF batch_invert_inverse [OF assms(1)] assms(2,3)] .
  have "values \<noteq> []" using assms(5) domain_okD(1) [OF ok] by auto
  then have rot: "lagrange_rotate values r = Some (rotate (nat (r mod int (dom_n d))) values)"
    using lagrange_rotate_eq assms(5-7) by metis
  obtain c where c: "lagrange_to_coeff d threads values = Some c" using lagrange_to_coeff_eq [OF ok assms(4,5)] by auto
  show ?thesis
    using c rot rotated_coefficients [OF ok assms(4,5) c] rotate_omega_eq [OF ok]
    by (simp add: poly_eval_scaled mult.commute)
qed

theorem rotate_correct_witness:
  "\<exists>d c v c'. domain_new sample_invert sample_params 3 2 = Some d \<and> lagrange_to_coeff d 2 [5, 6, 7, 8] = Some c
     \<and> lagrange_rotate [5, 6, 7, 8] (- 1) = Some v \<and> lagrange_to_coeff d 2 v = Some c'
     \<and> poly_eval c' 1 = poly_eval c (rotate_omega d 1 (- 1))"
proof -
  obtain d where d: "domain_new sample_invert sample_params 3 2 = Some d" "dom_n d = 4" using sample_domain by blast
  from rotate_correct [OF refl sample_params_ok d(1), of 2 "[5, 6, 7, 8]" "- 1"]
  show ?thesis using d by auto
qed

end
