(* ===== verification/Permutation_Prover.thy ===== *)
theory Permutation_Prover
  imports Permutation_Assembly Vanishing Evaluation_Domain
begin

text \<open>
  The prover's side of the permutation argument (\<open>plonk/permutation/prover.rs\<close>): the running products
  of \<open>Argument::commit\<close>, one per chunk of columns, and their openings in \<open>Committed::evaluate\<close>. The
  random source is the parameter \<open>rand\<close>, the sequence of its draws, with the number of draws made so
  far passed along. Committing to a polynomial and writing to the transcript are left out: they do
  not change the values. \<open>None\<close> is a panic.
\<close>

section \<open>The code\<close>

definition column_values ::
    "'f list list \<Rightarrow> 'f list list \<Rightarrow> 'f list list \<Rightarrow> column \<Rightarrow> 'f list option" where
  "column_values advice fixed inst c =
     index_opt (case column_type c of Any_Advice _ \<Rightarrow> advice | Any_Fixed \<Rightarrow> fixed | Any_Instance \<Rightarrow> inst) (col_index c)"

text \<open>The loops over a chunk of rows; \<open>zip\<close> stops at the shorter list, slicing past the end panics.\<close>

fun denominator_loop :: "'f::field \<Rightarrow> 'f \<Rightarrow> 'f option list \<Rightarrow> ('f \<times> 'f) list \<Rightarrow> 'f option list" where
  "denominator_loop beta gamma (m # ms) ((value, permuted_value) # rest) =
     map_option (\<lambda>m. m * (beta * permuted_value + gamma + value)) m # denominator_loop beta gamma ms rest"
| "denominator_loop beta gamma ms _ = ms"

definition denominator_pass ::
    "nat \<Rightarrow> 'f::field \<Rightarrow> 'f \<Rightarrow> 'f list \<Rightarrow> 'f list \<Rightarrow> 'f list \<Rightarrow> 'f list option" where
  "denominator_pass threads beta gamma values permuted modified =
     parallel_rows threads modified (\<lambda>chunk start.
       if length values < start \<or> length permuted < start then map (\<lambda>_. None) chunk
       else denominator_loop beta gamma chunk (zip (drop start values) (drop start permuted)))"

fun numerator_loop :: "'f::field \<Rightarrow> 'f \<Rightarrow> 'f \<Rightarrow> 'f \<Rightarrow> 'f option list \<Rightarrow> 'f list \<Rightarrow> 'f option list" where
  "numerator_loop w beta gamma dw (m # ms) (value # rest) =
     map_option (\<lambda>m. m * (dw * beta + gamma + value)) m # numerator_loop w beta gamma (dw * w) ms rest"
| "numerator_loop w beta gamma dw ms _ = ms"

definition numerator_pass ::
    "nat \<Rightarrow> 'f::field \<Rightarrow> 'f \<Rightarrow> 'f \<Rightarrow> 'f \<Rightarrow> 'f list \<Rightarrow> 'f list \<Rightarrow> 'f list option" where
  "numerator_pass threads w beta gamma dw values modified =
     parallel_rows threads modified (\<lambda>chunk start.
       if length values < start then map (\<lambda>_. None) chunk
       else numerator_loop w beta gamma (dw * w ^ start) chunk (drop start values))"

fun denominators ::
    "nat \<Rightarrow> (column \<Rightarrow> 'f list option) \<Rightarrow> 'f::field \<Rightarrow> 'f \<Rightarrow> (column \<times> 'f list) list \<Rightarrow> 'f list \<Rightarrow> 'f list option" where
  "denominators threads vals beta gamma [] modified = Some modified"
| "denominators threads vals beta gamma ((c, permuted) # rest) modified =
     do { values \<leftarrow> vals c;
          modified \<leftarrow> denominator_pass threads beta gamma values permuted modified;
          denominators threads vals beta gamma rest modified }"

fun numerators ::
    "nat \<Rightarrow> (column \<Rightarrow> 'f list option) \<Rightarrow> 'f::field \<Rightarrow> 'f \<Rightarrow> 'f \<Rightarrow> 'f \<Rightarrow> 'f \<Rightarrow> column list \<Rightarrow> 'f list \<Rightarrow> ('f list \<times> 'f) option" where
  "numerators threads vals w delta beta gamma dw [] modified = Some (modified, dw)"
| "numerators threads vals w delta beta gamma dw (c # rest) modified =
     do { values \<leftarrow> vals c;
          modified \<leftarrow> numerator_pass threads w beta gamma dw values modified;
          numerators threads vals w delta beta gamma (dw * delta) rest modified }"

fun running_products :: "'f::field \<Rightarrow> nat \<Rightarrow> 'f list \<Rightarrow> 'f list option" where
  "running_products z 0 ms = Some [z]"
| "running_products z (Suc rows) [] = None"
| "running_products z (Suc rows) (m # ms) = map_option ((#) z) (running_products (z * m) rows ms)"

record 'f prover_env =
  penv_threads :: nat
  penv_invert :: "'f list \<Rightarrow> 'f list"
  penv_domain :: "'f domain"
  penv_delta :: 'f
  penv_beta :: 'f
  penv_gamma :: 'f
  penv_blinding :: nat
  penv_rand :: "nat \<Rightarrow> 'f"

definition product_set ::
    "'f::field prover_env \<Rightarrow> (column \<Rightarrow> 'f list option) \<Rightarrow> 'f \<Rightarrow> 'f \<Rightarrow> nat \<Rightarrow> column list \<Rightarrow> 'f list list \<Rightarrow>
     ('f list \<times> 'f \<times> 'f \<times> nat) option" where
  "product_set e vals dw last_z draws columns permutations =
     (let d = penv_domain e; n = dom_n d; b = penv_blinding e in
      do { modified \<leftarrow> denominators (penv_threads e) vals (penv_beta e) (penv_gamma e) (zip columns permutations) (replicate n 1);
           (modified, dw) \<leftarrow> numerators (penv_threads e) vals (dom_omega d) (penv_delta e) (penv_beta e) (penv_gamma e) dw
             columns (penv_invert e modified);
           z \<leftarrow> running_products last_z (n - 1) modified;
           z \<leftarrow> lagrange_from_vec d z;
           if n < b then None
           else let z = take (n - b) z @ map (penv_rand e) [draws..<draws + b] in
             if n < b + 1 then None else Some (z, dw, z ! (n - (b + 1)), draws + b) })"

fun commit_sets ::
    "'f::field prover_env \<Rightarrow> (column \<Rightarrow> 'f list option) \<Rightarrow> 'f \<Rightarrow> 'f \<Rightarrow> nat \<Rightarrow> (column list \<times> 'f list list) list \<Rightarrow>
     'f list list option" where
  "commit_sets e vals dw last_z draws [] = Some []"
| "commit_sets e vals dw last_z draws ((columns, permutations) # rest) =
     do { (z, dw, last_z, draws) \<leftarrow> product_set e vals dw last_z draws columns permutations;
          permutation_product_poly \<leftarrow> lagrange_to_coeff (penv_domain e) (penv_threads e) z;
          sets \<leftarrow> commit_sets e vals dw last_z draws rest;
          Some (permutation_product_poly # sets) }"

definition perm_commit ::
    "'f::field prover_env \<Rightarrow> nat \<Rightarrow> column list \<Rightarrow> 'f list list \<Rightarrow> 'f list list \<Rightarrow> 'f list list \<Rightarrow> 'f list list \<Rightarrow>
     'f list list option" where
  "perm_commit e cs_deg columns permutations advice fixed inst =
     (if cs_deg < 3 then None
      else let chunk_len = cs_deg - 2
           in commit_sets e (column_values advice fixed inst) 1 1 0
                (zip (chunks chunk_len columns) (chunks chunk_len permutations)))"

fun perm_evaluate :: "'f::field prover_env \<Rightarrow> 'f \<Rightarrow> 'f list list \<Rightarrow> 'f perm_evaluated list option" where
  "perm_evaluate e x [] = Some []"
| "perm_evaluate e x (poly # sets) =
     do { ev \<leftarrow> eval_polynomial (penv_threads e) poly x;
          next_ev \<leftarrow> eval_polynomial (penv_threads e) poly (rotate_omega (penv_domain e) x 1);
          last_ev \<leftarrow> (if sets \<noteq> [] then map_option Some (eval_polynomial (penv_threads e) poly
                       (rotate_omega (penv_domain e) x (- int (penv_blinding e + 1)))) else Some None);
          rest \<leftarrow> perm_evaluate e x sets;
          Some (\<lparr>permutation_product_eval = ev, permutation_product_next_eval = next_ev,
                 permutation_product_last_eval = last_ev\<rparr> # rest) }"

section \<open>The passes\<close>

text \<open>The two products of a row over a list of columns; \<open>cur\<close> is the label of the first column.\<close>

fun den_prod :: "(column \<Rightarrow> 'f::field) \<Rightarrow> 'f \<Rightarrow> 'f \<Rightarrow> (column \<times> 'f) list \<Rightarrow> 'f" where
  "den_prod v beta gamma [] = 1"
| "den_prod v beta gamma ((c, p) # rest) = (v c + beta * p + gamma) * den_prod v beta gamma rest"

fun num_prod :: "(column \<Rightarrow> 'f::field) \<Rightarrow> 'f \<Rightarrow> 'f \<Rightarrow> 'f \<Rightarrow> column list \<Rightarrow> 'f" where
  "num_prod v delta gamma cur [] = 1"
| "num_prod v delta gamma cur (c # rest) = (v c + cur + gamma) * num_prod v delta gamma (cur * delta) rest"

lemma denominator_loop_imap:
  "length ms \<le> length fs \<Longrightarrow> denominator_loop beta gamma ms fs =
    imap off (\<lambda>i m. Option.bind m (\<lambda>m. Some (m * (beta * snd (fs ! (i - off)) + gamma + fst (fs ! (i - off)))))) ms"
proof (induction beta gamma ms fs arbitrary: off rule: denominator_loop.induct)
  case (1 beta gamma m ms u p rest)
  have "imap (Suc off) (\<lambda>i m. Option.bind m (\<lambda>m. Some (m * (beta * snd (rest ! (i - Suc off)) + gamma + fst (rest ! (i - Suc off)))))) ms
      = imap (Suc off) (\<lambda>i m. Option.bind m (\<lambda>m. Some (m * (beta * snd (((u, p) # rest) ! (i - off)) + gamma
          + fst (((u, p) # rest) ! (i - off)))))) ms"
    by (rule imap_cong) (auto simp: nth_Cons' Suc_diff_le)
  then show ?case using 1 by (cases m) simp_all
qed simp_all

lemma denominator_pass_eq:
  assumes "0 < t" and "length values = n" and "length permuted = n" and "length modified = n"
  shows "denominator_pass t beta gamma values permuted modified =
    Some (imap 0 (\<lambda>i m. m * (values ! i + beta * permuted ! i + gamma)) modified)"
  unfolding denominator_pass_def
proof (rule parallel_rows_Some [OF assms(1)])
  fix chunk :: "'a option list" and off
  assume off: "off + length chunk \<le> length modified"
  have "denominator_loop beta gamma chunk (zip (drop off values) (drop off permuted)) =
      imap off (\<lambda>i m. Option.bind m (\<lambda>m. Some (m * (values ! i + beta * permuted ! i + gamma)))) chunk"
    using off assms by (subst denominator_loop_imap [of _ _ _ _ off]) (auto intro!: imap_cong simp: algebra_simps)
  then show "(if length values < off \<or> length permuted < off then map (\<lambda>_. None) chunk
      else denominator_loop beta gamma chunk (zip (drop off values) (drop off permuted))) =
    imap off (\<lambda>i v. Option.bind v (\<lambda>m. Some (m * (values ! i + beta * permuted ! i + gamma)))) chunk"
    using off assms by simp
qed simp

lemma numerator_loop_imap:
  "length ms \<le> length vs \<Longrightarrow> numerator_loop w beta gamma (dw * w ^ off) ms vs =
    imap off (\<lambda>i m. Option.bind m (\<lambda>m. Some (m * (dw * w ^ i * beta + gamma + vs ! (i - off))))) ms"
proof (induction ms arbitrary: off vs)
  case (Cons m ms)
  obtain u us where vs: "vs = u # us" using Cons.prems by (cases vs) auto
  have "imap (Suc off) (\<lambda>i m. Option.bind m (\<lambda>m. Some (m * (dw * w ^ i * beta + gamma + us ! (i - Suc off))))) ms
      = imap (Suc off) (\<lambda>i m. Option.bind m (\<lambda>m. Some (m * (dw * w ^ i * beta + gamma + vs ! (i - off))))) ms"
    by (rule imap_cong) (auto simp: vs nth_Cons' Suc_diff_le)
  moreover have "numerator_loop w beta gamma (dw * w ^ Suc off) ms us =
      imap (Suc off) (\<lambda>i m. Option.bind m (\<lambda>m. Some (m * (dw * w ^ i * beta + gamma + us ! (i - Suc off))))) ms"
    by (rule Cons.IH) (use Cons.prems vs in simp)
  ultimately show ?case by (cases m) (simp_all add: vs ac_simps)
qed simp

lemma numerator_pass_eq:
  assumes "0 < t" and "length values = n" and "length modified = n"
  shows "numerator_pass t w beta gamma dw values modified =
    Some (imap 0 (\<lambda>i m. m * (values ! i + beta * w ^ i * dw + gamma)) modified)"
  unfolding numerator_pass_def
proof (rule parallel_rows_Some [OF assms(1)])
  fix chunk :: "'a option list" and off
  assume off: "off + length chunk \<le> length modified"
  have "numerator_loop w beta gamma (dw * w ^ off) chunk (drop off values) =
      imap off (\<lambda>i m. Option.bind m (\<lambda>m. Some (m * (values ! i + beta * w ^ i * dw + gamma)))) chunk"
    using off assms by (subst numerator_loop_imap) (auto intro!: imap_cong simp: ac_simps)
  then show "(if length values < off then map (\<lambda>_. None) chunk else numerator_loop w beta gamma (dw * w ^ off) chunk (drop off values)) =
    imap off (\<lambda>i v. Option.bind v (\<lambda>m. Some (m * (values ! i + beta * w ^ i * dw + gamma)))) chunk"
    using off assms by simp
qed simp

lemma denominators_eq:
  assumes "0 < t" and "\<And>c. c \<in> fst ` set cps \<Longrightarrow> vals c = Some (v c) \<and> length (v c) = n"
    and "\<And>p. p \<in> snd ` set cps \<Longrightarrow> length p = n" and "length modified = n"
  shows "denominators t vals beta gamma cps modified =
    Some (imap 0 (\<lambda>i m. m * den_prod (\<lambda>c. v c ! i) beta gamma (map (\<lambda>(c, p). (c, p ! i)) cps)) modified)"
  using assms(2-4)
proof (induction cps arbitrary: modified)
  case Nil
  then show ?case by (simp add: imap_id)
next
  case (Cons cp cps)
  obtain c p where cp: "cp = (c, p)" by (cases cp)
  have c: "vals c = Some (v c)" "length (v c) = n" "length p = n" using Cons.prems(1,2) by (auto simp: cp)
  have "denominators t vals beta gamma cps (imap 0 (\<lambda>i m. m * (v c ! i + beta * p ! i + gamma)) modified) =
      Some (imap 0 (\<lambda>i m. m * den_prod (\<lambda>c. v c ! i) beta gamma (map (\<lambda>(c, p). (c, p ! i)) cps))
        (imap 0 (\<lambda>i m. m * (v c ! i + beta * p ! i + gamma)) modified))"
    by (rule Cons.IH) (use Cons.prems in auto)
  then show ?case
    using c by (simp add: cp denominator_pass_eq [OF assms(1) c(2,3) Cons.prems(3)] imap_imap mult.assoc)
qed

lemma numerators_eq:
  assumes "0 < t" and "\<And>c. c \<in> set cols \<Longrightarrow> vals c = Some (v c) \<and> length (v c) = n" and "length modified = n"
  shows "numerators t vals w delta beta gamma dw cols modified =
    Some (imap 0 (\<lambda>i m. m * num_prod (\<lambda>c. v c ! i) delta gamma (beta * w ^ i * dw) cols) modified, dw * delta ^ length cols)"
  using assms(2,3)
proof (induction cols arbitrary: modified dw)
  case Nil
  then show ?case by (simp add: imap_id)
next
  case (Cons c cols)
  have c: "vals c = Some (v c)" "length (v c) = n" using Cons.prems(1) by auto
  have "numerators t vals w delta beta gamma (dw * delta) cols (imap 0 (\<lambda>i m. m * (v c ! i + beta * w ^ i * dw + gamma)) modified) =
      Some (imap 0 (\<lambda>i m. m * num_prod (\<lambda>c. v c ! i) delta gamma (beta * w ^ i * (dw * delta)) cols)
        (imap 0 (\<lambda>i m. m * (v c ! i + beta * w ^ i * dw + gamma)) modified), dw * delta * delta ^ length cols)"
    by (rule Cons.IH) (use Cons.prems in auto)
  then show ?case
    using c by (simp add: numerator_pass_eq [OF assms(1) c(2) Cons.prems(2)] imap_imap mult.assoc)
qed

lemma running_products_eq:
  "rows \<le> length ms \<Longrightarrow> running_products z rows ms = Some (map (\<lambda>i. z * (\<Prod>k<i. ms ! k)) [0..<Suc rows])"
proof (induction z rows ms rule: running_products.induct)
  case (3 z rows m ms)
  have "map (\<lambda>i. z * (\<Prod>k<i. (m # ms) ! k)) [0..<Suc (Suc rows)] = z # map (\<lambda>i. z * m * (\<Prod>k<i. ms ! k)) [0..<Suc rows]"
    by (subst upt_conv_Cons) (simp_all add: map_Suc_upt [symmetric] prod.lessThan_Suc_shift comp_def mult.assoc del: upt_Suc prod.lessThan_Suc)
  then show ?case using 3 by (simp del: upt_Suc)
qed simp_all

section \<open>The running products\<close>

lemma num_prod_append:
  "num_prod v delta gamma cur (xs @ ys) = num_prod v delta gamma cur xs * num_prod v delta gamma (cur * delta ^ length xs) ys"
  by (induction xs arbitrary: cur) (simp_all add: mult.assoc)

lemma den_prod_append: "den_prod v beta gamma (xs @ ys) = den_prod v beta gamma xs * den_prod v beta gamma ys"
  by (induction v beta gamma xs rule: den_prod.induct) (simp_all add: mult.assoc)

text \<open>
  \<open>chained\<close>: every product polynomial starts where the previous one stops (row \<open>u\<close>), and moves from
  each row before \<open>u\<close> to the next by the quotient of the two products of its columns.
\<close>

fun chained ::
    "'f::field \<Rightarrow> nat \<Rightarrow> (nat \<Rightarrow> column \<Rightarrow> 'f) \<Rightarrow> 'f \<Rightarrow> 'f \<Rightarrow> 'f \<Rightarrow> 'f \<Rightarrow> 'f \<Rightarrow> (column list \<times> 'f list list) list \<Rightarrow>
     'f list list \<Rightarrow> bool" where
  "chained w u v delta beta gamma dw start [] zs \<longleftrightarrow> zs = []"
| "chained w u v delta beta gamma dw start ((cols, perms) # rest) zs \<longleftrightarrow>
     (\<exists>p ps. zs = p # ps \<and> poly_eval p 1 = start \<and>
        (\<forall>i<u. poly_eval p (w ^ Suc i) * den_prod (v i) beta gamma (zip cols (map (\<lambda>q. q ! i) perms))
               = poly_eval p (w ^ i) * num_prod (v i) delta gamma (beta * w ^ i * dw) cols) \<and>
        chained w u v delta beta gamma (dw * delta ^ length cols) (poly_eval p (w ^ u)) rest ps)"

definition set_ratio ::
    "'f::field \<Rightarrow> (nat \<Rightarrow> column \<Rightarrow> 'f) \<Rightarrow> 'f \<Rightarrow> 'f \<Rightarrow> 'f \<Rightarrow> 'f \<Rightarrow> column list \<Rightarrow> 'f list list \<Rightarrow> nat \<Rightarrow> 'f" where
  "set_ratio w v delta beta gamma dw cols perms i =
     inverse (den_prod (v i) beta gamma (zip cols (map (\<lambda>q. q ! i) perms))) * num_prod (v i) delta gamma (beta * w ^ i * dw) cols"

lemma set_ratio_append:
  assumes "length c1 = length p1"
  shows "set_ratio w v delta beta gamma dw (c1 @ c2) (p1 @ p2) i =
    set_ratio w v delta beta gamma dw c1 p1 i * set_ratio w v delta beta gamma (dw * delta ^ length c1) c2 p2 i"
  using assms by (simp add: set_ratio_def num_prod_append den_prod_append mult.assoc mult.left_commute inverse_mult_distrib)

text \<open>What an environment and a table of column values must satisfy.\<close>

definition penv_ok :: "'f::field prover_env \<Rightarrow> bool" where
  "penv_ok e \<longleftrightarrow> 0 < penv_threads e \<and> (\<forall>xs. penv_invert e xs = map inverse xs) \<and> domain_ok (penv_domain e) \<and>
     penv_blinding e < dom_n (penv_domain e)"

definition vals_ok :: "nat \<Rightarrow> (column \<Rightarrow> 'f list option) \<Rightarrow> (column \<Rightarrow> 'f list) \<Rightarrow> column list \<Rightarrow> bool" where
  "vals_ok n vals v cols \<longleftrightarrow> (\<forall>c\<in>set cols. vals c = Some (v c) \<and> length (v c) = n)"

definition last_row :: "'f prover_env \<Rightarrow> nat" where
  "last_row e = dom_n (penv_domain e) - (penv_blinding e + 1)"

lemma product_set_eq:
  fixes dw z0 :: "'f::field"
  assumes e: "penv_ok e" and vals: "vals_ok n vals v cols" and n: "n = dom_n (penv_domain e)"
    and perms: "\<And>q. q \<in> set perms \<Longrightarrow> length q = n" "length perms = length cols"
  defines "r \<equiv> set_ratio (dom_omega (penv_domain e)) (\<lambda>i c. v c ! i) (penv_delta e) (penv_beta e) (penv_gamma e) dw cols perms"
  shows "\<exists>z. product_set e vals dw z0 draws cols perms = Some (z, dw * penv_delta e ^ length cols,
      z0 * (\<Prod>k<last_row e. r k), draws + penv_blinding e) \<and> length z = n \<and> (\<forall>i\<le>last_row e. z ! i = z0 * (\<Prod>k<i. r k))"
proof -
  let ?d = "penv_domain e" and ?b = "penv_blinding e"
  let ?m1 = "map (\<lambda>i. den_prod (\<lambda>c. v c ! i) (penv_beta e) (penv_gamma e) (zip cols (map (\<lambda>q. q ! i) perms))) [0..<n]"
  have t: "0 < penv_threads e" and inv: "\<And>xs. penv_invert e xs = map inverse xs" and b: "?b < n"
    using e by (auto simp: penv_ok_def n)
  have "denominators (penv_threads e) vals (penv_beta e) (penv_gamma e) (zip cols perms) (replicate n 1) = Some ?m1"
  proof -
    have "denominators (penv_threads e) vals (penv_beta e) (penv_gamma e) (zip cols perms) (replicate n 1) =
        Some (imap 0 (\<lambda>i m. m * den_prod (\<lambda>c. v c ! i) (penv_beta e) (penv_gamma e)
          (map (\<lambda>(c, p). (c, p ! i)) (zip cols perms))) (replicate n 1))"
      by (rule denominators_eq [OF t]) (use vals perms in \<open>auto simp: vals_ok_def dest: set_zip_leftD set_zip_rightD\<close>)
    then show ?thesis by (simp add: imap_replicate zip_map2 split_def)
  qed
  moreover have "numerators (penv_threads e) vals (dom_omega ?d) (penv_delta e) (penv_beta e) (penv_gamma e) dw cols (map inverse ?m1) =
      Some (map r [0..<n], dw * penv_delta e ^ length cols)"
  proof -
    have "numerators (penv_threads e) vals (dom_omega ?d) (penv_delta e) (penv_beta e) (penv_gamma e) dw cols (map inverse ?m1) =
        Some (imap 0 (\<lambda>i m. m * num_prod (\<lambda>c. v c ! i) (penv_delta e) (penv_gamma e) (penv_beta e * dom_omega ?d ^ i * dw) cols)
          (map inverse ?m1), dw * penv_delta e ^ length cols)"
      by (rule numerators_eq [OF t]) (use vals in \<open>auto simp: vals_ok_def\<close>)
    then show ?thesis by (simp add: imap_map_upt r_def set_ratio_def)
  qed
  moreover have "running_products z0 (n - 1) (map r [0..<n]) = Some (map (\<lambda>i. z0 * (\<Prod>k<i. r k)) [0..<n])"
  proof -
    have "map (\<lambda>i. z0 * (\<Prod>k<i. map r [0..<n] ! k)) [0..<Suc (n - 1)] = map (\<lambda>i. z0 * (\<Prod>k<i. r k)) [0..<n]"
      using b by (intro map_cong arg_cong2 [where f = "(*)"] prod.cong) auto
    then show ?thesis by (simp add: running_products_eq)
  qed
  moreover have "n - ?b > last_row e" using b by (simp add: last_row_def n)
  ultimately show ?thesis
    using b by (simp add: product_set_def inv lagrange_from_vec_def last_row_def nth_append Let_def flip: n)
qed

definition den_nonzero ::
    "nat \<Rightarrow> (nat \<Rightarrow> column \<Rightarrow> 'f::field) \<Rightarrow> 'f \<Rightarrow> 'f \<Rightarrow> column list \<Rightarrow> 'f list list \<Rightarrow> bool" where
  "den_nonzero u v beta gamma cols perms \<longleftrightarrow>
     (\<forall>i<u. den_prod (v i) beta gamma (zip cols (map (\<lambda>q. q ! i) perms)) \<noteq> 0)"

lemma commit_sets_eq:
  assumes e: "penv_ok e" and n: "n = dom_n (penv_domain e)"
    and "\<And>cols perms. (cols, perms) \<in> set css \<Longrightarrow> vals_ok n vals v cols \<and> (\<forall>q\<in>set perms. length q = n) \<and> length perms = length cols"
    and "\<And>cols perms. (cols, perms) \<in> set css \<Longrightarrow> den_nonzero (last_row e) (\<lambda>i c. v c ! i) (penv_beta e) (penv_gamma e) cols perms"
  shows "\<exists>zs. commit_sets e vals dw z0 draws css = Some zs \<and>
    chained (dom_omega (penv_domain e)) (last_row e) (\<lambda>i c. v c ! i) (penv_delta e) (penv_beta e) (penv_gamma e) dw z0 css zs \<and>
    (if zs = [] then z0 else poly_eval (last zs) (dom_omega (penv_domain e) ^ last_row e)) =
      z0 * (\<Prod>k<last_row e. set_ratio (dom_omega (penv_domain e)) (\<lambda>i c. v c ! i) (penv_delta e) (penv_beta e) (penv_gamma e) dw
        (concat (map fst css)) (concat (map snd css)) k)"
  using assms(3,4)
proof (induction css arbitrary: dw z0 draws)
  case Nil
  then show ?case by (simp add: set_ratio_def)
next
  case (Cons cp css)
  obtain cols perms where cp: "cp = (cols, perms)" by (cases cp)
  let ?d = "penv_domain e" and ?u = "last_row e"
  let ?r = "set_ratio (dom_omega ?d) (\<lambda>i c. v c ! i) (penv_delta e) (penv_beta e) (penv_gamma e) dw cols perms"
  let ?dw = "dw * penv_delta e ^ length cols" and ?z = "z0 * (\<Prod>k<?u. ?r k)"
  have hd: "vals_ok n vals v cols" "\<And>q. q \<in> set perms \<Longrightarrow> length q = n" "length perms = length cols"
    "den_nonzero ?u (\<lambda>i c. v c ! i) (penv_beta e) (penv_gamma e) cols perms"
    using Cons.prems by (auto simp: cp)
  obtain z where z: "product_set e vals dw z0 draws cols perms = Some (z, ?dw, ?z, draws + penv_blinding e)"
    "length z = n" "\<And>i. i \<le> ?u \<Longrightarrow> z ! i = z0 * (\<Prod>k<i. ?r k)"
    using product_set_eq [OF e hd(1) n hd(2,3)] by blast
  have ok: "domain_ok ?d" "0 < penv_threads e" "?u < n" using e by (auto simp: penv_ok_def last_row_def n)
  obtain p where p: "lagrange_to_coeff ?d (penv_threads e) z = Some p" "\<And>i. i < n \<Longrightarrow> poly_eval p (dom_omega ?d ^ i) = z ! i"
    using lagrange_to_coeff_eq [OF ok(1,2), of z] z(2) n by auto
  obtain ps where ps: "commit_sets e vals ?dw ?z (draws + penv_blinding e) css = Some ps"
    "chained (dom_omega ?d) ?u (\<lambda>i c. v c ! i) (penv_delta e) (penv_beta e) (penv_gamma e) ?dw ?z css ps"
    "(if ps = [] then ?z else poly_eval (last ps) (dom_omega ?d ^ ?u)) = ?z * (\<Prod>k<?u. set_ratio (dom_omega ?d) (\<lambda>i c. v c ! i)
      (penv_delta e) (penv_beta e) (penv_gamma e) ?dw (concat (map fst css)) (concat (map snd css)) k)"
    using Cons.IH [of ?dw ?z "draws + penv_blinding e"] Cons.prems by auto
  have step: "poly_eval p (dom_omega ?d ^ Suc i) * den_prod (\<lambda>c. v c ! i) (penv_beta e) (penv_gamma e) (zip cols (map (\<lambda>q. q ! i) perms))
      = poly_eval p (dom_omega ?d ^ i) * num_prod (\<lambda>c. v c ! i) (penv_delta e) (penv_gamma e) (penv_beta e * dom_omega ?d ^ i * dw) cols"
    if i: "i < ?u" for i
  proof -
    have nz: "den_prod (\<lambda>c. v c ! i) (penv_beta e) (penv_gamma e) (zip cols (map (\<lambda>q. q ! i) perms)) \<noteq> 0"
      using hd(4) i by (simp add: den_nonzero_def)
    have "poly_eval p (dom_omega ?d ^ Suc i) = poly_eval p (dom_omega ?d ^ i) * ?r i"
      using i ok(3) p(2) [of "Suc i"] p(2) [of i] z(3) [of "Suc i"] z(3) [of i] by (simp add: ac_simps)
    then show ?thesis using nz by (simp add: set_ratio_def)
  qed
  have "poly_eval p 1 = z0" using p(2) [of 0] z(3) [of 0] ok(3) by simp
  moreover have fin: "poly_eval p (dom_omega ?d ^ ?u) = ?z" using p(2) [OF ok(3)] z(3) [of ?u] by simp
  ultimately show ?case
    using z(1) p(1) ps step
    by (simp add: cp set_ratio_append [OF hd(3) [symmetric]] prod.distrib mult.assoc split: if_splits)
qed

section \<open>The identities vanish\<close>

lemma left_loop_den_prod:
  "(\<And>c. c \<in> set cols \<Longrightarrow> col c = Some (v c)) \<Longrightarrow>
   left_loop col beta gamma l (zip cols (map Some ps)) = Some (l * den_prod v beta gamma (zip cols ps))"
proof (induction cols arbitrary: l ps)
  case (Cons c cols)
  then show ?case by (cases ps) (simp_all add: mult.assoc)
qed simp

lemma right_loop_num_prod:
  "(\<And>c. c \<in> set cols \<Longrightarrow> col c = Some (v c)) \<Longrightarrow>
   right_loop col delta gamma r cur cols = Some (r * num_prod v delta gamma cur cols, cur * delta ^ length cols)"
  by (induction cols arbitrary: r cur) (simp_all add: mult.assoc)

text \<open>The selectors of the verifier on row \<open>i\<close>: the first row, row \<open>u\<close>, and the blinded rows after it.\<close>

definition row_lagrange :: "nat \<Rightarrow> nat \<Rightarrow> 'f::field lagrange_evals" where
  "row_lagrange u i = \<lparr>l_0 = (if i = 0 then 1 else 0), l_last = (if i = u then 1 else 0), l_blind = (if u < i then 1 else 0)\<rparr>"

lemma row_lagrange_active: "1 - (l_last (row_lagrange u i) + l_blind (row_lagrange u i)) = (if i < u then 1 else (0 :: 'f::field))"
  by (auto simp: row_lagrange_def)

lemma perm_evaluate_eq:
  assumes "penv_ok e"
  shows "perm_evaluate e x zs = Some (imap 1 (\<lambda>k p. \<lparr>permutation_product_eval = poly_eval p x,
      permutation_product_next_eval = poly_eval p (x * dom_omega (penv_domain e)),
      permutation_product_last_eval = (if k < length zs
        then Some (poly_eval p (rotate_omega (penv_domain e) x (- int (penv_blinding e + 1)))) else None)\<rparr>) zs)"
proof -
  have t: "0 < penv_threads e" using assms by (simp add: penv_ok_def)
  have gen: "perm_evaluate e x zs = Some (imap off (\<lambda>k p. \<lparr>permutation_product_eval = poly_eval p x,
      permutation_product_next_eval = poly_eval p (x * dom_omega (penv_domain e)),
      permutation_product_last_eval = (if k < off + length zs - 1
        then Some (poly_eval p (rotate_omega (penv_domain e) x (- int (penv_blinding e + 1)))) else None)\<rparr>) zs)" if "0 < off" for off
    using that
  proof (induction zs arbitrary: off)
    case (Cons p zs)
    show ?case using Cons.IH [of "Suc off"]
      by (cases zs) (simp_all add: eval_polynomial_poly_eval [OF t] rotate_omega_def)
  qed simp
  show ?thesis using gen [of 1] by simp
qed

lemma products_vanish:
  assumes ch: "chained w u v delta beta gamma (delta ^ (k * L)) start css zs"
    and evs: "length evs = length zs" "\<And>j. j < length zs \<Longrightarrow> permutation_product_eval (evs ! j) = poly_eval (zs ! j) (w ^ i)
      \<and> permutation_product_next_eval (evs ! j) = poly_eval (zs ! j) (w ^ Suc i)"
    and cols: "\<And>cols perms c. (cols, perms) \<in> set css \<Longrightarrow> c \<in> set cols \<Longrightarrow> col c = Some (v i c)"
    and full: "\<And>j. Suc j < length css \<Longrightarrow> length (fst (css ! j)) = L"
  shows "\<exists>es. those (imap k (perm_set_expression col delta beta gamma (w ^ i) (row_lagrange u i) L)
      (zip evs (map (\<lambda>(cols, perms). (cols, map (\<lambda>q. q ! i) perms)) css))) = Some es \<and> list_all (\<lambda>e. e = 0) es"
  using assms
proof (induction css arbitrary: k start zs evs)
  case (Cons cp css)
  obtain cols perms where cp: "cp = (cols, perms)" by (cases cp)
  let ?n = "length cols"
  obtain p ps where zs: "zs = p # ps"
    and step: "\<And>i. i < u \<Longrightarrow> poly_eval p (w ^ Suc i) * den_prod (v i) beta gamma (zip cols (map (\<lambda>q. q ! i) perms))
               = poly_eval p (w ^ i) * num_prod (v i) delta gamma (beta * w ^ i * delta ^ (k * L)) cols"
    and ch': "chained w u v delta beta gamma (delta ^ (k * L) * delta ^ ?n) (poly_eval p (w ^ u)) css ps"
    using Cons.prems(1) by (auto simp: cp)
  obtain ev evs' where evs: "evs = ev # evs'" using Cons.prems(2) zs by (cases evs) auto
  have ev: "permutation_product_eval ev = poly_eval p (w ^ i)" "permutation_product_next_eval ev = poly_eval p (w ^ Suc i)"
    using Cons.prems(3) [of 0] by (auto simp: zs evs)
  have col: "\<And>c. c \<in> set cols \<Longrightarrow> col c = Some (v i c)" using Cons.prems(4) [of cols perms] by (simp add: cp)
  have "perm_set_expression col delta beta gamma (w ^ i) (row_lagrange u i) L k (ev, cols, map (\<lambda>q. q ! i) perms) = Some 0"
    using step [of i] left_loop_den_prod [of cols col "v i", OF col] right_loop_num_prod [of cols col "v i", OF col]
    unfolding perm_set_expression_def prod.case row_lagrange_active ev by (simp del: map_map power_Suc)
  moreover have "\<exists>es. those (imap (Suc k) (perm_set_expression col delta beta gamma (w ^ i) (row_lagrange u i) L)
      (zip evs' (map (\<lambda>(cols, perms). (cols, map (\<lambda>q. q ! i) perms)) css))) = Some es \<and> list_all (\<lambda>e. e = 0) es"
  proof (cases "css = []")
    case False
    then have "?n = L" using Cons.prems(5) [of 0] by (simp add: cp)
    then have "chained w u v delta beta gamma (delta ^ (Suc k * L)) (poly_eval p (w ^ u)) css ps"
      using ch' by (simp add: power_add mult.commute)
    then show ?thesis
    proof (rule Cons.IH)
      show "length evs' = length ps" using Cons.prems(2) zs evs by simp
      show "permutation_product_eval (evs' ! j) = poly_eval (ps ! j) (w ^ i)
          \<and> permutation_product_next_eval (evs' ! j) = poly_eval (ps ! j) (w ^ Suc i)" if "j < length ps" for j
        using Cons.prems(3) [of "Suc j"] that zs evs by simp
      show "length (fst (css ! j)) = L" if "Suc j < length css" for j
        using Cons.prems(5) [of "Suc j"] that by simp
    qed (use Cons.prems(4) in \<open>meson list.set_intros(2)\<close>)
  qed simp
  ultimately show ?case by (auto simp: evs cp)
qed simp

lemma links_vanish:
  assumes "chained w u v delta beta gamma dw start css zs"
    and "length evs = length zs" and "\<And>j. j < length zs \<Longrightarrow> permutation_product_eval (evs ! j) = poly_eval (zs ! j) (w ^ i)"
    and "\<And>j. Suc j < length zs \<Longrightarrow> \<exists>y. permutation_product_last_eval (evs ! j) = Some y \<and> (i = 0 \<longrightarrow> y = poly_eval (zs ! j) (w ^ u))"
  shows "\<exists>es. those (map (\<lambda>(s, last_set). map_option (\<lambda>prev_last. (permutation_product_eval s - prev_last) * l_0 (row_lagrange u i))
      (permutation_product_last_eval last_set)) (zip (drop 1 evs) evs)) = Some es \<and> list_all (\<lambda>e. e = 0) es"
proof -
  have start: "poly_eval (zs ! Suc j) 1 = poly_eval (zs ! j) (w ^ u)" if "Suc j < length zs" for j
    using assms(1) that
  proof (induction css arbitrary: dw start zs j)
    case (Cons cp css)
    obtain cols perms where "cp = (cols, perms)" by (cases cp)
    then obtain p ps where zs: "zs = p # ps" and ch: "chained w u v delta beta gamma (dw * delta ^ length cols) (poly_eval p (w ^ u)) css ps"
      using Cons.prems(1) by auto
    show ?case
    proof (cases j)
      case 0
      then show ?thesis using ch zs Cons.prems(2) by (cases css) auto
    next
      case (Suc j')
      then show ?thesis using Cons.IH [OF ch, of j'] zs Cons.prems(2) by simp
    qed
  qed simp
  let ?f = "\<lambda>(s, last_set). map_option (\<lambda>prev_last. (permutation_product_eval s - prev_last) * l_0 (row_lagrange u i))
      (permutation_product_last_eval last_set)"
  have "?f x = Some 0" if x: "x \<in> set (zip (drop 1 evs) evs)" for x
  proof -
    obtain j where "j < length (zip (drop 1 evs) evs)" "x = zip (drop 1 evs) evs ! j"
      using x unfolding in_set_conv_nth by blast
    then have j: "Suc j < length zs" "x = (evs ! Suc j, evs ! j)" using assms(2) by simp_all
    obtain y where "permutation_product_last_eval (evs ! j) = Some y" "i = 0 \<longrightarrow> y = poly_eval (zs ! j) (w ^ u)"
      using assms(4) [OF j(1)] by blast
    then show ?thesis using j start [OF j(1)] assms(3) [of "Suc j"] by (auto simp: row_lagrange_def)
  qed
  then have "those (map ?f (zip (drop 1 evs) evs)) = Some (map (\<lambda>_. 0) (zip (drop 1 evs) evs))" by (rule those_map_cong)
  then show ?thesis by (simp add: list_all_iff)
qed

section \<open>The product over all usable cells\<close>

lemma copied_rows:
  assumes "(x, y) \<in> copied cs" and "\<And>a b. (a, b) \<in> set cs \<Longrightarrow> P a \<and> P b" and "P x"
  shows "P y"
  using assms(1,3) unfolding copied_def
proof (induction rule: rtrancl_induct)
  case (step y z)
  then show ?case using assms(2) by blast
qed

text \<open>If the copies stay in the first \<open>u\<close> rows, so does the permutation, and the two products agree there.\<close>

lemma usable_products_agree:
  fixes V :: "cell_ref \<Rightarrow> 'f::field"
  assumes "assembled n p a cs" and "0 < t" and "u \<le> n" and "\<And>x y. (x, y) \<in> set cs \<Longrightarrow> snd x < u \<and> snd y < u"
    and "\<And>x y. (x, y) \<in> set cs \<Longrightarrow> V x = V y" and "asm_build t n w delta a p = Some labels"
  shows "(\<Prod>x\<in>refs (length p) u. V x + beta * at2 labels x + gamma) =
    (\<Prod>x\<in>refs (length p) u. V x + beta * (w ^ snd x * delta ^ fst x) + gamma)"
proof -
  let ?S = "refs (length p) u" and ?f = "at2 (asm_mapping a)"
  have sub: "?S \<subseteq> refs (length p) n" using assms(3) by (auto simp: refs_def)
  have inv: "asm_inv (length p) n a cs" using assembled_inv [OF assms(1)] by blast
  then have perm: "perm_on (refs (length p) n) ?f" by (simp add: asm_inv_def cycles_inv_def)
  have rel: "(x, ?f x) \<in> copied cs" "?f x \<in> refs (length p) n" if "x \<in> ?S" for x
  proof -
    have x: "x \<in> refs (length p) n" using sub that by blast
    show "?f x \<in> refs (length p) n" by (rule perm_on_closed [OF perm x])
    then show "(x, ?f x) \<in> copied cs" using inv x cycle_rel_step [of ?f x] by (simp add: asm_inv_def)
  qed
  have closed: "?f x \<in> ?S" if "x \<in> ?S" for x
    using copied_rows [OF rel(1) [OF that], of "\<lambda>y. snd y < u"] assms(4) rel(2) [OF that] that by (auto simp: refs_def)
  have "inj_on ?f ?S" using perm sub by (auto simp: perm_on_def bij_betw_def intro: inj_on_subset)
  then have bij: "bij_betw ?f ?S ?S"
    using endo_inj_surj [of ?S ?f] image_subsetI [of ?S ?f ?S, OF closed] by (simp add: bij_betw_def)
  have val: "V (?f x) = V x" if "x \<in> ?S" for x
    by (rule copied_same_value [OF rel(1) [OF that] assms(5), symmetric])
  have lab: "at2 labels x = w ^ snd (?f x) * delta ^ fst (?f x)" if "x \<in> ?S" for x
    using asm_build_eq [OF assms(2,1), of w delta] assms(6) that sub by (auto simp: at2_def refs_def)
  have "(\<Prod>x\<in>?S. V x + beta * at2 labels x + gamma) = (\<Prod>x\<in>?S. V (?f x) + beta * (w ^ snd (?f x) * delta ^ fst (?f x)) + gamma)"
    by (intro prod.cong refl) (simp add: lab val)
  also have "\<dots> = (\<Prod>x\<in>?S. V x + beta * (w ^ snd x * delta ^ fst x) + gamma)"
    by (rule prod.reindex_bij_betw [OF bij, of "\<lambda>x. V x + beta * (w ^ snd x * delta ^ fst x) + gamma"])
  finally show ?thesis .
qed

lemma den_prod_prod:
  "length ps = length cols \<Longrightarrow> den_prod v beta gamma (zip cols ps) = (\<Prod>j<length cols. v (cols ! j) + beta * ps ! j + gamma)"
proof (induction cols arbitrary: ps)
  case (Cons c cols)
  then show ?case by (cases ps) (simp_all add: prod.lessThan_Suc_shift del: prod.lessThan_Suc)
qed simp

lemma num_prod_prod:
  "num_prod v delta gamma cur cols = (\<Prod>j<length cols. v (cols ! j) + cur * delta ^ j + gamma)"
  by (induction cols arbitrary: cur) (simp_all add: prod.lessThan_Suc_shift mult.assoc del: prod.lessThan_Suc)

lemma prod_refs: "(\<Prod>k<u. \<Prod>j<m. f (j, k)) = (\<Prod>x\<in>refs m u. f x)"
proof -
  have "(\<Prod>k<u. \<Prod>j<m. f (j, k)) = (\<Prod>j<m. \<Prod>k<u. f (j, k))" by (rule prod.swap)
  also have "\<dots> = (\<Prod>x\<in>{..<m} \<times> {..<u}. f x)" by (simp add: prod.cartesian_product)
  finally show ?thesis by (simp add: refs_def atLeast0LessThan)
qed

lemma chunks_zip_parts:
  assumes "length xs = length ys" and "0 < L"
  shows "concat (map fst (zip (chunks L xs) (chunks L ys))) = xs" and "concat (map snd (zip (chunks L xs) (chunks L ys))) = ys"
    and "length (chunks L xs) = length (chunks L ys)"
    and "(c, q) \<in> set (zip (chunks L xs) (chunks L ys)) \<Longrightarrow> length c = length q \<and> set c \<subseteq> set xs \<and> set q \<subseteq> set ys"
proof -
  show len: "length (chunks L xs) = length (chunks L ys)"
  proof -
    have "map (\<lambda>_. ()) xs = map (\<lambda>_. ()) ys" using assms(1) by (simp add: list_eq_iff_nth_eq)
    then show ?thesis by (metis chunks_map length_map)
  qed
  then show "concat (map fst (zip (chunks L xs) (chunks L ys))) = xs" "concat (map snd (zip (chunks L xs) (chunks L ys))) = ys"
    using concat_chunks [OF assms(2)] by simp_all
  assume "(c, q) \<in> set (zip (chunks L xs) (chunks L ys))"
  then obtain j where j: "j < length (chunks L xs)" "c = chunks L xs ! j" "q = chunks L ys ! j" by (auto simp: set_zip)
  then show "length c = length q \<and> set c \<subseteq> set xs \<and> set q \<subseteq> set ys"
    using nth_chunks [OF assms(2), of j xs] nth_chunks [OF assms(2), of j ys] len assms(1)
    by (auto dest: in_set_takeD in_set_dropD)
qed

lemma den_prod_nonzero:
  "(\<And>c x. (c, x) \<in> set cxs \<Longrightarrow> v c + beta * x + gamma \<noteq> 0) \<Longrightarrow> den_prod v beta gamma cxs \<noteq> 0"
  by (induction v beta gamma cxs rule: den_prod.induct) auto

lemma chunks_zip_sub:
  assumes "0 < L" and "(c, q) \<in> set (zip (chunks L xs) (chunks L ys))"
  shows "set (zip c q) \<subseteq> set (zip xs ys)"
proof -
  obtain j where "j < length (chunks L xs)" "j < length (chunks L ys)" "c = chunks L xs ! j" "q = chunks L ys ! j"
    using assms(2) by (auto simp: set_zip)
  then have "zip c q = take L (drop (j * L) (zip xs ys))"
    using nth_chunks [OF assms(1), of j xs] nth_chunks [OF assms(1), of j ys] by (simp add: take_zip drop_zip)
  then show ?thesis by (metis set_drop_subset set_take_subset subset_trans)
qed

text \<open>A valid assignment for the labels built from the copies, with no zero denominator on a usable row.\<close>

definition honest_assignment ::
    "'f::field prover_env \<Rightarrow> column list \<Rightarrow> assembly \<Rightarrow> (cell_ref \<times> cell_ref) list \<Rightarrow> 'f list list \<Rightarrow>
     (column \<Rightarrow> 'f list option) \<Rightarrow> (column \<Rightarrow> 'f list) \<Rightarrow> bool" where
  "honest_assignment e p a copies labels vals v \<longleftrightarrow>
     (let n = dom_n (penv_domain e) in
      assembled n p a copies \<and> (\<forall>(x, y)\<in>set copies. snd x < last_row e \<and> snd y < last_row e) \<and>
      asm_build (penv_threads e) n (dom_omega (penv_domain e)) (penv_delta e) a p = Some labels \<and>
      (\<forall>c\<in>set p. vals c = Some (v c) \<and> length (v c) = n) \<and>
      (\<forall>(x, y)\<in>set copies. v (p ! fst x) ! snd x = v (p ! fst y) ! snd y) \<and>
      (\<forall>j<length p. \<forall>i<last_row e. v (p ! j) ! i + penv_beta e * labels ! j ! i + penv_gamma e \<noteq> 0))"

lemma total_ratio_one:
  assumes e: "penv_ok e" and h: "honest_assignment e p a copies labels vals v"
  shows "(\<Prod>k<last_row e. set_ratio (dom_omega (penv_domain e)) (\<lambda>i c. v c ! i) (penv_delta e) (penv_beta e) (penv_gamma e) 1 p labels k) = 1"
proof -
  let ?w = "dom_omega (penv_domain e)" and ?u = "last_row e" and ?n = "dom_n (penv_domain e)"
  let ?V = "\<lambda>x. v (p ! fst x) ! snd x"
  have t: "0 < penv_threads e" "?u \<le> ?n" using e by (auto simp: penv_ok_def last_row_def)
  have asm: "assembled ?n p a copies" and copies: "\<And>x y. (x, y) \<in> set copies \<Longrightarrow> snd x < ?u \<and> snd y < ?u"
    "\<And>x y. (x, y) \<in> set copies \<Longrightarrow> ?V x = ?V y" and build: "asm_build (penv_threads e) ?n ?w (penv_delta e) a p = Some labels"
    and nz: "\<And>j i. j < length p \<Longrightarrow> i < ?u \<Longrightarrow> v (p ! j) ! i + penv_beta e * labels ! j ! i + penv_gamma e \<noteq> 0"
    using h unfolding honest_assignment_def Let_def by blast+
  have len: "length labels = length p" using asm_build_eq [OF t(1) asm, of ?w "penv_delta e"] build by auto
  have den: "(\<Prod>k<?u. den_prod (\<lambda>c. v c ! k) (penv_beta e) (penv_gamma e) (zip p (map (\<lambda>q. q ! k) labels)))
      = (\<Prod>x\<in>refs (length p) ?u. ?V x + penv_beta e * at2 labels x + penv_gamma e)"
    unfolding prod_refs [symmetric] by (intro prod.cong refl) (simp add: den_prod_prod len at2_def)
  have num: "(\<Prod>k<?u. num_prod (\<lambda>c. v c ! k) (penv_delta e) (penv_gamma e) (penv_beta e * ?w ^ k * 1) p)
      = (\<Prod>x\<in>refs (length p) ?u. ?V x + penv_beta e * (?w ^ snd x * penv_delta e ^ fst x) + penv_gamma e)"
    unfolding prod_refs [symmetric] by (intro prod.cong refl) (simp add: num_prod_prod mult.assoc)
  have nonzero: "(\<Prod>x\<in>refs (length p) ?u. ?V x + penv_beta e * at2 labels x + penv_gamma e) \<noteq> 0"
    using nz by (auto simp: refs_def at2_def)
  have agree: "(\<Prod>x\<in>refs (length p) ?u. ?V x + penv_beta e * at2 labels x + penv_gamma e) =
      (\<Prod>x\<in>refs (length p) ?u. ?V x + penv_beta e * (?w ^ snd x * penv_delta e ^ fst x) + penv_gamma e)"
    by (rule usable_products_agree [OF asm t copies build])
  show ?thesis
    unfolding set_ratio_def prod.distrib prod_inversef [unfolded comp_def] den num agree [symmetric]
    by (rule left_inverse [OF nonzero])
qed

lemma commit_chain:
  assumes e: "penv_ok e" and h: "honest_assignment e p a copies labels (column_values advice fixed inst) v" and deg: "3 \<le> cs_deg"
  shows "\<exists>zs. perm_commit e cs_deg p labels advice fixed inst = Some zs \<and>
    chained (dom_omega (penv_domain e)) (last_row e) (\<lambda>i c. v c ! i) (penv_delta e) (penv_beta e) (penv_gamma e) 1 1
      (zip (chunks (cs_deg - 2) p) (chunks (cs_deg - 2) labels)) zs \<and>
    (zs \<noteq> [] \<longrightarrow> poly_eval (last zs) (dom_omega (penv_domain e) ^ last_row e) = 1)"
proof -
  let ?css = "zip (chunks (cs_deg - 2) p) (chunks (cs_deg - 2) labels)" and ?n = "dom_n (penv_domain e)"
  have L: "0 < cs_deg - 2" "\<not> cs_deg < 3" using deg by auto
  have t: "0 < penv_threads e" using e by (simp add: penv_ok_def)
  have asm: "assembled ?n p a copies" and build: "asm_build (penv_threads e) ?n (dom_omega (penv_domain e)) (penv_delta e) a p = Some labels"
    and vals: "\<And>c. c \<in> set p \<Longrightarrow> column_values advice fixed inst c = Some (v c) \<and> length (v c) = ?n"
    and nz: "\<And>j i. j < length p \<Longrightarrow> i < last_row e \<Longrightarrow> v (p ! j) ! i + penv_beta e * labels ! j ! i + penv_gamma e \<noteq> 0"
    using h unfolding honest_assignment_def Let_def by blast+
  have labels: "length p = length labels" "\<And>q. q \<in> set labels \<Longrightarrow> length q = ?n"
    using asm_build_eq [OF t asm, of "dom_omega (penv_domain e)" "penv_delta e"] build by auto
  note parts = chunks_zip_parts [OF labels(1) L(1)]
  have "v c ! i + penv_beta e * x + penv_gamma e \<noteq> 0" if "(c, x) \<in> set (zip p (map (\<lambda>q. q ! i) labels))" "i < last_row e" for c x i
    using that nz by (auto simp: set_zip)
  moreover have "set (zip cols (map (\<lambda>q. q ! i) perms)) \<subseteq> set (zip p (map (\<lambda>q. q ! i) labels))"
    if "(cols, perms) \<in> set ?css" for cols perms i
    using chunks_zip_sub [OF L(1) that] by (auto simp: zip_map2)
  ultimately have "den_nonzero (last_row e) (\<lambda>i c. v c ! i) (penv_beta e) (penv_gamma e) cols perms"
    if "(cols, perms) \<in> set ?css" for cols perms
    unfolding den_nonzero_def using that by (intro allI impI den_prod_nonzero) blast
  moreover have "vals_ok ?n (column_values advice fixed inst) v cols \<and> (\<forall>q\<in>set perms. length q = ?n) \<and> length perms = length cols"
    if "(cols, perms) \<in> set ?css" for cols perms
    using parts(4) [OF that] vals labels(2) by (auto simp: vals_ok_def)
  ultimately show ?thesis
    using commit_sets_eq [OF e refl, of ?css "column_values advice fixed inst" v 1 1 0] total_ratio_one [OF e h] L(2)
    unfolding parts(1,2) by (auto simp: perm_commit_def Let_def split: if_splits)
qed

lemma chained_lengths: "chained w u v delta beta gamma dw start css zs \<Longrightarrow> length zs = length css"
  by (induction css arbitrary: dw start zs) auto

lemma chained_start: "chained w u v delta beta gamma dw start css zs \<Longrightarrow> zs \<noteq> [] \<Longrightarrow> poly_eval (hd zs) 1 = start"
  by (cases css) auto

lemma rotated_last_row:
  assumes "penv_ok e"
  shows "rotate_omega (penv_domain e) 1 (- int (penv_blinding e + 1)) = dom_omega (penv_domain e) ^ last_row e"
proof -
  have b: "penv_blinding e < dom_n (penv_domain e)" and ok: "domain_ok (penv_domain e)" using assms by (simp_all add: penv_ok_def)
  have "- int (penv_blinding e + 1) mod int (dom_n (penv_domain e)) = int (last_row e) mod int (dom_n (penv_domain e))"
    using b by (simp add: last_row_def of_nat_diff mod_minus_eq [symmetric])
  moreover have "last_row e < dom_n (penv_domain e)" using b by (simp add: last_row_def)
  ultimately show ?thesis by (simp add: rotate_omega_eq [OF ok])
qed

lemma expressions_vanish:
  assumes e: "penv_ok e" and deg: "3 \<le> cs_deg" and n: "n = dom_n (penv_domain e)" and w: "w = dom_omega (penv_domain e)"
    and ch: "chained w (last_row e) v (penv_delta e) (penv_beta e) (penv_gamma e) 1 1
      (zip (chunks (cs_deg - 2) p) (chunks (cs_deg - 2) labels)) zs"
    and fin: "zs \<noteq> [] \<Longrightarrow> poly_eval (last zs) (w ^ last_row e) = 1"
    and cs: "permutation cs = p" and len: "length labels = length p" and i: "i < n"
    and col: "\<And>c. c \<in> set p \<Longrightarrow> column_eval cs ev c = Some (v i c)"
  shows "\<exists>evs es. perm_evaluate e (w ^ i) zs = Some evs \<and>
    permutation_expressions cs cs_deg ev (penv_delta e) (penv_beta e) (penv_gamma e) (w ^ i)
      (row_lagrange (last_row e) i) evs (map (\<lambda>q. q ! i) labels) = Some es \<and> list_all (\<lambda>e. e = 0) es"
proof -
  let ?L = "cs_deg - 2" and ?u = "last_row e"
  let ?css = "zip (chunks ?L p) (chunks ?L labels)"
  have L: "0 < ?L" "\<not> cs_deg \<le> 2" using deg by auto
  obtain evs where evs: "perm_evaluate e (w ^ i) zs = Some evs" "length evs = length zs"
    "\<And>j. j < length zs \<Longrightarrow> permutation_product_eval (evs ! j) = poly_eval (zs ! j) (w ^ i)"
    "\<And>j. j < length zs \<Longrightarrow> permutation_product_next_eval (evs ! j) = poly_eval (zs ! j) (w ^ Suc i)"
    "\<And>j. Suc j < length zs \<Longrightarrow> permutation_product_last_eval (evs ! j) =
      Some (poly_eval (zs ! j) (rotate_omega (penv_domain e) (w ^ i) (- int (penv_blinding e + 1))))"
    using perm_evaluate_eq [OF e, of "w ^ i" zs] by (simp add: nth_imap w mult.commute)
  have css: "zip (chunks ?L p) (chunks ?L (map (\<lambda>q. q ! i) labels)) = map (\<lambda>(cols, perms). (cols, map (\<lambda>q. q ! i) perms)) ?css"
    by (simp add: chunks_map zip_map2 split_def)
  obtain ps where ps: "those (imap 0 (perm_set_expression (column_eval cs ev) (penv_delta e) (penv_beta e) (penv_gamma e) (w ^ i)
      (row_lagrange ?u i) ?L) (zip evs (map (\<lambda>(cols, perms). (cols, map (\<lambda>q. q ! i) perms)) ?css))) = Some ps" "list_all (\<lambda>e. e = 0) ps"
  proof -
    have "chained w ?u v (penv_delta e) (penv_beta e) (penv_gamma e) (penv_delta e ^ (0 * ?L)) 1 ?css zs" using ch by simp
    moreover have "column_eval cs ev c = Some (v i c)" if "(cols, perms) \<in> set ?css" "c \<in> set cols" for cols perms c
      using chunks_zip_parts(4) [OF len [symmetric] L(1) that(1)] that(2) col by blast
    moreover have "length (fst (?css ! j)) = ?L" if "Suc j < length ?css" for j
      using chunks_full [of j ?L p] that by simp
    ultimately show thesis using products_vanish [of w ?u v _ _ _ 0 ?L 1 ?css zs evs i "column_eval cs ev"] evs that by blast
  qed
  obtain ls where ls: "those (map (\<lambda>(s, last_set). map_option (\<lambda>prev_last. (permutation_product_eval s - prev_last) * l_0 (row_lagrange ?u i))
      (permutation_product_last_eval last_set)) (zip (drop 1 evs) evs)) = Some ls" "list_all (\<lambda>e. e = 0) ls"
  proof -
    have "\<exists>y. permutation_product_last_eval (evs ! j) = Some y \<and> (i = 0 \<longrightarrow> y = poly_eval (zs ! j) (w ^ ?u))" if "Suc j < length zs" for j
      using evs(5) [OF that] rotated_last_row [OF e] w by simp
    then show thesis using links_vanish [OF ch evs(2,3)] that by blast
  qed
  have "l_0 (row_lagrange ?u i) * (1 - permutation_product_eval (hd evs)) = 0" if "evs \<noteq> []"
  proof -
    have "zs \<noteq> []" using that evs(2) by auto
    then show ?thesis using that evs(3) [of 0] chained_start [OF ch] by (simp add: row_lagrange_def hd_conv_nth)
  qed
  moreover have "(permutation_product_eval (last evs) * permutation_product_eval (last evs) - permutation_product_eval (last evs))
      * l_last (row_lagrange ?u i) = 0" if "evs \<noteq> []"
  proof -
    have "zs \<noteq> []" using that evs(2) by auto
    then show ?thesis using that evs(2) evs(3) [of "length zs - 1"] fin by (simp add: row_lagrange_def last_conv_nth)
  qed
  ultimately show ?thesis
    using evs(1) ps ls L(2) unfolding permutation_expressions_def cs css Let_def if_not_P [OF L(2)]
    by (cases evs) auto
qed

section \<open>Properties\<close>

text \<open>
  C2: completeness of the permutation argument. Take the labels that key generation builds from any
  sequence of copies within the usable rows, and an assignment that gives copied cells the same
  value (\<open>honest_assignment\<close>). If no denominator of a usable row is zero, the prover's \<open>commit\<close>
  succeeds, and on every row of the domain the openings computed by \<open>evaluate\<close> make every
  permutation identity of the verifier zero, for all challenges, blinding values and numbers of
  threads.
\<close>

theorem permutation_argument_complete:
  assumes "penv_ok e" and "3 \<le> cs_deg"
    and "honest_assignment e (permutation cs) a copies labels (column_values advice fixed inst) v"
    and "\<And>i c. i < dom_n (penv_domain e) \<Longrightarrow> c \<in> set (permutation cs) \<Longrightarrow> column_eval cs (ev i) c = Some (v c ! i)"
  shows "\<exists>zs. perm_commit e cs_deg (permutation cs) labels advice fixed inst = Some zs \<and>
    (\<forall>i<dom_n (penv_domain e). \<exists>evs es. perm_evaluate e (dom_omega (penv_domain e) ^ i) zs = Some evs \<and>
      permutation_expressions cs cs_deg (ev i) (penv_delta e) (penv_beta e) (penv_gamma e) (dom_omega (penv_domain e) ^ i)
        (row_lagrange (last_row e) i) evs (map (\<lambda>q. q ! i) labels) = Some es \<and> list_all (\<lambda>e. e = 0) es)"
proof -
  obtain zs where zs: "perm_commit e cs_deg (permutation cs) labels advice fixed inst = Some zs"
    "chained (dom_omega (penv_domain e)) (last_row e) (\<lambda>i c. v c ! i) (penv_delta e) (penv_beta e) (penv_gamma e) 1 1
      (zip (chunks (cs_deg - 2) (permutation cs)) (chunks (cs_deg - 2) labels)) zs"
    "zs \<noteq> [] \<Longrightarrow> poly_eval (last zs) (dom_omega (penv_domain e) ^ last_row e) = 1"
    using commit_chain [OF assms(1,3,2)] by blast
  have asm: "assembled (dom_n (penv_domain e)) (permutation cs) a copies" "0 < penv_threads e"
    "asm_build (penv_threads e) (dom_n (penv_domain e)) (dom_omega (penv_domain e)) (penv_delta e) a (permutation cs) = Some labels"
    using assms(1,3) by (auto simp: honest_assignment_def Let_def penv_ok_def)
  have "length labels = length (permutation cs)"
    using asm_build_eq [OF asm(2,1), of "dom_omega (penv_domain e)" "penv_delta e"] asm(3) by auto
  then show ?thesis
    using expressions_vanish [OF assms(1,2) refl refl zs(2,3) refl] assms(4) zs(1) by blast
qed

text \<open>Two advice columns with \<open>(0, 0)\<close> copied to \<open>(1, 1)\<close>, on the domain of four rows with one blinded row.\<close>

definition sample_cs :: "gf97 constraint_system" where
  "sample_cs = cs_default\<lparr>advice_queries := [(demo_col 0, 0), (demo_col 1, 0)], permutation := [demo_col 0, demo_col 1]\<rparr>"

definition sample_env :: "gf97 domain \<Rightarrow> gf97 prover_env" where
  "sample_env d = \<lparr>penv_threads = 2, penv_invert = sample_invert, penv_domain = d, penv_delta = 35, penv_beta = 2,
     penv_gamma = 1, penv_blinding = 1, penv_rand = of_nat\<rparr>"

definition sample_advice :: "gf97 list list" where
  "sample_advice = [[5, 6, 0, 0], [6, 5, 0, 0]]"

lemma sample_assembled: "\<exists>a. assembled 4 [demo_col 0, demo_col 1] a [((0, 0), (1, 1))]"
proof -
  let ?p = "[demo_col 0, demo_col 1]"
  have pos: "position (\<lambda>c. c = demo_col 0) ?p = Some 0" "position (\<lambda>c. c = demo_col 1) ?p = Some 1"
    by (simp_all add: demo_col_def)
  have new: "asm_inv 2 4 (assembly_new 4 ?p) []" "asm_columns (assembly_new 4 ?p) = ?p"
    using asm_inv_new [of ?p 4] by (simp_all add: numeral_2_eq_2 assembly_new_def Let_def)
  obtain a where "asm_copy (assembly_new 4 ?p) (demo_col 0) 0 (demo_col 1) 1 = Ok a"
    using asm_copy_inv [OF new(1), of "demo_col 0" 0 "demo_col 1" 1 0 1] pos new(2) by auto
  from assembled_copy [OF assembled_new this pos] show ?thesis by blast
qed

lemma domain_new_omega:
  "domain_new batch_invert params j k = Some d \<Longrightarrow> dom_omega d = square_times (extend_k k (2 ^ k * (j - 1)) - k)
     (square_times (param_S params - extend_k k (2 ^ k * (j - 1))) (root_of_unity params))"
  by (auto simp: domain_new_def Let_def bind_eq_Some_conv split: if_splits)

lemma sample_omega: "domain_new sample_invert sample_params 3 2 = Some d \<Longrightarrow> dom_omega d = 22"
  by (drule domain_new_omega) (simp add: sample_extend square_times_power sample_params_def gf_eq_iff)

lemma sample_invert_inverse: "sample_invert xs = map inverse xs"
  by (rule batch_invert_inverse) (rule refl)

lemma sample_env_ok:
  assumes "domain_new sample_invert sample_params 3 2 = Some d" and "dom_n d = 4"
  shows "penv_ok (sample_env d)"
proof -
  have "domain_ok d" by (rule domain_new_SomeD [OF sample_invert_inverse sample_params_ok assms(1)])
  then show ?thesis
    unfolding penv_ok_def sample_env_def using assms(2) sample_invert_inverse by simp
qed

lemma sample_labels_nonzero:
  assumes "s < 4" and "t < 2" and "x = 5 \<or> x = 6"
  shows "x + 2 * (22 ^ s * 35 ^ t) + 1 \<noteq> (0 :: gf97)"
proof -
  have "s = 0 \<or> s = 1 \<or> s = 2 \<or> s = 3" "t = 0 \<or> t = 1" using assms(1,2) by auto
  then show ?thesis using assms(3) by (elim disjE) (simp_all add: gf_eq_iff)
qed

lemma sample_honest:
  assumes "domain_new sample_invert sample_params 3 2 = Some d" and "dom_n d = 4"
  shows "\<exists>a labels. honest_assignment (sample_env d) [demo_col 0, demo_col 1] a [((0, 0), (1, 1))] labels
    (column_values sample_advice [] []) (\<lambda>c. sample_advice ! col_index c)"
proof -
  let ?p = "[demo_col 0, demo_col 1]"
  obtain a where a: "assembled 4 ?p a [((0, 0), (1, 1))]" using sample_assembled by blast
  let ?f = "at2 (asm_mapping a)"
  let ?labels = "map (\<lambda>i. map (\<lambda>j. (22 :: gf97) ^ snd (?f (i, j)) * 35 ^ fst (?f (i, j))) [0..<4]) [0..<length ?p]"
  have build: "asm_build 2 4 22 35 a ?p = Some ?labels" by (rule asm_build_eq [OF _ a]) simp
  have "(sample_advice ! j) ! i + 2 * ?labels ! j ! i + 1 \<noteq> 0" if "j < 2" "i < 2" for j i
  proof -
    have "?f (j, i) \<in> refs (length ?p) 4" by (rule assembled_mapping(2) [OF a]) (use that in \<open>simp add: refs_def\<close>)
    then have f: "snd (?f (j, i)) < 4" "fst (?f (j, i)) < 2" by (auto simp: refs_def)
    have "(sample_advice ! j) ! i = 5 \<or> (sample_advice ! j) ! i = 6"
      using that by (auto simp: sample_advice_def less_2_cases_iff)
    moreover have "?labels ! j ! i = 22 ^ snd (?f (j, i)) * 35 ^ fst (?f (j, i))"
      using that by (auto simp: less_2_cases_iff)
    ultimately show ?thesis using sample_labels_nonzero [OF f] by (simp only: simp_thms)
  qed
  moreover have "?p ! j = demo_col j" if "j < 2" for j using that by (auto simp: less_2_cases_iff)
  ultimately have "honest_assignment (sample_env d) ?p a [((0, 0), (1, 1))] ?labels (column_values sample_advice [] [])
      (\<lambda>c. sample_advice ! col_index c)"
    using a build assms sample_omega [OF assms(1)] unfolding honest_assignment_def Let_def
    by (simp add: sample_env_def last_row_def column_values_def demo_col_def sample_advice_def index_opt_def)
  then show ?thesis by blast
qed

theorem permutation_argument_complete_witness:
  "\<exists>d labels zs evs es. domain_new sample_invert sample_params 3 2 = Some d
     \<and> perm_commit (sample_env d) 3 (permutation sample_cs) labels sample_advice [] [] = Some zs
     \<and> perm_evaluate (sample_env d) (22 ^ 2) zs = Some evs
     \<and> permutation_expressions sample_cs 3 \<lparr>fixed_evals = [], advice_evals = [0, 0], instance_evals = [], challenge_evals = []\<rparr>
         35 2 1 (22 ^ 2) (row_lagrange 2 2) evs (map (\<lambda>q. q ! 2) labels) = Some es
     \<and> list_all (\<lambda>e. e = 0) es"
proof -
  obtain d where d: "domain_new sample_invert sample_params 3 2 = Some d" "dom_n d = 4" using sample_domain by blast
  let ?e = "sample_env d" and ?v = "\<lambda>c. sample_advice ! col_index c"
  let ?ev = "\<lambda>i. \<lparr>fixed_evals = [], advice_evals = [sample_advice ! 0 ! i, sample_advice ! 1 ! i], instance_evals = [], challenge_evals = []\<rparr>"
  have p: "permutation sample_cs = [demo_col 0, demo_col 1]" by (simp add: sample_cs_def)
  obtain a labels where h: "honest_assignment ?e (permutation sample_cs) a [((0, 0), (1, 1))] labels (column_values sample_advice [] []) ?v"
    using sample_honest [OF d] unfolding p by blast
  have col: "column_eval sample_cs (?ev i) c = Some (?v c ! i)"
    if "i < dom_n (penv_domain ?e)" "c \<in> set (permutation sample_cs)" for i c
    using that by (auto simp: p column_eval_def sample_cs_def demo_col_def get_any_query_index_def get_advice_query_index_def index_opt_def)
  note complete = permutation_argument_complete [OF sample_env_ok [OF d] _ h col, of 3]
  have sel: "dom_n (penv_domain ?e) = 4" "dom_omega (penv_domain ?e) = 22" "penv_delta ?e = 35" "penv_beta ?e = 2" "penv_gamma ?e = 1"
    "last_row ?e = 2" using d sample_omega [OF d(1)] by (simp_all add: sample_env_def last_row_def)
  have "?ev 2 = \<lparr>fixed_evals = [], advice_evals = [0, 0], instance_evals = [], challenge_evals = []\<rparr>"
    by (simp add: sample_advice_def numeral_2_eq_2)
  moreover obtain zs where "perm_commit ?e 3 (permutation sample_cs) labels sample_advice [] [] = Some zs"
    and rows: "\<forall>i<4. \<exists>evs es. perm_evaluate ?e (22 ^ i) zs = Some evs \<and>
      permutation_expressions sample_cs 3 (?ev i) 35 2 1 (22 ^ i) (row_lagrange 2 i) evs (map (\<lambda>q. q ! i) labels) = Some es
      \<and> list_all (\<lambda>e. e = 0) es"
    using complete unfolding sel by auto
  moreover have "(2 :: nat) < 4" by simp
  ultimately show ?thesis using d(1) rows [rule_format, of 2] by auto
qed

end
