(* ===== verification/Lookup_Prover.thy ===== *)
theory Lookup_Prover
  imports Permutation_Prover
begin

text \<open>
  The prover's side of the lookup (logup) and trash arguments: \<open>commit_multiplicities\<close>,
  \<open>compute_multiplicities\<close>, \<open>commit_logderivative\<close> and \<open>evaluate\<close> of \<open>plonk/logup/prover.rs\<close>, and \<open>commit\<close>
  and \<open>evaluate\<close> of \<open>plonk/trash/prover.rs\<close>. As in the permutation argument the random source is the
  sequence of its draws, and commitments and transcript writes are left out. \<open>None\<close> is a panic; the
  assertions of a debug build are part of the model.
\<close>

section \<open>Pointwise operations on polynomials\<close>

definition poly_add :: "nat \<Rightarrow> 'f::field list \<Rightarrow> 'f list \<Rightarrow> 'f list option" where
  "poly_add threads a b =
     (if length a \<noteq> length b then None
      else parallelize threads a (\<lambda>lhs start. map2 (+) lhs (take (length lhs) (drop start b))))"

definition poly_scale :: "nat \<Rightarrow> 'f::field list \<Rightarrow> 'f \<Rightarrow> 'f list option" where
  "poly_scale threads a rhs =
     (if rhs = 0 then parallelize threads a (\<lambda>lhs _. map (\<lambda>_. 0) lhs)
      else if rhs = 1 then Some a
      else parallelize threads a (\<lambda>lhs _. map (\<lambda>x. x * rhs) lhs))"

section \<open>Multiplicities\<close>

text \<open>A hash map from values to \<open>u32\<close> counters; incrementing the largest counter overflows.\<close>

type_synonym 'f counts = "'f \<Rightarrow> nat option"

fun count_table :: "'f list \<Rightarrow> 'f counts \<Rightarrow> 'f counts option" where
  "count_table [] m = Some m"
| "count_table (v # vs) m =
     (let c = (case m v of None \<Rightarrow> 0 | Some c \<Rightarrow> c)
      in if 2 ^ 32 \<le> c + 1 then None else count_table vs (m(v \<mapsto> c + 1)))"

fun count_inputs :: "('f::zero \<times> 'f) list \<Rightarrow> 'f counts \<Rightarrow> 'f counts option" where
  "count_inputs [] m = Some m"
| "count_inputs ((v, sel) # rest) m =
     (if sel = 0 then count_inputs rest m
      else case m v of None \<Rightarrow> None
        | Some c \<Rightarrow> if 2 ^ 32 \<le> c + 1 then None else count_inputs rest (m(v \<mapsto> c + 1)))"

definition compute_multiplicities ::
    "('f list \<Rightarrow> 'f list) \<Rightarrow> 'f::field list \<Rightarrow> 'f list list \<Rightarrow> 'f list \<Rightarrow> nat \<Rightarrow> (nat \<Rightarrow> 'f) \<Rightarrow> 'f list option" where
  "compute_multiplicities batch_invert selector values table usable_rows rand =
     do { table_counts \<leftarrow> count_table (take usable_rows table) Map.empty;
          input_counts \<leftarrow> count_inputs (concat (map (\<lambda>value. take usable_rows (zip value selector)) values))
            (\<lambda>v. map_option (\<lambda>_. 0) (table_counts v));
          let table_count_inverses = batch_invert (imap 0 (\<lambda>i value. if i < usable_rows
                then of_nat (case table_counts value of None \<Rightarrow> 1 | Some c \<Rightarrow> c) else 1) table);
          Some (imap 0 (\<lambda>i (value, table_count_inv). if i < usable_rows
                then of_nat (case input_counts value of None \<Rightarrow> 0 | Some c \<Rightarrow> c) * table_count_inv
                else rand (i - usable_rows)) (zip table table_count_inverses)) }"

record 'f computed_multiplicities =
  cm_selector :: "'f list"
  cm_multiplicities :: "'f list"
  cm_inputs :: "'f list list list"
  cm_table :: "'f list"

definition eval_expressions :: "'f::field prover_env \<Rightarrow> 'f eval_args \<Rightarrow> 'f expression list \<Rightarrow> 'f list list option" where
  "eval_expressions e args es =
     those (map (\<lambda>expression. do { vs \<leftarrow> evaluate_rows args expression (dom_n (penv_domain e)) 1;
                                   lagrange_from_vec (penv_domain e) vs }) es)"

definition compress_columns :: "'f::field prover_env \<Rightarrow> 'f eval_args \<Rightarrow> 'f \<Rightarrow> 'f expression list \<Rightarrow> 'f list option" where
  "compress_columns e args theta es =
     do { cols \<leftarrow> eval_expressions e args es;
          foldM (\<lambda>expression acc. do { acc \<leftarrow> poly_scale (penv_threads e) acc theta;
                                       poly_add (penv_threads e) acc expression }) cols (empty_lagrange (penv_domain e)) }"

definition commit_multiplicities ::
    "'f::field prover_env \<Rightarrow> 'f eval_args \<Rightarrow> 'f \<Rightarrow> 'f chunked_argument \<Rightarrow> (nat \<Rightarrow> 'f) \<Rightarrow> 'f computed_multiplicities option" where
  "commit_multiplicities e args theta ca rand =
     do { inputs \<leftarrow> those (map (\<lambda>chunk. those (map (compress_columns e args theta) chunk)) (ca_input_expression_chunks ca));
          table \<leftarrow> compress_columns e args theta (ca_table_expressions ca);
          selectors \<leftarrow> eval_expressions e args [ca_selector ca];
          if dom_n (penv_domain e) < penv_blinding e + 1 then None
          else do { m \<leftarrow> compute_multiplicities (penv_invert e) (hd selectors) (concat inputs) table
                      (dom_n (penv_domain e) - penv_blinding e - 1) rand;
                    m \<leftarrow> lagrange_from_vec (penv_domain e) m;
                    Some \<lparr>cm_selector = hd selectors, cm_multiplicities = m, cm_inputs = inputs, cm_table = table\<rparr> } }"

section \<open>The running sum\<close>

definition helper_column :: "'f::field prover_env \<Rightarrow> 'f list list \<Rightarrow> 'f list option" where
  "helper_column e compressed_inputs =
     (let inverted_columns = map (\<lambda>col. penv_invert e (map (\<lambda>v. penv_beta e + v) col)) compressed_inputs
      in parallel_rows (penv_threads e) (replicate (dom_n (penv_domain e)) 0) (\<lambda>chunk start.
           imap start (\<lambda>row val. do { val \<leftarrow> val;
             foldM (\<lambda>col val. do { x \<leftarrow> index_opt col row; Some (val + x) }) inverted_columns val }) chunk))"

definition logderivative :: "'f::field prover_env \<Rightarrow> 'f computed_multiplicities \<Rightarrow> 'f list \<Rightarrow> 'f list list \<Rightarrow> 'f list option" where
  "logderivative e cm table_denoms helpers =
     parallel_rows (penv_threads e) (replicate (dom_n (penv_domain e)) 0) (\<lambda>chunk start.
       imap start (\<lambda>i _. do { hs \<leftarrow> those (map (\<lambda>h. index_opt h i) helpers);
                              s \<leftarrow> index_opt (cm_selector cm) i; m \<leftarrow> index_opt (cm_multiplicities cm) i;
                              t \<leftarrow> index_opt table_denoms i;
                              Some (s * sum_list hs - m * t) }) chunk)"

fun scan_sum :: "'f::field \<Rightarrow> 'f list \<Rightarrow> 'f list" where
  "scan_sum state [] = []"
| "scan_sum state (cur # rest) = (state + cur) # scan_sum (state + cur) rest"

record 'f lookup_committed =
  lc_multiplicities :: "'f list"
  lc_helper_polys :: "'f list list"
  lc_aggregator_poly :: "'f list"

definition commit_logderivative ::
    "'f::field prover_env \<Rightarrow> 'f computed_multiplicities \<Rightarrow> (nat \<Rightarrow> 'f) \<Rightarrow> 'f lookup_committed option" where
  "commit_logderivative e cm rand =
     (let d = penv_domain e; n = dom_n d; b = penv_blinding e; t = penv_threads e in
      do { table_denoms \<leftarrow> parallel_rows t (replicate n 0) (\<lambda>chunk start.
             imap start (\<lambda>i _. map_option (\<lambda>v. penv_beta e + v) (index_opt (cm_table cm) i)) chunk);
           let table_denoms = penv_invert e table_denoms;
           helpers \<leftarrow> those (map (helper_column e) (cm_inputs cm));
           _ \<leftarrow> those (map (lagrange_from_vec d) helpers);
           ld \<leftarrow> logderivative e cm table_denoms helpers;
           if n < b then None
           else do { aggregator \<leftarrow> lagrange_from_vec d (take (n - b) (scan_sum 0 (0 # ld)) @ map rand [0..<b]);
                     if n < b + 1 \<or> aggregator ! 0 \<noteq> 0 \<or> aggregator ! (n - (b + 1)) \<noteq> 0 then None
                     else do { m \<leftarrow> lagrange_to_coeff d t (cm_multiplicities cm);
                               hs \<leftarrow> those (map (lagrange_to_coeff d t) helpers);
                               z \<leftarrow> lagrange_to_coeff d t aggregator;
                               Some \<lparr>lc_multiplicities = m, lc_helper_polys = hs, lc_aggregator_poly = z\<rparr> } } })"

definition lookup_evaluate :: "'f::field prover_env \<Rightarrow> 'f \<Rightarrow> 'f lookup_committed \<Rightarrow> 'f lookup_evaluated option" where
  "lookup_evaluate e x lc =
     do { m \<leftarrow> eval_polynomial (penv_threads e) (lc_multiplicities lc) x;
          hs \<leftarrow> those (map (\<lambda>h. eval_polynomial (penv_threads e) h x) (lc_helper_polys lc));
          z \<leftarrow> eval_polynomial (penv_threads e) (lc_aggregator_poly lc) x;
          z_next \<leftarrow> eval_polynomial (penv_threads e) (lc_aggregator_poly lc) (rotate_omega (penv_domain e) x 1);
          Some \<lparr>multiplicities_eval = m, helper_evals = hs, accumulator_eval = z, accumulator_next_eval = z_next\<rparr> }"

section \<open>The trash argument\<close>

definition trash_commit :: "'f::field prover_env \<Rightarrow> 'f eval_args \<Rightarrow> 'f \<Rightarrow> 'f trash_argument \<Rightarrow> 'f list option" where
  "trash_commit e args trash_challenge a =
     do { compressed \<leftarrow> compress_columns e args trash_challenge (ta_constraint_expressions a);
          lagrange_to_coeff (penv_domain e) (penv_threads e) compressed }"

definition trash_evaluate :: "'f::field prover_env \<Rightarrow> 'f \<Rightarrow> 'f list \<Rightarrow> 'f option" where
  "trash_evaluate e x trash_poly = eval_polynomial (penv_threads e) trash_poly x"

section \<open>Compressed columns\<close>

lemma poly_add_eq:
  assumes "0 < t" and "length a = length b"
  shows "poly_add t a b = Some (map2 (+) a b)"
proof -
  have "parallelize t a (\<lambda>lhs start. map2 (+) lhs (take (length lhs) (drop start b))) = Some (imap 0 (\<lambda>i x. x + b ! i) a)"
  proof (rule parallelize_pointwise_range [OF assms(1)])
    fix chunk :: "'a list" and off
    assume "off + length chunk \<le> length a"
    then show "map2 (+) chunk (take (length chunk) (drop off b)) = imap off (\<lambda>i x. x + b ! i) chunk"
      using assms(2) by (intro nth_equalityI) (simp_all add: nth_imap)
  qed
  moreover have "imap 0 (\<lambda>i x. x + b ! i) a = map2 (+) a b"
    using assms(2) by (intro nth_equalityI) (simp_all add: nth_imap)
  ultimately show ?thesis using assms(2) by (simp add: poly_add_def)
qed

lemma poly_scale_eq:
  assumes "0 < t"
  shows "poly_scale t a r = Some (map (\<lambda>x. x * r) a)"
proof -
  have "parallelize t a (\<lambda>lhs _. map (\<lambda>x. x * r) lhs) = Some (map (\<lambda>x. x * r) a)"
    using parallelize_pointwise [OF assms, of "\<lambda>lhs _. map (\<lambda>x. x * r) lhs" "\<lambda>_ x. x * r" a] map_scale_imap [of r] by metis
  then show ?thesis by (cases "r = 0") (simp_all add: poly_scale_def)
qed

text \<open>\<open>val expr i\<close> is the value of an expression on row \<open>i\<close>.\<close>

definition row_values :: "'f::field prover_env \<Rightarrow> 'f eval_args \<Rightarrow> ('f expression \<Rightarrow> nat \<Rightarrow> 'f) \<Rightarrow> 'f expression set \<Rightarrow> bool" where
  "row_values e args val es \<longleftrightarrow> (\<forall>x\<in>es. \<forall>i<dom_n (penv_domain e).
     evaluate_row args i 1 (as_i32 (dom_n (penv_domain e))) x = Some (val x i))"

definition compressed :: "('f::field expression \<Rightarrow> nat \<Rightarrow> 'f) \<Rightarrow> 'f \<Rightarrow> 'f expression list \<Rightarrow> nat \<Rightarrow> 'f" where
  "compressed val theta es i = foldl (\<lambda>acc x. acc * theta + x) 0 (map (\<lambda>x. val x i) es)"

lemma eval_expressions_eq:
  assumes "row_values e args val (set es)"
  shows "eval_expressions e args es = Some (map (\<lambda>x. map (val x) [0..<dom_n (penv_domain e)]) es)"
proof -
  have "evaluate_rows args x (dom_n (penv_domain e)) 1 = Some (map (val x) [0..<dom_n (penv_domain e)])" if "x \<in> set es" for x
    unfolding evaluate_rows_def by (rule those_map_cong) (use assms that in \<open>simp add: row_values_def\<close>)
  then show ?thesis unfolding eval_expressions_def by (intro those_map_cong) (simp add: lagrange_from_vec_def)
qed

lemma compress_columns_eq:
  assumes "0 < penv_threads e" and "row_values e args val (set es)"
  shows "compress_columns e args theta es = Some (map (compressed val theta es) [0..<dom_n (penv_domain e)])"
proof -
  let ?n = "dom_n (penv_domain e)"
  let ?step = "\<lambda>expression acc. do { acc \<leftarrow> poly_scale (penv_threads e) acc theta; poly_add (penv_threads e) acc expression }"
  have "foldM ?step (map (\<lambda>x. map (val x) [0..<?n]) es) (map f [0..<?n]) =
      Some (map (\<lambda>i. foldl (\<lambda>acc x. acc * theta + x) (f i) (map (\<lambda>x. val x i) es)) [0..<?n])" for f
  proof (induction es arbitrary: f)
    case (Cons x es)
    have "map2 (+) (map (\<lambda>i. f i * theta) [0..<?n]) (map (val x) [0..<?n]) = map (\<lambda>i. f i * theta + val x i) [0..<?n]"
      by (intro nth_equalityI) simp_all
    then show ?case
      using Cons.IH [of "\<lambda>i. f i * theta + val x i"] by (simp add: poly_scale_eq [OF assms(1)] poly_add_eq [OF assms(1)] comp_def)
  qed simp
  from this [of "\<lambda>_. 0"] show ?thesis
    by (simp add: compress_columns_def eval_expressions_eq [OF assms(2)] empty_lagrange_def map_replicate_const compressed_def [abs_def])
qed

section \<open>Counting\<close>

lemma count_table_eq:
  assumes "\<And>v. (case m v of None \<Rightarrow> 0 | Some c \<Rightarrow> c) + count_list vs v < 2 ^ 32"
  shows "count_table vs m = Some (\<lambda>v. if m v = None \<and> v \<notin> set vs then None
    else Some ((case m v of None \<Rightarrow> 0 | Some c \<Rightarrow> c) + count_list vs v))"
  using assms
proof (induction vs arbitrary: m)
  case Nil
  have "(if m v = None \<and> v \<notin> set [] then None else Some ((case m v of None \<Rightarrow> 0 | Some c \<Rightarrow> c) + count_list [] v)) = m v" for v
    by (cases "m v") simp_all
  then show ?case by (simp only: count_table.simps)
next
  case (Cons x vs)
  let ?c = "case m x of None \<Rightarrow> 0 | Some c \<Rightarrow> c" and ?m = "m(x \<mapsto> (case m x of None \<Rightarrow> 0 | Some c \<Rightarrow> c) + 1)"
  have "?c + 1 < 2 ^ 32" using Cons.prems [of x] by simp
  moreover have "count_table vs ?m = Some (\<lambda>v. if ?m v = None \<and> v \<notin> set vs then None
      else Some ((case ?m v of None \<Rightarrow> 0 | Some c \<Rightarrow> c) + count_list vs v))"
  proof (rule Cons.IH)
    show "(case ?m v of None \<Rightarrow> 0 | Some c \<Rightarrow> c) + count_list vs v < 2 ^ 32" for v
      using Cons.prems [of v] by (auto split: if_splits)
  qed
  ultimately show ?case by (auto simp: Let_def fun_eq_iff)
qed

abbreviation selected :: "('f::zero \<times> 'f) list \<Rightarrow> 'f list" where
  "selected pairs \<equiv> map fst (filter (\<lambda>(v, sel). sel \<noteq> 0) pairs)"

lemma count_inputs_eq:
  assumes "set (selected ps) \<subseteq> dom m" and "\<And>v c. m v = Some c \<Longrightarrow> c + count_list (selected ps) v < 2 ^ 32"
  shows "count_inputs ps m = Some (\<lambda>v. map_option (\<lambda>c. c + count_list (selected ps) v) (m v))"
  using assms
proof (induction ps m rule: count_inputs.induct)
  case (1 m)
  then show ?case by (simp add: option.map_ident_strong)
next
  case (2 v sel rest m)
  show ?case
  proof (cases "sel = 0")
    case True
    then show ?thesis using 2 by simp
  next
    case False
    then obtain c where c: "m v = Some c" using "2.prems"(1) by auto
    have lt: "c + 1 < 2 ^ 32" using "2.prems"(2) [OF c] False by simp
    have "count_inputs rest (m(v \<mapsto> c + 1)) = Some (\<lambda>w. map_option (\<lambda>c. c + count_list (selected rest) w) ((m(v \<mapsto> c + 1)) w))"
    proof (rule "2.IH"(2) [OF False c])
      show "\<not> 2 ^ 32 \<le> c + 1" using lt by simp
      show "set (selected rest) \<subseteq> dom (m(v \<mapsto> c + 1))" using "2.prems"(1) False by auto
      show "d + count_list (selected rest) w < 2 ^ 32" if "(m(v \<mapsto> c + 1)) w = Some d" for w d
        using "2.prems"(2) [of w] that False c by (auto split: if_splits)
    qed
    then show ?thesis using False c lt by (auto simp: fun_eq_iff)
  qed
qed

lemma count_inputs_None: "set (selected ps) \<subseteq> dom m \<or> count_inputs ps m = None"
proof (induction ps m rule: count_inputs.induct)
  case (2 v sel rest m)
  show ?case
  proof (cases "sel \<noteq> 0 \<and> m v \<noteq> None")
    case True
    then obtain c where c: "m v = Some c" "sel \<noteq> 0" by auto
    have dom: "dom (m(v \<mapsto> c + 1)) = dom m" and v: "v \<in> dom m" using c by auto
    show ?thesis
    proof (cases "2 ^ 32 \<le> c + 1")
      case True
      then show ?thesis using c by simp
    next
      case False
      have "set (selected rest) \<subseteq> dom m \<or> count_inputs rest (m(v \<mapsto> c + 1)) = None"
        using "2.IH"(2) [OF c(2,1) False] unfolding dom .
      then show ?thesis using c v False by (elim disjE) simp_all
    qed
  next
    case False
    then show ?thesis using "2.IH"(1) by (cases "sel = 0") auto
  qed
qed simp

lemma sum_list_count:
  "set xs \<subseteq> S \<Longrightarrow> finite S \<Longrightarrow> sum_list (map f xs) = (\<Sum>x\<in>S. of_nat (count_list xs x) * f x)" for f :: "'a \<Rightarrow> 'f::field"
proof (induction xs)
  case (Cons y xs)
  have "(\<Sum>x\<in>S. of_nat (count_list (y # xs) x) * f x) = (\<Sum>x\<in>S. of_nat (count_list xs x) * f x + (if x = y then f x else 0))"
    by (intro sum.cong) (auto simp: algebra_simps)
  then show ?case using Cons by (simp add: sum.distrib)
qed simp

text \<open>The balance of the argument: the normalised multiplicities weigh each looked-up value once.\<close>

lemma multiplicities_balance:
  fixes g :: "'f \<Rightarrow> 'f::field"
  assumes "set inputs \<subseteq> set tab" and "\<And>v. v \<in> set tab \<Longrightarrow> of_nat (count_list tab v) \<noteq> (0 :: 'f)"
  shows "(\<Sum>v\<leftarrow>tab. of_nat (count_list inputs v) * inverse (of_nat (count_list tab v)) * g v) = sum_list (map g inputs)"
proof -
  have "(\<Sum>v\<leftarrow>tab. of_nat (count_list inputs v) * inverse (of_nat (count_list tab v)) * g v) =
      (\<Sum>v\<in>set tab. of_nat (count_list tab v) * (of_nat (count_list inputs v) * inverse (of_nat (count_list tab v)) * g v))"
    by (rule sum_list_count) auto
  also have "\<dots> = (\<Sum>v\<in>set tab. of_nat (count_list inputs v) * g v)"
    by (intro sum.cong refl) (use assms(2) in \<open>simp add: field_simps\<close>)
  also have "\<dots> = sum_list (map g inputs)" by (rule sum_list_count [OF assms(1), symmetric]) simp
  finally show ?thesis .
qed

lemma compute_multiplicities_eq:
  fixes table selector :: "'f::field list" and cols :: "'f list list" and u :: nat
  assumes inv: "\<And>xs. batch_invert xs = map inverse (xs :: 'f list)"
  defines "S \<equiv> selected (concat (map (\<lambda>value. take u (zip value selector)) cols))" and "T \<equiv> take u table"
  assumes "set S \<subseteq> set T" and "length S < 2 ^ 32" and "length T < 2 ^ 32"
  shows "\<exists>ms. compute_multiplicities batch_invert selector cols table u rand = Some ms \<and> length ms = length table \<and>
    (\<forall>i<length table. i < u \<longrightarrow> ms ! i = of_nat (count_list S (table ! i)) * inverse (of_nat (count_list T (table ! i))))"
proof -
  let ?tc = "\<lambda>v. if v \<in> set T then Some (count_list T v) else None"
  have "count_table T Map.empty = Some ?tc"
  proof -
    have "(case Map.empty v of None \<Rightarrow> 0 | Some c \<Rightarrow> c) + count_list T v < 2 ^ 32" for v
      using count_le_length [of T v] assms(6) by simp
    from count_table_eq [of Map.empty T, OF this] show ?thesis by (simp add: if_distrib cong: if_cong) (metis (no_types))
  qed
  moreover have "count_inputs (concat (map (\<lambda>value. take u (zip value selector)) cols)) (\<lambda>v. map_option (\<lambda>_. 0) (?tc v)) =
      Some (\<lambda>v. map_option (\<lambda>c. c + count_list S v) (map_option (\<lambda>_. 0) (?tc v)))"
    unfolding S_def
  proof (rule count_inputs_eq)
    show "set (selected (concat (map (\<lambda>value. take u (zip value selector)) cols))) \<subseteq> dom (\<lambda>v. map_option (\<lambda>_. 0) (?tc v))"
      using assms(4) unfolding S_def by (auto simp: dom_def)
    show "c + count_list (selected (concat (map (\<lambda>value. take u (zip value selector)) cols))) v < 2 ^ 32"
      if "map_option (\<lambda>_. 0) (?tc v) = Some c" for v c
      using that assms(5) count_le_length [of "selected (concat (map (\<lambda>value. take u (zip value selector)) cols))" v]
      unfolding S_def by (auto split: if_splits intro: le_less_trans)
  qed
  moreover have "table ! i \<in> set T" if "i < length table" "i < u" for i
    using that unfolding T_def by (auto simp: in_set_conv_nth intro!: exI [of _ i])
  ultimately show ?thesis
    unfolding compute_multiplicities_def T_def [symmetric]
    by (simp add: inv nth_imap split_beta)
qed

section \<open>The running sum\<close>

lemma parallel_table:
  fixes g :: "nat \<Rightarrow> 'f::zero option"
  assumes "0 < t" and "\<And>i. i < n \<Longrightarrow> g i = Some (f i)"
  shows "parallel_rows t (replicate n 0) (\<lambda>chunk start. imap start (\<lambda>i _. g i) chunk) = Some (map f [0..<n])"
proof -
  have "parallelize t (map Some (replicate n 0)) (\<lambda>chunk start. imap start (\<lambda>i _. g i) chunk) =
      Some (imap 0 (\<lambda>i _. g i) (map Some (replicate n (0 :: 'f))))"
    by (rule parallelize_pointwise [OF assms(1)]) (rule refl)
  moreover have "imap 0 (\<lambda>i _. g i) (map Some (replicate n (0 :: 'f))) = map Some (map f [0..<n])"
    by (intro nth_equalityI) (simp_all add: nth_imap assms(2))
  ultimately show ?thesis by (simp add: parallel_rows_def comp_def those_map_SomeI)
qed

lemma foldM_columns:
  "(\<And>col. col \<in> set cols \<Longrightarrow> row < length col) \<Longrightarrow>
   foldM (\<lambda>col val. do { x \<leftarrow> index_opt col row; Some (val + x) }) cols (v :: 'f::field) = Some (v + (\<Sum>col\<leftarrow>cols. col ! row))"
  by (induction cols arbitrary: v) (simp_all add: index_opt_def add.assoc)

lemma helper_column_eq:
  fixes e :: "'f::field prover_env"
  assumes "penv_ok e" and "\<And>c. c \<in> set cols \<Longrightarrow> length c = dom_n (penv_domain e)"
  shows "helper_column e cols = Some (map (\<lambda>i. \<Sum>c\<leftarrow>cols. inverse (penv_beta e + c ! i)) [0..<dom_n (penv_domain e)])"
proof -
  let ?n = "dom_n (penv_domain e)"
  let ?cols = "map (\<lambda>col. penv_invert e (map (\<lambda>v. penv_beta e + v) col)) cols"
  have t: "0 < penv_threads e" and inv: "\<And>xs. penv_invert e xs = map inverse xs" using assms(1) by (auto simp: penv_ok_def)
  have "parallelize (penv_threads e) (map Some (replicate ?n 0)) (\<lambda>chunk start.
      imap start (\<lambda>row val. do { val \<leftarrow> val; foldM (\<lambda>col val. do { x \<leftarrow> index_opt col row; Some (val + x) }) ?cols val }) chunk) =
      Some (imap 0 (\<lambda>row val. do { val \<leftarrow> val; foldM (\<lambda>col val. do { x \<leftarrow> index_opt col row; Some (val + x) }) ?cols val })
        (map Some (replicate ?n 0)))"
    by (rule parallelize_pointwise [OF t]) (rule refl)
  moreover have "imap 0 (\<lambda>row val. do { val \<leftarrow> val; foldM (\<lambda>col val. do { x \<leftarrow> index_opt col row; Some (val + x) }) ?cols val })
      (map Some (replicate ?n 0)) = map Some (map (\<lambda>i. \<Sum>c\<leftarrow>cols. inverse (penv_beta e + c ! i)) [0..<?n])"
  proof (rule nth_equalityI)
    fix i assume "i < length (imap 0 (\<lambda>row val. do { val \<leftarrow> val; foldM (\<lambda>col val. do { x \<leftarrow> index_opt col row; Some (val + x) }) ?cols val })
      (map Some (replicate ?n 0)))"
    then have i: "i < ?n" by simp
    have "foldM (\<lambda>col val. do { x \<leftarrow> index_opt col i; Some (val + x) }) ?cols 0 = Some (0 + (\<Sum>col\<leftarrow>?cols. col ! i))"
      by (rule foldM_columns) (use assms(2) i in \<open>auto simp: inv\<close>)
    moreover have "(\<Sum>col\<leftarrow>?cols. col ! i) = (\<Sum>c\<leftarrow>cols. inverse (penv_beta e + c ! i))"
      using assms(2) i by (auto simp: inv comp_def intro!: arg_cong [where f = sum_list] map_cong)
    ultimately show "imap 0 (\<lambda>row val. do { val \<leftarrow> val; foldM (\<lambda>col val. do { x \<leftarrow> index_opt col row; Some (val + x) }) ?cols val })
      (map Some (replicate ?n 0)) ! i = map Some (map (\<lambda>i. \<Sum>c\<leftarrow>cols. inverse (penv_beta e + c ! i)) [0..<?n]) ! i"
      using i by (simp add: nth_imap)
  qed simp
  ultimately show ?thesis by (simp add: helper_column_def parallel_rows_def comp_def those_map_SomeI)
qed

lemma nth_scan_sum: "i < length xs \<Longrightarrow> scan_sum s xs ! i = s + (\<Sum>k<Suc i. xs ! k)"
proof (induction xs arbitrary: s i)
  case (Cons x xs)
  then show ?case by (cases i) (simp_all add: sum.lessThan_Suc_shift add.assoc del: sum.lessThan_Suc)
qed simp

lemma length_scan_sum [simp]: "length (scan_sum s xs) = length xs"
  by (induction xs arbitrary: s) simp_all

lemma nth_aggregator: "i \<le> length ld \<Longrightarrow> scan_sum 0 (0 # ld) ! i = (\<Sum>k<i. ld ! k)"
  by (subst nth_scan_sum) (simp_all add: sum.lessThan_Suc_shift del: sum.lessThan_Suc)

section \<open>Honest lookups\<close>

definition lookup_inputs :: "'f chunked_argument \<Rightarrow> 'f expression list list" where
  "lookup_inputs ca = concat (ca_input_expression_chunks ca)"

definition ca_exprs :: "'f chunked_argument \<Rightarrow> 'f expression set" where
  "ca_exprs ca = insert (ca_selector ca) (set (concat (lookup_inputs ca)) \<union> set (ca_table_expressions ca))"

text \<open>
  On the usable rows the selector is zero or one and every selected input is in the table; no
  compressed value is \<open>- beta\<close>; the counters fit in 32 bits and are nonzero in the field.
\<close>

definition honest_lookup ::
    "'f::field prover_env \<Rightarrow> 'f eval_args \<Rightarrow> 'f \<Rightarrow> 'f chunked_argument \<Rightarrow> ('f expression \<Rightarrow> nat \<Rightarrow> 'f) \<Rightarrow> bool" where
  "honest_lookup e args theta ca val \<longleftrightarrow>
     (let n = dom_n (penv_domain e); u = last_row e; f = compressed val theta; t = f (ca_table_expressions ca) in
      row_values e args val (ca_exprs ca) \<and>
      (\<forall>i<u. val (ca_selector ca) i \<in> {0, 1}) \<and>
      (\<forall>i<u. val (ca_selector ca) i \<noteq> 0 \<longrightarrow> (\<forall>es\<in>set (lookup_inputs ca). f es i \<in> t ` {..<u})) \<and>
      (\<forall>i<n. \<forall>es\<in>set (lookup_inputs ca). f es i + penv_beta e \<noteq> 0) \<and> (\<forall>i<u. t i + penv_beta e \<noteq> 0) \<and>
      u * (length (lookup_inputs ca) + 1) < 2 ^ 32 \<and> (\<forall>k\<le>u. 0 < k \<longrightarrow> of_nat k \<noteq> (0 :: 'f)))"

text \<open>The values looked up on the usable rows, and the table there.\<close>

definition looked_up ::
    "'f::field prover_env \<Rightarrow> 'f \<Rightarrow> 'f chunked_argument \<Rightarrow> ('f expression \<Rightarrow> nat \<Rightarrow> 'f) \<Rightarrow> 'f list" where
  "looked_up e theta ca val = concat (map (\<lambda>es. map (compressed val theta es)
     (filter (\<lambda>i. val (ca_selector ca) i \<noteq> 0) [0..<last_row e])) (lookup_inputs ca))"

abbreviation table_rows ::
    "'f::field prover_env \<Rightarrow> 'f \<Rightarrow> 'f chunked_argument \<Rightarrow> ('f expression \<Rightarrow> nat \<Rightarrow> 'f) \<Rightarrow> 'f list" where
  "table_rows e theta ca val \<equiv> map (compressed val theta (ca_table_expressions ca)) [0..<last_row e]"

definition multiplicity ::
    "'f::field prover_env \<Rightarrow> 'f \<Rightarrow> 'f chunked_argument \<Rightarrow> ('f expression \<Rightarrow> nat \<Rightarrow> 'f) \<Rightarrow> nat \<Rightarrow> 'f" where
  "multiplicity e theta ca val i = (let t = compressed val theta (ca_table_expressions ca) i
     in of_nat (count_list (looked_up e theta ca val) t) * inverse (of_nat (count_list (table_rows e theta ca val) t)))"

lemma selected_rows:
  "u \<le> n \<Longrightarrow> selected (take u (zip (map f [0..<n]) (map s [0..<n]))) = map f (filter (\<lambda>i. s i \<noteq> 0) [0..<u])"
proof -
  assume "u \<le> n"
  then have "take u (zip (map f [0..<n]) (map s [0..<n])) = map (\<lambda>i. (f i, s i)) [0..<u]"
    by (intro nth_equalityI) simp_all
  then show ?thesis by (simp add: filter_map comp_def)
qed

lemma selected_concat: "selected (concat xss) = concat (map (\<lambda>xs. selected xs) xss)"
  by (simp add: filter_concat map_concat comp_def)

lemma looked_up_length: "length (looked_up e theta ca val) \<le> last_row e * length (lookup_inputs ca)"
proof -
  have "length (looked_up e theta ca val) = sum_list (map (\<lambda>es. length (filter (\<lambda>i. val (ca_selector ca) i \<noteq> 0) [0..<last_row e])) (lookup_inputs ca))"
    by (simp add: looked_up_def length_concat comp_def)
  also have "\<dots> \<le> sum_list (map (\<lambda>es. last_row e) (lookup_inputs ca))"
    by (rule sum_list_mono) (metis diff_zero length_filter_le length_upt)
  finally show ?thesis by (simp add: sum_list_triv mult.commute)
qed

lemma looked_up_in_table:
  assumes "honest_lookup e args theta ca val"
  shows "set (looked_up e theta ca val) \<subseteq> set (table_rows e theta ca val)"
  using assms by (fastforce simp: honest_lookup_def Let_def looked_up_def)

lemma commit_multiplicities_eq:
  assumes e: "penv_ok e" and h: "honest_lookup e args theta ca val"
  defines "n \<equiv> dom_n (penv_domain e)"
  shows "\<exists>m. commit_multiplicities e args theta ca rand = Some \<lparr>cm_selector = map (val (ca_selector ca)) [0..<n], cm_multiplicities = m,
      cm_inputs = map (map (\<lambda>es. map (compressed val theta es) [0..<n])) (ca_input_expression_chunks ca),
      cm_table = map (compressed val theta (ca_table_expressions ca)) [0..<n]\<rparr> \<and>
    length m = n \<and> (\<forall>i<last_row e. m ! i = multiplicity e theta ca val i)"
proof -
  let ?u = "last_row e" and ?sel = "map (val (ca_selector ca)) [0..<n]"
  let ?inputs = "map (map (\<lambda>es. map (compressed val theta es) [0..<n])) (ca_input_expression_chunks ca)"
  let ?table = "map (compressed val theta (ca_table_expressions ca)) [0..<n]"
  have t: "0 < penv_threads e" and inv: "\<And>xs. penv_invert e xs = map inverse xs" and b: "penv_blinding e < n" "?u < n"
    using e by (auto simp: penv_ok_def n_def last_row_def)
  have rows: "row_values e args val (ca_exprs ca)" and len: "?u * (length (lookup_inputs ca) + 1) < 2 ^ 32"
    using h by (simp_all add: honest_lookup_def Let_def)
  have sub: "compress_columns e args theta es = Some (map (compressed val theta es) [0..<n])" if "set es \<subseteq> ca_exprs ca" for es
    unfolding n_def using rows that by (intro compress_columns_eq [OF t]) (auto simp: row_values_def)
  have "those (map (\<lambda>chunk. those (map (compress_columns e args theta) chunk)) (ca_input_expression_chunks ca)) = Some ?inputs"
    by (intro those_map_cong sub) (auto simp: ca_exprs_def lookup_inputs_def)
  moreover have "compress_columns e args theta (ca_table_expressions ca) = Some ?table" by (rule sub) (auto simp: ca_exprs_def)
  moreover have "eval_expressions e args [ca_selector ca] = Some [?sel]"
    using eval_expressions_eq [of e args val "[ca_selector ca]"] rows by (simp add: row_values_def ca_exprs_def n_def)
  moreover have S: "selected (concat (map (\<lambda>value. take ?u (zip value ?sel)) (concat ?inputs))) = looked_up e theta ca val"
    unfolding selected_concat looked_up_def lookup_inputs_def map_concat [symmetric]
    by (simp add: comp_def selected_rows [OF less_imp_le [OF b(2)]])
  moreover have T: "take ?u ?table = table_rows e theta ca val" using b(2) by (simp add: take_map take_upt)
  moreover have "\<exists>m. compute_multiplicities (penv_invert e) ?sel (concat ?inputs) ?table ?u rand = Some m \<and> length m = n \<and>
      (\<forall>i<?u. m ! i = multiplicity e theta ca val i)"
  proof -
    have "length (looked_up e theta ca val) < 2 ^ 32" "length (table_rows e theta ca val) < 2 ^ 32"
      using looked_up_length [of e theta ca val] len by auto
    then show ?thesis
      using compute_multiplicities_eq [where batch_invert = "penv_invert e" and u = ?u and selector = ?sel and cols = "concat ?inputs"
          and table = ?table and rand = rand, OF inv, unfolded S T, OF looked_up_in_table [OF h]] b(2)
      by (auto simp: multiplicity_def Let_def)
  qed
  moreover have "n - penv_blinding e - 1 = ?u" by (simp add: last_row_def n_def)
  ultimately show ?thesis
    unfolding commit_multiplicities_def n_def [symmetric] using b by (auto simp: lagrange_from_vec_def n_def)
qed

section \<open>The sum is zero\<close>

definition row_helper ::
    "'f::field prover_env \<Rightarrow> ('f expression \<Rightarrow> nat \<Rightarrow> 'f) \<Rightarrow> 'f \<Rightarrow> 'f expression list list \<Rightarrow> nat \<Rightarrow> 'f" where
  "row_helper e val theta chunk i = (\<Sum>es\<leftarrow>chunk. inverse (penv_beta e + compressed val theta es i))"

definition row_logderivative ::
    "'f::field prover_env \<Rightarrow> 'f \<Rightarrow> 'f chunked_argument \<Rightarrow> ('f expression \<Rightarrow> nat \<Rightarrow> 'f) \<Rightarrow> (nat \<Rightarrow> 'f) \<Rightarrow> nat \<Rightarrow> 'f" where
  "row_logderivative e theta ca val m i =
     val (ca_selector ca) i * (\<Sum>chunk\<leftarrow>ca_input_expression_chunks ca. row_helper e val theta chunk i)
     - m i * inverse (penv_beta e + compressed val theta (ca_table_expressions ca) i)"

lemma sum_list_concat: "sum_list (concat xss) = sum_list (map sum_list xss)" for xss :: "'f::field list list"
  by (induction xss) simp_all

lemma sum_list_sum_swap: "(\<Sum>x\<leftarrow>xs. \<Sum>i<n. f x i) = (\<Sum>i<n. \<Sum>x\<leftarrow>xs. f x i)" for f :: "'a \<Rightarrow> nat \<Rightarrow> 'f::field"
  by (induction xs) (simp_all add: sum.distrib)

lemma sum_list_looked_up:
  assumes "honest_lookup e args theta ca val"
  shows "sum_list (map g (looked_up e theta ca val)) =
    (\<Sum>i<last_row e. val (ca_selector ca) i * (\<Sum>es\<leftarrow>lookup_inputs ca. g (compressed val theta es i)))"
proof -
  let ?s = "val (ca_selector ca)"
  have sel: "?s i = 0 \<or> ?s i = 1" if "i < last_row e" for i
    using assms that by (auto simp: honest_lookup_def Let_def)
  have row: "sum_list (map g (map (compressed val theta es) (filter (\<lambda>i. ?s i \<noteq> 0) [0..<last_row e]))) =
      (\<Sum>i<last_row e. ?s i * g (compressed val theta es i))" for es
  proof -
    have "sum_list (map g (map (compressed val theta es) (filter (\<lambda>i. ?s i \<noteq> 0) [0..<last_row e]))) =
        (\<Sum>i\<leftarrow>[0..<last_row e]. if ?s i \<noteq> 0 then g (compressed val theta es i) else 0)"
      by (simp add: sum_list_map_filter' comp_def)
    also have "\<dots> = (\<Sum>i<last_row e. if ?s i \<noteq> 0 then g (compressed val theta es i) else 0)"
      by (simp add: interv_sum_list_conv_sum_set_nat atLeast0LessThan)
    also have "\<dots> = (\<Sum>i<last_row e. ?s i * g (compressed val theta es i))"
      by (intro sum.cong refl) (use sel in force)
    finally show ?thesis .
  qed
  have "sum_list (map g (looked_up e theta ca val)) = (\<Sum>es\<leftarrow>lookup_inputs ca. \<Sum>i<last_row e. ?s i * g (compressed val theta es i))"
    unfolding looked_up_def map_concat sum_list_concat map_map [of sum_list] map_map [of "map g"] comp_def row ..
  also have "\<dots> = (\<Sum>i<last_row e. \<Sum>es\<leftarrow>lookup_inputs ca. ?s i * g (compressed val theta es i))"
    by (rule sum_list_sum_swap)
  finally show ?thesis by (simp add: sum_list_const_mult)
qed

lemma logderivative_sum_zero:
  assumes "honest_lookup e args theta ca val" and "\<And>i. i < last_row e \<Longrightarrow> m i = multiplicity e theta ca val i"
  shows "(\<Sum>i<last_row e. row_logderivative e theta ca val m i) = 0"
proof -
  let ?g = "\<lambda>v. inverse (penv_beta e + v)" and ?t = "compressed val theta (ca_table_expressions ca)"
  let ?S = "looked_up e theta ca val" and ?T = "table_rows e theta ca val"
  have nz: "of_nat (count_list ?T v) \<noteq> (0 :: 'a)" if "v \<in> set ?T" for v
  proof -
    have "0 < count_list ?T v" "count_list ?T v \<le> last_row e"
      using that count_le_length [of ?T v] by (auto simp: count_list_0_iff neq0_conv [symmetric])
    then show ?thesis using assms(1) by (simp add: honest_lookup_def Let_def)
  qed
  have "(\<Sum>i<last_row e. m i * ?g (?t i)) = (\<Sum>v\<leftarrow>?T. of_nat (count_list ?S v) * inverse (of_nat (count_list ?T v)) * ?g v)"
    using assms(2) by (simp add: multiplicity_def Let_def comp_def interv_sum_list_conv_sum_set_nat atLeast0LessThan)
  also have "\<dots> = sum_list (map ?g ?S)" by (rule multiplicities_balance [OF looked_up_in_table [OF assms(1)] nz])
  also have "\<dots> = (\<Sum>i<last_row e. val (ca_selector ca) i * (\<Sum>chunk\<leftarrow>ca_input_expression_chunks ca. row_helper e val theta chunk i))"
    unfolding sum_list_looked_up [OF assms(1)]
    by (simp add: lookup_inputs_def map_concat sum_list_concat row_helper_def comp_def)
  finally show ?thesis by (simp add: row_logderivative_def sum_subtractf)
qed

section \<open>The committed polynomials\<close>

lemma those_lagrange_to_coeff:
  assumes "domain_ok d" and "0 < t" and "\<And>a. a \<in> set as \<Longrightarrow> length a = dom_n d"
  shows "\<exists>cs. those (map (lagrange_to_coeff d t) as) = Some cs \<and>
    list_all2 (\<lambda>c a. \<forall>i<dom_n d. poly_eval c (dom_omega d ^ i) = a ! i) cs as"
  using assms(3)
proof (induction as)
  case (Cons a as)
  obtain c where "lagrange_to_coeff d t a = Some c" "\<forall>i<dom_n d. poly_eval c (dom_omega d ^ i) = a ! i"
    using lagrange_to_coeff_eq [OF assms(1,2), of a] Cons.prems by auto
  then show ?case using Cons by auto
qed simp

lemma commit_logderivative_eq:
  fixes e :: "'f::field prover_env"
  assumes e: "penv_ok e" and h: "honest_lookup e args theta ca val"
  defines "n \<equiv> dom_n (penv_domain e)" and "w \<equiv> dom_omega (penv_domain e)"
  assumes m: "length m = n" "\<And>i. i < last_row e \<Longrightarrow> m ! i = multiplicity e theta ca val i"
    and cm: "cm = \<lparr>cm_selector = map (val (ca_selector ca)) [0..<n], cm_multiplicities = m,
      cm_inputs = map (map (\<lambda>es. map (compressed val theta es) [0..<n])) (ca_input_expression_chunks ca),
      cm_table = map (compressed val theta (ca_table_expressions ca)) [0..<n]\<rparr>"
  shows "\<exists>lc. commit_logderivative e cm rand = Some lc \<and>
    (\<forall>i<n. poly_eval (lc_multiplicities lc) (w ^ i) = m ! i) \<and>
    list_all2 (\<lambda>p chunk. \<forall>i<n. poly_eval p (w ^ i) = row_helper e val theta chunk i) (lc_helper_polys lc) (ca_input_expression_chunks ca) \<and>
    (\<forall>i\<le>last_row e. poly_eval (lc_aggregator_poly lc) (w ^ i) = (\<Sum>k<i. row_logderivative e theta ca val ((!) m) k))"
proof -
  let ?d = "penv_domain e" and ?t = "penv_threads e" and ?u = "last_row e" and ?b = "penv_blinding e"
  let ?td = "map (\<lambda>i. penv_beta e + compressed val theta (ca_table_expressions ca) i) [0..<n]"
  let ?hs = "map (\<lambda>chunk. map (row_helper e val theta chunk) [0..<n]) (ca_input_expression_chunks ca)"
  let ?ld = "map (row_logderivative e theta ca val ((!) m)) [0..<n]"
  let ?z = "take (n - ?b) (scan_sum 0 (0 # ?ld)) @ map rand [0..<?b]"
  have t: "0 < ?t" "domain_ok ?d" and inv: "\<And>xs. penv_invert e xs = map inverse xs" and b: "?b < n" "?u = n - (?b + 1)"
    using e by (auto simp: penv_ok_def n_def last_row_def)
  have td: "parallel_rows ?t (replicate n 0) (\<lambda>chunk start.
      imap start (\<lambda>i _. map_option (\<lambda>v. penv_beta e + v) (index_opt (cm_table cm) i)) chunk) = Some ?td"
    by (rule parallel_table [OF t(1)]) (simp add: cm index_opt_def)
  have hs: "those (map (helper_column e) (cm_inputs cm)) = Some ?hs"
  proof -
    have "helper_column e (map (\<lambda>es. map (compressed val theta es) [0..<n]) chunk) = Some (map (row_helper e val theta chunk) [0..<n])" for chunk
      by (subst helper_column_eq [OF e]) (auto simp: n_def row_helper_def comp_def)
    then show ?thesis by (simp add: cm comp_def those_map_SomeI)
  qed
  have ld: "logderivative e cm (map inverse ?td) ?hs = Some ?ld"
    unfolding logderivative_def n_def [symmetric]
  proof (rule parallel_table [OF t(1)])
    fix i assume i: "i < n"
    have "those (map (\<lambda>h. index_opt h i) ?hs) = Some (map (\<lambda>chunk. row_helper e val theta chunk i) (ca_input_expression_chunks ca))"
      unfolding map_map by (rule those_map_cong) (use i in \<open>simp add: index_opt_def\<close>)
    then show "do { hs \<leftarrow> those (map (\<lambda>h. index_opt h i) ?hs); s \<leftarrow> index_opt (cm_selector cm) i; m \<leftarrow> index_opt (cm_multiplicities cm) i;
        t \<leftarrow> index_opt (map inverse ?td) i; Some (s * sum_list hs - m * t) } = Some (row_logderivative e theta ca val ((!) m) i)"
      using i m(1) by (simp add: cm index_opt_def row_logderivative_def)
  qed
  have z: "length ?z = n" "\<And>i. i \<le> ?u \<Longrightarrow> ?z ! i = (\<Sum>k<i. row_logderivative e theta ca val ((!) m) k)"
  proof -
    show "length ?z = n" using b by simp
    fix i assume i: "i \<le> ?u"
    then have "i < n - ?b" using b by linarith
    then show "?z ! i = (\<Sum>k<i. row_logderivative e theta ca val ((!) m) k)"
      using b nth_aggregator [of i ?ld] by (simp add: nth_append)
  qed
  have "?z ! 0 = 0" "?z ! (n - (?b + 1)) = 0"
    using z(2) [of 0] z(2) [of ?u] logderivative_sum_zero [OF h m(2)] b(2) by simp_all
  moreover obtain pm where "lagrange_to_coeff ?d ?t m = Some pm" "\<And>i. i < n \<Longrightarrow> poly_eval pm (w ^ i) = m ! i"
    using lagrange_to_coeff_eq [OF t(2,1), of m] m(1) by (auto simp: n_def w_def)
  moreover obtain pz where "lagrange_to_coeff ?d ?t ?z = Some pz" "\<And>i. i < n \<Longrightarrow> poly_eval pz (w ^ i) = ?z ! i"
    using lagrange_to_coeff_eq [OF t(2,1), of ?z] z(1) by (auto simp: n_def w_def)
  moreover obtain ph where "those (map (lagrange_to_coeff ?d ?t) ?hs) = Some ph" "list_all2 (\<lambda>c a. \<forall>i<n. poly_eval c (w ^ i) = a ! i) ph ?hs"
  proof -
    have "length a = dom_n ?d" if "a \<in> set ?hs" for a using that by (auto simp: n_def)
    from those_lagrange_to_coeff [OF t(2,1) this] show thesis using that unfolding n_def w_def by blast
  qed
  moreover have "those (map (lagrange_from_vec ?d) ?hs) = Some ?hs"
  proof -
    have "lagrange_from_vec ?d h = Some h" if "h \<in> set ?hs" for h using that by (auto simp: lagrange_from_vec_def n_def)
    from those_map_cong [of ?hs, OF this] show ?thesis by (simp only: list.map_ident)
  qed
  ultimately show ?thesis
    unfolding commit_logderivative_def Let_def n_def [symmetric] td hs using ld z b m(1)
    by (simp add: inv cm lagrange_from_vec_def n_def [symmetric] list_all2_map2)
qed

section \<open>The identities vanish\<close>

lemma compress_expressions_eq:
  "(\<And>x. x \<in> set es \<Longrightarrow> verifier_value ev x = Some (val x i)) \<Longrightarrow>
   compress_expressions ev theta es = Some (compressed val theta es i)"
  using those_map_cong [of es "verifier_value ev" "\<lambda>x. val x i"] by (simp add: compress_expressions_def compressed_def)

lemma helper_constraint_zero:
  assumes "\<And>es x. es \<in> set chunk \<Longrightarrow> x \<in> set es \<Longrightarrow> verifier_value ev x = Some (val x i)"
    and "\<And>es. es \<in> set chunk \<Longrightarrow> compressed val theta es i + penv_beta e \<noteq> 0"
  shows "helper_constraint ev theta (penv_beta e) chunk (row_helper e val theta chunk i) = Some 0"
proof -
  let ?f = "\<lambda>es. compressed val theta es i + penv_beta e"
  have fs: "those (map (\<lambda>input. map_option (\<lambda>c. c + penv_beta e) (compress_expressions ev theta input)) chunk) = Some (map ?f chunk)"
    by (rule those_map_cong) (use assms(1) in \<open>simp add: compress_expressions_eq\<close>)
  let ?p = "prod_list (map ?f chunk)"
  have ps: "those (map (\<lambda>f. map_option (\<lambda>i. ?p * i) (field_invert f)) (map ?f chunk)) = Some (map (\<lambda>es. ?p * inverse (?f es)) chunk)"
    unfolding map_map by (rule those_map_cong) (use assms(2) in \<open>simp add: field_invert_def\<close>)
  have "row_helper e val theta chunk i * ?p = (\<Sum>es\<leftarrow>chunk. ?p * inverse (?f es))"
    unfolding row_helper_def sum_list_const_mult by (simp only: mult.commute add.commute)
  then show ?thesis unfolding helper_constraint_def fs by (simp only: bind.bind_lunit Let_def ps) simp
qed

lemma lookup_row_vanishes:
  assumes e: "penv_ok e" and h: "honest_lookup e args theta ca val" and i: "i < dom_n (penv_domain e)"
    and ev: "\<And>x. x \<in> ca_exprs ca \<Longrightarrow> verifier_value ev x = Some (val x i)"
    and m: "i < last_row e \<Longrightarrow> mi = m i"
    and acc: "i < last_row e \<Longrightarrow> z' = z + row_logderivative e theta ca val m i" "i = 0 \<or> i = last_row e \<Longrightarrow> z = 0"
  shows "\<exists>es. lookup_expressions ev (row_lagrange (last_row e) i) ca theta (penv_beta e)
      \<lparr>multiplicities_eval = mi, helper_evals = map (\<lambda>chunk. row_helper e val theta chunk i) (ca_input_expression_chunks ca),
        accumulator_eval = z, accumulator_next_eval = z'\<rparr> = Some es \<and> list_all (\<lambda>e. e = 0) es"
proof -
  let ?cks = "ca_input_expression_chunks ca" and ?h = "\<lambda>chunk. row_helper e val theta chunk i"
  let ?t = "compressed val theta (ca_table_expressions ca) i" and ?s = "val (ca_selector ca) i"
  have pairs: "zip ?cks (map ?h ?cks) = map (\<lambda>chunk. (chunk, ?h chunk)) ?cks" by (simp add: zip_map2 zip_same_conv_map)
  have "helper_constraint ev theta (penv_beta e) chunk (?h chunk) = Some 0" if "chunk \<in> set ?cks" for chunk
    by (rule helper_constraint_zero)
      (use that ev h i in \<open>auto simp: ca_exprs_def lookup_inputs_def honest_lookup_def Let_def\<close>)
  then have hc: "those (map (\<lambda>(chunk, hv). helper_constraint ev theta (penv_beta e) chunk hv) (zip ?cks (map ?h ?cks))) = Some (map (\<lambda>_. 0) ?cks)"
    unfolding pairs map_map by (intro those_map_cong) simp
  have table: "compress_expressions ev theta (ca_table_expressions ca) = Some ?t"
    by (rule compress_expressions_eq) (use ev in \<open>simp add: ca_exprs_def\<close>)
  have sel: "verifier_value ev (ca_selector ca) = Some ?s" by (rule ev) (simp add: ca_exprs_def)
  have sum: "foldl (+) 0 (map snd (zip ?cks (map ?h ?cks))) = (\<Sum>chunk\<leftarrow>?cks. ?h chunk)"
    unfolding pairs map_map comp_def snd_conv by (simp add: fold_plus_sum_list_rev foldl_conv_fold comp_def add.commute)
  have diff: "((z' - z - ?s * (\<Sum>chunk\<leftarrow>?cks. ?h chunk)) * (?t + penv_beta e) + mi)
      * (1 - (l_last (row_lagrange (last_row e) i) + l_blind (row_lagrange (last_row e) i))) = 0"
  proof (cases "i < last_row e")
    case True
    then have "?t + penv_beta e \<noteq> 0" using h by (simp add: honest_lookup_def Let_def)
    moreover have "z' - z - ?s * (\<Sum>chunk\<leftarrow>?cks. ?h chunk) = - (mi * inverse (?t + penv_beta e))"
      using acc(1) [OF True] m [OF True] by (simp add: row_logderivative_def add.commute)
    ultimately show ?thesis by simp
  qed (simp add: row_lagrange_active)
  have boundary: "(l_0 (row_lagrange (last_row e) i) + l_last (row_lagrange (last_row e) i)) * z = 0"
    using acc(2) by (auto simp: row_lagrange_def)
  show ?thesis
    unfolding lookup_expressions_def table sel
    using hc sum diff boundary by (simp add: Let_def list_all_iff)
qed

lemma count_table_dom: "count_table vs m = Some m' \<Longrightarrow> dom m' \<subseteq> dom m \<union> set vs"
  by (induction vs m rule: count_table.induct) (auto simp: Let_def dom_def split: if_splits)

section \<open>Properties\<close>

text \<open>
  C3: completeness of the lookup argument. If on the usable rows the selector is boolean and every
  selected input is in the table, then counting succeeds, the assertions of \<open>commit_logderivative\<close>
  hold (the running sum is zero at the first and at the last usable row), and on every row of the
  domain the openings make all lookup identities of the verifier zero, whatever the blinding values,
  the number of threads and the repetitions in the table.
\<close>

theorem lookup_argument_complete:
  assumes "penv_ok e" and "honest_lookup e args theta ca val"
    and "\<And>i x. i < dom_n (penv_domain e) \<Longrightarrow> x \<in> ca_exprs ca \<Longrightarrow> verifier_value (ev i) x = Some (val x i)"
  shows "\<exists>cm lc. commit_multiplicities e args theta ca rand = Some cm \<and> commit_logderivative e cm rand' = Some lc \<and>
    (\<forall>i<dom_n (penv_domain e). \<exists>le es. lookup_evaluate e (dom_omega (penv_domain e) ^ i) lc = Some le \<and>
      lookup_expressions (ev i) (row_lagrange (last_row e) i) ca theta (penv_beta e) le = Some es \<and> list_all (\<lambda>e. e = 0) es)"
proof -
  let ?n = "dom_n (penv_domain e)" and ?w = "dom_omega (penv_domain e)" and ?u = "last_row e"
  obtain cm m where cm: "commit_multiplicities e args theta ca rand = Some cm" "length m = ?n"
    "\<And>i. i < ?u \<Longrightarrow> m ! i = multiplicity e theta ca val i"
    "cm = \<lparr>cm_selector = map (val (ca_selector ca)) [0..<?n], cm_multiplicities = m,
      cm_inputs = map (map (\<lambda>es. map (compressed val theta es) [0..<?n])) (ca_input_expression_chunks ca),
      cm_table = map (compressed val theta (ca_table_expressions ca)) [0..<?n]\<rparr>"
    using commit_multiplicities_eq [OF assms(1,2)] by blast
  obtain lc where lc: "commit_logderivative e cm rand' = Some lc"
    "\<And>i. i < ?n \<Longrightarrow> poly_eval (lc_multiplicities lc) (?w ^ i) = m ! i"
    "list_all2 (\<lambda>p chunk. \<forall>i<?n. poly_eval p (?w ^ i) = row_helper e val theta chunk i) (lc_helper_polys lc) (ca_input_expression_chunks ca)"
    "\<And>i. i \<le> ?u \<Longrightarrow> poly_eval (lc_aggregator_poly lc) (?w ^ i) = (\<Sum>k<i. row_logderivative e theta ca val ((!) m) k)"
    using commit_logderivative_eq [OF assms(1,2) cm(2-4)] by blast
  have "\<exists>le es. lookup_evaluate e (?w ^ i) lc = Some le \<and>
      lookup_expressions (ev i) (row_lagrange ?u i) ca theta (penv_beta e) le = Some es \<and> list_all (\<lambda>e. e = 0) es" if i: "i < ?n" for i
  proof -
    let ?z = "\<lambda>x. poly_eval (lc_aggregator_poly lc) x"
    have t: "0 < penv_threads e" using assms(1) by (simp add: penv_ok_def)
    have "map (\<lambda>h. poly_eval h (?w ^ i)) (lc_helper_polys lc) = map (\<lambda>chunk. row_helper e val theta chunk i) (ca_input_expression_chunks ca)"
      using lc(3) i by (auto simp: list_all2_conv_all_nth intro!: nth_equalityI)
    then have le: "lookup_evaluate e (?w ^ i) lc = Some \<lparr>multiplicities_eval = m ! i,
        helper_evals = map (\<lambda>chunk. row_helper e val theta chunk i) (ca_input_expression_chunks ca),
        accumulator_eval = ?z (?w ^ i), accumulator_next_eval = ?z (?w ^ Suc i)\<rparr>"
      using lc(2) [OF i] by (simp add: lookup_evaluate_def eval_polynomial_poly_eval [OF t] those_map_SomeI rotate_omega_def mult.commute)
    have "?z (?w ^ Suc i) = ?z (?w ^ i) + row_logderivative e theta ca val ((!) m) i" if "i < ?u"
      using lc(4) [of i] lc(4) [of "Suc i"] that by (simp del: power_Suc)
    moreover have "?z (?w ^ i) = 0" if "i = 0 \<or> i = ?u"
      using that lc(4) [of i] logderivative_sum_zero [OF assms(2) cm(3)] by auto
    ultimately show ?thesis
      using lookup_row_vanishes [OF assms(1,2) i assms(3) [OF i], of "m ! i" "(!) m"] le by auto
  qed
  then show ?thesis using cm(1) lc(1) by blast
qed

text \<open>
  C31: \<open>compute_multiplicities\<close> panics when a selected input of a usable row is missing from the usable
  part of the table, and otherwise (when the counters do not overflow) returns for every usable row
  the number of look-ups of its table value divided by the number of its occurrences.
\<close>

theorem compute_multiplicities_correct:
  fixes batch_invert :: "'f::field list \<Rightarrow> 'f list" and columns :: "'f list list" and selector table :: "'f list" and u :: nat
  assumes "\<And>xs. batch_invert xs = map (\<lambda>x. if x = 0 then x else inverse x) xs"
  defines "S \<equiv> selected (concat (map (\<lambda>value. take u (zip value selector)) columns))"
  shows "(set S \<subseteq> set (take u table) \<or> compute_multiplicities batch_invert selector columns table u rand = None)
    \<and> (set S \<subseteq> set (take u table) \<and> length S < 2 ^ 32 \<and> length (take u table) < 2 ^ 32 \<longrightarrow>
       (\<exists>ms. compute_multiplicities batch_invert selector columns table u rand = Some ms \<and> length ms = length table \<and>
        (\<forall>i<length table. i < u \<longrightarrow> ms ! i = of_nat (count_list S (table ! i))
          * inverse (of_nat (count_list (take u table) (table ! i))))))"
proof -
  have inv: "batch_invert xs = map inverse xs" for xs by (rule batch_invert_inverse [OF assms(1)])
  have "compute_multiplicities batch_invert selector columns table u rand = None" if "\<not> set S \<subseteq> set (take u table)"
  proof (cases "count_table (take u table) Map.empty")
    case (Some tc)
    have "dom tc \<subseteq> set (take u table)" using count_table_dom [OF Some] by simp
    then have "\<not> set S \<subseteq> dom (\<lambda>v. map_option (\<lambda>_. 0 :: nat) (tc v))" using that by (auto simp: dom_def)
    then have "count_inputs (concat (map (\<lambda>value. take u (zip value selector)) columns)) (\<lambda>v. map_option (\<lambda>_. 0) (tc v)) = None"
      using count_inputs_None [of "concat (map (\<lambda>value. take u (zip value selector)) columns)" "\<lambda>v. map_option (\<lambda>_. 0) (tc v)"]
      unfolding S_def by simp
    then show ?thesis using Some by (simp add: compute_multiplicities_def)
  qed (simp add: compute_multiplicities_def)
  moreover note compute_multiplicities_eq [where batch_invert = batch_invert and u = u and selector = selector and cols = columns
      and table = table and rand = rand, OF inv, folded S_def]
  ultimately show ?thesis by (cases "set S \<subseteq> set (take u table)") simp_all
qed

theorem compute_multiplicities_correct_witness:
  "compute_multiplicities (map (\<lambda>x. if x = 0 then x else inverse x)) [1, 1, 0, 0] [[5, 7, 9, 9 :: gf97]] [5, 6, 7, 7] 2 (\<lambda>_. 0) = None
   \<and> (\<exists>ms. compute_multiplicities (map (\<lambda>x. if x = 0 then x else inverse x)) [1, 1, 0, 0] [[5, 5, 9, 9 :: gf97]] [5, 5, 7, 7] 2 (\<lambda>_. 0) = Some ms
      \<and> ms ! 0 = 1)"
proof -
  have ne: "(7 :: gf97) \<noteq> 5" "(7 :: gf97) \<noteq> 6" "(2 :: gf97) \<noteq> 0" by (simp_all add: gf_eq_iff)
  show ?thesis
    using compute_multiplicities_correct [where batch_invert = sample_invert and columns = "[[5, 7, 9, 9]]" and selector = "[1, 1, 0, 0]"
        and u = 2 and table = "[5, 6, 7, 7]" and rand = "\<lambda>_. 0", OF refl]
      compute_multiplicities_correct [where batch_invert = sample_invert and columns = "[[5, 5, 9, 9]]" and selector = "[1, 1, 0, 0]"
        and u = 2 and table = "[5, 5, 7, 7]" and rand = "\<lambda>_. 0", OF refl] ne
    by (auto simp: right_inverse dest: spec [of _ 0])
qed

text \<open>
  Completeness of the trash argument. On every row the trash identity of the verifier, opened with
  the prover's polynomial, is the selector times the compressed constraints: it is zero wherever the
  selector is zero, and wherever the constraints hold.
\<close>

theorem trash_argument_complete:
  assumes "penv_ok e" and "row_values e args val (set (ta_constraint_expressions a))"
    and "\<And>i x. i < dom_n (penv_domain e) \<Longrightarrow> x \<in> set (ta_constraint_expressions a) \<Longrightarrow> verifier_value (ev i) x = Some (val x i)"
    and "\<And>i. i < dom_n (penv_domain e) \<Longrightarrow> verifier_value (ev i) (ta_selector a) = Some (q i)"
  shows "\<exists>poly. trash_commit e args trash_challenge a = Some poly \<and>
    (\<forall>i<dom_n (penv_domain e). \<exists>te. trash_evaluate e (dom_omega (penv_domain e) ^ i) poly = Some te \<and>
      trash_expressions (ev i) a trash_challenge te =
        Some [q i * foldl (\<lambda>acc x. acc * trash_challenge + x) 0 (map (\<lambda>x. val x i) (ta_constraint_expressions a))])"
proof -
  let ?n = "dom_n (penv_domain e)" and ?f = "compressed val trash_challenge (ta_constraint_expressions a)"
  have t: "0 < penv_threads e" "domain_ok (penv_domain e)" using assms(1) by (auto simp: penv_ok_def)
  obtain poly where poly: "lagrange_to_coeff (penv_domain e) (penv_threads e) (map ?f [0..<?n]) = Some poly"
    "\<And>i. i < ?n \<Longrightarrow> poly_eval poly (dom_omega (penv_domain e) ^ i) = ?f i"
    using lagrange_to_coeff_eq [OF t(2,1), of "map ?f [0..<?n]"] by auto
  have commit: "trash_commit e args trash_challenge a = Some poly"
    using compress_columns_eq [OF t(1) assms(2)] poly(1) by (simp add: trash_commit_def)
  have row: "trash_expressions (ev i) a trash_challenge (?f i) = Some [q i * ?f i]" if "i < ?n" for i
  proof -
    have "compress_expressions (ev i) trash_challenge (ta_constraint_expressions a) = Some (?f i)"
      by (rule compress_expressions_eq) (rule assms(3) [OF that])
    then obtain vs where "those (map (verifier_value (ev i)) (ta_constraint_expressions a)) = Some vs"
      "foldl (\<lambda>acc x. acc * trash_challenge + x) 0 vs = ?f i"
      by (auto simp: compress_expressions_def bind_eq_Some_conv)
    then show ?thesis using assms(4) [OF that] by (simp add: trash_expressions_def Let_def algebra_simps)
  qed
  show ?thesis
    using commit row poly(2)
    by (auto simp: trash_evaluate_def eval_polynomial_poly_eval [OF t(1)] compressed_def [symmetric])
qed

section \<open>Sample inputs\<close>

text \<open>One advice column looked up in one fixed column, with a constant selector.\<close>

definition sample_x :: "gf97 expression" where
  "sample_x = Advice \<lparr>aq_index = Some 0, aq_column_index = 0, aq_rotation = 0, aq_phase = 0\<rparr>"

definition sample_t :: "gf97 expression" where
  "sample_t = Fixed \<lparr>fq_index = Some 0, fq_column_index = 0, fq_rotation = 0\<rparr>"

definition sample_args :: "gf97 eval_args" where
  "sample_args = \<lparr>fixed_values = [[6, 5, 0, 0]], advice_values = sample_advice, instance_values = [], challenges = [],
     arg_beta = 2, arg_theta = 3, arg_trash_challenge = 4, arg_y = 5, previous_value = 0\<rparr>"

definition sample_ca :: "gf97 chunked_argument" where
  "sample_ca = \<lparr>ca_selector = Constant 1, ca_input_expression_chunks = [[[sample_x]]], ca_table_expressions = [sample_t]\<rparr>"

definition sample_val :: "gf97 expression \<Rightarrow> nat \<Rightarrow> gf97" where
  "sample_val x i = (if x = sample_x then [5, 6, 0, 0] ! i else if x = sample_t then [6, 5, 0, 0] ! i else 1)"

definition sample_evals :: "nat \<Rightarrow> gf97 query_evals" where
  "sample_evals i = \<lparr>fixed_evals = [[6, 5, 0, 0] ! i], advice_evals = [[5, 6, 0, 0] ! i], instance_evals = [], challenge_evals = []\<rparr>"

lemma sample_exprs_ne: "sample_x \<noteq> sample_t" "Constant 1 \<noteq> sample_x" "Constant 1 \<noteq> sample_t"
  by (simp_all add: sample_x_def sample_t_def)

lemma sample_row_values:
  assumes "i < 4" and "x \<in> {sample_x, sample_t, Constant 1}"
  shows "evaluate_row sample_args i 1 (as_i32 4) x = Some (sample_val x i)"
    and "verifier_value (sample_evals i) x = Some (sample_val x i)"
proof -
  have rot: "get_rotation_idx i 0 1 (as_i32 4) = Some i" using get_rotation_idx_cur [OF assms(1)] by simp
  show "evaluate_row sample_args i 1 (as_i32 4) x = Some (sample_val x i)"
    using assms rot sample_exprs_ne
    by (auto simp: evaluate_row_def row_closures_def sample_args_def sample_advice_def sample_val_def cell_def index_opt_def sample_x_def sample_t_def)
  show "verifier_value (sample_evals i) x = Some (sample_val x i)"
    using assms sample_exprs_ne
    by (auto simp: verifier_value_def verifier_closures_def sample_evals_def sample_val_def index_opt_def sample_x_def sample_t_def)
qed

lemma sample_ca_exprs: "ca_exprs sample_ca = {sample_x, sample_t, Constant 1}"
  by (auto simp: ca_exprs_def sample_ca_def lookup_inputs_def)

lemma sample_compressed: "compressed sample_val 3 [x] i = sample_val x i"
  by (simp add: compressed_def)

lemma sample_lookup:
  assumes "dom_n d = 4"
  shows "honest_lookup (sample_env d) sample_args 3 sample_ca sample_val"
proof -
  have sel: "last_row (sample_env d) = 2" "penv_beta (sample_env d) = 2" "dom_n (penv_domain (sample_env d)) = 4"
    using assms by (simp_all add: sample_env_def last_row_def)
  have rows: "row_values (sample_env d) sample_args sample_val (ca_exprs sample_ca)"
    unfolding row_values_def sel sample_ca_exprs using sample_row_values(1) by blast
  have x: "sample_val sample_x i \<in> sample_val sample_t ` {..<2}" if "i < 2" for i
  proof -
    have "i = 0 \<or> i = 1" using that by auto
    then show ?thesis using sample_exprs_ne by (auto simp: sample_val_def lessThan_Suc numeral_2_eq_2)
  qed
  have nz: "sample_val y i + 2 \<noteq> 0" if "i < 4" "y = sample_x \<or> y = sample_t" for i y
  proof -
    have "i = 0 \<or> i = 1 \<or> i = 2 \<or> i = 3" using that(1) by auto
    then show ?thesis using that(2) sample_exprs_ne by (auto simp: sample_val_def gf_eq_iff numeral_2_eq_2 numeral_3_eq_3)
  qed
  have small: "of_nat k \<noteq> (0 :: gf97)" if "k \<le> 2" "0 < k" for k
  proof -
    have "k = 1 \<or> k = 2" using that by auto
    then show ?thesis by (auto simp: gf_eq_iff)
  qed
  have fields: "ca_selector sample_ca = Constant 1" "lookup_inputs sample_ca = [[sample_x]]" "ca_table_expressions sample_ca = [sample_t]"
    by (simp_all add: sample_ca_def lookup_inputs_def)
  show ?thesis
    unfolding honest_lookup_def Let_def sel fields
    using rows x nz small sample_exprs_ne by (simp add: sample_compressed) (simp add: sample_val_def)
qed

theorem lookup_argument_complete_witness:
  "\<exists>d cm lc le es. domain_new sample_invert sample_params 3 2 = Some d
     \<and> commit_multiplicities (sample_env d) sample_args 3 sample_ca of_nat = Some cm
     \<and> commit_logderivative (sample_env d) cm of_nat = Some lc \<and> lookup_evaluate (sample_env d) (22 ^ 1) lc = Some le
     \<and> lookup_expressions (sample_evals 1) (row_lagrange 2 1) sample_ca 3 2 le = Some es \<and> list_all (\<lambda>e. e = 0) es"
proof -
  obtain d where d: "domain_new sample_invert sample_params 3 2 = Some d" "dom_n d = 4" using sample_domain by blast
  have sel: "last_row (sample_env d) = 2" "penv_beta (sample_env d) = 2" "dom_n (penv_domain (sample_env d)) = 4"
    "dom_omega (penv_domain (sample_env d)) = 22"
    using d sample_omega by (simp_all add: sample_env_def last_row_def)
  have ev: "verifier_value (sample_evals i) x = Some (sample_val x i)"
    if "i < dom_n (penv_domain (sample_env d))" "x \<in> ca_exprs sample_ca" for i x
    using sample_row_values(2) [of i x] that unfolding sel sample_ca_exprs by blast
  from lookup_argument_complete [OF sample_env_ok [OF d] sample_lookup [OF d(2)] ev, of of_nat of_nat]
  obtain cm lc where "commit_multiplicities (sample_env d) sample_args 3 sample_ca of_nat = Some cm"
    "commit_logderivative (sample_env d) cm of_nat = Some lc"
    "\<forall>i<4. \<exists>le es. lookup_evaluate (sample_env d) (22 ^ i) lc = Some le \<and>
      lookup_expressions (sample_evals i) (row_lagrange 2 i) sample_ca 3 2 le = Some es \<and> list_all (\<lambda>e. e = 0) es"
    unfolding sel by auto
  moreover have "(1 :: nat) < 4" by simp
  ultimately show ?thesis using d(1) by blast
qed

theorem trash_argument_complete_witness:
  "\<exists>d poly te. domain_new sample_invert sample_params 3 2 = Some d
     \<and> trash_commit (sample_env d) sample_args 4 \<lparr>ta_selector = sample_t, ta_constraint_expressions = [sample_x]\<rparr> = Some poly
     \<and> trash_evaluate (sample_env d) (22 ^ 1) poly = Some te
     \<and> trash_expressions (sample_evals 1) \<lparr>ta_selector = sample_t, ta_constraint_expressions = [sample_x]\<rparr> 4 te = Some [30]"
proof -
  obtain d where d: "domain_new sample_invert sample_params 3 2 = Some d" "dom_n d = 4" using sample_domain by blast
  let ?a = "\<lparr>ta_selector = sample_t, ta_constraint_expressions = [sample_x]\<rparr>"
  have sel: "dom_n (penv_domain (sample_env d)) = 4" "dom_omega (penv_domain (sample_env d)) = 22"
    using d sample_omega by (simp_all add: sample_env_def)
  have rows: "row_values (sample_env d) sample_args sample_val (set (ta_constraint_expressions ?a))"
    unfolding row_values_def sel using sample_row_values(1) by simp
  have ev: "verifier_value (sample_evals i) x = Some (sample_val x i)"
    if "i < dom_n (penv_domain (sample_env d))" "x \<in> set (ta_constraint_expressions ?a)" for i x
    using sample_row_values(2) [of i x] that unfolding sel by simp
  have q: "verifier_value (sample_evals i) (ta_selector ?a) = Some (sample_val sample_t i)"
    if "i < dom_n (penv_domain (sample_env d))" for i
    using sample_row_values(2) [of i sample_t] that unfolding sel by simp
  from trash_argument_complete [OF sample_env_ok [OF d] rows ev q, of 4]
  obtain poly where poly: "trash_commit (sample_env d) sample_args 4 ?a = Some poly"
    "\<forall>i<4. \<exists>te. trash_evaluate (sample_env d) (22 ^ i) poly = Some te \<and> trash_expressions (sample_evals i) ?a 4 te =
      Some [sample_val sample_t i * foldl (\<lambda>acc x. acc * 4 + x) 0 (map (\<lambda>x. sample_val x i) [sample_x])]"
    unfolding sel by auto
  have "sample_val sample_t 1 * foldl (\<lambda>acc x. acc * 4 + x) 0 (map (\<lambda>x. sample_val x 1) [sample_x]) = 30"
    using sample_exprs_ne by (simp add: sample_val_def gf_eq_iff)
  then show ?thesis using d(1) poly(1) poly(2) [rule_format, of 1] by auto
qed

end
