(* ===== verification/Floor_Planner.thy ===== *)
theory Floor_Planner
  imports Constraint_System "HOL-Library.Product_Lexorder" "HOL-Library.Multiset"
begin

text \<open>
  How regions are measured and placed: \<open>RegionShape\<close> of \<open>circuit/layouter.rs\<close> and the first-fit
  strategy of \<open>circuit/floor_planner/v1/strategy.rs\<close>. Rows are natural numbers: they stay below the
  number of rows of the circuit, far from the width of \<open>usize\<close>. A \<open>HashSet\<close> of columns is a list
  without repetitions, in an order the results do not depend on; a \<open>BTreeSet\<close> of allocated regions
  is the list of its elements in increasing order. \<open>None\<close> is a panic.

  Shown here: the search never runs into an assertion, always finds a place for a region when the
  number of rows is not bounded, and that place is the first row at which all columns of the region
  are free; so regions that share a column never overlap.
\<close>

section \<open>Shapes of regions\<close>

datatype region_column = RC_Column column | RC_Selector selector

text \<open>\<open>Ord for RegionColumn\<close>: concrete columns first, selectors by their index.\<close>

fun region_column_key :: "region_column \<Rightarrow> nat \<times> any_column \<times> nat" where
  "region_column_key (RC_Column a) = (0, column_type a, col_index a)"
| "region_column_key (RC_Selector a) = (1, Any_Instance, sel_index a)"

record region_shape =
  region_index :: nat
  shape_columns :: "region_column list"
  row_count :: nat

definition region_shape_new :: "nat \<Rightarrow> region_shape" where
  "region_shape_new i = \<lparr>region_index = i, shape_columns = [], row_count = 0\<rparr>"

text \<open>The body that \<open>enable_selector\<close>, \<open>assign_advice\<close> and \<open>assign_fixed\<close> share.\<close>

definition shape_touch :: "region_shape \<Rightarrow> region_column \<Rightarrow> nat \<Rightarrow> region_shape" where
  "shape_touch shape c offset =
     shape\<lparr>shape_columns := List.insert c (shape_columns shape),
           row_count := max (row_count shape) (offset + 1)\<rparr>"

section \<open>Allocated regions and free intervals\<close>

record allocated_region =
  alloc_start :: nat
  alloc_length :: nat

record empty_space =
  space_start :: nat
  space_end :: "nat option"

type_synonym allocations = "allocated_region list"

text \<open>\<open>BTreeSet::insert\<close>: regions are compared by their start; an equal one is kept.\<close>

fun alloc_insert :: "allocated_region \<Rightarrow> allocations \<Rightarrow> allocations" where
  "alloc_insert r [] = [r]"
| "alloc_insert r (x # xs) =
     (if alloc_start r < alloc_start x then r # x # xs
      else if alloc_start r = alloc_start x then x # xs
      else x # alloc_insert r xs)"

definition unbounded_interval_start :: "allocations \<Rightarrow> nat" where
  "unbounded_interval_start a = (if a = [] then 0 else alloc_start (last a) + alloc_length (last a))"

definition space_range :: "empty_space \<Rightarrow> nat list option" where
  "space_range e = map_option (\<lambda>end'. [space_start e..<end']) (space_end e)"

text \<open>
  The \<open>scan\<close> over the allocated regions, followed by \<open>None\<close>; \<open>row\<close> is the state of the scan.
\<close>

fun free_intervals :: "allocations \<Rightarrow> nat \<Rightarrow> nat option \<Rightarrow> empty_space list" where
  "free_intervals [] row end' =
     (if (case end' of None \<Rightarrow> True | Some e \<Rightarrow> row < e)
      then [\<lparr>space_start = row, space_end = end'\<rparr>] else [])"
| "free_intervals (r # rs) row end' =
     (if (case end' of None \<Rightarrow> False | Some e \<Rightarrow> e \<le> alloc_start r) then free_intervals rs row end'
      else (if row < alloc_start r
            then [\<lparr>space_start = row, space_end = Some (alloc_start r)\<rparr>] else [])
           @ free_intervals rs (max row (alloc_start r + alloc_length r)) end')"

section \<open>The first-fit search\<close>

type_synonym circuit_allocations = "region_column \<rightharpoonup> allocations"

definition alloc_of :: "circuit_allocations \<Rightarrow> region_column \<Rightarrow> allocations" where
  "alloc_of m c = (case m c of None \<Rightarrow> [] | Some a \<Rightarrow> a)"

text \<open>
  The loop over the free intervals of the column \<open>c\<close>; \<open>inner\<close> is the recursive call for the
  remaining columns. Both assertions are branches.
\<close>

fun try_spaces ::
    "(circuit_allocations \<Rightarrow> nat \<Rightarrow> nat option \<Rightarrow> (circuit_allocations \<times> nat option) option)
     \<Rightarrow> region_column \<Rightarrow> nat \<Rightarrow> nat option \<Rightarrow> nat option \<Rightarrow> empty_space list \<Rightarrow> circuit_allocations
     \<Rightarrow> (circuit_allocations \<times> nat option) option" where
  "try_spaces inner c region_length slack end' [] m = Some (m, None)"
| "try_spaces inner c region_length slack end' (space # spaces) m =
     (let s_slack = map_option (\<lambda>e. int e - int (space_start space) - int region_length) (space_end space)
      in if (case (slack, s_slack) of (Some sl, Some s) \<Rightarrow> \<not> s \<le> int sl | _ \<Rightarrow> False) then None
         else if (case s_slack of None \<Rightarrow> 0 | Some s \<Rightarrow> s) \<ge> 0 then
           (case inner m (space_start space) (map_option nat s_slack) of
              None \<Rightarrow> None
            | Some (m, Some row) \<Rightarrow>
                if (case end' of None \<Rightarrow> False | Some e \<Rightarrow> \<not> row + region_length \<le> e) then None
                else map_option (\<lambda>a. (m(c \<mapsto> alloc_insert \<lparr>alloc_start = row, alloc_length = region_length\<rparr> a),
                                      Some row)) (m c)
            | Some (m, None) \<Rightarrow> try_spaces inner c region_length slack end' spaces m)
         else try_spaces inner c region_length slack end' spaces m)"

fun first_fit_region ::
    "circuit_allocations \<Rightarrow> region_column list \<Rightarrow> nat \<Rightarrow> nat \<Rightarrow> nat option
     \<Rightarrow> (circuit_allocations \<times> nat option) option" where
  "first_fit_region m [] region_length start slack = Some (m, Some start)"
| "first_fit_region m (c # remaining_columns) region_length start slack =
     (let end' = map_option (\<lambda>sl. start + region_length + sl) slack;
          a = alloc_of m c
      in try_spaces (\<lambda>m start slack. first_fit_region m remaining_columns region_length start slack)
           c region_length slack end' (free_intervals a start end') (m(c \<mapsto> a)))"

section \<open>Placing all regions\<close>

fun slot_in_from ::
    "circuit_allocations \<Rightarrow> region_shape list \<Rightarrow> ((nat \<times> region_shape) list \<times> circuit_allocations) option" where
  "slot_in_from m [] = Some ([], m)"
| "slot_in_from m (region # regions) =
     (case first_fit_region m (sort_key region_column_key (shape_columns region)) (row_count region) 0 None of
        Some (m, Some region_start) \<Rightarrow>
          map_option (\<lambda>(placed, m). ((region_start, region) # placed, m)) (slot_in_from m regions)
      | _ \<Rightarrow> None)"

definition slot_in :: "region_shape list \<Rightarrow> ((nat \<times> region_shape) list \<times> circuit_allocations) option" where
  "slot_in region_shapes = slot_in_from (\<lambda>_. None) region_shapes"

definition is_advice_column :: "region_column \<Rightarrow> bool" where
  "is_advice_column c =
     (case c of RC_Column c \<Rightarrow> (case column_type c of Any_Advice _ \<Rightarrow> True | _ \<Rightarrow> False) | _ \<Rightarrow> False)"

definition advice_area :: "region_shape \<Rightarrow> nat" where
  "advice_area shape = length (filter is_advice_column (shape_columns shape)) * row_count shape"

definition slot_in_biggest_advice_first ::
    "region_shape list \<Rightarrow> (nat list \<times> circuit_allocations) option" where
  "slot_in_biggest_advice_first region_shapes =
     map_option (\<lambda>(regions, column_allocations).
        (map fst (sort_key (\<lambda>(_, region). region_index region) regions), column_allocations))
       (slot_in (rev (sort_key advice_area region_shapes)))"

section \<open>Well-formed shapes\<close>

definition shape_wf :: "region_shape \<Rightarrow> bool" where
  "shape_wf shape \<longleftrightarrow> distinct (shape_columns shape) \<and> (shape_columns shape \<noteq> [] \<longrightarrow> 0 < row_count shape)"

lemma shape_wf_new [simp]: "shape_wf (region_shape_new i)"
  by (simp add: shape_wf_def region_shape_new_def)

lemma shape_wf_touch [simp]: "shape_wf shape \<Longrightarrow> shape_wf (shape_touch shape c offset)"
  by (auto simp: shape_wf_def shape_touch_def less_max_iff_disj)

section \<open>What a free interval is\<close>

definition free_at :: "allocations \<Rightarrow> nat \<Rightarrow> nat \<Rightarrow> bool" where
  "free_at a len row \<longleftrightarrow>
     (\<forall>r\<in>set a. row + len \<le> alloc_start r \<or> alloc_start r + alloc_length r \<le> row)"

definition alloc_wf :: "allocations \<Rightarrow> bool" where
  "alloc_wf a \<longleftrightarrow> sorted_wrt (\<lambda>x y. alloc_start x + alloc_length x \<le> alloc_start y) a \<and>
     (\<forall>r\<in>set a. 0 < alloc_length r)"

definition le_end :: "nat \<Rightarrow> nat option \<Rightarrow> bool" where
  "le_end i end' \<longleftrightarrow> (case end' of None \<Rightarrow> True | Some e \<Rightarrow> i \<le> e)"

lemma le_end_simps [simp]: "le_end i None" "le_end i (Some e) \<longleftrightarrow> i \<le> e"
  by (simp_all add: le_end_def)

definition in_space :: "nat \<Rightarrow> empty_space \<Rightarrow> nat \<Rightarrow> bool" where
  "in_space len space row \<longleftrightarrow> space_start space \<le> row \<and> le_end (row + len) (space_end space)"

lemma alloc_wf_Cons [simp]:
  "alloc_wf (r # rs) \<longleftrightarrow> 0 < alloc_length r \<and> alloc_wf rs \<and>
     (\<forall>x\<in>set rs. alloc_start r + alloc_length r \<le> alloc_start x)"
  by (auto simp: alloc_wf_def)

lemma alloc_wf_Nil [simp]: "alloc_wf []"
  by (simp add: alloc_wf_def)

lemma free_at_Cons [simp]:
  "free_at (r # rs) len row \<longleftrightarrow>
     (row + len \<le> alloc_start r \<or> alloc_start r + alloc_length r \<le> row) \<and> free_at rs len row"
  by (simp add: free_at_def)

lemma free_at_Nil [simp]: "free_at [] len row"
  by (simp add: free_at_def)

lemma free_at_before:
  "row + len \<le> s \<Longrightarrow> \<forall>x\<in>set rs. s \<le> alloc_start x \<Longrightarrow> free_at rs len row"
  by (fastforce simp: free_at_def)

lemma free_intervals_sound:
  "sp \<in> set (free_intervals a start end') \<Longrightarrow>
    start \<le> space_start sp \<and> (\<forall>e. end' = Some e \<longrightarrow> (\<exists>s. space_end sp = Some s \<and> s \<le> e)) \<and>
    (\<forall>s. space_end sp = Some s \<longrightarrow> space_start sp < s)"
proof (induction a start end' rule: free_intervals.induct)
  case (1 row end')
  then show ?case by (auto split: option.splits if_splits)
next
  case (2 r rs row end')
  show ?case
  proof (cases "case end' of None \<Rightarrow> False | Some e \<Rightarrow> e \<le> alloc_start r")
    case True
    with 2 show ?thesis by simp
  next
    case False
    with 2 consider "row < alloc_start r" "sp = \<lparr>space_start = row, space_end = Some (alloc_start r)\<rparr>"
      | "sp \<in> set (free_intervals rs (max row (alloc_start r + alloc_length r)) end')"
      by (auto split: if_splits)
    then show ?thesis
    proof cases
      case 1
      with False show ?thesis by (auto split: option.splits)
    next
      case 2
      with "2.IH"(2) [OF False this] show ?thesis by simp
    qed
  qed
qed

lemma free_intervals_complete:
  assumes "alloc_wf a" and "0 < len"
  shows "start \<le> row \<and> le_end (row + len) end' \<and> free_at a len row \<longleftrightarrow>
         (\<exists>sp\<in>set (free_intervals a start end'). in_space len sp row)"
  using assms(1)
proof (induction a start end' rule: free_intervals.induct)
  case (1 row' end')
  with assms(2) show ?case by (auto simp: in_space_def split: option.splits)
next
  case (2 r rs row' end')
  show ?case
  proof (cases "\<exists>e. end' = Some e \<and> e \<le> alloc_start r")
    case True
    with 2 show ?thesis by auto
  next
    case False
    then have nb: "\<not> (case end' of None \<Rightarrow> False | Some e \<Rightarrow> e \<le> alloc_start r)"
      by (auto split: option.splits)
    have IH: "max row' (alloc_start r + alloc_length r) \<le> row \<and> le_end (row + len) end' \<and> free_at rs len row \<longleftrightarrow>
        (\<exists>sp\<in>set (free_intervals rs (max row' (alloc_start r + alloc_length r)) end'). in_space len sp row)"
      using 2 nb by simp
    have before: "row + len \<le> alloc_start r \<Longrightarrow> free_at rs len row \<and> le_end (row + len) end'"
      using 2(3) False by (intro conjI free_at_before [of _ _ "alloc_start r"])
        (auto simp: le_end_def split: option.splits)
    have "row' \<le> row \<and> le_end (row + len) end' \<and> free_at (r # rs) len row \<longleftrightarrow>
        row' \<le> row \<and> row + len \<le> alloc_start r \<or>
        max row' (alloc_start r + alloc_length r) \<le> row \<and> le_end (row + len) end' \<and> free_at rs len row"
      using before by auto
    also have "\<dots> \<longleftrightarrow> (\<exists>sp\<in>set (free_intervals (r # rs) row' end'). in_space len sp row)"
      unfolding IH using nb assms(2) by (auto simp: in_space_def)
    finally show ?thesis .
  qed
qed

lemma free_intervals_sorted:
  "alloc_wf a \<Longrightarrow> sorted_wrt (\<lambda>x y. \<exists>e. space_end x = Some e \<and> e \<le> space_start y) (free_intervals a start end')"
proof (induction a start end' rule: free_intervals.induct)
  case (2 r rs row end')
  have "\<forall>y\<in>set (free_intervals rs (max row (alloc_start r + alloc_length r)) end').
          alloc_start r \<le> space_start y"
    using free_intervals_sound [of _ rs "max row (alloc_start r + alloc_length r)" end'] 2(3) by force
  with 2 show ?case by (auto split: option.splits)
qed auto

section \<open>The search finds the first free row\<close>

definition fits :: "(region_column \<Rightarrow> allocations) \<Rightarrow> region_column list \<Rightarrow> nat \<Rightarrow> nat \<Rightarrow> bool" where
  "fits A cols len row \<longleftrightarrow> (\<forall>c\<in>set cols. free_at (A c) len row)"

definition place :: "(region_column \<Rightarrow> allocations) \<Rightarrow> region_column list \<Rightarrow> nat \<Rightarrow> nat \<Rightarrow> region_column \<Rightarrow> allocations" where
  "place A cols len row c =
     (if c \<in> set cols then alloc_insert \<lparr>alloc_start = row, alloc_length = len\<rparr> (A c) else A c)"

definition first_row :: "(nat \<Rightarrow> bool) \<Rightarrow> nat option \<Rightarrow> bool" where
  "first_row P res \<longleftrightarrow> (case res of None \<Rightarrow> \<forall>r. \<not> P r | Some r \<Rightarrow> P r \<and> (\<forall>r'<r. \<not> P r'))"

text \<open>What one call of the search promises, for the columns \<open>cols\<close> and allocations \<open>A\<close>.\<close>

definition search_result ::
    "(region_column \<Rightarrow> allocations) \<Rightarrow> region_column list \<Rightarrow> nat \<Rightarrow> (nat \<Rightarrow> bool) \<Rightarrow> circuit_allocations
     \<Rightarrow> (circuit_allocations \<times> nat option) option \<Rightarrow> bool" where
  "search_result A cols len P m out \<longleftrightarrow>
     (\<exists>m' res. out = Some (m', res) \<and> first_row P res \<and>
        alloc_of m' = (case res of None \<Rightarrow> A | Some r \<Rightarrow> place A cols len r) \<and>
        dom m \<subseteq> dom m' \<and> dom m' \<subseteq> dom m \<union> set cols)"

definition window :: "nat \<Rightarrow> nat option \<Rightarrow> nat \<Rightarrow> bool" where
  "window start slack row \<longleftrightarrow> start \<le> row \<and> le_end row (map_option (\<lambda>sl. start + sl) slack)"

lemma alloc_of_upd: "alloc_of (m(c \<mapsto> a)) = (alloc_of m)(c := a)"
  by (auto simp: alloc_of_def)

lemma alloc_of_touch [simp]: "alloc_of (m(c \<mapsto> alloc_of m c)) = alloc_of m"
  by (simp add: alloc_of_upd)

lemma in_space_window:
  assumes "\<And>e. space_end sp = Some e \<Longrightarrow> space_start sp + len \<le> e"
  shows "window (space_start sp)
           (map_option nat (map_option (\<lambda>e. int e - int (space_start sp) - int len) (space_end sp))) row
         \<longleftrightarrow> in_space len sp row"
  using assms by (cases "space_end sp") (force simp: window_def in_space_def)+

lemma search_result_weaken:
  assumes "search_result A cols len P m out" and "dom m' \<subseteq> dom m" and "dom m \<subseteq> dom m' \<union> set cols"
    and "\<And>r. P r = Q r"
  shows "search_result A cols len Q m' out"
proof -
  have PQ: "P = Q" using assms(4) by (rule ext)
  obtain m1 res where "out = Some (m1, res)" "first_row P res"
    "alloc_of m1 = (case res of None \<Rightarrow> A | Some r \<Rightarrow> place A cols len r)"
    "dom m \<subseteq> dom m1" "dom m1 \<subseteq> dom m \<union> set cols"
    using assms(1) unfolding search_result_def by blast
  with assms(2,3) show ?thesis
    unfolding search_result_def PQ by (intro exI [of _ m1] exI [of _ res] conjI) (assumption | blast)+
qed

lemma try_spaces_correct:
  assumes inner: "\<And>m st sl. alloc_of m = A \<Longrightarrow>
      search_result A cs len (\<lambda>r. window st sl r \<and> fits A cs len r) m (inner m st sl)"
    and c: "c \<notin> set cs" and len: "0 < len"
    and m: "alloc_of m = A" "c \<in> dom m"
    and spaces: "sorted_wrt (\<lambda>x y. \<exists>e. space_end x = Some e \<and> e \<le> space_start y) spaces"
      "\<And>sp. sp \<in> set spaces \<Longrightarrow> start \<le> space_start sp \<and>
        (\<forall>sl. slack = Some sl \<longrightarrow> (\<exists>s. space_end sp = Some s \<and> s \<le> start + len + sl))"
  shows "search_result A (c # cs) len
      (\<lambda>r. (\<exists>sp\<in>set spaces. in_space len sp r) \<and> fits A cs len r) m
      (try_spaces inner c len slack (map_option (\<lambda>sl. start + len + sl) slack) spaces m)"
  using m spaces
proof (induction spaces arbitrary: m)
  case Nil
  then show ?case by (auto simp: search_result_def first_row_def)
next
  case (Cons sp spaces)
  let ?stop = "map_option (\<lambda>sl. start + len + sl) slack"
  let ?ss = "map_option (\<lambda>e. int e - int (space_start sp) - int len) (space_end sp)"
  have sp: "start \<le> space_start sp"
      "\<forall>sl. slack = Some sl \<longrightarrow> (\<exists>s. space_end sp = Some s \<and> s \<le> start + len + sl)"
    using Cons.prems(4) by auto
  have assert1: "\<not> (case (slack, ?ss) of (Some sl, Some s) \<Rightarrow> \<not> s \<le> int sl | _ \<Rightarrow> False)"
    using sp by (cases slack; cases "space_end sp") auto
  have later: "\<exists>e. space_end sp = Some e \<and> e \<le> space_start y" if "y \<in> set spaces" for y
    using Cons.prems(3) that by simp
  have rest: "search_result A (c # cs) len
      (\<lambda>r. (\<exists>sp\<in>set spaces. in_space len sp r) \<and> fits A cs len r) m'
      (try_spaces inner c len slack ?stop spaces m')" if "alloc_of m' = A" "c \<in> dom m'" for m'
    using Cons.IH [OF that] Cons.prems(3,4) by simp
  show ?case
  proof (cases "(case ?ss of None \<Rightarrow> 0 | Some s \<Rightarrow> s) \<ge> 0")
    case False
    then have "\<not> in_space len sp r" for r
      by (cases "space_end sp") (auto simp: in_space_def)
    with rest [OF Cons.prems(1,2)] False assert1 show ?thesis by (simp add: Let_def)
  next
    case True
    have iw: "window (space_start sp) (map_option nat ?ss) r \<longleftrightarrow> in_space len sp r" for r
      using True by (intro in_space_window) auto
    obtain m' res where out: "inner m (space_start sp) (map_option nat ?ss) = Some (m', res)"
      and fr: "first_row (\<lambda>r. in_space len sp r \<and> fits A cs len r) res"
      and am: "alloc_of m' = (case res of None \<Rightarrow> A | Some r \<Rightarrow> place A cs len r)"
      and dm: "dom m \<subseteq> dom m'" "dom m' \<subseteq> dom m \<union> set cs"
      using inner [OF Cons.prems(1), of "space_start sp" "map_option nat ?ss"]
      unfolding search_result_def iw by blast
    show ?thesis
    proof (cases res)
      case None
      then have none: "\<not> (in_space len sp r \<and> fits A cs len r)" for r
        using fr by (simp add: first_row_def)
      have "search_result A (c # cs) len
          (\<lambda>r. (\<exists>sp\<in>set (sp # spaces). in_space len sp r) \<and> fits A cs len r) m
          (try_spaces inner c len slack ?stop spaces m')"
        by (rule search_result_weaken [OF rest]) (use None am dm Cons.prems(2) none in auto)
      with out None True assert1 show ?thesis by (simp add: Let_def)
    next
      case (Some row)
      have row: "in_space len sp row" "fits A cs len row" using fr Some by (auto simp: first_row_def)
      have assert2: "\<not> (case ?stop of None \<Rightarrow> False | Some e \<Rightarrow> \<not> row + len \<le> e)"
        using row(1) sp(2) by (auto simp: in_space_def split: option.splits)
      obtain a where a: "m' c = Some a" using dm(1) Cons.prems(2) by blast
      have a2: "a = A c"
        using fun_cong [OF am, of c] a Some c by (simp add: place_def alloc_of_def)
      have "row < r'" if "y \<in> set spaces" "in_space len y r'" for y r'
        using later [OF that(1)] that(2) row(1) len by (auto simp: in_space_def)
      then have "first_row (\<lambda>r. (\<exists>sp\<in>set (sp # spaces). in_space len sp r) \<and> fits A cs len r) (Some row)"
        using fr Some by (auto simp: first_row_def dest: less_trans)
      moreover have "alloc_of (m'(c \<mapsto> alloc_insert \<lparr>alloc_start = row, alloc_length = len\<rparr> a)) =
          place A (c # cs) len row"
        using am Some a2 by (auto simp: alloc_of_upd place_def fun_eq_iff)
      ultimately show ?thesis
        using out Some True assert1 assert2 a dm
        by (auto simp: Let_def search_result_def)
    qed
  qed
qed

text \<open>
  The search over all columns: the result is the least row in the window at which every column is
  free, and no row when there is none.
\<close>

lemma first_fit_region_correct:
  assumes "distinct cols" and "0 < len \<or> cols = []" and "\<And>c. c \<in> set cols \<Longrightarrow> alloc_wf (alloc_of m c)"
  shows "search_result (alloc_of m) cols len
      (\<lambda>r. window start slack r \<and> fits (alloc_of m) cols len r) m
      (first_fit_region m cols len start slack)"
  using assms
proof (induction cols arbitrary: m start slack)
  case Nil
  then show ?case
    by (auto simp: search_result_def first_row_def window_def fits_def place_def le_end_def split: option.splits)
next
  case (Cons c cs)
  let ?stop = "map_option (\<lambda>sl. start + len + sl) slack"
  let ?sp = "free_intervals (alloc_of m c) start ?stop"
  have len: "0 < len" using Cons.prems(2) by simp
  have "search_result (alloc_of m) (c # cs) len
      (\<lambda>r. (\<exists>sp\<in>set ?sp. in_space len sp r) \<and> fits (alloc_of m) cs len r) (m(c \<mapsto> alloc_of m c))
      (first_fit_region m (c # cs) len start slack)"
    unfolding first_fit_region.simps Let_def
  proof (rule try_spaces_correct)
    show "search_result (alloc_of m) cs len (\<lambda>r. window st sl r \<and> fits (alloc_of m) cs len r) m'
        (first_fit_region m' cs len st sl)" if "alloc_of m' = alloc_of m" for m' st sl
      using Cons.IH [of m' st sl] Cons.prems len unfolding that by auto
    show "sorted_wrt (\<lambda>x y. \<exists>e. space_end x = Some e \<and> e \<le> space_start y) ?sp"
      using Cons.prems(3) by (intro free_intervals_sorted) simp
    show "start \<le> space_start sp \<and>
        (\<forall>sl. slack = Some sl \<longrightarrow> (\<exists>s. space_end sp = Some s \<and> s \<le> start + len + sl))"
      if "sp \<in> set ?sp" for sp
      using free_intervals_sound [OF that] by auto
  qed (use Cons.prems len in auto)
  moreover have "(\<exists>sp\<in>set ?sp. in_space len sp r) \<longleftrightarrow>
      window start slack r \<and> free_at (alloc_of m c) len r" for r
    using free_intervals_complete [of "alloc_of m c" len start r ?stop] Cons.prems(3) len
    by (auto simp: window_def le_end_def split: option.splits)
  ultimately show ?case
    by (elim search_result_weaken) (simp_all add: fits_def, blast+)
qed

section \<open>Regions that share a column do not overlap\<close>

definition no_overlap :: "nat \<Rightarrow> region_shape \<Rightarrow> nat \<Rightarrow> region_shape \<Rightarrow> bool" where
  "no_overlap s shape s' shape' \<longleftrightarrow> set (shape_columns shape) \<inter> set (shape_columns shape') = {} \<or>
     s + row_count shape \<le> s' \<or> s' + row_count shape' \<le> s"

definition clear_of :: "(nat \<times> region_shape) list \<Rightarrow> region_shape \<Rightarrow> nat \<Rightarrow> bool" where
  "clear_of placed shape row \<longleftrightarrow> list_all (\<lambda>(s, sh). no_overlap row shape s sh) placed"

text \<open>The allocations are exactly the rows of the regions placed so far.\<close>

definition alloc_inv :: "circuit_allocations \<Rightarrow> (nat \<times> region_shape) list \<Rightarrow> bool" where
  "alloc_inv m placed \<longleftrightarrow>
     (\<forall>c. alloc_wf (alloc_of m c) \<and>
          set (alloc_of m c) = {\<lparr>alloc_start = s, alloc_length = row_count sh\<rparr> |s sh.
                                 (s, sh) \<in> set placed \<and> c \<in> set (shape_columns sh)}) \<and>
     dom m = (\<Union>(s, sh)\<in>set placed. set (shape_columns sh))"

lemma no_overlap_sym: "no_overlap s a s' b = no_overlap s' b s a"
  by (auto simp: no_overlap_def)

lemma alloc_insert_set:
  "\<lbrakk>free_at a (alloc_length r) (alloc_start r); 0 < alloc_length r; \<forall>x\<in>set a. 0 < alloc_length x\<rbrakk> \<Longrightarrow>
    set (alloc_insert r a) = insert r (set a)"
  by (induction a) auto

lemma alloc_insert_wf:
  "\<lbrakk>alloc_wf a; free_at a (alloc_length r) (alloc_start r); 0 < alloc_length r\<rbrakk> \<Longrightarrow>
    alloc_wf (alloc_insert r a)"
proof (induction a)
  case (Cons x a)
  then have "set (alloc_insert r a) = insert r (set a)"
    by (intro alloc_insert_set) (auto simp: alloc_wf_def)
  with Cons show ?case by auto
qed simp

lemma fits_clear_of:
  assumes "alloc_inv m placed"
  shows "fits (alloc_of m) (shape_columns sh) (row_count sh) row = clear_of placed sh row"
  using assms
  by (fastforce simp: fits_def free_at_def clear_of_def no_overlap_def alloc_inv_def list_all_iff)

lemma alloc_inv_place:
  assumes inv: "alloc_inv m placed" and sh: "shape_wf sh" and row: "clear_of placed sh row"
    and m': "alloc_of m' = place (alloc_of m) cols (row_count sh) row"
      "dom m' = dom m \<union> set cols" "set cols = set (shape_columns sh)"
  shows "alloc_inv m' (placed @ [(row, sh)])"
proof -
  have fits: "fits (alloc_of m) (shape_columns sh) (row_count sh) row"
    using fits_clear_of [OF inv] row by simp
  have wf: "alloc_wf (alloc_of m c)" for c using inv by (simp add: alloc_inv_def)
  let ?r = "\<lparr>alloc_start = row, alloc_length = row_count sh\<rparr>"
  have new: "alloc_wf (alloc_insert ?r (alloc_of m c)) \<and>
      set (alloc_insert ?r (alloc_of m c)) = insert ?r (set (alloc_of m c))"
    if "c \<in> set (shape_columns sh)" for c
  proof -
    have "0 < row_count sh" using sh that by (auto simp: shape_wf_def)
    moreover have "free_at (alloc_of m c) (row_count sh) row" using fits that by (simp add: fits_def)
    ultimately show ?thesis
      using wf [of c] by (intro conjI alloc_insert_wf alloc_insert_set) (auto simp: alloc_wf_def)
  qed
  show ?thesis
    unfolding alloc_inv_def
  proof (intro conjI allI)
    fix c
    show "alloc_wf (alloc_of m' c)"
      using new wf by (simp add: m' place_def)
    show "set (alloc_of m' c) = {\<lparr>alloc_start = s, alloc_length = row_count sh'\<rparr> |s sh'.
        (s, sh') \<in> set (placed @ [(row, sh)]) \<and> c \<in> set (shape_columns sh')}"
      using new inv by (auto simp: m' place_def alloc_inv_def)
  qed (use inv m' in \<open>auto simp: alloc_inv_def\<close>)
qed

lemma fits_exists: "\<exists>row. fits A cols len row"
proof -
  let ?E = "(\<lambda>r. alloc_start r + alloc_length r) ` (\<Union>c\<in>set cols. set (A c))"
  have "fits A cols len (Max (insert 0 ?E))"
    unfolding fits_def free_at_def by (auto intro!: disjI2 Max_ge)
  then show ?thesis ..
qed

lemma search_total:
  assumes "search_result A cols len P m out" and "\<exists>r. P r"
  obtains m' r where "out = Some (m', Some r)" "P r" "\<forall>r'<r. \<not> P r'"
    "alloc_of m' = place A cols len r" "dom m \<subseteq> dom m'" "dom m' \<subseteq> dom m \<union> set cols"
  using assms by (auto simp: search_result_def first_row_def split: option.splits)

lemma place_dom:
  assumes "alloc_of m' = place (alloc_of m) cols len r" and "c \<in> set cols"
  shows "c \<in> dom m'"
proof (rule ccontr)
  assume "c \<notin> dom m'"
  then have "place (alloc_of m) cols len r c = []"
    using assms(1) by (simp add: alloc_of_def domIff flip: assms(1))
  moreover have "alloc_insert x a \<noteq> []" for x a by (cases a) auto
  ultimately show False using assms(2) by (simp add: place_def)
qed

lemma slot_in_from_correct:
  assumes "alloc_inv m placed" and "\<forall>sh\<in>set regions. shape_wf sh"
  shows "\<exists>new m'. slot_in_from m regions = Some (new, m') \<and> map snd new = regions \<and>
      alloc_inv m' (placed @ new) \<and>
      (\<forall>i<length new. first_row (clear_of (placed @ take i new) (regions ! i)) (Some (fst (new ! i))))"
  using assms
proof (induction regions arbitrary: m placed)
  case Nil
  then show ?case by simp
next
  case (Cons sh regions)
  let ?cols = "sort_key region_column_key (shape_columns sh)"
  have wf: "shape_wf sh" using Cons.prems(2) by simp
  have fits: "fits (alloc_of m) ?cols (row_count sh) = clear_of placed sh"
    using fits_clear_of [OF Cons.prems(1), of sh] by (auto simp: fits_def fun_eq_iff)
  have "search_result (alloc_of m) ?cols (row_count sh)
      (\<lambda>r. window 0 None r \<and> fits (alloc_of m) ?cols (row_count sh) r) m
      (first_fit_region m ?cols (row_count sh) 0 None)"
    using wf Cons.prems(1) by (intro first_fit_region_correct) (auto simp: shape_wf_def alloc_inv_def)
  then have "search_result (alloc_of m) ?cols (row_count sh) (clear_of placed sh) m
      (first_fit_region m ?cols (row_count sh) 0 None)"
    by (simp add: window_def fits)
  moreover have "\<exists>r. clear_of placed sh r" using fits_exists unfolding fits [symmetric] .
  ultimately obtain m1 r where ff: "first_fit_region m ?cols (row_count sh) 0 None = Some (m1, Some r)"
    and r: "clear_of placed sh r" "\<forall>r'<r. \<not> clear_of placed sh r'"
    and m1: "alloc_of m1 = place (alloc_of m) ?cols (row_count sh) r" "dom m \<subseteq> dom m1"
      "dom m1 \<subseteq> dom m \<union> set ?cols"
    by (rule search_total)
  have "set ?cols \<subseteq> dom m1" using place_dom [OF m1(1)] by blast
  then have "dom m1 = dom m \<union> set ?cols" using m1(2,3) by blast
  then have "alloc_inv m1 (placed @ [(r, sh)])"
    by (rule alloc_inv_place [OF Cons.prems(1) wf r(1) m1(1)]) simp
  from Cons.IH [OF this] Cons.prems(2) obtain new m' where
    new: "slot_in_from m1 regions = Some (new, m')" "map snd new = regions"
      "alloc_inv m' ((placed @ [(r, sh)]) @ new)"
      "\<forall>i<length new. first_row (clear_of ((placed @ [(r, sh)]) @ take i new) (regions ! i)) (Some (fst (new ! i)))"
    by auto
  have "\<forall>i<length ((r, sh) # new). first_row (clear_of (placed @ take i ((r, sh) # new)) ((sh # regions) ! i))
      (Some (fst (((r, sh) # new) ! i)))"
    using new(4) r by (auto simp: nth_Cons first_row_def split: nat.splits)
  with new ff show ?case
    by (intro exI [of _ "(r, sh) # new"] exI [of _ m']) simp
qed

lemma alloc_inv_empty: "alloc_inv (\<lambda>_. None) []"
  by (simp add: alloc_inv_def alloc_of_def)

text \<open>
  C13: placing regions never fails, for any list of measured shapes: no assertion is violated, the
  "We can always fit a region somewhere" of \<open>slot_in\<close> holds, and every region starts at the first
  row at which none of its columns is in use by the regions placed before it.
\<close>

theorem slot_in_first_fit:
  assumes "list_all shape_wf shapes"
  shows "\<exists>placed m. slot_in shapes = Some (placed, m) \<and> map snd placed = shapes \<and>
      (\<forall>i<length shapes. fst (placed ! i) = (LEAST row. clear_of (take i placed) (shapes ! i) row) \<and>
         clear_of (take i placed) (shapes ! i) (fst (placed ! i)))"
proof -
  have "\<forall>sh\<in>set shapes. shape_wf sh" using assms by (simp add: list_all_iff)
  from slot_in_from_correct [OF alloc_inv_empty this] obtain placed m where
    p: "slot_in shapes = Some (placed, m)" "map snd placed = shapes"
      "\<forall>i<length placed. first_row (clear_of (take i placed) (shapes ! i)) (Some (fst (placed ! i)))"
    by (auto simp: slot_in_def)
  then have "length placed = length shapes" by auto
  then have "clear_of (take i placed) (shapes ! i) (fst (placed ! i)) \<and>
      fst (placed ! i) = (LEAST row. clear_of (take i placed) (shapes ! i) row)" if "i < length shapes" for i
    using p(3) that by (auto simp: first_row_def not_less intro!: Least_equality [symmetric] leI)
  with p show ?thesis by blast
qed

definition sample_shapes :: "region_shape list" where
  "sample_shapes =
     [\<lparr>region_index = 0, shape_columns = [RC_Column (Column 0 (Any_Advice 0)), RC_Column (Column 1 (Any_Advice 0))],
       row_count = 15\<rparr>,
      \<lparr>region_index = 1, shape_columns = [RC_Column (Column 2 (Any_Advice 0))], row_count = 10\<rparr>,
      \<lparr>region_index = 2, shape_columns = [RC_Column (Column 2 (Any_Advice 0)), RC_Column (Column 0 (Any_Advice 0))],
       row_count = 10\<rparr>]"

lemma sample_shapes_wf: "list_all shape_wf sample_shapes"
  by (simp add: sample_shapes_def shape_wf_def)

theorem slot_in_first_fit_witness:
  "\<exists>placed m. slot_in sample_shapes = Some (placed, m) \<and> map snd placed = sample_shapes \<and>
     fst (placed ! 2) = (LEAST row. clear_of (take 2 placed) (sample_shapes ! 2) row)"
proof -
  have "2 < length sample_shapes" by (simp add: sample_shapes_def)
  with slot_in_first_fit [OF sample_shapes_wf] show ?thesis by blast
qed

lemma map_snd_sort_key: "map snd (sort_key (\<lambda>(_, x). k x) ps) = sort_key k (map snd ps)"
proof (induction ps)
  case (Cons p ps)
  have "map snd (insort_key (\<lambda>(_, x). k x) p xs) = insort_key k (snd p) (map snd xs)" for xs
    by (induction xs) (auto simp: case_prod_unfold)
  with Cons show ?case by simp
qed simp

lemma placed_no_overlap:
  assumes "\<forall>i<length placed. clear_of (take i placed) (snd (placed ! i)) (fst (placed ! i))"
    and "i < length placed" "j < length placed" "i \<noteq> j"
  shows "no_overlap (fst (placed ! i)) (snd (placed ! i)) (fst (placed ! j)) (snd (placed ! j))"
proof -
  have *: "no_overlap (fst (placed ! i)) (snd (placed ! i)) (fst (placed ! j)) (snd (placed ! j))"
    if "i < length placed" "j < i" for i j
  proof -
    have "placed ! j \<in> set (take i placed)" using that by (auto simp: in_set_conv_nth intro!: exI [of _ j])
    with assms(1) that show ?thesis by (auto simp: clear_of_def list_all_iff case_prod_unfold)
  qed
  consider "j < i" | "i < j" using assms(4) by linarith
  then show ?thesis using * [OF assms(2)] * [OF assms(3)] no_overlap_sym by cases metis+
qed

lemma slot_in_biggest_placed:
  assumes wf: "list_all shape_wf shapes" and idx: "map region_index shapes = [0..<length shapes]"
  shows "\<exists>starts m. slot_in_biggest_advice_first shapes = Some (starts, m) \<and>
      length starts = length shapes \<and> alloc_inv m (zip starts shapes) \<and>
      (\<forall>i<length shapes. \<forall>j<length shapes. i \<noteq> j \<longrightarrow>
         no_overlap (starts ! i) (shapes ! i) (starts ! j) (shapes ! j))"
proof -
  let ?sorted = "rev (sort_key advice_area shapes)"
  have "\<forall>sh\<in>set ?sorted. shape_wf sh" using wf by (simp add: list_all_iff)
  from slot_in_from_correct [OF alloc_inv_empty this] obtain placed m where
    p: "slot_in ?sorted = Some (placed, m)" "map snd placed = ?sorted" "alloc_inv m placed"
      "\<forall>i<length placed. first_row (clear_of (take i placed) (?sorted ! i)) (Some (fst (placed ! i)))"
    by (auto simp: slot_in_def)
  define out where "out = sort_key (\<lambda>(_, region). region_index region) placed"
  have dist: "distinct (map region_index shapes)" by (simp add: idx)
  have snd_out: "map snd out = shapes"
    unfolding out_def map_snd_sort_key p(2)
    using dist [unfolded distinct_map] by (intro sort_key_inj_key_eq) (simp_all add: idx)
  then have len: "length out = length shapes" by (metis length_map)
  have zip: "zip (map fst out) shapes = out" by (metis snd_out zip_map_fst_snd)
  have set_out: "set out = set placed" by (simp add: out_def)
  have snd_nth: "snd (placed ! i) = ?sorted ! i" if "i < length placed" for i
    using p(2) that by (metis nth_map)
  have clear: "\<forall>i<length placed. clear_of (take i placed) (snd (placed ! i)) (fst (placed ! i))"
    using p(4) snd_nth by (simp add: first_row_def)
  have "no_overlap (fst x) (snd x) (fst y) (snd y)" if "x \<in> set placed" "y \<in> set placed" "x \<noteq> y" for x y
    using that placed_no_overlap [OF clear] by (metis in_set_conv_nth)
  moreover have "out ! i \<noteq> out ! j" if "i < length shapes" "j < length shapes" "i \<noteq> j" for i j
  proof
    assume "out ! i = out ! j"
    then have "map snd out ! i = map snd out ! j" using that len by simp
    moreover have "distinct shapes" using dist by (simp add: distinct_map)
    ultimately show False using that by (simp add: snd_out nth_eq_iff_index_eq)
  qed
  moreover have "out ! i \<in> set placed" "shapes ! i = snd (out ! i)" if "i < length shapes" for i
    using that len nth_map [of i out snd] nth_mem [of i out] by (simp_all add: snd_out set_out)
  ultimately have "\<forall>i<length shapes. \<forall>j<length shapes. i \<noteq> j \<longrightarrow>
         no_overlap (map fst out ! i) (shapes ! i) (map fst out ! j) (shapes ! j)"
    by (simp add: len)
  moreover have "alloc_inv m (zip (map fst out) shapes)"
    using p(3) by (simp add: zip set_out alloc_inv_def)
  ultimately show ?thesis
    using p(1) len by (simp add: slot_in_biggest_advice_first_def out_def)
qed

text \<open>
  C15: the plan of the V1 floor planner gives every region of the measured circuit its starting row,
  in the order of the region indices, and two regions that share a column occupy disjoint rows.
\<close>

theorem slot_in_biggest_no_overlap:
  assumes "list_all shape_wf shapes" and "map region_index shapes = [0..<length shapes]"
  shows "\<exists>starts m. slot_in_biggest_advice_first shapes = Some (starts, m) \<and>
      length starts = length shapes \<and>
      (\<forall>i<length shapes. \<forall>j<length shapes. i \<noteq> j \<longrightarrow>
         no_overlap (starts ! i) (shapes ! i) (starts ! j) (shapes ! j))"
  using slot_in_biggest_placed [OF assms] by blast

theorem slot_in_biggest_no_overlap_witness:
  "\<exists>starts m. slot_in_biggest_advice_first sample_shapes = Some (starts, m) \<and> length starts = 3 \<and>
     no_overlap (starts ! 0) (sample_shapes ! 0) (starts ! 2) (sample_shapes ! 2)"
proof -
  have l: "length sample_shapes = 3" by (simp add: sample_shapes_def)
  have "map region_index sample_shapes = [0..<length sample_shapes]"
    by (simp add: sample_shapes_def upt_rec)
  from slot_in_biggest_no_overlap [OF sample_shapes_wf this] obtain starts m where
    o: "slot_in_biggest_advice_first sample_shapes = Some (starts, m)" "length starts = 3"
    and n: "\<forall>i<3. \<forall>j<3. i \<noteq> j \<longrightarrow> no_overlap (starts ! i) (sample_shapes ! i) (starts ! j) (sample_shapes ! j)"
    unfolding l by blast
  from n have "no_overlap (starts ! 0) (sample_shapes ! 0) (starts ! 2) (sample_shapes ! 2)" by simp
  with o show ?thesis by blast
qed

end
