(* ===== verification/Layouter.thy ===== *)
theory Layouter
  imports Permutation_Assembly Floor_Planner
begin

text \<open>
  Circuit synthesis during key generation: the \<open>Assembly\<close> of \<open>plonk/keygen.rs\<close> that receives the
  assignments, the table layouter of \<open>circuit/table_layouter.rs\<close>, and the two floor planners that
  drive it, \<open>V1\<close> of \<open>circuit/floor_planner/v1.rs\<close> and \<open>SimpleFloorPlanner\<close> of
  \<open>circuit/floor_planner/single_pass.rs\<close>.

  The closures a circuit passes to \<open>assign_region\<close> and \<open>assign_table\<close> are the sequences of calls
  they make; \<open>Fail\<close> is a closure that returns an error. A circuit is the sequence of its calls of
  the layouter. A typed column (\<open>Column<Advice>\<close>, \<open>Column<Fixed>\<close>) is a \<open>column\<close> of that type, a
  \<open>Value<V>\<close> is a \<open>'v option\<close>, a \<open>HashMap\<close> that is iterated over is an association list. Names and
  annotations are left out.
\<close>

section \<open>Errors\<close>

datatype table_error =
    ColumnNotAssigned nat
  | UnevenColumnLengths "nat \<times> nat" "nat \<times> nat"
  | UsedColumn nat
  | OverwriteDefault nat

datatype synth_error =
    Synthesis
  | NotEnoughRowsAvailable nat
  | NotEnoughColumnsForConstants
  | Perm_Error perm_error
  | Table_Error table_error

fun lift_error :: "('a \<Rightarrow> 'b) \<Rightarrow> ('a, 'c) outcome \<Rightarrow> ('b, 'c) outcome" where
  "lift_error f (Ok x) = Ok x"
| "lift_error f (Err e) = Err (f e)"
| "lift_error f Panic = Panic"

fun fold_outcome :: "('s \<Rightarrow> 'a \<Rightarrow> ('e, 's) outcome) \<Rightarrow> 'a list \<Rightarrow> 's \<Rightarrow> ('e, 's) outcome" where
  "fold_outcome f [] s = Ok s"
| "fold_outcome f (x # xs) s = bind_outcome (f s x) (fold_outcome f xs)"

section \<open>The assembly of key generation\<close>

record 'f key_assembly =
  ka_k :: nat
  ka_fixed :: "'f rational list list"
  ka_permutation :: assembly
  ka_selectors :: "bool list list"
  ka_usable_rows :: nat

definition ka_enable_selector :: "'f key_assembly \<Rightarrow> selector \<Rightarrow> nat \<Rightarrow> (synth_error, 'f key_assembly) outcome" where
  "ka_enable_selector a sel row =
     (if \<not> row < ka_usable_rows a then Err (NotEnoughRowsAvailable (ka_k a))
      else bind_outcome (of_option (set2 (ka_selectors a) (sel_index sel, row) True)) (\<lambda>sels.
           Ok (a\<lparr>ka_selectors := sels\<rparr>)))"

definition ka_query_instance :: "'f key_assembly \<Rightarrow> column \<Rightarrow> nat \<Rightarrow> (synth_error, 'f option) outcome" where
  "ka_query_instance a c row =
     (if \<not> row < ka_usable_rows a then Err (NotEnoughRowsAvailable (ka_k a)) else Ok None)"

definition ka_assign_advice ::
    "'f key_assembly \<Rightarrow> column \<Rightarrow> nat \<Rightarrow> 'f rational option \<Rightarrow> (synth_error, 'f key_assembly) outcome" where
  "ka_assign_advice a c row to = Ok a"

definition value_assign :: "'v option \<Rightarrow> (synth_error, 'v) outcome" where
  "value_assign v = (case v of None \<Rightarrow> Err Synthesis | Some x \<Rightarrow> Ok x)"

text \<open>The right-hand side of the assignment is evaluated before the cell is looked up.\<close>

definition ka_assign_fixed ::
    "'f key_assembly \<Rightarrow> column \<Rightarrow> nat \<Rightarrow> 'f rational option \<Rightarrow> (synth_error, 'f key_assembly) outcome" where
  "ka_assign_fixed a c row to =
     (if \<not> row < ka_usable_rows a then Err (NotEnoughRowsAvailable (ka_k a))
      else bind_outcome (value_assign to) (\<lambda>v.
           case set2 (ka_fixed a) (col_index c, row) v of
             None \<Rightarrow> Err (Perm_Error BoundsFailure)
           | Some fixed \<Rightarrow> Ok (a\<lparr>ka_fixed := fixed\<rparr>)))"

definition ka_copy ::
    "'f key_assembly \<Rightarrow> column \<Rightarrow> nat \<Rightarrow> column \<Rightarrow> nat \<Rightarrow> (synth_error, 'f key_assembly) outcome" where
  "ka_copy a left_column left_row right_column right_row =
     (if \<not> left_row < ka_usable_rows a \<or> \<not> right_row < ka_usable_rows a
      then Err (NotEnoughRowsAvailable (ka_k a))
      else bind_outcome (lift_error Perm_Error
             (asm_copy (ka_permutation a) left_column left_row right_column right_row)) (\<lambda>p.
           Ok (a\<lparr>ka_permutation := p\<rparr>)))"

definition ka_fill_from_row ::
    "'f key_assembly \<Rightarrow> column \<Rightarrow> nat \<Rightarrow> 'f rational option \<Rightarrow> (synth_error, 'f key_assembly) outcome" where
  "ka_fill_from_row a c from_row to =
     (if \<not> from_row < ka_usable_rows a then Err (NotEnoughRowsAvailable (ka_k a))
      else if \<not> col_index c < length (ka_fixed a) then Err (Perm_Error BoundsFailure)
      else bind_outcome (value_assign to) (\<lambda>filler.
           bind_outcome (fold_outcome (\<lambda>fixed row. of_option (set2 fixed (col_index c, row) filler))
             [from_row..<ka_usable_rows a] (ka_fixed a)) (\<lambda>fixed.
           Ok (a\<lparr>ka_fixed := fixed\<rparr>))))"

text \<open>
  The empty assembly of \<open>keygen_vk_with_k\<close>, for \<open>n\<close> rows; \<open>None\<close> is the underflow of the
  subtraction or a panic of \<open>blinding_factors\<close>.
\<close>

definition key_assembly_new :: "nat \<Rightarrow> nat \<Rightarrow> 'f constraint_system \<Rightarrow> 'f key_assembly option" where
  "key_assembly_new k n cs =
     do { bf \<leftarrow> blinding_factors cs;
          if n < bf + 1 then None
          else Some \<lparr>ka_k = k, ka_fixed = replicate (num_fixed_columns cs) (replicate n Zero),
                 ka_permutation = assembly_new n (permutation cs),
                 ka_selectors = replicate (num_selectors cs) (replicate n False),
                 ka_usable_rows = n - (bf + 1)\<rparr> }"

section \<open>Calls of a region\<close>

record cell =
  cell_region :: nat
  cell_offset :: nat
  cell_column :: column

datatype 'f region_call =
    Enable_Selector selector nat
  | Assign_Advice column nat "'f rational option"
  | Assign_Advice_From_Constant column nat "'f rational"
  | Assign_Advice_From_Instance column nat column nat
  | Instance_Value column nat
  | Assign_Fixed column nat "'f rational option"
  | Constrain_Constant cell "'f rational"
  | Constrain_Equal cell cell
  | Fail synth_error

text \<open>\<open>RegionLayouter for RegionShape\<close>: the measurement of a region.\<close>

fun shape_call :: "region_shape \<Rightarrow> 'f region_call \<Rightarrow> (synth_error, region_shape) outcome" where
  "shape_call shape (Enable_Selector sel offset) = Ok (shape_touch shape (RC_Selector sel) offset)"
| "shape_call shape (Assign_Advice c offset to) = Ok (shape_touch shape (RC_Column c) offset)"
| "shape_call shape (Assign_Advice_From_Constant c offset v) = Ok (shape_touch shape (RC_Column c) offset)"
| "shape_call shape (Assign_Advice_From_Instance inst row c offset) = Ok (shape_touch shape (RC_Column c) offset)"
| "shape_call shape (Instance_Value inst row) = Ok shape"
| "shape_call shape (Assign_Fixed c offset to) = Ok (shape_touch shape (RC_Column c) offset)"
| "shape_call shape (Constrain_Constant c v) = Ok shape"
| "shape_call shape (Constrain_Equal l r) = Ok shape"
| "shape_call shape (Fail e) = Err e"

definition measure_region :: "nat \<Rightarrow> 'f region_call list \<Rightarrow> (synth_error, region_shape) outcome" where
  "measure_region i calls = fold_outcome shape_call calls (region_shape_new i)"

text \<open>The absolute row of a cell: \<open>*regions[*region_index] + offset\<close>.\<close>

definition row_at :: "nat list \<Rightarrow> nat \<Rightarrow> nat \<Rightarrow> (synth_error, nat) outcome" where
  "row_at regions i offset = bind_outcome (of_option (index_opt regions i)) (\<lambda>s. Ok (s + offset))"

definition copy_cells ::
    "nat list \<Rightarrow> 'f key_assembly \<Rightarrow> cell \<Rightarrow> cell \<Rightarrow> (synth_error, 'f key_assembly) outcome" where
  "copy_cells regions a left right =
     bind_outcome (row_at regions (cell_region left) (cell_offset left)) (\<lambda>left_row.
     bind_outcome (row_at regions (cell_region right) (cell_offset right)) (\<lambda>right_row.
     ka_copy a (cell_column left) left_row (cell_column right) right_row))"

text \<open>
  \<open>RegionLayouter for V1Region\<close>, on the assembly and the constants collected so far. The code of
  \<open>SingleChipLayouterRegion\<close> is the same on the regions and constants of its layouter.
\<close>

type_synonym 'f constants = "('f rational \<times> cell) list"

fun region_layouter_call ::
    "nat list \<Rightarrow> nat \<Rightarrow> 'f key_assembly \<times> 'f constants \<Rightarrow> 'f region_call
     \<Rightarrow> (synth_error, 'f key_assembly \<times> 'f constants) outcome" where
  "region_layouter_call regions i (a, ks) (Enable_Selector sel offset) =
     bind_outcome (row_at regions i offset) (\<lambda>row.
     bind_outcome (ka_enable_selector a sel row) (\<lambda>a. Ok (a, ks)))"
| "region_layouter_call regions i (a, ks) (Assign_Advice c offset to) =
     bind_outcome (row_at regions i offset) (\<lambda>row.
     bind_outcome (ka_assign_advice a c row to) (\<lambda>a. Ok (a, ks)))"
| "region_layouter_call regions i (a, ks) (Assign_Advice_From_Constant c offset v) =
     bind_outcome (row_at regions i offset) (\<lambda>row.
     bind_outcome (ka_assign_advice a c row (Some v)) (\<lambda>a.
     Ok (a, ks @ [(v, \<lparr>cell_region = i, cell_offset = offset, cell_column = c\<rparr>)])))"
| "region_layouter_call regions i (a, ks) (Assign_Advice_From_Instance inst row c offset) =
     bind_outcome (ka_query_instance a inst row) (\<lambda>v.
     bind_outcome (row_at regions i offset) (\<lambda>r.
     bind_outcome (ka_assign_advice a c r (map_option Trivial v)) (\<lambda>a.
     bind_outcome (row_at regions i offset) (\<lambda>r.
     bind_outcome (ka_copy a c r inst row) (\<lambda>a. Ok (a, ks))))))"
| "region_layouter_call regions i (a, ks) (Instance_Value inst row) =
     bind_outcome (ka_query_instance a inst row) (\<lambda>v. Ok (a, ks))"
| "region_layouter_call regions i (a, ks) (Assign_Fixed c offset to) =
     bind_outcome (row_at regions i offset) (\<lambda>row.
     bind_outcome (ka_assign_fixed a c row to) (\<lambda>a. Ok (a, ks)))"
| "region_layouter_call regions i (a, ks) (Constrain_Constant c v) = Ok (a, ks @ [(v, c)])"
| "region_layouter_call regions i (a, ks) (Constrain_Equal l r) =
     bind_outcome (copy_cells regions a l r) (\<lambda>a. Ok (a, ks))"
| "region_layouter_call regions i (a, ks) (Fail e) = Err e"

section \<open>Tables\<close>

text \<open>A call of \<open>assign_cell\<close>: the column, the offset and the value.\<close>

type_synonym 'f table_call = "nat \<times> nat \<times> 'f rational option"

type_synonym 'f default_and_assigned = "(nat \<times> 'f rational option option \<times> bool list) list"

definition table_entry :: "'f default_and_assigned \<Rightarrow> nat \<Rightarrow> 'f rational option option \<times> bool list" where
  "table_entry da c = (case map_of da c of None \<Rightarrow> (None, []) | Some e \<Rightarrow> e)"

fun table_update ::
    "nat \<Rightarrow> 'f rational option option \<times> bool list \<Rightarrow> 'f default_and_assigned \<Rightarrow> 'f default_and_assigned" where
  "table_update c e [] = [(c, e)]"
| "table_update c e ((d, x) # da) = (if c = d then (d, e) # da else (d, x) # table_update c e da)"

definition mark_assigned :: "bool list \<Rightarrow> nat \<Rightarrow> bool list" where
  "mark_assigned assigned offset =
     (if length assigned \<le> offset
      then assigned @ replicate (offset + 1 - length assigned) False else assigned)[offset := True]"

definition table_assign_cell ::
    "nat list \<Rightarrow> 'f key_assembly \<times> 'f default_and_assigned \<Rightarrow> 'f table_call
     \<Rightarrow> (synth_error, 'f key_assembly \<times> 'f default_and_assigned) outcome" where
  "table_assign_cell used_columns st call =
     (case (st, call) of ((a, da), (c, offset, to)) \<Rightarrow>
        if c \<in> set used_columns then Err (Table_Error (UsedColumn c))
        else
          let (default_v, assigned) = table_entry da c
          in bind_outcome (ka_assign_fixed a (Column c Any_Fixed) offset to) (\<lambda>a.
             if offset = 0 \<and> default_v \<noteq> None then Err (Table_Error (OverwriteDefault c))
             else Ok (a, table_update c
                      (if offset = 0 then Some to else default_v, mark_assigned assigned offset) da)))"

definition column_length ::
    "nat \<times> 'f rational option option \<times> bool list \<Rightarrow> (synth_error, nat \<times> nat) outcome" where
  "column_length e =
     (case e of (c, default_v, assigned) \<Rightarrow>
        if default_v = None \<or> assigned = [] then Err (Table_Error (ColumnNotAssigned c))
        else if list_all id assigned then Ok (c, length assigned)
        else Err (Table_Error (ColumnNotAssigned c)))"

definition common_length :: "nat option \<times> nat \<Rightarrow> nat \<times> nat \<Rightarrow> (synth_error, nat option \<times> nat) outcome" where
  "common_length acc e =
     (if snd acc = 0 \<or> snd acc = snd e then Ok (Some (fst e), snd e)
      else case fst acc of
             None \<Rightarrow> Panic
           | Some c \<Rightarrow> Err (Table_Error (if e \<le> (c, snd acc) then UnevenColumnLengths e (c, snd acc)
                                         else UnevenColumnLengths (c, snd acc) e)))"

definition compute_table_lengths :: "'f default_and_assigned \<Rightarrow> (synth_error, nat) outcome" where
  "compute_table_lengths da =
     bind_outcome (map_outcome_list column_length da) (\<lambda>column_lengths.
     bind_outcome (fold_outcome common_length column_lengths (None, 0)) (\<lambda>acc. Ok (snd acc)))"

definition fill_column ::
    "nat \<Rightarrow> 'f key_assembly \<Rightarrow> nat \<times> 'f rational option option \<times> bool list
     \<Rightarrow> (synth_error, 'f key_assembly) outcome" where
  "fill_column first_unused a e =
     bind_outcome (of_option (fst (snd e))) (\<lambda>default_val.
     ka_fill_from_row a (Column (fst e) Any_Fixed) first_unused default_val)"

text \<open>\<open>assign_table\<close>, the same in both floor planners.\<close>

definition assign_table ::
    "'f key_assembly \<times> nat list \<Rightarrow> 'f table_call list \<Rightarrow> (synth_error, 'f key_assembly \<times> nat list) outcome" where
  "assign_table st calls =
     (case st of (a, table_columns) \<Rightarrow>
        bind_outcome (fold_outcome (table_assign_cell table_columns) calls (a, [])) (\<lambda>(a, da).
        bind_outcome (compute_table_lengths da) (\<lambda>first_unused.
        bind_outcome (fold_outcome (fill_column first_unused) da a) (\<lambda>a.
        Ok (a, table_columns @ map fst da)))))"

section \<open>The V1 floor planner\<close>

datatype 'f layout_call =
    Assign_Region "'f region_call list"
  | Assign_Table "'f table_call list"
  | Constrain_Instance cell column nat

record 'f v1_plan =
  plan_cs :: "'f key_assembly"
  plan_regions :: "nat list"
  plan_constants :: "'f constants"
  plan_table_columns :: "nat list"
  plan_region_index :: nat

fun measure_call :: "region_shape list \<Rightarrow> 'f layout_call \<Rightarrow> (synth_error, region_shape list) outcome" where
  "measure_call shapes (Assign_Region calls) =
     bind_outcome (measure_region (length shapes) calls) (\<lambda>shape. Ok (shapes @ [shape]))"
| "measure_call shapes (Assign_Table calls) = Ok shapes"
| "measure_call shapes (Constrain_Instance c inst row) = Ok shapes"

fun assign_call :: "'f v1_plan \<Rightarrow> 'f layout_call \<Rightarrow> (synth_error, 'f v1_plan) outcome" where
  "assign_call plan (Assign_Region calls) =
     bind_outcome (fold_outcome (region_layouter_call (plan_regions plan) (plan_region_index plan)) calls
         (plan_cs plan, plan_constants plan)) (\<lambda>(a, ks).
     Ok (plan\<lparr>plan_cs := a, plan_constants := ks, plan_region_index := plan_region_index plan + 1\<rparr>))"
| "assign_call plan (Assign_Table calls) =
     bind_outcome (assign_table (plan_cs plan, plan_table_columns plan) calls) (\<lambda>(a, cols).
     Ok (plan\<lparr>plan_cs := a, plan_table_columns := cols\<rparr>))"
| "assign_call plan (Constrain_Instance c inst row) =
     bind_outcome (row_at (plan_regions plan) (cell_region c) (cell_offset c)) (\<lambda>r.
     bind_outcome (ka_copy (plan_cs plan) (cell_column c) r inst row) (\<lambda>a.
     Ok (plan\<lparr>plan_cs := a\<rparr>)))"

text \<open>The number of rows of the plan; \<open>cols\<close> are the keys of the map of allocations.\<close>

definition first_unassigned_row :: "circuit_allocations \<Rightarrow> region_column list \<Rightarrow> nat" where
  "first_unassigned_row m cols = fold max (map (\<lambda>c. unbounded_interval_start (alloc_of m c)) cols) 0"

definition constant_positions :: "circuit_allocations \<Rightarrow> nat \<Rightarrow> column list \<Rightarrow> (column \<times> nat) list option" where
  "constant_positions m rows const_cols =
     map_option concat (those (concat (map (\<lambda>c.
       map (\<lambda>e. map_option (map (Pair c)) (space_range e))
         (free_intervals (alloc_of m (RC_Column c)) 0 (Some rows))) const_cols)))"

definition assign_constant ::
    "nat list \<Rightarrow> 'f key_assembly \<Rightarrow> (column \<times> nat) \<times> ('f rational \<times> cell) \<Rightarrow> (synth_error, 'f key_assembly) outcome" where
  "assign_constant regions a e =
     (case e of ((c, row), (v, advice)) \<Rightarrow>
        bind_outcome (ka_assign_fixed a c row (Some v)) (\<lambda>a.
        bind_outcome (row_at regions (cell_region advice) (cell_offset advice)) (\<lambda>r.
        ka_copy a c row (cell_column advice) r)))"

text \<open>The columns that occur in the measured shapes are the keys of the map of allocations.\<close>

definition all_columns :: "region_shape list \<Rightarrow> region_column list" where
  "all_columns shapes = remdups (concat (map shape_columns shapes))"

definition v1_synthesize ::
    "column list \<Rightarrow> 'f layout_call list \<Rightarrow> 'f key_assembly \<Rightarrow> (synth_error, 'f key_assembly) outcome" where
  "v1_synthesize const_cols circuit a =
     bind_outcome (fold_outcome measure_call circuit []) (\<lambda>shapes.
     bind_outcome (of_option (slot_in_biggest_advice_first shapes)) (\<lambda>(regions, column_allocations).
     bind_outcome (fold_outcome assign_call circuit
         \<lparr>plan_cs = a, plan_regions = regions, plan_constants = [], plan_table_columns = [],
          plan_region_index = 0\<rparr>) (\<lambda>plan.
     bind_outcome (of_option (constant_positions column_allocations
         (first_unassigned_row column_allocations (all_columns shapes)) const_cols)) (\<lambda>positions.
     if length positions < length (plan_constants plan) then Err NotEnoughColumnsForConstants
     else fold_outcome (assign_constant (plan_regions plan)) (zip positions (plan_constants plan))
            (plan_cs plan)))))"

end
