(* ===== verification/Layouter_Correct.thy ===== *)
theory Layouter_Correct
  imports Layouter
begin

text \<open>
  What synthesis leaves in the assembly. Both floor planners are shown to perform a sequence of
  primitive writes, one per call of the circuit at the row \<open>start + offset\<close> of the plan; the effect
  of such a sequence on the fixed columns, the selectors and the copy constraints is described once.
  Together with the disjointness of the regions this gives the values of all fixed cells, the rows
  of the selectors and the equivalence classes of the copy constraints.
\<close>

section \<open>Sequences of fallible steps\<close>

lemma fold_outcome_append [simp]:
  "fold_outcome f (xs @ ys) s = bind_outcome (fold_outcome f xs s) (fold_outcome f ys)"
proof (induction xs arbitrary: s)
  case (Cons x xs)
  then show ?case by (cases "f s x") simp_all
qed simp

lemma fold_outcome_inv:
  "\<lbrakk>fold_outcome f xs s = Ok s'; P s; \<And>x s s'. \<lbrakk>x \<in> set xs; P s; f s x = Ok s'\<rbrakk> \<Longrightarrow> P s'\<rbrakk> \<Longrightarrow> P s'"
  by (induction xs arbitrary: s) (auto simp: outcome_simps)

lemma of_option_Ok [outcome_simps]: "of_option x = Ok y \<longleftrightarrow> x = Some y"
  by (auto simp: of_option_def split: option.splits)

lemma lift_error_Ok [outcome_simps]: "lift_error f x = Ok y \<longleftrightarrow> x = Ok y"
  by (cases x) auto

lemma value_assign_Ok [outcome_simps]: "value_assign x = Ok y \<longleftrightarrow> x = Some y"
  by (auto simp: value_assign_def split: option.splits)

lemma row_at_Ok [outcome_simps]: "row_at rs i off = Ok r \<longleftrightarrow> i < length rs \<and> r = rs ! i + off"
  by (auto simp: row_at_def outcome_simps index_opt_def)

lemma get2_set2: "set2 xs c v = Some ys \<Longrightarrow> get2 ys d = (if d = c then Some v else get2 xs d)"
  by (cases c; cases d) (auto simp: set2_def get2_def index_opt_def nth_list_update split: option.splits if_splits bind_splits)

section \<open>Primitive writes\<close>

datatype 'f prim =
    P_Selector nat nat
  | P_Fixed nat nat "'f rational option"
  | P_Fill nat nat "'f rational option"
  | P_Copy column nat column nat

fun exec_prim :: "'f key_assembly \<Rightarrow> 'f prim \<Rightarrow> (synth_error, 'f key_assembly) outcome" where
  "exec_prim a (P_Selector s row) = ka_enable_selector a \<lparr>sel_index = s, is_simple = False\<rparr> row"
| "exec_prim a (P_Fixed c row v) = ka_assign_fixed a (Column c Any_Fixed) row v"
| "exec_prim a (P_Fill c row v) = ka_fill_from_row a (Column c Any_Fixed) row v"
| "exec_prim a (P_Copy lc lr rc rr) = ka_copy a lc lr rc rr"

abbreviation exec_prims :: "'f prim list \<Rightarrow> 'f key_assembly \<Rightarrow> (synth_error, 'f key_assembly) outcome" where
  "exec_prims ps a \<equiv> fold_outcome exec_prim ps a"

fun touches :: "'f prim \<Rightarrow> nat \<Rightarrow> nat \<Rightarrow> bool" where
  "touches (P_Fixed c row v) c' row' = (c = c' \<and> row = row')"
| "touches (P_Fill c row v) c' row' = (c = c')"
| "touches _ c' row' = False"

lemma ka_fill_frame:
  assumes "ka_fill_from_row a (Column c Any_Fixed) from v = Ok a'"
  shows "ka_selectors a' = ka_selectors a" and "ka_permutation a' = ka_permutation a"
    and "c \<noteq> d \<Longrightarrow> get2 (ka_fixed a') (d, row) = get2 (ka_fixed a) (d, row)"
proof -
  obtain x fixed where x: "fold_outcome (\<lambda>fixed row. of_option (set2 fixed (c, row) x))
      [from..<ka_usable_rows a] (ka_fixed a) = (Ok fixed :: (synth_error, _) outcome)" "a\<lparr>ka_fixed := fixed\<rparr> = a'"
    using assms by (simp add: ka_fill_from_row_def outcome_simps split: if_splits) blast
  from x(2) show "ka_selectors a' = ka_selectors a" "ka_permutation a' = ka_permutation a" by auto
  have "get2 fixed (d, row) = get2 (ka_fixed a) (d, row)" if "c \<noteq> d"
    by (rule fold_outcome_inv [OF x(1)]) (use that in \<open>auto simp: outcome_simps get2_set2\<close>)
  then show "c \<noteq> d \<Longrightarrow> get2 (ka_fixed a') (d, row) = get2 (ka_fixed a) (d, row)" using x(2) by auto
qed

lemma exec_prim_fixed:
  assumes "exec_prim a p = Ok a'" and "\<not> touches p c row"
  shows "get2 (ka_fixed a') (c, row) = get2 (ka_fixed a) (c, row)"
  using assms
  by (cases p) (auto simp: ka_enable_selector_def ka_assign_fixed_def ka_copy_def outcome_simps get2_set2 ka_fill_frame
      split: if_splits option.splits)

lemma exec_prims_frame:
  assumes "exec_prims ps a = Ok a'" and "\<And>p. p \<in> set ps \<Longrightarrow> \<not> touches p c row"
  shows "get2 (ka_fixed a') (c, row) = get2 (ka_fixed a) (c, row)"
  by (rule fold_outcome_inv [OF assms(1)]) (auto simp: exec_prim_fixed assms(2))

lemma exec_prims_last:
  assumes "exec_prims (xs @ P_Fixed c row v # ys) a = Ok a'" and "\<And>p. p \<in> set ys \<Longrightarrow> \<not> touches p c row"
  shows "get2 (ka_fixed a') (c, row) = v \<and> v \<noteq> None"
proof -
  obtain a1 a2 where "exec_prim a1 (P_Fixed c row v) = Ok a2" and ys: "exec_prims ys a2 = Ok a'"
    using assms(1) by (auto simp: outcome_simps)
  then have "get2 (ka_fixed a2) (c, row) = v \<and> v \<noteq> None"
    by (auto simp: ka_assign_fixed_def outcome_simps get2_set2 split: if_splits option.splits)
  then show ?thesis using exec_prims_frame [OF ys assms(2)] by simp
qed

lemma exec_prim_selectors:
  assumes "exec_prim a p = Ok a'"
  shows "get2 (ka_selectors a') (s, row) = Some True \<longleftrightarrow>
         get2 (ka_selectors a) (s, row) = Some True \<or> p = P_Selector s row"
  using assms
  by (cases p) (auto simp: ka_enable_selector_def ka_assign_fixed_def ka_copy_def outcome_simps get2_set2 ka_fill_frame
      split: if_splits option.splits)

lemma exec_prims_selectors:
  "exec_prims ps a = Ok a' \<Longrightarrow> get2 (ka_selectors a') (s, row) = Some True \<longleftrightarrow>
     get2 (ka_selectors a) (s, row) = Some True \<or> P_Selector s row \<in> set ps"
proof (induction ps arbitrary: a)
  case (Cons p ps)
  from Cons.prems obtain b where b: "exec_prim a p = Ok b" "exec_prims ps b = Ok a'"
    by (auto simp: outcome_simps)
  from Cons.IH [OF b(2)] exec_prim_selectors [OF b(1)] show ?case by auto
qed simp

text \<open>The cells of a copy, as positions in the permutation argument.\<close>

definition copy_refs :: "column list \<Rightarrow> 'f prim \<Rightarrow> (cell_ref \<times> cell_ref) set" where
  "copy_refs p x = {((i, lr), (j, rr)) |i lr j rr lc rc. x = P_Copy lc lr rc rr \<and>
     position (\<lambda>c. c = lc) p = Some i \<and> position (\<lambda>c. c = rc) p = Some j}"

lemma exec_prim_copies:
  assumes "exec_prim a x = Ok a'" and "assembled n p (ka_permutation a) cs"
  shows "\<exists>cs'. assembled n p (ka_permutation a') cs' \<and> set cs' = set cs \<union> copy_refs p x"
proof (cases x)
  case (P_Copy lc lr rc rr)
  with assms(1) obtain q where q: "asm_copy (ka_permutation a) lc lr rc rr = Ok q" "ka_permutation a' = q"
    by (auto simp: ka_copy_def outcome_simps split: if_splits)
  have "asm_columns (ka_permutation a) = p" using assembled_inv [OF assms(2)] by simp
  with q(1) obtain i j where "position (\<lambda>c. c = lc) p = Some i" "position (\<lambda>c. c = rc) p = Some j"
    by (auto simp: asm_copy_def split: option.splits)
  with assembled_copy [OF assms(2) q(1) this] q(2) P_Copy show ?thesis
    by (intro exI [of _ "((i, lr), (j, rr)) # cs"]) (auto simp: copy_refs_def)
next
  case (P_Fill c row v)
  with assms show ?thesis by (intro exI [of _ cs]) (auto simp: ka_fill_frame copy_refs_def)
qed (use assms in \<open>auto simp: ka_enable_selector_def ka_assign_fixed_def outcome_simps copy_refs_def
      split: if_splits option.splits intro!: exI [of _ cs]\<close>)

lemma exec_prims_copies:
  "\<lbrakk>exec_prims xs a = Ok a'; assembled n p (ka_permutation a) cs\<rbrakk> \<Longrightarrow>
    \<exists>cs'. assembled n p (ka_permutation a') cs' \<and> set cs' = set cs \<union> (\<Union>x\<in>set xs. copy_refs p x)"
proof (induction xs arbitrary: a cs)
  case (Cons x xs)
  from Cons.prems(1) obtain a1 where a1: "exec_prim a x = Ok a1" "exec_prims xs a1 = Ok a'"
    by (auto simp: outcome_simps)
  obtain cs1 where "assembled n p (ka_permutation a1) cs1" "set cs1 = set cs \<union> copy_refs p x"
    using exec_prim_copies [OF a1(1) Cons.prems(2)] by blast
  with Cons.IH [OF a1(2)] show ?case by fastforce
qed auto

section \<open>The writes of a circuit\<close>

definition cell_row :: "nat list \<Rightarrow> cell \<Rightarrow> nat" where
  "cell_row regions c = regions ! cell_region c + cell_offset c"

fun call_prims :: "nat list \<Rightarrow> nat \<Rightarrow> 'f region_call \<Rightarrow> 'f prim list" where
  "call_prims regions i (Enable_Selector sel offset) = [P_Selector (sel_index sel) (regions ! i + offset)]"
| "call_prims regions i (Assign_Fixed c offset v) = [P_Fixed (col_index c) (regions ! i + offset) v]"
| "call_prims regions i (Assign_Advice_From_Instance inst row c offset) = [P_Copy c (regions ! i + offset) inst row]"
| "call_prims regions i (Constrain_Equal l r) =
     [P_Copy (cell_column l) (cell_row regions l) (cell_column r) (cell_row regions r)]"
| "call_prims regions i _ = []"

fun call_constants :: "nat \<Rightarrow> 'f region_call \<Rightarrow> 'f constants" where
  "call_constants i (Assign_Advice_From_Constant c offset v) =
     [(v, \<lparr>cell_region = i, cell_offset = offset, cell_column = c\<rparr>)]"
| "call_constants i (Constrain_Constant c v) = [(v, c)]"
| "call_constants i _ = []"

definition region_prims :: "nat list \<Rightarrow> nat \<Rightarrow> 'f region_call list \<Rightarrow> 'f prim list" where
  "region_prims regions i calls = concat (map (call_prims regions i) calls)"

definition region_constants :: "nat \<Rightarrow> 'f region_call list \<Rightarrow> 'f constants" where
  "region_constants i calls = concat (map (call_constants i) calls)"

lemma exec_prims_single [simp]: "exec_prims [p] a = exec_prim a p"
  by (cases "exec_prim a p") simp_all

lemma ka_enable_selector_cong:
  "sel_index s = sel_index s' \<Longrightarrow> ka_enable_selector a s row = ka_enable_selector a s' row"
  by (simp add: ka_enable_selector_def)

lemma ka_assign_fixed_cong:
  "col_index c = col_index c' \<Longrightarrow> ka_assign_fixed a c row v = ka_assign_fixed a c' row v"
  by (simp add: ka_assign_fixed_def)

lemma region_layouter_call_prims:
  assumes "region_layouter_call regions i (a, ks) call = Ok (a', ks')"
  shows "exec_prims (call_prims regions i call) a = Ok a' \<and> ks' = ks @ call_constants i call"
proof (cases call)
  case (Enable_Selector sel off)
  with assms ka_enable_selector_cong [of sel "\<lparr>sel_index = sel_index sel, is_simple = False\<rparr>" a]
  show ?thesis by (auto simp: outcome_simps)
next
  case (Assign_Fixed c off v)
  with assms ka_assign_fixed_cong [of c "Column (col_index c) Any_Fixed" a]
  show ?thesis by (auto simp: outcome_simps)
qed (use assms in \<open>auto simp: outcome_simps ka_assign_advice_def copy_cells_def cell_row_def\<close>)

lemma region_calls_prims:
  "fold_outcome (region_layouter_call regions i) calls (a, ks) = Ok (a', ks') \<Longrightarrow>
    exec_prims (region_prims regions i calls) a = Ok a' \<and> ks' = ks @ region_constants i calls"
proof (induction calls arbitrary: a ks)
  case Nil
  then show ?case by (simp add: region_prims_def region_constants_def)
next
  case (Cons call calls)
  then obtain a1 ks1 where "region_layouter_call regions i (a, ks) call = Ok (a1, ks1)"
    "fold_outcome (region_layouter_call regions i) calls (a1, ks1) = Ok (a', ks')"
    by (auto simp: outcome_simps)
  with Cons.IH [of a1 ks1] region_layouter_call_prims [of regions i a ks call a1 ks1] show ?case
    by (simp add: region_prims_def region_constants_def)
qed

text \<open>The writes of a table are confined to its columns.\<close>

fun in_columns :: "nat set \<Rightarrow> 'f prim \<Rightarrow> bool" where
  "in_columns C (P_Fixed c row v) = (c \<in> C)"
| "in_columns C (P_Fill c row v) = (c \<in> C)"
| "in_columns C _ = False"

definition confined :: "nat set \<Rightarrow> 'f key_assembly \<Rightarrow> 'f key_assembly \<Rightarrow> bool" where
  "confined C a a' \<longleftrightarrow> (\<exists>ps. exec_prims ps a = Ok a' \<and> (\<forall>p\<in>set ps. in_columns C p))"

lemma confined_refl: "confined C a a"
  unfolding confined_def by (rule exI [of _ "[]"]) simp

lemma confined_step: "\<lbrakk>confined C a b; exec_prim b p = Ok c; in_columns C p\<rbrakk> \<Longrightarrow> confined C a c"
  unfolding confined_def by (elim exE conjE, rule_tac x = "ps @ [p]" in exI) auto

lemma fst_table_update: "fst ` set (table_update c e da) = insert c (fst ` set da)"
  by (induction c e da rule: table_update.induct) auto

lemma table_assign_cell_confined:
  assumes "table_assign_cell used (b, da) call = Ok (b', da')" and "confined C a b" "fst call \<in> C"
    and "fst ` set da \<subseteq> C"
  shows "confined C a b' \<and> fst ` set da' \<subseteq> C"
proof -
  obtain c off to where call: "call = (c, off, to)" by (cases call)
  then obtain e where e: "exec_prim b (P_Fixed c off to) = Ok b'" "da' = table_update c e da"
    using assms(1) by (auto simp: table_assign_cell_def outcome_simps case_prod_unfold Let_def split: if_splits)
  from confined_step [OF assms(2) e(1)] assms(3,4) call show ?thesis
    by (simp add: e(2) fst_table_update)
qed

lemma assign_table_confined:
  assumes "assign_table (a, tcs) calls = Ok (a', tcs')"
  shows "confined (fst ` set calls) a a'"
proof -
  let ?C = "fst ` set calls"
  obtain b da len where cells: "fold_outcome (table_assign_cell tcs) calls (a, []) = Ok (b, da)"
    and fill: "fold_outcome (fill_column len) da b = Ok a'"
    using assms by (auto simp: assign_table_def outcome_simps)
  have "case (b, da) of (b, da) \<Rightarrow> confined ?C a b \<and> fst ` set da \<subseteq> ?C"
    by (rule fold_outcome_inv [OF cells]) (auto simp: confined_refl dest: table_assign_cell_confined [where C = ?C])
  then have b: "confined ?C a b" "fst ` set da \<subseteq> ?C" by auto
  show ?thesis
  proof (rule fold_outcome_inv [where P = "confined ?C a", OF fill b(1)])
    fix e s s'
    assume e: "e \<in> set da" "confined ?C a s" "fill_column len s e = Ok s'"
    then obtain d where "exec_prim s (P_Fill (fst e) len d) = Ok s'"
      by (auto simp: fill_column_def outcome_simps)
    moreover have "fst e \<in> ?C" using e(1) b(2) by blast
    ultimately show "confined ?C a s'" using confined_step [OF e(2), of "P_Fill (fst e) len d" s'] by simp
  qed
qed

fun layout_prims :: "nat list \<Rightarrow> nat \<Rightarrow> 'f layout_call list \<Rightarrow> 'f prim list \<Rightarrow> bool" where
  "layout_prims regions k [] ps = (ps = [])"
| "layout_prims regions k (Assign_Region calls # circuit) ps =
     (\<exists>qs. ps = region_prims regions k calls @ qs \<and> layout_prims regions (Suc k) circuit qs)"
| "layout_prims regions k (Assign_Table calls # circuit) ps =
     (\<exists>ts qs. ps = ts @ qs \<and> (\<forall>p\<in>set ts. in_columns (fst ` set calls) p) \<and> layout_prims regions k circuit qs)"
| "layout_prims regions k (Constrain_Instance c inst row # circuit) ps =
     (\<exists>qs. ps = P_Copy (cell_column c) (cell_row regions c) inst row # qs \<and> layout_prims regions k circuit qs)"

fun regions_of :: "'f layout_call list \<Rightarrow> 'f region_call list list" where
  "regions_of [] = []"
| "regions_of (Assign_Region calls # circuit) = calls # regions_of circuit"
| "regions_of (_ # circuit) = regions_of circuit"

fun constants_from :: "nat \<Rightarrow> 'f region_call list list \<Rightarrow> 'f constants" where
  "constants_from k [] = []"
| "constants_from k (calls # rs) = region_constants k calls @ constants_from (Suc k) rs"

lemma assign_calls_prims:
  "fold_outcome assign_call circuit plan = Ok plan' \<Longrightarrow>
    \<exists>ps. layout_prims (plan_regions plan) (plan_region_index plan) circuit ps \<and>
      exec_prims ps (plan_cs plan) = Ok (plan_cs plan') \<and> plan_regions plan' = plan_regions plan \<and>
      plan_constants plan' = plan_constants plan @ constants_from (plan_region_index plan) (regions_of circuit)"
proof (induction circuit arbitrary: plan)
  case Nil
  then show ?case by simp
next
  case (Cons call circuit)
  from Cons.prems obtain mid where mid: "assign_call plan call = Ok mid"
    and rest: "fold_outcome assign_call circuit mid = Ok plan'" by (auto simp: outcome_simps)
  from Cons.IH [OF rest] obtain qs where qs: "layout_prims (plan_regions mid) (plan_region_index mid) circuit qs"
      "exec_prims qs (plan_cs mid) = Ok (plan_cs plan')" "plan_regions plan' = plan_regions mid"
      "plan_constants plan' = plan_constants mid @ constants_from (plan_region_index mid) (regions_of circuit)"
    by blast
  show ?case
  proof (cases call)
    case (Assign_Region calls)
    with mid obtain a ks where
      "fold_outcome (region_layouter_call (plan_regions plan) (plan_region_index plan)) calls
         (plan_cs plan, plan_constants plan) = Ok (a, ks)"
      and m: "mid = plan\<lparr>plan_cs := a, plan_constants := ks, plan_region_index := plan_region_index plan + 1\<rparr>"
      by (auto simp: outcome_simps)
    from region_calls_prims [OF this(1)] m qs Assign_Region show ?thesis
      by (intro exI [of _ "region_prims (plan_regions plan) (plan_region_index plan) calls @ qs"])
        (simp add: outcome_simps)
  next
    case (Assign_Table calls)
    with mid obtain a cols where "assign_table (plan_cs plan, plan_table_columns plan) calls = Ok (a, cols)"
      and m: "mid = plan\<lparr>plan_cs := a, plan_table_columns := cols\<rparr>" by (auto simp: outcome_simps)
    from assign_table_confined [OF this(1)] obtain ts where
      "exec_prims ts (plan_cs plan) = Ok a" "\<forall>p\<in>set ts. in_columns (fst ` set calls) p"
      by (auto simp: confined_def)
    with m qs Assign_Table show ?thesis
      by (intro exI [of _ "ts @ qs"]) (auto simp: outcome_simps)
  next
    case (Constrain_Instance c inst row)
    with mid qs show ?thesis
      by (intro exI [of _ "P_Copy (cell_column c) (cell_row (plan_regions plan) c) inst row # qs"])
        (auto simp: outcome_simps cell_row_def)
  qed
qed

fun call_touch :: "'f region_call \<Rightarrow> (region_column \<times> nat) option" where
  "call_touch (Enable_Selector sel offset) = Some (RC_Selector sel, offset)"
| "call_touch (Assign_Advice c offset to) = Some (RC_Column c, offset)"
| "call_touch (Assign_Advice_From_Constant c offset v) = Some (RC_Column c, offset)"
| "call_touch (Assign_Advice_From_Instance inst row c offset) = Some (RC_Column c, offset)"
| "call_touch (Assign_Fixed c offset to) = Some (RC_Column c, offset)"
| "call_touch _ = None"

lemma shape_call_touch:
  "shape_call shape call = Ok shape' \<Longrightarrow>
    shape' = (case call_touch call of None \<Rightarrow> shape | Some (c, off) \<Rightarrow> shape_touch shape c off)"
  by (cases call) auto

lemma measured_shape:
  "fold_outcome shape_call calls shape = Ok shape' \<Longrightarrow>
    (shape_wf shape \<longrightarrow> shape_wf shape') \<and> region_index shape' = region_index shape \<and>
    set (shape_columns shape) \<subseteq> set (shape_columns shape') \<and> row_count shape \<le> row_count shape' \<and>
    (\<forall>call\<in>set calls. \<forall>c off. call_touch call = Some (c, off) \<longrightarrow>
       c \<in> set (shape_columns shape') \<and> off < row_count shape')"
proof (induction calls arbitrary: shape)
  case (Cons call calls)
  then obtain s where s: "shape_call shape call = Ok s" "fold_outcome shape_call calls s = Ok shape'"
    by (auto simp: outcome_simps)
  have touch: "(shape_wf shape \<longrightarrow> shape_wf s) \<and> region_index s = region_index shape \<and>
      set (shape_columns shape) \<subseteq> set (shape_columns s) \<and> row_count shape \<le> row_count s \<and>
      (\<forall>c off. call_touch call = Some (c, off) \<longrightarrow> c \<in> set (shape_columns s) \<and> off < row_count s)"
    unfolding shape_call_touch [OF s(1)]
    by (cases "call_touch call") (auto simp: shape_touch_def shape_wf_def less_max_iff_disj)
  then show ?case using Cons.IH [OF s(2)] by (fastforce simp: subset_iff)
qed auto

lemma measure_calls:
  "fold_outcome measure_call circuit shapes = Ok shapes' \<Longrightarrow>
    \<exists>new. shapes' = shapes @ new \<and> length new = length (regions_of circuit) \<and>
      (\<forall>i<length new. measure_region (length shapes + i) (regions_of circuit ! i) = Ok (new ! i))"
proof (induction circuit arbitrary: shapes)
  case Nil
  then show ?case by simp
next
  case (Cons call circuit)
  show ?case
  proof (cases call)
    case (Assign_Region calls)
    with Cons.prems obtain shape where shape: "measure_region (length shapes) calls = Ok shape"
      and rest: "fold_outcome measure_call circuit (shapes @ [shape]) = Ok shapes'"
      by (auto simp: outcome_simps)
    from Cons.IH [OF rest] obtain new where "shapes' = (shapes @ [shape]) @ new"
      "length new = length (regions_of circuit)"
      "\<forall>i<length new. measure_region (length (shapes @ [shape]) + i) (regions_of circuit ! i) = Ok (new ! i)"
      by blast
    with Assign_Region shape show ?thesis
      by (intro exI [of _ "shape # new"]) (auto simp: nth_Cons split: nat.splits)
  qed (use Cons in auto)
qed

lemma measured:
  assumes "fold_outcome measure_call circuit [] = Ok shapes"
  shows "length shapes = length (regions_of circuit)" and "list_all shape_wf shapes"
    and "map region_index shapes = [0..<length shapes]"
    and "\<And>i call c off. \<lbrakk>i < length shapes; call \<in> set (regions_of circuit ! i); call_touch call = Some (c, off)\<rbrakk>
      \<Longrightarrow> c \<in> set (shape_columns (shapes ! i)) \<and> off < row_count (shapes ! i)"
proof -
  have m: "length shapes = length (regions_of circuit)"
      "\<And>i. i < length shapes \<Longrightarrow> measure_region i (regions_of circuit ! i) = Ok (shapes ! i)"
    using measure_calls [OF assms] by auto
  then have s: "shape_wf (shapes ! i)" "region_index (shapes ! i) = i"
      "\<And>call c off. \<lbrakk>call \<in> set (regions_of circuit ! i); call_touch call = Some (c, off)\<rbrakk>
        \<Longrightarrow> c \<in> set (shape_columns (shapes ! i)) \<and> off < row_count (shapes ! i)"
    if "i < length shapes" for i
    using measured_shape [of "regions_of circuit ! i" "region_shape_new i" "shapes ! i"] that
    by (auto simp: measure_region_def) (auto simp: region_shape_new_def)
  show "length shapes = length (regions_of circuit)" by (fact m(1))
  show "list_all shape_wf shapes" using s(1) by (simp add: list_all_length)
  show "map region_index shapes = [0..<length shapes]" using s(2) by (intro nth_equalityI) auto
  show "\<And>i call c off. \<lbrakk>i < length shapes; call \<in> set (regions_of circuit ! i); call_touch call = Some (c, off)\<rbrakk>
      \<Longrightarrow> c \<in> set (shape_columns (shapes ! i)) \<and> off < row_count (shapes ! i)"
    using s(3) by blast
qed

section \<open>Where the writes land\<close>

text \<open>The value that a region assigns last to a fixed cell.\<close>

fun written :: "'f region_call list \<Rightarrow> column \<Rightarrow> nat \<Rightarrow> 'f rational option option" where
  "written [] c off = None"
| "written (call # calls) c off =
     (case written calls c off of
        Some v \<Rightarrow> Some v
      | None \<Rightarrow> (case call of
           Assign_Fixed c' off' to \<Rightarrow> if c' = c \<and> off' = off then Some to else None
         | _ \<Rightarrow> None))"

text \<open>\<open>assign_fixed\<close> takes a \<open>Column<Fixed>\<close>.\<close>

fun typed_call :: "'f region_call \<Rightarrow> bool" where
  "typed_call (Assign_Fixed c off to) = (column_type c = Any_Fixed)"
| "typed_call _ = True"

lemma call_prims_touch:
  assumes "p \<in> set (call_prims regions i call)" and "touches p c row" and "typed_call call"
  shows "\<exists>off to. call = Assign_Fixed (Column c Any_Fixed) off to \<and> row = regions ! i + off"
  using assms by (cases call) (auto intro: column.expand)

lemma region_prims_touch:
  assumes "p \<in> set (region_prims regions i calls)" and "touches p c row" and "list_all typed_call calls"
  shows "\<exists>off to. Assign_Fixed (Column c Any_Fixed) off to \<in> set calls \<and> row = regions ! i + off"
  using assms call_prims_touch [OF _ assms(2)] by (fastforce simp: region_prims_def list_all_iff)

lemma written_None:
  "\<lbrakk>written calls (Column c Any_Fixed) off = None; list_all typed_call calls; p \<in> set (region_prims regions i calls)\<rbrakk>
    \<Longrightarrow> \<not> touches p c (regions ! i + off)"
proof
  assume a: "written calls (Column c Any_Fixed) off = None" "list_all typed_call calls"
    "p \<in> set (region_prims regions i calls)" "touches p c (regions ! i + off)"
  then obtain to where "Assign_Fixed (Column c Any_Fixed) off to \<in> set calls"
    using region_prims_touch [OF a(3,4,2)] by auto
  with a(1) show False by (induction calls) (auto split: option.splits)
qed

lemma written_in_calls:
  "written calls c off = Some to \<Longrightarrow> Assign_Fixed c off to \<in> set calls"
  by (induction calls) (auto split: option.splits region_call.splits if_splits)

lemma region_prims_written:
  assumes "written calls (Column c Any_Fixed) off = Some to" and "list_all typed_call calls"
  shows "\<exists>xs ys. region_prims regions i calls = xs @ P_Fixed c (regions ! i + off) to # ys \<and>
           (\<forall>p\<in>set ys. \<not> touches p c (regions ! i + off))"
  using assms
proof (induction calls)
  case (Cons call calls)
  show ?case
  proof (cases "written calls (Column c Any_Fixed) off")
    case None
    with Cons.prems(1) have "call = Assign_Fixed (Column c Any_Fixed) off to"
      by (auto split: region_call.splits if_splits)
    then have "region_prims regions i (call # calls) =
        [] @ P_Fixed c (regions ! i + off) to # region_prims regions i calls"
      by (simp add: region_prims_def)
    moreover have "\<forall>p\<in>set (region_prims regions i calls). \<not> touches p c (regions ! i + off)"
      using written_None [OF None, of _ regions i] Cons.prems(2) by simp
    ultimately show ?thesis by blast
  next
    case (Some v)
    with Cons obtain xs ys where "region_prims regions i calls = xs @ P_Fixed c (regions ! i + off) to # ys"
      "\<forall>p\<in>set ys. \<not> touches p c (regions ! i + off)" by auto
    then show ?thesis
      by (intro exI [of _ "call_prims regions i call @ xs"] exI [of _ ys]) (simp add: region_prims_def)
  qed
qed simp

definition table_columns_of :: "'f layout_call list \<Rightarrow> nat set" where
  "table_columns_of circuit = {c. \<exists>calls\<in>set circuit. \<exists>tc. calls = Assign_Table tc \<and> c \<in> fst ` set tc}"

lemma table_columns_of_Cons:
  "table_columns_of (call # circuit) =
     (case call of Assign_Table tc \<Rightarrow> fst ` set tc | _ \<Rightarrow> {}) \<union> table_columns_of circuit"
  by (auto simp: table_columns_of_def split: layout_call.splits)

lemma touches_in_columns: "in_columns C p \<Longrightarrow> touches p c row \<Longrightarrow> c \<in> C"
  by (cases p) auto

lemma nth_Cons_ex: "(\<exists>i<length (x # xs). P i ((x # xs) ! i)) \<longleftrightarrow> P 0 x \<or> (\<exists>i<length xs. P (Suc i) (xs ! i))"
  by (auto simp: less_Suc_eq_0_disj)

lemma layout_prims_touch:
  "\<lbrakk>layout_prims regions k circuit ps; p \<in> set ps; touches p c row\<rbrakk> \<Longrightarrow>
    (\<exists>j<length (regions_of circuit). p \<in> set (region_prims regions (k + j) (regions_of circuit ! j))) \<or>
    c \<in> table_columns_of circuit"
proof (induction regions k circuit ps rule: layout_prims.induct)
  case (2 regions k calls circuit ps)
  then obtain qs where ps: "ps = region_prims regions k calls @ qs" "layout_prims regions (Suc k) circuit qs"
    by auto
  show ?case
  proof (cases "p \<in> set qs")
    case True
    from "2.IH" [OF ps(2) True "2.prems"(3)] show ?thesis
      unfolding regions_of.simps nth_Cons_ex [where P = "\<lambda>j r. p \<in> set (region_prims regions (k + j) r)"]
      by (auto simp: table_columns_of_Cons)
  next
    case False
    with "2.prems"(2) ps(1) show ?thesis
      unfolding regions_of.simps nth_Cons_ex [where P = "\<lambda>j r. p \<in> set (region_prims regions (k + j) r)"] by auto
  qed
next
  case (3 regions k calls circuit ps)
  then obtain ts qs where ps: "ps = ts @ qs" "\<forall>p\<in>set ts. in_columns (fst ` set calls) p"
    "layout_prims regions k circuit qs" by auto
  show ?case
  proof (cases "p \<in> set ts")
    case True
    with ps(2) "3.prems"(3) touches_in_columns have "c \<in> fst ` set calls" by blast
    then show ?thesis by (simp add: table_columns_of_Cons)
  next
    case False
    with "3.prems"(2) ps(1) have "p \<in> set qs" by simp
    from "3.IH" [OF ps(3) this "3.prems"(3)] show ?thesis by (auto simp: table_columns_of_Cons)
  qed
next
  case (4 regions k c inst row circuit ps)
  then show ?case by (auto simp: table_columns_of_Cons)
qed simp

lemma layout_prims_split:
  "\<lbrakk>layout_prims regions k circuit ps; i < length (regions_of circuit)\<rbrakk> \<Longrightarrow>
    \<exists>pre post. ps = pre @ region_prims regions (k + i) (regions_of circuit ! i) @ post \<and>
      (\<forall>p\<in>set post. \<forall>c row. touches p c row \<longrightarrow>
         (\<exists>j<length (regions_of circuit). j \<noteq> i \<and> p \<in> set (region_prims regions (k + j) (regions_of circuit ! j))) \<or>
         c \<in> table_columns_of circuit)"
proof (induction regions k circuit ps arbitrary: i rule: layout_prims.induct)
  case (2 regions k calls circuit ps)
  then obtain qs where ps: "ps = region_prims regions k calls @ qs" "layout_prims regions (Suc k) circuit qs"
    by auto
  show ?case
  proof (cases i)
    case 0
    have "(\<exists>j<length (regions_of (Assign_Region calls # circuit)). j \<noteq> i \<and>
        p \<in> set (region_prims regions (k + j) (regions_of (Assign_Region calls # circuit) ! j))) \<or>
        c \<in> table_columns_of (Assign_Region calls # circuit)" if "p \<in> set qs" "touches p c row" for p c row
      using layout_prims_touch [OF ps(2) that] 0
      unfolding regions_of.simps nth_Cons_ex [where P = "\<lambda>j r. j \<noteq> i \<and> p \<in> set (region_prims regions (k + j) r)"]
      by (auto simp: table_columns_of_Cons)
    then show ?thesis using 0 ps(1) by (intro exI [of _ "[]"] exI [of _ qs]) auto
  next
    case (Suc i')
    with "2.prems"(2) have "i' < length (regions_of circuit)" by simp
    from "2.IH" [OF ps(2) this] obtain pre post where
      qs: "qs = pre @ region_prims regions (Suc k + i') (regions_of circuit ! i') @ post"
      and post: "\<forall>p\<in>set post. \<forall>c row. touches p c row \<longrightarrow>
         (\<exists>j<length (regions_of circuit). j \<noteq> i' \<and> p \<in> set (region_prims regions (Suc k + j) (regions_of circuit ! j))) \<or>
         c \<in> table_columns_of circuit" by blast
    have "(\<exists>j<length (regions_of (Assign_Region calls # circuit)). j \<noteq> i \<and>
        p \<in> set (region_prims regions (k + j) (regions_of (Assign_Region calls # circuit) ! j))) \<or>
        c \<in> table_columns_of (Assign_Region calls # circuit)" if "p \<in> set post" "touches p c row" for p c row
      using post that Suc
      unfolding regions_of.simps nth_Cons_ex [where P = "\<lambda>j r. j \<noteq> i \<and> p \<in> set (region_prims regions (k + j) r)"]
      by (auto simp: table_columns_of_Cons)
    then show ?thesis using Suc ps(1) qs
      by (intro exI [of _ "region_prims regions k calls @ pre"] exI [of _ post]) auto
  qed
next
  case (3 regions k calls circuit ps)
  then obtain ts qs where ps: "ps = ts @ qs" "layout_prims regions k circuit qs" by auto
  have "i < length (regions_of circuit)" using "3.prems"(2) by simp
  from "3.IH" [OF ps(2) this] obtain pre post where
    "qs = pre @ region_prims regions (k + i) (regions_of circuit ! i) @ post"
    "\<forall>p\<in>set post. \<forall>c row. touches p c row \<longrightarrow>
       (\<exists>j<length (regions_of circuit). j \<noteq> i \<and> p \<in> set (region_prims regions (k + j) (regions_of circuit ! j))) \<or>
       c \<in> table_columns_of circuit" by blast
  with ps(1) show ?case by (intro exI [of _ "ts @ pre"] exI [of _ post]) (auto simp: table_columns_of_Cons)
next
  case (4 regions k c inst row circuit ps)
  then obtain q qs where ps: "ps = q # qs" "layout_prims regions k circuit qs" by auto
  have "i < length (regions_of circuit)" using "4.prems"(2) by simp
  from "4.IH" [OF ps(2) this] obtain pre post where
    "qs = pre @ region_prims regions (k + i) (regions_of circuit ! i) @ post"
    "\<forall>p\<in>set post. \<forall>c row. touches p c row \<longrightarrow>
       (\<exists>j<length (regions_of circuit). j \<noteq> i \<and> p \<in> set (region_prims regions (k + j) (regions_of circuit ! j))) \<or>
       c \<in> table_columns_of circuit" by blast
  with ps(1) show ?case by (intro exI [of _ "q # pre"] exI [of _ post]) (auto simp: table_columns_of_Cons)
qed simp

lemma layout_prims_selector:
  "layout_prims regions k circuit ps \<Longrightarrow>
    P_Selector s row \<in> set ps \<longleftrightarrow>
    (\<exists>j<length (regions_of circuit). P_Selector s row \<in> set (region_prims regions (k + j) (regions_of circuit ! j)))"
proof (induction regions k circuit ps rule: layout_prims.induct)
  case (2 regions k calls circuit ps)
  then show ?case
    unfolding regions_of.simps nth_Cons_ex [where P = "\<lambda>j r. P_Selector s row \<in> set (region_prims regions (k + j) r)"]
    by auto
next
  case (3 regions k calls circuit ps)
  then show ?case by (auto dest: bspec [of _ _ "P_Selector s row"])
qed auto

lemma region_prims_selector:
  "P_Selector s row \<in> set (region_prims regions i calls) \<longleftrightarrow>
    (\<exists>sel off. Enable_Selector sel off \<in> set calls \<and> sel_index sel = s \<and> row = regions ! i + off)"
proof -
  have c: "P_Selector s row \<in> set (call_prims regions i call) \<longleftrightarrow>
      (\<exists>sel off. call = Enable_Selector sel off \<and> sel_index sel = s \<and> row = regions ! i + off)" for call
    by (cases call) auto
  have "P_Selector s row \<in> set (region_prims regions i calls) \<longleftrightarrow>
      (\<exists>call\<in>set calls. P_Selector s row \<in> set (call_prims regions i call))"
    by (simp add: region_prims_def)
  then show ?thesis unfolding c by blast
qed

section \<open>Constants\<close>

definition constant_prims :: "nat list \<Rightarrow> (column \<times> nat) \<times> ('f rational \<times> cell) \<Rightarrow> 'f prim list" where
  "constant_prims regions e =
     (case e of ((c, row), (v, advice)) \<Rightarrow>
        [P_Fixed (col_index c) row (Some v), P_Copy c row (cell_column advice) (cell_row regions advice)])"

lemma assign_constants_prims:
  "fold_outcome (assign_constant regions) es a = Ok a' \<Longrightarrow>
    exec_prims (concat (map (constant_prims regions) es)) a = Ok a'"
proof (induction es arbitrary: a)
  case (Cons e es)
  obtain c row v adv where e: "e = ((c, row), (v, adv))" by (metis surj_pair)
  with Cons.prems obtain b where b: "assign_constant regions a e = Ok b"
    and rest: "fold_outcome (assign_constant regions) es b = Ok a'" by (auto simp: outcome_simps)
  have "exec_prims (constant_prims regions e) a = Ok b"
    using b ka_assign_fixed_cong [of c "Column (col_index c) Any_Fixed" a row "Some v"]
    by (auto simp: e assign_constant_def constant_prims_def outcome_simps cell_row_def)
  with Cons.IH [OF rest] show ?case by simp
qed simp

lemma Some_eq_map_option: "Some y = map_option f x \<longleftrightarrow> (\<exists>z. x = Some z \<and> f z = y)"
  by (cases x) auto

lemma those_Some: "those xs = Some ys \<longleftrightarrow> xs = map Some ys"
  by (induction xs arbitrary: ys) (auto split: option.splits simp: Cons_eq_map_conv)

lemma constant_positions_cols:
  assumes "constant_positions m rows const_cols = Some ps"
  shows "fst ` set ps \<subseteq> set const_cols"
proof -
  obtain yss where yss: "concat (map (\<lambda>c. map (\<lambda>e. map_option (map (Pair c)) (space_range e))
         (free_intervals (alloc_of m (RC_Column c)) 0 (Some rows))) const_cols) = map Some yss" "ps = concat yss"
    using assms by (auto simp: constant_positions_def those_Some)
  have "fst ` set ys \<subseteq> set const_cols" if "ys \<in> set yss" for ys
  proof -
    have "Some ys \<in> set (map Some yss)" using that by simp
    then show ?thesis unfolding yss(1) [symmetric] by (auto simp: Some_eq_map_option)
  qed
  then show ?thesis by (auto simp: yss(2))
qed

text \<open>The rows handed out to constants are free in their column.\<close>

lemma constant_positions_free:
  assumes "constant_positions m rows const_cols = Some ps" and "(c, row) \<in> set ps"
    and "alloc_wf (alloc_of m (RC_Column c))"
  shows "c \<in> set const_cols \<and> row < rows \<and> free_at (alloc_of m (RC_Column c)) 1 row"
proof -
  obtain yss where yss: "concat (map (\<lambda>c. map (\<lambda>e. map_option (map (Pair c)) (space_range e))
         (free_intervals (alloc_of m (RC_Column c)) 0 (Some rows))) const_cols) = map Some yss" "ps = concat yss"
    using assms(1) by (auto simp: constant_positions_def those_Some)
  from assms(2) yss(2) obtain ys where "ys \<in> set yss" "(c, row) \<in> set ys" by auto
  then have "Some ys \<in> set (map Some yss)" by simp
  then obtain d e where d: "d \<in> set const_cols" "e \<in> set (free_intervals (alloc_of m (RC_Column d)) 0 (Some rows))"
      "Some ys = map_option (map (Pair d)) (space_range e)"
    unfolding yss(1) [symmetric] by auto
  then obtain r where r: "space_range e = Some r" "ys = map (Pair d) r" by (cases "space_range e") auto
  with \<open>(c, row) \<in> set ys\<close> have "d = c" "row \<in> set r" by auto
  with d r have e: "c \<in> set const_cols" "e \<in> set (free_intervals (alloc_of m (RC_Column c)) 0 (Some rows))"
      "\<exists>r. space_range e = Some r \<and> row \<in> set r" by auto
  then have "in_space 1 e row" by (auto simp: space_range_def in_space_def)
  with e(2) free_intervals_complete [OF assms(3), of 1 0 row "Some rows"] e(1) show ?thesis by auto
qed

lemma intervals_distinct:
  assumes "sorted_wrt (\<lambda>x y. \<exists>e. space_end x = Some e \<and> e \<le> space_start y) es"
    and "map (\<lambda>e. map_option (map (Pair c)) (space_range e)) es = map Some yss"
    and "\<And>e s. e \<in> set es \<Longrightarrow> space_end e = Some s \<Longrightarrow> space_start e < s"
  shows "distinct (concat yss)"
  using assms
proof (induction es arbitrary: yss)
  case (Cons e es)
  then obtain ys yss' where yss: "yss = ys # yss'" "map_option (map (Pair c)) (space_range e) = Some ys"
    "map (\<lambda>e. map_option (map (Pair c)) (space_range e)) es = map Some yss'" by (cases yss) auto
  then obtain s where s: "space_end e = Some s" "ys = map (Pair c) [space_start e..<s]"
    by (auto simp: space_range_def)
  have "set ys \<inter> set (concat yss') = {}"
  proof (rule ccontr)
    assume "set ys \<inter> set (concat yss') \<noteq> {}"
    then obtain x zs where x: "x \<in> set ys" "zs \<in> set yss'" "x \<in> set zs" by auto
    then have "Some zs \<in> set (map Some yss')" by simp
    then obtain e' where e': "e' \<in> set es" "map_option (map (Pair c)) (space_range e') = Some zs"
      unfolding yss(3) [symmetric] by (auto simp: Some_eq_map_option)
    then obtain s' where "zs = map (Pair c) [space_start e'..<s']" by (auto simp: space_range_def)
    moreover have "s \<le> space_start e'" using Cons.prems(1) e'(1) s(1) by auto
    ultimately show False using x s(2) by auto
  qed
  moreover have "distinct ys" using s(2) by (simp add: distinct_map inj_on_def)
  moreover have "distinct (concat yss')" using Cons.IH [OF _ yss(3)] Cons.prems(1,3) by simp
  ultimately show ?case by (simp add: yss(1))
qed auto

lemma constant_positions_distinct:
  assumes "constant_positions m rows const_cols = Some ps" and "distinct const_cols"
    and "\<And>c. alloc_wf (alloc_of m (RC_Column c))"
  shows "distinct ps"
  using assms(1,2)
proof (induction const_cols arbitrary: ps)
  case (Cons c const_cols)
  let ?g = "\<lambda>c. map (\<lambda>e. map_option (map (Pair c)) (space_range e))
         (free_intervals (alloc_of m (RC_Column c)) 0 (Some rows))"
  from Cons.prems(1) obtain yss where "?g c @ concat (map ?g const_cols) = map Some yss" "ps = concat yss"
    by (auto simp: constant_positions_def those_Some)
  then obtain us vs where uv: "?g c = map Some us" "concat (map ?g const_cols) = map Some vs"
    "ps = concat us @ concat vs" by (auto simp: append_eq_map_conv)
  have us: "distinct (concat us)"
    using intervals_distinct [OF free_intervals_sorted [OF assms(3)] uv(1)] free_intervals_sound by blast
  have rest: "constant_positions m rows const_cols = Some (concat vs)"
    using uv(2) by (simp add: constant_positions_def those_Some)
  have "fst x = c" if "x \<in> set (concat us)" for x
  proof -
    from that obtain u where u: "u \<in> set us" "x \<in> set u" by auto
    then have "Some u \<in> set (?g c)" unfolding uv(1) by simp
    then obtain r where "u = map (Pair c) r" by (auto simp: Some_eq_map_option)
    with u show ?thesis by auto
  qed
  moreover have "fst x \<noteq> c" if "x \<in> set (concat vs)" for x
    using constant_positions_cols [OF rest] that Cons.prems(2) by auto
  ultimately have "set (concat us) \<inter> set (concat vs) = {}" by blast
  with us Cons.IH [OF rest] Cons.prems(2) show ?case by (simp only: uv(3) distinct_append distinct.simps)
qed (auto simp: constant_positions_def)

section \<open>The V1 floor planner\<close>

definition v1_starts :: "'f layout_call list \<Rightarrow> nat list" where
  "v1_starts circuit =
     (case fold_outcome measure_call circuit [] of
        Ok shapes \<Rightarrow> (case slot_in_biggest_advice_first shapes of Some (starts, _) \<Rightarrow> starts | None \<Rightarrow> [])
      | _ \<Rightarrow> [])"

definition circuit_constants :: "'f layout_call list \<Rightarrow> 'f constants" where
  "circuit_constants circuit = constants_from 0 (regions_of circuit)"

lemma v1_synthesize_prims:
  assumes "v1_synthesize const_cols circuit a = Ok a'"
  shows "\<exists>shapes m ps positions. fold_outcome measure_call circuit [] = Ok shapes \<and>
     slot_in_biggest_advice_first shapes = Some (v1_starts circuit, m) \<and>
     layout_prims (v1_starts circuit) 0 circuit ps \<and>
     constant_positions m (first_unassigned_row m (all_columns shapes)) const_cols = Some positions \<and>
     length (circuit_constants circuit) \<le> length positions \<and>
     exec_prims (ps @ concat (map (constant_prims (v1_starts circuit)) (zip positions (circuit_constants circuit)))) a = Ok a'"
proof -
  from assms obtain shapes regions m plan positions where
    *: "fold_outcome measure_call circuit [] = Ok shapes"
      "slot_in_biggest_advice_first shapes = Some (regions, m)"
      "fold_outcome assign_call circuit \<lparr>plan_cs = a, plan_regions = regions, plan_constants = [],
         plan_table_columns = [], plan_region_index = 0\<rparr> = Ok plan"
      "constant_positions m (first_unassigned_row m (all_columns shapes)) const_cols = Some positions"
      "length (plan_constants plan) \<le> length positions"
      "fold_outcome (assign_constant (plan_regions plan)) (zip positions (plan_constants plan)) (plan_cs plan) = Ok a'"
    by (auto simp: v1_synthesize_def outcome_simps split: if_splits)
  have starts: "v1_starts circuit = regions" using *(1,2) by (simp add: v1_starts_def)
  from assign_calls_prims [OF *(3)] obtain ps where
    "layout_prims regions 0 circuit ps" "exec_prims ps a = Ok (plan_cs plan)"
    "plan_regions plan = regions" "plan_constants plan = circuit_constants circuit"
    by (auto simp: circuit_constants_def)
  with * assign_constants_prims [OF *(6)] show ?thesis
    unfolding starts by (intro exI [of _ shapes] exI [of _ m] exI [of _ ps] exI [of _ positions]) simp
qed

text \<open>Two calls of different regions never write the same cell.\<close>

lemma v1_rows_differ:
  assumes shapes: "fold_outcome measure_call circuit [] = Ok shapes"
    and plan: "slot_in_biggest_advice_first shapes = Some (starts, m)"
    and i: "i < length (regions_of circuit)" "call \<in> set (regions_of circuit ! i)" "call_touch call = Some (c, off)"
    and j: "j < length (regions_of circuit)" "call' \<in> set (regions_of circuit ! j)" "call_touch call' = Some (c, off')"
    and ne: "i \<noteq> j"
  shows "starts ! i + off \<noteq> starts ! j + off'"
proof -
  note ms = measured [OF shapes]
  have "c \<in> set (shape_columns (shapes ! i)) \<and> off < row_count (shapes ! i)"
    and "c \<in> set (shape_columns (shapes ! j)) \<and> off' < row_count (shapes ! j)"
    using ms(4) [OF _ i(2,3)] ms(4) [OF _ j(2,3)] i(1) j(1) ms(1) by auto
  moreover have "no_overlap (starts ! i) (shapes ! i) (starts ! j) (shapes ! j)"
    using slot_in_biggest_placed [OF ms(2,3)] plan i(1) j(1) ne ms(1) by auto
  ultimately show ?thesis by (auto simp: no_overlap_def)
qed

lemma v1_constant_rows_differ:
  assumes shapes: "fold_outcome measure_call circuit [] = Ok shapes"
    and plan: "slot_in_biggest_advice_first shapes = Some (starts, m)"
    and pos: "constant_positions m rows const_cols = Some positions" "(c, row) \<in> set positions"
    and i: "i < length (regions_of circuit)" "call \<in> set (regions_of circuit ! i)"
      "call_touch call = Some (RC_Column c, off)"
  shows "starts ! i + off \<noteq> row"
proof -
  note ms = measured [OF shapes]
  from slot_in_biggest_placed [OF ms(2,3)] plan have inv: "alloc_inv m (zip starts shapes)"
    and len: "length starts = length shapes" by auto
  have "RC_Column c \<in> set (shape_columns (shapes ! i))" and off: "off < row_count (shapes ! i)"
    using ms(4) [OF _ i(2,3)] i(1) ms(1) by auto
  moreover have "(starts ! i, shapes ! i) \<in> set (zip starts shapes)"
    using i(1) ms(1) len by (auto simp: in_set_zip)
  ultimately have "\<lparr>alloc_start = starts ! i, alloc_length = row_count (shapes ! i)\<rparr> \<in> set (alloc_of m (RC_Column c))"
    using inv by (auto simp: alloc_inv_def)
  moreover have "free_at (alloc_of m (RC_Column c)) 1 row"
    using constant_positions_free [OF pos] inv by (simp add: alloc_inv_def)
  ultimately show ?thesis using off by (fastforce simp: free_at_def)
qed

lemma v1_constants_leave_regions:
  assumes shapes: "fold_outcome measure_call circuit [] = Ok shapes"
    and plan: "slot_in_biggest_advice_first shapes = Some (starts, m)"
    and pos: "constant_positions m rows const_cols = Some positions"
    and kc: "list_all (\<lambda>c. column_type c = Any_Fixed) const_cols"
    and i: "i < length (regions_of circuit)" "Assign_Fixed (Column c Any_Fixed) off to \<in> set (regions_of circuit ! i)"
    and p: "p \<in> set (concat (map (constant_prims starts) (zip positions ks)))"
  shows "\<not> touches p c (starts ! i + off)"
proof
  assume t: "touches p c (starts ! i + off)"
  from p obtain e where e: "e \<in> set (zip positions ks)" "p \<in> set (constant_prims starts e)" by auto
  obtain d row v adv where ed: "e = ((d, row), (v, adv))" by (metis surj_pair)
  with e t have d: "col_index d = c" "row = starts ! i + off" by (auto simp: constant_prims_def)
  have mem: "(d, row) \<in> set positions" using e(1) ed by (auto dest: set_zip_leftD)
  then have "d \<in> set const_cols" using constant_positions_cols [OF pos] by auto
  then have "d = Column c Any_Fixed" using kc d(1) by (auto simp: list_all_iff intro: column.expand)
  with v1_constant_rows_differ [OF shapes plan pos mem i] d(2) show False by simp
qed

lemma v1_regions_leave_regions:
  assumes shapes: "fold_outcome measure_call circuit [] = Ok shapes"
    and plan: "slot_in_biggest_advice_first shapes = Some (starts, m)"
    and i: "i < length (regions_of circuit)" "Assign_Fixed (Column c Any_Fixed) off to \<in> set (regions_of circuit ! i)"
    and j: "j < length (regions_of circuit)" "j \<noteq> i" "p \<in> set (region_prims starts j (regions_of circuit ! j))"
      "list_all typed_call (regions_of circuit ! j)"
  shows "\<not> touches p c (starts ! i + off)"
proof
  assume "touches p c (starts ! i + off)"
  from region_prims_touch [OF j(3) this j(4)] obtain off' to' where
    o: "Assign_Fixed (Column c Any_Fixed) off' to' \<in> set (regions_of circuit ! j)" "starts ! i + off = starts ! j + off'"
    by blast
  with v1_rows_differ [OF shapes plan i _ j(1) o(1), of "RC_Column (Column c Any_Fixed)" off off'] j(2) show False by simp
qed

lemma v1_fixed_cell:
  assumes shapes: "fold_outcome measure_call circuit [] = Ok shapes"
    and plan: "slot_in_biggest_advice_first shapes = Some (starts, m)"
    and ps: "layout_prims starts 0 circuit ps"
    and pos: "constant_positions m rows const_cols = Some positions"
    and run: "exec_prims (ps @ concat (map (constant_prims starts) (zip positions ks))) a = Ok a'"
    and typed: "list_all (list_all typed_call) (regions_of circuit)"
    and kc: "list_all (\<lambda>c. column_type c = Any_Fixed) const_cols"
    and i: "i < length (regions_of circuit)" "c \<notin> table_columns_of circuit"
      "written (regions_of circuit ! i) (Column c Any_Fixed) off = Some to"
  shows "get2 (ka_fixed a') (c, starts ! i + off) = to \<and> to \<noteq> None"
proof -
  let ?rs = "regions_of circuit" and ?ks = "concat (map (constant_prims starts) (zip positions ks))"
  have typed': "list_all typed_call (?rs ! j)" if "j < length ?rs" for j
    using typed that by (simp add: list_all_length)
  note call = written_in_calls [OF i(3)]
  obtain pre post where split: "ps = pre @ region_prims starts i (?rs ! i) @ post"
    and post: "\<forall>p\<in>set post. \<forall>c row. touches p c row \<longrightarrow>
       (\<exists>j<length ?rs. j \<noteq> i \<and> p \<in> set (region_prims starts j (?rs ! j))) \<or> c \<in> table_columns_of circuit"
    using layout_prims_split [OF ps i(1)] by auto
  obtain xs ys where xy: "region_prims starts i (?rs ! i) = xs @ P_Fixed c (starts ! i + off) to # ys"
    "\<forall>p\<in>set ys. \<not> touches p c (starts ! i + off)"
    using region_prims_written [OF i(3) typed' [OF i(1)]] by blast
  have "\<not> touches p c (starts ! i + off)" if "p \<in> set post" for p
    using post that i(2) v1_regions_leave_regions [OF shapes plan i(1) call _ _ _ typed'] by blast
  moreover have "\<not> touches p c (starts ! i + off)" if "p \<in> set ?ks" for p
    by (rule v1_constants_leave_regions [OF shapes plan pos kc i(1) call that])
  ultimately have "\<not> touches p c (starts ! i + off)" if "p \<in> set (ys @ post @ ?ks)" for p
    using that xy(2) by auto
  moreover have "exec_prims ((pre @ xs) @ P_Fixed c (starts ! i + off) to # ys @ post @ ?ks) a = Ok a'"
    using run by (simp only: split xy(1) append_assoc append_Cons)
  ultimately show ?thesis by (intro exec_prims_last)
qed

text \<open>
  C4: what V1 synthesis leaves in the fixed columns and the selectors. When it succeeds, every
  fixed cell of every region holds the value the region assigned to it last, at the row
  \<open>start + offset\<close> of the plan: neither another region nor a constant has overwritten it. A selector
  is enabled exactly at the rows at which some region enabled it.
\<close>

theorem v1_fixed_and_selectors:
  assumes "v1_synthesize const_cols circuit a = Ok a'"
    and "list_all (list_all typed_call) (regions_of circuit)"
    and "list_all (\<lambda>c. column_type c = Any_Fixed) const_cols"
  shows "(\<forall>i c off to. i < length (regions_of circuit) \<and> c \<notin> table_columns_of circuit \<and>
           written (regions_of circuit ! i) (Column c Any_Fixed) off = Some to \<longrightarrow>
           get2 (ka_fixed a') (c, v1_starts circuit ! i + off) = to \<and> to \<noteq> None) \<and>
         (\<forall>s row. get2 (ka_selectors a') (s, row) = Some True \<longleftrightarrow>
           get2 (ka_selectors a) (s, row) = Some True \<or>
           (\<exists>i<length (regions_of circuit). \<exists>sel off. Enable_Selector sel off \<in> set (regions_of circuit ! i) \<and>
              sel_index sel = s \<and> row = v1_starts circuit ! i + off))"
proof -
  let ?starts = "v1_starts circuit" and ?ks = "circuit_constants circuit" and ?rs = "regions_of circuit"
  obtain shapes m ps positions where
    plan: "fold_outcome measure_call circuit [] = Ok shapes"
      "slot_in_biggest_advice_first shapes = Some (?starts, m)"
    and ps: "layout_prims ?starts 0 circuit ps"
    and pos: "constant_positions m (first_unassigned_row m (all_columns shapes)) const_cols = Some positions"
    and run: "exec_prims (ps @ concat (map (constant_prims ?starts) (zip positions ?ks))) a = Ok a'"
    using v1_synthesize_prims [OF assms(1)] by blast
  have "P_Selector s row \<notin> set (concat (map (constant_prims ?starts) (zip positions ?ks)))" for s row
    by (auto simp: constant_prims_def)
  then show ?thesis
    using v1_fixed_cell [OF plan ps pos run assms(2,3)] exec_prims_selectors [OF run]
    by (auto simp: layout_prims_selector [OF ps] region_prims_selector)
qed

section \<open>Copy constraints and constants\<close>

text \<open>The equalities a circuit asks for, as pairs of a column and an absolute row.\<close>

type_synonym abs_cell = "column \<times> nat"

fun prim_copies :: "'f prim \<Rightarrow> (abs_cell \<times> abs_cell) set" where
  "prim_copies (P_Copy lc lr rc rr) = {((lc, lr), (rc, rr))}"
| "prim_copies _ = {}"

definition region_copies :: "nat list \<Rightarrow> nat \<Rightarrow> 'f region_call list \<Rightarrow> (abs_cell \<times> abs_cell) set" where
  "region_copies starts i calls = (\<Union>call\<in>set calls. case call of
       Assign_Advice_From_Instance inst row c off \<Rightarrow> {((c, starts ! i + off), (inst, row))}
     | Constrain_Equal l r \<Rightarrow> {((cell_column l, cell_row starts l), (cell_column r, cell_row starts r))}
     | _ \<Rightarrow> {})"

definition circuit_copies :: "nat list \<Rightarrow> 'f layout_call list \<Rightarrow> (abs_cell \<times> abs_cell) set" where
  "circuit_copies starts circuit =
     (\<Union>i<length (regions_of circuit). region_copies starts i (regions_of circuit ! i)) \<union>
     {((cell_column c, cell_row starts c), (inst, row)) |c inst row. Constrain_Instance c inst row \<in> set circuit}"

definition ref_of :: "column list \<Rightarrow> abs_cell \<Rightarrow> cell_ref" where
  "ref_of p x = (the (position (\<lambda>c. c = fst x) p), snd x)"

lemma region_prims_copies: "(\<Union>p\<in>set (region_prims starts i calls). prim_copies p) = region_copies starts i calls"
proof -
  have "(\<Union>p\<in>set (call_prims starts i call). prim_copies p) = (case call of
       Assign_Advice_From_Instance inst row c off \<Rightarrow> {((c, starts ! i + off), (inst, row))}
     | Constrain_Equal l r \<Rightarrow> {((cell_column l, cell_row starts l), (cell_column r, cell_row starts r))}
     | _ \<Rightarrow> {})" for call :: "'a region_call"
    by (cases call) auto
  then show ?thesis by (simp add: region_prims_def region_copies_def)
qed

lemma in_columns_copies: "in_columns C p \<Longrightarrow> prim_copies p = {}"
  by (cases p) auto

lemma UN_lessThan_Suc: "(\<Union>i<Suc n. A i) = A 0 \<union> (\<Union>i<n. A (Suc i))"
  by (simp add: lessThan_Suc_eq_insert_0)

lemma layout_prims_copies:
  "layout_prims starts k circuit ps \<Longrightarrow> (\<Union>p\<in>set ps. prim_copies p) =
     (\<Union>i<length (regions_of circuit). region_copies starts (k + i) (regions_of circuit ! i)) \<union>
     {((cell_column c, cell_row starts c), (inst, row)) |c inst row. Constrain_Instance c inst row \<in> set circuit}"
proof (induction starts k circuit ps rule: layout_prims.induct)
  case (2 starts k calls circuit ps)
  then obtain qs where "ps = region_prims starts k calls @ qs" "layout_prims starts (Suc k) circuit qs" by auto
  with 2 show ?case by (simp add: UN_lessThan_Suc region_prims_copies Un_assoc)
next
  case (3 starts k calls circuit ps)
  then obtain ts qs where ps: "ps = ts @ qs" "\<forall>p\<in>set ts. in_columns (fst ` set calls) p"
    "layout_prims starts k circuit qs" by auto
  from ps(2) have "(\<Union>p\<in>set ts. prim_copies p) = {}" using in_columns_copies by blast
  with ps 3 show ?case by simp
next
  case (4 starts k c inst row circuit ps)
  then obtain qs where "ps = P_Copy (cell_column c) (cell_row starts c) inst row # qs"
    "layout_prims starts k circuit qs" by auto
  with "4.IH" show ?case by auto
qed simp

text \<open>Executed copies have both columns in the permutation argument.\<close>

lemma exec_prim_copy_refs:
  assumes "exec_prim a x = Ok a'" and "assembled n p (ka_permutation a) cs"
  shows "copy_refs p x = (\<lambda>(l, r). (ref_of p l, ref_of p r)) ` prim_copies x"
proof (cases x)
  case (P_Copy lc lr rc rr)
  with assms(1) obtain q where q: "asm_copy (ka_permutation a) lc lr rc rr = Ok q"
    by (auto simp: ka_copy_def outcome_simps split: if_splits)
  have "asm_columns (ka_permutation a) = p" using assembled_inv [OF assms(2)] by simp
  with q P_Copy show ?thesis
    by (auto simp: asm_copy_def copy_refs_def ref_of_def split: option.splits)
qed (auto simp: copy_refs_def)

lemma exec_prims_copied:
  "\<lbrakk>exec_prims xs a = Ok a'; assembled n p (ka_permutation a) cs\<rbrakk> \<Longrightarrow>
    \<exists>cs'. assembled n p (ka_permutation a') cs' \<and>
      set cs' = set cs \<union> (\<lambda>(l, r). (ref_of p l, ref_of p r)) ` (\<Union>x\<in>set xs. prim_copies x)"
proof (induction xs arbitrary: a cs)
  case (Cons x xs)
  from Cons.prems(1) obtain a1 where a1: "exec_prim a x = Ok a1" "exec_prims xs a1 = Ok a'"
    by (auto simp: outcome_simps)
  obtain cs1 where cs1: "assembled n p (ka_permutation a1) cs1" "set cs1 = set cs \<union> copy_refs p x"
    using exec_prim_copies [OF a1(1) Cons.prems(2)] by blast
  from Cons.IH [OF a1(2) cs1(1)] obtain cs' where "assembled n p (ka_permutation a') cs'"
    "set cs' = set cs1 \<union> (\<lambda>(l, r). (ref_of p l, ref_of p r)) ` (\<Union>x\<in>set xs. prim_copies x)" by blast
  then show ?case
    by (intro exI [of _ cs']) (simp add: cs1(2) exec_prim_copy_refs [OF a1(1) Cons.prems(2)] image_Un Un_assoc)
qed auto

lemma constant_prims_copies:
  "(\<Union>p\<in>set (concat (map (constant_prims starts) (zip ps ks))). prim_copies p) =
     (\<lambda>(x, (v, c)). (x, (cell_column c, cell_row starts c))) ` set (zip ps ks)"
proof -
  have "(\<Union>p\<in>set (constant_prims starts e). prim_copies p) =
      {(\<lambda>(x, (v, c)). (x, (cell_column c, cell_row starts c))) e}" for e :: "(column \<times> nat) \<times> ('a rational \<times> cell)"
    by (simp add: constant_prims_def case_prod_unfold)
  then have "(\<Union>e\<in>set (zip ps ks). \<Union>p\<in>set (constant_prims starts e). prim_copies p) =
      (\<lambda>(x, (v, c)). (x, (cell_column c, cell_row starts c))) ` set (zip ps ks)" by blast
  then show ?thesis by simp
qed

lemma constant_prims_value:
  assumes run: "exec_prims (ps @ concat (map (constant_prims starts) (zip positions ks))) a = Ok a'"
    and fixed: "\<forall>x\<in>set positions. column_type (fst x) = Any_Fixed" and dist: "distinct positions"
    and len: "length ks \<le> length positions" and k: "k < length ks"
  shows "get2 (ka_fixed a') (col_index (fst (positions ! k)), snd (positions ! k)) = Some (fst (ks ! k))"
proof -
  let ?es = "zip positions ks" and ?x = "positions ! k"
  let ?f = "\<lambda>es. concat (map (constant_prims starts) es)"
  have es: "?es = take k ?es @ (?x, ks ! k) # drop (Suc k) ?es"
    using id_take_nth_drop [of k ?es] k len by simp
  have "constant_prims starts (?x, ks ! k) =
      [P_Fixed (col_index (fst ?x)) (snd ?x) (Some (fst (ks ! k))),
       P_Copy (fst ?x) (snd ?x) (cell_column (snd (ks ! k))) (cell_row starts (snd (ks ! k)))]"
    by (simp add: constant_prims_def case_prod_unfold)
  then have "ps @ ?f ?es = (ps @ ?f (take k ?es)) @ P_Fixed (col_index (fst ?x)) (snd ?x) (Some (fst (ks ! k))) #
      (P_Copy (fst ?x) (snd ?x) (cell_column (snd (ks ! k))) (cell_row starts (snd (ks ! k))) # ?f (drop (Suc k) ?es))"
    by (subst es) simp
  moreover have "\<not> touches p (col_index (fst ?x)) (snd ?x)" if "p \<in> set (?f (drop (Suc k) ?es))" for p
  proof
    assume t: "touches p (col_index (fst ?x)) (snd ?x)"
    from that obtain e where e: "e \<in> set (drop (Suc k) ?es)" "p \<in> set (constant_prims starts e)" by auto
    have same: "col_index (fst (fst e)) = col_index (fst ?x)" "snd (fst e) = snd ?x"
      using e(2) t by (auto simp: constant_prims_def split: prod.splits)
    have "fst e \<in> set (drop (Suc k) positions)"
      using e(1) unfolding drop_zip by (metis prod.collapse set_zip_leftD)
    then have "fst e \<noteq> ?x" "fst e \<in> set positions"
      using dist id_take_nth_drop [of k positions] k len by (metis distinct.simps(2) distinct_append less_le_trans, meson in_set_dropD)
    moreover have "fst e = ?x"
      using same fixed \<open>fst e \<in> set positions\<close> k len by (auto intro!: prod_eqI column.expand)
    ultimately show False by simp
  qed
  ultimately show ?thesis
    using exec_prims_last [of "ps @ ?f (take k ?es)" "col_index (fst ?x)" "snd ?x" "Some (fst (ks ! k))"] run
    by (metis (no_types, lifting) set_ConsD touches.simps(4))
qed

text \<open>
  C5: the equalities of a circuit survive synthesis. When V1 synthesis succeeds on an assembly
  without copies, the assembly holds exactly the equalities the circuit asked for, together with
  one for every constant: the \<open>k\<close>-th constrained cell is joined with a fixed cell of a constants
  column that no other constant uses, and that cell holds the constant.
\<close>

theorem v1_equalities:
  assumes "v1_synthesize const_cols circuit a = Ok a'" and "assembled n p (ka_permutation a) []"
    and "list_all (\<lambda>c. column_type c = Any_Fixed) const_cols" and "distinct const_cols"
  shows "\<exists>copies cells. assembled n p (ka_permutation a') copies \<and>
     length cells = length (circuit_constants circuit) \<and> distinct cells \<and>
     set copies = (\<lambda>(l, r). (ref_of p l, ref_of p r)) `
       (circuit_copies (v1_starts circuit) circuit \<union>
        (\<lambda>(x, (v, c)). (x, (cell_column c, cell_row (v1_starts circuit) c))) `
          set (zip cells (circuit_constants circuit))) \<and>
     (\<forall>k<length cells. fst (cells ! k) \<in> set const_cols \<and>
        get2 (ka_fixed a') (col_index (fst (cells ! k)), snd (cells ! k)) = Some (fst (circuit_constants circuit ! k)))"
proof -
  let ?starts = "v1_starts circuit" and ?ks = "circuit_constants circuit"
  obtain shapes m ps positions where
    shapes: "fold_outcome measure_call circuit [] = Ok shapes"
    and plan: "slot_in_biggest_advice_first shapes = Some (?starts, m)"
    and ps: "layout_prims ?starts 0 circuit ps"
    and pos: "constant_positions m (first_unassigned_row m (all_columns shapes)) const_cols = Some positions"
    and len: "length ?ks \<le> length positions"
    and run: "exec_prims (ps @ concat (map (constant_prims ?starts) (zip positions ?ks))) a = Ok a'"
    using v1_synthesize_prims [OF assms(1)] by blast
  note ms = measured [OF shapes]
  from slot_in_biggest_placed [OF ms(2,3)] plan have inv: "alloc_inv m (zip ?starts shapes)" by auto
  have dist: "distinct positions"
    using inv by (intro constant_positions_distinct [OF pos assms(4)]) (simp add: alloc_inv_def)
  have cols: "\<forall>x\<in>set positions. fst x \<in> set const_cols" using constant_positions_cols [OF pos] by auto
  then have fixed: "\<forall>x\<in>set positions. column_type (fst x) = Any_Fixed"
    using assms(3) by (simp add: list_all_iff)
  let ?cells = "take (length ?ks) positions"
  have zip: "zip ?cells ?ks = zip positions ?ks" by (intro nth_equalityI) simp_all
  obtain copies where copies: "assembled n p (ka_permutation a') copies"
    "set copies = (\<lambda>(l, r). (ref_of p l, ref_of p r)) `
       (\<Union>x\<in>set (ps @ concat (map (constant_prims ?starts) (zip positions ?ks))). prim_copies x)"
    using exec_prims_copied [OF run assms(2)] by auto
  have "(\<Union>x\<in>set (ps @ concat (map (constant_prims ?starts) (zip positions ?ks))). prim_copies x) =
      circuit_copies ?starts circuit \<union>
      (\<lambda>(x, (v, c)). (x, (cell_column c, cell_row ?starts c))) ` set (zip ?cells ?ks)"
    using layout_prims_copies [OF ps] constant_prims_copies [of ?starts positions ?ks]
    by (simp only: set_append UN_Un zip circuit_copies_def) simp
  moreover have "fst (?cells ! k) \<in> set const_cols \<and>
      get2 (ka_fixed a') (col_index (fst (?cells ! k)), snd (?cells ! k)) = Some (fst (?ks ! k))"
    if "k < length ?cells" for k
    using constant_prims_value [OF run fixed dist len, of k] cols that by simp
  ultimately show ?thesis
    using copies dist len by (intro exI [of _ copies] exI [of _ ?cells]) simp
qed

section \<open>A sample circuit\<close>

text \<open>
  Two regions that share a fixed column and an advice column, a constant and an equality, on 16
  rows of which 10 are usable.
\<close>

definition sample_adv :: column where
  "sample_adv = Column 0 (Any_Advice 0)"

definition sample_circuit :: "rat layout_call list" where
  "sample_circuit =
     [Assign_Region
        [Enable_Selector \<lparr>sel_index = 0, is_simple = True\<rparr> 1,
         Assign_Fixed (Column 0 Any_Fixed) 0 (Some (Trivial 3)),
         Assign_Advice_From_Constant sample_adv 0 (Trivial 7)],
      Assign_Region
        [Assign_Fixed (Column 0 Any_Fixed) 0 (Some (Trivial 4)),
         Assign_Advice sample_adv 0 None,
         Constrain_Equal \<lparr>cell_region = 0, cell_offset = 0, cell_column = sample_adv\<rparr>
           \<lparr>cell_region = 1, cell_offset = 0, cell_column = sample_adv\<rparr>]]"

definition sample_assembly :: "rat key_assembly" where
  "sample_assembly =
     \<lparr>ka_k = 4, ka_fixed = replicate 2 (replicate 16 Zero),
      ka_permutation = assembly_new 16 [Column 1 Any_Fixed, sample_adv],
      ka_selectors = [replicate 16 False], ka_usable_rows = 10\<rparr>"

definition is_ok :: "('e, 'a) outcome \<Rightarrow> bool" where
  "is_ok r = (case r of Ok _ \<Rightarrow> True | _ \<Rightarrow> False)"

lemma is_ok_iff: "is_ok r \<longleftrightarrow> (\<exists>x. r = Ok x)"
  by (cases r) (simp_all add: is_ok_def)

declare relabel.simps [code]

lemma sample_synthesizes: "is_ok (v1_synthesize [Column 1 Any_Fixed] sample_circuit sample_assembly)"
  by code_simp

lemma sample_typed: "list_all (list_all typed_call) (regions_of sample_circuit)"
  by (simp add: sample_circuit_def)

lemma sample_const_cols:
  "list_all (\<lambda>c. column_type c = Any_Fixed) [Column 1 Any_Fixed]" "distinct [Column 1 Any_Fixed]"
  by simp_all

theorem v1_fixed_and_selectors_witness:
  "\<exists>a'. v1_synthesize [Column 1 Any_Fixed] sample_circuit sample_assembly = Ok a' \<and>
     get2 (ka_fixed a') (0, v1_starts sample_circuit ! 1 + 0) = Some (Trivial 4) \<and>
     get2 (ka_selectors a') (0, v1_starts sample_circuit ! 0 + 1) = Some True"
proof -
  obtain a' where a': "v1_synthesize [Column 1 Any_Fixed] sample_circuit sample_assembly = Ok a'"
    using sample_synthesizes by (auto simp: is_ok_iff)
  note th = v1_fixed_and_selectors [OF a' sample_typed sample_const_cols(1)]
  have w: "written (regions_of sample_circuit ! 1) (Column 0 Any_Fixed) 0 = Some (Some (Trivial 4))"
    and l: "(1 :: nat) < length (regions_of sample_circuit)" "0 \<notin> table_columns_of sample_circuit"
    by (simp_all add: sample_circuit_def table_columns_of_def)
  have s: "Enable_Selector \<lparr>sel_index = 0, is_simple = True\<rparr> 1 \<in> set (regions_of sample_circuit ! 0)"
    by (simp add: sample_circuit_def)
  have "get2 (ka_fixed a') (0, v1_starts sample_circuit ! 1 + 0) = Some (Trivial 4)"
    using th [THEN conjunct1, rule_format, of 1 0 0 "Some (Trivial 4)"] w l by blast
  moreover have "\<exists>i<length (regions_of sample_circuit). \<exists>sel off.
      Enable_Selector sel off \<in> set (regions_of sample_circuit ! i) \<and> sel_index sel = 0 \<and>
      v1_starts sample_circuit ! 0 + 1 = v1_starts sample_circuit ! i + off"
  proof (rule exI [of _ 0], intro conjI)
    show "0 < length (regions_of sample_circuit)" using l(1) by linarith
    show "\<exists>sel off. Enable_Selector sel off \<in> set (regions_of sample_circuit ! 0) \<and> sel_index sel = 0 \<and>
        v1_starts sample_circuit ! 0 + 1 = v1_starts sample_circuit ! 0 + off"
      using s by (intro exI [of _ "\<lparr>sel_index = 0, is_simple = True\<rparr>"] exI [of _ 1]) simp
  qed
  then have "get2 (ka_selectors a') (0, v1_starts sample_circuit ! 0 + 1) = Some True"
    using th [THEN conjunct2, rule_format, of 0 "v1_starts sample_circuit ! 0 + 1"] by blast
  ultimately show ?thesis using a' by blast
qed

theorem v1_equalities_witness:
  "\<exists>a' copies cells. v1_synthesize [Column 1 Any_Fixed] sample_circuit sample_assembly = Ok a' \<and>
     assembled 16 [Column 1 Any_Fixed, sample_adv] (ka_permutation a') copies \<and> length cells = 1 \<and>
     get2 (ka_fixed a') (col_index (fst (cells ! 0)), snd (cells ! 0)) = Some (Trivial 7)"
proof -
  obtain a' where a': "v1_synthesize [Column 1 Any_Fixed] sample_circuit sample_assembly = Ok a'"
    using sample_synthesizes by (auto simp: is_ok_iff)
  have new: "assembled 16 [Column 1 Any_Fixed, sample_adv] (ka_permutation sample_assembly) []"
    by (simp add: sample_assembly_def assembled_new)
  have ks: "circuit_constants sample_circuit =
      [(Trivial 7, \<lparr>cell_region = 0, cell_offset = 0, cell_column = sample_adv\<rparr>)]"
    by (simp add: circuit_constants_def sample_circuit_def region_constants_def)
  from v1_equalities [OF a' new sample_const_cols] obtain copies cells where
    "assembled 16 [Column 1 Any_Fixed, sample_adv] (ka_permutation a') copies"
    "length cells = length (circuit_constants sample_circuit)"
    "\<forall>k<length cells. fst (cells ! k) \<in> set [Column 1 Any_Fixed] \<and>
       get2 (ka_fixed a') (col_index (fst (cells ! k)), snd (cells ! k)) =
       Some (fst (circuit_constants sample_circuit ! k))"
    by (elim exE conjE) (rule that, assumption+)
  with a' show ?thesis unfolding ks by (intro exI [of _ a'] exI [of _ copies] exI [of _ cells]) auto
qed

end
