(* ===== verification/Single_Pass.thy ===== *)
theory Single_Pass
  imports Layouter_Correct
begin

text \<open>
  The single-pass floor planner, \<open>SimpleFloorPlanner\<close> of \<open>circuit/floor_planner/single_pass.rs\<close>: every
  region is placed below all rows its columns have used so far, and constants go one by one into
  the first constants column. The calls of a region are those of the V1 planner.

  Shown here: no later region and no constant overwrites a fixed cell of an earlier region.
\<close>

section \<open>The layouter\<close>

record 'f single_chip_layouter =
  sc_cs :: "'f key_assembly"
  sc_constants :: "column list"
  sc_regions :: "nat list"
  sc_columns :: "region_column \<rightharpoonup> nat"
  sc_table_columns :: "nat list"

definition single_chip_layouter_new :: "'f key_assembly \<Rightarrow> column list \<Rightarrow> 'f single_chip_layouter" where
  "single_chip_layouter_new a const_cols =
     \<lparr>sc_cs = a, sc_constants = const_cols, sc_regions = [], sc_columns = (\<lambda>_. None), sc_table_columns = []\<rparr>"

definition column_row :: "(region_column \<rightharpoonup> nat) \<Rightarrow> region_column \<Rightarrow> nat" where
  "column_row cols c = (case cols c of None \<Rightarrow> 0 | Some r \<Rightarrow> r)"

text \<open>The first row below all rows in use by the columns of the region.\<close>

definition region_start :: "(region_column \<rightharpoonup> nat) \<Rightarrow> region_shape \<Rightarrow> nat" where
  "region_start cols shape = fold (\<lambda>c s. max s (column_row cols c)) (shape_columns shape) 0"

definition use_columns :: "(region_column \<rightharpoonup> nat) \<Rightarrow> region_shape \<Rightarrow> nat \<Rightarrow> region_column \<rightharpoonup> nat" where
  "use_columns cols shape start = fold (\<lambda>c m. m(c \<mapsto> start + row_count shape)) (shape_columns shape) cols"

definition place_constant ::
    "nat list \<Rightarrow> column \<Rightarrow> 'f key_assembly \<times> nat \<Rightarrow> 'f rational \<times> cell \<Rightarrow> (synth_error, 'f key_assembly \<times> nat) outcome" where
  "place_constant regions constants_column st e =
     (case (st, e) of ((a, next_row), (v, advice)) \<Rightarrow>
        bind_outcome (ka_assign_fixed a constants_column next_row (Some v)) (\<lambda>a.
        bind_outcome (row_at regions (cell_region advice) (cell_offset advice)) (\<lambda>r.
        bind_outcome (ka_copy a constants_column next_row (cell_column advice) r) (\<lambda>a.
        Ok (a, next_row + 1)))))"

definition single_assign_region ::
    "'f single_chip_layouter \<Rightarrow> 'f region_call list \<Rightarrow> (synth_error, 'f single_chip_layouter) outcome" where
  "single_assign_region l calls =
     (let i = length (sc_regions l)
      in bind_outcome (measure_region i calls) (\<lambda>shape.
         let start = region_start (sc_columns l) shape;
             regions = sc_regions l @ [start];
             columns = use_columns (sc_columns l) shape start
         in bind_outcome (fold_outcome (region_layouter_call regions i) calls (sc_cs l, [])) (\<lambda>(a, ks).
            case sc_constants l of
              [] \<Rightarrow> if ks \<noteq> [] then Err NotEnoughColumnsForConstants
                   else Ok (l\<lparr>sc_cs := a, sc_regions := regions, sc_columns := columns\<rparr>)
            | constants_column # _ \<Rightarrow>
                bind_outcome (fold_outcome (place_constant regions constants_column) ks
                    (a, column_row columns (RC_Column constants_column))) (\<lambda>(a, next_row).
                Ok (l\<lparr>sc_cs := a, sc_regions := regions,
                      sc_columns := columns(RC_Column constants_column \<mapsto> next_row)\<rparr>)))))"

fun single_call ::
    "'f single_chip_layouter \<Rightarrow> 'f layout_call \<Rightarrow> (synth_error, 'f single_chip_layouter) outcome" where
  "single_call l (Assign_Region calls) = single_assign_region l calls"
| "single_call l (Assign_Table calls) =
     bind_outcome (assign_table (sc_cs l, sc_table_columns l) calls) (\<lambda>(a, cols).
     Ok (l\<lparr>sc_cs := a, sc_table_columns := cols\<rparr>))"
| "single_call l (Constrain_Instance c inst row) =
     bind_outcome (row_at (sc_regions l) (cell_region c) (cell_offset c)) (\<lambda>r.
     bind_outcome (ka_copy (sc_cs l) (cell_column c) r inst row) (\<lambda>a.
     Ok (l\<lparr>sc_cs := a\<rparr>)))"

definition simple_synthesize ::
    "column list \<Rightarrow> 'f layout_call list \<Rightarrow> 'f key_assembly \<Rightarrow> (synth_error, 'f single_chip_layouter) outcome" where
  "simple_synthesize const_cols circuit a =
     fold_outcome single_call circuit (single_chip_layouter_new a const_cols)"

section \<open>Rows in use\<close>

lemma region_start_ge: "c \<in> set (shape_columns shape) \<Longrightarrow> column_row cols c \<le> region_start cols shape"
proof -
  have "s \<le> fold (\<lambda>c s. max s (f c)) cs s \<and> (\<forall>c\<in>set cs. f c \<le> fold (\<lambda>c s. max s (f c)) cs s)"
    for f :: "region_column \<Rightarrow> nat" and cs s
  proof (induction cs arbitrary: s)
    case (Cons c cs)
    from Cons.IH [of "max s (f c)"] show ?case by auto
  qed simp
  then show "c \<in> set (shape_columns shape) \<Longrightarrow> column_row cols c \<le> region_start cols shape"
    by (auto simp: region_start_def)
qed

lemma column_row_use:
  "column_row (use_columns cols shape start) c =
     (if c \<in> set (shape_columns shape) then start + row_count shape else column_row cols c)"
proof -
  have "column_row (fold (\<lambda>c m. m(c \<mapsto> v)) cs m) c = (if c \<in> set cs then v else column_row m c)" for v cs m
    by (induction cs arbitrary: m) (auto simp: column_row_def)
  then show ?thesis by (simp add: use_columns_def)
qed

lemma column_row_upd: "column_row (m(c \<mapsto> r)) d = (if d = c then r else column_row m d)"
  by (simp add: column_row_def)

abbreviation fixed_row :: "'f single_chip_layouter \<Rightarrow> nat \<Rightarrow> nat" where
  "fixed_row l c \<equiv> column_row (sc_columns l) (RC_Column (Column c Any_Fixed))"

text \<open>Constants only write below the row they start at.\<close>

lemma place_constants_frame:
  assumes "fold_outcome (place_constant regions d) ks (a, next) = Ok (a', next')" and "column_type d = Any_Fixed"
  shows "next \<le> next' \<and> (\<forall>c row. c \<noteq> col_index d \<or> row < next \<longrightarrow>
           get2 (ka_fixed a') (c, row) = get2 (ka_fixed a) (c, row))"
  using assms
proof (induction ks arbitrary: a "next")
  case (Cons e ks)
  obtain v adv where e: "e = (v, adv)" by (cases e)
  from Cons.prems(1) obtain st where st: "place_constant regions d (a, next) e = Ok st"
    and st_rest: "fold_outcome (place_constant regions d) ks st = Ok (a', next')"
    by (auto simp: outcome_simps)
  from st obtain a1 a2 r where a1: "ka_assign_fixed a d next (Some v) = Ok a1"
    and a2: "ka_copy a1 d next (cell_column adv) r = Ok a2"
    and st_eq: "st = (a2, next + 1)"
    by (auto simp: e place_constant_def outcome_simps)
  note rest = st_rest [unfolded st_eq]
  have run: "exec_prims [P_Fixed (col_index d) next (Some v), P_Copy d next (cell_column adv) r] a = Ok a2"
    using a1 a2 ka_assign_fixed_cong [of d "Column (col_index d) Any_Fixed" a] by (simp add: outcome_simps)
  have "get2 (ka_fixed a2) (c, row) = get2 (ka_fixed a) (c, row)" if "c \<noteq> col_index d \<or> row < next" for c row
    by (rule exec_prims_frame [OF run]) (use that in auto)
  with Cons.IH [OF rest Cons.prems(2)] show ?case by auto
qed simp

lemma region_prims_rows:
  assumes "measure_region i calls = Ok shape" and "list_all typed_call calls"
    and "p \<in> set (region_prims regions i calls)" and "touches p c row"
  shows "regions ! i \<le> row \<and> row < regions ! i + row_count shape \<and>
         RC_Column (Column c Any_Fixed) \<in> set (shape_columns shape)"
proof -
  obtain off to where "Assign_Fixed (Column c Any_Fixed) off to \<in> set calls" "row = regions ! i + off"
    using region_prims_touch [OF assms(3,4,2)] by blast
  with measured_shape [OF assms(1) [unfolded measure_region_def]] show ?thesis by fastforce
qed

text \<open>One region: it leaves the rows in use alone, and its own fixed cells end up in use.\<close>

lemma single_assign_region_fixed:
  assumes ok: "single_assign_region l calls = Ok l'" and typed: "list_all typed_call calls"
    and kc: "list_all (\<lambda>c. column_type c = Any_Fixed) (sc_constants l)"
  shows "(\<exists>start. sc_regions l' = sc_regions l @ [start] \<and>
            (\<forall>c off to. written calls (Column c Any_Fixed) off = Some to \<longrightarrow>
               get2 (ka_fixed (sc_cs l')) (c, start + off) = to \<and> to \<noteq> None \<and> start + off < fixed_row l' c)) \<and>
         (\<forall>c row. row < fixed_row l c \<longrightarrow>
            get2 (ka_fixed (sc_cs l')) (c, row) = get2 (ka_fixed (sc_cs l)) (c, row)) \<and>
         (\<forall>c. fixed_row l c \<le> fixed_row l' c) \<and> sc_constants l' = sc_constants l"
proof -
  let ?i = "length (sc_regions l)"
  obtain shape where shape: "measure_region ?i calls = Ok shape"
    using ok by (auto simp: single_assign_region_def outcome_simps Let_def)
  define start where "start = region_start (sc_columns l) shape"
  define regions where "regions = sc_regions l @ [start]"
  define columns where "columns = use_columns (sc_columns l) shape start"
  have "bind_outcome (fold_outcome (region_layouter_call regions ?i) calls (sc_cs l, [])) (\<lambda>(a, ks). (case sc_constants l of
              [] \<Rightarrow> if ks \<noteq> [] then Err NotEnoughColumnsForConstants
                   else Ok (l\<lparr>sc_cs := a, sc_regions := regions, sc_columns := columns\<rparr>)
            | d # _ \<Rightarrow> bind_outcome (fold_outcome (place_constant regions d) ks
                    (a, column_row columns (RC_Column d))) (\<lambda>(a, next_row).
                Ok (l\<lparr>sc_cs := a, sc_regions := regions, sc_columns := columns(RC_Column d \<mapsto> next_row)\<rparr>)))) = Ok l'"
    using ok unfolding start_def regions_def columns_def
    by (simp add: single_assign_region_def shape Let_def)
  then obtain a ks where calls: "fold_outcome (region_layouter_call regions ?i) calls (sc_cs l, []) = Ok (a, ks)"
    and l': "(case sc_constants l of
              [] \<Rightarrow> if ks \<noteq> [] then Err NotEnoughColumnsForConstants
                   else Ok (l\<lparr>sc_cs := a, sc_regions := regions, sc_columns := columns\<rparr>)
            | d # _ \<Rightarrow> bind_outcome (fold_outcome (place_constant regions d) ks
                    (a, column_row columns (RC_Column d))) (\<lambda>(a, next_row).
                Ok (l\<lparr>sc_cs := a, sc_regions := regions, sc_columns := columns(RC_Column d \<mapsto> next_row)\<rparr>))) = Ok l'"
    unfolding bind_outcome_Ok_iff by (elim exE conjE) (simp only: split_paired_all prod.case)
  have start_i: "regions ! ?i = start" by (simp add: regions_def)
  note run = region_calls_prims [OF calls, THEN conjunct1]
  note rows = region_prims_rows [OF shape typed, of _ regions, unfolded start_i]
  have mono: "column_row (sc_columns l) c \<le> column_row columns c" for c
    using region_start_ge [of c shape "sc_columns l"] by (auto simp: columns_def column_row_use start_def)
  have frame: "get2 (ka_fixed a) (c, row) = get2 (ka_fixed (sc_cs l)) (c, row)" if "row < fixed_row l c" for c row
  proof (rule exec_prims_frame [OF run])
    fix p
    assume p: "p \<in> set (region_prims regions ?i calls)"
    show "\<not> touches p c row"
    proof
      assume "touches p c row"
      from rows [OF p this] region_start_ge [of _ shape "sc_columns l"] that
      show False unfolding start_def by (meson leD le_trans)
    qed
  qed
  have own: "get2 (ka_fixed a) (c, start + off) = to \<and> to \<noteq> None \<and>
      start + off < column_row columns (RC_Column (Column c Any_Fixed))"
    if w: "written calls (Column c Any_Fixed) off = Some to" for c off to
  proof -
    obtain xs ys where xy: "region_prims regions ?i calls = xs @ P_Fixed c (start + off) to # ys"
      "\<forall>p\<in>set ys. \<not> touches p c (start + off)"
      using region_prims_written [OF w typed, of regions ?i] unfolding start_i by blast
    have "get2 (ka_fixed a) (c, start + off) = to \<and> to \<noteq> None"
      using exec_prims_last [of xs c "start + off" to ys] run xy by metis
    moreover have "P_Fixed c (start + off) to \<in> set (region_prims regions ?i calls)" using xy(1) by simp
    from rows [OF this] have "RC_Column (Column c Any_Fixed) \<in> set (shape_columns shape)"
      "start + off < start + row_count shape" by auto
    ultimately show ?thesis by (simp add: columns_def column_row_use)
  qed
  show ?thesis
  proof (cases "sc_constants l")
    case Nil
    then have "l' = l\<lparr>sc_cs := a, sc_regions := regions, sc_columns := columns\<rparr>"
      using l' by (auto split: if_splits)
    then show ?thesis using own frame mono by (simp add: regions_def)
  next
    case (Cons d ds)
    then obtain b nr where b: "fold_outcome (place_constant regions d) ks (a, column_row columns (RC_Column d)) = Ok (b, nr)"
      and l'': "l' = l\<lparr>sc_cs := b, sc_regions := regions, sc_columns := columns(RC_Column d \<mapsto> nr)\<rparr>"
      using l' by (auto simp: outcome_simps)
    have d: "d = Column (col_index d) Any_Fixed" using kc Cons by (auto intro: column.expand)
    have keep: "get2 (ka_fixed b) (c, row) = get2 (ka_fixed a) (c, row)"
      if "row < column_row columns (RC_Column (Column c Any_Fixed))" for c row
      using place_constants_frame [OF b] d that by (metis column.sel(2))
    have grow: "column_row columns c \<le> column_row (columns(RC_Column d \<mapsto> nr)) c" for c
      using place_constants_frame [OF b] d by (metis column.sel(2) column_row_upd order_refl)
    have "get2 (ka_fixed b) (c, row) = get2 (ka_fixed (sc_cs l)) (c, row)" if "row < fixed_row l c" for c row
      using keep [OF less_le_trans [OF that mono]] frame [OF that] by simp
    moreover have "get2 (ka_fixed b) (c, start + off) = to \<and> to \<noteq> None \<and>
        start + off < column_row (columns(RC_Column d \<mapsto> nr)) (RC_Column (Column c Any_Fixed))"
      if "written calls (Column c Any_Fixed) off = Some to" for c off to
      using own [OF that] keep [of "start + off" c] less_le_trans [OF _ grow] by simp
    moreover have "column_row (sc_columns l) c \<le> column_row (columns(RC_Column d \<mapsto> nr)) c" for c
      using mono grow le_trans by blast
    ultimately show ?thesis unfolding l'' by (simp add: regions_def Cons)
  qed
qed

section \<open>All calls of a circuit\<close>

lemma single_calls_fixed:
  assumes "fold_outcome single_call circuit l = Ok l'" and "list_all (list_all typed_call) (regions_of circuit)"
    and "list_all (\<lambda>c. column_type c = Any_Fixed) (sc_constants l)"
  shows "(\<forall>c row. c \<notin> table_columns_of circuit \<and> row < fixed_row l c \<longrightarrow>
            get2 (ka_fixed (sc_cs l')) (c, row) = get2 (ka_fixed (sc_cs l)) (c, row)) \<and>
         (\<exists>starts. sc_regions l' = sc_regions l @ starts \<and> length starts = length (regions_of circuit) \<and>
            (\<forall>i c off to. i < length starts \<and> c \<notin> table_columns_of circuit \<and>
               written (regions_of circuit ! i) (Column c Any_Fixed) off = Some to \<longrightarrow>
               get2 (ka_fixed (sc_cs l')) (c, starts ! i + off) = to \<and> to \<noteq> None))"
  using assms
proof (induction circuit arbitrary: l)
  case Nil
  then show ?case by simp
next
  case (Cons call circuit)
  from Cons.prems(1) obtain m where m: "single_call l call = Ok m"
    and rest: "fold_outcome single_call circuit m = Ok l'" by (auto simp: outcome_simps)
  show ?case
  proof (cases call)
    case (Assign_Region calls)
    with m have "single_assign_region l calls = Ok m" by simp
    from single_assign_region_fixed [OF this] Cons.prems(2,3) Assign_Region obtain start where
      reg: "sc_regions m = sc_regions l @ [start]" "sc_constants m = sc_constants l"
        "\<And>c. fixed_row l c \<le> fixed_row m c"
      and own: "\<And>c off to. written calls (Column c Any_Fixed) off = Some to \<Longrightarrow>
          get2 (ka_fixed (sc_cs m)) (c, start + off) = to \<and> to \<noteq> None \<and> start + off < fixed_row m c"
      and frame: "\<And>c row. row < fixed_row l c \<Longrightarrow>
          get2 (ka_fixed (sc_cs m)) (c, row) = get2 (ka_fixed (sc_cs l)) (c, row)"
      by auto
    have tc: "table_columns_of (call # circuit) = table_columns_of circuit"
      by (simp add: table_columns_of_Cons Assign_Region)
    from Cons.IH [OF rest] Cons.prems(2,3) Assign_Region reg(2) obtain starts where
      keep: "\<And>c row. c \<notin> table_columns_of circuit \<Longrightarrow> row < fixed_row m c \<Longrightarrow>
          get2 (ka_fixed (sc_cs l')) (c, row) = get2 (ka_fixed (sc_cs m)) (c, row)"
      and st: "sc_regions l' = sc_regions m @ starts" "length starts = length (regions_of circuit)"
      and later: "\<And>i c off to. i < length starts \<Longrightarrow> c \<notin> table_columns_of circuit \<Longrightarrow>
          written (regions_of circuit ! i) (Column c Any_Fixed) off = Some to \<Longrightarrow>
          get2 (ka_fixed (sc_cs l')) (c, starts ! i + off) = to \<and> to \<noteq> None"
      by auto
    have "get2 (ka_fixed (sc_cs l')) (c, (start # starts) ! i + off) = to \<and> to \<noteq> None"
      if "i < length (start # starts)" "c \<notin> table_columns_of circuit"
        "written ((calls # regions_of circuit) ! i) (Column c Any_Fixed) off = Some to" for i c off to
    proof (cases i)
      case 0
      with that own [of c off to] keep [OF that(2), of "start + off"] show ?thesis by simp
    next
      case (Suc j)
      with that later [of j c off to] show ?thesis by simp
    qed
    moreover have "get2 (ka_fixed (sc_cs l')) (c, row) = get2 (ka_fixed (sc_cs l)) (c, row)"
      if "c \<notin> table_columns_of circuit" "row < fixed_row l c" for c row
      using keep [OF that(1) less_le_trans [OF that(2) reg(3)]] frame [OF that(2)] by simp
    ultimately show ?thesis
      unfolding tc using st reg(1) Assign_Region by (intro conjI allI impI exI [of _ "start # starts"]) auto
  next
    case (Assign_Table calls)
    with m obtain a cols where a: "assign_table (sc_cs l, sc_table_columns l) calls = Ok (a, cols)"
      and m': "m = l\<lparr>sc_cs := a, sc_table_columns := cols\<rparr>" by (auto simp: outcome_simps)
    from assign_table_confined [OF a] obtain ps where
      ps: "exec_prims ps (sc_cs l) = Ok a" "\<forall>p\<in>set ps. in_columns (fst ` set calls) p"
      by (auto simp: confined_def)
    have frame: "get2 (ka_fixed a) (c, row) = get2 (ka_fixed (sc_cs l)) (c, row)" if "c \<notin> fst ` set calls" for c row
      by (rule exec_prims_frame [OF ps(1)]) (use ps(2) that touches_in_columns in blast)
    show ?thesis
      using Cons.IH [OF rest] Cons.prems(2,3) frame Assign_Table m'
      by (simp add: table_columns_of_Cons) blast
  next
    case (Constrain_Instance d inst row)
    with m obtain r a where a: "exec_prim (sc_cs l) (P_Copy (cell_column d) r inst row) = Ok a"
      and m': "m = l\<lparr>sc_cs := a\<rparr>" by (auto simp: outcome_simps)
    have frame: "get2 (ka_fixed a) (c, row) = get2 (ka_fixed (sc_cs l)) (c, row)" for c row
      by (rule exec_prim_fixed [OF a]) simp
    show ?thesis
      using Cons.IH [OF rest] Cons.prems(2,3) frame Constrain_Instance m'
      by (simp add: table_columns_of_Cons)
  qed
qed

text \<open>
  C37: the single-pass planner keeps the fixed cells of all regions. When synthesis succeeds, every
  region has a start, and every fixed cell of every region holds the value the region assigned to
  it last: regions placed later and the constants of all regions stay below it.
\<close>

theorem simple_synthesize_fixed:
  assumes "simple_synthesize const_cols circuit a = Ok l"
    and "list_all (list_all typed_call) (regions_of circuit)"
    and "list_all (\<lambda>c. column_type c = Any_Fixed) const_cols"
  shows "length (sc_regions l) = length (regions_of circuit) \<and>
    (\<forall>i c off to. i < length (regions_of circuit) \<and> c \<notin> table_columns_of circuit \<and>
       written (regions_of circuit ! i) (Column c Any_Fixed) off = Some to \<longrightarrow>
       get2 (ka_fixed (sc_cs l)) (c, sc_regions l ! i + off) = to \<and> to \<noteq> None)"
  using single_calls_fixed [OF assms(1) [unfolded simple_synthesize_def] assms(2)] assms(3)
  by (auto simp: single_chip_layouter_new_def)

lemma sample_simple: "is_ok (simple_synthesize [Column 1 Any_Fixed] sample_circuit sample_assembly)"
  by code_simp

theorem simple_synthesize_fixed_witness:
  "\<exists>l. simple_synthesize [Column 1 Any_Fixed] sample_circuit sample_assembly = Ok l \<and>
     get2 (ka_fixed (sc_cs l)) (0, sc_regions l ! 1 + 0) = Some (Trivial 4)"
proof -
  obtain l where l: "simple_synthesize [Column 1 Any_Fixed] sample_circuit sample_assembly = Ok l"
    using sample_simple by (auto simp: is_ok_iff)
  have w: "written (regions_of sample_circuit ! 1) (Column 0 Any_Fixed) 0 = Some (Some (Trivial 4))"
    and len: "(1 :: nat) < length (regions_of sample_circuit)" "0 \<notin> table_columns_of sample_circuit"
    by (simp_all add: sample_circuit_def table_columns_of_def)
  from simple_synthesize_fixed [OF l sample_typed sample_const_cols(1), THEN conjunct2, rule_format,
      of 1 0 0 "Some (Trivial 4)"] w len l
  show ?thesis by blast
qed

end
