(* ===== verification/Kzg_Sets.thy ===== *)
theory Kzg_Sets
  imports Midfall_Prelude "HOL-Library.Monad_Syntax" "HOL-Library.Multiset"
begin

text \<open>
  The grouping of opening queries for the multi-open argument, \<open>poly/kzg/utils.rs\<close>:
  \<open>construct_intermediate_sets\<close> collects the queries of every commitment and groups the commitments
  by the set of points they are opened at, and \<open>compute_dummy_queries\<close> computes the extra openings
  that reduce the number of such sets. Hash maps and B-tree maps are association lists; a B-tree
  set of indices is the increasing list of its elements.
\<close>

section \<open>Queries and grouped commitments\<close>

record ('p, 'c, 'e, 'l) query =
  get_point :: 'p
  get_commitment :: 'c
  get_commitment_label :: 'l
  get_eval :: 'e

record ('c, 'e, 'l) commitment_data =
  cd_label :: 'l
  cd_commitment :: 'c
  cd_set_index :: nat
  cd_point_indices :: "nat list"
  cd_evals :: "'e list"

definition commitment_data_new :: "'c \<Rightarrow> 'l \<Rightarrow> ('c, 'e, 'l) commitment_data" where
  "commitment_data_new c l = \<lparr>cd_label = l, cd_commitment = c, cd_set_index = 0, cd_point_indices = [], cd_evals = []\<rparr>"

datatype kzg_error = DuplicatedQuery

text \<open>\<open>entry(k).or_insert(len)\<close>: the index of \<open>k\<close>, which is new when \<open>k\<close> is.\<close>

definition entry_or_insert :: "('k \<times> nat) list \<Rightarrow> 'k \<Rightarrow> ('k \<times> nat) list \<times> nat" where
  "entry_or_insert m k = (case map_of m k of Some i \<Rightarrow> (m, i) | None \<Rightarrow> (m @ [(k, length m)], length m))"

text \<open>The first loop over the queries.\<close>

definition collect_query ::
    "('c, 'e, 'l) commitment_data list \<times> ('p \<times> nat) list \<Rightarrow> ('p, 'c, 'e, 'l) query
     \<Rightarrow> (kzg_error, ('c, 'e, 'l) commitment_data list \<times> ('p \<times> nat) list) outcome" where
  "collect_query st q =
     (case st of (commitment_map, point_index_map) \<Rightarrow>
        let (point_index_map, point_idx) = entry_or_insert point_index_map (get_point q)
        in (case position (\<lambda>comm. cd_commitment comm = get_commitment q) commitment_map of
              Some pos \<Rightarrow>
                let comm = commitment_map ! pos
                in if point_idx \<in> set (cd_point_indices comm) then Err DuplicatedQuery
                   else Ok (commitment_map[pos := comm\<lparr>cd_point_indices := cd_point_indices comm @ [point_idx]\<rparr>],
                            point_index_map)
            | None \<Rightarrow>
                Ok (commitment_map @ [(commitment_data_new (get_commitment q) (get_commitment_label q))
                      \<lparr>cd_point_indices := [point_idx]\<rparr>], point_index_map)))"

fun collect_queries ::
    "('p, 'c, 'e, 'l) query list \<Rightarrow> ('c, 'e, 'l) commitment_data list \<times> ('p \<times> nat) list
     \<Rightarrow> (kzg_error, ('c, 'e, 'l) commitment_data list \<times> ('p \<times> nat) list) outcome" where
  "collect_queries [] st = Ok st"
| "collect_queries (q # qs) st = bind_outcome (collect_query st q) (collect_queries qs)"

definition btree_set :: "nat list \<Rightarrow> nat list" where
  "btree_set xs = sort (remdups xs)"

text \<open>The map from sets of point indices to set indices, in order of first occurrence.\<close>

definition number_sets :: "('c, 'e, 'l) commitment_data list \<Rightarrow> (nat list \<times> nat) list" where
  "number_sets commitment_map =
     fold (\<lambda>cd m. fst (entry_or_insert m (btree_set (cd_point_indices cd)))) commitment_map []"

text \<open>The loop that fills in the evaluations and set indices; \<open>None\<close> is a failed \<open>unwrap\<close> or assertion.\<close>

definition fill_query ::
    "('p \<times> nat) list \<Rightarrow> ('c \<times> nat list) list \<Rightarrow> (nat list \<times> nat) list \<Rightarrow> ('p, 'c, 'e, 'l) query
     \<Rightarrow> ('c, 'e, 'l) commitment_data list \<Rightarrow> ('c, 'e, 'l) commitment_data list option" where
  "fill_query point_index_map commitment_set_map point_idx_sets q commitment_map =
     do { point_index \<leftarrow> map_of point_index_map (get_point q);
          point_index_set \<leftarrow> map_option snd (find (\<lambda>(c, _). c = get_commitment q) commitment_set_map);
          if point_index_set = [] then None
          else do {
            set_index \<leftarrow> map_of point_idx_sets point_index_set;
            point_index_in_set \<leftarrow> position (\<lambda>i. i = point_index) point_index_set;
            those (map (\<lambda>cd.
              if get_commitment q = cd_commitment cd
              then if point_index_in_set < length (cd_evals cd)
                   then Some (cd\<lparr>cd_set_index := set_index, cd_evals := (cd_evals cd)[point_index_in_set := get_eval q]\<rparr>)
                   else None
              else Some cd) commitment_map) } }"

fun fill_queries ::
    "('p \<times> nat) list \<Rightarrow> ('c \<times> nat list) list \<Rightarrow> (nat list \<times> nat) list \<Rightarrow> ('p, 'c, 'e, 'l) query list
     \<Rightarrow> ('c, 'e, 'l) commitment_data list \<Rightarrow> ('c, 'e, 'l) commitment_data list option" where
  "fill_queries pim csm sets [] cm = Some cm"
| "fill_queries pim csm sets (q # qs) cm = Option.bind (fill_query pim csm sets q cm) (fill_queries pim csm sets qs)"

definition push_point_set ::
    "('p \<times> nat) list \<Rightarrow> nat list \<times> nat \<Rightarrow> 'p list list \<Rightarrow> 'p list list option" where
  "push_point_set point_index_map e point_sets =
     do { points \<leftarrow> those (map (map_of (map (\<lambda>(p, i). (i, p)) point_index_map)) (fst e));
          if snd e < length point_sets then Some (point_sets[snd e := point_sets ! snd e @ points]) else None }"

fun push_point_sets ::
    "('p \<times> nat) list \<Rightarrow> (nat list \<times> nat) list \<Rightarrow> 'p list list \<Rightarrow> 'p list list option" where
  "push_point_sets pim [] ps = Some ps"
| "push_point_sets pim (e # es) ps = Option.bind (push_point_set pim e ps) (push_point_sets pim es)"

definition construct_intermediate_sets ::
    "'e \<Rightarrow> ('p, 'c, 'e, 'l) query list \<Rightarrow> (kzg_error, ('c, 'e, 'l) commitment_data list \<times> 'p list list) outcome" where
  "construct_intermediate_sets default_eval queries =
     bind_outcome (collect_queries queries ([], [])) (\<lambda>(commitment_map, point_index_map).
       let point_idx_sets = number_sets commitment_map;
           commitment_set_map = map (\<lambda>cd. (cd_commitment cd, btree_set (cd_point_indices cd))) commitment_map;
           commitment_map = map (\<lambda>cd. cd\<lparr>cd_evals := replicate (length (cd_point_indices cd)) default_eval\<rparr>) commitment_map
       in case fill_queries point_index_map commitment_set_map point_idx_sets queries commitment_map of
            None \<Rightarrow> Panic
          | Some commitment_map \<Rightarrow>
              (case push_point_sets point_index_map point_idx_sets (replicate (length point_idx_sets) []) of
                 None \<Rightarrow> Panic
               | Some point_sets \<Rightarrow> Ok (commitment_map, point_sets)))"

section \<open>Dummy queries\<close>

text \<open>The grouping by key; \<open>None\<close> is the panic on a duplicate pair.\<close>

definition group_pair ::
    "('k \<times> 'p) list \<Rightarrow> nat \<times> 'k \<times> 'p \<Rightarrow> (nat \<times> 'p list) list \<Rightarrow> (nat \<times> 'p list) list option" where
  "group_pair pairs e groups =
     (case e of (i, key, point) \<Rightarrow>
        case position (\<lambda>(idx, _). fst (pairs ! idx) = key) groups of
          Some g \<Rightarrow> (case groups ! g of (idx, points) \<Rightarrow>
                      if point \<notin> set points then Some (groups[g := (idx, points @ [point])]) else None)
        | None \<Rightarrow> Some (groups @ [(i, [point])]))"

fun group_pairs ::
    "('k \<times> 'p) list \<Rightarrow> (nat \<times> 'k \<times> 'p) list \<Rightarrow> (nat \<times> 'p list) list \<Rightarrow> (nat \<times> 'p list) list option" where
  "group_pairs pairs [] groups = Some groups"
| "group_pairs pairs (e # es) groups = Option.bind (group_pair pairs e groups) (group_pairs pairs es)"

definition push_new :: "'p \<Rightarrow> 'p list \<Rightarrow> 'p list" where
  "push_new p ps = (if p \<in> set ps then ps else ps @ [p])"

definition point_union :: "(nat \<times> 'p list) list \<Rightarrow> 'p list" where
  "point_union groups =
     fold (\<lambda>(_, points) u. if length points = 1 then u else fold push_new points u) groups []"

definition compute_dummy_queries :: "('k \<times> 'p) list \<Rightarrow> (nat \<times> 'p) list option" where
  "compute_dummy_queries pairs =
     do { groups \<leftarrow> group_pairs pairs (zip [0..<length pairs] pairs) [];
          if list_ex (\<lambda>(_, points). points = []) groups then None
          else let union = point_union groups
               in Some (concat (map (\<lambda>(idx, existing).
                    map (Pair idx) (filter (\<lambda>p. p \<notin> set existing) union)) groups)) }"

section \<open>Numbering by first occurrence\<close>

definition numbered :: "('k \<times> nat) list \<Rightarrow> bool" where
  "numbered m \<longleftrightarrow> distinct (map fst m) \<and> map snd m = [0..<length m]"

abbreviation idx_of :: "('k \<times> nat) list \<Rightarrow> 'k \<Rightarrow> nat" where
  "idx_of m k \<equiv> the (map_of m k)"

lemma numbered_Nil [simp]: "numbered []"
  by (simp add: numbered_def)

lemma numbered_nth:
  assumes "numbered m" and "i < length m"
  shows "m ! i = (fst (m ! i), i)"
  using assms nth_map [of i m snd] by (simp add: numbered_def prod_eq_iff)

lemma numbered_idx:
  assumes "numbered m" and "k \<in> fst ` set m"
  shows "map_of m k = Some (idx_of m k) \<and> idx_of m k < length m \<and> fst (m ! idx_of m k) = k"
proof -
  obtain i where i: "i < length m" "fst (m ! i) = k" using assms(2) by (auto simp: in_set_conv_nth)
  have "map_of m k = Some i"
    using assms(1) i numbered_nth [OF assms(1) i(1)] by (metis map_of_eq_Some_iff nth_mem numbered_def)
  with i show ?thesis by simp
qed

lemma numbered_idx_inj:
  "\<lbrakk>numbered m; k \<in> fst ` set m; k' \<in> fst ` set m; idx_of m k = idx_of m k'\<rbrakk> \<Longrightarrow> k = k'"
  using numbered_idx by metis

lemma entry_or_insert_spec:
  assumes "numbered m" and "entry_or_insert m k = (m', i)"
  shows "numbered m'" and "fst ` set m' = insert k (fst ` set m)" and "map_of m' k = Some i"
    and "\<And>k'. k' \<in> fst ` set m \<Longrightarrow> map_of m' k' = map_of m k'"
proof -
  have *: "numbered m' \<and> fst ` set m' = insert k (fst ` set m) \<and> map_of m' k = Some i \<and>
      (\<forall>k'\<in>fst ` set m. map_of m' k' = map_of m k')"
  proof (cases "map_of m k")
    case None
    then have "k \<notin> fst ` set m" by (simp add: map_of_eq_None_iff)
    moreover have "m' = m @ [(k, length m)]" "i = length m"
      using assms(2) None by (auto simp: entry_or_insert_def)
    ultimately show ?thesis
      using assms(1) None by (auto simp: numbered_def map_add_def split: option.splits)
  next
    case (Some j)
    then have "k \<in> fst ` set m" by (force dest: map_of_SomeD)
    moreover have "m' = m" "i = j" using assms(2) Some by (auto simp: entry_or_insert_def)
    ultimately show ?thesis using assms(1) Some by auto
  qed
  then show "numbered m'" "fst ` set m' = insert k (fst ` set m)" "map_of m' k = Some i"
    "\<And>k'. k' \<in> fst ` set m \<Longrightarrow> map_of m' k' = map_of m k'" by auto
qed

lemma number_fold:
  "numbered m \<Longrightarrow> numbered (fold (\<lambda>x m. fst (entry_or_insert m (f x))) xs m) \<and>
     fst ` set (fold (\<lambda>x m. fst (entry_or_insert m (f x))) xs m) = fst ` set m \<union> f ` set xs"
proof (induction xs arbitrary: m)
  case (Cons x xs)
  obtain m' i where e: "entry_or_insert m (f x) = (m', i)" by fastforce
  from entry_or_insert_spec [OF Cons.prems e] Cons.IH [of m'] show ?case by (simp add: e)
qed simp

lemma numbered_number_sets:
  "numbered (number_sets cm)" "fst ` set (number_sets cm) = (\<lambda>cd. btree_set (cd_point_indices cd)) ` set cm"
  using number_fold [of "[]" "\<lambda>cd. btree_set (cd_point_indices cd)" cm] by (simp_all add: number_sets_def)

section \<open>Collecting the queries\<close>

abbreviation query_pairs :: "('p, 'c, 'e, 'l) query list \<Rightarrow> ('c \<times> 'p) list" where
  "query_pairs qs \<equiv> map (\<lambda>q. (get_commitment q, get_point q)) qs"

definition points_for :: "('p, 'c, 'e, 'l) query list \<Rightarrow> 'c \<Rightarrow> 'p list" where
  "points_for qs c = map get_point (filter (\<lambda>q. get_commitment q = c) qs)"

definition collected ::
    "('p, 'c, 'e, 'l) query list \<Rightarrow> ('c, 'e, 'l) commitment_data list \<times> ('p \<times> nat) list \<Rightarrow> bool" where
  "collected qs st \<longleftrightarrow> (case st of (cm, pim) \<Rightarrow>
     distinct (query_pairs qs) \<and> numbered pim \<and> fst ` set pim = get_point ` set qs \<and>
     distinct (map cd_commitment cm) \<and> cd_commitment ` set cm = get_commitment ` set qs \<and>
     (\<forall>cd\<in>set cm. cd_point_indices cd = map (idx_of pim) (points_for qs (cd_commitment cd))))"

lemma points_for_snoc:
  "points_for (qs @ [q]) c = points_for qs c @ (if get_commitment q = c then [get_point q] else [])"
  by (simp add: points_for_def)

lemma points_for_set: "set (points_for qs c) = {p. (c, p) \<in> set (query_pairs qs)}"
  by (force simp: points_for_def)

lemma collected_indices:
  assumes "collected qs (cm, pim)" and "cd \<in> set cm"
  shows "distinct (cd_point_indices cd)" and "cd_point_indices cd \<noteq> []"
    and "set (cd_point_indices cd) \<subseteq> {..<length pim}"
proof -
  let ?ps = "points_for qs (cd_commitment cd)"
  have eq: "cd_point_indices cd = map (idx_of pim) ?ps" and num: "numbered pim"
    and pts: "fst ` set pim = get_point ` set qs"
    using assms by (auto simp: collected_def)
  have sub: "set ?ps \<subseteq> fst ` set pim" unfolding pts by (auto simp: points_for_def)
  have "distinct ?ps"
    using assms(1) by (auto simp: collected_def points_for_def distinct_map inj_on_def)
  moreover have "inj_on (idx_of pim) (set ?ps)"
  proof (rule inj_onI)
    fix x y
    assume "x \<in> set ?ps" "y \<in> set ?ps" "idx_of pim x = idx_of pim y"
    then show "x = y" using sub by (intro numbered_idx_inj [OF num]) auto
  qed
  ultimately show "distinct (cd_point_indices cd)" by (simp add: eq distinct_map)
  have "cd_commitment cd \<in> get_commitment ` set qs" using assms by (auto simp: collected_def)
  then show "cd_point_indices cd \<noteq> []" by (auto simp: eq points_for_def filter_empty_conv)
  show "set (cd_point_indices cd) \<subseteq> {..<length pim}"
  proof
    fix k
    assume "k \<in> set (cd_point_indices cd)"
    then obtain p where p: "p \<in> set ?ps" "k = idx_of pim p" by (auto simp: eq)
    with sub have "p \<in> fst ` set pim" by blast
    from numbered_idx [OF num this] p(2) show "k \<in> {..<length pim}" by simp
  qed
qed

lemma collect_query_step:
  assumes inv: "collected qs (cm, pim)"
  shows "((get_commitment q, get_point q) \<in> set (query_pairs qs) \<longrightarrow> collect_query (cm, pim) q = Err DuplicatedQuery) \<and>
         ((get_commitment q, get_point q) \<notin> set (query_pairs qs) \<longrightarrow>
            (\<exists>st. collect_query (cm, pim) q = Ok st \<and> collected (qs @ [q]) st))"
proof -
  obtain pim' i where e: "entry_or_insert pim (get_point q) = (pim', i)" by fastforce
  have num: "numbered pim" and pts: "fst ` set pim = get_point ` set qs"
    and dist: "distinct (map cd_commitment cm)" and coms: "cd_commitment ` set cm = get_commitment ` set qs"
    and idx: "\<And>cd. cd \<in> set cm \<Longrightarrow> cd_point_indices cd = map (idx_of pim) (points_for qs (cd_commitment cd))"
    using inv by (auto simp: collected_def)
  note spec = entry_or_insert_spec [OF num e]
  have same: "map (idx_of pim) (points_for qs c) = map (idx_of pim') (points_for qs c)" for c
    using spec(4) pts by (intro map_cong refl) (auto simp: points_for_def)
  have pts': "fst ` set pim' = get_point ` set (qs @ [q])" using spec(2) pts by simp
  show ?thesis
  proof (cases "position (\<lambda>comm. cd_commitment comm = get_commitment q) cm")
    case None
    then have new: "get_commitment q \<notin> get_commitment ` set qs"
      unfolding coms [symmetric] by (auto simp: vec_simps)
    then have "points_for qs (get_commitment q) = []" by (simp add: points_for_def filter_empty_conv) (metis imageI)
    then have "collected (qs @ [q]) (cm @ [(commitment_data_new (get_commitment q) (get_commitment_label q))
                      \<lparr>cd_point_indices := [i]\<rparr>], pim')"
      using inv new spec(1,3) pts' coms idx same
      by (auto simp: collected_def points_for_snoc commitment_data_new_def)
    with None e new show ?thesis by (auto simp: collect_query_def)
  next
    case (Some pos)
    then have pos: "pos < length cm" "cd_commitment (cm ! pos) = get_commitment q"
      by (auto dest: position_SomeD)
    have ind: "cd_point_indices (cm ! pos) = map (idx_of pim') (points_for qs (get_commitment q))"
      using idx [of "cm ! pos"] pos same by simp
    have mem: "i \<in> set (cd_point_indices (cm ! pos)) \<longleftrightarrow>
        (get_commitment q, get_point q) \<in> set (query_pairs qs)"
    proof
      assume "i \<in> set (cd_point_indices (cm ! pos))"
      then obtain p where p: "p \<in> set (points_for qs (get_commitment q))" "i = idx_of pim' p"
        by (auto simp: ind)
      then have "p \<in> fst ` set pim'" unfolding pts' by (auto simp: points_for_def)
      moreover have "idx_of pim' p = idx_of pim' (get_point q)" using p(2) spec(3) by simp
      moreover have "get_point q \<in> fst ` set pim'" unfolding spec(2) by simp
      ultimately have "p = get_point q" by (intro numbered_idx_inj [OF spec(1)])
      with p(1) show "(get_commitment q, get_point q) \<in> set (query_pairs qs)" unfolding points_for_set by simp
    next
      assume "(get_commitment q, get_point q) \<in> set (query_pairs qs)"
      then have "get_point q \<in> set (points_for qs (get_commitment q))" by (simp add: points_for_set)
      with spec(3) show "i \<in> set (cd_point_indices (cm ! pos))" by (force simp: ind)
    qed
    let ?cm = "cm[pos := (cm ! pos)\<lparr>cd_point_indices := cd_point_indices (cm ! pos) @ [i]\<rparr>]"
    have mapc: "map cd_commitment ?cm = map cd_commitment cm"
      using pos by (simp add: map_update list_update_same_conv)
    have "cd_commitment ` set ?cm = cd_commitment ` set cm" by (metis mapc set_map)
    moreover have "cd_point_indices cd = map (idx_of pim') (points_for (qs @ [q]) (cd_commitment cd))"
      if "cd \<in> set ?cm" for cd
    proof -
      from that obtain j where j: "j < length cm" "cd = ?cm ! j" by (auto simp: in_set_conv_nth)
      show ?thesis
      proof (cases "j = pos")
        case True
        with j pos ind spec(3) show ?thesis by (simp add: points_for_snoc)
      next
        case False
        then have "cd_commitment cd \<noteq> get_commitment q"
          using dist j pos by (metis length_map nth_eq_iff_index_eq nth_list_update_neq nth_map)
        with False j idx [of cd] same show ?thesis by (simp add: points_for_snoc)
      qed
    qed
    moreover have "get_commitment q \<in> get_commitment ` set qs"
      unfolding coms [symmetric] using pos by (metis image_eqI nth_mem)
    ultimately have "collected (qs @ [q]) (?cm, pim')" if "(get_commitment q, get_point q) \<notin> set (query_pairs qs)"
      using inv that spec(1) pts' coms by (auto simp: collected_def mapc)
    with Some e mem show ?thesis by (simp add: collect_query_def Let_def)
  qed
qed

lemma collect_queries_spec:
  "collected ps (cm, pim) \<Longrightarrow>
    (\<not> distinct (query_pairs (ps @ qs)) \<longrightarrow> collect_queries qs (cm, pim) = Err DuplicatedQuery) \<and>
    (distinct (query_pairs (ps @ qs)) \<longrightarrow> (\<exists>st. collect_queries qs (cm, pim) = Ok st \<and> collected (ps @ qs) st))"
proof (induction qs arbitrary: ps cm pim)
  case Nil
  then have "distinct (query_pairs ps)" by (simp add: collected_def)
  with Nil show ?case by auto
next
  case (Cons q qs)
  show ?case
  proof (cases "(get_commitment q, get_point q) \<in> set (query_pairs ps)")
    case True
    then have "\<not> distinct (query_pairs (ps @ q # qs))" by auto
    with True collect_query_step [OF Cons.prems, of q] show ?thesis by simp
  next
    case False
    with collect_query_step [OF Cons.prems, of q] obtain cm' pim' where
      "collect_query (cm, pim) q = Ok (cm', pim')" "collected (ps @ [q]) (cm', pim')" by auto
    with Cons.IH [of "ps @ [q]" cm' pim'] show ?thesis by simp
  qed
qed

lemma collected_Nil: "collected [] ([], [])"
  by (simp add: collected_def)

section \<open>Filling in the evaluations\<close>

lemma btree_set_props: "set (btree_set xs) = set xs" "distinct (btree_set xs)"
  by (simp_all add: btree_set_def)

lemma length_btree_set: "distinct xs \<Longrightarrow> length (btree_set xs) = length xs"
  by (simp add: btree_set_def distinct_remdups_id)

text \<open>The position of a query among the sorted points of its commitment.\<close>

definition slot :: "('p \<times> nat) list \<Rightarrow> ('c, 'e, 'l) commitment_data \<Rightarrow> 'p \<Rightarrow> nat" where
  "slot pim cd p = the (position (\<lambda>i. i = idx_of pim p) (btree_set (cd_point_indices cd)))"

lemma slot_spec:
  assumes inv: "collected qs (cm, pim)" and cd: "cd \<in> set cm" and p: "(cd_commitment cd, p) \<in> set (query_pairs qs)"
  shows "position (\<lambda>i. i = idx_of pim p) (btree_set (cd_point_indices cd)) = Some (slot pim cd p)"
    and "slot pim cd p < length (cd_point_indices cd)"
    and "btree_set (cd_point_indices cd) ! slot pim cd p = idx_of pim p"
proof -
  have "p \<in> set (points_for qs (cd_commitment cd))" using p by (simp only: points_for_set mem_Collect_eq)
  moreover have "cd_point_indices cd = map (idx_of pim) (points_for qs (cd_commitment cd))"
    using inv cd by (simp add: collected_def)
  ultimately have "idx_of pim p \<in> set (cd_point_indices cd)" by simp
  then have "idx_of pim p \<in> set (btree_set (cd_point_indices cd))" by (simp add: btree_set_props)
  then obtain k where k: "position (\<lambda>i. i = idx_of pim p) (btree_set (cd_point_indices cd)) = Some k"
    using position_None_iff [of "\<lambda>i. i = idx_of pim p"] by blast
  then show "position (\<lambda>i. i = idx_of pim p) (btree_set (cd_point_indices cd)) = Some (slot pim cd p)"
    by (simp add: slot_def)
  have s: "slot pim cd p = k" by (simp add: slot_def k)
  from position_SomeD [OF k] show "slot pim cd p < length (cd_point_indices cd)"
    "btree_set (cd_point_indices cd) ! slot pim cd p = idx_of pim p"
    using collected_indices(1) [OF inv cd] by (simp_all add: s length_btree_set)
qed

lemma slot_inj:
  assumes "collected qs (cm, pim)" "cd \<in> set cm"
    and "(cd_commitment cd, p) \<in> set (query_pairs qs)" "(cd_commitment cd, p') \<in> set (query_pairs qs)"
    and "slot pim cd p = slot pim cd p'"
  shows "p = p'"
proof -
  have "idx_of pim p = idx_of pim p'" using slot_spec(3) [OF assms(1,2)] assms(3-5) by metis
  moreover have "numbered pim" "fst ` set pim = get_point ` set qs" using assms(1) by (auto simp: collected_def)
  ultimately show ?thesis using numbered_idx_inj [of pim p p'] assms(3,4) by auto
qed

text \<open>The state of the commitment data after the queries \<open>done\<close> have been filled in.\<close>

definition filled ::
    "('p \<times> nat) list \<Rightarrow> (nat list \<times> nat) list \<Rightarrow> ('c, 'e, 'l) commitment_data list \<Rightarrow> ('p, 'c, 'e, 'l) query list
     \<Rightarrow> ('c, 'e, 'l) commitment_data list \<Rightarrow> bool" where
  "filled pim sets cm processed cm' \<longleftrightarrow>
     list_all2 (\<lambda>cd cd'. cd_commitment cd' = cd_commitment cd \<and> cd_point_indices cd' = cd_point_indices cd \<and>
       length (cd_evals cd') = length (cd_point_indices cd) \<and>
       (\<forall>q\<in>set processed. get_commitment q = cd_commitment cd \<longrightarrow>
          cd_set_index cd' = idx_of sets (btree_set (cd_point_indices cd)) \<and>
          cd_evals cd' ! slot pim cd (get_point q) = get_eval q)) cm cm'"

lemma find_commitment:
  assumes "distinct (map cd_commitment cm)" and "cd \<in> set cm"
  shows "find (\<lambda>(c, _). c = cd_commitment cd) (map (\<lambda>cd. (cd_commitment cd, f cd)) cm) = Some (cd_commitment cd, f cd)"
  using assms by (induction cm) auto

lemma those_map_related:
  assumes "list_all2 R xs ys" and "\<And>x y. x \<in> set xs \<Longrightarrow> R x y \<Longrightarrow> \<exists>z. f y = Some z \<and> S x z"
  shows "\<exists>zs. those (map f ys) = Some zs \<and> list_all2 S xs zs"
  using assms by (induction rule: list_all2_induct) (simp, fastforce)

lemma fill_query_step:
  assumes inv: "collected qs (cm, pim)" and fill: "filled pim (number_sets cm) cm processed cm'"
    and q: "q \<in> set qs" and sub: "set processed \<subseteq> set qs" and new: "q \<notin> set processed"
  shows "\<exists>cm''. fill_query pim (map (\<lambda>cd. (cd_commitment cd, btree_set (cd_point_indices cd))) cm) (number_sets cm) q cm'
      = Some cm'' \<and> filled pim (number_sets cm) cm (q # processed) cm''"
proof -
  have num: "numbered pim" and pts: "fst ` set pim = get_point ` set qs"
    and dist: "distinct (map cd_commitment cm)" and coms: "cd_commitment ` set cm = get_commitment ` set qs"
    and dq: "distinct (query_pairs qs)"
    using inv by (auto simp: collected_def)
  obtain cd where cd: "cd \<in> set cm" "cd_commitment cd = get_commitment q"
    using q coms by (metis imageE imageI)
  let ?S = "btree_set (cd_point_indices cd)" and ?sets = "number_sets cm"
  have pair: "(cd_commitment cd, get_point q) \<in> set (query_pairs qs)" using q cd(2) by force
  have pi: "map_of pim (get_point q) = Some (idx_of pim (get_point q))"
    using numbered_idx [OF num] pts q by auto
  have find: "find (\<lambda>(c, _). c = get_commitment q) (map (\<lambda>cd. (cd_commitment cd, btree_set (cd_point_indices cd))) cm)
      = Some (get_commitment q, ?S)"
    using find_commitment [OF dist cd(1), of "\<lambda>cd. btree_set (cd_point_indices cd)"] cd(2) by simp
  have ne: "?S \<noteq> []" using collected_indices(2) [OF inv cd(1)] btree_set_props(1) by (metis set_empty)
  have "?S \<in> fst ` set ?sets" unfolding numbered_number_sets(2) using cd(1) by blast
  from numbered_idx [OF numbered_number_sets(1) this] obtain sj where sj: "map_of ?sets ?S = Some sj" by blast
  from pi obtain pj where pj: "map_of pim (get_point q) = Some pj" by blast
  note sl = slot_spec [OF inv cd(1) pair]
  let ?f = "\<lambda>cd'. if get_commitment q = cd_commitment cd'
      then if slot pim cd (get_point q) < length (cd_evals cd')
           then Some (cd'\<lparr>cd_set_index := sj, cd_evals := (cd_evals cd')[slot pim cd (get_point q) := get_eval q]\<rparr>)
           else None
      else Some cd'"
  have same: "x = cd" if "x \<in> set cm" "cd_commitment x = get_commitment q" for x
    using that cd dist unfolding distinct_map by (metis inj_onD)
  have "\<exists>zs. those (map ?f cm') = Some zs \<and> filled pim ?sets cm (q # processed) zs"
    unfolding filled_def
  proof (rule those_map_related [OF fill [unfolded filled_def]])
    fix x y
    assume x: "x \<in> set cm" and R: "cd_commitment y = cd_commitment x \<and> cd_point_indices y = cd_point_indices x \<and>
       length (cd_evals y) = length (cd_point_indices x) \<and>
       (\<forall>q\<in>set processed. get_commitment q = cd_commitment x \<longrightarrow>
          cd_set_index y = idx_of ?sets (btree_set (cd_point_indices x)) \<and>
          cd_evals y ! slot pim x (get_point q) = get_eval q)"
    show "\<exists>z. ?f y = Some z \<and> cd_commitment z = cd_commitment x \<and> cd_point_indices z = cd_point_indices x \<and>
       length (cd_evals z) = length (cd_point_indices x) \<and>
       (\<forall>q\<in>set (q # processed). get_commitment q = cd_commitment x \<longrightarrow>
          cd_set_index z = idx_of ?sets (btree_set (cd_point_indices x)) \<and>
          cd_evals z ! slot pim x (get_point q) = get_eval q)"
    proof (cases "cd_commitment x = get_commitment q")
      case False
      with R show ?thesis by auto
    next
      case True
      then have xcd: "x = cd" using same x by simp
      have "\<forall>q'\<in>set processed. get_commitment q' = cd_commitment cd \<longrightarrow>
          slot pim cd (get_point q') \<noteq> slot pim cd (get_point q)"
      proof (intro ballI impI notI)
        fix q'
        assume that: "q' \<in> set processed" "get_commitment q' = cd_commitment cd"
          and "slot pim cd (get_point q') = slot pim cd (get_point q)"
        moreover have "(cd_commitment cd, get_point q') \<in> set (query_pairs qs)" using that sub by force
        ultimately have "get_point q' = get_point q" using slot_inj [OF inv cd(1)] pair by blast
        then have "q' = q" using dq that sub q cd(2) by (auto simp: distinct_map dest!: inj_onD)
        with new that(1) show False by simp
      qed
      with R True sl(2) xcd sj show ?thesis by (auto simp: nth_list_update)
    qed
  qed
  then show ?thesis using find ne sl(1) pj sj by (simp add: fill_query_def)
qed

lemma fill_queries_spec:
  assumes "collected (processed @ qs) (cm, pim)" and "filled pim (number_sets cm) cm (rev processed) cm'"
  shows "\<exists>cm''. fill_queries pim (map (\<lambda>cd. (cd_commitment cd, btree_set (cd_point_indices cd))) cm) (number_sets cm) qs cm'
      = Some cm'' \<and> filled pim (number_sets cm) cm (rev (processed @ qs)) cm''"
  using assms
proof (induction qs arbitrary: processed cm')
  case Nil
  then show ?case by simp
next
  case (Cons q qs)
  have "q \<notin> set processed" using Cons.prems(1) by (auto simp: collected_def)
  with fill_query_step [OF Cons.prems, of q] obtain cm1 where
    1: "fill_query pim (map (\<lambda>cd. (cd_commitment cd, btree_set (cd_point_indices cd))) cm) (number_sets cm) q cm' = Some cm1"
      "filled pim (number_sets cm) cm (q # rev processed) cm1" by auto
  with Cons.IH [of "processed @ [q]" cm1] Cons.prems(1) show ?case by simp
qed

section \<open>The point sets\<close>

lemma push_point_sets_spec:
  assumes "\<And>e. e \<in> set es \<Longrightarrow> those (map (map_of (map (\<lambda>(p, i). (i, p)) pim)) (fst e)) = Some (g (fst e))"
    and "map snd es = [k..<k + length es]" and "length ps = k + length es" and "drop k ps = replicate (length es) []"
  shows "push_point_sets pim es ps = Some (take k ps @ map (\<lambda>e. g (fst e)) es)"
  using assms
proof (induction es arbitrary: k ps)
  case Nil
  then show ?case by simp
next
  case (Cons e es)
  have "[k..<k + length (e # es)] = k # [Suc k..<Suc k + length es]"
    by (subst upt_conv_Cons) simp_all
  then have k: "snd e = k" "map snd es = [Suc k..<Suc k + length es]" "k < length ps"
    using Cons.prems(2,3) by simp_all
  have pk: "ps ! k = []" using Cons.prems(4) k(3) by (metis Cons_nth_drop_Suc length_Cons list.inject replicate_Suc)
  have dk: "drop (Suc k) ps = replicate (length es) []"
    using Cons.prems(4) k(3) by (metis Cons_nth_drop_Suc length_Cons list.inject replicate_Suc)
  have "push_point_sets pim es (ps[k := g (fst e)]) =
      Some (take (Suc k) (ps[k := g (fst e)]) @ map (\<lambda>e. g (fst e)) es)"
    using Cons.prems(1,3) k dk by (intro Cons.IH) auto
  moreover have "take (Suc k) (ps[k := g (fst e)]) = take k ps @ [g (fst e)]"
    using k(3) by (subst take_Suc_conv_app_nth) simp_all
  ultimately show ?case using Cons.prems(1) [of e] k pk by (simp add: push_point_set_def)
qed

definition point_at :: "('p \<times> nat) list \<Rightarrow> nat \<Rightarrow> 'p" where
  "point_at pim i = fst (pim ! i)"

lemma inverse_point_index_map:
  assumes "numbered pim" and "i < length pim"
  shows "map_of (map (\<lambda>(p, i). (i, p)) pim) i = Some (point_at pim i)"
proof -
  have "map fst (map (\<lambda>(p, i). (i, p)) pim) = [0..<length pim]"
    using assms(1) by (simp add: numbered_def case_prod_unfold comp_def)
  then have "distinct (map fst (map (\<lambda>(p, i). (i, p)) pim))" by (simp only: distinct_upt)
  moreover have "(i, point_at pim i) \<in> set (map (\<lambda>(p, i). (i, p)) pim)"
    using numbered_nth [OF assms] nth_mem [OF assms(2)] by (force simp: point_at_def)
  ultimately show ?thesis by (simp only: map_of_eq_Some_iff)
qed

lemma those_inverse:
  assumes "numbered pim" and "set xs \<subseteq> {..<length pim}"
  shows "those (map (map_of (map (\<lambda>(p, i). (i, p)) pim)) xs) = Some (map (point_at pim) xs)"
  using assms(2) inverse_point_index_map [OF assms(1)] by (induction xs) auto

lemma collected_point_sets:
  assumes inv: "collected qs (cm, pim)"
  shows "push_point_sets pim (number_sets cm) (replicate (length (number_sets cm)) []) =
      Some (map (\<lambda>e. map (point_at pim) (fst e)) (number_sets cm))"
proof -
  have num: "numbered pim" using inv by (simp add: collected_def)
  have "those (map (map_of (map (\<lambda>(p, i). (i, p)) pim)) (fst e)) = Some (map (point_at pim) (fst e))"
    if "e \<in> set (number_sets cm)" for e
  proof -
    from that have "fst e \<in> fst ` set (number_sets cm)" by simp
    then obtain cd where "cd \<in> set cm" "fst e = btree_set (cd_point_indices cd)"
      unfolding numbered_number_sets(2) by blast
    with collected_indices(3) [OF inv] show ?thesis by (intro those_inverse [OF num]) (simp add: btree_set_props)
  qed
  then show ?thesis
    using push_point_sets_spec [where k = 0 and es = "number_sets cm" and g = "map (point_at pim)"]
      numbered_number_sets(1) [of cm] by (simp add: numbered_def)
qed

lemma commitment_points:
  assumes inv: "collected qs (cm, pim)" and cd: "cd \<in> set cm"
  defines "k \<equiv> idx_of (number_sets cm) (btree_set (cd_point_indices cd))"
  defines "S \<equiv> map (\<lambda>e. map (point_at pim) (fst e)) (number_sets cm)"
  shows "k < length S" and "S ! k = map (point_at pim) (btree_set (cd_point_indices cd))"
    and "distinct (S ! k)" and "set (S ! k) = {p. (cd_commitment cd, p) \<in> set (query_pairs qs)}"
    and "length (S ! k) = length (cd_point_indices cd)"
proof -
  have num: "numbered pim" and pts: "fst ` set pim = get_point ` set qs" using inv by (auto simp: collected_def)
  have "btree_set (cd_point_indices cd) \<in> fst ` set (number_sets cm)"
    unfolding numbered_number_sets(2) using cd by blast
  note k = numbered_idx [OF numbered_number_sets(1) this, folded k_def]
  then show "k < length S" by (simp add: S_def)
  show Sk: "S ! k = map (point_at pim) (btree_set (cd_point_indices cd))" using k by (simp add: S_def)
  note ind = collected_indices [OF inv cd]
  have inj: "inj_on (point_at pim) {..<length pim}"
    using num by (auto simp: numbered_def inj_on_def point_at_def distinct_conv_nth)
  show "distinct (S ! k)"
    unfolding Sk using ind(3) inj by (simp add: distinct_map btree_set_props inj_on_subset)
  show "length (S ! k) = length (cd_point_indices cd)" using ind(1) by (simp add: Sk length_btree_set)
  have "point_at pim (idx_of pim p) = p" if "p \<in> get_point ` set qs" for p
    using numbered_idx [OF num, of p] that by (simp add: pts point_at_def)
  moreover have "set (points_for qs (cd_commitment cd)) \<subseteq> get_point ` set qs" by (auto simp: points_for_def)
  moreover have "cd_point_indices cd = map (idx_of pim) (points_for qs (cd_commitment cd))"
    using inv cd by (simp add: collected_def)
  ultimately have "set (S ! k) = set (points_for qs (cd_commitment cd))"
    by (force simp: Sk btree_set_props image_image)
  then show "set (S ! k) = {p. (cd_commitment cd, p) \<in> set (query_pairs qs)}" by (simp only: points_for_set)
qed

lemma construct_eq:
  assumes dist: "distinct (query_pairs qs)"
  shows "\<exists>cm pim cm'. collected qs (cm, pim) \<and> filled pim (number_sets cm) cm (rev qs) cm' \<and>
     construct_intermediate_sets d qs = Ok (cm', map (\<lambda>e. map (point_at pim) (fst e)) (number_sets cm))"
proof -
  obtain cm pim where col: "collect_queries qs ([], []) = Ok (cm, pim)" "collected qs (cm, pim)"
    using collect_queries_spec [OF collected_Nil, of qs] dist by auto
  let ?cm = "map (\<lambda>cd. cd\<lparr>cd_evals := replicate (length (cd_point_indices cd)) d\<rparr>) cm"
  have "filled pim (number_sets cm) cm (rev []) ?cm"
    by (simp add: filled_def list_all2_conv_all_nth)
  from fill_queries_spec [of "[]" qs, simplified, OF col(2)] this obtain cm' where
    "fill_queries pim (map (\<lambda>cd. (cd_commitment cd, btree_set (cd_point_indices cd))) cm) (number_sets cm) qs ?cm = Some cm'"
    "filled pim (number_sets cm) cm (rev qs) cm'" by auto
  with col collected_point_sets [OF col(2)] show ?thesis
    by (intro exI [of _ cm] exI [of _ pim] exI [of _ cm']) (simp add: construct_intermediate_sets_def Let_def)
qed

lemma filled_commitment:
  assumes inv: "collected qs (cm, pim)" and fill: "filled pim (number_sets cm) cm (rev qs) cm'" and cd: "cd \<in> set cm'"
  defines "S \<equiv> map (\<lambda>e. map (point_at pim) (fst e)) (number_sets cm)"
  shows "cd_set_index cd < length S \<and> distinct (S ! cd_set_index cd) \<and>
      set (S ! cd_set_index cd) = {p. (cd_commitment cd, p) \<in> set (query_pairs qs)} \<and>
      length (cd_evals cd) = length (S ! cd_set_index cd)"
proof -
  have len: "length cm' = length cm" using fill by (simp add: filled_def list_all2_lengthD)
  from cd obtain i where i: "i < length cm" "cd = cm' ! i" by (auto simp: in_set_conv_nth len)
  have nth: "cd_commitment cd = cd_commitment (cm ! i)" "length (cd_evals cd) = length (cd_point_indices (cm ! i))"
      "\<And>q. q \<in> set qs \<Longrightarrow> get_commitment q = cd_commitment (cm ! i) \<Longrightarrow>
         cd_set_index cd = idx_of (number_sets cm) (btree_set (cd_point_indices (cm ! i)))"
    using fill i by (auto simp: filled_def list_all2_conv_all_nth)
  have "cd_commitment (cm ! i) \<in> get_commitment ` set qs" using inv i(1) by (force simp: collected_def)
  then have "cd_set_index cd = idx_of (number_sets cm) (btree_set (cd_point_indices (cm ! i)))"
    using nth(3) by (metis imageE)
  with commitment_points [OF inv nth_mem [OF i(1)]] nth(1,2) show ?thesis unfolding S_def by simp
qed

lemma filled_query:
  assumes inv: "collected qs (cm, pim)" and fill: "filled pim (number_sets cm) cm (rev qs) cm'" and q: "q \<in> set qs"
  shows "\<exists>cd\<in>set cm'. cd_commitment cd = get_commitment q \<and>
      (\<exists>k<length (cd_evals cd). map (\<lambda>e. map (point_at pim) (fst e)) (number_sets cm) ! cd_set_index cd ! k = get_point q \<and>
         cd_evals cd ! k = get_eval q)"
proof -
  have "get_commitment q \<in> cd_commitment ` set cm" using inv q by (auto simp: collected_def)
  then obtain i where i: "i < length cm" "cd_commitment (cm ! i) = get_commitment q"
    by (auto simp: in_set_conv_nth)
  have len: "length cm' = length cm" using fill by (simp add: filled_def list_all2_lengthD)
  have nth: "cd_commitment (cm' ! i) = cd_commitment (cm ! i)"
      "length (cd_evals (cm' ! i)) = length (cd_point_indices (cm ! i))"
      "cd_set_index (cm' ! i) = idx_of (number_sets cm) (btree_set (cd_point_indices (cm ! i)))"
      "cd_evals (cm' ! i) ! slot pim (cm ! i) (get_point q) = get_eval q"
    using fill i q by (auto simp: filled_def list_all2_conv_all_nth)
  have mem: "cm ! i \<in> set cm" using i(1) by simp
  have pair: "(cd_commitment (cm ! i), get_point q) \<in> set (query_pairs qs)" using q i(2) by force
  note sl = slot_spec [OF inv mem pair]
  have "numbered pim" "get_point q \<in> fst ` set pim" using inv q by (auto simp: collected_def)
  from numbered_idx [OF this] have "point_at pim (idx_of pim (get_point q)) = get_point q"
    by (simp add: point_at_def)
  then have "map (point_at pim) (btree_set (cd_point_indices (cm ! i))) ! slot pim (cm ! i) (get_point q) = get_point q"
    using sl(2,3) collected_indices(1) [OF inv mem] by (simp add: length_btree_set)
  then show ?thesis
    using nth sl(2) i len commitment_points(2) [OF inv mem]
    by (intro bexI [of _ "cm' ! i"] conjI exI [of _ "slot pim (cm ! i) (get_point q)"]) simp_all
qed

lemma point_sets_distinct:
  assumes inv: "collected qs (cm, pim)"
  shows "distinct (map set (map (\<lambda>e. map (point_at pim) (fst e)) (number_sets cm)))"
proof -
  have num: "numbered pim" using inv by (simp add: collected_def)
  then have inj: "inj_on (point_at pim) {..<length pim}"
    by (auto simp: numbered_def inj_on_def point_at_def distinct_conv_nth)
  have keys: "\<exists>xs. k = btree_set xs \<and> set xs \<subseteq> {..<length pim}" if "k \<in> fst ` set (number_sets cm)" for k
    using that collected_indices(3) [OF inv] unfolding numbered_number_sets(2) by blast
  have "inj_on (\<lambda>k. set (map (point_at pim) k)) (fst ` set (number_sets cm))"
  proof (rule inj_onI)
    fix k k' assume "k \<in> fst ` set (number_sets cm)" "k' \<in> fst ` set (number_sets cm)"
      and eq: "set (map (point_at pim) k) = set (map (point_at pim) k')"
    with keys obtain xs ys where k: "k = btree_set xs" "set xs \<subseteq> {..<length pim}"
      "k' = btree_set ys" "set ys \<subseteq> {..<length pim}" by meson
    then have "set xs = set ys" using eq inj by (simp add: btree_set_props inj_on_image_eq_iff)
    then show "k = k'" by (simp add: k(1,3) btree_set_def sorted_distinct_set_unique)
  qed
  then show ?thesis
    using numbered_number_sets(1) [of cm] by (simp add: numbered_def distinct_map inj_on_def comp_def)
qed

text \<open>
  C17: the grouping of opening queries. A commitment that is opened twice at the same point is
  reported as \<open>DuplicatedQuery\<close>. Otherwise the function succeeds without a panic: the result has one
  entry per commitment, no two point sets are equal, the set of a commitment is exactly the set of points the commitment is opened at, and
  the evaluation of every query stands at the position of its point in that set.
\<close>

theorem construct_intermediate_sets_correct:
  "(\<not> distinct (query_pairs qs) \<longrightarrow> construct_intermediate_sets d qs = Err DuplicatedQuery) \<and>
   (distinct (query_pairs qs) \<longrightarrow>
     (\<exists>cms sets. construct_intermediate_sets d qs = Ok (cms, sets) \<and>
        distinct (map cd_commitment cms) \<and> cd_commitment ` set cms = get_commitment ` set qs \<and>
        distinct (map set sets) \<and>
        (\<forall>cd\<in>set cms. cd_set_index cd < length sets \<and> distinct (sets ! cd_set_index cd) \<and>
           set (sets ! cd_set_index cd) = {p. (cd_commitment cd, p) \<in> set (query_pairs qs)} \<and>
           length (cd_evals cd) = length (sets ! cd_set_index cd)) \<and>
        (\<forall>q\<in>set qs. \<exists>cd\<in>set cms. cd_commitment cd = get_commitment q \<and>
           (\<exists>k<length (cd_evals cd). sets ! cd_set_index cd ! k = get_point q \<and> cd_evals cd ! k = get_eval q))))"
proof (intro conjI impI)
  assume "\<not> distinct (query_pairs qs)"
  with collect_queries_spec [OF collected_Nil, of qs] show "construct_intermediate_sets d qs = Err DuplicatedQuery"
    by (simp add: construct_intermediate_sets_def)
next
  assume "distinct (query_pairs qs)"
  from construct_eq [OF this, of d] obtain cm pim cm' where inv: "collected qs (cm, pim)"
    and fill: "filled pim (number_sets cm) cm (rev qs) cm'"
    and eq: "construct_intermediate_sets d qs = Ok (cm', map (\<lambda>e. map (point_at pim) (fst e)) (number_sets cm))"
    by blast
  let ?S = "map (\<lambda>e. map (point_at pim) (fst e)) (number_sets cm)"
  have coms: "distinct (map cd_commitment cm)" "cd_commitment ` set cm = get_commitment ` set qs"
    using inv by (auto simp: collected_def)
  have maps: "map cd_commitment cm' = map cd_commitment cm"
    using fill by (intro nth_equalityI) (auto simp: filled_def list_all2_conv_all_nth)
  then have "distinct (map cd_commitment cm')" using coms(1) by simp
  moreover have "cd_commitment ` set cm' = get_commitment ` set qs" using coms(2) by (metis maps set_map)
  moreover note point_sets_distinct [OF inv] filled_commitment [OF inv fill] filled_query [OF inv fill]
  ultimately show "\<exists>cms sets. construct_intermediate_sets d qs = Ok (cms, sets) \<and>
        distinct (map cd_commitment cms) \<and> cd_commitment ` set cms = get_commitment ` set qs \<and>
        distinct (map set sets) \<and>
        (\<forall>cd\<in>set cms. cd_set_index cd < length sets \<and> distinct (sets ! cd_set_index cd) \<and>
           set (sets ! cd_set_index cd) = {p. (cd_commitment cd, p) \<in> set (query_pairs qs)} \<and>
           length (cd_evals cd) = length (sets ! cd_set_index cd)) \<and>
        (\<forall>q\<in>set qs. \<exists>cd\<in>set cms. cd_commitment cd = get_commitment q \<and>
           (\<exists>k<length (cd_evals cd). sets ! cd_set_index cd ! k = get_point q \<and> cd_evals cd ! k = get_eval q))"
    unfolding eq by (intro exI [of _ cm'] exI [of _ ?S] conjI ballI) (rule refl | assumption | blast)+
qed

definition sample_queries :: "(nat, nat, nat, unit) query list" where
  "sample_queries = map (\<lambda>(p, c, e). \<lparr>get_point = p, get_commitment = c, get_commitment_label = (), get_eval = e\<rparr>)
     [(5, 1, 10), (7, 1, 11), (7, 2, 12), (5, 3, 13), (7, 3, 14)]"

theorem construct_intermediate_sets_correct_witness:
  "construct_intermediate_sets 0 (sample_queries @ sample_queries) = Err DuplicatedQuery \<and>
   (\<exists>cms sets. construct_intermediate_sets 0 sample_queries = Ok (cms, sets) \<and> cd_commitment ` set cms = {1, 2, 3})"
proof -
  have d: "distinct (query_pairs sample_queries)" "\<not> distinct (query_pairs (sample_queries @ sample_queries))"
    and c: "get_commitment ` set sample_queries = {1, 2, 3}"
    by (simp_all add: sample_queries_def insert_commute)
  from construct_intermediate_sets_correct [of sample_queries 0] d(1) obtain cms sets where
    "construct_intermediate_sets 0 sample_queries = Ok (cms, sets)"
    "cd_commitment ` set cms = get_commitment ` set sample_queries" by blast
  moreover have "construct_intermediate_sets 0 (sample_queries @ sample_queries) = Err DuplicatedQuery"
    using construct_intermediate_sets_correct [of "sample_queries @ sample_queries" 0] d(2) by blast
  ultimately show ?thesis unfolding c by blast
qed

section \<open>Dummy queries\<close>

text \<open>The groups after the first pairs have been read: first indices and points of every key.\<close>

definition grouped :: "('k \<times> 'p) list \<Rightarrow> nat \<Rightarrow> (nat \<times> 'p list) list \<Rightarrow> bool" where
  "grouped pairs n groups \<longleftrightarrow>
     distinct (take n pairs) \<and> distinct (map (\<lambda>g. fst (pairs ! fst g)) groups) \<and>
     (\<forall>g\<in>set groups. fst g < n \<and> fst (pairs ! fst g) \<notin> fst ` set (take (fst g) pairs)) \<and>
     fst ` set (take n pairs) = (\<lambda>g. fst (pairs ! fst g)) ` set groups \<and>
     (\<forall>g\<in>set groups. snd g = map snd (filter (\<lambda>e. fst e = fst (pairs ! fst g)) (take n pairs)))"

lemma group_pair_step:
  assumes inv: "grouped pairs n groups" and n: "n < length pairs"
  shows "(pairs ! n \<in> set (take n pairs) \<longrightarrow> group_pair pairs (n, pairs ! n) groups = None) \<and>
         (pairs ! n \<notin> set (take n pairs) \<longrightarrow>
            (\<exists>groups'. group_pair pairs (n, pairs ! n) groups = Some groups' \<and> grouped pairs (Suc n) groups'))"
proof -
  obtain key point where kp: "pairs ! n = (key, point)" by fastforce
  have take: "take (Suc n) pairs = take n pairs @ [(key, point)]" using n by (simp add: take_Suc_conv_app_nth kp)
  have dist: "distinct (map (\<lambda>g. fst (pairs ! fst g)) groups)"
    and keys: "fst ` set (take n pairs) = (\<lambda>g. fst (pairs ! fst g)) ` set groups"
    and pts: "\<And>g. g \<in> set groups \<Longrightarrow> snd g = map snd (filter (\<lambda>e. fst e = fst (pairs ! fst g)) (take n pairs))"
    and lt: "\<And>g. g \<in> set groups \<Longrightarrow> fst g < n \<and> fst (pairs ! fst g) \<notin> fst ` set (take (fst g) pairs)"
    and dt: "distinct (take n pairs)"
    using inv by (auto simp: grouped_def)
  show ?thesis
  proof (cases "position (\<lambda>(idx, _). fst (pairs ! idx) = key) groups")
    case None
    then have new: "key \<notin> fst ` set (take n pairs)" unfolding keys by (auto simp: vec_simps)
    then have "filter (\<lambda>e. fst e = key) (take n pairs) = []" by (force simp: filter_empty_conv)
    moreover have "filter (\<lambda>e. fst e = fst (pairs ! fst g)) (take n pairs @ [(key, point)]) =
        filter (\<lambda>e. fst e = fst (pairs ! fst g)) (take n pairs)" if "g \<in> set groups" for g
      using that new unfolding keys by auto
    moreover have "(key, point) \<notin> set (take n pairs)" using new by force
    moreover have "fst g < Suc n \<and> fst (pairs ! fst g) \<notin> fst ` set (take (fst g) pairs)"
      if "g \<in> set (groups @ [(n, [point])])" for g
    proof (cases "g \<in> set groups")
      case True
      with lt show ?thesis by (simp add: less_SucI)
    next
      case False
      with that new kp show ?thesis by simp
    qed
    ultimately show ?thesis
      using dist keys pts dt new kp None
      by (intro conjI impI exI [of _ "groups @ [(n, [point])]"])
        (simp_all add: grouped_def take group_pair_def image_iff)
  next
    case (Some j)
    then have j: "j < length groups" "fst (pairs ! fst (groups ! j)) = key"
      by (auto dest!: position_SomeD simp: case_prod_unfold)
    obtain idx points where g: "groups ! j = (idx, points)" by fastforce
    have gj: "groups ! j \<in> set groups" using j(1) by simp
    have points: "points = map snd (filter (\<lambda>e. fst e = key) (take n pairs))" using pts [OF gj] j(2) g by simp
    then have mem: "point \<in> set points \<longleftrightarrow> pairs ! n \<in> set (take n pairs)" by (force simp: kp)
    let ?gs = "groups[j := (idx, points @ [point])]"
    have mk: "map (\<lambda>g. fst (pairs ! fst g)) ?gs = map (\<lambda>g. fst (pairs ! fst g)) groups"
      using j g by (intro nth_equalityI) (auto simp: nth_list_update)
    have "grouped pairs (Suc n) ?gs" if "pairs ! n \<notin> set (take n pairs)"
      unfolding grouped_def take
    proof (intro conjI ballI)
      have "key \<in> fst ` set (take n pairs)" unfolding keys using gj j(2) by force
      then have "fst ` set (take n pairs @ [(key, point)]) = (\<lambda>g. fst (pairs ! fst g)) ` set groups"
        using keys by auto
      then show "fst ` set (take n pairs @ [(key, point)]) = (\<lambda>g. fst (pairs ! fst g)) ` set ?gs"
        by (metis mk set_map)
      show "distinct (map (\<lambda>g. fst (pairs ! fst g)) ?gs)" using dist by (simp only: mk)
      show "distinct (take n pairs @ [(key, point)])" using dt that kp by simp
    next
      fix x
      assume "x \<in> set ?gs"
      then obtain i where i: "i < length groups" "x = ?gs ! i" by (auto simp: in_set_conv_nth)
      have "fst (pairs ! fst (groups ! i)) \<noteq> key" if "i \<noteq> j"
        using dist i(1) j that nth_eq_iff_index_eq [OF dist, of i j] by simp
      then show "snd x = map snd (filter (\<lambda>e. fst e = fst (pairs ! fst x)) (take n pairs @ [(key, point)]))"
        using i j g points pts [OF nth_mem [OF i(1)]] by (cases "i = j") auto
      have "fst x = fst (groups ! i)" using i j g by (cases "i = j") auto
      with lt [OF nth_mem [OF i(1)]] show "fst x < Suc n" "fst (pairs ! fst x) \<notin> fst ` set (take (fst x) pairs)"
        by simp_all
    qed
    with Some g mem show ?thesis by (simp add: group_pair_def kp)
  qed
qed

lemma group_pairs_spec:
  assumes "grouped pairs n groups" and "n \<le> length pairs"
  shows "(\<not> distinct pairs \<longrightarrow> group_pairs pairs (zip [n..<length pairs] (drop n pairs)) groups = None) \<and>
         (distinct pairs \<longrightarrow> (\<exists>groups'. group_pairs pairs (zip [n..<length pairs] (drop n pairs)) groups = Some groups' \<and>
            grouped pairs (length pairs) groups'))"
  using assms
proof (induction "length pairs - n" arbitrary: n groups)
  case 0
  then show ?case by (auto simp: grouped_def)
next
  case (Suc k)
  then have n: "n < length pairs" by simp
  have z: "zip [n..<length pairs] (drop n pairs) = (n, pairs ! n) # zip [Suc n..<length pairs] (drop (Suc n) pairs)"
    using n by (simp add: upt_conv_Cons Cons_nth_drop_Suc [symmetric])
  show ?case
  proof (cases "pairs ! n \<in> set (take n pairs)")
    case True
    then have "\<not> distinct pairs" using n by (metis id_take_nth_drop distinct_append disjoint_iff list.set_intros(1))
    with True group_pair_step [OF Suc.prems(1) n] show ?thesis by (simp add: z)
  next
    case False
    with group_pair_step [OF Suc.prems(1) n] obtain g where
      "group_pair pairs (n, pairs ! n) groups = Some g" "grouped pairs (Suc n) g" by auto
    with Suc.hyps(1) [of "Suc n" g] Suc.hyps(2) n show ?thesis by (simp add: z)
  qed
qed

lemma set_push_new: "set (fold push_new xs u) = set xs \<union> set u"
  by (induction xs arbitrary: u) (auto simp: push_new_def)

lemma distinct_push_new: "distinct u \<Longrightarrow> distinct (fold push_new xs u)"
  by (induction xs arbitrary: u) (auto simp: push_new_def)

lemma point_union_spec:
  "set (point_union groups) = (\<Union>g\<in>{g \<in> set groups. length (snd g) \<noteq> 1}. set (snd g))" "distinct (point_union groups)"
proof -
  have "set (fold (\<lambda>(_, points) u. if length points = 1 then u else fold push_new points u) gs u) =
      (\<Union>g\<in>{g \<in> set gs. length (snd g) \<noteq> 1}. set (snd g)) \<union> set u \<and>
      (distinct u \<longrightarrow> distinct (fold (\<lambda>(_, points) u. if length points = 1 then u else fold push_new points u) gs u))"
    for gs and u :: "'a list"
  proof (induction gs arbitrary: u)
    case (Cons g gs)
    obtain i ps where g: "g = (i, ps)" by (cases g)
    show ?case
    proof (cases "length ps = 1")
      case True
      then have "{h \<in> set (g # gs). length (snd h) \<noteq> 1} = {h \<in> set gs. length (snd h) \<noteq> 1}" using g by auto
      with Cons.IH [of u] True g show ?thesis by simp
    next
      case False
      then have "{h \<in> set (g # gs). length (snd h) \<noteq> 1} = insert g {h \<in> set gs. length (snd h) \<noteq> 1}" using g by auto
      with Cons.IH [of "fold push_new ps u"] False g show ?thesis
        by (auto simp: set_push_new distinct_push_new)
    qed
  qed simp
  from this [of groups "[]"] show
    "set (point_union groups) = (\<Union>g\<in>{g \<in> set groups. length (snd g) \<noteq> 1}. set (snd g))"
    "distinct (point_union groups)" by (simp_all add: point_union_def)
qed

text \<open>The points of a key, and the union of the point sets with more than one point.\<close>

definition points_of_key :: "('k \<times> 'p) list \<Rightarrow> 'k \<Rightarrow> 'p set" where
  "points_of_key pairs k = {p. (k, p) \<in> set pairs}"

definition multi_points :: "('k \<times> 'p) list \<Rightarrow> 'p set" where
  "multi_points pairs = (\<Union>k\<in>{k. card (points_of_key pairs k) > 1}. points_of_key pairs k)"

lemma grouped_points:
  assumes "grouped pairs (length pairs) groups" and "g \<in> set groups"
  shows "set (snd g) = points_of_key pairs (fst (pairs ! fst g))" and "distinct (snd g)" and "snd g \<noteq> []"
    and "fst g < length pairs" and "fst (pairs ! fst g) \<notin> fst ` set (take (fst g) pairs)"
proof -
  let ?k = "fst (pairs ! fst g)"
  have eq: "snd g = map snd (filter (\<lambda>e. fst e = ?k) pairs)" and d: "distinct pairs"
    and lt: "fst g < length pairs" "?k \<notin> fst ` set (take (fst g) pairs)"
    using assms by (auto simp: grouped_def)
  show "set (snd g) = points_of_key pairs ?k" by (force simp: eq points_of_key_def)
  have "inj_on snd (set (filter (\<lambda>e. fst e = ?k) pairs))" by (auto simp: inj_on_def prod_eq_iff)
  then show "distinct (snd g)" using d by (simp add: eq distinct_map)
  have "pairs ! fst g \<in> set (filter (\<lambda>e. fst e = ?k) pairs)" using lt by simp
  then show "snd g \<noteq> []" unfolding eq by (metis list.set(1) empty_iff list.map_disc_iff)
  show "fst g < length pairs" "?k \<notin> fst ` set (take (fst g) pairs)" by (fact lt)+
qed

lemma grouped_key:
  assumes "grouped pairs (length pairs) groups" and "k \<in> fst ` set pairs"
  shows "\<exists>g\<in>set groups. fst (pairs ! fst g) = k"
  using assms by (force simp: grouped_def)

lemma grouped_union:
  assumes inv: "grouped pairs (length pairs) groups"
  shows "set (point_union groups) = multi_points pairs"
proof -
  have card: "card (points_of_key pairs (fst (pairs ! fst g))) = length (snd g)" if "g \<in> set groups" for g
    using grouped_points(1,2) [OF inv that] by (metis distinct_card)
  have len: "length (snd g) \<noteq> 1 \<longleftrightarrow> 1 < length (snd g)" if "g \<in> set groups" for g
    using grouped_points(3) [OF inv that] by (cases "snd g") auto
  show ?thesis
  proof (intro equalityI subsetI)
    fix p
    assume "p \<in> set (point_union groups)"
    then obtain g where g: "g \<in> set groups" "length (snd g) \<noteq> 1" "p \<in> set (snd g)" by (auto simp: point_union_spec)
    then show "p \<in> multi_points pairs"
      using card [OF g(1)] len [OF g(1)] grouped_points(1) [OF inv g(1)]
      unfolding multi_points_def by (intro UN_I [of "fst (pairs ! fst g)"]) simp_all
  next
    fix p
    assume "p \<in> multi_points pairs"
    then obtain k where k: "1 < card (points_of_key pairs k)" "p \<in> points_of_key pairs k" by (auto simp: multi_points_def)
    then have "k \<in> fst ` set pairs" by (force simp: points_of_key_def)
    with grouped_key [OF inv] obtain g where g: "g \<in> set groups" "fst (pairs ! fst g) = k" by blast
    with k card [OF g(1)] grouped_points(1) [OF inv g(1)] show "p \<in> set (point_union groups)"
      unfolding point_union_spec by (intro UN_I [of g]) auto
  qed
qed

definition dummies :: "(nat \<times> 'p list) list \<Rightarrow> (nat \<times> 'p) list" where
  "dummies groups = concat (map (\<lambda>(idx, existing).
     map (Pair idx) (filter (\<lambda>p. p \<notin> set existing) (point_union groups))) groups)"

lemma set_dummies:
  "(i, p) \<in> set (dummies groups) \<longleftrightarrow> (\<exists>existing. (i, existing) \<in> set groups \<and> p \<notin> set existing \<and> p \<in> set (point_union groups))"
  by (auto simp: dummies_def)

lemma dummies_first:
  assumes "grouped pairs (length pairs) groups"
  shows "\<forall>(i, p)\<in>set (dummies groups). i < length pairs \<and> fst (pairs ! i) \<notin> fst ` set (take i pairs)"
proof (rule ballI, clarify)
  fix i p
  assume "(i, p) \<in> set (dummies groups)"
  then obtain e where "(i, e) \<in> set groups" unfolding set_dummies by blast
  from grouped_points(4,5) [OF assms this]
  show "i < length pairs \<and> fst (pairs ! i) \<notin> fst ` set (take i pairs)" by simp
qed

lemma dummies_distinct:
  assumes inv: "grouped pairs (length pairs) groups"
  shows "distinct (pairs @ map (\<lambda>(i, p). (fst (pairs ! i), p)) (dummies groups))"
proof -
  let ?key = "\<lambda>g :: nat \<times> 'b list. fst (pairs ! fst g)"
  have eq: "map (\<lambda>(i, p). (fst (pairs ! i), p)) (dummies groups) = concat (map (\<lambda>g. map (Pair (?key g))
      (filter (\<lambda>p. p \<notin> set (snd g)) (point_union groups))) groups)"
    by (simp add: dummies_def map_concat comp_def case_prod_unfold)
  have cat: "distinct (concat (map (\<lambda>g. map (Pair (?key g)) (f g)) gs))"
    if "distinct (map ?key gs)" "\<And>g. distinct (f g)" for f gs
    using that(1)
  proof (induction gs)
    case (Cons g gs)
    then show ?case using that(2) by (auto simp: distinct_map inj_on_def)
  qed simp
  have keys: "distinct (map ?key groups)" and "distinct pairs" using inv by (simp_all add: grouped_def)
  moreover have "distinct (map (\<lambda>(i, p). (fst (pairs ! i), p)) (dummies groups))"
    unfolding eq by (rule cat [OF keys]) (simp add: point_union_spec(2))
  moreover have "(fst (pairs ! i), p) \<notin> set pairs" if "(i, p) \<in> set (dummies groups)" for i p
  proof -
    from that obtain e where e: "(i, e) \<in> set groups" "p \<notin> set e" by (auto simp: set_dummies)
    from grouped_points(1) [OF inv e(1)] e(2) show ?thesis by (simp add: points_of_key_def set_eq_iff)
  qed
  ultimately show ?thesis by auto
qed

lemma dummies_points:
  assumes inv: "grouped pairs (length pairs) groups"
  shows "\<forall>k\<in>fst ` set pairs. points_of_key (pairs @ map (\<lambda>(i, p). (fst (pairs ! i), p)) (dummies groups)) k =
          points_of_key pairs k \<union> multi_points pairs"
proof
  fix k
  assume "k \<in> fst ` set pairs"
  then obtain i e where g: "(i, e) \<in> set groups" "fst (pairs ! i) = k" using grouped_key [OF inv] by force
  have key: "x = (i, e)" if "x \<in> set groups" "fst (pairs ! fst x) = k" for x
    using inv that g unfolding grouped_def distinct_map by (metis fst_conv inj_onD)
  have "p \<in> points_of_key (map (\<lambda>(i, p). (fst (pairs ! i), p)) (dummies groups)) k \<longleftrightarrow>
      p \<notin> points_of_key pairs k \<and> p \<in> multi_points pairs" for p
  proof -
    have "p \<in> points_of_key (map (\<lambda>(i, p). (fst (pairs ! i), p)) (dummies groups)) k \<longleftrightarrow>
        (\<exists>j. (j, p) \<in> set (dummies groups) \<and> fst (pairs ! j) = k)"
      by (force simp: points_of_key_def)
    also have "\<dots> \<longleftrightarrow> p \<notin> set e \<and> p \<in> set (point_union groups)"
    proof
      assume "\<exists>j. (j, p) \<in> set (dummies groups) \<and> fst (pairs ! j) = k"
      then obtain j e' where "(j, e') \<in> set groups" "fst (pairs ! j) = k" "p \<notin> set e'" "p \<in> set (point_union groups)"
        unfolding set_dummies by blast
      with key [of "(j, e')"] show "p \<notin> set e \<and> p \<in> set (point_union groups)" by simp
    next
      assume "p \<notin> set e \<and> p \<in> set (point_union groups)"
      with g(1) have "(i, p) \<in> set (dummies groups)" unfolding set_dummies by blast
      with g(2) show "\<exists>j. (j, p) \<in> set (dummies groups) \<and> fst (pairs ! j) = k" by blast
    qed
    finally show ?thesis using grouped_points(1) [OF inv g(1)] g(2) grouped_union [OF inv] by simp
  qed
  then show "points_of_key (pairs @ map (\<lambda>(i, p). (fst (pairs ! i), p)) (dummies groups)) k =
      points_of_key pairs k \<union> multi_points pairs"
    by (auto simp: points_of_key_def)
qed

text \<open>
  C18: the dummy queries. A repeated pair makes the function panic. Otherwise every returned index is
  the first occurrence of its key, the returned queries repeat neither a pair of the input nor each
  other, and with them every key is opened exactly at its own points and at the union of the point
  sets that have more than one point.
\<close>

theorem compute_dummy_queries_correct:
  fixes pairs :: "('k \<times> 'p) list"
  shows "(\<not> distinct pairs \<longrightarrow> compute_dummy_queries pairs = None) \<and>
    (distinct pairs \<longrightarrow> (\<exists>ds. compute_dummy_queries pairs = Some ds \<and>
       (\<forall>(i, p)\<in>set ds. i < length pairs \<and> fst (pairs ! i) \<notin> fst ` set (take i pairs)) \<and>
       distinct (pairs @ map (\<lambda>(i, p). (fst (pairs ! i), p)) ds) \<and>
       (\<forall>k\<in>fst ` set pairs. points_of_key (pairs @ map (\<lambda>(i, p). (fst (pairs ! i), p)) ds) k =
          points_of_key pairs k \<union> multi_points pairs)))"
proof (intro conjI impI)
  have inv0: "grouped pairs 0 []" by (simp add: grouped_def)
  note gp = group_pairs_spec [OF inv0, simplified]
  show "compute_dummy_queries pairs = None" if "\<not> distinct pairs"
    using gp that by (simp add: compute_dummy_queries_def)
  assume "distinct pairs"
  with gp obtain groups where g: "group_pairs pairs (zip [0..<length pairs] pairs) [] = Some groups"
    and inv: "grouped pairs (length pairs) groups" by auto
  let ?ds = "dummies groups"
  have "\<not> list_ex (\<lambda>(_, points). points = []) groups"
    using grouped_points(3) [OF inv] unfolding list_ex_iff by fastforce
  then have eq: "compute_dummy_queries pairs = Some ?ds"
    by (simp add: compute_dummy_queries_def g dummies_def Let_def)
  show "\<exists>ds. compute_dummy_queries pairs = Some ds \<and>
       (\<forall>(i, p)\<in>set ds. i < length pairs \<and> fst (pairs ! i) \<notin> fst ` set (take i pairs)) \<and>
       distinct (pairs @ map (\<lambda>(i, p). (fst (pairs ! i), p)) ds) \<and>
       (\<forall>k\<in>fst ` set pairs. points_of_key (pairs @ map (\<lambda>(i, p). (fst (pairs ! i), p)) ds) k =
          points_of_key pairs k \<union> multi_points pairs)"
    using eq dummies_first [OF inv] dummies_distinct [OF inv] dummies_points [OF inv] by blast
qed

theorem compute_dummy_queries_correct_witness:
  "compute_dummy_queries [(1 :: nat, 5 :: nat), (1, 5)] = None \<and>
   (\<exists>ds. compute_dummy_queries [(1 :: nat, 5 :: nat), (1, 7), (2, 5)] = Some ds)"
  using compute_dummy_queries_correct [of "[(1 :: nat, 5 :: nat), (1, 5)]"]
    compute_dummy_queries_correct [of "[(1 :: nat, 5 :: nat), (1, 7), (2, 5)]"] by simp blast

end
