(* ===== verification/Nfa.thy ===== *)
theory Nfa
  imports Midfall_Prelude "HOL-Library.Monad_Syntax"
begin

text \<open>
  What the scanner's automata (\<open>circuits/src/parsing/scanner/automaton.rs\<close>) share: hash sets as
  duplicate-free lists, loops that may panic, the depth-first worklist loop that four of the
  constructions run, and the language of a labelled graph with the lemmas on renaming and trimming
  its states. A result \<open>None\<close> stands for not returning: a panic of the code or a loop without end.
\<close>

section \<open>Loops and hash sets\<close>

text \<open>A \<open>for\<close> loop over a vector whose body may panic.\<close>

primrec fold_opt :: "('a \<Rightarrow> 's \<Rightarrow> 's option) \<Rightarrow> 'a list \<Rightarrow> 's \<Rightarrow> 's option" where
  "fold_opt f [] s = Some s"
| "fold_opt f (x # xs) s = Option.bind (f x s) (fold_opt f xs)"

text \<open>The short-circuiting \<open>Iterator::all\<close> with a test that may panic.\<close>

primrec all_opt :: "('a \<Rightarrow> bool option) \<Rightarrow> 'a list \<Rightarrow> bool option" where
  "all_opt p [] = Some True"
| "all_opt p (x # xs) = Option.bind (p x) (\<lambda>b. if b then all_opt p xs else Some False)"

text \<open>\<open>FxHashSet::insert\<close>; a hash set is iterated in the order of insertion.\<close>

definition hash_insert :: "'a \<Rightarrow> 'a list \<Rightarrow> 'a list" where
  "hash_insert x s = (if x \<in> set s then s else s @ [x])"

abbreviation hash_collect :: "'a list \<Rightarrow> 'a list" where
  "hash_collect xs \<equiv> fold hash_insert xs []"

lemma fold_opt_append: "fold_opt f (xs @ ys) s = Option.bind (fold_opt f xs s) (fold_opt f ys)"
  by (induction xs arbitrary: s) (auto split: Option.bind_split)

lemma fold_opt_Some:
  "(\<And>x s. x \<in> set xs \<Longrightarrow> f x s = Some (g x s)) \<Longrightarrow> fold_opt f xs s = Some (fold g xs s)"
  by (induction xs arbitrary: s) auto

lemma fold_opt_invariant:
  assumes "I s" and "\<And>x s. x \<in> set xs \<Longrightarrow> I s \<Longrightarrow> \<exists>s'. f x s = Some s' \<and> I s'"
  shows "\<exists>s'. fold_opt f xs s = Some s' \<and> I s'"
  using assms
proof (induction xs arbitrary: s)
  case (Cons x xs)
  from Cons.prems(2) [of x s] Cons.prems(1) obtain s' where "f x s = Some s'" "I s'" by auto
  with Cons.IH [of s'] Cons.prems(2) show ?case by simp
qed simp

lemma all_opt_Some:
  "(\<And>x. x \<in> set xs \<Longrightarrow> p x = Some (q x)) \<Longrightarrow> all_opt p xs = Some (list_all q xs)"
  by (induction xs) auto

lemma set_hash_insert [simp]: "set (hash_insert x s) = insert x (set s)"
  by (auto simp: hash_insert_def)

lemma distinct_hash_insert [simp]: "distinct (hash_insert x s) \<longleftrightarrow> distinct s"
  by (auto simp: hash_insert_def)

lemma set_fold_hash_insert [simp]: "set (fold hash_insert xs s) = set s \<union> set xs"
  by (induction xs arbitrary: s) auto

lemma distinct_fold_hash_insert [simp]: "distinct (fold hash_insert xs s) \<longleftrightarrow> distinct s"
  by (induction xs arbitrary: s) auto

section \<open>The worklist loop\<close>

text \<open>
  \<open>while let Some(s) = pending.pop() { if visited.insert(s) { ...; pending.extend(...) } }\<close>: the body
  updates an accumulator and returns the states to push. The stack is kept with its top first, so
  pushing a sequence reverses it.
\<close>

partial_function (option) explore ::
    "('a \<Rightarrow> 'b \<Rightarrow> ('b \<times> 'a list) option) \<Rightarrow> 'a list \<Rightarrow> 'b \<Rightarrow> 'a list \<Rightarrow> ('a list \<times> 'b) option" where
  "explore visit visited acc pending =
     (case pending of
        [] \<Rightarrow> Some (visited, acc)
      | s # rest \<Rightarrow>
          if s \<in> set visited then explore visit visited acc rest
          else Option.bind (visit s acc) (\<lambda>(acc, new).
                 explore visit (visited @ [s]) acc (rev new @ rest)))"

declare explore.simps [code]

definition successors_rel :: "('a \<Rightarrow> 'a list) \<Rightarrow> ('a \<times> 'a) set" where
  "successors_rel succ = {(s, t). t \<in> set (succ s)}"

text \<open>
  The contract of a worklist loop: over a finite universe that the successors do not leave, the body
  never panics and pushes the successors of the state, whatever the accumulator holds.
\<close>

locale worklist =
  fixes visit :: "'p \<Rightarrow> 'a \<Rightarrow> 'b \<Rightarrow> ('b \<times> 'a list) option"
    and succ :: "'p \<Rightarrow> 'a \<Rightarrow> 'a list"
    and inv :: "'p \<Rightarrow> bool"
    and univ :: "'p \<Rightarrow> 'a set"
  assumes finite_univ: "inv p \<Longrightarrow> finite (univ p)"
    and visit_total: "\<lbrakk>inv p; s \<in> univ p\<rbrakk> \<Longrightarrow> \<exists>acc'. visit p s acc = Some (acc', succ p s)"
    and succ_closed: "\<lbrakk>inv p; s \<in> univ p\<rbrakk> \<Longrightarrow> set (succ p s) \<subseteq> univ p"
begin

definition explored :: "'p \<Rightarrow> 'a list \<Rightarrow> 'b \<Rightarrow> 'a list \<Rightarrow> 'a list \<Rightarrow> bool" where
  "explored p visited acc pending vs \<longleftrightarrow>
     explore (visit p) visited acc pending = Some (visited @ vs, fold (\<lambda>s a. fst (the (visit p s a))) vs acc) \<and>
     distinct (visited @ vs) \<and> set vs \<subseteq> (successors_rel (succ p))\<^sup>* `` set pending \<inter> univ p \<and>
     set pending \<subseteq> set (visited @ vs) \<and> (\<forall>s\<in>set (visited @ vs). set (succ p s) \<subseteq> set (visited @ vs))"

lemma explored_again:
  assumes "explored p visited acc rest vs" and "s \<in> set visited"
  shows "explored p visited acc (s # rest) vs"
proof -
  have "explore (visit p) visited acc (s # rest) = explore (visit p) visited acc rest"
    by (subst explore.simps) (simp add: assms(2))
  with assms show ?thesis by (auto simp: explored_def)
qed

lemma explored_new:
  assumes "explored p (visited @ [s]) acc' (rev (succ p s) @ rest) vs" and "s \<notin> set visited" and "s \<in> univ p"
    and v: "visit p s acc = Some (acc', succ p s)"
  shows "explored p visited acc (s # rest) (s # vs)"
proof -
  have "(successors_rel (succ p))\<^sup>* `` set (rev (succ p s) @ rest) \<subseteq> (successors_rel (succ p))\<^sup>* `` set (s # rest)"
    by (auto simp: successors_rel_def intro: converse_rtrancl_into_rtrancl)
  moreover have "explore (visit p) visited acc (s # rest) =
      explore (visit p) (visited @ [s]) acc' (rev (succ p s) @ rest)"
    by (subst explore.simps) (simp add: assms(2) v)
  ultimately show ?thesis using assms by (auto simp: explored_def)
qed

lemma explore_total:
  assumes "inv p" and "distinct visited" and "set visited \<subseteq> univ p" and "set pending \<subseteq> univ p"
    and "\<forall>s\<in>set visited. set (succ p s) \<subseteq> set visited \<union> set pending"
  shows "\<exists>vs. explored p visited acc pending vs"
  using assms(2-)
proof (induction "(card (univ p - set visited), length pending)" arbitrary: visited acc pending
    rule: wf_induct_rule [OF wf_lex_prod [OF wf_less_than wf_less_than]])
  case 1
  note IH = "1.hyps" and prems = "1.prems"
  show ?case
  proof (cases pending)
    case Nil
    with prems show ?thesis
      by (intro exI [of _ "[]"]) (simp add: explored_def explore.simps)
  next
    case (Cons s rest)
    show ?thesis
    proof (cases "s \<in> set visited")
      case True
      have "\<exists>vs. explored p visited acc rest vs"
        using prems Cons True by (intro IH) auto
      with True Cons show ?thesis by (blast intro: explored_again)
    next
      case False
      have s: "s \<in> univ p" using prems(3) Cons by simp
      from visit_total [OF assms(1) s, of acc] obtain acc' where v: "visit p s acc = Some (acc', succ p s)" by blast
      have "card (univ p - set (visited @ [s])) < card (univ p - set visited)"
        using s False finite_univ [OF assms(1)] by (intro psubset_card_mono) auto
      then have "\<exists>vs. explored p (visited @ [s]) acc' (rev (succ p s) @ rest) vs"
        using prems Cons s False succ_closed [OF assms(1) s] by (intro IH) auto
      with False s v Cons show ?thesis by (blast intro: explored_new)
    qed
  qed
qed

text \<open>The loop returns, and what it has visited is what can be reached from the initial stack.\<close>

lemma explore_reaches:
  assumes "inv p" and "set pending \<subseteq> univ p"
  shows "\<exists>vs. explore (visit p) [] acc pending = Some (vs, fold (\<lambda>s a. fst (the (visit p s a))) vs acc) \<and>
      distinct vs \<and> set vs \<subseteq> univ p \<and> set vs = (successors_rel (succ p))\<^sup>* `` set pending"
proof -
  from explore_total [OF assms(1), of "[]" pending acc] assms(2) obtain vs where
    vs: "explore (visit p) [] acc pending = Some (vs, fold (\<lambda>s a. fst (the (visit p s a))) vs acc)" "distinct vs"
      "set vs \<subseteq> (successors_rel (succ p))\<^sup>* `` set pending \<inter> univ p"
    and base: "set pending \<subseteq> set vs" and closed: "\<forall>s\<in>set vs. set (succ p s) \<subseteq> set vs"
    by (auto simp: explored_def)
  have "t \<in> set vs" if "(s, t) \<in> (successors_rel (succ p))\<^sup>*" "s \<in> set pending" for s t
    using that by (induction rule: rtrancl_induct) (use base closed in \<open>auto simp: successors_rel_def\<close>)
  with vs show ?thesis by (intro exI [of _ vs]) blast
qed

text \<open>Started from a single state, the loop visits that state first.\<close>

lemma explore_from:
  assumes "inv p" and "s \<in> univ p"
  shows "\<exists>vs. explore (visit p) [] acc [s] = Some (s # vs, fold (\<lambda>s a. fst (the (visit p s a))) (s # vs) acc) \<and>
      distinct (s # vs) \<and> set (s # vs) \<subseteq> univ p \<and> set (s # vs) = (successors_rel (succ p))\<^sup>* `` {s}"
proof -
  obtain acc' where v: "visit p s acc = Some (acc', succ p s)" using visit_total [OF assms] by blast
  obtain vs where vs: "explored p [s] acc' (rev (succ p s)) vs"
    using explore_total [OF assms(1), of "[s]" "rev (succ p s)" acc'] succ_closed [OF assms] assms(2) by auto
  have "explore (visit p) [] acc [s] = explore (visit p) [s] acc' (rev (succ p s))"
    by (subst explore.simps) (simp add: v)
  also have "\<dots> = Some (s # vs, fold (\<lambda>s a. fst (the (visit p s a))) (s # vs) acc)"
    using vs v by (simp add: explored_def)
  finally have "explore (visit p) [] acc [s] = Some (s # vs, fold (\<lambda>s a. fst (the (visit p s a))) (s # vs) acc)" .
  with explore_reaches [OF assms(1), of "[s]" acc] assms(2) show ?thesis by auto
qed

end

section \<open>The language of a labelled graph\<close>

primrec steps :: "('s \<times> 'l \<times> 's) set \<Rightarrow> 's \<Rightarrow> 'l list \<Rightarrow> 's \<Rightarrow> bool" where
  "steps E p [] q \<longleftrightarrow> p = q"
| "steps E p (l # w) q \<longleftrightarrow> (\<exists>r. (p, l, r) \<in> E \<and> steps E r w q)"

definition lang :: "('s \<times> 'l \<times> 's) set \<Rightarrow> 's set \<Rightarrow> 's set \<Rightarrow> 'l list set" where
  "lang E I F = {w. \<exists>p\<in>I. \<exists>q\<in>F. steps E p w q}"

definition graph_of :: "('s \<times> 'l \<times> 's) set \<Rightarrow> ('s \<times> 's) set" where
  "graph_of E = {(p, q). \<exists>l. (p, l, q) \<in> E}"

lemma steps_append: "steps E p (v @ w) q \<longleftrightarrow> (\<exists>r. steps E p v r \<and> steps E r w q)"
  by (induction v arbitrary: p) auto

lemma steps_mono: "steps E p w q \<Longrightarrow> E \<subseteq> E' \<Longrightarrow> steps E' p w q"
  by (induction w arbitrary: p) auto

lemma steps_reachable: "steps E p w q \<Longrightarrow> (p, q) \<in> (graph_of E)\<^sup>*"
  by (induction w arbitrary: p) (auto simp: graph_of_def intro: converse_rtrancl_into_rtrancl)

lemma steps_closed:
  assumes "steps E p w q" and "p \<in> S" and "\<And>p l q. (p, l, q) \<in> E \<Longrightarrow> p \<in> S \<Longrightarrow> q \<in> S"
  shows "q \<in> S"
  using assms(1,2) by (induction w arbitrary: p) (auto dest: assms(3))

lemma reachable_steps: "(p, q) \<in> (graph_of E)\<^sup>* \<Longrightarrow> \<exists>w. steps E p w q"
proof (induction rule: converse_rtrancl_induct)
  case base
  have "steps E q [] q" by simp
  then show ?case by blast
next
  case (step p r)
  then obtain l w where "(p, l, r) \<in> E" "steps E r w q" by (auto simp: graph_of_def)
  then have "steps E p (l # w) q" by auto
  then show ?case by blast
qed

text \<open>Letters that label no edge do not occur in the language.\<close>

lemma steps_letters: "steps E p w q \<Longrightarrow> set w \<subseteq> {l. \<exists>p q. (p, l, q) \<in> E}"
  by (induction w arbitrary: p) auto

text \<open>Renaming the states by an injective function keeps the language.\<close>

lemma steps_rename:
  assumes inj: "inj_on f S" and E: "\<And>p l q. (p, l, q) \<in> E \<Longrightarrow> p \<in> S \<and> q \<in> S" and "p \<in> S" "q \<in> S"
  shows "steps ((\<lambda>(p, l, q). (f p, l, f q)) ` E) (f p) w (f q) \<longleftrightarrow> steps E p w q"
  using \<open>p \<in> S\<close>
proof (induction w arbitrary: p)
  case Nil
  then show ?case using inj \<open>q \<in> S\<close> by (auto dest: inj_onD)
next
  case (Cons l w)
  have edge: "(f p, l, r') \<in> (\<lambda>(p, l, q). (f p, l, f q)) ` E \<longleftrightarrow> (\<exists>r\<in>S. r' = f r \<and> (p, l, r) \<in> E)" for r'
  proof
    assume "(f p, l, r') \<in> (\<lambda>(p, l, q). (f p, l, f q)) ` E"
    then obtain p0 r where r: "(p0, l, r) \<in> E" "f p0 = f p" "r' = f r" by auto
    with E [OF r(1)] inj Cons.prems show "\<exists>r\<in>S. r' = f r \<and> (p, l, r) \<in> E" by (auto dest: inj_onD)
  qed force
  have "steps ((\<lambda>(p, l, q). (f p, l, f q)) ` E) (f p) (l # w) (f q) \<longleftrightarrow> (\<exists>r\<in>S. (p, l, r) \<in> E \<and> steps E r w q)"
    using Cons.IH by (auto simp: edge)
  then show ?case using E by auto
qed

lemma lang_rename:
  assumes "inj_on f S" and E: "\<And>p l q. (p, l, q) \<in> E \<Longrightarrow> p \<in> S \<and> q \<in> S" and "I \<subseteq> S" "F \<subseteq> S"
  shows "lang ((\<lambda>(p, l, q). (f p, l, f q)) ` E) (f ` I) (f ` F) = lang E I F"
proof -
  have "steps ((\<lambda>(p, l, q). (f p, l, f q)) ` E) (f p) w (f q) \<longleftrightarrow> steps E p w q" if "p \<in> I" "q \<in> F" for p q w
    using that assms(3,4) by (intro steps_rename [OF assms(1)]) (auto dest: E)
  then show ?thesis by (auto simp: lang_def)
qed

text \<open>Restricting a graph to states that lie on an accepting path keeps the language.\<close>

definition restrict_edges :: "'s set \<Rightarrow> ('s \<times> 'l \<times> 's) set \<Rightarrow> ('s \<times> 'l \<times> 's) set" where
  "restrict_edges S E = {(p, l, q) \<in> E. p \<in> S \<and> q \<in> S}"

definition live :: "('s \<times> 'l \<times> 's) set \<Rightarrow> 's set \<Rightarrow> 's set \<Rightarrow> 's set" where
  "live E I F = (graph_of E)\<^sup>* `` I \<inter> {s. \<exists>q\<in>F. (s, q) \<in> (graph_of E)\<^sup>*}"

lemma steps_restrict:
  assumes "steps E p w q" and "i \<in> I" "(i, p) \<in> (graph_of E)\<^sup>*" "q \<in> F"
  shows "steps (restrict_edges (live E I F) E) p w q \<and> p \<in> live E I F"
  using assms
proof (induction w arbitrary: p)
  case (Cons l w)
  then obtain r where r: "(p, l, r) \<in> E" "steps E r w q" by auto
  then have pr: "(p, r) \<in> graph_of E" by (auto simp: graph_of_def)
  with Cons.prems(3) have "(i, r) \<in> (graph_of E)\<^sup>*" by (rule rtrancl_into_rtrancl)
  from Cons.IH [OF r(2) Cons.prems(2) this Cons.prems(4)]
  have IH: "steps (restrict_edges (live E I F) E) r w q" "r \<in> live E I F" by auto
  have "(p, q) \<in> (graph_of E)\<^sup>*" using Cons.prems(1) by (rule steps_reachable)
  then have "p \<in> live E I F" using Cons.prems by (auto simp: live_def)
  with IH r(1) show ?case by (auto simp: restrict_edges_def)
qed (auto simp: live_def)

lemma lang_restrict: "lang (restrict_edges (live E I F) E) (I \<inter> live E I F) (F \<inter> live E I F) = lang E I F"
proof
  show "lang (restrict_edges (live E I F) E) (I \<inter> live E I F) (F \<inter> live E I F) \<subseteq> lang E I F"
    by (auto simp: lang_def restrict_edges_def intro: steps_mono)
  show "lang E I F \<subseteq> lang (restrict_edges (live E I F) E) (I \<inter> live E I F) (F \<inter> live E I F)"
  proof
    fix w assume "w \<in> lang E I F"
    then obtain p q where w: "p \<in> I" "q \<in> F" "steps E p w q" by (auto simp: lang_def)
    have "q \<in> live E I F" using w steps_reachable [OF w(3)] by (auto simp: live_def)
    with steps_restrict [OF w(3,1) _ w(2)] w show "w \<in> lang (restrict_edges (live E I F) E) (I \<inter> live E I F) (F \<inter> live E I F)"
      by (auto simp: lang_def)
  qed
qed

text \<open>
  Graphs without useless parts: every edge lies on a path from an initial to a final state, and every
  final state can be reached.
\<close>

definition trimmed :: "('s \<times> 'l \<times> 's) set \<Rightarrow> 's set \<Rightarrow> 's set \<Rightarrow> bool" where
  "trimmed E I F \<longleftrightarrow> (\<forall>(p, l, q)\<in>E. p \<in> live E I F \<and> q \<in> live E I F) \<and> F \<subseteq> live E I F"

lemma trimmedD:
  assumes "trimmed E I F"
  shows "(p, l, q) \<in> E \<Longrightarrow> p \<in> live E I F" "(p, l, q) \<in> E \<Longrightarrow> q \<in> live E I F" "f \<in> F \<Longrightarrow> f \<in> live E I F"
  using assms by (auto simp: trimmed_def)

lemma liveI: "i \<in> I \<Longrightarrow> f \<in> F \<Longrightarrow> steps E i u s \<Longrightarrow> steps E s v f \<Longrightarrow> s \<in> live E I F"
  by (auto simp: live_def intro: steps_reachable)

lemma live_self: "i \<in> I \<Longrightarrow> i \<in> F \<Longrightarrow> i \<in> live E I F"
  by (auto simp: live_def)

lemma liveE:
  assumes "s \<in> live E I F"
  obtains i u f v where "i \<in> I" "f \<in> F" "steps E i u s" "steps E s v f"
proof -
  from assms obtain i f where "i \<in> I" "(i, s) \<in> (graph_of E)\<^sup>*" "f \<in> F" "(s, f) \<in> (graph_of E)\<^sup>*" by (auto simp: live_def)
  with that show thesis by (blast dest: reachable_steps)
qed

lemma live_mono: "s \<in> live E I F \<Longrightarrow> E \<subseteq> E' \<Longrightarrow> I \<subseteq> I' \<Longrightarrow> F \<subseteq> F' \<Longrightarrow> s \<in> live E' I' F'"
  by (elim liveE) (blast intro: liveI steps_mono)

lemma live_image:
  assumes "s \<in> live E I F"
  shows "f s \<in> live ((\<lambda>(p, l, q). (f p, l, f q)) ` E) (f ` I) (f ` F)"
proof -
  have st: "steps ((\<lambda>(p, l, q). (f p, l, f q)) ` E) (f p) w (f q)" if "steps E p w q" for p w q
    using that by (induction w arbitrary: p) force+
  from assms show ?thesis by (elim liveE) (blast intro: liveI st)
qed

lemma trimmed_image: "trimmed E I F \<Longrightarrow> trimmed ((\<lambda>(p, l, q). (f p, l, f q)) ` E) (f ` I) (f ` F)"
  unfolding trimmed_def by (auto intro!: live_image)

lemma steps_restrict_live:
  assumes "steps E p w q" and "i \<in> I" "steps E i u p" "q \<in> live E I F"
  shows "steps (restrict_edges (live E I F) E) p w q"
proof -
  from assms(4) obtain f v where f: "f \<in> F" "steps E q v f" by (rule liveE)
  with assms(1) have "steps E p (w @ v) f" by (auto simp: steps_append)
  have "steps (restrict_edges (live E I F) E) p w q" if "steps E p w q" "steps E i u p" for p u
    using that
  proof (induction w arbitrary: p u)
    case (Cons l w)
    then obtain r where r: "(p, l, r) \<in> E" "steps E r w q" by auto
    have "steps E i (u @ [l]) r" using Cons.prems(2) r(1) by (auto simp: steps_append)
    moreover have "steps E r (w @ v) f" "steps E p (l # w @ v) f" using r f(2) by (auto simp: steps_append)
    ultimately have "p \<in> live E I F" "r \<in> live E I F" using assms(2) f(1) Cons.prems(2) by (blast intro: liveI)+
    with Cons.IH [OF r(2) \<open>steps E i (u @ [l]) r\<close>] r(1) show ?case by (auto simp: restrict_edges_def)
  qed simp
  with assms(1,3) show ?thesis by blast
qed

lemma live_restrict:
  assumes "s \<in> live E I F"
  shows "s \<in> live (restrict_edges (live E I F) E) (I \<inter> live E I F) (F \<inter> live E I F)"
proof -
  from assms obtain i u f v where w: "i \<in> I" "f \<in> F" "steps E i u s" "steps E s v f" by (rule liveE)
  then have "steps E i (u @ v) f" by (auto simp: steps_append)
  with w have l: "i \<in> live E I F" "f \<in> live E I F" using liveI [OF w(1,2), of E "[]" i] liveI [OF w(1,2) _ , of E "u @ v" f "[]"] by auto
  have "steps (restrict_edges (live E I F) E) i u s" using steps_restrict_live [OF w(3,1) _ assms, of "[]"] by simp
  with steps_restrict_live [OF w(4,1,3) l(2)] show ?thesis using w(1,2) l by (intro liveI [of i _ f]) auto
qed

lemma trimmed_restrict: "trimmed (restrict_edges (live E I F) E) (I \<inter> live E I F) (F \<inter> live E I F)"
  using live_restrict [of _ E I F] unfolding trimmed_def by (auto simp: restrict_edges_def)

text \<open>Two graphs related by a bisimulation accept the same words.\<close>

lemma lang_bisim:
  assumes init: "\<And>p. p \<in> I \<Longrightarrow> \<exists>p'\<in>I'. R p p'" "\<And>p'. p' \<in> I' \<Longrightarrow> \<exists>p\<in>I. R p p'"
    and fin: "\<And>p p'. R p p' \<Longrightarrow> p \<in> F \<longleftrightarrow> p' \<in> F'"
    and forth: "\<And>p p' l q. R p p' \<Longrightarrow> (p, l, q) \<in> E \<Longrightarrow> \<exists>q'. (p', l, q') \<in> E' \<and> R q q'"
    and bwd: "\<And>p p' l q'. R p p' \<Longrightarrow> (p', l, q') \<in> E' \<Longrightarrow> \<exists>q. (p, l, q) \<in> E \<and> R q q'"
  shows "lang E I F = lang E' I' F'"
proof -
  have *: "(\<exists>q\<in>F. steps E p w q) \<longleftrightarrow> (\<exists>q'\<in>F'. steps E' p' w q')" if "R p p'" for p p' w
    using that
  proof (induction w arbitrary: p p')
    case Nil
    then show ?case using fin by auto
  next
    case (Cons l w)
    show ?case
    proof
      assume "\<exists>q\<in>F. steps E p (l # w) q"
      then obtain r q where "(p, l, r) \<in> E" "q \<in> F" "steps E r w q" by auto
      with forth [OF Cons.prems] Cons.IH show "\<exists>q'\<in>F'. steps E' p' (l # w) q'" by (meson steps.simps(2))
    next
      assume "\<exists>q'\<in>F'. steps E' p' (l # w) q'"
      then obtain r q where "(p', l, r) \<in> E'" "q \<in> F'" "steps E' r w q" by auto
      with bwd [OF Cons.prems] Cons.IH show "\<exists>q\<in>F. steps E p (l # w) q" by (meson steps.simps(2))
    qed
  qed
  have "(\<exists>p\<in>I. \<exists>q\<in>F. steps E p w q) \<longleftrightarrow> (\<exists>p\<in>I'. \<exists>q\<in>F'. steps E' p w q)" for w
    using init * by meson
  then show ?thesis by (simp add: lang_def)
qed

text \<open>A deterministic graph has at most one path per word.\<close>

definition functional_edges :: "('s \<times> 'l \<times> 's) set \<Rightarrow> bool" where
  "functional_edges E \<longleftrightarrow> (\<forall>p l q q'. (p, l, q) \<in> E \<longrightarrow> (p, l, q') \<in> E \<longrightarrow> q = q')"

lemma steps_functional: "functional_edges E \<Longrightarrow> steps E p w q \<Longrightarrow> steps E p w q' \<Longrightarrow> q = q'"
  by (induction w arbitrary: p) (auto simp: functional_edges_def, metis)

end
