(* ===== verification/Automaton.thy ===== *)
theory Automaton
  imports Nfa "HOL-Library.Word" "HOL-Library.AList"
begin

text \<open>
  The automata of the scanner, \<open>circuits/src/parsing/scanner/automaton.rs\<close>: marked letters and their
  encoding, non-deterministic automata and all constructions on them (dead states, powerset
  construction, union, concatenation, intersection, complement, repetition), Hopcroft minimisation,
  and the conversion to the normalised deterministic automaton. Indices, states and markers are
  natural numbers; vectors and hash sets are lists, a hash set or map being iterated in the order of
  insertion. A result \<open>None\<close> is a panic (a failed assertion, \<open>unwrap\<close> or index) or a loop that does
  not end.
\<close>

section \<open>Letters\<close>

record letter =
  l_char :: "8 word"
  l_marker :: nat

definition letter_of_byte :: "8 word \<Rightarrow> letter" where
  "letter_of_byte b = \<lparr>l_char = b, l_marker = 0\<rparr>"

definition encode :: "letter \<Rightarrow> nat \<Rightarrow> nat list \<Rightarrow> nat option" where
  "encode l alphabet_size markers =
     map_option (\<lambda>m. m * alphabet_size + unat (l_char l)) (position (\<lambda>m. m = l_marker l) markers)"

definition decode :: "nat \<Rightarrow> nat \<Rightarrow> nat list \<Rightarrow> letter option" where
  "decode letter_encoding alphabet_size markers =
     (if alphabet_size = 0 then None
      else map_option (\<lambda>m. \<lparr>l_char = word_of_nat (letter_encoding mod alphabet_size), l_marker = m\<rparr>)
             (index_opt markers (letter_encoding div alphabet_size)))"

definition encoding_bound :: "nat \<Rightarrow> nat list \<Rightarrow> nat" where
  "encoding_bound alphabet_size markers = alphabet_size * length markers"

definition ALPHABET_MAX_SIZE :: nat where
  "ALPHABET_MAX_SIZE = 256"

section \<open>Automata and basic constructions\<close>

type_synonym transition_table = "(letter \<times> nat) list list"

record raw_automaton =
  ra_deterministic :: bool
  ra_complete :: bool
  ra_initial_state :: nat
  ra_final_states :: "nat list"
  ra_transitions :: transition_table
  ra_markers :: "nat list"

definition empty_automaton :: raw_automaton where
  "empty_automaton = \<lparr>ra_deterministic = True, ra_complete = False, ra_initial_state = 0,
     ra_final_states = [], ra_transitions = [[]], ra_markers = []\<rparr>"

definition epsilon_automaton :: raw_automaton where
  "epsilon_automaton = \<lparr>ra_deterministic = True, ra_complete = False, ra_initial_state = 0,
     ra_final_states = [0], ra_transitions = [[]], ra_markers = []\<rparr>"

definition byte_concat :: "letter list list \<Rightarrow> nat \<Rightarrow> raw_automaton" where
  "byte_concat word alphabet_size =
     (let in_alphabet = filter (\<lambda>byte. unat (l_char byte) < alphabet_size)
      in \<lparr>ra_deterministic = True, ra_complete = False, ra_initial_state = 0,
          ra_final_states = [length word],
          ra_transitions =
            imap 0 (\<lambda>position byte_range. map (\<lambda>byte. (byte, position + 1)) (in_alphabet byte_range)) word @ [[]],
          ra_markers = hash_collect (map l_marker (concat (map in_alphabet word)))\<rparr>)"

definition universal :: "nat \<Rightarrow> raw_automaton option" where
  "universal alphabet_size =
     (if alphabet_size \<le> ALPHABET_MAX_SIZE
      then Some \<lparr>ra_deterministic = True, ra_complete = True, ra_initial_state = 0, ra_final_states = [0],
             ra_transitions = [map (\<lambda>b. (letter_of_byte (word_of_nat b), 0)) [0..<alphabet_size]],
             ra_markers = []\<rparr>
      else None)"

text \<open>Whether some transition enters the initial state.\<close>

definition loop_on_initial :: "raw_automaton \<Rightarrow> bool" where
  "loop_on_initial a =
     list_ex (list_ex (\<lambda>(_, target). target = ra_initial_state a)) (ra_transitions a)"

definition nothing_after_final :: "raw_automaton \<Rightarrow> bool option" where
  "nothing_after_final a =
     all_opt (\<lambda>state. map_option (\<lambda>succ. succ = []) (index_opt (ra_transitions a) state)) (ra_final_states a)"

definition make_optional :: "raw_automaton \<Rightarrow> raw_automaton option" where
  "make_optional a =
     (if ra_initial_state a \<notin> set (ra_final_states a)
      then if loop_on_initial a
           then do { succ \<leftarrow> index_opt (ra_transitions a) (ra_initial_state a);
                     let initial_state = length (ra_transitions a);
                     Some (a\<lparr>ra_initial_state := initial_state,
                             ra_final_states := hash_insert initial_state (ra_final_states a),
                             ra_transitions := ra_transitions a @ [succ]\<rparr>) }
           else Some (a\<lparr>ra_final_states := hash_insert (ra_initial_state a) (ra_final_states a)\<rparr>)
      else Some a)"

section \<open>Graph analysis and dead states\<close>

type_synonym reach_graph = "nat list list"

definition add_backward_edge :: "nat \<times> nat \<Rightarrow> reach_graph \<Rightarrow> reach_graph option" where
  "add_backward_edge e backward_edges =
     (case e of (source, target) \<Rightarrow>
        map_option (\<lambda>s. backward_edges[target := hash_insert source s]) (index_opt backward_edges target))"

definition reverse_graph :: "reach_graph \<Rightarrow> reach_graph option" where
  "reverse_graph graph =
     fold_opt add_backward_edge (concat (imap 0 (\<lambda>source succ. map (Pair source) succ) graph))
       (replicate (length graph) [])"

definition simplified_graph :: "raw_automaton \<Rightarrow> reach_graph" where
  "simplified_graph a = map (\<lambda>succ. hash_collect (map snd succ)) (ra_transitions a)"

text \<open>The bodies of the two loops of \<open>live_states\<close>.\<close>

definition visit_forward :: "reach_graph \<Rightarrow> nat \<Rightarrow> unit \<Rightarrow> (unit \<times> nat list) option" where
  "visit_forward forward_edges state acc = map_option (Pair ()) (index_opt forward_edges state)"

definition visit_backward ::
    "reach_graph \<times> nat list \<Rightarrow> nat \<Rightarrow> nat list \<Rightarrow> (nat list \<times> nat list) option" where
  "visit_backward p state live_set =
     (case p of (backward_edges, reachable) \<Rightarrow>
        if state \<in> set reachable
        then map_option (Pair (hash_insert state live_set)) (index_opt backward_edges state)
        else Some (live_set, []))"

definition live_states :: "raw_automaton \<Rightarrow> nat list option" where
  "live_states a =
     (let forward_edges = simplified_graph a
      in do { backward_edges \<leftarrow> reverse_graph forward_edges;
              (reachable, _) \<leftarrow> explore (visit_forward forward_edges) [] () [ra_initial_state a];
              (_, live_set) \<leftarrow> explore (visit_backward (backward_edges, reachable)) [] [] (rev (ra_final_states a));
              Some live_set })"

definition add_transition ::
    "(nat \<Rightarrow> nat option) \<Rightarrow> nat \<Rightarrow> nat \<times> letter \<times> nat \<Rightarrow> transition_table \<times> nat list
     \<Rightarrow> (transition_table \<times> nat list) option" where
  "add_transition f offset tr st =
     (case (tr, st) of ((source, letter, target), (new_transitions, markers)) \<Rightarrow>
        case f source of
          None \<Rightarrow> Some st
        | Some new_source \<Rightarrow>
            (case f target of
               None \<Rightarrow> Some st
             | Some new_target \<Rightarrow>
                 if new_source < offset then None
                 else map_option (\<lambda>succ. (new_transitions[new_source - offset := succ @ [(letter, new_target)]],
                                          hash_insert (l_marker letter) markers))
                        (index_opt new_transitions (new_source - offset))))"

definition table_edges :: "transition_table \<Rightarrow> (nat \<times> letter \<times> nat) list" where
  "table_edges transitions =
     concat (imap 0 (\<lambda>source succ. map (\<lambda>(letter, target). (source, letter, target)) succ) transitions)"

definition filter_map_transitions ::
    "transition_table \<Rightarrow> (nat \<Rightarrow> nat option) \<Rightarrow> nat \<Rightarrow> nat \<Rightarrow> (transition_table \<times> nat list) option" where
  "filter_map_transitions transitions f new_nb_states offset =
     fold_opt (add_transition f offset) (table_edges transitions) (replicate new_nb_states [], [])"

text \<open>The renaming of the elements of a sequence to their positions, collected in a hash map.\<close>

definition renaming_of :: "'a list \<Rightarrow> 'a \<Rightarrow> nat option" where
  "renaming_of xs x = position (\<lambda>y. y = x) xs"

definition remove_dead_states :: "raw_automaton \<Rightarrow> raw_automaton option" where
  "remove_dead_states a =
     do { live_set \<leftarrow> live_states a;
          if live_set = [] then Some empty_automaton
          else let renaming = renaming_of live_set
               in do { initial_state \<leftarrow> renaming (ra_initial_state a);
                       (transitions, markers) \<leftarrow>
                         filter_map_transitions (ra_transitions a) renaming (length live_set) 0;
                       Some \<lparr>ra_deterministic = ra_deterministic a, ra_complete = False,
                             ra_initial_state = initial_state,
                             ra_final_states = hash_collect (List.map_filter renaming (ra_final_states a)),
                             ra_transitions = transitions, ra_markers = markers\<rparr> } }"

definition check_determinism :: "raw_automaton \<Rightarrow> raw_automaton" where
  "check_determinism a =
     a\<lparr>ra_deterministic := ra_deterministic a \<or> list_all (\<lambda>succ. distinct (map fst succ)) (ra_transitions a)\<rparr>"

section \<open>Determinisation\<close>

type_synonym bitset = "bool list"

definition bit_set :: "nat \<Rightarrow> bitset \<Rightarrow> bitset option" where
  "bit_set i b = (if i < length b then Some (b[i := True]) else None)"

text \<open>
  \<open>successors.entry(e).or_insert(vec![false; n])[target] = true\<close> on a hash map kept in insertion
  order.
\<close>

definition mark_successor ::
    "nat \<Rightarrow> nat \<Rightarrow> nat \<Rightarrow> (nat \<times> bitset) list \<Rightarrow> (nat \<times> bitset) list option" where
  "mark_successor nb_states e target successors =
     (case map_of successors e of
        Some b \<Rightarrow> map_option (\<lambda>b'. AList.update e b' successors) (bit_set target b)
      | None \<Rightarrow> map_option (\<lambda>b'. successors @ [(e, b')]) (bit_set target (replicate nb_states False)))"

definition power_successors ::
    "raw_automaton \<Rightarrow> bool \<Rightarrow> nat \<Rightarrow> bitset \<Rightarrow> (nat \<times> bitset) list option" where
  "power_successors a completion alphabet_size power_state =
     (let nb_states = length (ra_transitions a);
          successors = (if completion
            then map (\<lambda>i. (i, replicate nb_states False)) [0..<encoding_bound alphabet_size (ra_markers a)]
            else [])
      in fold_opt
           (\<lambda>source successors.
              do { succ \<leftarrow> index_opt (ra_transitions a) source;
                   fold_opt (\<lambda>(letter, target) successors.
                     do { e \<leftarrow> encode letter alphabet_size (ra_markers a);
                          mark_successor nb_states e target successors }) succ successors })
           (filter (\<lambda>source. power_state ! source) [0..<length power_state]) successors)"

text \<open>
  The body of the main loop. The accumulator holds the state counter, the final states and the
  transitions; a state is numbered by its position among the visited states.
\<close>

type_synonym power_acc = "nat \<times> nat list \<times> (bitset \<times> letter \<times> bitset) list"

definition visit_power ::
    "raw_automaton \<times> bool \<times> nat \<Rightarrow> bitset \<Rightarrow> power_acc \<Rightarrow> (power_acc \<times> bitset list) option" where
  "visit_power p power_state acc =
     (case (p, acc) of ((a, completion, alphabet_size), (state_counter, final_states, power_transitions)) \<Rightarrow>
        do { non_final \<leftarrow> all_opt (\<lambda>state. map_option Not (index_opt power_state state)) (ra_final_states a);
             let final_states = (if non_final then final_states else hash_insert state_counter final_states);
             successors \<leftarrow> power_successors a completion alphabet_size power_state;
             new \<leftarrow> those (map (\<lambda>(e, target).
                 map_option (\<lambda>letter. (power_state, letter, target)) (decode e alphabet_size (ra_markers a))) successors);
             Some ((state_counter + 1, final_states, power_transitions @ new), map snd successors) })"

definition number_transition ::
    "('s \<Rightarrow> nat option) \<Rightarrow> 's \<times> letter \<times> 's \<Rightarrow> transition_table \<Rightarrow> transition_table option" where
  "number_transition numbering tr transitions =
     (case tr of (source, letter, target) \<Rightarrow>
        do { source \<leftarrow> numbering source;
             target \<leftarrow> numbering target;
             succ \<leftarrow> index_opt transitions source;
             Some (transitions[source := succ @ [(letter, target)]]) })"

definition powerset_construction ::
    "raw_automaton \<Rightarrow> nat list \<Rightarrow> bool \<Rightarrow> nat \<Rightarrow> raw_automaton option" where
  "powerset_construction a initials completion alphabet_size =
     do { initial_state \<leftarrow> fold_opt bit_set initials (replicate (length (ra_transitions a)) False);
          (visited, state_counter, final_states, power_transitions) \<leftarrow>
            explore (visit_power (a, completion, alphabet_size)) [] (0, [], []) [initial_state];
          transitions \<leftarrow> fold_opt (number_transition (renaming_of visited)) power_transitions (replicate state_counter []);
          Some \<lparr>ra_deterministic = True, ra_complete = ra_complete a \<or> completion, ra_initial_state = 0,
                ra_final_states = final_states, ra_transitions = transitions, ra_markers = ra_markers a\<rparr> }"

definition determinise :: "bool \<Rightarrow> nat \<Rightarrow> raw_automaton \<Rightarrow> raw_automaton option" where
  "determinise completion alphabet_size a =
     (if ra_deterministic a \<and> (\<not> completion \<or> ra_complete a) then Some a
      else powerset_construction a [ra_initial_state a] completion alphabet_size)"

section \<open>Union\<close>

definition union_step ::
    "raw_automaton \<Rightarrow> raw_automaton \<times> nat list \<Rightarrow> (raw_automaton \<times> nat list) option" where
  "union_step automaton st =
     (case st of (union_automaton, union_initial_states) \<Rightarrow>
        let nb_states = length (ra_transitions union_automaton)
        in do { (transitions, markers) \<leftarrow>
                  filter_map_transitions (ra_transitions automaton) (\<lambda>state. Some (state + nb_states))
                    (length (ra_transitions automaton)) nb_states;
                Some (union_automaton
                  \<lparr>ra_final_states := fold hash_insert (map (\<lambda>state. state + nb_states) (ra_final_states automaton))
                                       (ra_final_states union_automaton),
                   ra_markers := fold hash_insert markers (ra_markers union_automaton),
                   ra_transitions := ra_transitions union_automaton @ transitions\<rparr>,
                  union_initial_states @ [ra_initial_state automaton + nb_states]) })"

definition union_automata :: "raw_automaton list \<Rightarrow> nat \<Rightarrow> raw_automaton option" where
  "union_automata automata alphabet_size =
     (if length automata = 1 then Some (hd automata)
      else do { (union_automaton, union_initial_states) \<leftarrow> fold_opt union_step automata (empty_automaton, []);
                powerset_construction union_automaton union_initial_states False alphabet_size })"

section \<open>Concatenation\<close>

record concat_state =
  co_automaton :: raw_automaton
  co_garbage :: "nat list"
  co_loop_on_initial :: bool

text \<open>
  The branch in which no transition leaves a final state: transitions to a final state of the new
  automaton are redirected to the current initial state, the old target becomes garbage.
\<close>

definition redirect_target :: "nat list \<Rightarrow> nat \<Rightarrow> nat \<Rightarrow> letter \<times> nat \<Rightarrow> letter \<times> nat" where
  "redirect_target finals nb_states initial tr =
     (if snd tr - nb_states \<in> set finals then (fst tr, initial) else tr)"

definition concat_redirect ::
    "raw_automaton \<Rightarrow> transition_table \<Rightarrow> concat_state \<Rightarrow> concat_state" where
  "concat_redirect automaton transitions st =
     (let acc = co_automaton st;
          nb_states = length (ra_transitions acc);
          redirected = filter (\<lambda>target. target - nb_states \<in> set (ra_final_states automaton))
                         (map snd (concat transitions))
      in \<lparr>co_automaton = acc
            \<lparr>ra_transitions := ra_transitions acc @
               map (map (redirect_target (ra_final_states automaton) nb_states (ra_initial_state acc))) transitions,
             ra_initial_state := ra_initial_state automaton + nb_states\<rparr>,
          co_garbage = fold hash_insert redirected (co_garbage st),
          co_loop_on_initial = loop_on_initial automaton\<rparr>)"

definition copy_outgoing :: "nat \<Rightarrow> nat \<Rightarrow> transition_table \<Rightarrow> transition_table option" where
  "copy_outgoing initial state transitions =
     do { outgoing \<leftarrow> index_opt transitions initial;
          succ \<leftarrow> index_opt transitions state;
          Some (transitions[state := succ @ outgoing]) }"

definition concat_plug ::
    "raw_automaton \<Rightarrow> transition_table \<Rightarrow> concat_state \<Rightarrow> concat_state option" where
  "concat_plug automaton transitions st =
     (let acc = co_automaton st;
          nb_states = length (ra_transitions acc);
          finals = map (\<lambda>s. s + nb_states) (ra_final_states automaton)
      in do { transitions \<leftarrow> fold_opt (copy_outgoing (ra_initial_state acc)) finals (ra_transitions acc @ transitions);
              Some \<lparr>co_automaton = acc
                      \<lparr>ra_transitions := transitions,
                       ra_final_states := (if ra_initial_state acc \<in> set (ra_final_states acc)
                         then fold hash_insert finals (ra_final_states acc) else ra_final_states acc),
                       ra_initial_state := ra_initial_state automaton + nb_states\<rparr>,
                    co_garbage = (if co_loop_on_initial st then co_garbage st
                                  else hash_insert (ra_initial_state acc) (co_garbage st)),
                    co_loop_on_initial = loop_on_initial automaton\<rparr> })"

definition concat_step :: "raw_automaton \<Rightarrow> concat_state \<Rightarrow> concat_state option" where
  "concat_step automaton st =
     (let nb_states = length (ra_transitions (co_automaton st))
      in do { (transitions, _) \<leftarrow>
                filter_map_transitions (ra_transitions automaton) (\<lambda>state. Some (state + nb_states))
                  (length (ra_transitions automaton)) nb_states;
              nothing_after \<leftarrow> nothing_after_final automaton;
              if nothing_after then Some (concat_redirect automaton transitions st)
              else concat_plug automaton transitions st })"

definition concat_automata :: "raw_automaton list \<Rightarrow> raw_automaton option" where
  "concat_automata automata =
     do { st \<leftarrow> fold_opt concat_step (rev automata)
            \<lparr>co_automaton = epsilon_automaton, co_garbage = [], co_loop_on_initial = False\<rparr>;
          let acc = co_automaton st;
          let kept = filter (\<lambda>source. source \<notin> set (co_garbage st)) [0..<length (ra_transitions acc)];
          let renaming = renaming_of kept;
          (transitions, markers) \<leftarrow> filter_map_transitions (ra_transitions acc) renaming (length kept) 0;
          initial_state \<leftarrow> renaming (ra_initial_state acc);
          Some (check_determinism
            \<lparr>ra_deterministic = False, ra_complete = list_all ra_complete automata,
             ra_initial_state = initial_state,
             ra_final_states = hash_collect (List.map_filter renaming (ra_final_states acc)),
             ra_transitions = transitions, ra_markers = markers\<rparr>) }"

section \<open>Intersection and complement\<close>

text \<open>
  The closure \<open>join\<close>: transitions on the same byte are merged when their markers agree or one of them
  is zero. The state of the closure holds the two flags, the markers and the transitions.
\<close>

record join_state =
  j_deterministic :: bool
  j_complete :: bool
  j_markers :: "nat list"
  j_transitions :: "((nat \<times> nat) \<times> letter \<times> (nat \<times> nat)) list"

definition join :: "nat \<times> letter \<times> nat \<Rightarrow> nat \<times> letter \<times> nat \<Rightarrow> join_state \<Rightarrow> join_state \<times> bool" where
  "join tr1 tr2 st =
     (case (tr1, tr2) of ((source1, letter1, target1), (source2, letter2, target2)) \<Rightarrow>
        if l_char letter1 = l_char letter2 \<and>
           (l_marker letter1 = l_marker letter2 \<or> l_marker letter1 = 0 \<or> l_marker letter2 = 0)
        then let m = max (l_marker letter1) (l_marker letter2);
                 tr = ((source1, source2), \<lparr>l_char = l_char letter1, l_marker = m\<rparr>, (target1, target2))
             in (st\<lparr>j_deterministic := j_deterministic st \<and> l_marker letter1 = l_marker letter2,
                    j_complete := j_complete st \<and> l_marker letter1 = l_marker letter2,
                    j_markers := hash_insert m (j_markers st),
                    j_transitions := j_transitions st @ [tr]\<rparr>, True)
        else (st, False))"

definition visit_pair ::
    "raw_automaton \<times> raw_automaton \<Rightarrow> nat \<times> nat \<Rightarrow> join_state \<Rightarrow> (join_state \<times> (nat \<times> nat) list) option" where
  "visit_pair p s st =
     (case (p, s) of ((a, rhs), (source1, source2)) \<Rightarrow>
        do { succ1 \<leftarrow> index_opt (ra_transitions a) source1;
             succ2 \<leftarrow> (if succ1 = [] then Some [] else index_opt (ra_transitions rhs) source2);
             Some (fold (\<lambda>((letter1, target1), (letter2, target2)) (st, new).
                     case join (source1, letter1, target1) (source2, letter2, target2) st of
                       (st, joined) \<Rightarrow> (st, if joined then new @ [(target1, target2)] else new))
                   (List.product succ1 succ2) (st, [])) })"

definition inter :: "raw_automaton \<Rightarrow> raw_automaton \<Rightarrow> raw_automaton option" where
  "inter a rhs =
     do { (visited, st) \<leftarrow> explore (visit_pair (a, rhs)) []
            \<lparr>j_deterministic = ra_deterministic a \<and> ra_deterministic rhs,
             j_complete = ra_complete a \<and> ra_complete rhs, j_markers = [], j_transitions = []\<rparr>
            [(ra_initial_state a, ra_initial_state rhs)];
          let renaming = renaming_of visited;
          transitions \<leftarrow> fold_opt (number_transition renaming) (j_transitions st) (replicate (length visited) []);
          initial_state \<leftarrow> renaming (ra_initial_state a, ra_initial_state rhs);
          let final_states = hash_collect (List.map_filter renaming
                (List.product (ra_final_states a) (ra_final_states rhs)));
          b \<leftarrow> remove_dead_states
            \<lparr>ra_deterministic = j_deterministic st, ra_complete = j_complete st, ra_initial_state = initial_state,
             ra_final_states = final_states, ra_transitions = transitions, ra_markers = j_markers st\<rparr>;
          Some (check_determinism b) }"

definition complement :: "raw_automaton \<Rightarrow> raw_automaton option" where
  "complement a =
     (if ra_deterministic a \<and> ra_complete a
      then remove_dead_states
             (a\<lparr>ra_final_states := filter (\<lambda>i. i \<notin> set (ra_final_states a)) [0..<length (ra_transitions a)]\<rparr>)
      else None)"

section \<open>Repetition\<close>

text \<open>The duplicates of \<open>transitions[state]\<close> are removed by going through a hash set.\<close>

definition repeat_final :: "(letter \<times> nat) list \<Rightarrow> nat \<Rightarrow> transition_table \<Rightarrow> transition_table option" where
  "repeat_final outgoing state transitions =
     map_option (\<lambda>succ. transitions[state := hash_collect (succ @ outgoing)]) (index_opt transitions state)"

definition strict_repeat :: "raw_automaton \<Rightarrow> raw_automaton option" where
  "strict_repeat a =
     do { outgoing_from_initial \<leftarrow> index_opt (ra_transitions a) (ra_initial_state a);
          transitions \<leftarrow> fold_opt (repeat_final outgoing_from_initial) (ra_final_states a) (ra_transitions a);
          Some (check_determinism (a\<lparr>ra_deterministic := False, ra_transitions := transitions\<rparr>)) }"

definition redirect_final_to_initial :: "raw_automaton \<Rightarrow> raw_automaton option" where
  "redirect_final_to_initial a =
     (let transitions = map (map (\<lambda>(letter, target).
            (letter, if target \<in> set (ra_final_states a) then ra_initial_state a else target))) (ra_transitions a);
          kept = filter (\<lambda>source. source \<notin> set (ra_final_states a) \<or> source = ra_initial_state a) [0..<length transitions];
          renaming = renaming_of kept
      in do { initial_state \<leftarrow> renaming (ra_initial_state a);
              if length transitions < length (ra_final_states a) then None
              else do { (transitions, markers) \<leftarrow>
                          filter_map_transitions transitions renaming (length transitions - length (ra_final_states a)) 0;
                        Some \<lparr>ra_deterministic = ra_deterministic a, ra_complete = ra_complete a,
                              ra_initial_state = initial_state, ra_final_states = [initial_state],
                              ra_transitions = transitions, ra_markers = markers\<rparr> } })"

definition weak_repeat :: "raw_automaton \<Rightarrow> raw_automaton option" where
  "weak_repeat a =
     do { nothing_after \<leftarrow> nothing_after_final a;
          if nothing_after \<and> (\<not> loop_on_initial a \<or> ra_initial_state a \<in> set (ra_final_states a))
          then redirect_final_to_initial a
          else Option.bind (strict_repeat a) make_optional }"

section \<open>Minimisation\<close>

definition bits_of :: "nat \<Rightarrow> nat list \<Rightarrow> bitset option" where
  "bits_of nb_states states = fold_opt bit_set states (replicate nb_states False)"

definition mark_predecessor ::
    "nat \<Rightarrow> nat list \<Rightarrow> bitset \<Rightarrow> nat \<times> letter \<times> nat \<Rightarrow> bitset list \<Rightarrow> bitset list option" where
  "mark_predecessor alphabet_size markers distinguisher tr predecessors =
     (case tr of (source, a, target) \<Rightarrow>
        do { b \<leftarrow> index_opt distinguisher target;
             if b
             then do { e \<leftarrow> encode a alphabet_size markers;
                       pred \<leftarrow> index_opt predecessors e;
                       pred \<leftarrow> bit_set source pred;
                       Some (predecessors[e := pred]) }
             else Some predecessors })"

text \<open>\<open>Vec::swap_remove\<close>: the last element takes the place of the removed one.\<close>

definition swap_remove :: "nat \<Rightarrow> 'a list \<Rightarrow> 'a list" where
  "swap_remove i xs = butlast (xs[i := last xs])"

text \<open>One class of the partition against one predecessor set.\<close>

definition refine_class ::
    "bitset \<Rightarrow> bitset \<Rightarrow> bitset list \<times> bitset list \<Rightarrow> bitset list \<times> bitset list" where
  "refine_class pred cls st =
     (case st of (partition_temp, distinguishers) \<Rightarrow>
        let inter = map2 (\<lambda>p c. p \<and> c) pred cls;
            minus = map2 (\<lambda>p c. \<not> p \<and> c) pred cls;
            inter_size = length (filter id inter);
            minus_size = length (filter id minus)
        in if inter_size \<noteq> 0 \<and> minus_size \<noteq> 0
           then (partition_temp @ [inter, minus],
                 case position (\<lambda>d. d = cls) distinguishers of
                   Some i \<Rightarrow> swap_remove i distinguishers @ [inter, minus]
                 | None \<Rightarrow> distinguishers @ [if inter_size \<le> minus_size then inter else minus])
           else (partition_temp @ [cls], distinguishers))"

definition refine_partition :: "bitset \<Rightarrow> bitset list \<times> bitset list \<Rightarrow> bitset list \<times> bitset list" where
  "refine_partition pred st =
     (case st of (classes, distinguishers) \<Rightarrow> fold (refine_class pred) (rev classes) ([], distinguishers))"

partial_function (option) hopcroft ::
    "transition_table \<Rightarrow> nat \<Rightarrow> nat list \<Rightarrow> bitset list \<Rightarrow> bitset list \<Rightarrow> bitset list option" where
  "hopcroft transitions alphabet_size markers classes distinguishers =
     (if distinguishers = [] then Some classes
      else Option.bind
             (fold_opt (mark_predecessor alphabet_size markers (last distinguishers)) (table_edges transitions)
                (replicate (encoding_bound alphabet_size markers) (replicate (length transitions) False)))
             (\<lambda>predecessors.
                case fold refine_partition (hash_collect predecessors) (classes, butlast distinguishers) of
                  (classes, distinguishers) \<Rightarrow> hopcroft transitions alphabet_size markers classes distinguishers))"

declare hopcroft.simps [code]

definition nerode_congruence :: "raw_automaton \<Rightarrow> nat \<Rightarrow> nat list \<Rightarrow> bitset list option" where
  "nerode_congruence a alphabet_size markers =
     do { final_states \<leftarrow> bits_of (length (ra_transitions a)) (ra_final_states a);
          let classes = filter (list_ex id) [final_states, map Not final_states];
          hopcroft (ra_transitions a) alphabet_size markers classes classes }"

text \<open>The index of the class of a state; all classes are bit sets of the same length.\<close>

definition class_of :: "bitset list \<Rightarrow> nat \<Rightarrow> nat option" where
  "class_of classes state =
     (if list_all (\<lambda>cls. state < length cls) classes then position (\<lambda>cls. cls ! state) classes else None)"

text \<open>The representative of a class is its first state.\<close>

definition class_transitions ::
    "raw_automaton \<Rightarrow> bitset list \<Rightarrow> bitset \<Rightarrow> (letter \<times> nat) list option" where
  "class_transitions a classes cls =
     do { source \<leftarrow> position id cls;
          succ \<leftarrow> index_opt (ra_transitions a) source;
          those (map (\<lambda>(letter, target).
            map_option (Pair letter) (class_of classes target)) succ) }"

definition minimise :: "nat \<Rightarrow> raw_automaton \<Rightarrow> raw_automaton option" where
  "minimise alphabet_size a =
     (if ra_deterministic a
      then do { classes \<leftarrow> nerode_congruence a alphabet_size (ra_markers a);
                initial_state \<leftarrow> class_of classes (ra_initial_state a);
                representatives \<leftarrow> those (map (position id) classes);
                transitions \<leftarrow> those (map (class_transitions a classes) classes);
                Some (a\<lparr>ra_deterministic := True, ra_initial_state := initial_state,
                        ra_final_states := filter (\<lambda>i. representatives ! i \<in> set (ra_final_states a)) [0..<length classes],
                        ra_transitions := transitions\<rparr>) }
      else None)"

section \<open>Normalised automata\<close>

record automaton =
  au_nb_states :: nat
  au_initial_state :: nat
  au_final_states :: "nat list"
  au_transitions :: "((nat \<times> 8 word) \<times> (nat \<times> nat)) list"

text \<open>
  The conversion panics when two transitions of a state carry the same byte: either the determinisation
  went wrong or the language is not output-deterministic.
\<close>

definition insert_transition ::
    "nat \<times> letter \<times> nat \<Rightarrow> ((nat \<times> 8 word) \<times> (nat \<times> nat)) list \<Rightarrow> ((nat \<times> 8 word) \<times> (nat \<times> nat)) list option" where
  "insert_transition tr m =
     (case tr of (source, letter, target) \<Rightarrow>
        if map_of m (source, l_char letter) = None
        then Some (m @ [((source, l_char letter), (target, l_marker letter))]) else None)"

definition table_alphabet_size :: "transition_table \<Rightarrow> nat" where
  "table_alphabet_size transitions =
     fold max (map (\<lambda>succ. fold max (map (\<lambda>(letter, _). unat (l_char letter) + 1) succ) 0) transitions) 0"

definition normalise :: "raw_automaton \<Rightarrow> automaton option" where
  "normalise a =
     (let alphabet_size = table_alphabet_size (ra_transitions a)
      in do { b \<leftarrow> determinise False alphabet_size a;
              base \<leftarrow> minimise alphabet_size b;
              transitions \<leftarrow> fold_opt insert_transition (table_edges (ra_transitions base)) [];
              Some \<lparr>au_nb_states = length (ra_transitions base), au_initial_state = ra_initial_state base,
                    au_final_states = ra_final_states base, au_transitions = transitions\<rparr> })"

definition offset_states :: "nat \<Rightarrow> automaton \<Rightarrow> automaton" where
  "offset_states offset a =
     \<lparr>au_nb_states = au_nb_states a + offset, au_initial_state = au_initial_state a + offset,
      au_final_states = map (\<lambda>s. s + offset) (au_final_states a),
      au_transitions = map (\<lambda>((source, letter), (target, marker)). ((source + offset, letter), (target + offset, marker)))
                      (au_transitions a)\<rparr>"

text \<open>A run: the states visited, the output markers, and whether the run got stuck.\<close>

fun run_from :: "automaton \<Rightarrow> nat \<Rightarrow> 8 word list \<Rightarrow> nat list \<times> nat list \<times> bool" where
  "run_from a current_state [] = ([current_state], [], False)"
| "run_from a current_state (byte # rest) =
     (case map_of (au_transitions a) (current_state, byte) of
        None \<Rightarrow> ([current_state], [], True)
      | Some (state, marker) \<Rightarrow>
          (case run_from a state rest of
             (states, outputs, stuck) \<Rightarrow> (current_state # states, if stuck then [] else marker # outputs, stuck)))"

definition run :: "automaton \<Rightarrow> 8 word list \<Rightarrow> nat list \<times> nat list \<times> bool" where
  "run a input = run_from a (au_initial_state a) input"

end
