(* ===== verification/Regex.thy ===== *)
theory Regex
  imports Automaton
begin

text \<open>
  The regular expressions of the scanner, \<open>circuits/src/parsing/scanner/regex.rs\<close>: the syntax, the
  instructions that build expressions, and the translation to automata with its flattening of unions
  and concatenations. The public type \<open>Regex\<close> only wraps \<open>RegexInternal\<close> and is identified with it.
\<close>

section \<open>Syntax\<close>

datatype regex =
    R_Single "letter list"
  | R_Concat "regex list"
  | R_Union "regex list"
  | R_Inter "regex list"
  | R_Star bool regex
  | R_Complement regex

fun contains_markers :: "regex \<Rightarrow> bool" where
  "contains_markers (R_Single bytes) = list_ex (\<lambda>b. l_marker b \<noteq> 0) bytes"
| "contains_markers (R_Concat v) = list_ex contains_markers v"
| "contains_markers (R_Union v) = list_ex contains_markers v"
| "contains_markers (R_Inter v) = list_ex contains_markers v"
| "contains_markers (R_Star _ r) = contains_markers r"
| "contains_markers (R_Complement r) = contains_markers r"

fun map_letters :: "(letter \<Rightarrow> letter) \<Rightarrow> regex \<Rightarrow> regex" where
  "map_letters f (R_Single bytes) = R_Single (hash_collect (map f bytes))"
| "map_letters f (R_Concat v) = R_Concat (map (map_letters f) v)"
| "map_letters f (R_Union v) = R_Union (map (map_letters f) v)"
| "map_letters f (R_Inter v) = R_Inter (map (map_letters f) v)"
| "map_letters f (R_Star strict r) = R_Star strict (map_letters f r)"
| "map_letters f (R_Complement r) = R_Complement (map_letters f r)"

section \<open>Building expressions\<close>

definition mark :: "(8 word \<Rightarrow> nat option) \<Rightarrow> regex \<Rightarrow> regex" where
  "mark f = map_letters (\<lambda>l. l\<lparr>l_marker := (case f (l_char l) of Some m \<Rightarrow> m | None \<Rightarrow> l_marker l)\<rparr>)"

definition mark_bytes :: "8 word list \<Rightarrow> nat \<Rightarrow> regex \<Rightarrow> regex" where
  "mark_bytes bytes m = mark (\<lambda>b. if b \<in> set bytes then Some m else None)"

definition replace_markers :: "(nat \<Rightarrow> nat option) \<Rightarrow> regex \<Rightarrow> regex" where
  "replace_markers upd = map_letters (\<lambda>l. l\<lparr>l_marker := (case upd (l_marker l) of Some m \<Rightarrow> m | None \<Rightarrow> l_marker l)\<rparr>)"

text \<open>The bytes from \<open>lo\<close> to \<open>hi\<close>, both included.\<close>

definition byte_range :: "nat \<Rightarrow> nat \<Rightarrow> 8 word list" where
  "byte_range lo hi = map word_of_nat [lo..<Suc hi]"

definition byte_from :: "8 word list \<Rightarrow> regex" where
  "byte_from l = R_Single (map letter_of_byte l)"

definition byte_not_from :: "8 word list \<Rightarrow> regex" where
  "byte_not_from l = byte_from (filter (\<lambda>b. b \<notin> set l) (byte_range 0 (ALPHABET_MAX_SIZE - 1)))"

definition any_byte :: regex where
  "any_byte = byte_from (byte_range 0 (ALPHABET_MAX_SIZE - 1))"

definition cat :: "regex list \<Rightarrow> regex" where
  "cat l = R_Concat l"

definition union :: "regex list \<Rightarrow> regex" where
  "union l = R_Union l"

definition inter_all :: "regex list \<Rightarrow> regex" where
  "inter_all l = R_Inter l"

text \<open>\<open>neg\<close> asserts that no marker occurs below it.\<close>

definition neg :: "regex \<Rightarrow> regex option" where
  "neg r = (if contains_markers r then None else Some (R_Complement r))"

definition non_empty_list :: "regex \<Rightarrow> regex" where
  "non_empty_list r = R_Star True r"

definition epsilon :: regex where
  "epsilon = cat []"

definition or_regex :: "regex \<Rightarrow> regex \<Rightarrow> regex" where
  "or_regex a b = union [a, b]"

definition and_regex :: "regex \<Rightarrow> regex \<Rightarrow> regex" where
  "and_regex a b = inter_all [a, b]"

definition any :: regex where
  "any = inter_all []"

definition minus_regex :: "regex \<Rightarrow> regex \<Rightarrow> regex option" where
  "minus_regex a b = map_option (and_regex a) (neg b)"

definition list_regex :: "regex \<Rightarrow> regex" where
  "list_regex r = or_regex (non_empty_list r) epsilon"

definition optional :: "regex \<Rightarrow> regex" where
  "optional r = or_regex r epsilon"

definition terminated :: "regex \<Rightarrow> regex \<Rightarrow> regex" where
  "terminated a b = cat [a, b]"

definition word_regex :: "8 word list \<Rightarrow> regex" where
  "word_regex w = cat (map (\<lambda>b. byte_from [b]) w)"

definition one_blank :: regex where
  "one_blank = byte_from [32, 9, 10]"

definition blanks_strict :: regex where
  "blanks_strict = non_empty_list one_blank"

definition blanks :: regex where
  "blanks = list_regex one_blank"

definition spaced_terminated :: "regex \<Rightarrow> regex \<Rightarrow> regex" where
  "spaced_terminated a b = cat [a, blanks, b]"

definition spaced_non_empty_list :: "regex \<Rightarrow> regex" where
  "spaced_non_empty_list r = terminated r (list_regex (terminated blanks r))"

definition spaced_list :: "regex \<Rightarrow> regex" where
  "spaced_list r = or_regex epsilon (spaced_non_empty_list r)"

definition delimited :: "regex \<Rightarrow> regex \<Rightarrow> regex \<Rightarrow> regex" where
  "delimited r opening closing = cat [opening, r, closing]"

definition spaced_delimited :: "regex \<Rightarrow> regex \<Rightarrow> regex \<Rightarrow> regex" where
  "spaced_delimited r opening closing = cat [opening, blanks, r, blanks, closing]"

definition separated_non_empty_list :: "regex \<Rightarrow> regex \<Rightarrow> regex" where
  "separated_non_empty_list r sep = terminated r (list_regex (terminated sep r))"

definition spaced_separated_non_empty_list :: "regex \<Rightarrow> regex \<Rightarrow> regex" where
  "spaced_separated_non_empty_list r sep = terminated r (list_regex (cat [blanks, sep, blanks, r]))"

definition separated_list :: "regex \<Rightarrow> regex \<Rightarrow> regex" where
  "separated_list r sep = or_regex epsilon (separated_non_empty_list r sep)"

definition spaced_separated_list :: "regex \<Rightarrow> regex \<Rightarrow> regex" where
  "spaced_separated_list r sep = or_regex epsilon (spaced_separated_non_empty_list r sep)"

text \<open>\<open>Iterator::reduce\<close> with a default for the empty sequence.\<close>

definition reduce_or_epsilon :: "(regex \<Rightarrow> regex \<Rightarrow> regex) \<Rightarrow> regex list \<Rightarrow> regex" where
  "reduce_or_epsilon f l = (case l of [] \<Rightarrow> epsilon | r # rs \<Rightarrow> fold (\<lambda>r acc. f acc r) rs r)"

definition separated_cat :: "regex list \<Rightarrow> regex \<Rightarrow> regex" where
  "separated_cat l sep = reduce_or_epsilon (\<lambda>acc r. cat [acc, sep, r]) l"

definition spaced_separated_cat :: "regex list \<Rightarrow> regex \<Rightarrow> regex" where
  "spaced_separated_cat l sep = reduce_or_epsilon (\<lambda>acc r. cat [acc, blanks, sep, blanks, r]) l"

definition spaced_cat :: "regex list \<Rightarrow> regex" where
  "spaced_cat l = separated_cat l blanks"

definition repeat :: "regex \<Rightarrow> nat \<Rightarrow> regex" where
  "repeat r n = cat (replicate n r)"

definition spaced_repeat :: "regex \<Rightarrow> nat \<Rightarrow> regex" where
  "spaced_repeat r n = spaced_cat (replicate n r)"

definition repeat_at_most :: "regex \<Rightarrow> nat \<Rightarrow> regex" where
  "repeat_at_most r n = union (map (repeat r) [0..<Suc n])"

definition spaced_repeat_at_most :: "regex \<Rightarrow> nat \<Rightarrow> regex" where
  "spaced_repeat_at_most r n = union (map (spaced_repeat r) [0..<Suc n])"

definition separated_repeat :: "regex \<Rightarrow> nat \<Rightarrow> regex \<Rightarrow> regex" where
  "separated_repeat r n sep = separated_cat (replicate n r) sep"

definition spaced_separated_repeat :: "regex \<Rightarrow> nat \<Rightarrow> regex \<Rightarrow> regex" where
  "spaced_separated_repeat r n sep = spaced_separated_cat (replicate n r) sep"

definition separated_repeat_at_most :: "regex \<Rightarrow> nat \<Rightarrow> regex \<Rightarrow> regex" where
  "separated_repeat_at_most r n sep = union (map (\<lambda>i. separated_repeat r i sep) [0..<Suc n])"

definition spaced_separated_repeat_at_most :: "regex \<Rightarrow> nat \<Rightarrow> regex \<Rightarrow> regex" where
  "spaced_separated_repeat_at_most r n sep = union (map (\<lambda>i. spaced_separated_repeat r i sep) [0..<Suc n])"

definition digit :: regex where
  "digit = byte_from (byte_range 48 57)"

definition lowercase_letter :: regex where
  "lowercase_letter = byte_from (byte_range 97 122)"

definition uppercase_letter :: regex where
  "uppercase_letter = byte_from (byte_range 65 90)"

definition letter_regex :: regex where
  "letter_regex = byte_from (byte_range 97 122 @ byte_range 65 90)"

definition alphanumeric :: regex where
  "alphanumeric = byte_from (byte_range 97 122 @ byte_range 65 90 @ byte_range 48 57)"

definition utf8_cps :: regex where
  "utf8_cps = union
     [byte_from (byte_range 0x00 0x7F),
      cat [byte_from (byte_range 0xC2 0xDF), byte_from (byte_range 0x80 0xBF)],
      cat [byte_from [0xE0], byte_from (byte_range 0xA0 0xBF), byte_from (byte_range 0x80 0xBF)],
      terminated (byte_from (byte_range 0xE1 0xEC @ byte_range 0xEE 0xEF)) (repeat (byte_from (byte_range 0x80 0xBF)) 2),
      cat [byte_from [0xED], byte_from (byte_range 0x80 0x9F), byte_from (byte_range 0x80 0xBF)],
      cat [byte_from [0xF0], byte_from (byte_range 0x90 0xBF), repeat (byte_from (byte_range 0x80 0xBF)) 2],
      terminated (byte_from (byte_range 0xF1 0xF3)) (repeat (byte_from (byte_range 0x80 0xBF)) 3),
      cat [byte_from [0xF4], byte_from (byte_range 0x80 0x8F), repeat (byte_from (byte_range 0x80 0xBF)) 2]]"

definition utf8 :: regex where
  "utf8 = list_regex utf8_cps"

definition json_string :: regex where
  "json_string =
     (let unescaped_utf8_cps = and_regex utf8_cps (byte_not_from (byte_range 0x00 0x1F @ [0x22, 0x5C]));
          simple_escape = terminated (word_regex [0x5C])
            (byte_from [0x22, 0x5C, 0x2F, 0x62, 0x66, 0x6E, 0x72, 0x74]);
          hex = byte_from (byte_range 48 57 @ byte_range 97 102 @ byte_range 65 70);
          unicode_escape = terminated (word_regex [0x5C, 0x75]) (repeat hex 4);
          content = list_regex (union [unescaped_utf8_cps, simple_escape, unicode_escape])
      in delimited (mark (\<lambda>_. Some 1) content) (word_regex [0x22]) (word_regex [0x22]))"

section \<open>Flattening\<close>

text \<open>The size that the translation decreases; single bytes count as nothing.\<close>

fun regex_size :: "regex \<Rightarrow> nat" where
  "regex_size (R_Single _) = 0"
| "regex_size (R_Concat v) = Suc (sum_list (map (\<lambda>r. Suc (regex_size r)) v))"
| "regex_size (R_Union v) = Suc (sum_list (map (\<lambda>r. Suc (regex_size r)) v))"
| "regex_size (R_Inter v) = Suc (sum_list (map (\<lambda>r. Suc (regex_size r)) v))"
| "regex_size (R_Star _ r) = Suc (regex_size r)"
| "regex_size (R_Complement r) = Suc (regex_size r)"

abbreviation regexes_size :: "regex list \<Rightarrow> nat" where
  "regexes_size rs \<equiv> sum_list (map (\<lambda>r. Suc (regex_size r)) rs)"

text \<open>The first loop of \<open>flatten_concat\<close>; the stack is kept with its top first.\<close>

function (sequential) flatten_concat_loop :: "regex list \<Rightarrow> regex list \<Rightarrow> regex list" where
  "flatten_concat_loop [] rev_flattened = rev_flattened"
| "flatten_concat_loop (R_Concat v # pending) rev_flattened = flatten_concat_loop (rev v @ pending) rev_flattened"
| "flatten_concat_loop (r # pending) rev_flattened = flatten_concat_loop pending (rev_flattened @ [r])"
  by pat_completeness auto

termination by (relation "measure (\<lambda>(pending, _). regexes_size pending)") (auto simp: rev_map [symmetric])

text \<open>The second loop: adjacent single bytes are translated together.\<close>

definition flush_singles :: "nat \<Rightarrow> letter list list \<Rightarrow> raw_automaton list" where
  "flush_singles alphabet_size singles = (if singles = [] then [] else [byte_concat singles alphabet_size])"

fun convert_concat ::
    "(regex \<Rightarrow> raw_automaton option) \<Rightarrow> nat \<Rightarrow> regex list \<Rightarrow> letter list list \<Rightarrow> raw_automaton list option" where
  "convert_concat conv alphabet_size [] singles = Some (flush_singles alphabet_size singles)"
| "convert_concat conv alphabet_size (r # rs) singles =
     (case r of
        R_Single bytes \<Rightarrow> convert_concat conv alphabet_size rs (singles @ [bytes])
      | _ \<Rightarrow> do { a \<leftarrow> conv r;
                  automata \<leftarrow> convert_concat conv alphabet_size rs [];
                  Some (flush_singles alphabet_size singles @ a # automata) })"

definition flatten_concat ::
    "(regex \<Rightarrow> raw_automaton option) \<Rightarrow> nat \<Rightarrow> regex list \<Rightarrow> raw_automaton list option" where
  "flatten_concat conv alphabet_size l =
     convert_concat conv alphabet_size (rev (flatten_concat_loop (rev l) [])) []"

text \<open>The loop of \<open>flatten_union\<close>: the remaining expressions, the single bytes, and whether \<open>\<epsilon>\<close> occurs.\<close>

function (sequential) flatten_union_loop ::
    "regex list \<Rightarrow> regex list \<times> letter list \<times> bool \<Rightarrow> regex list \<times> letter list \<times> bool" where
  "flatten_union_loop [] st = st"
| "flatten_union_loop (R_Union v # pending) st = flatten_union_loop (rev v @ pending) st"
| "flatten_union_loop (R_Concat [] # pending) (res, singles, contains_epsilon) =
     flatten_union_loop pending (res, singles, True)"
| "flatten_union_loop (R_Single bytes # pending) (res, singles, contains_epsilon) =
     flatten_union_loop pending (res, fold hash_insert bytes singles, contains_epsilon)"
| "flatten_union_loop (r # pending) (res, singles, contains_epsilon) =
     flatten_union_loop pending (res @ [r], singles, contains_epsilon)"
  by pat_completeness auto

termination by (relation "measure (\<lambda>(pending, _). regexes_size pending)") (auto simp: rev_map [symmetric])

definition is_star :: "regex \<Rightarrow> bool" where
  "is_star r = (case r of R_Star _ _ \<Rightarrow> True | _ \<Rightarrow> False)"

definition weaken_star :: "regex \<Rightarrow> regex" where
  "weaken_star r = (case r of R_Star _ rr \<Rightarrow> R_Star False rr | _ \<Rightarrow> r)"

text \<open>The alternatives after flattening, with the flag that says whether \<open>\<epsilon>\<close> is still to be added.\<close>

definition union_alternatives :: "regex list \<Rightarrow> regex list \<times> bool" where
  "union_alternatives l =
     (case flatten_union_loop (rev l) ([], [], False) of
        (res, singles, contains_epsilon) \<Rightarrow>
          let res = (if singles = [] then res else res @ [R_Single singles])
          in if contains_epsilon then (map weaken_star res, \<not> list_ex is_star res) else (res, False))"

definition flatten_union ::
    "(regex \<Rightarrow> raw_automaton option) \<Rightarrow> nat \<Rightarrow> regex list \<Rightarrow> raw_automaton list option" where
  "flatten_union conv alphabet_size l =
     (case union_alternatives l of
        (res, contains_epsilon) \<Rightarrow>
          if contains_epsilon
          then do { final \<leftarrow> (if res = [] then Some epsilon_automaton
                              else Option.bind (conv (last res)) make_optional);
                    automata \<leftarrow> those (map conv (butlast res));
                    Some (automata @ [final]) }
          else those (map conv res))"

lemma flatten_concat_loop_size:
  "r \<in> set (flatten_concat_loop pending out) \<Longrightarrow> r \<in> set out \<or> Suc (regex_size r) \<le> regexes_size pending"
  by (induction pending out rule: flatten_concat_loop.induct) (force simp: rev_map [symmetric])+

lemma flatten_union_loop_size:
  "r \<in> set (fst (flatten_union_loop pending st)) \<Longrightarrow> r \<in> set (fst st) \<or> Suc (regex_size r) \<le> regexes_size pending"
  by (induction pending st rule: flatten_union_loop.induct) (force simp: rev_map [symmetric])+

lemma regex_size_weaken_star [simp]: "regex_size (weaken_star r) = regex_size r"
  by (cases r) (simp_all add: weaken_star_def)

lemma union_alternatives_size:
  assumes "r \<in> set (fst (union_alternatives l))"
  shows "regex_size r < regex_size (R_Union l)"
proof -
  obtain res singles e where u: "flatten_union_loop (rev l) ([], [], False) = (res, singles, e)" by (metis prod.exhaust)
  have "regex_size r < regex_size (R_Union l)" if "r \<in> set res" for r
    using flatten_union_loop_size [of r "rev l" "([], [], False)"] that by (simp add: u rev_map [symmetric])
  moreover have "regex_size (R_Single singles) < regex_size (R_Union l)" by simp
  ultimately show ?thesis
    using assms by (auto simp: union_alternatives_def u Let_def split: if_splits)
qed

lemma convert_concat_cong:
  "(\<And>r. r \<in> set rs \<Longrightarrow> f r = g r) \<Longrightarrow> convert_concat f n rs singles = convert_concat g n rs singles"
  by (induction rs arbitrary: singles) (auto split: regex.splits)

lemma flatten_concat_cong [fundef_cong]:
  assumes "l = l'" and "n = n'" and "\<And>r. regex_size r < regex_size (R_Concat l) \<Longrightarrow> f r = g r"
  shows "flatten_concat f n l = flatten_concat g n' l'"
  unfolding flatten_concat_def assms(1,2)
proof (rule convert_concat_cong)
  fix r assume "r \<in> set (rev (flatten_concat_loop (rev l') []))"
  with flatten_concat_loop_size [of r "rev l'" "[]"] assms show "f r = g r" by (simp add: rev_map [symmetric])
qed

lemma flatten_union_cong [fundef_cong]:
  assumes "l = l'" and "n = n'" and "\<And>r. regex_size r < regex_size (R_Union l) \<Longrightarrow> f r = g r"
  shows "flatten_union f n l = flatten_union g n' l'"
proof -
  obtain res e where u: "union_alternatives l' = (res, e)" by fastforce
  have "f r = g r" if "r \<in> set res" for r
    using union_alternatives_size [of r l'] that assms(1,3) by (simp add: u)
  then have "map f res = map g res" "map f (butlast res) = map g (butlast res)" "res \<noteq> [] \<Longrightarrow> f (last res) = g (last res)"
    by (auto dest: in_set_butlastD)
  then show ?thesis by (simp add: flatten_union_def assms(1) u cong: if_cong del: map_eq_conv)
qed

lemma fold_opt_cong [fundef_cong]:
  "\<lbrakk>xs = ys; s = t; \<And>x s. x \<in> set ys \<Longrightarrow> f x s = g x s\<rbrakk> \<Longrightarrow> fold_opt f xs s = fold_opt g ys t"
proof (induction ys arbitrary: xs s t)
  case (Cons y ys)
  have "fold_opt f ys = fold_opt g ys" using Cons.IH [OF refl refl] Cons.prems(3) by (intro ext) simp
  then show ?case using Cons.prems by simp
qed simp

section \<open>Translation to automata\<close>

lemma regex_size_member: "r \<in> set l \<Longrightarrow> regex_size r < Suc (regexes_size l)"
  using member_le_sum_list [of "Suc (regex_size r)" "map (\<lambda>r. Suc (regex_size r)) l"] by simp

function to_raw_automaton :: "nat \<Rightarrow> regex \<Rightarrow> raw_automaton option" where
  "to_raw_automaton n (R_Single bytes) = Some (byte_concat [bytes] n)"
| "to_raw_automaton n (R_Concat l) = Option.bind (flatten_concat (to_raw_automaton n) n l) concat_automata"
| "to_raw_automaton n (R_Union l) =
     Option.bind (flatten_union (to_raw_automaton n) n l) (\<lambda>automata. union_automata automata n)"
| "to_raw_automaton n (R_Inter l) =
     Option.bind (universal n) (fold_opt (\<lambda>r accu. Option.bind (to_raw_automaton n r) (inter accu)) l)"
| "to_raw_automaton n (R_Star strict e) =
     Option.bind (to_raw_automaton n e) (\<lambda>a. if strict then strict_repeat a else weak_repeat a)"
| "to_raw_automaton n (R_Complement e) =
     (case e of
        R_Complement ee \<Rightarrow> to_raw_automaton n ee
      | _ \<Rightarrow> Option.bind (Option.bind (to_raw_automaton n e) (determinise True n)) complement)"
  by pat_completeness auto

termination
  by (relation "measure (\<lambda>(_, r). regex_size r)") (auto simp: regex_size_member)

definition to_automaton_param :: "nat \<Rightarrow> regex \<Rightarrow> automaton option" where
  "to_automaton_param alphabet_size r =
     (if alphabet_size \<le> ALPHABET_MAX_SIZE
      then Option.bind (to_raw_automaton alphabet_size r) normalise else None)"

definition to_automaton :: "regex \<Rightarrow> automaton option" where
  "to_automaton r = to_automaton_param ALPHABET_MAX_SIZE r"

end
