(* ===== verification/Automaton_Correct.thy ===== *)
theory Automaton_Correct
  imports Automaton
begin

text \<open>
  The languages of the scanner's automata: every construction of \<open>automaton.rs\<close> on a well-formed
  automaton returns without a panic, keeps well-formedness, and recognises the language it is named
  after.
\<close>

section \<open>Edges, languages, well-formedness\<close>

definition edges :: "transition_table \<Rightarrow> (nat \<times> letter \<times> nat) set" where
  "edges ts = {(p, l, q). p < length ts \<and> (l, q) \<in> set (ts ! p)}"

definition language :: "raw_automaton \<Rightarrow> letter list set" where
  "language a = lang (edges (ra_transitions a)) {ra_initial_state a} (set (ra_final_states a))"

text \<open>
  Well-formed for an alphabet of \<open>n\<close> bytes: states in range, letters in the alphabet, and the flag
  \<open>deterministic\<close> only set when no state has two transitions with the same letter.
\<close>

definition row_deterministic :: "transition_table \<Rightarrow> bool" where
  "row_deterministic ts \<longleftrightarrow> (\<forall>succ\<in>set ts. distinct (map fst succ))"

definition wf_table :: "nat \<Rightarrow> transition_table \<Rightarrow> bool" where
  "wf_table n ts \<longleftrightarrow> (\<forall>(p, l, q)\<in>edges ts. q < length ts \<and> unat (l_char l) < n)"

definition wf_raw :: "nat \<Rightarrow> raw_automaton \<Rightarrow> bool" where
  "wf_raw n a \<longleftrightarrow>
     ra_initial_state a < length (ra_transitions a) \<and>
     set (ra_final_states a) \<subseteq> {..<length (ra_transitions a)} \<and> distinct (ra_final_states a) \<and>
     wf_table n (ra_transitions a) \<and> distinct (ra_markers a) \<and>
     (ra_deterministic a \<longrightarrow> row_deterministic (ra_transitions a))"

text \<open>The markers of an automaton cover those of its transitions.\<close>

definition markers_cover :: "raw_automaton \<Rightarrow> bool" where
  "markers_cover a \<longleftrightarrow> (\<forall>(p, l, q)\<in>edges (ra_transitions a). l_marker l \<in> set (ra_markers a))"

lemma wf_rawD:
  assumes "wf_raw n a"
  shows "ra_initial_state a < length (ra_transitions a)" "set (ra_final_states a) \<subseteq> {..<length (ra_transitions a)}"
    "distinct (ra_final_states a)" "wf_table n (ra_transitions a)" "distinct (ra_markers a)"
    "ra_deterministic a \<Longrightarrow> row_deterministic (ra_transitions a)"
  using assms by (auto simp: wf_raw_def)

lemma wf_tableD: "wf_table n ts \<Longrightarrow> (p, l, q) \<in> edges ts \<Longrightarrow> p < length ts \<and> q < length ts \<and> unat (l_char l) < n"
  by (auto simp: wf_table_def edges_def)

lemma set_table_edges: "set (table_edges ts) = edges ts"
proof -
  have "set (concat (imap off (\<lambda>source succ. map (\<lambda>(letter, target). (source, letter, target)) succ) ts)) =
      {(p, l, q). \<exists>i<length ts. p = off + i \<and> (l, q) \<in> set (ts ! i)}" for off
  proof (induction ts arbitrary: off)
    case (Cons succ ts)
    have "(\<exists>i<Suc (length ts). p = off + i \<and> (l, q) \<in> set ((succ # ts) ! i)) \<longleftrightarrow>
        (p = off \<and> (l, q) \<in> set succ) \<or> (\<exists>i<length ts. p = Suc off + i \<and> (l, q) \<in> set (ts ! i))" for p l q
      by (subst Ex_less_Suc2) auto
    with Cons.IH [of "Suc off"] show ?case by force
  qed simp
  from this [of 0] show ?thesis by (auto simp: table_edges_def edges_def)
qed

lemma table_edges_snoc:
  "table_edges (ts @ [succ]) = table_edges ts @ map (\<lambda>(l, q). (length ts, l, q)) succ"
  by (simp add: table_edges_def imap_append)

lemma distinct_table_edges:
  "row_deterministic ts \<Longrightarrow> distinct (map (\<lambda>(p, l, q). (p, l)) (table_edges ts))"
proof (induction ts rule: rev_induct)
  case (snoc succ ts)
  have "distinct (map (\<lambda>(l, q). (length ts, l)) succ)"
    using snoc.prems by (auto simp: row_deterministic_def distinct_map inj_on_def case_prod_unfold)
  moreover have "(length ts, l, q) \<notin> set (table_edges ts)" for l q
    by (auto simp: set_table_edges edges_def)
  ultimately show ?case
    using snoc by (auto simp: table_edges_snoc row_deterministic_def comp_def case_prod_unfold)
qed (simp add: table_edges_def)

section \<open>Filling transition tables\<close>

text \<open>
  The loops that fill a transition table push, for each item, at most one entry to one row. The row
  then holds what its items pushed, in order.
\<close>

definition row_of :: "('e \<Rightarrow> (nat \<times> 'x) option) \<Rightarrow> nat \<Rightarrow> 'e list \<Rightarrow> 'x list" where
  "row_of g i es = List.map_filter (\<lambda>e. case g e of Some (j, x) \<Rightarrow> if j = i then Some x else None | None \<Rightarrow> None) es"

lemma row_of_simps [simp]:
  "row_of g i [] = []"
  "row_of g i (e # es) = (case g e of Some (j, x) \<Rightarrow> if j = i then [x] else [] | None \<Rightarrow> []) @ row_of g i es"
  by (auto simp: row_of_def List.map_filter_def split: option.splits)

lemma set_row_of: "set (row_of g i es) = {x. \<exists>e\<in>set es. g e = Some (i, x)}"
  by (induction es) (auto split: option.splits if_splits)

definition push_row :: "('e \<Rightarrow> (nat \<times> 'x) option) \<Rightarrow> 'e \<Rightarrow> 'x list list \<Rightarrow> 'x list list option" where
  "push_row g e ts =
     (case g e of None \<Rightarrow> Some ts
      | Some (i, x) \<Rightarrow> map_option (\<lambda>succ. ts[i := succ @ [x]]) (index_opt ts i))"

lemma push_row_simps:
  "g e = None \<Longrightarrow> push_row g e ts = Some ts"
  "g e = Some (i, x) \<Longrightarrow> i < length ts \<Longrightarrow> push_row g e ts = Some (ts[i := ts ! i @ [x]])"
  by (simp_all add: push_row_def index_opt_def)

lemma fold_push_row:
  assumes "\<And>e i x. e \<in> set es \<Longrightarrow> g e = Some (i, x) \<Longrightarrow> i < length ts"
  shows "\<exists>ts'. fold_opt (push_row g) es ts = Some ts' \<and> length ts' = length ts \<and>
     (\<forall>i<length ts. ts' ! i = ts ! i @ row_of g i es)"
  using assms
proof (induction es arbitrary: ts)
  case (Cons e es)
  show ?case
  proof (cases "g e")
    case None
    moreover have "\<exists>ts'. fold_opt (push_row g) es ts = Some ts' \<and> length ts' = length ts \<and>
        (\<forall>i<length ts. ts' ! i = ts ! i @ row_of g i es)"
      using Cons.prems by (intro Cons.IH) auto
    ultimately show ?thesis by (simp add: push_row_simps)
  next
    case (Some p)
    obtain i x where p: "p = (i, x)" by fastforce
    have i: "i < length ts" using Cons.prems Some p by auto
    obtain ts' where ts': "fold_opt (push_row g) es (ts[i := ts ! i @ [x]]) = Some ts'" "length ts' = length ts"
      "\<forall>j<length ts. ts' ! j = ts[i := ts ! i @ [x]] ! j @ row_of g j es"
      using Cons.IH [of "ts[i := ts ! i @ [x]]"] Cons.prems by (metis length_list_update list.set_intros(2))
    have "\<forall>j<length ts. ts' ! j = ts ! j @ row_of g j (e # es)"
      using ts'(3) i by (auto simp: Some p nth_list_update)
    with ts' i show ?thesis by (intro exI [of _ ts']) (simp add: push_row_simps(2) [of g e i x] Some p)
  qed
qed simp

lemma fold_push_row_Nil:
  assumes "\<And>e i x. e \<in> set es \<Longrightarrow> g e = Some (i, x) \<Longrightarrow> i < k"
  shows "fold_opt (push_row g) es (replicate k []) = Some (map (\<lambda>i. row_of g i es) [0..<k])"
proof -
  obtain ts where "fold_opt (push_row g) es (replicate k []) = Some ts" "length ts = k" "\<forall>i<k. ts ! i = row_of g i es"
    using fold_push_row [of es g "replicate k []"] assms by auto
  moreover from this have "ts = map (\<lambda>i. row_of g i es) [0..<k]" by (intro nth_equalityI) auto
  ultimately show ?thesis by simp
qed

lemma edges_rows:
  "edges (map (\<lambda>i. row_of g i es) [0..<k]) = {(i, l, q). i < k \<and> (\<exists>e\<in>set es. g e = Some (i, (l, q)))}"
  by (auto simp: edges_def set_row_of)

lemma row_deterministic_rows:
  assumes d: "distinct (map key es)" and "\<And>e e' i x x'. \<lbrakk>e \<in> set es; e' \<in> set es; g e = Some (i, x); g e' = Some (i, x'); fst x = fst x'\<rbrakk> \<Longrightarrow> key e = key e'"
  shows "row_deterministic (map (\<lambda>i. row_of g i es) [0..<k])"
proof -
  have "distinct (map fst (row_of g i es))" for i
    using assms
  proof (induction es)
    case (Cons e es)
    have IH: "distinct (map fst (row_of g i es))"
    proof (rule Cons.IH)
      show "distinct (map key es)" using Cons.prems(1) by simp
      show "key a = key b" if "a \<in> set es" "b \<in> set es" "g a = Some (j, x)" "g b = Some (j, x')" "fst x = fst x'" for a b j x x'
        using Cons.prems(2) [of a b j x x'] that by simp
    qed
    have "fst x \<notin> fst ` set (row_of g i es)" if "g e = Some (i, x)" for x
    proof
      assume "fst x \<in> fst ` set (row_of g i es)"
      then obtain e' x' where "e' \<in> set es" "g e' = Some (i, x')" "fst x' = fst x" by (auto simp: set_row_of)
      with Cons.prems(2) [of e e' i x x'] that have "key e = key e'" by simp
      with Cons.prems(1) \<open>e' \<in> set es\<close> show False by auto
    qed
    with IH show ?case by (force split: option.splits)
  qed simp
  then show ?thesis by (auto simp: row_deterministic_def)
qed

text \<open>The loop of \<open>filter_map_transitions\<close>.\<close>

definition renamed_entry :: "(nat \<Rightarrow> nat option) \<Rightarrow> nat \<Rightarrow> nat \<times> letter \<times> nat \<Rightarrow> (nat \<times> letter \<times> nat) option" where
  "renamed_entry f offset e =
     (case e of (p, l, q) \<Rightarrow>
        (case (f p, f q) of (Some p', Some q') \<Rightarrow> Some (p' - offset, (l, q')) | _ \<Rightarrow> None))"

lemma renamed_entry_Some:
  "renamed_entry f offset (p, l, q) = Some (i, x) \<longleftrightarrow>
     (\<exists>p' q'. f p = Some p' \<and> f q = Some q' \<and> i = p' - offset \<and> x = (l, q'))"
  by (auto simp: renamed_entry_def split: option.splits)

lemma fold_add_transition:
  assumes "\<And>p l q p' q'. \<lbrakk>(p, l, q) \<in> set es; f p = Some p'; f q = Some q'\<rbrakk> \<Longrightarrow> offset \<le> p' \<and> p' - offset < length ts"
    and "fold_opt (push_row (renamed_entry f offset)) es ts = Some ts'"
  shows "fold_opt (add_transition f offset) es (ts, ms) =
     Some (ts', fold hash_insert (map (\<lambda>(p, l, q). l_marker l) (filter (\<lambda>e. renamed_entry f offset e \<noteq> None) es)) ms)"
  using assms
proof (induction es arbitrary: ts ms)
  case (Cons e es)
  obtain p l q where e: "e = (p, l, q)" using prod_cases3 by blast
  show ?case
  proof (cases "renamed_entry f offset e")
    case None
    then have add: "add_transition f offset e (ts, ms) = Some (ts, ms)"
      by (auto simp: e add_transition_def renamed_entry_def split: option.splits)
    have "fold_opt (push_row (renamed_entry f offset)) es ts = Some ts'"
      using Cons.prems(2) by (simp add: push_row_simps(1) [of "renamed_entry f offset", OF None])
    moreover have "(p, l, q) \<in> set es \<Longrightarrow> f p = Some p' \<Longrightarrow> f q = Some q' \<Longrightarrow> offset \<le> p' \<and> p' - offset < length ts"
      for p l q p' q' using Cons.prems(1) [of p l q p' q'] by simp
    ultimately have "fold_opt (add_transition f offset) es (ts, ms) = Some (ts', fold hash_insert
        (map (\<lambda>(p, l, q). l_marker l) (filter (\<lambda>e. renamed_entry f offset e \<noteq> None) es)) ms)"
      by (intro Cons.IH) auto
    with add None show ?thesis by simp
  next
    case (Some a)
    then obtain p' q' where f: "f p = Some p'" "f q = Some q'" and a: "a = (p' - offset, (l, q'))"
      by (auto simp: e renamed_entry_def split: option.splits)
    have i: "offset \<le> p'" "p' - offset < length ts" using Cons.prems(1) [of p l q p' q'] f by (auto simp: e)
    let ?ts = "ts[p' - offset := ts ! (p' - offset) @ [(l, q')]]"
    have add: "add_transition f offset e (ts, ms) = Some (?ts, hash_insert (l_marker l) ms)"
      using i by (simp add: e add_transition_def f index_opt_def)
    have "fold_opt (push_row (renamed_entry f offset)) es ?ts = Some ts'"
      using Cons.prems(2) push_row_simps(2) [of "renamed_entry f offset" e "p' - offset" "(l, q')" ts] Some a i by simp
    moreover have "(p, l, q) \<in> set es \<Longrightarrow> f p = Some p' \<Longrightarrow> f q = Some q' \<Longrightarrow> offset \<le> p' \<and> p' - offset < length ?ts"
      for p l q p' q' using Cons.prems(1) [of p l q p' q'] by simp
    ultimately have "fold_opt (add_transition f offset) es (?ts, hash_insert (l_marker l) ms) = Some (ts', fold hash_insert
        (map (\<lambda>(p, l, q). l_marker l) (filter (\<lambda>e. renamed_entry f offset e \<noteq> None) es)) (hash_insert (l_marker l) ms))"
      by (intro Cons.IH) auto
    with add Some a show ?thesis by (simp add: e)
  qed
qed simp

lemma filter_map_transitions_spec:
  assumes ran: "\<And>p l q p' q'. \<lbrakk>(p, l, q) \<in> edges ts; f p = Some p'; f q = Some q'\<rbrakk> \<Longrightarrow> offset \<le> p' \<and> p' - offset < k"
    and inj: "\<And>p q r. f p = Some r \<Longrightarrow> f q = Some r \<Longrightarrow> p = q"
  obtains ts' ms where "filter_map_transitions ts f k offset = Some (ts', ms)" and "length ts' = k"
    and "edges ts' = {(p' - offset, l, q') |p l q p' q'. (p, l, q) \<in> edges ts \<and> f p = Some p' \<and> f q = Some q'}"
    and "distinct ms" and "set ms = {l_marker l |p l q. (p, l, q) \<in> edges ts \<and> f p \<noteq> None \<and> f q \<noteq> None}"
    and "row_deterministic ts \<Longrightarrow> row_deterministic ts'"
proof -
  let ?g = "renamed_entry f offset"
  let ?ts = "map (\<lambda>i. row_of ?g i (table_edges ts)) [0..<k]"
  have r: "i < k" if "e \<in> set (table_edges ts)" "?g e = Some (i, x)" for e i x
    using that ran by (cases e rule: prod_cases3) (auto simp: renamed_entry_Some set_table_edges)
  have 1: "filter_map_transitions ts f k offset = Some (?ts, hash_collect
      (map (\<lambda>(p, l, q). l_marker l) (filter (\<lambda>e. ?g e \<noteq> None) (table_edges ts))))"
    unfolding filter_map_transitions_def
    by (rule fold_add_transition [OF _ fold_push_row_Nil [OF r]]) (use ran in \<open>auto simp: set_table_edges\<close>)
  have 2: "edges ?ts = {(p' - offset, l, q') |p l q p' q'. (p, l, q) \<in> edges ts \<and> f p = Some p' \<and> f q = Some q'}"
    unfolding edges_rows set_table_edges using ran by (force simp: renamed_entry_Some)
  have 3: "set (hash_collect (map (\<lambda>(p, l, q). l_marker l) (filter (\<lambda>e. ?g e \<noteq> None) (table_edges ts)))) =
      {l_marker l |p l q. (p, l, q) \<in> edges ts \<and> f p \<noteq> None \<and> f q \<noteq> None}"
    by (force simp: set_table_edges renamed_entry_def split: option.splits)
  have 4: "row_deterministic ?ts" if "row_deterministic ts"
  proof (rule row_deterministic_rows [OF distinct_table_edges [OF that]])
    fix e e' i x x'
    assume a: "e \<in> set (table_edges ts)" "e' \<in> set (table_edges ts)" "?g e = Some (i, x)" "?g e' = Some (i, x')" "fst x = fst x'"
    obtain p l q p2 l2 q2 where e: "e = (p, l, q)" "e' = (p2, l2, q2)" by (metis prod_cases3)
    from a(3,4) obtain p' q' p2' q2' where f: "f p = Some p'" "f q = Some q'" "i = p' - offset" "x = (l, q')"
      "f p2 = Some p2'" "f q2 = Some q2'" "i = p2' - offset" "x' = (l2, q2')"
      unfolding e renamed_entry_Some by blast
    have "offset \<le> p'" "offset \<le> p2'"
      using a(1,2) ran [OF _ f(1,2)] ran [OF _ f(5,6)] by (auto simp: e set_table_edges)
    then have "p2' = p'" using f(3,7) by simp
    with f have "p = p2" by (intro inj) auto
    with a(5) f show "(case e of (p, l, q) \<Rightarrow> (p, l)) = (case e' of (p, l, q) \<Rightarrow> (p, l))" by (simp add: e)
  qed
  show thesis by (rule that [OF 1 _ 2 _ 3 4]) simp_all
qed

text \<open>The loop that numbers the transitions of the powerset and product automata.\<close>

lemma fold_number_transition:
  assumes ran: "\<And>s l t. (s, l, t) \<in> set trs \<Longrightarrow> num s \<noteq> None \<and> num t \<noteq> None \<and> the (num s) < k"
    and inj: "\<And>s t r. num s = Some r \<Longrightarrow> num t = Some r \<Longrightarrow> s = t"
  obtains ts where "fold_opt (number_transition num) trs (replicate k []) = Some ts" and "length ts = k"
    and "edges ts = {(the (num s), l, the (num t)) |s l t. (s, l, t) \<in> set trs}"
    and "distinct (map (\<lambda>(s, l, t). (s, l)) trs) \<Longrightarrow> row_deterministic ts"
proof -
  let ?g = "\<lambda>(s, l, t). Some (the (num s), (l, the (num t)))"
  let ?ts = "map (\<lambda>i. row_of ?g i trs) [0..<k]"
  have r: "i < k" if "e \<in> set trs" "?g e = Some (i, x)" for e i x
    using that ran by (cases e rule: prod_cases3) auto
  have eq: "fold_opt (number_transition num) es ts0 = fold_opt (push_row ?g) es ts0"
    if "set es \<subseteq> set trs" for es ts0
    using that
  proof (induction es arbitrary: ts0)
    case (Cons e es)
    obtain s l t where e: "e = (s, l, t)" using prod_cases3 by blast
    have "num s \<noteq> None" "num t \<noteq> None" using Cons.prems ran by (auto simp: e)
    then have "number_transition num e ts0 = push_row ?g e ts0"
      by (auto simp: e number_transition_def push_row_def index_opt_def)
    with Cons show ?case by (auto split: Option.bind_split)
  qed simp
  have 1: "fold_opt (number_transition num) trs (replicate k []) = Some ?ts"
    unfolding eq [OF subset_refl] by (rule fold_push_row_Nil) (rule r)
  have 2: "edges ?ts = {(the (num s), l, the (num t)) |s l t. (s, l, t) \<in> set trs}"
    unfolding edges_rows using ran by force
  have 3: "row_deterministic ?ts" if "distinct (map (\<lambda>(s, l, t). (s, l)) trs)"
  proof (rule row_deterministic_rows [OF that])
    fix e e' i x x'
    assume a: "e \<in> set trs" "e' \<in> set trs" "?g e = Some (i, x)" "?g e' = Some (i, x')" "fst x = fst x'"
    obtain s l t s2 l2 t2 where e: "e = (s, l, t)" "e' = (s2, l2, t2)" by (metis prod_cases3)
    have "num s = Some i" "num s2 = Some i" using ran [of s l t] ran [of s2 l2 t2] a by (auto simp: e)
    then have "s = s2" by (rule inj)
    with a show "(case e of (s, l, t) \<Rightarrow> (s, l)) = (case e' of (s, l, t) \<Rightarrow> (s, l))" by (auto simp: e)
  qed
  show thesis by (rule that [OF 1 _ 2 3]) simp
qed

lemma renaming_of_inj: "renaming_of xs x = Some i \<Longrightarrow> renaming_of xs y = Some i \<Longrightarrow> x = y"
  using position_holds [of "\<lambda>z. z = x" xs i] position_holds [of "\<lambda>z. z = y" xs i] by (simp add: renaming_of_def)

lemma renaming_of_nth: "distinct xs \<Longrightarrow> i < length xs \<Longrightarrow> renaming_of xs (xs ! i) = Some i"
  unfolding renaming_of_def by (rule position_eq_distinct)

lemma renaming_of_None: "renaming_of xs x = None \<longleftrightarrow> x \<notin> set xs"
  by (auto simp: renaming_of_def position_None_iff)

lemma renaming_of_lt: "renaming_of xs x = Some i \<Longrightarrow> i < length xs"
  unfolding renaming_of_def by (rule position_lt)

lemma renaming_of_member: "x \<in> set xs \<Longrightarrow> renaming_of xs x = Some (the (renaming_of xs x)) \<and> the (renaming_of xs x) < length xs"
  using renaming_of_None [of xs x] renaming_of_lt [of xs x] by auto

section \<open>Dead states\<close>

text \<open>A reachability graph whose targets are states; the two loops of \<open>live_states\<close> run over it.\<close>

definition closed_graph :: "reach_graph \<Rightarrow> bool" where
  "closed_graph g \<longleftrightarrow> (\<forall>s<length g. set (g ! s) \<subseteq> {..<length g})"

definition backward_succ :: "reach_graph \<times> nat list \<Rightarrow> nat \<Rightarrow> nat list" where
  "backward_succ p s = (if s \<in> set (snd p) then fst p ! s else [])"

interpretation forward: worklist visit_forward "(!)" closed_graph "\<lambda>g. {..<length g}"
  by unfold_locales (auto simp: visit_forward_def index_opt_def closed_graph_def)

interpretation backward: worklist visit_backward backward_succ "\<lambda>p. closed_graph (fst p)" "\<lambda>p. {..<length (fst p)}"
  by unfold_locales (auto simp: visit_backward_def backward_succ_def index_opt_def closed_graph_def split: prod.splits)

lemma simplified_graph_props:
  "length (simplified_graph a) = length (ra_transitions a)"
  "p < length (ra_transitions a) \<Longrightarrow> set (simplified_graph a ! p) = {q. \<exists>l. (p, l, q) \<in> edges (ra_transitions a)}"
  "wf_table n (ra_transitions a) \<Longrightarrow> closed_graph (simplified_graph a)"
  by (force simp: simplified_graph_def closed_graph_def edges_def wf_table_def)+

lemma fold_backward_edges:
  assumes "\<forall>(s, t)\<in>set es. t < length g"
  shows "\<exists>g'. fold_opt add_backward_edge es g = Some g' \<and> length g' = length g \<and>
    (\<forall>t<length g. set (g' ! t) = set (g ! t) \<union> {s. (s, t) \<in> set es})"
  using assms
proof (induction es arbitrary: g)
  case (Cons e es)
  obtain s t where e: "e = (s, t)" by fastforce
  let ?g = "g[t := hash_insert s (g ! t)]"
  have t: "t < length g" using Cons.prems by (simp add: e)
  obtain g' where "fold_opt add_backward_edge es ?g = Some g'" "length g' = length g"
    "\<forall>t<length g. set (g' ! t) = set (?g ! t) \<union> {s. (s, t) \<in> set es}"
    using Cons.IH [of ?g] Cons.prems by auto
  moreover have "add_backward_edge e g = Some ?g" using t by (simp add: e add_backward_edge_def index_opt_def)
  ultimately show ?case using t by (intro exI [of _ g']) (auto simp: e nth_list_update)
qed simp

lemma reverse_graph_spec:
  assumes "closed_graph g"
  shows "\<exists>g'. reverse_graph g = Some g' \<and> length g' = length g \<and> closed_graph g' \<and>
    (\<forall>t<length g. set (g' ! t) = {s. s < length g \<and> t \<in> set (g ! s)})"
proof -
  have es: "set (concat (imap off (\<lambda>source succ. map (Pair source) succ) g)) =
      {(s, t). \<exists>i<length g. s = off + i \<and> t \<in> set (g ! i)}" for off and g :: reach_graph
  proof (induction g arbitrary: off)
    case (Cons succ g)
    have "(\<exists>i<Suc (length g). s = off + i \<and> t \<in> set ((succ # g) ! i)) \<longleftrightarrow>
        (s = off \<and> t \<in> set succ) \<or> (\<exists>i<length g. s = Suc off + i \<and> t \<in> set (g ! i))" for s t
      by (subst Ex_less_Suc2) auto
    with Cons.IH [of "Suc off"] show ?case by force
  qed simp
  have "\<exists>g'. reverse_graph g = Some g' \<and> length g' = length g \<and>
    (\<forall>t<length g. set (g' ! t) = {s. s < length g \<and> t \<in> set (g ! s)})"
    using fold_backward_edges [of "concat (imap 0 (\<lambda>source succ. map (Pair source) succ) g)" "replicate (length g) []"] assms
    unfolding reverse_graph_def es [of 0 g] closed_graph_def by fastforce
  then show ?thesis by (auto simp: closed_graph_def)
qed

lemma successors_rel_rtrancl_closed:
  assumes "(s, t) \<in> (successors_rel f)\<^sup>*" and "s \<in> S" and "\<And>s t. s \<in> S \<Longrightarrow> t \<in> set (f s) \<Longrightarrow> t \<in> S \<and> (s, t) \<in> R"
  shows "t \<in> S \<and> (s, t) \<in> R\<^sup>*"
  using assms(1,2)
  by (induction rule: rtrancl_induct) (auto simp: successors_rel_def dest: assms(3) intro: rtrancl_into_rtrancl)

lemma visit_backward_acc:
  "closed_graph (fst p) \<Longrightarrow> set vs \<subseteq> {..<length (fst p)} \<Longrightarrow>
   fold (\<lambda>s a. fst (the (visit_backward p s a))) vs acc = fold hash_insert (filter (\<lambda>s. s \<in> set (snd p)) vs) acc"
  by (induction vs arbitrary: acc)
    (auto simp: visit_backward_def index_opt_def split: prod.splits)

lemma graph_of_edges:
  assumes "wf_table n ts" and "(p, q) \<in> graph_of (edges ts)"
  shows "p < length ts \<and> q < length ts"
  using assms(2) wf_tableD [OF assms(1)] by (auto simp: graph_of_def)

lemma simplified_graph_edge:
  "p < length (ra_transitions a) \<Longrightarrow> q \<in> set (simplified_graph a ! p) \<longleftrightarrow> (p, q) \<in> graph_of (edges (ra_transitions a))"
  by (simp add: simplified_graph_props(2) graph_of_def)

lemma forward_reach:
  assumes wf: "wf_raw n a"
  shows "\<exists>reach. explore (visit_forward (simplified_graph a)) [] () [ra_initial_state a] = Some (reach, ()) \<and>
    set reach = (graph_of (edges (ra_transitions a)))\<^sup>* `` {ra_initial_state a}"
proof -
  let ?G = "graph_of (edges (ra_transitions a))" and ?g = "simplified_graph a" and ?N = "length (ra_transitions a)"
  note w = wf_rawD [OF wf]
  note closedE = graph_of_edges [OF w(4)]
  from forward.explore_reaches [OF simplified_graph_props(3) [OF w(4)], of "[ra_initial_state a]" "()"] w(1)
  obtain reach where reach: "explore (visit_forward ?g) [] () [ra_initial_state a] = Some (reach, ())"
    and reach_set: "set reach = (successors_rel ((!) ?g))\<^sup>* `` {ra_initial_state a}"
    by (auto simp: simplified_graph_props(1))
  have "(ra_initial_state a, t) \<in> ?G\<^sup>*" if "(ra_initial_state a, t) \<in> (successors_rel ((!) ?g))\<^sup>*" for t
  proof -
    have "t \<in> {..<?N} \<and> (ra_initial_state a, t) \<in> ?G\<^sup>*"
      by (rule successors_rel_rtrancl_closed [OF that])
        (use w(1) closedE in \<open>auto simp: simplified_graph_edge\<close>)
    then show ?thesis by simp
  qed
  moreover have "?G \<subseteq> successors_rel ((!) ?g)"
  proof (rule subrelI)
    fix p q assume "(p, q) \<in> ?G"
    with closedE [OF this] show "(p, q) \<in> successors_rel ((!) ?g)" by (simp add: successors_rel_def simplified_graph_edge)
  qed
  from rtrancl_mono [OF this] have "?G\<^sup>* \<subseteq> (successors_rel ((!) ?g))\<^sup>*" .
  ultimately show ?thesis using reach reach_set by (intro exI [of _ reach]) blast
qed

lemma backward_reach:
  assumes wf: "wf_raw n a" and reach: "set reach = (graph_of (edges (ra_transitions a)))\<^sup>* `` {ra_initial_state a}"
    and b: "length b = length (ra_transitions a)" "closed_graph b"
      "\<And>s t. t < length b \<Longrightarrow> s \<in> set (b ! t) \<longleftrightarrow> (s, t) \<in> graph_of (edges (ra_transitions a))"
  shows "\<exists>vs lv. explore (visit_backward (b, reach)) [] [] (rev (ra_final_states a)) = Some (vs, lv) \<and> distinct lv \<and>
    set lv = live (edges (ra_transitions a)) {ra_initial_state a} (set (ra_final_states a))"
proof -
  let ?G = "graph_of (edges (ra_transitions a))" and ?N = "length (ra_transitions a)" and ?p = "(b, reach)"
  note w = wf_rawD [OF wf]
  note closedE = graph_of_edges [OF w(4)]
  have bstep: "t \<in> set (backward_succ ?p s) \<longleftrightarrow> s \<in> set reach \<and> (t, s) \<in> ?G" if "s < ?N" for s t
    using that b(1,3) by (auto simp: backward_succ_def)
  from backward.explore_reaches [of ?p "rev (ra_final_states a)" "[]"] b w(2) obtain vs where
    vs: "explore (visit_backward ?p) [] [] (rev (ra_final_states a)) =
      Some (vs, fold (\<lambda>s a. fst (the (visit_backward ?p s a))) vs [])"
    and vs_set: "set vs \<subseteq> {..<?N}" "set vs = (successors_rel (backward_succ ?p))\<^sup>* `` set (ra_final_states a)"
    by auto
  have acc: "fold (\<lambda>s a. fst (the (visit_backward ?p s a))) vs [] = hash_collect (filter (\<lambda>s. s \<in> set reach) vs)"
    using visit_backward_acc [of ?p vs "[]"] b(1,2) vs_set(1) by simp
  have fwd: "(s, f) \<in> ?G\<^sup>*" if "f \<in> set (ra_final_states a)" "(f, s) \<in> (successors_rel (backward_succ ?p))\<^sup>*" for f s
  proof -
    have "s \<in> {..<?N} \<and> (f, s) \<in> (?G\<inverse>)\<^sup>*"
      by (rule successors_rel_rtrancl_closed [OF that(2)]) (use that(1) w(2) closedE in \<open>auto simp: bstep\<close>)
    then show ?thesis by (simp add: rtrancl_converse)
  qed
  have bwd: "(f, s) \<in> (successors_rel (backward_succ ?p))\<^sup>*" if "(s, f) \<in> ?G\<^sup>*" "s \<in> set reach" for f s
    using that
  proof (induction rule: converse_rtrancl_induct)
    case (step s r)
    then have "r \<in> set reach" by (auto simp: reach intro: rtrancl_into_rtrancl)
    moreover have "(r, s) \<in> successors_rel (backward_succ ?p)"
      using step.hyps(1) closedE [OF step.hyps(1)] \<open>r \<in> set reach\<close> by (simp add: successors_rel_def bstep)
    ultimately show ?case using step.IH by (auto intro: rtrancl_into_rtrancl)
  qed simp
  have "set (filter (\<lambda>s. s \<in> set reach) vs) = live (edges (ra_transitions a)) {ra_initial_state a} (set (ra_final_states a))"
    unfolding live_def reach [symmetric] by (auto simp: vs_set(2) intro: fwd bwd)
  with vs acc show ?thesis by (auto intro!: exI)
qed

lemma live_states_spec:
  assumes wf: "wf_raw n a"
  shows "\<exists>vs. live_states a = Some vs \<and> distinct vs \<and>
    set vs = live (edges (ra_transitions a)) {ra_initial_state a} (set (ra_final_states a))"
proof -
  note w = wf_rawD [OF wf]
  from reverse_graph_spec [OF simplified_graph_props(3) [OF w(4)]] obtain b where
    b: "reverse_graph (simplified_graph a) = Some b" "length b = length (ra_transitions a)" "closed_graph b"
    and bE: "\<forall>t<length b. set (b ! t) = {s. s < length b \<and> t \<in> set (simplified_graph a ! s)}"
    by (auto simp: simplified_graph_props(1))
  have "s \<in> set (b ! t) \<longleftrightarrow> (s, t) \<in> graph_of (edges (ra_transitions a))" if "t < length b" for s t
    using that bE b(2) simplified_graph_edge [of s a t] graph_of_edges [OF w(4), of s t] by auto
  moreover from forward_reach [OF wf] obtain reach where
    reach: "explore (visit_forward (simplified_graph a)) [] () [ra_initial_state a] = Some (reach, ())"
    "set reach = (graph_of (edges (ra_transitions a)))\<^sup>* `` {ra_initial_state a}" by blast
  ultimately show ?thesis
    using backward_reach [OF wf reach(2) b(2,3)] b(1) reach(1) by (auto simp: live_states_def Let_def)
qed

lemma set_map_filter_renaming:
  "set (List.map_filter (renaming_of xs) ys) = (\<lambda>y. the (renaming_of xs y)) ` (set ys \<inter> set xs)"
  by (auto simp: List.map_filter_def renaming_of_None image_iff)

lemma renaming_of_inj_on: "inj_on (\<lambda>x. the (renaming_of xs x)) (set xs)"
proof (rule inj_onI)
  fix x y assume "x \<in> set xs" "y \<in> set xs" and eq: "the (renaming_of xs x) = the (renaming_of xs y)"
  then have "renaming_of xs x = Some (the (renaming_of xs y))" "renaming_of xs y = Some (the (renaming_of xs y))"
    using renaming_of_member [of x xs] renaming_of_member [of y xs] by auto
  then show "x = y" by (rule renaming_of_inj)
qed

text \<open>
  Keeping only the states of a list, renamed to their positions: the loop returns, and the result
  has the language of the restricted graph.
\<close>

lemma filter_map_renaming:
  assumes "distinct vs"
  obtains ts' ms where "filter_map_transitions ts (renaming_of vs) (length vs) 0 = Some (ts', ms)" and "length ts' = length vs"
    and "edges ts' = (\<lambda>(p, l, q). (the (renaming_of vs p), l, the (renaming_of vs q))) ` restrict_edges (set vs) (edges ts)"
    and "distinct ms" and "set ms = {l_marker l |p l q. (p, l, q) \<in> restrict_edges (set vs) (edges ts)}"
    and "row_deterministic ts \<Longrightarrow> row_deterministic ts'"
proof (rule filter_map_transitions_spec [of ts "renaming_of vs" 0 "length vs"])
  show "0 \<le> p' \<and> p' - 0 < length vs" if "renaming_of vs p = Some p'" for p p' using renaming_of_lt [OF that] by simp
  show "p = q" if "renaming_of vs p = Some r" "renaming_of vs q = Some r" for p q r using that by (rule renaming_of_inj)
  fix ts' ms
  assume r: "filter_map_transitions ts (renaming_of vs) (length vs) 0 = Some (ts', ms)" "length ts' = length vs" "distinct ms"
      "row_deterministic ts \<Longrightarrow> row_deterministic ts'"
    and e: "edges ts' = {(p' - 0, l, q') |p l q p' q'. (p, l, q) \<in> edges ts \<and> renaming_of vs p = Some p' \<and> renaming_of vs q = Some q'}"
    and m: "set ms = {l_marker l |p l q. (p, l, q) \<in> edges ts \<and> renaming_of vs p \<noteq> None \<and> renaming_of vs q \<noteq> None}"
  have some: "renaming_of vs p = Some p' \<longleftrightarrow> p \<in> set vs \<and> p' = the (renaming_of vs p)" for p p'
    using renaming_of_None [of vs p] by auto
  have "edges ts' = (\<lambda>(p, l, q). (the (renaming_of vs p), l, the (renaming_of vs q))) ` restrict_edges (set vs) (edges ts)"
    unfolding e some by (force simp: restrict_edges_def)
  moreover have "set ms = {l_marker l |p l q. (p, l, q) \<in> restrict_edges (set vs) (edges ts)}"
    unfolding m renaming_of_None by (auto simp: restrict_edges_def)
  ultimately show thesis by (rule that [OF r(1,2) _ r(3) _ r(4)])
qed

lemma wf_table_image:
  assumes "wf_table n ts" and "edges ts' \<subseteq> (\<lambda>(p, l, q). (f p, l, f q)) ` restrict_edges S (edges ts)"
    and "\<And>p. p \<in> S \<Longrightarrow> f p < length ts'"
  shows "wf_table n ts'"
  using assms wf_tableD [OF assms(1)] by (force simp: wf_table_def restrict_edges_def)

lemma language_empty: "language empty_automaton = {}"
  by (simp add: language_def lang_def empty_automaton_def)

lemma wf_empty: "wf_raw n empty_automaton" "markers_cover empty_automaton"
  by (auto simp: wf_raw_def empty_automaton_def wf_table_def edges_def row_deterministic_def markers_cover_def)

text \<open>The states that lie on an accepting run, and automata whose transitions and final states all do.\<close>

abbreviation live_of :: "raw_automaton \<Rightarrow> nat set" where
  "live_of a \<equiv> live (edges (ra_transitions a)) {ra_initial_state a} (set (ra_final_states a))"

definition trim :: "raw_automaton \<Rightarrow> bool" where
  "trim a \<longleftrightarrow> trimmed (edges (ra_transitions a)) {ra_initial_state a} (set (ra_final_states a))"

lemma trim_empty: "trim empty_automaton"
  by (simp add: trim_def trimmed_def empty_automaton_def edges_def)

theorem remove_dead_states_spec:
  assumes wf: "wf_raw n a"
  obtains b where "remove_dead_states a = Some b" and "wf_raw n b" and "language b = language a" and "\<not> ra_complete b"
    and "markers_cover b" and "trim b"
    and "if language b = {} then ra_transitions b = [[]] else {..<length (ra_transitions b)} = live_of b"
proof -
  let ?E = "edges (ra_transitions a)" and ?F = "set (ra_final_states a)" and ?i = "ra_initial_state a"
  note w = wf_rawD [OF wf]
  from live_states_spec [OF wf] obtain vs where vs: "live_states a = Some vs" "distinct vs" "set vs = live ?E {?i} ?F" by blast
  let ?f = "\<lambda>x. the (renaming_of vs x)"
  show thesis
  proof (cases "vs = []")
    case True
    then have "language a = {}" using lang_restrict [of ?E "{?i}" ?F] vs(3) by (simp add: language_def lang_def)
    then show thesis using that [of empty_automaton] True vs(1) wf_empty language_empty trim_empty
      by (simp add: remove_dead_states_def empty_automaton_def)
  next
    case False
    then obtain v where "v \<in> live ?E {?i} ?F" using vs(3) by (cases vs) auto
    then have i: "?i \<in> set vs" unfolding vs(3) by (auto simp: live_def intro: rtrancl_trans)
    obtain ts' ms where r: "filter_map_transitions (ra_transitions a) (renaming_of vs) (length vs) 0 = Some (ts', ms)"
      "length ts' = length vs" "edges ts' = (\<lambda>(p, l, q). (?f p, l, ?f q)) ` restrict_edges (set vs) ?E" "distinct ms"
      "set ms = {l_marker l |p l q. (p, l, q) \<in> restrict_edges (set vs) ?E}"
      "row_deterministic (ra_transitions a) \<Longrightarrow> row_deterministic ts'"
      by (rule filter_map_renaming [OF vs(2), of "ra_transitions a"]) blast
    obtain j where ren: "renaming_of vs ?i = Some j" "j < length vs" using renaming_of_member [OF i] by blast
    let ?b = "\<lparr>ra_deterministic = ra_deterministic a, ra_complete = False, ra_initial_state = j,
      ra_final_states = hash_collect (List.map_filter (renaming_of vs) (ra_final_states a)), ra_transitions = ts', ra_markers = ms\<rparr>"
    have fin: "set (ra_final_states ?b) = ?f ` (?F \<inter> set vs)" by (simp add: set_map_filter_renaming)
    have eq: "remove_dead_states a = Some ?b" using False by (simp add: remove_dead_states_def vs(1) ren(1) r(1))
    have lt: "?f v < length ts'" if "v \<in> set vs" for v using renaming_of_member [OF that] by (simp add: r(2))
    have "wf_table n ts'" using wf_table_image [OF w(4) r(3) [THEN equalityD1] lt] by blast
    then have "wf_raw n ?b" using w(6) r(2,4,6) fin lt ren(2) by (auto simp: wf_raw_def)
    moreover have "language ?b = lang (restrict_edges (set vs) ?E) ({?i} \<inter> set vs) (?F \<inter> set vs)"
      using lang_rename [OF renaming_of_inj_on, of "restrict_edges (set vs) ?E" vs "{?i} \<inter> set vs" "?F \<inter> set vs"] i
      unfolding language_def fin by (simp add: r(3) restrict_edges_def ren(1))
    then have "language ?b = language a" unfolding vs(3) lang_restrict by (simp add: language_def)
    moreover have "markers_cover ?b" using r(3,5) by (force simp: markers_cover_def)
    moreover have T: "trimmed (edges ts') {j} (?f ` (?F \<inter> set vs))"
      using trimmed_image [OF trimmed_restrict [of ?E "{?i}" ?F], of ?f] i unfolding vs(3) [symmetric] by (simp add: r(3) ren(1))
    then have "trim ?b" by (simp add: trim_def set_map_filter_renaming)
    moreover have "language ?b \<noteq> {}"
    proof -
      have "lang ?E {?i} ?F \<noteq> {}" using i unfolding vs(3) by (elim liveE) (auto simp: lang_def)
      with \<open>language ?b = language a\<close> show ?thesis by (simp add: language_def)
    qed
    moreover have "{..<length ts'} = live (edges ts') {j} (?f ` (?F \<inter> set vs))"
    proof
      show "{..<length ts'} \<subseteq> live (edges ts') {j} (?f ` (?F \<inter> set vs))"
      proof
        fix x assume "x \<in> {..<length ts'}"
        then have x: "x < length vs" using r(2) by simp
        then have "vs ! x \<in> live ?E {?i} ?F" unfolding vs(3) [symmetric] by simp
        from live_image [OF live_restrict [OF this], of ?f]
        show "x \<in> live (edges ts') {j} (?f ` (?F \<inter> set vs))"
          using renaming_of_nth [OF vs(2) x] i unfolding vs(3) [symmetric] by (simp add: r(3) ren(1))
      qed
      show "live (edges ts') {j} (?f ` (?F \<inter> set vs)) \<subseteq> {..<length ts'}"
      proof
        fix x assume "x \<in> live (edges ts') {j} (?f ` (?F \<inter> set vs))"
        then obtain u where "steps (edges ts') j u x" by (elim liveE) simp
        then have "x \<in> {..<length ts'}"
          using ren(2) wf_tableD [OF \<open>wf_table n ts'\<close>] r(2) by (elim steps_closed) auto
        then show "x \<in> {..<length ts'}" .
      qed
    qed
    ultimately show thesis using that [of ?b] eq by (simp add: set_map_filter_renaming)
  qed
qed

lemma check_determinism_simps [simp]:
  "ra_initial_state (check_determinism a) = ra_initial_state a" "ra_final_states (check_determinism a) = ra_final_states a"
  "ra_transitions (check_determinism a) = ra_transitions a" "ra_markers (check_determinism a) = ra_markers a"
  "ra_complete (check_determinism a) = ra_complete a" "language (check_determinism a) = language a"
  "markers_cover (check_determinism a) = markers_cover a" "trim (check_determinism a) = trim a"
  by (simp_all add: check_determinism_def language_def markers_cover_def trim_def)

lemma wf_check_determinism: "wf_raw n a \<Longrightarrow> wf_raw n (check_determinism a)"
  by (auto simp: wf_raw_def check_determinism_def row_deterministic_def list_all_iff)

end
