(* ===== verification/Automaton_Ops.thy ===== *)
theory Automaton_Ops
  imports Automaton_Correct
begin

text \<open>
  The languages of the basic automata, of optional and repeated automata, and of the complement.
\<close>

section \<open>Basic automata\<close>

lemma edges_snoc: "edges (ts @ [succ]) = edges ts \<union> {(length ts, l, q) |l q. (l, q) \<in> set succ}"
  by (auto simp: edges_def nth_append less_Suc_eq)

lemma edges_single [simp]: "edges [[]] = {}"
  using edges_snoc [of "[]" "[]"] by (simp add: edges_def)

lemma epsilon_spec: "wf_raw n epsilon_automaton" "language epsilon_automaton = {[]}" "markers_cover epsilon_automaton"
proof -
  have E: "edges (ra_transitions epsilon_automaton) = {}" by (simp add: epsilon_automaton_def)
  have "steps {} (0 :: nat) w 0 \<longleftrightarrow> w = []" for w :: "letter list" by (cases w) auto
  then show "language epsilon_automaton = {[]}"
    unfolding language_def lang_def E by (simp add: epsilon_automaton_def)
qed (auto simp: wf_raw_def epsilon_automaton_def wf_table_def row_deterministic_def markers_cover_def)

text \<open>The words of a sequence of byte ranges, one letter of the alphabet from each.\<close>

definition range_words :: "nat \<Rightarrow> letter list list \<Rightarrow> letter list set" where
  "range_words n word = {w. list_all2 (\<lambda>l bytes. l \<in> set bytes \<and> unat (l_char l) < n) w word}"

lemma edges_byte_concat:
  "edges (ra_transitions (byte_concat word n)) =
     {(i, l, Suc i) |i l. i < length word \<and> l \<in> set (word ! i) \<and> unat (l_char l) < n}"
  by (auto simp: byte_concat_def Let_def edges_snoc) (auto simp: edges_def nth_imap)

lemma steps_byte_concat:
  "i \<le> length word \<Longrightarrow> steps (edges (ra_transitions (byte_concat word n))) i w (length word) \<longleftrightarrow>
     list_all2 (\<lambda>l bytes. l \<in> set bytes \<and> unat (l_char l) < n) w (drop i word)"
proof (induction w arbitrary: i)
  case Nil
  then show ?case by auto
next
  case (Cons l w)
  have "steps (edges (ra_transitions (byte_concat word n))) i (l # w) (length word) \<longleftrightarrow>
      i < length word \<and> l \<in> set (word ! i) \<and> unat (l_char l) < n \<and>
      steps (edges (ra_transitions (byte_concat word n))) (Suc i) w (length word)"
    by (auto simp: edges_byte_concat)
  also have "\<dots> \<longleftrightarrow> list_all2 (\<lambda>l bytes. l \<in> set bytes \<and> unat (l_char l) < n) (l # w) (drop i word)"
    using Cons.IH [of "Suc i"] Cons.prems by (cases "i < length word") (auto simp: Cons_nth_drop_Suc [symmetric])
  finally show ?case .
qed

lemma byte_concat_spec:
  assumes "\<forall>bytes\<in>set word. distinct bytes"
  shows "wf_raw n (byte_concat word n)" "language (byte_concat word n) = range_words n word"
    "markers_cover (byte_concat word n)"
proof -
  let ?b = "byte_concat word n"
  have st: "ra_initial_state ?b = 0" "ra_final_states ?b = [length word]" "length (ra_transitions ?b) = Suc (length word)"
    "set (ra_markers ?b) = {l_marker l |l bytes. bytes \<in> set word \<and> l \<in> set bytes \<and> unat (l_char l) < n}" "distinct (ra_markers ?b)"
    by (auto simp: byte_concat_def Let_def)
  have "distinct (map fst succ)" if "succ \<in> set (ra_transitions ?b)" for succ
  proof -
    from that obtain i where "i < Suc (length word)" "succ = ra_transitions ?b ! i" by (metis in_set_conv_nth st(3))
    with assms show ?thesis
      by (auto simp: byte_concat_def Let_def nth_append nth_imap comp_def less_Suc_eq_le split: if_splits)
  qed
  then show "wf_raw n ?b"
    using st by (auto simp: wf_raw_def wf_table_def row_deterministic_def edges_byte_concat)
  show "language ?b = range_words n word"
    using steps_byte_concat [of 0 word n] by (auto simp: language_def lang_def st range_words_def)
  show "markers_cover ?b" unfolding markers_cover_def edges_byte_concat st(4) by force
qed

lemma trim_epsilon: "trim epsilon_automaton"
  by (auto simp: trim_def trimmed_def epsilon_automaton_def edges_def live_def)

lemma trim_byte_concat:
  assumes "w \<in> range_words n word"
  shows "trim (byte_concat word n)"
proof -
  let ?E = "edges (ra_transitions (byte_concat word n))"
  have st: "ra_initial_state (byte_concat word n) = 0" "ra_final_states (byte_concat word n) = [length word]"
    by (auto simp: byte_concat_def Let_def)
  have adv: "q = p + length u" if "steps ?E p u q" for p u q using that by (induction u arbitrary: p) (fastforce simp: edges_byte_concat)+
  have w: "list_all2 (\<lambda>l bytes. l \<in> set bytes \<and> unat (l_char l) < n) w (drop 0 word)" using assms by (simp add: range_words_def)
  then have run: "steps ?E 0 w (length word)" and len: "length w = length word"
    using steps_byte_concat [of 0 word n w] list_all2_lengthD [OF w] by simp_all
  have "i \<in> live ?E {0} {length word}" if "i \<le> length word" for i
  proof -
    from run have "steps ?E 0 (take i w @ drop i w) (length word)" by simp
    then obtain r where r: "steps ?E 0 (take i w) r" "steps ?E r (drop i w) (length word)" by (auto simp only: steps_append)
    with adv [OF r(1)] that len have "r = i" by simp
    with r show ?thesis by (intro liveI [of 0 _ "length word"]) simp_all
  qed
  then show ?thesis by (auto simp: trim_def trimmed_def st edges_byte_concat)
qed

text \<open>The unmarked words over an alphabet of \<open>n\<close> bytes.\<close>

definition unmarked_letters :: "nat \<Rightarrow> letter set" where
  "unmarked_letters n = {l. unat (l_char l) < n \<and> l_marker l = 0}"

lemma universal_spec:
  assumes "n \<le> ALPHABET_MAX_SIZE"
  obtains u where "universal n = Some u" and "wf_raw n u" and "language u = lists (unmarked_letters n)"
proof -
  obtain u where u: "universal n = Some u" using assms by (auto simp: universal_def)
  then have st: "ra_initial_state u = 0" "ra_final_states u = [0]" "ra_markers u = []"
    "ra_transitions u = [map (\<lambda>b. (letter_of_byte (word_of_nat b), 0)) [0..<n]]"
    using assms by (auto simp: universal_def)
  have nat8: "unat (word_of_nat b :: 8 word) = b" if "b < n" for b
    using that assms by (simp add: unat_of_nat ALPHABET_MAX_SIZE_def)
  have E: "edges (ra_transitions u) = {(0, l, 0) |l. l \<in> unmarked_letters n}"
  proof -
    have "l \<in> unmarked_letters n \<longleftrightarrow> (\<exists>b<n. l = letter_of_byte (word_of_nat b))" for l
    proof
      assume "l \<in> unmarked_letters n"
      then show "\<exists>b<n. l = letter_of_byte (word_of_nat b)"
        by (intro exI [of _ "unat (l_char l)"]) (auto simp: unmarked_letters_def letter_of_byte_def)
    qed (auto simp: unmarked_letters_def letter_of_byte_def nat8)
    then show ?thesis by (auto 4 4 simp: st edges_def)
  qed
  have inj: "inj_on (\<lambda>b. letter_of_byte (word_of_nat b)) {0..<n}"
    by (rule inj_onI) (metis atLeastLessThan_iff letter.ext_inject letter_of_byte_def nat8)
  have "wf_raw n u"
    unfolding wf_raw_def wf_table_def E row_deterministic_def
    using inj by (auto simp: st unmarked_letters_def comp_def distinct_map)
  moreover have "steps (edges (ra_transitions u)) 0 w 0 \<longleftrightarrow> w \<in> lists (unmarked_letters n)" for w
    by (induction w) (auto simp: E)
  then have "language u = lists (unmarked_letters n)" by (auto simp: language_def lang_def st)
  ultimately show thesis using that u by blast
qed

section \<open>Optional automata\<close>

lemma index_opt_nth: "i < length xs \<Longrightarrow> index_opt xs i = Some (xs ! i)"
  by (simp add: index_opt_def)

lemma loop_on_initial_iff:
  "loop_on_initial a \<longleftrightarrow> (\<exists>p l. (p, l, ra_initial_state a) \<in> edges (ra_transitions a))"
  by (force simp: loop_on_initial_def list_ex_iff edges_def in_set_conv_nth)

text \<open>Entering a fresh initial state with the transitions of the old one.\<close>

lemma lang_fresh_initial:
  assumes s: "\<And>p l q. (p, l, q) \<in> E \<Longrightarrow> p \<noteq> s \<and> q \<noteq> s" and "i \<noteq> s" and "s \<notin> F"
  shows "lang (E \<union> {(s, l, q) |l q. (i, l, q) \<in> E}) {s} (insert s F) = insert [] (lang E {i} F)"
proof -
  let ?E = "E \<union> {(s, l, q) |l q. (i, l, q) \<in> E}"
  have old: "steps ?E p w q \<longleftrightarrow> steps E p w q" if "p \<noteq> s" for p w q
    using that by (induction w arbitrary: p) (auto dest: s)
  have "steps ?E s (l # w) q \<longleftrightarrow> steps E i (l # w) q" for l w q
    using s old by auto
  moreover have "\<not> steps E i (l # w) s" for l w
  proof
    assume "steps E i (l # w) s"
    then obtain r where "(i, l, r) \<in> E" "steps E r w s" by auto
    then have "s \<in> - {s}" by (intro steps_closed [of E r w s "- {s}"]) (auto dest: s)
    then show False by simp
  qed
  ultimately have "(\<exists>q\<in>insert s F. steps ?E s w q) \<longleftrightarrow> w = [] \<or> (\<exists>q\<in>F. steps E i w q)" for w
    using assms(3) by (cases w) auto
  then show ?thesis by (auto simp: lang_def)
qed

lemma lang_insert_initial:
  assumes "\<And>p l. (p, l, i) \<notin> E"
  shows "lang E {i} (insert i F) = insert [] (lang E {i} F)"
proof -
  have "\<not> steps E p (l # w) i" for p l w
    using assms by (induction w arbitrary: p l) auto
  then have "(\<exists>q\<in>insert i F. steps E i w q) \<longleftrightarrow> w = [] \<or> (\<exists>q\<in>F. steps E i w q)" for w by (cases w) auto
  then show ?thesis by (auto simp: lang_def)
qed

text \<open>A fresh initial state that is final; the old one is kept when it lies on a loop.\<close>

lemma trimmed_fresh_initial:
  assumes t: "trimmed E {i} F" and loop: "(p, l, i) \<in> E"
  shows "trimmed (E \<union> {(k, l, q) |l q. (i, l, q) \<in> E}) {k} (insert k F)" (is "trimmed ?E {k} ?F")
proof -
  obtain u where u: "steps E i u p" using trimmedD(1) [OF t loop] by (elim liveE) simp
  have fresh: "steps ?E k w q" if "steps E i w q" "w \<noteq> []" for w q
  proof (cases w)
    case (Cons b v)
    with that(1) obtain r where "(i, b, r) \<in> E" "steps E r v q" by auto
    then have "(k, b, r) \<in> ?E" "steps ?E r v q" by (auto intro: steps_mono)
    then show ?thesis by (auto simp: Cons)
  qed (use that in simp)
  have loop': "steps E i (u @ [l]) i" using u loop by (auto simp: steps_append)
  have "s \<in> live ?E {k} ?F" if s: "s \<in> live E {i} F" for s
  proof -
    from s obtain w v f where w: "steps E i w s" "f \<in> F" "steps E s v f" by (elim liveE) auto
    from loop' w(1) have "steps E i ((u @ [l]) @ w) s" by (auto simp only: steps_append)
    from fresh [OF this] steps_mono [OF w(3), of ?E] w(2) show ?thesis by (intro liveI [of k _ f]) auto
  qed
  moreover have "k \<in> live ?E {k} ?F" by (rule live_self) simp_all
  ultimately show ?thesis using trimmedD [OF t] unfolding trimmed_def by auto
qed

lemma make_optional_spec:
  assumes wf: "wf_raw n a"
  obtains b where "make_optional a = Some b" and "wf_raw n b" and "language b = insert [] (language a)"
    and "ra_complete b = ra_complete a" and "markers_cover a \<Longrightarrow> markers_cover b" and "trim a \<Longrightarrow> trim b"
proof -
  let ?i = "ra_initial_state a" and ?ts = "ra_transitions a"
  note w = wf_rawD [OF wf]
  consider "?i \<in> set (ra_final_states a)" | "?i \<notin> set (ra_final_states a)" "loop_on_initial a"
    | "?i \<notin> set (ra_final_states a)" "\<not> loop_on_initial a" by blast
  then show thesis
  proof cases
    case 1
    then have "[] \<in> language a" by (auto simp: language_def lang_def)
    then show thesis using that [of a] 1 wf by (auto simp: make_optional_def)
  next
    case 2
    let ?b = "a\<lparr>ra_initial_state := length ?ts, ra_final_states := hash_insert (length ?ts) (ra_final_states a),
      ra_transitions := ?ts @ [?ts ! ?i]\<rparr>"
    have "edges (?ts @ [?ts ! ?i]) = edges ?ts \<union> {(length ?ts, l, q) |l q. (?i, l, q) \<in> edges ?ts}"
      unfolding edges_snoc using w(1) by (auto simp: edges_def)
    then have E: "edges (ra_transitions ?b) = edges ?ts \<union> {(length ?ts, l, q) |l q. (?i, l, q) \<in> edges ?ts}" by simp
    have "language ?b = insert [] (language a)"
      unfolding language_def E using wf_tableD [OF w(4)] w(1,2)
      by (subst lang_fresh_initial [symmetric]) auto
    moreover have "wf_raw n ?b"
      using w wf_tableD [OF w(4)] unfolding wf_raw_def wf_table_def E
      by (fastforce simp: row_deterministic_def)
    moreover have "markers_cover ?b" if "markers_cover a"
      using that unfolding markers_cover_def E by (fastforce simp: edges_def)
    moreover have "trim ?b" if "trim a"
      unfolding trim_def E using trimmed_fresh_initial [of "edges ?ts" ?i "set (ra_final_states a)" _ _ "length ?ts"] that 2(2)
      by (auto simp: trim_def loop_on_initial_iff)
    ultimately show thesis using that [of ?b] 2 w(1) by (simp add: make_optional_def index_opt_nth Let_def)
  next
    case 3
    let ?b = "a\<lparr>ra_final_states := hash_insert ?i (ra_final_states a)\<rparr>"
    have "language ?b = insert [] (language a)"
      using 3(2) by (simp add: language_def loop_on_initial_iff lang_insert_initial)
    moreover have "wf_raw n ?b" using wf by (auto simp: wf_raw_def)
    moreover have "trim ?b" if "trim a"
    proof -
      have "?i \<in> live_of ?b" by (rule live_self) simp_all
      moreover have "s \<in> live_of ?b" if "s \<in> live_of a" for s using that by (rule live_mono) auto
      ultimately show ?thesis using \<open>trim a\<close> unfolding trim_def trimmed_def by auto
    qed
    ultimately show thesis using that [of ?b] 3 by (simp add: make_optional_def markers_cover_def)
  qed
qed

section \<open>Complement\<close>

text \<open>A graph that has a transition for every letter of an alphabet, from every state.\<close>

definition total_on :: "letter set \<Rightarrow> transition_table \<Rightarrow> bool" where
  "total_on A ts \<longleftrightarrow> (\<forall>p<length ts. \<forall>l\<in>A. \<exists>q. (p, l, q) \<in> edges ts)"

lemma functional_rows: "row_deterministic ts \<Longrightarrow> functional_edges (edges ts)"
  unfolding functional_edges_def edges_def row_deterministic_def
  by (auto dest!: nth_mem eq_key_imp_eq_value)

lemma total_steps:
  assumes "total_on A ts" and "wf_table n ts" and "w \<in> lists A" and "p < length ts"
  shows "\<exists>q<length ts. steps (edges ts) p w q"
  using assms(3,4)
proof (induction w arbitrary: p)
  case (Cons l w)
  then obtain q where "(p, l, q) \<in> edges ts" using assms(1) unfolding total_on_def by (auto dest!: spec [of _ p])
  with Cons.IH [of q] wf_tableD [OF assms(2) this] show ?case using Cons.prems by auto
qed auto

theorem complement_spec:
  assumes wf: "wf_raw n a" and flags: "ra_deterministic a" "ra_complete a"
    and total: "total_on A (ra_transitions a)" and letters: "\<And>p l q. (p, l, q) \<in> edges (ra_transitions a) \<Longrightarrow> l \<in> A"
  obtains b where "complement a = Some b" and "wf_raw n b" and "language b = lists A - language a"
    and "\<not> ra_complete b" and "markers_cover b" and "trim b"
proof -
  let ?ts = "ra_transitions a" and ?F = "set (ra_final_states a)" and ?i = "ra_initial_state a"
  let ?b = "a\<lparr>ra_final_states := filter (\<lambda>i. i \<notin> ?F) [0..<length ?ts]\<rparr>"
  note w = wf_rawD [OF wf]
  have lang_b: "u \<in> language ?b \<longleftrightarrow> (\<exists>q<length ?ts. q \<notin> ?F \<and> steps (edges ?ts) ?i u q)" for u
    by (auto simp: language_def lang_def)
  have lang_a: "u \<in> language a \<longleftrightarrow> (\<exists>q\<in>?F. steps (edges ?ts) ?i u q)" for u
    by (auto simp: language_def lang_def)
  have fe: "functional_edges (edges ?ts)" using functional_rows [OF w(6) [OF flags(1)]] .
  have "language ?b = lists A - language a"
  proof (intro set_eqI iffI)
    fix u assume "u \<in> language ?b"
    then obtain q where q: "q \<notin> ?F" "steps (edges ?ts) ?i u q" by (auto simp: lang_b)
    have "u \<in> lists A" using steps_letters [OF q(2)] letters by auto
    moreover have "u \<notin> language a" using q(1) steps_functional [OF fe q(2)] by (metis lang_a)
    ultimately show "u \<in> lists A - language a" by simp
  next
    fix u assume u: "u \<in> lists A - language a"
    then obtain q where "q < length ?ts" "steps (edges ?ts) ?i u q" using total_steps [OF total w(4) _ w(1), of u] by auto
    with u show "u \<in> language ?b" unfolding lang_b using lang_a by blast
  qed
  moreover have "wf_raw n ?b" using wf by (auto simp: wf_raw_def)
  then obtain c where "remove_dead_states ?b = Some c" "wf_raw n c" "language c = language ?b" "\<not> ra_complete c" "markers_cover c" "trim c"
    by (rule remove_dead_states_spec)
  ultimately show thesis using that [of c] flags by (simp add: complement_def)
qed

section \<open>Repetition\<close>

definition star :: "'l list set \<Rightarrow> 'l list set" where
  "star L = {concat ws |ws. set ws \<subseteq> L}"

definition plus :: "'l list set \<Rightarrow> 'l list set" where
  "plus L = {concat ws |ws. ws \<noteq> [] \<and> set ws \<subseteq> L}"

lemma star_plus: "star L = insert [] (plus L)"
proof -
  have "[] \<in> star L" by (auto simp: star_def intro!: exI [of _ "[]"])
  then show ?thesis by (auto simp: star_def plus_def)
qed

lemma lang_plus_decompose:
  assumes "steps (E \<union> {(f, l, q) |f l q. f \<in> F \<and> (i, l, q) \<in> E}) p w q" and "q \<in> F"
  shows "\<exists>f\<in>F. \<exists>u ws. w = u @ concat ws \<and> steps E p u f \<and> set ws \<subseteq> lang E {i} F"
  using assms(1)
proof (induction w arbitrary: p)
  case Nil
  have "steps E q [] q" by simp
  with Nil assms(2) show ?case by (intro bexI [of _ q] exI [of _ "[]"]) auto
next
  case (Cons l w)
  then obtain r where r: "(p, l, r) \<in> E \<or> p \<in> F \<and> (i, l, r) \<in> E"
    and st: "steps (E \<union> {(f, l, q) |f l q. f \<in> F \<and> (i, l, q) \<in> E}) r w q" by auto
  from Cons.IH [OF st] obtain f u ws where IH: "f \<in> F" "w = u @ concat ws" "steps E r u f" "set ws \<subseteq> lang E {i} F" by auto
  show ?case
  proof (cases "(p, l, r) \<in> E")
    case True
    with IH have "steps E p (l # u) f" "l # w = (l # u) @ concat ws" by auto
    with IH show ?thesis by blast
  next
    case False
    with r IH have "p \<in> F" "l # u \<in> lang E {i} F" by (auto simp: lang_def)
    with IH have "steps E p [] p" "l # w = [] @ concat ((l # u) # ws)" "set ((l # u) # ws) \<subseteq> lang E {i} F" by auto
    with \<open>p \<in> F\<close> show ?thesis by blast
  qed
qed

lemma lang_plus:
  "lang (E \<union> {(f, l, q) |f l q. f \<in> F \<and> (i, l, q) \<in> E}) {i} F = plus (lang E {i} F)" (is "lang ?E {i} F = _")
proof (intro equalityI subsetI)
  fix w assume "w \<in> lang ?E {i} F"
  then obtain q where q: "q \<in> F" "steps ?E i w q" by (auto simp: lang_def)
  from lang_plus_decompose [OF q(2,1)] obtain f u ws where "f \<in> F" "w = u @ concat ws" "steps E i u f" "set ws \<subseteq> lang E {i} F"
    by auto
  then have "w = concat (u # ws)" "set (u # ws) \<subseteq> lang E {i} F" by (auto simp: lang_def)
  then show "w \<in> plus (lang E {i} F)" unfolding plus_def by blast
next
  fix w assume "w \<in> plus (lang E {i} F)"
  then obtain ws where "w = concat ws" "ws \<noteq> []" "set ws \<subseteq> lang E {i} F" by (auto simp: plus_def)
  then show "w \<in> lang ?E {i} F"
  proof (induction ws arbitrary: w)
    case (Cons v vs)
    then obtain f where f: "f \<in> F" "steps E i v f" by (auto simp: lang_def)
    then have v: "steps ?E i v f" by (auto intro: steps_mono)
    show ?case
    proof (cases "vs = []")
      case True
      with Cons.prems f v show ?thesis by (auto simp: lang_def)
    next
      case False
      with Cons obtain q where q: "q \<in> F" "steps ?E i (concat vs) q" by (auto simp: lang_def)
      have "\<exists>q\<in>F. steps ?E f (concat vs) q"
      proof (cases "concat vs")
        case Nil
        show ?thesis unfolding Nil using f(1) by (intro bexI [of _ f]) simp_all
      next
        case (Cons l x)
        with q(2) obtain r where "(i, l, r) \<in> E" "steps ?E r x q" by auto
        with f(1) q(1) have "steps ?E f (l # x) q" by auto
        then show ?thesis unfolding Cons using q(1) by blast
      qed
      with v Cons.prems(1) show ?thesis by (auto simp: lang_def steps_append)
    qed
  qed simp
qed

lemma repeat_final_rows:
  assumes "set fs \<subseteq> {..<length ts}" and "distinct fs"
  shows "fold_opt (repeat_final out) fs ts =
    Some (map (\<lambda>p. if p \<in> set fs then hash_collect (ts ! p @ out) else ts ! p) [0..<length ts])"
  using assms
proof (induction fs arbitrary: ts)
  case Nil
  then show ?case by (simp add: map_nth)
next
  case (Cons f fs)
  let ?ts = "ts[f := hash_collect (ts ! f @ out)]"
  have f: "f < length ts" "f \<notin> set fs" using Cons.prems by auto
  have "repeat_final out f ts = Some ?ts" using f(1) by (simp add: repeat_final_def index_opt_nth)
  moreover have "fold_opt (repeat_final out) fs ?ts =
      Some (map (\<lambda>p. if p \<in> set fs then hash_collect (?ts ! p @ out) else ?ts ! p) [0..<length ?ts])"
    using Cons.prems by (intro Cons.IH) auto
  moreover have "(if p \<in> set fs then hash_collect (?ts ! p @ out) else ?ts ! p) =
      (if p \<in> set (f # fs) then hash_collect (ts ! p @ out) else ts ! p)" if "p < length ts" for p
    using f that by (auto simp: nth_list_update)
  ultimately show ?case by simp
qed

theorem strict_repeat_spec:
  assumes wf: "wf_raw n a"
  obtains b where "strict_repeat a = Some b" and "wf_raw n b" and "language b = plus (language a)"
    and "ra_complete b = ra_complete a" and "markers_cover a \<Longrightarrow> markers_cover b" and "trim a \<Longrightarrow> trim b"
proof -
  let ?ts = "ra_transitions a" and ?i = "ra_initial_state a" and ?F = "set (ra_final_states a)"
  let ?new = "map (\<lambda>p. if p \<in> ?F then hash_collect (?ts ! p @ ?ts ! ?i) else ?ts ! p) [0..<length ?ts]"
  let ?b = "check_determinism (a\<lparr>ra_deterministic := False, ra_transitions := ?new\<rparr>)"
  note w = wf_rawD [OF wf]
  have E: "edges ?new = edges ?ts \<union> {(f, l, q) |f l q. f \<in> ?F \<and> (?i, l, q) \<in> edges ?ts}"
    using w(1,2) by (auto simp: edges_def split: if_splits)
  have "strict_repeat a = Some ?b"
    using w(1) repeat_final_rows [OF w(2,3), of "?ts ! ?i"] by (simp add: strict_repeat_def index_opt_nth)
  moreover have "wf_table n ?new" using wf_tableD [OF w(4)] unfolding wf_table_def E by fastforce
  then have "wf_raw n ?b" using w by (intro wf_check_determinism) (auto simp: wf_raw_def)
  moreover have "language ?b = plus (language a)" by (simp add: language_def E lang_plus)
  moreover have "markers_cover ?b" if "markers_cover a"
    using that unfolding markers_cover_def by (fastforce simp: E)
  moreover have "trim ?b" if "trim a"
  proof -
    note t = trimmedD [OF that [unfolded trim_def]]
    have m: "s \<in> live (edges ?new) {?i} ?F" if "s \<in> live_of a" for s using that by (rule live_mono) (auto simp: E)
    show ?thesis unfolding trim_def trimmed_def using m t by (auto simp: E)
  qed
  ultimately show thesis using that [of ?b] by simp
qed

text \<open>The shortcut of \<open>weak_repeat\<close>: transitions to a final state are sent back to the initial state.\<close>

definition redirected :: "('s \<times> 'l \<times> 's) set \<Rightarrow> 's \<Rightarrow> 's set \<Rightarrow> ('s \<times> 'l \<times> 's) set" where
  "redirected E i F = {(p, l, if q \<in> F then i else q) |p l q. (p, l, q) \<in> E}"

lemma redirected_decompose:
  assumes "steps (redirected E i F) p w i" and "p \<notin> F" and "i \<notin> F" and ni: "\<And>p l. (p, l, i) \<notin> E"
  shows "p = i \<and> w = [] \<or> (\<exists>f\<in>F. \<exists>u ws. w = u @ concat ws \<and> steps E p u f \<and> set ws \<subseteq> lang E {i} F)"
  using assms(1,2)
proof (induction w arbitrary: p)
  case (Cons l w)
  then obtain q where q: "(p, l, q) \<in> E" "steps (redirected E i F) (if q \<in> F then i else q) w i"
    by (auto simp: redirected_def)
  show ?case
  proof (cases "q \<in> F")
    case True
    with q(2) Cons.IH [of i] assms(3) have "w = [] \<or> (\<exists>f\<in>F. \<exists>u ws. w = u @ concat ws \<and> steps E i u f \<and> set ws \<subseteq> lang E {i} F)"
      by auto
    then obtain ws where "w = concat ws" "set ws \<subseteq> lang E {i} F"
    proof (elim disjE bexE exE conjE)
      fix f u ws assume "f \<in> F" "w = u @ concat ws" "steps E i u f" "set ws \<subseteq> lang E {i} F"
      then have "w = concat (u # ws)" "set (u # ws) \<subseteq> lang E {i} F" by (auto simp: lang_def)
      then show thesis using that by blast
    qed (use that [of "[]"] in simp)
    moreover have "steps E p [l] q" using q(1) by simp
    ultimately show ?thesis using True by (intro disjI2 bexI [of _ q] exI [of _ "[l]"]) auto
  next
    case False
    with q Cons.IH [of q] ni obtain f u ws where "f \<in> F" "w = u @ concat ws" "steps E q u f" "set ws \<subseteq> lang E {i} F" by auto
    moreover from this q(1) have "steps E p (l # u) f" by auto
    ultimately show ?thesis by (intro disjI2 bexI [of _ f] exI [of _ "l # u"] exI [of _ ws]) auto
  qed
qed simp

lemma redirected_run:
  assumes "steps E p w f" "f \<in> F" "p \<notin> F" and nf: "\<And>p l q. p \<in> F \<Longrightarrow> (p, l, q) \<notin> E"
  shows "steps (redirected E i F) p w i"
  using assms(1,3)
proof (induction w arbitrary: p)
  case (Cons l w)
  then obtain r where r: "(p, l, r) \<in> E" "steps E r w f" by auto
  show ?case
  proof (cases "r \<in> F")
    case True
    then have "w = []" using r(2) nf by (cases w) auto
    then show ?thesis using r(1) True by (auto simp: redirected_def)
  next
    case False
    then have "(p, l, r) \<in> redirected E i F" using r(1) by (force simp: redirected_def)
    with Cons.IH [OF r(2) False] show ?thesis by auto
  qed
qed (use assms(2) in simp)

lemma redirected_path:
  assumes "steps E p w q" "q \<notin> F" and nf: "\<And>p l q. p \<in> F \<Longrightarrow> (p, l, q) \<notin> E"
  shows "steps (redirected E i F) p w q"
  using assms(1)
proof (induction w arbitrary: p)
  case (Cons l w)
  then obtain r where r: "(p, l, r) \<in> E" "steps E r w q" by auto
  then have "r \<notin> F" using nf assms(2) by (cases w) auto
  then have "(p, l, r) \<in> redirected E i F" using r(1) by (force simp: redirected_def)
  with Cons.IH [OF r(2)] show ?case by auto
qed simp

lemma trimmed_redirected:
  assumes t: "trimmed E {i} F" and "i \<notin> F" and nf: "\<And>p l q. p \<in> F \<Longrightarrow> (p, l, q) \<notin> E"
  shows "trimmed (redirected E i F) {i} {i}"
proof -
  have i: "i \<in> live (redirected E i F) {i} {i}" by (rule live_self) simp_all
  have s: "s \<in> live (redirected E i F) {i} {i}" if "s \<in> live E {i} F" "s \<notin> F" for s
  proof -
    from that(1) obtain u v f where "steps E i u s" "f \<in> F" "steps E s v f" by (elim liveE) auto
    with that(2) redirected_path [OF _ that(2) nf] redirected_run [OF _ _ that(2) nf] show ?thesis by (intro liveI [of i _ i]) auto
  qed
  have "p \<notin> F" if "(p, l, q) \<in> E" for p l q using that nf by blast
  with i s trimmedD(1,2) [OF t] have "p \<in> live (redirected E i F) {i} {i} \<and> q' \<in> live (redirected E i F) {i} {i}"
    if "(p, l, q) \<in> E" "q' = (if q \<in> F then i else q)" for p l q q' using that by (cases "q \<in> F") auto
  moreover have "\<exists>q. (p, l, q) \<in> E \<and> q' = (if q \<in> F then i else q)" if "(p, l, q') \<in> redirected E i F" for p l q'
    using that by (auto simp: redirected_def)
  ultimately show ?thesis unfolding trimmed_def using i by blast
qed

lemma lang_redirected:
  assumes "i \<notin> F" and ni: "\<And>p l. (p, l, i) \<notin> E" and nf: "\<And>p l q. p \<in> F \<Longrightarrow> (p, l, q) \<notin> E"
  shows "lang (redirected E i F) {i} {i} = star (lang E {i} F)"
proof (intro equalityI subsetI)
  fix w assume "w \<in> lang (redirected E i F) {i} {i}"
  then have "steps (redirected E i F) i w i" by (simp add: lang_def)
  from redirected_decompose [OF this assms(1,1) ni] consider "w = []"
    | f u ws where "f \<in> F" "w = u @ concat ws" "steps E i u f" "set ws \<subseteq> lang E {i} F" by auto
  then show "w \<in> star (lang E {i} F)"
  proof cases
    case 1
    then show ?thesis by (simp add: star_plus)
  next
    case (2 f u ws)
    then have "w = concat (u # ws)" "set (u # ws) \<subseteq> lang E {i} F" by (auto simp: lang_def)
    then show ?thesis unfolding star_def by blast
  qed
next
  fix w assume "w \<in> star (lang E {i} F)"
  then obtain ws where "w = concat ws" "set ws \<subseteq> lang E {i} F" by (auto simp: star_def)
  then have "steps (redirected E i F) i w i"
  proof (induction ws arbitrary: w)
    case (Cons v vs)
    then show ?case using redirected_run [of E i _ _ F i] nf assms(1) by (fastforce simp: lang_def steps_append)
  qed simp
  then show "w \<in> lang (redirected E i F) {i} {i}" by (simp add: lang_def)
qed

lemma nothing_after_final_spec:
  assumes "wf_raw n a"
  obtains b where "nothing_after_final a = Some b"
    and "b \<longleftrightarrow> (\<forall>p\<in>set (ra_final_states a). \<forall>l q. (p, l, q) \<notin> edges (ra_transitions a))"
proof -
  let ?ts = "ra_transitions a"
  note w = wf_rawD [OF assms]
  have "nothing_after_final a = Some (list_all (\<lambda>s. ?ts ! s = []) (ra_final_states a))"
    unfolding nothing_after_final_def using w(2) by (intro all_opt_Some) (auto simp: index_opt_nth subset_iff)
  moreover have "list_all (\<lambda>s. ?ts ! s = []) (ra_final_states a) \<longleftrightarrow>
      (\<forall>p\<in>set (ra_final_states a). \<forall>l q. (p, l, q) \<notin> edges ?ts)"
  proof -
    have "?ts ! p = [] \<longleftrightarrow> (\<forall>l q. (p, l, q) \<notin> edges ?ts)" if "p \<in> set (ra_final_states a)" for p
      using that w(2) by (cases "?ts ! p") (auto simp: edges_def)
    then show ?thesis by (simp add: list_all_iff)
  qed
  ultimately show thesis by (rule that)
qed

lemma edges_map_targets: "edges (map (map (\<lambda>(l, q). (l, g q))) ts) = {(p, l, g q) |p l q. (p, l, q) \<in> edges ts}"
  by (force simp: edges_def)

lemma length_kept:
  assumes "set fs \<subseteq> {..<n}" and "distinct fs" and "i \<notin> set fs"
  shows "length (filter (\<lambda>s. s \<notin> set fs \<or> s = i) [0..<n]) = n - length fs"
proof -
  have "length (filter (\<lambda>s. s \<notin> set fs \<or> s = i) [0..<n]) = card (set (filter (\<lambda>s. s \<notin> set fs \<or> s = i) [0..<n]))"
    by (simp only: distinct_card distinct_filter distinct_upt)
  also have "set (filter (\<lambda>s. s \<notin> set fs \<or> s = i) [0..<n]) = {..<n} - set fs" using assms(3) by auto
  also have "card ({..<n} - set fs) = n - length fs"
    using assms by (simp add: card_Diff_subset distinct_card)
  finally show ?thesis .
qed

theorem redirect_final_to_initial_spec:
  assumes wf: "wf_raw n a" and i: "ra_initial_state a \<notin> set (ra_final_states a)" "\<not> loop_on_initial a"
    and nf: "\<And>p l q. p \<in> set (ra_final_states a) \<Longrightarrow> (p, l, q) \<notin> edges (ra_transitions a)"
  obtains b where "redirect_final_to_initial a = Some b" and "wf_raw n b" and "language b = star (language a)"
    and "ra_complete b = ra_complete a" and "markers_cover b" and "trim a \<Longrightarrow> trim b"
proof -
  let ?ts = "ra_transitions a" and ?i = "ra_initial_state a" and ?F = "set (ra_final_states a)"
  define new_ts where "new_ts = map (map (\<lambda>(l, q). (l, if q \<in> ?F then ?i else q))) ?ts"
  define kept where "kept = filter (\<lambda>s. s \<notin> ?F \<or> s = ?i) [0..<length new_ts]"
  let ?f = "\<lambda>x. the (renaming_of kept x)"
  note w = wf_rawD [OF wf]
  have new: "edges new_ts = redirected (edges ?ts) ?i ?F" unfolding redirected_def new_ts_def by (rule edges_map_targets)
  have kept_props: "set kept = {..<length ?ts} - ?F" "length kept = length ?ts - length (ra_final_states a)" "distinct kept"
    using i(1) length_kept [OF w(2,3) i(1)] by (auto simp: kept_def new_ts_def)
  have mem: "p \<in> set kept \<and> q' \<in> set kept" if "(p, l, q') \<in> edges new_ts" for p l q'
  proof -
    from that obtain q where q: "(p, l, q) \<in> edges ?ts" "q' = (if q \<in> ?F then ?i else q)"
      unfolding new redirected_def by blast
    from wf_tableD [OF w(4) q(1)] nf [of p l q] q i(1) w(1) show ?thesis unfolding kept_props(1) by auto
  qed
  then have all: "restrict_edges (set kept) (edges new_ts) = edges new_ts" by (auto simp: restrict_edges_def)
  obtain ts' ms where r: "filter_map_transitions new_ts (renaming_of kept) (length kept) 0 = Some (ts', ms)"
    "length ts' = length kept" "edges ts' = (\<lambda>(p, l, q). (?f p, l, ?f q)) ` edges new_ts" "distinct ms"
    "set ms = {l_marker l |p l q. (p, l, q) \<in> edges new_ts}" "row_deterministic new_ts \<Longrightarrow> row_deterministic ts'"
    by (rule filter_map_renaming [OF kept_props(3), of new_ts, unfolded all]) blast
  have ik: "?i \<in> set kept" using i(1) w(1) unfolding kept_props(1) by simp
  from renaming_of_member [OF ik] obtain j where ren: "renaming_of kept ?i = Some j" "j < length kept" by blast
  let ?b = "\<lparr>ra_deterministic = ra_deterministic a, ra_complete = ra_complete a, ra_initial_state = j,
    ra_final_states = [j], ra_transitions = ts', ra_markers = ms\<rparr>"
  have le: "length (ra_final_states a) \<le> length ?ts"
    using card_mono [OF _ w(2)] by (simp add: distinct_card [OF w(3)])
  have eq: "redirect_final_to_initial a = Some ?b"
    using le r(1) ren(1) kept_props(2)
    unfolding redirect_final_to_initial_def Let_def new_ts_def [symmetric] kept_def [symmetric] by (simp add: new_ts_def)
  have len: "length new_ts = length ?ts" by (simp add: new_ts_def)
  have "wf_table n new_ts"
    unfolding wf_table_def new redirected_def len using wf_tableD [OF w(4)] w(1) by (auto split: if_splits)
  moreover have "?f p < length ts'" if "p \<in> set kept" for p using renaming_of_member [OF that] r(2) by simp
  ultimately have "wf_table n ts'" by (intro wf_table_image [of n new_ts ts' ?f "set kept"]) (simp_all only: r(3) all subset_refl)
  moreover have "row_deterministic new_ts" if "row_deterministic ?ts"
    using that by (auto simp: new_ts_def row_deterministic_def comp_def case_prod_unfold)
  ultimately have "wf_raw n ?b" using w(6) r(2,4,6) ren(2) by (auto simp: wf_raw_def)
  moreover have "language ?b = lang (edges new_ts) {?i} {?i}"
  proof -
    have "lang ((\<lambda>(p, l, q). (?f p, l, ?f q)) ` edges new_ts) (?f ` {?i}) (?f ` {?i}) = lang (edges new_ts) {?i} {?i}"
      by (rule lang_rename [OF renaming_of_inj_on mem]) (use ik in simp_all)
    then show ?thesis by (simp add: language_def r(3) ren(1))
  qed
  then have "language ?b = star (language a)"
    unfolding new by (subst (asm) lang_redirected) (use i nf in \<open>auto simp: language_def loop_on_initial_iff\<close>)
  moreover have "markers_cover ?b" by (force simp: markers_cover_def r(3,5))
  moreover have "trim ?b" if "trim a"
    using trimmed_image [OF trimmed_redirected [OF that [unfolded trim_def] i(1) nf], of ?f]
    by (simp add: trim_def r(3) new ren(1))
  ultimately show thesis using that [of ?b] eq by simp
qed

text \<open>An automaton that stops at its final states and starts in one of them accepts only the empty word.\<close>

lemma initial_not_final:
  assumes "\<forall>p\<in>set (ra_final_states a). \<forall>l q. (p, l, q) \<notin> edges (ra_transitions a)" and "language a \<noteq> {[]}"
  shows "ra_initial_state a \<notin> set (ra_final_states a)"
proof
  assume i: "ra_initial_state a \<in> set (ra_final_states a)"
  with assms(1) have "steps (edges (ra_transitions a)) (ra_initial_state a) u q \<longleftrightarrow> u = [] \<and> q = ra_initial_state a" for u q
    by (cases u) auto
  with i have "language a = {[]}" by (auto simp: language_def lang_def)
  with assms(2) show False ..
qed

theorem weak_repeat_spec:
  assumes wf: "wf_raw n a" and ne: "language a \<noteq> {[]}"
  obtains b where "weak_repeat a = Some b" and "wf_raw n b" and "language b = star (language a)"
    and "ra_complete b = ra_complete a" and "markers_cover a \<Longrightarrow> markers_cover b" and "trim a \<Longrightarrow> trim b"
proof -
  let ?E = "edges (ra_transitions a)" and ?i = "ra_initial_state a" and ?F = "set (ra_final_states a)"
  obtain na where na: "nothing_after_final a = Some na" "na \<longleftrightarrow> (\<forall>p\<in>?F. \<forall>l q. (p, l, q) \<notin> ?E)"
    using nothing_after_final_spec [OF wf] by blast
  show thesis
  proof (cases "na \<and> (\<not> loop_on_initial a \<or> ?i \<in> ?F)")
    case True
    have i: "?i \<notin> ?F" using initial_not_final [OF _ ne] True na(2) by blast
    obtain b where "redirect_final_to_initial a = Some b" "wf_raw n b" "language b = star (language a)"
      "ra_complete b = ra_complete a" "markers_cover b" "trim a \<Longrightarrow> trim b"
      using redirect_final_to_initial_spec [OF wf i] True na(2) i by blast
    then show thesis using that [of b] True na(1) by (simp add: weak_repeat_def)
  next
    case False
    obtain b where b: "strict_repeat a = Some b" "wf_raw n b" "language b = plus (language a)"
      "ra_complete b = ra_complete a" "markers_cover a \<Longrightarrow> markers_cover b" "trim a \<Longrightarrow> trim b" using strict_repeat_spec [OF wf] by blast
    obtain c where "make_optional b = Some c" "wf_raw n c" "language c = insert [] (language b)"
      "ra_complete c = ra_complete b" "markers_cover b \<Longrightarrow> markers_cover c" "trim b \<Longrightarrow> trim c" using make_optional_spec [OF b(2)] by blast
    with b show thesis using that [of c] False na(1) by (auto simp: weak_repeat_def star_plus)
  qed
qed

end
