(* ===== verification/Automaton_Power.thy ===== *)
theory Automaton_Power
  imports Automaton_Ops
begin

text \<open>
  The powerset construction: its loop returns, the result is deterministic, complete over the marked
  alphabet when asked for, and recognises the language of the input from the given initial states.
\<close>

section \<open>Encoding of letters\<close>

lemma encode_Some:
  assumes "l_marker l \<in> set ms"
  shows "\<exists>m<length ms. ms ! m = l_marker l \<and> encode l n ms = Some (m * n + unat (l_char l))"
proof -
  from assms obtain m where "position (\<lambda>m. m = l_marker l) ms = Some m"
    using position_None_iff [of "\<lambda>m. m = l_marker l" ms] by (cases "position (\<lambda>m. m = l_marker l) ms") auto
  with position_lt [OF this] position_holds [OF this] show ?thesis by (auto simp: encode_def)
qed

lemma decode_encode:
  assumes "encode l n ms = Some e" and "unat (l_char l) < n"
  shows "decode e n ms = Some l" and "e < encoding_bound n ms"
proof -
  from assms(1) obtain m where m: "position (\<lambda>m. m = l_marker l) ms = Some m" "e = m * n + unat (l_char l)"
    by (auto simp: encode_def)
  note pos = position_lt [OF m(1)] position_holds [OF m(1)]
  have "e div n = m" "e mod n = unat (l_char l)" using assms(2) by (simp_all add: m(2))
  then show "decode e n ms = Some l" using pos assms(2) by (simp add: decode_def index_opt_nth)
  have "e < Suc m * n" using assms(2) by (simp add: m(2))
  also have "\<dots> \<le> length ms * n" using pos(1) by (intro mult_right_mono) auto
  finally show "e < encoding_bound n ms" by (simp add: encoding_bound_def mult.commute)
qed

lemma encode_decode:
  assumes "e < encoding_bound n ms" and "distinct ms" and "n \<le> ALPHABET_MAX_SIZE"
  obtains l where "decode e n ms = Some l" and "encode l n ms = Some e" and "unat (l_char l) < n" and "l_marker l \<in> set ms"
proof -
  have n: "0 < n" using assms(1) by (cases n) (auto simp: encoding_bound_def)
  have d: "e div n < length ms" using assms(1) by (simp add: encoding_bound_def less_mult_imp_div_less mult.commute)
  have "e mod n < 256" using n assms(3) mod_less_divisor [OF n, of e] by (simp add: ALPHABET_MAX_SIZE_def)
  then have u: "unat (word_of_nat (e mod n) :: 8 word) = e mod n" by (simp add: unat_of_nat)
  let ?l = "\<lparr>l_char = word_of_nat (e mod n), l_marker = ms ! (e div n)\<rparr>"
  have "decode e n ms = Some ?l" using n d by (simp add: decode_def index_opt_nth)
  moreover have "encode ?l n ms = Some e" using position_eq_distinct [OF assms(2) d] u by (simp add: encode_def)
  ultimately show thesis using that [of ?l] u n d by simp
qed

section \<open>The successors of a set of states\<close>

abbreviation bits :: "bitset \<Rightarrow> nat set" where
  "bits b \<equiv> {s. s < length b \<and> b ! s}"

definition post :: "transition_table \<Rightarrow> nat set \<Rightarrow> letter \<Rightarrow> nat set" where
  "post ts S l = {q. \<exists>p\<in>S. (p, l, q) \<in> edges ts}"

text \<open>The successor map after the labelled targets \<open>D\<close> have been marked.\<close>

definition marked :: "nat \<Rightarrow> (letter \<Rightarrow> nat) \<Rightarrow> nat set \<Rightarrow> (letter \<times> nat) set \<Rightarrow> (nat \<times> bitset) list \<Rightarrow> bool" where
  "marked k enc K D succs \<longleftrightarrow>
     distinct (map fst succs) \<and> dom (map_of succs) = K \<union> {enc l |l q. (l, q) \<in> D} \<and>
     (\<forall>e b. map_of succs e = Some b \<longrightarrow> length b = k \<and> (\<forall>q<k. b ! q \<longleftrightarrow> (\<exists>l. (l, q) \<in> D \<and> enc l = e)))"

lemma marked_upd:
  assumes inv: "marked k enc K D succs" and "distinct (map fst succs')" and m: "map_of succs' = (map_of succs)(enc l \<mapsto> b)"
    and "length b = k" and "\<And>q'. q' < k \<Longrightarrow> b ! q' \<longleftrightarrow> q' = q \<or> (\<exists>l'. (l', q') \<in> D \<and> enc l' = enc l)"
  shows "marked k enc K (insert (l, q) D) succs'"
proof -
  have "dom (map_of succs') = K \<union> {enc l' |l' q'. (l', q') \<in> insert (l, q) D}"
    using inv unfolding m by (auto simp: marked_def)
  moreover have "length c = k \<and> (\<forall>q'<k. c ! q' \<longleftrightarrow> (\<exists>l'. (l', q') \<in> insert (l, q) D \<and> enc l' = e))"
    if "map_of succs' e = Some c" for e c
  proof (cases "e = enc l")
    case True
    with that m assms(4,5) show ?thesis by auto
  next
    case False
    with that m have "map_of succs e = Some c" by simp
    with inv False show ?thesis by (auto simp: marked_def)
  qed
  ultimately show ?thesis using assms(2) by (simp add: marked_def)
qed

lemma mark_successor_step:
  assumes inv: "marked k enc K D succs" and q: "q < k"
  shows "\<exists>succs'. mark_successor k (enc l) q succs = Some succs' \<and> marked k enc K (insert (l, q) D) succs'"
proof (cases "map_of succs (enc l)")
  case None
  let ?b = "(replicate k False)[q := True]" and ?s = "succs @ [(enc l, (replicate k False)[q := True])]"
  have "mark_successor k (enc l) q succs = Some ?s" using None q by (simp add: mark_successor_def bit_set_def)
  moreover have "marked k enc K (insert (l, q) D) ?s"
  proof (rule marked_upd [OF inv])
    show "distinct (map fst ?s)" using inv None by (auto simp: marked_def map_of_eq_None_iff)
    show "map_of ?s = (map_of succs)(enc l \<mapsto> ?b)" using None by (auto simp: map_add_def split: option.splits)
    have "\<not> (\<exists>l'. (l', q') \<in> D \<and> enc l' = enc l)" for q'
    proof -
      have "enc l \<notin> K \<union> {enc l |l q. (l, q) \<in> D}" using inv None by (auto simp: marked_def)
      then show ?thesis by simp metis
    qed
    then show "?b ! q' \<longleftrightarrow> q' = q \<or> (\<exists>l'. (l', q') \<in> D \<and> enc l' = enc l)" if "q' < k" for q'
      using that q by (auto simp: nth_list_update)
  qed simp
  ultimately show ?thesis by blast
next
  case (Some b)
  then have b: "length b = k" "\<And>q'. q' < k \<Longrightarrow> b ! q' \<longleftrightarrow> (\<exists>l'. (l', q') \<in> D \<and> enc l' = enc l)"
    using inv by (auto simp: marked_def)
  let ?s = "AList.update (enc l) (b[q := True]) succs"
  have "mark_successor k (enc l) q succs = Some ?s" using Some q b(1) by (simp add: mark_successor_def bit_set_def)
  moreover have "marked k enc K (insert (l, q) D) ?s"
    by (rule marked_upd [OF inv, of _ _ "b[q := True]"])
      (use inv b q in \<open>auto simp: marked_def distinct_update update_conv' nth_list_update\<close>)
  ultimately show ?thesis by blast
qed

text \<open>The two nested loops over the states of the set and their transitions.\<close>

lemma fold_mark_row:
  assumes "marked k enc K D succs" and "\<And>l q. (l, q) \<in> set row \<Longrightarrow> q < k \<and> encode l n ms = Some (enc l)"
  shows "\<exists>succs'. fold_opt (\<lambda>(letter, target) succs. Option.bind (encode letter n ms) (\<lambda>e. mark_successor k e target succs)) row succs =
      Some succs' \<and> marked k enc K (D \<union> set row) succs'"
  using assms
proof (induction row arbitrary: D succs)
  case (Cons x row)
  obtain l q where x: "x = (l, q)" by fastforce
  have lq: "q < k" "encode l n ms = Some (enc l)" using Cons.prems(2) by (auto simp: x)
  obtain s1 where s1: "mark_successor k (enc l) q succs = Some s1" "marked k enc K (insert (l, q) D) s1"
    using mark_successor_step [OF Cons.prems(1) lq(1)] by blast
  have "q' < k \<and> encode l' n ms = Some (enc l')" if "(l', q') \<in> set row" for l' q'
    using Cons.prems(2) [of l' q'] that by simp
  from Cons.IH [OF s1(2) this] s1(1) lq(2) show ?case by (simp add: x)
qed simp

lemma fold_mark_rows:
  assumes "marked k enc K D succs" and "set ss \<subseteq> {..<length ts}"
    and "\<forall>(p, l, q)\<in>edges ts. q < k \<and> encode l n ms = Some (enc l)"
  shows "\<exists>succs'. fold_opt (\<lambda>source succs. Option.bind (index_opt ts source) (\<lambda>row.
        fold_opt (\<lambda>(letter, target) succs. Option.bind (encode letter n ms) (\<lambda>e. mark_successor k e target succs)) row succs)) ss succs =
      Some succs' \<and> marked k enc K (D \<union> {x. \<exists>p\<in>set ss. (p, x) \<in> edges ts}) succs'"
  using assms(1,2)
proof (induction ss arbitrary: D succs)
  case (Cons s ss)
  have s: "s < length ts" using Cons.prems(2) by simp
  have "\<And>l q. (l, q) \<in> set (ts ! s) \<Longrightarrow> q < k \<and> encode l n ms = Some (enc l)"
    using assms(3) s by (auto simp: edges_def)
  from fold_mark_row [OF Cons.prems(1) this] obtain s1 where s1:
    "fold_opt (\<lambda>(letter, target) succs. Option.bind (encode letter n ms) (\<lambda>e. mark_successor k e target succs)) (ts ! s) succs = Some s1"
    "marked k enc K (D \<union> set (ts ! s)) s1" by blast
  have "D \<union> set (ts ! s) \<union> {x. \<exists>p\<in>set ss. (p, x) \<in> edges ts} = D \<union> {x. \<exists>p\<in>set (s # ss). (p, x) \<in> edges ts}"
    using s by (auto simp: edges_def)
  with Cons.IH [OF s1(2)] Cons.prems(2) s1(1) s show ?case by (simp add: index_opt_nth)
qed simp

lemma marked_initial: "marked k enc {..<m} {} (map (\<lambda>i. (i, replicate k False)) [0..<m])" "marked k enc {} {} []"
proof -
  have "map_of (map (\<lambda>i. (i, replicate k False)) [0..<m]) e = (if e < m then Some (replicate k False) else None)" for e
    by (auto simp: map_of_eq_None_iff map_of_eq_Some_iff comp_def image_iff)
  then show "marked k enc {..<m} {} (map (\<lambda>i. (i, replicate k False)) [0..<m])"
    by (auto simp: marked_def comp_def dom_def split: if_splits)
qed (simp add: marked_def)

text \<open>The automata the construction runs on.\<close>

definition power_ok :: "raw_automaton \<times> bool \<times> nat \<Rightarrow> bool" where
  "power_ok p \<longleftrightarrow> (case p of (a, completion, n) \<Rightarrow> wf_raw n a \<and> markers_cover a \<and> n \<le> ALPHABET_MAX_SIZE)"

text \<open>The letters over which the completed automaton is total.\<close>

definition marked_letters :: "nat \<Rightarrow> nat set \<Rightarrow> letter set" where
  "marked_letters n M = {l. unat (l_char l) < n \<and> l_marker l \<in> M}"

definition power_letter :: "raw_automaton \<Rightarrow> bool \<Rightarrow> nat \<Rightarrow> nat set \<Rightarrow> letter set" where
  "power_letter a completion n S =
     {l. post (ra_transitions a) S l \<noteq> {} \<or> completion \<and> l \<in> marked_letters n (set (ra_markers a))}"

definition letter_code :: "raw_automaton \<Rightarrow> nat \<Rightarrow> letter \<Rightarrow> nat" where
  "letter_code a n l = the (encode l n (ra_markers a))"

definition power_targets :: "raw_automaton \<Rightarrow> nat set \<Rightarrow> (letter \<times> nat) set" where
  "power_targets a S = {x. \<exists>p\<in>S. (p, x) \<in> edges (ra_transitions a)}"

abbreviation completed_keys :: "raw_automaton \<Rightarrow> bool \<Rightarrow> nat \<Rightarrow> nat set" where
  "completed_keys a completion n \<equiv> (if completion then {..<encoding_bound n (ra_markers a)} else {})"

lemma power_edge:
  assumes ok: "power_ok (a, completion, n)" and e: "(p, l, q) \<in> edges (ra_transitions a)"
  shows "q < length (ra_transitions a)" "encode l n (ra_markers a) = Some (letter_code a n l)"
    "unat (l_char l) < n" "l_marker l \<in> set (ra_markers a)"
proof -
  have wf: "wf_raw n a" using ok by (simp add: power_ok_def)
  from wf_tableD [OF wf_rawD(4) [OF wf] e] show "q < length (ra_transitions a)" "unat (l_char l) < n" by auto
  show m: "l_marker l \<in> set (ra_markers a)" using ok e by (auto simp: power_ok_def markers_cover_def)
  from encode_Some [OF m, of n] show "encode l n (ra_markers a) = Some (letter_code a n l)" by (auto simp: letter_code_def)
qed

lemma power_successors_marked:
  assumes ok: "power_ok (a, completion, n)" and len: "length ps = length (ra_transitions a)"
  obtains succs where "power_successors a completion n ps = Some succs"
    and "marked (length (ra_transitions a)) (letter_code a n) (completed_keys a completion n) (power_targets a (bits ps)) succs"
proof -
  let ?ts = "ra_transitions a" and ?ms = "ra_markers a" and ?N = "length (ra_transitions a)"
  let ?ini = "if completion then map (\<lambda>i. (i, replicate ?N False)) [0..<encoding_bound n ?ms] else []"
  let ?ss = "filter (\<lambda>s. ps ! s) [0..<length ps]"
  have ini: "marked ?N (letter_code a n) (completed_keys a completion n) {} ?ini" using marked_initial by simp
  have ss: "set ?ss \<subseteq> {..<?N}" using len by auto
  have "{} \<union> {x. \<exists>p\<in>set ?ss. (p, x) \<in> edges ?ts} = power_targets a (bits ps)" by (auto simp: power_targets_def)
  moreover have "\<forall>(p, l, q)\<in>edges ?ts. q < ?N \<and> encode l n ?ms = Some (letter_code a n l)"
    using power_edge(1,2) [OF ok] by blast
  note fold_mark_rows [OF ini ss this]
  ultimately show thesis using that unfolding power_successors_def Let_def by auto
qed

lemma power_key:
  assumes ok: "power_ok (a, completion, n)"
    and inv: "marked (length (ra_transitions a)) (letter_code a n) (completed_keys a completion n) (power_targets a S) succs"
    and et: "map_of succs e = Some t"
  obtains l where "decode e n (ra_markers a) = Some l" and "letter_code a n l = e" and "l \<in> marked_letters n (set (ra_markers a))"
    and "l \<in> power_letter a completion n S" and "length t = length (ra_transitions a)" and "bits t = post (ra_transitions a) S l"
proof -
  let ?ts = "ra_transitions a" and ?ms = "ra_markers a" and ?D = "power_targets a S"
  have wf: "wf_raw n a" and n: "n \<le> ALPHABET_MAX_SIZE" using ok by (auto simp: power_ok_def)
  have D: "encode l n ?ms = Some (letter_code a n l) \<and> unat (l_char l) < n" if "(l, q) \<in> ?D" for l q
    using that power_edge [OF ok] by (auto simp: power_targets_def)
  have Db: "letter_code a n l < encoding_bound n ?ms" if "(l, q) \<in> ?D" for l q
    using decode_encode(2) [of l n ?ms] D [OF that] by blast
  have dom: "e \<in> completed_keys a completion n \<union> {letter_code a n l |l q. (l, q) \<in> ?D}"
    using inv domI [of "map_of succs", OF et] unfolding marked_def by blast
  then have "e < encoding_bound n ?ms" using Db by (auto split: if_splits)
  from encode_decode [OF this wf_rawD(5) [OF wf] n] obtain l where l: "decode e n ?ms = Some l" "encode l n ?ms = Some e"
    "unat (l_char l) < n" "l_marker l \<in> set ?ms" by blast
  have inj: "l' = l" if "(l', q) \<in> ?D" "letter_code a n l' = e" for l' q
    using decode_encode(1) [of l' n ?ms e] D [OF that(1)] that(2) l(1) by simp
  have e: "letter_code a n l = e" using l(2) by (simp add: letter_code_def)
  have t: "length t = length ?ts" "\<And>q. q < length ?ts \<Longrightarrow> t ! q \<longleftrightarrow> (\<exists>l'. (l', q) \<in> ?D \<and> letter_code a n l' = e)"
    using inv et by (auto simp: marked_def)
  have Dq: "q < length ?ts" if "(l, q) \<in> ?D" for l q using that power_edge(1) [OF ok] by (auto simp: power_targets_def)
  have postD: "post ?ts S l = {q. (l, q) \<in> ?D}" by (auto simp: post_def power_targets_def)
  have "(\<exists>l'. (l', q) \<in> ?D \<and> letter_code a n l' = e) \<longleftrightarrow> (l, q) \<in> ?D" for q using inj e by blast
  then have "bits t = post ?ts S l" unfolding postD using t Dq by auto
  moreover have "l \<in> power_letter a completion n S"
  proof (cases completion)
    case True
    with l show ?thesis by (simp add: power_letter_def marked_letters_def)
  next
    case False
    with dom obtain l' q where "(l', q) \<in> ?D" "letter_code a n l' = e" by auto
    with inj have "(l, q) \<in> ?D" by blast
    then show ?thesis by (auto simp: power_letter_def postD)
  qed
  ultimately show thesis using that l e t(1) by (simp add: marked_letters_def)
qed

text \<open>The transitions that leave a set of states in the powerset automaton.\<close>

definition power_new :: "raw_automaton \<times> bool \<times> nat \<Rightarrow> bitset \<Rightarrow> (bitset \<times> letter \<times> bitset) list" where
  "power_new p ps = (case p of (a, completion, n) \<Rightarrow>
     map (\<lambda>(e, target). (ps, the (decode e n (ra_markers a)), target)) (the (power_successors a completion n ps)))"

definition power_succ :: "raw_automaton \<times> bool \<times> nat \<Rightarrow> bitset \<Rightarrow> bitset list" where
  "power_succ p ps = map (\<lambda>(_, _, target). target) (power_new p ps)"

definition power_edges :: "raw_automaton \<times> bool \<times> nat \<Rightarrow> (bitset \<times> letter \<times> bitset) set" where
  "power_edges p = (case p of (a, completion, n) \<Rightarrow>
     {(ps, l, t). length ps = length (ra_transitions a) \<and> length t = length (ra_transitions a) \<and>
        l \<in> power_letter a completion n (bits ps) \<and> bits t = post (ra_transitions a) (bits ps) l})"

definition power_final :: "raw_automaton \<Rightarrow> bitset \<Rightarrow> bool" where
  "power_final a ps \<longleftrightarrow> bits ps \<inter> set (ra_final_states a) \<noteq> {}"

lemma bits_inj: "length b = length c \<Longrightarrow> bits b = bits c \<Longrightarrow> b = c"
  by (rule nth_equalityI) auto

lemma those_map_Some_all: "(\<And>x. x \<in> set xs \<Longrightarrow> f x = Some (g x)) \<Longrightarrow> those (map f xs) = Some (map g xs)"
  by (induction xs) auto

lemma power_decoded:
  assumes ok: "power_ok (a, completion, n)" and len: "length ps = length (ra_transitions a)"
  obtains succs where "power_successors a completion n ps = Some succs" and "distinct (map fst succs)"
    and "marked (length (ra_transitions a)) (letter_code a n) (completed_keys a completion n) (power_targets a (bits ps)) succs"
    and "\<forall>e\<in>fst ` set succs. \<exists>l. decode e n (ra_markers a) = Some l \<and> letter_code a n l = e"
    and "power_new (a, completion, n) ps = map (\<lambda>(e, target). (ps, the (decode e n (ra_markers a)), target)) succs"
proof -
  obtain succs where succs: "power_successors a completion n ps = Some succs"
    and inv: "marked (length (ra_transitions a)) (letter_code a n) (completed_keys a completion n) (power_targets a (bits ps)) succs"
    by (rule power_successors_marked [OF ok len])
  have d: "distinct (map fst succs)" using inv by (simp add: marked_def)
  have "\<exists>l. decode e n (ra_markers a) = Some l \<and> letter_code a n l = e" if "e \<in> fst ` set succs" for e
  proof -
    from that obtain t where "map_of succs e = Some t" using map_of_eq_Some_iff [OF d] by force
    then show ?thesis by (rule power_key [OF ok inv]) simp
  qed
  then show thesis using that [OF succs d inv] by (simp add: power_new_def succs)
qed

lemma power_new_distinct:
  assumes ok: "power_ok (a, completion, n)" and len: "length ps = length (ra_transitions a)"
  shows "distinct (map (\<lambda>(s, l, t). (s, l)) (power_new (a, completion, n) ps))"
proof -
  let ?dec = "\<lambda>e. the (decode e n (ra_markers a))"
  obtain succs where d: "distinct (map fst succs)"
    and dec: "\<forall>e\<in>fst ` set succs. \<exists>l. decode e n (ra_markers a) = Some l \<and> letter_code a n l = e"
    and new: "power_new (a, completion, n) ps = map (\<lambda>(e, target). (ps, ?dec e, target)) succs"
    by (rule power_decoded [OF ok len])
  have "inj_on ?dec (fst ` set succs)"
    by (rule inj_on_inverseI [where g = "letter_code a n"]) (use dec in fastforce)
  then have "distinct (map ?dec (map fst succs))" using d by (simp add: distinct_map comp_inj_on)
  then have "distinct (map (Pair ps) (map ?dec (map fst succs)))" by (simp add: distinct_map inj_on_def)
  then show ?thesis by (simp add: new comp_def case_prod_unfold)
qed

lemma visit_power_spec:
  assumes ok: "power_ok (a, completion, n)" and len: "length ps = length (ra_transitions a)"
  shows "visit_power (a, completion, n) ps (c, fs, trs) =
      Some ((c + 1, if power_final a ps then hash_insert c fs else fs, trs @ power_new (a, completion, n) ps),
            power_succ (a, completion, n) ps)"
proof -
  let ?ms = "ra_markers a" and ?dec = "\<lambda>e. the (decode e n (ra_markers a))"
  have wf: "wf_raw n a" using ok by (simp add: power_ok_def)
  obtain succs where succs: "power_successors a completion n ps = Some succs"
    and dec: "\<forall>e\<in>fst ` set succs. \<exists>l. decode e n ?ms = Some l \<and> letter_code a n l = e"
    and new: "power_new (a, completion, n) ps = map (\<lambda>(e, target). (ps, ?dec e, target)) succs"
    by (rule power_decoded [OF ok len])
  have those: "those (map (\<lambda>(e, target). map_option (\<lambda>letter. (ps, letter, target)) (decode e n ?ms)) succs) =
      Some (map (\<lambda>(e, target). (ps, ?dec e, target)) succs)"
  proof (rule those_map_Some_all)
    fix x assume x: "x \<in> set succs"
    obtain e t where et: "x = (e, t)" by fastforce
    have "e \<in> fst ` set succs" using x et by force
    then obtain l where "decode e n ?ms = Some l" using dec by blast
    then show "(case x of (e, target) \<Rightarrow> map_option (\<lambda>letter. (ps, letter, target)) (decode e n ?ms)) =
        Some (case x of (e, target) \<Rightarrow> (ps, ?dec e, target))" by (simp add: et)
  qed
  have "all_opt (\<lambda>s. map_option Not (index_opt ps s)) (ra_final_states a) = Some (list_all (\<lambda>s. \<not> ps ! s) (ra_final_states a))"
    using wf_rawD(2) [OF wf] len by (intro all_opt_Some) (auto simp: index_opt_nth)
  moreover have "list_all (\<lambda>s. \<not> ps ! s) (ra_final_states a) \<longleftrightarrow> \<not> power_final a ps"
    using wf_rawD(2) [OF wf] len by (auto simp: list_all_iff power_final_def)
  ultimately show ?thesis
    using those by (auto simp: visit_power_def succs new power_succ_def comp_def case_prod_unfold)
qed

lemma power_new_edges:
  assumes ok: "power_ok (a, completion, n)" and len: "length ps = length (ra_transitions a)"
  shows "set (power_new (a, completion, n) ps) = {e \<in> power_edges (a, completion, n). fst e = ps}"
proof -
  let ?ts = "ra_transitions a" and ?ms = "ra_markers a" and ?p = "(a, completion, n)"
  let ?dec = "\<lambda>e. the (decode e n (ra_markers a))"
  obtain succs where d: "distinct (map fst succs)"
    and inv: "marked (length ?ts) (letter_code a n) (completed_keys a completion n) (power_targets a (bits ps)) succs"
    and new: "power_new ?p ps = map (\<lambda>(e, target). (ps, ?dec e, target)) succs"
    by (rule power_decoded [OF ok len])
  note key = power_key [OF ok inv]
  show ?thesis
  proof (intro equalityI subsetI)
    fix x assume "x \<in> set (power_new ?p ps)"
    then obtain e t where x: "x = (ps, ?dec e, t)" and "map_of succs e = Some t"
      using map_of_eq_Some_iff [OF d] by (auto simp: new)
    from this(2) show "x \<in> {e \<in> power_edges ?p. fst e = ps}"
      by (rule key) (simp add: x power_edges_def len)
  next
    fix x assume "x \<in> {e \<in> power_edges ?p. fst e = ps}"
    then obtain l t where x: "x = (ps, l, t)" "length t = length ?ts" "l \<in> power_letter a completion n (bits ps)"
      "bits t = post ?ts (bits ps) l" by (auto simp: power_edges_def)
    have l: "l \<in> marked_letters n (set ?ms)"
      using x(3) power_edge [OF ok] by (auto simp: power_letter_def post_def marked_letters_def)
    then have enc: "encode l n ?ms = Some (letter_code a n l)"
      using encode_Some [of l ?ms n] by (auto simp: marked_letters_def letter_code_def)
    have "letter_code a n l \<in> dom (map_of succs)"
    proof (cases "post ?ts (bits ps) l = {}")
      case False
      then show ?thesis using inv by (force simp: marked_def post_def power_targets_def)
    next
      case True
      then have completion using x(3) by (simp add: power_letter_def)
      moreover have "letter_code a n l < encoding_bound n ?ms"
        using decode_encode(2) [OF enc] l by (simp add: marked_letters_def)
      ultimately show ?thesis using inv by (simp add: marked_def)
    qed
    then obtain t' where t': "map_of succs (letter_code a n l) = Some t'" by blast
    from t' show "x \<in> set (power_new ?p ps)"
    proof (rule key)
      fix l' assume k: "decode (letter_code a n l) n ?ms = Some l'" "length t' = length ?ts" "bits t' = post ?ts (bits ps) l'"
      have "l' = l" using k(1) decode_encode(1) [OF enc] l by (simp add: marked_letters_def)
      then have "t' = t" using k x by (intro bits_inj) simp_all
      with t' k(1) \<open>l' = l\<close> show ?thesis by (force simp: new x dest: map_of_SomeD)
    qed
  qed
qed

interpretation power: worklist visit_power power_succ power_ok "\<lambda>p. {b. length b = length (ra_transitions (fst p))}"
proof
  fix p :: "raw_automaton \<times> bool \<times> nat" and ps :: bitset and acc :: power_acc
  assume ok: "power_ok p"
  show "finite {b :: bitset. length b = length (ra_transitions (fst p))}" by (rule finite_list_length) 
  obtain a completion n c fs trs where p: "p = (a, completion, n)" "acc = (c, fs, trs)" by (metis prod_cases3)
  assume "ps \<in> {b. length b = length (ra_transitions (fst p))}"
  then have len: "length ps = length (ra_transitions a)" by (simp add: p)
  from visit_power_spec [OF ok [unfolded p] len] show "\<exists>acc'. visit_power p ps acc = Some (acc', power_succ p ps)" by (auto simp: p)
  from power_new_edges [OF ok [unfolded p] len]
  show "set (power_succ p ps) \<subseteq> {b. length b = length (ra_transitions (fst p))}" by (auto simp: power_succ_def p power_edges_def)
qed

section \<open>Correctness of the construction\<close>

lemma steps_restrict_closed:
  assumes "\<And>p l q. (p, l, q) \<in> E \<Longrightarrow> p \<in> S \<Longrightarrow> q \<in> S" and "p \<in> S"
  shows "steps (restrict_edges S E) p w q \<longleftrightarrow> steps E p w q"
  using assms(2) by (induction w arbitrary: p) (auto simp: restrict_edges_def dest: assms(1))

lemma fold_visit_power:
  assumes ok: "power_ok (a, completion, n)" and "\<forall>b\<in>set vs. length b = length (ra_transitions a)" and "distinct fs"
  shows "\<exists>fs'. fold (\<lambda>s acc. fst (the (visit_power (a, completion, n) s acc))) vs (c, fs, trs) =
      (c + length vs, fs', trs @ concat (map (power_new (a, completion, n)) vs)) \<and>
    set fs' = set fs \<union> {c + i |i. i < length vs \<and> power_final a (vs ! i)} \<and> distinct fs'"
  using assms(2,3)
proof (induction vs arbitrary: c fs trs)
  case (Cons b vs)
  let ?fs = "if power_final a b then hash_insert c fs else fs"
  have "fst (the (visit_power (a, completion, n) b (c, fs, trs))) = (Suc c, ?fs, trs @ power_new (a, completion, n) b)"
    using visit_power_spec [OF ok, of b c fs trs] Cons.prems by simp
  moreover have "\<forall>b\<in>set vs. length b = length (ra_transitions a)" "distinct ?fs" using Cons.prems by auto
  from Cons.IH [OF this, of "Suc c" "trs @ power_new (a, completion, n) b"] obtain fs' where
    "fold (\<lambda>s acc. fst (the (visit_power (a, completion, n) s acc))) vs (Suc c, ?fs, trs @ power_new (a, completion, n) b) =
      (Suc c + length vs, fs', (trs @ power_new (a, completion, n) b) @ concat (map (power_new (a, completion, n)) vs))"
    "set fs' = set ?fs \<union> {Suc c + i |i. i < length vs \<and> power_final a (vs ! i)}" "distinct fs'"
    by blast
  moreover have "{c + i |i. i < length (b # vs) \<and> power_final a ((b # vs) ! i)} =
      {c |x. power_final a b} \<union> {Suc c + i |i. i < length vs \<and> power_final a (vs ! i)}"
    by (force simp: less_Suc_eq_0_disj)
  ultimately show ?case by (intro exI [of _ fs']) auto
qed simp

lemma power_lang:
  assumes ok: "power_ok (a, completion, n)" and "length ps = length (ra_transitions a)"
  shows "(\<exists>t. steps (power_edges (a, completion, n)) ps w t \<and> power_final a t) \<longleftrightarrow>
    (\<exists>p\<in>bits ps. \<exists>q\<in>set (ra_final_states a). steps (edges (ra_transitions a)) p w q)"
  using assms(2)
proof (induction w arbitrary: ps)
  case Nil
  then show ?case by (auto simp: power_final_def)
next
  case (Cons l w)
  let ?ts = "ra_transitions a" and ?P = "power_edges (a, completion, n)" and ?F = "set (ra_final_states a)"
  define t0 where "t0 = map (\<lambda>q. q \<in> post ?ts (bits ps) l) [0..<length ?ts]"
  have "post ?ts (bits ps) l \<subseteq> {..<length ?ts}" using power_edge(1) [OF ok] by (auto simp: post_def)
  then have bt: "bits t0 = post ?ts (bits ps) l" "length t0 = length ?ts" by (auto simp: t0_def)
  have t: "(ps, l, t) \<in> ?P \<longleftrightarrow> l \<in> power_letter a completion n (bits ps) \<and> t = t0" for t
  proof -
    have "t = t0" if "length t = length ?ts" "bits t = post ?ts (bits ps) l"
      using that bt by (intro bits_inj) simp_all
    then have "length t = length ?ts \<and> bits t = post ?ts (bits ps) l \<longleftrightarrow> t = t0" using bt by blast
    then show ?thesis using Cons.prems by (auto simp: power_edges_def)
  qed
  have "(\<exists>t. steps ?P ps (l # w) t \<and> power_final a t) \<longleftrightarrow>
      l \<in> power_letter a completion n (bits ps) \<and> (\<exists>t. steps ?P t0 w t \<and> power_final a t)" by (auto simp: t)
  also have "\<dots> \<longleftrightarrow> l \<in> power_letter a completion n (bits ps) \<and> (\<exists>p\<in>post ?ts (bits ps) l. \<exists>q\<in>?F. steps (edges ?ts) p w q)"
    unfolding Cons.IH [OF bt(2)] bt(1) by (rule refl)
  also have "\<dots> \<longleftrightarrow> (\<exists>p\<in>post ?ts (bits ps) l. \<exists>q\<in>?F. steps (edges ?ts) p w q)" by (auto simp: power_letter_def)
  also have "\<dots> \<longleftrightarrow> (\<exists>p\<in>bits ps. \<exists>q\<in>?F. steps (edges ?ts) p (l # w) q)" by (auto simp: post_def)
  finally show ?case .
qed

lemma fold_bit_set:
  "set is \<subseteq> {..<length b} \<Longrightarrow>
   \<exists>b'. fold_opt bit_set is b = Some b' \<and> length b' = length b \<and> (\<forall>s<length b. b' ! s \<longleftrightarrow> b ! s \<or> s \<in> set is)"
proof (induction "is" arbitrary: b)
  case (Cons i "is")
  from Cons.IH [of "b[i := True]"] Cons.prems obtain b' where "fold_opt bit_set is (b[i := True]) = Some b'"
    "length b' = length b" "\<forall>s<length b. b' ! s \<longleftrightarrow> b[i := True] ! s \<or> s \<in> set is" by auto
  moreover have "bit_set i b = Some (b[i := True])" using Cons.prems by (simp add: bit_set_def)
  ultimately show ?case using Cons.prems by (intro exI [of _ b']) (auto simp: nth_list_update)
qed simp

lemma distinct_concat_sources:
  assumes "distinct vs" and "\<And>b. b \<in> set vs \<Longrightarrow> distinct (map f (g b)) \<and> (\<forall>e\<in>set (g b). fst (f e) = b)"
  shows "distinct (map f (concat (map g vs)))"
  using assms
proof (induction vs)
  case (Cons b vs)
  have "f ` set (g b) \<inter> f ` set (concat (map g vs)) = {}"
  proof (rule equals0I)
    fix x assume "x \<in> f ` set (g b) \<inter> f ` set (concat (map g vs))"
    then obtain c e e' where "c \<in> set vs" "e \<in> set (g b)" "e' \<in> set (g c)" "x = f e" "x = f e'" by auto
    with Cons.prems(2) [of b] Cons.prems(2) [of c] Cons.prems(1) show False by auto
  qed
  moreover have "distinct (map f (concat (map g vs)))" using Cons.prems by (intro Cons.IH) auto
  ultimately show ?case using Cons.prems(2) [of b] by simp
qed simp

text \<open>The part of the powerset automaton that the loop builds.\<close>

lemma power_explored:
  assumes ok: "power_ok (a, completion, n)" and len: "length ps0 = length (ra_transitions a)"
  obtains vs fs trs where "explore (visit_power (a, completion, n)) [] (0, [], []) [ps0] = Some (ps0 # vs, Suc (length vs), fs, trs)"
    and "distinct (ps0 # vs)" and "\<forall>b\<in>set (ps0 # vs). length b = length (ra_transitions a)"
    and "set trs = restrict_edges (set (ps0 # vs)) (power_edges (a, completion, n))"
    and "\<forall>(b, l, t)\<in>power_edges (a, completion, n). b \<in> set (ps0 # vs) \<longrightarrow> t \<in> set (ps0 # vs)"
    and "distinct (map (\<lambda>(s, l, t). (s, l)) trs)"
    and "set fs = {i. i < length (ps0 # vs) \<and> power_final a ((ps0 # vs) ! i)}" and "distinct fs"
    and "\<forall>s\<in>set (ps0 # vs). \<exists>w. steps (power_edges (a, completion, n)) ps0 w s"
proof -
  let ?p = "(a, completion, n)"
  from power.explore_from [OF ok, of ps0 "(0, [], [])"] len obtain vs where
    vs: "explore (visit_power ?p) [] (0, [], []) [ps0] =
      Some (ps0 # vs, fold (\<lambda>s a. fst (the (visit_power ?p s a))) (ps0 # vs) (0, [], []))"
    and d: "distinct (ps0 # vs)" and l: "\<forall>b\<in>set (ps0 # vs). length b = length (ra_transitions a)"
    and reach: "set (ps0 # vs) = (successors_rel (power_succ ?p))\<^sup>* `` {ps0}" by auto
  from fold_visit_power [OF ok l, of "[]" 0 "[]"] obtain fs where
    fs: "fold (\<lambda>s acc. fst (the (visit_power ?p s acc))) (ps0 # vs) (0, [], []) =
      (0 + length (ps0 # vs), fs, [] @ concat (map (power_new ?p) (ps0 # vs)))"
      "set fs = set [] \<union> {0 + i |i. i < length (ps0 # vs) \<and> power_final a ((ps0 # vs) ! i)}" "distinct fs"
    using distinct.simps(1) by blast
  let ?trs = "concat (map (power_new ?p) (ps0 # vs))"
  note new = power_new_edges [OF ok]
  have closed: "t \<in> set (ps0 # vs)" if "(b, l, t) \<in> power_edges ?p" "b \<in> set (ps0 # vs)" for b l t
  proof -
    have "(b, l, t) \<in> set (power_new ?p b)" using that new [of b] l by auto
    then have "(b, t) \<in> successors_rel (power_succ ?p)" by (force simp: successors_rel_def power_succ_def)
    with that(2) show ?thesis unfolding reach by (auto intro: rtrancl_into_rtrancl)
  qed
  have "set ?trs = {e \<in> power_edges ?p. fst e \<in> set (ps0 # vs)}" using new l by auto
  also have "\<dots> = restrict_edges (set (ps0 # vs)) (power_edges ?p)"
    unfolding restrict_edges_def using closed by fastforce
  finally have trs: "set ?trs = restrict_edges (set (ps0 # vs)) (power_edges ?p)" .
  moreover have "distinct (map (\<lambda>(s, l, t). (s, l)) ?trs)"
  proof (rule distinct_concat_sources [OF d])
    fix b assume "b \<in> set (ps0 # vs)"
    then have "length b = length (ra_transitions a)" using l by blast
    from new [OF this] power_new_distinct [OF ok this]
    show "distinct (map (\<lambda>(s, l, t). (s, l)) (power_new ?p b)) \<and>
        (\<forall>e\<in>set (power_new ?p b). fst (case e of (s, l, t) \<Rightarrow> (s, l)) = b)" by auto
  qed
  moreover have "\<forall>(b, l, t)\<in>power_edges ?p. b \<in> set (ps0 # vs) \<longrightarrow> t \<in> set (ps0 # vs)" using closed by blast
  moreover have "explore (visit_power ?p) [] (0, [], []) [ps0] = Some (ps0 # vs, Suc (length vs), fs, ?trs)"
    unfolding vs fs(1) by simp
  moreover have "\<forall>s\<in>set (ps0 # vs). \<exists>w. steps (power_edges ?p) ps0 w s"
  proof
    fix s assume "s \<in> set (ps0 # vs)"
    then have "(ps0, s) \<in> (successors_rel (power_succ ?p))\<^sup>*" unfolding reach by simp
    then have "s \<in> set (ps0 # vs) \<and> (ps0, s) \<in> (graph_of (power_edges ?p))\<^sup>*"
    proof (induction rule: rtrancl_induct)
      case (step t s)
      then obtain x where "(t, x, s) \<in> set (power_new ?p t)" using new [of t] l
        by (fastforce simp: successors_rel_def power_succ_def)
      with new [of t] l step.IH have e: "(t, x, s) \<in> power_edges ?p" by auto
      then have "(t, s) \<in> graph_of (power_edges ?p)" by (auto simp: graph_of_def)
      with closed [OF e] step.IH show ?case by (auto intro: rtrancl_into_rtrancl)
    qed simp
    then show "\<exists>w. steps (power_edges ?p) ps0 w s" by (blast dest: reachable_steps)
  qed
  ultimately show thesis using that [OF _ d l _ _ _ _ fs(3)] fs(2) by simp
qed

text \<open>Without completion nothing useless is built from an automaton without useless parts.\<close>

lemma power_trimmed:
  assumes ok: "power_ok (a, False, n)" and len: "\<forall>s\<in>set vis. length s = length (ra_transitions a)" and ps0: "ps0 \<in> set vis"
    and closed: "\<forall>(b, l, t)\<in>power_edges (a, False, n). b \<in> set vis \<longrightarrow> t \<in> set vis"
    and reach: "\<forall>s\<in>set vis. \<exists>w. steps (power_edges (a, False, n)) ps0 w s"
    and t: "trimmed (edges (ra_transitions a)) (bits ps0) (set (ra_final_states a))"
  shows "trimmed (restrict_edges (set vis) (power_edges (a, False, n))) {ps0} {s \<in> set vis. power_final a s}"
proof -
  let ?P = "power_edges (a, False, n)" and ?E = "edges (ra_transitions a)" and ?F = "set (ra_final_states a)"
  let ?live = "live (restrict_edges (set vis) ?P) {ps0} {s \<in> set vis. power_final a s}"
  have cl: "q \<in> set vis" if "(p, l, q) \<in> ?P" "p \<in> set vis" for p l q using closed that by blast
  have r: "steps (restrict_edges (set vis) ?P) p w q" if "steps ?P p w q" "p \<in> set vis" for p w q
    using steps_restrict_closed [where E = ?P and S = "set vis" and p = p and w = w and q = q] cl that by blast
  have alive: "s \<in> ?live" if s: "s \<in> set vis" "q \<in> bits s" "q \<in> live ?E (bits ps0) ?F" for s q
  proof -
    from s(3) obtain f v where "f \<in> ?F" "steps ?E q v f" by (elim liveE)
    moreover have "length s = length (ra_transitions a)" using len s(1) by blast
    ultimately obtain u where u: "steps ?P s v u" "power_final a u" using power_lang [OF ok, of s v] s(2) by blast
    have "u \<in> set vis" using steps_closed [OF u(1) s(1) cl] .
    moreover from reach s(1) obtain w where "steps ?P ps0 w s" by blast
    ultimately have "u \<in> {s \<in> set vis. power_final a s}" "steps (restrict_edges (set vis) ?P) ps0 w s"
      "steps (restrict_edges (set vis) ?P) s v u" using u r [OF _ ps0] r [OF _ s(1)] by simp_all
    then show ?thesis by (rule liveI [OF singletonI])
  qed
  have edge: "s \<in> ?live \<and> t \<in> ?live" if "(s, l, t) \<in> restrict_edges (set vis) ?P" for s l t
  proof -
    from that have st: "s \<in> set vis" "t \<in> set vis" and e: "(s, l, t) \<in> ?P" by (simp_all add: restrict_edges_def)
    from e have "bits t = post (ra_transitions a) (bits s) l" "post (ra_transitions a) (bits s) l \<noteq> {}"
      unfolding power_edges_def power_letter_def by blast+
    then obtain q where q: "q \<in> bits t" "q \<in> post (ra_transitions a) (bits s) l" by blast
    then obtain p where p: "p \<in> bits s" "(p, l, q) \<in> ?E" unfolding post_def by blast
    from alive [OF st(1) p(1) trimmedD(1) [OF t p(2)]] alive [OF st(2) q(1) trimmedD(2) [OF t p(2)]] show ?thesis ..
  qed
  have fin: "s \<in> ?live" if "s \<in> set vis" "power_final a s" for s
  proof -
    from that(2) obtain q where q: "q \<in> bits s" "q \<in> ?F" unfolding power_final_def by blast
    show ?thesis by (rule alive [OF that(1) q(1) trimmedD(3) [OF t q(2)]])
  qed
  show ?thesis unfolding trimmed_def using edge fin by blast
qed

lemma power_edges_letters:
  "power_ok (a, completion, n) \<Longrightarrow> (b, l, t) \<in> power_edges (a, completion, n) \<Longrightarrow> l \<in> marked_letters n (set (ra_markers a))"
  using power_edge by (auto simp: power_edges_def power_letter_def post_def marked_letters_def)

lemma power_restricted_lang:
  assumes ok: "power_ok (a, completion, n)" and len: "length ps0 = length (ra_transitions a)" and ps0: "ps0 \<in> set vis"
    and closed: "\<forall>(b, l, t)\<in>power_edges (a, completion, n). b \<in> set vis \<longrightarrow> t \<in> set vis"
  shows "lang (restrict_edges (set vis) (power_edges (a, completion, n))) {ps0} {s \<in> set vis. power_final a s} =
    lang (edges (ra_transitions a)) (bits ps0) (set (ra_final_states a))"
proof -
  let ?P = "power_edges (a, completion, n)"
  have cl: "q \<in> set vis" if "(p, l, q) \<in> ?P" "p \<in> set vis" for p l q using closed that by blast
  have "t \<in> set vis" if "steps ?P ps0 w t" for w t using steps_closed [OF that ps0 cl] .
  then have "lang (restrict_edges (set vis) ?P) {ps0} {s \<in> set vis. power_final a s} = {w. \<exists>t. steps ?P ps0 w t \<and> power_final a t}"
    unfolding lang_def by (auto simp: steps_restrict_closed [OF cl ps0])
  also have "\<dots> = lang (edges (ra_transitions a)) (bits ps0) (set (ra_final_states a))"
    unfolding power_lang [OF ok len] lang_def ..
  finally show ?thesis .
qed

lemma power_complete:
  assumes ok: "power_ok (a, True, n)" and s: "s \<in> set vis" "length s = length (ra_transitions a)"
    and l: "l \<in> marked_letters n (set (ra_markers a))"
    and closed: "\<forall>(b, l, t)\<in>power_edges (a, True, n). b \<in> set vis \<longrightarrow> t \<in> set vis"
  shows "\<exists>t. (s, l, t) \<in> restrict_edges (set vis) (power_edges (a, True, n))"
proof -
  let ?t = "map (\<lambda>q. q \<in> post (ra_transitions a) (bits s) l) [0..<length (ra_transitions a)]"
  have "bits ?t = post (ra_transitions a) (bits s) l" using power_edge(1) [OF ok] by (auto simp: post_def)
  then have "(s, l, ?t) \<in> power_edges (a, True, n)" using s(2) l by (simp add: power_edges_def power_letter_def)
  then have "(s, l, ?t) \<in> restrict_edges (set vis) (power_edges (a, True, n))" using s(1) closed by (auto simp: restrict_edges_def)
  then show ?thesis by blast
qed

theorem powerset_construction_spec:
  assumes wf: "wf_raw n a" and mc: "markers_cover a" and n: "n \<le> ALPHABET_MAX_SIZE"
    and ini: "set initials \<subseteq> {..<length (ra_transitions a)}"
  obtains b where "powerset_construction a initials completion n = Some b" and "wf_raw n b" and "ra_deterministic b"
    and "language b = lang (edges (ra_transitions a)) (set initials) (set (ra_final_states a))"
    and "markers_cover b" and "ra_complete b = (ra_complete a \<or> completion)"
    and "completion \<Longrightarrow> total_on (marked_letters n (set (ra_markers a))) (ra_transitions b)"
    and "\<And>p l q. (p, l, q) \<in> edges (ra_transitions b) \<Longrightarrow> l \<in> marked_letters n (set (ra_markers a))"
    and "\<not> completion \<Longrightarrow> trimmed (edges (ra_transitions a)) (set initials) (set (ra_final_states a)) \<Longrightarrow> trim b"
proof -
  let ?N = "length (ra_transitions a)" and ?P = "power_edges (a, completion, n)"
  have ok: "power_ok (a, completion, n)" using wf mc n by (simp add: power_ok_def)
  obtain ps0 where ps0: "fold_opt bit_set initials (replicate ?N False) = Some ps0" "length ps0 = ?N" "bits ps0 = set initials"
    using fold_bit_set [of initials "replicate ?N False"] ini by auto
  obtain vs fs trs where ex: "explore (visit_power (a, completion, n)) [] (0, [], []) [ps0] = Some (ps0 # vs, Suc (length vs), fs, trs)"
    and d: "distinct (ps0 # vs)" and len: "\<forall>b\<in>set (ps0 # vs). length b = ?N"
    and trs: "set trs = restrict_edges (set (ps0 # vs)) ?P" and closed: "\<forall>(b, l, t)\<in>?P. b \<in> set (ps0 # vs) \<longrightarrow> t \<in> set (ps0 # vs)"
    and dt: "distinct (map (\<lambda>(s, l, t). (s, l)) trs)"
    and fs: "set fs = {i. i < length (ps0 # vs) \<and> power_final a ((ps0 # vs) ! i)}" "distinct fs"
    and reach: "\<forall>s\<in>set (ps0 # vs). \<exists>w. steps ?P ps0 w s"
    by (rule power_explored [OF ok ps0(2)])
  define vis where "vis = ps0 # vs"
  let ?f = "\<lambda>x. the (renaming_of vis x)"
  note vd = d [folded vis_def] and vlen = len [folded vis_def] and vtrs = trs [folded vis_def]
    and vclosed = closed [folded vis_def] and vfs = fs(1) [folded vis_def] and vreach = reach [folded vis_def]
  obtain ts where ts: "fold_opt (number_transition (renaming_of vis)) trs (replicate (length vis) []) = Some ts" "length ts = length vis"
    "edges ts = {(?f s, l, ?f t) |s l t. (s, l, t) \<in> set trs}" "row_deterministic ts"
  proof (rule fold_number_transition [of trs "renaming_of vis" "length vis"])
    show "renaming_of vis s \<noteq> None \<and> renaming_of vis t \<noteq> None \<and> the (renaming_of vis s) < length vis" if "(s, l, t) \<in> set trs" for s l t
    proof -
      have "s \<in> set vis" "t \<in> set vis" using that by (auto simp: vtrs restrict_edges_def)
      then show ?thesis using renaming_of_member [of s vis] renaming_of_member [of t vis] by auto
    qed
    show "s = t" if "renaming_of vis s = Some r" "renaming_of vis t = Some r" for s t r using that by (rule renaming_of_inj)
  qed (use dt in blast)
  let ?b = "\<lparr>ra_deterministic = True, ra_complete = ra_complete a \<or> completion, ra_initial_state = 0,
    ra_final_states = fs, ra_transitions = ts, ra_markers = ra_markers a\<rparr>"
  have eq: "powerset_construction a initials completion n = Some ?b"
    using ts(1) by (simp add: powerset_construction_def ps0(1) ex vis_def)
  have E: "edges ts = (\<lambda>(s, l, t). (?f s, l, ?f t)) ` restrict_edges (set vis) ?P" unfolding ts(3) vtrs by force
  have num: "renaming_of vis (vis ! i) = Some i" if "i < length vis" for i by (rule renaming_of_nth [OF vd that])
  have fin: "set fs = ?f ` {s \<in> set vis. power_final a s}"
    unfolding vfs using num by (force simp: in_set_conv_nth)
  have zero: "?f ps0 = 0" "ps0 \<in> set vis" "0 < length vis" using num [of 0] by (simp_all add: vis_def)
  have mem: "?f s < length ts" if "s \<in> set vis" for s using renaming_of_member [OF that] ts(2) by simp
  have let_n: "l \<in> marked_letters n (set (ra_markers a))" if "(p, l, q) \<in> edges ts" for p l q
    using that unfolding E restrict_edges_def by (auto intro: power_edges_letters [OF ok])
  have "q < length ts" if "(p, l, q) \<in> edges ts" for p l q using that mem unfolding E restrict_edges_def by auto
  then have "wf_table n ts" unfolding wf_table_def using let_n by (auto simp: marked_letters_def)
  then have wfb: "wf_raw n ?b"
    using ts(2,4) fs(2) vfs zero(3) wf_rawD(5) [OF wf] by (auto simp: wf_raw_def)
  have "language ?b = lang (restrict_edges (set vis) ?P) {ps0} {s \<in> set vis. power_final a s}"
  proof -
    have "lang ((\<lambda>(s, l, t). (?f s, l, ?f t)) ` restrict_edges (set vis) ?P) (?f ` {ps0}) (?f ` {s \<in> set vis. power_final a s}) =
        lang (restrict_edges (set vis) ?P) {ps0} {s \<in> set vis. power_final a s}"
      by (rule lang_rename [OF renaming_of_inj_on]) (use zero(2) in \<open>auto simp: restrict_edges_def\<close>)
    then show ?thesis by (simp add: language_def E fin zero(1))
  qed
  also have "\<dots> = lang (edges (ra_transitions a)) (set initials) (set (ra_final_states a))"
    using power_restricted_lang [OF ok ps0(2) zero(2) vclosed] by (simp only: ps0(3))
  finally have lang: "language ?b = lang (edges (ra_transitions a)) (set initials) (set (ra_final_states a))" .
  have "total_on (marked_letters n (set (ra_markers a))) ts" if c: completion
    unfolding total_on_def
  proof (intro allI impI ballI)
    fix i l assume i: "i < length ts" and l: "l \<in> marked_letters n (set (ra_markers a))"
    have s: "vis ! i \<in> set vis" "length (vis ! i) = ?N" using i ts(2) vlen by auto
    obtain t where "(vis ! i, l, t) \<in> restrict_edges (set vis) ?P"
      using power_complete [of a n _ vis, OF _ s l] ok vclosed c by auto
    then have "(?f (vis ! i), l, ?f t) \<in> edges ts" unfolding E by force
    then show "\<exists>q. (i, l, q) \<in> edges ts" using num [of i] i ts(2) by auto
  qed
  moreover have "markers_cover ?b" using let_n by (auto simp: markers_cover_def marked_letters_def)
  moreover have "trim ?b" if c: "\<not> completion" and t: "trimmed (edges (ra_transitions a)) (set initials) (set (ra_final_states a))"
  proof -
    have p: "?P = power_edges (a, False, n)" using c by simp
    have "trimmed (restrict_edges (set vis) ?P) {ps0} {s \<in> set vis. power_final a s}"
      unfolding p using ok c vlen zero(2) vclosed vreach t ps0(3) by (intro power_trimmed) (simp_all add: p)
    from trimmed_image [OF this, of ?f] show ?thesis by (simp add: trim_def E fin zero(1))
  qed
  ultimately show thesis using that [OF eq wfb _ lang] let_n by simp
qed

text \<open>\<open>determinise\<close> without completion keeps the language; with completion it makes an incomplete automaton total.\<close>

theorem determinise_spec:
  assumes wf: "wf_raw n a" and mc: "markers_cover a \<or> ra_deterministic a" and n: "n \<le> ALPHABET_MAX_SIZE"
  obtains b where "determinise False n a = Some b" and "wf_raw n b" and "ra_deterministic b" and "language b = language a"
    and "markers_cover a \<Longrightarrow> markers_cover b" and "trim a \<Longrightarrow> trim b"
proof (cases "ra_deterministic a")
  case True
  then show thesis using that [of a] wf by (simp add: determinise_def)
next
  case False
  with mc have "markers_cover a" by simp
  moreover have "set [ra_initial_state a] \<subseteq> {..<length (ra_transitions a)}" using wf_rawD(1) [OF wf] by simp
  ultimately obtain b where "powerset_construction a [ra_initial_state a] False n = Some b" "wf_raw n b" "ra_deterministic b"
    "language b = lang (edges (ra_transitions a)) (set [ra_initial_state a]) (set (ra_final_states a))" "markers_cover b"
    "trimmed (edges (ra_transitions a)) (set [ra_initial_state a]) (set (ra_final_states a)) \<Longrightarrow> trim b"
    using powerset_construction_spec [OF wf _ n, of "[ra_initial_state a]" False] by metis
  with False show thesis using that [of b] by (simp add: determinise_def language_def trim_def)
qed

theorem determinise_complete_spec:
  assumes wf: "wf_raw n a" and mc: "markers_cover a" and n: "n \<le> ALPHABET_MAX_SIZE" and nc: "\<not> ra_complete a"
  obtains b where "determinise True n a = Some b" and "wf_raw n b" and "ra_deterministic b" and "ra_complete b"
    and "language b = language a" and "total_on (marked_letters n (set (ra_markers a))) (ra_transitions b)"
    and "\<And>p l q. (p, l, q) \<in> edges (ra_transitions b) \<Longrightarrow> l \<in> marked_letters n (set (ra_markers a))"
proof -
  have ini: "set [ra_initial_state a] \<subseteq> {..<length (ra_transitions a)}" using wf_rawD(1) [OF wf] by simp
  show thesis
  proof (rule powerset_construction_spec [OF wf mc n ini, of True])
    fix b
    assume "powerset_construction a [ra_initial_state a] True n = Some b" "wf_raw n b" "ra_deterministic b"
      "language b = lang (edges (ra_transitions a)) (set [ra_initial_state a]) (set (ra_final_states a))"
      "ra_complete b = (ra_complete a \<or> True)" "True \<Longrightarrow> total_on (marked_letters n (set (ra_markers a))) (ra_transitions b)"
      "\<And>p l q. (p, l, q) \<in> edges (ra_transitions b) \<Longrightarrow> l \<in> marked_letters n (set (ra_markers a))"
    with nc show thesis using that [of b] by (simp add: determinise_def language_def)
  qed
qed

text \<open>
  C20: Determinisation ends and keeps the language: it returns a deterministic automaton that recognises
  exactly the words of the input, and with completion it also has a transition for every letter of the
  marked alphabet from every state, unless the input was already flagged complete.
\<close>

theorem determinise_correct:
  assumes "wf_raw n a" and "markers_cover a" and "n \<le> ALPHABET_MAX_SIZE"
  shows "\<exists>b. determinise completion n a = Some b \<and> wf_raw n b \<and> ra_deterministic b \<and> language b = language a \<and>
    (completion \<longrightarrow> ra_complete b \<and> (ra_complete a \<or> total_on (marked_letters n (set (ra_markers a))) (ra_transitions b)))"
proof (cases "ra_deterministic a \<and> (\<not> completion \<or> ra_complete a)")
  case True
  then show ?thesis using assms(1) by (auto simp: determinise_def)
next
  case False
  have ini: "set [ra_initial_state a] \<subseteq> {..<length (ra_transitions a)}" using wf_rawD(1) [OF assms(1)] by simp
  obtain b where b: "powerset_construction a [ra_initial_state a] completion n = Some b" "wf_raw n b" "ra_deterministic b"
    "language b = lang (edges (ra_transitions a)) (set [ra_initial_state a]) (set (ra_final_states a))"
    "ra_complete b = (ra_complete a \<or> completion)" "completion \<longrightarrow> total_on (marked_letters n (set (ra_markers a))) (ra_transitions b)"
    using powerset_construction_spec [OF assms ini, of completion] by metis
  have "determinise completion n a = Some b" using False b(1) by (simp only: determinise_def if_False)
  then show ?thesis using b(2-6) by (simp add: language_def)
qed

text \<open>Words over one letter that end with that letter, guessed non-deterministically.\<close>

definition example_nfa :: raw_automaton where
  "example_nfa = \<lparr>ra_deterministic = False, ra_complete = False, ra_initial_state = 0, ra_final_states = [1],
     ra_transitions = [[(\<lparr>l_char = 0, l_marker = 0\<rparr>, 0), (\<lparr>l_char = 0, l_marker = 0\<rparr>, 1)], []], ra_markers = [0]\<rparr>"

lemma example_nfa_props:
  "wf_raw 1 example_nfa" "markers_cover example_nfa"
  "edges (ra_transitions example_nfa) = {(0, \<lparr>l_char = 0, l_marker = 0\<rparr>, 0), (0, \<lparr>l_char = 0, l_marker = 0\<rparr>, 1)}"
proof -
  let ?l = "\<lparr>l_char = 0, l_marker = 0\<rparr>"
  show e: "edges (ra_transitions example_nfa) = {(0, ?l, 0), (0, ?l, 1)}" by (auto simp: example_nfa_def edges_def less_Suc_eq)
  show "wf_raw 1 example_nfa" "markers_cover example_nfa"
    unfolding wf_raw_def wf_table_def markers_cover_def e by (auto simp: example_nfa_def)
qed

theorem determinise_correct_witness:
  "\<exists>b. determinise True 1 example_nfa = Some b \<and> ra_deterministic b \<and> [\<lparr>l_char = 0, l_marker = 0\<rparr>] \<in> language b \<and> [] \<notin> language b"
proof -
  have "[\<lparr>l_char = 0, l_marker = 0\<rparr>] \<in> language example_nfa" "[] \<notin> language example_nfa"
    unfolding language_def lang_def example_nfa_props(3) by (simp_all add: example_nfa_def)
  moreover have "(1 :: nat) \<le> ALPHABET_MAX_SIZE" by (simp add: ALPHABET_MAX_SIZE_def)
  ultimately show ?thesis using determinise_correct [OF example_nfa_props(1,2), of True] by auto
qed

end
