(* ===== verification/Automaton_Combine.thy ===== *)
theory Automaton_Combine
  imports Automaton_Power
begin

text \<open>
  The automata that combine others: union by shifting states apart and determinising, concatenation
  by plugging automata together from the last to the first.
\<close>

section \<open>Shifted automata\<close>

definition shifted :: "nat \<Rightarrow> (nat \<times> 'l \<times> nat) set \<Rightarrow> (nat \<times> 'l \<times> nat) set" where
  "shifted k E = (\<lambda>(p, l, q). (p + k, l, q + k)) ` E"

lemma lang_shifted: "lang (shifted k E) {i + k} ((\<lambda>s. s + k) ` F) = lang E {i} F"
proof -
  have "lang ((\<lambda>(p, l, q). (p + k, l, q + k)) ` E) ((\<lambda>s. s + k) ` {i}) ((\<lambda>s. s + k) ` F) = lang E {i} F"
    by (rule lang_rename [where S = UNIV]) (auto simp: inj_on_def)
  then show ?thesis by (simp add: shifted_def)
qed

lemma shifted_ge: "(p, l, q) \<in> shifted k E \<Longrightarrow> k \<le> p \<and> k \<le> q"
  by (auto simp: shifted_def)

lemma edges_append:
  "edges (xs @ ys) = edges xs \<union> {(p + length xs, l, q) |p l q. (p, l, q) \<in> edges ys}"
proof -
  have "(\<exists>p'. p = p' + length xs \<and> p' < length ys \<and> (l, q) \<in> set (ys ! p')) \<longleftrightarrow>
      length xs \<le> p \<and> p < length xs + length ys \<and> (l, q) \<in> set (ys ! (p - length xs))" for p l q
    by (auto intro!: exI [of _ "p - length xs"])
  then show ?thesis by (auto simp: edges_def nth_append split: if_splits)
qed

text \<open>The shift by the number of states already present, as \<open>union\<close> and \<open>concat\<close> do it.\<close>

lemma filter_map_shift:
  assumes "wf_table n ts"
  obtains ts' ms where "filter_map_transitions ts (\<lambda>s. Some (s + k)) (length ts) k = Some (ts', ms)" and "length ts' = length ts"
    and "edges ts' = {(p, l, q + k) |p l q. (p, l, q) \<in> edges ts}"
    and "distinct ms" and "set ms = {l_marker l |p l q. (p, l, q) \<in> edges ts}"
proof (rule filter_map_transitions_spec [of ts "\<lambda>s. Some (s + k)" k "length ts"])
  show "k \<le> p' \<and> p' - k < length ts" if "(p, l, q) \<in> edges ts" "Some (p + k) = Some p'" for p l q p'
    using that wf_tableD [OF assms that(1)] by auto
  show "p = q" if "Some (p + k) = Some r" "Some (q + k) = Some r" for p q r using that by simp
  fix ts' ms
  assume "filter_map_transitions ts (\<lambda>s. Some (s + k)) (length ts) k = Some (ts', ms)" "length ts' = length ts" "distinct ms"
    "edges ts' = {(p' - k, l, q') |p l q p' q'. (p, l, q) \<in> edges ts \<and> Some (p + k) = Some p' \<and> Some (q + k) = Some q'}"
    "set ms = {l_marker l |p l q. (p, l, q) \<in> edges ts \<and> Some (p + k) \<noteq> None \<and> Some (q + k) \<noteq> None}"
  then show thesis by (intro that [of ts' ms]) auto
qed

lemma edges_append_shifted:
  assumes "edges ts' = {(p, l, q + length xs) |p l q. (p, l, q) \<in> edges ts}"
  shows "edges (xs @ ts') = edges xs \<union> shifted (length xs) (edges ts)"
  unfolding edges_append assms shifted_def by force

section \<open>Union\<close>

lemma lang_disjoint_union:
  fixes k :: nat
  assumes E1: "\<And>p l q. (p, l, q) \<in> E1 \<Longrightarrow> p < k \<and> q < k" and E2: "\<And>p l q. (p, l, q) \<in> E2 \<Longrightarrow> k \<le> p \<and> k \<le> q"
    and "\<And>s. s \<in> I1 \<union> F1 \<Longrightarrow> s < k" and "\<And>s. s \<in> I2 \<union> F2 \<Longrightarrow> k \<le> s"
  shows "lang (E1 \<union> E2) (I1 \<union> I2) (F1 \<union> F2) = lang E1 I1 F1 \<union> lang E2 I2 F2"
proof -
  have 1: "steps (E1 \<union> E2) p w q \<longleftrightarrow> steps E1 p w q" if "p < k" for p w q
    using that
  proof (induction w arbitrary: p)
    case (Cons l w)
    have "(p, l, r) \<in> E1 \<union> E2 \<longleftrightarrow> (p, l, r) \<in> E1 \<and> r < k" for r using E1 [of p l r] E2 [of p l r] Cons.prems by auto
    then show ?case using Cons.IH by auto
  qed simp
  have 2: "steps (E1 \<union> E2) p w q \<longleftrightarrow> steps E2 p w q" if "k \<le> p" for p w q
    using that
  proof (induction w arbitrary: p)
    case (Cons l w)
    have "(p, l, r) \<in> E1 \<union> E2 \<longleftrightarrow> (p, l, r) \<in> E2 \<and> k \<le> r" for r using E1 [of p l r] E2 [of p l r] Cons.prems by auto
    then show ?case using Cons.IH by auto
  qed simp
  have c1: "q < k" if "steps E1 p w q" "p < k" for p w q
    using steps_closed [of E1 p w q "{..<k}"] that E1 by auto
  have c2: "k \<le> q" if "steps E2 p w q" "k \<le> p" for p w q
    using steps_closed [of E2 p w q "{k..}"] that E2 by auto
  have "(\<exists>p\<in>I1 \<union> I2. \<exists>q\<in>F1 \<union> F2. steps (E1 \<union> E2) p w q) \<longleftrightarrow>
      (\<exists>p\<in>I1. \<exists>q\<in>F1. steps E1 p w q) \<or> (\<exists>p\<in>I2. \<exists>q\<in>F2. steps E2 p w q)" for w
  proof
    assume "\<exists>p\<in>I1 \<union> I2. \<exists>q\<in>F1 \<union> F2. steps (E1 \<union> E2) p w q"
    then obtain p q where pq: "p \<in> I1 \<union> I2" "q \<in> F1 \<union> F2" "steps (E1 \<union> E2) p w q" by blast
    show "(\<exists>p\<in>I1. \<exists>q\<in>F1. steps E1 p w q) \<or> (\<exists>p\<in>I2. \<exists>q\<in>F2. steps E2 p w q)"
    proof (cases "p < k")
      case True
      with pq 1 c1 assms(3,4) show ?thesis by (metis UnE UnI1 UnI2 leD)
    next
      case False
      with pq 2 c2 assms(3,4) show ?thesis by (metis UnE UnI1 UnI2 leD leI)
    qed
  qed (use 1 2 assms(3,4) in blast)
  then show ?thesis by (auto simp: lang_def)
qed

lemma trimmed_Un: "trimmed E1 I1 F1 \<Longrightarrow> trimmed E2 I2 F2 \<Longrightarrow> trimmed (E1 \<union> E2) (I1 \<union> I2) (F1 \<union> F2)"
proof -
  assume t: "trimmed E1 I1 F1" "trimmed E2 I2 F2"
  have "s \<in> live (E1 \<union> E2) (I1 \<union> I2) (F1 \<union> F2)" if "s \<in> live E1 I1 F1 \<or> s \<in> live E2 I2 F2" for s
    using that live_mono [of s E1 I1 F1 "E1 \<union> E2" "I1 \<union> I2" "F1 \<union> F2"]
      live_mono [of s E2 I2 F2 "E1 \<union> E2" "I1 \<union> I2" "F1 \<union> F2"] by simp blast
  with t show ?thesis unfolding trimmed_def by blast
qed

lemma trimmed_shifted: "trimmed E {i} F \<Longrightarrow> trimmed (shifted k E) {i + k} ((\<lambda>s. s + k) ` F)"
  using trimmed_image [of E "{i}" F "\<lambda>s. s + k"] by (simp add: shifted_def)

text \<open>The state of the loop of \<open>union\<close>, with the languages seen so far.\<close>

definition union_inv :: "nat \<Rightarrow> letter list set \<Rightarrow> raw_automaton \<times> nat list \<Rightarrow> bool" where
  "union_inv n L st \<longleftrightarrow> (case st of (u, is) \<Rightarrow>
     wf_raw n (u\<lparr>ra_deterministic := False\<rparr>) \<and> markers_cover u \<and> \<not> ra_complete u \<and>
     set is \<subseteq> {..<length (ra_transitions u)} \<and>
     lang (edges (ra_transitions u)) (set is) (set (ra_final_states u)) = L)"

definition union_trimmed :: "raw_automaton \<times> nat list \<Rightarrow> bool" where
  "union_trimmed st \<longleftrightarrow> (case st of (u, is) \<Rightarrow> trimmed (edges (ra_transitions u)) (set is) (set (ra_final_states u)))"

lemma union_step_inv:
  assumes inv: "union_inv n L (u, is)" and wf: "wf_raw n a"
  shows "\<exists>st. union_step a (u, is) = Some st \<and> union_inv n (L \<union> language a) st \<and>
    (trim a \<longrightarrow> union_trimmed (u, is) \<longrightarrow> union_trimmed st)"
proof -
  let ?k = "length (ra_transitions u)" and ?ts = "ra_transitions a" and ?U = "ra_transitions u"
  note w = wf_rawD [OF wf]
  have wu: "wf_raw n (u\<lparr>ra_deterministic := False\<rparr>)" "markers_cover u" "\<not> ra_complete u" "set is \<subseteq> {..<?k}"
    "lang (edges ?U) (set is) (set (ra_final_states u)) = L" using inv by (auto simp: union_inv_def)
  have wU: "ra_initial_state u < ?k" "set (ra_final_states u) \<subseteq> {..<?k}" "distinct (ra_final_states u)" "wf_table n ?U" "distinct (ra_markers u)"
    using wf_rawD [OF wu(1)] by simp_all
  obtain ts' ms where f: "filter_map_transitions ?ts (\<lambda>s. Some (s + ?k)) (length ?ts) ?k = Some (ts', ms)" "length ts' = length ?ts"
    "edges ts' = {(p, l, q + ?k) |p l q. (p, l, q) \<in> edges ?ts}" "set ms = {l_marker l |p l q. (p, l, q) \<in> edges ?ts}"
    by (rule filter_map_shift [OF w(4), of ?k]) blast
  note E = edges_append_shifted [OF f(3)]
  let ?F = "(\<lambda>s. s + ?k) ` set (ra_final_states a)"
  have L: "lang (edges ?U \<union> shifted ?k (edges ?ts)) (set is \<union> {ra_initial_state a + ?k}) (set (ra_final_states u) \<union> ?F) =
      L \<union> language a"
  proof (subst lang_disjoint_union [where k = ?k])
    show "p < ?k \<and> q < ?k" if "(p, l, q) \<in> edges ?U" for p l q using wf_tableD [OF wU(4) that] by simp
    show "?k \<le> p \<and> ?k \<le> q" if "(p, l, q) \<in> shifted ?k (edges ?ts)" for p l q using shifted_ge [OF that] .
  qed (use wU(2) wu(4,5) in \<open>auto simp: lang_shifted language_def\<close>)
  have "wf_table n (?U @ ts')"
    unfolding wf_table_def E using wf_tableD [OF w(4)] wf_tableD [OF wU(4)] f(2) by (fastforce simp: shifted_def)
  moreover have "\<forall>(p, l, q)\<in>edges (?U @ ts'). l_marker l \<in> set (ra_markers u) \<union> set ms"
    unfolding E f(4) using wu(2) by (fastforce simp: shifted_def markers_cover_def)
  moreover have "trimmed (edges (?U @ ts')) (set is \<union> {ra_initial_state a + ?k}) (set (ra_final_states u) \<union> ?F)"
    if "trim a" "union_trimmed (u, is)"
    unfolding E using that trimmed_shifted by (intro trimmed_Un) (auto simp: union_trimmed_def trim_def)
  ultimately show ?thesis
    using wU wu(3,4) w(1,2) L by (auto simp: union_step_def Let_def f(1,2) union_inv_def union_trimmed_def wf_raw_def markers_cover_def E)
qed

lemma union_fold:
  assumes "union_inv n L st" and "\<forall>a\<in>set automata. wf_raw n a"
  shows "\<exists>st'. fold_opt union_step automata st = Some st' \<and> union_inv n (L \<union> (\<Union>a\<in>set automata. language a)) st' \<and>
    ((\<forall>a\<in>set automata. trim a) \<longrightarrow> union_trimmed st \<longrightarrow> union_trimmed st')"
  using assms
proof (induction automata arbitrary: L st)
  case (Cons a automata)
  obtain u "is" where st: "st = (u, is)" by fastforce
  from union_step_inv [of n L u "is" a] Cons.prems obtain st1 where "union_step a st = Some st1" "union_inv n (L \<union> language a) st1"
    "trim a \<longrightarrow> union_trimmed st \<longrightarrow> union_trimmed st1"
    by (auto simp: st)
  with Cons.IH [of "L \<union> language a" st1] Cons.prems(2) show ?case by (auto simp: Un_assoc)
qed simp

lemma powerset_ignores_flag:
  "powerset_construction (a\<lparr>ra_deterministic := d\<rparr>) initials completion n = powerset_construction a initials completion n"
proof -
  have "visit_power (a\<lparr>ra_deterministic := d\<rparr>, completion, n) = visit_power (a, completion, n)"
    by (intro ext) (simp add: visit_power_def power_successors_def Let_def cong: if_cong)
  then show ?thesis by (simp add: powerset_construction_def)
qed

theorem union_automata_spec:
  assumes wf: "\<forall>a\<in>set automata. wf_raw n a \<and> \<not> ra_complete a \<and> markers_cover a" and n: "n \<le> ALPHABET_MAX_SIZE"
  obtains b where "union_automata automata n = Some b" and "wf_raw n b" and "language b = (\<Union>a\<in>set automata. language a)"
    and "\<not> ra_complete b" and "markers_cover b" and "\<forall>a\<in>set automata. trim a \<Longrightarrow> trim b"
proof (cases "length automata = 1")
  case True
  then obtain a where "automata = [a]" by (cases automata) auto
  then show thesis using that [of a] wf by (simp add: union_automata_def)
next
  case False
  have "union_inv n {} (empty_automaton, [])" using wf_empty(1) [of n] wf_empty(2)
    by (auto simp: union_inv_def wf_raw_def lang_def empty_automaton_def)
  from union_fold [OF this, of automata] wf obtain u "is" where u: "fold_opt union_step automata (empty_automaton, []) = Some (u, is)"
    and inv: "union_inv n (\<Union>a\<in>set automata. language a) (u, is)"
    and tr: "(\<forall>a\<in>set automata. trim a) \<longrightarrow> union_trimmed (empty_automaton, []) \<longrightarrow> union_trimmed (u, is)" by auto
  have "union_trimmed (empty_automaton, [])" by (simp add: union_trimmed_def trimmed_def empty_automaton_def edges_def)
  let ?u = "u\<lparr>ra_deterministic := False\<rparr>"
  have U: "wf_raw n ?u" "markers_cover ?u" "set is \<subseteq> {..<length (ra_transitions ?u)}" "\<not> ra_complete ?u"
    "lang (edges (ra_transitions ?u)) (set is) (set (ra_final_states ?u)) = (\<Union>a\<in>set automata. language a)"
    using inv by (auto simp: union_inv_def markers_cover_def)
  show thesis
  proof (rule powerset_construction_spec [OF U(1,2) n U(3), of False])
    fix b assume "powerset_construction ?u is False n = Some b" "wf_raw n b" "markers_cover b" "ra_complete b = (ra_complete ?u \<or> False)"
      "language b = lang (edges (ra_transitions ?u)) (set is) (set (ra_final_states ?u))"
      "\<not> False \<Longrightarrow> trimmed (edges (ra_transitions ?u)) (set is) (set (ra_final_states ?u)) \<Longrightarrow> trim b"
    then show thesis using that [of b] False U(4,5) tr \<open>union_trimmed (empty_automaton, [])\<close>
      by (simp add: union_automata_def u powerset_ignores_flag union_trimmed_def)
  qed
qed

section \<open>Concatenation\<close>

definition conc :: "'l list set \<Rightarrow> 'l list set \<Rightarrow> 'l list set" where
  "conc A B = {u @ v |u v. u \<in> A \<and> v \<in> B}"

lemma steps_below:
  fixes k :: nat
  assumes "\<And>p l q. (p, l, q) \<in> E \<Longrightarrow> p < k \<and> q < k" and "\<And>p l q. (p, l, q) \<in> E2 \<Longrightarrow> k \<le> p" and "p < k"
  shows "steps (E \<union> E2) p w q \<longleftrightarrow> steps E p w q"
  using assms(3)
proof (induction w arbitrary: p)
  case (Cons l w)
  have "(p, l, r) \<in> E \<union> E2 \<longleftrightarrow> (p, l, r) \<in> E \<and> r < k" for r
    using assms(1) [of p l r] assms(2) [of p l r] Cons.prems by auto
  then show ?case using Cons.IH by auto
qed simp

text \<open>The two ways of plugging an automaton in front of another, the states of the latter being below \<open>k\<close>.\<close>

definition plugging ::
    "nat \<Rightarrow> (nat \<times> 'l \<times> nat) set \<Rightarrow> (nat \<times> 'l \<times> nat) set \<Rightarrow> nat \<Rightarrow> nat \<Rightarrow> nat set \<Rightarrow> nat set \<Rightarrow> bool" where
  "plugging k E E2 i j F F2 \<longleftrightarrow>
     (\<forall>(p, l, q)\<in>E. p < k \<and> q < k) \<and> i < k \<and> F \<subseteq> {..<k} \<and> (\<forall>(p, l, q)\<in>E2. k \<le> p \<and> k \<le> q) \<and> k \<le> j \<and> F2 \<subseteq> {k..}"

lemma pluggingD:
  assumes "plugging k E E2 i j F F2"
  shows "(p, l, q) \<in> E \<Longrightarrow> p < k \<and> q < k" "i < k" "s \<in> F \<Longrightarrow> s < k"
    "(p, l, q) \<in> E2 \<Longrightarrow> k \<le> p \<and> k \<le> q" "k \<le> j" "s \<in> F2 \<Longrightarrow> k \<le> s"
  using assms by (auto simp: plugging_def)

lemma redirect_decompose:
  assumes "steps (E \<union> redirected E2 i F2) p w q" "q \<in> F" "k \<le> p" "p \<notin> F2"
    and pl: "plugging k E E2 i j F F2"
  shows "\<exists>f\<in>F2. \<exists>u v. w = u @ v \<and> steps E2 p u f \<and> steps E i v q"
  supply E = pluggingD(1) [OF pl] and i = pluggingD(2) [OF pl] and F = pluggingD(3) [OF pl]
    and E2 = pluggingD(4) [OF pl] and j = pluggingD(5) [OF pl] and F2 = pluggingD(6) [OF pl]
  using assms(1,3,4)
proof (induction w arbitrary: p)
  case Nil
  then show ?case using F [OF assms(2)] by simp
next
  case (Cons l w)
  then obtain r' where r': "(p, l, r') \<in> E \<union> redirected E2 i F2" "steps (E \<union> redirected E2 i F2) r' w q" by auto
  have "(p, l, r') \<notin> E" using E [of p l r'] Cons.prems(2) by auto
  with r'(1) obtain r where r: "(p, l, r) \<in> E2" "r' = (if r \<in> F2 then i else r)" by (auto simp: redirected_def)
  show ?case
  proof (cases "r \<in> F2")
    case True
    have "steps E i w q \<longleftrightarrow> steps (E \<union> redirected E2 i F2) i w q"
      using E E2 i by (intro steps_below [symmetric, where k = k]) (auto simp: redirected_def)
    with True r r'(2) have "steps E2 p [l] r" "steps E i w q" by auto
    with True show ?thesis by (intro bexI [of _ r] exI [of _ "[l]"] exI [of _ w]) auto
  next
    case False
    with Cons.IH [of r] r r'(2) E2 [OF r(1)] obtain f u v where "f \<in> F2" "w = u @ v" "steps E2 r u f" "steps E i v q" by auto
    with r(1) show ?thesis by (intro bexI [of _ f] exI [of _ "l # u"] exI [of _ v]) auto
  qed
qed

lemma lang_redirect:
  assumes nf: "\<And>p l q. p \<in> F2 \<Longrightarrow> (p, l, q) \<notin> E2" and "j \<notin> F2" and pl: "plugging k E E2 i j F F2"
  shows "lang (E \<union> redirected E2 i F2) {j} F = conc (lang E2 {j} F2) (lang E {i} F)"
proof (intro equalityI subsetI)
  note j = pluggingD(5) [OF pl]
  fix w assume "w \<in> lang (E \<union> redirected E2 i F2) {j} F"
  then obtain q where "q \<in> F" "steps (E \<union> redirected E2 i F2) j w q" by (auto simp: lang_def)
  with redirect_decompose [OF _ _ _ _ pl, of j w q] assms(2) j show "w \<in> conc (lang E2 {j} F2) (lang E {i} F)"
    by (fastforce simp: conc_def lang_def)
next
  fix w assume "w \<in> conc (lang E2 {j} F2) (lang E {i} F)"
  then obtain u v f q where w: "w = u @ v" "f \<in> F2" "steps E2 j u f" "q \<in> F" "steps E i v q" by (auto simp: conc_def lang_def)
  from redirected_run [OF w(3,2) assms(2) nf] have "steps (E \<union> redirected E2 i F2) j u i" by (auto intro: steps_mono)
  moreover have "steps (E \<union> redirected E2 i F2) i v q" using w(5) by (auto intro: steps_mono)
  ultimately show "w \<in> lang (E \<union> redirected E2 i F2) {j} F" using w(1,4) by (auto simp: lang_def steps_append)
qed

definition plugged :: "('s \<times> 'l \<times> 's) set \<Rightarrow> ('s \<times> 'l \<times> 's) set \<Rightarrow> 's \<Rightarrow> 's set \<Rightarrow> ('s \<times> 'l \<times> 's) set" where
  "plugged E E2 i F2 = E \<union> (E2 \<union> {(f, l, q) |f l q. f \<in> F2 \<and> (i, l, q) \<in> E})"

lemma plug_decompose:
  assumes "steps (plugged E E2 i F2) p w q" "q \<in> F \<union> (if i \<in> F then F2 else {})" "k \<le> p" and pl: "plugging k E E2 i j F F2"
  shows "\<exists>f\<in>F2. \<exists>u v. w = u @ v \<and> steps E2 p u f \<and> v \<in> lang E {i} F"
  supply E = pluggingD(1) [OF pl] and i = pluggingD(2) [OF pl] and F = pluggingD(3) [OF pl]
    and E2 = pluggingD(4) [OF pl] and j = pluggingD(5) [OF pl] and F2 = pluggingD(6) [OF pl]
  using assms(1,3)
proof (induction w arbitrary: p)
  case Nil
  then have "q \<in> F2" "i \<in> F" using F [of q] assms(2) by (auto split: if_splits)
  then have "[] \<in> lang E {i} F" by (auto simp: lang_def)
  with Nil \<open>q \<in> F2\<close> show ?case by (intro bexI [of _ q] exI [of _ "[]"]) auto
next
  case (Cons l w)
  then obtain r where r: "(p, l, r) \<in> plugged E E2 i F2" "steps (plugged E E2 i F2) r w q" by auto
  have "(p, l, r) \<notin> E" using E [of p l r] Cons.prems(2) by auto
  with r(1) consider "(p, l, r) \<in> E2" | "p \<in> F2" "(i, l, r) \<in> E" by (auto simp: plugged_def)
  then show ?case
  proof cases
    case 1
    with Cons.IH [OF r(2)] E2 [OF 1] obtain f u v where "f \<in> F2" "w = u @ v" "steps E2 r u f" "v \<in> lang E {i} F" by auto
    with 1 show ?thesis by (intro bexI [of _ f] exI [of _ "l # u"] exI [of _ v]) auto
  next
    case 2
    have "steps (plugged E E2 i F2) r w q \<longleftrightarrow> steps E r w q"
      unfolding plugged_def using E E2 F2 E [OF 2(2)] by (intro steps_below [where k = k]) auto
    with r(2) have st: "steps E r w q" by simp
    have "q < k" using steps_closed [OF st, of "{..<k}"] E E [OF 2(2)] by auto
    then have "q \<in> F" using assms(2) F2 [of q] by (auto split: if_splits)
    with 2 st have "l # w \<in> lang E {i} F" by (auto simp: lang_def)
    with 2 show ?thesis by (intro bexI [of _ p] exI [of _ "[]"] exI [of _ "l # w"]) auto
  qed
qed

lemma lang_plugged:
  assumes pl: "plugging k E E2 i j F F2"
  shows "lang (plugged E E2 i F2) {j} (F \<union> (if i \<in> F then F2 else {})) = conc (lang E2 {j} F2) (lang E {i} F)"
proof (intro equalityI subsetI)
  note j = pluggingD(5) [OF pl]
  fix w assume "w \<in> lang (plugged E E2 i F2) {j} (F \<union> (if i \<in> F then F2 else {}))"
  then obtain q where "q \<in> F \<union> (if i \<in> F then F2 else {})" "steps (plugged E E2 i F2) j w q" by (auto simp: lang_def)
  with plug_decompose [OF _ _ _ pl, of j w q] j show "w \<in> conc (lang E2 {j} F2) (lang E {i} F)" by (fastforce simp: conc_def lang_def)
next
  fix w assume "w \<in> conc (lang E2 {j} F2) (lang E {i} F)"
  then obtain u v f q where w: "w = u @ v" "f \<in> F2" "steps E2 j u f" "q \<in> F" "steps E i v q" by (auto simp: conc_def lang_def)
  have u: "steps (plugged E E2 i F2) j u f" using w(3) by (rule steps_mono) (auto simp: plugged_def)
  show "w \<in> lang (plugged E E2 i F2) {j} (F \<union> (if i \<in> F then F2 else {}))"
  proof (cases v)
    case Nil
    with w u show ?thesis by (auto simp: lang_def)
  next
    case (Cons l v')
    with w(5) obtain r where r: "(i, l, r) \<in> E" "steps E r v' q" by auto
    then have "steps (plugged E E2 i F2) r v' q" by (auto simp: plugged_def intro: steps_mono)
    with r w(2) have "steps (plugged E E2 i F2) f v q" by (auto simp: Cons plugged_def)
    with u w show ?thesis by (auto simp: lang_def steps_append)
  qed
qed

text \<open>Usefulness of the parts carries over to both ways of plugging.\<close>

lemma lang_nonempty_live: "lang E {i} F \<noteq> {} \<longleftrightarrow> i \<in> live E {i} F"
proof
  assume "lang E {i} F \<noteq> {}"
  then obtain w f where "f \<in> F" "steps E i w f" by (auto simp: lang_def)
  then show "i \<in> live E {i} F" by (intro liveI [of i _ f, where u = "[]"]) simp_all
next
  assume "i \<in> live E {i} F"
  then obtain v f where "f \<in> F" "steps E i v f" by (elim liveE) simp
  then show "lang E {i} F \<noteq> {}" by (auto simp: lang_def)
qed

lemma live_redirect:
  assumes nf: "\<And>p l q. p \<in> F2 \<Longrightarrow> (p, l, q) \<notin> E2" and "j \<notin> F2" and "j \<in> live E2 {j} F2" and "i \<in> live E {i} F"
  shows "s \<in> live E {i} F \<Longrightarrow> s \<in> live (E \<union> redirected E2 i F2) {j} F"
    and "s \<in> live E2 {j} F2 \<Longrightarrow> s \<notin> F2 \<Longrightarrow> s \<in> live (E \<union> redirected E2 i F2) {j} F"
proof -
  let ?E = "E \<union> redirected E2 i F2"
  have run: "steps ?E p w i" if "steps E2 p w f" "f \<in> F2" "p \<notin> F2" for p w f
    using redirected_run [OF that(1,2,3) nf] by (rule steps_mono) auto
  have old: "steps ?E p w q" if "steps E p w q" for p w q using that by (rule steps_mono) auto
  from assms(3) obtain v f where v: "f \<in> F2" "steps E2 j v f" by (elim liveE) simp
  from assms(4) obtain w q where w: "q \<in> F" "steps E i w q" by (elim liveE) simp
  show "s \<in> live ?E {j} F" if "s \<in> live E {i} F"
  proof -
    from that obtain u x g where u: "g \<in> F" "steps E i u s" "steps E s x g" by (elim liveE) simp
    have "steps ?E j (v @ u) s" unfolding steps_append using run [OF v(2,1) assms(2)] old [OF u(2)] by blast
    with u(1) old [OF u(3)] show ?thesis by (intro liveI [of j _ g]) simp_all
  qed
  show "s \<in> live ?E {j} F" if "s \<in> live E2 {j} F2" "s \<notin> F2"
  proof -
    from that(1) obtain u x g where u: "g \<in> F2" "steps E2 j u s" "steps E2 s x g" by (elim liveE) simp
    have "steps (redirected E2 i F2) j u s" by (rule redirected_path [OF u(2) that(2) nf])
    then have "steps ?E j u s" by (rule steps_mono) auto
    moreover have "steps ?E s (x @ w) q" unfolding steps_append using run [OF u(3,1) that(2)] old [OF w(2)] by blast
    ultimately show ?thesis using w(1) by (intro liveI [of j _ q]) simp_all
  qed
qed

lemma live_plugged:
  assumes "j \<in> live E2 {j} F2" and "i \<in> live E {i} F"
  defines "F' \<equiv> F \<union> (if i \<in> F then F2 else {})"
  shows "steps E i u s \<Longrightarrow> u \<noteq> [] \<Longrightarrow> s \<in> live E {i} F \<Longrightarrow> s \<in> live (plugged E E2 i F2) {j} F'"
    and "s \<in> live E2 {j} F2 \<Longrightarrow> s \<in> live (plugged E E2 i F2) {j} F'"
proof -
  let ?E = "plugged E E2 i F2"
  have old: "steps ?E p w q" if "steps E p w q" for p w q using that by (rule steps_mono) (auto simp: plugged_def)
  have new: "steps ?E p w q" if "steps E2 p w q" for p w q using that by (rule steps_mono) (auto simp: plugged_def)
  have copy: "steps ?E f w q" if "steps E i w q" "w \<noteq> []" "f \<in> F2" for f w q
  proof (cases w)
    case (Cons l v)
    with that(1) obtain r where "(i, l, r) \<in> E" "steps E r v q" by auto
    then have "(f, l, r) \<in> ?E" "steps ?E r v q" using that(3) old by (auto simp: plugged_def)
    then show ?thesis by (auto simp: Cons)
  qed (use that in simp)
  from assms(1) obtain v f where v: "f \<in> F2" "steps E2 j v f" by (elim liveE) simp
  from assms(2) obtain w q where w: "q \<in> F" "steps E i w q" by (elim liveE) simp
  show "s \<in> live ?E {j} F'" if "steps E i u s" "u \<noteq> []" "s \<in> live E {i} F"
  proof -
    from that(3) obtain x g where x: "g \<in> F" "steps E s x g" by (elim liveE) simp
    have "steps ?E j (v @ u) s" unfolding steps_append using new [OF v(2)] copy [OF that(1,2) v(1)] by blast
    with x(1) old [OF x(2)] show ?thesis by (intro liveI [of j _ g]) (simp_all add: F'_def)
  qed
  show "s \<in> live ?E {j} F'" if "s \<in> live E2 {j} F2"
  proof -
    from that obtain y x g where y: "g \<in> F2" "steps E2 j y s" "steps E2 s x g" by (elim liveE) simp
    have "\<exists>z h. h \<in> F' \<and> steps ?E g z h"
    proof (cases "w = []")
      case True
      with w y(1) show ?thesis by (intro exI [of _ "[]"] exI [of _ g]) (simp add: F'_def)
    next
      case False
      then show ?thesis using copy [OF w(2) _ y(1)] w(1) by (auto simp: F'_def)
    qed
    then obtain z h where "h \<in> F'" "steps ?E s (x @ z) h" unfolding steps_append using new [OF y(3)] by blast
    with new [OF y(2)] show ?thesis by (intro liveI [of j _ h]) simp_all
  qed
qed

text \<open>
  The state of the loop of \<open>concat\<close>: the accumulated automaton recognises the concatenation so far,
  no transition enters a garbage state, and none enters the initial state unless the flag is set.
\<close>

definition concat_inv :: "nat \<Rightarrow> letter list set \<Rightarrow> concat_state \<Rightarrow> bool" where
  "concat_inv n L st \<longleftrightarrow>
     (let a = co_automaton st; E = edges (ra_transitions a); G = set (co_garbage st)
      in wf_raw n (a\<lparr>ra_deterministic := False\<rparr>) \<and> lang E {ra_initial_state a} (set (ra_final_states a)) = L \<and>
         G \<subseteq> {..<length (ra_transitions a)} - {ra_initial_state a} \<and> (\<forall>(p, l, q)\<in>E. q \<notin> G) \<and>
         (\<not> co_loop_on_initial st \<longrightarrow> (\<forall>p l. (p, l, ra_initial_state a) \<notin> E)))"

text \<open>Apart from the garbage, nothing useless is built.\<close>

definition concat_trimmed :: "concat_state \<Rightarrow> bool" where
  "concat_trimmed st \<longleftrightarrow>
     (let a = co_automaton st; G = set (co_garbage st)
      in (\<forall>(p, l, q)\<in>edges (ra_transitions a). p \<notin> G \<longrightarrow> p \<in> live_of a \<and> q \<in> live_of a) \<and>
         set (ra_final_states a) - G \<subseteq> live_of a \<and>
         (co_loop_on_initial st \<longrightarrow> (\<exists>p l. (p, l, ra_initial_state a) \<in> edges (ra_transitions a) \<and> p \<notin> G)))"

lemma concat_trimmedD:
  assumes "concat_trimmed st"
  shows "(p, l, q) \<in> edges (ra_transitions (co_automaton st)) \<Longrightarrow> p \<notin> set (co_garbage st) \<Longrightarrow> p \<in> live_of (co_automaton st) \<and> q \<in> live_of (co_automaton st)"
    and "f \<in> set (ra_final_states (co_automaton st)) \<Longrightarrow> f \<notin> set (co_garbage st) \<Longrightarrow> f \<in> live_of (co_automaton st)"
    and "co_loop_on_initial st \<Longrightarrow> \<exists>p l. (p, l, ra_initial_state (co_automaton st)) \<in> edges (ra_transitions (co_automaton st)) \<and> p \<notin> set (co_garbage st)"
  using assms by (auto simp: concat_trimmed_def Let_def)

lemma concat_invD:
  assumes "concat_inv n L st"
  defines "a \<equiv> co_automaton st"
  shows "ra_initial_state a < length (ra_transitions a)" "set (ra_final_states a) \<subseteq> {..<length (ra_transitions a)}"
    "distinct (ra_final_states a)" "wf_table n (ra_transitions a)" "distinct (ra_markers a)"
    "lang (edges (ra_transitions a)) {ra_initial_state a} (set (ra_final_states a)) = L"
    "set (co_garbage st) \<subseteq> {..<length (ra_transitions a)} - {ra_initial_state a}"
    "(p, l, q) \<in> edges (ra_transitions a) \<Longrightarrow> q \<notin> set (co_garbage st)"
    "\<not> co_loop_on_initial st \<Longrightarrow> (p, l, ra_initial_state a) \<notin> edges (ra_transitions a)"
  using assms by (auto simp: concat_inv_def Let_def wf_raw_def)

lemma concat_invI:
  assumes "ra_transitions (co_automaton st) = ts" "ra_initial_state (co_automaton st) = i" "set (ra_final_states (co_automaton st)) = F"
    and "i < length ts" "F \<subseteq> {..<length ts}" "distinct (ra_final_states (co_automaton st))" "wf_table n ts"
    and "distinct (ra_markers (co_automaton st))" "lang (edges ts) {i} F = L" "set (co_garbage st) \<subseteq> {..<length ts} - {i}"
    and "\<And>p l q. (p, l, q) \<in> edges ts \<Longrightarrow> q \<notin> set (co_garbage st)"
    and "\<And>p l. \<not> co_loop_on_initial st \<Longrightarrow> (p, l, i) \<notin> edges ts"
  shows "concat_inv n L st"
  unfolding concat_inv_def Let_def using assms by (auto simp: wf_raw_def)

text \<open>The automaton to be put in front, shifted behind the states of the accumulated one.\<close>

lemma plugging_shifted:
  assumes inv: "concat_inv n L st" and wf: "wf_raw n a"
  defines "acc \<equiv> co_automaton st" and "k \<equiv> length (ra_transitions (co_automaton st))"
  shows "plugging k (edges (ra_transitions acc)) (shifted k (edges (ra_transitions a))) (ra_initial_state acc)
     (ra_initial_state a + k) (set (ra_final_states acc)) ((\<lambda>s. s + k) ` set (ra_final_states a))"
proof -
  note c = concat_invD [OF inv, folded acc_def]
  show ?thesis
    unfolding plugging_def using c(1,2) by (auto simp: k_def acc_def [symmetric] dest: wf_tableD [OF c(4)] shifted_ge)
qed

lemma edges_map_pairs: "edges (map (map g) ts) = {(p, fst (g (l, q)), snd (g (l, q))) |p l q. (p, l, q) \<in> edges ts}"
proof (intro set_eqI iffI)
  fix x assume "x \<in> edges (map (map g) ts)"
  then obtain p l q y where "x = (p, l, q)" "p < length ts" "y \<in> set (ts ! p)" "(l, q) = g y" by (auto simp: edges_def)
  then show "x \<in> {(p, fst (g (l, q)), snd (g (l, q))) |p l q. (p, l, q) \<in> edges ts}"
    by (cases y) (auto simp: edges_def intro!: exI [of _ p] exI [of _ "fst y"] exI [of _ "snd y"] dest: arg_cong [of _ _ fst] arg_cong [of _ _ snd])
next
  fix x assume "x \<in> {(p, fst (g (l, q)), snd (g (l, q))) |p l q. (p, l, q) \<in> edges ts}"
  then obtain p l q where "x = (p, fst (g (l, q)), snd (g (l, q)))" "p < length ts" "(l, q) \<in> set (ts ! p)" by (auto simp: edges_def)
  then show "x \<in> edges (map (map g) ts)" by (auto simp: edges_def intro!: image_eqI [of _ _ "(l, q)"])
qed

lemma redirected_image: "redirected E i F = (\<lambda>(p, l, q). (p, l, if q \<in> F then i else q)) ` E"
  unfolding redirected_def by force

lemma edges_redirected:
  assumes "edges ts' = {(p, l, q + k) |p l q. (p, l, q) \<in> edges ts}" and "length xs = k"
  shows "edges (xs @ map (map (redirect_target fs k i)) ts') =
    edges xs \<union> redirected (shifted k (edges ts)) i ((\<lambda>s. s + k) ` set fs)"
proof -
  let ?g = "\<lambda>(p, l, q). (p + k, l, if q \<in> set fs then i else q + k)"
  have "{(p + k, l, q) |p l q. (p, l, q) \<in> edges (map (map (redirect_target fs k i)) ts')} = ?g ` edges ts"
    unfolding edges_map_pairs assms(1) by (force simp: redirect_target_def)
  moreover have "redirected (shifted k (edges ts)) i ((\<lambda>s. s + k) ` set fs) = ?g ` edges ts"
  proof -
    have "redirected (shifted k (edges ts)) i ((\<lambda>s. s + k) ` set fs) =
        (\<lambda>(p, l, q). (p, l, if q \<in> (\<lambda>s. s + k) ` set fs then i else q)) ` shifted k (edges ts)"
      by (rule redirected_image)
    then show ?thesis unfolding shifted_def image_image by (auto intro!: image_cong)
  qed
  ultimately show ?thesis unfolding edges_append assms(2) by simp
qed

lemma concat_redirect_inv:
  assumes inv: "concat_inv n L st" and wf: "wf_raw n a" and ne: "language a \<noteq> {[]}"
    and nf: "\<forall>p\<in>set (ra_final_states a). \<forall>l q. (p, l, q) \<notin> edges (ra_transitions a)"
    and k: "k = length (ra_transitions (co_automaton st))"
    and ts': "edges ts' = {(p, l, q + k) |p l q. (p, l, q) \<in> edges (ra_transitions a)}" "length ts' = length (ra_transitions a)"
  shows "concat_inv n (conc (language a) L) (concat_redirect a ts' st) \<and>
    (concat_trimmed st \<longrightarrow> trim a \<longrightarrow> language a \<noteq> {} \<longrightarrow> L \<noteq> {} \<longrightarrow> concat_trimmed (concat_redirect a ts' st))"
proof -
  let ?acc = "co_automaton st" and ?E2 = "shifted k (edges (ra_transitions a))" and ?F2 = "(\<lambda>s. s + k) ` set (ra_final_states a)"
  note c = concat_invD [OF inv] and w = wf_rawD [OF wf]
  let ?ts = "ra_transitions ?acc @ map (map (redirect_target (ra_final_states a) k (ra_initial_state ?acc))) ts'"
  have E: "edges ?ts = edges (ra_transitions ?acc) \<union> redirected ?E2 (ra_initial_state ?acc) ?F2"
    by (rule edges_redirected [OF ts'(1) k [symmetric]])
  have i: "ra_initial_state a \<notin> set (ra_final_states a)" by (rule initial_not_final [OF nf ne])
  have "(p, l, q) \<notin> ?E2" if "p \<in> ?F2" for p l q using that nf by (auto simp: shifted_def)
  then have L: "lang (edges ?ts) {ra_initial_state a + k} (set (ra_final_states ?acc)) = conc (language a) L"
    unfolding E using i
    by (subst lang_redirect [OF _ _ plugging_shifted [OF inv wf, folded k]]) (auto simp: lang_shifted language_def c(6))
  have E2: "k \<le> p \<and> p < k + length (ra_transitions a) \<and> unat (l_char l) < n \<and>
      (q = ra_initial_state ?acc \<or> k \<le> q \<and> q < k + length (ra_transitions a) \<and> q \<notin> ?F2 \<and> (p - k, l, q - k) \<in> edges (ra_transitions a))"
    if "(p, l, q) \<in> redirected ?E2 (ra_initial_state ?acc) ?F2" for p l q
    using that wf_tableD [OF w(4)] by (auto simp: redirected_def shifted_def split: if_splits)
  have wft: "wf_table n ?ts"
    unfolding wf_table_def E using wf_tableD [OF c(4)] E2 c(1) ts'(2) k by fastforce
  let ?G = "set (co_garbage (concat_redirect a ts' st))"
  have G: "?G \<subseteq> set (co_garbage st) \<union> ?F2 \<inter> {..<k + length (ra_transitions a)}"
  proof -
    have "q \<in> ?F2 \<inter> {..<k + length (ra_transitions a)}"
      if "(l, q) \<in> set (concat ts')" "q - k \<in> set (ra_final_states a)" for l q
    proof -
      from that(1) obtain row where "row \<in> set ts'" "(l, q) \<in> set row" by auto
      then obtain p where "(p, l, q) \<in> edges ts'" by (auto simp: edges_def in_set_conv_nth [of row])
      then obtain q0 where "q = q0 + k" by (auto simp: ts'(1))
      with that(2) w(2) show ?thesis by auto
    qed
    then show ?thesis by (fastforce simp: concat_redirect_def Let_def k)
  qed
  have noG: "q \<notin> ?G" if "(p, l, q) \<in> edges ?ts" for p l q
    using that [unfolded E] c(7,8) E2 [of p l q] G c(1) k wf_tableD [OF c(4), of p l q] by fastforce
  have noI: "(p, l, ra_initial_state a + k) \<notin> edges ?ts" if "\<not> loop_on_initial a" for p l
    unfolding E using that E2 [of p l "ra_initial_state a + k"] wf_tableD [OF c(4), of p l "ra_initial_state a + k"] c(1) k
    by (auto simp: loop_on_initial_iff)
  have "?G \<subseteq> {..<length ?ts} - {ra_initial_state a + k}" using G c(7) i ts'(2) k by fastforce
  moreover have "co_loop_on_initial (concat_redirect a ts' st) = loop_on_initial a" by (simp add: concat_redirect_def Let_def)
  moreover have "set (ra_final_states ?acc) \<subseteq> {..<length ?ts}" using c(2) k by auto
  ultimately have "concat_inv n (conc (language a) L) (concat_redirect a ts' st)"
    using c(1,3,5) w(1) ts'(2) k noG noI
    by (intro concat_invI [where ts = ?ts, OF _ _ _ _ _ _ wft _ L]) (simp_all add: concat_redirect_def Let_def del: set_fold_hash_insert)
  moreover have "concat_trimmed (concat_redirect a ts' st)"
    if st: "concat_trimmed st" and a: "trim a" and ne: "language a \<noteq> {}" "L \<noteq> {}"
  proof -
    let ?i = "ra_initial_state ?acc" and ?j = "ra_initial_state a + k" and ?F = "set (ra_final_states ?acc)"
    let ?live = "live (edges (ra_transitions ?acc) \<union> redirected ?E2 ?i ?F2) {?j} ?F"
    have t2: "trimmed ?E2 {?j} ?F2" using trimmed_shifted a by (simp add: trim_def)
    have nf2: "(p, l, q) \<notin> ?E2" if "p \<in> ?F2" for p l q using that nf by (auto simp: shifted_def)
    have ini: "?j \<notin> ?F2" "?j \<in> live ?E2 {?j} ?F2" "?i \<in> live_of ?acc"
      using i ne c(6) lang_shifted [of k "edges (ra_transitions a)" "ra_initial_state a" "set (ra_final_states a)"]
      by (auto simp: lang_nonempty_live [symmetric] language_def)
    note new = live_redirect [OF nf2 ini]
    have sub: "set (co_garbage st) \<subseteq> ?G" by (auto simp: concat_redirect_def Let_def)
    have e1: "p \<in> ?live \<and> q \<in> ?live" if "(p, l, q) \<in> edges (ra_transitions ?acc)" "p \<notin> ?G" for p l q
      using concat_trimmedD(1) [OF st that(1)] that(2) sub new(1) by blast
    have e2: "p \<in> ?live \<and> q' \<in> ?live" if "(p, l, q') \<in> redirected ?E2 ?i ?F2" for p l q'
    proof -
      from that obtain q where q: "(p, l, q) \<in> ?E2" "q' = (if q \<in> ?F2 then ?i else q)" by (auto simp: redirected_def)
      from q(1) nf2 have "p \<notin> ?F2" by blast
      with trimmedD(1,2) [OF t2 q(1)] q(2) new ini(3) show ?thesis by auto
    qed
    have f: "f \<in> ?live" if "f \<in> ?F" "f \<notin> ?G" for f using concat_trimmedD(2) [OF st that(1)] that(2) sub new(1) by blast
    have loop: "\<exists>p l. (p, l, ?j) \<in> edges ?ts \<and> p \<notin> ?G" if "loop_on_initial a"
    proof -
      from that obtain p l where p: "(p, l, ra_initial_state a) \<in> edges (ra_transitions a)" by (auto simp: loop_on_initial_iff)
      then have "(p + k, l, ?j) \<in> ?E2" by (force simp: shifted_def)
      moreover from this nf2 have "p + k \<notin> ?F2" by blast
      then have "p + k \<notin> ?G" using G c(7) k by auto
      ultimately show ?thesis unfolding E redirected_def using ini(1) by force
    qed
    have "edges (ra_transitions (co_automaton (concat_redirect a ts' st))) = edges (ra_transitions ?acc) \<union> redirected ?E2 ?i ?F2"
      "ra_initial_state (co_automaton (concat_redirect a ts' st)) = ?j"
      "ra_final_states (co_automaton (concat_redirect a ts' st)) = ra_final_states ?acc"
      "co_loop_on_initial (concat_redirect a ts' st) = loop_on_initial a"
      unfolding E [symmetric] by (simp_all add: concat_redirect_def Let_def k)
    then show ?thesis unfolding concat_trimmed_def Let_def using e1 e2 f loop [unfolded E] by auto
  qed
  ultimately show ?thesis by blast
qed

lemma copy_outgoing_rows:
  assumes "i < length ts" and "set fs \<subseteq> {..<length ts}" and "i \<notin> set fs"
  shows "\<exists>ts'. fold_opt (copy_outgoing i) fs ts = Some ts' \<and> length ts' = length ts \<and>
      edges ts' = edges ts \<union> {(f, l, q) |f l q. f \<in> set fs \<and> (i, l, q) \<in> edges ts}"
  using assms
proof (induction fs arbitrary: ts)
  case (Cons f fs)
  let ?ts = "ts[f := ts ! f @ ts ! i]"
  have f: "f < length ts" "i \<noteq> f" using Cons.prems by auto
  have E: "edges ?ts = edges ts \<union> {(f, l, q) |l q. (i, l, q) \<in> edges ts}"
    using f Cons.prems(1) by (auto simp: edges_def nth_list_update split: if_splits)
  have c: "copy_outgoing i f ts = Some ?ts" using f Cons.prems(1) by (simp add: copy_outgoing_def index_opt_nth)
  from Cons.IH [of ?ts] Cons.prems obtain ts' where ts': "fold_opt (copy_outgoing i) fs ?ts = Some ts'" "length ts' = length ts"
    "edges ts' = edges ?ts \<union> {(f, l, q) |f l q. f \<in> set fs \<and> (i, l, q) \<in> edges ?ts}" by auto
  have "(i, l, q) \<in> edges ?ts \<longleftrightarrow> (i, l, q) \<in> edges ts" for l q using f(2) by (auto simp: E)
  with ts' c E show ?case by auto
qed auto

lemma concat_plug_inv:
  assumes inv: "concat_inv n L st" and wf: "wf_raw n a"
    and k: "k = length (ra_transitions (co_automaton st))"
    and ts': "edges ts' = {(p, l, q + k) |p l q. (p, l, q) \<in> edges (ra_transitions a)}" "length ts' = length (ra_transitions a)"
  shows "\<exists>st'. concat_plug a ts' st = Some st' \<and> concat_inv n (conc (language a) L) st' \<and>
    (concat_trimmed st \<longrightarrow> trim a \<longrightarrow> language a \<noteq> {} \<longrightarrow> L \<noteq> {} \<longrightarrow> concat_trimmed st')"
proof -
  let ?acc = "co_automaton st" and ?E2 = "shifted k (edges (ra_transitions a))" and ?F2 = "(\<lambda>s. s + k) ` set (ra_final_states a)"
  let ?E = "edges (ra_transitions ?acc)" and ?i = "ra_initial_state ?acc" and ?F = "set (ra_final_states ?acc)"
  note c = concat_invD [OF inv] and w = wf_rawD [OF wf] and pl = plugging_shifted [OF inv wf, folded k]
  let ?A = "ra_transitions ?acc @ ts'" and ?fs = "map (\<lambda>s. s + k) (ra_final_states a)"
  have rows: "?i < length ?A" "set ?fs \<subseteq> {..<length ?A}" "?i \<notin> set ?fs" using c(1) w(2) ts'(2) k by auto
  obtain ts where ts: "fold_opt (copy_outgoing ?i) (map (\<lambda>s. s + k) (ra_final_states a)) (ra_transitions ?acc @ ts') = Some ts"
    "length ts = k + length ts'" and "edges ts = edges (ra_transitions ?acc @ ts') \<union>
      {(f, l, q) |f l q. f \<in> ?F2 \<and> (?i, l, q) \<in> edges (ra_transitions ?acc @ ts')}"
    using copy_outgoing_rows [OF rows] k by auto
  moreover have app: "edges (ra_transitions ?acc @ ts') = ?E \<union> ?E2" using edges_append_shifted [of ts' "ra_transitions ?acc"] ts'(1) k by simp
  moreover have "(?i, l, q) \<in> ?E \<union> ?E2 \<longleftrightarrow> (?i, l, q) \<in> ?E" for l q using shifted_ge [of ?i l q k] c(1) k by auto
  ultimately have E: "edges ts = plugged ?E ?E2 ?i ?F2" by (auto simp: plugged_def)
  define st' where "st' = the (concat_plug a ts' st)"
  have st': "concat_plug a ts' st = Some st'" by (simp add: st'_def concat_plug_def Let_def k [symmetric] ts(1))
  have proj: "ra_transitions (co_automaton st') = ts" "ra_initial_state (co_automaton st') = ra_initial_state a + k"
    "set (ra_final_states (co_automaton st')) = ?F \<union> (if ?i \<in> ?F then ?F2 else {})" "distinct (ra_final_states (co_automaton st'))"
    "ra_markers (co_automaton st') = ra_markers ?acc" "co_loop_on_initial st' = loop_on_initial a"
    "set (co_garbage st') = set (co_garbage st) \<union> (if co_loop_on_initial st then {} else {?i})"
    using c(3) by (auto simp: st'_def concat_plug_def Let_def k [symmetric] ts(1))
  have L: "lang (edges ts) {ra_initial_state a + k} (?F \<union> (if ?i \<in> ?F then ?F2 else {})) = conc (language a) L"
    unfolding E lang_plugged [OF pl] by (simp add: lang_shifted language_def c(6))
  have old: "p < k \<and> q < k \<and> unat (l_char l) < n \<and> q \<notin> set (co_garbage st')" if "(p, l, q) \<in> ?E" for p l q
    using that wf_tableD [OF c(4) that] c(8) [OF that] c(9) by (auto simp: proj(7) k)
  have new: "k \<le> p \<and> p < k + length ts' \<and> unat (l_char l) < n \<and> q \<notin> set (co_garbage st') \<and> q < k + length ts' \<and>
      (q < k \<or> k \<le> q \<and> (p - k, l, q - k) \<in> edges (ra_transitions a))"
    if "(p, l, q) \<in> edges ts" "(p, l, q) \<notin> ?E" for p l q
  proof (cases "(p, l, q) \<in> ?E2")
    case True
    then obtain p0 q0 where "p = p0 + k" "q = q0 + k" "(p0, l, q0) \<in> edges (ra_transitions a)" by (auto simp: shifted_def)
    with wf_tableD [OF w(4), of p0 l q0] c(1,7) k ts'(2) show ?thesis by (auto simp: proj(7))
  next
    case False
    with that have "p \<in> ?F2" "(?i, l, q) \<in> ?E" by (auto simp: E plugged_def)
    with old [of ?i l q] w(2) ts'(2) show ?thesis by auto
  qed
  have wft: "wf_table n ts" unfolding wf_table_def ts(2) using old new by fastforce
  have "concat_inv n (conc (language a) L) st'"
  proof (rule concat_invI [OF proj(1-3) _ _ proj(4) wft _ L])
    show "(p, l, ra_initial_state a + k) \<notin> edges ts" if "\<not> co_loop_on_initial st'" for p l
      using that new [of p l "ra_initial_state a + k"] old [of p l "ra_initial_state a + k"] by (auto simp: proj(6) loop_on_initial_iff)
    show "set (co_garbage st') \<subseteq> {..<length ts} - {ra_initial_state a + k}" using c(1,7) k ts(2) by (auto simp: proj(7))
    show "q \<notin> set (co_garbage st')" if "(p, l, q) \<in> edges ts" for p l q using old [of p l q] new [OF that] by blast
  qed (use c(1,2,5) w(1,2) k ts'(2) in \<open>auto simp: proj(5) ts(2)\<close>)
  moreover have "concat_trimmed st'"
    if tr: "concat_trimmed st" and a: "trim a" and ne: "language a \<noteq> {}" "L \<noteq> {}"
  proof -
    let ?j = "ra_initial_state a + k" and ?G = "set (co_garbage st')"
    let ?live = "live (plugged ?E ?E2 ?i ?F2) {?j} (?F \<union> (if ?i \<in> ?F then ?F2 else {}))"
    have t2: "trimmed ?E2 {?j} ?F2" using trimmed_shifted a by (simp add: trim_def)
    have ini: "?j \<in> live ?E2 {?j} ?F2" "?i \<in> live_of ?acc"
      using ne c(6) lang_shifted [of k "edges (ra_transitions a)" "ra_initial_state a" "set (ra_final_states a)"]
      by (auto simp: lang_nonempty_live [symmetric] language_def)
    note new = live_plugged [OF ini]
    have away: "\<exists>u. steps ?E ?i u s \<and> u \<noteq> []" if s: "s \<in> live_of ?acc" "s \<notin> ?G" for s
    proof (cases "s = ?i")
      case True
      with s(2) have "co_loop_on_initial st" by (simp add: proj(7) split: if_splits)
      from concat_trimmedD(3) [OF tr this] obtain p l where p: "(p, l, ?i) \<in> ?E" "p \<notin> set (co_garbage st)" by blast
      from concat_trimmedD(1) [OF tr this] obtain u where "steps ?E ?i u p" by (auto elim: liveE)
      with p(1) True have "steps ?E ?i (u @ [l]) s" by (auto simp: steps_append)
      then show ?thesis by blast
    next
      case False
      from s(1) obtain u where "steps ?E ?i u s" by (elim liveE) simp
      with False show ?thesis by (intro exI [of _ u]) (cases u, auto)
    qed
    have sub: "set (co_garbage st) \<subseteq> ?G" by (simp add: proj(7))
    have e1: "p \<in> ?live \<and> q \<in> ?live" if e: "(p, l, q) \<in> ?E" "p \<notin> ?G" for p l q
    proof -
      have pq: "p \<in> live_of ?acc" "q \<in> live_of ?acc" using concat_trimmedD(1) [OF tr e(1)] e(2) sub by blast+
      from away [OF pq(1) e(2)] obtain u where u: "steps ?E ?i u p" "u \<noteq> []" by blast
      then have "steps ?E ?i (u @ [l]) q" using e(1) by (auto simp: steps_append)
      from new(1) [OF u pq(1)] new(1) [OF this _ pq(2)] show ?thesis by simp
    qed
    have e2: "p \<in> ?live \<and> q \<in> ?live" if "(p, l, q) \<in> ?E2" for p l q using trimmedD(1,2) [OF t2 that] new(2) by blast
    have e3: "p \<in> ?live \<and> q \<in> ?live" if e: "p \<in> ?F2" "(?i, l, q) \<in> ?E" for p l q
    proof -
      have "q \<in> live_of ?acc" using concat_trimmedD(1) [OF tr e(2)] c(7) by blast
      moreover have "steps ?E ?i [l] q" using e(2) by simp
      ultimately have "q \<in> ?live" using new(1) by blast
      with trimmedD(3) [OF t2 e(1)] new(2) show ?thesis by blast
    qed
    have f: "f \<in> ?live" if "f \<in> ?F \<union> (if ?i \<in> ?F then ?F2 else {})" "f \<notin> ?G" for f
    proof (cases "f \<in> ?F")
      case True
      then have "f \<in> live_of ?acc" using concat_trimmedD(2) [OF tr True] that(2) sub by blast
      with away [OF this that(2)] new(1) show ?thesis by blast
    next
      case False
      then have "f \<in> ?F2" using that(1) by (simp split: if_splits)
      then show ?thesis using trimmedD(3) [OF t2] new(2) by blast
    qed
    have loop: "\<exists>p l. (p, l, ?j) \<in> plugged ?E ?E2 ?i ?F2 \<and> p \<notin> ?G" if "loop_on_initial a"
    proof -
      from that obtain p l where p: "(p, l, ra_initial_state a) \<in> edges (ra_transitions a)" by (auto simp: loop_on_initial_iff)
      then have "(p + k, l, ?j) \<in> plugged ?E ?E2 ?i ?F2" by (force simp: shifted_def plugged_def)
      moreover have "p + k \<notin> ?G" using c(1,7) k by (auto simp: proj(7))
      ultimately show ?thesis by blast
    qed
    have "(p, l, q) \<in> ?E \<or> (p, l, q) \<in> ?E2 \<or> p \<in> ?F2 \<and> (?i, l, q) \<in> ?E" if "(p, l, q) \<in> plugged ?E ?E2 ?i ?F2" for p l q
      using that unfolding plugged_def by blast
    then have "p \<in> ?live \<and> q \<in> ?live" if "(p, l, q) \<in> plugged ?E ?E2 ?i ?F2" "p \<notin> ?G" for p l q
      using that e1 e2 e3 by blast
    then show ?thesis unfolding concat_trimmed_def Let_def proj(1-3,6) E using f loop by blast
  qed
  ultimately show ?thesis using st' by blast
qed

lemma concat_step_inv:
  assumes inv: "concat_inv n L st" and wf: "wf_raw n a" and ne: "language a \<noteq> {[]}"
  shows "\<exists>st'. concat_step a st = Some st' \<and> concat_inv n (conc (language a) L) st' \<and>
    (concat_trimmed st \<longrightarrow> trim a \<longrightarrow> language a \<noteq> {} \<longrightarrow> L \<noteq> {} \<longrightarrow> concat_trimmed st')"
proof -
  let ?k = "length (ra_transitions (co_automaton st))"
  obtain ts' ms where f: "filter_map_transitions (ra_transitions a) (\<lambda>s. Some (s + ?k)) (length (ra_transitions a)) ?k = Some (ts', ms)"
    "length ts' = length (ra_transitions a)" "edges ts' = {(p, l, q + ?k) |p l q. (p, l, q) \<in> edges (ra_transitions a)}"
    by (rule filter_map_shift [OF wf_rawD(4) [OF wf], of ?k]) blast
  obtain b where b: "nothing_after_final a = Some b"
    "b \<longleftrightarrow> (\<forall>p\<in>set (ra_final_states a). \<forall>l q. (p, l, q) \<notin> edges (ra_transitions a))"
    by (rule nothing_after_final_spec [OF wf]) blast
  show ?thesis
    using concat_redirect_inv [OF inv wf ne _ refl f(3,2)] concat_plug_inv [OF inv wf refl f(3,2)] b
    by (cases b) (auto simp: concat_step_def Let_def f(1))
qed

definition concs :: "'l list set list \<Rightarrow> 'l list set" where
  "concs Ls = foldr conc Ls {[]}"

lemma concat_fold:
  assumes "\<forall>a\<in>set automata. wf_raw n a \<and> language a \<noteq> {[]}"
  shows "\<exists>st. fold_opt concat_step (rev automata) \<lparr>co_automaton = epsilon_automaton, co_garbage = [], co_loop_on_initial = False\<rparr> = Some st \<and>
      concat_inv n (concs (map language automata)) st \<and>
      ((\<forall>a\<in>set automata. trim a \<and> language a \<noteq> {}) \<longrightarrow> concat_trimmed st \<and> concs (map language automata) \<noteq> {})"
  using assms
proof (induction automata)
  case Nil
  have "concat_trimmed \<lparr>co_automaton = epsilon_automaton, co_garbage = [], co_loop_on_initial = False\<rparr>"
    using trim_epsilon by (auto simp: concat_trimmed_def trim_def trimmed_def)
  moreover have "concat_inv n {[]} \<lparr>co_automaton = epsilon_automaton, co_garbage = [], co_loop_on_initial = False\<rparr>"
    using epsilon_spec(1) [of n] epsilon_spec(2)
    by (auto simp: concat_inv_def Let_def wf_raw_def language_def) (auto simp: epsilon_automaton_def edges_def)
  ultimately show ?case by (simp add: concs_def)
next
  case (Cons a automata)
  then obtain st where st: "fold_opt concat_step (rev automata) \<lparr>co_automaton = epsilon_automaton, co_garbage = [], co_loop_on_initial = False\<rparr> = Some st"
    "concat_inv n (concs (map language automata)) st"
    and tr: "(\<forall>a\<in>set automata. trim a \<and> language a \<noteq> {}) \<longrightarrow> concat_trimmed st \<and> concs (map language automata) \<noteq> {}" by auto
  from concat_step_inv [OF st(2), of a] Cons.prems obtain st' where st': "concat_step a st = Some st'"
    "concat_inv n (conc (language a) (concs (map language automata))) st'"
    "concat_trimmed st \<longrightarrow> trim a \<longrightarrow> language a \<noteq> {} \<longrightarrow> concs (map language automata) \<noteq> {} \<longrightarrow> concat_trimmed st'" by auto
  have "conc A B \<noteq> {}" if "A \<noteq> {}" "B \<noteq> {}" for A B :: "letter list set" using that by (auto simp: conc_def)
  with st(1) st' tr show ?case by (auto simp: fold_opt_append concs_def)
qed

text \<open>States that nothing enters can be dropped.\<close>

lemma lang_drop_unentered:
  assumes "\<And>p l q. (p, l, q) \<in> E \<Longrightarrow> q \<in> S" and "i \<in> S"
  shows "lang (restrict_edges S E) {i} (F \<inter> S) = lang E {i} F"
proof -
  have "steps (restrict_edges S E) p w q \<and> q \<in> S \<longleftrightarrow> steps E p w q" if "p \<in> S" for p w q
    using that
  proof (induction w arbitrary: p)
    case (Cons l w)
    have "(p, l, r) \<in> restrict_edges S E \<longleftrightarrow> (p, l, r) \<in> E \<and> r \<in> S" for r using assms(1) [of p l r] Cons.prems by (auto simp: restrict_edges_def)
    with Cons.IH assms(1) [of p l] show ?case by (auto 4 4)
  qed auto
  with assms(2) show ?thesis by (auto simp: lang_def)
qed

theorem concat_automata_spec:
  assumes wf: "\<forall>a\<in>set automata. wf_raw n a \<and> language a \<noteq> {[]}"
  obtains b where "concat_automata automata = Some b" and "wf_raw n b" and "language b = concs (map language automata)"
    and "ra_complete b = list_all ra_complete automata" and "markers_cover b"
    and "\<forall>a\<in>set automata. trim a \<and> language a \<noteq> {} \<Longrightarrow> trim b"
proof -
  obtain st where st: "fold_opt concat_step (rev automata) \<lparr>co_automaton = epsilon_automaton, co_garbage = [], co_loop_on_initial = False\<rparr> = Some st"
    "concat_inv n (concs (map language automata)) st"
    and tr: "(\<forall>a\<in>set automata. trim a \<and> language a \<noteq> {}) \<longrightarrow> concat_trimmed st" using concat_fold [OF wf] by blast
  let ?a = "co_automaton st"
  let ?E = "edges (ra_transitions ?a)" and ?F = "set (ra_final_states ?a)" and ?i = "ra_initial_state ?a"
  note c = concat_invD [OF st(2)]
  define kept where "kept = filter (\<lambda>source. source \<notin> set (co_garbage st)) [0..<length (ra_transitions ?a)]"
  let ?f = "\<lambda>x. the (renaming_of kept x)"
  have kept: "distinct kept" "set kept = {..<length (ra_transitions ?a)} - set (co_garbage st)" by (auto simp: kept_def)
  obtain ts' ms where r: "filter_map_transitions (ra_transitions ?a) (renaming_of kept) (length kept) 0 = Some (ts', ms)"
    "length ts' = length kept" "edges ts' = (\<lambda>(p, l, q). (?f p, l, ?f q)) ` restrict_edges (set kept) ?E" "distinct ms"
    "set ms = {l_marker l |p l q. (p, l, q) \<in> restrict_edges (set kept) ?E}"
    by (rule filter_map_renaming [OF kept(1), of "ra_transitions ?a"]) blast
  have i: "?i \<in> set kept" using c(1,7) by (auto simp: kept(2))
  obtain j where ren: "renaming_of kept ?i = Some j" "j < length kept" using renaming_of_member [OF i] by blast
  let ?b = "\<lparr>ra_deterministic = False, ra_complete = list_all ra_complete automata, ra_initial_state = j,
    ra_final_states = hash_collect (List.map_filter (renaming_of kept) (ra_final_states ?a)), ra_transitions = ts', ra_markers = ms\<rparr>"
  have fin: "set (ra_final_states ?b) = ?f ` (?F \<inter> set kept)" by (simp add: set_map_filter_renaming)
  have eq: "concat_automata automata = Some (check_determinism ?b)"
    by (simp add: concat_automata_def st(1) Let_def kept_def [symmetric] r(1) ren(1))
  have lt: "?f v < length ts'" if "v \<in> set kept" for v using renaming_of_member [OF that] by (simp add: r(2))
  have "wf_table n ts'" using wf_table_image [OF c(4) r(3) [THEN equalityD1] lt] by blast
  then have "wf_raw n ?b" using r(2,4) fin lt ren(2) by (auto simp: wf_raw_def)
  moreover have "language ?b = lang (restrict_edges (set kept) ?E) {?i} (?F \<inter> set kept)"
    using lang_rename [OF renaming_of_inj_on, of "restrict_edges (set kept) ?E" kept "{?i}" "?F \<inter> set kept"] i
    unfolding language_def fin by (simp add: r(3) restrict_edges_def ren(1))
  moreover have into: "q \<in> set kept" if "(p, l, q) \<in> ?E" for p l q using c(8) [OF that] wf_tableD [OF c(4) that] by (simp add: kept(2))
  ultimately have "language ?b = concs (map language automata)" using lang_drop_unentered [of ?E "set kept" ?i ?F] i c(6) by simp
  moreover have "trim ?b" if "\<forall>a\<in>set automata. trim a \<and> language a \<noteq> {}"
  proof -
    from tr that have ct: "concat_trimmed st" by blast
    have live: "s \<in> live (restrict_edges (set kept) ?E) {?i} (?F \<inter> set kept)" if s: "s \<in> live_of ?a" "s \<in> set kept" for s
    proof -
      from s(1) obtain u v f where f: "f \<in> ?F" "steps ?E ?i u s" "steps ?E s v f" by (elim liveE) simp
      have "steps (restrict_edges (set kept) ?E) p w q \<and> q \<in> set kept" if "steps ?E p w q" "p \<in> set kept" for p w q
        using that by (induction w arbitrary: p) (auto simp: restrict_edges_def into)
      note k = this [OF f(2) i] this [OF f(3) s(2)]
      with f(1) have "f \<in> ?F \<inter> set kept" by simp
      then show ?thesis using k by (blast intro: liveI)
    qed
    have "trimmed (restrict_edges (set kept) ?E) {?i} (?F \<inter> set kept)"
      using concat_trimmedD(1,2) [OF ct] live unfolding trimmed_def by (fastforce simp: restrict_edges_def kept(2))
    from trimmed_image [OF this, of ?f] show ?thesis by (simp only: trim_def fin) (simp add: r(3) ren(1))
  qed
  moreover have "markers_cover ?b" using r(3,5) by (force simp: markers_cover_def)
  ultimately show thesis using that [of "check_determinism ?b"] eq wf_check_determinism [OF \<open>wf_raw n ?b\<close>] by simp
qed

text \<open>
  C21: Concatenation plugs the automata together correctly: when no automaton recognises exactly the
  empty word, the construction returns, and the result recognises the words that split into one word
  of each language in order; states are renamed apart, unreachable initial and redirected final states
  are dropped, and the result is flagged complete only if all parts are.
\<close>

theorem concat_automata_correct:
  assumes "\<forall>a\<in>set automata. wf_raw n a \<and> language a \<noteq> {[]}"
  shows "\<exists>b. concat_automata automata = Some b \<and> wf_raw n b \<and> markers_cover b \<and>
    language b = {concat ws |ws. list_all2 (\<lambda>w a. w \<in> language a) ws automata} \<and> ra_complete b = list_all ra_complete automata"
proof -
  have concs: "concs Ls = {concat ws |ws. list_all2 (\<in>) ws Ls}" for Ls :: "letter list set list"
  proof (induction Ls)
    case (Cons L Ls)
    have "concs (L # Ls) = {u @ v |u v. u \<in> L \<and> v \<in> {concat ws |ws. list_all2 (\<in>) ws Ls}}"
      using Cons.IH by (simp add: concs_def conc_def)
    also have "\<dots> = {concat ws |ws. list_all2 (\<in>) ws (L # Ls)}"
    proof (intro set_eqI iffI)
      fix w assume "w \<in> {u @ v |u v. u \<in> L \<and> v \<in> {concat ws |ws. list_all2 (\<in>) ws Ls}}"
      then obtain u ws where "w = concat (u # ws)" "list_all2 (\<in>) (u # ws) (L # Ls)" by auto
      then show "w \<in> {concat ws |ws. list_all2 (\<in>) ws (L # Ls)}" by blast
    next
      fix w assume "w \<in> {concat ws |ws. list_all2 (\<in>) ws (L # Ls)}"
      then obtain u ws where "w = u @ concat ws" "u \<in> L" "list_all2 (\<in>) ws Ls" by (auto simp: list_all2_Cons2)
      then show "w \<in> {u @ v |u v. u \<in> L \<and> v \<in> {concat ws |ws. list_all2 (\<in>) ws Ls}}" by blast
    qed
    finally show ?case .
  qed (simp add: concs_def)
  obtain b where b: "concat_automata automata = Some b" "wf_raw n b" "language b = concs (map language automata)"
    "ra_complete b = list_all ra_complete automata" "markers_cover b" by (rule concat_automata_spec [OF assms])
  then show ?thesis by (intro exI [of _ b]) (simp add: concs list_all2_map2)
qed

theorem concat_automata_correct_witness:
  "\<exists>b. concat_automata [byte_concat [[\<lparr>l_char = 0, l_marker = 0\<rparr>]] 2, byte_concat [[\<lparr>l_char = 1, l_marker = 3\<rparr>]] 2] = Some b \<and>
     [\<lparr>l_char = 0, l_marker = 0\<rparr>, \<lparr>l_char = 1, l_marker = 3\<rparr>] \<in> language b \<and> [\<lparr>l_char = 0, l_marker = 0\<rparr>] \<notin> language b"
proof -
  let ?x = "\<lparr>l_char = 0, l_marker = 0\<rparr>" and ?y = "\<lparr>l_char = 1, l_marker = 3\<rparr>"
  have L: "language (byte_concat [[?x]] 2) = {[?x]}" "language (byte_concat [[?y]] 2) = {[?y]}"
    using byte_concat_spec(2) [of "[[?x]]" 2] byte_concat_spec(2) [of "[[?y]]" 2] by (auto simp: range_words_def list_all2_Cons2)
  have wf: "wf_raw 2 (byte_concat [[?x]] 2)" "wf_raw 2 (byte_concat [[?y]] 2)" by (rule byte_concat_spec(1), simp)+
  have "\<forall>a\<in>set [byte_concat [[?x]] 2, byte_concat [[?y]] 2]. wf_raw 2 a \<and> language a \<noteq> {[]}" using wf L by simp
  from concat_automata_correct [OF this] obtain b where b: "concat_automata [byte_concat [[?x]] 2, byte_concat [[?y]] 2] = Some b"
    "language b = {concat ws |ws. list_all2 (\<lambda>w a. w \<in> language a) ws [byte_concat [[?x]] 2, byte_concat [[?y]] 2]}" by blast
  have "language b = {[?x, ?y]}" unfolding b(2) by (auto simp: list_all2_Cons2 L intro!: exI [of _ "[[?x], [?y]]"])
  with b(1) show ?thesis by simp
qed

end
