(* ===== verification/Automaton_Product.thy ===== *)
theory Automaton_Product
  imports Automaton_Combine
begin

text \<open>
  Intersection (\<open>RawAutomaton::inter\<close>): the product automaton over the reachable pairs of states. Two
  transitions on the same byte are joined when their markers agree or one of them is unmarked, so the
  result recognises the letterwise join of the words of the two languages.
\<close>

section \<open>The visit of a pair of states\<close>

definition joinable :: "letter \<Rightarrow> letter \<Rightarrow> bool" where
  "joinable l1 l2 \<longleftrightarrow> l_char l1 = l_char l2 \<and> (l_marker l1 = l_marker l2 \<or> l_marker l1 = 0 \<or> l_marker l2 = 0)"

definition joined :: "letter \<Rightarrow> letter \<Rightarrow> letter" where
  "joined l1 l2 = \<lparr>l_char = l_char l1, l_marker = max (l_marker l1) (l_marker l2)\<rparr>"

definition pair_matches :: "raw_automaton \<times> raw_automaton \<Rightarrow> nat \<times> nat \<Rightarrow> ((letter \<times> nat) \<times> (letter \<times> nat)) list" where
  "pair_matches p s = filter (\<lambda>((l1, _), (l2, _)). joinable l1 l2)
     (List.product (ra_transitions (fst p) ! fst s) (ra_transitions (snd p) ! snd s))"

definition pair_transition :: "nat \<times> nat \<Rightarrow> (letter \<times> nat) \<times> (letter \<times> nat) \<Rightarrow> (nat \<times> nat) \<times> letter \<times> (nat \<times> nat)" where
  "pair_transition s m = (s, joined (fst (fst m)) (fst (snd m)), (snd (fst m), snd (snd m)))"

definition pair_new :: "raw_automaton \<times> raw_automaton \<Rightarrow> nat \<times> nat \<Rightarrow> ((nat \<times> nat) \<times> letter \<times> (nat \<times> nat)) list" where
  "pair_new p s = map (pair_transition s) (pair_matches p s)"

definition pair_succ :: "raw_automaton \<times> raw_automaton \<Rightarrow> nat \<times> nat \<Rightarrow> (nat \<times> nat) list" where
  "pair_succ p s = map (\<lambda>(_, _, t). t) (pair_new p s)"

definition same_markers :: "((letter \<times> nat) \<times> (letter \<times> nat)) list \<Rightarrow> bool" where
  "same_markers ms = list_all (\<lambda>m. l_marker (fst (fst m)) = l_marker (fst (snd m))) ms"

definition record_matches :: "nat \<times> nat \<Rightarrow> ((letter \<times> nat) \<times> (letter \<times> nat)) list \<Rightarrow> join_state \<Rightarrow> join_state" where
  "record_matches s ms st = st
     \<lparr>j_deterministic := j_deterministic st \<and> same_markers ms,
      j_complete := j_complete st \<and> same_markers ms,
      j_markers := fold hash_insert (map (\<lambda>m. l_marker (joined (fst (fst m)) (fst (snd m)))) ms) (j_markers st),
      j_transitions := j_transitions st @ map (pair_transition s) ms\<rparr>"

lemma fold_join:
  "fold (\<lambda>((letter1, target1), (letter2, target2)) (st, new).
       case join (source1, letter1, target1) (source2, letter2, target2) st of
         (st, b) \<Rightarrow> (st, if b then new @ [(target1, target2)] else new)) xs (st, new) =
   (let ms = filter (\<lambda>((l1, _), (l2, _)). joinable l1 l2) xs
    in (record_matches (source1, source2) ms st, new @ map (\<lambda>m. (snd (fst m), snd (snd m))) ms))"
proof (induction xs arbitrary: st new)
  case (Cons x xs)
  obtain l1 t1 l2 t2 where x: "x = ((l1, t1), (l2, t2))" by (metis surj_pair)
  have j: "join (source1, l1, t1) (source2, l2, t2) st =
      (if joinable l1 l2 then (record_matches (source1, source2) [x] st, True) else (st, False))"
    by (simp add: x join_def joinable_def record_matches_def same_markers_def pair_transition_def joined_def Let_def)
  have r: "record_matches s ms (record_matches s [x] st) = record_matches s (x # ms) st" for s ms
    by (simp add: record_matches_def same_markers_def conj_assoc)
  show ?case using j by (simp add: x Cons.IH Let_def r [unfolded x])
qed (simp add: record_matches_def same_markers_def)

lemma visit_pair_spec:
  assumes "s1 < length (ra_transitions a)" "s2 < length (ra_transitions b)"
  shows "visit_pair (a, b) (s1, s2) st = Some (record_matches (s1, s2) (pair_matches (a, b) (s1, s2)) st, pair_succ (a, b) (s1, s2))"
proof -
  have "pair_succ (a, b) (s1, s2) = map (\<lambda>m. (snd (fst m), snd (snd m))) (pair_matches (a, b) (s1, s2))"
    by (simp add: pair_succ_def pair_new_def pair_transition_def comp_def)
  then show ?thesis using assms
    by (cases "ra_transitions a ! s1 = []")
      (simp_all add: visit_pair_def index_opt_nth fold_join Let_def pair_matches_def record_matches_def same_markers_def)
qed

definition pair_edges :: "raw_automaton \<times> raw_automaton \<Rightarrow> ((nat \<times> nat) \<times> letter \<times> (nat \<times> nat)) set" where
  "pair_edges p = {((s1, s2), joined l1 l2, (t1, t2)) |s1 l1 t1 s2 l2 t2.
     (s1, l1, t1) \<in> edges (ra_transitions (fst p)) \<and> (s2, l2, t2) \<in> edges (ra_transitions (snd p)) \<and> joinable l1 l2}"

lemma pair_new_edges:
  assumes "s1 < length (ra_transitions a)" "s2 < length (ra_transitions b)"
  shows "set (pair_new (a, b) (s1, s2)) = {e \<in> pair_edges (a, b). fst e = (s1, s2)}"
proof -
  have "set (pair_new (a, b) (s1, s2)) = {((s1, s2), joined l1 l2, (t1, t2)) |l1 t1 l2 t2.
      (l1, t1) \<in> set (ra_transitions a ! s1) \<and> (l2, t2) \<in> set (ra_transitions b ! s2) \<and> joinable l1 l2}"
    by (force simp: pair_new_def pair_matches_def pair_transition_def)
  also have "\<dots> = {e \<in> pair_edges (a, b). fst e = (s1, s2)}"
    using assms by (auto simp: pair_edges_def edges_def) blast+
  finally show ?thesis .
qed

definition pair_ok :: "raw_automaton \<times> raw_automaton \<Rightarrow> bool" where
  "pair_ok p \<longleftrightarrow> (\<exists>n. wf_raw n (fst p) \<and> wf_raw n (snd p))"

definition pair_states :: "raw_automaton \<times> raw_automaton \<Rightarrow> (nat \<times> nat) set" where
  "pair_states p = {..<length (ra_transitions (fst p))} \<times> {..<length (ra_transitions (snd p))}"

lemma pair_edges_closed: "pair_ok p \<Longrightarrow> (s, l, t) \<in> pair_edges p \<Longrightarrow> t \<in> pair_states p"
  by (auto simp: pair_ok_def pair_edges_def pair_states_def wf_raw_def dest: wf_tableD)

interpretation product: worklist visit_pair pair_succ pair_ok pair_states
proof
  fix p :: "raw_automaton \<times> raw_automaton" and s :: "nat \<times> nat" and acc
  obtain a b where p: "p = (a, b)" by fastforce
  obtain s1 s2 where s: "s = (s1, s2)" by fastforce
  show "finite (pair_states p)" by (simp add: pair_states_def)
  assume ok: "pair_ok p" and "s \<in> pair_states p"
  then have lt: "s1 < length (ra_transitions a)" "s2 < length (ra_transitions b)" by (auto simp: pair_states_def p s)
  from visit_pair_spec [OF lt] show "\<exists>acc'. visit_pair p s acc = Some (acc', pair_succ p s)" by (simp add: p s)
  from pair_new_edges [OF lt] pair_edges_closed [OF ok] show "set (pair_succ p s) \<subseteq> pair_states p" by (auto simp: pair_succ_def p s)
qed

section \<open>The loop\<close>

lemma fold_visit_pair:
  fixes st :: join_state
  assumes "set vs \<subseteq> pair_states (a, b)"
  defines "st' \<equiv> fold (\<lambda>s acc. fst (the (visit_pair (a, b) s acc))) vs st"
  shows "j_transitions st' = j_transitions st @ concat (map (pair_new (a, b)) vs)"
    "j_deterministic st' = (j_deterministic st \<and> (\<forall>s\<in>set vs. same_markers (pair_matches (a, b) s)))"
    "set (j_markers st') = set (j_markers st) \<union> {l_marker l |s l t. (s, l, t) \<in> set (concat (map (pair_new (a, b)) vs))}"
    "distinct (j_markers st') = distinct (j_markers st)"
proof -
  have "j_transitions st' = j_transitions st @ concat (map (pair_new (a, b)) vs) \<and>
    j_deterministic st' = (j_deterministic st \<and> (\<forall>s\<in>set vs. same_markers (pair_matches (a, b) s))) \<and>
    set (j_markers st') = set (j_markers st) \<union> (\<lambda>(s, l, t). l_marker l) ` set (concat (map (pair_new (a, b)) vs)) \<and>
    distinct (j_markers st') = distinct (j_markers st)"
    using assms(1) unfolding st'_def
  proof (induction vs arbitrary: st)
    case (Cons s vs)
    obtain s1 s2 where s: "s = (s1, s2)" by fastforce
    then have "fst (the (visit_pair (a, b) s st)) = record_matches s (pair_matches (a, b) s) st"
      using Cons.prems visit_pair_spec [of s1 a s2 b st] by (simp add: pair_states_def)
    moreover have "(\<lambda>(s, l, t). l_marker l) ` set (pair_new (a, b) s) =
        set (map (\<lambda>m. l_marker (joined (fst (fst m)) (fst (snd m)))) (pair_matches (a, b) s))"
      by (simp add: pair_new_def pair_transition_def image_image)
    ultimately show ?case
      using Cons.IH [of "record_matches s (pair_matches (a, b) s) st"] Cons.prems
      by (simp add: record_matches_def pair_new_def image_Un Un_assoc)
  qed simp
  then show "j_transitions st' = j_transitions st @ concat (map (pair_new (a, b)) vs)"
    "j_deterministic st' = (j_deterministic st \<and> (\<forall>s\<in>set vs. same_markers (pair_matches (a, b) s)))"
    "set (j_markers st') = set (j_markers st) \<union> {l_marker l |s l t. (s, l, t) \<in> set (concat (map (pair_new (a, b)) vs))}"
    "distinct (j_markers st') = distinct (j_markers st)"
    by (auto simp: image_iff) force+
qed

lemma pair_new_deterministic:
  assumes wf: "wf_raw n a" "wf_raw n b" and det: "ra_deterministic a" "ra_deterministic b" and s: "s \<in> pair_states (a, b)"
    and same: "same_markers (pair_matches (a, b) s)"
  shows "distinct (map (\<lambda>(s, l, t). (s, l)) (pair_new (a, b) s))"
proof -
  let ?r1 = "ra_transitions a ! fst s" and ?r2 = "ra_transitions b ! snd s"
  have rows: "distinct (map fst ?r1)" "distinct (map fst ?r2)"
    using wf_rawD(6) [OF wf(1) det(1)] wf_rawD(6) [OF wf(2) det(2)] s by (auto simp: row_deterministic_def pair_states_def)
  let ?key = "\<lambda>m. (s, joined (fst (fst m)) (fst (snd m)))"
  have eq: "fst (fst m) = joined (fst (fst m)) (fst (snd m)) \<and> fst (snd m) = joined (fst (fst m)) (fst (snd m))"
    if "m \<in> set (pair_matches (a, b) s)" for m
  proof -
    obtain l1 t1 l2 t2 where m: "m = ((l1, t1), (l2, t2))" by (metis surj_pair)
    have "l_marker l1 = l_marker l2" using that same by (auto simp: same_markers_def list_all_iff m)
    moreover have "l_char l1 = l_char l2" using that by (auto simp: pair_matches_def joinable_def m)
    ultimately have "l1 = l2" by simp
    then show ?thesis by (simp add: joined_def m)
  qed
  have "inj_on ?key (set (pair_matches (a, b) s))"
  proof (rule inj_onI)
    fix m m' assume m: "m \<in> set (pair_matches (a, b) s)" "m' \<in> set (pair_matches (a, b) s)" and "?key m = ?key m'"
    then have "fst (fst m) = fst (fst m')" "fst (snd m) = fst (snd m')" using eq [OF m(1)] eq [OF m(2)] by auto
    moreover have "fst m \<in> set ?r1" "fst m' \<in> set ?r1" "snd m \<in> set ?r2" "snd m' \<in> set ?r2" using m by (auto simp: pair_matches_def)
    ultimately have "fst m = fst m'" "snd m = snd m'" using rows by (auto simp: distinct_map dest: inj_onD)
    then show "m = m'" by (rule prod_eqI)
  qed
  moreover have "distinct (pair_matches (a, b) s)"
    using rows by (auto simp: pair_matches_def distinct_map intro!: distinct_filter distinct_product)
  ultimately have "distinct (map ?key (pair_matches (a, b) s))" by (simp add: distinct_map)
  moreover have "map (\<lambda>(s, l, t). (s, l)) (pair_new (a, b) s) = map ?key (pair_matches (a, b) s)"
    by (simp add: pair_new_def pair_transition_def comp_def)
  ultimately show ?thesis by simp
qed

text \<open>The words that two languages have in common, up to markers present on one side only.\<close>

definition meet :: "letter list set \<Rightarrow> letter list set \<Rightarrow> letter list set" where
  "meet A B = {map2 joined u v |u v. u \<in> A \<and> v \<in> B \<and> list_all2 joinable u v}"

lemma steps_product:
  "steps (pair_edges (a, b)) (p1, p2) w (q1, q2) \<longleftrightarrow>
   (\<exists>u v. w = map2 joined u v \<and> list_all2 joinable u v \<and> steps (edges (ra_transitions a)) p1 u q1 \<and> steps (edges (ra_transitions b)) p2 v q2)"
proof (induction w arbitrary: p1 p2)
  case Nil
  have "[] = map2 joined u v \<and> list_all2 joinable u v \<longleftrightarrow> u = [] \<and> v = []" for u v
    by (cases u; cases v) auto
  then have "(\<exists>u v. [] = map2 joined u v \<and> list_all2 joinable u v \<and> P u v) \<longleftrightarrow> P [] []" for P :: "letter list \<Rightarrow> letter list \<Rightarrow> bool"
    by metis
  from this [of "\<lambda>u v. steps (edges (ra_transitions a)) p1 u q1 \<and> steps (edges (ra_transitions b)) p2 v q2"] show ?case by simp
next
  case (Cons l w)
  have "steps (pair_edges (a, b)) (p1, p2) (l # w) (q1, q2) \<longleftrightarrow>
      (\<exists>l1 t1 l2 t2. (p1, l1, t1) \<in> edges (ra_transitions a) \<and> (p2, l2, t2) \<in> edges (ra_transitions b) \<and> joinable l1 l2 \<and>
         l = joined l1 l2 \<and> steps (pair_edges (a, b)) (t1, t2) w (q1, q2))"
    by (auto simp: pair_edges_def)
  also have "\<dots> \<longleftrightarrow> (\<exists>l1 l2 u v. l # w = map2 joined (l1 # u) (l2 # v) \<and> list_all2 joinable (l1 # u) (l2 # v) \<and>
       steps (edges (ra_transitions a)) p1 (l1 # u) q1 \<and> steps (edges (ra_transitions b)) p2 (l2 # v) q2)"
    unfolding Cons.IH by auto blast+
  also have "\<dots> \<longleftrightarrow> (\<exists>u v. l # w = map2 joined u v \<and> list_all2 joinable u v \<and>
       steps (edges (ra_transitions a)) p1 u q1 \<and> steps (edges (ra_transitions b)) p2 v q2)" (is "?l \<longleftrightarrow> ?r")
  proof
    assume ?r
    then obtain u v where uv: "l # w = map2 joined u v" "list_all2 joinable u v"
      "steps (edges (ra_transitions a)) p1 u q1" "steps (edges (ra_transitions b)) p2 v q2" by (elim exE conjE) (rule that)
    then obtain l1 u' l2 v' where "u = l1 # u'" "v = l2 # v'" by (cases u; cases v) auto
    with uv show ?l by (intro exI [of _ l1] exI [of _ l2] exI [of _ u'] exI [of _ v']) simp
  qed (elim exE, rule exI, rule exI)
  finally show ?case .
qed

lemma lang_product:
  "lang (pair_edges (a, b)) {(ra_initial_state a, ra_initial_state b)} (set (ra_final_states a) \<times> set (ra_final_states b)) =
   meet (language a) (language b)"
  unfolding lang_def language_def meet_def by (auto simp: steps_product)

text \<open>The part of the product that the loop builds.\<close>

lemma product_explored:
  assumes wf: "wf_raw n a" "wf_raw n b"
  defines "s0 \<equiv> (ra_initial_state a, ra_initial_state b)"
  obtains vs st where "explore (visit_pair (a, b)) []
      \<lparr>j_deterministic = ra_deterministic a \<and> ra_deterministic b, j_complete = ra_complete a \<and> ra_complete b, j_markers = [], j_transitions = []\<rparr> [s0] = Some (vs, st)"
    and "distinct vs" and "s0 \<in> set vs" and "\<And>s l t. (s, l, t) \<in> pair_edges (a, b) \<Longrightarrow> s \<in> set vs \<Longrightarrow> t \<in> set vs"
    and "set (j_transitions st) = restrict_edges (set vs) (pair_edges (a, b))"
    and "j_deterministic st \<Longrightarrow> distinct (map (\<lambda>(s, l, t). (s, l)) (j_transitions st))"
    and "distinct (j_markers st)"
proof -
  let ?p = "(a, b)" and ?acc = "\<lparr>j_deterministic = ra_deterministic a \<and> ra_deterministic b, j_complete = ra_complete a \<and> ra_complete b, j_markers = [], j_transitions = []\<rparr>"
  have ok: "pair_ok ?p" using wf by (auto simp: pair_ok_def)
  have s0: "s0 \<in> pair_states ?p" using wf_rawD(1) [OF wf(1)] wf_rawD(1) [OF wf(2)] by (simp add: s0_def pair_states_def)
  define st where "st vs = fold (\<lambda>s acc. fst (the (visit_pair ?p s acc))) vs ?acc" for vs
  from product.explore_from [OF ok s0, of ?acc] obtain vs' where
    vs': "explore (visit_pair ?p) [] ?acc [s0] = Some (s0 # vs', st (s0 # vs'))" "distinct (s0 # vs')" "set (s0 # vs') \<subseteq> pair_states ?p"
    and reach': "set (s0 # vs') = (successors_rel (pair_succ ?p))\<^sup>* `` {s0}" unfolding st_def by blast
  define vs where "vs = s0 # vs'"
  note vs = vs' [folded vs_def] and reach = reach' [folded vs_def]
  note f = fold_visit_pair [OF vs(3), of ?acc, folded st_def]
  have new: "set (pair_new ?p s) = {e \<in> pair_edges ?p. fst e = s}" if "s \<in> set vs" for s
    using that vs(3) pair_new_edges [of "fst s" a "snd s" b] by (auto simp: pair_states_def)
  have closed: "t \<in> set vs" if "(s, l, t) \<in> pair_edges ?p" "s \<in> set vs" for s l t
  proof -
    have "(s, l, t) \<in> set (pair_new ?p s)" using that new by auto
    then have "(s, t) \<in> successors_rel (pair_succ ?p)" by (force simp: successors_rel_def pair_succ_def)
    with that(2) show ?thesis unfolding reach by (auto intro: rtrancl_into_rtrancl)
  qed
  have "set (j_transitions (st vs)) = {e \<in> pair_edges ?p. fst e \<in> set vs}" unfolding f(1) using new by auto
  then have trs: "set (j_transitions (st vs)) = restrict_edges (set vs) (pair_edges ?p)" unfolding restrict_edges_def using closed by fastforce
  have dist: "distinct (map (\<lambda>(s, l, t). (s, l)) (j_transitions (st vs)))" if "j_deterministic (st vs)"
  proof -
    have "distinct (map (\<lambda>(s, l, t). (s, l)) (concat (map (pair_new ?p) vs)))"
    proof (rule distinct_concat_sources [OF vs(2)])
      fix s assume s: "s \<in> set vs"
      have "distinct (map (\<lambda>(s, l, t). (s, l)) (pair_new ?p s))"
        using that s vs(3) by (intro pair_new_deterministic [OF wf]) (auto simp: f(2))
      with new [OF s] show "distinct (map (\<lambda>(s, l, t). (s, l)) (pair_new ?p s)) \<and>
          (\<forall>e\<in>set (pair_new ?p s). fst (case e of (s, l, t) \<Rightarrow> (s, l)) = s)" by auto
    qed
    then show ?thesis by (simp add: f(1))
  qed
  show thesis using that [OF vs(1,2) _ closed trs dist] f(4) by (simp add: vs_def)
qed

theorem inter_spec:
  assumes wf: "wf_raw n a" "wf_raw n b"
  obtains c where "inter a b = Some c" and "wf_raw n c" and "language c = meet (language a) (language b)" and "\<not> ra_complete c"
    and "markers_cover c" and "trim c"
    and "if language c = {} then ra_transitions c = [[]] else {..<length (ra_transitions c)} = live_of c"
proof -
  let ?s0 = "(ra_initial_state a, ra_initial_state b)" and ?F = "set (ra_final_states a) \<times> set (ra_final_states b)" and ?P = "pair_edges (a, b)"
  obtain vs st where ex: "explore (visit_pair (a, b)) []
      \<lparr>j_deterministic = ra_deterministic a \<and> ra_deterministic b, j_complete = ra_complete a \<and> ra_complete b, j_markers = [], j_transitions = []\<rparr>
      [?s0] = Some (vs, st)"
    and vs: "distinct vs" "?s0 \<in> set vs" and closed: "\<And>s l t. (s, l, t) \<in> ?P \<Longrightarrow> s \<in> set vs \<Longrightarrow> t \<in> set vs"
    and trs: "set (j_transitions st) = restrict_edges (set vs) ?P"
    and dist: "j_deterministic st \<Longrightarrow> distinct (map (\<lambda>(s, l, t). (s, l)) (j_transitions st))" and dm: "distinct (j_markers st)"
    by (rule product_explored [OF wf]) blast
  let ?f = "\<lambda>x. the (renaming_of vs x)"
  obtain ts where ts: "fold_opt (number_transition (renaming_of vs)) (j_transitions st) (replicate (length vs) []) = Some ts" "length ts = length vs"
    "edges ts = {(?f s, l, ?f t) |s l t. (s, l, t) \<in> set (j_transitions st)}"
    "distinct (map (\<lambda>(s, l, t). (s, l)) (j_transitions st)) \<Longrightarrow> row_deterministic ts"
  proof (rule fold_number_transition [of "j_transitions st" "renaming_of vs" "length vs"])
    show "renaming_of vs s \<noteq> None \<and> renaming_of vs t \<noteq> None \<and> the (renaming_of vs s) < length vs" if "(s, l, t) \<in> set (j_transitions st)" for s l t
    proof -
      have "s \<in> set vs" "t \<in> set vs" using that by (auto simp: trs restrict_edges_def)
      then show ?thesis using renaming_of_member [of s vs] renaming_of_member [of t vs] by auto
    qed
    show "s = t" if "renaming_of vs s = Some r" "renaming_of vs t = Some r" for s t r using that by (rule renaming_of_inj)
  qed blast
  have E: "edges ts = (\<lambda>(s, l, t). (?f s, l, ?f t)) ` restrict_edges (set vs) ?P" unfolding ts(3) trs by force
  obtain j where ren: "renaming_of vs ?s0 = Some j" "j < length vs" using renaming_of_member [OF vs(2)] by blast
  let ?c = "\<lparr>ra_deterministic = j_deterministic st, ra_complete = j_complete st, ra_initial_state = j,
    ra_final_states = hash_collect (List.map_filter (renaming_of vs) (List.product (ra_final_states a) (ra_final_states b))),
    ra_transitions = ts, ra_markers = j_markers st\<rparr>"
  have fin: "set (ra_final_states ?c) = ?f ` (?F \<inter> set vs)" by (simp add: set_map_filter_renaming)
  have lt: "?f v < length ts" if "v \<in> set vs" for v using renaming_of_member [OF that] by (simp add: ts(2))
  have "wf_table n ts" unfolding wf_table_def E
    using lt wf_rawD(4) [OF wf(1)] by (force simp: restrict_edges_def pair_edges_def joined_def dest: wf_tableD)
  then have wfc: "wf_raw n ?c" using ts(2,4) fin lt ren(2) dm dist by (auto simp: wf_raw_def)
  have "language ?c = lang (restrict_edges (set vs) ?P) {?s0} (?F \<inter> set vs)"
    using lang_rename [OF renaming_of_inj_on, of "restrict_edges (set vs) ?P" vs "{?s0}" "?F \<inter> set vs"] vs(2)
    unfolding language_def fin by (simp add: E restrict_edges_def ren(1))
  also have "\<dots> = lang ?P {?s0} ?F"
  proof -
    have "t \<in> set vs" if "steps ?P ?s0 w t" for w t using steps_closed [OF that vs(2)] closed by blast
    then show ?thesis unfolding lang_def by (auto simp: steps_restrict_closed [OF closed vs(2)])
  qed
  finally have L: "language ?c = meet (language a) (language b)" by (simp only: lang_product)
  obtain c where c: "remove_dead_states ?c = Some c" "wf_raw n c" "language c = language ?c" "\<not> ra_complete c" "markers_cover c" "trim c"
    "if language c = {} then ra_transitions c = [[]] else {..<length (ra_transitions c)} = live_of c"
    by (rule remove_dead_states_spec [OF wfc])
  have "inter a b = Some (check_determinism c)" by (simp add: inter_def ex ts(1) ren(1) c(1))
  then show thesis using that [of "check_determinism c"] wf_check_determinism [OF c(2)] c L by simp
qed

text \<open>
  C22: Intersection ends and recognises the words common to both languages up to markers: two words are
  joined letter by letter when their bytes agree and their markers agree or one of them is unmarked, and
  the joined word carries the larger marker. Dead states are removed from the product: every state of the
  result lies on a path from the initial to a final state, and an empty language leaves a single state
  without transitions.
\<close>

theorem inter_correct:
  assumes "wf_raw n a" and "wf_raw n b"
  shows "\<exists>c. inter a b = Some c \<and> wf_raw n c \<and> markers_cover c \<and> \<not> ra_complete c \<and>
    language c = {map2 joined u v |u v. u \<in> language a \<and> v \<in> language b \<and> list_all2 joinable u v} \<and>
    (if language c = {} then ra_transitions c = [[]]
     else \<forall>s<length (ra_transitions c). \<exists>u v. \<exists>f\<in>set (ra_final_states c).
       steps (edges (ra_transitions c)) (ra_initial_state c) u s \<and> steps (edges (ra_transitions c)) s v f)"
proof -
  obtain c where c: "inter a b = Some c" "wf_raw n c" "language c = meet (language a) (language b)" "\<not> ra_complete c" "markers_cover c"
    and live: "if language c = {} then ra_transitions c = [[]] else {..<length (ra_transitions c)} = live_of c"
    by (rule inter_spec [OF assms])
  have "\<exists>u v. \<exists>f\<in>set (ra_final_states c).
      steps (edges (ra_transitions c)) (ra_initial_state c) u s \<and> steps (edges (ra_transitions c)) s v f"
    if "language c \<noteq> {}" "s < length (ra_transitions c)" for s
  proof -
    from that live have "s \<in> live_of c" by auto
    then show ?thesis by (elim liveE) auto
  qed
  with c live show ?thesis by (auto simp: meet_def)
qed

theorem inter_correct_witness:
  "\<exists>c. inter (byte_concat [[\<lparr>l_char = 0, l_marker = 0\<rparr>]] 2) (byte_concat [[\<lparr>l_char = 0, l_marker = 3\<rparr>, \<lparr>l_char = 1, l_marker = 0\<rparr>]] 2) = Some c \<and>
     language c = {[\<lparr>l_char = 0, l_marker = 3\<rparr>]}"
proof -
  let ?x = "\<lparr>l_char = 0, l_marker = 0\<rparr>" and ?y = "\<lparr>l_char = 0, l_marker = 3\<rparr>" and ?z = "\<lparr>l_char = 1, l_marker = 0\<rparr>"
  have L: "language (byte_concat [[?x]] 2) = {[?x]}" "language (byte_concat [[?y, ?z]] 2) = {[?y], [?z]}"
    using byte_concat_spec(2) [of "[[?x]]" 2] byte_concat_spec(2) [of "[[?y, ?z]]" 2] by (auto simp: range_words_def list_all2_Cons2)
  have wf: "wf_raw 2 (byte_concat [[?x]] 2)" "wf_raw 2 (byte_concat [[?y, ?z]] 2)" by (rule byte_concat_spec(1), simp)+
  from inter_correct [OF wf] obtain c where c: "inter (byte_concat [[?x]] 2) (byte_concat [[?y, ?z]] 2) = Some c"
    "language c = {map2 joined u v |u v. u \<in> {[?x]} \<and> v \<in> {[?y], [?z]} \<and> list_all2 joinable u v}" unfolding L by blast
  have "joinable ?x ?y" "joined ?x ?y = ?y" "\<not> joinable ?x ?z" by (simp_all add: joinable_def joined_def)
  then have "language c = {[?y]}" unfolding c(2) by (auto intro!: exI [of _ "[?y]"])
  with c(1) show ?thesis by simp
qed

end
