(* ===== verification/Automaton_Minimise.thy ===== *)
theory Automaton_Minimise
  imports Automaton_Product
begin

text \<open>
  Hopcroft minimisation (\<open>RawAutomaton::nerode_congruence\<close>, \<open>minimise\<close>) and the conversion to the
  normalised automaton: the refinement loop ends, its classes are a congruence that separates exactly
  the states with different futures, and the quotient recognises the language of the input.
\<close>

section \<open>Splitting a class\<close>

text \<open>Whether a transition labelled \<open>l\<close> leads from \<open>p\<close> into a set of states.\<close>

definition hit :: "(nat \<times> letter \<times> nat) set \<Rightarrow> letter \<Rightarrow> nat \<Rightarrow> nat set \<Rightarrow> bool" where
  "hit E l p X \<longleftrightarrow> (\<exists>t\<in>X. (p, l, t) \<in> E)"

definition partitioning :: "nat \<Rightarrow> bitset list \<Rightarrow> bool" where
  "partitioning n P \<longleftrightarrow> distinct P \<and> (\<forall>c\<in>set P. length c = n \<and> bits c \<noteq> {}) \<and> (\<Union>c\<in>set P. bits c) = {..<n} \<and>
     (\<forall>c\<in>set P. \<forall>d\<in>set P. c \<noteq> d \<longrightarrow> bits c \<inter> bits d = {})"

definition same_class :: "bitset list \<Rightarrow> nat \<Rightarrow> nat \<Rightarrow> bool" where
  "same_class P p q \<longleftrightarrow> (\<exists>c\<in>set P. p \<in> bits c \<and> q \<in> bits c)"

text \<open>
  Hopcroft's criterion: two states of a class that no distinguisher (nor the set \<open>D\<close> in use) tells
  apart by one transition are not told apart by any class.
\<close>

definition hopcroft_criterion :: "(nat \<times> letter \<times> nat) set \<Rightarrow> nat set set \<Rightarrow> bitset list \<Rightarrow> bitset list \<Rightarrow> bool" where
  "hopcroft_criterion E D P W \<longleftrightarrow> (\<forall>p q l. same_class P p q \<longrightarrow>
     (\<forall>X\<in>bits ` set W \<union> D. hit E l p X \<longleftrightarrow> hit E l q X) \<longrightarrow> (\<forall>c\<in>set P. hit E l p (bits c) \<longleftrightarrow> hit E l q (bits c)))"

text \<open>The sets kept by the loop are unions of the blocks of \<open>R\<close>.\<close>

definition saturated :: "(nat \<times> nat) set \<Rightarrow> nat set \<Rightarrow> bool" where
  "saturated R X \<longleftrightarrow> (\<forall>(p, q)\<in>R. p \<in> X \<longleftrightarrow> q \<in> X)"

lemma partitioning_length:
  assumes "partitioning n P"
  shows "length P \<le> n"
proof -
  have "inj_on (\<lambda>c. Min (bits c)) (set P)"
  proof (rule inj_onI)
    fix c d assume cd: "c \<in> set P" "d \<in> set P" "Min (bits c) = Min (bits d)"
    have "Min (bits x) \<in> bits x" if "x \<in> set P" for x
      using that assms by (intro Min_in) (auto simp: partitioning_def)
    then have "Min (bits c) \<in> bits c \<inter> bits d" using cd by fastforce
    with cd assms show "c = d" unfolding partitioning_def by blast
  qed
  then have "card (set P) = card ((\<lambda>c. Min (bits c)) ` set P)" by (simp add: card_image)
  also have "\<dots> \<le> card {..<n}"
  proof (rule card_mono)
    show "(\<lambda>c. Min (bits c)) ` set P \<subseteq> {..<n}"
    proof (rule image_subsetI)
      fix c assume c: "c \<in> set P"
      then have "Min (bits c) \<in> bits c" using assms by (intro Min_in) (auto simp: partitioning_def)
      with c assms show "Min (bits c) \<in> {..<n}" by (auto simp: partitioning_def)
    qed
  qed simp
  finally show ?thesis using assms by (simp add: partitioning_def distinct_card)
qed

lemma swap_remove_props:
  assumes "i < length xs"
  shows "length (swap_remove i xs) = length xs - 1" "set (swap_remove i xs) \<subseteq> set xs" "set xs - {xs ! i} \<subseteq> set (swap_remove i xs)"
proof -
  show len: "length (swap_remove i xs) = length xs - 1" by (simp add: swap_remove_def)
  have nth: "swap_remove i xs ! j = (if j = i then last xs else xs ! j)" if "j < length xs - 1" for j
    using that by (simp add: swap_remove_def nth_butlast nth_list_update)
  have last: "last xs = xs ! (length xs - 1)" using assms by (intro last_conv_nth) auto
  show "set (swap_remove i xs) \<subseteq> set xs"
  proof
    fix x assume "x \<in> set (swap_remove i xs)"
    then have "x \<in> set (xs[i := last xs])" unfolding swap_remove_def by (rule in_set_butlastD)
    then have "x \<in> insert (last xs) (set xs)" using set_update_subset_insert by fastforce
    moreover have "last xs \<in> set xs" using assms by (intro last_in_set) auto
    ultimately show "x \<in> set xs" by blast
  qed
  show "set xs - {xs ! i} \<subseteq> set (swap_remove i xs)"
  proof
    fix x assume "x \<in> set xs - {xs ! i}"
    then obtain j where j: "j < length xs" "x = xs ! j" "j \<noteq> i" by (auto simp: in_set_conv_nth)
    show "x \<in> set (swap_remove i xs)"
    proof (cases "j = length xs - 1")
      case True
      then have "i < length xs - 1" using assms j by simp
      then show ?thesis using nth [of i] len j(2) True last by (metis nth_mem)
    next
      case False
      then have "j < length xs - 1" using j(1) by simp
      then show ?thesis using nth [of j] len j(2,3) by (metis nth_mem)
    qed
  qed
qed

lemma bits_map2:
  assumes "length pred = length cls"
  shows "bits (map2 (\<lambda>p c. p \<and> c) pred cls) = bits pred \<inter> bits cls" "bits (map2 (\<lambda>p c. \<not> p \<and> c) pred cls) = bits cls - bits pred"
  using assms by auto

lemma filter_id_empty: "length (filter id b) = 0 \<longleftrightarrow> bits b = {}"
  by (auto simp: filter_empty_conv in_set_conv_nth)

text \<open>
  One class against one predecessor set, in the middle of the pass over the classes: \<open>rest\<close> are the
  classes still to be treated.
\<close>

definition loop_inv ::
    "nat \<Rightarrow> (nat \<times> letter \<times> nat) set \<Rightarrow> nat set \<Rightarrow> (nat \<times> nat) set \<Rightarrow> nat set set \<Rightarrow> bitset list \<Rightarrow> bitset list \<Rightarrow> bool" where
  "loop_inv n E F R D P W \<longleftrightarrow> partitioning n P \<and> (\<forall>c\<in>set W. length c = n) \<and> (\<forall>c\<in>set P. bits c \<subseteq> F \<or> bits c \<inter> F = {}) \<and>
     (\<forall>c\<in>set P \<union> set W. saturated R (bits c)) \<and> hopcroft_criterion E D P W"

lemma disjoint_split:
  assumes old: "\<And>c d. c \<in> S \<Longrightarrow> d \<in> S \<Longrightarrow> c \<noteq> d \<Longrightarrow> f c \<inter> f d = {}" and C: "C \<in> S"
    and b: "f c1 \<union> f c2 = f C" "f c1 \<inter> f c2 = {}" and cd: "c \<in> insert c1 (insert c2 (S - {C}))" "d \<in> insert c1 (insert c2 (S - {C}))" "c \<noteq> d"
  shows "f c \<inter> f d = {}"
proof -
  have x: "f c1 \<inter> f e = {}" "f c2 \<inter> f e = {}" if "e \<in> S" "e \<noteq> C" for e using old [OF C that(1)] that(2) b(1) by blast+
  show ?thesis using cd x [of c] x [of d] b(2) old [of c d] by (elim insertE DiffE) (auto simp: Int_commute)
qed

lemma partitioning_split:
  assumes P: "partitioning n P" and C: "C \<in> set P" and P': "distinct P'" "set P' = insert c1 (insert c2 (set P - {C}))"
    and len: "length c1 = n" "length c2 = n" and b: "bits c1 \<union> bits c2 = bits C" "bits c1 \<inter> bits c2 = {}" "bits c1 \<noteq> {}" "bits c2 \<noteq> {}"
  shows "partitioning n P'"
proof -
  have "(\<Union>c\<in>set P'. bits c) = bits C \<union> (\<Union>c\<in>set P - {C}. bits c)" unfolding P'(2) using b(1) by blast
  also have "\<dots> = (\<Union>c\<in>set P. bits c)" using C by blast
  also have "\<dots> = {..<n}" using P unfolding partitioning_def by (elim conjE)
  finally have U: "(\<Union>c\<in>set P'. bits c) = {..<n}" .
  have old: "bits c \<inter> bits d = {}" if "c \<in> set P" "d \<in> set P" "c \<noteq> d" for c d using that P unfolding partitioning_def by blast
  have "bits c \<inter> bits d = {}" if "c \<in> set P'" "d \<in> set P'" "c \<noteq> d" for c d
    using disjoint_split [of "set P" bits C c1 c2 c d] old C b(1,2) that unfolding P'(2) by blast
  moreover have "length c = n \<and> bits c \<noteq> {}" if "c \<in> set P'" for c
    using that len b(3,4) P unfolding P'(2) partitioning_def by blast
  ultimately show ?thesis unfolding partitioning_def using U P'(1) by blast
qed

lemma criterion_split:
  assumes J: "hopcroft_criterion E D P W" and fe: "functional_edges E" and C: "C \<in> set P"
    and P': "set P' = insert c1 (insert c2 (set P - {C}))" and b: "bits c1 \<union> bits c2 = bits C" "bits c1 \<inter> bits c2 = {}"
    and W: "set W - {C} \<subseteq> set W'" "C \<in> set W \<Longrightarrow> c1 \<in> set W' \<and> c2 \<in> set W'" "c1 \<in> set W' \<or> c2 \<in> set W'"
  shows "hopcroft_criterion E D P' W'"
  unfolding hopcroft_criterion_def
proof (intro allI impI)
  fix p q l assume same: "same_class P' p q" and eq: "\<forall>X\<in>bits ` set W' \<union> D. hit E l p X \<longleftrightarrow> hit E l q X"
  have u: "hit E l s (bits C) \<longleftrightarrow> hit E l s (bits c1) \<or> hit E l s (bits c2)" for s by (auto simp: hit_def b(1) [symmetric])
  have x: "\<not> (hit E l s (bits c1) \<and> hit E l s (bits c2))" for s
    using fe b(2) unfolding hit_def functional_edges_def by (metis (no_types, lifting) disjoint_iff)
  have "same_class P p q" using same b(1) C unfolding same_class_def P' by blast
  moreover have "hit E l p (bits c) \<longleftrightarrow> hit E l q (bits c)" if "c \<in> set W" for c
  proof (cases "c = C")
    case True
    with that W(2) eq u [of p] u [of q] show ?thesis by blast
  next
    case False
    with that W(1) eq show ?thesis by blast
  qed
  ultimately have old: "\<forall>c\<in>set P. hit E l p (bits c) \<longleftrightarrow> hit E l q (bits c)" using J eq unfolding hopcroft_criterion_def by blast
  have "(hit E l p (bits c1) \<longleftrightarrow> hit E l q (bits c1)) \<or> (hit E l p (bits c2) \<longleftrightarrow> hit E l q (bits c2))" using W(3) eq by blast
  with old C u [of p] u [of q] x [of p] x [of q]
  have "(hit E l p (bits c1) \<longleftrightarrow> hit E l q (bits c1)) \<and> (hit E l p (bits c2) \<longleftrightarrow> hit E l q (bits c2))" by blast
  with old show "\<forall>c\<in>set P'. hit E l p (bits c) \<longleftrightarrow> hit E l q (bits c)" unfolding P' by blast
qed

definition homogeneous :: "bitset list \<Rightarrow> nat set \<Rightarrow> bool" where
  "homogeneous P X \<longleftrightarrow> (\<forall>c\<in>set P. bits c \<subseteq> X \<or> bits c \<inter> X = {})"

definition refines :: "bitset list \<Rightarrow> bitset list \<Rightarrow> bool" where
  "refines P' P \<longleftrightarrow> (\<forall>c'\<in>set P'. \<exists>c\<in>set P. bits c' \<subseteq> bits c)"

lemma refines_refl: "refines P P" and refines_trans: "refines P Q \<Longrightarrow> refines Q S \<Longrightarrow> refines P S"
  by (auto simp: refines_def) (meson order_trans subset_refl)+

lemma homogeneous_refines: "homogeneous P X \<Longrightarrow> refines P' P \<Longrightarrow> homogeneous P' X"
  unfolding homogeneous_def refines_def by blast

lemma refine_class_cases:
  assumes "length pred = length cls"
  obtains (kept) "refine_class pred cls (temp, W) = (temp @ [cls], W)" and "bits cls \<subseteq> bits pred \<or> bits cls \<inter> bits pred = {}"
  | (split) c1 c2 W' where "refine_class pred cls (temp, W) = (temp @ [c1, c2], W')"
    and "length c1 = length cls" "length c2 = length cls"
    and "bits c1 = bits pred \<inter> bits cls" "bits c2 = bits cls - bits pred" "bits c1 \<noteq> {}" "bits c2 \<noteq> {}"
    and "length W' = Suc (length W)" "set W - {cls} \<subseteq> set W'" "set W' \<subseteq> insert c1 (insert c2 (set W))"
    and "cls \<in> set W \<Longrightarrow> c1 \<in> set W' \<and> c2 \<in> set W'" "c1 \<in> set W' \<or> c2 \<in> set W'"
proof -
  define c1 where "c1 = map2 (\<lambda>p c. p \<and> c) pred cls"
  define c2 where "c2 = map2 (\<lambda>p c. \<not> p \<and> c) pred cls"
  note b = bits_map2 [OF assms, folded c1_def c2_def]
  have len: "length c1 = length cls" "length c2 = length cls" using assms by (simp_all add: c1_def c2_def)
  define W' where "W' = (case position (\<lambda>d. d = cls) W of
     Some i \<Rightarrow> swap_remove i W @ [c1, c2]
   | None \<Rightarrow> W @ [if length (filter id c1) \<le> length (filter id c2) then c1 else c2])"
  have r: "refine_class pred cls (temp, W) = (if bits c1 \<noteq> {} \<and> bits c2 \<noteq> {} then (temp @ [c1, c2], W') else (temp @ [cls], W))"
    unfolding refine_class_def W'_def Let_def c1_def [symmetric] c2_def [symmetric] filter_id_empty by simp
  show thesis
  proof (cases "bits c1 \<noteq> {} \<and> bits c2 \<noteq> {}")
    case False
    then have "bits cls \<subseteq> bits pred \<or> bits cls \<inter> bits pred = {}" unfolding b by blast
    with False r show thesis by (intro kept) auto
  next
    case True
    show thesis
    proof (cases "position (\<lambda>d. d = cls) W")
      case None
      then have "cls \<notin> set W" by (auto simp: position_None_iff)
      with None True r len b show thesis by (intro split [of c1 c2 W']) (auto simp: W'_def simp del: mem_Collect_eq)
    next
      case (Some i)
      note i = position_lt [OF Some] position_holds [OF Some]
      note sr = swap_remove_props [OF i(1)]
      show thesis
        using True r len b sr i Some by (intro split [of c1 c2 W']) (auto simp: W'_def simp del: mem_Collect_eq)
    qed
  qed
qed

lemma saturated_Int_Diff:
  assumes "saturated R X" "saturated R Y"
  shows "saturated R (X \<inter> Y)" "saturated R (X - Y)"
  using assms unfolding saturated_def by blast+

lemma refine_class_inv:
  assumes inv: "loop_inv n E F R D (temp @ cls # rest) W" and fe: "functional_edges E" and len: "length pred = n" and sat: "saturated R (bits pred)"
  obtains new W' where "refine_class pred cls (temp, W) = (temp @ new, W')" and "loop_inv n E F R D (temp @ new @ rest) W'"
    and "length W' + 1 = length W + length new" and "homogeneous new (bits pred)" and "refines new [cls]"
proof -
  let ?P = "temp @ cls # rest"
  have P: "partitioning n ?P" "\<forall>c\<in>set W. length c = n" "\<forall>c\<in>set ?P. bits c \<subseteq> F \<or> bits c \<inter> F = {}"
    "\<forall>c\<in>set ?P \<union> set W. saturated R (bits c)" "hopcroft_criterion E D ?P W" using inv unfolding loop_inv_def by blast+
  have cls: "length cls = n" "cls \<in> set ?P" "cls \<notin> set temp" "cls \<notin> set rest" "distinct temp" "distinct rest" "set temp \<inter> set rest = {}"
    using P(1) by (auto simp: partitioning_def)
  have "length pred = length cls" using len cls(1) by simp
  then show thesis
  proof (cases rule: refine_class_cases [of pred cls temp W])
    case kept
    then show thesis using inv by (intro that [of "[cls]" W]) (auto simp: homogeneous_def refines_def)
  next
    case (split c1 c2 W')
    let ?P' = "temp @ [c1, c2] @ rest"
    have set': "set ?P' = insert c1 (insert c2 (set ?P - {cls}))" using cls by auto
    have bu: "bits c1 \<union> bits c2 = bits cls" "bits c1 \<inter> bits c2 = {}" unfolding split(4,5) by blast+
    have "c \<notin> set ?P - {cls}" if c: "c = c1 \<or> c = c2" for c
    proof
      assume "c \<in> set ?P - {cls}"
      then have "bits c \<inter> bits cls = {}" using P(1) cls(2) unfolding partitioning_def by blast
      moreover have "bits c \<subseteq> bits cls" "bits c \<noteq> {}" using c split(4-7) by blast+
      ultimately show False by blast
    qed
    moreover have "c1 \<noteq> c2" using bu(2) split(6) by blast
    ultimately have "distinct ?P'" using cls by auto
    then have P': "partitioning n ?P'" using partitioning_split [OF P(1) cls(2) _ set' _ _ bu split(6,7)] split(2,3) cls(1) by simp
    have J: "hopcroft_criterion E D ?P' W'" by (rule criterion_split [OF P(5) fe cls(2) set' bu split(9,11,12)])
    have s: "saturated R (bits cls)" using P(4) cls(2) by blast
    have s12: "saturated R (bits c1)" "saturated R (bits c2)" using saturated_Int_Diff [OF sat s] saturated_Int_Diff [OF s sat] by (simp_all only: split(4,5))
    have "length c = n" if "c \<in> set W'" for c
    proof -
      have "c \<in> insert c1 (insert c2 (set W))" using that split(10) by blast
      with P(2) split(2,3) cls(1) show ?thesis by auto
    qed
    moreover have "bits c \<subseteq> F \<or> bits c \<inter> F = {}" if "c \<in> set ?P'" for c
    proof -
      have "bits c1 \<subseteq> bits cls" "bits c2 \<subseteq> bits cls" using split(4,5) by blast+
      with that P(3) cls(2) show ?thesis unfolding set' by blast
    qed
    moreover have "saturated R (bits c)" if "c \<in> set ?P' \<union> set W'" for c
    proof -
      have "c \<in> insert c1 (insert c2 (set ?P \<union> set W))" using that split(10) unfolding set' by blast
      with P(4) s12 show ?thesis by blast
    qed
    ultimately have "loop_inv n E F R D ?P' W'" unfolding loop_inv_def using P' J by blast
    moreover have "homogeneous [c1, c2] (bits pred)" unfolding homogeneous_def using split(4,5) by fastforce
    moreover have "refines [c1, c2] [cls]" unfolding refines_def using split(4,5) by fastforce
    ultimately show thesis using split(1,8) by (intro that [of "[c1, c2]" W']) auto
  qed
qed

text \<open>A pass over all classes for one predecessor set.\<close>

lemma refine_pass:
  assumes "loop_inv n E F R D (temp @ rest) W" and "functional_edges E" and "length pred = n" and "saturated R (bits pred)"
    and "homogeneous temp (bits pred)"
  shows "\<exists>P W'. fold (refine_class pred) rest (temp, W) = (P, W') \<and> loop_inv n E F R D P W' \<and>
    length W' + length (temp @ rest) = length W + length P \<and> homogeneous P (bits pred) \<and> refines P (temp @ rest)"
  using assms(1,5)
proof (induction rest arbitrary: temp W)
  case Nil
  then show ?case by (simp add: refines_refl)
next
  case (Cons cls rest)
  obtain new W1 where r: "refine_class pred cls (temp, W) = (temp @ new, W1)" "loop_inv n E F R D (temp @ new @ rest) W1"
    "length W1 + 1 = length W + length new" "homogeneous new (bits pred)" "refines new [cls]"
    by (rule refine_class_inv [OF Cons.prems(1) assms(2,3,4)])
  have "homogeneous (temp @ new) (bits pred)" using Cons.prems(2) r(4) unfolding homogeneous_def by auto
  with Cons.IH [of "temp @ new" W1] r(2) obtain P W' where P: "fold (refine_class pred) rest (temp @ new, W1) = (P, W')" "loop_inv n E F R D P W'"
    "length W' + length ((temp @ new) @ rest) = length W1 + length P" "homogeneous P (bits pred)" "refines P ((temp @ new) @ rest)" by auto
  have "refines ((temp @ new) @ rest) (temp @ cls # rest)" using r(5) by (auto simp: refines_def)
  with P r(1,3) show ?case by (auto intro: refines_trans)
qed

lemma loop_inv_cong:
  assumes "set P = set P'" and "distinct P'" and "loop_inv n E F R D P W"
  shows "loop_inv n E F R D P' W"
  using assms(3) unfolding loop_inv_def partitioning_def hopcroft_criterion_def same_class_def assms(1)
  by (elim conjE) (intro conjI assms(2); assumption)

lemma refine_partition_inv:
  assumes inv: "loop_inv n E F R D P W" and "functional_edges E" and "length pred = n" and "saturated R (bits pred)"
  shows "\<exists>P' W'. refine_partition pred (P, W) = (P', W') \<and> loop_inv n E F R D P' W' \<and>
    length W' + length P = length W + length P' \<and> homogeneous P' (bits pred) \<and> refines P' P"
proof -
  have "loop_inv n E F R D ([] @ rev P) W" using inv by (intro loop_inv_cong [OF _ _ inv]) (auto simp: loop_inv_def partitioning_def)
  from refine_pass [OF this assms(2-4)] show ?thesis by (auto simp: homogeneous_def refine_partition_def refines_def)
qed

lemma refine_all:
  assumes "loop_inv n E F R D P W" and "functional_edges E" and "\<forall>pred\<in>set preds. length pred = n \<and> saturated R (bits pred)"
  shows "\<exists>P' W'. fold refine_partition preds (P, W) = (P', W') \<and> loop_inv n E F R D P' W' \<and>
    length W' + length P = length W + length P' \<and> (\<forall>pred\<in>set preds. homogeneous P' (bits pred)) \<and> refines P' P"
  using assms(1,3)
proof (induction preds arbitrary: P W)
  case (Cons pred preds)
  from refine_partition_inv [OF Cons.prems(1) assms(2), of pred] Cons.prems(2) obtain P1 W1 where
    1: "refine_partition pred (P, W) = (P1, W1)" "loop_inv n E F R D P1 W1" "length W1 + length P = length W + length P1"
      "homogeneous P1 (bits pred)" "refines P1 P" by auto
  have "\<forall>pred\<in>set preds. length pred = n \<and> saturated R (bits pred)" using Cons.prems(2) by (meson list.set_intros(2))
  from Cons.IH [OF 1(2) this] obtain P' W' where
    2: "fold refine_partition preds (P1, W1) = (P', W')" "loop_inv n E F R D P' W'" "length W' + length P1 = length W1 + length P'"
      "\<forall>pred\<in>set preds. homogeneous P' (bits pred)" "refines P' P1" by blast
  with 1 show ?case using homogeneous_refines [OF 1(4) 2(5)] refines_trans [OF 2(5) 1(5)] by auto
qed (simp add: refines_refl)

section \<open>The predecessor sets of a distinguisher\<close>

definition pred_rows :: "nat \<Rightarrow> nat list \<Rightarrow> nat set \<Rightarrow> (nat \<times> letter \<times> nat) set \<Rightarrow> nat \<Rightarrow> nat set" where
  "pred_rows n ms D es e = {s. \<exists>l t. (s, l, t) \<in> es \<and> t \<in> D \<and> encode l n ms = Some e}"

lemma fold_mark_predecessor:
  assumes "\<forall>(s, l, t)\<in>set es. s < k \<and> t < k \<and> unat (l_char l) < n \<and> l_marker l \<in> set ms" and "length dis = k"
    and "length preds = encoding_bound n ms" "\<forall>b\<in>set preds. length b = k"
  shows "\<exists>preds'. fold_opt (mark_predecessor n ms dis) es preds = Some preds' \<and> length preds' = encoding_bound n ms \<and>
    (\<forall>b\<in>set preds'. length b = k) \<and> (\<forall>e<encoding_bound n ms. bits (preds' ! e) = bits (preds ! e) \<union> pred_rows n ms (bits dis) (set es) e)"
  using assms(1,3,4)
proof (induction es arbitrary: preds)
  case (Cons x es)
  obtain s l t where x: "x = (s, l, t)" using prod_cases3 by blast
  have st: "s < k" "t < k" "unat (l_char l) < n" "l_marker l \<in> set ms" using Cons.prems(1) by (auto simp: x)
  obtain e where e: "encode l n ms = Some e" using encode_Some [OF st(4)] by blast
  have eb: "e < encoding_bound n ms" by (rule decode_encode(2) [OF e st(3)])
  define preds1 where "preds1 = (if dis ! t then preds[e := (preds ! e)[s := True]] else preds)"
  have len: "length (preds ! e) = k" using Cons.prems(2,3) eb by simp
  have m: "mark_predecessor n ms dis x preds = Some preds1"
    using st(1,2) e eb len Cons.prems(2) assms(2) by (simp add: mark_predecessor_def x index_opt_nth bit_set_def preds1_def)
  have p1: "length preds1 = encoding_bound n ms" "\<forall>b\<in>set preds1. length b = k"
    using Cons.prems(2,3) len by (auto simp: preds1_def dest!: set_update_subset_insert [THEN subsetD])
  have b1: "bits (preds1 ! i) = bits (preds ! i) \<union> pred_rows n ms (bits dis) {x} i" if "i < encoding_bound n ms" for i
  proof -
    have "pred_rows n ms (bits dis) {x} i = (if dis ! t \<and> i = e then {s} else {})"
      using st(2) e assms(2) by (auto simp: pred_rows_def x)
    moreover have "preds1 ! i = (if dis ! t \<and> i = e then (preds ! e)[s := True] else preds ! i)"
      using that Cons.prems(2) by (auto simp: preds1_def)
    moreover have "bits ((preds ! e)[s := True]) = insert s (bits (preds ! e))"
      using st(1) len by (auto simp: nth_list_update)
    ultimately show ?thesis by (cases "dis ! t \<and> i = e") simp_all
  qed
  from Cons.IH [OF _ p1] Cons.prems(1) obtain preds' where p': "fold_opt (mark_predecessor n ms dis) es preds1 = Some preds'"
    "length preds' = encoding_bound n ms" "\<forall>b\<in>set preds'. length b = k"
    and b': "\<forall>i<encoding_bound n ms. bits (preds' ! i) = bits (preds1 ! i) \<union> pred_rows n ms (bits dis) (set es) i" by auto
  have "\<forall>i<encoding_bound n ms. bits (preds' ! i) = bits (preds ! i) \<union> pred_rows n ms (bits dis) (set (x # es)) i"
  proof (intro allI impI)
    fix i assume i: "i < encoding_bound n ms"
    have "pred_rows n ms (bits dis) (set (x # es)) i = pred_rows n ms (bits dis) {x} i \<union> pred_rows n ms (bits dis) (set es) i"
      unfolding pred_rows_def by auto
    with b' [rule_format, OF i] b1 [OF i] show "bits (preds' ! i) = bits (preds ! i) \<union> pred_rows n ms (bits dis) (set (x # es)) i" by blast
  qed
  moreover have "fold_opt (mark_predecessor n ms dis) (x # es) preds = Some preds'" using m p'(1) by simp
  ultimately show ?case using p'(2,3) by blast
qed (simp add: pred_rows_def)

lemma mark_predecessors:
  assumes wf: "wf_table n ts" and mc: "\<forall>(p, l, q)\<in>edges ts. l_marker l \<in> set ms" and len: "length dis = length ts"
  obtains preds where "fold_opt (mark_predecessor n ms dis) (table_edges ts)
      (replicate (encoding_bound n ms) (replicate (length ts) False)) = Some preds" and "\<forall>b\<in>set preds. length b = length ts"
    and "\<forall>b\<in>set preds. bits b = {} \<or> (\<exists>l. bits b = {s. hit (edges ts) l s (bits dis)})"
    and "\<forall>l. {s. hit (edges ts) l s (bits dis)} = {} \<or> (\<exists>b\<in>set preds. bits b = {s. hit (edges ts) l s (bits dis)})"
proof -
  let ?E = "edges ts" and ?N = "encoding_bound n ms"
  have ok: "s < length ts \<and> t < length ts \<and> unat (l_char l) < n \<and> l_marker l \<in> set ms" if "(s, l, t) \<in> ?E" for s l t
    using wf_tableD [OF wf that] mc that by auto
  obtain preds where p: "fold_opt (mark_predecessor n ms dis) (table_edges ts) (replicate ?N (replicate (length ts) False)) = Some preds"
    "length preds = ?N" "\<forall>b\<in>set preds. length b = length ts"
    "\<forall>e<?N. bits (preds ! e) = bits (replicate ?N (replicate (length ts) False) ! e) \<union> pred_rows n ms (bits dis) ?E e"
  proof -
    have "\<forall>(s, l, t)\<in>set (table_edges ts). s < length ts \<and> t < length ts \<and> unat (l_char l) < n \<and> l_marker l \<in> set ms"
      unfolding set_table_edges using ok by blast
    from fold_mark_predecessor [OF this len, of "replicate ?N (replicate (length ts) False)"] that show thesis
      unfolding set_table_edges by auto
  qed
  have bits: "bits (preds ! e) = pred_rows n ms (bits dis) ?E e" if "e < ?N" for e
  proof -
    have "bits (replicate ?N (replicate (length ts) False) ! e) = {}" using that by auto
    with p(4) that show ?thesis by blast
  qed
  have code: "pred_rows n ms (bits dis) ?E e = {s. hit ?E l s (bits dis)}" if l: "(s0, l, t0) \<in> ?E" "encode l n ms = Some e" for s0 l t0 e
  proof -
    have "l' = l" if "(s, l', t) \<in> ?E" "encode l' n ms = Some e" for s l' t
      using decode_encode(1) [OF that(2)] decode_encode(1) [OF l(2)] ok [OF that(1)] ok [OF l(1)] by simp
    with l(2) show ?thesis unfolding pred_rows_def hit_def by blast
  qed
  show thesis
  proof (rule that [OF p(1,3)]; intro ballI allI)
    fix b assume "b \<in> set preds"
    then obtain e where e: "e < ?N" "b = preds ! e" by (auto simp: in_set_conv_nth p(2))
    show "bits b = {} \<or> (\<exists>l. bits b = {s. hit ?E l s (bits dis)})"
    proof (cases "pred_rows n ms (bits dis) ?E e = {}")
      case False
      then obtain s l t where "(s, l, t) \<in> ?E" "encode l n ms = Some e" unfolding pred_rows_def by blast
      from code [OF this] bits [OF e(1)] e(2) show ?thesis by blast
    qed (use bits [OF e(1)] e(2) in blast)
  next
    fix l
    show "{s. hit ?E l s (bits dis)} = {} \<or> (\<exists>b\<in>set preds. bits b = {s. hit ?E l s (bits dis)})"
    proof (cases "{s. hit ?E l s (bits dis)} = {}")
      case False
      then obtain s t where st: "(s, l, t) \<in> ?E" unfolding hit_def by blast
      obtain e where e: "encode l n ms = Some e" using encode_Some ok [OF st] by blast
      have "e < ?N" using decode_encode(2) [OF e] ok [OF st] by blast
      then have "preds ! e \<in> set preds" "bits (preds ! e) = {s. hit ?E l s (bits dis)}"
        using p(2) bits [of e] code [OF st e] by auto
      then show ?thesis by blast
    qed simp
  qed
qed

section \<open>The refinement loop\<close>

text \<open>Relations that transitions respect; the loop never separates related states.\<close>

definition respected :: "(nat \<times> letter \<times> nat) set \<Rightarrow> (nat \<times> nat) set \<Rightarrow> bool" where
  "respected E R \<longleftrightarrow> sym R \<and> (\<forall>p q l t. (p, q) \<in> R \<longrightarrow> (p, l, t) \<in> E \<longrightarrow> (\<exists>t'. (q, l, t') \<in> E \<and> (t, t') \<in> R))"

lemma saturated_hit:
  assumes "respected E R" "saturated R X"
  shows "saturated R {s. hit E l s X}"
proof -
  have "hit E l q X" if "(p, q) \<in> R" "hit E l p X" for p q
    using that assms unfolding respected_def saturated_def hit_def by blast
  moreover have "sym R" using assms(1) by (simp add: respected_def)
  ultimately show ?thesis unfolding saturated_def by (auto dest: symD)
qed

lemma criterion_pop: "W \<noteq> [] \<Longrightarrow> hopcroft_criterion E {} P W \<Longrightarrow> hopcroft_criterion E {bits (last W)} P (butlast W)"
proof -
  assume "W \<noteq> []"
  then have "set W = set (butlast W) \<union> {last W}" by (metis append_butlast_last_id list.simps(15) set_append set_empty)
  then have "bits ` set W \<union> {} = bits ` set (butlast W) \<union> {bits (last W)}" by (simp only: image_Un image_insert image_empty Un_empty_right)
  then show "hopcroft_criterion E {} P W \<Longrightarrow> hopcroft_criterion E {bits (last W)} P (butlast W)"
    unfolding hopcroft_criterion_def by (simp only:)
qed

lemma criterion_done:
  assumes "hopcroft_criterion E {X} P W" and "\<And>l. homogeneous P {s. hit E l s X}"
  shows "hopcroft_criterion E {} P W"
  unfolding hopcroft_criterion_def
proof (intro allI impI)
  fix p q l assume pq: "same_class P p q" and eq: "\<forall>Y\<in>bits ` set W \<union> {}. hit E l p Y \<longleftrightarrow> hit E l q Y"
  obtain c where "c \<in> set P" "p \<in> bits c" "q \<in> bits c" using pq unfolding same_class_def by blast
  with assms(2) [of l] have "hit E l p X \<longleftrightarrow> hit E l q X" unfolding homogeneous_def by blast
  with eq have "\<forall>Y\<in>bits ` set W \<union> {X}. hit E l p Y \<longleftrightarrow> hit E l q Y" by blast
  with assms(1) pq show "\<forall>c\<in>set P. hit E l p (bits c) \<longleftrightarrow> hit E l q (bits c)" unfolding hopcroft_criterion_def by blast
qed

text \<open>
  The loop ends: every iteration removes one distinguisher, and every split adds one class and one
  distinguisher, so the number of distinguishers minus that of classes drops by one.
\<close>

lemma hopcroft_total:
  assumes wf: "wf_table n ts" and mc: "\<forall>(p, l, q)\<in>edges ts. l_marker l \<in> set ms" and fe: "functional_edges (edges ts)"
    and R: "respected (edges ts) R" and inv: "loop_inv (length ts) (edges ts) F R {} P W"
  shows "\<exists>P'. hopcroft ts n ms P W = Some P' \<and> loop_inv (length ts) (edges ts) F R {} P' []"
  using inv
proof (induction "length W + length ts - length P" arbitrary: P W)
  case 0
  have "length P \<le> length ts" using 0(2) by (auto simp: loop_inv_def intro: partitioning_length)
  with 0 have "W = []" by (cases W) simp_all
  then show ?case using 0(2) by (simp add: hopcroft.simps)
next
  case (Suc m)
  let ?E = "edges ts"
  show ?case
  proof (cases "W = []")
    case True
    then show ?thesis using Suc.prems by (simp add: hopcroft.simps)
  next
    case False
    define D where "D = last W"
    have D: "D \<in> set W" "length D = length ts" using False Suc.prems by (auto simp: D_def loop_inv_def)
    obtain preds where p: "fold_opt (mark_predecessor n ms D) (table_edges ts)
        (replicate (encoding_bound n ms) (replicate (length ts) False)) = Some preds" "\<forall>b\<in>set preds. length b = length ts"
      "\<forall>b\<in>set preds. bits b = {} \<or> (\<exists>l. bits b = {s. hit ?E l s (bits D)})"
      "\<forall>l. {s. hit ?E l s (bits D)} = {} \<or> (\<exists>b\<in>set preds. bits b = {s. hit ?E l s (bits D)})"
      by (rule mark_predecessors [OF wf mc D(2)])
    have inv': "loop_inv (length ts) ?E F R {bits D} P (butlast W)"
      using Suc.prems criterion_pop [OF False, of ?E P] unfolding loop_inv_def D_def by (blast dest: in_set_butlastD)
    have satD: "saturated R (bits D)" using Suc.prems D(1) unfolding loop_inv_def by blast
    have "saturated R (bits b)" if "b \<in> set preds" for b
    proof -
      have "saturated R {}" by (simp add: saturated_def)
      with p(3) [rule_format, OF that] saturated_hit [OF R satD] show ?thesis by (elim disjE exE) (simp_all only:)
    qed
    with p(2) have "\<forall>pred\<in>set (hash_collect preds). length pred = length ts \<and> saturated R (bits pred)" by simp
    from refine_all [OF inv' fe this] obtain P' W' where r: "fold refine_partition (hash_collect preds) (P, butlast W) = (P', W')"
      "loop_inv (length ts) ?E F R {bits D} P' W'" "length W' + length P = length (butlast W) + length P'"
      "\<forall>pred\<in>set (hash_collect preds). homogeneous P' (bits pred)" by blast
    have "homogeneous P' {s. hit ?E l s (bits D)}" for l
    proof (cases "{s. hit ?E l s (bits D)} = {}")
      case True
      then show ?thesis unfolding homogeneous_def by blast
    next
      case False
      then obtain b where "b \<in> set preds" "bits b = {s. hit ?E l s (bits D)}" using p(4) by blast
      with r(4) show ?thesis by (metis (no_types, lifting) Un_iff set_fold_hash_insert)
    qed
    with r(2) have "loop_inv (length ts) ?E F R {} P' W'" unfolding loop_inv_def using criterion_done [of ?E "bits D" P' W'] by blast
    moreover have "m = length W' + length ts - length P'"
      using Suc.hyps(2) r(3) False partitioning_length [of "length ts" P'] r(2) by (cases W rule: rev_cases) (auto simp: loop_inv_def)
    ultimately obtain P2 where "hopcroft ts n ms P' W' = Some P2" "loop_inv (length ts) ?E F R {} P2 []" using Suc.hyps(1) by blast
    moreover have "hopcroft ts n ms P W = hopcroft ts n ms P' W'"
      using False p(1) r(1) by (subst hopcroft.simps) (simp add: D_def)
    ultimately show ?thesis by simp
  qed
qed

lemma two_classes:
  assumes "\<And>c. c \<in> S \<longleftrightarrow> (c = a \<or> c = b) \<and> f c \<noteq> {}"
  shows "(\<Union>c\<in>S. f c) = f a \<union> f b" "f a \<inter> f b = {} \<Longrightarrow> \<forall>c\<in>S. \<forall>d\<in>S. c \<noteq> d \<longrightarrow> f c \<inter> f d = {}"
    "\<forall>c\<in>S. f c \<noteq> {}" "Q (f a) \<Longrightarrow> Q (f b) \<Longrightarrow> \<forall>c\<in>S. Q (f c)"
  using assms by auto

lemma loop_inv_initial:
  assumes "set fs \<subseteq> {..<k}" and "saturated R (set fs)" and "R \<subseteq> {..<k} \<times> {..<k}" and "length f = k" "bits f = set fs"
  defines "P \<equiv> filter (list_ex id) [f, map Not f]"
  shows "loop_inv k E (set fs) R {} P P"
proof -
  have len: "length c = k" if "c \<in> set P" for c using that assms(4) unfolding P_def set_filter by auto
  have bn: "bits (map Not f) = {..<k} - set fs" using assms(4) by (auto simp: assms(5) [symmetric])
  have ex: "list_ex id c \<longleftrightarrow> bits c \<noteq> {}" for c
    unfolding list_ex_length id_apply by blast
  have setP: "c \<in> set P \<longleftrightarrow> (c = f \<or> c = map Not f) \<and> bits c \<noteq> {}" for c
    by (simp only: P_def set_filter mem_Collect_eq ex list.set insert_iff empty_iff simp_thms)
  have neq: "f \<noteq> map Not f" if "bits f \<noteq> {} \<or> bits (map Not f) \<noteq> {}"
  proof
    assume eq: "f = map Not f"
    from that obtain s where "s < length f" by auto
    then have "map Not f ! s = (\<not> f ! s)" by simp
    moreover have "f ! s = map Not f ! s" using eq by (rule arg_cong)
    ultimately show False by blast
  qed
  have "distinct P"
  proof (cases "bits f \<noteq> {} \<or> bits (map Not f) \<noteq> {}")
    case True
    from neq [OF this] show ?thesis unfolding P_def by (intro distinct_filter) simp
  next
    case False
    then have "P = []" using setP by (metis list.set_intros(1) neq_Nil_conv)
    then show ?thesis by simp
  qed
  moreover have "(\<Union>c\<in>set P. bits c) = {..<k}"
    unfolding two_classes(1) [OF setP] assms(5) bn using assms(1) by blast
  moreover have "\<forall>c\<in>set P. \<forall>d\<in>set P. c \<noteq> d \<longrightarrow> bits c \<inter> bits d = {}"
    by (rule two_classes(2) [OF setP]) (simp only: assms(5) bn Diff_disjoint)
  moreover have "\<forall>c\<in>set P. bits c \<noteq> {}" by (rule two_classes(3) [OF setP])
  moreover have lens: "\<forall>c\<in>set P. length c = k" using len by (rule ballI)
  ultimately have part: "partitioning k P" unfolding partitioning_def ball_conj_distrib by (intro conjI) assumption+
  have "saturated R ({..<k} - set fs)" using assms(2,3) unfolding saturated_def by fast
  with assms(2) have "\<forall>c\<in>set P. saturated R (bits c)"
    by (intro two_classes(4) [OF setP, of "saturated R"]) (simp_all only: assms(5) bn)
  moreover have "\<forall>c\<in>set P. bits c \<subseteq> set fs \<or> bits c \<inter> set fs = {}"
    by (rule two_classes(4) [OF setP, of "\<lambda>X. X \<subseteq> set fs \<or> X \<inter> set fs = {}"]) (unfold assms(5) bn, blast+)
  moreover have "hopcroft_criterion E {} P P" unfolding hopcroft_criterion_def by blast
  ultimately show ?thesis unfolding loop_inv_def Un_absorb using part lens by (intro conjI) assumption+
qed

lemma nerode_congruence_inv:
  assumes wf: "wf_raw n a" and det: "ra_deterministic a" and mc: "markers_cover a"
    and R: "respected (edges (ra_transitions a)) R" "saturated R (set (ra_final_states a))"
      "R \<subseteq> {..<length (ra_transitions a)} \<times> {..<length (ra_transitions a)}"
  shows "\<exists>P. nerode_congruence a n (ra_markers a) = Some P \<and>
    loop_inv (length (ra_transitions a)) (edges (ra_transitions a)) (set (ra_final_states a)) R {} P []"
proof -
  let ?k = "length (ra_transitions a)"
  note w = wf_rawD [OF wf]
  obtain f where f: "bits_of ?k (ra_final_states a) = Some f" "length f = ?k" "bits f = set (ra_final_states a)"
    using fold_bit_set [of "ra_final_states a" "replicate ?k False"] w(2) by (auto simp: bits_of_def)
  define P where "P = filter (list_ex id) [f, map Not f]"
  have inv: "loop_inv ?k (edges (ra_transitions a)) (set (ra_final_states a)) R {} P P"
    unfolding P_def by (rule loop_inv_initial [OF w(2) R(2,3) f(2,3)])
  have mc': "\<forall>(p, l, q)\<in>edges (ra_transitions a). l_marker l \<in> set (ra_markers a)" using mc by (simp add: markers_cover_def)
  from hopcroft_total [OF w(4) mc' functional_rows [OF w(6) [OF det]] R(1) inv] obtain P' where
    P': "hopcroft (ra_transitions a) n (ra_markers a) P P = Some P'"
      "loop_inv ?k (edges (ra_transitions a)) (set (ra_final_states a)) R {} P' []" by blast
  have "nerode_congruence a n (ra_markers a) = Some P'"
    unfolding nerode_congruence_def f(1) using P'(1) by (simp add: P_def Let_def)
  with P'(2) show ?thesis by blast
qed

section \<open>The classes are the states with equal futures\<close>

definition future :: "raw_automaton \<Rightarrow> nat \<Rightarrow> letter list set" where
  "future a p = lang (edges (ra_transitions a)) {p} (set (ra_final_states a))"

lemma loop_inv_classes:
  assumes "loop_inv k E F R {} P []" and E: "\<forall>(p, l, q)\<in>E. p < k \<and> q < k"
  shows same_class_refl: "p < k \<Longrightarrow> same_class P p p"
    and same_class_final: "same_class P p q \<Longrightarrow> p \<in> F \<longleftrightarrow> q \<in> F"
    and same_class_step: "same_class P p q \<Longrightarrow> (p, l, t) \<in> E \<Longrightarrow> \<exists>t'. (q, l, t') \<in> E \<and> same_class P t t'"
    and same_class_related: "(p, q) \<in> R \<Longrightarrow> p < k \<Longrightarrow> same_class P p q"
proof -
  have P: "(\<Union>c\<in>set P. bits c) = {..<k}" "\<forall>c\<in>set P. bits c \<subseteq> F \<or> bits c \<inter> F = {}"
    "\<forall>c\<in>set P. saturated R (bits c)" "hopcroft_criterion E {} P []"
    using assms(1) unfolding loop_inv_def partitioning_def by blast+
  have cls: "\<exists>c\<in>set P. p \<in> bits c" if "p < k" for p using that P(1) by blast
  show "same_class P p p" if "p < k" using cls [OF that] unfolding same_class_def by blast
  show "p \<in> F \<longleftrightarrow> q \<in> F" if "same_class P p q" using that P(2) unfolding same_class_def by blast
  show "same_class P p q" if "(p, q) \<in> R" "p < k"
    using cls [OF that(2)] that(1) P(3) unfolding same_class_def saturated_def by blast
  show "\<exists>t'. (q, l, t') \<in> E \<and> same_class P t t'" if s: "same_class P p q" and e: "(p, l, t) \<in> E"
  proof -
    obtain c where c: "c \<in> set P" "t \<in> bits c" using cls E e by blast
    have "\<forall>c\<in>set P. hit E l p (bits c) \<longleftrightarrow> hit E l q (bits c)"
      using P(4) unfolding hopcroft_criterion_def by (simp only: list.set image_empty Un_empty_left ball_empty simp_thms) (use s in blast)
    moreover have "hit E l p (bits c)" using e c(2) unfolding hit_def by blast
    ultimately have "hit E l q (bits c)" using c(1) by blast
    with c show ?thesis unfolding hit_def same_class_def by blast
  qed
qed

lemma same_class_sym: "same_class P p q \<Longrightarrow> same_class P q p"
  unfolding same_class_def by blast

lemma same_class_future:
  assumes inv: "loop_inv (length (ra_transitions a)) (edges (ra_transitions a)) (set (ra_final_states a)) R {} P []"
    and wf: "wf_raw n a" and "same_class P p q"
  shows "future a p = future a q"
  unfolding future_def
proof (rule lang_bisim [where R = "same_class P"])
  have E: "\<forall>(p, l, q)\<in>edges (ra_transitions a). p < length (ra_transitions a) \<and> q < length (ra_transitions a)"
    using wf_tableD [OF wf_rawD(4) [OF wf]] by blast
  note c = loop_inv_classes [OF inv E]
  show "p' \<in> set (ra_final_states a) \<longleftrightarrow> q' \<in> set (ra_final_states a)" if "same_class P p' q'" for p' q' by (rule c(2) [OF that])
  show "\<exists>t'. (q', l, t') \<in> edges (ra_transitions a) \<and> same_class P t t'" if "same_class P p' q'" "(p', l, t) \<in> edges (ra_transitions a)" for p' q' l t
    by (rule c(3) [OF that])
  show "\<exists>t. (p', l, t) \<in> edges (ra_transitions a) \<and> same_class P t t'" if "same_class P p' q'" "(q', l, t') \<in> edges (ra_transitions a)" for p' q' l t'
    using c(3) [OF same_class_sym [OF that(1)] that(2)] same_class_sym by blast
qed (use assms(3) in auto)

text \<open>States with equal futures are related by transitions when no state is dead.\<close>

definition equal_futures :: "raw_automaton \<Rightarrow> (nat \<times> nat) set" where
  "equal_futures a = {(p, q). p < length (ra_transitions a) \<and> q < length (ra_transitions a) \<and> future a p = future a q}"

lemma future_Cons: "l # w \<in> future a p \<longleftrightarrow> (\<exists>t. (p, l, t) \<in> edges (ra_transitions a) \<and> w \<in> future a t)"
  by (auto simp: future_def lang_def)

lemma equal_futures_respected:
  assumes wf: "wf_raw n a" and det: "ra_deterministic a" and alive: "\<forall>p<length (ra_transitions a). future a p \<noteq> {}"
  shows "respected (edges (ra_transitions a)) (equal_futures a)"
  unfolding respected_def
proof (intro conjI allI impI)
  show "sym (equal_futures a)" by (auto simp: sym_def equal_futures_def)
  fix p q l t assume pq: "(p, q) \<in> equal_futures a" and e: "(p, l, t) \<in> edges (ra_transitions a)"
  note E = wf_tableD [OF wf_rawD(4) [OF wf]] and fe = functional_rows [OF wf_rawD(6) [OF wf det]]
  have unique: "(s, l, t1) \<in> edges (ra_transitions a) \<Longrightarrow> (s, l, t2) \<in> edges (ra_transitions a) \<Longrightarrow> t1 = t2" for s t1 t2
    using fe unfolding functional_edges_def by blast
  obtain w where "w \<in> future a t" using alive E [OF e] by blast
  with e have "l # w \<in> future a p" unfolding future_Cons by blast
  then have "l # w \<in> future a q" using pq by (simp add: equal_futures_def)
  then obtain t' where t': "(q, l, t') \<in> edges (ra_transitions a)" by (auto simp: future_Cons)
  have "v \<in> future a t \<longleftrightarrow> v \<in> future a t'" for v
  proof -
    have "v \<in> future a t \<longleftrightarrow> l # v \<in> future a p" using e unique [of p] by (auto simp: future_Cons)
    also have "\<dots> \<longleftrightarrow> l # v \<in> future a q" using pq by (simp add: equal_futures_def)
    also have "\<dots> \<longleftrightarrow> v \<in> future a t'" using t' unique [of q] by (auto simp: future_Cons)
    finally show ?thesis .
  qed
  with t' E [OF e] E [OF t'] show "\<exists>t'. (q, l, t') \<in> edges (ra_transitions a) \<and> (t, t') \<in> equal_futures a"
    by (auto simp: equal_futures_def)
qed

lemma equal_futures_final: "saturated (equal_futures a) (set (ra_final_states a))"
proof -
  have "p \<in> set (ra_final_states a) \<longleftrightarrow> [] \<in> future a p" for p by (simp add: future_def lang_def)
  then show ?thesis by (auto simp: saturated_def equal_futures_def)
qed

text \<open>The result of the loop, with the smallest relation and with that of equal futures.\<close>

lemma nerode_congruence_returns:
  assumes "wf_raw n a" "ra_deterministic a" "markers_cover a"
  shows "\<exists>P. nerode_congruence a n (ra_markers a) = Some P \<and>
    loop_inv (length (ra_transitions a)) (edges (ra_transitions a)) (set (ra_final_states a)) {} {} P []"
  by (rule nerode_congruence_inv [OF assms]) (auto simp: respected_def saturated_def sym_def)

lemma nerode_congruence_exact:
  assumes wf: "wf_raw n a" and det: "ra_deterministic a" and mc: "markers_cover a"
    and alive: "\<forall>p<length (ra_transitions a). future a p \<noteq> {}" and P: "nerode_congruence a n (ra_markers a) = Some P"
    and p: "p < length (ra_transitions a)" and q: "q < length (ra_transitions a)"
  shows "same_class P p q \<longleftrightarrow> future a p = future a q"
proof -
  have E: "\<forall>(p, l, q)\<in>edges (ra_transitions a). p < length (ra_transitions a) \<and> q < length (ra_transitions a)"
    using wf_tableD [OF wf_rawD(4) [OF wf]] by blast
  have "equal_futures a \<subseteq> {..<length (ra_transitions a)} \<times> {..<length (ra_transitions a)}" by (auto simp: equal_futures_def)
  from nerode_congruence_inv [OF wf det mc equal_futures_respected [OF wf det alive] equal_futures_final this] P
  have inv: "loop_inv (length (ra_transitions a)) (edges (ra_transitions a)) (set (ra_final_states a)) (equal_futures a) {} P []" by auto
  show ?thesis
  proof
    assume "same_class P p q"
    then show "future a p = future a q" by (rule same_class_future [OF inv wf])
  next
    assume "future a p = future a q"
    then have "(p, q) \<in> equal_futures a" using p q by (simp add: equal_futures_def)
    then show "same_class P p q" using loop_inv_classes(4) [OF inv E] p by blast
  qed
qed

section \<open>The quotient\<close>

lemma class_of_Some:
  assumes "partitioning k P" and "s < k"
  shows "\<exists>i<length P. class_of P s = Some i \<and> s \<in> bits (P ! i)"
proof -
  have len: "length c = k" if "c \<in> set P" for c using that assms(1) unfolding partitioning_def by blast
  obtain c where c: "c \<in> set P" "s \<in> bits c" using assms unfolding partitioning_def by blast
  then obtain i where i: "position (\<lambda>cls. cls ! s) P = Some i"
    using position_None_iff [of "\<lambda>cls. cls ! s" P] by (cases "position (\<lambda>cls. cls ! s) P") auto
  have "class_of P s = Some i" using i len assms(2) by (simp add: class_of_def list_all_iff)
  moreover have "i < length P" "P ! i ! s" using position_lt [OF i] position_holds [OF i] by simp_all
  ultimately show ?thesis using len [of "P ! i"] assms(2) by auto
qed

lemma class_unique:
  assumes "partitioning k P" "i < length P" "j < length P" "s \<in> bits (P ! i)" "s \<in> bits (P ! j)"
  shows "i = j"
proof (rule ccontr)
  assume "i \<noteq> j"
  moreover have "distinct P" using assms(1) by (simp add: partitioning_def)
  ultimately have "P ! i \<noteq> P ! j" using assms(2,3) by (simp add: nth_eq_iff_index_eq)
  moreover have "P ! i \<in> set P" "P ! j \<in> set P" using assms(2,3) by simp_all
  ultimately have "bits (P ! i) \<inter> bits (P ! j) = {}" using assms(1) unfolding partitioning_def by blast
  with assms(4,5) show False by blast
qed

definition class_index :: "bitset list \<Rightarrow> nat \<Rightarrow> nat" where
  "class_index P s = the (class_of P s)"

definition class_rep :: "bitset list \<Rightarrow> nat \<Rightarrow> nat" where
  "class_rep P i = the (position id (P ! i))"

lemma class_index_props:
  assumes "partitioning k P" "s < k"
  shows "class_of P s = Some (class_index P s)" "class_index P s < length P" "s \<in> bits (P ! class_index P s)"
  using class_of_Some [OF assms] by (auto simp: class_index_def)

lemma class_rep_props:
  assumes "partitioning k P" "i < length P"
  shows "position id (P ! i) = Some (class_rep P i)" "class_rep P i \<in> bits (P ! i)" "class_rep P i < k"
proof -
  have c: "length (P ! i) = k" "bits (P ! i) \<noteq> {}" using assms unfolding partitioning_def by (metis nth_mem)+
  then obtain r where r: "position id (P ! i) = Some r"
    using position_None_iff [of id "P ! i"] by (cases "position id (P ! i)") (auto simp: in_set_conv_nth)
  then show "position id (P ! i) = Some (class_rep P i)" by (simp add: class_rep_def)
  with r have "class_rep P i = r" by simp
  with position_lt [OF r] position_holds [OF r] c(1) show "class_rep P i \<in> bits (P ! i)" "class_rep P i < k" by auto
qed

definition quotient_row :: "raw_automaton \<Rightarrow> bitset list \<Rightarrow> nat \<Rightarrow> (letter \<times> nat) list" where
  "quotient_row a P i = map (\<lambda>(l, t). (l, class_index P t)) (ra_transitions a ! class_rep P i)"

definition nerode_quotient :: "raw_automaton \<Rightarrow> bitset list \<Rightarrow> raw_automaton" where
  "nerode_quotient a P = a\<lparr>ra_deterministic := True, ra_initial_state := class_index P (ra_initial_state a),
     ra_final_states := filter (\<lambda>i. class_rep P i \<in> set (ra_final_states a)) [0..<length P],
     ra_transitions := map (quotient_row a P) [0..<length P]\<rparr>"

lemma minimise_quotient:
  assumes wf: "wf_raw n a" and det: "ra_deterministic a" and P: "nerode_congruence a n (ra_markers a) = Some P"
    and part: "partitioning (length (ra_transitions a)) P"
  shows "minimise n a = Some (nerode_quotient a P)"
proof -
  let ?ts = "ra_transitions a"
  note w = wf_rawD [OF wf]
  have P_map: "P = map ((!) P) [0..<length P]" by (simp add: map_nth)
  have reps: "those (map (position id) P) = Some (map (class_rep P) [0..<length P])"
    by (subst P_map, subst map_map) (rule those_map_Some_all, use class_rep_props(1) [OF part] in simp)
  have row: "class_transitions a P (P ! i) = Some (quotient_row a P i)" if i: "i < length P" for i
  proof -
    note r = class_rep_props [OF part i]
    have "those (map (\<lambda>(letter, target). map_option (Pair letter) (class_of P target)) (?ts ! class_rep P i)) =
        those (map (\<lambda>x. map_option (Pair (fst x)) (class_of P (snd x))) (?ts ! class_rep P i))"
      by (intro arg_cong [of _ _ those] map_cong) auto
    also have "\<dots> = Some (map (\<lambda>x. (fst x, class_index P (snd x))) (?ts ! class_rep P i))"
    proof (rule those_map_Some_all)
      fix x assume "x \<in> set (?ts ! class_rep P i)"
      then have "(class_rep P i, fst x, snd x) \<in> edges ?ts" using r(3) by (simp add: edges_def)
      then have "snd x < length ?ts" using wf_tableD [OF w(4)] by blast
      from class_index_props(1) [OF part this] show "map_option (Pair (fst x)) (class_of P (snd x)) = Some (fst x, class_index P (snd x))" by simp
    qed
    finally show ?thesis using r(1,3) by (simp add: class_transitions_def index_opt_nth quotient_row_def case_prod_beta)
  qed
  have rows: "those (map (class_transitions a P) P) = Some (map (quotient_row a P) [0..<length P])"
    by (subst (2) P_map, subst map_map) (rule those_map_Some_all, use row in simp)
  have fin: "filter (\<lambda>i. map (class_rep P) [0..<length P] ! i \<in> set (ra_final_states a)) [0..<length P] =
      filter (\<lambda>i. class_rep P i \<in> set (ra_final_states a)) [0..<length P]" by (intro filter_cong) auto
  show ?thesis unfolding minimise_def using det P class_index_props(1) [OF part w(1)] by (simp add: reps rows fin nerode_quotient_def)
qed

lemma edges_quotient:
  "edges (ra_transitions (nerode_quotient a P)) = {(i, l, class_index P t) |i l t. i < length P \<and> (l, t) \<in> set (ra_transitions a ! class_rep P i)}"
  by (auto simp: edges_def nerode_quotient_def quotient_row_def image_iff) force+

theorem minimise_spec:
  assumes wf: "wf_raw n a" and det: "ra_deterministic a" and mc: "markers_cover a"
  obtains b P where "minimise n a = Some b" and "nerode_congruence a n (ra_markers a) = Some P" and "b = nerode_quotient a P"
    and "wf_raw n b" and "markers_cover b" and "language b = language a"
    and "\<forall>p<length (ra_transitions a). class_index P p < length P \<and> future b (class_index P p) = future a p"
    and "\<forall>i<length P. class_rep P i < length (ra_transitions a) \<and> class_index P (class_rep P i) = i"
proof -
  let ?ts = "ra_transitions a" and ?E = "edges (ra_transitions a)" and ?F = "set (ra_final_states a)"
  note w = wf_rawD [OF wf]
  obtain P where P: "nerode_congruence a n (ra_markers a) = Some P" "loop_inv (length ?ts) ?E ?F {} {} P []"
    using nerode_congruence_returns [OF wf det mc] by blast
  have part: "partitioning (length ?ts) P" using P(2) by (simp only: loop_inv_def)
  let ?b = "nerode_quotient a P"
  have eq: "minimise n a = Some ?b" by (rule minimise_quotient [OF wf det P(1) part])
  have E: "\<forall>(p, l, q)\<in>?E. p < length ?ts \<and> q < length ?ts" using wf_tableD [OF w(4)] by blast
  note c = loop_inv_classes [OF P(2) E]
  have E': "(i, l, j) \<in> edges (ra_transitions ?b) \<longleftrightarrow> i < length P \<and> (\<exists>t. (class_rep P i, l, t) \<in> ?E \<and> j = class_index P t)" for i l j
    unfolding edges_quotient using class_rep_props(3) [OF part] by (auto simp: edges_def)
  have finb: "i \<in> set (ra_final_states ?b) \<longleftrightarrow> i < length P \<and> class_rep P i \<in> ?F" for i by (auto simp: nerode_quotient_def)
  have lenb: "length (ra_transitions ?b) = length P" by (simp add: nerode_quotient_def)
  have idx: "class_index P t < length P" "t \<in> bits (P ! class_index P t)" if "(p, l, t) \<in> ?E" for p l t
    using class_index_props [OF part] E that by blast+
  have "q < length P \<and> unat (l_char l) < n" if "(p, l, q) \<in> edges (ra_transitions ?b)" for p l q
  proof -
    from that obtain t where t: "(class_rep P p, l, t) \<in> ?E" "q = class_index P t" unfolding E' by blast
    from idx(1) [OF t(1)] wf_tableD [OF w(4) t(1)] t(2) show ?thesis by simp
  qed
  then have "wf_table n (ra_transitions ?b)" unfolding wf_table_def lenb by blast
  moreover have "row_deterministic (ra_transitions ?b)"
  proof -
    have "map fst (quotient_row a P i) = map fst (?ts ! class_rep P i)" for i by (simp add: quotient_row_def case_prod_beta comp_def)
    then show ?thesis using w(6) [OF det] class_rep_props(3) [OF part] by (auto simp: row_deterministic_def nerode_quotient_def)
  qed
  ultimately have wfb: "wf_raw n ?b"
    using w(5) class_index_props(2) [OF part w(1)] unfolding wf_raw_def lenb by (auto simp: nerode_quotient_def)
  have "l_marker l \<in> set (ra_markers ?b)" if "(p, l, q) \<in> edges (ra_transitions ?b)" for p l q
  proof -
    from that obtain t where "(class_rep P p, l, t) \<in> ?E" unfolding E' by blast
    with mc have "l_marker l \<in> set (ra_markers a)" unfolding markers_cover_def by blast
    then show ?thesis by (simp add: nerode_quotient_def)
  qed
  then have mcb: "markers_cover ?b" unfolding markers_cover_def by blast
  have fut: "future ?b (class_index P p) = future a p" if p: "p < length ?ts" for p
    unfolding future_def
  proof (rule lang_bisim [where R = "\<lambda>i s. i < length P \<and> s \<in> bits (P ! i)"])
    show "\<exists>s\<in>{p}. i < length P \<and> s \<in> bits (P ! i)" if "i \<in> {class_index P p}" for i using that class_index_props [OF part p] by blast
    show "\<exists>i\<in>{class_index P p}. i < length P \<and> s \<in> bits (P ! i)" if "s \<in> {p}" for s using that class_index_props [OF part p] by blast
  next
    fix i s assume R: "i < length P \<and> s \<in> bits (P ! i)"
    then have same: "same_class P (class_rep P i) s" using class_rep_props(2) [OF part, of i] unfolding same_class_def by (meson nth_mem)
    show "i \<in> set (ra_final_states ?b) \<longleftrightarrow> s \<in> ?F" using finb [of i] R c(2) [OF same] by blast
    show "\<exists>t. (s, l, t) \<in> ?E \<and> j < length P \<and> t \<in> bits (P ! j)" if "(i, l, j) \<in> edges (ra_transitions ?b)" for l j
    proof -
      from that obtain t where t: "(class_rep P i, l, t) \<in> ?E" "j = class_index P t" unfolding E' by blast
      from c(3) [OF same t(1)] obtain t' d where t': "(s, l, t') \<in> ?E" "d \<in> set P" "t \<in> bits d" "t' \<in> bits d" unfolding same_class_def by blast
      then obtain m where m: "m < length P" "d = P ! m" by (auto simp: in_set_conv_nth)
      have "m = j" using class_unique [OF part m(1) idx(1) [OF t(1)]] t'(3) idx(2) [OF t(1)] by (simp only: m(2) t(2))
      with t' m show ?thesis by blast
    qed
    show "\<exists>j. (i, l, j) \<in> edges (ra_transitions ?b) \<and> j < length P \<and> t \<in> bits (P ! j)" if "(s, l, t) \<in> ?E" for l t
    proof -
      from c(3) [OF same_class_sym [OF same] that] obtain t' d where t': "(class_rep P i, l, t') \<in> ?E" "d \<in> set P" "t \<in> bits d" "t' \<in> bits d"
        unfolding same_class_def by blast
      then obtain m where m: "m < length P" "d = P ! m" by (auto simp: in_set_conv_nth)
      have "m = class_index P t'" using class_unique [OF part m(1) idx(1) [OF t'(1)]] t'(4) idx(2) [OF t'(1)] by (simp only: m(2))
      then have "(i, l, m) \<in> edges (ra_transitions ?b)" unfolding E' using R t'(1) by blast
      with m t'(3) show ?thesis by blast
    qed
  qed
  have "class_rep P i < length ?ts \<and> class_index P (class_rep P i) = i" if i: "i < length P" for i
  proof -
    note r = class_rep_props [OF part i]
    have "class_index P (class_rep P i) = i"
      by (rule class_unique [OF part class_index_props(2) [OF part r(3)] i class_index_props(3) [OF part r(3)] r(2)])
    with r(3) show ?thesis by blast
  qed
  moreover have "language ?b = language a" using fut [OF w(1)] by (simp add: language_def future_def nerode_quotient_def)
  ultimately show thesis using that [OF eq P(1) refl wfb mcb] fut class_index_props(2) [OF part] by blast
qed

text \<open>
  C10: Minimisation ends and merges exactly the states with equal futures: on a deterministic automaton
  the refinement loop returns, the quotient recognises the same language, and when no state is dead
  two states fall into one class if and only if the same words lead from them to a final state; then
  no two states of the result have equal futures.
\<close>

theorem minimise_correct:
  assumes "wf_raw n a" and "ra_deterministic a" and "markers_cover a"
  shows "\<exists>P b. nerode_congruence a n (ra_markers a) = Some P \<and> minimise n a = Some b \<and> wf_raw n b \<and> language b = language a \<and>
    ((\<forall>p<length (ra_transitions a). future a p \<noteq> {}) \<longrightarrow>
      (\<forall>p<length (ra_transitions a). \<forall>q<length (ra_transitions a). same_class P p q \<longleftrightarrow> future a p = future a q) \<and>
      (\<forall>i<length (ra_transitions b). \<forall>j<length (ra_transitions b). future b i = future b j \<longrightarrow> i = j))"
proof -
  obtain b P where b: "minimise n a = Some b" "nerode_congruence a n (ra_markers a) = Some P" "b = nerode_quotient a P" "wf_raw n b"
    "language b = language a"
    and fut: "\<forall>p<length (ra_transitions a). class_index P p < length P \<and> future b (class_index P p) = future a p"
    and rep: "\<forall>i<length P. class_rep P i < length (ra_transitions a) \<and> class_index P (class_rep P i) = i"
    by (rule minimise_spec [OF assms]) blast
  note exact = nerode_congruence_exact [OF assms _ b(2)]
  have part: "partitioning (length (ra_transitions a)) P"
    using nerode_congruence_returns [OF assms] b(2) by (auto simp: loop_inv_def)
  have len: "length (ra_transitions b) = length P" by (simp add: b(3) nerode_quotient_def)
  have "i = j" if alive: "\<forall>p<length (ra_transitions a). future a p \<noteq> {}" and ij: "i < length P" "j < length P" "future b i = future b j" for i j
  proof -
    have "future a (class_rep P i) = future a (class_rep P j)" using fut rep ij by metis
    with exact [OF alive, of "class_rep P i" "class_rep P j"] rep ij(1,2) have "same_class P (class_rep P i) (class_rep P j)" by blast
    then obtain c where c: "c \<in> set P" "class_rep P i \<in> bits c" "class_rep P j \<in> bits c" unfolding same_class_def by blast
    then obtain m where m: "m < length P" "c = P ! m" by (auto simp: in_set_conv_nth)
    have "i = m" by (rule class_unique [OF part ij(1) m(1) class_rep_props(2) [OF part ij(1)]]) (use c(2) m(2) in \<open>simp only:\<close>)
    moreover have "j = m" by (rule class_unique [OF part ij(2) m(1) class_rep_props(2) [OF part ij(2)]]) (use c(3) m(2) in \<open>simp only:\<close>)
    ultimately show ?thesis by simp
  qed
  with b exact len show ?thesis by (intro exI [of _ P] exI [of _ b]) simp
qed

text \<open>Two final states that accept the same words: both read the only byte and stay final.\<close>

definition example_twins :: raw_automaton where
  "example_twins = \<lparr>ra_deterministic = True, ra_complete = False, ra_initial_state = 0, ra_final_states = [0, 1],
     ra_transitions = [[(\<lparr>l_char = 0, l_marker = 0\<rparr>, 1)], [(\<lparr>l_char = 0, l_marker = 0\<rparr>, 0)]], ra_markers = [0]\<rparr>"

lemma example_twins_props: "wf_raw 1 example_twins" "ra_deterministic example_twins" "markers_cover example_twins"
proof -
  let ?l = "\<lparr>l_char = 0, l_marker = 0\<rparr>"
  have e: "edges (ra_transitions example_twins) = {(0, ?l, 1), (1, ?l, 0)}" by (auto simp: example_twins_def edges_def less_Suc_eq)
  show "wf_raw 1 example_twins" "markers_cover example_twins"
    unfolding wf_raw_def wf_table_def markers_cover_def e by (auto simp: example_twins_def row_deterministic_def)
qed (simp add: example_twins_def)

theorem minimise_correct_witness:
  "\<exists>b. minimise 1 example_twins = Some b \<and> language b = language example_twins \<and> length (ra_transitions b) = 1"
proof -
  have "map_option (\<lambda>b. length (ra_transitions b)) (minimise 1 example_twins) = Some 1" by code_simp
  with minimise_correct [OF example_twins_props] show ?thesis by auto
qed

end
