(* ===== verification/Automaton_Run.thy ===== *)
theory Automaton_Run
  imports Automaton_Minimise
begin

text \<open>
  The conversion to the normalised automaton (\<open>RawAutomaton::normalise\<close>) and its runs
  (\<open>Automaton::run\<close>): the runs of the result are the words of the language, read byte by byte and
  with the markers as output.
\<close>

section \<open>Determinisation keeps the markers\<close>

lemma bind_SomeE: "Option.bind x f = Some y \<Longrightarrow> (\<And>z. x = Some z \<Longrightarrow> f z = Some y \<Longrightarrow> P) \<Longrightarrow> P"
  by (cases x) auto

lemma powerset_markers: "powerset_construction a is c n = Some b \<Longrightarrow> ra_markers b = ra_markers a"
  by (auto simp: powerset_construction_def elim!: bind_SomeE)

lemma determinise_markers: "determinise c n a = Some b \<Longrightarrow> ra_markers b = ra_markers a"
  by (auto simp: determinise_def split: if_splits dest: powerset_markers)

section \<open>The alphabet of an automaton\<close>

lemma fold_max_le: "fold max xs (i :: nat) \<le> k \<longleftrightarrow> i \<le> k \<and> (\<forall>x\<in>set xs. x \<le> k)"
  by (induction xs arbitrary: i) auto

lemma table_alphabet_size_le: "table_alphabet_size ts \<le> k \<longleftrightarrow> (\<forall>(p, l, q)\<in>edges ts. unat (l_char l) < k)"
proof -
  have "table_alphabet_size ts \<le> k \<longleftrightarrow> (\<forall>row\<in>set ts. \<forall>(l, q)\<in>set row. unat (l_char l) < k)"
    unfolding table_alphabet_size_def fold_max_le by (simp add: fold_max_le case_prod_beta Suc_le_eq)
  also have "\<dots> \<longleftrightarrow> (\<forall>(p, l, q)\<in>edges ts. unat (l_char l) < k)"
  proof
    assume *: "\<forall>row\<in>set ts. \<forall>(l, q)\<in>set row. unat (l_char l) < k"
    show "\<forall>(p, l, q)\<in>edges ts. unat (l_char l) < k"
    proof (clarify)
      fix p l q assume "(p, l, q) \<in> edges ts"
      then have "ts ! p \<in> set ts" "(l, q) \<in> set (ts ! p)" by (simp_all add: edges_def)
      with * show "unat (l_char l) < k" by fastforce
    qed
  next
    assume *: "\<forall>(p, l, q)\<in>edges ts. unat (l_char l) < k"
    show "\<forall>row\<in>set ts. \<forall>(l, q)\<in>set row. unat (l_char l) < k"
    proof (clarify)
      fix row l q assume "row \<in> set ts" "(l, q) \<in> set row"
      then obtain p where "(p, l, q) \<in> edges ts" by (auto simp: edges_def in_set_conv_nth [of row])
      with * show "unat (l_char l) < k" by blast
    qed
  qed
  finally show ?thesis .
qed

lemma table_alphabet:
  assumes "wf_raw n a"
  shows "wf_raw (table_alphabet_size (ra_transitions a)) a" "table_alphabet_size (ra_transitions a) \<le> ALPHABET_MAX_SIZE"
proof -
  have "\<forall>(p, l, q)\<in>edges (ra_transitions a). unat (l_char l) < table_alphabet_size (ra_transitions a)"
    using table_alphabet_size_le [of "ra_transitions a" "table_alphabet_size (ra_transitions a)"] by simp
  then show "wf_raw (table_alphabet_size (ra_transitions a)) a"
    using assms unfolding wf_raw_def wf_table_def by blast
  have "unat (l_char l) < 256" for l :: letter using unsigned_less [of "l_char l"] by simp
  then show "table_alphabet_size (ra_transitions a) \<le> ALPHABET_MAX_SIZE" unfolding table_alphabet_size_le ALPHABET_MAX_SIZE_def by simp
qed

section \<open>The transition map\<close>

definition byte_key :: "nat \<times> letter \<times> nat \<Rightarrow> nat \<times> 8 word" where
  "byte_key tr = (fst tr, l_char (fst (snd tr)))"

definition byte_entry :: "nat \<times> letter \<times> nat \<Rightarrow> (nat \<times> 8 word) \<times> (nat \<times> nat)" where
  "byte_entry tr = (byte_key tr, (snd (snd tr), l_marker (fst (snd tr))))"

lemma fold_insert_transition:
  "fold_opt insert_transition es m =
     (if distinct (map byte_key es) \<and> fst ` set m \<inter> set (map byte_key es) = {} then Some (m @ map byte_entry es) else None)"
proof (induction es arbitrary: m)
  case (Cons e es)
  have i: "insert_transition e m = (if byte_key e \<in> fst ` set m then None else Some (m @ [byte_entry e]))"
    by (cases e rule: prod_cases3) (simp add: insert_transition_def byte_key_def byte_entry_def map_of_eq_None_iff)
  have f: "fst ` set (m @ [byte_entry e]) = insert (byte_key e) (fst ` set m)" by (simp add: byte_entry_def)
  show ?case
  proof (cases "byte_key e \<in> fst ` set m")
    case True
    then have "fst ` set m \<inter> set (map byte_key (e # es)) \<noteq> {}" by (simp only: list.map list.set) blast
    with True i show ?thesis by simp
  next
    case False
    have "k \<notin> K \<Longrightarrow> (k \<notin> S \<and> K \<inter> insert k S = {}) \<longleftrightarrow> insert k K \<inter> S = {}" for k and K S :: "(nat \<times> 8 word) set" by blast
    from this [OF False, of "byte_key ` set es"]
    have "distinct (map byte_key (e # es)) \<and> fst ` set m \<inter> set (map byte_key (e # es)) = {} \<longleftrightarrow>
        distinct (map byte_key es) \<and> insert (byte_key e) (fst ` set m) \<inter> set (map byte_key es) = {}"
      by (simp only: distinct.simps list.map list.set set_map) blast
    moreover have "fold_opt insert_transition (e # es) m = fold_opt insert_transition es (m @ [byte_entry e])" using i False by simp
    ultimately show ?thesis unfolding Cons.IH f by simp
  qed
qed simp

text \<open>No state has two transitions on the same byte.\<close>

definition byte_deterministic :: "raw_automaton \<Rightarrow> bool" where
  "byte_deterministic a \<longleftrightarrow> (\<forall>p l q l' q'. (p, l, q) \<in> edges (ra_transitions a) \<longrightarrow> (p, l', q') \<in> edges (ra_transitions a) \<longrightarrow>
     l_char l = l_char l' \<longrightarrow> l = l')"

lemma distinct_byte_keys:
  assumes "row_deterministic (ra_transitions a)"
  shows "distinct (map byte_key (table_edges (ra_transitions a))) \<longleftrightarrow> byte_deterministic a"
proof -
  have d: "distinct (table_edges (ra_transitions a))"
    using distinct_table_edges [OF assms] by (simp add: distinct_map)
  have "distinct (map byte_key (table_edges (ra_transitions a))) \<longleftrightarrow> inj_on byte_key (edges (ra_transitions a))"
    using d by (simp add: distinct_map set_table_edges)
  also have "\<dots> \<longleftrightarrow> byte_deterministic a"
  proof
    assume "inj_on byte_key (edges (ra_transitions a))"
    then show "byte_deterministic a" unfolding byte_deterministic_def inj_on_def byte_key_def by fastforce
  next
    assume b: "byte_deterministic a"
    have fe: "functional_edges (edges (ra_transitions a))" by (rule functional_rows [OF assms])
    show "inj_on byte_key (edges (ra_transitions a))"
    proof (rule inj_onI)
      fix x y assume x: "x \<in> edges (ra_transitions a)" and y: "y \<in> edges (ra_transitions a)" and "byte_key x = byte_key y"
      obtain p l q p' l' q' where xy: "x = (p, l, q)" "y = (p', l', q')" by (metis prod_cases3)
      with \<open>byte_key x = byte_key y\<close> have "p = p'" "l_char l = l_char l'" by (auto simp: byte_key_def)
      moreover from this b x y have "l = l'" unfolding byte_deterministic_def xy by blast
      ultimately show "x = y" using fe x y unfolding functional_edges_def xy by blast
    qed
  qed
  finally show ?thesis .
qed

section \<open>Runs\<close>

lemma letter_eta [simp]: "\<lparr>l_char = l_char l, l_marker = l_marker l\<rparr> = l"
  by (cases l) simp

definition represents :: "automaton \<Rightarrow> raw_automaton \<Rightarrow> bool" where
  "represents A b \<longleftrightarrow> au_initial_state A = ra_initial_state b \<and> au_final_states A = ra_final_states b \<and>
     au_nb_states A = length (ra_transitions b) \<and>
     (\<forall>p c q m. map_of (au_transitions A) (p, c) = Some (q, m) \<longleftrightarrow> (p, \<lparr>l_char = c, l_marker = m\<rparr>, q) \<in> edges (ra_transitions b))"

lemma run_from_steps:
  assumes "represents A b"
  shows "run_from A p input = (states, outputs, False) \<longrightarrow> (\<exists>w. map l_char w = input \<and> map l_marker w = outputs \<and>
      steps (edges (ra_transitions b)) p w (last states) \<and> states \<noteq> [])"
proof (induction input arbitrary: p states outputs)
  case Nil
  then show ?case by auto
next
  case (Cons c input)
  show ?case
  proof
    assume r: "run_from A p (c # input) = (states, outputs, False)"
    then obtain q m where t: "map_of (au_transitions A) (p, c) = Some (q, m)" by (cases "map_of (au_transitions A) (p, c)") auto
    obtain ss os k where rest: "run_from A q input = (ss, os, k)" using prod_cases3 by blast
    with r t have o: "k = False" "states = p # ss" "outputs = m # os" by (auto split: if_splits)
    with Cons.IH [of q ss os] rest obtain w where "map l_char w = input" "map l_marker w = os"
      "steps (edges (ra_transitions b)) q w (last ss)" "ss \<noteq> []" by auto
    moreover have "(p, \<lparr>l_char = c, l_marker = m\<rparr>, q) \<in> edges (ra_transitions b)" using assms t by (simp add: represents_def)
    ultimately show "\<exists>w. map l_char w = c # input \<and> map l_marker w = outputs \<and> steps (edges (ra_transitions b)) p w (last states) \<and> states \<noteq> []"
      by (intro exI [of _ "\<lparr>l_char = c, l_marker = m\<rparr> # w"]) (auto simp: o)
  qed
qed

lemma steps_run_from:
  assumes "represents A b"
  shows "steps (edges (ra_transitions b)) p w q \<Longrightarrow>
    \<exists>states. run_from A p (map l_char w) = (states, map l_marker w, False) \<and> last states = q \<and> states \<noteq> []"
proof (induction w arbitrary: p)
  case Nil
  then show ?case by auto
next
  case (Cons l w)
  then obtain r where r: "(p, l, r) \<in> edges (ra_transitions b)" "steps (edges (ra_transitions b)) r w q" by auto
  then have "map_of (au_transitions A) (p, l_char l) = Some (r, l_marker l)" using assms by (simp add: represents_def)
  with Cons.IH [OF r(2)] show ?case by (auto split: prod.splits)
qed

definition accepts :: "automaton \<Rightarrow> 8 word list \<Rightarrow> nat list \<Rightarrow> bool" where
  "accepts A input outputs \<longleftrightarrow> (\<exists>states. run A input = (states, outputs, False) \<and> last states \<in> set (au_final_states A))"

lemma accepts_language:
  assumes "represents A b"
  shows "accepts A input outputs \<longleftrightarrow> (\<exists>w\<in>language b. map l_char w = input \<and> map l_marker w = outputs)"
proof
  assume "accepts A input outputs"
  then obtain states where "run_from A (au_initial_state A) input = (states, outputs, False)" "last states \<in> set (au_final_states A)"
    by (auto simp: accepts_def run_def)
  with run_from_steps [OF assms] obtain w where "map l_char w = input" "map l_marker w = outputs"
    "steps (edges (ra_transitions b)) (au_initial_state A) w (last states)" by blast
  with assms \<open>last states \<in> _\<close> show "\<exists>w\<in>language b. map l_char w = input \<and> map l_marker w = outputs"
    by (auto simp: represents_def language_def lang_def)
next
  assume "\<exists>w\<in>language b. map l_char w = input \<and> map l_marker w = outputs"
  then obtain w q where "map l_char w = input" "map l_marker w = outputs" "q \<in> set (ra_final_states b)"
    "steps (edges (ra_transitions b)) (ra_initial_state b) w q" by (auto simp: language_def lang_def)
  with steps_run_from [OF assms, of "ra_initial_state b" w q] assms show "accepts A input outputs"
    by (auto simp: accepts_def run_def represents_def)
qed

text \<open>
  The language leaves no choice of a marker: the marker of a letter is determined by the bytes up to it.
  For automata without useless parts this is the same as having at most one transition for a byte.
\<close>

definition output_deterministic :: "letter list set \<Rightarrow> bool" where
  "output_deterministic L \<longleftrightarrow> (\<forall>u l v u' l' v'. u @ l # v \<in> L \<longrightarrow> u' @ l' # v' \<in> L \<longrightarrow>
     map l_char u = map l_char u' \<longrightarrow> l_char l = l_char l' \<longrightarrow> l_marker l = l_marker l')"

lemma trim_byte_deterministic:
  assumes "trim a" and od: "output_deterministic (language a)"
  shows "byte_deterministic a"
  unfolding byte_deterministic_def
proof (intro allI impI)
  fix p l q l' q'
  assume e: "(p, l, q) \<in> edges (ra_transitions a)" "(p, l', q') \<in> edges (ra_transitions a)" and c: "l_char l = l_char l'"
  note t = trimmedD(1,2) [OF assms(1) [unfolded trim_def]]
  from t(1) [OF e(1)] obtain u where u: "steps (edges (ra_transitions a)) (ra_initial_state a) u p" by (elim liveE) simp
  have w: "\<exists>v. u @ m # v \<in> language a" if "(p, m, r) \<in> edges (ra_transitions a)" for m r
  proof -
    from t(2) [OF that] obtain v f where "f \<in> set (ra_final_states a)" "steps (edges (ra_transitions a)) r v f" by (elim liveE)
    with u that have "u @ m # v \<in> language a" unfolding language_def lang_def by (auto simp: steps_append)
    then show ?thesis ..
  qed
  from w [OF e(1)] w [OF e(2)] od c have "l_marker l = l_marker l'" unfolding output_deterministic_def by blast
  with c show "l = l'" by simp
qed

lemma byte_deterministic_output:
  assumes bd: "byte_deterministic a" and fe: "functional_edges (edges (ra_transitions a))"
  shows "output_deterministic (language a)"
proof -
  let ?E = "edges (ra_transitions a)"
  have eq: "l = l'" if "(p, l, q) \<in> ?E" "(p, l', q') \<in> ?E" "l_char l = l_char l'" for p l q l' q'
    using bd that unfolding byte_deterministic_def by blast
  have same: "u = u'" if "steps ?E p (u @ x) q" "steps ?E p (u' @ x') q'" "map l_char u = map l_char u'" for p u x q u' x' q'
    using that
  proof (induction u arbitrary: p u')
    case (Cons l u)
    then obtain l' v' where u': "u' = l' # v'" "l_char l = l_char l'" "map l_char u = map l_char v'" by (cases u') auto
    from Cons.prems obtain r r' where r: "(p, l, r) \<in> ?E" "steps ?E r (u @ x) q" "(p, l', r') \<in> ?E" "steps ?E r' (v' @ x') q'"
      by (auto simp: u'(1))
    have "l = l'" by (rule eq [OF r(1,3) u'(2)])
    moreover from this r(1,3) fe have "r = r'" by (auto simp: functional_edges_def)
    ultimately show ?case using Cons.IH [OF r(2) _ u'(3)] r(4) u'(1) by simp
  qed simp
  show ?thesis unfolding output_deterministic_def
  proof (intro allI impI)
    fix u l v u' l' v'
    assume "u @ l # v \<in> language a" "u' @ l' # v' \<in> language a" and c: "map l_char u = map l_char u'" "l_char l = l_char l'"
    then obtain q q' where w: "steps ?E (ra_initial_state a) (u @ l # v) q" "steps ?E (ra_initial_state a) (u' @ l' # v') q'"
      by (auto simp: language_def lang_def)
    from same [of _ "u @ [l]" v q "u' @ [l']" v' q'] w c have "u @ [l] = u' @ [l']" by simp
    then show "l_marker l = l_marker l'" by simp
  qed
qed

theorem normalise_spec:
  assumes wf: "wf_raw n a" and mc: "markers_cover a"
  obtains b c where "determinise False (table_alphabet_size (ra_transitions a)) a = Some b" and "language b = language a"
    and "minimise (table_alphabet_size (ra_transitions a)) b = Some c" and "language c = language a"
    and "markers_cover c" and "ra_markers c = ra_markers a"
    and "normalise a = None \<longleftrightarrow> \<not> byte_deterministic c" and "\<forall>A. normalise a = Some A \<longrightarrow> represents A c"
    and "byte_deterministic c \<Longrightarrow> output_deterministic (language a)"
    and "trim a \<Longrightarrow> output_deterministic (language a) \<Longrightarrow> byte_deterministic c"
proof -
  let ?m = "table_alphabet_size (ra_transitions a)"
  note wf' = table_alphabet [OF wf]
  have "markers_cover a \<or> ra_deterministic a" using mc by simp
  from determinise_spec [OF wf'(1) this wf'(2)] mc obtain b where
    b: "determinise False ?m a = Some b" "wf_raw ?m b" "ra_deterministic b" "language b = language a" "markers_cover b"
      "trim a \<longrightarrow> trim b" by blast
  obtain c P where c: "minimise ?m b = Some c" "c = nerode_quotient b P" "wf_raw ?m c" "markers_cover c" "language c = language b"
    and reps: "\<forall>i<length P. class_rep P i < length (ra_transitions b)"
    by (rule minimise_spec [OF b(2,3,5)]) blast
  have det: "ra_deterministic c" by (simp add: c(2) nerode_quotient_def)
  note rd = wf_rawD(6) [OF c(3) det]
  let ?A = "\<lparr>au_nb_states = length (ra_transitions c), au_initial_state = ra_initial_state c, au_final_states = ra_final_states c,
    au_transitions = map byte_entry (table_edges (ra_transitions c))\<rparr>"
  have eq: "normalise a = (if byte_deterministic c then Some ?A else None)"
    by (simp add: normalise_def Let_def b(1) c(1) fold_insert_transition distinct_byte_keys [OF rd])
  have "represents ?A c" if bd: "byte_deterministic c"
  proof -
    have d: "distinct (map fst (map byte_entry (table_edges (ra_transitions c))))"
      using distinct_byte_keys [OF rd] bd by (simp add: byte_entry_def comp_def)
    have "map_of (map byte_entry (table_edges (ra_transitions c))) (p, ch) = Some (q, m) \<longleftrightarrow>
        (p, \<lparr>l_char = ch, l_marker = m\<rparr>, q) \<in> edges (ra_transitions c)" for p ch q m
    proof -
      have "map_of (map byte_entry (table_edges (ra_transitions c))) (p, ch) = Some (q, m) \<longleftrightarrow>
          ((p, ch), (q, m)) \<in> byte_entry ` edges (ra_transitions c)"
        using map_of_eq_Some_iff [OF d] by (simp add: set_table_edges)
      also have "\<dots> \<longleftrightarrow> (p, \<lparr>l_char = ch, l_marker = m\<rparr>, q) \<in> edges (ra_transitions c)"
      proof -
        have "byte_entry x = ((p, ch), (q, m)) \<longleftrightarrow> x = (p, \<lparr>l_char = ch, l_marker = m\<rparr>, q)" for x
          by (cases x rule: prod_cases3) (auto simp: byte_entry_def byte_key_def)
        then show ?thesis by (metis (no_types, lifting) image_iff)
      qed
      finally show ?thesis .
    qed
    then show ?thesis by (simp add: represents_def)
  qed
  then have r: "represents A c" if "normalise a = Some A" for A using that eq by (auto split: if_splits)
  have "normalise a = None \<longleftrightarrow> \<not> byte_deterministic c" using eq by simp
  moreover have "ra_markers c = ra_markers a" using determinise_markers [OF b(1)] by (simp add: c(2) nerode_quotient_def)
  moreover have "output_deterministic (language a)" if "byte_deterministic c"
    using byte_deterministic_output [OF that functional_rows [OF rd]] b(4) c(5) by simp
  moreover have "byte_deterministic c" if "trim a" "output_deterministic (language a)"
  proof -
    have "byte_deterministic b" using trim_byte_deterministic [of b] b(4,6) that by simp
    moreover have "\<exists>t. (class_rep P i, l, t) \<in> edges (ra_transitions b)" if "(i, l, j) \<in> edges (ra_transitions c)" for i l j
      using that reps unfolding c(2) edges_quotient by (auto simp: edges_def)
    ultimately show ?thesis unfolding byte_deterministic_def by metis
  qed
  ultimately show thesis using r b(4) c(4,5) by (intro that [OF b(1,4) c(1)]) simp_all
qed

text \<open>
  C19: The normalised automaton refines the automaton it is made from: whenever the conversion returns,
  a run on a byte string is not stuck, ends in a final state and outputs some markers exactly when the
  language has a word with these bytes and these markers. It panics exactly when the minimised
  deterministic automaton has a state with two differently marked transitions on one byte.
\<close>

theorem normalise_refines:
  assumes "wf_raw n a" and "markers_cover a"
  shows "(\<forall>A. normalise a = Some A \<longrightarrow> (\<forall>input outputs.
      accepts A input outputs \<longleftrightarrow> (\<exists>w\<in>language a. map l_char w = input \<and> map l_marker w = outputs))) \<and>
    (normalise a = None \<longleftrightarrow> (\<exists>b c. determinise False (table_alphabet_size (ra_transitions a)) a = Some b \<and>
      minimise (table_alphabet_size (ra_transitions a)) b = Some c \<and> \<not> byte_deterministic c))"
proof -
  obtain b c where b: "determinise False (table_alphabet_size (ra_transitions a)) a = Some b"
    "minimise (table_alphabet_size (ra_transitions a)) b = Some c" "language c = language a"
    "normalise a = None \<longleftrightarrow> \<not> byte_deterministic c" and r: "\<forall>A. normalise a = Some A \<longrightarrow> represents A c"
    by (rule normalise_spec [OF assms]) (rule that; assumption)
  have "accepts A input outputs \<longleftrightarrow> (\<exists>w\<in>language a. map l_char w = input \<and> map l_marker w = outputs)"
    if "normalise a = Some A" for A input outputs using accepts_language [OF r [rule_format, OF that]] b(3) by simp
  with b show ?thesis by auto
qed

text \<open>An automaton with one marked transition, on its only byte.\<close>

definition example_marked :: raw_automaton where
  "example_marked = \<lparr>ra_deterministic = True, ra_complete = False, ra_initial_state = 0, ra_final_states = [1],
     ra_transitions = [[(\<lparr>l_char = 0, l_marker = 7\<rparr>, 1)], []], ra_markers = [7]\<rparr>"

lemma example_marked_props:
  "wf_raw 1 example_marked" "markers_cover example_marked" "edges (ra_transitions example_marked) = {(0, \<lparr>l_char = 0, l_marker = 7\<rparr>, 1)}"
proof -
  show e: "edges (ra_transitions example_marked) = {(0, \<lparr>l_char = 0, l_marker = 7\<rparr>, 1)}"
    by (auto simp: example_marked_def edges_def less_Suc_eq)
  show "wf_raw 1 example_marked" "markers_cover example_marked"
    unfolding wf_raw_def wf_table_def markers_cover_def e by (auto simp: example_marked_def row_deterministic_def)
qed

lemma example_marked_normalises: "normalise example_marked \<noteq> None"
  by code_simp

theorem normalise_refines_witness:
  "\<exists>A. normalise example_marked = Some A \<and> accepts A [0] [7] \<and> \<not> accepts A [0, 0] [7, 7]"
proof -
  obtain A where A: "normalise example_marked = Some A" using example_marked_normalises by auto
  have 1: "[\<lparr>l_char = 0, l_marker = 7\<rparr>] \<in> language example_marked"
    unfolding language_def lang_def example_marked_props(3) by (simp add: example_marked_def)
  have "w = []" if "steps {(0, \<lparr>l_char = 0, l_marker = 7\<rparr>, 1)} (1 :: nat) w q" for w q using that by (cases w) auto
  then have 2: "length w \<le> 1" if "w \<in> language example_marked" for w
    using that unfolding language_def lang_def example_marked_props(3) by (cases w) (auto simp: example_marked_def)
  note r = normalise_refines [OF example_marked_props(1,2), THEN conjunct1, rule_format, OF A]
  have "accepts A [0] [7]" unfolding r using 1 by (intro bexI [of _ "[\<lparr>l_char = 0, l_marker = 7\<rparr>]"]) simp_all
  moreover have "\<not> accepts A [0, 0] [7, 7]" unfolding r using 2 by force
  ultimately show ?thesis using A by blast
qed

end
