(* ===== verification/Regex_Correct.thy ===== *)
theory Regex_Correct
  imports Regex Automaton_Run
begin

text \<open>
  The translation of regular expressions (\<open>circuits/src/parsing/scanner/regex.rs\<close>) recognises their
  language. The section on markers shows that no construction invents a marker; the flattening of
  unions and concatenations keeps the language; the main theorem goes by induction on the expressions
  that the translation treats faithfully.
\<close>

section \<open>No construction invents a marker\<close>

lemma fold_opt_inv:
  assumes "fold_opt f xs s = Some s'" and "I s" and "\<And>x s s'. x \<in> set xs \<Longrightarrow> I s \<Longrightarrow> f x s = Some s' \<Longrightarrow> I s'"
  shows "I s'"
  using assms
proof (induction xs arbitrary: s)
  case (Cons x xs)
  from Cons.prems(1) obtain s1 where s1: "f x s = Some s1" "fold_opt f xs s1 = Some s'" by (auto split: Option.bind_splits)
  show ?case
  proof (rule Cons.IH [OF s1(2)])
    show "I s1" by (rule Cons.prems(3) [OF _ Cons.prems(2) s1(1)]) simp
    show "I t'" if "y \<in> set xs" "I t" "f y t = Some t'" for y t t' using Cons.prems(3) [of y t t'] that by simp
  qed
qed simp

definition row_in :: "nat set \<Rightarrow> (letter \<times> nat) list \<Rightarrow> bool" where
  "row_in M row \<longleftrightarrow> (\<forall>x\<in>set row. l_marker (fst x) \<in> M)"

definition table_in :: "nat set \<Rightarrow> transition_table \<Rightarrow> bool" where
  "table_in M ts \<longleftrightarrow> (\<forall>row\<in>set ts. row_in M row)"

definition raw_in :: "nat set \<Rightarrow> raw_automaton \<Rightarrow> bool" where
  "raw_in M a \<longleftrightarrow> table_in M (ra_transitions a) \<and> set (ra_markers a) \<subseteq> M"

lemma row_in_simps [simp]: "row_in M []" "row_in M (x # xs) \<longleftrightarrow> l_marker (fst x) \<in> M \<and> row_in M xs"
    "row_in M (xs @ ys) \<longleftrightarrow> row_in M xs \<and> row_in M ys"
  and table_in_simps [simp]: "table_in M []" "table_in M (row # ts) \<longleftrightarrow> row_in M row \<and> table_in M ts"
    "table_in M (ts @ ts') \<longleftrightarrow> table_in M ts \<and> table_in M ts'" "table_in M (replicate k [])"
  by (auto simp: row_in_def table_in_def)

lemma table_in_update: "table_in M ts \<Longrightarrow> row_in M row \<Longrightarrow> table_in M (ts[i := row])"
  unfolding table_in_def using set_update_subset_insert by fastforce

lemma table_in_nth: "table_in M ts \<Longrightarrow> i < length ts \<Longrightarrow> row_in M (ts ! i)"
  by (simp add: table_in_def)

lemma table_in_edges: "table_in M ts \<Longrightarrow> (p, l, q) \<in> edges ts \<Longrightarrow> l_marker l \<in> M"
  by (force simp: table_in_def row_in_def edges_def)

lemma filter_map_in:
  assumes "filter_map_transitions ts f k off = Some (ts', ms)" and "table_in M ts"
  shows "table_in M ts' \<and> set ms \<subseteq> M"
proof -
  have "table_in M (fst (ts', ms)) \<and> set (snd (ts', ms)) \<subseteq> M"
  proof (rule fold_opt_inv [OF assms(1) [unfolded filter_map_transitions_def], where I = "\<lambda>st. table_in M (fst st) \<and> set (snd st) \<subseteq> M"])
    fix e st st' assume e: "e \<in> set (table_edges ts)" and I: "table_in M (fst st) \<and> set (snd st) \<subseteq> M" and s: "add_transition f off e st = Some st'"
    obtain p l q where e': "e = (p, l, q)" using prod_cases3 by blast
    obtain us ns where st: "st = (us, ns)" by fastforce
    have "l_marker l \<in> M" using table_in_edges [OF assms(2)] e by (simp add: e' set_table_edges)
    with I s table_in_nth [of M us] show "table_in M (fst st') \<and> set (snd st') \<subseteq> M"
      by (auto simp: add_transition_def e' st index_opt_def split: option.splits if_splits intro!: table_in_update)
  qed simp
  then show ?thesis by simp
qed

lemma empty_in [simp]: "raw_in M empty_automaton" and epsilon_in [simp]: "raw_in M epsilon_automaton"
  by (simp_all add: raw_in_def empty_automaton_def epsilon_automaton_def)

lemma remove_dead_states_in:
  assumes "remove_dead_states a = Some b" and "table_in M (ra_transitions a)"
  shows "raw_in M b"
proof -
  obtain vs where vs: "live_states a = Some vs" using assms(1) by (auto simp: remove_dead_states_def elim!: bind_SomeE)
  show ?thesis
  proof (cases "vs = []")
    case True
    then show ?thesis using assms(1) by (simp add: remove_dead_states_def vs)
  next
    case False
    then obtain i ts ms where r: "filter_map_transitions (ra_transitions a) (renaming_of vs) (length vs) 0 = Some (ts, ms)"
      and b: "ra_transitions b = ts" "ra_markers b = ms"
      using assms(1) by (auto simp: remove_dead_states_def vs Let_def elim!: bind_SomeE)
    from filter_map_in [OF r assms(2)] show ?thesis by (simp add: raw_in_def b)
  qed
qed

lemma check_determinism_in [simp]: "raw_in M (check_determinism a) \<longleftrightarrow> raw_in M a"
  by (simp add: raw_in_def)

lemma universal_in: "universal n = Some a \<Longrightarrow> 0 \<in> M \<Longrightarrow> raw_in M a"
  by (auto simp: universal_def raw_in_def table_in_def row_in_def letter_of_byte_def split: if_splits)

lemma byte_concat_in:
  assumes "\<forall>bytes\<in>set word. \<forall>l\<in>set bytes. l_marker l \<in> M"
  shows "raw_in M (byte_concat word n)"
proof -
  have "row_in M row" if "row \<in> set (ra_transitions (byte_concat word n))" for row
  proof -
    obtain i where i: "i < Suc (length word)" "row = ra_transitions (byte_concat word n) ! i"
    proof -
      have "length (ra_transitions (byte_concat word n)) = Suc (length word)" by (simp add: byte_concat_def Let_def)
      with \<open>row \<in> _\<close> that show thesis by (metis in_set_conv_nth)
    qed
    show ?thesis
    proof (cases "i < length word")
      case True
      then have "row = map (\<lambda>byte. (byte, i + 1)) (filter (\<lambda>byte. unat (l_char byte) < n) (word ! i))" "word ! i \<in> set word"
        by (simp_all add: i(2) byte_concat_def Let_def nth_append nth_imap)
      with assms show ?thesis by (auto simp: row_in_def)
    next
      case False
      then have "row = []" using i by (simp add: byte_concat_def Let_def nth_append)
      then show ?thesis by simp
    qed
  qed
  moreover have "set (ra_markers (byte_concat word n)) \<subseteq> M" using assms by (auto simp: byte_concat_def Let_def)
  ultimately show ?thesis by (simp add: raw_in_def table_in_def)
qed

lemma make_optional_in: "make_optional a = Some b \<Longrightarrow> raw_in M a \<Longrightarrow> raw_in M b"
  by (auto simp: make_optional_def raw_in_def index_opt_def table_in_nth Let_def dest: subsetD split: if_splits elim!: bind_SomeE)

lemma row_in_hash: "row_in M (fold hash_insert xs ys) \<longleftrightarrow> row_in M ys \<and> row_in M xs"
  by (auto simp: row_in_def)

lemma strict_repeat_in:
  assumes "strict_repeat a = Some b" and "raw_in M a"
  shows "raw_in M b"
proof -
  obtain out ts where o: "index_opt (ra_transitions a) (ra_initial_state a) = Some out"
    and f: "fold_opt (repeat_final out) (ra_final_states a) (ra_transitions a) = Some ts"
    and b: "b = check_determinism (a\<lparr>ra_deterministic := False, ra_transitions := ts\<rparr>)"
    using assms(1) by (auto simp: strict_repeat_def elim!: bind_SomeE)
  have "row_in M out" using o assms(2) table_in_nth by (auto simp: index_opt_Some raw_in_def)
  then have "table_in M ts" using assms(2) table_in_nth [of M]
    by (intro fold_opt_inv [OF f, where I = "table_in M"])
      (auto simp: raw_in_def repeat_final_def index_opt_Some row_in_hash intro!: table_in_update)
  with assms(2) show ?thesis by (simp add: b) (simp add: raw_in_def)
qed

lemma map_targets_in: "table_in M (map (map (\<lambda>(l, q). (l, g q))) ts) \<longleftrightarrow> table_in M ts"
proof -
  have "row_in M (map (\<lambda>(l, q). (l, g q)) row) \<longleftrightarrow> row_in M row" for row by (induction row) auto
  then show ?thesis by (simp add: table_in_def)
qed

lemma redirect_final_to_initial_in:
  assumes "redirect_final_to_initial a = Some b" and "raw_in M a"
  shows "raw_in M b"
proof -
  let ?ts = "map (map (\<lambda>(letter, target). (letter, if target \<in> set (ra_final_states a) then ra_initial_state a else target))) (ra_transitions a)"
  obtain f k ts ms where r: "filter_map_transitions ?ts f k 0 = Some (ts, ms)" and b: "ra_transitions b = ts" "ra_markers b = ms"
    using assms(1) by (auto simp: redirect_final_to_initial_def Let_def split: if_splits elim!: bind_SomeE)
  have "table_in M ?ts" using assms(2) by (simp add: map_targets_in raw_in_def)
  from filter_map_in [OF r this] show ?thesis by (simp add: raw_in_def b)
qed

lemma weak_repeat_in: "weak_repeat a = Some b \<Longrightarrow> raw_in M a \<Longrightarrow> raw_in M b"
  unfolding weak_repeat_def
  by (elim bind_SomeE) (auto split: if_splits elim!: bind_SomeE dest: redirect_final_to_initial_in make_optional_in strict_repeat_in)

lemma complement_in: "complement a = Some b \<Longrightarrow> raw_in M a \<Longrightarrow> raw_in M b"
  by (auto simp: complement_def raw_in_def [of M a] split: if_splits intro: remove_dead_states_in)

text \<open>Where the markers cover the transitions, only the markers count.\<close>

lemma raw_in_markers: "markers_cover a \<Longrightarrow> raw_in M a \<longleftrightarrow> set (ra_markers a) \<subseteq> M"
proof -
  assume "markers_cover a"
  then have "\<forall>row\<in>set (ra_transitions a). \<forall>x\<in>set row. l_marker (fst x) \<in> set (ra_markers a)"
    unfolding markers_cover_def edges_def by (force simp: in_set_conv_nth [of _ "ra_transitions a"])
  then show ?thesis by (auto simp: raw_in_def table_in_def row_in_def)
qed

lemma union_automata_in:
  assumes "union_automata as n = Some b" and "\<forall>a\<in>set as. raw_in M a" and "markers_cover b"
  shows "raw_in M b"
proof (cases "length as = 1")
  case True
  then show ?thesis using assms by (cases as) (auto simp: union_automata_def)
next
  case False
  then obtain u "is" where f: "fold_opt union_step as (empty_automaton, []) = Some (u, is)" and p: "powerset_construction u is False n = Some b"
    using assms(1) by (auto simp: union_automata_def elim!: bind_SomeE)
  have "set (ra_markers (fst (u, is))) \<subseteq> M"
  proof (rule fold_opt_inv [OF f, where I = "\<lambda>st. set (ra_markers (fst st)) \<subseteq> M"])
    fix a st st' assume a: "a \<in> set as" and I: "set (ra_markers (fst st)) \<subseteq> M" and s: "union_step a st = Some st'"
    from s obtain ts ms where r: "filter_map_transitions (ra_transitions a) (\<lambda>s. Some (s + length (ra_transitions (fst st))))
        (length (ra_transitions a)) (length (ra_transitions (fst st))) = Some (ts, ms)"
      and m: "ra_markers (fst st') = fold hash_insert ms (ra_markers (fst st))"
      by (auto simp: union_step_def Let_def split: prod.splits elim!: bind_SomeE)
    have "table_in M (ra_transitions a)" using assms(2) a by (simp add: raw_in_def)
    from filter_map_in [OF r this] I m show "set (ra_markers (fst st')) \<subseteq> M" by auto
  qed (simp add: empty_automaton_def)
  then show ?thesis using powerset_markers [OF p] by (simp add: raw_in_markers [OF assms(3)])
qed

lemma redirect_target_in: "row_in M (map (redirect_target fs k i) row) \<longleftrightarrow> row_in M row"
  by (induction row) (auto simp: redirect_target_def)

lemma concat_step_in:
  assumes "concat_step a st = Some st'" and "raw_in M a" and "table_in M (ra_transitions (co_automaton st))"
  shows "table_in M (ra_transitions (co_automaton st'))"
proof -
  let ?k = "length (ra_transitions (co_automaton st))"
  obtain ts ms b where r: "filter_map_transitions (ra_transitions a) (\<lambda>s. Some (s + ?k)) (length (ra_transitions a)) ?k = Some (ts, ms)"
    and s: "(if b then Some (concat_redirect a ts st) else concat_plug a ts st) = Some st'"
    using assms(1) by (auto simp: concat_step_def Let_def elim!: bind_SomeE)
  have ts: "table_in M ts" using filter_map_in [OF r] assms(2) by (simp add: raw_in_def)
  show ?thesis
  proof (cases b)
    case True
    have "table_in M (map (map (redirect_target fs k i)) ts)" for fs k i
      using ts by (auto simp: table_in_def redirect_target_in)
    then show ?thesis using s True assms(3) by (auto simp: concat_redirect_def Let_def)
  next
    case False
    then have pl: "concat_plug a ts st = Some st'" using s by simp
    let ?i = "ra_initial_state (co_automaton st)"
    obtain ts2 where f: "fold_opt (copy_outgoing ?i) (map (\<lambda>s. s + ?k) (ra_final_states a)) (ra_transitions (co_automaton st) @ ts) = Some ts2"
      and e: "ra_transitions (co_automaton st') = ts2"
      using pl by (auto simp: concat_plug_def Let_def elim!: bind_SomeE)
    have "table_in M ts2" using assms(3) ts
      by (intro fold_opt_inv [OF f, where I = "table_in M"])
        (auto simp: copy_outgoing_def index_opt_Some elim!: bind_SomeE intro!: table_in_update table_in_nth)
    then show ?thesis by (simp add: e)
  qed
qed

lemma concat_automata_in:
  assumes "concat_automata as = Some b" and "\<forall>a\<in>set as. raw_in M a"
  shows "raw_in M b"
proof -
  obtain st f k ts ms where f: "fold_opt concat_step (rev as) \<lparr>co_automaton = epsilon_automaton, co_garbage = [], co_loop_on_initial = False\<rparr> = Some st"
    and r: "filter_map_transitions (ra_transitions (co_automaton st)) f k 0 = Some (ts, ms)"
    and b: "ra_transitions b = ts" "ra_markers b = ms"
    using assms(1) by (auto simp: concat_automata_def Let_def elim!: bind_SomeE)
  have "table_in M (ra_transitions (co_automaton st))"
  proof (rule fold_opt_inv [OF f, where I = "\<lambda>st. table_in M (ra_transitions (co_automaton st))"])
    show "table_in M (ra_transitions (co_automaton s'))" if "a \<in> set (rev as)" "table_in M (ra_transitions (co_automaton s))" "concat_step a s = Some s'"
      for a s s' using concat_step_in [OF that(3) _ that(2)] assms(2) that(1) by simp
  qed (simp add: epsilon_automaton_def)
  from filter_map_in [OF r this] show ?thesis by (simp add: raw_in_def b)
qed

lemma inter_in:
  assumes "inter a b = Some c" and wf: "wf_raw n a" "wf_raw n b" and M: "raw_in M a" "raw_in M b"
  shows "raw_in M c"
proof -
  obtain vs st where ex: "explore (visit_pair (a, b)) []
      \<lparr>j_deterministic = ra_deterministic a \<and> ra_deterministic b, j_complete = ra_complete a \<and> ra_complete b, j_markers = [], j_transitions = []\<rparr>
      [(ra_initial_state a, ra_initial_state b)] = Some (vs, st)"
    and trs: "set (j_transitions st) = restrict_edges (set vs) (pair_edges (a, b))"
    by (rule product_explored [OF wf]) blast
  obtain ts j d where ts: "fold_opt (number_transition (renaming_of vs)) (j_transitions st) (replicate (length vs) []) = Some ts"
    and d: "remove_dead_states \<lparr>ra_deterministic = j_deterministic st, ra_complete = j_complete st, ra_initial_state = j,
      ra_final_states = hash_collect (List.map_filter (renaming_of vs) (List.product (ra_final_states a) (ra_final_states b))),
      ra_transitions = ts, ra_markers = j_markers st\<rparr> = Some d" and c: "c = check_determinism d"
    using assms(1) by (auto simp: inter_def ex Let_def elim!: bind_SomeE)
  have "table_in M ts"
  proof (rule fold_opt_inv [OF ts, where I = "table_in M"])
    fix e us us' assume e: "e \<in> set (j_transitions st)" and I: "table_in M us" and s: "number_transition (renaming_of vs) e us = Some us'"
    obtain p l q where e': "e = (p, l, q)" using prod_cases3 by blast
    from e trs obtain p1 l1 q1 p2 l2 q2 where "(p1, l1, q1) \<in> edges (ra_transitions a)" "(p2, l2, q2) \<in> edges (ra_transitions b)" "l = joined l1 l2"
      by (auto simp: e' restrict_edges_def pair_edges_def)
    then have "l_marker l \<in> M" using M table_in_edges by (auto simp: raw_in_def joined_def max_def)
    then show "table_in M us'" using s I by (auto simp: number_transition_def e' index_opt_Some table_in_nth elim!: bind_SomeE intro!: table_in_update)
  qed simp
  then have "raw_in M d" by (intro remove_dead_states_in [OF d]) simp
  then show ?thesis by (simp add: c)
qed

section \<open>The language of an expression\<close>

text \<open>
  Words of marked letters over an alphabet of \<open>n\<close> bytes. An intersection starts from the unmarked words
  and joins the markers; complements are relative to the unmarked words.
\<close>

fun regex_lang :: "nat \<Rightarrow> regex \<Rightarrow> letter list set" where
  "regex_lang n (R_Single bytes) = {[b] |b. b \<in> set bytes \<and> unat (l_char b) < n}"
| "regex_lang n (R_Concat l) = concs (map (regex_lang n) l)"
| "regex_lang n (R_Union l) = (\<Union>r\<in>set l. regex_lang n r)"
| "regex_lang n (R_Inter l) = fold (\<lambda>A acc. meet acc A) (map (regex_lang n) l) (lists (unmarked_letters n))"
| "regex_lang n (R_Star strict r) = (if strict then plus (regex_lang n r) else star (regex_lang n r))"
| "regex_lang n (R_Complement r) = lists (unmarked_letters n) - regex_lang n r"

fun markers_within :: "nat set \<Rightarrow> regex \<Rightarrow> bool" where
  "markers_within M (R_Single bytes) \<longleftrightarrow> (\<forall>b\<in>set bytes. l_marker b \<in> M)"
| "markers_within M (R_Concat l) \<longleftrightarrow> (\<forall>r\<in>set l. markers_within M r)"
| "markers_within M (R_Union l) \<longleftrightarrow> (\<forall>r\<in>set l. markers_within M r)"
| "markers_within M (R_Inter l) \<longleftrightarrow> (\<forall>r\<in>set l. markers_within M r)"
| "markers_within M (R_Star _ r) \<longleftrightarrow> markers_within M r"
| "markers_within M (R_Complement r) \<longleftrightarrow> markers_within M r"

lemma contains_markers_iff: "contains_markers r \<longleftrightarrow> \<not> markers_within {0} r"
  by (induction r) (auto simp: list_ex_iff)

section \<open>Concatenations\<close>

lemma concs_simps [simp]: "concs [] = {[]}" "concs (A # As) = conc A (concs As)"
  by (simp_all add: concs_def)

lemma conc_assoc: "conc (conc A B) C = conc A (conc B C)"
  by (auto simp: conc_def) (metis append.assoc)+

lemma conc_epsilon [simp]: "conc {[]} A = A" "conc A {[]} = A"
  by (auto simp: conc_def)

lemma concs_append: "concs (As @ Bs) = conc (concs As) (concs Bs)"
  by (induction As) (simp_all add: conc_assoc)

lemma flatten_concat_lang:
  "concs (map (regex_lang n) (rev (flatten_concat_loop pending out))) = concs (map (regex_lang n) (rev pending @ rev out))"
  by (induction pending out rule: flatten_concat_loop.induct) (simp_all add: concs_append conc_assoc)

lemma flatten_concat_member:
  "r \<in> set (flatten_concat_loop pending out) \<Longrightarrow> (\<forall>x\<in>set pending \<union> set out. markers_within M x) \<Longrightarrow> markers_within M r"
  by (induction pending out rule: flatten_concat_loop.induct) auto

definition good :: "nat \<Rightarrow> nat set \<Rightarrow> letter list set \<Rightarrow> raw_automaton \<Rightarrow> bool" where
  "good n M L a \<longleftrightarrow> wf_raw n a \<and> language a = L \<and> \<not> ra_complete a \<and> markers_cover a \<and> raw_in M a"

definition is_single :: "regex \<Rightarrow> bool" where
  "is_single r \<longleftrightarrow> (case r of R_Single _ \<Rightarrow> True | _ \<Rightarrow> False)"

lemma range_words_simps: "range_words n [] = {[]}"
    "range_words n (word @ [bytes]) = conc (range_words n word) (regex_lang n (R_Single bytes))"
proof -
  show "range_words n [] = {[]}" by (auto simp: range_words_def)
  show "range_words n (word @ [bytes]) = conc (range_words n word) (regex_lang n (R_Single bytes))"
  proof (intro set_eqI iffI)
    fix w assume "w \<in> range_words n (word @ [bytes])"
    then show "w \<in> conc (range_words n word) (regex_lang n (R_Single bytes))"
      by (fastforce simp: range_words_def conc_def list_all2_append2 list_all2_Cons2)
  next
    fix w assume "w \<in> conc (range_words n word) (regex_lang n (R_Single bytes))"
    then show "w \<in> range_words n (word @ [bytes])" by (auto simp: range_words_def conc_def intro!: list_all2_appendI)
  qed
qed

lemma byte_concat_good:
  assumes "\<forall>bytes\<in>set word. distinct bytes \<and> (\<forall>b\<in>set bytes. l_marker b \<in> M)"
  shows "good n M (range_words n word) (byte_concat word n)"
  using assms byte_concat_spec [of word n] byte_concat_in [of word M n]
  by (auto simp: good_def) (simp add: byte_concat_def Let_def)

text \<open>The pieces of a flattened concatenation: single bytes, or expressions with a correct automaton.\<close>

definition piece :: "(regex \<Rightarrow> raw_automaton option) \<Rightarrow> nat \<Rightarrow> nat set \<Rightarrow> regex \<Rightarrow> bool" where
  "piece conv n M r \<longleftrightarrow> (case r of R_Single bytes \<Rightarrow> distinct bytes \<and> (\<forall>b\<in>set bytes. l_marker b \<in> M)
     | _ \<Rightarrow> regex_lang n r \<noteq> {[]} \<and> (\<exists>a. conv r = Some a \<and> good n M (regex_lang n r) a))"

lemma flush_singles_good:
  assumes "\<forall>bytes\<in>set singles. distinct bytes \<and> (\<forall>b\<in>set bytes. l_marker b \<in> M)"
  shows "\<forall>a\<in>set (flush_singles n singles). good n M (language a) a \<and> language a \<noteq> {[]}"
    "concs (map language (flush_singles n singles)) = range_words n singles"
    "flush_singles n singles = [] \<longleftrightarrow> singles = []"
proof -
  note g = byte_concat_good [OF assms, of n]
  have "[] \<notin> range_words n singles" if "singles \<noteq> []" using that by (simp add: range_words_def)
  with g show "\<forall>a\<in>set (flush_singles n singles). good n M (language a) a \<and> language a \<noteq> {[]}"
    by (auto simp: flush_singles_def good_def)
  show "concs (map language (flush_singles n singles)) = range_words n singles"
    using g by (simp add: flush_singles_def good_def range_words_simps)
qed (simp add: flush_singles_def)

lemma convert_concat_good:
  assumes "\<forall>r\<in>set rs. piece conv n M r" and "\<forall>bytes\<in>set singles. distinct bytes \<and> (\<forall>b\<in>set bytes. l_marker b \<in> M)"
  shows "\<exists>as. convert_concat conv n rs singles = Some as \<and> (\<forall>a\<in>set as. good n M (language a) a \<and> language a \<noteq> {[]}) \<and>
    concs (map language as) = conc (range_words n singles) (concs (map (regex_lang n) rs)) \<and> (as = [] \<longleftrightarrow> rs = [] \<and> singles = [])"
  using assms
proof (induction rs arbitrary: singles)
  case Nil
  then show ?case using flush_singles_good [of singles M n] by simp
next
  case (Cons r rs)
  note fl = flush_singles_good [OF Cons.prems(2), of n]
  show ?case
  proof (cases "\<exists>bytes. r = R_Single bytes")
    case True
    then obtain bytes where r: "r = R_Single bytes" by blast
    have "distinct bytes \<and> (\<forall>b\<in>set bytes. l_marker b \<in> M)" using Cons.prems(1) by (simp add: piece_def r)
    then have "\<forall>b\<in>set (singles @ [bytes]). distinct b \<and> (\<forall>c\<in>set b. l_marker c \<in> M)" using Cons.prems(2) by simp
    from Cons.IH [OF _ this] Cons.prems(1) obtain as where as: "convert_concat conv n rs (singles @ [bytes]) = Some as"
      "\<forall>a\<in>set as. good n M (language a) a \<and> language a \<noteq> {[]}"
      "concs (map language as) = conc (range_words n (singles @ [bytes])) (concs (map (regex_lang n) rs))" "as \<noteq> []" by auto
    then show ?thesis by (intro exI [of _ as]) (simp add: r range_words_simps conc_assoc del: regex_lang.simps)
  next
    case False
    then have p: "piece conv n M r \<longleftrightarrow> regex_lang n r \<noteq> {[]} \<and> (\<exists>a. conv r = Some a \<and> good n M (regex_lang n r) a)"
      and cc: "convert_concat conv n (r # rs) singles =
        do { a \<leftarrow> conv r; automata \<leftarrow> convert_concat conv n rs []; Some (flush_singles n singles @ a # automata) }"
      by (cases r; simp add: piece_def)+
    from p Cons.prems(1) obtain a where a: "conv r = Some a" "good n M (regex_lang n r) a" "regex_lang n r \<noteq> {[]}" by auto
    from Cons.IH [of "[]"] Cons.prems(1) obtain as where as: "convert_concat conv n rs [] = Some as"
      "\<forall>a\<in>set as. good n M (language a) a \<and> language a \<noteq> {[]}" "concs (map language as) = concs (map (regex_lang n) rs)"
      by (auto simp: range_words_simps)
    have "language a = regex_lang n r" using a(2) by (simp add: good_def)
    with a as fl show ?thesis unfolding cc
      by (intro exI [of _ "flush_singles n singles @ a # as"]) (auto simp: concs_append simp del: regex_lang.simps)
  qed
qed

lemma concat_good:
  assumes "\<forall>a\<in>set as. good n M (language a) a \<and> language a \<noteq> {[]}" and "as \<noteq> []"
  shows "\<exists>b. concat_automata as = Some b \<and> good n M (concs (map language as)) b"
proof -
  have wf: "\<forall>a\<in>set as. wf_raw n a \<and> language a \<noteq> {[]}" and M: "\<forall>a\<in>set as. raw_in M a" using assms(1) by (auto simp: good_def)
  obtain b where b: "concat_automata as = Some b" "wf_raw n b" "language b = concs (map language as)"
    "ra_complete b = list_all ra_complete as" "markers_cover b" by (rule concat_automata_spec [OF wf])
  have "\<not> list_all ra_complete as" using assms by (cases as) (auto simp: good_def)
  with b concat_automata_in [OF b(1) M] show ?thesis by (auto simp: good_def)
qed

section \<open>Unions\<close>

definition union_state_lang :: "nat \<Rightarrow> regex list \<times> letter list \<times> bool \<Rightarrow> letter list set" where
  "union_state_lang n st = (case st of (res, singles, e) \<Rightarrow>
     (\<Union>r\<in>set res. regex_lang n r) \<union> regex_lang n (R_Single singles) \<union> (if e then {[]} else {}))"

lemma flatten_union_lang:
  "union_state_lang n (flatten_union_loop pending st) = union_state_lang n st \<union> (\<Union>r\<in>set pending. regex_lang n r)"
  by (induction pending st rule: flatten_union_loop.induct) (auto simp: union_state_lang_def)

lemma flatten_union_member:
  assumes "flatten_union_loop pending st = (res, singles, e)" and "\<forall>x\<in>set pending \<union> set (fst st). markers_within M x"
    and "\<forall>b\<in>set (fst (snd st)). l_marker b \<in> M"
  shows "(\<forall>r\<in>set res. markers_within M r) \<and> (\<forall>b\<in>set singles. l_marker b \<in> M)"
  using assms by (induction pending st rule: flatten_union_loop.induct) auto

lemma weaken_star_lang: "insert [] (regex_lang n (weaken_star r)) = insert [] (regex_lang n r)"
  "is_star r \<Longrightarrow> [] \<in> regex_lang n (weaken_star r)"
  by (cases r; simp add: weaken_star_def is_star_def star_plus)+

lemma weaken_star_markers [simp]: "markers_within M (weaken_star r) = markers_within M r"
  by (cases r) (simp_all add: weaken_star_def)

lemma union_alternatives_lang:
  assumes "union_alternatives l = (res, e)"
  shows "regex_lang n (R_Union l) = (\<Union>r\<in>set res. regex_lang n r) \<union> (if e then {[]} else {})"
proof -
  obtain res0 singles e0 where u: "flatten_union_loop (rev l) ([], [], False) = (res0, singles, e0)" by (metis prod.exhaust)
  define res1 where "res1 = (if singles = [] then res0 else res0 @ [R_Single singles])"
  let ?S = "\<Union>r\<in>set res1. regex_lang n r" and ?S' = "\<Union>r\<in>set (map weaken_star res1). regex_lang n r"
  have A: "regex_lang n (R_Union l) = ?S \<union> (if e0 then {[]} else {})"
    using flatten_union_lang [of n "rev l" "([], [], False)"] by (auto simp: u union_state_lang_def res1_def)
  have eq: "(res, e) = (if e0 then (map weaken_star res1, \<not> list_ex is_star res1) else (res1, False))"
    using assms unfolding union_alternatives_def u res1_def by (simp add: Let_def split: if_splits)
  have B: "?S \<union> {[]} = ?S' \<union> {[]}" using weaken_star_lang(1) [of n] by auto
  have C: "[] \<in> ?S'" if "list_ex is_star res1" using that weaken_star_lang(2) by (auto simp: list_ex_iff)
  show ?thesis
  proof (cases e0)
    case True
    then have "regex_lang n (R_Union l) = ?S' \<union> {[]}" "res = map weaken_star res1" "e = (\<not> list_ex is_star res1)" using A B eq by simp_all
    with C show ?thesis by (cases e) (simp_all only: if_True if_False Un_empty_right, blast)
  next
    case False
    with A eq show ?thesis by simp
  qed
qed

lemma union_alternatives_markers:
  assumes "union_alternatives l = (res, e)" and "\<forall>r\<in>set l. markers_within M r"
  shows "\<forall>r\<in>set res. markers_within M r"
proof -
  obtain res0 singles e0 where u: "flatten_union_loop (rev l) ([], [], False) = (res0, singles, e0)" by (metis prod.exhaust)
  from flatten_union_member [OF u, of M] assms(2) have "(\<forall>r\<in>set res0. markers_within M r) \<and> (\<forall>b\<in>set singles. l_marker b \<in> M)" by simp
  then show ?thesis using assms(1) by (auto simp: union_alternatives_def u Let_def split: if_splits)
qed

lemma epsilon_good: "good n M {[]} epsilon_automaton"
  using epsilon_spec by (simp add: good_def) (simp add: epsilon_automaton_def)

lemma make_optional_good: "good n M L a \<Longrightarrow> \<exists>b. make_optional a = Some b \<and> good n M (insert [] L) b"
proof -
  assume g: "good n M L a"
  then have "wf_raw n a" by (simp add: good_def)
  then obtain b where "make_optional a = Some b" "wf_raw n b" "language b = insert [] (language a)"
    "ra_complete b = ra_complete a" "markers_cover a \<Longrightarrow> markers_cover b" using make_optional_spec by blast
  with g make_optional_in [of a b] show ?thesis by (auto simp: good_def)
qed

lemma those_good:
  assumes "\<forall>r\<in>set rs. \<exists>a. conv r = Some a \<and> good n M (L r) a"
  shows "\<exists>as. those (map conv rs) = Some as \<and> (\<forall>a\<in>set as. good n M (language a) a) \<and> (\<Union>a\<in>set as. language a) = (\<Union>r\<in>set rs. L r)"
  using assms
proof (induction rs)
  case (Cons r rs)
  then obtain a as where "conv r = Some a" "good n M (L r) a" "those (map conv rs) = Some as"
    "\<forall>a\<in>set as. good n M (language a) a" "(\<Union>a\<in>set as. language a) = (\<Union>r\<in>set rs. L r)" by auto
  then show ?case by (intro exI [of _ "a # as"]) (auto simp: good_def)
qed simp

lemma flatten_union_good:
  assumes u: "union_alternatives l = (res, e)" and conv: "\<forall>r\<in>set res. \<exists>a. conv r = Some a \<and> good n M (regex_lang n r) a"
  shows "\<exists>as. flatten_union conv n l = Some as \<and> (\<forall>a\<in>set as. good n M (language a) a) \<and> (\<Union>a\<in>set as. language a) = regex_lang n (R_Union l)"
proof (cases e)
  case False
  from those_good [OF conv] obtain as where "those (map conv res) = Some as" "\<forall>a\<in>set as. good n M (language a) a"
    "(\<Union>a\<in>set as. language a) = (\<Union>r\<in>set res. regex_lang n r)" by blast
  then show ?thesis using False union_alternatives_lang [OF u, of n] by (simp add: flatten_union_def u)
next
  case True
  have "\<forall>r\<in>set (butlast res). \<exists>a. conv r = Some a \<and> good n M (regex_lang n r) a" using conv by (auto dest: in_set_butlastD)
  from those_good [OF this] obtain as where as: "those (map conv (butlast res)) = Some as" "\<forall>a\<in>set as. good n M (language a) a"
    "(\<Union>a\<in>set as. language a) = (\<Union>r\<in>set (butlast res). regex_lang n r)" by blast
  have "\<exists>b. (if res = [] then Some epsilon_automaton else Option.bind (conv (last res)) make_optional) = Some b \<and>
      good n M (insert [] (if res = [] then {} else regex_lang n (last res))) b"
  proof (cases "res = []")
    case False
    then have "last res \<in> set res" by simp
    with conv obtain a where "conv (last res) = Some a" "good n M (regex_lang n (last res)) a" by blast
    with make_optional_good [of n M _ a] False show ?thesis by auto
  qed (simp add: epsilon_good)
  then obtain b where b: "(if res = [] then Some epsilon_automaton else Option.bind (conv (last res)) make_optional) = Some b"
    "good n M (insert [] (if res = [] then {} else regex_lang n (last res))) b" by blast
  have "set res = set (butlast res) \<union> (if res = [] then {} else {last res})" by (cases res rule: rev_cases) auto
  then have "(\<Union>r\<in>set res. regex_lang n r) = (\<Union>r\<in>set (butlast res). regex_lang n r) \<union> (if res = [] then {} else regex_lang n (last res))"
    by auto
  then have "(\<Union>a\<in>set (as @ [b]). language a) = regex_lang n (R_Union l)"
    using as(3) b(2) True by (auto simp: union_alternatives_lang [OF u, of n] good_def simp del: regex_lang.simps split: if_splits)
  moreover have "flatten_union conv n l = Some (as @ [b])" using True as(1) b(1) by (simp add: flatten_union_def u)
  moreover have "\<forall>a\<in>set (as @ [b]). good n M (language a) a" using as(2) b(2) by (auto simp: good_def)
  ultimately show ?thesis by blast
qed

lemma union_good:
  assumes "\<forall>a\<in>set as. good n M (language a) a" and n: "n \<le> ALPHABET_MAX_SIZE"
  shows "\<exists>b. union_automata as n = Some b \<and> good n M (\<Union>a\<in>set as. language a) b"
proof -
  have wf: "\<forall>a\<in>set as. wf_raw n a \<and> \<not> ra_complete a \<and> markers_cover a" and M: "\<forall>a\<in>set as. raw_in M a" using assms(1) by (auto simp: good_def)
  obtain b where b: "union_automata as n = Some b" "wf_raw n b" "language b = (\<Union>a\<in>set as. language a)" "\<not> ra_complete b" "markers_cover b"
    by (rule union_automata_spec [OF wf n])
  with union_automata_in [OF b(1) M b(5)] show ?thesis by (auto simp: good_def)
qed

section \<open>Intersections, repetitions and complements\<close>

lemma inter_fold_good:
  assumes "wf_raw n acc" and "raw_in M acc" and "\<forall>r\<in>set l. \<exists>a. conv r = Some a \<and> good n M (regex_lang n r) a"
  shows "\<exists>b. fold_opt (\<lambda>r accu. Option.bind (conv r) (inter accu)) l acc = Some b \<and> wf_raw n b \<and> raw_in M b \<and>
    language b = fold (\<lambda>A acc. meet acc A) (map (regex_lang n) l) (language acc) \<and> (l \<noteq> [] \<longrightarrow> \<not> ra_complete b \<and> markers_cover b)"
  using assms
proof (induction l arbitrary: acc)
  case (Cons r l)
  then obtain a where a: "conv r = Some a" "good n M (regex_lang n r) a" by auto
  then have wa: "wf_raw n a" "language a = regex_lang n r" "raw_in M a" by (simp_all add: good_def)
  obtain c where c: "inter acc a = Some c" "wf_raw n c" "language c = meet (language acc) (language a)" "\<not> ra_complete c" "markers_cover c"
    by (rule inter_spec [OF Cons.prems(1) wa(1)])
  note ci = inter_in [OF c(1) Cons.prems(1) wa(1) Cons.prems(2) wa(3)]
  from Cons.IH [OF c(2) ci] Cons.prems(3) obtain b where
    b: "fold_opt (\<lambda>r accu. Option.bind (conv r) (inter accu)) l c = Some b" "wf_raw n b" "raw_in M b"
      "language b = fold (\<lambda>A acc. meet acc A) (map (regex_lang n) l) (language c)" "l \<noteq> [] \<longrightarrow> \<not> ra_complete b \<and> markers_cover b" by auto
  with c(4,5) a(1) c(1) wa(2) c(3) show ?case by (cases l) auto
qed simp

lemma inter_good:
  assumes "\<forall>r\<in>set l. \<exists>a. conv r = Some a \<and> good n M (regex_lang n r) a" and "l \<noteq> []" and n: "n \<le> ALPHABET_MAX_SIZE" and "0 \<in> M"
  shows "\<exists>b. Option.bind (universal n) (fold_opt (\<lambda>r accu. Option.bind (conv r) (inter accu)) l) = Some b \<and> good n M (regex_lang n (R_Inter l)) b"
proof -
  obtain u where u: "universal n = Some u" "wf_raw n u" "language u = lists (unmarked_letters n)" by (rule universal_spec [OF n])
  from inter_fold_good [OF u(2) universal_in [OF u(1) assms(4)] assms(1)] assms(2) u show ?thesis by (auto simp: good_def)
qed

lemma star_good:
  assumes "good n M L a" and "\<not> strict \<Longrightarrow> L \<noteq> {[]}"
  shows "\<exists>b. (if strict then strict_repeat a else weak_repeat a) = Some b \<and> good n M (if strict then plus L else star L) b"
proof (cases strict)
  case True
  obtain b where "strict_repeat a = Some b" "wf_raw n b" "language b = plus (language a)" "ra_complete b = ra_complete a"
    "markers_cover a \<Longrightarrow> markers_cover b" using strict_repeat_spec assms(1) unfolding good_def by blast
  with True assms(1) strict_repeat_in [of a b M] show ?thesis by (auto simp: good_def)
next
  case False
  have "wf_raw n a" "language a \<noteq> {[]}" using assms False by (auto simp: good_def)
  then obtain b where "weak_repeat a = Some b" "wf_raw n b" "language b = star (language a)" "ra_complete b = ra_complete a"
    "markers_cover a \<Longrightarrow> markers_cover b" using weak_repeat_spec by blast
  with False assms(1) weak_repeat_in [of a b M] show ?thesis by (auto simp: good_def)
qed

lemma marked_letters_zero: "marked_letters n {0} = unmarked_letters n"
  by (auto simp: marked_letters_def unmarked_letters_def)

lemma complement_good:
  assumes g: "good n {0} L a" and n: "n \<le> ALPHABET_MAX_SIZE" and w: "w \<in> L" "w \<noteq> []" and "0 \<in> M"
  shows "\<exists>b. Option.bind (determinise True n a) complement = Some b \<and> good n M (lists (unmarked_letters n) - L) b \<and> trim b"
proof -
  have a: "wf_raw n a" "language a = L" "\<not> ra_complete a" "markers_cover a" "raw_in {0} a" using g by (simp_all add: good_def)
  from w(1) a(2) obtain i f where "steps (edges (ra_transitions a)) i w f" by (auto simp: language_def lang_def)
  with w(2) obtain l p q where "(p, l, q) \<in> edges (ra_transitions a)" by (cases w) auto
  with a(4) have "ra_markers a \<noteq> []" by (auto simp: markers_cover_def)
  with a(5) have m: "set (ra_markers a) = {0}" by (cases "ra_markers a") (auto simp: raw_in_def)
  obtain b where b: "determinise True n a = Some b" "wf_raw n b" "ra_deterministic b" "ra_complete b" "language b = language a"
    and tot: "total_on (marked_letters n (set (ra_markers a))) (ra_transitions b)"
    and let': "\<forall>(p, l, q)\<in>edges (ra_transitions b). l \<in> marked_letters n (set (ra_markers a))"
    by (rule determinise_complete_spec [OF a(1,4) n a(3)]) blast
  obtain c where c: "complement b = Some c" "wf_raw n c" "language c = lists (marked_letters n (set (ra_markers a))) - language b"
    "\<not> ra_complete c" "markers_cover c" "trim c" by (rule complement_spec [OF b(2-4) tot]) (use let' in blast)+
  have "markers_cover b" using let' determinise_markers [OF b(1)] by (auto simp: markers_cover_def marked_letters_def)
  moreover have "set (ra_markers b) \<subseteq> {0}" using determinise_markers [OF b(1)] m by simp
  ultimately have "raw_in {0} c" using complement_in [OF c(1)] raw_in_markers [of b] by simp
  then have "raw_in M c" using assms(5) c(5) by (auto simp: raw_in_markers)
  with b(1,5) c a(2) show ?thesis by (simp add: good_def m marked_letters_zero)
qed

section \<open>The translation\<close>

text \<open>
  The expressions that the translation treats faithfully. The side conditions name what the
  constructions assume without checking: bytes of a range are distinct, no part of a concatenation
  and no body of a starred union denotes exactly the empty word (such parts are flattened away when
  they are literally \<open>cat []\<close>), intersections are not empty, and a complemented expression is unmarked
  and has a nonempty word.
\<close>

inductive faithful :: "nat \<Rightarrow> regex \<Rightarrow> bool" for n where
  F_Single: "distinct bytes \<Longrightarrow> faithful n (R_Single bytes)"
| F_Concat: "\<lbrakk>flatten_concat_loop (rev l) [] \<noteq> [];
     \<And>r. r \<in> set (flatten_concat_loop (rev l) []) \<Longrightarrow> faithful n r;
     \<And>r. r \<in> set (flatten_concat_loop (rev l) []) \<Longrightarrow> \<not> is_single r \<Longrightarrow> regex_lang n r \<noteq> {[]}\<rbrakk> \<Longrightarrow> faithful n (R_Concat l)"
| F_Union: "(\<And>r. r \<in> set (fst (union_alternatives l)) \<Longrightarrow> faithful n r) \<Longrightarrow> faithful n (R_Union l)"
| F_Inter: "\<lbrakk>l \<noteq> []; \<And>r. r \<in> set l \<Longrightarrow> faithful n r\<rbrakk> \<Longrightarrow> faithful n (R_Inter l)"
| F_Star: "\<lbrakk>faithful n r; \<not> strict \<Longrightarrow> regex_lang n r \<noteq> {[]}\<rbrakk> \<Longrightarrow> faithful n (R_Star strict r)"
| F_Complement: "\<lbrakk>faithful n r; \<not> contains_markers r; w \<in> regex_lang n r; w \<noteq> []; \<And>e. r \<noteq> R_Complement e\<rbrakk> \<Longrightarrow> faithful n (R_Complement r)"
| F_Double: "\<lbrakk>faithful n r; \<not> contains_markers r\<rbrakk> \<Longrightarrow> faithful n (R_Complement (R_Complement r))"

lemma plus_lists: "L \<subseteq> lists A \<Longrightarrow> plus L \<subseteq> lists A" and star_lists: "L \<subseteq> lists A \<Longrightarrow> star L \<subseteq> lists A"
  unfolding plus_def star_def by (auto simp: in_lists_conv_set) blast+

lemma concs_lists: "\<forall>L\<in>set Ls. L \<subseteq> lists A \<Longrightarrow> concs Ls \<subseteq> lists A"
proof (induction Ls)
  case (Cons L Ls)
  have "conc L B \<subseteq> lists A" if "L \<subseteq> lists A" "B \<subseteq> lists A" for B
  proof
    fix w assume "w \<in> conc L B"
    then obtain u v where "w = u @ v" "u \<in> L" "v \<in> B" by (auto simp: conc_def)
    with that show "w \<in> lists A" by (simp add: subset_iff)
  qed
  with Cons show ?case by simp
qed simp

lemma meet_unmarked:
  assumes "A \<subseteq> lists (unmarked_letters n)" "B \<subseteq> lists (unmarked_letters n)"
  shows "meet A B \<subseteq> lists (unmarked_letters n)"
proof
  fix w assume "w \<in> meet A B"
  then obtain u v where w: "w = map2 joined u v" "u \<in> A" "v \<in> B" by (auto simp: meet_def)
  have "joined l1 l2 \<in> unmarked_letters n" if "l1 \<in> unmarked_letters n" "l2 \<in> unmarked_letters n" for l1 l2
    using that by (simp add: unmarked_letters_def joined_def)
  moreover have "u \<in> lists (unmarked_letters n)" "v \<in> lists (unmarked_letters n)" using w assms by auto
  moreover from this have "a \<in> unmarked_letters n \<and> b \<in> unmarked_letters n" if "(a, b) \<in> set (zip u v)" for a b
    using set_zip_leftD [OF that] set_zip_rightD [OF that] by (simp add: in_lists_conv_set)
  ultimately show "w \<in> lists (unmarked_letters n)" unfolding w(1) by (auto simp: in_lists_conv_set)
qed

lemma unmarked_lang: "\<not> contains_markers r \<Longrightarrow> regex_lang n r \<subseteq> lists (unmarked_letters n)"
proof (induction r)
  case (R_Single bytes)
  then show ?case by (auto simp: unmarked_letters_def list_ex_iff)
next
  case (R_Concat l)
  then show ?case by (simp add: list_ex_iff) (intro concs_lists, auto)
next
  case (R_Inter l)
  have "fold (\<lambda>A acc. meet acc A) Ls B \<subseteq> lists (unmarked_letters n)" if "\<forall>A\<in>set Ls. A \<subseteq> lists (unmarked_letters n)" "B \<subseteq> lists (unmarked_letters n)" for Ls B
    using that by (induction Ls arbitrary: B) (auto simp: meet_unmarked)
  with R_Inter show ?case by (simp add: list_ex_iff)
next
  case (R_Star strict r)
  then show ?case using plus_lists star_lists by (cases strict) simp_all
qed (auto simp: list_ex_iff)

theorem to_raw_automaton_faithful:
  assumes "faithful n r" and n: "n \<le> ALPHABET_MAX_SIZE"
  shows "0 \<in> M \<Longrightarrow> markers_within M r \<Longrightarrow> \<exists>a. to_raw_automaton n r = Some a \<and> good n M (regex_lang n r) a"
  using assms(1)
proof (induction arbitrary: M rule: faithful.induct)
  case (F_Single bytes)
  then have "good n M (range_words n [bytes]) (byte_concat [bytes] n)" by (intro byte_concat_good) auto
  moreover have "range_words n [bytes] = regex_lang n (R_Single bytes)" using range_words_simps(2) [of n "[]" bytes] by (simp add: range_words_simps(1))
  ultimately show ?case by simp
next
  case (F_Concat l)
  let ?rs = "rev (flatten_concat_loop (rev l) [])"
  have m: "markers_within M r" if "r \<in> set ?rs" for r using flatten_concat_member [of r "rev l" "[]" M] that F_Concat.prems(2) by simp
  have "piece (to_raw_automaton n) n M r" if r: "r \<in> set ?rs" for r
  proof (cases "\<exists>bytes. r = R_Single bytes")
    case True
    then obtain bytes where b: "r = R_Single bytes" by blast
    have "distinct bytes" using F_Concat.hyps(2) [of r] r by (auto simp: b elim: faithful.cases)
    with m [OF r] show ?thesis by (simp add: piece_def b)
  next
    case False
    then have "\<not> is_single r" by (cases r) (auto simp: is_single_def)
    then have "regex_lang n r \<noteq> {[]}" using F_Concat.hyps(3) [of r] r by simp
    moreover have "\<exists>a. to_raw_automaton n r = Some a \<and> good n M (regex_lang n r) a" using F_Concat.IH [of r] r m [OF r] F_Concat.prems(1) by simp
    ultimately show ?thesis using False by (cases r) (simp_all add: piece_def del: regex_lang.simps to_raw_automaton.simps)
  qed
  then have "\<forall>r\<in>set ?rs. piece (to_raw_automaton n) n M r" by blast
  from convert_concat_good [OF this, of "[]"] obtain as where as: "convert_concat (to_raw_automaton n) n ?rs [] = Some as"
    "\<forall>a\<in>set as. good n M (language a) a \<and> language a \<noteq> {[]}" "concs (map language as) = concs (map (regex_lang n) ?rs)" "as = [] \<longleftrightarrow> ?rs = []"
    by (auto simp: range_words_simps(1))
  have "as \<noteq> []" using as(4) F_Concat.hyps(1) by simp
  from concat_good [OF as(2) this] obtain b where "concat_automata as = Some b" "good n M (concs (map language as)) b" by blast
  moreover have "concs (map (regex_lang n) ?rs) = regex_lang n (R_Concat l)" using flatten_concat_lang [of n "rev l" "[]"] by simp
  ultimately show ?case using as(1,3) by (simp add: flatten_concat_def)
next
  case (F_Union l)
  obtain res e where u: "union_alternatives l = (res, e)" by fastforce
  have "\<forall>r\<in>set res. markers_within M r" by (rule union_alternatives_markers [OF u]) (use F_Union.prems(2) in simp)
  with F_Union.IH F_Union.prems(1) have "\<forall>r\<in>set res. \<exists>a. to_raw_automaton n r = Some a \<and> good n M (regex_lang n r) a" by (simp add: u)
  from flatten_union_good [OF u this] obtain as where as: "flatten_union (to_raw_automaton n) n l = Some as"
    "\<forall>a\<in>set as. good n M (language a) a" "(\<Union>a\<in>set as. language a) = regex_lang n (R_Union l)" by blast
  from union_good [OF as(2) n] as(1,3) show ?case by (auto simp del: regex_lang.simps)
next
  case (F_Inter l)
  have "\<forall>r\<in>set l. \<exists>a. to_raw_automaton n r = Some a \<and> good n M (regex_lang n r) a" using F_Inter.IH F_Inter.prems by simp
  from inter_good [OF this F_Inter.hyps(1) n F_Inter.prems(1)] show ?case by (simp del: regex_lang.simps)
next
  case (F_Star r strict)
  then obtain a where a: "to_raw_automaton n r = Some a" "good n M (regex_lang n r) a" by auto
  from star_good [OF a(2), of strict] F_Star.hyps a(1) show ?case by simp
next
  case (F_Complement r w)
  have "markers_within {0} r" using F_Complement.hyps(2) by (simp add: contains_markers_iff)
  with F_Complement.IH [of "{0}"] obtain a where a: "to_raw_automaton n r = Some a" "good n {0} (regex_lang n r) a" by auto
  have "to_raw_automaton n (R_Complement r) = Option.bind (Option.bind (to_raw_automaton n r) (determinise True n)) complement"
  proof (cases r)
    case (R_Complement e)
    then show ?thesis using F_Complement.hyps(5) by blast
  qed simp_all
  with a(1) have eq: "to_raw_automaton n (R_Complement r) = Option.bind (determinise True n a) complement" by simp
  from complement_good [OF a(2) n F_Complement.hyps(3,4) F_Complement.prems(1)] show ?case unfolding eq by auto
next
  case (F_Double r)
  then obtain a where a: "to_raw_automaton n r = Some a" "good n M (regex_lang n r) a" by auto
  moreover have "lists (unmarked_letters n) - (lists (unmarked_letters n) - regex_lang n r) = regex_lang n r"
    using unmarked_lang [OF F_Double.hyps(2), of n] by blast
  ultimately show ?case by simp
qed

text \<open>
  C9: The translation of regular expressions is correct: for an expression that is treated faithfully,
  the automaton, whenever the conversion returns one, accepts a byte string with some output exactly
  when the language of the expression has a word with these bytes and markers; and the conversion
  does return, with all its loops ending and no panic, when the expression is unmarked.
\<close>

theorem regex_to_automaton_correct:
  assumes "faithful n r" and "n \<le> ALPHABET_MAX_SIZE"
  shows "(\<forall>A. to_automaton_param n r = Some A \<longrightarrow> (\<forall>input outputs.
      accepts A input outputs \<longleftrightarrow> (\<exists>w\<in>regex_lang n r. map l_char w = input \<and> map l_marker w = outputs))) \<and>
    (\<not> contains_markers r \<longrightarrow> (\<exists>A. to_automaton_param n r = Some A))"
proof -
  have "markers_within UNIV r" by (induction r) auto
  with to_raw_automaton_faithful [OF assms, of UNIV] obtain a where a: "to_raw_automaton n r = Some a" "good n UNIV (regex_lang n r) a" by auto
  then have w: "wf_raw n a" "markers_cover a" "language a = regex_lang n r" by (simp_all add: good_def)
  have eq: "to_automaton_param n r = normalise a" using assms(2) a(1) by (simp add: to_automaton_param_def)
  obtain c where c: "language c = language a" "markers_cover c" "ra_markers c = ra_markers a" "normalise a = None \<longleftrightarrow> \<not> byte_deterministic c"
    and rep: "\<forall>A. normalise a = Some A \<longrightarrow> represents A c" by (rule normalise_spec [OF w(1,2)]) (rule that; assumption)
  have "byte_deterministic c" if um: "\<not> contains_markers r"
  proof -
    obtain a' where "to_raw_automaton n r = Some a'" "good n {0} (regex_lang n r) a'"
      using to_raw_automaton_faithful [OF assms, of "{0}"] um by (auto simp: contains_markers_iff)
    with a(1) have "set (ra_markers c) \<subseteq> {0}" using c(3) by (simp add: good_def raw_in_def)
    with c(2) have "l_marker l = 0" if "(p, l, q) \<in> edges (ra_transitions c)" for p l q using that by (auto simp: markers_cover_def)
    then show ?thesis by (simp add: byte_deterministic_def)
  qed
  with c(4) have "\<exists>A. normalise a = Some A" if "\<not> contains_markers r" using that by auto
  moreover have "accepts A input outputs \<longleftrightarrow> (\<exists>w\<in>regex_lang n r. map l_char w = input \<and> map l_marker w = outputs)"
    if "normalise a = Some A" for A input outputs using accepts_language [OF rep [rule_format, OF that]] c(1) w(3) by simp
  ultimately show ?thesis by (simp add: eq)
qed

text \<open>The digits, any number of them, over the full alphabet.\<close>

lemma digits_faithful: "faithful n (list_regex (byte_from [48, 49]))"
proof -
  have "union_alternatives [non_empty_list (byte_from [48, 49]), epsilon] = ([R_Star False (byte_from [48, 49])], False)"
    by (simp add: union_alternatives_def non_empty_list_def epsilon_def cat_def weaken_star_def is_star_def)
  moreover have "faithful n (R_Star False (byte_from [48, 49]))"
    unfolding byte_from_def by (intro F_Star F_Single) (auto simp: letter_of_byte_def)
  ultimately show ?thesis unfolding list_regex_def or_regex_def union_def by (intro F_Union) simp
qed

theorem regex_to_automaton_correct_witness:
  "\<exists>A. to_automaton (list_regex (byte_from [48, 49])) = Some A \<and> accepts A [49, 48] [0, 0] \<and> \<not> accepts A [50] [0]"
proof -
  let ?r = "list_regex (byte_from [48, 49])" and ?l = "\<lambda>b. \<lparr>l_char = b, l_marker = 0\<rparr>"
  have um: "\<not> contains_markers ?r"
    by (simp add: list_regex_def or_regex_def union_def non_empty_list_def epsilon_def cat_def byte_from_def letter_of_byte_def)
  note c = regex_to_automaton_correct [OF digits_faithful order_refl]
  from c um obtain A where A: "to_automaton_param ALPHABET_MAX_SIZE ?r = Some A" by blast
  note r = c [THEN conjunct1, rule_format, OF A]
  have L: "regex_lang ALPHABET_MAX_SIZE ?r = star {[?l 48], [?l 49]}"
  proof -
    have "regex_lang ALPHABET_MAX_SIZE (byte_from [48, 49]) = {[?l 48], [?l 49]}"
      by (auto simp: byte_from_def letter_of_byte_def ALPHABET_MAX_SIZE_def)
    then show ?thesis by (simp add: list_regex_def or_regex_def union_def non_empty_list_def epsilon_def cat_def star_plus)
  qed
  have "[?l 49, ?l 48] \<in> star {[?l 48], [?l 49]}" unfolding star_def by (intro CollectI exI [of _ "[[?l 49], [?l 48]]"]) simp
  then have "accepts A [49, 48] [0, 0]" unfolding r L by (intro bexI [of _ "[?l 49, ?l 48]"]) simp_all
  moreover have "set w \<subseteq> {?l 48, ?l 49}" if "w \<in> star {[?l 48], [?l 49]}" for w
  proof -
    from that obtain ws where ws: "w = concat ws" "set ws \<subseteq> {[?l 48], [?l 49]}" by (auto simp: star_def)
    have "set u \<subseteq> {?l 48, ?l 49}" if "u \<in> set ws" for u using subsetD [OF ws(2) that] by auto
    with ws(1) show ?thesis by (simp add: UN_subset_iff)
  qed
  then have "\<not> accepts A [50] [0]" unfolding r L by force
  ultimately show ?thesis using A by (auto simp: to_automaton_def)
qed

end
