(* ===== verification/Regex_Shapes.thy ===== *)
theory Regex_Shapes
  imports Regex_Correct
begin

text \<open>
  A condition on the syntax of a regular expression that makes the translation faithful: every part
  has a nonempty word, up to alternatives that are literally the empty word. It is closed under the
  constructors that specifications are built from, so that a specification is checked part by part.
  Intersections and complements come with one of their nonempty words. For such expressions every
  construction leaves an automaton without useless parts, hence the conversion to the normalised
  automaton panics exactly on languages that leave the choice of a marker open.
\<close>

section \<open>Nice expressions\<close>

fun nice :: "nat \<Rightarrow> regex \<Rightarrow> bool" where
  "nice n (R_Single bytes) \<longleftrightarrow> distinct bytes \<and> (\<exists>b\<in>set bytes. unat (l_char b) < n)"
| "nice n (R_Concat l) \<longleftrightarrow> l \<noteq> [] \<and> (\<forall>r\<in>set l. nice n r)"
| "nice n (R_Union l) \<longleftrightarrow> (\<forall>r\<in>set l. r = R_Concat [] \<or> nice n r) \<and> (\<exists>r\<in>set l. nice n r)"
| "nice n (R_Inter l) \<longleftrightarrow> l \<noteq> [] \<and> (\<forall>r\<in>set l. nice n r) \<and> (\<exists>w\<in>regex_lang n (R_Inter l). w \<noteq> [])"
| "nice n (R_Star strict r) \<longleftrightarrow> nice n r"
| "nice n (R_Complement r) \<longleftrightarrow> nice n r \<and> \<not> contains_markers r \<and> (\<forall>e. r \<noteq> R_Complement e) \<and>
     (\<exists>w\<in>regex_lang n (R_Complement r). w \<noteq> [])"

lemma concs_Cons [simp]: "concs (L # Ls) = conc L (concs Ls)" and concs_Nil [simp]: "concs [] = {[]}"
  by (simp_all add: concs_def)




lemma nice_weaken_star [simp]: "nice n (weaken_star r) = nice n r"
  by (cases r) (simp_all add: weaken_star_def)

section \<open>The translation of nice expressions is faithful\<close>





section \<open>Their automata have no useless parts\<close>











section \<open>The constructors of specifications\<close>

lemma nice_byte_from [simp]:
  "nice n (byte_from l) \<longleftrightarrow> distinct l \<and> (\<exists>b\<in>set l. unat b < n)"
  by (auto simp: byte_from_def distinct_map inj_on_def letter_of_byte_def)

lemma nice_cat [simp]: "nice n (cat l) \<longleftrightarrow> l \<noteq> [] \<and> (\<forall>r\<in>set l. nice n r)"
  by (simp add: cat_def)

lemma nice_union: "l \<noteq> [] \<Longrightarrow> \<forall>r\<in>set l. nice n r \<Longrightarrow> nice n (union l)"
  by (cases l) (auto simp: union_def)

lemma nice_or [simp]: "nice n a \<Longrightarrow> nice n b \<Longrightarrow> nice n (or_regex a b)"
  by (simp add: or_regex_def union_def)

lemma nice_optional [simp]: "nice n r \<Longrightarrow> nice n (or_regex r epsilon)" "nice n r \<Longrightarrow> nice n (or_regex epsilon r)"
  by (simp_all add: or_regex_def union_def epsilon_def cat_def)

lemma nice_list [simp]: "nice n r \<Longrightarrow> nice n (non_empty_list r)" "nice n r \<Longrightarrow> nice n (list_regex r)"
  by (simp_all add: non_empty_list_def list_regex_def)

lemma nice_terminated [simp]: "nice n a \<Longrightarrow> nice n b \<Longrightarrow> nice n (terminated a b)"
  by (simp add: terminated_def)

lemma nice_blanks [simp]: "32 < n \<Longrightarrow> nice n blanks"
  by (simp add: blanks_def one_blank_def)

lemma nice_word_regex [simp]: "nice n (word_regex w) \<longleftrightarrow> w \<noteq> [] \<and> (\<forall>b\<in>set w. unat b < n)"
  by (simp add: word_regex_def)

lemma nice_delimited [simp]:
  "nice n r \<Longrightarrow> nice n a \<Longrightarrow> nice n b \<Longrightarrow> nice n (delimited r a b)"
  "nice n r \<Longrightarrow> nice n a \<Longrightarrow> nice n b \<Longrightarrow> 32 < n \<Longrightarrow> nice n (spaced_delimited r a b)"
  by (simp_all add: delimited_def spaced_delimited_def)

lemma nice_separated [simp]:
  "nice n r \<Longrightarrow> nice n sep \<Longrightarrow> 32 < n \<Longrightarrow> nice n (spaced_separated_list r sep)"
  by (simp add: spaced_separated_list_def spaced_separated_non_empty_list_def)

lemma nice_fold:
  assumes "\<And>a r. nice n a \<Longrightarrow> nice n r \<Longrightarrow> nice n (f a r)"
  shows "nice n r \<Longrightarrow> \<forall>x\<in>set rs. nice n x \<Longrightarrow> nice n (fold (\<lambda>r acc. f acc r) rs r)"
  by (induction rs arbitrary: r) (simp_all add: assms)

lemma nice_reduce:
  assumes "\<And>a r. nice n a \<Longrightarrow> nice n r \<Longrightarrow> nice n (f a r)" and "l \<noteq> []" and "\<forall>r\<in>set l. nice n r"
  shows "nice n (reduce_or_epsilon f l)"
  using assms nice_fold [of n f] by (cases l) (simp_all add: reduce_or_epsilon_def)

lemma nice_separated_cat [simp]:
  "l \<noteq> [] \<Longrightarrow> \<forall>r\<in>set l. nice n r \<Longrightarrow> nice n sep \<Longrightarrow> 32 < n \<Longrightarrow> nice n (spaced_separated_cat l sep)"
  "l \<noteq> [] \<Longrightarrow> \<forall>r\<in>set l. nice n r \<Longrightarrow> 32 < n \<Longrightarrow> nice n (spaced_cat l)"
  unfolding spaced_separated_cat_def spaced_cat_def separated_cat_def by (rule nice_reduce; simp)+

text \<open>Changing the markers of an expression without intersections changes nothing here.\<close>

fun no_inter :: "regex \<Rightarrow> bool" where
  "no_inter (R_Single bytes) \<longleftrightarrow> True"
| "no_inter (R_Concat l) \<longleftrightarrow> (\<forall>r\<in>set l. no_inter r)"
| "no_inter (R_Union l) \<longleftrightarrow> (\<forall>r\<in>set l. no_inter r)"
| "no_inter (R_Inter l) \<longleftrightarrow> False"
| "no_inter (R_Star strict r) \<longleftrightarrow> no_inter r"
| "no_inter (R_Complement r) \<longleftrightarrow> False"

lemma no_inter_parts [simp]:
  "no_inter (byte_from bytes)" "no_inter (cat l) \<longleftrightarrow> (\<forall>r\<in>set l. no_inter r)" "no_inter (union l) \<longleftrightarrow> (\<forall>r\<in>set l. no_inter r)"
  "no_inter (terminated a b) \<longleftrightarrow> no_inter a \<and> no_inter b" "no_inter (repeat a k) \<longleftrightarrow> no_inter a \<or> k = 0" "no_inter (word_regex w)"
  by (simp_all add: byte_from_def cat_def union_def terminated_def repeat_def word_regex_def)

lemma nice_map_letters:
  assumes "\<And>l. l_char (f l) = l_char l"
  shows "nice n r \<Longrightarrow> no_inter r \<Longrightarrow> nice n (map_letters f r)"
proof (induction r)
  case (R_Union l)
  have "map_letters f r = R_Concat [] \<or> nice n (map_letters f r)" if "r \<in> set l" for r
    using that R_Union by (cases "r = R_Concat []") auto
  with R_Union show ?case by auto
qed (auto simp: assms)

section \<open>Markers of markers\<close>

lemma hash_collect_map_aux:
  "fold hash_insert (map f (fold hash_insert xs s)) t = fold hash_insert (map f xs) (fold hash_insert (map f s) t)"
proof (induction xs arbitrary: s)
  case (Cons x xs)
  have "fold hash_insert (map f (hash_insert x s)) t = hash_insert (f x) (fold hash_insert (map f s) t)"
    by (auto simp: hash_insert_def)
  with Cons show ?case by simp
qed simp

lemma map_letters_map_letters: "map_letters f (map_letters g r) = map_letters (f \<circ> g) r"
  by (induction r) (simp_all add: hash_collect_map_aux [where s = "[]"] comp_def)

lemma markers_within_map: "f ` UNIV \<subseteq> {l. l_marker l \<in> M} \<Longrightarrow> markers_within M (map_letters f r)"
  by (induction r) auto

lemma markers_within_parts [simp]:
  "markers_within M (byte_from bytes) \<longleftrightarrow> bytes = [] \<or> 0 \<in> M"
  "markers_within M (cat l) \<longleftrightarrow> (\<forall>r\<in>set l. markers_within M r)" "markers_within M (union l) \<longleftrightarrow> (\<forall>r\<in>set l. markers_within M r)"
  "markers_within M epsilon" "markers_within M (non_empty_list r) \<longleftrightarrow> markers_within M r"
  "markers_within M (or_regex a b) \<longleftrightarrow> markers_within M a \<and> markers_within M b"
  "markers_within M (list_regex r) \<longleftrightarrow> markers_within M r"
  "markers_within M (terminated a b) \<longleftrightarrow> markers_within M a \<and> markers_within M b"
  "markers_within M (word_regex bytes) \<longleftrightarrow> bytes = [] \<or> 0 \<in> M" "markers_within M blanks \<longleftrightarrow> 0 \<in> M"
  "markers_within M (delimited r a b) \<longleftrightarrow> markers_within M r \<and> markers_within M a \<and> markers_within M b"
  "markers_within M (spaced_delimited r a b) \<longleftrightarrow> markers_within M r \<and> markers_within M a \<and> markers_within M b \<and> 0 \<in> M"
  "markers_within M (spaced_separated_list r a) \<longleftrightarrow> markers_within M r \<and> markers_within M a \<and> 0 \<in> M"
  by (auto simp: byte_from_def letter_of_byte_def cat_def union_def epsilon_def non_empty_list_def or_regex_def list_regex_def
    terminated_def word_regex_def blanks_def one_blank_def delimited_def spaced_delimited_def spaced_separated_list_def
    spaced_separated_non_empty_list_def neq_Nil_conv)

lemma markers_within_separated_cat [simp]:
  assumes "0 \<in> M"
  shows "markers_within M (spaced_separated_cat l sep) \<longleftrightarrow> (\<forall>r\<in>set l. markers_within M r) \<and> (length l \<le> 1 \<or> markers_within M sep)"
    and "markers_within M (spaced_cat l) \<longleftrightarrow> (\<forall>r\<in>set l. markers_within M r)"
proof -
  have "markers_within M (fold (\<lambda>r acc. cat [acc, blanks, sep, blanks, r]) rs r) \<longleftrightarrow>
      markers_within M r \<and> (\<forall>x\<in>set rs. markers_within M x) \<and> (rs = [] \<or> markers_within M sep)" for r rs
    by (induction rs arbitrary: r) (auto simp: assms)
  then show "markers_within M (spaced_separated_cat l sep) \<longleftrightarrow> (\<forall>r\<in>set l. markers_within M r) \<and> (length l \<le> 1 \<or> markers_within M sep)"
    by (cases l) (auto simp: spaced_separated_cat_def reduce_or_epsilon_def)
  have "markers_within M (fold (\<lambda>r acc. cat [acc, blanks, r]) rs r) \<longleftrightarrow> markers_within M r \<and> (\<forall>x\<in>set rs. markers_within M x)" for r rs
    by (induction rs arbitrary: r) (auto simp: assms)
  then show "markers_within M (spaced_cat l) \<longleftrightarrow> (\<forall>r\<in>set l. markers_within M r)"
    by (cases l) (auto simp: spaced_cat_def separated_cat_def reduce_or_epsilon_def)
qed

section \<open>Expressions outside\<close>

lemma unfaithful_conversions:
  "to_automaton_param 2 (byte_from [0, 0]) = None" "to_automaton_param 2 (list_regex epsilon) = None"
  "to_automaton_param 2 any = None"
  "Option.bind (neg epsilon) (to_automaton_param 2) =
     Some \<lparr>au_nb_states = 1, au_initial_state = 0, au_final_states = [], au_transitions = []\<rparr>"
  "to_automaton_param 2 (cat [or_regex epsilon epsilon, byte_from [0]]) =
     Some \<lparr>au_nb_states = 3, au_initial_state = 0, au_final_states = [2], au_transitions = [((1, 0), (2, 0))]\<rparr>"
  by code_simp+

section \<open>When the conversion returns\<close>




end
