(* ===== verification/Serialization.thy ===== *)
theory Serialization
  imports Automaton_Run "HOL-Library.Product_Lexorder" "HOL-Library.Sublist"
begin

text \<open>
  The byte serialisation of precompiled automata, \<open>circuits/src/parsing/scanner/serialization.rs\<close>: one
  serialiser and one deserialiser per implementation of the trait \<open>Serialize\<close>, taking those of the
  component types as arguments. The contract of the trait is the locale \<open>serialized\<close>; every
  implementation is shown to keep it when its components do, and it is interpreted on automata.

  A deserialiser returns the value and the rest of the buffer. Lengths and states are \<open>usize\<close> values
  of \<open>w\<close> bits, the pointer width of the machine; \<open>sz\<close> is the size in memory of an element, which
  decides when \<open>Vec::with_capacity\<close> panics.
\<close>

section \<open>Errors and readers\<close>

datatype deserialize_error = Buffer_Underflow nat "8 word list" | Not_A_Usize "64 word"

type_synonym 'a serializer = "'a \<Rightarrow> 8 word list"
type_synonym 'a deserializer = "8 word list \<Rightarrow> (deserialize_error, 'a \<times> 8 word list) outcome"

definition ensure_buf_len :: "8 word list \<Rightarrow> nat \<Rightarrow> (deserialize_error, unit) outcome" where
  "ensure_buf_len buf required = (if length buf < required then Err (Buffer_Underflow required buf) else Ok ())"

section \<open>Scalars\<close>

definition serialize_u8 :: "8 word serializer" where
  "serialize_u8 x = [x]"

definition deserialize_u8 :: "8 word deserializer" where
  "deserialize_u8 buf = bind_outcome (ensure_buf_len buf 1) (\<lambda>_. Ok (buf ! 0, drop 1 buf))"

definition to_le_bytes :: "64 word \<Rightarrow> 8 word list" where
  "to_le_bytes x = map (\<lambda>i. ucast (drop_bit (8 * i) x)) [0..<8]"

definition from_le_bytes :: "8 word list \<Rightarrow> 64 word" where
  "from_le_bytes bytes = foldr (\<lambda>b acc. or (ucast b) (push_bit 8 acc)) bytes 0"

definition serialize_u64 :: "64 word serializer" where
  "serialize_u64 x = to_le_bytes x"

definition deserialize_u64 :: "64 word deserializer" where
  "deserialize_u64 buf =
     bind_outcome (ensure_buf_len buf 8) (\<lambda>_. Ok (from_le_bytes (take 8 buf), drop 8 buf))"

definition serialize_usize :: "nat serializer" where
  "serialize_usize n = serialize_u64 (word_of_nat n)"

definition deserialize_usize :: "nat \<Rightarrow> nat deserializer" where
  "deserialize_usize w buf =
     bind_outcome (deserialize_u64 buf) (\<lambda>(val, buf).
       if unat val > 2 ^ w - 1 then Err (Not_A_Usize val) else Ok (unat val, buf))"

definition serialize_bool :: "bool serializer" where
  "serialize_bool b = serialize_u8 (if b then 1 else 0)"

definition deserialize_bool :: "bool deserializer" where
  "deserialize_bool buf = bind_outcome (deserialize_u8 buf) (\<lambda>(x, buf). Ok (x = 1, buf))"

section \<open>Options, tuples and collections\<close>

definition serialize_option :: "'a serializer \<Rightarrow> 'a option serializer" where
  "serialize_option ser x =
     (case x of None \<Rightarrow> serialize_bool False | Some x \<Rightarrow> serialize_bool True @ ser x)"

definition deserialize_option :: "'a deserializer \<Rightarrow> 'a option deserializer" where
  "deserialize_option de buf =
     bind_outcome (deserialize_bool buf) (\<lambda>(present, buf).
       if \<not> present then Ok (None, buf)
       else bind_outcome (de buf) (\<lambda>(x, buf). Ok (Some x, buf)))"

definition serialize_pair :: "'a serializer \<Rightarrow> 'b serializer \<Rightarrow> ('a \<times> 'b) serializer" where
  "serialize_pair ser1 ser2 p = (case p of (x, y) \<Rightarrow> ser1 x @ ser2 y)"

definition deserialize_pair :: "'a deserializer \<Rightarrow> 'b deserializer \<Rightarrow> ('a \<times> 'b) deserializer" where
  "deserialize_pair de1 de2 buf =
     bind_outcome (de1 buf) (\<lambda>(x, buf). bind_outcome (de2 buf) (\<lambda>(y, buf). Ok ((x, y), buf)))"

definition serialize_triple :: "'a serializer \<Rightarrow> 'b serializer \<Rightarrow> 'c serializer \<Rightarrow> ('a \<times> 'b \<times> 'c) serializer" where
  "serialize_triple ser1 ser2 ser3 t = (case t of (x, y, z) \<Rightarrow> ser1 x @ ser2 y @ ser3 z)"

definition deserialize_triple ::
    "'a deserializer \<Rightarrow> 'b deserializer \<Rightarrow> 'c deserializer \<Rightarrow> ('a \<times> 'b \<times> 'c) deserializer" where
  "deserialize_triple de1 de2 de3 buf =
     bind_outcome (de1 buf) (\<lambda>(x, buf). bind_outcome (de2 buf) (\<lambda>(y, buf).
       bind_outcome (de3 buf) (\<lambda>(z, buf). Ok ((x, y, z), buf))))"

definition serialize_vec :: "'a serializer \<Rightarrow> 'a list serializer" where
  "serialize_vec ser xs = serialize_usize (length xs) @ concat (map ser xs)"

fun deserialize_items :: "'a deserializer \<Rightarrow> nat \<Rightarrow> 'a list \<Rightarrow> 'a list deserializer" where
  "deserialize_items de 0 res buf = Ok (res, buf)"
| "deserialize_items de (Suc n) res buf =
     bind_outcome (de buf) (\<lambda>(x, buf). deserialize_items de n (res @ [x]) buf)"

text \<open>\<open>Vec::with_capacity\<close> panics when the requested memory exceeds \<open>isize::MAX\<close> bytes.\<close>

definition deserialize_vec :: "nat \<Rightarrow> nat \<Rightarrow> 'a deserializer \<Rightarrow> 'a list deserializer" where
  "deserialize_vec w sz de buf =
     bind_outcome (deserialize_usize w buf) (\<lambda>(len, buf).
       if len * sz > 2 ^ (w - 1) - 1 then Panic else deserialize_items de len [] buf)"

definition serialize_set :: "'a::linorder serializer \<Rightarrow> 'a list serializer" where
  "serialize_set ser s = serialize_vec ser (sort s)"

definition deserialize_set :: "nat \<Rightarrow> nat \<Rightarrow> 'a deserializer \<Rightarrow> 'a list deserializer" where
  "deserialize_set w sz de buf =
     bind_outcome (deserialize_vec w sz de buf) (\<lambda>(v, buf). Ok (hash_collect v, buf))"

definition serialize_map :: "'k::linorder serializer \<Rightarrow> 'v serializer \<Rightarrow> ('k \<times> 'v) list serializer" where
  "serialize_map ser_k ser_v m = serialize_vec (serialize_pair ser_k ser_v) (sort_key fst m)"

definition deserialize_map :: "nat \<Rightarrow> nat \<Rightarrow> 'k deserializer \<Rightarrow> 'v deserializer \<Rightarrow> ('k \<times> 'v) list deserializer" where
  "deserialize_map w sz de_k de_v buf =
     bind_outcome (deserialize_vec w sz (deserialize_pair de_k de_v) buf)
       (\<lambda>(v, buf). Ok (fold (\<lambda>(k, x). AList.update k x) v [], buf))"

section \<open>Automata\<close>

definition serialize_automaton :: "automaton serializer" where
  "serialize_automaton a =
     serialize_usize (au_nb_states a) @ serialize_usize (au_initial_state a) @
     serialize_set serialize_usize (au_final_states a) @
     serialize_map (serialize_pair serialize_usize serialize_u8) (serialize_pair serialize_usize serialize_usize)
       (au_transitions a)"

text \<open>The size of a \<open>usize\<close> is \<open>w div 8\<close> bytes; that of an entry of the transition map is left open.\<close>

definition deserialize_automaton :: "nat \<Rightarrow> nat \<Rightarrow> automaton deserializer" where
  "deserialize_automaton w sz buf =
     bind_outcome (deserialize_usize w buf) (\<lambda>(nb_states, buf).
     bind_outcome (deserialize_usize w buf) (\<lambda>(initial_state, buf).
     bind_outcome (deserialize_set w (w div 8) (deserialize_usize w) buf) (\<lambda>(final_states, buf).
     bind_outcome (deserialize_map w sz (deserialize_pair (deserialize_usize w) deserialize_u8)
       (deserialize_pair (deserialize_usize w) (deserialize_usize w)) buf) (\<lambda>(transitions, buf).
     Ok (\<lparr>au_nb_states = nb_states, au_initial_state = initial_state,
          au_final_states = final_states, au_transitions = transitions\<rparr>, buf)))))"

text \<open>\<open>deserialize_unwrap\<close>: an error is a panic, and what follows the value is ignored.\<close>

definition deserialize_unwrap :: "'a deserializer \<Rightarrow> 8 word list \<Rightarrow> 'a option" where
  "deserialize_unwrap de serialization =
     (case de serialization of Ok (x, buf) \<Rightarrow> Some x | Err msg \<Rightarrow> None | Panic \<Rightarrow> None)"

section \<open>The contract of the trait\<close>

text \<open>
  What is written is read back, up to the order of hash sets and maps, and the rest of the buffer is
  left; a truncated serialisation is an error.
\<close>

locale serialized =
  fixes valid :: "'a \<Rightarrow> bool" and ser :: "'a serializer" and de :: "'a deserializer" and canon :: "'a \<Rightarrow> 'a"
  assumes roundtrip: "valid x \<Longrightarrow> de (ser x @ rest) = Ok (canon x, rest)"
    and truncated: "valid x \<Longrightarrow> strict_prefix bs (ser x) \<Longrightarrow> \<exists>e. de bs = Err e"
begin

lemma exact: "valid x \<Longrightarrow> de (ser x) = Ok (canon x, [])"
  using roundtrip [of x "[]"] by simp

lemma unwrap: "valid x \<Longrightarrow> deserialize_unwrap de (ser x @ rest) = Some (canon x)"
  by (simp add: deserialize_unwrap_def roundtrip)

lemma unwrap_truncated: "valid x \<Longrightarrow> strict_prefix bs (ser x) \<Longrightarrow> deserialize_unwrap de bs = None"
  using truncated [of x bs] by (auto simp: deserialize_unwrap_def)

lemma injective: "valid x \<Longrightarrow> valid y \<Longrightarrow> ser x = ser y \<Longrightarrow> canon x = canon y"
  using exact [of x] exact [of y] by simp

lemma prefix_free: "valid x \<Longrightarrow> valid y \<Longrightarrow> prefix (ser x) (ser y) \<Longrightarrow> ser x = ser y"
  using truncated [of y "ser x"] exact [of x] by (auto simp: strict_prefix_def)

end

text \<open>A value that is written as two parts one after the other is read in the same order.\<close>

lemma strict_prefix_append_cases:
  assumes "strict_prefix bs (xs @ ys)"
  obtains "strict_prefix bs xs" | zs where "bs = xs @ zs" "strict_prefix zs ys"
proof -
  from assms have "prefix bs (xs @ ys)" "bs \<noteq> xs @ ys" by (auto simp: strict_prefix_def)
  then show thesis using that(2) [of "[]"] that by (cases "bs = xs") (auto simp: strict_prefix_def prefix_append)
qed

lemma sequence_truncated:
  assumes "serialized v1 s1 d1 c1" "v1 x" and "\<And>zs. strict_prefix zs ys \<Longrightarrow> \<exists>e. k (c1 x) zs = Err e"
    and "strict_prefix bs (s1 x @ ys)"
  shows "\<exists>e. bind_outcome (d1 bs) (\<lambda>(x, buf). k x buf) = Err e"
  using assms(4)
proof (cases rule: strict_prefix_append_cases)
  case 1
  with serialized.truncated [OF assms(1,2)] obtain e where "d1 bs = Err e" by blast
  then show ?thesis by simp
next
  case (2 zs)
  with assms(3) [of zs] serialized.roundtrip [OF assms(1,2), of zs] show ?thesis by auto
qed

section \<open>Every implementation keeps the contract\<close>

lemma strict_prefix_single: "strict_prefix bs [x] \<longleftrightarrow> bs = []"
  by (auto simp: strict_prefix_def prefix_Cons)

lemma serialized_u8: "serialized (\<lambda>_. True) serialize_u8 deserialize_u8 (\<lambda>x. x)"
  by unfold_locales (auto simp: serialize_u8_def deserialize_u8_def ensure_buf_len_def strict_prefix_single)

lemma le_bytes_aux:
  "foldr (\<lambda>b acc. or (ucast b) (push_bit 8 acc)) (map (\<lambda>i. ucast (drop_bit (8 * i) (x :: 64 word)) :: 8 word) [k..<k + n]) 0
     = take_bit (8 * n) (drop_bit (8 * k) x)"
proof (induction n arbitrary: k)
  case (Suc n)
  have "[k..<k + Suc n] = k # [Suc k..<Suc k + n]" by (simp add: upt_conv_Cons)
  moreover have "or (ucast (ucast (drop_bit (8 * k) x) :: 8 word)) (push_bit 8 (take_bit (8 * n) (drop_bit (8 * Suc k) x)))
      = take_bit (8 * Suc n) (drop_bit (8 * k) x)"
    by (rule bit_eqI) (auto simp: bit_simps ac_simps)
  ultimately show ?case using Suc [of "Suc k"] by simp
qed simp

lemma from_to_le_bytes [simp]: "from_le_bytes (to_le_bytes x) = x"
  using le_bytes_aux [of x 0 8] by (simp add: from_le_bytes_def to_le_bytes_def take_bit_word_eq_self)

lemma length_to_le_bytes [simp]: "length (to_le_bytes x) = 8"
  by (simp add: to_le_bytes_def)

lemma serialized_u64: "serialized (\<lambda>_. True) serialize_u64 deserialize_u64 (\<lambda>x. x)"
proof
  fix x :: "64 word" and rest bs
  show "deserialize_u64 (serialize_u64 x @ rest) = Ok (x, rest)"
    by (simp add: serialize_u64_def deserialize_u64_def ensure_buf_len_def)
  assume "strict_prefix bs (serialize_u64 x)"
  then have "length bs < 8" using prefix_length_less [of bs "to_le_bytes x"] by (simp add: serialize_u64_def)
  then show "\<exists>e. deserialize_u64 bs = Err e" by (simp add: deserialize_u64_def ensure_buf_len_def)
qed

text \<open>A value of type \<open>usize\<close> on a machine of at most 64 bits.\<close>

definition is_usize :: "nat \<Rightarrow> nat \<Rightarrow> bool" where
  "is_usize w n \<longleftrightarrow> w \<le> 64 \<and> n < 2 ^ w"

lemma serialized_usize: "serialized (is_usize w) serialize_usize (deserialize_usize w) (\<lambda>x. x)"
proof
  fix n rest bs assume n: "is_usize w n"
  then have "n < 2 ^ 64" using power_increasing [of w 64 "2 :: nat"] by (simp add: is_usize_def)
  then have u: "unat (word_of_nat n :: 64 word) = n" by (simp add: unat_of_nat take_bit_nat_eq_self)
  show "deserialize_usize w (serialize_usize n @ rest) = Ok (n, rest)"
    using n by (auto simp: deserialize_usize_def serialize_usize_def serialized.roundtrip [OF serialized_u64] u is_usize_def not_less less_Suc_eq_le [symmetric])
  assume "strict_prefix bs (serialize_usize n)"
  then show "\<exists>e. deserialize_usize w bs = Err e"
    using serialized.truncated [OF serialized_u64, where x = "word_of_nat n" and bs = bs] by (auto simp: deserialize_usize_def serialize_usize_def)
qed

lemma serialized_bool: "serialized (\<lambda>_. True) serialize_bool deserialize_bool (\<lambda>x. x)"
  by unfold_locales
    (auto simp: serialize_bool_def deserialize_bool_def serialized.roundtrip [OF serialized_u8]
      serialize_u8_def deserialize_u8_def ensure_buf_len_def strict_prefix_single)

lemma serialized_option:
  assumes "serialized v s d c"
  shows "serialized (pred_option v) (serialize_option s) (deserialize_option d) (map_option c)"
proof
  fix x rest bs assume x: "pred_option v x"
  show "deserialize_option d (serialize_option s x @ rest) = Ok (map_option c x, rest)"
    using x by (cases x) (simp_all add: serialize_option_def deserialize_option_def serialized.roundtrip [OF assms]
      serialized.roundtrip [OF serialized_bool])
  assume bs: "strict_prefix bs (serialize_option s x)"
  show "\<exists>e. deserialize_option d bs = Err e"
  proof (cases x)
    case None
    with bs serialized.truncated [OF serialized_bool, where x = False and bs = bs] show ?thesis
      by (auto simp: serialize_option_def deserialize_option_def)
  next
    case (Some y)
    with x have "v y" by simp
    have "\<exists>e. bind_outcome (d zs) (\<lambda>(x, buf). Ok (Some x, buf)) = Err e" if "strict_prefix zs (s y)" for zs
      using serialized.truncated [OF assms \<open>v y\<close> that] by auto
    with bs Some show ?thesis unfolding deserialize_option_def
      by (intro sequence_truncated [OF serialized_bool, where x = True and ys = "s y"]) (simp_all add: serialize_option_def)
  qed
qed

lemma serialized_pair:
  assumes 1: "serialized v1 s1 d1 c1" and 2: "serialized v2 s2 d2 c2"
  shows "serialized (\<lambda>p. v1 (fst p) \<and> v2 (snd p)) (serialize_pair s1 s2) (deserialize_pair d1 d2) (map_prod c1 c2)"
proof
  fix p rest bs assume v: "v1 (fst p) \<and> v2 (snd p)"
  obtain x y where p: "p = (x, y)" by fastforce
  show "deserialize_pair d1 d2 (serialize_pair s1 s2 p @ rest) = Ok (map_prod c1 c2 p, rest)"
    using v by (simp add: p serialize_pair_def deserialize_pair_def serialized.roundtrip [OF 1] serialized.roundtrip [OF 2])
  assume bs: "strict_prefix bs (serialize_pair s1 s2 p)"
  have "\<exists>e. bind_outcome (d2 zs) (\<lambda>(y, buf). Ok ((c1 x, y), buf)) = Err e" if "strict_prefix zs (s2 y)" for zs
    using serialized.truncated [OF 2 _ that] v by (auto simp: p)
  with v bs show "\<exists>e. deserialize_pair d1 d2 bs = Err e" unfolding deserialize_pair_def
    by (intro sequence_truncated [OF 1, where x = x and ys = "s2 y"]) (simp_all add: p serialize_pair_def)
qed

text \<open>A triple is a pair whose second component is a pair, in both directions.\<close>

lemma triple_as_pair:
  "serialize_triple s1 s2 s3 = serialize_pair s1 (serialize_pair s2 s3)"
  "deserialize_triple d1 d2 d3 = deserialize_pair d1 (deserialize_pair d2 d3)"
  by (auto simp: fun_eq_iff serialize_triple_def serialize_pair_def deserialize_triple_def deserialize_pair_def
    bind_outcome_assoc split: prod.splits intro!: arg_cong [where f = "bind_outcome _"])

lemma serialized_triple:
  assumes "serialized v1 s1 d1 c1" "serialized v2 s2 d2 c2" "serialized v3 s3 d3 c3"
  shows "serialized (\<lambda>t. v1 (fst t) \<and> v2 (fst (snd t)) \<and> v3 (snd (snd t))) (serialize_triple s1 s2 s3)
    (deserialize_triple d1 d2 d3) (map_prod c1 (map_prod c2 c3))"
  unfolding triple_as_pair by (rule serialized_pair [OF assms(1) serialized_pair [OF assms(2,3)]])

text \<open>Vectors: the items are read one after the other, so the accumulator can be split off.\<close>

lemma items_roundtrip:
  assumes "serialized v s d c" and "\<forall>x\<in>set xs. v x"
  shows "deserialize_items d (length xs) res (concat (map s xs) @ rest) = Ok (res @ map c xs, rest)"
  using assms(2) by (induction xs arbitrary: res) (simp_all add: serialized.roundtrip [OF assms(1)])

lemma items_truncated:
  assumes "serialized v s d c" and "\<forall>x\<in>set xs. v x" and "strict_prefix bs (concat (map s xs))"
  shows "\<exists>e. deserialize_items d (length xs) res bs = Err e"
  using assms(2,3)
proof (induction xs arbitrary: res bs)
  case (Cons x xs)
  have "\<exists>e. deserialize_items d (length xs) (res @ [c x]) zs = Err e" if "strict_prefix zs (concat (map s xs))" for zs
    using Cons.IH [OF _ that] Cons.prems(1) by simp
  with Cons.prems show ?case unfolding list.size deserialize_items.simps
    by simp (intro sequence_truncated [OF assms(1), where x = x and ys = "concat (map s xs)"], simp_all)
qed simp

text \<open>A vector that exists in memory has a length that is a \<open>usize\<close> and takes at most \<open>isize::MAX\<close> bytes.\<close>

definition in_memory :: "nat \<Rightarrow> nat \<Rightarrow> 'a list \<Rightarrow> bool" where
  "in_memory w sz xs \<longleftrightarrow> is_usize w (length xs) \<and> length xs * sz \<le> 2 ^ (w - 1) - 1"

lemma serialized_vec:
  assumes "serialized v s d c"
  shows "serialized (\<lambda>xs. in_memory w sz xs \<and> (\<forall>x\<in>set xs. v x)) (serialize_vec s) (deserialize_vec w sz d) (map c)"
proof
  fix xs rest bs assume xs: "in_memory w sz xs \<and> (\<forall>x\<in>set xs. v x)"
  then have len: "is_usize w (length xs)" "\<not> length xs * sz > 2 ^ (w - 1) - 1" by (auto simp: in_memory_def)
  then show "deserialize_vec w sz d (serialize_vec s xs @ rest) = Ok (map c xs, rest)"
    using items_roundtrip [OF assms, of xs "[]" rest] xs
    by (simp add: deserialize_vec_def serialize_vec_def serialized.roundtrip [OF serialized_usize])
  assume "strict_prefix bs (serialize_vec s xs)"
  with len(2) items_truncated [OF assms, of xs _ "[]"] xs show "\<exists>e. deserialize_vec w sz d bs = Err e" unfolding deserialize_vec_def
    by (intro sequence_truncated [OF serialized_usize, where x = "length xs" and ys = "concat (map s xs)", OF len(1)])
      (simp_all add: serialize_vec_def)
qed

lemma hash_collect_distinct: "distinct xs \<Longrightarrow> set xs \<inter> set s = {} \<Longrightarrow> fold hash_insert xs s = s @ xs"
  by (induction xs arbitrary: s) (auto simp: hash_insert_def)

lemma map_collect_distinct:
  "distinct (map fst xs) \<Longrightarrow> fst ` set xs \<inter> fst ` set m = {} \<Longrightarrow> fold (\<lambda>(k, x). AList.update k x) xs m = m @ xs"
proof (induction xs arbitrary: m)
  case (Cons kx xs)
  obtain k x where kx: "kx = (k, x)" by fastforce
  have "AList.update k x m = m @ [(k, x)]" using Cons.prems(2) by (induction m) (auto simp: kx)
  then have "fold (\<lambda>(k, x). AList.update k x) (kx # xs) m = fold (\<lambda>(k, x). AList.update k x) xs (m @ [(k, x)])" by (simp add: kx)
  also have "\<dots> = (m @ [(k, x)]) @ xs" by (rule Cons.IH) (use Cons.prems in \<open>auto simp: kx\<close>)
  finally show ?case by (simp add: kx)
qed simp

lemma serialized_set:
  assumes "serialized v s d (\<lambda>x. x)"
  shows "serialized (\<lambda>xs. distinct xs \<and> in_memory w sz xs \<and> (\<forall>x\<in>set xs. v x)) (serialize_set s) (deserialize_set w sz d) sort"
proof
  fix xs :: "'a list" and rest bs assume xs: "distinct xs \<and> in_memory w sz xs \<and> (\<forall>x\<in>set xs. v x)"
  then have v: "in_memory w sz (sort xs) \<and> (\<forall>x\<in>set (sort xs). v x)" by (simp add: in_memory_def)
  show "deserialize_set w sz d (serialize_set s xs @ rest) = Ok (sort xs, rest)"
    using xs hash_collect_distinct [of "sort xs" "[]"] serialized.roundtrip [OF serialized_vec [OF assms] v]
    by (simp add: deserialize_set_def serialize_set_def)
  assume "strict_prefix bs (serialize_set s xs)"
  then show "\<exists>e. deserialize_set w sz d bs = Err e"
    using serialized.truncated [OF serialized_vec [OF assms] v, of bs] by (auto simp: deserialize_set_def serialize_set_def)
qed

lemma serialized_map:
  assumes 1: "serialized v1 s1 d1 (\<lambda>x. x)" and 2: "serialized v2 s2 d2 (\<lambda>x. x)"
  shows "serialized (\<lambda>m. distinct (map fst m) \<and> in_memory w sz m \<and> (\<forall>(k, x)\<in>set m. v1 k \<and> v2 x)) (serialize_map s1 s2)
    (deserialize_map w sz d1 d2) (sort_key fst)"
proof
  fix m :: "('a \<times> 'b) list" and rest bs assume m: "distinct (map fst m) \<and> in_memory w sz m \<and> (\<forall>(k, x)\<in>set m. v1 k \<and> v2 x)"
  have v: "in_memory w sz (sort_key fst m) \<and> (\<forall>p\<in>set (sort_key fst m). v1 (fst p) \<and> v2 (snd p))"
    using m by (auto simp: in_memory_def)
  have "distinct (map fst (sort_key fst m))" using m by (simp add: distinct_map)
  from map_collect_distinct [OF this, of "[]"] show "deserialize_map w sz d1 d2 (serialize_map s1 s2 m @ rest) = Ok (sort_key fst m, rest)"
    using serialized.roundtrip [OF serialized_vec [OF serialized_pair [OF 1 2]] v] by (simp add: deserialize_map_def serialize_map_def map_prod.id [unfolded id_def])
  assume "strict_prefix bs (serialize_map s1 s2 m)"
  then show "\<exists>e. deserialize_map w sz d1 d2 bs = Err e"
    using serialized.truncated [OF serialized_vec [OF serialized_pair [OF 1 2]] v, of bs] by (auto simp: deserialize_map_def serialize_map_def)
qed

section \<open>Serialised automata\<close>

definition canonical :: "automaton \<Rightarrow> automaton" where
  "canonical a = a\<lparr>au_final_states := sort (au_final_states a), au_transitions := sort_key fst (au_transitions a)\<rparr>"

definition valid_automaton :: "nat \<Rightarrow> nat \<Rightarrow> automaton \<Rightarrow> bool" where
  "valid_automaton w sz a \<longleftrightarrow> is_usize w (au_nb_states a) \<and> is_usize w (au_initial_state a) \<and>
     (distinct (au_final_states a) \<and> in_memory w (w div 8) (au_final_states a) \<and> (\<forall>f\<in>set (au_final_states a). is_usize w f)) \<and>
     (distinct (map fst (au_transitions a)) \<and> in_memory w sz (au_transitions a) \<and>
      (\<forall>(k, x)\<in>set (au_transitions a). (is_usize w (fst k) \<and> True) \<and> is_usize w (fst x) \<and> is_usize w (snd x)))"

lemmas serialized_states = serialized_set [OF serialized_usize]

lemma serialized_pair_id:
  assumes "serialized v1 s1 d1 (\<lambda>x. x)" "serialized v2 s2 d2 (\<lambda>x. x)"
  shows "serialized (\<lambda>p. v1 (fst p) \<and> v2 (snd p)) (serialize_pair s1 s2) (deserialize_pair d1 d2) (\<lambda>x. x)"
  using serialized_pair [OF assms] by (simp add: map_prod.id [unfolded id_def])

lemma serialized_transitions:
  "serialized (\<lambda>m. distinct (map fst m) \<and> in_memory w sz m \<and>
       (\<forall>(k, x)\<in>set m. (is_usize w (fst k) \<and> True) \<and> is_usize w (fst x) \<and> is_usize w (snd x)))
     (serialize_map (serialize_pair serialize_usize serialize_u8) (serialize_pair serialize_usize serialize_usize))
     (deserialize_map w sz (deserialize_pair (deserialize_usize w) deserialize_u8)
       (deserialize_pair (deserialize_usize w) (deserialize_usize w))) (sort_key fst)"
  using serialized_map [OF serialized_pair_id [OF serialized_usize [of w] serialized_u8]
    serialized_pair_id [OF serialized_usize [of w] serialized_usize [of w]], of w sz] by simp

interpretation automaton: serialized "valid_automaton w sz" serialize_automaton "deserialize_automaton w sz" canonical for w sz
proof
  fix a rest bs assume v: "valid_automaton w sz a"
  note u = serialized_usize [of w] and v = v [unfolded valid_automaton_def]
  note r = serialized.roundtrip [OF u] serialized.roundtrip [OF serialized_states] serialized.roundtrip [OF serialized_transitions]
  show "deserialize_automaton w sz (serialize_automaton a @ rest) = Ok (canonical a, rest)"
    using v by (simp add: deserialize_automaton_def serialize_automaton_def canonical_def r)
  assume bs: "strict_prefix bs (serialize_automaton a)"
  have transitions: "\<exists>e. bind_outcome (deserialize_map w sz (deserialize_pair (deserialize_usize w) deserialize_u8)
       (deserialize_pair (deserialize_usize w) (deserialize_usize w)) zs) (\<lambda>(transitions, buf). Ok (f transitions, buf)) = Err e"
    if "strict_prefix zs (serialize_map (serialize_pair serialize_usize serialize_u8)
      (serialize_pair serialize_usize serialize_usize) (au_transitions a))" for zs and f :: "_ \<Rightarrow> automaton"
    using serialized.truncated [OF serialized_transitions _ that, of w sz] v by fastforce
  have "\<exists>e. bind_outcome (deserialize_usize w bs) (\<lambda>(nb_states, buf).
     bind_outcome (deserialize_usize w buf) (\<lambda>(initial_state, buf).
     bind_outcome (deserialize_set w (w div 8) (deserialize_usize w) buf) (\<lambda>(final_states, buf).
     bind_outcome (deserialize_map w sz (deserialize_pair (deserialize_usize w) deserialize_u8)
       (deserialize_pair (deserialize_usize w) (deserialize_usize w)) buf) (\<lambda>(transitions, buf).
     Ok (\<lparr>au_nb_states = nb_states, au_initial_state = initial_state,
          au_final_states = final_states, au_transitions = transitions\<rparr>, buf))))) = Err e"
    by (rule sequence_truncated [OF u, where x = "au_nb_states a"], use v in simp,
      rule sequence_truncated [OF u, where x = "au_initial_state a"], use v in simp,
      rule sequence_truncated [OF serialized_states, where x = "au_final_states a"], use v in simp,
      rule transitions, assumption+, rule bs [unfolded serialize_automaton_def])
  then show "\<exists>e. deserialize_automaton w sz bs = Err e" by (simp add: deserialize_automaton_def)
qed

text \<open>Sorting changes neither the runs of an automaton nor what it accepts.\<close>

lemma map_of_sort_key:
  assumes "distinct (map fst m)"
  shows "map_of (sort_key fst m) = map_of m"
  using assms map_of_inject_set [of "sort_key fst m" m] by (simp add: distinct_map)

lemma run_from_cong:
  assumes "map_of (au_transitions a) = map_of (au_transitions b)"
  shows "run_from a q input = run_from b q input"
  using assms by (induction input arbitrary: q) (simp_all split: option.split)

lemma accepts_cong:
  assumes "map_of (au_transitions a) = map_of (au_transitions b)" "au_initial_state a = au_initial_state b"
    and "set (au_final_states a) = set (au_final_states b)"
  shows "accepts a input outputs \<longleftrightarrow> accepts b input outputs"
  using assms run_from_cong [OF assms(1)] by (simp add: accepts_def run_def)

lemma accepts_canonical:
  "distinct (map fst (au_transitions a)) \<Longrightarrow> accepts (canonical a) input outputs \<longleftrightarrow> accepts a input outputs"
  by (rule accepts_cong) (simp_all add: canonical_def map_of_sort_key)

lemma canonical_eq_iff:
  assumes "distinct (au_final_states a)" "distinct (au_final_states b)"
    and "distinct (map fst (au_transitions a))" "distinct (map fst (au_transitions b))"
  shows "canonical a = canonical b \<longleftrightarrow> au_nb_states a = au_nb_states b \<and> au_initial_state a = au_initial_state b \<and>
    set (au_final_states a) = set (au_final_states b) \<and> map_of (au_transitions a) = map_of (au_transitions b)"
proof -
  have "sort (au_final_states a) = sort (au_final_states b) \<longleftrightarrow> set (au_final_states a) = set (au_final_states b)"
    using assms(1,2) by (metis distinct_sort set_sort sorted_distinct_set_unique sorted_sort)
  moreover have "sort_key fst (au_transitions a) = sort_key fst (au_transitions b) \<longleftrightarrow>
      map_of (au_transitions a) = map_of (au_transitions b)" (is "?s = ?m")
  proof
    assume ?s
    with map_of_sort_key assms(3,4) show ?m by metis
  next
    assume ?m
    then have "set (sort_key fst (au_transitions a)) = set (sort_key fst (au_transitions b))"
      using map_of_inject_set [OF assms(3,4)] by simp
    moreover have "distinct (map fst (sort_key fst (au_transitions x)))" if "distinct (map fst (au_transitions x))" for x
      using that by (simp add: distinct_map)
    ultimately show ?s using assms(3,4)
      by (intro map_sorted_distinct_set_unique [of fst]) (auto simp: inj_on_def distinct_map dest: map_of_is_SomeI)
  qed
  ultimately show ?thesis by (cases a; cases b) (auto simp: canonical_def)
qed

text \<open>
  A length prefix is trusted before the items are looked at: when so many items do not fit in memory
  the reader panics, although the buffer is too short and an error would be due.
\<close>

lemma vec_length_panics: "deserialize_vec 64 (Suc k) de (replicate 8 0xFF @ rest) = Panic"
proof -
  have "replicate 8 0xFF = to_le_bytes (- 1)" by code_simp
  moreover have "unat (- 1 :: 64 word) = 18446744073709551615" by (simp add: unsigned_minus_1_eq_mask mask_eq_exp_minus_1)
  ultimately show ?thesis
    by (simp add: deserialize_vec_def deserialize_usize_def deserialize_u64_def ensure_buf_len_def)
qed

text \<open>An automaton of two states for a machine of 64 bits.\<close>

definition small_automaton :: automaton where
  "small_automaton = \<lparr>au_nb_states = 2, au_initial_state = 0, au_final_states = [1], au_transitions = [((0, 5), (1, 7))]\<rparr>"

definition other_automaton :: automaton where
  "other_automaton = small_automaton\<lparr>au_final_states := [0]\<rparr>"

lemma small_automaton_valid [simp]: "valid_automaton 64 32 small_automaton" "valid_automaton 64 32 other_automaton"
  by (simp_all add: valid_automaton_def small_automaton_def other_automaton_def is_usize_def in_memory_def)

text \<open>
  C14: Serialised automata are read back. Deserialising what was written, followed by any bytes, gives an
  automaton that accepts the same inputs with the same outputs, and leaves these bytes; unwrapping does
  not panic. A serialisation that is cut short is an error, and panics when it is unwrapped.
\<close>

theorem automaton_serialization_roundtrip:
  assumes "valid_automaton w sz a"
  shows "(\<exists>b. deserialize_automaton w sz (serialize_automaton a @ rest) = Ok (b, rest) \<and>
       deserialize_unwrap (deserialize_automaton w sz) (serialize_automaton a) = Some b \<and>
       (\<forall>input outputs. accepts b input outputs \<longleftrightarrow> accepts a input outputs)) \<and>
    (\<forall>bs. strict_prefix bs (serialize_automaton a) \<longrightarrow>
       (\<exists>e. deserialize_automaton w sz bs = Err e) \<and> deserialize_unwrap (deserialize_automaton w sz) bs = None)"
proof -
  have "distinct (map fst (au_transitions a))" using assms by (simp add: valid_automaton_def)
  then show ?thesis
    using automaton.roundtrip [OF assms] automaton.unwrap [OF assms, of "[]"] automaton.truncated [OF assms]
      automaton.unwrap_truncated [OF assms] accepts_canonical by auto
qed

theorem automaton_serialization_roundtrip_witness:
  "\<exists>b. deserialize_automaton 64 32 (serialize_automaton small_automaton @ [9]) = Ok (b, [9]) \<and> accepts b [5] [7]"
proof -
  have "accepts small_automaton [5] [7]" by (simp add: accepts_def run_def small_automaton_def)
  with automaton_serialization_roundtrip [OF small_automaton_valid(1), of "[9]"] show ?thesis by blast
qed

text \<open>
  C36: Serialisation is deterministic and injective: two automata have the same serialisation exactly
  when they have the same number of states, initial state, set of final states and transition map,
  in whatever order their hash tables are iterated.
\<close>

theorem serialization_deterministic:
  assumes "valid_automaton w sz a" "valid_automaton w sz b"
  shows "serialize_automaton a = serialize_automaton b \<longleftrightarrow> au_nb_states a = au_nb_states b \<and>
    au_initial_state a = au_initial_state b \<and> set (au_final_states a) = set (au_final_states b) \<and>
    map_of (au_transitions a) = map_of (au_transitions b)"
proof -
  have d: "distinct (au_final_states x)" "distinct (map fst (au_transitions x))" if "valid_automaton w sz x" for x
    using that by (simp_all add: valid_automaton_def)
  have "serialize_automaton (canonical x) = serialize_automaton x" for x
    by (simp add: serialize_automaton_def canonical_def serialize_set_def serialize_map_def sort_key_id_if_sorted)
  then have "serialize_automaton a = serialize_automaton b \<longleftrightarrow> canonical a = canonical b"
    using automaton.injective [OF assms] by metis
  with canonical_eq_iff [OF d(1) d(1) d(2) d(2)] assms show ?thesis by blast
qed

theorem serialization_deterministic_witness: "serialize_automaton small_automaton \<noteq> serialize_automaton other_automaton"
  using serialization_deterministic [OF small_automaton_valid] by (simp add: small_automaton_def other_automaton_def)

end
