(* ===== verification/Scanner_Chip.thy ===== *)
theory Scanner_Chip
  imports Layouter Automaton
begin

text \<open>
  The scanner chip, which checks in a circuit that a string of assigned bytes is in the language of
  one of a library of automata: \<open>circuits/src/parsing/scanner/mod.rs\<close> (the library over the field, the
  configuration of the lookup, the table) and \<open>automaton_chip.rs\<close> (the region that runs an automaton),
  with the constants of \<open>NativeChip::assign_fixed\<close> it copies from.

  A closure passed to \<open>assign_region\<close> is the list of calls it makes together with its result,
  \<open>None\<close> being an error (the last call is then \<open>Fail\<close>). The result \<open>None\<close> of the other operations
  is a panic. Ordered maps and sets are iterated in the order of insertion. The flag \<open>ev\<close> says whether
  the back end evaluates the values of advice cells: it does for the prover, it does not while regions
  are measured and during key generation.
\<close>

section \<open>Automata over the field\<close>

record 'f native_automaton =
  na_initial_state :: 'f
  na_final_states :: "'f list"
  na_transitions :: "(('f \<times> 'f) \<times> ('f \<times> 'f)) list"

definition native_automaton_of :: "automaton \<Rightarrow> 'f::field native_automaton" where
  "native_automaton_of a =
     \<lparr>na_initial_state = of_nat (au_initial_state a),
      na_final_states = hash_collect (map of_nat (au_final_states a)),
      na_transitions = fold (\<lambda>((s1, byte), (s2, marker)).
        AList.update (of_nat s1, of_nat (unat byte)) (of_nat s2, of_nat marker)) (au_transitions a) []\<rparr>"

text \<open>The states of the automata are made disjoint and different from 0.\<close>

fun from_collection_loop :: "nat \<Rightarrow> ('i \<times> automaton) list \<Rightarrow> ('i \<times> 'f::field native_automaton) list" where
  "from_collection_loop offset [] = []"
| "from_collection_loop offset ((name, a) # automata) =
     (name, native_automaton_of (offset_states offset a)) # from_collection_loop (offset + au_nb_states a) automata"

definition from_collection :: "('i \<times> automaton) list \<Rightarrow> ('i \<times> 'f::field native_automaton) list" where
  "from_collection automata = from_collection_loop 1 automata"

section \<open>Configuration\<close>

record ('i, 'f) scanner_config =
  automata :: "('i \<times> 'f native_automaton) list"
  q_automaton :: selector
  state_col :: column
  letter_col :: column
  output_col :: column
  t_source :: column
  t_letter :: column
  t_target :: column
  t_output :: column

definition scanner_configure ::
    "'f::field constraint_system \<Rightarrow> column \<times> column \<times> column \<Rightarrow> ('i \<times> automaton) list
     \<Rightarrow> ('f constraint_system \<times> ('i, 'f) scanner_config) option" where
  "scanner_configure cs advice_cols lib =
     (case advice_cols of (state, letter, output) \<Rightarrow>
        let (cs, q) = complex_selector cs;
            (cs, source_table) = new_fixed_column cs;
            (cs, letter_table) = new_fixed_column cs;
            (cs, target_table) = new_fixed_column cs;
            (cs, output_table) = new_fixed_column cs
        in do { (cs, _) \<leftarrow> cs_lookup cs (Some q) (\<lambda>cells.
                  do { (cells, source_e) \<leftarrow> query_advice cells state 0;
                       (cells, letter_e) \<leftarrow> query_advice cells letter 0;
                       (cells, target_e) \<leftarrow> query_advice cells state 1;
                       (cells, output_e) \<leftarrow> query_advice cells output 0;
                       Some (cells, [(source_e, source_table), (letter_e, letter_table),
                                     (target_e, target_table), (output_e, output_table)]) });
                Some (cs, \<lparr>automata = from_collection lib, q_automaton = q, state_col = state,
                  letter_col = letter, output_col = output, t_source = source_table, t_letter = letter_table,
                  t_target = target_table, t_output = output_table\<rparr>) })"

section \<open>The lookup table\<close>

definition add_entry :: "('i, 'f) scanner_config \<Rightarrow> nat \<Rightarrow> 'f \<times> 'f \<times> 'f \<times> 'f \<Rightarrow> 'f table_call list" where
  "add_entry cfg offset entry =
     (case entry of (src, letter, tgt, marker) \<Rightarrow>
        [(col_index (t_source cfg), offset, Some (Trivial src)),
         (col_index (t_letter cfg), offset, Some (Trivial letter)),
         (col_index (t_target cfg), offset, Some (Trivial tgt)),
         (col_index (t_output cfg), offset, Some (Trivial marker))])"

text \<open>The transitions of an automaton, and a dummy transition for each final state.\<close>

definition automaton_entries :: "'f::field native_automaton \<Rightarrow> ('f \<times> 'f \<times> 'f \<times> 'f) list option" where
  "automaton_entries a =
     (if list_all (\<lambda>((src, letter), (tgt, output)). src \<noteq> 0 \<and> tgt \<noteq> 0) (na_transitions a)
      then Some (map (\<lambda>((src, letter), (tgt, output)). (src, letter, tgt, output)) (na_transitions a) @
                 map (\<lambda>state. (state, of_nat ALPHABET_MAX_SIZE, 0, 0)) (na_final_states a))
      else None)"

definition table_rows :: "('i, 'f::field) scanner_config \<Rightarrow> ('f \<times> 'f \<times> 'f \<times> 'f) list option" where
  "table_rows cfg =
     map_option (\<lambda>entries. (0, 0, 0, 0) # concat entries) (those (map (\<lambda>(_, a). automaton_entries a) (automata cfg)))"

definition scanner_load :: "('i, 'f::field) scanner_config \<Rightarrow> 'f layout_call option" where
  "scanner_load cfg = map_option (\<lambda>rows. Assign_Table (concat (imap 0 (add_entry cfg) rows))) (table_rows cfg)"

section \<open>Assigned cells\<close>

record 'f assigned =
  as_value :: "'f option"
  as_cell :: cell

text \<open>\<open>Region::assign_advice\<close> in region \<open>i\<close>, and \<open>AssignedCell::copy_advice\<close>.\<close>

definition assign_advice ::
    "bool \<Rightarrow> nat \<Rightarrow> column \<Rightarrow> nat \<Rightarrow> 'f option \<Rightarrow> 'f assigned \<times> 'f region_call" where
  "assign_advice ev i c offset to =
     (\<lparr>as_value = (if ev then to else None), as_cell = \<lparr>cell_region = i, cell_offset = offset, cell_column = c\<rparr>\<rparr>,
      Assign_Advice c offset (map_option Trivial to))"

definition copy_advice ::
    "bool \<Rightarrow> nat \<Rightarrow> 'f assigned \<Rightarrow> column \<Rightarrow> nat \<Rightarrow> 'f assigned \<times> 'f region_call list" where
  "copy_advice ev i x c offset =
     (case assign_advice ev i c offset (as_value x) of (y, call) \<Rightarrow>
        (y, [call, Constrain_Equal (as_cell y) (as_cell x)]))"

text \<open>
  \<open>NativeChip::assign_fixed\<close>: a constant is assigned once, in a region of its own, and cached. The
  state holds the number of regions of the circuit so far and the cache.
\<close>

record 'f native_state =
  ns_regions :: nat
  ns_cached_fixed :: "('f \<times> 'f assigned) list"

definition native_assign_fixed ::
    "column \<Rightarrow> 'f \<Rightarrow> 'f native_state \<Rightarrow> 'f layout_call list \<times> 'f assigned \<times> 'f native_state" where
  "native_assign_fixed fixed_values_col constant st =
     (case map_of (ns_cached_fixed st) constant of
        Some x \<Rightarrow> ([], x, st)
      | None \<Rightarrow>
          let x = \<lparr>as_value = Some constant,
                   as_cell = \<lparr>cell_region = ns_regions st, cell_offset = 0, cell_column = fixed_values_col\<rparr>\<rparr>
          in ([Assign_Region [Assign_Fixed fixed_values_col 0 (Some (Trivial constant))]], x,
              \<lparr>ns_regions = ns_regions st + 1, ns_cached_fixed = (constant, x) # ns_cached_fixed st\<rparr>))"

section \<open>Parsing\<close>

record 'f parse_state =
  ps_state :: "'f assigned"
  ps_markers :: "'f assigned list"
  ps_offset :: nat

definition apply_one_transition ::
    "('i, 'f) scanner_config \<Rightarrow> 'f native_automaton \<Rightarrow> bool \<Rightarrow> nat \<Rightarrow> 'f assigned \<Rightarrow> 'f parse_state
     \<Rightarrow> 'f region_call list \<times> 'f parse_state option" where
  "apply_one_transition cfg a ev i letter st =
     (let offset = ps_offset st;
          calls = Enable_Selector (q_automaton cfg) offset # snd (copy_advice ev i letter (letter_col cfg) offset);
          target_opt_value = (case (as_value (ps_state st), as_value letter) of
              (Some state, Some l) \<Rightarrow> Some (map_of (na_transitions a) (state, l))
            | _ \<Rightarrow> None)
      in if target_opt_value = Some None then (calls @ [Fail Synthesis], None)
         else
           let target_value = map_option the target_opt_value;
               (output, output_call) = assign_advice ev i (output_col cfg) offset (map_option snd target_value);
               (state, state_call) = assign_advice ev i (state_col cfg) (offset + 1) (map_option fst target_value)
           in (calls @ [output_call, state_call],
               Some \<lparr>ps_state = state, ps_markers = ps_markers st @ [output], ps_offset = offset + 1\<rparr>))"

fun apply_transitions ::
    "('i, 'f) scanner_config \<Rightarrow> 'f native_automaton \<Rightarrow> bool \<Rightarrow> nat \<Rightarrow> 'f assigned list \<Rightarrow> 'f parse_state
     \<Rightarrow> 'f region_call list \<times> 'f parse_state option" where
  "apply_transitions cfg a ev i [] st = ([], Some st)"
| "apply_transitions cfg a ev i (letter # letters) st =
     (case apply_one_transition cfg a ev i letter st of
        (calls, None) \<Rightarrow> (calls, None)
      | (calls, Some st) \<Rightarrow>
          (case apply_transitions cfg a ev i letters st of (rest, r) \<Rightarrow> (calls @ rest, r)))"

definition assert_final_state ::
    "('i, 'f) scanner_config \<Rightarrow> bool \<Rightarrow> nat \<Rightarrow> 'f assigned \<Rightarrow> 'f assigned \<Rightarrow> nat \<Rightarrow> 'f region_call list" where
  "assert_final_state cfg ev i invalid_letter invalid_state offset =
     Enable_Selector (q_automaton cfg) offset #
     snd (copy_advice ev i invalid_letter (letter_col cfg) offset) @
     snd (copy_advice ev i invalid_state (output_col cfg) offset) @
     snd (copy_advice ev i invalid_state (state_col cfg) (offset + 1))"

definition parse_region ::
    "('i, 'f) scanner_config \<Rightarrow> 'f native_automaton \<Rightarrow> bool \<Rightarrow> nat \<Rightarrow> 'f assigned \<Rightarrow> 'f assigned \<Rightarrow> 'f assigned
     \<Rightarrow> 'f assigned list \<Rightarrow> 'f region_call list \<times> 'f assigned list option" where
  "parse_region cfg a ev i init_state invalid_letter invalid_state input =
     (case copy_advice ev i init_state (state_col cfg) 0 of (state, init_calls) \<Rightarrow>
        case apply_transitions cfg a ev i input \<lparr>ps_state = state, ps_markers = [], ps_offset = 0\<rparr> of
          (calls, None) \<Rightarrow> (init_calls @ calls, None)
        | (calls, Some st) \<Rightarrow>
            (init_calls @ calls @ assert_final_state cfg ev i invalid_letter invalid_state (ps_offset st),
             Some (ps_markers st)))"

definition parse ::
    "('i, 'f::field) scanner_config \<Rightarrow> column \<Rightarrow> bool \<Rightarrow> 'i \<Rightarrow> 'f assigned list \<Rightarrow> 'f native_state
     \<Rightarrow> ('f layout_call list \<times> 'f assigned list option \<times> 'f native_state) option" where
  "parse cfg fixed_values_col ev automaton_index input st =
     do { a \<leftarrow> map_of (automata cfg) automaton_index;
          let (calls1, init_state, st) = native_assign_fixed fixed_values_col (na_initial_state a) st;
          let (calls2, invalid_letter, st) = native_assign_fixed fixed_values_col (of_nat ALPHABET_MAX_SIZE) st;
          let (calls3, invalid_state, st) = native_assign_fixed fixed_values_col 0 st;
          let (calls, markers) =
            parse_region cfg a ev (ns_regions st) init_state invalid_letter invalid_state input;
          Some (calls1 @ calls2 @ calls3 @ [Assign_Region calls], markers, st\<lparr>ns_regions := ns_regions st + 1\<rparr>) }"

end
