(* ===== verification/Table_Correct.thy ===== *)
theory Table_Correct
  imports Layouter_Correct
begin

text \<open>
  What \<open>assign_table\<close> leaves in the fixed columns (\<open>circuit/table_layouter.rs\<close> and the
  \<open>assign_table\<close> of both floor planners): the columns of a table have one height, hold the assigned
  values below it and the value of the first row above it.
\<close>

section \<open>The cells written by a table\<close>

definition written_cell :: "'f table_call list \<Rightarrow> nat \<Rightarrow> nat \<Rightarrow> 'f rational option option" where
  "written_cell calls c r = map_of (rev (map (\<lambda>(c, off, to). ((c, off), to)) calls)) (c, r)"

lemma written_cell_Nil [simp]: "written_cell [] c r = None"
  by (simp add: written_cell_def)

lemma written_cell_snoc [simp]:
  "written_cell (calls @ [(d, off, to)]) c r = (if c = d \<and> r = off then Some to else written_cell calls c r)"
  by (auto simp: written_cell_def)

lemma written_cell_mem: "written_cell calls c r = Some to \<Longrightarrow> (c, r, to) \<in> set calls"
  by (auto simp: written_cell_def dest!: map_of_SomeD)

lemma written_cell_ex: "(c, r, to) \<in> set calls \<Longrightarrow> written_cell calls c r \<noteq> None"
  unfolding written_cell_def map_of_eq_None_iff by force

lemma map_of_table_update: "map_of (table_update c e da) d = (if d = c then Some e else map_of da d)"
  by (induction c e da rule: table_update.induct) auto

lemma distinct_table_update: "distinct (map fst da) \<Longrightarrow> distinct (map fst (table_update c e da))"
proof (induction c e da rule: table_update.induct)
  case (2 c e d x da)
  have "fst ` set (table_update c e da) = insert c (fst ` set da)" by (rule fst_table_update)
  with 2 show ?case by auto
qed simp

lemma table_entry_update: "table_entry (table_update c e da) d = (if d = c then e else table_entry da d)"
  by (simp add: table_entry_def map_of_table_update)

lemma mark_assigned_nth:
  "r < length (mark_assigned xs off) \<and> mark_assigned xs off ! r \<longleftrightarrow> r = off \<or> (r < length xs \<and> xs ! r)"
  by (auto simp: mark_assigned_def nth_list_update nth_append not_le nth_Cons split: nat.splits)

section \<open>The first pass\<close>

definition table_state ::
    "'f key_assembly \<Rightarrow> 'f table_call list \<Rightarrow> 'f key_assembly \<Rightarrow> 'f default_and_assigned \<Rightarrow> bool" where
  "table_state a calls b da \<longleftrightarrow>
     ka_usable_rows b = ka_usable_rows a \<and>
     (\<forall>c r. get2 (ka_fixed b) (c, r) = (case written_cell calls c r of Some to \<Rightarrow> to | None \<Rightarrow> get2 (ka_fixed a) (c, r))) \<and>
     (\<forall>(c, r, to)\<in>set calls. to \<noteq> None \<and> r < ka_usable_rows a) \<and>
     distinct (map fst da) \<and> fst ` set da = fst ` set calls \<and>
     (\<forall>c. fst (table_entry da c) = written_cell calls c 0) \<and>
     (\<forall>c r. r < length (snd (table_entry da c)) \<and> snd (table_entry da c) ! r \<longleftrightarrow> written_cell calls c r \<noteq> None)"

lemma table_state_Nil: "table_state a [] a []"
  by (simp add: table_state_def table_entry_def)

lemma table_state_snoc:
  assumes st: "table_state a calls b da" and step: "table_assign_cell used (b, da) call = Ok (b', da')"
  shows "table_state a (calls @ [call]) b' da' \<and> fst call \<notin> set used"
proof -
  obtain c off to where call: "call = (c, off, to)" by (cases call)
  obtain d xs where e: "table_entry da c = (d, xs)" by fastforce
  from step have u: "c \<notin> set used" and f: "ka_assign_fixed b (Column c Any_Fixed) off to = Ok b'"
    and ov: "\<not> (off = 0 \<and> d \<noteq> None)"
    and da': "da' = table_update c (if off = 0 then Some to else d, mark_assigned xs off) da"
    by (auto simp: table_assign_cell_def call e outcome_simps split: if_splits)
  from f have off: "off < ka_usable_rows b" and to: "to \<noteq> None" and b': "ka_usable_rows b' = ka_usable_rows b"
    and g: "get2 (ka_fixed b') (k, r) = (if k = c \<and> r = off then to else get2 (ka_fixed b) (k, r))" for k r
    by (auto simp: ka_assign_fixed_def outcome_simps get2_set2 split: if_splits option.splits)
  have d: "fst (table_entry da' k) = written_cell (calls @ [call]) k 0" for k
    using st by (auto simp: da' table_entry_update call table_state_def e dest!: spec [where x = c])
  have "\<forall>k. fst (table_entry da k) = written_cell calls k 0" using st by (simp add: table_state_def)
  have m: "r < length (snd (table_entry da' k)) \<and> snd (table_entry da' k) ! r \<longleftrightarrow> written_cell (calls @ [call]) k r \<noteq> None" for k r
  proof (cases "k = c")
    case True
    have "\<forall>c r. r < length (snd (table_entry da c)) \<and> snd (table_entry da c) ! r \<longleftrightarrow> written_cell calls c r \<noteq> None"
      using st unfolding table_state_def by (elim conjE) assumption
    from this [rule_format, of r c] have "r < length xs \<and> xs ! r \<longleftrightarrow> written_cell calls c r \<noteq> None" by (simp only: e snd_conv)
    with True show ?thesis by (simp add: da' table_entry_update call mark_assigned_nth)
  next
    case False
    then show ?thesis using st by (simp add: da' table_entry_update call table_state_def)
  qed
  have k: "distinct (map fst da')" "fst ` set da' = fst ` set (calls @ [call])"
    using st by (auto simp: da' distinct_table_update fst_table_update call table_state_def)
  show ?thesis
    unfolding table_state_def
    using st u off to b' k d m by (auto simp: g call table_state_def)
qed

lemma table_first_pass:
  assumes "fold_outcome (table_assign_cell used) calls (a, []) = Ok (b, da)"
  shows "table_state a calls b da \<and> fst ` set calls \<inter> set used = {}"
  using assms
proof (induction calls arbitrary: b da rule: rev_induct)
  case Nil
  then show ?case by (simp add: table_state_Nil)
next
  case (snoc call calls)
  then obtain b1 da1 where 1: "fold_outcome (table_assign_cell used) calls (a, []) = Ok (b1, da1)"
    and 2: "table_assign_cell used (b1, da1) call = Ok (b, da)" by (auto simp: outcome_simps)
  from snoc.IH [OF 1] table_state_snoc [OF _ 2] show ?case by auto
qed

text \<open>Only the first row of a column is protected against a second assignment.\<close>

lemma table_first_row_once:
  assumes "fold_outcome (table_assign_cell used) calls (a, []) = Ok (b, da)"
  shows "distinct (map fst (filter (\<lambda>(c, r, to). r = 0) calls))"
  using assms
proof (induction calls arbitrary: b da rule: rev_induct)
  case (snoc call calls)
  obtain c off to where call: "call = (c, off, to)" by (cases call)
  from snoc.prems obtain b1 da1 where 1: "fold_outcome (table_assign_cell used) calls (a, []) = Ok (b1, da1)"
    and 2: "table_assign_cell used (b1, da1) call = Ok (b, da)" by (auto simp: outcome_simps)
  have "c \<notin> fst ` set (filter (\<lambda>(c, r, to). r = 0) calls)" if "off = 0"
  proof -
    have "fst (table_entry da1 c) = None"
      using 2 that by (auto simp: table_assign_cell_def call outcome_simps split: if_splits prod.splits)
    moreover have "fst (table_entry da1 c) = written_cell calls c 0" using table_first_pass [OF 1] by (simp add: table_state_def)
    ultimately show ?thesis using written_cell_ex [of c 0 _ calls] by fastforce
  qed
  with snoc.IH [OF 1] show ?case by (auto simp: call)
qed simp

section \<open>The height of the table\<close>

lemma common_length_all:
  "\<lbrakk>fold_outcome common_length es (k, n) = Ok (k', n'); \<forall>e\<in>set es. 0 < snd e\<rbrakk>
    \<Longrightarrow> (\<forall>e\<in>set es. snd e = n') \<and> (0 < n \<longrightarrow> n' = n)"
proof (induction es arbitrary: k n)
  case (Cons e es)
  from Cons.prems obtain acc where acc: "common_length (k, n) e = Ok acc" "fold_outcome common_length es acc = Ok (k', n')"
    by (auto simp: outcome_simps)
  then have "acc = (Some (fst e), snd e)" "n = 0 \<or> n = snd e"
    by (auto simp: common_length_def split: if_splits option.splits)
  with Cons.IH [of "Some (fst e)" "snd e"] acc(2) Cons.prems(2) show ?case by auto
qed simp

lemma column_length_Ok:
  "column_length (c, d, xs) = Ok e \<longleftrightarrow> d \<noteq> None \<and> xs \<noteq> [] \<and> list_all id xs \<and> e = (c, length xs)"
  by (auto simp: column_length_def)

lemma table_height:
  assumes "compute_table_lengths da = Ok n"
  shows "\<forall>(c, d, xs)\<in>set da. d \<noteq> None \<and> xs \<noteq> [] \<and> list_all id xs \<and> length xs = n"
proof -
  obtain es acc where es: "list_all2 (\<lambda>x y. column_length x = (Ok y :: (synth_error, _) outcome)) da es"
    and acc: "fold_outcome common_length es (None, 0) = (Ok acc :: (synth_error, _) outcome)" "snd acc = n"
    using assms by (auto simp: compute_table_lengths_def outcome_simps map_outcome_list_Ok_iff)
  have pos: "\<forall>e\<in>set es. 0 < snd e"
  proof
    fix e assume "e \<in> set es"
    then obtain i where "i < length es" "es ! i = e" by (auto simp: in_set_conv_nth)
    with es have "column_length (da ! i) = (Ok e :: (synth_error, _) outcome)" by (auto simp: list_all2_conv_all_nth)
    then show "0 < snd e" by (cases "da ! i") (auto simp: column_length_Ok)
  qed
  have eq: "\<forall>e\<in>set es. snd e = n"
    using common_length_all [of es None 0 "fst acc" "snd acc"] acc pos by (cases acc) simp
  show ?thesis
  proof (clarify)
    fix c d xs assume "(c, d, xs) \<in> set da"
    then obtain i where i: "i < length da" "da ! i = (c, d, xs)" by (auto simp: in_set_conv_nth)
    with es have "column_length (c, d, xs) = (Ok (es ! i) :: (synth_error, _) outcome)" "es ! i \<in> set es"
      by (auto simp: list_all2_conv_all_nth)
    with eq show "d \<noteq> None \<and> xs \<noteq> [] \<and> list_all id xs \<and> length xs = n"
      by (auto simp: column_length_Ok)
  qed
qed

section \<open>Filling the unused rows\<close>

lemma set2_fold:
  "fold_outcome (\<lambda>fixed row. of_option (set2 fixed (c, row) x)) rows fixed = (Ok fixed' :: (synth_error, _) outcome) \<Longrightarrow>
    get2 fixed' (d, r) = (if d = c \<and> r \<in> set rows then Some x else get2 fixed (d, r))"
  by (induction rows arbitrary: fixed) (auto simp: outcome_simps get2_set2)

lemma ka_fill_from_row_Ok:
  assumes "ka_fill_from_row a (Column c Any_Fixed) from to = Ok a'"
  shows "to \<noteq> None" "from < ka_usable_rows a" "ka_usable_rows a' = ka_usable_rows a"
    "get2 (ka_fixed a') (d, r) = (if d = c \<and> from \<le> r \<and> r < ka_usable_rows a then to else get2 (ka_fixed a) (d, r))"
proof -
  obtain x fixed where x: "from < ka_usable_rows a" "to = Some x" "a' = a\<lparr>ka_fixed := fixed\<rparr>"
    "fold_outcome (\<lambda>fixed row. of_option (set2 fixed (c, row) x)) [from..<ka_usable_rows a] (ka_fixed a) = (Ok fixed :: (synth_error, _) outcome)"
    using assms by (auto simp: ka_fill_from_row_def outcome_simps split: if_splits)
  then show "to \<noteq> None" "from < ka_usable_rows a" "ka_usable_rows a' = ka_usable_rows a" by simp_all
  show "get2 (ka_fixed a') (d, r) = (if d = c \<and> from \<le> r \<and> r < ka_usable_rows a then to else get2 (ka_fixed a) (d, r))"
    using set2_fold [OF x(4), of d r] x(2,3) by auto
qed

lemma fill_columns:
  "\<lbrakk>fold_outcome (fill_column n) da b = Ok a'; distinct (map fst da)\<rbrakk> \<Longrightarrow>
    ka_usable_rows a' = ka_usable_rows b \<and> (da \<noteq> [] \<longrightarrow> n < ka_usable_rows b) \<and>
    (\<forall>c r. get2 (ka_fixed a') (c, r) =
       (if c \<in> fst ` set da \<and> n \<le> r \<and> r < ka_usable_rows b then the (fst (table_entry da c)) else get2 (ka_fixed b) (c, r)))"
proof (induction da arbitrary: b)
  case (Cons e da)
  obtain c d xs where e: "e = (c, d, xs)" by (cases e)
  from Cons.prems obtain b1 where 1: "fill_column n b e = Ok b1" and r: "fold_outcome (fill_column n) da b1 = Ok a'"
    by (auto simp: outcome_simps)
  from 1 obtain to where d: "d = Some to" and f: "ka_fill_from_row b (Column c Any_Fixed) n to = Ok b1"
    by (auto simp: e fill_column_def outcome_simps)
  note f = ka_fill_from_row_Ok [OF f]
  from Cons.IH [OF r] Cons.prems(2) f(2,3) have ih: "ka_usable_rows a' = ka_usable_rows b" "n < ka_usable_rows b"
    "\<forall>k r. get2 (ka_fixed a') (k, r) = (if k \<in> fst ` set da \<and> n \<le> r \<and> r < ka_usable_rows b
       then the (fst (table_entry da k)) else get2 (ka_fixed b1) (k, r))" by simp_all
  have "table_entry (e # da) k = (if k = c then (d, xs) else table_entry da k)" for k by (simp add: table_entry_def e)
  moreover have "c \<notin> fst ` set da" using Cons.prems(2) by (simp add: e)
  ultimately show ?case using ih f(4) by (auto simp: e d)
qed (auto simp: table_entry_def)

lemma assign_table_height:
  assumes "assign_table (a, used) calls = Ok (a', used')"
  obtains height where "\<forall>c\<in>fst ` set calls. c \<notin> set used \<and> (\<forall>r. written_cell calls c r \<noteq> None \<longleftrightarrow> r < height) \<and>
        (\<forall>r<ka_usable_rows a. get2 (ka_fixed a') (c, r) = the (written_cell calls c (if r < height then r else 0)))"
    and "calls \<noteq> [] \<longrightarrow> 0 < height \<and> height < ka_usable_rows a"
    and "\<forall>c r. c \<notin> fst ` set calls \<longrightarrow> get2 (ka_fixed a') (c, r) = get2 (ka_fixed a) (c, r)"
    and "set used' = set used \<union> fst ` set calls" and "ka_usable_rows a' = ka_usable_rows a"
    and "distinct (map fst (filter (\<lambda>(c, r, to). r = 0) calls))"
proof -
  obtain b da n where 1: "fold_outcome (table_assign_cell used) calls (a, []) = Ok (b, da)"
    and 2: "compute_table_lengths da = Ok n" and 3: "fold_outcome (fill_column n) da b = Ok a'"
    and u: "used' = used @ map fst da"
    using assms by (auto simp: assign_table_def outcome_simps)
  from table_first_pass [OF 1] have st: "table_state a calls b da" and un: "fst ` set calls \<inter> set used = {}" by simp_all
  have keys: "distinct (map fst da)" "fst ` set da = fst ` set calls" and ub: "ka_usable_rows b = ka_usable_rows a"
    using st by (simp_all add: table_state_def)
  note fill = fill_columns [OF 3 keys(1)]
  have w: "written_cell calls c r \<noteq> None \<longleftrightarrow> r < n" if "c \<in> fst ` set calls" for c r
  proof -
    from that keys(2) obtain d xs where m: "(c, d, xs) \<in> set da" by (metis (no_types, lifting) imageE prod.collapse)
    with keys(1) have e: "table_entry da c = (d, xs)" by (simp add: table_entry_def map_of_is_SomeI)
    from table_height [OF 2] m have xs: "list_all id xs" "length xs = n" by auto
    have "r < length (snd (table_entry da c)) \<and> snd (table_entry da c) ! r \<longleftrightarrow> written_cell calls c r \<noteq> None"
      using st by (simp add: table_state_def)
    with e xs show ?thesis by (auto simp: list_all_length)
  qed
  have pos: "0 < n \<and> n < ka_usable_rows a" if "calls \<noteq> []"
  proof -
    from that keys(2) have "da \<noteq> []" by auto
    with fill ub have "n < ka_usable_rows a" by simp
    moreover from \<open>da \<noteq> []\<close> obtain e where "e \<in> set da" by (cases da) auto
    with table_height [OF 2] have "0 < n" by (cases e) auto
    ultimately show ?thesis by simp
  qed
  have g: "get2 (ka_fixed a') (c, r) = the (written_cell calls c (if r < n then r else 0))"
    if c: "c \<in> fst ` set calls" and r: "r < ka_usable_rows a" for c r
  proof (cases "r < n")
    case True
    then obtain to where "written_cell calls c r = Some to" using w [OF c] by blast
    with True st fill ub show ?thesis by (simp add: table_state_def)
  next
    case False
    then show ?thesis using st fill ub keys(2) c r by (simp add: table_state_def)
  qed
  have o: "get2 (ka_fixed a') (c, r) = get2 (ka_fixed a) (c, r)" if "c \<notin> fst ` set calls" for c r
  proof -
    have "written_cell calls c r = None" using that by (cases "written_cell calls c r") (force dest: written_cell_mem)+
    with st fill keys(2) that show ?thesis by (simp add: table_state_def)
  qed
  show thesis using w pos g o un u fill ub keys(2) table_first_row_once [OF 1] by (intro that [of n]) auto
qed

text \<open>
  C35: What a table leaves in the fixed columns. When \<open>assign_table\<close> succeeds, its columns were not used
  by an earlier table and become used, all of them were assigned at exactly the rows below one common
  height, which is positive and leaves a usable row free; the first row of a column was assigned exactly
  once, and the rows above the height repeat it. A cell below the height holds its value; the code
  refuses a second assignment in the first row only, so another row that is assigned again holds the
  value assigned last, although the comments of \<open>assign_cell\<close> announce an error. No other column changes.
\<close>

theorem assign_table_correct:
  assumes "assign_table (a, used) calls = Ok (a', used')"
  shows "\<exists>height. (\<forall>c\<in>fst ` set calls. c \<notin> set used \<and>
        (\<forall>r. written_cell calls c r \<noteq> None \<longleftrightarrow> r < height) \<and>
        (\<forall>r<ka_usable_rows a. get2 (ka_fixed a') (c, r) = the (written_cell calls c (if r < height then r else 0)))) \<and>
     (calls \<noteq> [] \<longrightarrow> 0 < height \<and> height < ka_usable_rows a) \<and>
     (\<forall>c r. c \<notin> fst ` set calls \<longrightarrow> get2 (ka_fixed a') (c, r) = get2 (ka_fixed a) (c, r)) \<and>
     set used' = set used \<union> fst ` set calls \<and> ka_usable_rows a' = ka_usable_rows a \<and>
     distinct (map fst (filter (\<lambda>(c, r, to). r = 0) calls))"
  by (rule assign_table_height [OF assms], rule exI, intro conjI; assumption)

text \<open>Two columns of height 2; the second row of the first column is assigned twice.\<close>

definition sample_table :: "rat table_call list" where
  "sample_table = [(0, 0, Some (Trivial 7)), (1, 0, Some (Trivial 8)), (0, 1, Some (Trivial 5)), (0, 1, Some (Trivial 9)), (1, 1, Some (Trivial 4))]"

lemma sample_table_assigns: "is_ok (assign_table (sample_assembly, []) sample_table)"
  by code_simp

theorem assign_table_correct_witness:
  "\<exists>a' used. assign_table (sample_assembly, []) sample_table = Ok (a', used) \<and>
     get2 (ka_fixed a') (0, 1) = Some (Trivial 9) \<and> get2 (ka_fixed a') (1, 9) = Some (Trivial 8)"
proof -
  obtain a' used where a': "assign_table (sample_assembly, []) sample_table = Ok (a', used)"
    using sample_table_assigns by (auto simp: is_ok_iff)
  have w: "written_cell sample_table 0 r = (if r = 0 then Some (Some (Trivial 7)) else if r = 1 then Some (Some (Trivial 9)) else None)"
    "written_cell sample_table 1 r = (if r = 0 then Some (Some (Trivial 8)) else if r = 1 then Some (Some (Trivial 4)) else None)" for r
    by (simp_all add: written_cell_def sample_table_def)
  have c: "0 \<in> fst ` set sample_table" "1 \<in> fst ` set sample_table" "ka_usable_rows sample_assembly = 10"
    by (simp_all add: sample_table_def sample_assembly_def)
  from assign_table_correct [OF a'] obtain height where
    h: "\<forall>c\<in>fst ` set sample_table. c \<notin> set [] \<and> (\<forall>r. written_cell sample_table c r \<noteq> None \<longleftrightarrow> r < height) \<and>
        (\<forall>r<10. get2 (ka_fixed a') (c, r) = the (written_cell sample_table c (if r < height then r else 0)))"
    unfolding c(3) by (elim exE conjE) (rule that; assumption)
  note h0 = bspec [OF h c(1), THEN conjunct2] and h1 = bspec [OF h c(2), THEN conjunct2]
  have "1 < height" using h0 [THEN conjunct1, rule_format, of 1] by (simp add: w)
  with h0 [THEN conjunct2, rule_format, of 1] have "get2 (ka_fixed a') (0, 1) = Some (Trivial 9)" by (simp add: w)
  moreover have "\<not> 9 < height" using h1 [THEN conjunct1, rule_format, of 9] by (simp add: w del: One_nat_def)
  with h1 [THEN conjunct2, rule_format, of 9] have "get2 (ka_fixed a') (1, 9) = Some (Trivial 8)" by (simp add: w del: One_nat_def)
  ultimately have "get2 (ka_fixed a') (0, 1) = Some (Trivial 9) \<and> get2 (ka_fixed a') (1, 9) = Some (Trivial 8)" by blast
  with a' show ?thesis by blast
qed

end
