(* ===== verification/Scanner_Library.thy ===== *)
theory Scanner_Library
  imports Scanner_Chip Table_Correct Automaton_Run
begin

text \<open>
  The lookup table of the scanner chip: the library of automata over the field, the rows of its table
  and what the configured lookup demands. The states of different automata and the dummy rows do not
  collide when the field embeds all states and the bytes, so that a row that reads a byte from a state
  of an automaton is one of its transitions.
\<close>

section \<open>Well-formed automata\<close>

definition wf_automaton :: "automaton \<Rightarrow> bool" where
  "wf_automaton a \<longleftrightarrow> au_initial_state a < au_nb_states a \<and> (\<forall>f\<in>set (au_final_states a). f < au_nb_states a) \<and>
     distinct (map fst (au_transitions a)) \<and>
     (\<forall>((p, c), (q, m))\<in>set (au_transitions a). p < au_nb_states a \<and> q < au_nb_states a)"

lemma normalise_wf:
  assumes wf: "wf_raw n a" and mc: "markers_cover a" and A: "normalise a = Some A"
  shows "wf_automaton A"
proof -
  let ?m = "table_alphabet_size (ra_transitions a)"
  note wf' = table_alphabet [OF wf]
  have "markers_cover a \<or> ra_deterministic a" using mc by simp
  from determinise_spec [OF wf'(1) this wf'(2)] mc obtain b where
    b: "determinise False ?m a = Some b" "wf_raw ?m b" "ra_deterministic b" "markers_cover b" by blast
  obtain c where c: "minimise ?m b = Some c" "wf_raw ?m c" by (rule minimise_spec [OF b(2,3,4)]) blast
  let ?es = "table_edges (ra_transitions c)"
  from A b(1) c(1) have k: "distinct (map byte_key ?es)"
    and A': "A = \<lparr>au_nb_states = length (ra_transitions c), au_initial_state = ra_initial_state c,
      au_final_states = ra_final_states c, au_transitions = map byte_entry ?es\<rparr>"
    by (auto simp: normalise_def Let_def fold_insert_transition split: if_splits)
  have "map fst (map byte_entry ?es) = map byte_key ?es" by (simp add: byte_entry_def)
  then have d: "distinct (map fst (au_transitions A))" unfolding A' automaton.simps using k by (simp only:)
  have t: "p < length (ra_transitions c) \<and> q < length (ra_transitions c)" if "((p, ch), (q, m)) \<in> byte_entry ` set ?es" for p ch q m
  proof -
    from that have "(p, \<lparr>l_char = ch, l_marker = m\<rparr>, q) \<in> edges (ra_transitions c)"
      by (auto simp: set_table_edges byte_entry_def byte_key_def)
    with wf_rawD(4) [OF c(2)] show ?thesis by (auto simp: wf_table_def edges_def)
  qed
  have "au_initial_state A < au_nb_states A" "\<forall>f\<in>set (au_final_states A). f < au_nb_states A"
    using wf_rawD(1,2) [OF c(2)] by (auto simp: A')
  moreover have "\<forall>((p, c), (q, m))\<in>set (au_transitions A). p < au_nb_states A \<and> q < au_nb_states A"
  proof clarify
    fix p ch q m assume "((p, ch), (q, m)) \<in> set (au_transitions A)"
    then have "((p, ch), (q, m)) \<in> byte_entry ` set ?es" by (simp add: A')
    from t [OF this] show "p < au_nb_states A \<and> q < au_nb_states A" by (simp add: A')
  qed
  ultimately show ?thesis using d by (simp only: wf_automaton_def simp_thms)
qed

section \<open>The library over the field\<close>

text \<open>The automata with the offsets of their states, and the number of states used by the library.\<close>

fun located :: "nat \<Rightarrow> ('i \<times> automaton) list \<Rightarrow> ('i \<times> nat \<times> automaton) list" where
  "located k [] = []"
| "located k ((name, a) # lib) = (name, k, a) # located (k + au_nb_states a) lib"

definition library_states :: "('i \<times> automaton) list \<Rightarrow> nat" where
  "library_states lib = 1 + sum_list (map (\<lambda>(_, a). au_nb_states a) lib)"

lemma from_collection_located:
  "from_collection_loop k lib = map (\<lambda>(name, k, a). (name, native_automaton_of (offset_states k a))) (located k lib)"
  by (induction k lib rule: located.induct) auto

lemma located_bound:
  "(name, o', a) \<in> set (located k lib) \<Longrightarrow> k \<le> o' \<and> o' + au_nb_states a \<le> k + sum_list (map (\<lambda>(_, a). au_nb_states a) lib)"
  by (induction k lib rule: located.induct) fastforce+

lemma located_disjoint:
  "\<lbrakk>(name, k1, a) \<in> set (located k lib); (name', k2, a') \<in> set (located k lib); k1 + p = k2 + p';
    p < au_nb_states a; p' < au_nb_states a'\<rbrakk> \<Longrightarrow> name = name' \<and> k1 = k2 \<and> a = a' \<and> p = p'"
proof (induction k lib rule: located.induct)
  case (2 k name0 a0 lib)
  have b: "(n, o', x) \<in> set (located (k + au_nb_states a0) lib) \<Longrightarrow> k + au_nb_states a0 \<le> o'" for n o' x
    using located_bound by fast
  show ?case using 2 b by (auto dest: b)
qed simp

lemma map_of_located: "map_of lib name = Some a \<Longrightarrow> \<exists>o'. map_of (located k lib) name = Some (o', a)"
  by (induction k lib rule: located.induct) auto

lemma located_lib: "(name, o', a) \<in> set (located k lib) \<Longrightarrow> (name, a) \<in> set lib"
  by (induction k lib rule: located.induct) auto

lemma update_fresh: "k \<notin> fst ` set m \<Longrightarrow> AList.update k v m = m @ [(k, v)]"
  by (induction m) auto

lemma fold_update_fresh:
  "distinct (map f xs) \<Longrightarrow> fst ` set m \<inter> f ` set xs = {} \<Longrightarrow>
    fold (\<lambda>x. AList.update (f x) (g x)) xs m = m @ map (\<lambda>x. (f x, g x)) xs"
proof (induction xs arbitrary: m)
  case (Cons x xs)
  then have "AList.update (f x) (g x) m = m @ [(f x, g x)]" by (intro update_fresh) auto
  with Cons.IH [of "m @ [(f x, g x)]"] Cons.prems show ?case by auto
qed simp

text \<open>The field is large enough for the bytes, the letter 256 and the states of the library.\<close>

definition embeds :: "(nat \<Rightarrow> 'f::field) \<Rightarrow> nat \<Rightarrow> bool" where
  "embeds emb N \<longleftrightarrow> emb = of_nat \<and> inj_on emb {..<max 257 N}"

lemma embeds_inj: "\<lbrakk>embeds emb N; emb x = emb y; x < max 257 N; y < max 257 N\<rbrakk> \<Longrightarrow> x = y"
  unfolding embeds_def by (elim conjE, erule inj_onD) simp_all

lemma emb_eq: "\<lbrakk>embeds emb N; x < N; y < N\<rbrakk> \<Longrightarrow> emb x = emb y \<longleftrightarrow> x = y"
  by (auto intro: embeds_inj)

lemma byte_bound: "unat (b :: 8 word) < 256"
  using unsigned_less [of b] by simp

lemma emb_byte: "embeds emb N \<Longrightarrow> emb (unat (b :: 8 word)) = emb (unat c) \<longleftrightarrow> b = c"
  using byte_bound [of b] byte_bound [of c] embeds_inj [of emb N "unat b" "unat c"]
  by (auto simp: less_max_iff_disj intro: unsigned_word_eqI)

lemma emb_byte_256: "embeds emb N \<Longrightarrow> emb (unat (b :: 8 word)) \<noteq> emb 256"
  using byte_bound [of b] embeds_inj [of emb N "unat b" 256] by (auto simp: less_max_iff_disj)

lemma emb_0: "embeds emb N \<Longrightarrow> emb 0 = 0"
  by (simp add: embeds_def)

lemma emb_nonzero: "\<lbrakk>embeds emb N; 0 < x; x < N\<rbrakk> \<Longrightarrow> emb x \<noteq> 0"
  using emb_eq [of emb N x 0] emb_0 [of emb N] by auto

lemma native_transitions:
  assumes e: "embeds emb N" and wf: "wf_automaton a" and bound: "k + au_nb_states a \<le> N"
  shows "na_transitions (native_automaton_of (offset_states k a)) =
    map (\<lambda>((p, c), (q, m)). ((emb (p + k), emb (unat c)), (emb (q + k), emb m))) (au_transitions a)"
proof -
  let ?f = "\<lambda>((p, c), (q, m)). (emb (p + k), emb (unat c))" and ?g = "\<lambda>((p, c), (q, m)). (emb (q + k), emb m)"
  have inj_f: "inj_on ?f (set (au_transitions a))"
  proof (rule inj_onI)
    fix x y assume xy: "x \<in> set (au_transitions a)" "y \<in> set (au_transitions a)" "?f x = ?f y"
    obtain p c q m p' c' q' m' where xy_eq: "x = ((p, c), (q, m))" "y = ((p', c'), (q', m'))" by (metis prod.collapse)
    with xy wf have "p < au_nb_states a" "p' < au_nb_states a" by (auto simp: wf_automaton_def)
    with xy(3) xy_eq bound have "fst x = fst y" by (auto simp: emb_eq [OF e] emb_byte [OF e])
    with xy(1,2) wf show "x = y" unfolding wf_automaton_def distinct_map by (auto dest: inj_onD)
  qed
  have "distinct (au_transitions a)" using wf by (simp add: wf_automaton_def distinct_map)
  with inj_f have "distinct (map ?f (au_transitions a))" by (simp add: distinct_map)
  from fold_update_fresh [OF this, of "[]" ?g]
  have "fold (\<lambda>x. AList.update (?f x) (?g x)) (au_transitions a) [] = map (\<lambda>x. (?f x, ?g x)) (au_transitions a)" by simp
  moreover have "emb = of_nat" using e by (simp add: embeds_def)
  ultimately show ?thesis
    by (simp add: native_automaton_of_def offset_states_def fold_map comp_def case_prod_unfold)
qed

lemma native_other:
  assumes "embeds emb N"
  shows "na_initial_state (native_automaton_of (offset_states k a)) = emb (au_initial_state a + k)"
    "set (na_final_states (native_automaton_of (offset_states k a))) = (\<lambda>f. emb (f + k)) ` set (au_final_states a)"
  using assms by (auto simp: native_automaton_of_def offset_states_def embeds_def)

section \<open>The rows of the table\<close>

definition library_table :: "(nat \<Rightarrow> 'f::field) \<Rightarrow> ('i \<times> automaton) list \<Rightarrow> ('f \<times> 'f \<times> 'f \<times> 'f) set" where
  "library_table emb lib =
     insert (0, 0, 0, 0) (\<Union>(name, k, a)\<in>set (located 1 lib).
       {(emb (p + k), emb (unat c), emb (q + k), emb m) |p c q m. map_of (au_transitions a) (p, c) = Some (q, m)} \<union>
       {(emb (f + k), emb 256, 0, 0) |f. f \<in> set (au_final_states a)})"

lemma in_library_table:
  "(s, l, t, out) \<in> library_table emb lib \<longleftrightarrow> (s = 0 \<and> l = 0 \<and> t = 0 \<and> out = 0) \<or>
     (\<exists>name k a p c q m. (name, k, a) \<in> set (located 1 lib) \<and> map_of (au_transitions a) (p, c) = Some (q, m) \<and>
        s = emb (p + k) \<and> l = emb (unat c) \<and> t = emb (q + k) \<and> out = emb m) \<or>
     (\<exists>name k a f. (name, k, a) \<in> set (located 1 lib) \<and> f \<in> set (au_final_states a) \<and>
        s = emb (f + k) \<and> l = emb 256 \<and> t = 0 \<and> out = 0)"
  unfolding library_table_def by (simp add: case_prod_unfold) fastforce

lemma located_in_field:
  assumes "(name, k, a) \<in> set (located 1 lib)"
  shows "0 < k" "k + au_nb_states a \<le> library_states lib"
  using located_bound [OF assms] by (simp_all add: library_states_def)

lemma automaton_entries_Some:
  fixes emb :: "nat \<Rightarrow> 'f::field"
  assumes e: "embeds emb N" and wf: "wf_automaton a" and k: "0 < k" "k + au_nb_states a \<le> N"
  shows "\<exists>es. automaton_entries (native_automaton_of (offset_states k a)) = Some es \<and>
    set es = {(emb (p + k), emb (unat c), emb (q + k), emb m) |p c q m. map_of (au_transitions a) (p, c) = Some (q, m)} \<union>
      {(emb (f + k), emb 256, 0, 0) |f. f \<in> set (au_final_states a)}"
proof -
  let ?n = "native_automaton_of (offset_states k a) :: 'f native_automaton"
  note nt = native_transitions [OF e wf k(2)]
  have d: "distinct (map fst (au_transitions a))" using wf by (simp add: wf_automaton_def)
  have mem: "((p, c), (q, m)) \<in> set (au_transitions a) \<longleftrightarrow> map_of (au_transitions a) (p, c) = Some (q, m)" for p c q m
    using map_of_eq_Some_iff [OF d, of "(p, c)" "(q, m)"] by simp
  have nz: "emb (p + k) \<noteq> 0 \<and> emb (q + k) \<noteq> 0" if "((p, c), (q, m)) \<in> set (au_transitions a)" for p c q m
  proof -
    from that wf have "p < au_nb_states a" "q < au_nb_states a" by (auto simp: wf_automaton_def)
    with k show ?thesis using emb_nonzero [OF e, of "p + k"] emb_nonzero [OF e, of "q + k"] by simp
  qed
  have "list_all (\<lambda>((s, l), (t, out)). s \<noteq> 0 \<and> t \<noteq> 0) (na_transitions ?n)"
    unfolding nt list_all_iff using nz by force
  moreover have "set (map (\<lambda>((s, l), (t, out)). (s, l, t, out)) (na_transitions ?n)) =
      {(emb (p + k), emb (unat c), emb (q + k), emb m) |p c q m. map_of (au_transitions a) (p, c) = Some (q, m)}"
    unfolding nt mem [symmetric] by force
  moreover have "of_nat ALPHABET_MAX_SIZE = emb 256" using e by (simp add: embeds_def ALPHABET_MAX_SIZE_def)
  ultimately show ?thesis by (auto simp: automaton_entries_def native_other(2) [OF e])
qed

lemma table_rows_library:
  fixes lib :: "('i \<times> automaton) list"
  assumes e: "embeds emb (library_states lib)" and wf: "\<forall>(name, a)\<in>set lib. wf_automaton a"
    and cfg: "automata cfg = from_collection lib"
  shows "\<exists>rows. table_rows cfg = Some ((0, 0, 0, 0) # rows) \<and> set ((0, 0, 0, 0) # rows) = library_table emb lib"
proof -
  let ?es = "\<lambda>(name, k, a). {(emb (p + k), emb (unat c), emb (q + k), emb m) |p c q m. map_of (au_transitions a) (p, c) = Some (q, m)} \<union>
       {(emb (f + k), emb 256, 0, 0) |f. f \<in> set (au_final_states a)}"
  have "\<exists>entries. those (map (\<lambda>(_, a). automaton_entries a) (map (\<lambda>(name, k, a). (name, native_automaton_of (offset_states k a))) xs)) = Some entries \<and>
      set (concat entries) = (\<Union>x\<in>set xs. ?es x)" if "set xs \<subseteq> set (located 1 lib)" for xs :: "('i \<times> nat \<times> automaton) list"
    using that
  proof (induction xs)
    case (Cons x xs)
    obtain name k a where x: "x = (name, k, a)" by (cases x)
    with Cons.prems have loc: "(name, k, a) \<in> set (located 1 lib)" by simp
    with located_lib [OF loc] wf have "wf_automaton a" by auto
    from automaton_entries_Some [OF e this located_in_field [OF loc]] obtain es where
      "automaton_entries (native_automaton_of (offset_states k a)) = Some es" "set es = ?es x" by (auto simp: x)
    moreover obtain entries where
      "those (map (\<lambda>(_, a). automaton_entries a) (map (\<lambda>(name, k, a). (name, native_automaton_of (offset_states k a))) xs)) = Some entries"
      "set (concat entries) = (\<Union>x\<in>set xs. ?es x)" using Cons by auto
    ultimately show ?case by (simp add: x)
  qed simp
  from this [OF subset_refl] show ?thesis
    unfolding table_rows_def cfg from_collection_def from_collection_located library_table_def by auto
qed

text \<open>A row that reads a byte from a state of an automaton is a transition of this automaton.\<close>

lemma library_step:
  assumes e: "embeds emb (library_states lib)" and wf: "\<forall>(name, a)\<in>set lib. wf_automaton a"
    and loc: "(name, k, a) \<in> set (located 1 lib)" and p: "p < au_nb_states a"
  shows "(emb (p + k), emb (unat (c :: 8 word)), t, out) \<in> library_table emb lib \<longleftrightarrow>
    (\<exists>q m. map_of (au_transitions a) (p, c) = Some (q, m) \<and> t = emb (q + k) \<and> out = emb m)"
proof
  note b = located_in_field [OF loc]
  have nz: "emb (p + k) \<noteq> 0" using emb_nonzero [OF e, of "p + k"] b p by simp
  assume "(emb (p + k), emb (unat c), t, out) \<in> library_table emb lib"
  then obtain name' k' a' p' c' q m where
    loc': "(name', k', a') \<in> set (located 1 lib)" and m: "map_of (au_transitions a') (p', c') = Some (q, m)"
    and eq: "emb (p + k) = emb (p' + k')" "emb (unat c) = emb (unat c')" "t = emb (q + k')" "out = emb m"
    using nz emb_byte_256 [OF e, of c] unfolding in_library_table by (elim disjE exE conjE) (assumption | simp | blast)+
  from located_lib [OF loc'] wf have "wf_automaton a'" by auto
  with map_of_SomeD [OF m] have p': "p' < au_nb_states a'" by (auto simp: wf_automaton_def)
  with located_in_field [OF loc'] b p eq(1) have "k + p = k' + p'" by (simp add: emb_eq [OF e])
  from located_disjoint [OF loc loc' this p p'] eq(2-) m show "\<exists>q m. map_of (au_transitions a) (p, c) = Some (q, m) \<and> t = emb (q + k) \<and> out = emb m"
    by (auto simp: emb_byte [OF e])
next
  assume "\<exists>q m. map_of (au_transitions a) (p, c) = Some (q, m) \<and> t = emb (q + k) \<and> out = emb m"
  with loc show "(emb (p + k), emb (unat c), t, out) \<in> library_table emb lib"
    unfolding in_library_table by blast
qed

lemma library_final:
  assumes e: "embeds emb (library_states lib)" and wf: "\<forall>(name, a)\<in>set lib. wf_automaton a"
    and loc: "(name, k, a) \<in> set (located 1 lib)" and p: "p < au_nb_states a"
  shows "(emb (p + k), emb 256, 0, 0) \<in> library_table emb lib \<longleftrightarrow> p \<in> set (au_final_states a)"
proof
  note b = located_in_field [OF loc]
  have nz: "emb (p + k) \<noteq> 0" using emb_nonzero [OF e, of "p + k"] b p by simp
  assume "(emb (p + k), emb 256, 0, 0) \<in> library_table emb lib"
  then obtain name' k' a' p' where
    loc': "(name', k', a') \<in> set (located 1 lib)" and f: "p' \<in> set (au_final_states a')" and eq: "emb (p + k) = emb (p' + k')"
    using nz emb_byte_256 [OF e] unfolding in_library_table by metis
  from located_lib [OF loc'] wf f have p': "p' < au_nb_states a'" by (auto simp: wf_automaton_def)
  with located_in_field [OF loc'] b p eq(1) have "k + p = k' + p'" by (simp add: emb_eq [OF e])
  from located_disjoint [OF loc loc' this p p'] f show "p \<in> set (au_final_states a)" by simp
next
  assume "p \<in> set (au_final_states a)"
  with loc show "(emb (p + k), emb 256, 0, 0) \<in> library_table emb lib"
    unfolding in_library_table by blast
qed

section \<open>The lookup\<close>

text \<open>
  The value of an expression at a row of an assignment of all columns, and what a lookup demands at a
  row on which its selector is enabled, for a table of \<open>usable\<close> rows.
\<close>

definition row_value :: "(column \<Rightarrow> nat \<Rightarrow> 'f::field) \<Rightarrow> nat \<Rightarrow> 'f expression \<Rightarrow> 'f" where
  "row_value asg row = expr_evaluate (field_closures
     \<lparr>l_selector = (\<lambda>_. 0),
      l_fixed = (\<lambda>q. asg (Column (fq_column_index q) Any_Fixed) (nat (int row + fq_rotation q))),
      l_advice = (\<lambda>q. asg (Column (aq_column_index q) (Any_Advice (aq_phase q))) (nat (int row + aq_rotation q))),
      l_instance = (\<lambda>q. asg (Column (iq_column_index q) Any_Instance) (nat (int row + iq_rotation q))),
      l_challenge = (\<lambda>_. 0)\<rparr>)"

definition lookup_at :: "'f::field batched_argument \<Rightarrow> nat \<Rightarrow> (column \<Rightarrow> nat \<Rightarrow> 'f) \<Rightarrow> nat \<Rightarrow> bool" where
  "lookup_at arg usable asg row \<longleftrightarrow> (\<forall>inputs\<in>set (ba_input_expressions arg).
     \<exists>r<usable. map (row_value asg row) inputs = map (row_value asg r) (ba_table_expressions arg))"

definition lookups_hold :: "'f::field constraint_system \<Rightarrow> nat \<Rightarrow> (column \<Rightarrow> nat \<Rightarrow> 'f) \<Rightarrow> selector \<Rightarrow> nat \<Rightarrow> bool" where
  "lookups_hold cs usable asg sel row \<longleftrightarrow>
     (\<forall>arg\<in>set (lookups cs). ba_selector arg = Selector sel \<longrightarrow> lookup_at arg usable asg row)"

abbreviation is_advice :: "column \<Rightarrow> bool" where
  "is_advice c \<equiv> c = Column (col_index c) (Any_Advice (any_phase (column_type c)))"

lemma query_advice_Some:
  assumes "query_advice cells c r = Some (cells', e)"
  shows "lookups (meta cells') = lookups (meta cells) \<and>
    (\<exists>i. e = Advice \<lparr>aq_index = Some i, aq_column_index = col_index c, aq_rotation = r, aq_phase = any_phase (column_type c)\<rparr>)"
  using assms
  by (auto simp: query_advice_def query_advice_index_def push_cell_def bind_eq_Some_conv split: option.splits if_splits)

lemma query_fixed_eq:
  assumes "query_fixed cells c r = (cells', e)"
  shows "lookups (meta cells') = lookups (meta cells) \<and>
    (\<exists>i. e = Fixed \<lparr>fq_index = Some i, fq_column_index = col_index c, fq_rotation = r\<rparr>)"
  using assms
  by (auto simp: query_fixed_def query_fixed_index_def push_cell_def Let_def split: option.splits)

lemma query_table_map_advice:
  assumes "query_table_map (([Advice q], t) # rest) cells = Some (cells', tm)" and "aq_index q = Some i"
  shows "\<exists>c1 j tm'. tm = ([Advice q], Fixed \<lparr>fq_index = Some j, fq_column_index = col_index t, fq_rotation = 0\<rparr>) # tm' \<and>
    lookups (meta c1) = lookups (meta cells) \<and> query_table_map rest c1 = Some (cells', tm')"
proof -
  obtain c1 f where f: "query_fixed cells t 0 = (c1, f)" by fastforce
  from query_fixed_eq [OF f] obtain j where "lookups (meta c1) = lookups (meta cells)"
    "f = Fixed \<lparr>fq_index = Some j, fq_column_index = col_index t, fq_rotation = 0\<rparr>" by blast
  with assms f show ?thesis by (auto simp: contains_simple_selector_def bind_eq_Some_conv)
qed

lemma scanner_configure_Some:
  assumes conf: "scanner_configure cs (c1, c2, c3) lib = Some (cs', cfg)" and adv: "is_advice c1" "is_advice c2" "is_advice c3"
  shows "\<exists>arg. lookups cs' = lookups cs @ [arg] \<and> ba_selector arg = Selector (q_automaton cfg) \<and>
     (\<forall>usable asg row. lookup_at arg usable asg row \<longleftrightarrow> (\<exists>r<usable.
        (asg (state_col cfg) row, asg (letter_col cfg) row, asg (state_col cfg) (row + 1), asg (output_col cfg) row) =
        (asg (t_source cfg) r, asg (t_letter cfg) r, asg (t_target cfg) r, asg (t_output cfg) r)))"
    and "automata cfg = from_collection lib" and "q_automaton cfg = snd (complex_selector cs)"
    and "\<exists>n. t_source cfg = Column n Any_Fixed \<and> t_letter cfg = Column (n + 1) Any_Fixed \<and>
      t_target cfg = Column (n + 2) Any_Fixed \<and> t_output cfg = Column (n + 3) Any_Fixed"
    and "state_col cfg = c1" "letter_col cfg = c2" "output_col cfg = c3"
proof -
  let ?n = "num_fixed_columns cs"
  define q where "q = snd (complex_selector cs)"
  define base where "base = (fst (complex_selector cs))\<lparr>num_fixed_columns := ?n + 4\<rparr>"
  have base: "lookups base = lookups cs" by (simp add: base_def complex_selector_def)
  from conf obtain x1 e1 x2 e2 x3 e3 x4 e4 x5 tm idx where
    e: "query_advice (virtual_cells_new base) c1 0 = Some (x1, e1)" "query_advice x1 c2 0 = Some (x2, e2)"
      "query_advice x2 c1 1 = Some (x3, e3)" "query_advice x3 c3 0 = Some (x4, e4)"
    and tm: "query_table_map [([e1], Column ?n Any_Fixed), ([e2], Column (?n + 1) Any_Fixed),
        ([e3], Column (?n + 2) Any_Fixed), ([e4], Column (?n + 3) Any_Fixed)] x4 = Some (x5, tm)"
    and push: "push_lookup (meta x5) (Some q) tm = Some (cs', idx)"
    and cfg: "cfg = \<lparr>automata = from_collection lib, q_automaton = q, state_col = c1, letter_col = c2, output_col = c3,
      t_source = Column ?n Any_Fixed, t_letter = Column (?n + 1) Any_Fixed, t_target = Column (?n + 2) Any_Fixed,
      t_output = Column (?n + 3) Any_Fixed\<rparr>"
    by (auto simp: scanner_configure_def complex_selector_def new_fixed_column_def cs_lookup_def batched_lookup_def
        bind_eq_Some_conv base_def q_def numeral_eq_Suc)
  show "automata cfg = from_collection lib" "q_automaton cfg = snd (complex_selector cs)"
    "state_col cfg = c1" "letter_col cfg = c2" "output_col cfg = c3" by (simp_all add: cfg q_def)
  show "\<exists>n. t_source cfg = Column n Any_Fixed \<and> t_letter cfg = Column (n + 1) Any_Fixed \<and>
      t_target cfg = Column (n + 2) Any_Fixed \<and> t_output cfg = Column (n + 3) Any_Fixed" by (simp add: cfg)
  let ?a = "\<lambda>i c r. \<lparr>aq_index = Some i, aq_column_index = col_index c, aq_rotation = r, aq_phase = any_phase (column_type c)\<rparr>"
  from e [THEN query_advice_Some] obtain i1 i2 i3 i4 where
    e': "e1 = Advice (?a i1 c1 0)" "e2 = Advice (?a i2 c2 0)" "e3 = Advice (?a i3 c1 1)" "e4 = Advice (?a i4 c3 0)"
    and l4: "lookups (meta x4) = lookups base" by (auto simp: virtual_cells_new_def)
  let ?f = "\<lambda>j k. Fixed \<lparr>fq_index = Some j, fq_column_index = ?n + k, fq_rotation = 0\<rparr>"
  from tm obtain j1 j2 j3 j4 where
    tm': "tm = [([e1], ?f j1 0), ([e2], ?f j2 1), ([e3], ?f j3 2), ([e4], ?f j4 3)]" and l5: "lookups (meta x5) = lookups base"
    unfolding e' by (auto dest!: query_table_map_advice simp del: query_table_map.simps(2) simp: l4)
  let ?arg = "\<lparr>ba_selector = Selector q, ba_input_expressions = [[e1, e2, e3, e4]],
    ba_table_expressions = [?f j1 0, ?f j2 1, ?f j3 2, ?f j4 3]\<rparr>"
  have cs': "lookups cs' = lookups cs @ [?arg]"
    using push by (auto simp: push_lookup_def batched_argument_new_def tm' index_opt_def bind_eq_Some_conv l5 base
        upt_conv_Cons numeral_eq_Suc)
  have val: "row_value asg row (Advice (?a i c 0)) = asg c row" "row_value asg row (Advice (?a i c 1)) = asg c (row + 1)"
    if "is_advice c" for asg :: "column \<Rightarrow> nat \<Rightarrow> 'a" and i c row
    using that by (simp_all add: row_value_def field_closures_def nat_add_distrib)
  have fval: "row_value asg row (Fixed \<lparr>fq_index = Some j, fq_column_index = k, fq_rotation = 0\<rparr>) = asg (Column k Any_Fixed) row"
    for asg :: "column \<Rightarrow> nat \<Rightarrow> 'a" and j k row
    by (simp add: row_value_def field_closures_def)
  have "lookup_at ?arg usable asg row \<longleftrightarrow> (\<exists>r<usable.
        (asg (state_col cfg) row, asg (letter_col cfg) row, asg (state_col cfg) (row + 1), asg (output_col cfg) row) =
        (asg (t_source cfg) r, asg (t_letter cfg) r, asg (t_target cfg) r, asg (t_output cfg) r))"
    for usable row and asg :: "column \<Rightarrow> nat \<Rightarrow> 'a"
    unfolding lookup_at_def e' by (simp add: val [OF adv(1)] val [OF adv(2)] val [OF adv(3)] fval cfg)
  with cs' show "\<exists>arg. lookups cs' = lookups cs @ [arg] \<and> ba_selector arg = Selector (q_automaton cfg) \<and>
     (\<forall>usable asg row. lookup_at arg usable asg row \<longleftrightarrow> (\<exists>r<usable.
        (asg (state_col cfg) row, asg (letter_col cfg) row, asg (state_col cfg) (row + 1), asg (output_col cfg) row) =
        (asg (t_source cfg) r, asg (t_letter cfg) r, asg (t_target cfg) r, asg (t_output cfg) r)))"
    by (intro exI [of _ ?arg]) (simp add: cfg)
qed

section \<open>The assigned table\<close>

text \<open>
  An assignment carries the table that a call of \<open>assign_table\<close> leaves in the fixed columns of a key
  with \<open>usable\<close> rows.
\<close>

definition carries_table :: "'f::field layout_call \<Rightarrow> nat \<Rightarrow> (column \<Rightarrow> nat \<Rightarrow> 'f) \<Rightarrow> bool" where
  "carries_table call usable asg \<longleftrightarrow> (\<exists>calls a used a' used'. call = Assign_Table calls \<and>
     assign_table (a, used) calls = Ok (a', used') \<and> usable = ka_usable_rows a \<and>
     (\<forall>c\<in>fst ` set calls. \<forall>r<usable. \<forall>v. get2 (ka_fixed a') (c, r) = Some v \<longrightarrow> asg (Column c Any_Fixed) r = evaluate v))"

lemma written_cell_append:
  "written_cell (xs @ ys) c r = (case written_cell ys c r of None \<Rightarrow> written_cell xs c r | Some v \<Rightarrow> Some v)"
  by (simp add: written_cell_def map_add_def split: option.splits)

lemma written_entries:
  assumes "t_source cfg = Column n Any_Fixed" "t_letter cfg = Column (n + 1) Any_Fixed"
    "t_target cfg = Column (n + 2) Any_Fixed" "t_output cfg = Column (n + 3) Any_Fixed"
  shows "written_cell (concat (imap 0 (add_entry cfg) rows)) n r = (if r < length rows then Some (Some (Trivial (fst (rows ! r)))) else None)"
    "written_cell (concat (imap 0 (add_entry cfg) rows)) (n + 1) r = (if r < length rows then Some (Some (Trivial (fst (snd (rows ! r))))) else None)"
    "written_cell (concat (imap 0 (add_entry cfg) rows)) (n + 2) r = (if r < length rows then Some (Some (Trivial (fst (snd (snd (rows ! r)))))) else None)"
    "written_cell (concat (imap 0 (add_entry cfg) rows)) (n + 3) r = (if r < length rows then Some (Some (Trivial (snd (snd (snd (rows ! r)))))) else None)"
proof -
  have e: "written_cell (add_entry cfg k row) c r = (if r = k then
      (if c = n then Some (Some (Trivial (fst row))) else if c = n + 1 then Some (Some (Trivial (fst (snd row))))
       else if c = n + 2 then Some (Some (Trivial (fst (snd (snd row))))) else if c = n + 3 then Some (Some (Trivial (snd (snd (snd row))))) else None)
      else None)" for k row c
    by (cases row) (auto simp: add_entry_def written_cell_def assms)
  show "written_cell (concat (imap 0 (add_entry cfg) rows)) n r = (if r < length rows then Some (Some (Trivial (fst (rows ! r)))) else None)"
    "written_cell (concat (imap 0 (add_entry cfg) rows)) (n + 1) r = (if r < length rows then Some (Some (Trivial (fst (snd (rows ! r))))) else None)"
    "written_cell (concat (imap 0 (add_entry cfg) rows)) (n + 2) r = (if r < length rows then Some (Some (Trivial (fst (snd (snd (rows ! r)))))) else None)"
    "written_cell (concat (imap 0 (add_entry cfg) rows)) (n + 3) r = (if r < length rows then Some (Some (Trivial (snd (snd (snd (rows ! r)))))) else None)"
    by (induction rows rule: rev_induct) (simp_all add: imap_append written_cell_append e nth_append)
qed

lemma table_row_values:
  assumes carries: "carries_table call usable asg" and load: "scanner_load cfg = Some call"
    and rows: "table_rows cfg = Some rows" "rows \<noteq> []"
    and cols: "t_source cfg = Column n Any_Fixed" "t_letter cfg = Column (n + 1) Any_Fixed"
      "t_target cfg = Column (n + 2) Any_Fixed" "t_output cfg = Column (n + 3) Any_Fixed"
  shows "length rows < usable \<and> (\<forall>r<usable. (asg (t_source cfg) r, asg (t_letter cfg) r, asg (t_target cfg) r, asg (t_output cfg) r) =
    rows ! (if r < length rows then r else 0))"
proof -
  let ?calls = "concat (imap 0 (add_entry cfg) rows)"
  note w = written_entries [OF cols]
  obtain a used a' used' where at: "assign_table (a, used) ?calls = Ok (a', used')" and u: "usable = ka_usable_rows a"
    and v: "\<forall>c\<in>fst ` set ?calls. \<forall>r<usable. \<forall>v. get2 (ka_fixed a') (c, r) = Some v \<longrightarrow> asg (Column c Any_Fixed) r = evaluate v"
    using carries load rows(1) by (auto simp: carries_table_def scanner_load_def)
  obtain row rows' where r0: "rows = row # rows'" using rows(2) by (cases rows) auto
  then have ne: "?calls \<noteq> []" and mem: "n \<in> fst ` set ?calls" "n + 1 \<in> fst ` set ?calls" "n + 2 \<in> fst ` set ?calls" "n + 3 \<in> fst ` set ?calls"
    by (cases row, simp add: add_entry_def cols)+
  obtain height where h: "\<forall>c\<in>fst ` set ?calls. c \<notin> set used \<and> (\<forall>r. written_cell ?calls c r \<noteq> None \<longleftrightarrow> r < height) \<and>
        (\<forall>r<ka_usable_rows a. get2 (ka_fixed a') (c, r) = the (written_cell ?calls c (if r < height then r else 0)))"
    and hb: "?calls \<noteq> [] \<longrightarrow> 0 < height \<and> height < ka_usable_rows a"
    by (rule assign_table_height [OF at]) (rule that; assumption)
  have "r < height \<longleftrightarrow> r < length rows" for r using bspec [OF h mem(1), THEN conjunct2, THEN conjunct1, rule_format, of r] by (simp add: w split: if_splits)
  from this [of height] this [of "length rows"] have len: "height = length rows" by simp
  have at_row: "asg (Column c Any_Fixed) r = evaluate v"
    if "c \<in> fst ` set ?calls" "r < usable" "written_cell ?calls c (if r < length rows then r else 0) = Some (Some v)" for c r v
  proof -
    have "get2 (ka_fixed a') (c, r) = Some v" using h that u len by force
    with v that show ?thesis by blast
  qed
  have ln: "0 < length rows" using rows(2) by simp
  have "(asg (t_source cfg) r, asg (t_letter cfg) r, asg (t_target cfg) r, asg (t_output cfg) r) =
    rows ! (if r < length rows then r else 0)" if r: "r < usable" for r
  proof -
    let ?r = "if r < length rows then r else 0"
    have "?r < length rows" using ln by simp
    with w [of rows ?r] at_row [OF mem(1) r] at_row [OF mem(2) r] at_row [OF mem(3) r] at_row [OF mem(4) r]
    show ?thesis unfolding cols by (intro prod_eqI) (simp_all del: One_nat_def)
  qed
  with hb ne len u show ?thesis by simp
qed

end
