(* ===== verification/Scanner_Correct.thy ===== *)
theory Scanner_Correct
  imports Scanner_Library
begin

text \<open>
  The scanner chip checks membership: an assignment that satisfies the copy constraints, the constants
  and the lookups of a call of \<open>parse\<close> exists exactly when the automaton accepts the assigned bytes, and
  then the returned cells hold its output. The library is laid out in one table, so the proof shows
  that a run cannot leave its automaton, nor use the dummy rows of the table before its end.
\<close>

section \<open>Satisfied circuits\<close>

text \<open>
  An assignment gives every cell of every column a value; the \<open>i\<close>-th region starts at row
  \<open>starts ! i\<close>. A call holds when the constraint it adds does, \<open>lk s row\<close> saying what the selector \<open>s\<close>
  demands of a row.
\<close>

definition cell_value :: "nat list \<Rightarrow> (column \<Rightarrow> nat \<Rightarrow> 'f) \<Rightarrow> cell \<Rightarrow> 'f" where
  "cell_value starts asg c = asg (cell_column c) (cell_row starts c)"

fun call_holds ::
    "nat list \<Rightarrow> (column \<Rightarrow> nat \<Rightarrow> 'f::field) \<Rightarrow> (selector \<Rightarrow> nat \<Rightarrow> bool) \<Rightarrow> nat \<Rightarrow> 'f region_call \<Rightarrow> bool" where
  "call_holds starts asg lk i (Enable_Selector s off) = lk s (starts ! i + off)"
| "call_holds starts asg lk i (Assign_Fixed c off to) =
     (case to of None \<Rightarrow> True | Some v \<Rightarrow> asg c (starts ! i + off) = evaluate v)"
| "call_holds starts asg lk i (Assign_Advice_From_Constant c off v) = (asg c (starts ! i + off) = evaluate v)"
| "call_holds starts asg lk i (Assign_Advice_From_Instance inst row c off) = (asg c (starts ! i + off) = asg inst row)"
| "call_holds starts asg lk i (Constrain_Constant c v) = (cell_value starts asg c = evaluate v)"
| "call_holds starts asg lk i (Constrain_Equal l r) = (cell_value starts asg l = cell_value starts asg r)"
| "call_holds starts asg lk i _ = True"

fun calls_hold_from ::
    "nat list \<Rightarrow> (column \<Rightarrow> nat \<Rightarrow> 'f::field) \<Rightarrow> (selector \<Rightarrow> nat \<Rightarrow> bool) \<Rightarrow> nat \<Rightarrow> 'f layout_call list \<Rightarrow> bool" where
  "calls_hold_from starts asg lk i [] = True"
| "calls_hold_from starts asg lk i (Assign_Region calls # circuit) =
     ((\<forall>call\<in>set calls. call_holds starts asg lk i call) \<and> calls_hold_from starts asg lk (Suc i) circuit)"
| "calls_hold_from starts asg lk i (Constrain_Instance c inst row # circuit) =
     (cell_value starts asg c = asg inst row \<and> calls_hold_from starts asg lk i circuit)"
| "calls_hold_from starts asg lk i (Assign_Table calls # circuit) = calls_hold_from starts asg lk i circuit"

text \<open>The assignment holds the values that the calls give to advice cells.\<close>

definition follows :: "nat list \<Rightarrow> (column \<Rightarrow> nat \<Rightarrow> 'f::field) \<Rightarrow> nat \<Rightarrow> 'f region_call list \<Rightarrow> bool" where
  "follows starts asg i calls \<longleftrightarrow>
     (\<forall>c off v. Assign_Advice c off (Some v) \<in> set calls \<longrightarrow> asg c (starts ! i + off) = evaluate v)"

fun follows_from :: "nat list \<Rightarrow> (column \<Rightarrow> nat \<Rightarrow> 'f::field) \<Rightarrow> nat \<Rightarrow> 'f layout_call list \<Rightarrow> bool" where
  "follows_from starts asg i [] = True"
| "follows_from starts asg i (Assign_Region calls # circuit) =
     (follows starts asg i calls \<and> (\<forall>call\<in>set calls. case call of Assign_Fixed c off (Some v) \<Rightarrow> asg c (starts ! i + off) = evaluate v | _ \<Rightarrow> True) \<and>
      follows_from starts asg (Suc i) circuit)"
| "follows_from starts asg i (_ # circuit) = follows_from starts asg i circuit"

lemma regions_of_append [simp]: "regions_of (xs @ ys) = regions_of xs @ regions_of ys"
  by (induction xs rule: regions_of.induct) simp_all

lemma calls_hold_from_append:
  "calls_hold_from starts asg lk i (xs @ ys) \<longleftrightarrow>
     calls_hold_from starts asg lk i xs \<and> calls_hold_from starts asg lk (i + length (regions_of xs)) ys"
  by (induction starts asg lk i xs rule: calls_hold_from.induct) simp_all

lemma follows_from_append:
  "follows_from starts asg i (xs @ ys) \<longleftrightarrow>
     follows_from starts asg i xs \<and> follows_from starts asg (i + length (regions_of xs)) ys"
  by (induction starts asg i xs rule: follows_from.induct) simp_all

lemma follows_append [simp]: "follows starts asg i (xs @ ys) \<longleftrightarrow> follows starts asg i xs \<and> follows starts asg i ys"
  by (auto simp: follows_def)

section \<open>Runs in a region\<close>

definition table_row :: "('i, 'f) scanner_config \<Rightarrow> (column \<Rightarrow> nat \<Rightarrow> 'f) \<Rightarrow> nat \<Rightarrow> 'f \<times> 'f \<times> 'f \<times> 'f" where
  "table_row cfg asg row =
     (asg (state_col cfg) row, asg (letter_col cfg) row, asg (state_col cfg) (row + 1), asg (output_col cfg) row)"

abbreviation region_cell :: "nat \<Rightarrow> nat \<Rightarrow> column \<Rightarrow> cell" where
  "region_cell i off c \<equiv> \<lparr>cell_region = i, cell_offset = off, cell_column = c\<rparr>"

lemma cell_value_region [simp]: "cell_value starts asg (region_cell i off c) = asg c (starts ! i + off)"
  by (simp add: cell_value_def cell_row_def)

lemma apply_one_transition_Some:
  assumes "apply_one_transition cfg a ev i letter st = (calls, Some st')"
  shows "Enable_Selector (q_automaton cfg) (ps_offset st) \<in> set calls"
    "Constrain_Equal (region_cell i (ps_offset st) (letter_col cfg)) (as_cell letter) \<in> set calls"
    "ps_offset st' = ps_offset st + 1"
    "\<exists>m. ps_markers st' = ps_markers st @ [m] \<and> as_cell m = region_cell i (ps_offset st) (output_col cfg)"
  using assms by (auto simp: apply_one_transition_def Let_def assign_advice_def copy_advice_def split: if_splits)

lemma run_sound:
  assumes e: "embeds emb (library_states lib)" and wf: "\<forall>(name, a)\<in>set lib. wf_automaton a"
    and loc: "(name, k, a) \<in> set (located 1 lib)"
    and lk: "\<forall>row. lk (q_automaton cfg) row \<longrightarrow> table_row cfg asg row \<in> library_table emb lib"
  shows "\<lbrakk>apply_transitions cfg na ev i letters st = (calls, Some st'); \<forall>call\<in>set calls. call_holds starts asg lk i call;
      p < au_nb_states a; asg (state_col cfg) (starts ! i + ps_offset st) = emb (p + k);
      map (cell_value starts asg \<circ> as_cell) letters = map (emb \<circ> unat) bytes\<rbrakk>
    \<Longrightarrow> \<exists>states outs ms. run_from a p bytes = (states, outs, False) \<and> states \<noteq> [] \<and> last states < au_nb_states a \<and>
      asg (state_col cfg) (starts ! i + ps_offset st') = emb (last states + k) \<and>
      ps_markers st' = ps_markers st @ ms \<and> map (cell_value starts asg \<circ> as_cell) ms = map emb outs"
proof (induction letters arbitrary: st calls bytes p)
  case Nil
  then show ?case by auto
next
  case (Cons letter letters)
  obtain c bytes' where bytes: "bytes = c # bytes'" using Cons.prems(5) by (cases bytes) auto
  obtain calls1 calls2 st1 where 1: "apply_one_transition cfg na ev i letter st = (calls1, Some st1)"
    and 2: "apply_transitions cfg na ev i letters st1 = (calls2, Some st')" and calls: "calls = calls1 @ calls2"
    using Cons.prems(1) by (auto split: prod.splits option.splits)
  note s = apply_one_transition_Some [OF 1]
  have "call_holds starts asg lk i (Enable_Selector (q_automaton cfg) (ps_offset st))"
    by (rule bspec [OF Cons.prems(2)]) (simp add: calls s(1))
  then have row: "table_row cfg asg (starts ! i + ps_offset st) \<in> library_table emb lib" using lk by simp
  have "call_holds starts asg lk i (Constrain_Equal (region_cell i (ps_offset st) (letter_col cfg)) (as_cell letter))"
    by (rule bspec [OF Cons.prems(2)]) (simp add: calls s(2))
  then have "asg (letter_col cfg) (starts ! i + ps_offset st) = emb (unat c)" using Cons.prems(5) by (simp add: bytes)
  with row Cons.prems(4) library_step [OF e wf loc Cons.prems(3)] obtain q m where
    qm: "map_of (au_transitions a) (p, c) = Some (q, m)" "asg (state_col cfg) (starts ! i + ps_offset st + 1) = emb (q + k)"
      "asg (output_col cfg) (starts ! i + ps_offset st) = emb m" by (auto simp: table_row_def)
  from located_lib [OF loc] wf map_of_SomeD [OF qm(1)] have q: "q < au_nb_states a" by (auto simp: wf_automaton_def)
  have h1: "asg (state_col cfg) (starts ! i + ps_offset st1) = emb (q + k)" using qm(2) s(3) by (simp add: add.assoc)
  have h2: "\<forall>call\<in>set calls2. call_holds starts asg lk i call" using Cons.prems(2) by (simp add: calls)
  have h3: "map (cell_value starts asg \<circ> as_cell) letters = map (emb \<circ> unat) bytes'" using Cons.prems(5) by (simp add: bytes comp_def)
  obtain states outs ms where
    ih: "run_from a q bytes' = (states, outs, False)" "states \<noteq> []" "last states < au_nb_states a"
      "asg (state_col cfg) (starts ! i + ps_offset st') = emb (last states + k)"
      "ps_markers st' = ps_markers st1 @ ms" "map (cell_value starts asg \<circ> as_cell) ms = map emb outs"
    using Cons.IH [OF 2 h2 q h1 h3] by (elim exE conjE) (rule that)
  from s(4) obtain m' where "ps_markers st1 = ps_markers st @ [m']" "as_cell m' = region_cell i (ps_offset st) (output_col cfg)" by blast
  with ih qm show ?case
    by - (rule exI [of _ "p # states"], rule exI [of _ "m # outs"], rule exI [of _ "m' # ms"], simp add: bytes comp_def)
qed

text \<open>The transitions of the field automaton are those of the automaton.\<close>

lemma native_map_of:
  assumes e: "embeds emb N" and wf: "wf_automaton a" and bound: "k + au_nb_states a \<le> N" and p: "p < au_nb_states a"
  shows "map_of (na_transitions (native_automaton_of (offset_states k a))) (emb (p + k), emb (unat c)) =
    map_option (\<lambda>(q, m). (emb (q + k), emb m)) (map_of (au_transitions a) (p, c))"
proof -
  have "map_of (map (\<lambda>((p, c), (q, m)). ((emb (p + k), emb (unat c)), (emb (q + k), emb m))) xs) (emb (p + k), emb (unat c)) =
      map_option (\<lambda>(q, m). (emb (q + k), emb m)) (map_of xs (p, c))" if "set xs \<subseteq> set (au_transitions a)" for xs
    using that
  proof (induction xs)
    case (Cons x xs)
    obtain p' c' q m where x: "x = ((p', c'), (q, m))" by (metis prod.collapse)
    with Cons.prems wf have "p' < au_nb_states a" by (auto simp: wf_automaton_def)
    with p bound have "emb (p' + k) = emb (p + k) \<longleftrightarrow> p' = p" by (simp add: emb_eq [OF e])
    with Cons show ?case by (auto simp: x emb_byte [OF e])
  qed simp
  from this [OF subset_refl] show ?thesis by (simp add: native_transitions [OF e wf bound])
qed

lemma run_complete:
  assumes e: "embeds emb (library_states lib)" and wf: "\<forall>(name, a)\<in>set lib. wf_automaton a"
    and loc: "(name, k, a) \<in> set (located 1 lib)" and na: "na = native_automaton_of (offset_states k a)"
  shows "\<lbrakk>run_from a p bytes = (states, outs, stuck); p < au_nb_states a; as_value (ps_state st) = Some (emb (p + k));
      map as_value letters = map (Some \<circ> emb \<circ> unat) bytes\<rbrakk>
    \<Longrightarrow> \<exists>calls r. apply_transitions cfg na True i letters st = (calls, r) \<and> (r = None \<longleftrightarrow> stuck) \<and>
      (\<forall>st'. r = Some st' \<longrightarrow> states \<noteq> [] \<and> last states < au_nb_states a \<and> ps_offset st' = ps_offset st + length bytes \<and>
        (\<exists>ms. ps_markers st' = ps_markers st @ ms \<and> map as_value ms = map (Some \<circ> emb) outs) \<and>
        (\<forall>starts asg lk. follows starts asg i calls \<and> asg (state_col cfg) (starts ! i + ps_offset st) = emb (p + k) \<and>
           map (cell_value starts asg \<circ> as_cell) letters = map (emb \<circ> unat) bytes \<and>
           (\<forall>row. table_row cfg asg row \<in> library_table emb lib \<longrightarrow> lk (q_automaton cfg) row) \<longrightarrow>
           (\<forall>call\<in>set calls. call_holds starts asg lk i call) \<and>
           asg (state_col cfg) (starts ! i + ps_offset st') = emb (last states + k)))"
proof (induction letters arbitrary: st bytes p states outs)
  case Nil
  then show ?case by auto
next
  case (Cons letter letters)
  obtain c bytes' where bytes: "bytes = c # bytes'" using Cons.prems(4) by (cases bytes) auto
  note b = located_in_field [OF loc]
  from located_lib [OF loc] wf have wa: "wf_automaton a" by auto
  have tr: "map_of (na_transitions na) (emb (p + k), emb (unat c)) =
      map_option (\<lambda>(q, m). (emb (q + k), emb m)) (map_of (au_transitions a) (p, c))"
    unfolding na by (rule native_map_of [OF e wa b(2) Cons.prems(2)])
  have v: "as_value (ps_state st) = Some (emb (p + k))" "as_value letter = Some (emb (unat c))"
    using Cons.prems(3,4) by (simp_all add: bytes)
  show ?case
  proof (cases "map_of (au_transitions a) (p, c)")
    case None
    with Cons.prems(1) have "stuck" by (simp add: bytes)
    moreover have "\<exists>calls. apply_one_transition cfg na True i letter st = (calls, None)"
      by (simp add: apply_one_transition_def Let_def v tr None)
    ultimately show ?thesis by auto
  next
    case (Some qm)
    obtain q m where qm: "qm = (q, m)" by (cases qm)
    from map_of_SomeD [OF Some] wa qm have q: "q < au_nb_states a" by (auto simp: wf_automaton_def)
    obtain states' outs' where r: "run_from a q bytes' = (states', outs', stuck)" and
      so: "states = p # states'" "outs = (if stuck then [] else m # outs')"
      using Cons.prems(1) Some qm by (auto simp: bytes split: prod.splits)
    let ?off = "ps_offset st"
    let ?m = "\<lparr>as_value = Some (emb m), as_cell = region_cell i ?off (output_col cfg)\<rparr>"
    let ?st1 = "\<lparr>ps_state = \<lparr>as_value = Some (emb (q + k)), as_cell = region_cell i (?off + 1) (state_col cfg)\<rparr>,
      ps_markers = ps_markers st @ [?m], ps_offset = ?off + 1\<rparr>"
    let ?calls1 = "[Enable_Selector (q_automaton cfg) ?off, Assign_Advice (letter_col cfg) ?off (Some (Trivial (emb (unat c)))),
      Constrain_Equal (region_cell i ?off (letter_col cfg)) (as_cell letter),
      Assign_Advice (output_col cfg) ?off (Some (Trivial (emb m))),
      Assign_Advice (state_col cfg) (?off + 1) (Some (Trivial (emb (q + k))))]"
    have one: "apply_one_transition cfg na True i letter st = (?calls1, Some ?st1)"
      by (simp add: apply_one_transition_def Let_def v tr Some qm assign_advice_def copy_advice_def)
    have 1: "as_value (ps_state ?st1) = Some (emb (q + k))" "map as_value letters = map (Some \<circ> emb \<circ> unat) bytes'"
      using Cons.prems(4) by (simp_all add: bytes)
    obtain calls2 r where ih: "apply_transitions cfg na True i letters ?st1 = (calls2, r)" "r = None \<longleftrightarrow> stuck"
      "\<forall>st'. r = Some st' \<longrightarrow> states' \<noteq> [] \<and> last states' < au_nb_states a \<and> ps_offset st' = ps_offset ?st1 + length bytes' \<and>
        (\<exists>ms. ps_markers st' = ps_markers ?st1 @ ms \<and> map as_value ms = map (Some \<circ> emb) outs') \<and>
        (\<forall>starts asg lk. follows starts asg i calls2 \<and> asg (state_col cfg) (starts ! i + ps_offset ?st1) = emb (q + k) \<and>
           map (cell_value starts asg \<circ> as_cell) letters = map (emb \<circ> unat) bytes' \<and>
           (\<forall>row. table_row cfg asg row \<in> library_table emb lib \<longrightarrow> lk (q_automaton cfg) row) \<longrightarrow>
           (\<forall>call\<in>set calls2. call_holds starts asg lk i call) \<and>
           asg (state_col cfg) (starts ! i + ps_offset st') = emb (last states' + k))"
      using Cons.IH [OF r q 1] by (elim exE conjE) (rule that)
    have eq: "apply_transitions cfg na True i (letter # letters) st = (?calls1 @ calls2, r)"
      by (simp only: apply_transitions.simps one ih(1) prod.case option.case)
    have "states \<noteq> [] \<and> last states < au_nb_states a \<and> ps_offset st' = ps_offset st + length bytes \<and>
        (\<exists>ms. ps_markers st' = ps_markers st @ ms \<and> map as_value ms = map (Some \<circ> emb) outs) \<and>
        (\<forall>starts asg lk. follows starts asg i (?calls1 @ calls2) \<and> asg (state_col cfg) (starts ! i + ps_offset st) = emb (p + k) \<and>
           map (cell_value starts asg \<circ> as_cell) (letter # letters) = map (emb \<circ> unat) bytes \<and>
           (\<forall>row. table_row cfg asg row \<in> library_table emb lib \<longrightarrow> lk (q_automaton cfg) row) \<longrightarrow>
           (\<forall>call\<in>set (?calls1 @ calls2). call_holds starts asg lk i call) \<and>
           asg (state_col cfg) (starts ! i + ps_offset st') = emb (last states + k))" if st': "r = Some st'" for st'
    proof (intro conjI)
      from ih(3) st' have f: "states' \<noteq> []" "last states' < au_nb_states a" "ps_offset st' = ps_offset ?st1 + length bytes'"
        "\<exists>ms. ps_markers st' = ps_markers ?st1 @ ms \<and> map as_value ms = map (Some \<circ> emb) outs'" by blast+
      show "states \<noteq> []" "last states < au_nb_states a" "ps_offset st' = ps_offset st + length bytes"
        using f so by (simp_all add: bytes)
      from f(4) obtain ms where "ps_markers st' = ps_markers st @ ?m # ms" "map as_value ms = map (Some \<circ> emb) outs'" by auto
      then show "\<exists>ms. ps_markers st' = ps_markers st @ ms \<and> map as_value ms = map (Some \<circ> emb) outs"
        using so ih(2) st' by (intro exI [of _ "?m # ms"]) simp
      show "\<forall>starts asg lk. follows starts asg i (?calls1 @ calls2) \<and> asg (state_col cfg) (starts ! i + ps_offset st) = emb (p + k) \<and>
           map (cell_value starts asg \<circ> as_cell) (letter # letters) = map (emb \<circ> unat) bytes \<and>
           (\<forall>row. table_row cfg asg row \<in> library_table emb lib \<longrightarrow> lk (q_automaton cfg) row) \<longrightarrow>
           (\<forall>call\<in>set (?calls1 @ calls2). call_holds starts asg lk i call) \<and>
           asg (state_col cfg) (starts ! i + ps_offset st') = emb (last states + k)"
      proof (intro allI impI)
        fix starts asg lk
        assume "follows starts asg i (?calls1 @ calls2) \<and> asg (state_col cfg) (starts ! i + ps_offset st) = emb (p + k) \<and>
          map (cell_value starts asg \<circ> as_cell) (letter # letters) = map (emb \<circ> unat) bytes \<and>
          (\<forall>row. table_row cfg asg row \<in> library_table emb lib \<longrightarrow> lk (q_automaton cfg) row)"
        then have a: "follows starts asg i ?calls1" "follows starts asg i calls2" "asg (state_col cfg) (starts ! i + ?off) = emb (p + k)"
          "cell_value starts asg (as_cell letter) = emb (unat c)"
          "map (cell_value starts asg \<circ> as_cell) letters = map (emb \<circ> unat) bytes'"
          and lk: "\<forall>row. table_row cfg asg row \<in> library_table emb lib \<longrightarrow> lk (q_automaton cfg) row" by (auto simp: bytes comp_def follows_def)
        have fo: "asg (letter_col cfg) (starts ! i + ?off) = emb (unat c)" "asg (output_col cfg) (starts ! i + ?off) = emb m"
          "asg (state_col cfg) (starts ! i + (?off + 1)) = emb (q + k)"
          using a(1) by (auto simp: follows_def)
        have "table_row cfg asg (starts ! i + ?off) \<in> library_table emb lib"
          unfolding table_row_def using a(3) fo library_step [OF e wf loc Cons.prems(2), of c "emb (q + k)" "emb m"] Some qm
          by (simp add: add.assoc)
        with lk a(4) fo(1) have "\<forall>call\<in>set ?calls1. call_holds starts asg lk i call" by simp
        moreover have "(\<forall>call\<in>set calls2. call_holds starts asg lk i call) \<and>
             asg (state_col cfg) (starts ! i + ps_offset st') = emb (last states' + k)"
          using ih(3) [rule_format, OF st'] a(2,5) fo(3) lk by simp
        ultimately show "(\<forall>call\<in>set (?calls1 @ calls2). call_holds starts asg lk i call) \<and>
             asg (state_col cfg) (starts ! i + ps_offset st') = emb (last states + k)"
          using so f(1) by (simp only: set_append ball_Un last.simps) simp
      qed
    qed
    with eq ih(2) show ?thesis by blast
  qed
qed

section \<open>The parsing region\<close>

lemma parse_region_sound:
  assumes e: "embeds emb (library_states lib)" and wf: "\<forall>(name, a)\<in>set lib. wf_automaton a"
    and loc: "(name, k, a) \<in> set (located 1 lib)"
    and lk: "\<forall>row. lk (q_automaton cfg) row \<longrightarrow> table_row cfg asg row \<in> library_table emb lib"
    and parse: "parse_region cfg na ev i init_state invalid_letter invalid_state input = (calls, Some markers)"
    and holds: "\<forall>call\<in>set calls. call_holds starts asg lk i call"
    and vals: "cell_value starts asg (as_cell init_state) = emb (au_initial_state a + k)"
      "cell_value starts asg (as_cell invalid_letter) = emb 256" "cell_value starts asg (as_cell invalid_state) = 0"
    and input: "map (cell_value starts asg \<circ> as_cell) input = map (emb \<circ> unat) bytes"
  shows "\<exists>outs. accepts a bytes outs \<and> map (cell_value starts asg \<circ> as_cell) markers = map emb outs"
proof -
  define first where "first = copy_advice ev i init_state (state_col cfg) 0"
  obtain calls1 st where run: "apply_transitions cfg na ev i input \<lparr>ps_state = fst first, ps_markers = [], ps_offset = 0\<rparr> = (calls1, Some st)"
    and calls: "calls = snd first @ calls1 @ assert_final_state cfg ev i invalid_letter invalid_state (ps_offset st)"
    and markers: "markers = ps_markers st"
    using parse by (auto simp: parse_region_def first_def split: prod.splits option.splits)
  have p: "au_initial_state a < au_nb_states a" using located_lib [OF loc] wf by (auto simp: wf_automaton_def)
  have "Constrain_Equal (region_cell i 0 (state_col cfg)) (as_cell init_state) \<in> set calls"
    by (simp add: calls first_def copy_advice_def assign_advice_def)
  from bspec [OF holds this] have start: "asg (state_col cfg) (starts ! i) = emb (au_initial_state a + k)" by (simp add: vals(1))
  then have start: "asg (state_col cfg) (starts ! i + ps_offset \<lparr>ps_state = fst first, ps_markers = [], ps_offset = 0\<rparr>) =
      emb (au_initial_state a + k)" by simp
  have h1: "\<forall>call\<in>set calls1. call_holds starts asg lk i call" using holds by (simp add: calls)
  obtain states outs ms where
    r: "run_from a (au_initial_state a) bytes = (states, outs, False)" "last states < au_nb_states a"
      "asg (state_col cfg) (starts ! i + ps_offset st) = emb (last states + k)"
      and ms: "ps_markers st = ps_markers \<lparr>ps_state = fst first, ps_markers = [], ps_offset = 0\<rparr> @ ms"
      "map (cell_value starts asg \<circ> as_cell) ms = map emb outs"
    using run_sound [OF e wf loc lk run h1 p start input] by (elim exE conjE) (rule that)
  let ?row = "starts ! i + ps_offset st"
  have final: "\<forall>call\<in>set (assert_final_state cfg ev i invalid_letter invalid_state (ps_offset st)). call_holds starts asg lk i call"
    using holds by (simp add: calls)
  have "lk (q_automaton cfg) ?row \<and> asg (letter_col cfg) ?row = emb 256 \<and> asg (output_col cfg) ?row = 0 \<and> asg (state_col cfg) (?row + 1) = 0"
    using final vals(2,3) by (simp add: assert_final_state_def copy_advice_def assign_advice_def)
  with lk [rule_format, of ?row] r(3) have "(emb (last states + k), emb 256, 0, 0) \<in> library_table emb lib" by (simp add: table_row_def)
  then have "last states \<in> set (au_final_states a)" unfolding library_final [OF e wf loc r(2)] .
  with r(1) have "accepts a bytes outs" by (auto simp: accepts_def run_def)
  with ms show ?thesis by (auto simp: markers)
qed

lemma parse_region_complete:
  assumes e: "embeds emb (library_states lib)" and wf: "\<forall>(name, a)\<in>set lib. wf_automaton a"
    and loc: "(name, k, a) \<in> set (located 1 lib)" and na: "na = native_automaton_of (offset_states k a)"
    and run: "run a bytes = (states, outs, stuck)"
    and vals: "as_value init_state = Some (emb (au_initial_state a + k))"
      "as_value invalid_letter = Some (emb 256)" "as_value invalid_state = Some 0"
    and input: "map as_value input = map (Some \<circ> emb \<circ> unat) bytes"
  shows "\<exists>calls r. parse_region cfg na True i init_state invalid_letter invalid_state input = (calls, r) \<and> (r = None \<longleftrightarrow> stuck) \<and>
    (\<forall>markers. r = Some markers \<longrightarrow> map as_value markers = map (Some \<circ> emb) outs \<and>
      (\<forall>starts asg lk. last states \<in> set (au_final_states a) \<and> follows starts asg i calls \<and>
        cell_value starts asg (as_cell init_state) = emb (au_initial_state a + k) \<and>
        cell_value starts asg (as_cell invalid_letter) = emb 256 \<and> cell_value starts asg (as_cell invalid_state) = 0 \<and>
        map (cell_value starts asg \<circ> as_cell) input = map (emb \<circ> unat) bytes \<and>
        (\<forall>row. table_row cfg asg row \<in> library_table emb lib \<longrightarrow> lk (q_automaton cfg) row) \<longrightarrow>
        (\<forall>call\<in>set calls. call_holds starts asg lk i call)))"
proof -
  let ?first = "\<lparr>as_value = Some (emb (au_initial_state a + k)), as_cell = region_cell i 0 (state_col cfg)\<rparr>"
  let ?calls0 = "[Assign_Advice (state_col cfg) 0 (Some (Trivial (emb (au_initial_state a + k)))),
    Constrain_Equal (region_cell i 0 (state_col cfg)) (as_cell init_state)]"
  let ?st = "\<lparr>ps_state = ?first, ps_markers = [], ps_offset = 0\<rparr>"
  have first: "copy_advice True i init_state (state_col cfg) 0 = (?first, ?calls0)"
    by (simp add: copy_advice_def assign_advice_def vals(1))
  have p: "au_initial_state a < au_nb_states a" using located_lib [OF loc] wf by (auto simp: wf_automaton_def)
  have v: "as_value (ps_state ?st) = Some (emb (au_initial_state a + k))" by simp
  from run_complete [OF e wf loc na run [unfolded run_def] p v input, of cfg i] obtain calls1 r where
    1: "apply_transitions cfg na True i input ?st = (calls1, r)" "r = None \<longleftrightarrow> stuck"
    and 2: "\<forall>st'. r = Some st' \<longrightarrow> states \<noteq> [] \<and> last states < au_nb_states a \<and> ps_offset st' = ps_offset ?st + length bytes \<and>
        (\<exists>ms. ps_markers st' = ps_markers ?st @ ms \<and> map as_value ms = map (Some \<circ> emb) outs) \<and>
        (\<forall>starts asg lk. follows starts asg i calls1 \<and> asg (state_col cfg) (starts ! i + ps_offset ?st) = emb (au_initial_state a + k) \<and>
           map (cell_value starts asg \<circ> as_cell) input = map (emb \<circ> unat) bytes \<and>
           (\<forall>row. table_row cfg asg row \<in> library_table emb lib \<longrightarrow> lk (q_automaton cfg) row) \<longrightarrow>
           (\<forall>call\<in>set calls1. call_holds starts asg lk i call) \<and>
           asg (state_col cfg) (starts ! i + ps_offset st') = emb (last states + k))"
    by (elim exE conjE) (rule that)
  show ?thesis
  proof (cases r)
    case None
    with 1 show ?thesis by (simp add: parse_region_def first)
  next
    case (Some st')
    let ?final = "assert_final_state cfg True i invalid_letter invalid_state (ps_offset st')"
    let ?row = "\<lambda>starts :: nat list. starts ! i + ps_offset st'"
    have eq: "parse_region cfg na True i init_state invalid_letter invalid_state input = (?calls0 @ calls1 @ ?final, Some (ps_markers st'))"
      by (simp add: parse_region_def first 1(1) Some)
    have m: "map as_value (ps_markers st') = map (Some \<circ> emb) outs" and l: "last states < au_nb_states a"
      using 2 [rule_format, OF Some] by auto
    have "\<forall>call\<in>set (?calls0 @ calls1 @ ?final). call_holds starts asg lk i call"
      if h: "last states \<in> set (au_final_states a)" "follows starts asg i (?calls0 @ calls1 @ ?final)"
        "cell_value starts asg (as_cell init_state) = emb (au_initial_state a + k)"
        "cell_value starts asg (as_cell invalid_letter) = emb 256" "cell_value starts asg (as_cell invalid_state) = 0"
        "map (cell_value starts asg \<circ> as_cell) input = map (emb \<circ> unat) bytes"
        and lk: "\<forall>row. table_row cfg asg row \<in> library_table emb lib \<longrightarrow> lk (q_automaton cfg) row" for starts asg lk
    proof -
      from h(2) have f: "follows starts asg i ?calls0" "follows starts asg i calls1" "follows starts asg i ?final"
        by (simp_all only: follows_append)
      have 0: "asg (state_col cfg) (starts ! i) = emb (au_initial_state a + k)" using f(1) by (simp add: follows_def)
      have 1: "(\<forall>call\<in>set calls1. call_holds starts asg lk i call) \<and> asg (state_col cfg) (?row starts) = emb (last states + k)"
        using 2 [rule_format, OF Some] f(2) 0 h(6) lk by simp
      have 3: "asg (letter_col cfg) (?row starts) = emb 256" "asg (output_col cfg) (?row starts) = 0" "asg (state_col cfg) (?row starts + 1) = 0"
        using f(3) by (auto simp: follows_def assert_final_state_def copy_advice_def assign_advice_def vals)
      have "table_row cfg asg (?row starts) \<in> library_table emb lib"
        unfolding table_row_def using 1 3 library_final [OF e wf loc l] h(1) by simp
      with lk have "lk (q_automaton cfg) (?row starts)" by blast
      then have "\<forall>call\<in>set ?final. call_holds starts asg lk i call"
        using 3 h(4,5) by (simp add: assert_final_state_def copy_advice_def assign_advice_def)
      moreover have "\<forall>call\<in>set ?calls0. call_holds starts asg lk i call" using 0 h(3) by simp
      ultimately show ?thesis using 1 by (simp only: set_append ball_Un) blast
    qed
    with eq m 1(2) Some show ?thesis by blast
  qed
qed

section \<open>Constants\<close>

text \<open>The cached constants have their values.\<close>

definition cache_values :: "'f native_state \<Rightarrow> bool" where
  "cache_values st \<longleftrightarrow> (\<forall>(c, x)\<in>set (ns_cached_fixed st). as_value x = Some c)"

definition cache_holds :: "nat list \<Rightarrow> (column \<Rightarrow> nat \<Rightarrow> 'f) \<Rightarrow> 'f native_state \<Rightarrow> bool" where
  "cache_holds starts asg st \<longleftrightarrow> (\<forall>(c, x)\<in>set (ns_cached_fixed st). cell_value starts asg (as_cell x) = c)"

lemma native_assign_fixed_spec:
  assumes "native_assign_fixed fc c st = (calls, x, st')"
  shows "ns_regions st' = ns_regions st + length (regions_of calls)"
    "cache_values st \<Longrightarrow> as_value x = Some c \<and> cache_values st'"
    "cache_holds starts asg st \<Longrightarrow> calls_hold_from starts asg lk (ns_regions st) calls \<Longrightarrow>
      cell_value starts asg (as_cell x) = c \<and> cache_holds starts asg st'"
    "follows_from starts asg (ns_regions st) calls \<Longrightarrow> calls_hold_from starts asg lk (ns_regions st) calls"
  using assms
  by (auto simp: native_assign_fixed_def cache_values_def cache_holds_def Let_def split: option.splits dest!: map_of_SomeD)

section \<open>Parsing\<close>

lemma lookup_rows:
  fixes lib :: "('i \<times> automaton) list" and asg :: "column \<Rightarrow> nat \<Rightarrow> 'f::field"
  assumes e: "embeds emb (library_states lib)" and wf: "\<forall>(name, a)\<in>set lib. wf_automaton a"
    and conf: "scanner_configure cs (c1, c2, c3) lib = Some (cs', cfg)" and adv: "is_advice c1" "is_advice c2" "is_advice c3"
    and load: "scanner_load cfg = Some table" and carries: "carries_table table usable asg"
  obtains arg where "lookups cs' = lookups cs @ [arg]" and "ba_selector arg = Selector (q_automaton cfg)"
    and "\<forall>row. lookup_at arg usable asg row \<longleftrightarrow> table_row cfg asg row \<in> library_table emb lib"
proof -
  note conf = scanner_configure_Some [OF conf adv]
  from conf(1) obtain arg where arg: "lookups cs' = lookups cs @ [arg]" "ba_selector arg = Selector (q_automaton cfg)"
    "\<forall>usable asg row. lookup_at arg usable asg row \<longleftrightarrow> (\<exists>r<usable.
        (asg (state_col cfg) row, asg (letter_col cfg) row, asg (state_col cfg) (row + 1), asg (output_col cfg) row) =
        (asg (t_source cfg) r, asg (t_letter cfg) r, asg (t_target cfg) r, asg (t_output cfg) r))" by (elim exE conjE) (rule that)
  from table_rows_library [OF e wf conf(2)] obtain rows where
    rows: "table_rows cfg = Some ((0, 0, 0, 0) # rows)" "set ((0, 0, 0, 0) # rows) = library_table emb lib" by blast
  let ?rows = "(0, 0, 0, 0) # rows"
  from conf(4) obtain n where "t_source cfg = Column n Any_Fixed" "t_letter cfg = Column (n + 1) Any_Fixed"
    "t_target cfg = Column (n + 2) Any_Fixed" "t_output cfg = Column (n + 3) Any_Fixed" by blast
  from table_row_values [OF carries load rows(1) _ this] have vals: "length ?rows < usable"
    "\<forall>r<usable. (asg (t_source cfg) r, asg (t_letter cfg) r, asg (t_target cfg) r, asg (t_output cfg) r) =
      ?rows ! (if r < length ?rows then r else 0)" by simp_all
  have tab: "(\<exists>r<usable. x = (asg (t_source cfg) r, asg (t_letter cfg) r, asg (t_target cfg) r, asg (t_output cfg) r)) \<longleftrightarrow>
      x \<in> library_table emb lib" for x
  proof
    assume "\<exists>r<usable. x = (asg (t_source cfg) r, asg (t_letter cfg) r, asg (t_target cfg) r, asg (t_output cfg) r)"
    then obtain r where "r < usable" "x = ?rows ! (if r < length ?rows then r else 0)" using vals(2) by metis
    moreover have "(if r < length ?rows then r else 0) < length ?rows" by simp
    ultimately show "x \<in> library_table emb lib" unfolding rows(2) [symmetric] by (metis nth_mem)
  next
    assume "x \<in> library_table emb lib"
    then obtain r where "r < length ?rows" "?rows ! r = x" unfolding rows(2) [symmetric] by (metis in_set_conv_nth)
    with vals show "\<exists>r<usable. x = (asg (t_source cfg) r, asg (t_letter cfg) r, asg (t_target cfg) r, asg (t_output cfg) r)"
      by (intro exI [of _ r]) simp
  qed
  show thesis
    by (rule that [OF arg(1,2)], intro allI, unfold arg(3) [rule_format] table_row_def, rule tab)
qed

lemma parse_Some:
  assumes "parse cfg fc ev name input st = Some (calls, r, st')"
  obtains na calls1 x1 st1 calls2 x2 st2 calls3 x3 st3 region where
    "map_of (automata cfg) name = Some na" and "native_assign_fixed fc (na_initial_state na) st = (calls1, x1, st1)"
    and "native_assign_fixed fc (of_nat 256) st1 = (calls2, x2, st2)" and "native_assign_fixed fc 0 st2 = (calls3, x3, st3)"
    and "parse_region cfg na ev (ns_regions st3) x1 x2 x3 input = (region, r)"
    and "calls = calls1 @ calls2 @ calls3 @ [Assign_Region region]" and "st' = st3\<lparr>ns_regions := ns_regions st3 + 1\<rparr>"
proof -
  from assms obtain na where na: "map_of (automata cfg) name = Some na" by (auto simp: parse_def bind_eq_Some_conv)
  obtain calls1 x1 st1 where 1: "native_assign_fixed fc (na_initial_state na) st = (calls1, x1, st1)" by (metis prod_cases3)
  obtain calls2 x2 st2 where 2: "native_assign_fixed fc (of_nat 256) st1 = (calls2, x2, st2)" by (metis prod_cases3)
  obtain calls3 x3 st3 where 3: "native_assign_fixed fc 0 st2 = (calls3, x3, st3)" by (metis prod_cases3)
  obtain region r' where 4: "parse_region cfg na ev (ns_regions st3) x1 x2 x3 input = (region, r')" by fastforce
  from assms na 1 2 3 4 have "calls = calls1 @ calls2 @ calls3 @ [Assign_Region region]" "st' = st3\<lparr>ns_regions := ns_regions st3 + 1\<rparr>" "r' = r"
    by (simp_all add: parse_def ALPHABET_MAX_SIZE_def)
  with na 1 2 3 4 show thesis by (intro that) simp_all
qed

lemma map_of_collection:
  fixes lib :: "('i \<times> automaton) list"
  assumes "map_of lib name = Some a"
  obtains k where "(name, k, a) \<in> set (located 1 lib)"
    and "map_of (from_collection lib) name = Some (native_automaton_of (offset_states k a) :: 'f::field native_automaton)"
proof -
  from map_of_located [OF assms, of 1] obtain k where k: "map_of (located 1 lib) name = Some (k, a)" by blast
  let ?g = "\<lambda>k a. native_automaton_of (offset_states k a) :: 'f native_automaton"
  have "map_of (map (\<lambda>(name, k, a). (name, ?g k a)) xs) name = map_option (\<lambda>(k, a). ?g k a) (map_of xs name)" for xs :: "('i \<times> nat \<times> automaton) list"
    by (induction xs) auto
  from this [of "located 1 lib"] k map_of_SomeD [OF k] show thesis
    by (intro that [of k]) (simp_all add: from_collection_def from_collection_located)
qed

lemma fst_from_collection: "fst ` set (from_collection_loop k lib) = fst ` set lib"
  by (induction k lib rule: from_collection_loop.induct) auto

lemma map_of_collection_None: "map_of lib name = None \<Longrightarrow> map_of (from_collection lib) name = None"
  by (simp add: from_collection_def map_of_eq_None_iff fst_from_collection)

lemma parse_sound_aux:
  fixes lib :: "('i \<times> automaton) list" and asg :: "column \<Rightarrow> nat \<Rightarrow> 'f::field"
  assumes inj: "inj_on (of_nat :: nat \<Rightarrow> 'f) {..<max 257 (library_states lib)}" and wf: "\<forall>(name, a)\<in>set lib. wf_automaton a"
    and conf: "scanner_configure cs (c1, c2, c3) lib = Some (cs', cfg)" and adv: "is_advice c1" "is_advice c2" "is_advice c3"
    and load: "scanner_load cfg = Some table" and carries: "carries_table table usable asg"
    and sub: "set (lookups cs') \<subseteq> set (lookups circuit_cs)"
    and parse: "parse cfg fc ev name input st = Some (calls, Some markers, st')"
    and cache: "cache_holds starts asg st"
    and holds: "calls_hold_from starts asg (lookups_hold circuit_cs usable asg) (ns_regions st) calls"
    and input: "map (cell_value starts asg \<circ> as_cell) input = map (\<lambda>b. of_nat (unat b)) bytes"
  shows "\<exists>a outs. map_of lib name = Some a \<and> accepts a bytes outs \<and>
    map (cell_value starts asg \<circ> as_cell) markers = map of_nat outs \<and> cache_holds starts asg st'"
proof -
  define emb where "emb = (of_nat :: nat \<Rightarrow> 'f)"
  have e: "embeds emb (library_states lib)" using inj by (simp add: embeds_def emb_def)
  let ?lk = "lookups_hold circuit_cs usable asg"
  obtain arg where arg: "lookups cs' = lookups cs @ [arg]" "ba_selector arg = Selector (q_automaton cfg)"
    "\<forall>row. lookup_at arg usable asg row \<longleftrightarrow> table_row cfg asg row \<in> library_table emb lib"
    by (rule lookup_rows [OF e wf conf adv load carries])
  have lk: "\<forall>row. ?lk (q_automaton cfg) row \<longrightarrow> table_row cfg asg row \<in> library_table emb lib"
    using arg sub by (auto simp: lookups_hold_def)
  obtain na calls1 x1 st1 calls2 x2 st2 calls3 x3 st3 region where
    na: "map_of (automata cfg) name = Some na" and 1: "native_assign_fixed fc (na_initial_state na) st = (calls1, x1, st1)"
    and 2: "native_assign_fixed fc (of_nat 256) st1 = (calls2, x2, st2)" and 3: "native_assign_fixed fc 0 st2 = (calls3, x3, st3)"
    and region: "parse_region cfg na ev (ns_regions st3) x1 x2 x3 input = (region, Some markers)"
    and calls: "calls = calls1 @ calls2 @ calls3 @ [Assign_Region region]" and st': "st' = st3\<lparr>ns_regions := ns_regions st3 + 1\<rparr>"
    by (rule parse_Some [OF parse])
  obtain a where a: "map_of lib name = Some a"
    using na by (cases "map_of lib name") (simp_all add: scanner_configure_Some(2) [OF conf adv] map_of_collection_None)
  obtain k where loc: "(name, k, a) \<in> set (located 1 lib)" and na': "na = native_automaton_of (offset_states k a)"
    using na scanner_configure_Some(2) [OF conf adv] map_of_collection [OF a] by (metis option.inject)
  from holds have h: "calls_hold_from starts asg ?lk (ns_regions st) calls1" "calls_hold_from starts asg ?lk (ns_regions st1) calls2"
    "calls_hold_from starts asg ?lk (ns_regions st2) calls3" "\<forall>call\<in>set region. call_holds starts asg ?lk (ns_regions st3) call"
    by (simp_all add: calls calls_hold_from_append native_assign_fixed_spec(1) [OF 1] native_assign_fixed_spec(1) [OF 2]
        native_assign_fixed_spec(1) [OF 3] add.assoc)
  note v1 = native_assign_fixed_spec(3) [OF 1 cache h(1)]
  note v2 = native_assign_fixed_spec(3) [OF 2 v1 [THEN conjunct2] h(2)]
  note v3 = native_assign_fixed_spec(3) [OF 3 v2 [THEN conjunct2] h(3)]
  have vals: "cell_value starts asg (as_cell x1) = emb (au_initial_state a + k)" "cell_value starts asg (as_cell x2) = emb 256"
    "cell_value starts asg (as_cell x3) = 0"
    using v1 v2 v3 native_other(1) [OF e, of k a] by (simp_all add: na' emb_def)
  have "map (cell_value starts asg \<circ> as_cell) input = map (emb \<circ> unat) bytes" using input by (simp add: emb_def comp_def)
  from parse_region_sound [OF e wf loc lk region h(4) vals this] v3 a show ?thesis
    by (auto simp: st' cache_holds_def emb_def)
qed

lemma parse_complete_aux:
  fixes lib :: "('i \<times> automaton) list" and cs cs' :: "'f::field constraint_system"
  assumes inj: "inj_on (of_nat :: nat \<Rightarrow> 'f) {..<max 257 (library_states lib)}" and wf: "\<forall>(name, a)\<in>set lib. wf_automaton a"
    and conf: "scanner_configure cs (c1, c2, c3) lib = Some (cs', cfg)" and adv: "is_advice c1" "is_advice c2" "is_advice c3"
    and fresh: "\<forall>arg\<in>set (lookups cs). ba_selector arg \<noteq> Selector (snd (complex_selector cs))"
    and a: "map_of lib name = Some a" and run: "run a bytes = (states, outs, stuck)"
    and cache: "cache_values st" and input: "map as_value input = map (\<lambda>b. Some (of_nat (unat b))) bytes"
  shows "\<exists>calls r st'. parse cfg fc True name input st = Some (calls, r, st') \<and> (r = None \<longleftrightarrow> stuck) \<and> cache_values st' \<and>
    (\<forall>markers. r = Some markers \<longrightarrow> map as_value markers = map (\<lambda>m. Some (of_nat m)) outs \<and>
      (\<forall>starts asg usable table. last states \<in> set (au_final_states a) \<and> scanner_load cfg = Some table \<and> carries_table table usable asg \<and>
        cache_holds starts asg st \<and> map (cell_value starts asg \<circ> as_cell) input = map (\<lambda>b. of_nat (unat b)) bytes \<and>
        follows_from starts asg (ns_regions st) calls \<longrightarrow>
        calls_hold_from starts asg (lookups_hold cs' usable asg) (ns_regions st) calls))"
proof -
  define emb where "emb = (of_nat :: nat \<Rightarrow> 'f)"
  have e: "embeds emb (library_states lib)" using inj by (simp add: embeds_def emb_def)
  obtain k where loc: "(name, k, a) \<in> set (located 1 lib)"
    and na: "map_of (automata cfg) name = Some (native_automaton_of (offset_states k a))"
    using map_of_collection [OF a] scanner_configure_Some(2) [OF conf adv] by metis
  let ?na = "native_automaton_of (offset_states k a) :: 'f native_automaton"
  obtain calls1 x1 st1 where 1: "native_assign_fixed fc (na_initial_state ?na) st = (calls1, x1, st1)" by (metis prod_cases3)
  obtain calls2 x2 st2 where 2: "native_assign_fixed fc (of_nat 256) st1 = (calls2, x2, st2)" by (metis prod_cases3)
  obtain calls3 x3 st3 where 3: "native_assign_fixed fc 0 st2 = (calls3, x3, st3)" by (metis prod_cases3)
  note v1 = native_assign_fixed_spec(2) [OF 1 cache]
  note v2 = native_assign_fixed_spec(2) [OF 2 v1 [THEN conjunct2]]
  note v3 = native_assign_fixed_spec(2) [OF 3 v2 [THEN conjunct2]]
  have vals: "as_value x1 = Some (emb (au_initial_state a + k))" "as_value x2 = Some (emb 256)" "as_value x3 = Some 0"
    using v1 v2 v3 native_other(1) [OF e, of k a] by (simp_all add: emb_def)
  have "map as_value input = map (Some \<circ> emb \<circ> unat) bytes" using input by (simp add: emb_def comp_def)
  from parse_region_complete [OF e wf loc refl run vals this, of cfg "ns_regions st3"] obtain region r where
    region: "parse_region cfg ?na True (ns_regions st3) x1 x2 x3 input = (region, r)" "r = None \<longleftrightarrow> stuck"
    and fin: "\<forall>markers. r = Some markers \<longrightarrow> map as_value markers = map (Some \<circ> emb) outs \<and>
      (\<forall>starts asg lk. last states \<in> set (au_final_states a) \<and> follows starts asg (ns_regions st3) region \<and>
        cell_value starts asg (as_cell x1) = emb (au_initial_state a + k) \<and>
        cell_value starts asg (as_cell x2) = emb 256 \<and> cell_value starts asg (as_cell x3) = 0 \<and>
        map (cell_value starts asg \<circ> as_cell) input = map (emb \<circ> unat) bytes \<and>
        (\<forall>row. table_row cfg asg row \<in> library_table emb lib \<longrightarrow> lk (q_automaton cfg) row) \<longrightarrow>
        (\<forall>call\<in>set region. call_holds starts asg lk (ns_regions st3) call))"
    by (elim exE conjE) (rule that)
  let ?calls = "calls1 @ calls2 @ calls3 @ [Assign_Region region]"
  have eq: "parse cfg fc True name input st = Some (?calls, r, st3\<lparr>ns_regions := ns_regions st3 + 1\<rparr>)"
    using 1 2 3 region(1) by (simp add: parse_def na ALPHABET_MAX_SIZE_def)
  have cv: "cache_values (st3\<lparr>ns_regions := ns_regions st3 + 1\<rparr>)" using v3 by (simp add: cache_values_def)
  have "calls_hold_from starts asg (lookups_hold cs' usable asg) (ns_regions st) ?calls"
    if m: "r = Some markers" and l: "last states \<in> set (au_final_states a)" and load: "scanner_load cfg = Some table"
      and carries: "carries_table table usable asg" and ch: "cache_holds starts asg st"
      and inp: "map (cell_value starts asg \<circ> as_cell) input = map (\<lambda>b. of_nat (unat b)) bytes"
      and f: "follows_from starts asg (ns_regions st) ?calls" for markers starts asg usable table
  proof -
    let ?lk = "lookups_hold cs' usable asg"
    obtain arg where arg: "lookups cs' = lookups cs @ [arg]" "ba_selector arg = Selector (q_automaton cfg)"
      "\<forall>row. lookup_at arg usable asg row \<longleftrightarrow> table_row cfg asg row \<in> library_table emb lib"
      by (rule lookup_rows [OF e wf conf adv load carries])
    have lk: "\<forall>row. table_row cfg asg row \<in> library_table emb lib \<longrightarrow> ?lk (q_automaton cfg) row"
      using arg fresh scanner_configure_Some(3) [OF conf adv] by (auto simp: lookups_hold_def)
    from f have f: "follows_from starts asg (ns_regions st) calls1" "follows_from starts asg (ns_regions st1) calls2"
      "follows_from starts asg (ns_regions st2) calls3" "follows starts asg (ns_regions st3) region"
      by (simp_all add: follows_from_append native_assign_fixed_spec(1) [OF 1] native_assign_fixed_spec(1) [OF 2]
          native_assign_fixed_spec(1) [OF 3] add.assoc)
    note h1 = native_assign_fixed_spec(4) [OF 1 f(1), of ?lk] and h2 = native_assign_fixed_spec(4) [OF 2 f(2), of ?lk]
      and h3 = native_assign_fixed_spec(4) [OF 3 f(3), of ?lk]
    note w1 = native_assign_fixed_spec(3) [OF 1 ch h1]
    note w2 = native_assign_fixed_spec(3) [OF 2 w1 [THEN conjunct2] h2]
    note w3 = native_assign_fixed_spec(3) [OF 3 w2 [THEN conjunct2] h3]
    have cells: "cell_value starts asg (as_cell x1) = emb (au_initial_state a + k)" "cell_value starts asg (as_cell x2) = emb 256"
      "cell_value starts asg (as_cell x3) = 0"
      using w1 w2 w3 native_other(1) [OF e, of k a] by (simp_all add: emb_def)
    have "map (cell_value starts asg \<circ> as_cell) input = map (emb \<circ> unat) bytes" using inp by (simp add: emb_def comp_def)
    with fin [rule_format, OF m] l f(4) cells lk have "\<forall>call\<in>set region. call_holds starts asg ?lk (ns_regions st3) call" by blast
    with h1 h2 h3 show ?thesis
      by (simp add: calls_hold_from_append native_assign_fixed_spec(1) [OF 1] native_assign_fixed_spec(1) [OF 2]
          native_assign_fixed_spec(1) [OF 3] add.assoc)
  qed
  moreover have "map as_value markers = map (\<lambda>m. Some (of_nat m)) outs" if "r = Some markers" for markers
    using fin [rule_format, OF that] by (simp add: emb_def comp_def)
  ultimately show ?thesis using eq region(2) cv by blast
qed

section \<open>A small library\<close>

text \<open>One automaton, which accepts the byte 5 and marks it with 7; the circuit checks one byte.\<close>

definition example_automaton :: automaton where
  "example_automaton = \<lparr>au_nb_states = 2, au_initial_state = 0, au_final_states = [1], au_transitions = [((0, 5), (1, 7))]\<rparr>"

definition example_lib :: "(nat \<times> automaton) list" where
  "example_lib = [(0, example_automaton)]"

abbreviation example_advice :: "nat \<Rightarrow> column" where
  "example_advice i \<equiv> Column i (Any_Advice 0)"

definition example_cs :: "rat constraint_system" where
  "example_cs = cs_default\<lparr>num_advice_columns := 3, num_advice_queries := [0, 0, 0], advice_column_phase := [0, 0, 0]\<rparr>"

definition example_cfg :: "(nat, rat) scanner_config" where
  "example_cfg = \<lparr>automata = [(0, \<lparr>na_initial_state = 1, na_final_states = [2], na_transitions = [((1, 5), (2, 7))]\<rparr>)],
     q_automaton = \<lparr>sel_index = 0, is_simple = False\<rparr>, state_col = example_advice 0, letter_col = example_advice 1,
     output_col = example_advice 2, t_source = Column 0 Any_Fixed, t_letter = Column 1 Any_Fixed,
     t_target = Column 2 Any_Fixed, t_output = Column 3 Any_Fixed\<rparr>"

definition example_key :: "rat key_assembly" where
  "example_key = \<lparr>ka_k = 4, ka_fixed = replicate 4 (replicate 16 Zero), ka_permutation = assembly_new 16 [],
     ka_selectors = [], ka_usable_rows = 10\<rparr>"

definition example_table_calls :: "rat table_call list" where
  "example_table_calls = concat (imap 0 (add_entry example_cfg) [(0, 0, 0, 0), (1, 5, 2, 7), (2, 256, 0, 0)])"

definition example_input :: "rat option \<Rightarrow> rat assigned list" where
  "example_input v = [\<lparr>as_value = v, as_cell = region_cell 4 0 (example_advice 3)\<rparr>]"

definition example_state :: "rat native_state" where
  "example_state = \<lparr>ns_regions = 0, ns_cached_fixed = []\<rparr>"

lemma example_evaluates:
  "map_option snd (scanner_configure example_cs (example_advice 0, example_advice 1, example_advice 2) example_lib) = Some example_cfg"
  "scanner_load example_cfg = Some (Assign_Table example_table_calls)"
  "is_ok (assign_table (example_key, []) example_table_calls)"
  by code_simp+

definition example_calls :: "rat layout_call list" where
  "example_calls = fst (the (parse example_cfg (Column 4 Any_Fixed) False 0 (example_input None) example_state))"

lemma example_parses:
  "map_option (\<lambda>(calls, r, st). r) (parse example_cfg (Column 4 Any_Fixed) False 0 (example_input None) example_state) =
     Some (Some [\<lparr>as_value = None, as_cell = region_cell 3 0 (example_advice 2)\<rparr>])"
  by code_simp

text \<open>An assignment that satisfies the constraints of the example.\<close>

definition example_asg :: "rat key_assembly \<Rightarrow> column \<Rightarrow> nat \<Rightarrow> rat" where
  "example_asg key c row =
     (case column_type c of
        Any_Fixed \<Rightarrow>
          if col_index c = 4 then (if row = 0 then 1 else if row = 1 then 256 else 0)
          else evaluate (the (get2 (ka_fixed key) (col_index c, row)))
      | _ \<Rightarrow>
          if col_index c = 0 then (if row = 0 then 1 else if row = 1 then 2 else 0)
          else if col_index c = 1 then (if row = 0 then 5 else 256)
          else if col_index c = 2 then (if row = 0 then 7 else 0)
          else 5)"

lemma example_library:
  "inj_on (of_nat :: nat \<Rightarrow> rat) {..<max 257 (library_states example_lib)}"
  "embeds (of_nat :: nat \<Rightarrow> rat) (library_states example_lib)"
  "\<forall>(name, a)\<in>set example_lib. wf_automaton a" "map_of example_lib 0 = Some example_automaton"
  "library_table (of_nat :: nat \<Rightarrow> rat) example_lib = {(0, 0, 0, 0), (1, 5, 2, 7), (2, 256, 0, 0)}"
proof -
  show "inj_on (of_nat :: nat \<Rightarrow> rat) {..<max 257 (library_states example_lib)}"
    "embeds (of_nat :: nat \<Rightarrow> rat) (library_states example_lib)" by (simp_all add: inj_on_def embeds_def)
  show "\<forall>(name, a)\<in>set example_lib. wf_automaton a" "map_of example_lib 0 = Some example_automaton"
    by (simp_all add: example_lib_def example_automaton_def wf_automaton_def)
  show "library_table (of_nat :: nat \<Rightarrow> rat) example_lib = {(0, 0, 0, 0), (1, 5, 2, 7), (2, 256, 0, 0)}"
    by (auto simp: library_table_def example_lib_def example_automaton_def split: if_splits)
qed

lemma example_circuit:
  obtains cs' key where "scanner_configure example_cs (example_advice 0, example_advice 1, example_advice 2) example_lib = Some (cs', example_cfg)"
    and "carries_table (Assign_Table example_table_calls) 10 (example_asg key)"
    and "parse example_cfg (Column 4 Any_Fixed) False 0 (example_input None) example_state =
      Some (example_calls, Some [\<lparr>as_value = None, as_cell = region_cell 3 0 (example_advice 2)\<rparr>], snd (snd (the
        (parse example_cfg (Column 4 Any_Fixed) False 0 (example_input None) example_state))))"
    and "calls_hold_from [0, 1, 2, 0, 0] (example_asg key) (lookups_hold cs' 10 (example_asg key)) 0 example_calls"
proof -
  obtain cs' where conf: "scanner_configure example_cs (example_advice 0, example_advice 1, example_advice 2) example_lib = Some (cs', example_cfg)"
    using example_evaluates(1) by auto
  obtain key used where key: "assign_table (example_key, []) example_table_calls = Ok (key, used)"
    using example_evaluates(3) by (auto simp: is_ok_iff)
  let ?asg = "example_asg key"
  have cols: "fst ` set example_table_calls = {0, 1, 2, 3}" by (auto simp: example_table_calls_def add_entry_def example_cfg_def)
  have carries: "carries_table (Assign_Table example_table_calls) 10 ?asg"
    unfolding carries_table_def
  proof (intro exI conjI ballI allI impI, rule refl, rule key)
    show "10 = ka_usable_rows example_key" by (simp add: example_key_def)
    fix c r v assume "c \<in> fst ` set example_table_calls" "get2 (ka_fixed key) (c, r) = Some v"
    then show "?asg (Column c Any_Fixed) r = evaluate v" by (auto simp: cols example_asg_def)
  qed
  obtain arg where arg: "lookups cs' = lookups example_cs @ [arg]" "ba_selector arg = Selector (q_automaton example_cfg)"
    "\<forall>row. lookup_at arg 10 ?asg row \<longleftrightarrow> table_row example_cfg ?asg row \<in> library_table of_nat example_lib"
    by (rule lookup_rows [OF example_library(2,3) conf _ _ _ example_evaluates(2) carries]) simp_all
  have lk: "lookups_hold cs' 10 ?asg (q_automaton example_cfg) row \<longleftrightarrow> table_row example_cfg ?asg row \<in> {(0, 0, 0, 0), (1, 5, 2, 7), (2, 256, 0, 0)}" for row
    using arg by (simp add: lookups_hold_def example_cs_def cs_default_def example_library(5))
  have rows: "lookups_hold cs' 10 ?asg (q_automaton example_cfg) 0" "lookups_hold cs' 10 ?asg (q_automaton example_cfg) 1"
    unfolding lk by (simp_all add: table_row_def example_cfg_def example_asg_def)
  have calls: "example_calls = [Assign_Region [Assign_Fixed (Column 4 Any_Fixed) 0 (Some (Trivial 1))],
      Assign_Region [Assign_Fixed (Column 4 Any_Fixed) 0 (Some (Trivial 256))],
      Assign_Region [Assign_Fixed (Column 4 Any_Fixed) 0 (Some (Trivial 0))],
      Assign_Region [Assign_Advice (example_advice 0) 0 (Some (Trivial 1)),
        Constrain_Equal (region_cell 3 0 (example_advice 0)) (region_cell 0 0 (Column 4 Any_Fixed)),
        Enable_Selector (q_automaton example_cfg) 0, Assign_Advice (example_advice 1) 0 None,
        Constrain_Equal (region_cell 3 0 (example_advice 1)) (region_cell 4 0 (example_advice 3)),
        Assign_Advice (example_advice 2) 0 None, Assign_Advice (example_advice 0) 1 None,
        Enable_Selector (q_automaton example_cfg) 1, Assign_Advice (example_advice 1) 1 (Some (Trivial 256)),
        Constrain_Equal (region_cell 3 1 (example_advice 1)) (region_cell 1 0 (Column 4 Any_Fixed)),
        Assign_Advice (example_advice 2) 1 (Some (Trivial 0)),
        Constrain_Equal (region_cell 3 1 (example_advice 2)) (region_cell 2 0 (Column 4 Any_Fixed)),
        Assign_Advice (example_advice 0) 2 (Some (Trivial 0)),
        Constrain_Equal (region_cell 3 2 (example_advice 0)) (region_cell 2 0 (Column 4 Any_Fixed))]]"
    by code_simp
  have holds: "calls_hold_from [0, 1, 2, 0, 0] ?asg (lookups_hold cs' 10 ?asg) 0 example_calls"
    unfolding calls using rows by (simp add: example_asg_def)
  obtain calls r st where p: "parse example_cfg (Column 4 Any_Fixed) False 0 (example_input None) example_state = Some (calls, r, st)"
    using example_parses by auto
  then have "parse example_cfg (Column 4 Any_Fixed) False 0 (example_input None) example_state =
      Some (example_calls, Some [\<lparr>as_value = None, as_cell = region_cell 3 0 (example_advice 2)\<rparr>], snd (snd (the
        (parse example_cfg (Column 4 Any_Fixed) False 0 (example_input None) example_state))))"
    using example_parses by (simp add: example_calls_def)
  with conf carries holds show thesis by (intro that)
qed

section \<open>The circuit checks membership\<close>

text \<open>
  C6: Soundness of the scanner circuit. Whatever assignment satisfies the copy constraints, the
  constants and the selected lookups of a call of \<open>parse\<close>, with the library table in its fixed columns:
  if the input cells hold bytes, the named automaton accepts them, and the returned cells hold its
  output. The library may contain several automata; the field must embed their states and the bytes.
\<close>

theorem parse_sound:
  fixes lib :: "('i \<times> automaton) list" and asg :: "column \<Rightarrow> nat \<Rightarrow> 'f::field"
  assumes "inj_on (of_nat :: nat \<Rightarrow> 'f) {..<max 257 (library_states lib)}" and "\<forall>(name, a)\<in>set lib. wf_automaton a"
    and "scanner_configure cs (c1, c2, c3) lib = Some (cs', cfg)" and "is_advice c1" "is_advice c2" "is_advice c3"
    and "scanner_load cfg = Some table" and "carries_table table usable asg" and "set (lookups cs') \<subseteq> set (lookups circuit_cs)"
    and "parse cfg fc ev name input st = Some (calls, Some markers, st')" and "cache_holds starts asg st"
    and "calls_hold_from starts asg (lookups_hold circuit_cs usable asg) (ns_regions st) calls"
    and "map (cell_value starts asg \<circ> as_cell) input = map (\<lambda>b. of_nat (unat b)) bytes"
  shows "\<exists>a outs. map_of lib name = Some a \<and> accepts a bytes outs \<and>
    map (cell_value starts asg \<circ> as_cell) markers = map of_nat outs \<and> cache_holds starts asg st'"
  by (rule parse_sound_aux [OF assms])

theorem parse_sound_witness:
  "\<exists>outs. accepts example_automaton [5] outs \<and> map rat_of_nat outs = [7]"
proof -
  obtain cs' key where c: "scanner_configure example_cs (example_advice 0, example_advice 1, example_advice 2) example_lib = Some (cs', example_cfg)"
    "carries_table (Assign_Table example_table_calls) 10 (example_asg key)"
    "parse example_cfg (Column 4 Any_Fixed) False 0 (example_input None) example_state =
      Some (example_calls, Some [\<lparr>as_value = None, as_cell = region_cell 3 0 (example_advice 2)\<rparr>], snd (snd (the
        (parse example_cfg (Column 4 Any_Fixed) False 0 (example_input None) example_state))))"
    "calls_hold_from [0, 1, 2, 0, 0] (example_asg key) (lookups_hold cs' 10 (example_asg key)) 0 example_calls"
    by (rule example_circuit)
  have adv: "is_advice (example_advice i)" for i by simp
  have cache: "cache_holds [0, 1, 2, 0, 0] (example_asg key) example_state" by (simp add: cache_holds_def example_state_def)
  have holds: "calls_hold_from [0, 1, 2, 0, 0] (example_asg key) (lookups_hold cs' 10 (example_asg key)) (ns_regions example_state) example_calls"
    using c(4) by (simp add: example_state_def)
  have "map (cell_value [0, 1, 2, 0, 0] (example_asg key) \<circ> as_cell) (example_input None) = map (\<lambda>b :: 8 word. of_nat (unat b)) [5]"
    by (simp add: example_input_def example_asg_def)
  from parse_sound [OF example_library(1,3) c(1) adv adv adv example_evaluates(2) c(2) subset_refl c(3) cache holds this]
  obtain a outs where "map_of example_lib 0 = Some a" "accepts a [5] outs"
    "map (cell_value [0, 1, 2, 0, 0] (example_asg key) \<circ> as_cell) [\<lparr>as_value = None :: rat option, as_cell = region_cell 3 0 (example_advice 2)\<rparr>] = map rat_of_nat outs"
    by (elim exE conjE) (rule that)
  then show ?thesis by (auto simp: example_library(4) example_asg_def)
qed

text \<open>
  C7: Completeness of the scanner circuit, and its errors. On known bytes \<open>parse\<close> fails exactly when the
  run of the automaton gets stuck. Otherwise the returned values are the output of the run; and when
  the run ends in a final state, every assignment that holds the values \<open>parse\<close> assigns, the table and
  the constants satisfies all copy constraints and lookups.
\<close>

theorem parse_complete:
  fixes lib :: "('i \<times> automaton) list" and cs cs' :: "'f::field constraint_system"
  assumes "inj_on (of_nat :: nat \<Rightarrow> 'f) {..<max 257 (library_states lib)}" and "\<forall>(name, a)\<in>set lib. wf_automaton a"
    and "scanner_configure cs (c1, c2, c3) lib = Some (cs', cfg)" and "is_advice c1" "is_advice c2" "is_advice c3"
    and "\<forall>arg\<in>set (lookups cs). ba_selector arg \<noteq> Selector (snd (complex_selector cs))"
    and "map_of lib name = Some a" and "run a bytes = (states, outs, stuck)"
    and "cache_values st" and "map as_value input = map (\<lambda>b. Some (of_nat (unat b))) bytes"
  shows "\<exists>calls r st'. parse cfg fc True name input st = Some (calls, r, st') \<and> (r = None \<longleftrightarrow> stuck) \<and> cache_values st' \<and>
    (\<forall>markers. r = Some markers \<longrightarrow> map as_value markers = map (\<lambda>m. Some (of_nat m)) outs \<and>
      (\<forall>starts asg usable table. last states \<in> set (au_final_states a) \<and> scanner_load cfg = Some table \<and> carries_table table usable asg \<and>
        cache_holds starts asg st \<and> map (cell_value starts asg \<circ> as_cell) input = map (\<lambda>b. of_nat (unat b)) bytes \<and>
        follows_from starts asg (ns_regions st) calls \<longrightarrow>
        calls_hold_from starts asg (lookups_hold cs' usable asg) (ns_regions st) calls))"
  by (rule parse_complete_aux [OF assms])

theorem parse_complete_witness:
  "\<exists>calls markers st'. parse example_cfg (Column 4 Any_Fixed) True 0 (example_input (Some 5)) example_state = Some (calls, Some markers, st') \<and>
     map as_value markers = [Some 7]"
proof -
  obtain cs' where conf: "scanner_configure example_cs (example_advice 0, example_advice 1, example_advice 2) example_lib = Some (cs', example_cfg)"
    using example_evaluates(1) by auto
  have run: "run example_automaton [5] = ([0, 1], [7], False)" by (simp add: run_def example_automaton_def)
  have "\<forall>arg\<in>set (lookups example_cs). ba_selector arg \<noteq> Selector (snd (complex_selector example_cs))"
    by (simp add: example_cs_def cs_default_def)
  moreover have "cache_values example_state" by (simp add: cache_values_def example_state_def)
  moreover have "map as_value (example_input (Some 5)) = map (\<lambda>b :: 8 word. Some (of_nat (unat b))) [5]"
    by (simp add: example_input_def)
  ultimately show ?thesis
    using parse_complete [OF example_library(1,3) conf _ _ _ _ example_library(4) run, of example_state "example_input (Some 5)" "Column 4 Any_Fixed"] by auto
qed

end
