(* ===== verification/Scanner_Specs.thy ===== *)
theory Scanner_Specs
  imports Regex_Shapes Serialization Scanner_Correct
begin

text \<open>
  The static specifications of the scanner, \<open>circuits/src/parsing/scanner/static_specs.rs\<close>: the regular
  expression of JWT credentials and the library of deserialised automata. The files included in the
  binary are an argument. The specification is shown to be treated faithfully, and the circuit over
  a library whose files hold the serialised automata of such specifications to accept exactly their
  languages: regular expressions, automata, serialisation, table and parse region together.
\<close>

section \<open>The JWT specification\<close>

text \<open>Strings are turned into expressions byte by byte.\<close>

definition text_regex :: "string \<Rightarrow> regex" where
  "text_regex s = word_regex (map of_char s)"

definition jwt_string :: "nat \<Rightarrow> regex" where
  "jwt_string marker = replace_markers (\<lambda>m. if m = 1 then Some marker else None) json_string"

definition jwt_field :: "string \<Rightarrow> regex \<Rightarrow> regex" where
  "jwt_field name content =
     spaced_cat [text_regex ([CHR 0x22] @ name @ [CHR 0x22]), text_regex '':'', content]"

definition jwt_string_field :: "string \<Rightarrow> nat \<Rightarrow> regex" where
  "jwt_string_field name marker = jwt_field name (jwt_string marker)"

definition jwt_int_field :: "string \<Rightarrow> regex" where
  "jwt_int_field name = jwt_field name (non_empty_list digit)"

definition collec :: "string \<Rightarrow> regex list \<Rightarrow> string \<Rightarrow> regex" where
  "collec opening items closing =
     spaced_delimited (spaced_separated_cat items (text_regex '','')) (text_regex opening) (text_regex closing)"

definition jwt_list :: "regex \<Rightarrow> regex" where
  "jwt_list r = spaced_delimited (spaced_separated_list r (text_regex '','')) (text_regex ''['') (text_regex '']'')"

definition credential_schema :: regex where
  "credential_schema = jwt_field ''credentialSchema''
     (jwt_list (collec ''{'' [jwt_string_field ''id'' 0, jwt_string_field ''type'' 0] ''}''))"

definition public_key_jwk :: regex where
  "public_key_jwk = jwt_field ''publicKeyJwk''
     (collec ''{'' [jwt_string_field ''kty'' 0, jwt_string_field ''crv'' 0,
                    jwt_string_field ''x'' 5, jwt_string_field ''y'' 6] ''}'')"

definition credential_subject :: regex where
  "credential_subject = jwt_field ''credentialSubject''
     (collec ''{'' [jwt_string_field ''nationalId'' 1, jwt_string_field ''familyName'' 2,
                    jwt_string_field ''givenName'' 3, public_key_jwk,
                    jwt_string_field ''id'' 0, jwt_string_field ''birthDate'' 4] ''}'')"

definition issuer :: regex where
  "issuer = jwt_field ''issuer''
     (union [jwt_string 0,
             collec ''{'' [jwt_string_field ''id'' 0, jwt_string_field ''type'' 0] ''}'',
             collec ''{'' [jwt_string_field ''id'' 0] ''}''])"

definition credential_status :: regex where
  "credential_status = jwt_field ''credentialStatus''
     (collec ''{'' [jwt_string_field ''statusPurpose'' 0, jwt_int_field ''statusListIndex'',
                    jwt_string_field ''id'' 0, jwt_string_field ''type'' 0,
                    jwt_string_field ''statusListCredential'' 0] ''}'')"

definition spec_jwt :: regex where
  "spec_jwt = collec ''{''
     [jwt_string_field ''iss'' 0, jwt_string_field ''sub'' 0, jwt_int_field ''nbf'', jwt_int_field ''exp'',
      jwt_field ''vc'' (collec ''{''
        [or_regex credential_subject (spaced_cat [credential_schema, text_regex '','', credential_subject]),
         jwt_field ''type'' (jwt_list (jwt_string 0)), jwt_field ''@context'' (jwt_list (jwt_string 0)),
         issuer, credential_status] ''}'')] ''}''"

section \<open>The library\<close>

datatype std_lib_parser = Jwt

definition spec_library_data :: "8 word list \<Rightarrow> (std_lib_parser \<times> regex \<times> 8 word list) list" where
  "spec_library_data jwt_file = [(Jwt, spec_jwt, jwt_file)]"

definition spec_library ::
    "nat \<Rightarrow> nat \<Rightarrow> ('n \<times> regex \<times> 8 word list) list \<Rightarrow> ('n \<times> automaton) list option" where
  "spec_library w sz data =
     map_option (\<lambda>entries. fold (\<lambda>(name, a). AList.update name a) entries [])
       (those (map (\<lambda>(name, _, serialization).
         if serialization = [] then None
         else map_option (Pair name) (deserialize_unwrap (deserialize_automaton w sz) serialization)) data))"

section \<open>JSON strings\<close>

definition json_content :: regex where
  "json_content = list_regex (union
     [and_regex utf8_cps (byte_not_from (byte_range 0x00 0x1F @ [0x22, 0x5C])),
      terminated (word_regex [0x5C]) (byte_from [0x22, 0x5C, 0x2F, 0x62, 0x66, 0x6E, 0x72, 0x74]),
      terminated (word_regex [0x5C, 0x75])
        (repeat (byte_from (byte_range 48 57 @ byte_range 97 102 @ byte_range 65 70)) 4)])"

abbreviation with_marker :: "nat \<Rightarrow> letter \<Rightarrow> letter" where
  "with_marker m l \<equiv> l\<lparr>l_marker := m\<rparr>"

lemma map_letters_word_regex: "map_letters f (word_regex bs) = cat (map (\<lambda>b. R_Single [f (letter_of_byte b)]) bs)"
  by (simp add: word_regex_def cat_def byte_from_def hash_insert_def)

lemma json_string_eq: "json_string = delimited (map_letters (with_marker 1) json_content) (word_regex [0x22]) (word_regex [0x22])"
  by (simp add: json_string_def json_content_def Let_def mark_def)

lemma jwt_string_eq:
  "jwt_string m = delimited (map_letters (with_marker m) json_content) (word_regex [0x22]) (word_regex [0x22])"
proof -
  have "(\<lambda>l. l\<lparr>l_marker := (case if l_marker l = 1 then Some m else None of Some m \<Rightarrow> m | None \<Rightarrow> l_marker l)\<rparr>) \<circ> with_marker 1 = with_marker m"
    by (simp add: fun_eq_iff)
  then show ?thesis
    by (simp add: jwt_string_def replace_markers_def json_string_eq delimited_def cat_def map_letters_map_letters)
      (simp add: map_letters_word_regex word_regex_def cat_def byte_from_def letter_of_byte_def hash_insert_def)
qed

lemma set_byte_range: "hi < 256 \<Longrightarrow> set (byte_range lo hi) = {b. lo \<le> unat b \<and> unat b \<le> hi}"
proof (intro equalityI subsetI)
  fix b :: "8 word" assume "b \<in> {b. lo \<le> unat b \<and> unat b \<le> hi}"
  then have "unat b \<in> set [lo..<Suc hi]" "b = word_of_nat (unat b)" by (simp_all add: less_Suc_eq_le del: upt_Suc)
  then show "b \<in> set (byte_range lo hi)" unfolding byte_range_def set_map by (rule rev_image_eqI)
qed (auto simp: byte_range_def unat_of_nat)

lemma byte_lt [simp]: "unat (b :: 8 word) < 256" "unat b \<le> 255"
  using unsigned_less [of b, where 'a = nat] by simp_all

definition marked_bytes :: "nat \<Rightarrow> 8 word set \<Rightarrow> letter list set" where
  "marked_bytes m S = {[\<lparr>l_char = b, l_marker = m\<rparr>] |b. b \<in> S}"

lemma lang_byte_from: "regex_lang 256 (map_letters (with_marker m) (byte_from bs)) = marked_bytes m (set bs)"
  by (auto simp: marked_bytes_def byte_from_def letter_of_byte_def)

definition at_least :: "nat \<Rightarrow> letter list set \<Rightarrow> bool" where
  "at_least k L \<longleftrightarrow> (\<forall>w\<in>L. k \<le> length w)"

lemma at_least_simps [simp]:
  "at_least (Suc 0) (marked_bytes m S)" "at_least 0 L"
  by (auto simp: at_least_def marked_bytes_def)

lemma at_least_conc: "at_least a A \<Longrightarrow> at_least b B \<Longrightarrow> at_least (a + b) (conc A B)"
  by (fastforce simp: at_least_def conc_def)

lemma at_least_two: "at_least (Suc 0) A \<Longrightarrow> at_least (Suc 0) B \<Longrightarrow> at_least 2 (conc A B)"
  using at_least_conc [of "Suc 0" A "Suc 0" B] by (simp add: numeral_2_eq_2)

lemma at_least_one: "at_least (Suc 0) A \<Longrightarrow> at_least (Suc 0) (conc A B)"
  using at_least_conc [of "Suc 0" A 0 B] by simp

text \<open>Code points of one byte, and longer ones.\<close>

lemma lang_parts:
  "map_letters f (cat l) = R_Concat (map (map_letters f) l)"
  "map_letters f (terminated x y) = R_Concat [map_letters f x, map_letters f y]"
  "map_letters f (repeat x k) = R_Concat (replicate k (map_letters f x))"
  "map_letters f (union l) = R_Union (map (map_letters f) l)"
  by (simp_all add: cat_def repeat_def union_def terminated_def)

lemma at_least_UNION: "at_least k (\<Union>x\<in>S. f x) \<longleftrightarrow> (\<forall>x\<in>S. at_least k (f x))"
  by (auto simp: at_least_def)

lemma lang_long:
  "at_least 2 (regex_lang 256 (map_letters (with_marker m) (cat (byte_from x # byte_from y # z))))"
  "0 < k \<Longrightarrow> at_least 2 (regex_lang 256 (map_letters (with_marker m) (terminated (byte_from x) (repeat (byte_from y) k))))"
  by (cases k; simp add: lang_parts lang_byte_from at_least_two at_least_one del: map_letters.simps)+

definition utf8_long :: "regex list" where
  "utf8_long = (case utf8_cps of R_Union l \<Rightarrow> tl l | _ \<Rightarrow> [])"

lemma lang_utf8_cps:
  "regex_lang 256 (map_letters (with_marker m) utf8_cps) =
     marked_bytes m {b. unat b \<le> 0x7F} \<union> (\<Union>r\<in>set utf8_long. regex_lang 256 (map_letters (with_marker m) r))"
  "at_least 2 (\<Union>r\<in>set utf8_long. regex_lang 256 (map_letters (with_marker m) r))"
proof -
  have u: "utf8_cps = union (byte_from (byte_range 0x00 0x7F) # utf8_long)"
    by (simp add: utf8_long_def utf8_cps_def union_def)
  show "regex_lang 256 (map_letters (with_marker m) utf8_cps) =
     marked_bytes m {b. unat b \<le> 0x7F} \<union> (\<Union>r\<in>set utf8_long. regex_lang 256 (map_letters (with_marker m) r))"
    unfolding u lang_parts by (simp add: lang_byte_from set_byte_range)
  show "at_least 2 (\<Union>r\<in>set utf8_long. regex_lang 256 (map_letters (with_marker m) r))"
    unfolding at_least_UNION by (simp add: utf8_long_def utf8_cps_def union_def lang_long)
qed

text \<open>Intersections with unmarked words, and with sets of single bytes.\<close>

lemma joined_unmarked [simp]: "l_marker u = 0 \<Longrightarrow> l_char u = l_char v \<Longrightarrow> joined u v = v"
  by (simp add: joined_def)

lemma meet_all_unmarked: "meet (lists (unmarked_letters 256)) A = A"
proof (intro equalityI subsetI)
  fix w assume "w \<in> meet (lists (unmarked_letters 256)) A"
  then obtain u v where w: "w = map2 joined u v" "u \<in> lists (unmarked_letters 256)" "v \<in> A" "list_all2 joinable u v" by (auto simp: meet_def)
  from w(4,2) have "map2 joined u v = v"
    by (induction rule: list_all2_induct) (auto simp: joinable_def unmarked_letters_def)
  with w show "w \<in> A" by simp
next
  fix w assume "w \<in> A"
  moreover have "list_all2 joinable (map (with_marker 0) w) w" "map2 joined (map (with_marker 0) w) w = w"
    by (induction w) (simp_all add: joinable_def)
  moreover have "map (with_marker 0) w \<in> lists (unmarked_letters 256)" by (auto simp: unmarked_letters_def)
  ultimately show "w \<in> meet (lists (unmarked_letters 256)) A" unfolding meet_def
    by (intro CollectI exI [of _ "map (with_marker 0) w"] exI [of _ w]) simp
qed

lemma meet_bytes:
  assumes "at_least 2 X"
  shows "meet (marked_bytes m S \<union> X) (marked_bytes m T) = marked_bytes m (S \<inter> T)"
proof (intro equalityI subsetI)
  fix w assume "w \<in> meet (marked_bytes m S \<union> X) (marked_bytes m T)"
  then obtain u b where u: "w = map2 joined u [\<lparr>l_char = b, l_marker = m\<rparr>]" "u \<in> marked_bytes m S \<union> X" "b \<in> T"
    "list_all2 joinable u [\<lparr>l_char = b, l_marker = m\<rparr>]" by (auto simp: meet_def marked_bytes_def)
  then have "length u = 1" using list_all2_lengthD by fastforce
  with u(2) assms have "u \<in> marked_bytes m S" by (auto simp: at_least_def)
  with u show "w \<in> marked_bytes m (S \<inter> T)" by (auto simp: marked_bytes_def joinable_def joined_def)
next
  fix w assume "w \<in> marked_bytes m (S \<inter> T)"
  then obtain b where b: "w = [\<lparr>l_char = b, l_marker = m\<rparr>]" "b \<in> S" "b \<in> T" by (auto simp: marked_bytes_def)
  then have "w \<in> marked_bytes m S \<union> X" "w \<in> marked_bytes m T" "list_all2 joinable w w" "w = map2 joined w w"
    by (auto simp: marked_bytes_def joinable_def joined_def)
  then show "w \<in> meet (marked_bytes m S \<union> X) (marked_bytes m T)" unfolding meet_def by blast
qed

text \<open>The units of a JSON string: plain bytes, simple escapes and escapes of four hexadecimal digits.\<close>

definition plain_bytes :: "8 word set" where
  "plain_bytes = {b. 0x20 \<le> unat b \<and> unat b \<le> 0x7F} - {0x22, 0x5C}"

definition escape_bytes :: "8 word set" where
  "escape_bytes = {0x22, 0x5C, 0x2F, 0x62, 0x66, 0x6E, 0x72, 0x74}"

definition hex_bytes :: "8 word set" where
  "hex_bytes = {b. 48 \<le> unat b \<and> unat b \<le> 57 \<or> 97 \<le> unat b \<and> unat b \<le> 102 \<or> 65 \<le> unat b \<and> unat b \<le> 70}"

definition json_units :: "8 word list set" where
  "json_units = (\<lambda>b. [b]) ` plain_bytes \<union> (\<lambda>b. [0x5C, b]) ` escape_bytes \<union>
     (\<lambda>(h1, h2, h3, h4). [0x5C, 0x75, h1, h2, h3, h4]) ` (hex_bytes \<times> hex_bytes \<times> hex_bytes \<times> hex_bytes)"

abbreviation marked_word :: "nat \<Rightarrow> 8 word list \<Rightarrow> letter list" where
  "marked_word m \<equiv> map (\<lambda>b. \<lparr>l_char = b, l_marker = m\<rparr>)"

lemma lang_unescaped:
  "regex_lang 256 (map_letters (with_marker m) (and_regex utf8_cps (byte_not_from (byte_range 0x00 0x1F @ [0x22, 0x5C]))))
     = marked_word m ` (\<lambda>b. [b]) ` plain_bytes"
proof -
  have "regex_lang 256 (map_letters (with_marker m) (and_regex utf8_cps (byte_not_from (byte_range 0x00 0x1F @ [0x22, 0x5C])))) =
    marked_bytes m ({b. unat b \<le> 0x7F} \<inter> {b. b \<notin> set (byte_range 0x00 0x1F) \<and> b \<noteq> 0x22 \<and> b \<noteq> 0x5C})"
    unfolding and_regex_def inter_all_def byte_not_from_def map_letters.simps list.map regex_lang.simps lang_byte_from
      fold_simps meet_all_unmarked lang_utf8_cps(1) ALPHABET_MAX_SIZE_def set_filter
    by (auto simp: set_byte_range meet_bytes [OF lang_utf8_cps(2)] intro!: arg_cong [where f = "marked_bytes m"])
  also have "\<dots> = marked_word m ` (\<lambda>b. [b]) ` plain_bytes"
    by (auto simp: marked_bytes_def plain_bytes_def set_byte_range image_image)
  finally show ?thesis .
qed

lemma lang_escapes:
  "regex_lang 256 (map_letters (with_marker m) (terminated (word_regex [0x5C])
       (byte_from [0x22, 0x5C, 0x2F, 0x62, 0x66, 0x6E, 0x72, 0x74]))) = marked_word m ` (\<lambda>b. [0x5C, b]) ` escape_bytes" (is ?escape)
  "regex_lang 256 (map_letters (with_marker m) (terminated (word_regex [0x5C, 0x75])
       (repeat (byte_from (byte_range 48 57 @ byte_range 97 102 @ byte_range 65 70)) 4)))
     = marked_word m ` (\<lambda>(h1, h2, h3, h4). [0x5C, 0x75, h1, h2, h3, h4]) ` (hex_bytes \<times> hex_bytes \<times> hex_bytes \<times> hex_bytes)"
    (is ?unicode)
proof -
  have c: "regex_lang 256 (R_Concat l) = concs (map (regex_lang 256) l)" for l by simp
  have r: "replicate 4 x = [x, x, x, x]" for x :: regex by (simp add: eval_nat_numeral)
  have e: "set [0x22, 0x5C, 0x2F, 0x62, 0x66, 0x6E, 0x72, 0x74] = escape_bytes" by (simp add: escape_bytes_def)
  have h: "set (byte_range 48 57 @ byte_range 97 102 @ byte_range 65 70) = hex_bytes"
    by (auto simp: set_byte_range hex_bytes_def)
  have m: "marked_bytes m S = (\<lambda>b. [\<lparr>l_char = b, l_marker = m\<rparr>]) ` S" for S by (auto simp: marked_bytes_def)
  have i: "conc (f ` A) (g ` B) = (\<lambda>(x, y). f x @ g y) ` (A \<times> B)" for f :: "'x \<Rightarrow> letter list" and g :: "'y \<Rightarrow> letter list" and A B
    by (force simp: conc_def)
  have n: "conc A {[]} = A" for A :: "letter list set" by (simp add: conc_def)
  have s: "f ` ({x} \<times> B) = (\<lambda>y. f (x, y)) ` B" for f :: "'x \<times> 'y \<Rightarrow> letter list" and x B by auto
  note simps = concs_Cons concs_Nil i n s image_image case_prod_conv append.simps list.map
  show ?escape unfolding lang_parts word_regex_def list.map c lang_byte_from e m
    by (simp only: set_simps simps)
  show ?unicode unfolding lang_parts word_regex_def r list.map c lang_byte_from h m
    by (simp only: set_simps simps) (simp add: s image_image case_prod_beta)
qed

lemma star_image: "star ((`) (map f) A) = map f ` star A"
proof -
  have vs: "\<exists>vs. ws = map (map f) vs \<and> set vs \<subseteq> A" if "set ws \<subseteq> map f ` A" for ws
    using that
  proof (induction ws)
    case (Cons w ws)
    then obtain v vs where "w = map f v" "v \<in> A" "ws = map (map f) vs" "set vs \<subseteq> A" by auto
    then show ?case by (intro exI [of _ "v # vs"]) simp
  qed simp
  show ?thesis
  proof (intro equalityI subsetI)
    fix w assume "w \<in> star ((`) (map f) A)"
    then obtain ws where "w = concat ws" "set ws \<subseteq> map f ` A" by (auto simp: star_def)
    with vs obtain vs where "w = map f (concat vs)" "set vs \<subseteq> A" by (metis map_concat)
    then show "w \<in> map f ` star A" by (auto simp: star_def)
  next
    fix w assume "w \<in> map f ` star A"
    then obtain vs where "w = concat (map (map f) vs)" "set vs \<subseteq> A" by (auto simp: star_def map_concat)
    then have "w = concat (map (map f) vs) \<and> set (map (map f) vs) \<subseteq> map f ` A" by auto
    then show "w \<in> star ((`) (map f) A)" unfolding star_def by blast
  qed
qed

lemma lang_json_content:
  "regex_lang 256 (map_letters (with_marker m) json_content) = marked_word m ` star json_units"
proof -
  have "regex_lang 256 (map_letters (with_marker m) (list_regex r)) = star (regex_lang 256 (map_letters (with_marker m) r))" for r
    by (simp add: list_regex_def or_regex_def union_def non_empty_list_def epsilon_def cat_def star_plus)
  moreover have "regex_lang 256 (map_letters f (union [x, y, z])) =
    regex_lang 256 (map_letters f x) \<union> regex_lang 256 (map_letters f y) \<union> regex_lang 256 (map_letters f z)" for f x y z
    by (simp add: union_def Un_assoc)
  ultimately have "regex_lang 256 (map_letters (with_marker m) json_content) = star (marked_word m ` json_units)"
    unfolding json_content_def json_units_def image_Un by (simp only: lang_unescaped lang_escapes)
  then show ?thesis by (simp add: star_image)
qed

lemma lang_jwt_string:
  "regex_lang 256 (jwt_string m) = (\<lambda>w. [letter_of_byte 0x22] @ marked_word m w @ [letter_of_byte 0x22]) ` star json_units"
proof -
  have "regex_lang 256 (word_regex [b]) = {[letter_of_byte b]}" for b
    by (simp add: word_regex_def cat_def byte_from_def conc_def letter_of_byte_def)
  then show ?thesis by (simp add: jwt_string_eq delimited_def cat_def lang_json_content) (force simp: conc_def)
qed

text \<open>Consequently a JSON string consists of ASCII characters.\<close>

lemma json_units_ascii:
  assumes "w \<in> star json_units" "b \<in> set w"
  shows "unat b < 128"
proof -
  obtain u where "u \<in> json_units" "b \<in> set u" using assms by (fastforce simp: star_def)
  then show ?thesis by (auto simp: json_units_def plain_bytes_def escape_bytes_def hex_bytes_def)
qed

section \<open>The specification is treated faithfully\<close>

lemma distinct_byte_range: "hi < 256 \<Longrightarrow> distinct (byte_range lo hi)"
proof -
  assume "hi < 256"
  then have "unat (word_of_nat x :: 8 word) = x" if "x \<in> set [lo..<Suc hi]" for x
    using that by (simp add: unat_of_nat del: upt_Suc)
  then have "inj_on (word_of_nat :: nat \<Rightarrow> 8 word) (set [lo..<Suc hi])" by (metis inj_onI)
  then show ?thesis unfolding byte_range_def by (simp add: distinct_map)
qed

lemma byte_range_empty: "byte_range lo hi = [] \<longleftrightarrow> hi < lo"
  by (auto simp: byte_range_def)

lemma nice_bytes: "nice 256 (byte_from l) \<longleftrightarrow> distinct l \<and> l \<noteq> []"
  by (cases l) auto

lemmas byte_ranges = nice_bytes distinct_byte_range set_byte_range byte_range_empty

lemma nice_utf8_cps: "nice 256 utf8_cps" "no_inter utf8_cps"
proof -
  have "{b :: 8 word. 0xE1 \<le> unat b \<and> unat b \<le> 0xEC} \<inter> {b. 0xEE \<le> unat b \<and> unat b \<le> 0xEF} = {}" by auto
  then show "nice 256 utf8_cps" unfolding utf8_cps_def
    by (intro nice_union) (simp_all add: byte_ranges repeat_def del: nice_byte_from)
  show "no_inter utf8_cps"
    by (simp add: utf8_cps_def)
qed

lemma nice_escapes:
  "nice 256 (terminated (word_regex [0x5C]) (byte_from [0x22, 0x5C, 0x2F, 0x62, 0x66, 0x6E, 0x72, 0x74]))"
  "no_inter (terminated (word_regex [0x5C]) (byte_from [0x22, 0x5C, 0x2F, 0x62, 0x66, 0x6E, 0x72, 0x74]))"
  "nice 256 (terminated (word_regex [0x5C, 0x75]) (repeat (byte_from (byte_range 48 57 @ byte_range 97 102 @ byte_range 65 70)) 4))"
  "no_inter (terminated (word_regex [0x5C, 0x75]) (repeat (byte_from (byte_range 48 57 @ byte_range 97 102 @ byte_range 65 70)) 4))"
proof -
  have "{b :: 8 word. 48 \<le> unat b \<and> unat b \<le> 57} \<inter> ({b. 97 \<le> unat b \<and> unat b \<le> 102} \<union> {b. 65 \<le> unat b \<and> unat b \<le> 70}) = {}"
    "{b :: 8 word. 97 \<le> unat b \<and> unat b \<le> 102} \<inter> {b. 65 \<le> unat b \<and> unat b \<le> 70} = {}" by auto
  then show "nice 256 (terminated (word_regex [0x5C, 0x75]) (repeat (byte_from (byte_range 48 57 @ byte_range 97 102 @ byte_range 65 70)) 4))"
    by (simp add: byte_ranges repeat_def del: nice_byte_from)
qed (simp_all add: nice_bytes del: nice_byte_from)

lemma nice_byte_not_from: "b \<notin> set l \<Longrightarrow> nice 256 (byte_not_from l)" "no_inter (byte_not_from l)"
proof -
  assume "b \<notin> set l"
  then have "b \<in> set (filter (\<lambda>b. b \<notin> set l) (byte_range 0 (ALPHABET_MAX_SIZE - 1)))"
    by (simp add: set_byte_range ALPHABET_MAX_SIZE_def)
  then show "nice 256 (byte_not_from l)" unfolding byte_not_from_def nice_bytes
    by (metis ALPHABET_MAX_SIZE_def diff_less distinct_byte_range distinct_filter list.set(1) empty_iff zero_less_numeral less_numeral_extra(1))
qed (simp add: byte_not_from_def)

lemma nice_json_content: "nice 256 (map_letters (with_marker m) json_content)"
proof -
  note nm = nice_map_letters [where f = "with_marker m"]
  let ?A = "map_letters (with_marker m) (and_regex utf8_cps (byte_not_from (byte_range 0x00 0x1F @ [0x22, 0x5C])))"
  have "(0x20 :: 8 word) \<notin> set (byte_range 0x00 0x1F @ [0x22, 0x5C])" by (simp add: set_byte_range)
  from nice_byte_not_from(1) [OF this] have A: "nice 256 (map_letters (with_marker m) utf8_cps)"
    "nice 256 (map_letters (with_marker m) (byte_not_from (byte_range 0x00 0x1F @ [0x22, 0x5C])))"
    by (simp_all add: nm nice_utf8_cps nice_byte_not_from(2))
  have "0x20 \<in> plain_bytes" by (simp add: plain_bytes_def)
  then have "\<exists>w\<in>regex_lang 256 ?A. w \<noteq> []" unfolding lang_unescaped by force
  with A have "nice 256 ?A" by (simp add: and_regex_def inter_all_def del: regex_lang.simps)
  moreover have "nice 256 (map_letters (with_marker m) x)" if "nice 256 x" "no_inter x" for x using nm that by simp
  note this [OF nice_escapes(1,2)] this [OF nice_escapes(3,4)]
  ultimately have "nice 256 (union [?A, map_letters (with_marker m) (terminated (word_regex [0x5C]) (byte_from [0x22, 0x5C, 0x2F, 0x62, 0x66, 0x6E, 0x72, 0x74])),
    map_letters (with_marker m) (terminated (word_regex [0x5C, 0x75]) (repeat (byte_from (byte_range 48 57 @ byte_range 97 102 @ byte_range 65 70)) 4))])"
    by (intro nice_union) simp_all
  then have "nice 256 (list_regex (union [?A, map_letters (with_marker m) (terminated (word_regex [0x5C]) (byte_from [0x22, 0x5C, 0x2F, 0x62, 0x66, 0x6E, 0x72, 0x74])),
    map_letters (with_marker m) (terminated (word_regex [0x5C, 0x75]) (repeat (byte_from (byte_range 48 57 @ byte_range 97 102 @ byte_range 65 70)) 4))]))"
    by (rule nice_list)
  moreover have "map_letters f (list_regex (union l)) = list_regex (union (map (map_letters f) l))" for f l
    by (simp add: list_regex_def or_regex_def union_def non_empty_list_def epsilon_def cat_def)
  ultimately show ?thesis by (simp add: json_content_def)
qed

lemma nice_jwt_string [simp]: "nice 256 (jwt_string m)"
  by (simp add: jwt_string_eq nice_json_content)

lemma nice_text [simp]: "s \<noteq> [] \<Longrightarrow> nice 256 (text_regex s)"
  by (simp add: text_regex_def)

lemma nice_digit [simp]: "nice 256 digit"
  by (simp add: digit_def byte_ranges del: nice_byte_from)

lemma nice_field [simp]: "nice 256 r \<Longrightarrow> nice 256 (jwt_field name r)"
  by (simp add: jwt_field_def)

lemma nice_fields [simp]: "nice 256 (jwt_string_field name m)" "nice 256 (jwt_int_field name)"
  by (simp_all add: jwt_string_field_def jwt_int_field_def)

lemma nice_collec [simp]:
  "items \<noteq> [] \<Longrightarrow> \<forall>r\<in>set items. nice 256 r \<Longrightarrow> opening \<noteq> [] \<Longrightarrow> closing \<noteq> [] \<Longrightarrow> nice 256 (collec opening items closing)"
  by (simp add: collec_def)

lemma nice_jwt_list [simp]: "nice 256 r \<Longrightarrow> nice 256 (jwt_list r)"
  by (simp add: jwt_list_def)

lemma nice_spec_jwt: "nice 256 spec_jwt"
  by (simp add: spec_jwt_def credential_subject_def credential_schema_def issuer_def credential_status_def public_key_jwk_def nice_union)

lemma jwt_string_markers: "m \<in> M \<Longrightarrow> 0 \<in> M \<Longrightarrow> markers_within M (jwt_string m)"
  by (auto simp: jwt_string_eq intro!: markers_within_map)

lemma spec_jwt_markers: "markers_within {..6} spec_jwt"
  by (simp add: spec_jwt_def credential_subject_def credential_schema_def issuer_def credential_status_def public_key_jwk_def
    collec_def jwt_field_def jwt_list_def jwt_string_field_def jwt_int_field_def text_regex_def digit_def jwt_string_markers)

section \<open>The circuit over the library\<close>

lemma to_automaton_language:
  assumes "faithful ALPHABET_MAX_SIZE r" and "to_automaton r = Some A"
  shows "wf_automaton A" and "accepts A input outputs \<longleftrightarrow>
    (\<exists>w\<in>regex_lang ALPHABET_MAX_SIZE r. map l_char w = input \<and> map l_marker w = outputs)"
proof -
  have "markers_within UNIV r" by (induction r) auto
  with to_raw_automaton_faithful [OF assms(1) order_refl, of UNIV] obtain a where
    a: "to_raw_automaton ALPHABET_MAX_SIZE r = Some a" "good ALPHABET_MAX_SIZE UNIV (regex_lang ALPHABET_MAX_SIZE r) a" by auto
  then have w: "wf_raw ALPHABET_MAX_SIZE a" "markers_cover a" "language a = regex_lang ALPHABET_MAX_SIZE r" by (simp_all add: good_def)
  have A: "normalise a = Some A" using assms(2) a(1) by (simp add: to_automaton_def to_automaton_param_def)
  show "wf_automaton A" by (rule normalise_wf [OF w(1,2) A])
  obtain c where "language c = language a" "represents A c"
    by (rule normalise_spec [OF w(1,2)]) (use A in blast)
  with accepts_language [of A c input outputs] w(3) show "accepts A input outputs \<longleftrightarrow>
    (\<exists>w\<in>regex_lang ALPHABET_MAX_SIZE r. map l_char w = input \<and> map l_marker w = outputs)" by simp
qed

lemma wf_canonical: "wf_automaton a \<Longrightarrow> wf_automaton (canonical a)"
  by (auto simp: wf_automaton_def canonical_def distinct_map)

lemma serialize_automaton_nonempty: "serialize_automaton a \<noteq> []"
  by (simp add: serialize_automaton_def serialize_usize_def serialize_u64_def to_le_bytes_def)

text \<open>The files hold the serialised automata of the specifications.\<close>

definition up_to_date :: "nat \<Rightarrow> nat \<Rightarrow> ('n \<times> regex \<times> 8 word list) list \<Rightarrow> bool" where
  "up_to_date w sz data \<longleftrightarrow> distinct (map fst data) \<and> (\<forall>(name, r, file)\<in>set data.
     \<exists>A. to_automaton r = Some A \<and> valid_automaton w sz A \<and> file = serialize_automaton A)"

lemma spec_library_up_to_date:
  assumes "up_to_date w sz data"
  shows "spec_library w sz data = Some (map (\<lambda>(name, r, file). (name, canonical (the (to_automaton r)))) data)"
proof -
  let ?load = "\<lambda>(name, _, serialization). if serialization = [] then None
    else map_option (Pair name) (deserialize_unwrap (deserialize_automaton w sz) serialization)"
  let ?entry = "\<lambda>(name, r, file). (name, canonical (the (to_automaton r)))"
  have "?load e = Some (?entry e)" if "e \<in> set data" for e
  proof -
    obtain name r contents where e: "e = (name, r, contents)" by (metis prod_cases3)
    with assms that obtain A where "to_automaton r = Some A" "valid_automaton w sz A" "contents = serialize_automaton A"
      by (auto simp: up_to_date_def)
    with automaton.unwrap [of w sz A "[]"] show ?thesis by (simp add: e serialize_automaton_nonempty)
  qed
  then have "map ?load data = map Some (map ?entry data)" by simp
  moreover have "those (map Some xs) = Some xs" for xs :: "('a \<times> automaton) list" by (induction xs) simp_all
  ultimately have load: "those (map ?load data) = Some (map ?entry data)" by metis
  have "distinct (map fst (map ?entry data))" using assms by (simp add: up_to_date_def comp_def case_prod_beta)
  then show ?thesis unfolding spec_library_def load using map_collect_distinct [of "map ?entry data" "[]"] by simp
qed

text \<open>
  The JSON strings of the scanner: \<open>json_string\<close> denotes exactly the words that consist of a quotation
  mark, units marked with 1 and a quotation mark, a unit being a byte from 0x20 to 0x7F other than
  quotation mark and backslash, one of eight simple escapes, or an escape of four hexadecimal digits.
  In particular no byte of a longer UTF-8 code point is accepted, because the intersection is taken
  with sets of single bytes, while the comment of \<open>json_string\<close> admits all code points from 0x20 on.
\<close>

lemma json_string_words:
  "regex_lang 256 json_string = (\<lambda>w. [letter_of_byte 0x22] @ marked_word 1 w @ [letter_of_byte 0x22]) ` star json_units"
  "regex_lang 256 json_string \<subseteq> lists {l. unat (l_char l) < 128}"
proof -
  have "json_string = jwt_string 1" by (simp add: json_string_eq jwt_string_eq)
  then show *: "regex_lang 256 json_string = (\<lambda>w. [letter_of_byte 0x22] @ marked_word 1 w @ [letter_of_byte 0x22]) ` star json_units"
    using lang_jwt_string [of 1] by simp
  show "regex_lang 256 json_string \<subseteq> lists {l. unat (l_char l) < 128}" unfolding *
    by (auto simp: letter_of_byte_def json_units_ascii)
qed

text \<open>
  C8: Regular expressions, automata, serialisation, table and circuit together. When the files of the
  library hold the serialised automata of faithfully treated expressions, loading the library succeeds,
  and any assignment that satisfies the copies, constants and lookups of a call of \<open>parse\<close> on bytes has a
  word of the language of the named expression with these bytes, its markers being in the returned cells.
\<close>

theorem library_circuit_sound:
  fixes data :: "('i \<times> regex \<times> 8 word list) list" and asg :: "column \<Rightarrow> nat \<Rightarrow> 'f::field"
  assumes "up_to_date w sz data" and "\<forall>(name, r, file)\<in>set data. faithful ALPHABET_MAX_SIZE r"
    and "inj_on (of_nat :: nat \<Rightarrow> 'f) {..<max 257 (library_states (the (spec_library w sz data)))}"
    and "scanner_configure cs (c1, c2, c3) (the (spec_library w sz data)) = Some (cs', cfg)" and "is_advice c1" "is_advice c2" "is_advice c3"
    and "scanner_load cfg = Some table" and "carries_table table usable asg" and "set (lookups cs') \<subseteq> set (lookups circuit_cs)"
    and "parse cfg fc ev name input st = Some (calls, Some markers, st')" and "cache_holds starts asg st"
    and "calls_hold_from starts asg (lookups_hold circuit_cs usable asg) (ns_regions st) calls"
    and "map (cell_value starts asg \<circ> as_cell) input = map (\<lambda>b. of_nat (unat b)) bytes"
  shows "(\<exists>lib. spec_library w sz data = Some lib) \<and> (\<exists>r file word. (name, r, file) \<in> set data \<and>
    word \<in> regex_lang ALPHABET_MAX_SIZE r \<and> map l_char word = bytes \<and>
    map (cell_value starts asg \<circ> as_cell) markers = map (of_nat \<circ> l_marker) word)"
proof -
  let ?lib = "map (\<lambda>(name, r, file). (name, canonical (the (to_automaton r)))) data"
  note lib = spec_library_up_to_date [OF assms(1)]
  have entry: "wf_automaton (canonical A) \<and> (accepts (canonical A) bytes outs \<longleftrightarrow>
      (\<exists>w\<in>regex_lang ALPHABET_MAX_SIZE r. map l_char w = bytes \<and> map l_marker w = outs))"
    if "(name, r, contents) \<in> set data" "A = the (to_automaton r)" for name r contents A outs
  proof -
    from that assms(1,2) have A: "to_automaton r = Some A" "faithful ALPHABET_MAX_SIZE r" by (auto simp: up_to_date_def)
    note l = to_automaton_language [OF A(2,1)]
    then have "distinct (map fst (au_transitions A))" by (simp add: wf_automaton_def)
    with l show ?thesis by (simp add: wf_canonical accepts_canonical)
  qed
  then have "\<forall>(name, a)\<in>set ?lib. wf_automaton a" by fastforce
  from parse_sound_aux [OF assms(3) [unfolded lib option.sel] this assms(4) [unfolded lib option.sel] assms(5-)] obtain a outs where
    a: "map_of ?lib name = Some a" "accepts a bytes outs" "map (cell_value starts asg \<circ> as_cell) markers = map of_nat outs" by blast
  from map_of_SomeD [OF a(1)] obtain r contents where r: "(name, r, contents) \<in> set data" "a = canonical (the (to_automaton r))" by auto
  with entry [OF r(1) refl] a(2) obtain word where word: "word \<in> regex_lang ALPHABET_MAX_SIZE r" "map l_char word = bytes" "map l_marker word = outs"
    by (auto simp del: regex_lang.simps)
  have "map (cell_value starts asg \<circ> as_cell) markers = map (of_nat \<circ> l_marker) word" by (simp only: a(3) word(3) [symmetric] map_map)
  with r(1) word(1,2) lib show ?thesis by blast
qed

text \<open>The expression for byte 5 marked with 7, whose automaton is the one of the example circuit.\<close>

definition example_data :: "(nat \<times> regex \<times> 8 word list) list" where
  "example_data = [(0, R_Single [\<lparr>l_char = 5, l_marker = 7\<rparr>], serialize_automaton example_automaton)]"

lemma example_to_automaton: "to_automaton (R_Single [\<lparr>l_char = 5, l_marker = 7\<rparr>]) = Some example_automaton"
  by code_simp

lemma example_data_up_to_date:
  "up_to_date 64 32 example_data" "\<forall>(name, r, file)\<in>set example_data. faithful ALPHABET_MAX_SIZE r"
  "spec_library 64 32 example_data = Some example_lib"
proof -
  have "valid_automaton 64 32 example_automaton"
    by (simp add: valid_automaton_def example_automaton_def is_usize_def in_memory_def)
  then show u: "up_to_date 64 32 example_data" by (simp add: up_to_date_def example_data_def example_to_automaton)
  show "\<forall>(name, r, file)\<in>set example_data. faithful ALPHABET_MAX_SIZE r" by (simp add: example_data_def F_Single)
  have "canonical example_automaton = example_automaton" by (simp add: canonical_def example_automaton_def)
  then show "spec_library 64 32 example_data = Some example_lib"
    using spec_library_up_to_date [OF u] by (simp add: example_data_def example_lib_def example_to_automaton)
qed

theorem library_circuit_sound_witness:
  "\<exists>word. word \<in> regex_lang ALPHABET_MAX_SIZE (R_Single [\<lparr>l_char = 5, l_marker = 7\<rparr>]) \<and> map l_char word = [5] \<and>
     map (rat_of_nat \<circ> l_marker) word = [7]"
proof -
  have the: "the (spec_library 64 32 example_data) = example_lib" by (simp add: example_data_up_to_date(3))
  obtain cs' key where c: "scanner_configure example_cs (example_advice 0, example_advice 1, example_advice 2) example_lib = Some (cs', example_cfg)"
    "carries_table (Assign_Table example_table_calls) 10 (example_asg key)"
    "parse example_cfg (Column 4 Any_Fixed) False 0 (example_input None) example_state =
      Some (example_calls, Some [\<lparr>as_value = None, as_cell = region_cell 3 0 (example_advice 2)\<rparr>], snd (snd (the
        (parse example_cfg (Column 4 Any_Fixed) False 0 (example_input None) example_state))))"
    "calls_hold_from [0, 1, 2, 0, 0] (example_asg key) (lookups_hold cs' 10 (example_asg key)) 0 example_calls"
    by (rule example_circuit)
  have adv: "is_advice (example_advice i)" for i by simp
  have cache: "cache_holds [0, 1, 2, 0, 0] (example_asg key) example_state" by (simp add: cache_holds_def example_state_def)
  have holds: "calls_hold_from [0, 1, 2, 0, 0] (example_asg key) (lookups_hold cs' 10 (example_asg key)) (ns_regions example_state) example_calls"
    using c(4) by (simp add: example_state_def)
  have "map (cell_value [0, 1, 2, 0, 0] (example_asg key) \<circ> as_cell) (example_input None) = map (\<lambda>b :: 8 word. of_nat (unat b)) [5]"
    by (simp add: example_input_def example_asg_def)
  from library_circuit_sound [OF example_data_up_to_date(1,2), unfolded the, OF example_library(1) c(1) adv adv adv example_evaluates(2) c(2)
      subset_refl c(3) cache holds this]
  obtain r contents word where "(0, r, contents) \<in> set example_data" "word \<in> regex_lang ALPHABET_MAX_SIZE r" "map l_char word = [5]"
    "map (cell_value [0, 1, 2, 0, 0] (example_asg key) \<circ> as_cell) [\<lparr>as_value = None :: rat option, as_cell = region_cell 3 0 (example_advice 2)\<rparr>]
      = map (rat_of_nat \<circ> l_marker) word"
    by (elim exE conjE) (rule that)
  then show ?thesis by (intro exI [of _ word]) (simp add: example_data_def example_asg_def del: regex_lang.simps)
qed

end
