(* ===== verification/Jwt_Language.thy ===== *)
theory Jwt_Language
  imports Scanner_Specs
begin

text \<open>
  The format of JWT credentials as documented at \<open>StdLibParser::Jwt\<close>, stated independently of the
  regular expression: JSON values, the words that denote a value, and the values of the format. The
  language of \<open>spec_jwt\<close> consists of the words of these values, and the bytes of such a word determine
  its markers.
\<close>

section \<open>JSON values and their words\<close>

datatype json =
  J_String "8 word list"
| J_Number "8 word list"
| J_Array "json list"
| J_Object "(string \<times> json) list"

abbreviation unmarked :: "string \<Rightarrow> letter list" where
  "unmarked s \<equiv> marked_word 0 (map of_char s)"

definition gaps :: "letter list set" where
  "gaps = lists ((\<lambda>b. \<lparr>l_char = b, l_marker = 0\<rparr>) ` {32, 9, 10})"

definition enclosed :: "string \<Rightarrow> string \<Rightarrow> letter list set \<Rightarrow> letter list set" where
  "enclosed opening closing A = concs [{unmarked opening}, gaps, A, gaps, {unmarked closing}]"

fun separated :: "letter list set list \<Rightarrow> letter list set" where
  "separated [] = {[]}"
| "separated [A] = A"
| "separated (A # B # As) = concs [A, gaps, {unmarked '',''}, gaps, separated (B # As)]"

definition member_words :: "string \<Rightarrow> letter list set \<Rightarrow> letter list set" where
  "member_words key A = concs [{unmarked ([CHR 0x22] @ key @ [CHR 0x22])}, gaps, {unmarked '':''}, gaps, A]"

text \<open>The contents of a string are marked as the name of its field says, everything else is not.\<close>

definition jwt_marker :: "string \<Rightarrow> nat" where
  "jwt_marker key = (case map_of [(''nationalId'', 1), (''familyName'', 2), (''givenName'', 3),
     (''birthDate'', 4), (''x'', 5), (''y'', 6)] key of Some m \<Rightarrow> m | None \<Rightarrow> 0)"

fun json_words :: "nat \<Rightarrow> json \<Rightarrow> letter list set" where
  "json_words m (J_String c) = {[letter_of_byte 0x22] @ marked_word m c @ [letter_of_byte 0x22]}"
| "json_words m (J_Number d) = {marked_word 0 d}"
| "json_words m (J_Array js) = enclosed ''['' '']'' (separated (map (json_words 0) js))"
| "json_words m (J_Object fs) =
     enclosed ''{'' ''}'' (separated (map (\<lambda>(key, j). member_words key (json_words (jwt_marker key) j)) fs))"

section \<open>The format\<close>

text \<open>The contents of strings are those of the expression \<open>json_string\<close>.\<close>

definition strings :: "json set" where
  "strings = J_String ` {c. [letter_of_byte 0x22] @ marked_word 1 c @ [letter_of_byte 0x22] \<in> regex_lang 256 json_string}"

definition numbers :: "json set" where
  "numbers = J_Number ` {d. d \<noteq> [] \<and> (\<forall>b\<in>set d. 48 \<le> unat b \<and> unat b \<le> 57)}"

definition arrays :: "json set \<Rightarrow> json set" where
  "arrays P = J_Array ` lists P"

definition objects :: "(string \<times> json set) list \<Rightarrow> json set" where
  "objects Ps = J_Object ` {fs. list_all2 (\<lambda>(key, P) (name, j). name = key \<and> j \<in> P) Ps fs}"







section \<open>The words of a set of values\<close>

definition words_of :: "nat \<Rightarrow> json set \<Rightarrow> letter list set" where
  "words_of m P = (\<Union>j\<in>P. json_words m j)"

lemma words_of_Un: "words_of m (P \<union> Q) = words_of m P \<union> words_of m Q"
  by (simp add: words_of_def)

lemma conc_UNION: "conc A (\<Union>i\<in>I. M i) = (\<Union>i\<in>I. conc A (M i))" "conc (\<Union>i\<in>I. M i) A = (\<Union>i\<in>I. conc (M i) A)"
  by (auto simp: conc_def)


lemma conc_empty [simp]: "conc A {} = {}" "conc {} A = {}"
  by (simp_all add: conc_def)

lemma enclosed_UNION: "(\<Union>i\<in>I. enclosed opening closing (M i)) = enclosed opening closing (\<Union>i\<in>I. M i)"
  by (simp add: enclosed_def conc_UNION)

lemma member_words_UNION: "(\<Union>i\<in>I. member_words key (M i)) = member_words key (\<Union>i\<in>I. M i)"
  by (simp add: member_words_def conc_UNION)

lemma separated_Cons:
  "separated (A # As) = conc A (if As = [] then {[]} else concs [gaps, {unmarked '',''}, gaps, separated As])"
  by (cases As) simp_all

lemma concs_lists_UNION: "(\<Union>ys\<in>lists P. concs (map f ys)) = star (\<Union>y\<in>P. f y)"
proof (intro equalityI subsetI)
  fix w assume "w \<in> (\<Union>ys\<in>lists P. concs (map f ys))"
  then obtain ys where "ys \<in> lists P" "w \<in> concs (map f ys)" by blast
  then have "\<exists>ws. w = concat ws \<and> set ws \<subseteq> (\<Union>y\<in>P. f y)"
  proof (induction ys arbitrary: w)
    case (Cons y ys)
    then obtain u v where "w = u @ v" "u \<in> f y" "v \<in> concs (map f ys)" by (auto simp: conc_def)
    with Cons obtain ws where "v = concat ws" "set ws \<subseteq> (\<Union>y\<in>P. f y)" by blast
    with \<open>w = u @ v\<close> \<open>u \<in> f y\<close> Cons.hyps(1) show ?case by (intro exI [of _ "u # ws"]) auto
  qed (auto intro: exI [of _ "[]"])
  then show "w \<in> star (\<Union>y\<in>P. f y)" by (auto simp: star_def)
next
  fix w assume "w \<in> star (\<Union>y\<in>P. f y)"
  then obtain ws where "w = concat ws" "set ws \<subseteq> (\<Union>y\<in>P. f y)" by (auto simp: star_def)
  then have "\<exists>ys\<in>lists P. w \<in> concs (map f ys)"
  proof (induction ws arbitrary: w)
    case Nil
    then show ?case by (intro bexI [of _ "[]"]) simp_all
  next
    case (Cons u ws)
    then obtain y ys where "y \<in> P" "u \<in> f y" "ys \<in> lists P" "concat ws \<in> concs (map f ys)" by force
    with Cons.prems(1) show ?case by (intro bexI [of _ "y # ys"]) (auto simp: conc_def)
  qed
  then show "w \<in> (\<Union>ys\<in>lists P. concs (map f ys))" by blast
qed

text \<open>A separated sequence whose parts range over sets.\<close>

lemma list_all2_Cons_image: "{ys. list_all2 R (x # xs) ys} = (\<lambda>(y, ys). y # ys) ` ({y. R x y} \<times> {ys. list_all2 R xs ys})"
  by (auto simp: list_all2_Cons1)

lemma separated_list_all2:
  "(\<Union>ys\<in>{ys. list_all2 R xs ys}. separated (map f ys)) = separated (map (\<lambda>x. \<Union>y\<in>{y. R x y}. f y) xs)"
proof (induction xs)
  case (Cons x xs)
  let ?ys = "{ys. list_all2 R xs ys}"
  show ?case
  proof (cases xs)
    case Nil
    have "{ys. list_all2 R [x] ys} = (\<lambda>y. [y]) ` {y. R x y}" by (auto simp: list_all2_Cons1)
    with Nil show ?thesis by simp
  next
    case (Cons x' xs')
    then have "separated (f y # map f ys) = concs [f y, gaps, {unmarked '',''}, gaps, separated (map f ys)]" if "ys \<in> ?ys" for y ys
      using that by (cases ys) (auto simp: separated_Cons)
    then have "(\<Union>y\<in>{y. R x y}. \<Union>ys\<in>?ys. separated (map f (y # ys))) =
      (\<Union>y\<in>{y. R x y}. \<Union>ys\<in>?ys. concs [f y, gaps, {unmarked '',''}, gaps, separated (map f ys)])"
      by (intro SUP_cong refl) (simp only: list.map)
    also have "\<dots> = concs [\<Union>y\<in>{y. R x y}. f y, gaps, {unmarked '',''}, gaps, \<Union>ys\<in>?ys. separated (map f ys)]"
      by (simp only: concs_simps conc_UNION) (rule SUP_commute)
    finally have r: "(\<Union>y\<in>{y. R x y}. \<Union>ys\<in>?ys. separated (map f (y # ys))) = separated (map (\<lambda>x. \<Union>y\<in>{y. R x y}. f y) (x # xs))"
      unfolding Cons.IH using Cons by simp
    have split: "(\<Union>z\<in>(\<lambda>(y, ys). y # ys) ` (Y \<times> Ys). g z) = (\<Union>y\<in>Y. \<Union>ys\<in>Ys. g (y # ys))"
      for Y Ys and g :: "'a list \<Rightarrow> letter list set" by auto
    show ?thesis unfolding list_all2_Cons_image split [of "\<lambda>ys. separated (map f ys)"] by (rule r)
  qed
qed simp

lemma separated_lists:
  "(\<Union>ys\<in>lists P - {[]}. separated (map f ys)) =
     conc (\<Union>y\<in>P. f y) (star (concs [gaps, {unmarked '',''}, gaps, \<Union>y\<in>P. f y]))"
  (is "?l = conc ?A (star ?B)")
proof -
  let ?g = "\<lambda>ys. concs (map (\<lambda>y. concs [gaps, {unmarked '',''}, gaps, f y]) ys)"
  have e: "separated (map f (y # ys)) = conc (f y) (?g ys)" for y ys
    by (induction ys arbitrary: y) (simp_all add: separated_Cons conc_assoc)
  have "ys \<in> (\<lambda>(y, ys). y # ys) ` (P \<times> lists P)" if "ys \<in> lists P - {[]}" for ys
    using that by (cases ys) auto
  then have l: "lists P - {[]} = (\<lambda>(y, ys). y # ys) ` (P \<times> lists P)" by auto
  have split: "(\<Union>z\<in>(\<lambda>(y, ys). y # ys) ` (Y \<times> Ys). g z) = (\<Union>y\<in>Y. \<Union>ys\<in>Ys. g (y # ys))"
    for Y Ys and g :: "'a list \<Rightarrow> letter list set" by auto
  have "?l = (\<Union>y\<in>P. \<Union>ys\<in>lists P. conc (f y) (?g ys))"
    unfolding l split [of "\<lambda>ys. separated (map f ys)"] e by (rule refl)
  also have "\<dots> = conc ?A (\<Union>ys\<in>lists P. concs (map (\<lambda>y. concs [gaps, {unmarked '',''}, gaps, f y]) ys))"
    by (simp only: conc_UNION) (rule SUP_commute)
  also have "(\<Union>ys\<in>lists P. concs (map (\<lambda>y. concs [gaps, {unmarked '',''}, gaps, f y]) ys)) = star ?B"
    by (simp add: concs_lists_UNION conc_UNION)
  finally show ?thesis .
qed

section \<open>The language of the specification\<close>

lemma lang_word: "regex_lang 256 (word_regex bs) = {marked_word 0 bs}"
proof -
  have "concs (map (\<lambda>b. regex_lang 256 (byte_from [b])) bs) = {marked_word 0 bs}"
    by (induction bs) (auto simp: byte_from_def hash_insert_def letter_of_byte_def conc_def)
  then show ?thesis by (simp add: word_regex_def cat_def comp_def)
qed

lemma lang_text: "regex_lang 256 (text_regex s) = {unmarked s}"
  by (simp add: text_regex_def lang_word)

lemma lang_simps:
  "regex_lang 256 (cat l) = concs (map (regex_lang 256) l)" "regex_lang 256 (union l) = (\<Union>r\<in>set l. regex_lang 256 r)"
  "regex_lang 256 (non_empty_list r) = plus (regex_lang 256 r)" "regex_lang 256 epsilon = {[]}"
  "regex_lang 256 (or_regex a b) = regex_lang 256 a \<union> regex_lang 256 b" "regex_lang 256 (list_regex r) = star (regex_lang 256 r)"
  "regex_lang 256 (terminated a b) = conc (regex_lang 256 a) (regex_lang 256 b)"
  by (auto simp: cat_def union_def non_empty_list_def epsilon_def or_regex_def list_regex_def terminated_def star_plus)

lemma star_singletons: "star ((\<lambda>x. [x]) ` A) = lists A"
proof -
  have "w \<in> star ((\<lambda>x. [x]) ` A)" if "w \<in> lists A" for w
    using that unfolding star_def by (intro CollectI exI [of _ "map (\<lambda>x. [x]) w"]) auto
  then show ?thesis by (fastforce simp: star_def)
qed

lemma lang_bytes: "regex_lang 256 (byte_from bs) = (\<lambda>b. [\<lparr>l_char = b, l_marker = 0\<rparr>]) ` set bs"
  by (auto simp: byte_from_def letter_of_byte_def)

lemma lang_blanks: "regex_lang 256 blanks = gaps"
  using star_singletons [of "(\<lambda>b. \<lparr>l_char = b, l_marker = 0\<rparr>) ` {32, 9, 10}"]
  by (simp add: blanks_def one_blank_def lang_simps lang_bytes gaps_def image_image)

lemma lang_separated_cat:
  "regex_lang 256 (spaced_separated_cat l (text_regex '','')) = separated (map (regex_lang 256) l)"
proof -
  have s: "concs [separated (L # Ls), gaps, {unmarked '',''}, gaps, A] = separated (L # Ls @ [A])" for A L Ls
    by (induction Ls arbitrary: L) (simp_all add: conc_assoc)
  have "regex_lang 256 (fold (\<lambda>r acc. cat [acc, blanks, text_regex '','', blanks, r]) rs a) =
      separated (L # Ls @ map (regex_lang 256) rs)" if "regex_lang 256 a = separated (L # Ls)" for rs a L Ls
    using that
  proof (induction rs arbitrary: a Ls)
    case (Cons r rs)
    have "regex_lang 256 (cat [a, blanks, text_regex '','', blanks, r]) = separated (L # Ls @ [regex_lang 256 r])"
      using s [of L Ls "regex_lang 256 r"] Cons.prems by (simp add: lang_simps lang_blanks lang_text del: separated.simps)
    from Cons.IH [OF this] show ?case by simp
  qed simp
  from this [where Ls = "[]"] show ?thesis
    by (cases l) (simp_all add: spaced_separated_cat_def reduce_or_epsilon_def lang_simps)
qed

lemma lang_collec: "regex_lang 256 (collec opening items closing) = enclosed opening closing (separated (map (regex_lang 256) items))"
  by (simp add: collec_def spaced_delimited_def lang_simps lang_blanks lang_text lang_separated_cat enclosed_def)

lemma lang_list: "regex_lang 256 r = words_of 0 P \<Longrightarrow> regex_lang 256 (jwt_list r) = words_of m (arrays P)"
proof -
  assume r: "regex_lang 256 r = words_of 0 P"
  have "(\<Union>js\<in>lists P. f js) = f [] \<union> (\<Union>js\<in>lists P - {[]}. f js)" for f :: "json list \<Rightarrow> letter list set" by blast
  note this [of "\<lambda>js. separated (map (json_words 0) js)"]
  then have "(\<Union>js\<in>lists P. separated (map (json_words 0) js)) = insert [] (\<Union>js\<in>lists P - {[]}. separated (map (json_words 0) js))"
    by simp
  then have "words_of m (arrays P) = enclosed ''['' '']'' (insert [] (conc (words_of 0 P) (star (concs [gaps, {unmarked '',''}, gaps, words_of 0 P]))))"
    by (simp add: words_of_def arrays_def enclosed_UNION separated_lists)
  then show ?thesis
    by (simp add: jwt_list_def spaced_delimited_def spaced_separated_list_def spaced_separated_non_empty_list_def
      lang_simps lang_blanks lang_text r enclosed_def)
qed

lemma lang_field: "regex_lang 256 (jwt_field name r) = member_words name (regex_lang 256 r)"
  by (simp add: jwt_field_def spaced_cat_def separated_cat_def reduce_or_epsilon_def lang_simps lang_blanks lang_text
    member_words_def conc_assoc)

lemma words_of_objects:
  "words_of m (objects Ps) =
     enclosed ''{'' ''}'' (separated (map (\<lambda>(key, P). member_words key (words_of (jwt_marker key) P)) Ps))"
proof -
  let ?f = "\<lambda>(key, j). member_words key (json_words (jwt_marker key) j)"
  let ?R = "\<lambda>(key, P) (name, j). name = key \<and> j \<in> P"
  have "(\<lambda>p. \<Union>y\<in>{y. ?R p y}. ?f y) = (\<lambda>(key, P). member_words key (words_of (jwt_marker key) P))"
  proof (rule ext)
    fix p :: "string \<times> json set"
    obtain key P where p: "p = (key, P)" by fastforce
    then have "{y. ?R p y} = Pair key ` P" by auto
    then show "(\<Union>y\<in>{y. ?R p y}. ?f y) = (case p of (key, P) \<Rightarrow> member_words key (words_of (jwt_marker key) P))"
      unfolding p by (simp add: words_of_def member_words_UNION)
  qed
  then have "(\<Union>ys\<in>{ys. list_all2 ?R Ps ys}. separated (map ?f ys)) =
      separated (map (\<lambda>(key, P). member_words key (words_of (jwt_marker key) P)) Ps)"
    by (simp only: separated_list_all2)
  then show ?thesis by (simp add: words_of_def objects_def enclosed_UNION)
qed

text \<open>The parts of the specification.\<close>

lemma lang_string: "regex_lang 256 (jwt_string m) = words_of m strings"
proof -
  have inj: "marked_word 1 c = marked_word 1 d \<longleftrightarrow> c = d" for c d
    by (rule inj_map_eq_map) (simp add: inj_def)
  have "{c. [letter_of_byte 0x22] @ marked_word 1 c @ [letter_of_byte 0x22] \<in> regex_lang 256 json_string} = star json_units"
    unfolding json_string_words(1) using inj by auto
  then show ?thesis by (simp add: lang_jwt_string words_of_def strings_def image_image UNION_singleton_eq_range)
qed

lemma lang_number: "regex_lang 256 (non_empty_list digit) = words_of m numbers"
proof -
  let ?f = "\<lambda>b :: 8 word. \<lparr>l_char = b, l_marker = 0 :: nat\<rparr>"
  have "[] \<notin> plus ((\<lambda>x. [x]) ` A)" for A :: "letter set" by (fastforce simp: plus_def neq_Nil_conv)
  then have p: "plus ((\<lambda>x. [x]) ` A) = lists A - {[]}" for A :: "letter set"
    using star_singletons [of A] star_plus [of "(\<lambda>x. [x]) ` A"] by auto
  have "regex_lang 256 (non_empty_list digit) = lists (?f ` {b. 48 \<le> unat b \<and> unat b \<le> 57}) - {[]}"
    using p [of "?f ` {b. 48 \<le> unat b \<and> unat b \<le> 57}"] by (simp add: digit_def lang_simps lang_bytes set_byte_range image_image)
  then show ?thesis by (auto simp: lists_image words_of_def numbers_def)
qed

lemma lang_fields:
  "regex_lang 256 (jwt_string_field name m) = member_words name (words_of m strings)"
  "regex_lang 256 (jwt_int_field name) = member_words name (words_of m numbers)"
  by (simp_all add: jwt_string_field_def jwt_int_field_def lang_field lang_string lang_number [of m])

lemmas lang_parts_jwt = lang_fields lang_field lang_collec lang_list lang_string words_of_objects words_of_Un









section \<open>The bytes determine the markers\<close>

text \<open>
  A scanner with one letter of memory: outside of strings the last byte that is not a gap, with the
  last string; inside, the marker of the string and its contents so far.
\<close>

datatype reader = Outside "8 word" "8 word list" | Inside nat "8 word list" | Escaped nat "8 word list"

definition string_marker :: "8 word \<Rightarrow> 8 word list \<Rightarrow> nat" where
  "string_marker b key = (if b = 0x3A then jwt_marker (map (\<lambda>b. char_of (unat b)) key) else 0)"

fun scan_step :: "reader \<Rightarrow> 8 word \<Rightarrow> nat \<times> reader" where
  "scan_step (Outside p key) b =
     (0, if b = 0x22 then Inside (string_marker p key) [] else if b \<in> {32, 9, 10} then Outside p key else Outside b key)"
| "scan_step (Inside m key) b =
     (if b = 0x22 then (0, Outside b key) else if b = 0x5C then (m, Escaped m (key @ [b])) else (m, Inside m (key @ [b])))"
| "scan_step (Escaped m key) b = (m, Inside m (key @ [b]))"

fun scan :: "reader \<Rightarrow> 8 word list \<Rightarrow> nat list \<times> reader" where
  "scan s [] = ([], s)"
| "scan s (b # bs) = (let (m, s') = scan_step s b; (ms, t) = scan s' bs in (m # ms, t))"


definition carries :: "reader set \<Rightarrow> letter list set \<Rightarrow> reader set \<Rightarrow> bool" where
  "carries S L T \<longleftrightarrow> (\<forall>s\<in>S. \<forall>w\<in>L. fst (scan s (map l_char w)) = map l_marker w \<and> snd (scan s (map l_char w)) \<in> T)"




lemma carries_Un: "carries S (A \<union> B) T \<longleftrightarrow> carries S A T \<and> carries S B T"
  by (auto simp: carries_def)

lemma carries_simps [simp]:
  "carries S {[]} S"
  "carries S {\<lparr>l_char = b, l_marker = m\<rparr> # w} T \<longleftrightarrow> (\<forall>s\<in>S. fst (scan_step s b) = m) \<and> carries ((\<lambda>s. snd (scan_step s b)) ` S) {w} T"
  by (auto simp: carries_def case_prod_beta Let_def)

text \<open>The states in which a value with a marker may begin, and those after a value.\<close>

definition before :: "nat \<Rightarrow> reader set" where
  "before m = {Outside b key |b key. string_marker b key = m}"

definition after :: "reader set" where
  "after = {Outside b key |b key. b \<noteq> 0x3A}"





text \<open>Values that may stand for any marker.\<close>

definition scannable :: "json set \<Rightarrow> bool" where
  "scannable P \<longleftrightarrow> (\<forall>m. carries (before m) (words_of m P) after)"

lemma scannable_Un [simp]: "scannable P \<Longrightarrow> scannable Q \<Longrightarrow> scannable (P \<union> Q)"
  by (simp add: scannable_def words_of_Un carries_Un)

















end
