(* ===== verification/Spec2Isabelle.thy ===== *)
theory Spec2Isabelle
  imports Lookup_Prover Single_Pass Kzg_Sets Jwt_Language
begin

text \<open>
  A verification development for the Midnight zero-knowledge proof system (\<open>midfall\<close>).

  \<^bold>\<open>The program.\<close> A circuit describes its constraints to a \<open>ConstraintSystem\<close>
  (\<open>proofs/src/plonk/circuit.rs\<close>): columns, gates, lookups, trash arguments and equality-enabled
  columns. Key generation runs the circuit once through a floor planner
  (\<open>proofs/src/circuit/floor_planner\<close>), which places its regions into rows and fills the fixed columns,
  the selectors and the copy constraints of an \<open>Assembly\<close> (\<open>plonk/keygen.rs\<close>,
  \<open>plonk/permutation/keygen.rs\<close>). The prover assigns the advice columns, commits to the polynomials of
  the permutation, lookup and trash arguments (\<open>plonk/permutation/prover.rs\<close>, \<open>logup/prover.rs\<close>,
  \<open>trash/prover.rs\<close>), combines all identities into the numerator of a quotient with compiled
  calculation graphs (\<open>plonk/evaluation.rs\<close>), divides by the vanishing polynomial over an extended
  domain (\<open>poly/domain.rs\<close>) and opens everything with KZG (\<open>poly/kzg\<close>). The verifier recomputes the
  identities from the openings (\<open>plonk/mod.rs\<close>). On top, the gadgets of \<open>circuits/\<close> configure
  and lay out chips; among them the scanner (\<open>circuits/src/parsing/scanner\<close>), which translates regular
  expressions to automata and checks in a circuit that assigned bytes are accepted.

  \<^bold>\<open>How effects are written.\<close> A function that returns \<open>Result\<close> and may panic is an \<open>outcome\<close>
  (\<open>Ok\<close>, \<open>Err\<close>, \<open>Panic\<close>); one that only panics returns an option. Hash sets and hash maps are
  duplicate-free lists in the order of insertion, B-tree sets and maps sorted lists, \<open>usize\<close> is \<open>nat\<close>
  where the code cannot overflow (sums of lengths that exist in memory) and a guarded \<open>nat\<close> or a word
  where it matters (the guards of \<open>domain_new\<close>, bytes, the serialisation). Parallel iterators are the
  function of their chunks with the number of threads as an argument, and the theorems hold for every
  number. Fields are any type of class \<open>field\<close>; roots of unity, cosets generators, the batch
  inversion of the crate \<open>ff\<close> and the random values are parameters with their documented laws as
  hypotheses. Witnesses run over the rationals or over the field of order 97 of \<open>Sample_Field\<close>.

  \<^bold>\<open>Theories, in the order of dependence.\<close>

  \<^item> \<open>Midfall_Prelude\<close>: outcomes, checked indexing, \<open>position\<close>, chunks, their rewrite collections.
  \<^item> \<open>Rational_Value\<close> (\<open>utils/rational.rs\<close>, \<open>poly/mod.rs\<close>): rationals with deferred inversion. They
    implement the field, zero denominators standing for 0 (locale \<open>field_implementation\<close>).
  \<^item> \<open>Poly_Arith\<close> (\<open>utils/arithmetic.rs\<close>): evaluation, Kate division, interpolation, \<open>parallelize\<close>.
  \<^item> \<open>Expressions\<close> (\<open>plonk/circuit.rs\<close>): expressions, both evaluators, operators, degree; one locale
    \<open>expression_interpretation\<close> for evaluation in fields, rationals and polynomials.
  \<^item> \<open>Graph_Evaluator\<close>, \<open>Argument_Graphs\<close> (\<open>plonk/evaluation.rs\<close>, \<open>logup.rs\<close>, \<open>trash.rs\<close>): calculation
    graphs with sharing compute the expressions they are compiled from; chunking of lookups.
  \<^item> \<open>Constraint_System\<close> (\<open>plonk/circuit.rs\<close>): the configuration interface and its invariant
    \<open>configured\<close>, selectors turned into fixed columns, degree and blinding bounds.
  \<^item> \<open>Vanishing\<close> (\<open>plonk/evaluation.rs\<close>, \<open>plonk/mod.rs\<close>): the numerator of the prover is the
    combination of the identities of the verifier on every row.
  \<^item> \<open>Permutation_Assembly\<close>, \<open>Permutation_Prover\<close> (\<open>plonk/permutation\<close>): copy constraints form the
    cycles of a permutation; its running products satisfy the identities.
  \<^item> \<open>Fft\<close>, \<open>Evaluation_Domain\<close> (\<open>curves/src/fft.rs\<close>, \<open>poly/domain.rs\<close>): the transform, the changes of
    basis, the quotient by the vanishing polynomial and the construction of the domain.
  \<^item> \<open>Lookup_Prover\<close> (\<open>logup/prover.rs\<close>, \<open>trash/prover.rs\<close>): multiplicities, helpers and running sums
    satisfy the identities when the inputs are in the table, and the code panics when they are not.
  \<^item> \<open>Floor_Planner\<close> (\<open>circuit/layouter.rs\<close>, \<open>v1/strategy.rs\<close>): first fit without overlap.
  \<^item> \<open>Layouter\<close>, \<open>Layouter_Correct\<close>, \<open>Table_Correct\<close> (\<open>v1.rs\<close>, \<open>table_layouter.rs\<close>, \<open>plonk/keygen.rs\<close>):
    what synthesis leaves in the fixed columns, selectors, copies and tables.
  \<^item> \<open>Single_Pass\<close> (\<open>single_pass.rs\<close>): the same for the simple planner.
  \<^item> \<open>Kzg_Sets\<close> (\<open>poly/kzg/utils.rs\<close>): grouping of opening queries and the dummy queries.
  \<^item> \<open>Nfa\<close>, \<open>Automaton\<close> (\<open>scanner/automaton.rs\<close>): automata with marked letters and all their
    constructions. \<open>Automaton_Correct\<close>, \<open>_Ops\<close>, \<open>_Power\<close>, \<open>_Combine\<close>, \<open>_Product\<close>, \<open>_Minimise\<close> and
    \<open>_Run\<close> prove the language of each construction: reachability, repetition and complement, powerset,
    union and concatenation, intersection, Hopcroft's minimisation, and the normalised automaton.
    The explorations share the locale \<open>worklist\<close>, interpreted four times.
  \<^item> \<open>Regex\<close>, \<open>Regex_Correct\<close> (\<open>scanner/regex.rs\<close>): the constructors of regular expressions, flattening
    and the translation. \<open>faithful\<close> names the expressions on which the translation is correct.
  \<^item> \<open>Scanner_Chip\<close>, \<open>Scanner_Library\<close>, \<open>Scanner_Correct\<close> (\<open>scanner/mod.rs\<close>, \<open>automaton_chip.rs\<close>): the
    library of automata as a lookup table, and the region of \<open>parse\<close>, shown sound and complete.
  \<^item> \<open>Serialization\<close> (\<open>scanner/serialization.rs\<close>): the trait \<open>Serialize\<close> as the locale \<open>serialized\<close>,
    kept by every implementation, and interpreted on automata.
  \<^item> \<open>Regex_Shapes\<close>: a syntactic condition \<open>nice\<close> for faithful expressions. Their automata have no
    useless states (\<open>trim\<close>, kept by every construction), so the conversion panics exactly when the
    language leaves a marker open; and what happens to some expressions that are not faithful.
  \<^item> \<open>Scanner_Specs\<close> (\<open>scanner/static_specs.rs\<close>): the words of \<open>json_string\<close>, which has no multi-byte
    characters although its comment announces them, the JWT specification, and the circuit over a
    library of deserialised automata.
  \<^item> \<open>Jwt_Language\<close>: the documented format of JWT credentials as a set of JSON values, stated
    without regular expressions, and a one-pass reader that computes the markers of a credential.
    The automaton of \<open>spec_jwt\<close> exists and accepts the words of exactly these values.

  \<^bold>\<open>Termination and fuel.\<close> No definition runs on fuel. Loops that are not structural are \<open>function\<close>s
  with a measure or \<open>partial_function (option)\<close>s (\<open>t_loop\<close>, \<open>relabel\<close>, \<open>explore\<close>, \<open>hopcroft\<close>), where
  \<open>None\<close> also stands for not returning; that they return is proved: the order of the root bounds
  \<open>t_loop\<close>, the length of the cycle \<open>relabel\<close>, the finite state space \<open>explore\<close>, and the splits and
  pending classes \<open>hopcroft\<close>.

  \<^bold>\<open>Not modelled.\<close> Commitments, transcripts, challenges and the pairing check (external groups and
  hash functions; the drivers \<open>plonk/prover.rs\<close> and \<open>verifier.rs\<close> order calls to them); the curves and
  their Montgomery arithmetic; the gadgets other than the scanner, which are chips of the same kind
  over the modelled interfaces; the aggregation and the verifier gadget; the Solidity generator; the
  intermediate representation and the standard library facade; the development tools. Names,
  annotations and the texts of messages are left out of the modelled parts.
\<close>

end
